(* ===== verification/Prelude.thy ===== *)
theory Prelude
  imports Main "HOL-Library.Word" "HOL-Library.AList" "HOL-Library.Char_ord"
begin

text \<open>
  What every component of the IPv8+ model shares: the machine integers and byte strings of
  the Rust code, big- and little-endian conversion, slices and in-place writes of a buffer,
  the outcome of an operation that may panic, and the three interfaces (locales) that more
  than one component relies on: a fixed-width wire codec, a ring that remembers the most
  recent entries, and a guard that never accepts the same key twice.
  A \<open>usize\<close> that counts bytes or entries is a \<open>nat\<close>: the lengths that occur
  are far below \<open>2^64\<close>.
\<close>

unbundle bit_operations_syntax

section \<open>Machine integers and bytes\<close>

type_synonym u8 = "8 word"
type_synonym u16 = "16 word"
type_synonym u32 = "32 word"
type_synonym u64 = "64 word"
type_synonym u128 = "128 word"
type_synonym bytes = "u8 list"

named_theorems const_defs \<open>the constants of the source, unfolded to numerals\<close>
named_theorems wire \<open>lengths, slices and conversions of wire formats\<close>

text \<open>
  \<open>to_be_bytes\<close> and \<open>to_le_bytes\<close> of the unsigned integers: the low
  \<open>k\<close> bytes of a word, most significant first (last for little-endian).
\<close>

fun to_be_n :: "nat \<Rightarrow> 'a::len word \<Rightarrow> bytes" where
  "to_be_n 0 w = []"
| "to_be_n (Suc k) w = ucast (drop_bit (8 * k) w) # to_be_n k w"

definition to_be16 :: "u16 \<Rightarrow> bytes" where
  "to_be16 x = to_be_n 2 x"

definition to_be32 :: "u32 \<Rightarrow> bytes" where
  "to_be32 x = to_be_n 4 x"

definition to_be64 :: "u64 \<Rightarrow> bytes" where
  "to_be64 x = to_be_n 8 x"

definition to_le32 :: "u32 \<Rightarrow> bytes" where
  "to_le32 x = rev (to_be32 x)"

definition to_le64 :: "u64 \<Rightarrow> bytes" where
  "to_le64 x = rev (to_be64 x)"

text \<open>\<open>from_be_bytes\<close> and \<open>from_le_bytes\<close> of a byte string, for every width.\<close>

fun from_be :: "bytes \<Rightarrow> 'a::len word" where
  "from_be [] = 0"
| "from_be (b # bs) = push_bit (8 * length bs) (ucast b) OR from_be bs"

definition from_le :: "bytes \<Rightarrow> 'a::len word" where
  "from_le bs = from_be (rev bs)"

lemma length_to_be_n [simp]: "length (to_be_n k w) = k"
  by (induction k) simp_all

lemma u8_bit_high: "bit (b :: u8) n \<Longrightarrow> n < 8"
  using bit_imp_le_length [of b n] by simp

lemma u8_allI: "(\<forall>i \<in> set [0..<256]. P (of_nat i)) \<Longrightarrow> P (b :: u8)"
  using unsigned_less [of b, where 'a = nat] by (auto dest!: bspec [where x = "unat b"])

lemma unat_drop_bit: "unat (drop_bit n w) = unat (w :: 'a::len word) div 2 ^ n"
  by (simp add: unsigned_drop_bit_eq)
     (simp add: drop_bit_eq_div take_bit_nat_eq_self)

lemma unat_ucast_up:
  "LENGTH('a) \<le> LENGTH('b) \<Longrightarrow> unat (ucast (w :: 'a::len word) :: 'b::len word) = unat w"
proof -
  assume "LENGTH('a) \<le> LENGTH('b)"
  then have "(2 :: nat) ^ LENGTH('a) \<le> 2 ^ LENGTH('b)" by (rule power_increasing) simp
  then have "unat w < 2 ^ LENGTH('b)" using unsigned_less [of w, where 'a = nat] by linarith
  then show ?thesis by (simp add: unsigned_ucast_eq take_bit_nat_eq_self)
qed

lemma from_be_to_be_n: "from_be (to_be_n k (w :: 'a::len word)) = take_bit (8 * k) w"
proof (induction k)
  case (Suc k)
  show ?case
  proof (rule bit_word_eqI)
    fix n
    assume "n < LENGTH('a)"
    then show "bit (from_be (to_be_n (Suc k) w) :: 'a word) n \<longleftrightarrow> bit (take_bit (8 * Suc k) w) n"
      using Suc by (cases "n < 8 * k") (auto simp: bit_simps)
  qed
qed simp

lemma bit_from_be_imp: "bit (from_be bs :: 'a::len word) n \<Longrightarrow> n < 8 * length bs"
  by (induction bs) (auto simp: bit_simps dest: u8_bit_high)

lemma to_be_n_push:
  "j \<le> k \<Longrightarrow> to_be_n j (push_bit (8 * k) x OR y) = to_be_n j (y :: 'a::len word)"
proof (induction j)
  case (Suc j)
  have "ucast (drop_bit (8 * j) (push_bit (8 * k) x OR y)) = (ucast (drop_bit (8 * j) y) :: u8)"
    using Suc.prems by (auto intro!: bit_word_eqI simp: bit_simps)
  with Suc show ?case by simp
qed simp

lemma to_be_n_from_be:
  "8 * length bs \<le> LENGTH('a) \<Longrightarrow> to_be_n (length bs) (from_be bs :: 'a::len word) = bs"
proof (induction bs)
  case (Cons b bs)
  have "ucast (drop_bit (8 * length bs) (push_bit (8 * length bs) (ucast b) OR from_be bs :: 'a word)) = b"
    using Cons.prems
    by (auto intro!: bit_word_eqI simp: bit_simps dest: bit_from_be_imp u8_bit_high)
  with Cons show ?case by (simp add: to_be_n_push)
qed simp

lemma length_to_be [simp, wire]:
  "length (to_be16 x) = 2" "length (to_be32 y) = 4" "length (to_be64 z) = 8"
  "length (to_le32 y) = 4" "length (to_le64 z) = 8"
  by (simp_all add: to_be16_def to_be32_def to_be64_def to_le32_def to_le64_def)

lemma from_be_to_be [simp, wire]:
  "from_be (to_be16 x) = x" "from_be (to_be32 y) = y" "from_be (to_be64 z) = z"
  by (simp_all add: to_be16_def to_be32_def to_be64_def from_be_to_be_n take_bit_word_eq_self)

lemma from_le_to_le [simp, wire]: "from_le (to_le32 x) = x" "from_le (to_le64 y) = y"
  by (simp_all add: from_le_def to_le32_def to_le64_def)

lemma to_be_from_be:
  "length bs = 2 \<Longrightarrow> to_be16 (from_be bs) = bs"
  "length bs = 4 \<Longrightarrow> to_be32 (from_be bs) = bs"
  "length bs = 8 \<Longrightarrow> to_be64 (from_be bs) = bs"
  using to_be_n_from_be [of bs, where 'a = 16] to_be_n_from_be [of bs, where 'a = 32]
    to_be_n_from_be [of bs, where 'a = 64]
  by (simp_all add: to_be16_def to_be32_def to_be64_def)

lemma to_le_from_le:
  "length bs = 4 \<Longrightarrow> to_le32 (from_le bs) = bs"
  "length bs = 8 \<Longrightarrow> to_le64 (from_le bs) = bs"
  by (simp_all add: to_le32_def to_le64_def from_le_def to_be_from_be)

lemma to_be_inject [simp]:
  "to_be16 x = to_be16 x' \<longleftrightarrow> x = x'"
  "to_be32 y = to_be32 y' \<longleftrightarrow> y = y'"
  "to_be64 z = to_be64 z' \<longleftrightarrow> z = z'"
  "to_le32 y = to_le32 y' \<longleftrightarrow> y = y'"
  "to_le64 z = to_le64 z' \<longleftrightarrow> z = z'"
  by (metis from_be_to_be(1)) (metis from_be_to_be(2), metis from_be_to_be(3),
    metis from_le_to_le(1), metis from_le_to_le(2))

section \<open>Slices and buffer writes\<close>

text \<open>\<open>&xs[a..b]\<close> where the code has checked \<open>a \<le> b \<le> xs.len()\<close>.\<close>

definition slice :: "nat \<Rightarrow> nat \<Rightarrow> 'a list \<Rightarrow> 'a list" where
  "slice a b xs = take (b - a) (drop a xs)"

text \<open>\<open>buf[i..i+src.len()].copy_from_slice(src)\<close>, with the range inside the buffer.\<close>

definition write_at :: "nat \<Rightarrow> 'a list \<Rightarrow> 'a list \<Rightarrow> 'a list" where
  "write_at i src buf = take i buf @ src @ drop (i + length src) buf"

lemma length_slice [simp, wire]: "length (slice a b xs) = min (b - a) (length xs - a)"
  by (auto simp: slice_def)

lemma slice_append_right [wire]:
  "length xs = a \<Longrightarrow> a \<le> b \<Longrightarrow> slice a b (xs @ ys) = take (b - a) ys"
  by (simp add: slice_def)

lemma slice_nth: "i < b - a \<Longrightarrow> a + i < length xs \<Longrightarrow> slice a b xs ! i = xs ! (a + i)"
  by (simp add: slice_def)

lemma length_write_at [simp, wire]:
  "i + length src \<le> length buf \<Longrightarrow> length (write_at i src buf) = length buf"
  by (simp add: write_at_def)

lemma write_at_append:
  "length pre = i \<Longrightarrow> length mid = length src \<Longrightarrow>
   write_at i src (pre @ mid @ post) = pre @ src @ post"
  by (simp add: write_at_def)

lemma write_at_0: "write_at 0 src buf = src @ drop (length src) buf"
  by (simp add: write_at_def)

lemma write_at_step:
  "length pre = i \<Longrightarrow> write_at i src (pre @ rest) = (pre @ src) @ drop (length src) rest"
  by (simp add: write_at_def)

fun chunks_of :: "nat \<Rightarrow> 'a list \<Rightarrow> 'a list list" where
  "chunks_of n xs = (if n = 0 \<or> xs = [] then [] else take n xs # chunks_of n (drop n xs))"

declare chunks_of.simps [simp del]

lemma chunks_of_Nil [simp]: "chunks_of n [] = []"
  by (simp add: chunks_of.simps)

lemma chunks_of_append: "0 < n \<Longrightarrow> length xs = n \<Longrightarrow> chunks_of n (xs @ ys) = xs # chunks_of n ys"
  by (subst chunks_of.simps) auto

lemma slice_full: "a = 0 \<Longrightarrow> length xs \<le> b \<Longrightarrow> slice a b xs = xs"
  by (simp add: slice_def)

lemma slice_drop: "slice a b (drop c xs) = slice (a + c) (b + c) xs"
  by (simp add: slice_def add.commute)

lemma slice_append_left [wire]: "b \<le> length xs \<Longrightarrow> slice a b (xs @ ys) = slice a b xs"
  by (simp add: slice_def)

lemma slice_append_skip [wire]:
  "length xs \<le> a \<Longrightarrow> slice a b (xs @ ys) = slice (a - length xs) (b - length xs) ys"
  by (simp add: slice_def)

lemma take_drop_slices: "a \<le> b \<Longrightarrow> slice a b xs @ drop b xs = drop a xs"
  unfolding slice_def by (metis append_take_drop_id drop_drop le_add_diff_inverse2)

lemma slice_slices: "a \<le> b \<Longrightarrow> b \<le> c \<Longrightarrow> slice a b xs @ slice b c xs = slice a c xs"
proof -
  assume "a \<le> b" "b \<le> c"
  then obtain i j where "b = a + i" "c = b + j" by (metis le_iff_add)
  then show ?thesis by (simp add: slice_def take_add add.commute)
qed

lemma set_slice_subset: "set (slice a b xs) \<subseteq> set xs"
  unfolding slice_def by (meson in_set_dropD in_set_takeD subsetI)

lemma slice_concat_uniform:
  assumes "\<forall>ys \<in> set yss. length ys = n" and "i < length yss"
  shows "slice (n * i) (n * i + n) (concat yss) = yss ! i"
  using assms
proof (induction yss arbitrary: i)
  case (Cons ys yss)
  show ?case
  proof (cases i)
    case 0
    with Cons.prems show ?thesis by (simp add: slice_def)
  next
    case (Suc j)
    have "slice (n * i) (n * i + n) (concat (ys # yss)) = slice (n * j) (n * j + n) (concat yss)"
      using Cons.prems Suc by (simp add: slice_def)
    with Cons Suc show ?thesis by simp
  qed
qed simp

section \<open>Text\<close>

text \<open>\<open>str::from_utf8\<close>: the well-formed UTF-8 byte strings (no surrogates, no overlong forms).\<close>

definition utf8_cont :: "u8 \<Rightarrow> bool" where
  "utf8_cont b \<longleftrightarrow> 0x80 \<le> b \<and> b \<le> 0xBF"

fun utf8_valid :: "bytes \<Rightarrow> bool" where
  "utf8_valid [] = True"
| "utf8_valid (b # bs) =
    (if b < 0x80 then utf8_valid bs
     else if 0xC2 \<le> b \<and> b \<le> 0xDF then 1 \<le> length bs \<and> utf8_cont (bs ! 0) \<and> utf8_valid (drop 1 bs)
     else if 0xE0 \<le> b \<and> b \<le> 0xEF then 2 \<le> length bs \<and> utf8_cont (bs ! 0) \<and> utf8_cont (bs ! 1)
       \<and> (b = 0xE0 \<longrightarrow> 0xA0 \<le> bs ! 0) \<and> (b = 0xED \<longrightarrow> bs ! 0 \<le> 0x9F) \<and> utf8_valid (drop 2 bs)
     else if 0xF0 \<le> b \<and> b \<le> 0xF4 then 3 \<le> length bs \<and> utf8_cont (bs ! 0) \<and> utf8_cont (bs ! 1)
       \<and> utf8_cont (bs ! 2) \<and> (b = 0xF0 \<longrightarrow> 0x90 \<le> bs ! 0) \<and> (b = 0xF4 \<longrightarrow> bs ! 0 \<le> 0x8F)
       \<and> utf8_valid (drop 3 bs)
     else False)"

lemma utf8_valid_ascii: "list_all (\<lambda>b. b < 0x80) bs \<Longrightarrow> utf8_valid bs"
  by (induction bs) simp_all

text \<open>\<open>split\<close> of a byte string at every separator; there is always at least one part.\<close>

fun split_on :: "'a \<Rightarrow> 'a list \<Rightarrow> 'a list list" where
  "split_on s [] = [[]]"
| "split_on s (x # xs) =
    (if x = s then [] # split_on s xs
     else (case split_on s xs of [] \<Rightarrow> [[x]] | p # ps \<Rightarrow> (x # p) # ps))"

text \<open>\<open>join\<close> with a one-byte separator.\<close>

fun join_with :: "'a \<Rightarrow> 'a list list \<Rightarrow> 'a list" where
  "join_with s [] = []"
| "join_with s [x] = x"
| "join_with s (x # y # ys) = x @ [s] @ join_with s (y # ys)"

lemma split_on_ne [simp]: "split_on s xs \<noteq> []"
  by (cases xs) (auto split: list.splits)

lemma split_on_append:
  "s \<notin> set xs \<Longrightarrow> split_on s (xs @ s # ys) = xs # split_on s ys"
  "s \<notin> set xs \<Longrightarrow> split_on s xs = [xs]"
  by (induction xs) auto

lemma split_on_join:
  "xs \<noteq> [] \<Longrightarrow> \<forall>x \<in> set xs. s \<notin> set x \<Longrightarrow> split_on s (join_with s xs) = xs"
  by (induction s xs rule: join_with.induct) (simp_all add: split_on_append)

lemma join_split_on: "join_with s (split_on s xs) = xs"
proof (induction xs)
  case (Cons x xs)
  obtain p ps where "split_on s xs = p # ps" by (cases "split_on s xs") auto
  with Cons show ?case by (cases ps) auto
qed simp

section \<open>Operations that may panic\<close>

text \<open>
  A slice out of range, a failed \<open>expect\<close> or an \<open>unwrap\<close> of \<open>None\<close> ends the
  process (the release profile aborts). Operations with such a path return an outcome.
\<close>

datatype ('e, 'a) outcome = Ok 'a | Err 'e | Panic

definition ok_of :: "'e + 'a \<Rightarrow> 'a option" where
  "ok_of r = (case r of Inl _ \<Rightarrow> None | Inr x \<Rightarrow> Some x)"

lemma ok_of_simps [simp]: "ok_of (Inl e) = None" "ok_of (Inr x) = Some x"
  by (simp_all add: ok_of_def)

section \<open>Interface: a fixed-width wire codec\<close>

text \<open>
  An encoder whose output always has \<open>n\<close> bytes, and its decoder. Several records of
  the program are stored as arrays of such entries.
\<close>

locale fixed_codec =
  fixes enc :: "'a \<Rightarrow> bytes"
    and dec :: "bytes \<Rightarrow> 'a option"
    and wf :: "'a \<Rightarrow> bool"
    and width :: nat
  assumes dec_enc: "wf x \<Longrightarrow> dec (enc x) = Some x"
    and length_enc: "wf x \<Longrightarrow> length (enc x) = width"
    and width_pos: "0 < width"
begin

lemma enc_inject: "wf x \<Longrightarrow> wf y \<Longrightarrow> enc x = enc y \<longleftrightarrow> x = y"
  by (metis dec_enc option.inject)

lemma length_concat_enc: "\<forall>x \<in> set xs. wf x \<Longrightarrow> length (concat (map enc xs)) = width * length xs"
  by (induction xs) (simp_all add: length_enc)

lemma slice_concat_enc:
  "\<forall>x \<in> set xs. wf x \<Longrightarrow> i < length xs \<Longrightarrow>
   slice (width * i) (width * i + width) (concat (map enc xs)) = enc (xs ! i)"
  using slice_concat_uniform [of "map enc xs" width i] by (auto simp: length_enc)

lemma dec_concat_enc:
  assumes "\<forall>x \<in> set xs. wf x"
  shows "map (\<lambda>i. dec (slice (width * i) (width * i + width) (concat (map enc xs))))
           [0..<length xs] = map Some xs"
  by (rule nth_equalityI) (use assms in \<open>auto simp: slice_concat_enc dec_enc\<close>)

lemma concat_enc_inject:
  assumes "\<forall>x \<in> set xs. wf x" "\<forall>y \<in> set ys. wf y"
    and "concat (map enc xs) = concat (map enc ys)"
  shows "xs = ys"
proof -
  have len: "length xs = length ys"
    using assms length_concat_enc [of xs] length_concat_enc [of ys] width_pos by simp
  have "map Some xs = map Some ys"
    using dec_concat_enc [OF assms(2)]
    unfolding dec_concat_enc [OF assms(1), symmetric] assms(3) len .
  then show ?thesis by (metis list.inj_map_strong option.inject)
qed

end

section \<open>Interface: a ring of the most recent keys\<close>

text \<open>
  A bounded queue that forgets its oldest key when it is full: the list of seen keys after
  \<open>remember\<close> is the last \<open>cap\<close> of the old list and the new key.
\<close>

locale recent_ring =
  fixes remember :: "'k \<Rightarrow> 's \<Rightarrow> 's"
    and seen :: "'s \<Rightarrow> 'k list"
    and cap :: nat
  assumes seen_remember: "length (seen s) \<le> cap \<Longrightarrow>
      seen (remember k s) = drop (Suc (length (seen s)) - cap) (seen s @ [k])"
    and cap_pos: "0 < cap"
begin

lemma bounded: "length (seen s) \<le> cap \<Longrightarrow> length (seen (remember k s)) \<le> cap"
  by (simp add: seen_remember)

lemma just_seen:
  assumes "length (seen s) \<le> cap"
  shows "k \<in> set (seen (remember k s))"
proof -
  have "Suc (length (seen s)) - cap \<le> length (seen s)" using cap_pos by simp
  then show ?thesis using assms by (simp add: seen_remember)
qed

lemma bounded_fold: "length (seen s) \<le> cap \<Longrightarrow> length (seen (fold remember ks s)) \<le> cap"
  by (induction ks arbitrary: s) (simp_all add: bounded)

lemma seen_fold:
  "length (seen s) \<le> cap \<Longrightarrow>
   seen (fold remember ks s) = drop (length (seen s) + length ks - cap) (seen s @ ks)"
proof (induction ks arbitrary: s)
  case (Cons k ks)
  let ?d = "Suc (length (seen s)) - cap"
  have l: "length (seen (remember k s)) = Suc (length (seen s)) - ?d"
    using Cons.prems by (simp add: seen_remember)
  have "seen (fold remember (k # ks) s) =
      drop (length (seen (remember k s)) + length ks - cap) (seen (remember k s) @ ks)"
    using Cons.IH [OF bounded [OF Cons.prems]] by simp
  also have "seen (remember k s) @ ks = drop ?d (seen s @ k # ks)"
    using Cons.prems cap_pos by (simp add: seen_remember)
  also have "drop (length (seen (remember k s)) + length ks - cap) (drop ?d (seen s @ k # ks)) =
      drop (length (seen (remember k s)) + length ks - cap + ?d) (seen s @ k # ks)"
    by (rule drop_drop)
  also have "length (seen (remember k s)) + length ks - cap + ?d = length (seen s) + length (k # ks) - cap"
    using Cons.prems l by (cases "length (seen s) = cap") auto
  finally show ?case .
qed simp

lemma remembered_for_a_round:
  assumes "length (seen s) \<le> cap" "length ks < cap"
  shows "k \<in> set (seen (fold remember ks (remember k s)))"
proof -
  let ?t = "fold remember (k # ks) s"
  have "length (seen s) + length (k # ks) - cap \<le> length (seen s)" using assms by simp
  then show ?thesis using seen_fold [OF assms(1), of "k # ks"] by simp
qed

end

section \<open>Interface: a guard against replay\<close>

text \<open>The requests that a guard accepts, in order, out of all that it is offered.\<close>

fun accepted_run :: "('s \<Rightarrow> 'c \<Rightarrow> 's \<times> bool) \<Rightarrow> 's \<Rightarrow> 'c list \<Rightarrow> 'c list" where
  "accepted_run step s [] = []"
| "accepted_run step s (c # cs) =
    (let (s', ok) = step s c in if ok then c # accepted_run step s' cs else accepted_run step s' cs)"

locale replay_guard =
  fixes step :: "'s \<Rightarrow> 'c \<Rightarrow> 's \<times> bool"
    and key :: "'c \<Rightarrow> 'k"
    and inv :: "'s \<Rightarrow> bool"
    and spent :: "'s \<Rightarrow> 'k \<Rightarrow> bool"
  assumes step_inv: "inv s \<Longrightarrow> inv (fst (step s c))"
    and accept_fresh: "inv s \<Longrightarrow> snd (step s c) \<Longrightarrow> \<not> spent s (key c)"
    and accept_spends: "inv s \<Longrightarrow> snd (step s c) \<Longrightarrow> spent (fst (step s c)) (key c)"
    and spent_stays: "inv s \<Longrightarrow> spent s k \<Longrightarrow> spent (fst (step s c)) k"
begin

lemma accepted_fresh: "inv s \<Longrightarrow> c \<in> set (accepted_run step s cs) \<Longrightarrow> \<not> spent s (key c)"
proof (induction cs arbitrary: s)
  case (Cons d ds)
  obtain s' ok where st: "step s d = (s', ok)" by (metis surj_pair)
  have "inv s'" using step_inv [OF Cons.prems(1), of d] st by simp
  moreover have "\<not> spent s' (key c) \<Longrightarrow> \<not> spent s (key c)"
    using spent_stays [OF Cons.prems(1), of "key c" d] st by auto
  moreover have "ok \<Longrightarrow> \<not> spent s (key d)" using accept_fresh [OF Cons.prems(1), of d] st by simp
  ultimately show ?case using Cons.IH [of s'] Cons.prems(2) st by (auto split: if_splits)
qed simp

theorem never_twice: "inv s \<Longrightarrow> distinct (map key (accepted_run step s cs))"
proof (induction cs arbitrary: s)
  case (Cons d ds)
  obtain s' ok where st: "step s d = (s', ok)" by (metis surj_pair)
  have inv': "inv s'" using step_inv [OF Cons.prems, of d] st by simp
  have "ok \<Longrightarrow> spent s' (key d)" using accept_spends [OF Cons.prems, of d] st by simp
  then have "ok \<Longrightarrow> key d \<notin> key ` set (accepted_run step s' ds)"
    using accepted_fresh [OF inv'] by (metis imageE)
  then show ?case using Cons.IH [OF inv'] st by simp
qed simp

end

end
