(* ===== verification/CodecHeader.thy ===== *)
theory CodecHeader
  imports Prelude
begin

text \<open>
  The addresses and packet headers of \<open>ipv8-codec/src/header.rs\<close>: the 128-bit
  address with its wire, canonical text and display forms, the flag bits, the extension header
  types and the header record. Text is the UTF-8 byte string of the Rust \<open>str\<close>.
\<close>

section \<open>Constants\<close>

definition BASE_HEADER_SIZE :: nat where [const_defs]: "BASE_HEADER_SIZE = 40"
definition MAX_PAYLOAD_LEN :: u16 where [const_defs]: "MAX_PAYLOAD_LEN = 65467"
definition MAX_PACKET_LEN :: nat where [const_defs]: "MAX_PACKET_LEN = 65507"
definition IPV8_VERSION :: u8 where [const_defs]: "IPV8_VERSION = 8"
definition MAX_EXT_CHAIN :: nat where [const_defs]: "MAX_EXT_CHAIN = 64"
definition PROTOCOL_MAGIC :: u16 where [const_defs]: "PROTOCOL_MAGIC = 0xFB14"

section \<open>Addresses\<close>

record ipv8_address =
  addr_protocol :: u16
  addr_region_hi :: u16
  addr_region_mid :: u16
  addr_region_lo :: u16
  addr_subnet1 :: u16
  addr_subnet2 :: u16
  addr_node_hash :: u16
  addr_session_id :: u16

definition addr_new ::
  "u16 \<Rightarrow> u16 \<Rightarrow> u16 \<Rightarrow> u16 \<Rightarrow> u16 \<Rightarrow> u16 \<Rightarrow> u16 \<Rightarrow> u16 \<Rightarrow> ipv8_address" where
  "addr_new protocol region_hi region_mid region_lo subnet1 subnet2 node_hash session_id =
    \<lparr>addr_protocol = protocol, addr_region_hi = region_hi, addr_region_mid = region_mid,
     addr_region_lo = region_lo, addr_subnet1 = subnet1, addr_subnet2 = subnet2,
     addr_node_hash = node_hash, addr_session_id = session_id\<rparr>"

definition addr_with_region :: "u64 \<Rightarrow> u16 \<Rightarrow> u16 \<Rightarrow> u16 \<Rightarrow> u16 \<Rightarrow> ipv8_address" where
  "addr_with_region region subnet1 subnet2 node_hash session_id =
    \<lparr>addr_protocol = PROTOCOL_MAGIC, addr_region_hi = ucast (drop_bit 32 region),
     addr_region_mid = ucast (drop_bit 16 region), addr_region_lo = ucast region,
     addr_subnet1 = subnet1, addr_subnet2 = subnet2,
     addr_node_hash = node_hash, addr_session_id = session_id\<rparr>"

definition addr_region :: "ipv8_address \<Rightarrow> u64" where
  "addr_region a = push_bit 32 (ucast (addr_region_hi a)) OR
     push_bit 16 (ucast (addr_region_mid a)) OR ucast (addr_region_lo a)"

text \<open>\<open>write_to\<close> into the first 16 bytes of a buffer; it always returns true.\<close>

definition addr_write_to :: "ipv8_address \<Rightarrow> bytes \<Rightarrow> bytes" where
  "addr_write_to a buf = (
     let buf = write_at 0 (to_be16 (addr_protocol a)) buf;
         buf = write_at 2 (to_be16 (addr_region_hi a)) buf;
         buf = write_at 4 (to_be16 (addr_region_mid a)) buf;
         buf = write_at 6 (to_be16 (addr_region_lo a)) buf;
         buf = write_at 8 (to_be16 (addr_subnet1 a)) buf;
         buf = write_at 10 (to_be16 (addr_subnet2 a)) buf;
         buf = write_at 12 (to_be16 (addr_node_hash a)) buf;
         buf = write_at 14 (to_be16 (addr_session_id a)) buf
     in buf)"

definition to_bytes :: "ipv8_address \<Rightarrow> bytes" where
  "to_bytes a = addr_write_to a (replicate 16 0)"

text \<open>\<open>from_wire\<close>, \<open>read_addr\<close> of decode.rs and \<open>addr_from_wire\<close> of
  layouts.rs all read the eight big-endian fields of 16 bytes; the first cannot fail on the
  16 byte array that its type demands.\<close>

definition from_wire :: "bytes \<Rightarrow> ipv8_address option" where
  "from_wire wire = Some
    \<lparr>addr_protocol = from_be (slice 0 2 wire), addr_region_hi = from_be (slice 2 4 wire),
     addr_region_mid = from_be (slice 4 6 wire), addr_region_lo = from_be (slice 6 8 wire),
     addr_subnet1 = from_be (slice 8 10 wire), addr_subnet2 = from_be (slice 10 12 wire),
     addr_node_hash = from_be (slice 12 14 wire), addr_session_id = from_be (slice 14 16 wire)\<rparr>"

definition hex_digits :: bytes where
  "hex_digits = map of_char ''0123456789abcdef''"

definition hex_byte :: "u8 \<Rightarrow> bytes" where
  "hex_byte b = [hex_digits ! unat (drop_bit 4 b), hex_digits ! unat (b AND 0x0F)]"

definition to_canonical_string :: "ipv8_address \<Rightarrow> bytes" where
  "to_canonical_string a = concat (map hex_byte (to_bytes a))"

definition to_display_string :: "ipv8_address \<Rightarrow> bytes" where
  "to_display_string a = concat (map (\<lambda>(i, chunk).
     (if i > 0 then [of_char (CHR '':'')] else []) @ hex_byte (chunk ! 0) @ hex_byte (chunk ! 1))
     (enumerate 0 (chunks_of 2 (to_bytes a))))"

datatype addr_parse_error = Addr_Format | Addr_BadProtocol

definition is_ascii_hexdigit :: "u8 \<Rightarrow> bool" where
  "is_ascii_hexdigit b \<longleftrightarrow> 0x30 \<le> b \<and> b \<le> 0x39 \<or> 0x61 \<le> b \<and> b \<le> 0x66 \<or> 0x41 \<le> b \<and> b \<le> 0x46"

definition hex_val :: "u8 \<Rightarrow> u8" where
  "hex_val b = (if 0x30 \<le> b \<and> b \<le> 0x39 then b - 0x30
     else if 0x61 \<le> b \<and> b \<le> 0x66 then b - 0x61 + 10
     else if 0x41 \<le> b \<and> b \<le> 0x46 then b - 0x41 + 10
     else 0)"

definition from_canonical_str :: "bytes \<Rightarrow> addr_parse_error + ipv8_address" where
  "from_canonical_str s = (
     if length s \<noteq> 32 \<or> \<not> list_all is_ascii_hexdigit s then Inl Addr_Format
     else
       let wire = map (\<lambda>i. push_bit 4 (hex_val (s ! (i * 2))) OR hex_val (s ! (i * 2 + 1))) [0..<16]
       in case from_wire wire of
            None \<Rightarrow> Inl Addr_Format
          | Some addr \<Rightarrow>
              if addr_protocol addr \<noteq> PROTOCOL_MAGIC then Inl Addr_BadProtocol else Inr addr)"

section \<open>Flags\<close>

definition QOS_LEVEL_MASK :: u16 where [const_defs]: "QOS_LEVEL_MASK = 0x000F"
definition FLAG_ENCRYPTED :: u16 where [const_defs]: "FLAG_ENCRYPTED = push_bit 4 1"
definition FLAG_FRAGMENT :: u16 where [const_defs]: "FLAG_FRAGMENT = push_bit 5 1"
definition FLAG_HAS_EXTENSION :: u16 where [const_defs]: "FLAG_HAS_EXTENSION = push_bit 6 1"
definition FLAG_RESERVED_MASK :: u16 where [const_defs]: "FLAG_RESERVED_MASK = 0xFF80"

definition qos_level :: "u16 \<Rightarrow> u8" where
  "qos_level flags = ucast (flags AND QOS_LEVEL_MASK)"

definition is_encrypted :: "u16 \<Rightarrow> bool" where
  "is_encrypted flags \<longleftrightarrow> flags AND FLAG_ENCRYPTED \<noteq> 0"

definition is_fragment :: "u16 \<Rightarrow> bool" where
  "is_fragment flags \<longleftrightarrow> flags AND FLAG_FRAGMENT \<noteq> 0"

definition has_extension :: "u16 \<Rightarrow> bool" where
  "has_extension flags \<longleftrightarrow> flags AND FLAG_HAS_EXTENSION \<noteq> 0"

definition reserved_ok :: "u16 \<Rightarrow> bool" where
  "reserved_ok flags \<longleftrightarrow> flags AND FLAG_RESERVED_MASK = 0"

section \<open>Extension headers and the packet header\<close>

definition ROUTE_TRACE_DOMAIN :: bytes where
  "ROUTE_TRACE_DOMAIN = map of_char ''ipv8plus-routetrace''"

definition AGENT_CARD_DOMAIN :: bytes where
  "AGENT_CARD_DOMAIN = map of_char ''ipv8plus-agentcard''"

datatype ext_type_t = Ext_None | IdentityToken | SemanticTag | QoSReservation | AgentCard
  | RouteTrace | Fragment | Unknown u8

fun ext_wire :: "ext_type_t \<Rightarrow> u8" where
  "ext_wire Ext_None = 0"
| "ext_wire IdentityToken = 1"
| "ext_wire SemanticTag = 2"
| "ext_wire QoSReservation = 3"
| "ext_wire AgentCard = 4"
| "ext_wire RouteTrace = 5"
| "ext_wire Fragment = 6"
| "ext_wire (Unknown v) = v"

definition ext_from_u8 :: "u8 \<Rightarrow> ext_type_t" where
  "ext_from_u8 v = (
     if v = 0 then Ext_None
     else if v = 1 then IdentityToken
     else if v = 2 then SemanticTag
     else if v = 3 then QoSReservation
     else if v = 4 then AgentCard
     else if v = 5 then RouteTrace
     else if v = 6 then Fragment
     else Unknown v)"

record ext_header =
  ext_type :: ext_type_t
  ext_payload :: bytes

definition ext_new :: "ext_type_t \<Rightarrow> bytes \<Rightarrow> ext_header option" where
  "ext_new ty payload = (
     if ty = Ext_None then None
     else if length payload mod 8 \<noteq> 0 \<or> length payload div 8 = 0 \<or> length payload div 8 > 255 then None
     else Some \<lparr>ext_type = ty, ext_payload = payload\<rparr>)"

definition ext_len :: "ext_header \<Rightarrow> u8" where
  "ext_len e = of_nat (length (ext_payload e) div 8)"

definition wire_size :: "ext_header \<Rightarrow> nat" where
  "wire_size e = 2 + length (ext_payload e)"

record ipv8_header =
  hdr_version :: u8
  hdr_min_compat_ver :: u8
  hdr_flags :: u16
  hdr_payload_len :: u16
  hdr_hop_limit :: u8
  hdr_next_header :: u8
  hdr_src_addr :: ipv8_address
  hdr_dst_addr :: ipv8_address
  hdr_ext_headers :: "ext_header list"

definition header_new :: "ipv8_address \<Rightarrow> ipv8_address \<Rightarrow> u16 \<Rightarrow> ipv8_header" where
  "header_new src dst payload_len =
    \<lparr>hdr_version = IPV8_VERSION, hdr_min_compat_ver = 0, hdr_flags = 0,
     hdr_payload_len = payload_len, hdr_hop_limit = 64, hdr_next_header = 0,
     hdr_src_addr = src, hdr_dst_addr = dst, hdr_ext_headers = []\<rparr>"

text \<open>\<open>ext_headers.first().map_or(0, |e| e.ext_type.wire())\<close>, the pointer to a chain.\<close>

definition first_type :: "ext_header list \<Rightarrow> u8" where
  "first_type es = (case es of [] \<Rightarrow> 0 | e # _ \<Rightarrow> ext_wire (ext_type e))"

definition attach_ext_headers :: "ipv8_header \<Rightarrow> ext_header list \<Rightarrow> ipv8_header" where
  "attach_ext_headers hdr es = hdr
    \<lparr>hdr_next_header := first_type es,
     hdr_flags := (if es = [] then hdr_flags hdr AND NOT FLAG_HAS_EXTENSION
                   else hdr_flags hdr OR FLAG_HAS_EXTENSION),
     hdr_ext_headers := es\<rparr>"

section \<open>Addresses on the wire\<close>

lemma addr_write_to_fields: "addr_write_to a buf =
    (to_be16 (addr_protocol a) @ to_be16 (addr_region_hi a) @ to_be16 (addr_region_mid a) @
     to_be16 (addr_region_lo a) @ to_be16 (addr_subnet1 a) @ to_be16 (addr_subnet2 a) @
     to_be16 (addr_node_hash a) @ to_be16 (addr_session_id a)) @ drop 16 buf"
  unfolding addr_write_to_def Let_def
  by (simp del: append_assoc add: write_at_0 write_at_step)

lemma to_bytes_eq: "to_bytes a =
    to_be16 (addr_protocol a) @ to_be16 (addr_region_hi a) @ to_be16 (addr_region_mid a) @
    to_be16 (addr_region_lo a) @ to_be16 (addr_subnet1 a) @ to_be16 (addr_subnet2 a) @
    to_be16 (addr_node_hash a) @ to_be16 (addr_session_id a)"
  by (simp add: to_bytes_def addr_write_to_fields)

lemma length_to_bytes [simp, wire]: "length (to_bytes a) = 16"
  by (simp add: to_bytes_eq)

lemma addr_write_to_eq: "addr_write_to a buf = to_bytes a @ drop 16 buf"
  by (simp add: to_bytes_eq addr_write_to_fields)

lemma from_wire_to_bytes [simp]: "from_wire (to_bytes a) = Some a"
  by (simp add: from_wire_def to_bytes_eq slice_append_left slice_append_skip slice_full)

lemma split_slices16:
  "length w = 16 \<Longrightarrow> slice 0 2 w @ slice 2 4 w @ slice 4 6 w @ slice 6 8 w @ slice 8 10 w @
     slice 10 12 w @ slice 12 14 w @ slice 14 16 w = w"
  by (simp add: slice_slices slice_full)

lemma to_bytes_from_wire:
  "length w = 16 \<Longrightarrow> from_wire w = Some a \<Longrightarrow> to_bytes a = w"
  by (auto simp: from_wire_def to_bytes_eq to_be_from_be split_slices16)

interpretation addr_codec: fixed_codec to_bytes from_wire "\<lambda>_. True" 16
  by unfold_locales simp_all

lemma to_bytes_inject [simp]: "to_bytes a = to_bytes b \<longleftrightarrow> a = b"
  by (rule addr_codec.enc_inject) simp_all

section \<open>Addresses as text\<close>

lemma hex_digits_eval: "hex_digits = [0x30, 0x31, 0x32, 0x33, 0x34, 0x35, 0x36, 0x37,
    0x38, 0x39, 0x61, 0x62, 0x63, 0x64, 0x65, 0x66]"
  by (simp add: hex_digits_def)

lemma hex_digit_val:
  assumes "n < 16"
  shows "hex_val (hex_digits ! n) = of_nat n" "is_ascii_hexdigit (hex_digits ! n)"
proof -
  have "\<forall>n \<in> set [0..<16]. hex_val (hex_digits ! n) = of_nat n \<and> is_ascii_hexdigit (hex_digits ! n)"
    unfolding hex_digits_eval by code_simp
  with assms show "hex_val (hex_digits ! n) = of_nat n" "is_ascii_hexdigit (hex_digits ! n)"
    by auto
qed

lemma nibble_less: "unat (drop_bit 4 (b :: u8)) < 16 \<and> unat (b AND 0x0F) < 16"
proof
  show "unat (drop_bit 4 b) < 16"
    using unsigned_less [of b, where 'a = nat]
    by (simp add: unat_drop_bit less_mult_imp_div_less)
  have "b AND 0x0F \<le> 0x0F" by (rule word_and_le1)
  then show "unat (b AND 0x0F) < 16" by (simp add: word_le_nat_alt)
qed

lemma nibbles_join: "push_bit 4 (drop_bit 4 b) OR (b AND 0x0F) = (b :: u8)"
proof -
  have "b AND mask 4 = b AND 0x0F" by (simp add: mask_eq_exp_minus_1)
  moreover have "push_bit 4 (drop_bit 4 b) OR (b AND mask 4) = b"
    by (auto intro!: bit_word_eqI simp: bit_simps)
  ultimately show ?thesis by simp
qed

lemma hex_byte_join:
  "push_bit 4 (hex_val (hex_byte b ! 0)) OR hex_val (hex_byte b ! 1) = b"
  using nibble_less [of b]
  by (simp add: hex_byte_def hex_digit_val nibbles_join)

lemma length_hex_byte [simp]: "length (hex_byte b) = 2"
  by (simp add: hex_byte_def)

lemma hex_byte_digits: "list_all is_ascii_hexdigit (hex_byte b)"
  using nibble_less [of b] by (simp add: hex_byte_def hex_digit_val)

lemma hex_bytes_nth:
  "i < length bs \<Longrightarrow> concat (map hex_byte bs) ! (i * 2) = hex_byte (bs ! i) ! 0"
  "i < length bs \<Longrightarrow> concat (map hex_byte bs) ! (i * 2 + 1) = hex_byte (bs ! i) ! 1"
proof -
  assume i: "i < length bs"
  have s: "slice (2 * i) (2 * i + 2) (concat (map hex_byte bs)) = hex_byte (bs ! i)"
    using i slice_concat_uniform [of "map hex_byte bs" 2 i] by simp
  have l: "length (concat (map hex_byte bs)) = 2 * length bs"
    by (induction bs) simp_all
  show "concat (map hex_byte bs) ! (i * 2) = hex_byte (bs ! i) ! 0"
    using i l by (simp add: s [symmetric] slice_nth mult.commute)
  show "concat (map hex_byte bs) ! (i * 2 + 1) = hex_byte (bs ! i) ! 1"
    using i l by (simp add: s [symmetric] slice_nth mult.commute)
qed

lemma length_hex_bytes [simp]: "length (concat (map hex_byte bs)) = 2 * length bs"
  by (induction bs) simp_all

lemma unhex_hex_bytes:
  assumes "length bs = 16"
  shows "map (\<lambda>i. push_bit 4 (hex_val (concat (map hex_byte bs) ! (i * 2))) OR
           hex_val (concat (map hex_byte bs) ! (i * 2 + 1))) [0..<16] = bs"
  by (rule nth_equalityI) (use assms in \<open>simp_all add: hex_bytes_nth hex_byte_join
      del: One_nat_def add_Suc_right\<close>)

lemma from_canonical_hex_bytes:
  assumes "length bs = 16"
  shows "from_canonical_str (concat (map hex_byte bs)) =
    (case from_wire bs of None \<Rightarrow> Inl Addr_Format
     | Some a \<Rightarrow> if addr_protocol a \<noteq> PROTOCOL_MAGIC then Inl Addr_BadProtocol else Inr a)"
proof -
  have digits: "list_all is_ascii_hexdigit (concat (map hex_byte bs))"
    using hex_byte_digits by (auto simp: list_all_iff)
  show ?thesis
    unfolding from_canonical_str_def Let_def unhex_hex_bytes [OF assms] using digits assms by simp
qed

text \<open>Parsing accepts upper case; printing the parsed address gives the lower case text.\<close>

definition ascii_lower :: "u8 \<Rightarrow> u8" where
  "ascii_lower b = (if 0x41 \<le> b \<and> b \<le> 0x5A then b + 0x20 else b)"

lemma hexdigit_cases:
  assumes "is_ascii_hexdigit b"
  shows "b \<in> set (map of_nat ([0x30..<0x3A] @ [0x41..<0x47] @ [0x61..<0x67]))"
proof -
  have "unat b \<in> set ([0x30..<0x3A] @ [0x41..<0x47] @ [0x61..<0x67])"
    using assms unfolding set_append set_upt
    by (auto simp: is_ascii_hexdigit_def word_le_nat_alt)
  then have "(of_nat (unat b) :: u8) \<in> set (map of_nat ([0x30..<0x3A] @ [0x41..<0x47] @ [0x61..<0x67]))"
    unfolding set_map by (rule imageI)
  moreover have "of_nat (unat b) = b" by simp
  ultimately show ?thesis by metis
qed

lemma hex_val_print:
  assumes "is_ascii_hexdigit b"
  shows "hex_digits ! unat (hex_val b) = ascii_lower b" "hex_val b \<le> 15"
proof -
  have "\<forall>b \<in> set (map of_nat ([0x30..<0x3A] @ [0x41..<0x47] @ [0x61..<0x67])).
      hex_digits ! unat (hex_val b) = ascii_lower b \<and> hex_val b \<le> 15"
    unfolding hex_digits_eval by code_simp
  with hexdigit_cases [OF assms] show "hex_digits ! unat (hex_val b) = ascii_lower b" "hex_val b \<le> 15"
    by blast+
qed

lemma nibble_bits:
  assumes "l \<le> (15 :: u8)" "bit l n" shows "n < 4"
proof -
  have "take_bit 4 l = l"
    using assms(1) by (simp add: word_unat_eq_iff unsigned_take_bit_eq word_le_nat_alt take_bit_nat_eq_self)
  with assms(2) show ?thesis by (metis bit_take_bit_iff)
qed

lemma hex_byte_of_nibbles:
  assumes "h \<le> 15" "l \<le> (15 :: u8)"
  shows "hex_byte (push_bit 4 h OR l) = [hex_digits ! unat h, hex_digits ! unat l]"
proof -
  have "drop_bit 4 (push_bit 4 h OR l) = h"
    using assms by (auto intro!: bit_word_eqI simp: bit_simps dest: nibble_bits u8_bit_high)
  moreover have "(push_bit 4 h OR l) AND mask 4 = l"
    using assms by (auto intro!: bit_word_eqI simp: bit_simps dest: nibble_bits)
  ultimately show ?thesis by (simp add: hex_byte_def mask_eq_exp_minus_1)
qed
lemma print_unhex:
  assumes "length s = 32" "list_all is_ascii_hexdigit s"
  shows "concat (map hex_byte (map (\<lambda>i. push_bit 4 (hex_val (s ! (i * 2))) OR
           hex_val (s ! (i * 2 + 1))) [0..<16])) = map ascii_lower s" (is "concat (map _ ?w) = _")
proof (rule nth_equalityI)
  show "length (concat (map hex_byte ?w)) = length (map ascii_lower s)"
    using assms by (simp only: length_hex_bytes) simp
  fix k
  assume "k < length (concat (map hex_byte ?w))"
  then have k: "k < 32" by (simp only: length_hex_bytes) simp
  define i where "i = k div 2"
  have i: "i < 16" using k by (simp add: i_def)
  have digit: "is_ascii_hexdigit (s ! m)" if "m < 32" for m
    using assms that by (simp add: list_all_length)
  have w: "hex_byte (?w ! i) = [ascii_lower (s ! (i * 2)), ascii_lower (s ! (i * 2 + 1))]"
    using i digit [of "i * 2"] digit [of "i * 2 + 1"]
      hex_val_print [of "s ! (i * 2)"] hex_val_print [of "s ! (i * 2 + 1)"]
    by (simp add: hex_byte_of_nibbles)
  have "k = i * 2 \<or> k = i * 2 + 1" unfolding i_def by presburger
  then show "concat (map hex_byte ?w) ! k = map ascii_lower s ! k"
    using i k assms w hex_bytes_nth [of i ?w] by auto
qed

text \<open>
  Printing an address in the canonical text form and parsing it again returns exactly
  that address when it carries the protocol magic, and the \<open>BadProtocol\<close> error otherwise.
\<close>

theorem canonical_print_parse:
  "from_canonical_str (to_canonical_string a) =
     (if addr_protocol a = PROTOCOL_MAGIC then Inr a else Inl Addr_BadProtocol)"
  by (simp add: to_canonical_string_def from_canonical_hex_bytes)

text \<open>
  Every text that the parser accepts has 32 bytes, and printing the address it parsed to
  gives that text back in lower case, so no two texts that differ in more than
  case are parsed to the same address.
\<close>

theorem canonical_parse_print:
  assumes "from_canonical_str s = Inr a"
  shows "length s = 32 \<and> to_canonical_string a = map ascii_lower s"
proof -
  let ?w = "map (\<lambda>i. push_bit 4 (hex_val (s ! (i * 2))) OR hex_val (s ! (i * 2 + 1))) [0..<16]"
  have s: "length s = 32" "list_all is_ascii_hexdigit s" and a: "from_wire ?w = Some a"
    using assms unfolding from_canonical_str_def Let_def
    by (auto split: if_splits option.splits)
  have "to_bytes a = ?w" by (rule to_bytes_from_wire [OF _ a]) simp
  then show ?thesis using s print_unhex [OF s] by (simp only: to_canonical_string_def)
qed

lemma canonical_parse_print_witness:
  "to_canonical_string (addr_with_region 1 1 0 2 0) =
     map ascii_lower (map of_char ''FB140000000000010001000000020000'')"
  by (rule conjunct2, rule canonical_parse_print) code_simp

lemma addr_region_with_region:
  "addr_region (addr_with_region r s1 s2 nh sid) = take_bit 48 r"
proof (rule bit_word_eqI)
  fix n
  assume "n < LENGTH(64)"
  then consider "n < 16" | "16 \<le> n \<and> n < 32" | "32 \<le> n \<and> n < 48" | "48 \<le> n \<and> n < 64" by force
  then show "bit (addr_region (addr_with_region r s1 s2 nh sid)) n \<longleftrightarrow> bit (take_bit 48 r) n"
    by cases (auto simp: addr_region_def addr_with_region_def bit_simps)
qed

section \<open>Flag bits and extension types\<close>

lemma flag_bits:
  "is_encrypted f \<longleftrightarrow> bit f 4" "is_fragment f \<longleftrightarrow> bit f 5" "has_extension f \<longleftrightarrow> bit f 6"
  by (simp_all add: is_encrypted_def is_fragment_def has_extension_def const_defs
      and_exp_eq_0_iff_not_bit flip: push_bit_of_1 bit_iff_and_push_bit_not_eq_0)

lemma ext_from_u8_wire [simp]: "ext_wire (ext_from_u8 v) = v"
  by (simp add: ext_from_u8_def)

text \<open>The types that the decoder can produce: \<open>Unknown\<close> only of unregistered numbers.\<close>

definition canonical_type :: "ext_type_t \<Rightarrow> bool" where
  "canonical_type ty \<longleftrightarrow> ext_from_u8 (ext_wire ty) = ty"

lemma canonical_from_u8 [simp]: "canonical_type (ext_from_u8 v)"
  by (simp add: canonical_type_def)

definition ext_ok :: "ext_header \<Rightarrow> bool" where
  "ext_ok e \<longleftrightarrow> length (ext_payload e) mod 8 = 0 \<and> 0 < length (ext_payload e)
     \<and> length (ext_payload e) \<le> 255 * 8 \<and> canonical_type (ext_type e) \<and> ext_type e \<noteq> Ext_None"

lemma ext_new_ok:
  "canonical_type ty \<Longrightarrow> ext_new ty p = Some e \<Longrightarrow> ext_ok e \<and> ext_type e = ty \<and> ext_payload e = p"
  by (auto simp: ext_new_def ext_ok_def split: if_splits)

lemma ext_len_unat: "ext_ok e \<Longrightarrow> unat (ext_len e) * 8 = length (ext_payload e)"
  by (auto simp: ext_len_def ext_ok_def unat_of_nat take_bit_nat_eq_self)

lemma ext_len_pos: "ext_ok e \<Longrightarrow> ext_len e \<noteq> 0"
  using ext_len_unat [of e] by (auto simp: ext_ok_def)

lemma attach_simps [simp]:
  "hdr_ext_headers (attach_ext_headers h es) = es"
  "hdr_next_header (attach_ext_headers h es) = first_type es"
  "hdr_version (attach_ext_headers h es) = hdr_version h"
  "hdr_min_compat_ver (attach_ext_headers h es) = hdr_min_compat_ver h"
  "hdr_payload_len (attach_ext_headers h es) = hdr_payload_len h"
  "hdr_hop_limit (attach_ext_headers h es) = hdr_hop_limit h"
  "hdr_src_addr (attach_ext_headers h es) = hdr_src_addr h"
  "hdr_dst_addr (attach_ext_headers h es) = hdr_dst_addr h"
  by (simp_all add: attach_ext_headers_def)

lemma attach_has_extension: "has_extension (hdr_flags (attach_ext_headers h es)) \<longleftrightarrow> es \<noteq> []"
  unfolding flag_bits by (auto simp: attach_ext_headers_def const_defs bit_simps)

end
