(* ===== verification/CodecWire.thy ===== *)
theory CodecWire
  imports CodecHeader
begin

text \<open>
  Packets on the wire: \<open>encode.rs\<close>, \<open>decode.rs\<close>, the version negotiation of
  \<open>version.rs\<close> and the payload classification of \<open>compat.rs\<close>, all of
  \<open>ipv8-codec\<close>. The decoder's loop over the extension chain is a recursion that
  moves the cursor forward; its guards stand in the order of the code.
\<close>

section \<open>Encoding\<close>

datatype encode_error = Enc_BadVersion u8 | Enc_FieldOverflow string | Enc_ReservedBits
  | Enc_PayloadTooLong u16 | Enc_PayloadLengthMismatch nat nat | Enc_TooManyExtHeaders nat
  | Enc_PacketTooLong | Enc_NextHeaderMismatch u8 u8 | Enc_FlagMismatch string
  | Enc_AddressReserved

definition ext_total :: "ext_header list \<Rightarrow> nat" where
  "ext_total es = sum_list (map wire_size es)"

text \<open>The loop that appends the chain: each header's pointer is the type of the next one.\<close>

fun write_chain :: "ext_header list \<Rightarrow> bytes \<Rightarrow> bytes" where
  "write_chain [] out = out"
| "write_chain (e # es) out = write_chain es (out @ [first_type es, ext_len e] @ ext_payload e)"

text \<open>The 40 bytes that \<open>encode_header\<close> adds by \<open>resize\<close> and then fills in.\<close>

definition write_base_header :: "ipv8_header \<Rightarrow> bytes" where
  "write_base_header hdr = (
     let b = replicate BASE_HEADER_SIZE 0;
         b = b[0 := push_bit 4 (hdr_version hdr) OR (hdr_min_compat_ver hdr AND 0x0F)];
         b = write_at 1 (to_be16 (hdr_flags hdr)) b;
         b = write_at 3 (to_be16 (hdr_payload_len hdr)) b;
         b = b[5 := hdr_hop_limit hdr];
         b = b[6 := hdr_next_header hdr];
         b = write_at 7 (addr_write_to (hdr_src_addr hdr) (slice 7 23 b)) b
     in write_at 23 (addr_write_to (hdr_dst_addr hdr) (slice 23 39 b)) b)"

text \<open>
  \<open>encode_header\<close> appends to \<open>out\<close> and returns the number of bytes it added; the
  buffer is unchanged on every error, since all checks come before the first write and
  \<open>write_to\<close> always returns true, which leaves \<open>AddressReserved\<close> dead code.
\<close>

definition encode_header :: "ipv8_header \<Rightarrow> bytes \<Rightarrow> encode_error + (bytes \<times> nat)" where
  "encode_header hdr out = (
     if hdr_version hdr \<noteq> IPV8_VERSION then Inl (Enc_BadVersion (hdr_version hdr))
     else if hdr_min_compat_ver hdr > 15 then Inl (Enc_FieldOverflow ''min_compat_ver'')
     else if \<not> reserved_ok (hdr_flags hdr) then Inl Enc_ReservedBits
     else if hdr_payload_len hdr > MAX_PAYLOAD_LEN then Inl (Enc_PayloadTooLong (hdr_payload_len hdr))
     else if length (hdr_ext_headers hdr) > MAX_EXT_CHAIN
       then Inl (Enc_TooManyExtHeaders (length (hdr_ext_headers hdr)))
     else if BASE_HEADER_SIZE + ext_total (hdr_ext_headers hdr) + unat (hdr_payload_len hdr)
          > MAX_PACKET_LEN then Inl Enc_PacketTooLong
     else if hdr_next_header hdr \<noteq> first_type (hdr_ext_headers hdr)
       then Inl (Enc_NextHeaderMismatch (first_type (hdr_ext_headers hdr)) (hdr_next_header hdr))
     else if has_extension (hdr_flags hdr) \<noteq> (hdr_ext_headers hdr \<noteq> [])
       then Inl (Enc_FlagMismatch ''HAS_EXTENSION'')
     else
       let start = length out;
           out = write_chain (hdr_ext_headers hdr) (out @ write_base_header hdr)
       in Inr (out, length out - start))"

definition encode :: "ipv8_header \<Rightarrow> bytes \<Rightarrow> encode_error + bytes" where
  "encode hdr payload = (
     if length payload \<noteq> unat (hdr_payload_len hdr)
     then Inl (Enc_PayloadLengthMismatch (unat (hdr_payload_len hdr)) (length payload))
     else case encode_header hdr [] of
            Inl e \<Rightarrow> Inl e
          | Inr (out, _) \<Rightarrow> Inr (out @ payload))"

section \<open>Decoding\<close>

datatype decode_error = Dec_TooShort nat | Dec_BadVersion u8 | Dec_PayloadTooLong u16
  | Dec_PayloadBeyondBuffer nat nat | Dec_PacketTooLong | Dec_ExtHeaderTruncated
  | Dec_TooManyExtHeaders | Dec_ExtLenZero | Dec_ExtChainCycle | Dec_FlagMismatch

record decoded =
  dec_header :: ipv8_header
  dec_payload :: bytes

definition read_addr :: "bytes \<Rightarrow> ipv8_address" where
  "read_addr b =
    \<lparr>addr_protocol = from_be [b ! 0, b ! 1], addr_region_hi = from_be [b ! 2, b ! 3],
     addr_region_mid = from_be [b ! 4, b ! 5], addr_region_lo = from_be [b ! 6, b ! 7],
     addr_subnet1 = from_be [b ! 8, b ! 9], addr_subnet2 = from_be [b ! 10, b ! 11],
     addr_node_hash = from_be [b ! 12, b ! 13], addr_session_id = from_be [b ! 14, b ! 15]\<rparr>"

text \<open>The loop over the chain: \<open>cur_type\<close>, \<open>idx\<close>, \<open>seen\<close>,
  \<open>cursor\<close> and \<open>ext_headers\<close> are the variables of the code.\<close>

function decode_chain ::
  "bytes \<Rightarrow> u8 \<Rightarrow> nat \<Rightarrow> u8 list \<Rightarrow> nat \<Rightarrow> ext_header list \<Rightarrow> decode_error + (ext_header list \<times> nat)"
where
  "decode_chain buf cur_type idx seen cursor exts = (
     if cur_type \<in> set seen then Inl Dec_ExtChainCycle
     else if cursor + 2 > length buf then Inl Dec_ExtHeaderTruncated
     else if buf ! (cursor + 1) = 0 then Inl Dec_ExtLenZero
     else if cursor + 2 + unat (buf ! (cursor + 1)) * 8 > length buf then Inl Dec_ExtHeaderTruncated
     else
       let ptr_next = buf ! cursor;
           plen = unat (buf ! (cursor + 1)) * 8;
           exts = exts @ [\<lparr>ext_type = ext_from_u8 cur_type,
                           ext_payload = slice (cursor + 2) (cursor + 2 + plen) buf\<rparr>]
       in if idx + 1 > MAX_EXT_CHAIN then Inl Dec_TooManyExtHeaders
          else if ptr_next = 0 then Inr (exts, cursor + 2 + plen)
          else decode_chain buf ptr_next (idx + 1) (seen @ [cur_type]) (cursor + 2 + plen) exts)"
  by pat_completeness auto
termination
  by (relation "measure (\<lambda>(buf, _, _, _, cursor, _). length buf - cursor)") auto

definition decode :: "bytes \<Rightarrow> decode_error + decoded" where
  "decode buf = (
     if length buf < BASE_HEADER_SIZE then Inl (Dec_TooShort (length buf))
     else
       let version = drop_bit 4 (buf ! 0);
           min_compat_ver = buf ! 0 AND 0x0F
       in if version \<noteq> IPV8_VERSION then Inl (Dec_BadVersion version)
       else
         let flags = from_be [buf ! 1, buf ! 2];
             payload_len = from_be [buf ! 3, buf ! 4]
         in if payload_len > MAX_PAYLOAD_LEN then Inl (Dec_PayloadTooLong payload_len)
         else
           let hop_limit = buf ! 5;
               next_header = buf ! 6;
               src_addr = read_addr (slice 7 23 buf);
               dst_addr = read_addr (slice 23 39 buf);
               chain = (if next_header \<noteq> 0 then decode_chain buf next_header 0 [] BASE_HEADER_SIZE []
                        else Inr ([], BASE_HEADER_SIZE))
           in case chain of
                Inl e \<Rightarrow> Inl e
              | Inr (exts, cursor) \<Rightarrow>
                  if has_extension flags \<noteq> (exts \<noteq> []) then Inl Dec_FlagMismatch
                  else if cursor + unat payload_len > length buf
                    then Inl (Dec_PayloadBeyondBuffer (unat payload_len) (length buf - cursor))
                  else if cursor + unat payload_len > MAX_PACKET_LEN then Inl Dec_PacketTooLong
                  else Inr
                    \<lparr>dec_header =
                       \<lparr>hdr_version = version, hdr_min_compat_ver = min_compat_ver, hdr_flags = flags,
                        hdr_payload_len = payload_len, hdr_hop_limit = hop_limit,
                        hdr_next_header = next_header, hdr_src_addr = src_addr,
                        hdr_dst_addr = dst_addr, hdr_ext_headers = exts\<rparr>,
                     dec_payload = slice cursor (cursor + unat payload_len) buf\<rparr>)"

declare decode_chain.simps [simp del]

section \<open>Version negotiation and payload classification\<close>

definition LOCAL_VERSION :: u8 where [const_defs]: "LOCAL_VERSION = IPV8_VERSION"

datatype negotiation = Neg_Full | Neg_Degrade u8 | Neg_Incompatible u8 u8

definition negotiate :: "ipv8_header \<Rightarrow> u8 \<Rightarrow> negotiation" where
  "negotiate hdr local_version = (
     if hdr_min_compat_ver hdr > local_version
       then Neg_Incompatible (hdr_min_compat_ver hdr) local_version
     else if hdr_min_compat_ver hdr < local_version then Neg_Degrade (hdr_min_compat_ver hdr)
     else Neg_Full)"

definition negotiate_local :: "ipv8_header \<Rightarrow> negotiation" where
  "negotiate_local hdr = negotiate hdr LOCAL_VERSION"

datatype inner_proto = Inner_IPv4 | Inner_IPv6 | Inner_Other

definition classify_inner :: "bytes \<Rightarrow> inner_proto option" where
  "classify_inner payload = (case payload of
     [] \<Rightarrow> None
   | b # _ \<Rightarrow> Some (if drop_bit 4 b = 4 then Inner_IPv4
                    else if drop_bit 4 b = 6 then Inner_IPv6 else Inner_Other))"

fun min_inner_header_len :: "inner_proto \<Rightarrow> nat" where
  "min_inner_header_len Inner_IPv4 = 20"
| "min_inner_header_len Inner_IPv6 = 40"
| "min_inner_header_len Inner_Other = 0"

section \<open>The bytes of a packet\<close>

definition header_bytes :: "ipv8_header \<Rightarrow> bytes" where
  "header_bytes hdr =
     [push_bit 4 (hdr_version hdr) OR (hdr_min_compat_ver hdr AND 0x0F)] @
     to_be16 (hdr_flags hdr) @ to_be16 (hdr_payload_len hdr) @
     [hdr_hop_limit hdr, hdr_next_header hdr] @
     to_bytes (hdr_src_addr hdr) @ to_bytes (hdr_dst_addr hdr) @ [0]"

fun chain_bytes :: "ext_header list \<Rightarrow> bytes" where
  "chain_bytes [] = []"
| "chain_bytes (e # es) = [first_type es, ext_len e] @ ext_payload e @ chain_bytes es"

lemma length_header_bytes [simp]: "length (header_bytes h) = 40"
  by (simp add: header_bytes_def)

lemma write_chain_eq: "write_chain es out = out @ chain_bytes es"
  by (induction es arbitrary: out) simp_all

lemma length_chain_bytes [simp]: "length (chain_bytes es) = ext_total es"
  by (induction es) (simp_all add: ext_total_def wire_size_def)

lemma ext_total_simps [simp]:
  "ext_total [] = 0" "ext_total (e # es) = wire_size e + ext_total es"
  by (simp_all add: ext_total_def)

lemma write_base_header_eq: "write_base_header hdr = header_bytes hdr"
proof -
  define v where "v = push_bit 4 (hdr_version hdr) OR (hdr_min_compat_ver hdr AND 0x0F)"
  have b0: "(replicate BASE_HEADER_SIZE 0)[0 := v] = [v] @ replicate 39 0"
    by (simp add: BASE_HEADER_SIZE_def numeral_eq_Suc)
  have b1: "write_at 1 (to_be16 f) ([v] @ replicate 39 0) = ([v] @ to_be16 f) @ replicate 37 0" for f
    by (subst write_at_step) simp_all
  have b3: "write_at 3 (to_be16 p) (([v] @ to_be16 f) @ replicate 37 0) =
      ([v] @ to_be16 f @ to_be16 p) @ replicate 35 0" for f p
    by (subst write_at_step) simp_all
  have b5: "(pre @ replicate 35 0)[5 := h, 6 := n] = (pre @ [h, n]) @ replicate 33 0"
    if "length pre = 5" for pre h and n :: u8
    using that by (simp add: list_update_append numeral_eq_Suc)
  have b7: "write_at 7 (addr_write_to s (slice 7 23 (pre @ replicate 33 0))) (pre @ replicate 33 0) =
      (pre @ to_bytes s) @ replicate 17 0" if "length pre = 7" for pre s
    using that by (simp add: addr_write_to_eq write_at_def slice_append_skip)
  have b23: "write_at 23 (addr_write_to d (slice 23 39 (pre @ replicate 17 0))) (pre @ replicate 17 0) =
      pre @ to_bytes d @ [0]" if "length pre = 23" for pre d
    using that by (simp add: addr_write_to_eq write_at_def slice_append_skip)
  let ?p5 = "[v] @ to_be16 (hdr_flags hdr) @ to_be16 (hdr_payload_len hdr)"
  let ?p7 = "?p5 @ [hdr_hop_limit hdr, hdr_next_header hdr]"
  have len: "length ?p5 = 5" "length ?p7 = 7" "length (?p7 @ to_bytes (hdr_src_addr hdr)) = 23"
    by simp_all
  have "write_base_header hdr = (?p7 @ to_bytes (hdr_src_addr hdr)) @ to_bytes (hdr_dst_addr hdr) @ [0]"
    unfolding write_base_header_def Let_def v_def [symmetric] b0 b1 b3 b5 [OF len(1)] b7 [OF len(2)]
      b23 [OF len(3)] ..
  then show ?thesis by (simp add: header_bytes_def v_def)
qed

text \<open>The guards of \<open>encode_header\<close> in one predicate.\<close>

definition encodable :: "ipv8_header \<Rightarrow> bool" where
  "encodable h \<longleftrightarrow> hdr_version h = IPV8_VERSION \<and> hdr_min_compat_ver h \<le> 15 \<and> reserved_ok (hdr_flags h)
     \<and> hdr_payload_len h \<le> MAX_PAYLOAD_LEN \<and> length (hdr_ext_headers h) \<le> MAX_EXT_CHAIN
     \<and> BASE_HEADER_SIZE + ext_total (hdr_ext_headers h) + unat (hdr_payload_len h) \<le> MAX_PACKET_LEN
     \<and> hdr_next_header h = first_type (hdr_ext_headers h)
     \<and> (has_extension (hdr_flags h) \<longleftrightarrow> hdr_ext_headers h \<noteq> [])"

lemma encode_header_ok:
  assumes "encodable h"
  shows "encode_header h out =
    Inr (out @ header_bytes h @ chain_bytes (hdr_ext_headers h), 40 + ext_total (hdr_ext_headers h))"
  using assms
  unfolding encodable_def encode_header_def Let_def write_chain_eq write_base_header_eq
  by (simp add: not_less)

lemma encode_header_fails: "\<not> encodable h \<Longrightarrow> \<exists>e. encode_header h out = Inl e"
  unfolding encodable_def encode_header_def by (auto simp: Let_def)

lemma encode_header_iff: "(\<exists>r. encode_header h out = Inr r) \<longleftrightarrow> encodable h"
  using encode_header_ok encode_header_fails by (metis sum.distinct(1))

lemma encode_iff: "encode h p = Inr pkt \<longleftrightarrow>
    encodable h \<and> length p = unat (hdr_payload_len h) \<and>
    pkt = header_bytes h @ chain_bytes (hdr_ext_headers h) @ p"
proof (cases "encodable h")
  case True
  then show ?thesis by (auto simp: encode_def encode_header_ok)
next
  case False
  then obtain e where "encode_header h [] = Inl e" using encode_header_fails by blast
  with False show ?thesis by (simp add: encode_def)
qed

section \<open>Decoding what was encoded\<close>

definition chain_ok :: "ext_header list \<Rightarrow> bool" where
  "chain_ok es \<longleftrightarrow> list_all ext_ok es \<and> distinct (map (\<lambda>e. ext_wire (ext_type e)) es)"

lemma ext_ok_wire_nonzero: "ext_ok e \<Longrightarrow> ext_wire (ext_type e) \<noteq> 0"
  unfolding ext_ok_def canonical_type_def ext_from_u8_def by (cases "ext_type e") (auto split: if_splits)

lemma first_type_zero: "list_all ext_ok es \<Longrightarrow> first_type es = 0 \<longleftrightarrow> es = []"
  by (cases es) (simp_all add: first_type_def ext_ok_wire_nonzero)

lemma ext_header_eta: "\<lparr>ext_type = ext_type e, ext_payload = ext_payload e\<rparr> = (e :: ext_header)"
  by simp

lemma decode_chain_encoded:
  assumes "chain_ok (e # es)" "idx + length (e # es) \<le> MAX_EXT_CHAIN"
    and "set (map (\<lambda>e. ext_wire (ext_type e)) (e # es)) \<inter> set seen = {}"
    and "buf = pre @ chain_bytes (e # es) @ post" "cursor = length pre"
  shows "decode_chain buf (ext_wire (ext_type e)) idx seen cursor acc =
    Inr (acc @ e # es, cursor + ext_total (e # es))"
  using assms
proof (induction es arbitrary: e idx seen cursor acc pre)
  case (Cons f fs)
  have e: "ext_ok e" "ext_ok f" using Cons.prems(1) by (simp_all add: chain_ok_def)
  have next_chain: "decode_chain buf (ext_wire (ext_type f)) (idx + 1) (seen @ [ext_wire (ext_type e)])
      (cursor + wire_size e) (acc @ [e]) =
    Inr ((acc @ [e]) @ f # fs, cursor + wire_size e + ext_total (f # fs))"
    by (rule Cons.IH [where pre = "pre @ [ext_wire (ext_type f), ext_len e] @ ext_payload e"])
       (use Cons.prems in \<open>auto simp: chain_ok_def first_type_def wire_size_def\<close>)
  have "ext_from_u8 (ext_wire (ext_type e)) = ext_type e"
    using e by (simp add: ext_ok_def canonical_type_def)
  moreover have "buf ! cursor = ext_wire (ext_type f)" "buf ! (cursor + 1) = ext_len e"
    "slice (cursor + 2) (cursor + 2 + length (ext_payload e)) buf = ext_payload e"
    using Cons.prems(4,5) by (simp_all add: nth_append first_type_def slice_def)
  ultimately show ?case
    using Cons.prems e ext_len_unat [of e] ext_len_pos [of e] ext_ok_wire_nonzero [of f] next_chain
    by (subst decode_chain.simps) (simp add: wire_size_def ext_header_eta Let_def)
next
  case Nil
  have e: "ext_ok e" using Nil.prems(1) by (simp add: chain_ok_def)
  then have "ext_from_u8 (ext_wire (ext_type e)) = ext_type e"
    by (simp add: ext_ok_def canonical_type_def)
  moreover have "buf ! cursor = 0" "buf ! (cursor + 1) = ext_len e"
    "slice (cursor + 2) (cursor + 2 + length (ext_payload e)) buf = ext_payload e"
    using Nil.prems(4,5) by (simp_all add: nth_append first_type_def slice_def)
  ultimately show ?case
    using Nil.prems e ext_len_unat [of e] ext_len_pos [of e]
    by (subst decode_chain.simps) (simp add: wire_size_def ext_header_eta Let_def)
qed

lemma slice_two: "j = i + 2 \<Longrightarrow> j \<le> length xs \<Longrightarrow> slice i j xs = [xs ! i, xs ! (i + 1)]"
  by (rule nth_equalityI) (auto simp: slice_def less_Suc_eq nth_Cons split: nat.splits)

lemma read_addr_from_wire: "length b = 16 \<Longrightarrow> from_wire b = Some (read_addr b)"
  by (simp add: from_wire_def read_addr_def slice_two)

lemma read_addr_to_bytes [simp]: "read_addr (to_bytes a) = a"
  using read_addr_from_wire [of "to_bytes a"] by simp

lemma to_bytes_read_addr: "length b = 16 \<Longrightarrow> to_bytes (read_addr b) = b"
  by (rule to_bytes_from_wire [OF _ read_addr_from_wire])

lemma version_byte:
  assumes "v \<le> 15" "m \<le> (15 :: u8)"
  shows "drop_bit 4 (push_bit 4 v OR (m AND 0x0F)) = v" "(push_bit 4 v OR (m AND 0x0F)) AND 0x0F = m"
proof -
  have "drop_bit 4 (push_bit 4 v OR (m AND mask 4)) = v"
    "(push_bit 4 v OR (m AND mask 4)) AND mask 4 = m"
    using assms by (auto intro!: bit_word_eqI simp: bit_simps dest: nibble_bits u8_bit_high)
  then show "drop_bit 4 (push_bit 4 v OR (m AND 0x0F)) = v"
    "(push_bit 4 v OR (m AND 0x0F)) AND 0x0F = m"
    by (simp_all add: mask_eq_exp_minus_1)
qed

lemma to_be16_nth: "[to_be16 x ! 0, to_be16 x ! 1] = to_be16 x"
  by (simp add: to_be16_def numeral_eq_Suc)

lemma header_bytes_fields:
  assumes "buf = header_bytes h @ rest"
  shows "buf ! 0 = push_bit 4 (hdr_version h) OR (hdr_min_compat_ver h AND 0x0F)"
    "[buf ! 1, buf ! 2] = to_be16 (hdr_flags h)" "[buf ! 3, buf ! 4] = to_be16 (hdr_payload_len h)"
    "buf ! 5 = hdr_hop_limit h" "buf ! 6 = hdr_next_header h"
    "slice 7 23 buf = to_bytes (hdr_src_addr h)" "slice 23 39 buf = to_bytes (hdr_dst_addr h)"
proof -
  have s: "slice 1 3 buf = to_be16 (hdr_flags h)" "slice 3 5 buf = to_be16 (hdr_payload_len h)"
    using assms by (simp_all add: header_bytes_def slice_def)
  have l: "40 \<le> length buf" using assms by simp
  show "buf ! 0 = push_bit 4 (hdr_version h) OR (hdr_min_compat_ver h AND 0x0F)"
    "buf ! 5 = hdr_hop_limit h" "buf ! 6 = hdr_next_header h"
    using assms by (simp_all add: header_bytes_def nth_append nth_Cons')
  show "[buf ! 1, buf ! 2] = to_be16 (hdr_flags h)" "[buf ! 3, buf ! 4] = to_be16 (hdr_payload_len h)"
    using s l slice_two [of 3 1 buf] slice_two [of 5 3 buf] by (simp_all add: numeral_2_eq_2)
  show "slice 7 23 buf = to_bytes (hdr_src_addr h)" "slice 23 39 buf = to_bytes (hdr_dst_addr h)"
    using assms by (simp_all add: header_bytes_def slice_def)
qed

text \<open>What the decoder needs of a header: all that the encoder checks except the reserved flag bits.\<close>

definition decodable :: "ipv8_header \<Rightarrow> bool" where
  "decodable h \<longleftrightarrow> hdr_version h = IPV8_VERSION \<and> hdr_min_compat_ver h \<le> 15
     \<and> hdr_payload_len h \<le> MAX_PAYLOAD_LEN \<and> length (hdr_ext_headers h) \<le> MAX_EXT_CHAIN
     \<and> BASE_HEADER_SIZE + ext_total (hdr_ext_headers h) + unat (hdr_payload_len h) \<le> MAX_PACKET_LEN
     \<and> hdr_next_header h = first_type (hdr_ext_headers h)
     \<and> (has_extension (hdr_flags h) \<longleftrightarrow> hdr_ext_headers h \<noteq> [])"

lemma encodable_decodable: "encodable h \<longleftrightarrow> decodable h \<and> reserved_ok (hdr_flags h)"
  by (auto simp: encodable_def decodable_def)

lemma decode_decodable:
  assumes "decodable h" "chain_ok (hdr_ext_headers h)" "length p = unat (hdr_payload_len h)"
    and buf: "buf = header_bytes h @ chain_bytes (hdr_ext_headers h) @ p @ junk"
  shows "decode buf = Inr \<lparr>dec_header = h, dec_payload = p\<rparr>"
proof -
  note f = header_bytes_fields [OF buf]
  have enc: "hdr_version h = IPV8_VERSION" "hdr_min_compat_ver h \<le> 15"
    "\<not> hdr_payload_len h > MAX_PAYLOAD_LEN" "length (hdr_ext_headers h) \<le> MAX_EXT_CHAIN"
    "hdr_next_header h = first_type (hdr_ext_headers h)"
    "has_extension (hdr_flags h) \<longleftrightarrow> hdr_ext_headers h \<noteq> []"
    "\<not> 40 + ext_total (hdr_ext_headers h) + unat (hdr_payload_len h) > MAX_PACKET_LEN"
    using assms(1) by (auto simp: decodable_def BASE_HEADER_SIZE_def)
  have v: "drop_bit 4 (buf ! 0) = IPV8_VERSION" "buf ! 0 AND 0x0F = hdr_min_compat_ver h"
    using version_byte [of IPV8_VERSION "hdr_min_compat_ver h"] enc(1,2) unfolding f(1)
    by (simp_all add: IPV8_VERSION_def)
  have be: "from_be [buf ! 1, buf ! 2] = hdr_flags h" "from_be [buf ! 3, buf ! 4] = hdr_payload_len h"
    unfolding f by simp_all
  have chain: "(if hdr_next_header h \<noteq> 0 then decode_chain buf (hdr_next_header h) 0 [] BASE_HEADER_SIZE []
      else Inr ([], BASE_HEADER_SIZE)) = Inr (hdr_ext_headers h, 40 + ext_total (hdr_ext_headers h))"
  proof (cases "hdr_ext_headers h")
    case Nil
    then show ?thesis using enc(5) by (simp add: first_type_def BASE_HEADER_SIZE_def)
  next
    case (Cons e es)
    then have "ext_ok e" using assms(2) by (simp add: chain_ok_def)
    then show ?thesis
      using Cons assms(2) enc ext_ok_wire_nonzero [of e]
        decode_chain_encoded [of e es 0 "[]" buf "header_bytes h" "p @ junk" BASE_HEADER_SIZE "[]"]
      by (simp add: buf first_type_def BASE_HEADER_SIZE_def)
  qed
  have body: "slice (40 + ext_total (hdr_ext_headers h))
      (40 + ext_total (hdr_ext_headers h) + unat (hdr_payload_len h)) buf = p"
    using buf assms(3) by (simp add: slice_def)
  have len: "length buf = 40 + ext_total (hdr_ext_headers h) + unat (hdr_payload_len h) + length junk"
    using buf assms(3) by simp
  show ?thesis
    unfolding decode_def Let_def v be f(4-7) chain using enc body len
    by (simp add: BASE_HEADER_SIZE_def)
qed

lemmas decode_encoded = decode_decodable [OF encodable_decodable [THEN iffD1, THEN conjunct1]]

lemma decode_encode_junk:
  assumes "encode h p = Inr pkt" "chain_ok (hdr_ext_headers h)"
  shows "decode (pkt @ junk) = Inr \<lparr>dec_header = h, dec_payload = p\<rparr>"
  using assms decode_encoded [of h p "pkt @ junk" junk] by (simp add: encode_iff)

text \<open>
  C8. Whatever the encoder accepts, the decoder reads back: for a header whose extension
  chain has well-formed entries of distinct types, decoding the encoded packet gives exactly that header
  and payload, also when other bytes follow the packet in the buffer.
\<close>

theorem decode_encode:
  assumes "encode h p = Inr pkt" "chain_ok (hdr_ext_headers h)"
  shows "decode (pkt @ junk) = Inr \<lparr>dec_header = h, dec_payload = p\<rparr>"
  by (rule decode_encode_junk [OF assms])

text \<open>A header with two extension headers, the concrete input of the witnesses.\<close>

definition sample_header :: ipv8_header where
  "sample_header = attach_ext_headers
     (header_new (addr_with_region 1 1 0 2 0) (addr_with_region 2 1 0 3 0) 2)
     [\<lparr>ext_type = SemanticTag, ext_payload = replicate 8 97\<rparr>,
      \<lparr>ext_type = Unknown 9, ext_payload = replicate 16 1\<rparr>]"

lemma sample_header_ok:
  "encodable sample_header" "chain_ok (hdr_ext_headers sample_header)"
  "unat (hdr_payload_len sample_header) = 2"
  by (simp_all add: sample_header_def attach_ext_headers_def header_new_def encodable_def chain_ok_def
      ext_ok_def canonical_type_def ext_from_u8_def first_type_def reserved_ok_def has_extension_def
      ext_total_def wire_size_def const_defs)

lemma decode_encode_witness:
  "decode ((header_bytes sample_header @ chain_bytes (hdr_ext_headers sample_header) @ [7, 8]) @ [1, 2, 3]) =
     Inr \<lparr>dec_header = sample_header, dec_payload = [7, 8]\<rparr>"
  by (rule decode_encode) (simp_all add: encode_iff sample_header_ok)

section \<open>What the decoder accepts\<close>

text \<open>The chain that the loop returns is well formed, and its bytes are those it consumed.\<close>

lemma decode_chain_sound:
  assumes "decode_chain buf t idx seen c acc = Inr (es, c')" "t \<noteq> 0" "idx = length seen"
  shows "\<exists>new. es = acc @ new \<and> new \<noteq> [] \<and> list_all ext_ok new \<and> first_type new = t
    \<and> distinct (map (\<lambda>e. ext_wire (ext_type e)) new)
    \<and> set (map (\<lambda>e. ext_wire (ext_type e)) new) \<inter> set seen = {}
    \<and> length seen + length new \<le> MAX_EXT_CHAIN
    \<and> c' = c + ext_total new \<and> c' \<le> length buf \<and> slice c c' buf = chain_bytes new"
  using assms
proof (induction buf t idx seen c acc rule: decode_chain.induct)
  case (1 buf t idx seen c acc)
  let ?plen = "unat (buf ! (c + 1)) * 8"
  let ?e = "\<lparr>ext_type = ext_from_u8 t, ext_payload = slice (c + 2) (c + 2 + ?plen) buf\<rparr>"
  have guards: "t \<notin> set seen" "c + 2 \<le> length buf" "buf ! (c + 1) \<noteq> 0"
    "c + 2 + ?plen \<le> length buf" "idx + 1 \<le> MAX_EXT_CHAIN"
    using "1.prems"(1) by (auto simp: decode_chain.simps [of buf t] Let_def split: if_splits)
  have len: "length (ext_payload ?e) = ?plen" using guards by simp
  have ok: "ext_ok ?e"
    using guards(3) "1.prems"(2) len unsigned_less [of "buf ! (c + 1)", where 'a = nat]
    by (simp add: ext_ok_def word_unat_eq_iff) (auto simp: ext_from_u8_def)
  have el: "ext_len ?e = buf ! (c + 1)"
    using ext_len_unat [OF ok] len by (simp add: word_unat_eq_iff)
  have head: "slice c (c + 2 + ?plen) buf = [buf ! c, buf ! (c + 1)] @ ext_payload ?e"
    using guards(4) slice_slices [of c "c + 2" "c + 2 + ?plen" buf] slice_two [of "c + 2" c buf] guards(2)
    by simp
  show ?case
  proof (cases "buf ! c = 0")
    case True
    then have "es = acc @ [?e]" "c' = c + 2 + ?plen"
      using "1.prems"(1) guards by (auto simp: decode_chain.simps [of buf t] Let_def)
    then show ?thesis
      using ok el head guards "1.prems"(3) len True
      by (intro exI [of _ "[?e]"]) (auto simp: first_type_def wire_size_def)
  next
    case False
    have "decode_chain buf (buf ! c) (idx + 1) (seen @ [t]) (c + 2 + ?plen) (acc @ [?e]) = Inr (es, c')"
      using "1.prems"(1) guards False by (simp add: decode_chain.simps [of buf t] Let_def)
    from "1.IH" [OF _ _ _ _ refl refl refl _ False this False] guards "1.prems"(3)
    obtain new where new: "es = (acc @ [?e]) @ new" "new \<noteq> []" "list_all ext_ok new"
      "first_type new = buf ! c" "distinct (map (\<lambda>e. ext_wire (ext_type e)) new)"
      "set (map (\<lambda>e. ext_wire (ext_type e)) new) \<inter> set (seen @ [t]) = {}"
      "length (seen @ [t]) + length new \<le> MAX_EXT_CHAIN"
      "c' = c + 2 + ?plen + ext_total new" "c' \<le> length buf"
      "slice (c + 2 + ?plen) c' buf = chain_bytes new"
      by auto
    have "slice c c' buf = chain_bytes (?e # new)"
      using slice_slices [of c "c + 2 + ?plen" c' buf] new(4,8,10) head el by simp
    then show ?thesis
      using new ok guards(1) len
      by (intro exI [of _ "?e # new"]) (auto simp: first_type_def wire_size_def)
  qed
qed

lemma slice_one: "i < length xs \<Longrightarrow> slice i (i + 1) xs = [xs ! i]"
  by (simp add: slice_def take_Suc hd_drop_conv_nth)

lemma header_bytes_of_buffer:
  assumes "40 \<le> length buf"
    and "hdr_version h = drop_bit 4 (buf ! 0)" "hdr_min_compat_ver h = buf ! 0 AND 0x0F"
    "hdr_flags h = from_be [buf ! 1, buf ! 2]" "hdr_payload_len h = from_be [buf ! 3, buf ! 4]"
    "hdr_hop_limit h = buf ! 5" "hdr_next_header h = buf ! 6"
    "hdr_src_addr h = read_addr (slice 7 23 buf)" "hdr_dst_addr h = read_addr (slice 23 39 buf)"
  shows "header_bytes h = take 39 buf @ [0]"
proof -
  have b0: "push_bit 4 (hdr_version h) OR (hdr_min_compat_ver h AND 0x0F) = buf ! 0"
    unfolding assms and.assoc by (simp add: nibbles_join)
  have pairs: "[buf ! 1, buf ! 2] = slice 1 3 buf" "[buf ! 3, buf ! 4] = slice 3 5 buf"
    "[buf ! 5, buf ! 6] = slice 5 7 buf" "[buf ! 0] = slice 0 1 buf"
    using assms(1) slice_two [of 3 1 buf] slice_two [of 5 3 buf] slice_two [of 7 5 buf]
      slice_one [of 0 buf] by (auto simp: numeral_2_eq_2 simp flip: length_greater_0_conv)
  have be: "to_be16 (hdr_flags h) = slice 1 3 buf" "to_be16 (hdr_payload_len h) = slice 3 5 buf"
    unfolding assms(4,5) pairs using assms(1) by (simp_all add: to_be_from_be)
  have "header_bytes h = (slice 0 1 buf @ slice 1 3 buf @ slice 3 5 buf @ slice 5 7 buf @
      slice 7 23 buf @ slice 23 39 buf) @ [0]"
    unfolding header_bytes_def b0 be assms(6-9) pairs
    using assms(1) by (simp add: to_bytes_read_addr)
  also have "\<dots> = take 39 buf @ [0]"
    by (simp add: slice_slices del: append_assoc) (simp add: slice_def)
  finally show ?thesis .
qed

definition packet_len :: "ipv8_header \<Rightarrow> nat" where
  "packet_len h = BASE_HEADER_SIZE + ext_total (hdr_ext_headers h) + unat (hdr_payload_len h)"

lemma decode_sound:
  assumes "decode buf = Inr d"
  shows "chain_ok (hdr_ext_headers (dec_header d))"
    and "reserved_ok (hdr_flags (dec_header d)) \<Longrightarrow> encodable (dec_header d)"
    and "packet_len (dec_header d) \<le> min (length buf) MAX_PACKET_LEN"
    and "length (dec_payload d) = unat (hdr_payload_len (dec_header d))"
    and "header_bytes (dec_header d) @ chain_bytes (hdr_ext_headers (dec_header d)) @ dec_payload d
         = (take (packet_len (dec_header d)) buf)[39 := 0]"
    and "length (hdr_ext_headers (dec_header d)) \<le> MAX_EXT_CHAIN"
proof -
  let ?h = "dec_header d"
  let ?es = "hdr_ext_headers ?h"
  obtain es cursor where
    chain: "(if buf ! 6 \<noteq> 0 then decode_chain buf (buf ! 6) 0 [] BASE_HEADER_SIZE []
             else Inr ([], BASE_HEADER_SIZE)) = Inr (es, cursor)"
    and g: "40 \<le> length buf" "drop_bit 4 (buf ! 0) = IPV8_VERSION"
      "from_be [buf ! 3, buf ! 4] \<le> MAX_PAYLOAD_LEN"
      "has_extension (from_be [buf ! 1, buf ! 2]) \<longleftrightarrow> es \<noteq> []"
      "cursor + unat (from_be [buf ! 3, buf ! 4] :: u16) \<le> length buf"
      "cursor + unat (from_be [buf ! 3, buf ! 4] :: u16) \<le> MAX_PACKET_LEN"
    and d: "d = \<lparr>dec_header =
       \<lparr>hdr_version = drop_bit 4 (buf ! 0), hdr_min_compat_ver = buf ! 0 AND 0x0F,
        hdr_flags = from_be [buf ! 1, buf ! 2], hdr_payload_len = from_be [buf ! 3, buf ! 4],
        hdr_hop_limit = buf ! 5, hdr_next_header = buf ! 6, hdr_src_addr = read_addr (slice 7 23 buf),
        hdr_dst_addr = read_addr (slice 23 39 buf), hdr_ext_headers = es\<rparr>,
       dec_payload = slice cursor (cursor + unat (from_be [buf ! 3, buf ! 4] :: u16)) buf\<rparr>"
    using assms unfolding decode_def Let_def
    by (auto simp: BASE_HEADER_SIZE_def not_less split: if_splits sum.splits prod.splits)
  have es: "chain_ok es" "length es \<le> MAX_EXT_CHAIN" "first_type es = buf ! 6"
    "cursor = 40 + ext_total es" "cursor \<le> length buf" "slice 40 cursor buf = chain_bytes es"
  proof -
    have "chain_ok es \<and> length es \<le> MAX_EXT_CHAIN \<and> first_type es = buf ! 6 \<and>
      cursor = 40 + ext_total es \<and> cursor \<le> length buf \<and> slice 40 cursor buf = chain_bytes es"
    proof (cases "buf ! 6 = 0")
      case True
      then show ?thesis using chain g(1)
        by (auto simp: chain_ok_def first_type_def BASE_HEADER_SIZE_def slice_def)
    next
      case False
      then show ?thesis
        using decode_chain_sound [of buf "buf ! 6" 0 "[]" BASE_HEADER_SIZE "[]" es cursor] chain
        by (auto simp: chain_ok_def BASE_HEADER_SIZE_def)
    qed
    then show "chain_ok es" "length es \<le> MAX_EXT_CHAIN" "first_type es = buf ! 6"
      "cursor = 40 + ext_total es" "cursor \<le> length buf" "slice 40 cursor buf = chain_bytes es" by auto
  qed
  have fields: "?es = es" "hdr_flags ?h = from_be [buf ! 1, buf ! 2]"
    "hdr_payload_len ?h = from_be [buf ! 3, buf ! 4]"
    "dec_payload d = slice cursor (cursor + unat (hdr_payload_len ?h)) buf"
    by (simp_all add: d)
  show "chain_ok ?es" "length ?es \<le> MAX_EXT_CHAIN" using es by (simp_all add: fields)
  have plen: "packet_len ?h = cursor + unat (hdr_payload_len ?h)"
    by (simp add: packet_len_def fields es BASE_HEADER_SIZE_def)
  show "packet_len ?h \<le> min (length buf) MAX_PACKET_LEN" using g by (simp add: plen fields)
  show "length (dec_payload d) = unat (hdr_payload_len ?h)" using g by (simp add: fields)
  show "encodable ?h" if "reserved_ok (hdr_flags ?h)"
  proof -
    have "buf ! 0 AND 0x0F \<le> 0x0F" by (rule word_and_le1)
    then show ?thesis
      using that g es by (simp add: encodable_def d BASE_HEADER_SIZE_def)
  qed
  have hb: "header_bytes ?h = take 39 buf @ [0]"
    by (rule header_bytes_of_buffer) (simp_all add: d g)
  have "slice 40 (packet_len ?h) buf = chain_bytes es @ dec_payload d"
    using slice_slices [of 40 cursor "packet_len ?h" buf] es(4,6) by (simp add: plen fields)
  moreover have "(take (packet_len ?h) buf)[39 := 0] = take 39 buf @ 0 # slice 40 (packet_len ?h) buf"
    using g(1,5) es(4) plen fields
    by (simp add: upd_conv_take_nth_drop slice_def min_def drop_take)
  ultimately show "header_bytes ?h @ chain_bytes ?es @ dec_payload d = (take (packet_len ?h) buf)[39 := 0]"
    by (simp add: hb fields)
qed

text \<open>
  Every buffer that the decoder accepts is canonical: re-encoding the decoded header and
  payload gives the accepted packet byte for byte, with only the ignored padding byte 39
  cleared, whenever the sender left the reserved flag bits zero.
\<close>

theorem encode_decode:
  assumes "decode buf = Inr d" "reserved_ok (hdr_flags (dec_header d))"
  shows "encode (dec_header d) (dec_payload d) =
    Inr ((take (packet_len (dec_header d)) buf)[39 := 0])"
  using decode_sound [OF assms(1)] assms(2) by (simp add: encode_iff)

text \<open>
  Bounds of an accepted packet: the declared payload and the whole packet lie inside the
  buffer and within the UDP limit of 65507 bytes, and the extension chain has at most 64
  well-formed headers of pairwise distinct types.
\<close>

theorem decode_bounds:
  assumes "decode buf = Inr d"
  shows "packet_len (dec_header d) \<le> length buf \<and> packet_len (dec_header d) \<le> MAX_PACKET_LEN
    \<and> length (dec_payload d) = unat (hdr_payload_len (dec_header d))
    \<and> length (hdr_ext_headers (dec_header d)) \<le> MAX_EXT_CHAIN
    \<and> chain_ok (hdr_ext_headers (dec_header d))"
  using decode_sound [OF assms] by simp

lemma decode_sample:
  "decode ((header_bytes sample_header @ chain_bytes (hdr_ext_headers sample_header) @ [7, 8]) @ [1, 2, 3])
     = Inr \<lparr>dec_header = sample_header, dec_payload = [7, 8]\<rparr>"
  by (rule decode_encoded [OF sample_header_ok(1,2)]) (simp_all add: sample_header_ok(3))

lemma sample_flags_ok: "reserved_ok (hdr_flags sample_header)"
  using sample_header_ok(1) by (simp add: encodable_def)

lemma encode_decode_witness:
  "encode sample_header [7, 8] = Inr ((take (packet_len sample_header)
     ((header_bytes sample_header @ chain_bytes (hdr_ext_headers sample_header) @ [7, 8]) @ [1, 2, 3]))[39 := 0])"
  using encode_decode [OF decode_sample] sample_flags_ok by simp

lemma decode_bounds_witness:
  "packet_len sample_header \<le> MAX_PACKET_LEN \<and> chain_ok (hdr_ext_headers sample_header)"
  using decode_bounds [OF decode_sample] by simp

text \<open>A type that the chain repeats stops the decoder.\<close>

lemma decode_chain_cycle:
  assumes "list_all ext_ok (e # es)" "idx + length (e # es) \<le> MAX_EXT_CHAIN"
    and "\<not> (distinct (map (\<lambda>e. ext_wire (ext_type e)) (e # es)) \<and>
           set (map (\<lambda>e. ext_wire (ext_type e)) (e # es)) \<inter> set seen = {})"
    and "buf = pre @ chain_bytes (e # es) @ post" "cursor = length pre"
  shows "decode_chain buf (ext_wire (ext_type e)) idx seen cursor acc = Inl Dec_ExtChainCycle"
  using assms
proof (induction es arbitrary: e idx seen cursor acc pre)
  case Nil
  then show ?case by (subst decode_chain.simps) simp
next
  case (Cons f fs)
  show ?case
  proof (cases "ext_wire (ext_type e) \<in> set seen")
    case True
    then show ?thesis by (subst decode_chain.simps) simp
  next
    case False
    have e: "ext_ok e" "ext_ok f" using Cons.prems(1) by simp_all
    have next_chain: "decode_chain buf (ext_wire (ext_type f)) (idx + 1) (seen @ [ext_wire (ext_type e)])
        (cursor + wire_size e) (acc @ [e]) = Inl Dec_ExtChainCycle"
      by (rule Cons.IH [where pre = "pre @ [ext_wire (ext_type f), ext_len e] @ ext_payload e"])
         (use Cons.prems False in \<open>auto simp: first_type_def wire_size_def\<close>)
    have "ext_from_u8 (ext_wire (ext_type e)) = ext_type e"
      using e by (simp add: ext_ok_def canonical_type_def)
    moreover have "buf ! cursor = ext_wire (ext_type f)" "buf ! (cursor + 1) = ext_len e"
      "slice (cursor + 2) (cursor + 2 + length (ext_payload e)) buf = ext_payload e"
      using Cons.prems(4,5) by (simp_all add: nth_append first_type_def slice_def)
    ultimately show ?thesis
      using Cons.prems e False ext_len_unat [of e] ext_len_pos [of e] ext_ok_wire_nonzero [of f] next_chain
      by (subst decode_chain.simps) (simp add: wire_size_def ext_header_eta Let_def)
  qed
qed

text \<open>
  The encoder does not check that the extension types of a chain are distinct, but the
  decoder refuses a repeated one: every encodable packet with well-formed extension headers is
  either read back exactly, or, when some type occurs twice, rejected as a cycle.
\<close>

theorem decode_encode_cases:
  assumes "encode h p = Inr pkt" "list_all ext_ok (hdr_ext_headers h)"
  shows "decode pkt =
    (if distinct (map (\<lambda>e. ext_wire (ext_type e)) (hdr_ext_headers h))
     then Inr \<lparr>dec_header = h, dec_payload = p\<rparr> else Inl Dec_ExtChainCycle)"
proof (cases "distinct (map (\<lambda>e. ext_wire (ext_type e)) (hdr_ext_headers h))")
  case True
  then show ?thesis
    using assms decode_encoded [of h p pkt "[]"] by (simp add: encode_iff chain_ok_def)
next
  case False
  have enc: "encodable h" "length p = unat (hdr_payload_len h)"
    and pkt: "pkt = header_bytes h @ chain_bytes (hdr_ext_headers h) @ p"
    using assms(1) by (simp_all add: encode_iff)
  note f = header_bytes_fields [OF pkt]
  obtain e es where es: "hdr_ext_headers h = e # es" using False by (cases "hdr_ext_headers h") auto
  have v: "drop_bit 4 (pkt ! 0) = IPV8_VERSION"
    using version_byte [of IPV8_VERSION "hdr_min_compat_ver h"] enc(1) unfolding f(1)
    by (simp add: IPV8_VERSION_def encodable_def)
  have be: "from_be [pkt ! 3, pkt ! 4] = hdr_payload_len h" unfolding f by simp
  have "decode_chain pkt (ext_wire (ext_type e)) 0 [] BASE_HEADER_SIZE [] = Inl Dec_ExtChainCycle"
    by (rule decode_chain_cycle [where pre = "header_bytes h" and post = p and es = es])
       (use assms(2) enc es False pkt in \<open>auto simp: encodable_def BASE_HEADER_SIZE_def\<close>)
  moreover have "hdr_next_header h = ext_wire (ext_type e)" "hdr_next_header h \<noteq> 0"
    using enc(1) es assms(2) ext_ok_wire_nonzero [of e] by (simp_all add: encodable_def first_type_def)
  moreover have "\<not> length pkt < BASE_HEADER_SIZE" using pkt by (simp add: BASE_HEADER_SIZE_def)
  moreover have "\<not> hdr_payload_len h > MAX_PAYLOAD_LEN" using enc by (simp add: encodable_def not_less)
  ultimately show ?thesis
    using False unfolding decode_def Let_def v be f(4-5) by simp
qed

definition cyclic_header :: ipv8_header where
  "cyclic_header = attach_ext_headers
     (header_new (addr_with_region 1 1 0 2 0) (addr_with_region 2 1 0 3 0) 0)
     [\<lparr>ext_type = SemanticTag, ext_payload = replicate 8 97\<rparr>,
      \<lparr>ext_type = SemanticTag, ext_payload = replicate 8 98\<rparr>]"

lemma cyclic_header_ok:
  "encodable cyclic_header" "list_all ext_ok (hdr_ext_headers cyclic_header)"
  "unat (hdr_payload_len cyclic_header) = 0"
  "\<not> distinct (map (\<lambda>e. ext_wire (ext_type e)) (hdr_ext_headers cyclic_header))"
  by (simp_all add: cyclic_header_def attach_ext_headers_def header_new_def encodable_def
      ext_ok_def canonical_type_def ext_from_u8_def first_type_def reserved_ok_def has_extension_def
      ext_total_def wire_size_def const_defs)

lemma decode_encode_cases_witness:
  "\<exists>pkt. encode cyclic_header [] = Inr pkt \<and> decode pkt = Inl Dec_ExtChainCycle"
proof (intro exI conjI)
  show enc: "encode cyclic_header [] =
      Inr (header_bytes cyclic_header @ chain_bytes (hdr_ext_headers cyclic_header) @ [])"
    by (simp add: encode_iff cyclic_header_ok)
  show "decode (header_bytes cyclic_header @ chain_bytes (hdr_ext_headers cyclic_header) @ [])
      = Inl Dec_ExtChainCycle"
    using decode_encode_cases [OF enc cyclic_header_ok(2)] cyclic_header_ok(4) by simp
qed

end
