(* ===== verification/CodecFragment.thy ===== *)
theory CodecFragment
  imports CodecWire "HOL-Library.Multiset"
begin

text \<open>
  MTU fragmentation and reassembly, \<open>ipv8-codec/src/fragment.rs\<close>. The reassembler's
  \<open>HashMap\<close> of groups and each group's \<open>BTreeMap\<close> of chunks are association
  lists with distinct keys (their lengths matter, their order does not). An instant is a
  natural number of nanoseconds, read once per call. The \<open>expect\<close> on the rebuilt header is
  the outcome \<open>Panic\<close>.
\<close>

section \<open>Fragmentation\<close>

definition DEFAULT_MTU :: nat where [const_defs]: "DEFAULT_MTU = 1432"
definition FRAG_EXT_WIRE :: nat where [const_defs]: "FRAG_EXT_WIRE = 10"
definition MAX_GROUPS :: nat where [const_defs]: "MAX_GROUPS = 64"
definition MAX_GROUP_BYTES :: nat where [const_defs]: "MAX_GROUP_BYTES = 65467"
definition REASSEMBLY_TIMEOUT :: nat where [const_defs]: "REASSEMBLY_TIMEOUT = 30 * 10 ^ 9"

record fragment_info =
  fi_id :: u32
  fi_offset :: u16
  fi_more :: bool

definition frag_to_ext :: "fragment_info \<Rightarrow> ext_header" where
  "frag_to_ext f = (
     let p = replicate 8 0;
         p = write_at 0 (to_be32 (fi_id f)) p;
         w = push_bit 3 (fi_offset f AND 0x1FFF) OR push_bit 2 (if fi_more f then 1 else 0);
         p = write_at 4 (to_be16 w) p
     in \<lparr>ext_type = Fragment, ext_payload = p\<rparr>)"

definition frag_parse :: "ext_header \<Rightarrow> fragment_info option" where
  "frag_parse ext = (
     if ext_type ext \<noteq> Fragment \<or> length (ext_payload ext) \<noteq> 8 then None
     else
       let w = (from_be (slice 4 6 (ext_payload ext)) :: u16)
       in Some \<lparr>fi_id = from_be (slice 0 4 (ext_payload ext)), fi_offset = drop_bit 3 w AND 0x1FFF,
                fi_more = (w AND 0x4 \<noteq> 0)\<rparr>)"

datatype fragment_error = Frag_NotAValidPacket decode_error | Frag_AlreadyFragmented
  | Frag_LengthMismatch | Frag_MtuTooSmall nat

definition decode_err_from_encode :: "encode_error \<Rightarrow> decode_error" where
  "decode_err_from_encode e = (case e of Enc_PayloadTooLong n \<Rightarrow> Dec_PayloadTooLong n | _ \<Rightarrow> Dec_TooShort 0)"

text \<open>One iteration's header: the fragment header first, the original chain on the first piece.\<close>

definition fragment_header :: "ipv8_header \<Rightarrow> u32 \<Rightarrow> nat \<Rightarrow> u16 \<Rightarrow> nat \<Rightarrow> bool \<Rightarrow> ipv8_header" where
  "fragment_header h ident pos offset_units take_len mf = (
     let chain = (if pos = 0
           then frag_to_ext \<lparr>fi_id = ident, fi_offset = offset_units, fi_more = mf\<rparr> # hdr_ext_headers h
           else [frag_to_ext \<lparr>fi_id = ident, fi_offset = offset_units, fi_more = mf\<rparr>]);
         hdr = \<lparr>hdr_version = hdr_version h, hdr_min_compat_ver = hdr_min_compat_ver h,
                hdr_flags = hdr_flags h AND NOT (FLAG_HAS_EXTENSION OR FLAG_FRAGMENT),
                hdr_payload_len = of_nat take_len, hdr_hop_limit = hdr_hop_limit h, hdr_next_header = 0,
                hdr_src_addr = hdr_src_addr h, hdr_dst_addr = hdr_dst_addr h, hdr_ext_headers = []\<rparr>;
         hdr = attach_ext_headers hdr chain
     in hdr\<lparr>hdr_flags := hdr_flags hdr OR FLAG_FRAGMENT\<rparr>)"

text \<open>
  The loop \<open>while pos < payload.len()\<close>. The caller has rejected a chunk below 8, so the
  test \<open>chunk = 0\<close> that makes the recursion total never decides anything.
\<close>

function fragment_loop ::
  "decoded \<Rightarrow> nat \<Rightarrow> u32 \<Rightarrow> nat \<Rightarrow> u16 \<Rightarrow> bytes list \<Rightarrow> fragment_error + bytes list" where
  "fragment_loop d chunk ident pos offset_units out = (
     if pos \<ge> length (dec_payload d) \<or> chunk = 0 then Inr out
     else
       let take_len = min chunk (length (dec_payload d) - pos);
           mf = (pos + take_len < length (dec_payload d));
           hdr = fragment_header (dec_header d) ident pos offset_units take_len mf
       in case encode_header hdr [] of
            Inl e \<Rightarrow> Inl (Frag_NotAValidPacket (decode_err_from_encode e))
          | Inr (buf, _) \<Rightarrow>
              fragment_loop d chunk ident (pos + take_len) (offset_units + of_nat (take_len div 8))
                (out @ [buf @ slice pos (pos + take_len) (dec_payload d)]))"
  by pat_completeness auto
termination
  by (relation "measure (\<lambda>(d, _, _, pos, _). length (dec_payload d) - pos)") auto

declare fragment_loop.simps [simp del]

definition fragment_packet :: "bytes \<Rightarrow> nat \<Rightarrow> u32 \<Rightarrow> fragment_error + bytes list" where
  "fragment_packet packet max_len ident = (case decode packet of
     Inl e \<Rightarrow> Inl (Frag_NotAValidPacket e)
   | Inr d \<Rightarrow>
       if list_ex (\<lambda>e. ext_type e = Fragment) (hdr_ext_headers (dec_header d))
         then Inl Frag_AlreadyFragmented
       else if length packet \<le> max_len then Inr [packet]
       else if length (dec_payload d) \<noteq> unat (hdr_payload_len (dec_header d)) then Inl Frag_LengthMismatch
       else
         let budget = max_len - (BASE_HEADER_SIZE + FRAG_EXT_WIRE + ext_total (hdr_ext_headers (dec_header d)));
             chunk = budget - budget mod 8
         in if chunk < 8 then Inl (Frag_MtuTooSmall max_len)
            else fragment_loop d chunk ident 0 0 [])"

section \<open>Reassembly\<close>

datatype reassembly_error = Re_FlagMismatch | Re_NotFirstExt | Re_Overlap | Re_BeyondTotal
  | Re_Misaligned | Re_Oversize | Re_OffsetOverflow | Re_TooManyGroups

record frag_group =
  fg_orig_ext :: "ext_header list option"
  fg_flags :: u16
  fg_version :: u8
  fg_min_compat_ver :: u8
  fg_hop_limit :: u8
  fg_src :: ipv8_address
  fg_dst :: ipv8_address
  fg_chunks :: "(nat \<times> bytes) list"
  fg_pos :: nat
  fg_total :: "nat option"
  fg_payload :: bytes
  fg_created :: nat

type_synonym group_key = "bytes \<times> bytes \<times> u32"
type_synonym reassembler = "(group_key \<times> frag_group) list"

definition reassembler_new :: reassembler where
  "reassembler_new = []"

definition active_groups :: "reassembler \<Rightarrow> nat" where
  "active_groups gs = length gs"

definition reap :: "nat \<Rightarrow> reassembler \<Rightarrow> reassembler" where
  "reap now gs = filter (\<lambda>(_, g). now - fg_created g < REASSEMBLY_TIMEOUT) gs"

text \<open>\<open>flags & !(flags::FRAGMENT | flags::HAS_EXTENSION)\<close>\<close>

definition plain_flags :: "u16 \<Rightarrow> u16" where
  "plain_flags flags = flags AND NOT (FLAG_FRAGMENT OR FLAG_HAS_EXTENSION)"

definition group_new :: "nat \<Rightarrow> ipv8_header \<Rightarrow> frag_group" where
  "group_new now hdr =
    \<lparr>fg_orig_ext = None, fg_flags = plain_flags (hdr_flags hdr),
     fg_version = hdr_version hdr, fg_min_compat_ver = hdr_min_compat_ver hdr,
     fg_hop_limit = hdr_hop_limit hdr, fg_src = hdr_src_addr hdr, fg_dst = hdr_dst_addr hdr,
     fg_chunks = [], fg_pos = 0, fg_total = None, fg_payload = [], fg_created = now\<rparr>"

text \<open>The loop that moves contiguous chunks to the payload.\<close>

function advance :: "(nat \<times> bytes) list \<Rightarrow> nat \<Rightarrow> bytes \<Rightarrow> (nat \<times> bytes) list \<times> nat \<times> bytes" where
  "advance chunks pos payload = (case map_of chunks pos of
     None \<Rightarrow> (chunks, pos, payload)
   | Some bs \<Rightarrow> advance (AList.delete pos chunks) (pos + length bs) (payload @ bs))"
  by pat_completeness auto
termination
proof (relation "measure (\<lambda>(chunks, _, _). length chunks)")
  fix chunks :: "(nat \<times> bytes) list" and pos :: nat and payload bs :: bytes
  assume "map_of chunks pos = Some bs"
  then have "(pos, bs) \<in> set chunks" by (rule map_of_SomeD)
  then have "length (AList.delete pos chunks) < length chunks"
    unfolding AList.delete_eq by (intro length_filter_less [of "(pos, bs)"]) auto
  then show "((AList.delete pos chunks, pos + length bs, payload @ bs), chunks, pos, payload)
      \<in> measure (\<lambda>(chunks, _, _). length chunks)" by simp
qed simp

declare advance.simps [simp del]

text \<open>The rebuilt packet; \<open>expect\<close> panics when the header cannot be encoded.\<close>

definition rebuild :: "frag_group \<Rightarrow> nat \<Rightarrow> (reassembly_error, bytes option) outcome" where
  "rebuild g tot = (
     let out_hdr = \<lparr>hdr_version = fg_version g, hdr_min_compat_ver = fg_min_compat_ver g,
           hdr_flags = fg_flags g, hdr_payload_len = of_nat tot, hdr_hop_limit = fg_hop_limit g,
           hdr_next_header = 0, hdr_src_addr = fg_src g, hdr_dst_addr = fg_dst g, hdr_ext_headers = []\<rparr>;
         out_hdr = attach_ext_headers out_hdr (case fg_orig_ext g of None \<Rightarrow> [] | Some es \<Rightarrow> es)
     in case encode_header out_hdr [] of
          Inl _ \<Rightarrow> Panic
        | Inr (pkt, _) \<Rightarrow> Ok (Some (pkt @ fg_payload g)))"

text \<open>
  What \<open>insert\<close> does with the group \<open>g\<close> of the fragment: the updated group and either
  an error or whether the group is complete. The group keeps what was stored before an error.
\<close>

definition group_insert ::
  "fragment_info \<Rightarrow> ipv8_header \<Rightarrow> bytes \<Rightarrow> frag_group \<Rightarrow> frag_group \<times> (reassembly_error + bool)" where
  "group_insert frag hdr payload g = (
     let start = unat (fi_offset frag) * 8; len = length payload in
     if start < fg_pos g then (g, Inl Re_Overlap)
     else if (case fg_total g of Some t \<Rightarrow> start + len > t | None \<Rightarrow> False) then (g, Inl Re_BeyondTotal)
     else if \<not> fi_more frag \<and> start + len > MAX_GROUP_BYTES then (g, Inl Re_Oversize)
     else if \<not> fi_more frag \<and> (case fg_total g of Some old \<Rightarrow> old \<noteq> start + len | None \<Rightarrow> False)
       then (g, Inl Re_BeyondTotal)
     else
       let g = (if \<not> fi_more frag then g\<lparr>fg_total := Some (start + len)\<rparr> else g);
           g = (if start = 0 \<and> fg_orig_ext g = None
                then g\<lparr>fg_orig_ext := Some (tl (hdr_ext_headers hdr))\<rparr> else g);
           old = map_of (fg_chunks g) start;
           g = g\<lparr>fg_chunks := AList.update start payload (fg_chunks g)\<rparr>
       in if old \<noteq> None then (g, Inl Re_Overlap)
          else
            let (chunks, pos, pl) = advance (fg_chunks g) (fg_pos g) (fg_payload g);
                g = g\<lparr>fg_chunks := chunks, fg_pos := pos, fg_payload := pl\<rparr>
            in (g, Inr (fg_total g = Some (fg_pos g))))"

definition group_key_of :: "ipv8_header \<Rightarrow> fragment_info \<Rightarrow> group_key" where
  "group_key_of hdr frag = (to_bytes (hdr_src_addr hdr), to_bytes (hdr_dst_addr hdr), fi_id frag)"

definition first_fragment :: "ipv8_header \<Rightarrow> fragment_info option" where
  "first_fragment hdr = (case hdr_ext_headers hdr of [] \<Rightarrow> None | e # _ \<Rightarrow> frag_parse e)"

text \<open>\<open>insert\<close> from \<open>entry(key).or_insert_with\<close> on.\<close>

definition entry_insert ::
  "nat \<Rightarrow> ipv8_header \<Rightarrow> bytes \<Rightarrow> fragment_info \<Rightarrow> group_key \<Rightarrow> reassembler \<Rightarrow>
     reassembler \<times> (reassembly_error, bytes option) outcome" where
  "entry_insert now hdr payload frag key groups = (
     let g0 = (case map_of groups key of None \<Rightarrow> group_new now hdr | Some g \<Rightarrow> g);
         (g, r) = group_insert frag hdr payload g0
     in case r of
          Inl e \<Rightarrow> (AList.update key g groups, Err e)
        | Inr False \<Rightarrow> (AList.update key g groups, Ok None)
        | Inr True \<Rightarrow> (AList.delete key groups, rebuild g (the (fg_total g))))"

definition reasm_insert ::
  "nat \<Rightarrow> ipv8_header \<Rightarrow> bytes \<Rightarrow> reassembler \<Rightarrow>
     reassembler \<times> (reassembly_error, bytes option) outcome" where
  "reasm_insert now hdr payload groups = (
     case first_fragment hdr of
       None \<Rightarrow> (groups, Err Re_FlagMismatch)
     | Some frag \<Rightarrow>
       if \<not> is_fragment (hdr_flags hdr) then (groups, Err Re_FlagMismatch)
       else if map_option ext_type (case hdr_ext_headers hdr of [] \<Rightarrow> None | e # _ \<Rightarrow> Some e) \<noteq> Some Fragment
         then (groups, Err Re_NotFirstExt)
       else if unat (fi_offset frag) * 8 > 0x1FFF * 8 then (groups, Err Re_OffsetOverflow)
       else if fi_more frag \<and> length payload mod 8 \<noteq> 0 then (groups, Err Re_Misaligned)
       else
         let groups = reap now groups;
             key = group_key_of hdr frag;
             full = (map_of groups key = None \<and> length groups \<ge> MAX_GROUPS);
             groups = (if full then reap now groups else groups)
         in if full \<and> length groups \<ge> MAX_GROUPS then (groups, Err Re_TooManyGroups)
            else entry_insert now hdr payload frag key groups)"

section \<open>The fragment header on the wire\<close>

definition fragment_ok :: "fragment_info \<Rightarrow> bool" where
  "fragment_ok f \<longleftrightarrow> fi_offset f \<le> 0x1FFF"

lemma offset_mask:
  assumes "(o' :: u16) \<le> 0x1FFF"
  shows "o' AND 0x1FFF = o'"
proof -
  have "take_bit 13 o' = o'"
    using assms by (simp add: word_unat_eq_iff unsigned_take_bit_eq word_le_nat_alt take_bit_nat_eq_self)
  then show ?thesis by (simp add: take_bit_eq_mask mask_eq_exp_minus_1)
qed

lemma offset_word:
  assumes "(o' :: u16) \<le> 0x1FFF"
  shows "drop_bit 3 (push_bit 3 (o' AND 0x1FFF) OR push_bit 2 (if b then 1 else 0)) AND 0x1FFF = o'"
    "(push_bit 3 (o' AND 0x1FFF) OR push_bit 2 (if b then 1 else 0)) AND 0x4 \<noteq> 0 \<longleftrightarrow> b"
proof -
  have m: "(0x1FFF :: u16) = mask 13" by (simp add: mask_eq_exp_minus_1)
  have bits: "bit o' n \<Longrightarrow> n < 13" for n
    using offset_mask [OF assms] unfolding m by (metis bit_and_iff bit_mask_iff)
  show "drop_bit 3 (push_bit 3 (o' AND 0x1FFF) OR push_bit 2 (if b then 1 else 0)) AND 0x1FFF = o'"
    unfolding m by (rule bit_word_eqI) (auto simp: bit_simps dest: bits)
  have and4: "x AND 0x4 \<noteq> 0 \<longleftrightarrow> bit x 2" for x :: u16
    using and_exp_eq_0_iff_not_bit [of x 2] by simp
  show "(push_bit 3 (o' AND 0x1FFF) OR push_bit 2 (if b then 1 else 0)) AND 0x4 \<noteq> 0 \<longleftrightarrow> b"
    unfolding and4 bit_or_iff bit_push_bit_iff by (cases b) simp_all
qed

lemma frag_ext_payload: "frag_to_ext f = \<lparr>ext_type = Fragment, ext_payload = to_be32 (fi_id f) @
    to_be16 (push_bit 3 (fi_offset f AND 0x1FFF) OR push_bit 2 (if fi_more f then 1 else 0)) @ [0, 0]\<rparr>"
  by (simp add: frag_to_ext_def write_at_def numeral_eq_Suc)

lemma frag_parse_to_ext:
  assumes "fragment_ok f"
  shows "frag_parse (frag_to_ext f) = Some f"
proof -
  have o: "fi_offset f \<le> 0x1FFF" using assms by (simp add: fragment_ok_def)
  show ?thesis
    unfolding frag_parse_def frag_ext_payload Let_def
    using offset_word [OF o, of "fi_more f"]
    by (simp add: slice_append_left slice_append_skip slice_full)
qed

interpretation fragment_codec: fixed_codec "\<lambda>f. ext_payload (frag_to_ext f)"
  "\<lambda>p. frag_parse \<lparr>ext_type = Fragment, ext_payload = p\<rparr>" fragment_ok 8
proof unfold_locales
  fix f
  assume "fragment_ok f"
  then show "frag_parse \<lparr>ext_type = Fragment, ext_payload = ext_payload (frag_to_ext f)\<rparr> = Some f"
    using frag_parse_to_ext [of f] by (simp add: frag_ext_payload)
qed (simp_all add: frag_ext_payload)

lemma frag_to_ext_ok [simp]: "ext_ok (frag_to_ext f)" "wire_size (frag_to_ext f) = 10"
  "ext_type (frag_to_ext f) = Fragment" "length (ext_payload (frag_to_ext f)) = 8"
  by (simp_all add: frag_ext_payload ext_ok_def canonical_type_def ext_from_u8_def wire_size_def)

section \<open>The pieces of a packet\<close>

lemma fragment_header_simps [simp]:
  "hdr_version (fragment_header h i pos ou tk mf) = hdr_version h"
  "hdr_min_compat_ver (fragment_header h i pos ou tk mf) = hdr_min_compat_ver h"
  "hdr_payload_len (fragment_header h i pos ou tk mf) = of_nat tk"
  "hdr_hop_limit (fragment_header h i pos ou tk mf) = hdr_hop_limit h"
  "hdr_next_header (fragment_header h i pos ou tk mf) = 6"
  "hdr_src_addr (fragment_header h i pos ou tk mf) = hdr_src_addr h"
  "hdr_dst_addr (fragment_header h i pos ou tk mf) = hdr_dst_addr h"
  "hdr_ext_headers (fragment_header h i pos ou tk mf) =
     frag_to_ext \<lparr>fi_id = i, fi_offset = ou, fi_more = mf\<rparr> # (if pos = 0 then hdr_ext_headers h else [])"
  by (simp_all add: fragment_header_def first_type_def Let_def)

lemma fragment_header_flags:
  "hdr_flags (fragment_header h i pos ou tk mf) =
     ((hdr_flags h AND NOT (FLAG_HAS_EXTENSION OR FLAG_FRAGMENT)) OR FLAG_HAS_EXTENSION) OR FLAG_FRAGMENT"
  by (simp add: fragment_header_def attach_ext_headers_def Let_def)

lemma fragment_flag_bits:
  "is_fragment (hdr_flags (fragment_header h i pos ou tk mf))"
  "has_extension (hdr_flags (fragment_header h i pos ou tk mf))"
  "plain_flags (hdr_flags (fragment_header h i pos ou tk mf)) = plain_flags (hdr_flags h)"
proof -
  show "is_fragment (hdr_flags (fragment_header h i pos ou tk mf))"
    "has_extension (hdr_flags (fragment_header h i pos ou tk mf))"
    unfolding flag_bits fragment_header_flags by (simp_all add: const_defs bit_simps)
  show "plain_flags (hdr_flags (fragment_header h i pos ou tk mf)) = plain_flags (hdr_flags h)"
    unfolding fragment_header_flags plain_flags_def by (rule bit_word_eqI) (auto simp: bit_simps)
qed

lemma u16_bit_high: "bit (f :: u16) n \<Longrightarrow> n < 16"
  using bit_imp_le_length [of f n] by simp

lemma flag_bit_simps [simp]:
  "bit FLAG_FRAGMENT n \<longleftrightarrow> n = 5" "bit FLAG_HAS_EXTENSION n \<longleftrightarrow> n = 6"
  unfolding FLAG_FRAGMENT_def FLAG_HAS_EXTENSION_def bit_push_bit_iff by (auto simp: bit_1_iff)

lemma reserved_bits: "reserved_ok f \<longleftrightarrow> (\<forall>n. 7 \<le> n \<longrightarrow> \<not> bit f n)"
proof -
  have m: "FLAG_RESERVED_MASK = NOT (mask 7)" by (simp add: FLAG_RESERVED_MASK_def mask_eq_exp_minus_1)
  show ?thesis
    unfolding reserved_ok_def m
    by (auto simp: bit_eq_iff bit_simps not_less dest: u16_bit_high)
qed

lemma fragment_flags_reserved:
  "reserved_ok (hdr_flags h) \<Longrightarrow> reserved_ok (hdr_flags (fragment_header h i pos ou tk mf))"
  unfolding reserved_bits fragment_header_flags by (auto simp: bit_simps)

lemma ext_total_append [simp]: "ext_total (xs @ ys) = ext_total xs + ext_total ys"
  by (simp add: ext_total_def)

text \<open>What a packet needs to be split into \<open>n\<close> pieces of \<open>8 c\<close> bytes.\<close>

definition splittable :: "ipv8_header \<Rightarrow> bytes \<Rightarrow> nat \<Rightarrow> nat \<Rightarrow> bool" where
  "splittable h p c n \<longleftrightarrow> encodable h \<and> chain_ok (hdr_ext_headers h)
     \<and> \<not> list_ex (\<lambda>e. ext_type e = Fragment) (hdr_ext_headers h)
     \<and> length (hdr_ext_headers h) < MAX_EXT_CHAIN \<and> \<not> is_fragment (hdr_flags h)
     \<and> length p = unat (hdr_payload_len h) \<and> 0 < c \<and> 50 + ext_total (hdr_ext_headers h) + 8 * c \<le> MAX_PACKET_LEN
     \<and> 8 * c * (n - 1) < length p \<and> length p \<le> 8 * c * n \<and> 0 < n"

definition piece_header :: "ipv8_header \<Rightarrow> bytes \<Rightarrow> nat \<Rightarrow> u32 \<Rightarrow> nat \<Rightarrow> ipv8_header" where
  "piece_header h p c ident k = fragment_header h ident (8 * c * k) (of_nat (c * k))
     (min (8 * c) (length p - 8 * c * k)) (8 * c * k + min (8 * c) (length p - 8 * c * k) < length p)"

definition piece_data :: "bytes \<Rightarrow> nat \<Rightarrow> nat \<Rightarrow> bytes" where
  "piece_data p c k = slice (8 * c * k) (8 * c * k + 8 * c) p"

definition piece :: "ipv8_header \<Rightarrow> bytes \<Rightarrow> nat \<Rightarrow> u32 \<Rightarrow> nat \<Rightarrow> bytes" where
  "piece h p c ident k = header_bytes (piece_header h p c ident k) @
     chain_bytes (hdr_ext_headers (piece_header h p c ident k)) @ piece_data p c k"

lemma length_piece_data: "length (piece_data p c k) = min (8 * c) (length p - 8 * c * k)"
  by (simp add: piece_data_def)

lemma splittable_len: "splittable h p c n \<Longrightarrow> length p \<le> 65467"
  by (auto simp: splittable_def encodable_def MAX_PAYLOAD_LEN_def word_le_nat_alt)

lemma splittable_before: "splittable h p c n \<Longrightarrow> k < n \<Longrightarrow> 8 * c * k < length p"
  unfolding splittable_def
  by (metis (no_types, lifting) Suc_pred' le_less_trans less_Suc_eq_le mult_le_mono2)

lemma piece_more:
  assumes "splittable h p c n" "k < n"
  shows "8 * c * k + min (8 * c) (length p - 8 * c * k) < length p \<longleftrightarrow> k \<noteq> n - 1"
proof (cases "k = n - 1")
  case True
  have "n = k + 1" using True assms(2) by simp
  then have "length p \<le> 8 * c * k + 8 * c" using assms(1) by (simp add: splittable_def algebra_simps)
  then show ?thesis using True splittable_before [OF assms] by auto
next
  case False
  then have "8 * c * (k + 1) < length p" using assms by (intro splittable_before [OF assms(1)]) auto
  then show ?thesis using False by (auto simp: algebra_simps)
qed

lemma piece_take_small:
  assumes "splittable h p c n" "k < n"
  shows "unat (of_nat (min (8 * c) (length p - 8 * c * k)) :: u16) = min (8 * c) (length p - 8 * c * k)"
    "unat (of_nat (c * k) :: u16) = c * k" "c * k \<le> 8183"
proof -
  have "min (8 * c) (length p - 8 * c * k) \<le> 65467" using splittable_len [OF assms(1)] by auto
  then show "unat (of_nat (min (8 * c) (length p - 8 * c * k)) :: u16) = min (8 * c) (length p - 8 * c * k)"
    by (simp add: unat_of_nat take_bit_nat_eq_self)
  show "c * k \<le> 8183" using splittable_len [OF assms(1)] splittable_before [OF assms] by simp
  then show "unat (of_nat (c * k) :: u16) = c * k"
    by (simp add: unat_of_nat take_bit_nat_eq_self del: of_nat_mult)
qed

lemma piece_header_encodable:
  assumes "splittable h p c n" "k < n"
  shows "encodable (piece_header h p c ident k)" "chain_ok (hdr_ext_headers (piece_header h p c ident k))"
proof -
  note small = piece_take_small [OF assms]
  have "min (8 * c) (length p - 8 * c * k) \<le> 65467" using splittable_len [OF assms(1)] by auto
  then have "(of_nat (min (8 * c) (length p - 8 * c * k)) :: u16) \<le> MAX_PAYLOAD_LEN"
    using small(1) by (simp add: word_le_nat_alt MAX_PAYLOAD_LEN_def)
  moreover have "reserved_ok (hdr_flags h)" "hdr_version h = IPV8_VERSION" "hdr_min_compat_ver h \<le> 15"
    "length (hdr_ext_headers h) < MAX_EXT_CHAIN" "50 + ext_total (hdr_ext_headers h) + 8 * c \<le> MAX_PACKET_LEN"
    using assms by (simp_all add: splittable_def encodable_def)
  ultimately show "encodable (piece_header h p c ident k)"
    using small(1) fragment_flag_bits fragment_flags_reserved
    by (auto simp: encodable_def piece_header_def first_type_def BASE_HEADER_SIZE_def MAX_EXT_CHAIN_def)
  show "chain_ok (hdr_ext_headers (piece_header h p c ident k))"
  proof -
    have exts: "chain_ok (hdr_ext_headers h)" "\<forall>e \<in> set (hdr_ext_headers h). ext_type e \<noteq> Fragment"
      using assms by (simp_all add: splittable_def list_ex_iff)
    have "ext_wire (ext_type e) \<noteq> 6" if "e \<in> set (hdr_ext_headers h)" for e
    proof
      assume "ext_wire (ext_type e) = 6"
      moreover have "canonical_type (ext_type e)"
        using exts(1) that by (auto simp: chain_ok_def list_all_iff ext_ok_def)
      ultimately have "ext_type e = ext_from_u8 6" by (simp add: canonical_type_def)
      then show False using exts(2) that by (simp add: ext_from_u8_def)
    qed
    then show ?thesis
      using exts(1) by (auto simp: chain_ok_def piece_header_def image_iff)
  qed
qed

lemma decode_piece:
  assumes "splittable h p c n" "k < n"
  shows "decode (piece h p c ident k) =
    Inr \<lparr>dec_header = piece_header h p c ident k, dec_payload = piece_data p c k\<rparr>"
  by (rule decode_encoded [OF piece_header_encodable [OF assms], where junk = "[]"])
     (use piece_take_small(1) [OF assms] in \<open>simp_all add: length_piece_data piece_header_def piece_def\<close>)

lemma fragment_loop_pieces:
  assumes "splittable h p c n" "k < n"
  shows "fragment_loop \<lparr>dec_header = h, dec_payload = p\<rparr> (8 * c) ident (8 * c * k) (of_nat (c * k)) out =
    Inr (out @ map (piece h p c ident) [k..<n])"
  using assms(2)
proof (induction "n - k" arbitrary: k out)
  case (Suc x)
  let ?t = "min (8 * c) (length p - 8 * c * k)"
  have pos: "8 * c * k < length p" by (rule splittable_before [OF assms(1) Suc.prems])
  have c: "0 < c" using assms(1) by (simp add: splittable_def)
  have hd: "fragment_header h ident (8 * c * k) (of_nat (c * k)) ?t (8 * c * k + ?t < length p) =
      piece_header h p c ident k" by (simp only: piece_header_def)
  have sl: "slice (8 * c * k) (8 * c * k + ?t) p = piece_data p c k"
    by (simp add: piece_data_def slice_def min_def)
  have stop: "fragment_loop \<lparr>dec_header = h, dec_payload = p\<rparr> D ident q ou out = Inr out"
    if "length p \<le> q" for D q ou out
    using that by (subst fragment_loop.simps) simp
  have step: "fragment_loop \<lparr>dec_header = h, dec_payload = p\<rparr> (8 * c) ident (8 * c * k) (of_nat (c * k)) out =
      fragment_loop \<lparr>dec_header = h, dec_payload = p\<rparr> (8 * c) ident (8 * c * k + ?t)
        (of_nat (c * k) + of_nat (?t div 8)) (out @ [piece h p c ident k])"
    using pos piece_header_encodable(1) [OF assms(1) Suc.prems, of ident] c
    by (subst fragment_loop.simps) (simp add: Let_def hd sl encode_header_ok piece_def del: of_nat_mult)
  show ?case
  proof (cases "k = n - 1")
    case True
    then have "length p \<le> 8 * c * k + ?t" using piece_more [OF assms(1) Suc.prems] by linarith
    moreover have "[k..<n] = [k]" using True Suc.prems by (cases n) auto
    ultimately show ?thesis unfolding step by (simp add: stop)
  next
    case False
    then have k: "k + 1 < n" using Suc.prems by simp
    then have "8 * c * (k + 1) < length p" by (rule splittable_before [OF assms(1)])
    then have t: "?t = 8 * c" by (simp add: algebra_simps)
    have eq: "of_nat (c * k) + of_nat (?t div 8) = (of_nat (c * (k + 1)) :: u16)"
      "8 * c * k + ?t = 8 * c * (k + 1)"
      unfolding t by (simp_all add: algebra_simps)
    have IH: "fragment_loop \<lparr>dec_header = h, dec_payload = p\<rparr> (8 * c) ident (8 * c * (k + 1))
        (of_nat (c * (k + 1))) (out @ [piece h p c ident k]) =
      Inr ((out @ [piece h p c ident k]) @ map (piece h p c ident) [k + 1..<n])"
      by (rule Suc.hyps(1)) (use Suc.hyps(2) k in simp_all)
    show ?thesis unfolding step eq IH using Suc.prems by (simp add: upt_conv_Cons)
  qed
qed simp

lemma piece_length:
  assumes "splittable h p c n" "k < n"
  shows "length (piece h p c ident k) \<le> 50 + ext_total (hdr_ext_headers h) + 8 * c"
  by (auto simp: piece_def length_piece_data piece_header_def)

text \<open>The split that \<open>fragment_packet\<close> makes of an encoded packet longer than the MTU.\<close>

lemma fragment_packet_pieces:
  assumes "encode h p = Inr pkt" "chain_ok (hdr_ext_headers h)" "\<not> is_fragment (hdr_flags h)"
    and "length (hdr_ext_headers h) < MAX_EXT_CHAIN" "mtu < length pkt"
    and "\<not> list_ex (\<lambda>e. ext_type e = Fragment) (hdr_ext_headers h)" "58 + ext_total (hdr_ext_headers h) \<le> mtu"
  shows "\<exists>c n. splittable h p c n \<and> fragment_packet pkt mtu ident = Inr (map (piece h p c ident) [0..<n])
    \<and> 50 + ext_total (hdr_ext_headers h) + 8 * c \<le> mtu"
proof -
  have enc: "encodable h" "length p = unat (hdr_payload_len h)"
    and pkt: "pkt = header_bytes h @ chain_bytes (hdr_ext_headers h) @ p"
    using assms(1) by (simp_all add: encode_iff)
  have dec: "decode pkt = Inr \<lparr>dec_header = h, dec_payload = p\<rparr>"
    by (rule decode_encoded [where junk = "[]"]) (use enc assms pkt in simp_all)
  define budget where "budget = mtu - (BASE_HEADER_SIZE + FRAG_EXT_WIRE + ext_total (hdr_ext_headers h))"
  define c where "c = budget div 8"
  have c8: "budget - budget mod 8 = 8 * c" unfolding c_def by (metis minus_mod_eq_mult_div)
  have "8 \<le> budget" using assms(7) by (simp add: budget_def const_defs)
  then have c1: "8 \<le> 8 * c" unfolding c_def using div_le_mono [of 8 budget 8] by simp
  have frag: "fragment_packet pkt mtu ident = fragment_loop \<lparr>dec_header = h, dec_payload = p\<rparr> (8 * c) ident 0 0 []"
    using assms(5,6) enc(2) c1 by (auto simp: fragment_packet_def dec Let_def c8 budget_def [symmetric])
  have fits: "50 + ext_total (hdr_ext_headers h) + 8 * c \<le> mtu"
    using c1 c8 unfolding budget_def by (simp add: const_defs)
  have len: "length pkt = 40 + ext_total (hdr_ext_headers h) + length p" by (simp add: pkt)
  then have p: "8 * c < length p" using fits assms(5) by linarith
  define n where "n = (length p + 8 * c - 1) div (8 * c)"
  have n: "8 * c * (n - 1) < length p" "length p \<le> 8 * c * n" "0 < n"
  proof -
    have pos: "0 < 8 * c" using c1 by simp
    show "0 < n" unfolding n_def using pos p by (simp add: div_greater_zero_iff)
    have "8 * c * n \<le> length p + 8 * c - 1" unfolding n_def by (rule times_div_less_eq_dividend)
    then show "8 * c * (n - 1) < length p" using \<open>0 < n\<close> pos p by (simp add: diff_mult_distrib2)
    have "length p + 8 * c - 1 < 8 * c * (n + 1)"
      unfolding n_def using pos by (metis Suc_eq_plus1 dividend_less_div_times mult.commute mult_Suc_right add.commute)
    then show "length p \<le> 8 * c * n" by (simp add: algebra_simps)
  qed
  have "mtu < 65507" using assms(5) len enc by (simp add: encodable_def const_defs)
  then have "splittable h p c n"
    using enc assms c1 n fits by (simp add: splittable_def const_defs)
  moreover from this have "fragment_packet pkt mtu ident = Inr (map (piece h p c ident) [0..<n])"
    using fragment_loop_pieces [of h p c n 0 ident "[]"] n(3) frag by simp
  ultimately show ?thesis using fits by blast
qed

lemma fragment_packet_split:
  assumes "encode h p = Inr pkt" "chain_ok (hdr_ext_headers h)" "\<not> is_fragment (hdr_flags h)"
    and "length (hdr_ext_headers h) < MAX_EXT_CHAIN" "mtu < length pkt"
    and "fragment_packet pkt mtu ident = Inr frags"
  shows "\<exists>c n. splittable h p c n \<and> frags = map (piece h p c ident) [0..<n]
    \<and> 50 + ext_total (hdr_ext_headers h) + 8 * c \<le> mtu"
proof -
  have enc: "encodable h" "length p = unat (hdr_payload_len h)"
    and pkt: "pkt = header_bytes h @ chain_bytes (hdr_ext_headers h) @ p"
    using assms(1) by (simp_all add: encode_iff)
  have dec: "decode pkt = Inr \<lparr>dec_header = h, dec_payload = p\<rparr>"
    by (rule decode_encoded [where junk = "[]"]) (use enc assms pkt in simp_all)
  define budget where "budget = mtu - (BASE_HEADER_SIZE + FRAG_EXT_WIRE + ext_total (hdr_ext_headers h))"
  have "\<not> list_ex (\<lambda>e. ext_type e = Fragment) (hdr_ext_headers h)" and "8 \<le> budget - budget mod 8"
    using assms(5,6) enc(2)
    by (auto simp: fragment_packet_def dec Let_def not_less budget_def [symmetric] split: if_splits)
  moreover have "58 + ext_total (hdr_ext_headers h) \<le> mtu"
    using \<open>8 \<le> budget - budget mod 8\<close> unfolding budget_def by (simp add: const_defs)
  ultimately show ?thesis using fragment_packet_pieces [OF assms(1-5), of ident] assms(6) by auto
qed

text \<open>
  Every fragment of a packet fits the MTU and is itself a valid packet whose first extension
  header is the fragment header; the payloads of the fragments, in order, concatenate to the original payload.
\<close>

theorem fragments_fit_and_decode:
  assumes "encode h p = Inr pkt" "chain_ok (hdr_ext_headers h)" "\<not> is_fragment (hdr_flags h)"
    and "length (hdr_ext_headers h) < MAX_EXT_CHAIN" "mtu < length pkt"
    and "fragment_packet pkt mtu ident = Inr frags"
  shows "\<exists>ds. map decode frags = map Inr ds \<and> concat (map dec_payload ds) = p
    \<and> (\<forall>f \<in> set frags. length f \<le> mtu)
    \<and> (\<forall>d \<in> set ds. is_fragment (hdr_flags (dec_header d)) \<and> first_fragment (dec_header d) \<noteq> None)"
proof -
  obtain c n where cn: "splittable h p c n" "frags = map (piece h p c ident) [0..<n]"
    "50 + ext_total (hdr_ext_headers h) + 8 * c \<le> mtu"
    using fragment_packet_split [OF assms] by blast
  define ds where "ds = map (\<lambda>k. \<lparr>dec_header = piece_header h p c ident k, dec_payload = piece_data p c k\<rparr>) [0..<n]"
  have "map decode frags = map Inr ds"
    unfolding cn ds_def using decode_piece [OF cn(1)] by simp
  moreover have "concat (map dec_payload ds) = p"
  proof -
    have "m \<le> n \<Longrightarrow> concat (map (piece_data p c) [0..<m]) = take (8 * c * m) p" for m
    proof (induction m)
      case (Suc m)
      have "8 * c * Suc m = 8 * c * m + 8 * c" by simp
      with Suc show ?case by (simp only: take_add) (simp add: piece_data_def slice_def)
    qed simp
    from this [of n] show ?thesis using cn(1) by (simp add: ds_def comp_def splittable_def)
  qed
  moreover have "\<forall>f \<in> set frags. length f \<le> mtu"
  proof
    fix f
    assume "f \<in> set frags"
    then obtain k where "k < n" "f = piece h p c ident k" unfolding cn by auto
    then show "length f \<le> mtu" using piece_length [OF cn(1), of k ident] cn(3) by simp
  qed
  moreover have "is_fragment (hdr_flags (piece_header h p c ident k))
      \<and> first_fragment (piece_header h p c ident k) \<noteq> None" for k
    using fragment_flag_bits
    by (simp add: piece_header_def first_fragment_def frag_parse_def Let_def)
  then have "\<forall>d \<in> set ds. is_fragment (hdr_flags (dec_header d)) \<and> first_fragment (dec_header d) \<noteq> None"
    unfolding ds_def by auto
  ultimately show ?thesis by blast
qed

section \<open>Reassembly of the pieces\<close>

text \<open>The chunks of a set \<open>T\<close> of received piece numbers.\<close>

definition chunk_map :: "nat \<Rightarrow> bytes \<Rightarrow> nat set \<Rightarrow> nat \<Rightarrow> bytes option" where
  "chunk_map D p T s = (if s mod D = 0 \<and> s div D \<in> T then Some (slice s (s + D) p) else None)"

lemma map_of_delete: "map_of (AList.delete k al) = (map_of al)(k := None)"
  by (simp add: delete_conv')

lemma chunk_map_remove:
  assumes "0 < D"
  shows "(chunk_map D p T)(D * m := None) = chunk_map D p (T - {m})"
proof
  fix s
  show "((chunk_map D p T)(D * m := None)) s = chunk_map D p (T - {m}) s"
  proof (cases "s = D * m")
    case True
    then show ?thesis using assms by (simp add: chunk_map_def)
  next
    case False
    have "s mod D = 0 \<Longrightarrow> s = D * (s div D)" by auto
    then show ?thesis using False by (auto simp: chunk_map_def)
  qed
qed

lemma advance_pieces:
  assumes "map_of chunks = chunk_map D p T" "pos = min (D * m) (length p)" "payload = take (D * m) p"
    and "T \<subseteq> {m..<n}" "m \<le> n" "0 < D" "\<forall>k < n. D * k < length p"
    and "advance chunks pos payload = (chunks', pos', payload')"
  shows "\<exists>m'. m \<le> m' \<and> {m..<m'} \<subseteq> T \<and> m' \<notin> T \<and> map_of chunks' = chunk_map D p (T - {m..<m'})
    \<and> pos' = min (D * m') (length p) \<and> payload' = take (D * m') p"
  using assms
proof (induction chunks pos payload arbitrary: m T rule: advance.induct)
  case (1 chunks pos payload)
  note P = "1.prems"
  show ?case
  proof (cases "m \<in> T")
    case False
    have "chunk_map D p T pos = None"
    proof (cases "m < n")
      case True
      then have "pos = D * m" using P(2) spec [OF P(7), of m] by (simp add: min_def)
      then show ?thesis using False P(6) by (simp add: chunk_map_def)
    next
      case outside: False
      then have "T = {}" using P(4,5) by auto
      then show ?thesis by (simp add: chunk_map_def)
    qed
    then have "chunks' = chunks" "pos' = pos" "payload' = payload"
      using P(1,8) by (simp_all add: advance.simps [of chunks])
    then show ?thesis using P False by (intro exI [of _ m]) auto
  next
    case True
    then have m: "m < n" using P(4) by auto
    have pos: "pos = D * m" using P(2) spec [OF P(7), of m] m by (simp add: min_def)
    let ?bs = "slice (D * m) (D * m + D) p"
    have some: "map_of chunks pos = Some ?bs" using P(1,6) pos True by (simp add: chunk_map_def)
    have rest: "advance (AList.delete pos chunks) (pos + length ?bs) (payload @ ?bs) = (chunks', pos', payload')"
      using P(8) some by (simp add: advance.simps [of chunks])
    have "\<exists>m'. m + 1 \<le> m' \<and> {m + 1..<m'} \<subseteq> T - {m} \<and> m' \<notin> T - {m}
        \<and> map_of chunks' = chunk_map D p (T - {m} - {m + 1..<m'})
        \<and> pos' = min (D * m') (length p) \<and> payload' = take (D * m') p"
    proof (rule "1.IH" [OF some _ _ _ _ _ P(6,7) rest])
      show "map_of (AList.delete pos chunks) = chunk_map D p (T - {m})"
        unfolding map_of_delete P(1) pos by (rule chunk_map_remove [OF P(6)])
      show "pos + length ?bs = min (D * (m + 1)) (length p)" using pos P(7) m by auto
      have "D * (m + 1) = D * m + D" by simp
      then show "payload @ ?bs = take (D * (m + 1)) p"
        unfolding P(3) slice_def by (simp only: take_add) simp
      show "T - {m} \<subseteq> {m + 1..<n}" using P(4) by auto
      show "m + 1 \<le> n" using m by simp
    qed
    then obtain m' where m': "m + 1 \<le> m'" "{m + 1..<m'} \<subseteq> T - {m}" "m' \<notin> T - {m}"
      "map_of chunks' = chunk_map D p (T - {m} - {m + 1..<m'})"
      "pos' = min (D * m') (length p)" "payload' = take (D * m') p" by blast
    have "{m..<m'} = insert m {m + 1..<m'}" using m'(1) by auto
    then have "T - {m} - {m + 1..<m'} = T - {m..<m'}" by auto
    then show ?thesis
      using m' True by (intro exI [of _ m']) (auto simp: \<open>{m..<m'} = insert m {m + 1..<m'}\<close>)
  qed
qed

text \<open>The group after the pieces \<open>S\<close> have arrived, with \<open>m\<close> of them contiguous from the start.\<close>

definition group_state ::
  "ipv8_header \<Rightarrow> bytes \<Rightarrow> nat \<Rightarrow> nat \<Rightarrow> nat \<Rightarrow> nat set \<Rightarrow> nat \<Rightarrow> frag_group \<Rightarrow> bool" where
  "group_state h p c n t0 S m g \<longleftrightarrow> S \<subseteq> {0..<n} \<and> {0..<m} \<subseteq> S \<and> m \<notin> S
     \<and> fg_pos g = min (8 * c * m) (length p) \<and> fg_payload g = take (8 * c * m) p
     \<and> map_of (fg_chunks g) = chunk_map (8 * c) p (S - {0..<m})
     \<and> fg_total g = (if n - 1 \<in> S then Some (length p) else None)
     \<and> fg_orig_ext g = (if 0 \<in> S then Some (hdr_ext_headers h) else None)
     \<and> fg_flags g = plain_flags (hdr_flags h)
     \<and> fg_version g = hdr_version h \<and> fg_min_compat_ver g = hdr_min_compat_ver h
     \<and> fg_hop_limit g = hdr_hop_limit h \<and> fg_src g = hdr_src_addr h \<and> fg_dst g = hdr_dst_addr h
     \<and> fg_created g = t0"

lemma group_state_new:
  "0 < n \<Longrightarrow> group_state h p c n now {} 0 (group_new now (piece_header h p c ident k))"
  unfolding group_state_def group_new_def piece_header_def
  by (simp add: fragment_flag_bits chunk_map_def fun_eq_iff)

definition piece_info :: "bytes \<Rightarrow> nat \<Rightarrow> nat \<Rightarrow> u32 \<Rightarrow> nat \<Rightarrow> fragment_info" where
  "piece_info p c n ident k = \<lparr>fi_id = ident, fi_offset = of_nat (c * k), fi_more = (k \<noteq> n - 1)\<rparr>"

lemma piece_first_fragment:
  assumes "splittable h p c n" "k < n"
  shows "first_fragment (piece_header h p c ident k) = Some (piece_info p c n ident k)"
proof -
  have "fragment_ok (piece_info p c n ident k)"
    using piece_take_small(2,3) [OF assms]
    by (simp add: fragment_ok_def piece_info_def word_le_nat_alt del: of_nat_mult)
  moreover have "hdr_ext_headers (piece_header h p c ident k) =
      frag_to_ext (piece_info p c n ident k) # (if k = 0 then hdr_ext_headers h else [])"
    using piece_more [OF assms] assms(1)
    by (simp add: piece_header_def piece_info_def splittable_def del: of_nat_mult)
  ultimately show ?thesis by (simp add: first_fragment_def frag_parse_to_ext)
qed

lemma group_insert_piece:
  assumes sp: "splittable h p c n" and k: "k < n" "k \<notin> S" and g: "group_state h p c n t0 S m g"
  shows "\<exists>m' g'. group_insert (piece_info p c n ident k) (piece_header h p c ident k) (piece_data p c k) g =
      (g', Inr (insert k S = {0..<n})) \<and> group_state h p c n t0 (insert k S) m' g'"
proof -
  let ?D = "8 * c"
  note G = g [unfolded group_state_def]
  have D: "0 < ?D" using sp by (simp add: splittable_def)
  have before: "\<forall>j < n. ?D * j < length p" using splittable_before [OF sp] by blast
  have mk: "m \<le> k" using G k(2) by (metis atLeastLessThan_iff linorder_not_less subsetD zero_le)
  then have "?D * m \<le> ?D * k" by (rule mult_le_mono2)
  moreover have "fg_pos g \<le> ?D * m" using G by simp
  ultimately have start_pos: "\<not> ?D * k < fg_pos g" by linarith
  have start: "unat (fi_offset (piece_info p c n ident k)) * 8 = ?D * k"
    using piece_take_small(2) [OF sp k(1)] by (simp add: piece_info_def del: of_nat_mult)
  have len_le: "?D * k + length (piece_data p c k) \<le> length p"
    using before k(1) by (auto simp: length_piece_data)
  have last: "?D * k + length (piece_data p c k) = length p" if "k = n - 1"
  proof -
    have "length p \<le> ?D * k + ?D"
      using sp that k(1) by (cases n) (auto simp: splittable_def algebra_simps)
    then show ?thesis using before k(1) by (auto simp: length_piece_data)
  qed
  have limit: "length p \<le> MAX_GROUP_BYTES" using splittable_len [OF sp] by (simp add: MAX_GROUP_BYTES_def)
  have old: "map_of (fg_chunks g) (?D * k) = None" using G D k(2) by (simp add: chunk_map_def)
  have tlx: "tl (hdr_ext_headers (piece_header h p c ident 0)) = hdr_ext_headers h"
    by (simp add: piece_header_def)
  define g1 where "g1 = (if k = n - 1 then g\<lparr>fg_total := Some (length p)\<rparr> else g)"
  define g2 where "g2 = (if k = 0 then g1\<lparr>fg_orig_ext := Some (hdr_ext_headers h)\<rparr> else g1)"
  define g3 where "g3 = g2\<lparr>fg_chunks := AList.update (?D * k) (piece_data p c k) (fg_chunks g2)\<rparr>"
  obtain chunks' pos' pl' where adv: "advance (fg_chunks g3) (fg_pos g3) (fg_payload g3) = (chunks', pos', pl')"
    by (metis prod_cases3)
  define g4 where "g4 = g3\<lparr>fg_chunks := chunks', fg_pos := pos', fg_payload := pl'\<rparr>"
  have c2: "fg_chunks g2 = fg_chunks g" by (simp add: g2_def g1_def)
  have orig: "fg_orig_ext g1 = None" if "k = 0" using G k(2) that by (simp add: g1_def)
  have z: "?D * k = 0 \<longleftrightarrow> k = 0" using D by simp
  have ins: "group_insert (piece_info p c n ident k) (piece_header h p c ident k) (piece_data p c k) g =
      (g4, Inr (fg_total g4 = Some (fg_pos g4)))"
  proof -
    have t1: "\<not> (case fg_total g of Some t \<Rightarrow> ?D * k + length (piece_data p c k) > t | None \<Rightarrow> False)"
      using G len_le by (auto split: option.splits)
    have t2: "\<not> (\<not> fi_more (piece_info p c n ident k) \<and> ?D * k + length (piece_data p c k) > MAX_GROUP_BYTES)"
      using last limit by (auto simp: piece_info_def)
    have t3: "\<not> (\<not> fi_more (piece_info p c n ident k) \<and> (case fg_total g of
        Some old \<Rightarrow> old \<noteq> ?D * k + length (piece_data p c k) | None \<Rightarrow> False))"
      using G last by (auto simp: piece_info_def split: option.splits)
    have e1: "(if \<not> fi_more (piece_info p c n ident k)
        then g\<lparr>fg_total := Some (?D * k + length (piece_data p c k))\<rparr> else g) = g1"
      using last by (auto simp: g1_def piece_info_def)
    have e2: "(if ?D * k = 0 \<and> fg_orig_ext g1 = None
        then g1\<lparr>fg_orig_ext := Some (tl (hdr_ext_headers (piece_header h p c ident k)))\<rparr> else g1) = g2"
      using z orig tlx by (auto simp: g2_def)
    show ?thesis
      unfolding group_insert_def Let_def start e1 e2 g3_def [symmetric] adv
      using start_pos t1 t2 t3 old c2 by (simp add: g4_def adv)
  qed
  have cm: "map_of (fg_chunks g3) = chunk_map ?D p (insert k (S - {0..<m}))"
  proof -
    have "map_of (fg_chunks g3) = (chunk_map ?D p (S - {0..<m}))(?D * k \<mapsto> piece_data p c k)"
      using G by (simp add: g3_def c2 update_conv')
    also have "\<dots> = chunk_map ?D p (insert k (S - {0..<m}))"
    proof
      fix s
      have "s mod ?D = 0 \<Longrightarrow> s = ?D * (s div ?D)" by auto
      then show "((chunk_map ?D p (S - {0..<m}))(?D * k \<mapsto> piece_data p c k)) s =
          chunk_map ?D p (insert k (S - {0..<m})) s"
        using D by (auto simp: chunk_map_def piece_data_def)
    qed
    finally show ?thesis .
  qed
  have "\<exists>m'. m \<le> m' \<and> {m..<m'} \<subseteq> insert k (S - {0..<m}) \<and> m' \<notin> insert k (S - {0..<m})
      \<and> map_of chunks' = chunk_map ?D p (insert k (S - {0..<m}) - {m..<m'})
      \<and> pos' = min (?D * m') (length p) \<and> pl' = take (?D * m') p"
  proof (rule advance_pieces [OF cm _ _ _ _ D before adv])
    show "fg_pos g3 = min (?D * m) (length p)" "fg_payload g3 = take (?D * m) p"
      using G by (simp_all add: g3_def g2_def g1_def)
    show "insert k (S - {0..<m}) \<subseteq> {m..<n}" using G mk k(1) by auto
    show "m \<le> n" using mk k(1) by simp
  qed
  then obtain m' where m': "m \<le> m'" "{m..<m'} \<subseteq> insert k (S - {0..<m})" "m' \<notin> insert k (S - {0..<m})"
    "map_of chunks' = chunk_map ?D p (insert k (S - {0..<m}) - {m..<m'})"
    "pos' = min (?D * m') (length p)" "pl' = take (?D * m') p" by blast
  have below: "{0..<m} \<subseteq> S" using G by blast
  have upto: "{0..<m'} \<subseteq> insert k S"
  proof
    fix j
    assume "j \<in> {0..<m'}"
    then have "j \<in> {0..<m} \<or> j \<in> {m..<m'}" by auto
    then show "j \<in> insert k S" using m'(2) below by blast
  qed
  have stop: "m' \<notin> insert k S" using m'(1,3) by auto
  have rest: "insert k (S - {0..<m}) - {m..<m'} = insert k S - {0..<m'}"
    using mk m'(1) by auto
  have state: "group_state h p c n t0 (insert k S) m' g4"
  proof -
    have f: "fg_pos g4 = pos'" "fg_payload g4 = pl'" "fg_chunks g4 = chunks'"
      "fg_total g4 = (if k = n - 1 then Some (length p) else fg_total g)"
      "fg_orig_ext g4 = (if k = 0 then Some (hdr_ext_headers h) else fg_orig_ext g)"
      "fg_flags g4 = fg_flags g" "fg_version g4 = fg_version g" "fg_min_compat_ver g4 = fg_min_compat_ver g"
      "fg_hop_limit g4 = fg_hop_limit g" "fg_src g4 = fg_src g" "fg_dst g4 = fg_dst g"
      "fg_created g4 = fg_created g"
      by (simp_all add: g4_def g3_def g2_def g1_def)
    have "insert k S \<subseteq> {0..<n}" using G k(1) by auto
    then show ?thesis
      unfolding group_state_def f using G upto stop m'(4-6) by (simp only: rest) auto
  qed
  have full_iff: "(fg_total g4 = Some (fg_pos g4)) = (insert k S = {0..<n})"
  proof
    assume "fg_total g4 = Some (fg_pos g4)"
    then have "n - 1 \<in> insert k S" "length p = min (?D * m') (length p)"
      using state by (auto simp: group_state_def split: if_splits)
    then have "\<not> m' < n" using before by (metis min.absorb_iff2 min_def not_less)
    then have "{0..<n} \<subseteq> {0..<m'}" by auto
    moreover have "insert k S \<subseteq> {0..<n}" using state by (simp add: group_state_def)
    ultimately show "insert k S = {0..<n}" using upto by blast
  next
    assume full: "insert k S = {0..<n}"
    then have "n \<le> m'" using stop by auto
    then have "?D * n \<le> ?D * m'" by (rule mult_le_mono2)
    moreover have "length p \<le> ?D * n" using sp by (simp add: splittable_def)
    ultimately have "length p \<le> ?D * m'" by (rule order_trans [rotated])
    moreover have "n - 1 \<in> insert k S" unfolding full using k(1) by auto
    ultimately show "fg_total g4 = Some (fg_pos g4)" using state by (simp add: group_state_def)
  qed
  show ?thesis
    using ins state unfolding full_iff by (intro exI [of _ m'] exI [of _ g4]) simp
qed

lemma rebuild_state:
  assumes "splittable h p c n" "group_state h p c n t0 {0..<n} m g"
  shows "rebuild g (the (fg_total g)) =
    Ok (Some (header_bytes h @ chain_bytes (hdr_ext_headers h) @ p))"
proof -
  note G = assms(2) [unfolded group_state_def]
  have n: "0 < n" using assms(1) by (simp add: splittable_def)
  then have mem: "n - 1 \<in> {0..<n}" "0 \<in> {0..<n}" by auto
  have "fg_total g = (if n - 1 \<in> {0..<n} then Some (length p) else None)"
    "fg_orig_ext g = (if 0 \<in> {0..<n} then Some (hdr_ext_headers h) else None)"
    using G by blast+
  then have g: "fg_total g = Some (length p)" "fg_orig_ext g = Some (hdr_ext_headers h)"
    using mem by (simp_all only: if_True)
  have "m \<notin> {0..<n}" and payload: "fg_payload g = take (8 * c * m) p" using G by blast+
  then have "n \<le> m" by simp
  then have "8 * c * n \<le> 8 * c * m" by (rule mult_le_mono2)
  moreover have "length p \<le> 8 * c * n" using assms(1) by (simp add: splittable_def)
  ultimately have "length p \<le> 8 * c * m" by (rule order_trans [rotated])
  then have pl: "fg_payload g = p" using payload by simp
  have enc: "encodable h" and frag: "\<not> is_fragment (hdr_flags h)" and len: "length p = unat (hdr_payload_len h)"
    using assms(1) by (simp_all add: splittable_def)
  have flags: "(if hdr_ext_headers h = [] then plain_flags (hdr_flags h) AND NOT FLAG_HAS_EXTENSION
      else plain_flags (hdr_flags h) OR FLAG_HAS_EXTENSION) = hdr_flags h"
    using enc frag unfolding plain_flags_def encodable_def flag_bits
    by (auto intro!: bit_word_eqI simp: bit_simps)
  have "attach_ext_headers
     \<lparr>hdr_version = fg_version g, hdr_min_compat_ver = fg_min_compat_ver g, hdr_flags = fg_flags g,
      hdr_payload_len = of_nat (length p), hdr_hop_limit = fg_hop_limit g, hdr_next_header = 0,
      hdr_src_addr = fg_src g, hdr_dst_addr = fg_dst g, hdr_ext_headers = []\<rparr> (hdr_ext_headers h) = h"
    by (rule ipv8_header.equality)
       (use G enc len flags in \<open>simp_all add: attach_ext_headers_def encodable_def split: if_splits\<close>)
  then show ?thesis
    using encode_header_ok [OF enc, of "[]"] g pl by (simp add: rebuild_def Let_def)
qed

lemma map_of_reap:
  "map_of gs key = Some g \<Longrightarrow> now - fg_created g < REASSEMBLY_TIMEOUT \<Longrightarrow> map_of (reap now gs) key = Some g"
  "map_of gs key = None \<Longrightarrow> map_of (reap now gs) key = None"
proof -
  show "map_of gs key = Some g \<Longrightarrow> now - fg_created g < REASSEMBLY_TIMEOUT \<Longrightarrow> map_of (reap now gs) key = Some g"
    by (induction gs) (auto simp: reap_def split: if_splits)
  show "map_of gs key = None \<Longrightarrow> map_of (reap now gs) key = None"
    by (auto simp: reap_def map_of_eq_None_iff)
qed

lemma length_reap: "length (reap now gs) \<le> length gs"
  by (simp add: reap_def)

definition piece_key :: "ipv8_header \<Rightarrow> u32 \<Rightarrow> group_key" where
  "piece_key h ident = (to_bytes (hdr_src_addr h), to_bytes (hdr_dst_addr h), ident)"

lemma reasm_insert_piece:
  assumes "splittable h p c n" "k < n"
  shows "reasm_insert now (piece_header h p c ident k) (piece_data p c k) gs = (
     let groups = reap now gs; key = piece_key h ident;
         full = (map_of groups key = None \<and> length groups \<ge> MAX_GROUPS);
         groups = (if full then reap now groups else groups)
     in if full \<and> length groups \<ge> MAX_GROUPS then (groups, Err Re_TooManyGroups)
        else entry_insert now (piece_header h p c ident k) (piece_data p c k) (piece_info p c n ident k) key groups)"
proof -
  have frag: "is_fragment (hdr_flags (piece_header h p c ident k))"
    unfolding piece_header_def by (rule fragment_flag_bits)
  have ty: "map_option ext_type (case hdr_ext_headers (piece_header h p c ident k) of
      [] \<Rightarrow> None | e # _ \<Rightarrow> Some e) = Some Fragment"
    by (simp add: piece_header_def)
  have off: "\<not> unat (fi_offset (piece_info p c n ident k)) * 8 > 0x1FFF * 8"
    using piece_take_small(2,3) [OF assms] by (simp add: piece_info_def del: of_nat_mult)
  have al: "\<not> (fi_more (piece_info p c n ident k) \<and> length (piece_data p c k) mod 8 \<noteq> 0)"
  proof
    assume a: "fi_more (piece_info p c n ident k) \<and> length (piece_data p c k) mod 8 \<noteq> 0"
    then have "8 * c * k + min (8 * c) (length p - 8 * c * k) < length p"
      using piece_more [OF assms] by (simp add: piece_info_def)
    then have "length (piece_data p c k) = 8 * c" by (simp add: length_piece_data min_def split: if_splits)
    with a show False by simp
  qed
  have key: "group_key_of (piece_header h p c ident k) (piece_info p c n ident k) = piece_key h ident"
    by (simp add: group_key_of_def piece_key_def piece_header_def piece_info_def)
  show ?thesis
    unfolding reasm_insert_def piece_first_fragment [OF assms] option.case(2) key
    using frag ty off al by (simp only: if_False not_True_eq_False not_False_eq_True simp_thms)
qed

text \<open>A receiver that decodes each arriving fragment and inserts it, with its arrival time.\<close>

fun receive_all :: "(nat \<times> bytes) list \<Rightarrow> reassembler \<Rightarrow> (reassembly_error, bytes option) outcome list" where
  "receive_all [] gs = []"
| "receive_all ((now, f) # fs) gs = (case decode f of
     Inl _ \<Rightarrow> receive_all fs gs
   | Inr d \<Rightarrow> (case reasm_insert now (dec_header d) (dec_payload d) gs of (gs, r) \<Rightarrow> r # receive_all fs gs))"

lemma receive_piece:
  assumes "splittable h p c n" "k < n" "k \<notin> S" "group_state h p c n t0 S m g0"
    and "map_of gs (piece_key h ident) = Some g0 \<or>
         map_of gs (piece_key h ident) = None \<and> length gs < MAX_GROUPS
           \<and> g0 = group_new now (piece_header h p c ident k)"
    and "now - t0 < REASSEMBLY_TIMEOUT"
  shows "if insert k S = {0..<n}
    then reasm_insert now (piece_header h p c ident k) (piece_data p c k) gs =
      (AList.delete (piece_key h ident) (reap now gs), Ok (Some (header_bytes h @ chain_bytes (hdr_ext_headers h) @ p)))
    else \<exists>m' g'. reasm_insert now (piece_header h p c ident k) (piece_data p c k) gs =
        (AList.update (piece_key h ident) g' (reap now gs), Ok None)
      \<and> group_state h p c n t0 (insert k S) m' g'"
proof -
  let ?key = "piece_key h ident"
  obtain m' g' where ins: "group_insert (piece_info p c n ident k) (piece_header h p c ident k)
      (piece_data p c k) g0 = (g', Inr (insert k S = {0..<n}))"
    and st: "group_state h p c n t0 (insert k S) m' g'"
    using group_insert_piece [OF assms(1-4)] by blast
  have created: "fg_created g0 = t0" using assms(4) by (simp add: group_state_def)
  have room: "(map_of (reap now gs) ?key = None \<and> length (reap now gs) \<ge> MAX_GROUPS) = False"
    and entry: "(case map_of (reap now gs) ?key of
      None \<Rightarrow> group_new now (piece_header h p c ident k) | Some g \<Rightarrow> g) = g0"
    using assms(5,6) created map_of_reap(1) [of gs ?key g0 now] map_of_reap(2) [of gs ?key now]
      length_reap [of now gs] by auto
  show ?thesis
  proof (cases "insert k S = {0..<n}")
    case True
    then have "reasm_insert now (piece_header h p c ident k) (piece_data p c k) gs =
        (AList.delete ?key (reap now gs), rebuild g' (the (fg_total g')))"
      unfolding reasm_insert_piece [OF assms(1,2)] Let_def room if_False simp_thms entry_insert_def entry ins by simp
    moreover have "rebuild g' (the (fg_total g')) =
        Ok (Some (header_bytes h @ chain_bytes (hdr_ext_headers h) @ p))"
      using rebuild_state [OF assms(1)] st True by simp
    ultimately show ?thesis using True by simp
  next
    case False
    then have "reasm_insert now (piece_header h p c ident k) (piece_data p c k) gs =
        (AList.update ?key g' (reap now gs), Ok None)"
      unfolding reasm_insert_piece [OF assms(1,2)] Let_def room if_False simp_thms entry_insert_def entry ins by simp
    then show ?thesis using False st by auto
  qed
qed

lemma receive_pieces:
  assumes "splittable h p c n" "distinct ks" "set ks \<union> S = {0..<n}" "set ks \<inter> S = {}" "ks \<noteq> []"
    and "length ts = length ks" "\<forall>t \<in> set ts. t - t0 < REASSEMBLY_TIMEOUT"
    and "S \<noteq> {} \<Longrightarrow> group_state h p c n t0 S m g \<and> map_of gs (piece_key h ident) = Some g"
    and "S = {} \<Longrightarrow> t0 = hd ts \<and> map_of gs (piece_key h ident) = None \<and> length gs < MAX_GROUPS"
  shows "receive_all (zip ts (map (piece h p c ident) ks)) gs =
    replicate (length ks - 1) (Ok None) @ [Ok (Some (header_bytes h @ chain_bytes (hdr_ext_headers h) @ p))]"
  using assms(2-)
proof (induction ks arbitrary: ts S m g gs)
  case (Cons k ks)
  obtain t ts' where ts: "ts = t # ts'" using Cons.prems(5) by (cases ts) auto
  have k: "k < n" "k \<notin> S" using Cons.prems(2,3) by auto
  have n: "0 < n" using assms(1) by (simp add: splittable_def)
  obtain m0 g0 where g0: "group_state h p c n t0 S m0 g0"
    "map_of gs (piece_key h ident) = Some g0 \<or>
         map_of gs (piece_key h ident) = None \<and> length gs < MAX_GROUPS
           \<and> g0 = group_new t (piece_header h p c ident k)"
  proof (cases "S = {}")
    case True
    then have "t0 = t" "map_of gs (piece_key h ident) = None" "length gs < MAX_GROUPS"
      using Cons.prems(8) ts by simp_all
    then show ?thesis using that group_state_new [OF n, of h p c t ident k] True by auto
  next
    case False
    then show ?thesis using that Cons.prems(7) by auto
  qed
  have tt: "t - t0 < REASSEMBLY_TIMEOUT" using Cons.prems(6) ts by simp
  note step = receive_piece [OF assms(1) k g0 tt]
  show ?case
  proof (cases "ks = []")
    case True
    then have "insert k S = {0..<n}" using Cons.prems(2) by auto
    with step show ?thesis using True ts decode_piece [OF assms(1) k(1), of ident] by auto
  next
    case False
    then have "insert k S \<noteq> {0..<n}" using Cons.prems(1-3) by (cases ks) auto
    with step obtain m' g0 where
      r0: "reasm_insert t (piece_header h p c ident k) (piece_data p c k) gs = (AList.update (piece_key h ident) g0 (reap t gs), Ok None)"
      and g0: "group_state h p c n t0 (insert k S) m' g0"
      by (simp only: if_False) blast
    moreover define g' gs' where "g' = g0" and "gs' = AList.update (piece_key h ident) g0 (reap t gs)"
    ultimately have r: "reasm_insert t (piece_header h p c ident k) (piece_data p c k) gs = (gs', Ok None)"
      and g': "group_state h p c n t0 (insert k S) m' g'" "map_of gs' (piece_key h ident) = Some g'"
      by (simp_all add: update_conv')
    have "receive_all (zip ts' (map (piece h p c ident) ks)) gs' =
      replicate (length ks - 1) (Ok None) @ [Ok (Some (header_bytes h @ chain_bytes (hdr_ext_headers h) @ p))]"
      by (rule Cons.IH [where S = "insert k S"]) (use Cons.prems(1-6) ts False g' in auto)
    moreover have "replicate (length ks) x = x # replicate (length ks - 1) x"
      for x :: "(reassembly_error, bytes option) outcome"
      using False by (cases ks) simp_all
    ultimately show ?thesis using ts r decode_piece [OF assms(1) k(1), of ident] by simp
  qed
qed simp

lemma mset_map_permuted: "mset xs = mset (map f ys) \<Longrightarrow> \<exists>zs. mset zs = mset ys \<and> xs = map f zs"
proof (induction xs arbitrary: ys)
  case (Cons x xs)
  then have "x \<in> set (map f ys)" by (metis list.set_intros(1) set_mset_mset)
  then obtain as y bs where ys: "ys = as @ y # bs" "f y = x" by (auto dest: split_list)
  then have "mset xs = mset (map f (as @ bs))" using Cons.prems by simp
  from Cons.IH [OF this] obtain zs where "mset zs = mset (as @ bs)" "xs = map f zs" by blast
  then show ?case using ys by (intro exI [of _ "y # zs"]) simp
qed simp

text \<open>
  C9. Reassembly inverts fragmentation in every order of arrival: when the fragments of a packet
  arrive in any permutation within the timeout at a reassembler with room and no group of
  that identity, each but the last yields nothing and the last yields the original packet byte for byte.
\<close>

theorem reassemble_any_order:
  assumes "encode h p = Inr pkt" "chain_ok (hdr_ext_headers h)" "\<not> is_fragment (hdr_flags h)"
    and "length (hdr_ext_headers h) < MAX_EXT_CHAIN" "mtu < length pkt"
    and "fragment_packet pkt mtu ident = Inr frags"
    and "mset (map snd arrivals) = mset frags"
    and "\<forall>t \<in> fst ` set arrivals. t - fst (hd arrivals) < REASSEMBLY_TIMEOUT"
    and "map_of gs (piece_key h ident) = None" "active_groups gs < MAX_GROUPS"
  shows "receive_all arrivals gs = replicate (length frags - 1) (Ok None) @ [Ok (Some pkt)]"
proof -
  obtain c n where cn: "splittable h p c n" "frags = map (piece h p c ident) [0..<n]"
    using fragment_packet_split [OF assms(1-6)] by blast
  have pkt: "pkt = header_bytes h @ chain_bytes (hdr_ext_headers h) @ p"
    using assms(1) by (simp add: encode_iff)
  obtain ks where ks: "mset ks = mset [0..<n]" "map snd arrivals = map (piece h p c ident) ks"
    using mset_map_permuted assms(7) unfolding cn by blast
  have perm: "distinct ks" "set ks = {0..<n}" "length ks = n"
    using ks(1) mset_eq_imp_distinct_iff mset_eq_setD mset_eq_length
    by (metis distinct_upt, metis set_upt, metis length_upt diff_zero)
  have "0 < n" using cn(1) by (simp add: splittable_def)
  then have ne: "ks \<noteq> []" using perm(3) by auto
  have arr: "arrivals = zip (map fst arrivals) (map (piece h p c ident) ks)"
    unfolding ks(2) [symmetric] by (simp add: zip_map_fst_snd)
  have len: "length arrivals = length ks" using ks(2) by (metis length_map)
  then have "arrivals \<noteq> []" using ne by auto
  then have hd: "fst (hd arrivals) = hd (map fst arrivals)" by (simp add: hd_map)
  have "receive_all (zip (map fst arrivals) (map (piece h p c ident) ks)) gs =
    replicate (length ks - 1) (Ok None) @ [Ok (Some (header_bytes h @ chain_bytes (hdr_ext_headers h) @ p))]"
    by (rule receive_pieces [OF cn(1) perm(1), where S = "{}" and ?t0.0 = "fst (hd arrivals)"])
       (use assms(8-10) perm ne len hd in \<open>auto simp: active_groups_def\<close>)
  then show ?thesis unfolding arr [symmetric] pkt cn using perm by simp
qed

text \<open>A packet without extension headers that is split into three pieces, for the witnesses.\<close>

definition plain_header :: ipv8_header where
  "plain_header = header_new (addr_with_region 1 1 0 2 0) (addr_with_region 2 1 0 3 0) 24"

definition plain_packet :: bytes where
  "plain_packet = header_bytes plain_header @ replicate 24 5"

lemma plain_facts:
  "encode plain_header (replicate 24 5) = Inr plain_packet" "chain_ok (hdr_ext_headers plain_header)"
  "\<not> is_fragment (hdr_flags plain_header)" "length (hdr_ext_headers plain_header) < MAX_EXT_CHAIN"
  "58 < length plain_packet" "splittable plain_header (replicate 24 5) 1 3"
  by (simp_all add: encode_iff encodable_def plain_packet_def plain_header_def header_new_def chain_ok_def
      first_type_def reserved_ok_def has_extension_def is_fragment_def splittable_def const_defs)

lemma plain_fragments:
  "fragment_packet plain_packet 58 7 = Inr (map (piece plain_header (replicate 24 5) 1 7) [0..<3])"
proof -
  have "decode plain_packet = Inr \<lparr>dec_header = plain_header, dec_payload = replicate 24 5\<rparr>"
    using plain_facts(1,2) decode_encoded [of plain_header "replicate 24 5" plain_packet "[]"]
    by (simp add: encode_iff)
  moreover have "hdr_ext_headers plain_header = []" "unat (hdr_payload_len plain_header) = 24"
    by (simp_all add: plain_header_def header_new_def)
  moreover have "length plain_packet = 64" by (simp add: plain_packet_def)
  ultimately show ?thesis
    using fragment_loop_pieces [OF plain_facts(6), of 0 7 "[]"]
    by (simp add: fragment_packet_def const_defs)
qed

lemma fragments_fit_and_decode_witness:
  "\<exists>ds. map decode (map (piece plain_header (replicate 24 5) 1 7) [0..<3]) = map Inr ds
    \<and> concat (map dec_payload ds) = replicate 24 5"
  using fragments_fit_and_decode [OF plain_facts(1-5) plain_fragments] by blast

lemma reassemble_any_order_witness:
  "receive_all (zip [5, 6, 7] (rev (map (piece plain_header (replicate 24 5) 1 7) [0..<3]))) [] =
     [Ok None, Ok None, Ok (Some plain_packet)]"
proof -
  have "receive_all (zip [5, 6, 7] (rev (map (piece plain_header (replicate 24 5) 1 7) [0..<3]))) [] =
    replicate (length (map (piece plain_header (replicate 24 5) 1 7) [0..<3]) - 1) (Ok None) @ [Ok (Some plain_packet)]"
    by (rule reassemble_any_order [OF plain_facts(1-5) plain_fragments])
       (simp_all add: REASSEMBLY_TIMEOUT_def active_groups_def MAX_GROUPS_def upt_rec)
  then show ?thesis by (simp add: numeral_eq_Suc)
qed

section \<open>Bounds and panics of the reassembler\<close>

lemma length_alist_update:
  "length (AList.update k v al) = (if k \<in> fst ` set al then length al else Suc (length al))"
  by (induction al) auto

lemma length_alist_delete: "length (AList.delete k al) \<le> length al"
  by (simp add: AList.delete_eq)

text \<open>
  The reassembler never holds more than 64 groups, whatever headers and payloads arrive in
  whatever order, errors and completed packets included.
\<close>

theorem reassembler_bounded:
  assumes "active_groups gs \<le> MAX_GROUPS"
  shows "active_groups (fst (reasm_insert now hdr payload gs)) \<le> MAX_GROUPS"
proof -
  let ?gs = "reap now gs"
  have gs: "length ?gs \<le> MAX_GROUPS" using assms length_reap [of now gs] by (simp add: active_groups_def)
  have again: "length (reap now ?gs) \<le> MAX_GROUPS" using gs length_reap [of now ?gs] by simp
  have entry: "length (fst (entry_insert now hdr payload frag key gs')) \<le> MAX_GROUPS"
    if "length gs' \<le> MAX_GROUPS" "map_of gs' key = None \<longrightarrow> length gs' < MAX_GROUPS" for frag key gs'
    using that length_alist_delete [of key gs']
    by (auto simp: entry_insert_def Let_def length_alist_update map_of_eq_None_iff
        split: prod.splits sum.splits bool.splits)
  show ?thesis
    using assms gs again
    by (auto simp: reasm_insert_def Let_def active_groups_def not_le intro!: entry split: option.splits)
qed

lemma reassembler_bounded_witness:
  "active_groups (fst (reasm_insert 3 plain_header [1, 2] reassembler_new)) \<le> MAX_GROUPS"
  by (rule reassembler_bounded) (simp add: reassembler_new_def active_groups_def)

lemma frag_parse_type: "frag_parse e = Some f \<Longrightarrow> ext_type e = Fragment"
  by (auto simp: frag_parse_def split: if_splits)

lemma first_fragment_type:
  "first_fragment hdr = Some f \<Longrightarrow>
   map_option ext_type (case hdr_ext_headers hdr of [] \<Rightarrow> None | e # _ \<Rightarrow> Some e) = Some Fragment"
  by (auto simp: first_fragment_def frag_parse_type split: list.splits)

lemma single_fragment_group:
  assumes "fi_offset frag = 0" "\<not> fi_more frag" "length payload \<le> MAX_GROUP_BYTES"
  shows "\<exists>g. group_insert frag hdr payload (group_new now hdr) = (g, Inr True)
    \<and> fg_flags g = plain_flags (hdr_flags hdr)"
proof -
  have "advance [(0, payload)] 0 [] = ([], length payload, payload)"
    by (simp add: advance.simps [of "[(0, payload)]"] advance.simps [of "[]"])
  then show ?thesis using assms by (simp add: group_insert_def group_new_def Let_def)
qed

lemma reserved_fragment_panics:
  assumes "first_fragment hdr = Some frag" "fi_offset frag = 0" "\<not> fi_more frag"
    and "is_fragment (hdr_flags hdr)" "\<not> reserved_ok (hdr_flags hdr)"
    and "length payload \<le> MAX_GROUP_BYTES"
    and "map_of gs (group_key_of hdr frag) = None" "active_groups gs < MAX_GROUPS"
  shows "snd (reasm_insert now hdr payload gs) = Panic"
proof -
  obtain g where g: "group_insert frag hdr payload (group_new now hdr) = (g, Inr True)"
    "fg_flags g = plain_flags (hdr_flags hdr)"
    using single_fragment_group [OF assms(2,3,6)] by blast
  have fresh: "map_of (reap now gs) (group_key_of hdr frag) = None" by (rule map_of_reap(2) [OF assms(7)])
  have room: "\<not> MAX_GROUPS \<le> length (reap now gs)"
    using assms(8) length_reap [of now gs] by (simp add: active_groups_def)
  have "\<not> encodable (attach_ext_headers \<lparr>hdr_version = v, hdr_min_compat_ver = mc,
      hdr_flags = plain_flags (hdr_flags hdr), hdr_payload_len = pl, hdr_hop_limit = hl,
      hdr_next_header = 0, hdr_src_addr = s, hdr_dst_addr = d, hdr_ext_headers = []\<rparr> es)"
    for v mc pl hl s d es
    using assms(5) unfolding encodable_def reserved_bits
    by (auto simp: attach_ext_headers_def plain_flags_def bit_simps dest: u16_bit_high)
  then have "rebuild g tot = Panic" for tot
    using encode_header_fails g(2) unfolding rebuild_def Let_def by (metis (no_types, lifting) sum.case(1))
  moreover have "\<not> fi_more frag" "fi_offset frag = 0" by fact+
  ultimately show ?thesis
    unfolding reasm_insert_def entry_insert_def assms(1) option.case(2) Let_def
    using assms(4) room first_fragment_type [OF assms(1)] g(1) fresh by simp
qed

text \<open>
  A panic that a peer's packet triggers: a single complete fragment whose header has a reserved flag bit
  set, which the decoder accepts by design, is stored with that bit, and rebuilding the packet
  then fails to encode, so the \<open>expect\<close> in \<open>insert\<close> ends the process.
\<close>

theorem insert_panics_on_reserved_bits:
  assumes "first_fragment hdr = Some frag" "fi_offset frag = 0" "\<not> fi_more frag"
    and "is_fragment (hdr_flags hdr)" "\<not> reserved_ok (hdr_flags hdr)"
    and "length payload \<le> MAX_GROUP_BYTES"
    and "map_of gs (group_key_of hdr frag) = None" "active_groups gs < MAX_GROUPS"
  shows "snd (reasm_insert now hdr payload gs) = Panic"
  by (rule reserved_fragment_panics [OF assms])

definition reserved_fragment :: ipv8_header where
  "reserved_fragment = (fragment_header plain_header 7 0 0 8 False)
     \<lparr>hdr_flags := hdr_flags (fragment_header plain_header 7 0 0 8 False) OR 0x80\<rparr>"

lemma reserved_fragment_facts:
  "first_fragment reserved_fragment = Some \<lparr>fi_id = 7, fi_offset = 0, fi_more = False\<rparr>"
  "is_fragment (hdr_flags reserved_fragment)" "\<not> reserved_ok (hdr_flags reserved_fragment)"
proof -
  show "first_fragment reserved_fragment = Some \<lparr>fi_id = 7, fi_offset = 0, fi_more = False\<rparr>"
    using frag_parse_to_ext [of "\<lparr>fi_id = 7, fi_offset = 0, fi_more = False\<rparr>"]
    by (simp add: reserved_fragment_def first_fragment_def fragment_ok_def)
  show "is_fragment (hdr_flags reserved_fragment)"
    using fragment_flag_bits(1) [of plain_header 7 0 0 8 False]
    unfolding reserved_fragment_def flag_bits by (simp add: bit_simps)
  have "bit (0x80 :: u16) 7" by simp
  then have "bit (hdr_flags reserved_fragment) 7"
    by (simp add: reserved_fragment_def bit_or_iff del: bit_numeral_simps)
  then show "\<not> reserved_ok (hdr_flags reserved_fragment)" unfolding reserved_bits by auto
qed

lemma insert_panics_on_reserved_bits_witness:
  "snd (reasm_insert 0 reserved_fragment (replicate 8 1) []) = Panic"
  by (rule insert_panics_on_reserved_bits [OF reserved_fragment_facts(1) _ _ reserved_fragment_facts(2,3)])
     (simp_all add: active_groups_def MAX_GROUPS_def MAX_GROUP_BYTES_def)

text \<open>A group of packets without further extension headers, from senders that clear the reserved bits.\<close>

definition group_ok :: "frag_group \<Rightarrow> bool" where
  "group_ok g \<longleftrightarrow> fg_version g = IPV8_VERSION \<and> fg_min_compat_ver g \<le> 15 \<and> reserved_ok (fg_flags g)
     \<and> \<not> has_extension (fg_flags g) \<and> (fg_orig_ext g = None \<or> fg_orig_ext g = Some [])
     \<and> (\<forall>t. fg_total g = Some t \<longrightarrow> t \<le> MAX_GROUP_BYTES)"

lemma rebuild_ok:
  assumes "group_ok g" "fg_total g = Some t"
  shows "rebuild g (the (fg_total g)) \<noteq> Panic"
proof -
  have "t \<le> 65467" using assms by (simp add: group_ok_def MAX_GROUP_BYTES_def)
  then have "unat (of_nat t :: u16) = t" by (simp add: unat_of_nat take_bit_nat_eq_self)
  moreover have "(case fg_orig_ext g of None \<Rightarrow> [] | Some es \<Rightarrow> es) = []"
    using assms(1) by (auto simp: group_ok_def)
  moreover have "plain AND NOT FLAG_HAS_EXTENSION = plain" if "\<not> has_extension plain" for plain
    using that unfolding flag_bits by (auto intro!: bit_word_eqI simp: bit_simps)
  ultimately have "encodable (attach_ext_headers
     \<lparr>hdr_version = fg_version g, hdr_min_compat_ver = fg_min_compat_ver g, hdr_flags = fg_flags g,
      hdr_payload_len = of_nat t, hdr_hop_limit = fg_hop_limit g, hdr_next_header = 0,
      hdr_src_addr = fg_src g, hdr_dst_addr = fg_dst g, hdr_ext_headers = []\<rparr>
     (case fg_orig_ext g of None \<Rightarrow> [] | Some es \<Rightarrow> es))"
    using assms \<open>t \<le> 65467\<close>
    by (simp add: group_ok_def encodable_def attach_ext_headers_def const_defs word_le_nat_alt)
  then show ?thesis
    using encode_header_ok [where out = "[]"] assms(2) by (simp add: rebuild_def Let_def)
qed

lemma group_insert_ok:
  assumes "group_ok g" "length (hdr_ext_headers hdr) \<le> 1"
    and "group_insert frag hdr payload g = (g', r)"
  shows "group_ok g' \<and> (r = Inr True \<longrightarrow> fg_total g' \<noteq> None)"
proof -
  have tl: "tl (hdr_ext_headers hdr) = []" using assms(2) by (cases "hdr_ext_headers hdr") auto
  have upd: "group_ok (g1\<lparr>fg_chunks := cs\<rparr>) = group_ok g1"
    "group_ok (g1\<lparr>fg_chunks := cs, fg_pos := q, fg_payload := pl\<rparr>) = group_ok g1" for g1 cs q pl
    by (simp_all add: group_ok_def)
  have tot: "group_ok (g\<lparr>fg_total := Some t\<rparr>)" if "t \<le> MAX_GROUP_BYTES" for t
    using assms(1) that by (simp add: group_ok_def)
  have ext: "group_ok g1 \<Longrightarrow> group_ok (g1\<lparr>fg_orig_ext := Some []\<rparr>)" for g1
    by (simp add: group_ok_def)
  show ?thesis
    using assms(1,3) unfolding group_insert_def Let_def tl
    by (auto simp: upd tot ext not_less split: if_splits prod.splits)
qed

lemma set_alist_update: "set (AList.update k v al) \<subseteq> insert (k, v) (set al)"
  by (induction al) auto

text \<open>
  The reassembler does not panic on well-behaved peers: fragments decoded from the wire with clear reserved
  bits and no further extension headers never panic it, and its groups stay well formed.
\<close>

theorem insert_never_panics:
  assumes "\<forall>(key, g) \<in> set gs. group_ok g" "decode buf = Inr d"
    and "reserved_ok (hdr_flags (dec_header d))" "length (hdr_ext_headers (dec_header d)) \<le> 1"
  shows "snd (reasm_insert now (dec_header d) payload gs) \<noteq> Panic
    \<and> (\<forall>(key, g) \<in> set (fst (reasm_insert now (dec_header d) payload gs)). group_ok g)"
proof -
  let ?h = "dec_header d"
  have enc: "encodable ?h" by (rule decode_sound(2) [OF assms(2,3)])
  have new: "group_ok (group_new now ?h)"
    using enc assms(3) unfolding encodable_def group_ok_def reserved_bits flag_bits group_new_def plain_flags_def
    by (auto simp: bit_simps)
  have reap: "\<forall>(key, g) \<in> set (reap now gs'). group_ok g" if "\<forall>(key, g) \<in> set gs'. group_ok g" for gs'
    using that by (auto simp: reap_def)
  have look: "group_ok (case map_of gs' key of None \<Rightarrow> group_new now ?h | Some g \<Rightarrow> g)"
    if "\<forall>(key, g) \<in> set gs'. group_ok g" for gs' key
    using that new by (auto split: option.splits dest: map_of_SomeD)
  have upd: "\<forall>(key, g) \<in> set (AList.update key g gs'). group_ok g"
    if "\<forall>(key, g) \<in> set gs'. group_ok g" "group_ok g" for gs' key g
    using that set_alist_update [of key g gs'] by fastforce
  have del: "\<forall>(key, g) \<in> set (AList.delete key gs'). group_ok g"
    if "\<forall>(key, g) \<in> set gs'. group_ok g" for gs' key
    using that by (auto simp: AList.delete_eq)
  have entry: "snd (entry_insert now ?h payload frag key gs') \<noteq> Panic
      \<and> (\<forall>(key, g) \<in> set (fst (entry_insert now ?h payload frag key gs')). group_ok g)"
    if gs': "\<forall>(key, g) \<in> set gs'. group_ok g" for gs' key frag
  proof -
    obtain g q where ins: "group_insert frag ?h payload
        (case map_of gs' key of None \<Rightarrow> group_new now ?h | Some g \<Rightarrow> g) = (g, q)" by (metis surj_pair)
    have "group_ok g" "q = Inr True \<longrightarrow> fg_total g \<noteq> None"
      using group_insert_ok [OF look [OF gs'] assms(4) ins] by blast+
    then show ?thesis
      using ins upd [OF gs'] del [OF gs'] rebuild_ok
      by (auto simp: entry_insert_def Let_def split: sum.splits bool.splits)
  qed
  let ?g1 = "reap now gs"
  have g: "\<forall>(key, g) \<in> set ?g1. group_ok g" "\<forall>(key, g) \<in> set (reap now ?g1). group_ok g"
    using reap [OF assms(1)] reap [OF reap [OF assms(1)]] .
  show ?thesis
    using assms(1) g entry [OF g(1)] entry [OF g(2)]
    unfolding reasm_insert_def Let_def
    by (cases "first_fragment ?h") simp_all
qed

lemma insert_never_panics_witness:
  "snd (reasm_insert 0 (piece_header plain_header (replicate 24 5) 1 7 0) (replicate 8 5) []) \<noteq> Panic"
  using insert_never_panics [where gs = "[]" and now = 0 and payload = "replicate 8 5",
      OF _ decode_piece [OF plain_facts(6), of 0 7]]
    piece_header_encodable(1) [OF plain_facts(6), of 0 7]
  by (simp add: encodable_def) (simp add: piece_header_def plain_header_def header_new_def)

end
