(* ===== verification/CodecLayouts.thy ===== *)
theory CodecLayouts
  imports CodecHeader
begin

text \<open>
  The payload layouts of the extension headers, \<open>ipv8-codec/src/layouts.rs\<close>: QoS
  reservation, route trace, agent card and semantic tags, with the messages that the route
  and card signatures cover. The fixed arrays of the code are byte strings with the length
  stated by the well-formedness predicates \<open>route_trace_wf\<close> and \<open>agent_card_wf\<close>;
  the decoders establish them, and the \<open>expect\<close> calls on checked lengths cannot fail.
\<close>

datatype layout_error = Lay_BadLen | Lay_RateTooLarge | Lay_EmptyHops | Lay_TooManyHops
  | Lay_EmptyTags | Lay_TooManyTags | Lay_BadTag | Lay_TagsTooLong

section \<open>QoS reservation\<close>

record qos_reservation =
  qr_rate_kibs :: u32
  qr_burst_size :: u16
  qr_queue_hint :: u8

definition qos_to_payload :: "qos_reservation \<Rightarrow> layout_error + bytes" where
  "qos_to_payload r = (
     if qr_rate_kibs r \<ge> push_bit 24 1 then Inl Lay_RateTooLarge
     else
       let p = replicate 8 0;
           p = write_at 0 (slice 1 4 (to_be32 (qr_rate_kibs r))) p;
           p = write_at 3 (to_be16 (qr_burst_size r)) p;
           p = p[5 := qr_queue_hint r]
       in Inr p)"

definition qos_from_payload :: "bytes \<Rightarrow> layout_error + qos_reservation" where
  "qos_from_payload p = (
     if length p \<noteq> 8 then Inl Lay_BadLen
     else Inr \<lparr>qr_rate_kibs = from_be [0, p ! 0, p ! 1, p ! 2],
               qr_burst_size = from_be [p ! 3, p ! 4], qr_queue_hint = p ! 5\<rparr>)"

section \<open>Route trace\<close>

record route_trace =
  rt_src_pubkey :: bytes
  rt_path_sig :: bytes
  rt_init_hop_limit :: u8
  rt_hops :: "ipv8_address list"

definition RT_HEADER_LEN :: nat where [const_defs]: "RT_HEADER_LEN = 104"
definition RT_HOPCOUNT_IDX :: nat where [const_defs]: "RT_HOPCOUNT_IDX = 96"
definition RT_INITHL_IDX :: nat where [const_defs]: "RT_INITHL_IDX = 97"

definition route_trace_wf :: "route_trace \<Rightarrow> bool" where
  "route_trace_wf t \<longleftrightarrow> length (rt_src_pubkey t) = 32 \<and> length (rt_path_sig t) = 64"

definition route_trace_to_payload :: "route_trace \<Rightarrow> layout_error + bytes" where
  "route_trace_to_payload t = (
     if rt_hops t = [] then Inl Lay_EmptyHops
     else if length (rt_hops t) > 64 then Inl Lay_TooManyHops
     else
       let p = rt_src_pubkey t;
           p = p @ rt_path_sig t;
           p = p @ [of_nat (length (rt_hops t))];
           p = p @ [rt_init_hop_limit t];
           p = p @ replicate 6 0
       in Inr (foldl (\<lambda>p h. p @ to_bytes h) p (rt_hops t)))"

definition addr_from_wire :: "bytes \<Rightarrow> ipv8_address" where
  "addr_from_wire b = addr_new
     (from_be (slice 0 2 b)) (from_be (slice 2 4 b)) (from_be (slice 4 6 b)) (from_be (slice 6 8 b))
     (from_be (slice 8 10 b)) (from_be (slice 10 12 b)) (from_be (slice 12 14 b)) (from_be (slice 14 16 b))"

definition route_trace_from_payload :: "bytes \<Rightarrow> layout_error + route_trace" where
  "route_trace_from_payload p = (
     if length p < RT_HEADER_LEN then Inl Lay_BadLen
     else
       let n = unat (p ! RT_HOPCOUNT_IDX)
       in if n = 0 then Inl Lay_EmptyHops
          else if n > 64 then Inl Lay_TooManyHops
          else if length p \<noteq> RT_HEADER_LEN + 16 * n then Inl Lay_BadLen
          else Inr
            \<lparr>rt_src_pubkey = slice 0 32 p, rt_path_sig = slice 32 96 p,
             rt_init_hop_limit = p ! RT_INITHL_IDX,
             rt_hops = map (\<lambda>i. addr_from_wire
               (slice (RT_HEADER_LEN + 16 * i) (RT_HEADER_LEN + 16 * (i + 1)) p)) [0..<n]\<rparr>)"

record trace_sig_input =
  ts_src_addr :: ipv8_address
  ts_dst_addr :: ipv8_address
  ts_min_compat_ver :: u8
  ts_flags :: u16
  ts_payload_len :: u16
  ts_init_hop_limit :: u8
  ts_src_pubkey :: bytes
  ts_hops :: "ipv8_address list"

definition route_trace_message :: "trace_sig_input \<Rightarrow> bytes" where
  "route_trace_message i = (
     let m = ROUTE_TRACE_DOMAIN;
         m = m @ ts_src_pubkey i;
         m = m @ [push_bit 4 IPV8_VERSION OR (ts_min_compat_ver i AND 0x0F)];
         m = m @ to_be16 (ts_flags i);
         m = m @ to_be16 (ts_payload_len i);
         m = m @ [ts_init_hop_limit i];
         m = m @ [ext_wire RouteTrace];
         m = m @ to_bytes (ts_src_addr i);
         m = m @ to_bytes (ts_dst_addr i);
         m = m @ [of_nat (length (ts_hops i))]
     in foldl (\<lambda>m h. m @ to_bytes h) m (ts_hops i))"

section \<open>Agent card\<close>

record agent_card_summary =
  ac_version :: u8
  ac_card_hash :: bytes
  ac_not_after :: u64
  ac_agent_pubkey :: bytes
  ac_card_sig :: bytes

definition agent_card_wf :: "agent_card_summary \<Rightarrow> bool" where
  "agent_card_wf c \<longleftrightarrow> length (ac_card_hash c) = 16 \<and> length (ac_agent_pubkey c) = 32
     \<and> length (ac_card_sig c) = 64"

definition agent_card_to_payload :: "agent_card_summary \<Rightarrow> bytes" where
  "agent_card_to_payload c =
     [ac_version c] @ replicate 7 0 @ ac_card_hash c @ to_be64 (ac_not_after c) @
     ac_agent_pubkey c @ ac_card_sig c"

definition agent_card_from_payload :: "bytes \<Rightarrow> layout_error + agent_card_summary" where
  "agent_card_from_payload p = (
     if length p \<noteq> 128 then Inl Lay_BadLen
     else Inr \<lparr>ac_version = p ! 0, ac_card_hash = slice 8 24 p, ac_not_after = from_be (slice 24 32 p),
               ac_agent_pubkey = slice 32 64 p, ac_card_sig = slice 64 128 p\<rparr>)"

definition agent_card_message :: "u8 \<Rightarrow> bytes \<Rightarrow> u64 \<Rightarrow> bytes \<Rightarrow> bytes" where
  "agent_card_message version card_hash not_after agent_pubkey =
     AGENT_CARD_DOMAIN @ [version] @ card_hash @ to_be64 not_after @ agent_pubkey"

section \<open>Semantic tags\<close>

definition MAX_TAG_LEN :: nat where [const_defs]: "MAX_TAG_LEN = 48"
definition MAX_TAGS :: nat where [const_defs]: "MAX_TAGS = 32"
definition MAX_TAG_PAYLOAD :: nat where [const_defs]: "MAX_TAG_PAYLOAD = 1536"
definition TAG_SEP :: u8 where [const_defs]: "TAG_SEP = 0x1F"

definition tag_char :: "u8 \<Rightarrow> bool" where
  "tag_char c \<longleftrightarrow> 0x61 \<le> c \<and> c \<le> 0x7A \<or> 0x30 \<le> c \<and> c \<le> 0x39 \<or> c = 0x2D"

definition check_tag :: "bytes \<Rightarrow> layout_error + unit" where
  "check_tag b = (
     if b = [] \<or> length b > MAX_TAG_LEN then Inl Lay_BadTag
     else if b ! 0 = 0x2D \<or> b ! (length b - 1) = 0x2D then Inl Lay_BadTag
     else if \<not> list_all tag_char b then Inl Lay_BadTag
     else Inr ())"

text \<open>\<open>for t in tags { Self::check_tag(t)?; }\<close>\<close>

fun check_tags :: "bytes list \<Rightarrow> layout_error + unit" where
  "check_tags [] = Inr ()"
| "check_tags (t # ts) = (case check_tag t of Inl e \<Rightarrow> Inl e | Inr _ \<Rightarrow> check_tags ts)"

text \<open>\<open>while !p.len().is_multiple_of(8) { p.push(0); }\<close>\<close>

function pad8 :: "bytes \<Rightarrow> bytes" where
  "pad8 p = (if length p mod 8 \<noteq> 0 then pad8 (p @ [0]) else p)"
  by pat_completeness auto
termination
  by (relation "measure (\<lambda>p. if length p mod 8 = 0 then 0 else 8 - length p mod 8)")
     (auto simp: mod_Suc)

declare pad8.simps [simp del]

definition tags_encode :: "bytes list \<Rightarrow> layout_error + bytes" where
  "tags_encode tags = (
     if tags = [] then Inl Lay_EmptyTags
     else if length tags > MAX_TAGS then Inl Lay_TooManyTags
     else case check_tags tags of
            Inl e \<Rightarrow> Inl e
          | Inr _ \<Rightarrow>
              let p = join_with 0x1F tags
              in if length p > MAX_TAG_PAYLOAD then Inl Lay_TagsTooLong else Inr (pad8 p))"

fun trim_end :: "bytes \<Rightarrow> nat \<Rightarrow> nat" where
  "trim_end p 0 = 0"
| "trim_end p (Suc n) = (if p ! n = 0 then trim_end p n else Suc n)"

definition trim_pad :: "bytes \<Rightarrow> bytes" where
  "trim_pad p = take (trim_end p (length p)) p"

text \<open>The loop over the parts: UTF-8 check, tag check, push.\<close>

fun decode_parts :: "bytes list \<Rightarrow> bytes list \<Rightarrow> layout_error + bytes list" where
  "decode_parts [] out = Inr out"
| "decode_parts (part # parts) out =
    (if \<not> utf8_valid part then Inl Lay_BadTag
     else case check_tag part of Inl e \<Rightarrow> Inl e | Inr _ \<Rightarrow> decode_parts parts (out @ [part]))"

definition tags_decode :: "bytes \<Rightarrow> layout_error + bytes list" where
  "tags_decode p = (
     if p = [] \<or> length p > MAX_TAG_PAYLOAD
     then Inl (if p = [] then Lay_EmptyTags else Lay_TagsTooLong)
     else
       let trimmed = trim_pad p;
           parts = split_on TAG_SEP trimmed
       in if length parts > MAX_TAGS then Inl Lay_TooManyTags else decode_parts parts [])"

section \<open>QoS reservation: round trips\<close>

lemma to_be32_nths: "to_be32 x = [to_be32 x ! 0, to_be32 x ! 1, to_be32 x ! 2, to_be32 x ! 3]"
  by (simp add: to_be32_def numeral_eq_Suc)

lemma rate_top_byte:
  assumes "r < push_bit 24 (1 :: u32)"
  shows "to_be32 r = 0 # slice 1 4 (to_be32 r)"
proof -
  have "unat r < 2 ^ 24" using assms by (simp add: word_less_nat_alt)
  then have "drop_bit 24 r = 0"
    by (simp add: word_unat_eq_iff unat_drop_bit)
  then show ?thesis by (simp add: to_be32_def slice_def numeral_eq_Suc)
qed

lemma qos_payload_eq:
  assumes "qr_rate_kibs r < push_bit 24 1"
  shows "qos_to_payload r =
    Inr (slice 1 4 (to_be32 (qr_rate_kibs r)) @ to_be16 (qr_burst_size r) @ [qr_queue_hint r, 0, 0])"
  using assms by (auto simp: qos_to_payload_def write_at_def Let_def list_update_append numeral_eq_Suc)

lemma qos_payload_nth:
  assumes "p = slice 1 4 (to_be32 x) @ to_be16 b @ [h, 0, 0]"
  shows "[p ! 0, p ! 1, p ! 2] = slice 1 4 (to_be32 x)" "[p ! 3, p ! 4] = to_be16 b" "p ! 5 = h"
    "length p = 8"
  using assms by (simp_all add: to_be32_def to_be16_def slice_def nth_append numeral_eq_Suc)

lemma qos_round:
  assumes "qr_rate_kibs r < push_bit 24 1" "qos_to_payload r = Inr p"
  shows "length p = 8" "qos_from_payload p = Inr r"
proof -
  have p: "p = slice 1 4 (to_be32 (qr_rate_kibs r)) @ to_be16 (qr_burst_size r) @ [qr_queue_hint r, 0, 0]"
    using assms by (simp add: qos_payload_eq)
  note n = qos_payload_nth [OF p]
  have "from_be (0 # [p ! 0, p ! 1, p ! 2]) = qr_rate_kibs r"
    unfolding n rate_top_byte [OF assms(1), symmetric] by simp
  moreover have "from_be [p ! 3, p ! 4] = qr_burst_size r" unfolding n by simp
  ultimately show "length p = 8" "qos_from_payload p = Inr r"
    using n(3,4) by (simp_all add: qos_from_payload_def)
qed

text \<open>
  A QoS reservation survives its payload: it is refused exactly when the rate does not fit
  24 bits; otherwise it takes 8 bytes and reads back unchanged.
\<close>

theorem qos_reservation_roundtrip:
  "case qos_to_payload r of
     Inl e \<Rightarrow> e = Lay_RateTooLarge \<and> qr_rate_kibs r \<ge> push_bit 24 1
   | Inr p \<Rightarrow> length p = 8 \<and> qos_from_payload p = Inr r"
proof (cases "qr_rate_kibs r < push_bit 24 1")
  case True
  then show ?thesis using qos_round [OF True] by (simp add: qos_payload_eq)
next
  case False
  then show ?thesis by (simp add: qos_to_payload_def not_less)
qed

section \<open>Route traces and agent cards: round trips\<close>

lemma foldl_push_bytes: "foldl (\<lambda>p h. p @ to_bytes h) p hs = p @ concat (map to_bytes hs)"
  by (induction hs arbitrary: p) simp_all

lemma addr_from_wire_eq: "from_wire b = Some (addr_from_wire b)"
  by (simp add: from_wire_def addr_from_wire_def addr_new_def)

lemma addr_from_wire_to_bytes [simp]: "addr_from_wire (to_bytes a) = a"
  using addr_from_wire_eq [of "to_bytes a"] by simp

lemma length_hops: "length (concat (map to_bytes hs)) = 16 * length hs"
  using addr_codec.length_concat_enc [of hs] by simp

lemma slice_hops:
  "i < length hs \<Longrightarrow> slice (16 * i) (16 * i + 16) (concat (map to_bytes hs)) = to_bytes (hs ! i)"
  using addr_codec.slice_concat_enc [of hs i] by simp

lemma read_hops:
  assumes "length front = n" "p = front @ concat (map to_bytes hs)"
  shows "map (\<lambda>i. addr_from_wire (slice (n + 16 * i) (n + 16 * (i + 1)) p)) [0..<length hs] = hs"
  by (rule nth_equalityI) (use assms slice_hops in \<open>auto simp: slice_append_skip algebra_simps\<close>)

lemma route_trace_payload_eq:
  assumes "rt_hops t \<noteq> []" "length (rt_hops t) \<le> 64"
  shows "route_trace_to_payload t = Inr ((rt_src_pubkey t @ rt_path_sig t @
    [of_nat (length (rt_hops t)), rt_init_hop_limit t] @ replicate 6 0) @ concat (map to_bytes (rt_hops t)))"
  using assms by (simp add: route_trace_to_payload_def foldl_push_bytes Let_def)

lemma route_trace_round:
  assumes "route_trace_wf t" "rt_hops t \<noteq> []" "length (rt_hops t) \<le> 64"
    and "p = (rt_src_pubkey t @ rt_path_sig t @ [of_nat (length (rt_hops t)), rt_init_hop_limit t] @
           replicate 6 0) @ concat (map to_bytes (rt_hops t))" (is "p = ?hd @ _")
  shows "route_trace_from_payload p = Inr t"
proof -
  have len: "length ?hd = 104" using assms(1) by (simp add: route_trace_wf_def)
  have n: "unat (p ! 96) = length (rt_hops t)" and il: "p ! 97 = rt_init_hop_limit t"
    and keys: "slice 0 32 p = rt_src_pubkey t" "slice 32 96 p = rt_path_sig t"
    using assms by (simp_all add: route_trace_wf_def nth_append slice_def unat_of_nat take_bit_nat_eq_self)
  have lp: "length p = 104 + 16 * length (rt_hops t)" using len assms(4) length_hops by simp
  show ?thesis
    using n il keys lp assms(2,3) read_hops [OF len assms(4)]
    by (simp add: route_trace_from_payload_def const_defs)
qed

text \<open>
  A route trace survives its payload: with 1 to 64 hops the encoding has
  \<open>104 + 16 N\<close> bytes, a multiple of 8, and reads back unchanged; any other hop count is
  refused with the matching error.
\<close>

theorem route_trace_roundtrip:
  assumes "route_trace_wf t"
  shows "case route_trace_to_payload t of
      Inl e \<Rightarrow> (if rt_hops t = [] then e = Lay_EmptyHops else length (rt_hops t) > 64 \<and> e = Lay_TooManyHops)
    | Inr p \<Rightarrow> length p = 104 + 16 * length (rt_hops t) \<and> length p mod 8 = 0
        \<and> route_trace_from_payload p = Inr t"
proof (cases "rt_hops t = [] \<or> length (rt_hops t) > 64")
  case True
  then show ?thesis by (auto simp: route_trace_to_payload_def)
next
  case False
  then have h: "rt_hops t \<noteq> []" "length (rt_hops t) \<le> 64" by auto
  have "(104 + 16 * n) mod 8 = 0" for n :: nat by presburger
  then show ?thesis
    using route_trace_round [OF assms h refl] assms
    by (simp add: route_trace_payload_eq [OF h] length_hops route_trace_wf_def)
qed

lemma route_trace_roundtrip_witness:
  "route_trace_from_payload (replicate 32 1 @ replicate 64 2 @ [1, 64] @ replicate 6 0 @
     to_bytes (addr_with_region 1 1 0 2 0)) =
   Inr \<lparr>rt_src_pubkey = replicate 32 1, rt_path_sig = replicate 64 2, rt_init_hop_limit = 64,
        rt_hops = [addr_with_region 1 1 0 2 0]\<rparr>"
  using route_trace_roundtrip [of "\<lparr>rt_src_pubkey = replicate 32 1, rt_path_sig = replicate 64 2,
      rt_init_hop_limit = 64, rt_hops = [addr_with_region 1 1 0 2 0]\<rparr>"]
  by (simp add: route_trace_wf_def route_trace_to_payload_def Let_def)

lemma agent_card_round:
  assumes "agent_card_wf c"
  shows "length (agent_card_to_payload c) = 128" "agent_card_from_payload (agent_card_to_payload c) = Inr c"
  using assms
  by (simp_all add: agent_card_wf_def agent_card_to_payload_def agent_card_from_payload_def slice_def)

interpretation agent_card_codec: fixed_codec agent_card_to_payload
  "\<lambda>p. ok_of (agent_card_from_payload p)" agent_card_wf 128
  by unfold_locales (simp_all add: agent_card_round)

interpretation qos_codec: fixed_codec
  "\<lambda>r. case qos_to_payload r of Inl _ \<Rightarrow> [] | Inr p \<Rightarrow> p" "\<lambda>p. ok_of (qos_from_payload p)"
  "\<lambda>r. qr_rate_kibs r < push_bit 24 1" 8
proof unfold_locales
  fix r :: qos_reservation
  assume r: "qr_rate_kibs r < push_bit 24 1"
  obtain p where p: "qos_to_payload r = Inr p" using qos_payload_eq [OF r] by blast
  show "ok_of (qos_from_payload (case qos_to_payload r of Inl _ \<Rightarrow> [] | Inr p \<Rightarrow> p)) = Some r"
    "length (case qos_to_payload r of Inl _ \<Rightarrow> [] | Inr p \<Rightarrow> p) = 8"
    using qos_round [OF r p] p by simp_all
qed simp

section \<open>Semantic tags: round trip\<close>

definition tag_ok :: "bytes \<Rightarrow> bool" where
  "tag_ok t \<longleftrightarrow> check_tag t = Inr ()"

lemma tag_ok_iff: "tag_ok t \<longleftrightarrow> t \<noteq> [] \<and> length t \<le> 48 \<and> hd t \<noteq> 0x2D \<and> last t \<noteq> 0x2D \<and> list_all tag_char t"
  by (auto simp: tag_ok_def check_tag_def MAX_TAG_LEN_def hd_conv_nth last_conv_nth)

lemma check_tag_cases: "check_tag t = (if tag_ok t then Inr () else Inl Lay_BadTag)"
  by (auto simp: tag_ok_def check_tag_def)

lemma check_tags_eq: "check_tags ts = (if list_all tag_ok ts then Inr () else Inl Lay_BadTag)"
  by (induction ts) (simp_all add: check_tag_cases)

lemma tag_char_ascii: "tag_char c \<Longrightarrow> c < 0x80 \<and> c \<noteq> 0 \<and> c \<noteq> TAG_SEP"
  by (auto simp: tag_char_def TAG_SEP_def word_le_nat_alt word_less_nat_alt)

lemma tag_ok_utf8: "tag_ok t \<Longrightarrow> utf8_valid t"
  unfolding tag_ok_iff list_all_iff
  by (rule utf8_valid_ascii) (use tag_char_ascii in \<open>auto simp: list_all_iff\<close>)

lemma decode_parts_eq:
  "decode_parts parts out = (if list_all tag_ok parts then Inr (out @ parts) else Inl Lay_BadTag)"
  by (induction parts arbitrary: out) (auto simp: check_tag_cases dest: tag_ok_utf8)

lemma trim_pad_snoc: "trim_pad (p @ [b]) = (if b = 0 then trim_pad p else p @ [b])"
proof -
  have "trim_end (p @ q) (length p) = trim_end p (length p)" for q :: bytes
  proof -
    have "n \<le> length p \<Longrightarrow> trim_end (p @ q) n = trim_end p n" for n
      by (induction n) (auto simp: nth_append)
    then show ?thesis by simp
  qed
  moreover have "trim_end p n \<le> n" for n by (induction n) auto
  ultimately show ?thesis by (simp add: trim_pad_def)
qed

lemma trim_pad_id: "p \<noteq> [] \<Longrightarrow> last p \<noteq> 0 \<Longrightarrow> trim_pad p = p"
  by (cases p rule: rev_cases) (simp_all add: trim_pad_snoc)

lemma pad8_props: "trim_pad (pad8 p) = trim_pad p \<and> length (pad8 p) mod 8 = 0 \<and>
    length p \<le> length (pad8 p) \<and> length (pad8 p) < length p + 8"
proof (induction p rule: pad8.induct)
  case (1 p)
  show ?case
  proof (cases "length p mod 8 = 0")
    case False
    then have eq: "pad8 p = pad8 (p @ [0])" by (subst pad8.simps) simp
    have IH: "trim_pad (pad8 (p @ [0])) = trim_pad p" "length (pad8 (p @ [0])) mod 8 = 0"
      "length p + 1 \<le> length (pad8 (p @ [0]))" "length (pad8 (p @ [0])) < length p + 9"
      using "1.IH" [OF False] by (auto simp: trim_pad_snoc)
    from IH(2-4) have "length (pad8 (p @ [0])) < length p + 8" using False by presburger
    with IH eq show ?thesis by simp
  qed (subst pad8.simps, simp)+
qed

lemma pad8_bound: "length p \<le> 1536 \<Longrightarrow> length (pad8 p) \<le> 1536"
proof -
  assume "length p \<le> 1536"
  then have "length (pad8 p) mod 8 = 0" "length (pad8 p) < 1544" using pad8_props [of p] by auto
  then show ?thesis by presburger
qed

lemma tag_chars: "tag_ok t \<Longrightarrow> b \<in> set t \<Longrightarrow> b \<noteq> 0 \<and> b \<noteq> TAG_SEP"
  by (auto simp: tag_ok_iff list_all_iff dest: tag_char_ascii)

lemma join_tags_last:
  "ts \<noteq> [] \<Longrightarrow> list_all tag_ok ts \<Longrightarrow> join_with TAG_SEP ts \<noteq> [] \<and> last (join_with TAG_SEP ts) \<noteq> 0"
proof (induction "TAG_SEP" ts rule: join_with.induct)
  case (2 x)
  then have "x \<noteq> []" by (simp add: tag_ok_iff)
  with 2 show ?case using tag_chars [of x "last x"] by simp
next
  case (3 x y ys)
  then show ?case by simp
qed simp

text \<open>
  Semantic tags survive their payload: the encoder accepts a list exactly when it has 1 to
  32 tags, each 1 to 48 bytes of \<open>a-z0-9-\<close> without a leading or trailing hyphen, at
  most 1536 bytes in all; the payload is a multiple of 8 and the decoder, which strips the padding and splits at
  the separator, returns exactly the same list.
\<close>

theorem semantic_tags_roundtrip:
  "(\<exists>p. tags_encode ts = Inr p \<and> length p mod 8 = 0 \<and> 0 < length p \<and> length p \<le> MAX_TAG_PAYLOAD
      \<and> tags_decode p = Inr ts)
   \<longleftrightarrow> ts \<noteq> [] \<and> length ts \<le> MAX_TAGS \<and> list_all tag_ok ts \<and> length (join_with TAG_SEP ts) \<le> MAX_TAG_PAYLOAD"
  (is "?L \<longleftrightarrow> ?R")
proof
  assume ?L
  then show ?R
    by (auto simp: tags_encode_def check_tags_eq Let_def TAG_SEP_def split: if_splits)
next
  assume R: ?R
  let ?j = "join_with TAG_SEP ts"
  have enc: "tags_encode ts = Inr (pad8 ?j)"
    using R by (simp add: tags_encode_def check_tags_eq Let_def TAG_SEP_def)
  have j: "?j \<noteq> []" "last ?j \<noteq> 0" using join_tags_last R by auto
  have trim: "trim_pad (pad8 ?j) = ?j" using pad8_props [of ?j] trim_pad_id [OF j] by simp
  have parts: "split_on TAG_SEP ?j = ts"
    by (rule split_on_join) (use R in \<open>auto simp: list_all_iff dest: tag_chars\<close>)
  have len: "length (pad8 ?j) \<le> MAX_TAG_PAYLOAD" "0 < length (pad8 ?j)" "length (pad8 ?j) mod 8 = 0"
  proof -
    have "0 < length ?j" using j by simp
    then show "0 < length (pad8 ?j)" using pad8_props [of ?j] by linarith
  qed (use pad8_bound [of ?j] pad8_props [of ?j] R in \<open>simp_all add: MAX_TAG_PAYLOAD_def\<close>)
  have "tags_decode (pad8 ?j) = Inr ts"
    unfolding tags_decode_def Let_def trim parts decode_parts_eq using len(1,2) R by simp
  then show ?L using enc len by (intro exI [of _ "pad8 ?j"]) (simp del: length_greater_0_conv)
qed

text \<open>
  Whatever payload the tag decoder accepts, however malformed its sender, it returns 1 to 32
  legal tags, and joining them gives back the payload without its zero padding.
\<close>

theorem tags_decode_sound:
  assumes "tags_decode p = Inr ts"
  shows "ts \<noteq> [] \<and> length ts \<le> MAX_TAGS \<and> list_all tag_ok ts \<and> join_with TAG_SEP ts = trim_pad p"
proof -
  let ?parts = "split_on TAG_SEP (trim_pad p)"
  have "length ?parts \<le> MAX_TAGS" "list_all tag_ok ?parts" "ts = ?parts"
    using assms unfolding tags_decode_def decode_parts_eq Let_def
    by (simp_all add: not_less split: if_split_asm)
  then show ?thesis by (simp add: join_split_on)
qed

lemma tags_decode_sound_witness:
  "list_all tag_ok [[97, 98], [99]] \<and> join_with TAG_SEP [[97, 98], [99]] = trim_pad [97, 98, 0x1F, 99, 0]"
proof -
  have "tags_decode [97, 98, 0x1F, 99, 0] = Inr [[97, 98], [99]]"
    by (simp add: tags_decode_def trim_pad_def decode_parts_eq tag_ok_iff tag_char_def const_defs)
  from tags_decode_sound [OF this] show ?thesis by simp
qed

section \<open>What the signatures cover\<close>

definition sig_input_wf :: "trace_sig_input \<Rightarrow> bool" where
  "sig_input_wf i \<longleftrightarrow> length (ts_src_pubkey i) = 32 \<and> ts_min_compat_ver i \<le> 15 \<and> length (ts_hops i) \<le> 255"

lemma route_trace_message_eq: "route_trace_message i =
    ROUTE_TRACE_DOMAIN @ ts_src_pubkey i @
    [push_bit 4 IPV8_VERSION OR (ts_min_compat_ver i AND 0x0F)] @ to_be16 (ts_flags i) @
    to_be16 (ts_payload_len i) @ [ts_init_hop_limit i, 5] @ to_bytes (ts_src_addr i) @
    to_bytes (ts_dst_addr i) @ [of_nat (length (ts_hops i))] @ concat (map to_bytes (ts_hops i))"
  by (simp add: route_trace_message_def foldl_push_bytes Let_def)

lemma version_byte_inject:
  assumes "push_bit 4 v OR (a AND 0x0F) = push_bit 4 v OR (b AND (0x0F :: u8))" "a \<le> 15" "b \<le> 15" "v \<le> 15"
  shows "a = b"
proof -
  have m: "(0x0F :: u8) = mask 4" by (simp add: mask_eq_exp_minus_1)
  have "x AND 0x0F = x" if "x \<le> 15" for x :: u8
    unfolding m using that by (auto intro!: bit_word_eqI simp: bit_simps dest: nibble_bits)
  moreover have "bit a n = bit b n" if "n < 4" for n
    using arg_cong [OF assms(1), of "\<lambda>w. bit w n"] that unfolding m by (auto simp: bit_simps)
  ultimately show ?thesis
    using assms(2,3) by (intro bit_word_eqI) (metis nibble_bits)
qed

text \<open>The route signature covers every field: two inputs with the same message are equal.\<close>

lemma route_trace_message_inject:
  assumes "sig_input_wf i" "sig_input_wf j" "route_trace_message i = route_trace_message j"
  shows "i = j"
proof -
  have len: "length (ts_src_pubkey i) = length (ts_src_pubkey j)" using assms by (simp add: sig_input_wf_def)
  have eq: "ts_src_pubkey i = ts_src_pubkey j"
    "push_bit 4 IPV8_VERSION OR (ts_min_compat_ver i AND 0x0F) =
       push_bit 4 IPV8_VERSION OR (ts_min_compat_ver j AND 0x0F)"
    "to_be16 (ts_flags i) = to_be16 (ts_flags j)" "to_be16 (ts_payload_len i) = to_be16 (ts_payload_len j)"
    "ts_init_hop_limit i = ts_init_hop_limit j" "to_bytes (ts_src_addr i) = to_bytes (ts_src_addr j)"
    "to_bytes (ts_dst_addr i) = to_bytes (ts_dst_addr j)"
    "concat (map to_bytes (ts_hops i)) = concat (map to_bytes (ts_hops j))"
    using assms(3) len unfolding route_trace_message_eq by (auto simp: append_eq_append_conv)
  have "ts_min_compat_ver i = ts_min_compat_ver j"
    by (rule version_byte_inject [OF eq(2)]) (use assms(1,2) in \<open>simp_all add: sig_input_wf_def IPV8_VERSION_def\<close>)
  moreover have "ts_hops i = ts_hops j" by (rule addr_codec.concat_enc_inject [OF _ _ eq(8)]) simp_all
  ultimately show ?thesis using eq by (intro trace_sig_input.equality) simp_all
qed

text \<open>
  Domain separation: no route message is ever an agent card message, so a signature made
  for one can never be replayed as the other.
\<close>

theorem signature_domains_disjoint: "route_trace_message i \<noteq> agent_card_message v ch na pk"
proof
  assume "route_trace_message i = agent_card_message v ch na pk"
  then have "route_trace_message i ! 9 = agent_card_message v ch na pk ! 9" by simp
  then show False
    by (simp add: route_trace_message_eq agent_card_message_def ROUTE_TRACE_DOMAIN_def
        AGENT_CARD_DOMAIN_def nth_append)
qed

end
