(* ===== verification/QosScheduler.thy ===== *)
theory QosScheduler
  imports CodecLayouts CodecWire
begin

text \<open>
  The crate \<open>ipv8-qos\<close>: classification of a packet by the QoS bits of its base header,
  the reservation header, and the bounded strict-priority scheduler. The scheduler is related to
  a reference that keeps one list of arrivals and serves the first of the highest class.
\<close>

section \<open>Classification and reservation headers\<close>

definition NUM_CLASSES :: nat where [const_defs]: "NUM_CLASSES = 4"

definition class_of_level :: "u8 \<Rightarrow> nat" where
  "class_of_level level = (
     let c = unat (drop_bit 2 level)
     in if c \<ge> NUM_CLASSES then NUM_CLASSES - 1 else c)"

definition qos_level_of_base_header :: "bytes \<Rightarrow> u8 option" where
  "qos_level_of_base_header base40 = (
     if length base40 < BASE_HEADER_SIZE then None
     else let f = (from_be [base40 ! 1, base40 ! 2] :: u16) in Some (ucast (f AND QOS_LEVEL_MASK)))"

definition classify_base_header :: "bytes \<Rightarrow> nat" where
  "classify_base_header base40 =
     (case qos_level_of_base_header base40 of None \<Rightarrow> 0 | Some l \<Rightarrow> class_of_level l)"

definition reservation_header :: "u32 \<Rightarrow> u16 \<Rightarrow> u8 \<Rightarrow> ext_header option" where
  "reservation_header rate_kibs burst_size queue_hint = (
     let r = \<lparr>qr_rate_kibs = rate_kibs, qr_burst_size = burst_size, qr_queue_hint = queue_hint\<rparr>
     in case qos_to_payload r of Inl _ \<Rightarrow> None | Inr p \<Rightarrow> ext_new QoSReservation p)"

definition parse_reservation :: "ext_header \<Rightarrow> qos_reservation option" where
  "parse_reservation ext = (
     if ext_type ext \<noteq> QoSReservation then None else ok_of (qos_from_payload (ext_payload ext)))"

section \<open>The scheduler\<close>

record 'a scheduler =
  sch_queues :: "'a list list"
  sch_counts :: "nat list"
  sch_cap :: nat
  sch_dropped :: u64

definition sched_new :: "nat \<Rightarrow> 'a scheduler" where
  "sched_new cap = \<lparr>sch_queues = replicate NUM_CLASSES [], sch_counts = replicate NUM_CLASSES 0,
     sch_cap = max cap 1, sch_dropped = 0\<rparr>"

definition sched_default :: "'a scheduler" where
  "sched_default = sched_new 4096"

definition sched_push :: "nat \<Rightarrow> 'a \<Rightarrow> 'a scheduler \<Rightarrow> 'a scheduler \<times> 'a option" where
  "sched_push class item s = (
     let class = min class (NUM_CLASSES - 1)
     in if sch_counts s ! class \<ge> sch_cap s
        then (s\<lparr>sch_dropped := sch_dropped s + 1\<rparr>, Some item)
        else (s\<lparr>sch_queues := (sch_queues s)[class := sch_queues s ! class @ [item]],
                sch_counts := (sch_counts s)[class := sch_counts s ! class + 1]\<rparr>, None))"

text \<open>The loop over the classes in the given order.\<close>

fun take_from :: "nat list \<Rightarrow> 'a scheduler \<Rightarrow> 'a scheduler \<times> 'a option" where
  "take_from [] s = (s, None)"
| "take_from (class # classes) s = (case sch_queues s ! class of
     [] \<Rightarrow> take_from classes s
   | item # rest \<Rightarrow>
       (s\<lparr>sch_queues := (sch_queues s)[class := rest],
          sch_counts := (sch_counts s)[class := sch_counts s ! class - 1]\<rparr>, Some item))"

definition take_next :: "'a scheduler \<Rightarrow> 'a scheduler \<times> 'a option" where
  "take_next s = take_from (rev [0..<NUM_CLASSES]) s"

definition sched_len :: "'a scheduler \<Rightarrow> nat" where
  "sched_len s = sum_list (sch_counts s)"

definition sched_is_empty :: "'a scheduler \<Rightarrow> bool" where
  "sched_is_empty s \<longleftrightarrow> sched_len s = 0"

definition class_len :: "'a scheduler \<Rightarrow> nat \<Rightarrow> nat" where
  "class_len s class = (if class < length (sch_counts s) then sch_counts s ! class else 0)"

section \<open>Invariant\<close>

definition sched_inv :: "'a scheduler \<Rightarrow> bool" where
  "sched_inv s \<longleftrightarrow> length (sch_queues s) = 4 \<and> sch_counts s = map length (sch_queues s)
     \<and> 1 \<le> sch_cap s \<and> (\<forall>q \<in> set (sch_queues s). length q \<le> sch_cap s)"

lemma sched_inv_new: "sched_inv (sched_new cap)"
  by (auto simp: sched_inv_def sched_new_def NUM_CLASSES_def)

lemma sched_inv_push:
  assumes "sched_inv s"
  shows "sched_inv (fst (sched_push class item s))"
proof -
  let ?c = "min class 3"
  have "?c < 4" by simp
  then show ?thesis
    using assms set_update_subset_insert [of "sch_queues s" ?c "sch_queues s ! ?c @ [item]"]
    by (auto simp: sched_inv_def sched_push_def NUM_CLASSES_def Let_def map_update)
qed

lemma sched_inv_take_from:
  "sched_inv s \<Longrightarrow> \<forall>c \<in> set cs. c < 4 \<Longrightarrow> sched_inv (fst (take_from cs s))"
proof (induction cs)
  case (Cons c cs)
  show ?case
  proof (cases "sch_queues s ! c")
    case (Cons x q)
    have "length q \<le> sch_cap s"
      using \<open>sched_inv s\<close> \<open>\<forall>c \<in> set (c # cs). c < 4\<close> Cons nth_mem [of c "sch_queues s"]
      by (auto simp: sched_inv_def)
    then show ?thesis
      using \<open>sched_inv s\<close> \<open>\<forall>c \<in> set (c # cs). c < 4\<close> Cons
        set_update_subset_insert [of "sch_queues s" c q]
      by (auto simp: sched_inv_def map_update)
  qed (use Cons in simp)
qed simp

lemma sched_inv_take: "sched_inv s \<Longrightarrow> sched_inv (fst (take_next s))"
  unfolding take_next_def by (rule sched_inv_take_from) (auto simp: NUM_CLASSES_def)

text \<open>
  In every reachable scheduler the counters are the queue lengths, so the length it reports
  is the number of queued items, each class stays within the cap, and emptiness is reported exactly when nothing is queued.
\<close>

theorem scheduler_counts:
  assumes "sched_inv s"
  shows "sched_len s = length (concat (sch_queues s)) \<and> sched_len s \<le> 4 * sch_cap s
    \<and> (sched_is_empty s \<longleftrightarrow> concat (sch_queues s) = [])
    \<and> sched_inv (fst (sched_push class item s)) \<and> sched_inv (fst (take_next s))"
proof -
  obtain a b c d where q: "sch_queues s = [a, b, c, d]"
    using assms by (auto simp: sched_inv_def length_Suc_conv numeral_eq_Suc)
  have "sch_counts s = [length a, length b, length c, length d]"
    "length a \<le> sch_cap s" "length b \<le> sch_cap s" "length c \<le> sch_cap s" "length d \<le> sch_cap s"
    using assms q by (simp_all add: sched_inv_def)
  then show ?thesis
    using sched_inv_push [OF assms, of "class" item] sched_inv_take [OF assms] q
    by (simp add: sched_len_def sched_is_empty_def)
qed

lemma scheduler_counts_witness:
  "sched_len (fst (sched_push 7 (5 :: nat) (sched_new 2))) = 1 \<and>
   sched_len (fst (sched_push 7 (5 :: nat) (sched_new 2))) \<le> 4 * 2"
  using scheduler_counts [OF sched_inv_push [OF sched_inv_new [of 2]], of 7 "5 :: nat" 0 "0 :: nat"]
  by (simp add: sched_push_def sched_new_def NUM_CLASSES_def Let_def numeral_eq_Suc)

section \<open>The reference scheduler\<close>

text \<open>One list of arrivals with their classes; the first arrival of the highest class is served.\<close>

fun remove_first :: "('a \<Rightarrow> bool) \<Rightarrow> 'a list \<Rightarrow> 'a list" where
  "remove_first P [] = []"
| "remove_first P (x # xs) = (if P x then xs else x # remove_first P xs)"

definition ref_push :: "nat \<Rightarrow> nat \<Rightarrow> 'a \<Rightarrow> (nat \<times> 'a) list \<Rightarrow> (nat \<times> 'a) list \<times> 'a option" where
  "ref_push cap class item xs = (
     if length (filter (\<lambda>p. fst p = min class 3) xs) \<ge> cap then (xs, Some item)
     else (xs @ [(min class 3, item)], None))"

definition ref_take :: "(nat \<times> 'a) list \<Rightarrow> (nat \<times> 'a) list \<times> 'a option" where
  "ref_take xs = (
     if xs = [] then ([], None)
     else
       let hi = Max (fst ` set xs)
       in (remove_first (\<lambda>p. fst p = hi) xs, Some (snd (hd (filter (\<lambda>p. fst p = hi) xs)))))"

definition class_items :: "nat \<Rightarrow> (nat \<times> 'a) list \<Rightarrow> 'a list" where
  "class_items c xs = map snd (filter (\<lambda>p. fst p = c) xs)"

definition sched_rel :: "'a scheduler \<Rightarrow> (nat \<times> 'a) list \<Rightarrow> bool" where
  "sched_rel s xs \<longleftrightarrow> sched_inv s \<and> (\<forall>p \<in> set xs. fst p < 4)
     \<and> (\<forall>c < 4. sch_queues s ! c = class_items c xs)"

lemma class_items_remove_first:
  "class_items c (remove_first (\<lambda>p. fst p = t) xs) =
     (if c = t then tl (class_items c xs) else class_items c xs)"
  by (induction xs) (auto simp: class_items_def)

lemma set_remove_first: "set (remove_first P xs) \<subseteq> set xs"
  by (induction xs) auto

lemma class_items_empty: "class_items c xs = [] \<longleftrightarrow> c \<notin> fst ` set xs"
  by (auto simp: class_items_def filter_empty_conv)

lemma take_from_highest:
  assumes "hi \<in> set cs" "sch_queues s ! hi = item # rest"
    and "\<forall>c \<in> set (takeWhile (\<lambda>c. c \<noteq> hi) cs). sch_queues s ! c = []"
  shows "take_from cs s = (s\<lparr>sch_queues := (sch_queues s)[hi := rest],
     sch_counts := (sch_counts s)[hi := sch_counts s ! hi - 1]\<rparr>, Some item)"
  using assms
proof (induction cs)
  case (Cons a cs)
  then show ?case by (cases "a = hi") simp_all
qed simp

lemma take_from_none: "\<forall>c \<in> set cs. sch_queues s ! c = [] \<Longrightarrow> take_from cs s = (s, None)"
  by (induction cs) auto

lemma class_order: "rev [0..<NUM_CLASSES] = [3, 2, 1, 0]"
  by (simp add: NUM_CLASSES_def upt_rec)

lemma sched_rel_take:
  assumes "sched_rel s xs"
  shows "snd (take_next s) = snd (ref_take xs) \<and> sched_rel (fst (take_next s)) (fst (ref_take xs))"
proof (cases "xs = []")
  case True
  then have "\<forall>c \<in> set [3, 2, 1, 0]. sch_queues s ! c = []"
    using assms by (auto simp: sched_rel_def class_items_def)
  then have "take_next s = (s, None)" unfolding take_next_def class_order by (rule take_from_none)
  then show ?thesis using True assms by (simp add: ref_take_def)
next
  case False
  define hi where "hi = Max (fst ` set xs)"
  have hi: "hi \<in> fst ` set xs" "\<forall>p \<in> set xs. fst p \<le> hi"
    unfolding hi_def using False by (auto intro: Max_in)
  have t4: "hi < 4" using hi(1) assms by (auto simp: sched_rel_def)
  have ne: "class_items hi xs \<noteq> []" using hi(1) by (simp add: class_items_empty)
  have q: "sch_queues s ! hi = hd (class_items hi xs) # tl (class_items hi xs)"
    using assms t4 ne by (simp add: sched_rel_def)
  have hd: "hd (class_items hi xs) = snd (hd (filter (\<lambda>p. fst p = hi) xs))"
    using ne by (simp add: class_items_def hd_map)
  have above: "\<forall>c \<in> set (takeWhile (\<lambda>c. c \<noteq> hi) [3, 2, 1, 0]). sch_queues s ! c = []"
  proof
    fix c
    assume c: "c \<in> set (takeWhile (\<lambda>c. c \<noteq> hi) [3, 2, 1, 0])"
    then have "hi < c" "c < 4" using t4 by (auto split: if_splits)
    then have "c \<notin> fst ` set xs" using hi(2) by fastforce
    then show "sch_queues s ! c = []"
      using assms \<open>c < 4\<close> class_items_empty [of c xs] by (simp add: sched_rel_def)
  qed
  have take: "take_next s = (s\<lparr>sch_queues := (sch_queues s)[hi := tl (class_items hi xs)],
      sch_counts := (sch_counts s)[hi := sch_counts s ! hi - 1]\<rparr>, Some (hd (class_items hi xs)))"
    unfolding take_next_def class_order
    by (rule take_from_highest [OF _ q above]) (use t4 in auto)
  have ref: "ref_take xs = (remove_first (\<lambda>p. fst p = hi) xs, Some (hd (class_items hi xs)))"
    using False by (simp add: ref_take_def hi_def [symmetric] hd)
  have "sched_inv (fst (take_next s))"
    by (rule sched_inv_take) (use assms in \<open>simp add: sched_rel_def\<close>)
  then have "sched_rel (fst (take_next s)) (fst (ref_take xs))"
    using assms t4 set_remove_first [of "\<lambda>p. fst p = hi" xs]
    by (auto simp: sched_rel_def take ref class_items_remove_first nth_list_update sched_inv_def)
  then show ?thesis by (simp add: take ref)
qed

lemma sched_rel_push:
  assumes "sched_rel s xs"
  shows "snd (sched_push class item s) = snd (ref_push (sch_cap s) class item xs)
    \<and> sched_rel (fst (sched_push class item s)) (fst (ref_push (sch_cap s) class item xs))"
proof -
  let ?c = "min class 3"
  have c: "?c < 4" by simp
  have inv: "sched_inv s" using assms by (simp add: sched_rel_def)
  have cnt: "sch_counts s ! ?c = length (filter (\<lambda>p. fst p = ?c) xs)"
    using assms c by (auto simp: sched_rel_def sched_inv_def class_items_def)
  have "sched_inv (fst (sched_push class item s))" by (rule sched_inv_push [OF inv])
  then show ?thesis
    using assms c cnt inv
    by (auto simp: sched_push_def ref_push_def sched_rel_def NUM_CLASSES_def Let_def sched_inv_def
        class_items_def nth_list_update)
qed

datatype 'a sched_op = Push nat 'a | Take

fun sched_run :: "'a sched_op list \<Rightarrow> 'a scheduler \<Rightarrow> 'a option list" where
  "sched_run [] s = []"
| "sched_run (Push c x # ops) s = (case sched_push c x s of (s, r) \<Rightarrow> r # sched_run ops s)"
| "sched_run (Take # ops) s = (case take_next s of (s, r) \<Rightarrow> r # sched_run ops s)"

fun ref_run :: "nat \<Rightarrow> 'a sched_op list \<Rightarrow> (nat \<times> 'a) list \<Rightarrow> 'a option list" where
  "ref_run cap [] xs = []"
| "ref_run cap (Push c x # ops) xs = (case ref_push cap c x xs of (xs, r) \<Rightarrow> r # ref_run cap ops xs)"
| "ref_run cap (Take # ops) xs = (case ref_take xs of (xs, r) \<Rightarrow> r # ref_run cap ops xs)"

lemma cap_unchanged:
  "sch_cap (fst (sched_push c x s)) = sch_cap s" "sch_cap (fst (take_next s)) = sch_cap s"
proof -
  show "sch_cap (fst (sched_push c x s)) = sch_cap s" by (simp add: sched_push_def Let_def)
  have "sch_cap (fst (take_from cs s)) = sch_cap s" for cs
    by (induction cs) (auto split: list.splits)
  then show "sch_cap (fst (take_next s)) = sch_cap s" by (simp add: take_next_def)
qed

lemma sched_run_refines:
  "sched_rel s xs \<Longrightarrow> sched_run ops s = ref_run (sch_cap s) ops xs"
proof (induction ops arbitrary: s xs)
  case (Cons op ops)
  show ?case
  proof (cases op)
    case (Push c x)
    then show ?thesis
      using Cons.IH sched_rel_push [OF Cons.prems, of c x] cap_unchanged(1) [of c x s]
      by (auto split: prod.splits)
  next
    case Take
    then show ?thesis
      using Cons.IH sched_rel_take [OF Cons.prems] cap_unchanged(2) [of s]
      by (auto split: prod.splits)
  qed
qed simp

text \<open>
  C34. The scheduler refines its specification: for every sequence of pushes and takes, its answers are
  those of a single arrival list from which the oldest item of the highest class present is
  served and an arrival is returned to the caller exactly when its class is full; so
  no item is lost, duplicated or reordered within its class.
\<close>

theorem scheduler_refines_reference:
  "sched_run ops (sched_new cap) = ref_run (max cap 1) ops []"
proof -
  have "sched_rel (sched_new cap) []"
    using sched_inv_new [of cap]
    by (auto simp: sched_rel_def sched_new_def NUM_CLASSES_def class_items_def)
  from sched_run_refines [OF this] show ?thesis by (simp add: sched_new_def)
qed

section \<open>Classification\<close>

lemma class_of_level_bounds:
  "class_of_level l < NUM_CLASSES" "unat l \<le> unat l' \<Longrightarrow> class_of_level l \<le> class_of_level l'"
  by (auto simp: class_of_level_def NUM_CLASSES_def Let_def unat_drop_bit intro: div_le_mono)

lemma decode_flags:
  assumes "decode buf = Inr d"
  shows "40 \<le> length buf" "hdr_flags (dec_header d) = from_be [buf ! 1, buf ! 2]"
  using assms unfolding decode_def Let_def
  by (auto simp: BASE_HEADER_SIZE_def not_less split: if_splits sum.splits prod.splits)

text \<open>
  Classification agrees with the decoder: the class computed from the raw first 40 bytes of a
  packet is the class of the QoS level in the decoded flags, and always names one of the four queues.
\<close>

theorem classify_agrees_with_decoder:
  assumes "decode buf = Inr d"
  shows "classify_base_header (take 40 buf) = class_of_level (qos_level (hdr_flags (dec_header d)))
    \<and> classify_base_header (take 40 buf) < NUM_CLASSES"
  using decode_flags [OF assms] class_of_level_bounds(1)
  by (simp add: classify_base_header_def qos_level_of_base_header_def qos_level_def BASE_HEADER_SIZE_def)

lemma classify_agrees_with_decoder_witness:
  "classify_base_header (take 40 (header_bytes sample_header @ chain_bytes (hdr_ext_headers sample_header) @ [7, 8, 1, 2, 3])) = 0"
  using classify_agrees_with_decoder [OF decode_sample]
  by (simp add: sample_header_def attach_ext_headers_def header_new_def qos_level_def class_of_level_def const_defs)

text \<open>
  A reservation header built by the sender is read back by the receiver with the same rate,
  burst and queue hint, and it is built exactly when the rate fits 24 bits.
\<close>

theorem reservation_header_roundtrip:
  "(case reservation_header rate burst hint of
      None \<Rightarrow> rate \<ge> push_bit 24 1
    | Some e \<Rightarrow> rate < push_bit 24 1 \<and> ext_ok e \<and> parse_reservation e =
        Some \<lparr>qr_rate_kibs = rate, qr_burst_size = burst, qr_queue_hint = hint\<rparr>)"
proof (cases "rate < push_bit 24 1")
  case True
  let ?r = "\<lparr>qr_rate_kibs = rate, qr_burst_size = burst, qr_queue_hint = hint\<rparr>"
  have r: "qr_rate_kibs ?r < push_bit 24 1" using True by simp
  obtain p where p: "qos_to_payload ?r = Inr p" using qos_payload_eq [OF r] by blast
  have len: "length p = 8" and rd: "qos_from_payload p = Inr ?r" using qos_round [OF r p] .
  have "reservation_header rate burst hint = Some \<lparr>ext_type = QoSReservation, ext_payload = p\<rparr>"
    using len by (simp add: reservation_header_def p ext_new_def)
  then show ?thesis
    using True len rd
    by (auto simp: parse_reservation_def ext_ok_def canonical_type_def ext_from_u8_def)
next
  case False
  then show ?thesis by (simp add: reservation_header_def qos_to_payload_def not_less)
qed

end
