(* ===== verification/Firewall.thy ===== *)
theory Firewall
  imports CodecHeader
begin

text \<open>
  The rule engine of \<open>ipv8-firewall/src/lib.rs\<close>. Rule identifiers, patterns and
  addresses are UTF-8 byte strings. Loading and saving the JSON file is not modelled.
\<close>

section \<open>Protocols\<close>

datatype protocol = Tcp | Udp | Any_Protocol | Custom u8

text \<open>\<open>str::parse::<u8>\<close>: an optional plus sign, then decimal digits, without overflow.\<close>

fun parse_digits :: "nat \<Rightarrow> bytes \<Rightarrow> nat option" where
  "parse_digits acc [] = Some acc"
| "parse_digits acc (b # bs) =
    (if 0x30 \<le> b \<and> b \<le> 0x39
     then let n = acc * 10 + unat (b - 0x30) in if n > 255 then None else parse_digits n bs
     else None)"

definition parse_u8 :: "bytes \<Rightarrow> u8 option" where
  "parse_u8 s = (
     let ds = (case s of [] \<Rightarrow> [] | b # bs \<Rightarrow> if b = 0x2B then bs else s)
     in if ds = [] then None else map_option of_nat (parse_digits 0 ds))"

definition text_of :: "string \<Rightarrow> bytes" where
  "text_of s = map of_char s"

definition protocol_parse :: "bytes \<Rightarrow> protocol" where
  "protocol_parse s = (
     let l = map ascii_lower s
     in if l = text_of ''tcp'' then Tcp
        else if l = text_of ''udp'' then Udp
        else if l = text_of ''any'' \<or> l = text_of ''*'' \<or> l = text_of ''all'' then Any_Protocol
        else case parse_u8 s of Some n \<Rightarrow> Custom n | None \<Rightarrow> Any_Protocol)"

fun protocol_matches :: "protocol \<Rightarrow> u8 \<Rightarrow> bool" where
  "protocol_matches Any_Protocol actual = True"
| "protocol_matches Tcp actual = (actual = 6)"
| "protocol_matches Udp actual = (actual = 17)"
| "protocol_matches (Custom n) actual = (n = actual)"

fun protocol_as_str :: "protocol \<Rightarrow> bytes" where
  "protocol_as_str Tcp = text_of ''tcp''"
| "protocol_as_str Udp = text_of ''udp''"
| "protocol_as_str Any_Protocol = text_of ''any''"
| "protocol_as_str (Custom _) = text_of ''custom''"

section \<open>Rules\<close>

datatype fw_direction = Inbound | Outbound

record fw_rule =
  rule_id :: bytes
  rule_name :: bytes
  rule_protocol :: protocol
  rule_port_start :: u16
  rule_port_end :: u16
  rule_source_pattern :: bytes
  rule_target_addr :: bytes
  rule_target_port :: u16
  rule_enabled :: bool
  rule_direction :: fw_direction
  rule_comment :: bytes

record match_result =
  mr_rule_id :: bytes
  mr_target :: "ipv8_address option"
  mr_target_port :: u16

type_synonym rule_set = "fw_rule list"

text \<open>\<open>position\<close> finds the first index; a rule of the same id is replaced in place.\<close>

fun replace_first :: "('a \<Rightarrow> bool) \<Rightarrow> 'a \<Rightarrow> 'a list \<Rightarrow> 'a list" where
  "replace_first P y [] = []"
| "replace_first P y (x # xs) = (if P x then y # xs else x # replace_first P y xs)"

definition rules_add :: "fw_rule \<Rightarrow> rule_set \<Rightarrow> rule_set" where
  "rules_add rule rules = (
     if list_ex (\<lambda>r. rule_id r = rule_id rule) rules
     then replace_first (\<lambda>r. rule_id r = rule_id rule) rule rules
     else rules @ [rule])"

definition rules_remove :: "bytes \<Rightarrow> rule_set \<Rightarrow> rule_set \<times> bool" where
  "rules_remove ident rules = (
     let before = length rules; rules = filter (\<lambda>r. rule_id r \<noteq> ident) rules
     in (rules, length rules \<noteq> before))"

fun rules_toggle :: "bytes \<Rightarrow> rule_set \<Rightarrow> rule_set \<times> bool" where
  "rules_toggle ident [] = ([], False)"
| "rules_toggle ident (r # rs) =
    (if rule_id r = ident then (r\<lparr>rule_enabled := \<not> rule_enabled r\<rparr> # rs, True)
     else (case rules_toggle ident rs of (rs', b) \<Rightarrow> (r # rs', b)))"

definition active_rules :: "rule_set \<Rightarrow> fw_rule list" where
  "active_rules rules = filter rule_enabled rules"

text \<open>The body of the loop in \<open>match_rule\<close>: the \<open>continue\<close> tests in order.\<close>

definition starts_with :: "bytes \<Rightarrow> bytes \<Rightarrow> bool" where
  "starts_with s prefix \<longleftrightarrow> take (length prefix) s = prefix"

definition rule_applies :: "fw_rule \<Rightarrow> u8 \<Rightarrow> u16 \<Rightarrow> ipv8_address \<Rightarrow> bool" where
  "rule_applies rule protocol port source = (
     if \<not> protocol_matches (rule_protocol rule) protocol then False
     else if port < rule_port_start rule \<or> port > rule_port_end rule then False
     else if rule_source_pattern rule \<noteq> [] \<and> rule_source_pattern rule \<noteq> text_of ''*''
       then starts_with (to_canonical_string source) (map ascii_lower (rule_source_pattern rule))
     else True)"

definition rule_result :: "fw_rule \<Rightarrow> u16 \<Rightarrow> match_result" where
  "rule_result rule port = (
     let target = (if rule_target_addr rule = [] then None
                   else ok_of (from_canonical_str (rule_target_addr rule)));
         target_port = (if rule_target_port rule = 0 then port else rule_target_port rule)
     in \<lparr>mr_rule_id = rule_id rule, mr_target = target, mr_target_port = target_port\<rparr>)"

fun match_loop :: "fw_rule list \<Rightarrow> u8 \<Rightarrow> u16 \<Rightarrow> ipv8_address \<Rightarrow> match_result option" where
  "match_loop [] protocol port source = None"
| "match_loop (rule # rules) protocol port source =
    (if rule_applies rule protocol port source then Some (rule_result rule port)
     else match_loop rules protocol port source)"

definition match_rule :: "rule_set \<Rightarrow> u8 \<Rightarrow> u16 \<Rightarrow> ipv8_address \<Rightarrow> match_result option" where
  "match_rule rules protocol port source = match_loop (active_rules rules) protocol port source"

text \<open>The three entries of the map that \<open>stats\<close> returns: total, active, disabled.\<close>

definition rules_stats :: "rule_set \<Rightarrow> (bytes \<times> nat) list" where
  "rules_stats rules =
     [(text_of ''total'', length rules), (text_of ''active'', length (active_rules rules)),
      (text_of ''disabled'', length rules - length (active_rules rules))]"

section \<open>The rule set\<close>

definition ids_unique :: "rule_set \<Rightarrow> bool" where
  "ids_unique rules \<longleftrightarrow> distinct (map rule_id rules)"

lemma replace_first_ids:
  "list_ex (\<lambda>r. rule_id r = rule_id rule) rules \<Longrightarrow>
   map rule_id (replace_first (\<lambda>r. rule_id r = rule_id rule) rule rules) = map rule_id rules"
  by (induction rules) auto

lemma replace_first_lookup:
  "list_ex (\<lambda>r. rule_id r = rule_id rule) rules \<Longrightarrow>
   find (\<lambda>r. rule_id r = i) (replace_first (\<lambda>r. rule_id r = rule_id rule) rule rules) =
     (if i = rule_id rule then Some rule else find (\<lambda>r. rule_id r = i) rules)"
  by (induction rules) auto

lemma find_append: "find P (xs @ ys) = (case find P xs of None \<Rightarrow> find P ys | Some x \<Rightarrow> Some x)"
  by (induction xs) auto

lemma find_none_ex: "\<not> list_ex P xs \<Longrightarrow> find P xs = None"
  by (induction xs) auto

lemma toggle_ids: "map rule_id (fst (rules_toggle i rules)) = map rule_id rules"
  by (induction rules) (auto split: prod.splits)

lemma ids_unique_ops:
  assumes "ids_unique rules"
  shows "ids_unique (rules_add rule rules)" "ids_unique (fst (rules_remove i rules))"
    "ids_unique (fst (rules_toggle i rules))"
proof -
  show "ids_unique (rules_add rule rules)"
    using assms replace_first_ids [of rule rules]
    by (auto simp: ids_unique_def rules_add_def list_ex_iff)
  show "ids_unique (fst (rules_remove i rules))"
    using assms by (simp add: ids_unique_def rules_remove_def Let_def distinct_map_filter)
  show "ids_unique (fst (rules_toggle i rules))" using assms by (simp add: ids_unique_def toggle_ids)
qed

text \<open>
  The rule set behaves as a map from identifiers to rules: identifiers stay unique under every
  operation, the last rule added under an identifier is the one found, the others are untouched, and removing reports exactly whether the rule was there.
\<close>

theorem rule_set_is_map:
  assumes "ids_unique rules"
  shows "find (\<lambda>r. rule_id r = i) (rules_add rule rules) =
      (if i = rule_id rule then Some rule else find (\<lambda>r. rule_id r = i) rules)
    \<and> find (\<lambda>r. rule_id r = i) (fst (rules_remove j rules)) =
      (if i = j then None else find (\<lambda>r. rule_id r = i) rules)
    \<and> (snd (rules_remove j rules) \<longleftrightarrow> find (\<lambda>r. rule_id r = j) rules \<noteq> None)
    \<and> ids_unique (rules_add rule rules) \<and> ids_unique (fst (rules_remove j rules))
    \<and> ids_unique (fst (rules_toggle j rules))"
proof -
  have "find (\<lambda>r. rule_id r = i) (rules_add rule rules) =
      (if i = rule_id rule then Some rule else find (\<lambda>r. rule_id r = i) rules)"
    using replace_first_lookup [of rule rules i] find_none_ex [of "\<lambda>r. rule_id r = i" rules]
    by (auto simp: rules_add_def find_append split: option.splits)
  moreover have "find (\<lambda>r. rule_id r = i) (filter (\<lambda>r. rule_id r \<noteq> j) rules) =
      (if i = j then None else find (\<lambda>r. rule_id r = i) rules)"
    by (induction rules) auto
  moreover have "length (filter (\<lambda>r. rule_id r \<noteq> j) rules) \<noteq> length rules \<longleftrightarrow>
      find (\<lambda>r. rule_id r = j) rules \<noteq> None"
  proof (induction rules)
    case (Cons r rs)
    have "length (filter (\<lambda>r. rule_id r \<noteq> j) rs) \<noteq> Suc (length rs)"
      using length_filter_le [of "\<lambda>r. rule_id r \<noteq> j" rs] by linarith
    then show ?case using Cons by (cases "rule_id r = j") auto
  qed simp
  ultimately show ?thesis using ids_unique_ops [OF assms] by (simp add: rules_remove_def Let_def)
qed

definition sample_rule :: fw_rule where
  "sample_rule = \<lparr>rule_id = text_of ''r1'', rule_name = [], rule_protocol = Tcp, rule_port_start = 80,
     rule_port_end = 90, rule_source_pattern = [], rule_target_addr = [], rule_target_port = 0,
     rule_enabled = True, rule_direction = Outbound, rule_comment = []\<rparr>"

lemma rule_set_is_map_witness:
  "find (\<lambda>r. rule_id r = text_of ''r1'') (rules_add sample_rule []) = Some sample_rule"
  using rule_set_is_map [of "[]" "text_of ''r1''" sample_rule] by (simp add: ids_unique_def sample_rule_def)

section \<open>Matching\<close>

lemma match_loop_find: "match_loop rules proto port src =
    map_option (\<lambda>r. rule_result r port) (find (\<lambda>r. rule_applies r proto port src) rules)"
  by (induction rules) simp_all

lemma find_filter: "find P (filter Q xs) = find (\<lambda>x. Q x \<and> P x) xs"
  by (induction xs) auto

lemma rule_applies_iff: "rule_applies r proto port src \<longleftrightarrow>
    protocol_matches (rule_protocol r) proto \<and> rule_port_start r \<le> port \<and> port \<le> rule_port_end r
    \<and> (rule_source_pattern r = [] \<or> rule_source_pattern r = text_of ''*'' \<or>
       starts_with (to_canonical_string src) (map ascii_lower (rule_source_pattern r)))"
  by (auto simp: rule_applies_def not_le not_less)

text \<open>
  First match wins: a request is answered by the first rule in the list that is enabled, has
  the protocol, covers the port and whose source pattern is empty, a star or a prefix of the source's canonical
  text; with no such rule there is no match, and a disabled rule never matters.
\<close>

theorem match_rule_first:
  "match_rule rules proto port src =
     map_option (\<lambda>r. rule_result r port)
       (find (\<lambda>r. rule_enabled r \<and> protocol_matches (rule_protocol r) proto
          \<and> rule_port_start r \<le> port \<and> port \<le> rule_port_end r
          \<and> (rule_source_pattern r = [] \<or> rule_source_pattern r = text_of ''*'' \<or>
             starts_with (to_canonical_string src) (map ascii_lower (rule_source_pattern r)))) rules)"
  by (simp add: match_rule_def active_rules_def match_loop_find find_filter rule_applies_iff)

text \<open>
  The direction of a rule is not enforced: changing the direction of any rules of the set
  never changes what a request matches, so an outbound rule admits inbound requests.
\<close>

theorem match_ignores_direction:
  "match_rule (map (\<lambda>r. r\<lparr>rule_direction := dir r\<rparr>) rules) proto port src = match_rule rules proto port src"
proof -
  have applies: "rule_applies (r\<lparr>rule_direction := d\<rparr>) proto port src = rule_applies r proto port src"
    and result: "rule_result (r\<lparr>rule_direction := d\<rparr>) port = rule_result r port" for r d
    by (simp_all add: rule_applies_def rule_result_def)
  show ?thesis
    unfolding match_rule_def active_rules_def
    by (induction rules) (simp_all add: applies result)
qed

text \<open>
  Printing a custom protocol loses it: every protocol but a custom one is parsed back from its own text,
  while the text of a custom protocol number parses to the protocol that matches everything.
\<close>

theorem protocol_print_parse:
  "protocol_parse (protocol_as_str p) = (case p of Custom _ \<Rightarrow> Any_Protocol | _ \<Rightarrow> p)"
  by (cases p) (simp_all add: protocol_parse_def text_of_def ascii_lower_def parse_u8_def Let_def)

end
