(* ===== verification/CompatChecksum.thy ===== *)
theory CompatChecksum
  imports Prelude
begin

text \<open>
  IP header access and RFC 1071 checksums: \<open>ipv8-compat/src/ip.rs\<close> and
  \<open>checksum.rs\<close>. A packet is a byte string, an IPv4 address 4 bytes and an IPv6 address
  16 bytes. Functions that write return the new packet.
\<close>

section \<open>Header fields\<close>

definition IPV4_MIN_HDR :: nat where [const_defs]: "IPV4_MIN_HDR = 20"
definition IPV6_HDR :: nat where [const_defs]: "IPV6_HDR = 40"
definition TCP_MIN_HDR :: nat where [const_defs]: "TCP_MIN_HDR = 20"
definition UDP_HDR :: nat where [const_defs]: "UDP_HDR = 8"

definition ip_version :: "bytes \<Rightarrow> u8" where
  "ip_version p = (case p of [] \<Rightarrow> 0 | b # _ \<Rightarrow> drop_bit 4 b)"

definition ipv4_ihl :: "bytes \<Rightarrow> nat" where
  "ipv4_ihl p = (
     if ip_version p \<noteq> 4 \<or> length p < IPV4_MIN_HDR then 0
     else
       let ihl = unat (p ! 0 AND 0x0f) * 4
       in if ihl < IPV4_MIN_HDR \<or> length p < ihl then 0 else ihl)"

definition ipv4_ttl :: "bytes \<Rightarrow> u8" where
  "ipv4_ttl p = (if length p < 9 then 0 else p ! 8)"

definition set_ipv4_ttl :: "bytes \<Rightarrow> u8 \<Rightarrow> bytes" where
  "set_ipv4_ttl p ttl = (if length p \<ge> 9 then p[8 := ttl] else p)"

definition ipv4_proto :: "bytes \<Rightarrow> u8" where
  "ipv4_proto p = (if length p < 10 then 0 else p ! 9)"

definition ipv4_src :: "bytes \<Rightarrow> bytes option" where
  "ipv4_src p = (if length p < 16 then None else Some [p ! 12, p ! 13, p ! 14, p ! 15])"

definition ipv4_dst :: "bytes \<Rightarrow> bytes option" where
  "ipv4_dst p = (if length p < 20 then None else Some [p ! 16, p ! 17, p ! 18, p ! 19])"

definition set_ipv4_src :: "bytes \<Rightarrow> bytes \<Rightarrow> bytes" where
  "set_ipv4_src p addr = (if length p \<ge> 16 then write_at 12 addr p else p)"

definition set_ipv4_dst :: "bytes \<Rightarrow> bytes \<Rightarrow> bytes" where
  "set_ipv4_dst p addr = (if length p \<ge> 20 then write_at 16 addr p else p)"

definition ipv4_df_set :: "bytes \<Rightarrow> bool" where
  "ipv4_df_set p \<longleftrightarrow> (if length p < 7 then False else p ! 6 AND 0x40 \<noteq> 0)"

definition ipv6_hop_limit :: "bytes \<Rightarrow> u8" where
  "ipv6_hop_limit p = (if length p < 8 then 0 else p ! 7)"

definition set_ipv6_hop_limit :: "bytes \<Rightarrow> u8 \<Rightarrow> bytes" where
  "set_ipv6_hop_limit p hl = (if length p \<ge> 8 then p[7 := hl] else p)"

definition ipv6_next_header :: "bytes \<Rightarrow> u8" where
  "ipv6_next_header p = (if length p < 7 then 0 else p ! 6)"

definition ipv6_src :: "bytes \<Rightarrow> bytes option" where
  "ipv6_src p = (if length p < 24 then None else Some (slice 8 24 p))"

definition ipv6_dst :: "bytes \<Rightarrow> bytes option" where
  "ipv6_dst p = (if length p < 40 then None else Some (slice 24 40 p))"

definition set_ipv6_src :: "bytes \<Rightarrow> bytes \<Rightarrow> bytes" where
  "set_ipv6_src p addr = (if length p \<ge> 24 then write_at 8 addr p else p)"

definition set_ipv6_dst :: "bytes \<Rightarrow> bytes \<Rightarrow> bytes" where
  "set_ipv6_dst p addr = (if length p \<ge> 40 then write_at 24 addr p else p)"

text \<open>The loop \<open>for _ in 0..8\<close> over the IPv6 extension headers, with the rounds left.\<close>

fun l4_loop :: "nat \<Rightarrow> bytes \<Rightarrow> u8 \<Rightarrow> nat \<Rightarrow> u8 \<times> nat" where
  "l4_loop 0 p nxt off = (nxt, off)"
| "l4_loop (Suc rounds) p nxt off =
    (if nxt = 6 \<or> nxt = 17 \<or> nxt = 58 \<or> nxt = 1 then (nxt, off)
     else if nxt = 0 \<or> nxt = 43 \<or> nxt = 60 then
       (if off + 2 > length p then (0, 0)
        else
          let hlen = (unat (p ! (off + 1)) + 1) * 8; nxt = p ! off; off = off + hlen
          in if off > length p then (0, 0) else l4_loop rounds p nxt off)
     else if nxt = 44 then
       (if off + 8 > length p then (0, 0) else l4_loop rounds p (p ! off) (off + 8))
     else if nxt = 51 then
       (if off + 2 > length p then (0, 0)
        else
          let hlen = (unat (p ! (off + 1)) + 2) * 4; nxt = p ! off; off = off + hlen
          in if off > length p then (0, 0) else l4_loop rounds p nxt off)
     else (nxt, off))"

definition l4_offset :: "bytes \<Rightarrow> u8 \<times> nat" where
  "l4_offset p = (
     if ip_version p = 4 then
       (let ihl = ipv4_ihl p in if ihl = 0 then (0, 0) else (ipv4_proto p, ihl))
     else if ip_version p = 6 then
       (if length p < IPV6_HDR then (0, 0) else l4_loop 8 p (ipv6_next_header p) IPV6_HDR)
     else (0, 0))"

section \<open>Checksums\<close>

text \<open>The sum of the 16-bit groups, an odd last byte taken as a high byte.\<close>

fun sum16 :: "bytes \<Rightarrow> u32 \<Rightarrow> u32" where
  "sum16 [] s = s"
| "sum16 [a] s = s + push_bit 8 (ucast a)"
| "sum16 (a # b # rest) s = sum16 rest (s + ucast (from_be [a, b] :: u16))"

text \<open>\<open>while sum >> 16 != 0 { sum = (sum & 0xffff) + (sum >> 16); }\<close>\<close>

lemma fold16_decreases:
  assumes "drop_bit 16 (s :: u32) \<noteq> 0"
  shows "unat ((s AND 0xffff) + drop_bit 16 s) = unat s mod 65536 + unat s div 65536"
    "unat s mod 65536 + unat s div 65536 < unat s"
proof -
  have hi: "unat (drop_bit 16 s) = unat s div 65536" by (simp add: unat_drop_bit)
  have mask: "s AND 0xffff = take_bit 16 s" by (simp add: take_bit_eq_mask mask_eq_exp_minus_1)
  have lo: "unat (s AND 0xffff) = unat s mod 65536"
    unfolding mask unsigned_take_bit_eq by (simp add: take_bit_eq_mod)
  have "unat s < 4294967296" using unsigned_less [of s, where 'a = nat] by simp
  then have "unat s div 65536 < 65536" by (simp add: less_mult_imp_div_less)
  then show "unat ((s AND 0xffff) + drop_bit 16 s) = unat s mod 65536 + unat s div 65536"
    using hi lo by (simp add: unat_add_lem [THEN iffD1] unat_word_ariths)
  have "unat s div 65536 \<noteq> 0" using assms hi by (metis unat_eq_zero)
  moreover have "unat s = 65536 * (unat s div 65536) + unat s mod 65536" by simp
  ultimately show "unat s mod 65536 + unat s div 65536 < unat s" by linarith
qed

function fold16 :: "u32 \<Rightarrow> u32" where
  "fold16 s = (if drop_bit 16 s \<noteq> 0 then fold16 ((s AND 0xffff) + drop_bit 16 s) else s)"
  by pat_completeness auto
termination
  by (relation "measure unat") (use fold16_decreases in auto)

declare fold16.simps [simp del]

definition ones_complement_sum :: "bytes \<Rightarrow> u16" where
  "ones_complement_sum d = ucast (fold16 (sum16 d 0))"

definition checksum :: "bytes \<Rightarrow> u16" where
  "checksum d = NOT (ones_complement_sum d)"

definition ip_header_checksum :: "bytes \<Rightarrow> u16 \<times> bytes" where
  "ip_header_checksum header = (
     if length header < 20 then (0, header)
     else
       let ihl = unat (header ! 0 AND 0x0f) * 4
       in if length header < ihl then (0, header)
          else
            let header = header[10 := 0]; header = header[11 := 0]
            in (checksum (take ihl header), header))"

text \<open>The common end of the transport checksums: both sums, folded and inverted.\<close>

definition pseudo_checksum :: "bytes \<Rightarrow> bytes \<Rightarrow> u16" where
  "pseudo_checksum pseudo body = (
     let s = (ucast (ones_complement_sum pseudo) :: u32);
         s = s + ucast (ones_complement_sum body)
     in NOT (ucast (fold16 s)))"

definition pseudo_v4 :: "bytes \<Rightarrow> nat \<Rightarrow> bytes" where
  "pseudo_v4 packet tcp_len = (
     let pseudo = replicate 12 0;
         pseudo = write_at 0 (slice 12 16 packet) pseudo;
         pseudo = write_at 4 (slice 16 20 packet) pseudo;
         pseudo = pseudo[8 := 0];
         pseudo = pseudo[9 := packet ! 9]
     in write_at 10 (to_be16 (of_nat tcp_len)) pseudo)"

definition tcp_checksum_v4 :: "bytes \<Rightarrow> nat \<Rightarrow> u16" where
  "tcp_checksum_v4 packet tcp_offset = (
     if length packet < tcp_offset + 20 then 0
     else
       let tcp_len = length packet - tcp_offset;
           tcp_buf = drop tcp_offset packet;
           tcp_buf = tcp_buf[16 := 0];
           tcp_buf = tcp_buf[17 := 0]
       in pseudo_checksum (pseudo_v4 packet tcp_len) tcp_buf)"

definition pseudo_v6 :: "bytes \<Rightarrow> nat \<Rightarrow> u8 \<Rightarrow> bytes" where
  "pseudo_v6 packet l4_len next_header = (
     let pseudo = replicate 40 0;
         pseudo = write_at 0 (slice 8 24 packet) pseudo;
         pseudo = write_at 16 (slice 24 40 packet) pseudo;
         pseudo = write_at 32 (to_be32 (of_nat l4_len)) pseudo;
         pseudo = write_at 36 [0, 0, 0] pseudo
     in pseudo[39 := next_header])"

text \<open>The slices \<open>packet[8..24]\<close> and \<open>packet[24..40]\<close> panic on a shorter packet.\<close>

definition tcp_checksum_v6_with_proto :: "bytes \<Rightarrow> nat \<Rightarrow> u8 \<Rightarrow> (unit, u16) outcome" where
  "tcp_checksum_v6_with_proto packet l4_off next_header = (
     if length packet < l4_off + 20 then Ok 0
     else if length packet < 40 then Panic
     else
       let l4_len = length packet - l4_off;
           l4_buf = drop l4_off packet;
           l4_buf = l4_buf[16 := 0];
           l4_buf = l4_buf[17 := 0]
       in Ok (pseudo_checksum (pseudo_v6 packet l4_len next_header) l4_buf))"

definition tcp_checksum_v6 :: "bytes \<Rightarrow> nat \<Rightarrow> (unit, u16) outcome" where
  "tcp_checksum_v6 packet tcp_offset = tcp_checksum_v6_with_proto packet tcp_offset 6"

definition icmp_checksum :: "bytes \<Rightarrow> u16 \<times> bytes" where
  "icmp_checksum icmp = (
     if length icmp < 4 then (0, icmp)
     else let icmp = icmp[2 := 0]; icmp = icmp[3 := 0] in (checksum icmp, icmp))"

definition icmpv6_checksum :: "bytes \<Rightarrow> u16 \<times> bytes" where
  "icmpv6_checksum pkt = (
     if length pkt < 40 + 4 then (0, pkt)
     else
       let icmp_len = (of_nat (length pkt - 40) :: u32);
           pseudo = replicate 40 0;
           pseudo = write_at 0 (slice 8 24 pkt) pseudo;
           pseudo = write_at 16 (slice 24 40 pkt) pseudo;
           pseudo = write_at 32 (to_be32 icmp_len) pseudo;
           pseudo = pseudo[39 := 58];
           pkt = pkt[42 := 0];
           pkt = pkt[43 := 0]
       in (pseudo_checksum pseudo (drop 40 pkt), pkt))"

text \<open>\<open>p[i] = (cs >> 8) as u8; p[i + 1] = cs as u8;\<close>, how every caller stores a checksum.\<close>

definition store16 :: "nat \<Rightarrow> u16 \<Rightarrow> bytes \<Rightarrow> bytes" where
  "store16 i cs p = p[i := ucast (drop_bit 8 cs), i + 1 := ucast cs]"

section \<open>The sum as a number\<close>

text \<open>The mathematical sum of the 16-bit groups, and its ones-complement residue in \<open>0..65535\<close>.\<close>

fun word_sum :: "bytes \<Rightarrow> nat" where
  "word_sum [] = 0"
| "word_sum [a] = 256 * unat a"
| "word_sum (a # b # rest) = 256 * unat a + unat b + word_sum rest"

definition residue :: "nat \<Rightarrow> nat" where
  "residue n = (if n = 0 then 0 else (n - 1) mod 65535 + 1)"

lemma u8_less: "unat (b :: u8) < 256"
  using unsigned_less [of b, where 'a = nat] by simp

lemma unat_be16: "unat (from_be [a, b] :: u16) = 256 * unat a + unat b"
proof -
  have "(from_be [a, b] :: u16) = word_of_nat (256 * unat a + unat b)"
  proof -
    have "push_bit 8 (ucast a) OR ucast b = (push_bit 8 (ucast a) + ucast b :: u16)"
      by (rule disjunctive_add [symmetric]) (auto simp: bit_simps dest: u8_bit_high)
    then show ?thesis by (simp add: push_bit_eq_mult mult.commute)
  qed
  moreover have "256 * unat a + unat b < 65536" using u8_less [of a] u8_less [of b] by linarith
  ultimately show ?thesis by (simp add: unat_of_nat take_bit_nat_eq_self del: of_nat_add of_nat_mult)
qed

lemma word_sum_append:
  "even (length xs) \<Longrightarrow> word_sum (xs @ ys) = word_sum xs + word_sum ys"
  by (induction xs rule: word_sum.induct) auto

lemma word_sum_be16 [simp]: "word_sum (to_be16 c) = unat c"
proof -
  have "to_be16 c = [to_be16 c ! 0, to_be16 c ! 1]" by (simp add: to_be16_def numeral_eq_Suc)
  then obtain a b where ab: "to_be16 c = [a, b]" by metis
  have "c = from_be [a, b]" using from_be_to_be(1) [of c] ab by simp
  then show ?thesis using ab unat_be16 [of a b] by simp
qed

lemma word_sum_zeros [simp]: "word_sum (replicate n 0) = 0"
  by (induction n rule: less_induct) (metis (no_types, lifting) gr0_conv_Suc less_Suc_eq
      less_nat_zero_code mult_zero_right not0_implies_Suc replicate.simps unat_0 word_sum.simps
      add_cancel_left_left add_0)

lemma word_sum_bound: "word_sum d \<le> 65535 * ((length d + 1) div 2)"
proof (induction d rule: word_sum.induct)
  case (2 a)
  then show ?case using u8_less [of a] by simp
next
  case (3 a b rest)
  have "256 * unat a + unat b \<le> 65535" using u8_less [of a] u8_less [of b] by linarith
  then show ?case using 3 by simp
qed simp

lemma unat_sum16:
  "unat s + word_sum d < 2 ^ 32 \<Longrightarrow> unat (sum16 d s) = unat s + word_sum d"
proof (induction d s rule: sum16.induct)
  case (2 a s)
  have "unat (push_bit 8 (ucast a) :: u32) = 256 * unat a"
    using u8_less [of a] by (simp add: push_bit_eq_mult unat_word_ariths unat_ucast_up)
  then show ?case using 2 by (simp add: unat_word_ariths)
next
  case (3 a b rest s)
  have w: "unat (ucast (from_be [a, b] :: u16) :: u32) = 256 * unat a + unat b"
    by (simp add: unat_ucast_up unat_be16 del: from_be.simps)
  then have "unat (s + ucast (from_be [a, b] :: u16)) = unat s + (256 * unat a + unat b)"
    using 3 by (simp add: unat_word_ariths del: from_be.simps)
  then show ?case using 3 by (simp del: from_be.simps)
qed simp

lemma residue_fold: "0 < n \<Longrightarrow> residue (n mod 65536 + n div 65536) = residue n"
proof -
  assume n: "0 < n"
  define h l where "h = n div 65536" and "l = n mod 65536"
  have eq: "n = 65536 * h + l" by (simp add: h_def l_def)
  then have pos: "0 < l + h" using n by auto
  have "n - 1 = (l + h - 1) + 65535 * h" using eq pos by simp
  then have "(n - 1) mod 65535 = (l + h - 1) mod 65535" by simp
  then show ?thesis using n pos by (simp add: residue_def h_def l_def)
qed

lemma residue_small: "n < 65536 \<Longrightarrow> residue n = n"
  by (cases "n = 0") (auto simp: residue_def)

lemma unat_fold16: "unat (fold16 s) = residue (unat s)"
proof (induction s rule: fold16.induct)
  case (1 s)
  show ?case
  proof (cases "drop_bit 16 s = 0")
    case True
    then have "unat s div 65536 = 0" using unat_drop_bit [of 16 s] by simp
    then have "unat s < 65536" by (simp add: div_eq_0_iff)
    then show ?thesis using True by (simp add: fold16.simps [of s] residue_small)
  next
    case False
    then have "0 < unat s" by (metis drop_bit_of_0 gr0I unat_eq_zero)
    then show ?thesis
      using 1 [OF False] False fold16_decreases(1) [OF False] residue_fold [of "unat s"]
      by (simp add: fold16.simps [of s])
  qed
qed

lemma residue_less: "residue n < 65536"
  by (simp add: residue_def)

lemma residue_add: "residue (residue a + residue b) = residue (a + b)"
proof (cases "a = 0 \<or> b = 0")
  case True
  then show ?thesis by (auto simp: residue_def)
next
  case False
  then obtain x y where xy: "a = Suc x" "b = Suc y" by (metis not0_implies_Suc)
  have "(x mod 65535 + y mod 65535 + 1) mod 65535 = (x + y + 1) mod 65535"
    by (metis mod_add_eq mod_add_left_eq)
  then show ?thesis by (simp add: residue_def xy)
qed

lemma unat_ones_complement_sum:
  assumes "length d \<le> 131072"
  shows "unat (ones_complement_sum d) = residue (word_sum d)"
proof -
  have "(length d + 1) div 2 \<le> 65536" using assms by simp
  then have "65535 * ((length d + 1) div 2) \<le> 65535 * 65536" by (rule mult_le_mono2)
  then have "word_sum d < 2 ^ 32" using word_sum_bound [of d] by simp
  then have "unat (fold16 (sum16 d 0)) = residue (word_sum d)"
    using unat_sum16 [of 0 d] by (simp add: unat_fold16)
  then show ?thesis
    using residue_less [of "word_sum d"]
    by (simp add: ones_complement_sum_def unsigned_ucast_eq take_bit_nat_eq_self)
qed

lemma residue_complement: "residue (n + (65535 - residue n)) = 65535"
proof (cases "n = 0")
  case False
  have le: "residue n \<le> 65535" using residue_less [of n] by simp
  have "n = residue n + 65535 * ((n - 1) div 65535)"
    using False by (simp add: residue_def)
  then have "n + (65535 - residue n) = 65535 * ((n - 1) div 65535 + 1)" using le by simp
  moreover have "residue (65535 * (q + 1)) = 65535" for q
  proof -
    have "65535 * (q + 1) - 1 = 65534 + 65535 * q" by simp
    then show ?thesis by (simp add: residue_def)
  qed
  ultimately show ?thesis by simp
qed (simp add: residue_def)

lemma unat_not16: "unat (NOT (x :: u16)) = 65535 - unat x"
proof -
  have "NOT x = - x - 1" by (simp add: not_eq_complement)
  then have "NOT x = 65535 - x" by simp
  moreover have "x \<le> 65535" using unsigned_less [of x, where 'a = nat] by (simp add: word_le_nat_alt)
  ultimately show ?thesis by (simp add: unat_sub)
qed

text \<open>The checksum written at an even place where the bytes were zero completes the sum.\<close>

lemma word_sum_insert:
  assumes "even (length pre)"
  shows "word_sum (pre @ to_be16 c @ post) = word_sum (pre @ [0, 0] @ post) + unat c"
  using assms by (simp add: word_sum_append)

lemma store16_append:
  assumes "length pre = i"
  shows "store16 i c (pre @ x # y # post) = pre @ to_be16 c @ post"
  using assms by (simp add: store16_def to_be16_def list_update_append numeral_eq_Suc)

lemma ones_complement_of_checksum:
  assumes "even (length pre)" "length (pre @ [0, 0] @ post) \<le> 131072"
  shows "ones_complement_sum (pre @ to_be16 (checksum (pre @ [0, 0] @ post)) @ post) = 0xFFFF"
proof -
  let ?z = "pre @ [0, 0] @ post"
  have "unat (checksum ?z) = 65535 - residue (word_sum ?z)"
    unfolding checksum_def unat_not16 using unat_ones_complement_sum [OF assms(2)] by simp
  then have "unat (ones_complement_sum (pre @ to_be16 (checksum ?z) @ post)) = 65535"
    using assms residue_complement [of "word_sum ?z"]
    by (subst unat_ones_complement_sum) (simp_all add: word_sum_insert)
  then show ?thesis by (simp add: word_unat_eq_iff)
qed

end
