(* ===== verification/CompatRouter.thy ===== *)
theory CompatRouter
  imports CompatChecksum
begin

text \<open>
  The router behaviour of \<open>ipv8-compat\<close>: TTL and multicast (\<open>ttl.rs\<close>), TCP MSS
  clamping (\<open>mss.rs\<close>) and ICMP errors (\<open>icmp.rs\<close>). A function that writes the packet returns it; \<open>Panic\<close> can only come
  from the IPv6 transport checksum.
\<close>

section \<open>TTL and multicast\<close>

definition decrement_ttl :: "bytes \<Rightarrow> bytes \<times> bool" where
  "decrement_ttl p = (
     if ip_version p = 4 then
       (if length p < IPV4_MIN_HDR then (p, False)
        else
          let ttl = ipv4_ttl p
          in if ttl = 0 then (p, False)
             else
               let new_ttl = ttl - 1;
                   p = set_ipv4_ttl p new_ttl;
                   (cs, p) = ip_header_checksum p;
                   p = (if length p \<ge> 12 then store16 10 cs p else p)
               in (p, new_ttl > 0))
     else if ip_version p = 6 then
       (if length p < IPV6_HDR then (p, False)
        else
          let hl = ipv6_hop_limit p
          in if hl = 0 then (p, False)
             else let new_hl = hl - 1 in (set_ipv6_hop_limit p new_hl, new_hl > 0))
     else (p, False))"

definition is_multicast_or_broadcast :: "bytes \<Rightarrow> bool" where
  "is_multicast_or_broadcast p = (
     if ip_version p = 4 then
       (case ipv4_dst p of
          None \<Rightarrow> False
        | Some o' \<Rightarrow>
            if o' ! 0 AND 0xf0 = 0xe0 then True
            else if o' = [255, 255, 255, 255] then True
            else if o' ! 3 = 255 \<and> o' ! 0 \<noteq> 0 then True
            else False)
     else if ip_version p = 6 then
       (case ipv6_dst p of None \<Rightarrow> False | Some o' \<Rightarrow> o' ! 0 = 0xff)
     else False)"

section \<open>TCP MSS clamping\<close>

definition TCP_FLAG_SYN :: u8 where [const_defs]: "TCP_FLAG_SYN = 0x02"
definition OPT_KIND_MSS :: u8 where [const_defs]: "OPT_KIND_MSS = 2"
definition OPT_KIND_NOP :: u8 where [const_defs]: "OPT_KIND_NOP = 1"
definition OPT_KIND_EOL :: u8 where [const_defs]: "OPT_KIND_EOL = 0"

definition recompute_checksums :: "bytes \<Rightarrow> nat \<Rightarrow> (unit, bytes) outcome" where
  "recompute_checksums packet l4_off = (
     if ip_version packet = 4 then
       (let (cs, header) = ip_header_checksum (take l4_off packet);
            packet = header @ drop l4_off packet;
            packet = store16 10 cs packet;
            tcp_cs = tcp_checksum_v4 packet l4_off
        in Ok (store16 (l4_off + 16) tcp_cs packet))
     else if ip_version packet = 6 then
       (case tcp_checksum_v6 packet l4_off of
          Ok tcp_cs \<Rightarrow> Ok (store16 (l4_off + 16) tcp_cs packet)
        | Err e \<Rightarrow> Err e
        | Panic \<Rightarrow> Panic)
     else Ok packet)"

lemma option_step: "b \<noteq> (0 :: u8) \<Longrightarrow> \<not> e \<le> Suc p \<Longrightarrow> e - (p + unat b) < e - p"
proof -
  assume b: "b \<noteq> 0" and e: "\<not> e \<le> Suc p"
  have "unat b \<noteq> 0" using b by (simp add: unat_eq_zero)
  then show ?thesis using e by linarith
qed

text \<open>The walk over the TCP options from \<open>pos\<close> to \<open>opts_end\<close>.\<close>

function clamp_loop :: "bytes \<Rightarrow> u16 \<Rightarrow> nat \<Rightarrow> nat \<Rightarrow> nat \<Rightarrow> (unit, bytes \<times> bool) outcome" where
  "clamp_loop packet target l4_off opts_end pos = (
     if pos \<ge> opts_end then Ok (packet, False)
     else if packet ! pos = OPT_KIND_EOL then Ok (packet, False)
     else if packet ! pos = OPT_KIND_NOP then clamp_loop packet target l4_off opts_end (pos + 1)
     else if pos + 1 \<ge> opts_end then Ok (packet, False)
     else if packet ! (pos + 1) = 0 \<or> pos + unat (packet ! (pos + 1)) > opts_end
       then Ok (packet, False)
     else if packet ! pos = OPT_KIND_MSS \<and> packet ! (pos + 1) = 4 then
       (let cur_mss = from_be [packet ! (pos + 2), packet ! (pos + 3)]
        in if cur_mss > target
           then (case recompute_checksums (store16 (pos + 2) target packet) l4_off of
                   Ok packet \<Rightarrow> Ok (packet, True)
                 | Err e \<Rightarrow> Err e
                 | Panic \<Rightarrow> Panic)
           else Ok (packet, True))
     else clamp_loop packet target l4_off opts_end (pos + unat (packet ! (pos + 1))))"
  by pat_completeness auto
termination
  by (relation "measure (\<lambda>(_, _, _, opts_end, pos). opts_end - pos)") (auto intro: option_step)

declare clamp_loop.simps [simp del]

definition clamp_mss :: "bytes \<Rightarrow> u16 \<Rightarrow> (unit, bytes \<times> bool) outcome" where
  "clamp_mss packet target_mss = (
     let (proto, l4_off) = l4_offset packet
     in if proto \<noteq> 6 then Ok (packet, False)
        else if length packet < l4_off + TCP_MIN_HDR then Ok (packet, False)
        else
          let flags = packet ! (l4_off + 13)
          in if flags AND TCP_FLAG_SYN = 0 then Ok (packet, False)
             else
               let data_off = unat (drop_bit 4 (packet ! (l4_off + 12)) AND 0x0f) * 4
               in if data_off < TCP_MIN_HDR \<or> length packet < l4_off + data_off then Ok (packet, False)
                  else clamp_loop packet target_mss l4_off (l4_off + data_off) (l4_off + TCP_MIN_HDR))"

function read_loop :: "bytes \<Rightarrow> nat \<Rightarrow> nat \<Rightarrow> u16 option" where
  "read_loop packet opts_end pos = (
     if pos \<ge> opts_end then None
     else if packet ! pos = OPT_KIND_EOL then None
     else if packet ! pos = OPT_KIND_NOP then read_loop packet opts_end (pos + 1)
     else if pos + 1 \<ge> opts_end then None
     else if packet ! (pos + 1) = 0 \<or> pos + unat (packet ! (pos + 1)) > opts_end then None
     else if packet ! pos = OPT_KIND_MSS \<and> packet ! (pos + 1) = 4
       then Some (from_be [packet ! (pos + 2), packet ! (pos + 3)])
     else read_loop packet opts_end (pos + unat (packet ! (pos + 1))))"
  by pat_completeness auto
termination
  by (relation "measure (\<lambda>(_, opts_end, pos). opts_end - pos)") (auto intro: option_step)

declare read_loop.simps [simp del]

definition read_mss :: "bytes \<Rightarrow> u16 option" where
  "read_mss packet = (
     let (proto, l4_off) = l4_offset packet
     in if proto \<noteq> 6 \<or> length packet < l4_off + TCP_MIN_HDR then None
        else
          let data_off = unat (drop_bit 4 (packet ! (l4_off + 12)) AND 0x0f) * 4
          in if data_off < TCP_MIN_HDR \<or> length packet < l4_off + data_off then None
             else read_loop packet (l4_off + data_off) (l4_off + TCP_MIN_HDR))"

section \<open>ICMP errors\<close>

definition ICMP4_TYPE_TIME_EXCEEDED :: u8 where [const_defs]: "ICMP4_TYPE_TIME_EXCEEDED = 11"
definition ICMP4_TYPE_DEST_UNREACH :: u8 where [const_defs]: "ICMP4_TYPE_DEST_UNREACH = 3"
definition ICMP4_CODE_TTL_EXPIRED :: u8 where [const_defs]: "ICMP4_CODE_TTL_EXPIRED = 0"
definition ICMP4_CODE_FRAG_NEEDED :: u8 where [const_defs]: "ICMP4_CODE_FRAG_NEEDED = 4"
definition ICMP6_TYPE_TIME_EXCEEDED :: u8 where [const_defs]: "ICMP6_TYPE_TIME_EXCEEDED = 3"
definition ICMP6_TYPE_PACKET_TOO_BIG :: u8 where [const_defs]: "ICMP6_TYPE_PACKET_TOO_BIG = 2"
definition ICMP6_CODE_TTL_EXPIRED :: u8 where [const_defs]: "ICMP6_CODE_TTL_EXPIRED = 0"

text \<open>The outer IPv4 packet around an ICMP message, as both IPv4 generators build it.\<close>

definition wrap_icmp_v4 :: "bytes \<Rightarrow> bytes \<Rightarrow> bytes \<Rightarrow> bytes" where
  "wrap_icmp_v4 icmp our_addr src = (
     let total_len = IPV4_MIN_HDR + length icmp;
         pkt = replicate total_len 0;
         pkt = pkt[0 := 0x45];
         pkt = write_at 2 (to_be16 (of_nat total_len)) pkt;
         pkt = pkt[8 := 64];
         pkt = pkt[9 := 1];
         pkt = set_ipv4_src pkt our_addr;
         pkt = set_ipv4_dst pkt src;
         (ip_cs, pkt) = ip_header_checksum pkt;
         pkt = store16 10 ip_cs pkt
     in write_at IPV4_MIN_HDR icmp pkt)"

definition generate_time_exceeded_v4 :: "bytes \<Rightarrow> bytes \<Rightarrow> bytes option" where
  "generate_time_exceeded_v4 original our_addr = (
     if ip_version original \<noteq> 4 \<or> length original < IPV4_MIN_HDR then None
     else case ipv4_src original of
       None \<Rightarrow> None
     | Some src \<Rightarrow>
         let payload_end = min (ipv4_ihl original + 8) (length original);
             payload = take payload_end original;
             icmp = replicate (8 + length payload) 0;
             icmp = icmp[0 := ICMP4_TYPE_TIME_EXCEEDED];
             icmp = icmp[1 := ICMP4_CODE_TTL_EXPIRED];
             icmp = write_at 8 payload icmp;
             (cs, icmp) = icmp_checksum icmp;
             icmp = store16 2 cs icmp
         in Some (wrap_icmp_v4 icmp our_addr src))"

definition generate_frag_needed_v4 :: "bytes \<Rightarrow> bytes \<Rightarrow> u16 \<Rightarrow> bytes option" where
  "generate_frag_needed_v4 original our_addr mtu = (
     if ip_version original \<noteq> 4 \<or> length original < IPV4_MIN_HDR then None
     else case ipv4_src original of
       None \<Rightarrow> None
     | Some src \<Rightarrow>
         let payload_end = min (ipv4_ihl original + 8) (length original);
             payload = take payload_end original;
             icmp = replicate (8 + length payload) 0;
             icmp = icmp[0 := ICMP4_TYPE_DEST_UNREACH];
             icmp = icmp[1 := ICMP4_CODE_FRAG_NEEDED];
             icmp = write_at 6 (to_be16 mtu) icmp;
             icmp = write_at 8 payload icmp;
             (cs, icmp) = icmp_checksum icmp;
             icmp = store16 2 cs icmp
         in Some (wrap_icmp_v4 icmp our_addr src))"

definition wrap_icmp_v6 :: "bytes \<Rightarrow> bytes \<Rightarrow> bytes \<Rightarrow> bytes" where
  "wrap_icmp_v6 icmp our_addr src = (
     let total_len = IPV6_HDR + length icmp;
         pkt = replicate total_len 0;
         pkt = pkt[0 := 0x60];
         pkt = write_at 4 (to_be16 (of_nat (length icmp))) pkt;
         pkt = pkt[6 := 58];
         pkt = pkt[7 := 64];
         pkt = set_ipv6_src pkt our_addr;
         pkt = set_ipv6_dst pkt src;
         pkt = write_at IPV6_HDR icmp pkt;
         (cs, pkt) = icmpv6_checksum pkt
     in store16 42 cs pkt)"

definition generate_time_exceeded_v6 :: "bytes \<Rightarrow> bytes \<Rightarrow> bytes option" where
  "generate_time_exceeded_v6 original our_addr = (
     if ip_version original \<noteq> 6 \<or> length original < IPV6_HDR then None
     else case ipv6_src original of
       None \<Rightarrow> None
     | Some src \<Rightarrow>
         let payload_end = min (IPV6_HDR + 8) (length original);
             payload = take payload_end original;
             icmp = replicate (8 + length payload) 0;
             icmp = icmp[0 := ICMP6_TYPE_TIME_EXCEEDED];
             icmp = icmp[1 := ICMP6_CODE_TTL_EXPIRED];
             icmp = write_at 8 payload icmp
         in Some (wrap_icmp_v6 icmp our_addr src))"

definition generate_packet_too_big_v6 :: "bytes \<Rightarrow> bytes \<Rightarrow> u32 \<Rightarrow> bytes option" where
  "generate_packet_too_big_v6 original our_addr mtu = (
     if ip_version original \<noteq> 6 \<or> length original < IPV6_HDR then None
     else case ipv6_src original of
       None \<Rightarrow> None
     | Some src \<Rightarrow>
         let payload_end = min (IPV6_HDR + 8) (length original);
             payload = take payload_end original;
             icmp = replicate (8 + length payload) 0;
             icmp = icmp[0 := ICMP6_TYPE_PACKET_TOO_BIG];
             icmp = icmp[1 := 0];
             icmp = write_at 4 (to_be32 mtu) icmp;
             icmp = write_at 8 payload icmp
         in Some (wrap_icmp_v6 icmp our_addr src))"

section \<open>TTL: functional behaviour\<close>

lemma length_store16 [simp, wire]: "length (store16 i c p) = length p"
  by (simp add: store16_def)

lemma nth_store16_other: "j \<noteq> i \<Longrightarrow> j \<noteq> i + 1 \<Longrightarrow> store16 i c p ! j = p ! j"
  by (simp add: store16_def)

lemma split_at_two:
  assumes "i + 1 < length p"
  shows "p = take i p @ [p ! i, p ! (i + 1)] @ drop (i + 2) p"
  using assms id_take_nth_drop [of i p] Cons_nth_drop_Suc [of "i + 1" p] by simp

lemma store16_zeroed:
  assumes "i + 1 < length p"
  shows "store16 i c (p[i := 0, i + 1 := 0]) = take i p @ to_be16 c @ drop (i + 2) p"
    "p[i := 0, i + 1 := 0] = take i p @ [0, 0] @ drop (i + 2) p"
proof -
  have l: "length (take i p) = i" using assms by simp
  show z: "p[i := 0, i + 1 := 0] = take i p @ [0, 0] @ drop (i + 2) p"
    using split_at_two [OF assms] l by (metis (no_types, lifting) append_Cons append_Nil
        list_update_code(2) list_update_code(3) list_update_length list_update_append
        One_nat_def add.commute add_diff_cancel_left' less_not_refl not_add_less1 plus_1_eq_Suc)
  show "store16 i c (p[i := 0, i + 1 := 0]) = take i p @ to_be16 c @ drop (i + 2) p"
    unfolding z using store16_append [OF l, of c 0 0 "drop (i + 2) p"] by simp
qed

text \<open>Clearing the field, computing the header checksum and storing it makes the header sum to ones.\<close>

lemma header_checksum_stored:
  assumes "20 \<le> length p" "unat (p ! 0 AND 0x0f) * 4 = ihl" "20 \<le> ihl" "ihl \<le> length p"
    and "ip_header_checksum p = (cs, q)"
  shows "ones_complement_sum (take ihl (store16 10 cs q)) = 0xFFFF"
    "store16 10 cs q = take 10 p @ to_be16 cs @ drop 12 p"
proof -
  have cs: "cs = checksum (take ihl q)" "q = p[10 := 0, 11 := 0]"
    using assms by (auto simp: ip_header_checksum_def Let_def)
  have q: "q = take 10 p @ [0, 0] @ drop 12 p" and st: "store16 10 cs q = take 10 p @ to_be16 cs @ drop 12 p"
    using store16_zeroed [of 10 p] assms(1) cs(2) by simp_all
  show "store16 10 cs q = take 10 p @ to_be16 cs @ drop 12 p" by (rule st)
  let ?pre = "take 10 p" and ?post = "take (ihl - 12) (drop 12 p)"
  have l: "length ?pre = 10" using assms(1) by simp
  have "p ! 0 AND 0x0f \<le> 0x0f" by (rule word_and_le1)
  then have "unat (p ! 0 AND 0x0f) \<le> 15" by (simp add: word_le_nat_alt)
  then have small: "ihl \<le> 60" using assms(2) by simp
  have "take ihl q = ?pre @ [0, 0] @ ?post" "take ihl (store16 10 cs q) = ?pre @ to_be16 cs @ ?post"
  proof -
    have cut: "take ihl (?pre @ m @ drop 12 p) = ?pre @ m @ ?post" if "length m = 2" for m
      using that l assms(3) by simp
    show "take ihl q = ?pre @ [0, 0] @ ?post" unfolding q by (rule cut) simp
    show "take ihl (store16 10 cs q) = ?pre @ to_be16 cs @ ?post" unfolding st by (rule cut) simp
  qed
  then show "ones_complement_sum (take ihl (store16 10 cs q)) = 0xFFFF"
    using ones_complement_of_checksum [of ?pre ?post] l small cs(1) by simp
qed

text \<open>
  The TTL step is the router's: on an IPv4 packet with a valid header and a positive TTL it
  lowers the TTL by one, leaves every byte but the TTL and the header checksum, makes the
  checksum of the header correct, and says whether the packet may go on.
\<close>

theorem decrement_ttl_v4:
  assumes "ip_version p = 4" "ipv4_ihl p = ihl" "0 < ihl" "ipv4_ttl p \<noteq> 0"
  shows "\<exists>q. decrement_ttl p = (q, 1 < ipv4_ttl p) \<and> length q = length p
    \<and> ipv4_ttl q = ipv4_ttl p - 1
    \<and> (\<forall>i. i \<noteq> 8 \<and> i \<noteq> 10 \<and> i \<noteq> 11 \<longrightarrow> q ! i = p ! i)
    \<and> ones_complement_sum (take ihl q) = 0xFFFF"
proof -
  have ihl: "20 \<le> length p" "unat (p ! 0 AND 0x0f) * 4 = ihl" "20 \<le> ihl" "ihl \<le> length p"
    using assms(2,3) by (auto simp: ipv4_ihl_def IPV4_MIN_HDR_def Let_def not_less split: if_splits)
  define p1 where "p1 = p[8 := ipv4_ttl p - 1]"
  obtain cs q where h: "ip_header_checksum p1 = (cs, q)" by (metis surj_pair)
  have p1: "length p1 = length p" "p1 ! 0 = p ! 0" by (simp_all add: p1_def)
  have "ones_complement_sum (take ihl (store16 10 cs q)) = 0xFFFF"
    "store16 10 cs q = take 10 p1 @ to_be16 cs @ drop 12 p1"
    using header_checksum_stored [of p1 ihl cs q] ihl h p1 by simp_all
  note st = this
  have len: "length (store16 10 cs q) = length p" unfolding st(2) using ihl(1) p1(1) by simp
  have nth: "store16 10 cs q ! i = p1 ! i" if "i \<noteq> 10" "i \<noteq> 11" for i
  proof -
    have "q = p1[10 := 0, 11 := 0]"
      using h ihl p1 by (auto simp: ip_header_checksum_def Let_def)
    then show ?thesis using that by (simp add: nth_store16_other)
  qed
  have pos: "0 < ipv4_ttl p - 1 \<longleftrightarrow> 1 < ipv4_ttl p"
  proof -
    have "unat (ipv4_ttl p - 1) = unat (ipv4_ttl p) - 1" using assms(4) by (rule unat_minus_one)
    then show ?thesis by (simp add: word_less_nat_alt)
  qed
  have "decrement_ttl p = (store16 10 cs q, 1 < ipv4_ttl p)"
  proof -
    have "length q = length p" using len by simp
    moreover have "set_ipv4_ttl p (ipv4_ttl p - 1) = p1" using ihl(1) by (simp add: set_ipv4_ttl_def p1_def)
    ultimately show ?thesis
      unfolding decrement_ttl_def Let_def using assms(1,4) ihl(1) h pos
      by (simp add: IPV4_MIN_HDR_def)
  qed
  moreover have "ipv4_ttl (store16 10 cs q) = ipv4_ttl p - 1"
    using len ihl(1) nth [of 8] by (simp add: ipv4_ttl_def [of "store16 10 cs q"] p1_def)
  moreover have "\<forall>i. i \<noteq> 8 \<and> i \<noteq> 10 \<and> i \<noteq> 11 \<longrightarrow> store16 10 cs q ! i = p ! i"
    using nth by (simp add: p1_def)
  ultimately show ?thesis using st(1) len by blast
qed

lemma decrement_ttl_v4_witness:
  "\<exists>q. decrement_ttl ([0x45, 0, 0, 20, 0, 0, 0, 0, 64, 17, 0, 0] @ replicate 8 1) = (q, True)
     \<and> ones_complement_sum (take 20 q) = 0xFFFF"
  using decrement_ttl_v4 [of "[0x45, 0, 0, 20, 0, 0, 0, 0, 64, 17, 0, 0] @ replicate 8 1" 20]
  by (auto simp: ip_version_def ipv4_ihl_def ipv4_ttl_def IPV4_MIN_HDR_def)

section \<open>Transport checksums\<close>

lemma pseudo_checksum_completes:
  assumes "even (length pseudo)" "even (length pre)"
    and "length pseudo + length (pre @ [0, 0] @ post) \<le> 131072"
  shows "ones_complement_sum (pseudo @ pre @ to_be16 (pseudo_checksum pseudo (pre @ [0, 0] @ post)) @ post) = 0xFFFF"
proof -
  let ?b = "pre @ [0, 0] @ post"
  define n where "n = word_sum pseudo + word_sum ?b"
  have s: "unat (ones_complement_sum pseudo) = residue (word_sum pseudo)"
    "unat (ones_complement_sum ?b) = residue (word_sum ?b)"
    using assms(3) by (simp_all add: unat_ones_complement_sum)
  have sum: "unat (ucast (ones_complement_sum pseudo) + ucast (ones_complement_sum ?b) :: u32) =
      residue (word_sum pseudo) + residue (word_sum ?b)"
    using s residue_less [of "word_sum pseudo"] residue_less [of "word_sum ?b"]
    by (simp add: unat_word_ariths unat_ucast_up)
  have "unat (fold16 (ucast (ones_complement_sum pseudo) + ucast (ones_complement_sum ?b))) = residue n"
    unfolding unat_fold16 sum n_def by (rule residue_add)
  then have "unat (ucast (fold16 (ucast (ones_complement_sum pseudo) + ucast (ones_complement_sum ?b))) :: u16) =
      residue n"
    using residue_less [of n] by (simp add: unsigned_ucast_eq take_bit_nat_eq_self)
  then have cs: "unat (pseudo_checksum pseudo ?b) = 65535 - residue n"
    unfolding pseudo_checksum_def Let_def unat_not16 by simp
  have "word_sum (pseudo @ pre @ to_be16 (pseudo_checksum pseudo ?b) @ post) = n + (65535 - residue n)"
    using word_sum_insert [OF assms(2), of "pseudo_checksum pseudo ?b" post] cs
    by (simp add: word_sum_append [OF assms(1)] n_def)
  then have "unat (ones_complement_sum (pseudo @ pre @ to_be16 (pseudo_checksum pseudo ?b) @ post)) = 65535"
    using assms(3) residue_complement [of n] by (subst unat_ones_complement_sum) simp_all
  then show ?thesis by (simp add: word_unat_eq_iff)
qed

text \<open>Storing the TCP checksum 16 bytes into the segment at \<open>off\<close>.\<close>

lemma transport_stored:
  assumes "off + 20 \<le> length p" "even (length pseudo)" "length pseudo + length p \<le> 131072"
    and "cs = pseudo_checksum pseudo ((drop off p)[16 := 0, 17 := 0])"
  shows "ones_complement_sum (pseudo @ drop off (store16 (off + 16) cs p)) = 0xFFFF"
proof -
  let ?b = "drop off p"
  have lb: "16 + 1 < length ?b" using assms(1) by simp
  have z: "?b[16 := 0, 17 := 0] = take 16 ?b @ [0, 0] @ drop 18 ?b"
    using store16_zeroed(2) [OF lb] by simp
  have "drop off (store16 (off + 16) cs p) = store16 16 cs ?b"
    by (simp add: store16_def drop_update_swap)
  also have "\<dots> = store16 16 cs (?b[16 := 0, 17 := 0])"
    using lb by (intro nth_equalityI) (auto simp: store16_def nth_list_update)
  also have "\<dots> = take 16 ?b @ to_be16 cs @ drop 18 ?b" using store16_zeroed(1) [OF lb] by simp
  finally show ?thesis
    using pseudo_checksum_completes [OF assms(2), of "take 16 ?b" "drop 18 ?b"] assms(1,3,4)
    unfolding z by simp
qed

lemma pseudo_v4_agree:
  assumes "20 \<le> length p" "length q = length p" "q ! 9 = p ! 9" "\<forall>i. 12 \<le> i \<and> i < 20 \<longrightarrow> q ! i = p ! i"
  shows "pseudo_v4 q n = pseudo_v4 p n"
proof -
  have "slice 12 16 q = slice 12 16 p" "slice 16 20 q = slice 16 20 p"
    using assms by (auto intro!: nth_equalityI simp: slice_nth)
  then show ?thesis using assms(3) by (simp add: pseudo_v4_def)
qed

lemma pseudo_v6_agree:
  assumes "40 \<le> length p" "length q = length p" "\<forall>i < 40. q ! i = p ! i"
  shows "pseudo_v6 q n nh = pseudo_v6 p n nh"
proof -
  have "slice 8 24 q = slice 8 24 p" "slice 24 40 q = slice 24 40 p"
    using assms by (auto intro!: nth_equalityI simp: slice_nth)
  then show ?thesis by (simp add: pseudo_v6_def)
qed

lemma length_pseudo:
  "20 \<le> length p \<Longrightarrow> length (pseudo_v4 p n) = 12" "40 \<le> length p \<Longrightarrow> length (pseudo_v6 p n nh) = 40"
  by (simp_all add: pseudo_v4_def pseudo_v6_def write_at_def)

section \<open>MSS clamping: functional behaviour\<close>

text \<open>The position of the MSS option that both walks find.\<close>

function mss_pos :: "bytes \<Rightarrow> nat \<Rightarrow> nat \<Rightarrow> nat option" where
  "mss_pos p e pos = (
     if pos \<ge> e \<or> p ! pos = OPT_KIND_EOL then None
     else if p ! pos = OPT_KIND_NOP then mss_pos p e (pos + 1)
     else if pos + 1 \<ge> e \<or> p ! (pos + 1) = 0 \<or> pos + unat (p ! (pos + 1)) > e then None
     else if p ! pos = OPT_KIND_MSS \<and> p ! (pos + 1) = 4 then Some pos
     else mss_pos p e (pos + unat (p ! (pos + 1))))"
  by pat_completeness auto
termination
  by (relation "measure (\<lambda>(_, e, pos). e - pos)") (auto intro: option_step)

declare mss_pos.simps [simp del]

definition mss_at :: "bytes \<Rightarrow> nat \<Rightarrow> u16" where
  "mss_at p q = from_be [p ! (q + 2), p ! (q + 3)]"

lemma read_loop_pos: "read_loop p e pos = map_option (mss_at p) (mss_pos p e pos)"
proof (induction p e pos rule: mss_pos.induct)
  case (1 p e pos)
  then show ?case
    by (simp add: read_loop.simps [of p e pos] mss_pos.simps [of p e pos] mss_at_def)
qed

lemma clamp_loop_pos: "clamp_loop p t l4 e pos = (case mss_pos p e pos of
     None \<Rightarrow> Ok (p, False)
   | Some q \<Rightarrow>
       if mss_at p q > t
       then (case recompute_checksums (store16 (q + 2) t p) l4 of
               Ok p' \<Rightarrow> Ok (p', True) | Err e \<Rightarrow> Err e | Panic \<Rightarrow> Panic)
       else Ok (p, True))"
proof (induction p e pos rule: mss_pos.induct)
  case (1 p e pos)
  then show ?case
    by (simp add: clamp_loop.simps [of p t l4 e pos] mss_pos.simps [of p e pos] mss_at_def Let_def)
qed

lemma mss_pos_bounds: "mss_pos p e pos = Some q \<Longrightarrow> pos \<le> q \<and> q + 4 \<le> e"
proof (induction p e pos rule: mss_pos.induct)
  case (1 p e pos)
  have four: "unat (4 :: u8) = 4" by simp
  show ?case
    using 1 four by (subst (asm) (3) mss_pos.simps) (auto split: if_splits)
qed

lemma mss_pos_agree:
  "mss_pos p e pos = Some q \<Longrightarrow> \<forall>i. pos \<le> i \<and> i < q + 2 \<longrightarrow> p' ! i = p ! i \<Longrightarrow> mss_pos p' e pos = Some q"
proof (induction p e pos rule: mss_pos.induct)
  case (1 p e pos)
  have le: "pos \<le> q" using mss_pos_bounds [OF "1.prems"(1)] by simp
  then have same: "p' ! pos = p ! pos" "p' ! (pos + 1) = p ! (pos + 1)" using "1.prems"(2) by auto
  show ?case
    using 1 same
    by (auto simp: mss_pos.simps [of p e pos] mss_pos.simps [of p' e pos] const_defs split: if_splits)
qed

lemma l4_loop_ge: "l4_loop n p nxt off = (r, o') \<Longrightarrow> r \<noteq> 0 \<Longrightarrow> off \<le> o'"
  by (induction n p nxt off rule: l4_loop.induct) (force simp: Let_def split: if_splits)+

lemma l4_loop_agree:
  "l4_loop n p nxt off = (6, o') \<Longrightarrow> length p' = length p \<Longrightarrow> \<forall>i < o'. p' ! i = p ! i \<Longrightarrow>
   l4_loop n p' nxt off = (6, o')"
proof (induction n p nxt off rule: l4_loop.induct)
  case (2 rounds p nxt off)
  have ge: "l4_loop rounds p nxt1 off1 = (6, o') \<Longrightarrow> off1 \<le> o'" for nxt1 off1
    using l4_loop_ge [of rounds p nxt1 off1 6 o'] by simp
  have same: "p' ! off = p ! off \<and> p' ! (off + 1) = p ! (off + 1)" if "off + 2 \<le> o'"
    using "2.prems"(3) that by simp
  show ?case
  proof (cases "nxt = 6 \<or> nxt = 17 \<or> nxt = 58 \<or> nxt = 1")
    case True
    then show ?thesis using "2.prems"(1) by auto
  next
    case False
    consider (opt) "nxt = 0 \<or> nxt = 43 \<or> nxt = 60" | (frag) "nxt = 44" | (ah) "nxt = 51"
      | (other) "\<not> (nxt = 0 \<or> nxt = 43 \<or> nxt = 60 \<or> nxt = 44 \<or> nxt = 51)" by blast
    then show ?thesis
    proof cases
      case opt
      let ?off1 = "off + (unat (p ! (off + 1)) + 1) * 8"
      have g: "\<not> off + 2 > length p" "\<not> ?off1 > length p" "l4_loop rounds p (p ! off) ?off1 = (6, o')"
        using "2.prems"(1) False opt by (auto simp: Let_def split: if_splits)
      then have "off + 2 \<le> o'" using ge [OF g(3)] by simp
      then show ?thesis
        using "2.IH"(1) [OF False opt g(1) refl refl refl g(2,3) "2.prems"(2,3)] False opt g same "2.prems"(2)
        by (auto simp: Let_def)
    next
      case frag
      have g: "\<not> off + 8 > length p" "l4_loop rounds p (p ! off) (off + 8) = (6, o')"
        using "2.prems"(1) frag by (auto split: if_splits)
      then have "off + 2 \<le> o'" using ge [OF g(2)] by simp
      then show ?thesis
        using "2.IH"(2) [OF False _ frag g "2.prems"(2,3)] frag g same "2.prems"(2) by auto
    next
      case ah
      let ?off1 = "off + (unat (p ! (off + 1)) + 2) * 4"
      have g: "\<not> off + 2 > length p" "\<not> ?off1 > length p" "l4_loop rounds p (p ! off) ?off1 = (6, o')"
        using "2.prems"(1) ah by (auto simp: Let_def split: if_splits)
      then have "off + 2 \<le> o'" using ge [OF g(3)] by simp
      then show ?thesis
        using "2.IH"(3) [OF False _ _ ah g(1) refl refl refl g(2,3) "2.prems"(2,3)] ah g same "2.prems"(2)
        by (auto simp: Let_def)
    next
      case other
      then show ?thesis using "2.prems"(1) False by auto
    qed
  qed
qed simp

lemma l4_offset_bounds:
  assumes "l4_offset p = (6, off)"
  shows "ip_version p = 4 \<and> off = ipv4_ihl p \<and> 20 \<le> off \<and> off \<le> length p \<or>
    ip_version p = 6 \<and> 40 \<le> off \<and> 40 \<le> length p"
proof -
  have "40 \<le> off" if "l4_loop 8 p (ipv6_next_header p) 40 = (6, off)"
    using l4_loop_ge [OF that] by simp
  moreover have "20 \<le> ipv4_ihl p \<and> ipv4_ihl p \<le> length p" if "ipv4_ihl p \<noteq> 0"
    using that by (auto simp: ipv4_ihl_def IPV4_MIN_HDR_def Let_def not_less split: if_splits)
  ultimately show ?thesis
    using assms by (auto simp: l4_offset_def IPV6_HDR_def Let_def split: if_splits)
qed

lemma l4_offset_agree:
  assumes "l4_offset p = (6, off)" "length q = length p"
    and "\<forall>i < off. i \<noteq> 10 \<and> i \<noteq> 11 \<or> ip_version p = 6 \<longrightarrow> q ! i = p ! i"
  shows "l4_offset q = (6, off) \<and> ip_version q = ip_version p"
proof -
  note b = l4_offset_bounds [OF assms(1)]
  then have off: "20 \<le> off" "p \<noteq> []" "q \<noteq> []" using assms(2) by auto
  then have q0: "q ! 0 = p ! 0" using assms(3) by simp
  then have ver: "ip_version q = ip_version p"
    using off by (cases p; cases q) (simp_all add: ip_version_def)
  show ?thesis
  proof (cases "ip_version p = 4")
    case True
    have "q ! 9 = p ! 9" using off assms(3) by simp
    then show ?thesis
      using assms(1,2) q0 ver True by (simp add: l4_offset_def ipv4_ihl_def ipv4_proto_def Let_def split: if_splits)
  next
    case False
    then have v6: "ip_version p = 6" and len: "40 \<le> length p" using b by auto
    then have loop: "l4_loop 8 p (ipv6_next_header p) 40 = (6, off)"
      using assms(1) by (simp add: l4_offset_def IPV6_HDR_def)
    have "q ! 6 = p ! 6" using off assms(3) by simp
    then have "ipv6_next_header q = ipv6_next_header p" using assms(2) by (simp add: ipv6_next_header_def)
    then show ?thesis
      using l4_loop_agree [OF loop assms(2)] assms(2,3) v6 ver len by (simp add: l4_offset_def IPV6_HDR_def)
  qed
qed

text \<open>What the receiver of a TCP packet over IPv4 or IPv6 checks.\<close>

definition tcp_sum_ok :: "bytes \<Rightarrow> nat \<Rightarrow> bool" where
  "tcp_sum_ok p off \<longleftrightarrow>
     (if ip_version p = 4
      then ones_complement_sum (pseudo_v4 p (length p - off) @ drop off p) = 0xFFFF
        \<and> ones_complement_sum (take off p) = 0xFFFF
      else ones_complement_sum (pseudo_v6 p (length p - off) 6 @ drop off p) = 0xFFFF)"

lemma recompute_v4:
  assumes "l4_offset p = (6, off)" "ip_version p = 4" "off + 20 \<le> length p" "length p \<le> 65535"
  shows "\<exists>q. recompute_checksums p off = Ok q \<and> length q = length p \<and> tcp_sum_ok q off
    \<and> ip_version q = 4 \<and> (\<forall>i. i \<notin> {10, 11, off + 16, off + 17} \<longrightarrow> q ! i = p ! i)"
proof -
  have off: "off = ipv4_ihl p" "20 \<le> off" using l4_offset_bounds [OF assms(1)] assms(2) by auto
  then have ihl: "unat (p ! 0 AND 0x0f) * 4 = off"
    by (auto simp: ipv4_ihl_def Let_def split: if_splits)
  let ?h = "take off p"
  obtain cs hq where h: "ip_header_checksum ?h = (cs, hq)" by (metis surj_pair)
  have hq: "hq = ?h[10 := 0, 11 := 0]"
    using h off(2) ihl assms(3) by (auto simp: ip_header_checksum_def Let_def)
  have sum: "ones_complement_sum (take off (store16 10 cs hq)) = 0xFFFF"
    using header_checksum_stored(1) [of ?h off cs hq] h off(2) ihl assms(3) by simp
  have lhq: "length hq = off" using hq assms(3) by simp
  define p2 where "p2 = store16 10 cs (hq @ drop off p)"
  have p2: "p2 = store16 10 cs hq @ drop off p" "length p2 = length p"
    using off(2) assms(3) lhq by (auto simp: p2_def store16_def list_update_append)
  have p2_nth: "p2 ! i = p ! i" if "i \<noteq> 10" "i \<noteq> 11" for i
    using that assms(3) by (auto simp: p2(1) hq nth_append nth_store16_other)
  define tcs where "tcs = tcp_checksum_v4 p2 off"
  define q where "q = store16 (off + 16) tcs p2"
  have q_nth: "q ! i = p ! i" if "i \<notin> {10, 11, off + 16, off + 17}" for i
    using that p2_nth by (simp add: q_def nth_store16_other)
  have len: "length q = length p" by (simp add: q_def p2(2))
  have ver: "ip_version q = 4"
    using assms(2) q_nth [of 0] len off(2) assms(3) by (cases q; cases p) (auto simp: ip_version_def)
  have ps: "pseudo_v4 q n = pseudo_v4 p2 n" for n
    by (rule pseudo_v4_agree) (use p2 off(2) assms(3) in \<open>auto simp: q_def nth_store16_other\<close>)
  have "tcs = pseudo_checksum (pseudo_v4 p2 (length p2 - off)) ((drop off p2)[16 := 0, 17 := 0])"
    using assms(3) p2(2) by (simp add: tcs_def tcp_checksum_v4_def Let_def)
  then have tcp: "ones_complement_sum (pseudo_v4 p2 (length p2 - off) @ drop off q) = 0xFFFF"
    unfolding q_def by (intro transport_stored) (use assms p2(2) off(2) in \<open>simp_all add: length_pseudo\<close>)
  have "take off q = take off (store16 10 cs hq)"
    using off(2) assms(3) by (simp add: q_def store16_def p2(1) hq take_update_cancel)
  then have "tcp_sum_ok q off"
    using ver tcp sum len p2(2) by (simp add: tcp_sum_ok_def ps)
  moreover have "recompute_checksums p off = Ok q"
    using assms(2) h by (simp add: recompute_checksums_def q_def tcs_def p2_def Let_def)
  ultimately show ?thesis using len ver q_nth by blast
qed

lemma recompute_v6:
  assumes "ip_version p = 6" "40 \<le> off" "off + 20 \<le> length p" "length p \<le> 65575"
  shows "\<exists>q. recompute_checksums p off = Ok q \<and> length q = length p \<and> tcp_sum_ok q off
    \<and> ip_version q = 6 \<and> (\<forall>i. i \<notin> {off + 16, off + 17} \<longrightarrow> q ! i = p ! i)"
proof -
  define tcs where "tcs = pseudo_checksum (pseudo_v6 p (length p - off) 6) ((drop off p)[16 := 0, 17 := 0])"
  define q where "q = store16 (off + 16) tcs p"
  have q_nth: "q ! i = p ! i" if "i \<notin> {off + 16, off + 17}" for i
    using that by (simp add: q_def nth_store16_other)
  have len: "length q = length p" by (simp add: q_def)
  have ver: "ip_version q = 6"
    using assms q_nth [of 0] len by (cases q; cases p) (auto simp: ip_version_def)
  have ps: "pseudo_v6 q n nh = pseudo_v6 p n nh" for n nh
    by (rule pseudo_v6_agree) (use len assms q_nth in auto)
  have "ones_complement_sum (pseudo_v6 p (length p - off) 6 @ drop off q) = 0xFFFF"
    unfolding q_def by (rule transport_stored [OF _ _ _ tcs_def]) (use assms in \<open>simp_all add: length_pseudo\<close>)
  then have "tcp_sum_ok q off" using ver len by (simp add: tcp_sum_ok_def ps)
  moreover have "recompute_checksums p off = Ok q"
    using assms by (simp add: recompute_checksums_def tcp_checksum_v6_def tcp_checksum_v6_with_proto_def
        tcs_def q_def Let_def)
  ultimately show ?thesis using len ver q_nth by blast
qed

lemma be16_bytes: "[ucast (drop_bit 8 c), ucast c] = to_be16 c"
  by (simp add: to_be16_def numeral_eq_Suc)

lemma mss_at_store: "q + 3 < length p \<Longrightarrow> mss_at (store16 (q + 2) t p) q = t"
  using from_be_to_be(1) [of t] by (simp add: mss_at_def store16_def numeral_eq_Suc flip: be16_bytes del: from_be.simps)

text \<open>Rewriting the option and the checksums keeps the packet a TCP packet with the option in place.\<close>

lemma clamp_rewrite:
  assumes "l4_offset p = (6, off)" "off + 20 \<le> q" "q + 4 \<le> length p" "length p \<le> 65535"
  shows "\<exists>p'. recompute_checksums (store16 (q + 2) t p) off = Ok p' \<and> length p' = length p
    \<and> tcp_sum_ok p' off \<and> l4_offset p' = (6, off) \<and> mss_at p' q = t
    \<and> (\<forall>i. i \<notin> {10, 11, off + 16, off + 17, q + 2, q + 3} \<longrightarrow> p' ! i = p ! i)"
proof -
  let ?s = "store16 (q + 2) t p"
  have s_nth: "?s ! i = p ! i" if "i \<notin> {q + 2, q + 3}" for i using that by (simp add: nth_store16_other)
  have b: "ip_version p = 4 \<and> 20 \<le> off \<or> ip_version p = 6 \<and> 40 \<le> off"
    using l4_offset_bounds [OF assms(1)] by auto
  have s: "l4_offset ?s = (6, off)" "ip_version ?s = ip_version p"
    using l4_offset_agree [OF assms(1), of ?s] s_nth assms(2) by simp_all
  have at: "mss_at ?s q = t" by (rule mss_at_store) (use assms in simp)
  obtain p' where p': "recompute_checksums ?s off = Ok p'" "length p' = length p" "tcp_sum_ok p' off"
    "\<forall>i. i \<notin> {off + 16, off + 17} \<and> (ip_version p = 6 \<or> i \<notin> {10, 11}) \<longrightarrow> p' ! i = ?s ! i"
  proof (cases "ip_version p = 4")
    case True
    then show ?thesis using recompute_v4 [OF s(1)] that s(2) assms by auto
  next
    case False
    then have "ip_version p = 6" "40 \<le> off" using b by auto
    then show ?thesis using recompute_v6 [of ?s off] that s(2) assms by auto
  qed
  have "l4_offset p' = (6, off)"
    using l4_offset_agree [OF s(1), of p'] p'(2,4) s(2) by simp
  moreover have "mss_at p' q = t"
    using at p'(4) b assms(2) by (auto simp: mss_at_def)
  moreover have "\<forall>i. i \<notin> {10, 11, off + 16, off + 17, q + 2, q + 3} \<longrightarrow> p' ! i = p ! i"
    using p'(4) s_nth by auto
  ultimately show ?thesis using p' by blast
qed

lemma clamp_mss_cases:
  assumes "clamp_mss p t = Ok (p', True)"
  shows "\<exists>off e q. l4_offset p = (6, off) \<and> mss_pos p e (off + 20) = Some q \<and> e \<le> length p
    \<and> e = off + unat (drop_bit 4 (p ! (off + 12)) AND 0x0f) * 4 \<and> off + 20 \<le> e
    \<and> clamp_loop p t off e (off + 20) = Ok (p', True)"
proof -
  obtain r off where l4: "l4_offset p = (r, off)" by (metis surj_pair)
  define e where "e = off + unat (drop_bit 4 (p ! (off + 12)) AND 0x0f) * 4"
  have c: "r = 6" "off + 20 \<le> e" "e \<le> length p" "clamp_loop p t off e (off + 20) = Ok (p', True)"
    using assms l4 by (auto simp: clamp_mss_def Let_def TCP_MIN_HDR_def e_def split: if_splits)
  then obtain q where "mss_pos p e (off + 20) = Some q"
    by (cases "mss_pos p e (off + 20)") (simp_all add: clamp_loop_pos)
  then show ?thesis using c l4 e_def by blast
qed

lemma read_mss_of_pos:
  assumes "l4_offset p = (6, off)" "e = off + unat (drop_bit 4 (p ! (off + 12)) AND 0x0f) * 4"
    and "off + 20 \<le> e" "e \<le> length p" "mss_pos p e (off + 20) = Some q"
  shows "read_mss p = Some (mss_at p q)"
  using assms by (simp add: read_mss_def TCP_MIN_HDR_def read_loop_pos)

text \<open>
  MSS clamping is exact: when it reports that it handled a TCP SYN, the packet had an MSS
  option \<open>m\<close> and now has \<open>min m target\<close>, the length is the same, a compliant
  packet is untouched, and a rewritten one carries correct IP and TCP checksums.
\<close>

theorem clamp_mss_exact:
  assumes "clamp_mss p t = Ok (p', True)" "length p \<le> 65535"
  shows "\<exists>m. read_mss p = Some m \<and> read_mss p' = Some (min m t) \<and> length p' = length p
    \<and> (m \<le> t \<longrightarrow> p' = p) \<and> (t < m \<longrightarrow> tcp_sum_ok p' (snd (l4_offset p')))"
proof -
  obtain off e q where c: "l4_offset p = (6, off)" "mss_pos p e (off + 20) = Some q" "e \<le> length p"
    "e = off + unat (drop_bit 4 (p ! (off + 12)) AND 0x0f) * 4" "off + 20 \<le> e"
    "clamp_loop p t off e (off + 20) = Ok (p', True)"
    using clamp_mss_cases [OF assms(1)] by blast
  note b = mss_pos_bounds [OF c(2)]
  have m: "read_mss p = Some (mss_at p q)" by (rule read_mss_of_pos [OF c(1,4,5,3,2)])
  show ?thesis
  proof (cases "mss_at p q > t")
    case False
    then have "p' = p" using c(2,6) by (simp add: clamp_loop_pos)
    then show ?thesis using m False by (auto simp: min_def)
  next
    case True
    obtain p1 where p1: "recompute_checksums (store16 (q + 2) t p) off = Ok p1" "length p1 = length p"
      "tcp_sum_ok p1 off" "l4_offset p1 = (6, off)" "mss_at p1 q = t"
      "\<forall>i. i \<notin> {10, 11, off + 16, off + 17, q + 2, q + 3} \<longrightarrow> p1 ! i = p ! i"
      using clamp_rewrite [OF c(1), of q t] b c(3) assms(2) by auto
    have p': "p' = p1" using c(2,6) True p1(1) by (simp add: clamp_loop_pos)
    have off: "20 \<le> off" using l4_offset_bounds [OF c(1)] by auto
    have "mss_pos p1 e (off + 20) = Some q"
      by (rule mss_pos_agree [OF c(2)]) (use p1(6) off in auto)
    moreover have "p1 ! (off + 12) = p ! (off + 12)" using p1(6) b off by simp
    ultimately have "read_mss p1 = Some t"
      using read_mss_of_pos [OF p1(4)] c(3-5) p1(2,5) by simp
    then show ?thesis using m True p1 p' by (auto simp: min_def)
  qed
qed

text \<open>
  Clamping never panics and never changes the length of a packet, whatever bytes it is given.
\<close>

theorem clamp_mss_total:
  assumes "length p \<le> 65535"
  shows "\<exists>p' b. clamp_mss p t = Ok (p', b) \<and> length p' = length p \<and> (\<not> b \<longrightarrow> p' = p)"
proof -
  obtain r off where l4: "l4_offset p = (r, off)" by (metis surj_pair)
  define e where "e = off + unat (drop_bit 4 (p ! (off + 12)) AND 0x0f) * 4"
  show ?thesis
  proof (cases "r = 6 \<and> off + 20 \<le> e \<and> e \<le> length p")
    case False
    then have "clamp_mss p t = Ok (p, False)"
      using l4 by (auto simp: clamp_mss_def Let_def TCP_MIN_HDR_def e_def)
    then show ?thesis by blast
  next
    case True
    have "\<exists>p' b. clamp_loop p t off e (off + 20) = Ok (p', b) \<and> length p' = length p \<and> (\<not> b \<longrightarrow> p' = p)"
    proof (cases "mss_pos p e (off + 20)")
      case None
      then show ?thesis by (intro exI [of _ p] exI [of _ False]) (simp add: clamp_loop_pos)
    next
      case (Some q)
      obtain p1 where "recompute_checksums (store16 (q + 2) t p) off = Ok p1" "length p1 = length p"
        using clamp_rewrite [of p off q t] l4 True mss_pos_bounds [OF Some] assms by auto
      then show ?thesis using Some by (auto simp: clamp_loop_pos)
    qed
    then show ?thesis
      using l4 True by (auto simp: clamp_mss_def Let_def TCP_MIN_HDR_def e_def)
  qed
qed

definition sample_syn :: bytes where
  "sample_syn = [0x45, 0, 0, 44, 0, 0, 0x40, 0, 64, 6, 0, 0, 10, 0, 0, 1, 10, 0, 0, 2] @
     [0, 80, 1, 0, 0, 0, 0, 0, 0, 0, 0, 0, 0x60, 2, 0, 0, 0, 0, 0, 0] @ [2, 4, 5, 180]"

lemma sample_syn_facts:
  "l4_offset sample_syn = (6, 20)" "length sample_syn = 44"
  "mss_pos sample_syn 44 40 = Some 40" "mss_at sample_syn 40 = 1460"
  "unat (drop_bit 4 (sample_syn ! 32) AND 0x0f) * 4 = 24" "sample_syn ! 33 = 2"
  by (simp_all add: sample_syn_def l4_offset_def ip_version_def ipv4_ihl_def ipv4_proto_def mss_at_def
      const_defs mss_pos.simps [of _ 44 40])

lemma clamp_mss_exact_witness:
  "\<exists>p'. clamp_mss sample_syn 1400 = Ok (p', True) \<and> read_mss p' = Some 1400 \<and> length p' = 44"
proof -
  obtain p' where "recompute_checksums (store16 42 1400 sample_syn) 20 = Ok p'"
    using clamp_rewrite [of sample_syn 20 40 1400] sample_syn_facts by auto
  then have "clamp_mss sample_syn 1400 = Ok (p', True)"
    using sample_syn_facts by (simp add: clamp_mss_def const_defs clamp_loop_pos)
  moreover have "read_mss sample_syn = Some 1460"
    using sample_syn_facts by (simp add: read_mss_def const_defs read_loop_pos)
  ultimately show ?thesis
    using clamp_mss_exact [of sample_syn 1400 p'] sample_syn_facts(2) by auto
qed

lemma clamp_mss_total_witness: "\<exists>p' b. clamp_mss [1, 2, 3] 1400 = Ok (p', b) \<and> length p' = 3"
  using clamp_mss_total [of "[1, 2, 3]" 1400] by auto

section \<open>ICMP errors: correct messages\<close>

lemma list_of_4: "length xs = 4 \<Longrightarrow> \<exists>a b c d. xs = [a, b, c, d]"
  by (auto simp: length_Suc_conv numeral_eq_Suc)

lemma replicate_20: "replicate (20 + n) (0 :: u8) =
    [0, 0, 0, 0, 0, 0, 0, 0, 0, 0, 0, 0, 0, 0, 0, 0, 0, 0, 0, 0] @ replicate n 0"
  by (simp add: numeral_eq_Suc)

text \<open>A correct IPv4 packet from \<open>our\<close> to \<open>dst\<close> that carries the ICMP message.\<close>

definition icmp_v4_packet :: "bytes \<Rightarrow> bytes \<Rightarrow> bytes \<Rightarrow> bytes \<Rightarrow> bool" where
  "icmp_v4_packet p our dst icmp \<longleftrightarrow>
     length p = 20 + length icmp \<and> drop 20 p = icmp \<and> ipv4_ihl p = 20 \<and> ipv4_ttl p = 64 \<and> ipv4_proto p = 1
     \<and> ipv4_src p = Some our \<and> ipv4_dst p = Some dst \<and> from_be (slice 2 4 p) = (of_nat (length p) :: u16)
     \<and> ones_complement_sum (take 20 p) = 0xFFFF"

lemma wrap_icmp_v4_ok:
  assumes "length our = 4" "length dst = 4"
  shows "icmp_v4_packet (wrap_icmp_v4 icmp our dst) our dst icmp"
proof -
  obtain a b c d where our: "our = [a, b, c, d]" using list_of_4 [OF assms(1)] by blast
  obtain e f g h where dst: "dst = [e, f, g, h]" using list_of_4 [OF assms(2)] by blast
  obtain x y where t: "to_be16 (of_nat (20 + length icmp)) = [x, y]"
    by (simp add: to_be16_def numeral_eq_Suc)
  define p0 where "p0 = [0x45, 0, x, y, 0, 0, 0, 0, 64, 1, 0, 0, a, b, c, d, e, f, g, h] @ replicate (length icmp) 0"
  obtain cs q where q: "ip_header_checksum p0 = (cs, q)" by (metis surj_pair)
  have built: "set_ipv4_dst (set_ipv4_src ((write_at 2 [x, y] ((replicate (20 + length icmp) 0)[0 := 0x45]))
      [8 := 64, 9 := 1]) our) dst = p0"
    unfolding replicate_20
    by (simp add: set_ipv4_dst_def set_ipv4_src_def write_at_def our dst p0_def numeral_eq_Suc)
  have w: "wrap_icmp_v4 icmp our dst = write_at 20 icmp (store16 10 cs q)"
    using built q t unfolding wrap_icmp_v4_def Let_def IPV4_MIN_HDR_def
    by simp
  have st: "store16 10 cs q = take 10 p0 @ to_be16 cs @ drop 12 p0"
    and sum: "ones_complement_sum (take 20 (store16 10 cs q)) = 0xFFFF"
    using header_checksum_stored [of p0 20 cs q] q by (simp_all add: p0_def)
  obtain u v where cs: "to_be16 cs = [u, v]" by (simp add: to_be16_def numeral_eq_Suc)
  define hd where "hd = [0x45, 0, x, y, 0, 0, 0, 0, 64, 1, u, v, a, b, c, d, e, f, g, h]"
  have st2: "store16 10 cs q = hd @ replicate (length icmp) 0"
    unfolding st cs p0_def hd_def by (simp add: numeral_eq_Suc)
  have p: "wrap_icmp_v4 icmp our dst = hd @ icmp"
    unfolding w st2 by (simp add: write_at_def hd_def)
  have "take 20 (store16 10 cs q) = hd" unfolding st2 by (simp add: hd_def)
  moreover have "from_be [x, y] = (of_nat (20 + length icmp) :: u16)"
    unfolding t [symmetric] by (rule from_be_to_be)
  ultimately show ?thesis
    using sum unfolding icmp_v4_packet_def p
    by (simp add: hd_def ipv4_ihl_def ip_version_def ipv4_ttl_def ipv4_proto_def ipv4_src_def ipv4_dst_def
        our dst slice_def IPV4_MIN_HDR_def del: from_be.simps)
qed

lemma icmp_body:
  assumes "icmp0 = [ty, code, 0, 0] @ rest" "length rest \<le> 65535"
  shows "\<exists>cs. icmp_checksum icmp0 = (cs, icmp0) \<and> store16 2 cs icmp0 = [ty, code] @ to_be16 cs @ rest
    \<and> ones_complement_sum (store16 2 cs icmp0) = 0xFFFF"
proof -
  have c: "icmp_checksum icmp0 = (checksum icmp0, icmp0)"
    using assms(1) by (simp add: icmp_checksum_def Let_def numeral_eq_Suc)
  have s: "store16 2 (checksum icmp0) icmp0 = [ty, code] @ to_be16 (checksum icmp0) @ rest"
    using store16_append [of "[ty, code]" 2 "checksum icmp0" 0 0 rest] assms(1) by simp
  have i: "icmp0 = [ty, code] @ [0, 0] @ rest" using assms(1) by simp
  have "length icmp0 \<le> 131072" using assms by simp
  then have "ones_complement_sum (store16 2 (checksum icmp0) icmp0) = 0xFFFF"
    unfolding s using ones_complement_of_checksum [of "[ty, code]" rest] assms(2) unfolding i [symmetric] by simp
  then show ?thesis using c s by blast
qed

text \<open>
  The ICMPv4 errors are correct: whenever a time-exceeded or fragmentation-needed message is
  generated it goes from our address to the sender of the offending packet, has the right type, carries the
  MTU where RFC 1191 wants it, quotes the IP header and 8 bytes, and both its checksums verify.
\<close>

theorem icmp_v4_errors_correct:
  assumes "length our = 4" "generate_time_exceeded_v4 orig our = Some p"
    "generate_frag_needed_v4 orig our mtu = Some p'"
  shows "\<exists>src quote rest rest'. ipv4_src orig = Some src
    \<and> quote = take (ipv4_ihl orig + 8) orig
    \<and> icmp_v4_packet p our src ([11, 0] @ rest @ [0, 0, 0, 0] @ quote)
    \<and> icmp_v4_packet p' our src ([3, 4] @ rest' @ [0, 0] @ to_be16 mtu @ quote)
    \<and> ones_complement_sum (drop 20 p) = 0xFFFF \<and> ones_complement_sum (drop 20 p') = 0xFFFF"
proof -
  have v: "ip_version orig = 4" "20 \<le> length orig"
    using assms(2) by (auto simp: generate_time_exceeded_v4_def IPV4_MIN_HDR_def split: if_splits)
  define src where "src = [orig ! 12, orig ! 13, orig ! 14, orig ! 15]"
  have src: "ipv4_src orig = Some src" using v by (simp add: ipv4_src_def src_def)
  define quote where "quote = take (min (ipv4_ihl orig + 8) (length orig)) orig"
  have "ipv4_ihl orig \<le> 60"
  proof -
    have "orig ! 0 AND 0x0f \<le> 0x0f" by (rule word_and_le1)
    then have "unat (orig ! 0 AND 0x0f) \<le> 15" by (simp add: word_le_nat_alt)
    then show ?thesis by (simp add: ipv4_ihl_def Let_def)
  qed
  then have lq: "length quote \<le> 68" by (simp add: quote_def)
  have q: "quote = take (ipv4_ihl orig + 8) orig" by (simp add: quote_def min_def)
  have rep: "replicate (8 + n) (0 :: u8) = [0, 0, 0, 0, 0, 0, 0, 0] @ replicate n 0" for n
    by (simp add: numeral_eq_Suc)
  have i1: "write_at 8 quote ((replicate (8 + length quote) 0)[0 := 11, 1 := 0]) =
      [11, 0, 0, 0] @ [0, 0, 0, 0] @ quote"
    unfolding rep by (simp add: write_at_def)
  have i2: "write_at 8 quote (write_at 6 (to_be16 mtu) ((replicate (8 + length quote) 0)[0 := 3, 1 := 4])) =
      [3, 4, 0, 0] @ [0, 0] @ to_be16 mtu @ quote"
    unfolding rep by (simp add: write_at_def numeral_eq_Suc)
  obtain cs where b1: "icmp_checksum ([11, 0, 0, 0] @ [0, 0, 0, 0] @ quote) = (cs, [11, 0, 0, 0] @ [0, 0, 0, 0] @ quote)"
    "store16 2 cs ([11, 0, 0, 0] @ [0, 0, 0, 0] @ quote) = [11, 0] @ to_be16 cs @ [0, 0, 0, 0] @ quote"
    "ones_complement_sum (store16 2 cs ([11, 0, 0, 0] @ [0, 0, 0, 0] @ quote)) = 0xFFFF"
    using icmp_body [of "[11, 0, 0, 0] @ [0, 0, 0, 0] @ quote" 11 0 "[0, 0, 0, 0] @ quote"] lq by auto
  obtain cs' where b2: "icmp_checksum ([3, 4, 0, 0] @ [0, 0] @ to_be16 mtu @ quote) = (cs', [3, 4, 0, 0] @ [0, 0] @ to_be16 mtu @ quote)"
    "store16 2 cs' ([3, 4, 0, 0] @ [0, 0] @ to_be16 mtu @ quote) = [3, 4] @ to_be16 cs' @ [0, 0] @ to_be16 mtu @ quote"
    "ones_complement_sum (store16 2 cs' ([3, 4, 0, 0] @ [0, 0] @ to_be16 mtu @ quote)) = 0xFFFF"
    using icmp_body [of "[3, 4, 0, 0] @ [0, 0] @ to_be16 mtu @ quote" 3 4 "[0, 0] @ to_be16 mtu @ quote"] lq by auto
  have p: "p = wrap_icmp_v4 ([11, 0] @ to_be16 cs @ [0, 0, 0, 0] @ quote) our src"
    using assms(2) v src i1 b1(1,2)
    unfolding generate_time_exceeded_v4_def Let_def quote_def [symmetric] const_defs by simp
  have p': "p' = wrap_icmp_v4 ([3, 4] @ to_be16 cs' @ [0, 0] @ to_be16 mtu @ quote) our src"
    using assms(3) v src i2 b2(1,2)
    unfolding generate_frag_needed_v4_def Let_def quote_def [symmetric] const_defs by simp
  have ls: "length src = 4" by (simp add: src_def)
  note w = wrap_icmp_v4_ok [OF assms(1) ls]
  have "drop 20 p = [11, 0] @ to_be16 cs @ [0, 0, 0, 0] @ quote"
    "drop 20 p' = [3, 4] @ to_be16 cs' @ [0, 0] @ to_be16 mtu @ quote"
    using w unfolding p p' icmp_v4_packet_def by blast+
  then have "ones_complement_sum (drop 20 p) = 0xFFFF" "ones_complement_sum (drop 20 p') = 0xFFFF"
    using b1(2,3) b2(2,3) by simp_all
  then show ?thesis
    using w src q unfolding p p'
    by (intro exI [of _ src] exI [of _ quote] exI [of _ "to_be16 cs"] exI [of _ "to_be16 cs'"]) simp
qed

lemma icmp_v4_errors_correct_witness:
  "\<exists>p p' src rest rest'. generate_time_exceeded_v4 sample_syn [10, 0, 0, 9] = Some p
     \<and> generate_frag_needed_v4 sample_syn [10, 0, 0, 9] 1392 = Some p'
     \<and> icmp_v4_packet p [10, 0, 0, 9] src ([11, 0] @ rest @ [0, 0, 0, 0] @ take 28 sample_syn)
     \<and> icmp_v4_packet p' [10, 0, 0, 9] src ([3, 4] @ rest' @ [0, 0] @ to_be16 1392 @ take 28 sample_syn)"
proof -
  have v: "ip_version sample_syn = 4" "length sample_syn = 44" "ipv4_ihl sample_syn = 20"
    "ipv4_src sample_syn = Some [10, 0, 0, 1]"
    by (simp_all add: sample_syn_def ip_version_def ipv4_ihl_def ipv4_src_def const_defs)
  then have "generate_time_exceeded_v4 sample_syn [10, 0, 0, 9] \<noteq> None"
    "generate_frag_needed_v4 sample_syn [10, 0, 0, 9] 1392 \<noteq> None"
    by (simp_all add: generate_time_exceeded_v4_def generate_frag_needed_v4_def const_defs Let_def
        split: prod.split)
  then obtain p p' where g: "generate_time_exceeded_v4 sample_syn [10, 0, 0, 9] = Some p"
    "generate_frag_needed_v4 sample_syn [10, 0, 0, 9] 1392 = Some p'"
    by blast
  then show ?thesis
    using icmp_v4_errors_correct [OF _ g] g v(3) by auto
qed

end
