(* ===== verification/CompatPipeline.thy ===== *)
theory CompatPipeline
  imports CompatRouter
begin

text \<open>
  ICMPv6 errors of \<open>ipv8-compat/src/icmp.rs\<close> and the packet pipelines of
  \<open>ipv8-compat/src/lib.rs\<close>: what happens to a packet on its way out of and into the
  tunnel, composed from the TTL, MSS and ICMP operations.
\<close>

section \<open>The pipelines\<close>

datatype compat_outcome = Forward | InjectIcmp bytes | Drop

definition auto_target :: "u8 \<Rightarrow> nat \<Rightarrow> u16 option \<Rightarrow> u16" where
  "auto_target ver effective_mtu mss_target = (case mss_target of
     Some t \<Rightarrow> t
   | None \<Rightarrow> if ver = 6 then of_nat (effective_mtu - 60) else of_nat (effective_mtu - 40))"

definition process_outbound ::
  "bytes \<Rightarrow> nat \<Rightarrow> u16 option \<Rightarrow> bytes \<Rightarrow> bytes option \<Rightarrow> (unit, bytes \<times> compat_outcome) outcome" where
  "process_outbound packet effective_mtu mss_target our_addr_v4 our_addr_v6 = (
     let ver = ip_version packet
     in if ver \<noteq> 4 \<and> ver \<noteq> 6 then Ok (packet, Forward)
        else if is_multicast_or_broadcast packet then Ok (packet, Forward)
        else
          let (packet, alive) = decrement_ttl packet
          in if \<not> alive then
               let icmp = (if ver = 4 then generate_time_exceeded_v4 packet our_addr_v4
                           else if ver = 6 then
                             (case our_addr_v6 of None \<Rightarrow> None | Some a6 \<Rightarrow> generate_time_exceeded_v6 packet a6)
                           else None)
               in Ok (packet, case icmp of Some p \<Rightarrow> InjectIcmp p | None \<Rightarrow> Drop)
             else if ver = 4 \<and> ipv4_df_set packet \<and> length packet > effective_mtu then
               Ok (packet, case generate_frag_needed_v4 packet our_addr_v4 (of_nat effective_mtu) of
                             Some icmp \<Rightarrow> InjectIcmp icmp | None \<Rightarrow> Drop)
             else if ver = 6 \<and> length packet > effective_mtu then
               Ok (packet, case our_addr_v6 of
                             None \<Rightarrow> Drop
                           | Some a6 \<Rightarrow> (case generate_packet_too_big_v6 packet a6 (of_nat effective_mtu) of
                                          Some icmp \<Rightarrow> InjectIcmp icmp | None \<Rightarrow> Drop))
             else (case clamp_mss packet (auto_target ver effective_mtu mss_target) of
                     Ok (packet, _) \<Rightarrow> Ok (packet, Forward)
                   | Err e \<Rightarrow> Err e
                   | Panic \<Rightarrow> Panic))"

definition process_inbound :: "bytes \<Rightarrow> nat \<Rightarrow> u16 option \<Rightarrow> (unit, bytes) outcome" where
  "process_inbound packet effective_mtu mss_target = (
     let ver = ip_version packet
     in case clamp_mss packet (auto_target ver effective_mtu mss_target) of
          Ok (packet, _) \<Rightarrow> Ok packet
        | Err e \<Rightarrow> Err e
        | Panic \<Rightarrow> Panic)"

section \<open>ICMPv6 errors: correct messages\<close>

lemma icmpv6_pseudo:
  assumes "44 \<le> length p"
  shows "icmpv6_checksum p = (pseudo_checksum (pseudo_v6 p (length p - 40) 58) ((drop 40 p)[2 := 0, 3 := 0]),
    p[42 := 0, 43 := 0])"
proof -
  have "drop 40 (p[42 := 0, 43 := 0]) = (drop 40 p)[2 := 0, 3 := 0]"
    by (simp add: drop_update_swap)
  moreover have "(write_at 32 m (write_at 16 d (write_at 0 s (replicate 40 0))))[39 := 58] =
      (write_at 36 [0, 0, 0] (write_at 32 m (write_at 16 d (write_at 0 s (replicate 40 0)))))[39 := (58 :: u8)]"
    if "length m = 4" "length s = 16" "length d = 16" for m s d :: bytes
    using that by (simp add: write_at_def numeral_eq_Suc)
  ultimately show ?thesis
    using assms by (simp add: icmpv6_checksum_def pseudo_v6_def Let_def slice_def)
qed

text \<open>A correct IPv6 packet from \<open>our\<close> to \<open>dst\<close> that carries the ICMPv6 message.\<close>

definition icmp_v6_packet :: "bytes \<Rightarrow> bytes \<Rightarrow> bytes \<Rightarrow> bytes \<Rightarrow> bool" where
  "icmp_v6_packet p our dst icmp \<longleftrightarrow>
     length p = 40 + length icmp \<and> drop 40 p = icmp \<and> ip_version p = 6 \<and> ipv6_next_header p = 58
     \<and> ipv6_hop_limit p = 64 \<and> ipv6_src p = Some our \<and> ipv6_dst p = Some dst
     \<and> from_be (slice 4 6 p) = (of_nat (length icmp) :: u16)
     \<and> ones_complement_sum (pseudo_v6 p (length icmp) 58 @ icmp) = 0xFFFF"

lemma wrap_icmp_v6_ok:
  assumes "length our = 16" "length dst = 16" "icmp = [ty, code, 0, 0] @ rest" "length rest \<le> 65535"
  shows "\<exists>cs. icmp_v6_packet (wrap_icmp_v6 icmp our dst) our dst ([ty, code] @ to_be16 cs @ rest)"
proof -
  obtain x y where t: "to_be16 (of_nat (length icmp)) = [x, y]"
    by (simp add: to_be16_def numeral_eq_Suc)
  define h where "h = [0x60, 0, 0, 0, x, y, 58, 64] @ our @ dst"
  have lh: "length h = 40" using assms(1,2) by (simp add: h_def)
  have rep: "replicate (40 + n) (0 :: u8) = [0, 0, 0, 0, 0, 0, 0, 0] @ replicate 32 0 @ replicate n 0" for n
    by (simp add: numeral_eq_Suc)
  have rep32: "replicate 32 (0 :: u8) = replicate 16 0 @ replicate 16 0"
    by (simp flip: replicate_add)
  have built: "write_at 40 icmp (set_ipv6_dst (set_ipv6_src ((write_at 4 [x, y] ((replicate (40 + length icmp) 0)[0 := 0x60]))
      [6 := 58, 7 := 64]) our) dst) = h @ icmp"
    unfolding rep rep32 h_def using assms(1,2)
    by (simp add: set_ipv6_dst_def set_ipv6_src_def write_at_def)
  define p0 where "p0 = h @ icmp"
  define cs where "cs = pseudo_checksum (pseudo_v6 p0 (length icmp) 58) (icmp[2 := 0, 3 := 0])"
  have l44: "44 \<le> length p0" using lh assms(3) by (simp add: p0_def)
  have c: "icmpv6_checksum p0 = (cs, p0[42 := 0, 43 := 0])"
    using icmpv6_pseudo [OF l44] lh by (simp add: cs_def p0_def)
  define q where "q = h @ [ty, code] @ to_be16 cs @ rest"
  have "store16 42 cs (p0[42 := 0, 43 := 0]) = q"
    using store16_append [of "h @ [ty, code]" 42 cs 0 0 rest] lh assms(3)
    by (simp add: p0_def q_def list_update_append)
  then have w: "wrap_icmp_v6 icmp our dst = q"
    using built t c unfolding wrap_icmp_v6_def Let_def IPV6_HDR_def p0_def by simp
  have "pseudo_v6 q n nh = pseudo_v6 p0 n nh" for n nh
    by (rule pseudo_v6_agree) (use lh assms(3) in \<open>auto simp: p0_def q_def nth_append\<close>)
  then have ps: "pseudo_v6 q (length icmp) 58 = pseudo_v6 p0 (length icmp) 58" by blast
  have l40: "length (pseudo_v6 p0 (length icmp) 58) = 40" using l44 by (simp add: length_pseudo)
  have "ones_complement_sum (pseudo_v6 q (length icmp) 58 @ [ty, code] @ to_be16 cs @ rest) = 0xFFFF"
    using pseudo_checksum_completes [of "pseudo_v6 p0 (length icmp) 58" "[ty, code]" rest] l40 assms(3,4)
    unfolding ps cs_def by simp
  moreover have "from_be [x, y] = (of_nat (length icmp) :: u16)"
    unfolding t [symmetric] by (rule from_be_to_be)
  moreover have "slice 4 6 q = [x, y]" "slice 8 24 q = our" "slice 24 40 q = dst" "ip_version q = 6"
    "q ! 6 = 58" "q ! 7 = 64" "length q = 40 + length icmp" "drop 40 q = [ty, code] @ to_be16 cs @ rest"
    using assms(1-3) lh by (simp_all add: q_def h_def slice_def ip_version_def)
  ultimately have "icmp_v6_packet q our dst ([ty, code] @ to_be16 cs @ rest)"
    using assms(3) unfolding icmp_v6_packet_def ipv6_next_header_def ipv6_hop_limit_def ipv6_src_def ipv6_dst_def
    by (simp del: from_be.simps)
  then show ?thesis using w by blast
qed

text \<open>
  The ICMPv6 errors are correct: a time-exceeded or packet-too-big message goes from our
  address to the sender of the offending packet with hop limit 64, has the right type, carries the MTU in its
  second word, quotes the packet, and its checksum over the IPv6 pseudo header verifies.
\<close>

theorem icmp_v6_errors_correct:
  assumes "length our = 16" "generate_time_exceeded_v6 orig our = Some p"
    "generate_packet_too_big_v6 orig our mtu = Some p'"
  shows "\<exists>src cs cs'. ipv6_src orig = Some src
    \<and> icmp_v6_packet p our src ([3, 0] @ to_be16 cs @ [0, 0, 0, 0] @ take 48 orig)
    \<and> icmp_v6_packet p' our src ([2, 0] @ to_be16 cs' @ to_be32 mtu @ take 48 orig)"
proof -
  have v: "ip_version orig = 6" "40 \<le> length orig"
    using assms(2) by (auto simp: generate_time_exceeded_v6_def IPV6_HDR_def split: if_splits)
  define src where "src = slice 8 24 orig"
  have src: "ipv6_src orig = Some src" "length src = 16"
    using v(2) by (simp_all add: ipv6_src_def src_def slice_def)
  define quote where "quote = take (min 48 (length orig)) orig"
  have q: "quote = take 48 orig" "length quote \<le> 48" by (simp_all add: quote_def min_def)
  have rep: "replicate (8 + n) (0 :: u8) = [0, 0, 0, 0, 0, 0, 0, 0] @ replicate n 0" for n
    by (simp add: numeral_eq_Suc)
  have i1: "write_at 8 quote ((replicate (8 + length quote) 0)[0 := 3, 1 := 0]) = [3, 0, 0, 0] @ [0, 0, 0, 0] @ quote"
    unfolding rep by (simp add: write_at_def)
  have i2: "write_at 8 quote (write_at 4 (to_be32 mtu) ((replicate (8 + length quote) 0)[0 := 2, 1 := 0])) =
      [2, 0, 0, 0] @ to_be32 mtu @ quote"
    unfolding rep by (simp add: write_at_def numeral_eq_Suc)
  have p: "p = wrap_icmp_v6 ([3, 0, 0, 0] @ [0, 0, 0, 0] @ quote) our src"
    using assms(2) v src(1) i1 unfolding generate_time_exceeded_v6_def Let_def const_defs
    by (simp add: quote_def [symmetric])
  have p': "p' = wrap_icmp_v6 ([2, 0, 0, 0] @ to_be32 mtu @ quote) our src"
    using assms(3) v src(1) i2 unfolding generate_packet_too_big_v6_def Let_def const_defs
    by (simp add: quote_def [symmetric])
  show ?thesis
    using wrap_icmp_v6_ok [where ty = 3 and code = 0 and rest = "[0, 0, 0, 0] @ quote", OF assms(1) src(2) refl]
      wrap_icmp_v6_ok [where ty = 2 and code = 0 and rest = "to_be32 mtu @ quote", OF assms(1) src(2) refl] q(2) src(1)
    unfolding p p' q(1) [symmetric] by auto
qed

definition sample_v6 :: bytes where
  "sample_v6 = [0x60, 0, 0, 0, 0, 8, 58, 1] @ replicate 16 0x20 @ replicate 16 0x30 @ replicate 8 0"

lemma icmp_v6_errors_correct_witness:
  "\<exists>p p' cs cs'. generate_time_exceeded_v6 sample_v6 (replicate 16 7) = Some p
     \<and> generate_packet_too_big_v6 sample_v6 (replicate 16 7) 1280 = Some p'
     \<and> icmp_v6_packet p (replicate 16 7) (replicate 16 0x20) ([3, 0] @ to_be16 cs @ [0, 0, 0, 0] @ take 48 sample_v6)
     \<and> icmp_v6_packet p' (replicate 16 7) (replicate 16 0x20) ([2, 0] @ to_be16 cs' @ to_be32 1280 @ take 48 sample_v6)"
proof -
  have v: "ip_version sample_v6 = 6" "length sample_v6 = 48" "ipv6_src sample_v6 = Some (replicate 16 0x20)"
    by (simp_all add: sample_v6_def ip_version_def ipv6_src_def slice_def)
  then obtain p p' where g: "generate_time_exceeded_v6 sample_v6 (replicate 16 7) = Some p"
    "generate_packet_too_big_v6 sample_v6 (replicate 16 7) 1280 = Some p'"
    by (simp add: generate_time_exceeded_v6_def generate_packet_too_big_v6_def const_defs Let_def)
  show ?thesis
    using icmp_v6_errors_correct [OF _ g] g v(3) by auto
qed

section \<open>The outbound and inbound pipelines\<close>

text \<open>What the TTL step changes: the TTL and the checksum bytes of IPv4, the hop limit of IPv6.\<close>

definition packet_ttl :: "bytes \<Rightarrow> u8" where
  "packet_ttl p = (
     if ip_version p = 4 then (if length p < 20 then 0 else p ! 8)
     else if ip_version p = 6 then (if length p < 40 then 0 else p ! 7)
     else 0)"

lemma one_less_ttl: "(t :: u8) \<noteq> 0 \<Longrightarrow> 0 < t - 1 \<longleftrightarrow> 1 < t"
proof -
  assume "t \<noteq> 0"
  then have "unat (t - 1) = unat t - 1" by (rule unat_minus_one)
  then show ?thesis by (simp add: word_less_nat_alt)
qed

lemma ip_header_checksum_frame:
  "ip_header_checksum p = (cs, q) \<Longrightarrow> length q = length p \<and> (\<forall>i. i \<noteq> 10 \<and> i \<noteq> 11 \<longrightarrow> q ! i = p ! i)"
  by (auto simp: ip_header_checksum_def Let_def split: if_splits)

lemma decrement_ttl_frame:
  assumes "decrement_ttl p = (q, alive)"
  shows "length q = length p \<and> (\<forall>i. i \<notin> {7, 8, 10, 11} \<longrightarrow> q ! i = p ! i)
    \<and> (alive \<longleftrightarrow> 1 < packet_ttl p)"
proof (cases "packet_ttl p = 0 \<or> ip_version p \<notin> {4, 6}")
  case True
  then have "q = p" "\<not> alive"
    using assms by (auto simp: decrement_ttl_def packet_ttl_def const_defs ipv4_ttl_def ipv6_hop_limit_def Let_def
        split: if_splits)
  then show ?thesis using True by (auto simp: packet_ttl_def)
next
  case False
  show ?thesis
  proof (cases "ip_version p = 4")
    case True
    then have g: "20 \<le> length p" "p ! 8 \<noteq> 0" "packet_ttl p = p ! 8"
      using False by (auto simp: packet_ttl_def split: if_splits)
    obtain cs r where h: "ip_header_checksum (p[8 := p ! 8 - 1]) = (cs, r)" by (metis surj_pair)
    note fr = ip_header_checksum_frame [OF h]
    have "q = store16 10 cs r" "alive = (1 < p ! 8)"
      using assms True g h fr one_less_ttl [of "p ! 8"]
      by (auto simp: decrement_ttl_def const_defs ipv4_ttl_def set_ipv4_ttl_def Let_def)
    then show ?thesis using fr g(3) by (auto simp: nth_store16_other)
  next
    case v6: False
    then have "ip_version p = 6" "40 \<le> length p" "p ! 7 \<noteq> 0" "packet_ttl p = p ! 7"
      using False by (auto simp: packet_ttl_def split: if_splits)
    then show ?thesis
      using assms one_less_ttl [of "p ! 7"]
      by (auto simp: decrement_ttl_def const_defs ipv6_hop_limit_def set_ipv6_hop_limit_def Let_def)
  qed
qed

lemma same_version: "length q = length p \<Longrightarrow> p \<noteq> [] \<Longrightarrow> q ! 0 = p ! 0 \<Longrightarrow> ip_version q = ip_version p"
  by (cases p; cases q) (simp_all add: ip_version_def)

lemma ip_version_Nil [simp]: "ip_version [] = 0"
  by (simp add: ip_version_def)

lemma generators_some:
  "ip_version p = 4 \<Longrightarrow> 20 \<le> length p \<Longrightarrow> \<exists>i. generate_frag_needed_v4 p a4 m = Some i"
  "ip_version p = 4 \<Longrightarrow> 20 \<le> length p \<Longrightarrow> \<exists>i. generate_time_exceeded_v4 p a4 = Some i"
  "ip_version p = 6 \<Longrightarrow> 40 \<le> length p \<Longrightarrow> \<exists>i. generate_packet_too_big_v6 p a6 n = Some i"
  "ip_version p = 6 \<Longrightarrow> 40 \<le> length p \<Longrightarrow> \<exists>i. generate_time_exceeded_v6 p a6 = Some i"
  by (simp_all add: generate_frag_needed_v4_def generate_time_exceeded_v4_def generate_packet_too_big_v6_def
      generate_time_exceeded_v6_def ipv4_src_def ipv6_src_def const_defs Let_def split: prod.split)

text \<open>
  The outbound pipeline never panics and never changes the length of a packet, and it is the
  router's decision: what is not IP, multicast or broadcast goes through untouched; every other packet goes
  through exactly when its TTL is above 1 and it fits the MTU (or is IPv4 without DF).
\<close>

theorem process_outbound_decision:
  assumes "length p \<le> 65535"
  shows "\<exists>q out. process_outbound p mtu mss a4 a6 = Ok (q, out) \<and> length q = length p
    \<and> (if ip_version p \<notin> {4, 6} \<or> is_multicast_or_broadcast p then q = p \<and> out = Forward
       else out = Forward \<longleftrightarrow>
         1 < packet_ttl p \<and> (length p \<le> mtu \<or> ip_version p = 4 \<and> \<not> ipv4_df_set p))"
proof (cases "ip_version p \<notin> {4, 6} \<or> is_multicast_or_broadcast p")
  case True
  then show ?thesis by (auto simp: process_outbound_def Let_def)
next
  case False
  obtain q alive where d: "decrement_ttl p = (q, alive)" by (metis surj_pair)
  note fr = decrement_ttl_frame [OF d]
  have ne: "p \<noteq> []" using False by auto
  have ver: "ip_version q = ip_version p" by (rule same_version) (use fr ne in auto)
  have df: "ipv4_df_set q = ipv4_df_set p" using fr by (simp add: ipv4_df_set_def)
  obtain q' b where c: "clamp_mss q (auto_target (ip_version p) mtu mss) = Ok (q', b)" "length q' = length p"
    using clamp_mss_total [of q "auto_target (ip_version p) mtu mss"] fr assms by auto
  show ?thesis
    using False d fr df c
    by (auto simp: process_outbound_def Let_def split: option.split)
qed

lemma process_outbound_decision_witness:
  "\<exists>q. process_outbound sample_syn 1392 None [10, 0, 0, 9] None = Ok (q, Forward) \<and> length q = 44"
proof -
  have "ip_version sample_syn = 4" "length sample_syn = 44" "\<not> is_multicast_or_broadcast sample_syn"
    "packet_ttl sample_syn = 64"
    by (simp_all add: sample_syn_def ip_version_def is_multicast_or_broadcast_def ipv4_dst_def packet_ttl_def)
  then show ?thesis
    using process_outbound_decision [of sample_syn 1392 None "[10, 0, 0, 9]" None] by auto
qed

text \<open>
  A packet that does not go through is answered, never lost in silence: an expired packet
  with a full header is answered with time exceeded, and one too big with fragmentation needed or packet
  too big, whenever the tunnel has an address of that family.
\<close>

theorem process_outbound_answers:
  assumes "length p \<le> 65535" "process_outbound p mtu mss a4 a6 = Ok (q, out)" "out \<noteq> Forward"
    and "ip_version p = 4 \<and> 20 \<le> length p \<or> ip_version p = 6 \<and> 40 \<le> length p \<and> a6 \<noteq> None"
  shows "\<exists>icmp. out = InjectIcmp icmp \<and>
    (if packet_ttl p \<le> 1
     then (if ip_version p = 4 then generate_time_exceeded_v4 q a4 else generate_time_exceeded_v6 q (the a6)) = Some icmp
     else (if ip_version p = 4 then generate_frag_needed_v4 q a4 (of_nat mtu)
           else generate_packet_too_big_v6 q (the a6) (of_nat mtu)) = Some icmp)"
proof -
  obtain r alive where d: "decrement_ttl p = (r, alive)" by (metis surj_pair)
  note fr = decrement_ttl_frame [OF d]
  have ne: "p \<noteq> []" using assms(4) by auto
  have ver: "ip_version r = ip_version p" by (rule same_version) (use fr ne in auto)
  have nm: "\<not> is_multicast_or_broadcast p"
    using assms(2,3) by (auto simp: process_outbound_def Let_def split: if_splits)
  obtain b r' where c: "clamp_mss r (auto_target (ip_version p) mtu mss) = Ok (r', b)"
    using clamp_mss_total [of r] fr assms(1) by metis
  have al: "alive \<longleftrightarrow> \<not> packet_ttl p \<le> 1" using fr by auto
  show ?thesis
  proof (cases "ip_version p = 4")
    case True
    then have "ip_version r = 4" "20 \<le> length r" using ver fr assms(4) by auto
    then obtain i j where "generate_time_exceeded_v4 r a4 = Some i" "generate_frag_needed_v4 r a4 (of_nat mtu) = Some j"
      using generators_some(1,2) by meson
    then show ?thesis
      using assms(2,3) d nm True al c unfolding process_outbound_def Let_def
      by (auto split: if_splits)
  next
    case False
    then obtain a where a: "ip_version p = 6" "40 \<le> length r" "a6 = Some a" using fr assms(4) by auto
    then obtain i j where "generate_time_exceeded_v6 r a = Some i" "generate_packet_too_big_v6 r a (of_nat mtu) = Some j"
      using generators_some(3,4) ver by metis
    then show ?thesis
      using assms(2,3) d nm a al c unfolding process_outbound_def Let_def
      by (auto split: if_splits)
  qed
qed

definition sample_expired :: bytes where
  "sample_expired = sample_syn[8 := 1]"

lemma process_outbound_answers_witness:
  "\<exists>q icmp. process_outbound sample_expired 1392 None [10, 0, 0, 9] None = Ok (q, InjectIcmp icmp)
     \<and> generate_time_exceeded_v4 q [10, 0, 0, 9] = Some icmp"
proof -
  have v: "ip_version sample_expired = 4" "length sample_expired = 44" "packet_ttl sample_expired = 1"
    "\<not> is_multicast_or_broadcast sample_expired"
    by (simp_all add: sample_expired_def sample_syn_def ip_version_def packet_ttl_def is_multicast_or_broadcast_def
        ipv4_dst_def)
  obtain q alive where "decrement_ttl sample_expired = (q, alive)" by (metis surj_pair)
  moreover have "\<not> alive" using decrement_ttl_frame [OF calculation] v(3) by simp
  ultimately obtain out where o: "process_outbound sample_expired 1392 None [10, 0, 0, 9] None = Ok (q, out)" "out \<noteq> Forward"
    using v(1,4) by (auto simp: process_outbound_def Let_def split: option.split)
  show ?thesis
    using process_outbound_answers [OF _ o] o v by auto
qed

text \<open>
  The transport checksum of IPv6 panics, against the crate's promise, exactly on the packets
  long enough for the TCP part but shorter than the 40 bytes of the IPv6 header it reads.
\<close>

theorem tcp_checksum_v6_panics:
  "tcp_checksum_v6 p off = Panic \<longleftrightarrow> off + 20 \<le> length p \<and> length p < 40"
  by (simp add: tcp_checksum_v6_def tcp_checksum_v6_with_proto_def Let_def)

end
