(* ===== verification/Fec.thy ===== *)
theory Fec
  imports Prelude
begin

text \<open>
  Forward error correction of tunnel frames, \<open>ipv8-fec/src\<close>: the sender XORs groups of
  \<open>k\<close> Data frames into a recovery frame (\<open>tx.rs\<close>), the receiver caches Data frames
  and rebuilds the one frame of a group that was lost (\<open>rx.rs\<close>). The cache is an association
  list; a loop that might not end is given the result \<open>None\<close>.
\<close>

section \<open>Constants, errors and helpers\<close>

definition FEC_FRAME_HEADER_SIZE :: nat where [const_defs]: "FEC_FRAME_HEADER_SIZE = 10"
definition DATA_MIN_FRAME :: nat where [const_defs]: "DATA_MIN_FRAME = 74"
definition FEC_MIN_K :: nat where [const_defs]: "FEC_MIN_K = 2"
definition FEC_MAX_K :: nat where [const_defs]: "FEC_MAX_K = 16"
definition DEFAULT_RX_CACHE :: nat where [const_defs]: "DEFAULT_RX_CACHE = 256"
definition MAX_SEEN_GROUPS :: nat where [const_defs]: "MAX_SEEN_GROUPS = 128"
definition COUNTER_FROM_END :: nat where [const_defs]: "COUNTER_FROM_END = 24"
definition RECOVERY_FIXED_BODY :: nat where [const_defs]: "RECOVERY_FIXED_BODY = 12"
definition FEC_TUNNEL_VERSION :: u8 where [const_defs]: "FEC_TUNNEL_VERSION = 0x01"
definition DATA_FRAME_TYPE :: u8 where [const_defs]: "DATA_FRAME_TYPE = 2"
definition FEC_FRAME_TYPE :: u8 where [const_defs]: "FEC_FRAME_TYPE = 6"

datatype fec_error =
    TooShort nat
  | BadK nat
  | BodyTooShort nat nat
  | XorLenMismatch nat nat
  | BadMemberLen nat
  | SanityCheck

definition data_counter :: "bytes \<Rightarrow> fec_error + u64" where
  "data_counter frame = (
     if length frame < DATA_MIN_FRAME then Inl (TooShort (length frame))
     else let tail = length frame - COUNTER_FROM_END in Inr (from_be (slice tail (tail + 8) frame)))"

definition xor_into :: "bytes \<Rightarrow> bytes \<Rightarrow> bytes" where
  "xor_into acc other = (
     let n = min (length acc) (length other)
     in map2 (\<lambda>a o'. a XOR o') (take n acc) (take n other) @ drop n acc)"

section \<open>The sender\<close>

record fec_tx =
  tx_k :: nat
  tx_group_seq :: u64
  tx_acc :: bytes
  tx_counters :: "u64 list"
  tx_lens :: "u16 list"

definition fec_tx_new :: "nat \<Rightarrow> fec_error + fec_tx" where
  "fec_tx_new k = (
     if \<not> (FEC_MIN_K \<le> k \<and> k \<le> FEC_MAX_K) then Inl (BadK k)
     else Inr \<lparr> tx_k = k, tx_group_seq = 0, tx_acc = [], tx_counters = [], tx_lens = [] \<rparr>)"

definition encode_recovery :: "fec_tx \<Rightarrow> bytes \<Rightarrow> bytes" where
  "encode_recovery tx key_id = (
     [FEC_TUNNEL_VERSION, FEC_FRAME_TYPE] @ key_id
       @ to_be64 (tx_group_seq tx) @ [of_nat (length (tx_counters tx))] @ [0, 0, 0]
       @ concat (map to_be64 (tx_counters tx)) @ concat (map to_be16 (tx_lens tx))
       @ tx_acc tx)"

definition resize0 :: "nat \<Rightarrow> bytes \<Rightarrow> bytes" where
  "resize0 n xs = (if n \<le> length xs then take n xs else xs @ replicate (n - length xs) 0)"

definition fec_push :: "fec_tx \<Rightarrow> bytes \<Rightarrow> bytes \<Rightarrow> fec_error + (fec_tx \<times> bytes option)" where
  "fec_push tx frame key_id = (
     if length frame < DATA_MIN_FRAME then Inl (TooShort (length frame))
     else case data_counter frame of
       Inl e \<Rightarrow> Inl e
     | Inr counter \<Rightarrow>
         let acc = (if length frame > length (tx_acc tx) then resize0 (length frame) (tx_acc tx) else tx_acc tx);
             acc = xor_into acc frame;
             len = (if length frame \<le> 0xFFFF then of_nat (length frame) else 0xFFFF);
             tx = tx\<lparr> tx_acc := acc, tx_counters := tx_counters tx @ [counter], tx_lens := tx_lens tx @ [len] \<rparr>
         in if length (tx_counters tx) < tx_k tx then Inr (tx, None)
            else
              let out = encode_recovery tx key_id
              in Inr (tx\<lparr> tx_group_seq := tx_group_seq tx + 1, tx_acc := [], tx_counters := [], tx_lens := [] \<rparr>,
                      Some out))"

section \<open>The receiver\<close>

record fec_rx =
  rx_cache :: "(u64 \<times> bytes) list"
  rx_order :: "u64 list"
  rx_limit :: nat
  rx_seen_groups :: "u64 list"
  rx_recovered :: u64
  rx_abandoned :: u64
  rx_dup_recovery :: u64

definition fec_rx_new :: "nat \<Rightarrow> fec_rx" where
  "fec_rx_new limit = \<lparr> rx_cache = [], rx_order = [],
     rx_limit = (if limit = 0 then DEFAULT_RX_CACHE else limit),
     rx_seen_groups = [], rx_recovered = 0, rx_abandoned = 0, rx_dup_recovery = 0 \<rparr>"

text \<open>
  \<open>while cache.len() > limit { if let Some(oldest) = order.pop_front() { .. } }\<close>: with the
  queue empty and the cache too large the loop spins for ever, the result \<open>None\<close>.
\<close>

fun evict :: "nat \<Rightarrow> (u64 \<times> bytes) list \<Rightarrow> u64 list \<Rightarrow> ((u64 \<times> bytes) list \<times> u64 list) option" where
  "evict limit cache [] = (if length cache > limit then None else Some (cache, []))"
| "evict limit cache (oldest # order) =
    (if length cache > limit then evict limit (AList.delete oldest cache) order
     else Some (cache, oldest # order))"

definition observe_data :: "fec_rx \<Rightarrow> bytes \<Rightarrow> (fec_error + fec_rx) option" where
  "observe_data rx frame = (
     if length frame < DATA_MIN_FRAME then Some (Inl (TooShort (length frame)))
     else case data_counter frame of
       Inl e \<Rightarrow> Some (Inl e)
     | Inr counter \<Rightarrow>
         if map_of (rx_cache rx) counter \<noteq> None
         then Some (Inr (rx\<lparr> rx_cache := AList.update counter frame (rx_cache rx) \<rparr>))
         else
           let cache = AList.update counter frame (rx_cache rx);
               order = rx_order rx @ [counter]
           in map_option (\<lambda>(cache, order). Inr (rx\<lparr> rx_cache := cache, rx_order := order \<rparr>))
                (evict (rx_limit rx) cache order))"

definition remember_group :: "u64 \<Rightarrow> fec_rx \<Rightarrow> fec_rx" where
  "remember_group g rx = (
     let seen = rx_seen_groups rx @ [g]
     in rx\<lparr> rx_seen_groups := drop (length seen - MAX_SEEN_GROUPS) seen \<rparr>)"

text \<open>The scan for missing members, which stops at the second one.\<close>

fun find_missing :: "(u64 \<times> bytes) list \<Rightarrow> nat \<Rightarrow> u64 list \<Rightarrow> nat option \<Rightarrow> nat \<Rightarrow> nat option \<times> nat" where
  "find_missing cache i [] missing cnt = (missing, cnt)"
| "find_missing cache i (c # cs) missing cnt =
    (if map_of cache c = None
     then (if cnt + 1 > 1 then (missing, cnt + 1) else find_missing cache (i + 1) cs (Some i) (cnt + 1))
     else find_missing cache (i + 1) cs missing cnt)"

definition fec_rebuild :: "(u64 \<times> bytes) list \<Rightarrow> nat \<Rightarrow> u64 list \<Rightarrow> bytes \<Rightarrow> bytes" where
  "fec_rebuild cache mi counters xor_seg =
     fold (\<lambda>(i, c) recon. if i \<noteq> mi
             then (case map_of cache c of Some m \<Rightarrow> xor_into recon m | None \<Rightarrow> recon)
             else recon)
       (zip [0..<length counters] counters) xor_seg"

text \<open>The second half of the handler: which members are missing, and the rebuilt frame.\<close>

definition accept_tail :: "fec_rx \<Rightarrow> u64 list \<Rightarrow> nat list \<Rightarrow> bytes \<Rightarrow> fec_rx \<times> (fec_error + bytes option)" where
  "accept_tail rx counters lens seg = (
     let (missing, missing_count) = find_missing (rx_cache rx) 0 counters None 0
     in if missing_count = 0 then (rx, Inr None)
        else if missing_count > 1 then (rx\<lparr> rx_abandoned := rx_abandoned rx + 1 \<rparr>, Inr None)
        else (case missing of
           None \<Rightarrow> (rx, Inl SanityCheck)
         | Some mi \<Rightarrow>
             let recon = fec_rebuild (rx_cache rx) mi counters seg; want = lens ! mi
             in if length recon < want then (rx, Inl (XorLenMismatch want (length recon)))
                else
                  let recon = take want recon
                  in if recon ! 0 \<noteq> FEC_TUNNEL_VERSION \<or> recon ! 1 \<noteq> DATA_FRAME_TYPE then (rx, Inl SanityCheck)
                     else (case data_counter recon of
                        Inl e \<Rightarrow> (rx, Inl e)
                      | Inr c \<Rightarrow>
                          if c \<noteq> counters ! mi then (rx, Inl SanityCheck)
                          else (rx\<lparr> rx_recovered := rx_recovered rx + 1 \<rparr>, Inr (Some recon)))))"

text \<open>
  The handler of a recovery frame. It changes the state also when it fails late, so it returns
  the state beside the result.
\<close>

definition accept_recovery :: "fec_rx \<Rightarrow> bytes \<Rightarrow> fec_rx \<times> (fec_error + bytes option)" where
  "accept_recovery rx frame = (
     let fixed_end = FEC_FRAME_HEADER_SIZE + RECOVERY_FIXED_BODY
     in if length frame < fixed_end then (rx, Inl (BodyTooShort fixed_end (length frame)))
        else if frame ! 0 \<noteq> FEC_TUNNEL_VERSION \<or> frame ! 1 \<noteq> FEC_FRAME_TYPE then (rx, Inl SanityCheck)
        else
          let group_seq = from_be (slice 10 18 frame); k = unat (frame ! 18)
          in if \<not> (FEC_MIN_K \<le> k \<and> k \<le> FEC_MAX_K) then (rx, Inl (BadK k))
             else
               let table_end = fixed_end + k * 10
               in if length frame < table_end then (rx, Inl (BodyTooShort table_end (length frame)))
                  else if group_seq \<in> set (rx_seen_groups rx)
                  then (rx\<lparr> rx_dup_recovery := rx_dup_recovery rx + 1 \<rparr>, Inr None)
                  else
                    let counters = map (\<lambda>i. from_be (slice (fixed_end + i * 8) (fixed_end + i * 8 + 8) frame)) [0..<k];
                        lens = map (\<lambda>i. unat (from_be (slice (fixed_end + k * 8 + i * 2) (fixed_end + k * 8 + i * 2 + 2)
                                  frame) :: u16)) [0..<k];
                        xor_len = length frame - table_end;
                        max_len = fold max lens 0
                    in if xor_len \<noteq> max_len then (rx, Inl (XorLenMismatch max_len xor_len))
                       else case List.find (\<lambda>l. l < DATA_MIN_FRAME) lens of
                         Some l \<Rightarrow> (rx, Inl (BadMemberLen l))
                       | None \<Rightarrow>
                           accept_tail (remember_group group_seq rx) counters lens (drop table_end frame))"

section \<open>The XOR of a group\<close>

definition byte_at :: "bytes \<Rightarrow> nat \<Rightarrow> u8" where
  "byte_at xs i = (if i < length xs then xs ! i else 0)"

fun xor_sum :: "bytes list \<Rightarrow> nat \<Rightarrow> u8" where
  "xor_sum [] i = 0"
| "xor_sum (f # fs) i = byte_at f i XOR xor_sum fs i"

lemma xor_sum_append: "xor_sum (fs @ gs) i = xor_sum fs i XOR xor_sum gs i"
  by (induction fs) (simp_all add: xor.assoc)

lemma xor_sum_split: "xor_sum (xs @ f # ys) i XOR (xor_sum xs i XOR xor_sum ys i) = byte_at f i"
  unfolding xor_sum_append xor_sum.simps by (rule bit_eqI) (auto simp: bit_simps)

lemma length_xor_into [simp]: "length (xor_into acc m) = length acc"
  by (auto simp: xor_into_def Let_def)

lemma byte_at_xor_into:
  "length m \<le> length acc \<Longrightarrow> byte_at (xor_into acc m) i = byte_at acc i XOR byte_at m i"
  by (auto simp: byte_at_def xor_into_def Let_def nth_append)

lemma byte_at_resize0: "length xs \<le> n \<Longrightarrow> byte_at (resize0 n xs) i = byte_at xs i"
  by (auto simp: byte_at_def resize0_def nth_append)

lemma length_resize0 [simp]: "length (resize0 n xs) = n"
  by (auto simp: resize0_def)

lemma eq_by_bytes: "length xs = length ys \<Longrightarrow> (\<And>i. i < length ys \<Longrightarrow> byte_at xs i = byte_at ys i) \<Longrightarrow> xs = ys"
  by (rule nth_equalityI) (auto simp: byte_at_def)

lemma byte_at_take: "i < n \<Longrightarrow> byte_at (take n xs) i = byte_at xs i"
  by (auto simp: byte_at_def)

section \<open>The group of the sender\<close>

definition frame_counter :: "bytes \<Rightarrow> u64" where
  "frame_counter f = from_be (slice (length f - 24) (length f - 16) f)"

text \<open>A complete Data frame of a size the 16-bit length field can hold.\<close>

definition data_frame :: "bytes \<Rightarrow> bool" where
  "data_frame f \<longleftrightarrow> 74 \<le> length f \<and> length f \<le> 65535 \<and> f ! 0 = 1 \<and> f ! 1 = 2"

lemma data_counter_frame: "data_frame f \<Longrightarrow> data_counter f = Inr (frame_counter f)"
  by (simp add: data_counter_def frame_counter_def data_frame_def const_defs Let_def Suc_diff_le)

text \<open>The sender has collected the frames \<open>fs\<close> of the current group.\<close>

definition tx_group :: "fec_tx \<Rightarrow> bytes list \<Rightarrow> bool" where
  "tx_group tx fs \<longleftrightarrow> tx_counters tx = map frame_counter fs \<and> tx_lens tx = map (\<lambda>f. of_nat (length f)) fs
     \<and> length (tx_acc tx) = fold max (map length fs) 0 \<and> (\<forall>i. byte_at (tx_acc tx) i = xor_sum fs i)
     \<and> 2 \<le> tx_k tx \<and> tx_k tx \<le> 16 \<and> list_all data_frame fs"

lemma tx_group_new: "fec_tx_new k = Inr tx \<Longrightarrow> tx_group tx [] \<and> tx_k tx = k"
  by (auto simp: fec_tx_new_def tx_group_def byte_at_def const_defs split: if_splits)

text \<open>The state after one more frame, before the group is checked for being full.\<close>

definition tx_add :: "fec_tx \<Rightarrow> bytes \<Rightarrow> fec_tx" where
  "tx_add tx f = tx\<lparr>
     tx_acc := xor_into (if length f > length (tx_acc tx) then resize0 (length f) (tx_acc tx) else tx_acc tx) f,
     tx_counters := tx_counters tx @ [frame_counter f], tx_lens := tx_lens tx @ [of_nat (length f)] \<rparr>"

lemma tx_group_add:
  assumes "tx_group tx fs" "data_frame f"
  shows "tx_group (tx_add tx f) (fs @ [f])"
proof -
  let ?acc = "if length f > length (tx_acc tx) then resize0 (length f) (tx_acc tx) else tx_acc tx"
  have len: "length ?acc = max (length f) (length (tx_acc tx))" by simp
  have "byte_at (xor_into ?acc f) i = xor_sum (fs @ [f]) i" for i
    using assms(1) byte_at_xor_into [of f ?acc i]
    by (auto simp: tx_group_def xor_sum_append byte_at_resize0)
  then show ?thesis using assms len by (auto simp: tx_group_def tx_add_def)
qed

lemma fec_push_eq:
  assumes "data_frame f"
  shows "fec_push tx f key = (
    if length (tx_counters tx) + 1 < tx_k tx then Inr (tx_add tx f, None)
    else Inr (tx\<lparr> tx_group_seq := tx_group_seq tx + 1, tx_acc := [], tx_counters := [], tx_lens := [] \<rparr>,
              Some (encode_recovery (tx_add tx f) key)))"
  using assms unfolding fec_push_def data_counter_frame [OF assms] tx_add_def
  by (simp add: data_frame_def const_defs Let_def)

text \<open>Feeding a list of frames; the recovery frames that come out, in order.\<close>

fun push_all :: "fec_tx \<Rightarrow> bytes list \<Rightarrow> bytes \<Rightarrow> fec_error + (fec_tx \<times> bytes list)" where
  "push_all tx [] key = Inr (tx, [])"
| "push_all tx (f # fs) key = (case fec_push tx f key of
     Inl e \<Rightarrow> Inl e
   | Inr (tx, out) \<Rightarrow> (case push_all tx fs key of
       Inl e \<Rightarrow> Inl e
     | Inr (tx, outs) \<Rightarrow> Inr (tx, (case out of None \<Rightarrow> outs | Some r \<Rightarrow> r # outs))))"

lemma push_all_group:
  assumes "tx_group tx gs" "list_all data_frame fs" "length gs + length fs = tx_k tx" "fs \<noteq> []"
  shows "\<exists>tx1. push_all tx fs key =
      Inr (tx\<lparr> tx_group_seq := tx_group_seq tx + 1, tx_acc := [], tx_counters := [], tx_lens := [] \<rparr>,
           [encode_recovery tx1 key])
    \<and> tx_group tx1 (gs @ fs) \<and> tx_group_seq tx1 = tx_group_seq tx"
  using assms
proof (induction fs arbitrary: tx gs)
  case (Cons f fs)
  then have f: "data_frame f" and cnt: "length (tx_counters tx) = length gs" by (auto simp: tx_group_def)
  note add = tx_group_add [OF Cons.prems(1) f]
  show ?case
  proof (cases "fs = []")
    case True
    then show ?thesis
      using Cons.prems(3) cnt add by (intro exI [of _ "tx_add tx f"]) (simp add: fec_push_eq [OF f], simp add: tx_add_def)
  next
    case False
    have same: "tx_k (tx_add tx f) = tx_k tx" "tx_group_seq (tx_add tx f) = tx_group_seq tx"
      "(tx_add tx f)\<lparr> tx_group_seq := tx_group_seq tx + 1, tx_acc := [], tx_counters := [], tx_lens := [] \<rparr> =
       tx\<lparr> tx_group_seq := tx_group_seq tx + 1, tx_acc := [], tx_counters := [], tx_lens := [] \<rparr>"
      by (simp_all add: tx_add_def)
    obtain tx1 where "push_all (tx_add tx f) fs key =
        Inr (tx\<lparr> tx_group_seq := tx_group_seq tx + 1, tx_acc := [], tx_counters := [], tx_lens := [] \<rparr>,
             [encode_recovery tx1 key])"
      "tx_group tx1 ((gs @ [f]) @ fs)" "tx_group_seq tx1 = tx_group_seq tx"
      using Cons.IH [OF add] Cons.prems(2,3) False unfolding same by auto
    moreover have "fec_push tx f key = Inr (tx_add tx f, None)"
      using Cons.prems(3) cnt False by (simp add: fec_push_eq [OF f]) (cases fs; simp)
    ultimately show ?thesis by (intro exI [of _ tx1]) simp
  qed
qed simp

section \<open>The layout of a recovery frame\<close>

interpretation counter_table: fixed_codec to_be64 "\<lambda>b. if length b = 8 then Some (from_be b) else None" "\<lambda>_. True" 8
  by unfold_locales simp_all

interpretation length_table: fixed_codec to_be16 "\<lambda>b. if length b = 2 then Some (from_be b) else None" "\<lambda>_. True" 2
  by unfold_locales simp_all

lemma recovery_layout:
  assumes "length key = 8" "length (tx_counters tx) = k" "length (tx_lens tx) = k" "k \<le> 16"
  defines "r \<equiv> encode_recovery tx key"
  shows "length r = 22 + k * 10 + length (tx_acc tx)" "r ! 0 = 1" "r ! 1 = 6"
    "from_be (slice 10 18 r) = tx_group_seq tx" "unat (r ! 18) = k" "drop (22 + k * 10) r = tx_acc tx"
    "i < k \<Longrightarrow> from_be (slice (22 + i * 8) (22 + i * 8 + 8) r) = tx_counters tx ! i"
    "i < k \<Longrightarrow> from_be (slice (22 + k * 8 + i * 2) (22 + k * 8 + i * 2 + 2) r) = tx_lens tx ! i"
proof -
  define C where "C = concat (map to_be64 (tx_counters tx))"
  define L where "L = concat (map to_be16 (tx_lens tx))"
  define h where "h = [1, 6] @ key @ to_be64 (tx_group_seq tx) @ [of_nat k] @ [0, 0, 0]"
  have lens: "length h = 22" "length C = 8 * k" "length L = 2 * k"
    using assms counter_table.length_concat_enc [of "tx_counters tx"] length_table.length_concat_enc [of "tx_lens tx"]
    by (simp_all add: h_def C_def L_def)
  have r: "r = h @ C @ L @ tx_acc tx"
    using assms(2) by (simp add: r_def encode_recovery_def h_def C_def L_def const_defs)
  show "length r = 22 + k * 10 + length (tx_acc tx)" "drop (22 + k * 10) r = tx_acc tx"
    using lens by (simp_all add: r)
  show "r ! 0 = 1" "r ! 1 = 6" by (simp_all add: r h_def)
  have "slice 10 18 r = to_be64 (tx_group_seq tx)"
    using assms(1) by (simp add: r h_def slice_def)
  then show "from_be (slice 10 18 r) = tx_group_seq tx" by simp
  have "r ! 18 = of_nat k" using assms(1) by (simp add: r h_def nth_append)
  then show "unat (r ! 18) = k" using assms(4) by (simp add: unat_of_nat take_bit_nat_eq_self)
  show "from_be (slice (22 + i * 8) (22 + i * 8 + 8) r) = tx_counters tx ! i" if i: "i < k"
  proof -
    have "slice (22 + i * 8) (22 + i * 8 + 8) r = slice (8 * i) (8 * i + 8) (C @ L @ tx_acc tx)"
      using lens(1) by (simp add: r slice_append_skip mult.commute add.commute)
    also have "\<dots> = slice (8 * i) (8 * i + 8) C" using i lens(2) by (intro slice_append_left) simp
    also have "\<dots> = to_be64 (tx_counters tx ! i)"
      using i assms(2) unfolding C_def by (intro counter_table.slice_concat_enc) simp_all
    finally show ?thesis by simp
  qed
  show "from_be (slice (22 + k * 8 + i * 2) (22 + k * 8 + i * 2 + 2) r) = tx_lens tx ! i" if i: "i < k"
  proof -
    have "slice (22 + k * 8 + i * 2) (22 + k * 8 + i * 2 + 2) r = slice (2 * i) (2 * i + 2) (L @ tx_acc tx)"
      using lens(1,2) by (simp add: r slice_append_skip mult.commute add.commute)
    also have "\<dots> = slice (2 * i) (2 * i + 2) L" using i lens(3) by (intro slice_append_left) simp
    also have "\<dots> = to_be16 (tx_lens tx ! i)"
      using i assms(3) unfolding L_def by (intro length_table.slice_concat_enc) simp_all
    finally show ?thesis by simp
  qed
qed

section \<open>Rebuilding the lost frame\<close>

lemma find_missing_present:
  "\<forall>c \<in> set xs. map_of cache c \<noteq> None \<Longrightarrow>
   find_missing cache i (xs @ ys) m n = find_missing cache (i + length xs) ys m n"
  by (induction xs arbitrary: i) auto

lemma find_missing_one:
  assumes "\<forall>c \<in> set xs \<union> set ys. map_of cache c \<noteq> None" "map_of cache c = None"
  shows "find_missing cache 0 (xs @ c # ys) None 0 = (Some (length xs), 1)"
proof -
  have "find_missing cache (Suc (length xs)) (ys @ []) (Some (length xs)) 1 = (Some (length xs), 1)"
    using assms(1) by (subst find_missing_present) auto
  then show ?thesis using assms by (subst find_missing_present) auto
qed

lemma fec_rebuild_part:
  assumes "\<forall>f \<in> set fs. map_of cache (frame_counter f) = Some f \<and> length f \<le> length r"
    and "mi < s \<or> s + length fs \<le> mi"
  defines "step \<equiv> \<lambda>(i :: nat, c) recon. if i \<noteq> mi
             then (case map_of cache c of Some m \<Rightarrow> xor_into recon m | None \<Rightarrow> recon) else recon"
  shows "length (fold step (zip [s..<s + length fs] (map frame_counter fs)) r) = length r
    \<and> byte_at (fold step (zip [s..<s + length fs] (map frame_counter fs)) r) i = byte_at r i XOR xor_sum fs i"
  using assms(1,2)
proof (induction fs arbitrary: s r)
  case (Cons f fs)
  have "zip [s..<s + length (f # fs)] (map frame_counter (f # fs)) =
      (s, frame_counter f) # zip [Suc s..<Suc s + length fs] (map frame_counter fs)"
    by (simp add: upt_rec)
  moreover have "step (s, frame_counter f) r = xor_into r f" using Cons.prems by (auto simp: step_def)
  ultimately show ?case
    using Cons.IH [of "xor_into r f" "Suc s"] Cons.prems byte_at_xor_into [of f r i]
    by (auto simp: xor.assoc)
qed simp

lemma fec_rebuild_one:
  assumes "\<forall>g \<in> set xs \<union> set ys. map_of cache (frame_counter g) = Some g \<and> length g \<le> length seg"
    and "\<forall>i. byte_at seg i = xor_sum (xs @ f # ys) i" "length f \<le> length seg"
  shows "take (length f) (fec_rebuild cache (length xs) (map frame_counter (xs @ f # ys)) seg) = f
    \<and> length (fec_rebuild cache (length xs) (map frame_counter (xs @ f # ys)) seg) = length seg"
proof -
  let ?step = "\<lambda>(i, c) recon. if i \<noteq> length xs
             then (case map_of cache c of Some m \<Rightarrow> xor_into recon m | None \<Rightarrow> recon) else recon"
  let ?r1 = "fold ?step (zip [0..<0 + length xs] (map frame_counter xs)) seg"
  let ?r2 = "fold ?step (zip [Suc (length xs)..<Suc (length xs) + length ys] (map frame_counter ys)) ?r1"
  have "[0..<length (map frame_counter (xs @ f # ys))] =
      [0..<0 + length xs] @ length xs # [Suc (length xs)..<Suc (length xs) + length ys]"
    using upt_add_eq_append [of 0 "length xs" "Suc (length ys)"] by (simp add: upt_rec)
  then have eq: "fec_rebuild cache (length xs) (map frame_counter (xs @ f # ys)) seg = ?r2"
    by (simp add: fec_rebuild_def)
  have r1: "length ?r1 = length seg" "byte_at ?r1 i = byte_at seg i XOR xor_sum xs i" for i
    using fec_rebuild_part [of xs cache seg "length xs" 0 i] assms(1) by auto
  have r2: "length ?r2 = length seg" "byte_at ?r2 i = byte_at ?r1 i XOR xor_sum ys i" for i
    using fec_rebuild_part [of ys cache ?r1 "length xs" "Suc (length xs)" i] assms(1) r1(1) by auto
  have "take (length f) ?r2 = f"
  proof (rule eq_by_bytes)
    show "length (take (length f) ?r2) = length f" using r2(1) assms(3) by simp
    fix i assume "i < length f"
    then show "byte_at (take (length f) ?r2) i = byte_at f i"
      using r2(2) r1(2) assms(2) xor_sum_split [of xs f ys i] by (simp add: byte_at_take xor.assoc)
  qed
  then show ?thesis using eq r2(1) by simp
qed

text \<open>What the receiver reads back from the frame the sender built for the group \<open>fs\<close>.\<close>

lemma recovery_fields:
  assumes "tx_group tx fs" "length key = 8" "length fs = k" "k \<le> 16"
  defines "r \<equiv> encode_recovery tx key"
  shows "map (\<lambda>i. from_be (slice (22 + i * 8) (22 + i * 8 + 8) r)) [0..<k] = map frame_counter fs"
    "map (\<lambda>i. unat (from_be (slice (22 + k * 8 + i * 2) (22 + k * 8 + i * 2 + 2) r) :: u16)) [0..<k] = map length fs"
    "length r - (22 + k * 10) = fold max (map length fs) 0"
proof -
  have tx: "tx_counters tx = map frame_counter fs" "tx_lens tx = map (\<lambda>f. of_nat (length f)) fs"
    using assms(1) by (auto simp: tx_group_def)
  note lay = recovery_layout [of key tx k, folded r_def]
  have prem: "length key = 8" "length (tx_counters tx) = k" "length (tx_lens tx) = k" "k \<le> 16"
    using assms tx by simp_all
  show "length r - (22 + k * 10) = fold max (map length fs) 0"
    using lay(1) [OF prem] assms(1) by (simp add: tx_group_def)
  show "map (\<lambda>i. from_be (slice (22 + i * 8) (22 + i * 8 + 8) r)) [0..<k] = map frame_counter fs"
    by (rule nth_equalityI) (use lay(7) [OF prem] tx assms(3) in \<open>simp_all\<close>)
  have u: "unat (of_nat (length f) :: u16) = length f" if "f \<in> set fs" for f
    using that assms(1) by (auto simp: tx_group_def data_frame_def list_all_iff unat_of_nat take_bit_nat_eq_self)
  show "map (\<lambda>i. unat (from_be (slice (22 + k * 8 + i * 2) (22 + k * 8 + i * 2 + 2) r) :: u16)) [0..<k] = map length fs"
    by (rule nth_equalityI) (use lay(8) [OF prem] tx assms(3) u in \<open>simp_all\<close>)
qed

lemma fold_max_upper: "(x :: nat) \<in> set xs \<Longrightarrow> x \<le> fold max xs a"
proof -
  have "a \<le> fold max xs a \<and> (\<forall>x \<in> set xs. x \<le> fold max xs a)"
  proof (induction xs arbitrary: a)
    case (Cons y xs)
    show ?case using Cons [of "max y a"] by (auto simp: le_max_iff_disj)
  qed simp
  then show "x \<in> set xs \<Longrightarrow> x \<le> fold max xs a" by blast
qed

lemma accept_recovery_one_missing:
  assumes "tx_group tx fs" "length key = 8" "fs = xs @ f # ys" "length fs = k" "2 \<le> k" "k \<le> 16"
    and "\<forall>g \<in> set xs \<union> set ys. map_of (rx_cache rx) (frame_counter g) = Some g"
    and "map_of (rx_cache rx) (frame_counter f) = None" "tx_group_seq tx \<notin> set (rx_seen_groups rx)"
  shows "accept_recovery rx (encode_recovery tx key) =
    (let rx = remember_group (tx_group_seq tx) rx in rx\<lparr> rx_recovered := rx_recovered rx + 1 \<rparr>, Inr (Some f))"
proof -
  let ?r = "encode_recovery tx key"
  have ok: "\<forall>g \<in> set fs. data_frame g" "\<forall>i. byte_at (tx_acc tx) i = xor_sum fs i"
    "length (tx_acc tx) = fold max (map length fs) 0"
    using assms(1) by (auto simp: tx_group_def list_all_iff)
  have lens: "length (tx_counters tx) = k" "length (tx_lens tx) = k" using assms(1,4) by (auto simp: tx_group_def)
  note lay = recovery_layout [of key tx k, OF assms(2) lens assms(6)]
  note fields = recovery_fields [OF assms(1,2,4,6)]
  have le: "length g \<le> length (tx_acc tx)" if "g \<in> set fs" for g
    using fold_max_upper [of "length g" "map length fs" 0] that ok(3) by simp
  have no_bad: "List.find (\<lambda>l. l < 74) (map length fs) = None"
    using ok(1) by (auto simp: find_None_iff data_frame_def)
  have miss: "find_missing (rx_cache rx) 0 (map frame_counter fs) None 0 = (Some (length xs), 1)"
    using find_missing_one [of "map frame_counter xs" "map frame_counter ys" "rx_cache rx" "frame_counter f"] assms(3,7,8)
    by auto
  have reb: "take (length f) (fec_rebuild (rx_cache rx) (length xs) (map frame_counter fs) (tx_acc tx)) = f"
    "length (fec_rebuild (rx_cache rx) (length xs) (map frame_counter fs) (tx_acc tx)) = length (tx_acc tx)"
    using fec_rebuild_one [of xs ys "rx_cache rx" "tx_acc tx" f] assms(3,7) le ok(2) by auto
  have f: "data_frame f" "map length fs ! length xs = length f" "map frame_counter fs ! length xs = frame_counter f"
    using ok(1) assms(3) by (auto simp: nth_append)
  have rem: "rx_cache (remember_group g rx) = rx_cache rx" for g by (simp add: remember_group_def Let_def)
  have g1: "f ! 0 = 1" "f ! 1 = 2" using f(1) by (simp_all add: data_frame_def)
  have g2: "\<not> length (tx_acc tx) < length f" using le [of f] assms(3) by simp
  have hdr: "FEC_FRAME_HEADER_SIZE + RECOVERY_FIXED_BODY = 22" by (simp add: const_defs)
  have g3: "\<not> length ?r < 22 + k * 10" "\<not> length ?r < 22" using lay(1) by simp_all
  show ?thesis
    unfolding accept_recovery_def accept_tail_def Let_def hdr
    using lay(2-6) g3 assms(5,6,9) fields no_bad miss reb f g1 g2 data_counter_frame [OF f(1)]
    by (simp add: const_defs rem ok(3))
qed

text \<open>
  C20. Forward error correction recovers the lost frame: a sender with an empty group that is fed
  as many Data frames as its group has emits exactly one recovery frame, after the last, and is ready for the
  next group; a receiver that has all of these frames but one gets the missing frame back, byte for byte.
\<close>

theorem fec_recovers_lost_frame:
  assumes "tx_group tx []" "length fs = tx_k tx" "list_all data_frame fs" "length key = 8" "mi < length fs"
    and "\<forall>j < length fs. j \<noteq> mi \<longrightarrow> map_of (rx_cache rx) (frame_counter (fs ! j)) = Some (fs ! j)"
    and "map_of (rx_cache rx) (frame_counter (fs ! mi)) = None"
    and "tx_group_seq tx \<notin> set (rx_seen_groups rx)"
  shows "\<exists>tx' rec rx'. push_all tx fs key = Inr (tx', [rec]) \<and> tx_group tx' []
    \<and> tx_group_seq tx' = tx_group_seq tx + 1
    \<and> accept_recovery rx rec = (rx', Inr (Some (fs ! mi))) \<and> rx_recovered rx' = rx_recovered rx + 1"
proof -
  have k: "2 \<le> tx_k tx" "tx_k tx \<le> 16" using assms(1) by (auto simp: tx_group_def)
  let ?tx' = "tx\<lparr> tx_group_seq := tx_group_seq tx + 1, tx_acc := [], tx_counters := [], tx_lens := [] \<rparr>"
  have "length ([] :: bytes list) + length fs = tx_k tx" "fs \<noteq> []" using assms(2,5) by auto
  then obtain tx1 where push: "push_all tx fs key = Inr (?tx', [encode_recovery tx1 key])"
    and g: "tx_group tx1 fs" "tx_group_seq tx1 = tx_group_seq tx"
    using push_all_group [OF assms(1,3)] by fastforce
  have empty: "tx_group ?tx' []" using k by (simp add: tx_group_def byte_at_def)
  define xs ys where "xs = take mi fs" and "ys = drop (Suc mi) fs"
  have split: "fs = xs @ fs ! mi # ys" unfolding xs_def ys_def using assms(5) by (rule id_take_nth_drop)
  have "\<forall>g \<in> set xs \<union> set ys. map_of (rx_cache rx) (frame_counter g) = Some g"
  proof
    fix g assume "g \<in> set xs \<union> set ys"
    then have "\<exists>j < length fs. j \<noteq> mi \<and> fs ! j = g"
    proof
      assume "g \<in> set xs"
      then obtain j where "j < mi" "fs ! j = g" using assms(5) by (auto simp: xs_def in_set_conv_nth)
      then show ?thesis using assms(5) by (intro exI [of _ j]) auto
    next
      assume "g \<in> set ys"
      then obtain j where "j < length fs - Suc mi" "fs ! (Suc mi + j) = g" by (auto simp: ys_def in_set_conv_nth)
      then show ?thesis by (intro exI [of _ "Suc mi + j"]) auto
    qed
    then show "map_of (rx_cache rx) (frame_counter g) = Some g" using assms(6) by blast
  qed
  note acc = accept_recovery_one_missing [OF g(1) assms(4) split assms(2) k this assms(7)]
  show ?thesis
    using push empty acc assms(8) g(2)
    by (intro exI [of _ ?tx'] exI [of _ "encode_recovery tx1 key"]) (simp add: remember_group_def Let_def)
qed

definition sample_frame :: "u8 \<Rightarrow> bytes" where
  "sample_frame n = [1, 2] @ replicate 8 0 @ replicate 40 n @ [0, 0, 0, 0, 0, 0, 0, n] @ replicate 16 7"

lemma sample_frame_facts:
  "data_frame (sample_frame n)" "frame_counter (sample_frame 1) = 1" "frame_counter (sample_frame 2) = 2"
  by (simp_all add: data_frame_def sample_frame_def frame_counter_def slice_def)

lemma fec_recovers_lost_frame_witness:
  "\<exists>tx tx' rec rx rx'. fec_tx_new 2 = Inr tx
     \<and> push_all tx [sample_frame 1, sample_frame 2] (replicate 8 0) = Inr (tx', [rec])
     \<and> observe_data (fec_rx_new 0) (sample_frame 1) = Some (Inr rx)
     \<and> accept_recovery rx rec = (rx', Inr (Some (sample_frame 2)))"
proof -
  obtain tx where tx: "fec_tx_new 2 = Inr tx" "tx_group_seq tx = 0" by (simp add: fec_tx_new_def const_defs)
  note g = tx_group_new [OF tx(1)]
  obtain rx where rx: "observe_data (fec_rx_new 0) (sample_frame 1) = Some (Inr rx)"
    "rx_cache rx = [(1, sample_frame 1)]" "rx_seen_groups rx = []"
    using sample_frame_facts(1) [of 1]
    by (simp add: observe_data_def data_counter_frame sample_frame_facts fec_rx_new_def const_defs data_frame_def)
  have "\<forall>j < length [sample_frame 1, sample_frame 2]. j \<noteq> 1 \<longrightarrow>
      map_of (rx_cache rx) (frame_counter ([sample_frame 1, sample_frame 2] ! j)) =
      Some ([sample_frame 1, sample_frame 2] ! j)"
    using rx(2) by (simp add: less_Suc_eq sample_frame_facts)
  then show ?thesis
    using fec_recovers_lost_frame [of tx "[sample_frame 1, sample_frame 2]" "replicate 8 0" 1 rx] g tx rx
    by (auto simp: sample_frame_facts)
qed

section \<open>The receiver's state\<close>

text \<open>The queue holds the keys of the cache, each once; cache and group ring respect their limits.\<close>

definition rx_inv :: "fec_rx \<Rightarrow> bool" where
  "rx_inv rx \<longleftrightarrow> distinct (map fst (rx_cache rx)) \<and> distinct (rx_order rx)
     \<and> set (rx_order rx) = fst ` set (rx_cache rx)
     \<and> length (rx_cache rx) \<le> rx_limit rx \<and> length (rx_seen_groups rx) \<le> 128"

lemma length_order: "distinct (map fst cache) \<Longrightarrow> distinct order \<Longrightarrow> set order = fst ` set cache \<Longrightarrow>
    length order = length cache"
  by (metis distinct_card length_map set_map)

lemma evict_one:
  assumes "distinct (map fst cache)" "distinct order" "set order = fst ` set cache"
    and "length cache \<le> limit + 1" "1 \<le> limit"
  shows "\<exists>cache' order'. evict limit cache order = Some (cache', order') \<and> distinct (map fst cache')
    \<and> distinct order' \<and> set order' = fst ` set cache' \<and> length cache' \<le> limit
    \<and> map_of cache' (last order) = map_of cache (last order)"
proof (cases "length cache > limit")
  case False
  then show ?thesis using assms by (cases order) auto
next
  case True
  have lo: "length order = length cache" using assms(1-3) by (rule length_order)
  then obtain x y order' where o: "order = x # y # order'" using True assms(5) by (cases order rule: remdups_adj.cases) auto
  have del: "distinct (map fst (AList.delete x cache))" "fst ` set (AList.delete x cache) = set (y # order')"
    using assms(1-3) o arg_cong [OF delete_keys [of x cache], of set]
    by (auto simp: delete_keys image_iff distinct_removeAll simp flip: set_map)
  have "length (AList.delete x cache) = length (y # order')"
    using length_order [of "AList.delete x cache" "y # order'"] del assms(2) o by auto
  then have fit: "\<not> limit < length (AList.delete x cache)" using lo o assms(4) by simp
  have "last order \<noteq> x" using o assms(2) by auto
  then show ?thesis
    using True fit del assms(2) o by (auto simp: delete_conv')
qed

text \<open>
  Observing a frame always returns, keeps the cache and its eviction queue in step and within
  the limit, and afterwards the frame is in the cache under its counter.
\<close>

theorem observe_data_bounded:
  assumes "rx_inv rx" "1 \<le> rx_limit rx" "data_frame f"
  shows "\<exists>rx'. observe_data rx f = Some (Inr rx') \<and> rx_inv rx' \<and> rx_limit rx' = rx_limit rx
    \<and> map_of (rx_cache rx') (frame_counter f) = Some f"
proof (cases "map_of (rx_cache rx) (frame_counter f) = None")
  case False
  then have mem: "frame_counter f \<in> fst ` set (rx_cache rx)" by (simp add: map_of_eq_None_iff)
  then have keys: "map fst (AList.update (frame_counter f) f (rx_cache rx)) = map fst (rx_cache rx)"
    by (simp add: update_keys)
  then have "length (AList.update (frame_counter f) f (rx_cache rx)) = length (rx_cache rx)"
    "fst ` set (AList.update (frame_counter f) f (rx_cache rx)) = fst ` set (rx_cache rx)"
    by (metis length_map, metis set_map)
  then show ?thesis
    using False assms keys
    by (simp add: observe_data_def data_counter_frame data_frame_def const_defs rx_inv_def update_conv')
next
  case True
  define cache where "cache = AList.update (frame_counter f) f (rx_cache rx)"
  define order where "order = rx_order rx @ [frame_counter f]"
  have new: "frame_counter f \<notin> fst ` set (rx_cache rx)" using True by (simp add: map_of_eq_None_iff)
  then have keys: "map fst cache = map fst (rx_cache rx) @ [frame_counter f]"
    by (simp add: cache_def update_keys)
  have len: "length cache = length (rx_cache rx) + 1" using arg_cong [OF keys, of length] by simp
  have fs: "fst ` set cache = insert (frame_counter f) (fst ` set (rx_cache rx))"
    using arg_cong [OF keys, of set] by simp
  have pre: "distinct (map fst cache)" "distinct order" "set order = fst ` set cache" "length cache \<le> rx_limit rx + 1"
    using assms(1) new keys len fs by (auto simp: rx_inv_def order_def)
  obtain cache' order' where e: "evict (rx_limit rx) cache order = Some (cache', order')"
    "distinct (map fst cache')" "distinct order'" "set order' = fst ` set cache'" "length cache' \<le> rx_limit rx"
    "map_of cache' (frame_counter f) = map_of cache (frame_counter f)"
    using evict_one [OF pre assms(2)] by (auto simp: order_def)
  show ?thesis
    using True assms e
    by (simp add: observe_data_def data_counter_frame data_frame_def const_defs rx_inv_def Let_def
        update_conv' flip: cache_def order_def) (simp add: cache_def update_conv')
qed

lemma observe_data_bounded_witness:
  "\<exists>rx'. observe_data (fec_rx_new 0) (sample_frame 1) = Some (Inr rx') \<and> rx_inv rx'
     \<and> map_of (rx_cache rx') 1 = Some (sample_frame 1)"
  using observe_data_bounded [of "fec_rx_new 0" "sample_frame 1"] sample_frame_facts
  by (auto simp: rx_inv_def fec_rx_new_def const_defs)

section \<open>Recovery frames: groups are handled once\<close>

interpretation group_ring: recent_ring remember_group rx_seen_groups 128
  by unfold_locales (simp_all add: remember_group_def MAX_SEEN_GROUPS_def Let_def Suc_diff_le)

lemma remember_group_inv: "rx_inv rx \<Longrightarrow> rx_inv (remember_group g rx)"
  using group_ring.bounded [of rx g] by (simp add: rx_inv_def) (simp add: remember_group_def Let_def)

lemma find_missing_not_cached:
  "find_missing cache i cs m n = (Some mi, 1) \<Longrightarrow> n = 0 \<Longrightarrow> m = None \<Longrightarrow>
   i \<le> mi \<and> mi < i + length cs \<and> map_of cache (cs ! (mi - i)) = None"
proof (induction cs arbitrary: i)
  case (Cons c cs)
  have one: "find_missing cache j ds (Some x) 1 = (Some mi, 1) \<Longrightarrow> mi = x" for j x ds
    by (induction ds arbitrary: j) (auto split: if_splits)
  show ?case
  proof (cases "map_of cache c = None")
    case True
    then show ?thesis using Cons.prems one [of "Suc i" cs i] by simp
  next
    case False
    then show ?thesis using Cons.IH [of "Suc i"] Cons.prems by (auto simp: nth_Cons' Suc_diff_le split: if_splits)
  qed
qed simp

lemma accept_recovery_stages:
  assumes "accept_recovery rx frame = (rx', res)"
  shows "rx' = rx \<and> (\<exists>e. res = Inl e)
    \<or> from_be (slice 10 18 frame) \<in> set (rx_seen_groups rx)
        \<and> rx' = rx\<lparr> rx_dup_recovery := rx_dup_recovery rx + 1 \<rparr> \<and> res = Inr None
    \<or> from_be (slice 10 18 frame) \<notin> set (rx_seen_groups rx)
        \<and> (\<exists>counters lens seg. accept_tail (remember_group (from_be (slice 10 18 frame)) rx) counters lens seg = (rx', res))"
  using assms unfolding accept_recovery_def Let_def by (auto split: if_splits option.splits)

lemma accept_tail_sound:
  assumes "accept_tail rx counters lens seg = (rx', res)"
  shows "rx_cache rx' = rx_cache rx \<and> rx_seen_groups rx' = rx_seen_groups rx \<and> rx_order rx' = rx_order rx
    \<and> rx_limit rx' = rx_limit rx
    \<and> (\<forall>f. res = Inr (Some f) \<longrightarrow> f ! 0 = 1 \<and> f ! 1 = 2
          \<and> (\<exists>c. data_counter f = Inr c \<and> c \<in> set counters \<and> map_of (rx_cache rx) c = None))"
proof -
  obtain m n where fm: "find_missing (rx_cache rx) 0 counters None 0 = (m, n)" by (metis surj_pair)
  show ?thesis
  proof (cases "n = 1")
    case False
    then show ?thesis using assms fm by (auto simp: accept_tail_def split: if_splits)
  next
    case True
    show ?thesis
    proof (cases m)
      case None
      then show ?thesis using assms fm True by (auto simp: accept_tail_def)
    next
      case (Some mi)
      have "mi < length counters" "map_of (rx_cache rx) (counters ! mi) = None"
        using find_missing_not_cached [of "rx_cache rx" 0 counters None 0 mi] fm True Some by auto
      then show ?thesis
        using assms fm True Some
        by (auto simp: accept_tail_def Let_def const_defs split: if_splits sum.splits)
    qed
  qed
qed

text \<open>
  A recovery frame can do no harm, whatever its bytes are: the receiver stays well formed
  and keeps its cache, what it returns is a Data frame whose counter is listed in the recovery frame and was
  missing from the cache, and the same group is answered with nothing when it comes again.
\<close>

theorem accept_recovery_sound:
  assumes "rx_inv rx" "accept_recovery rx r = (rx', res)"
  shows "rx_inv rx' \<and> rx_cache rx' = rx_cache rx
    \<and> (\<forall>f. res = Inr (Some f) \<longrightarrow> f ! 0 = 1 \<and> f ! 1 = 2
         \<and> (\<exists>c. data_counter f = Inr c \<and> map_of (rx_cache rx) c = None))
    \<and> ((\<exists>o'. res = Inr o') \<longrightarrow> (\<forall>rx'' res'. accept_recovery rx' r = (rx'', res') \<longrightarrow> \<not> (\<exists>f. res' = Inr (Some f))))"
proof -
  define g :: u64 where "g = from_be (slice 10 18 r)"
  have dup: "\<not> (\<exists>f. res' = Inr (Some f))"
    if "g \<in> set (rx_seen_groups rx0)" "accept_recovery rx0 r = (rx'', res')" for rx0 rx'' res'
    using accept_recovery_stages [OF that(2)] that(1) unfolding g_def by auto
  consider (err) "rx' = rx" "\<exists>e. res = Inl e"
    | (again) "g \<in> set (rx_seen_groups rx)" "rx' = rx\<lparr> rx_dup_recovery := rx_dup_recovery rx + 1 \<rparr>" "res = Inr None"
    | (tail) counters lens seg where "accept_tail (remember_group g rx) counters lens seg = (rx', res)"
    using accept_recovery_stages [OF assms(2)] unfolding g_def by metis
  then show ?thesis
  proof cases
    case err
    then show ?thesis using assms(1) by auto
  next
    case again
    then have "g \<in> set (rx_seen_groups rx')" by simp
    note again_dup = dup [OF this]
    have "rx_inv rx'" "rx_cache rx' = rx_cache rx" using again(2) assms(1) by (simp_all add: rx_inv_def)
    then show ?thesis using again(3) again_dup by blast
  next
    case tail
    note snd = accept_tail_sound [OF tail]
    have cache: "rx_cache (remember_group g rx) = rx_cache rx" by (simp add: remember_group_def Let_def)
    have "rx_inv rx'" using remember_group_inv [OF assms(1), of g] snd by (simp add: rx_inv_def)
    moreover have "g \<in> set (rx_seen_groups rx')"
      using group_ring.just_seen [of rx g] assms(1) snd by (simp add: rx_inv_def)
    note tail_dup = dup [OF this]
    moreover have "\<forall>f. res = Inr (Some f) \<longrightarrow> f ! 0 = 1 \<and> f ! 1 = 2
         \<and> (\<exists>c. data_counter f = Inr c \<and> map_of (rx_cache rx) c = None)"
      using snd unfolding cache by blast
    ultimately show ?thesis using snd cache by (metis (no_types, lifting))
  qed
qed

lemma accept_recovery_sound_witness:
  "\<exists>rx' res. accept_recovery (fec_rx_new 4) [1, 6] = (rx', res) \<and> rx_inv rx'"
proof -
  obtain rx' res where "accept_recovery (fec_rx_new 4) [1, 6] = (rx', res)" by (metis surj_pair)
  then show ?thesis
    using accept_recovery_sound [of "fec_rx_new 4" "[1, 6]" rx' res] by (auto simp: rx_inv_def fec_rx_new_def)
qed

end
