(* ===== verification/NeighWire.thy ===== *)
theory NeighWire
  imports CodecHeader
begin

text \<open>
  The wire side of \<open>ipv8-neigh/src/lib.rs\<close>: the 136-byte signed HELLO and ACK messages, the
  classification of frame payloads, the table of authorised neighbours with its file format, and the
  text form of MAC addresses. An \<open>i64\<close> is an \<open>int\<close> in its range; a fixed array is a byte
  list whose length the lemmas state. The texts that errors carry are not modelled.
\<close>

section \<open>Constants and errors\<close>

definition N_MAGIC :: bytes where "N_MAGIC = map of_char ''IP8N''"
definition N_VERSION :: u8 where [const_defs]: "N_VERSION = 1"
definition MSG_HELLO :: u8 where [const_defs]: "MSG_HELLO = 1"
definition MSG_ACK :: u8 where [const_defs]: "MSG_ACK = 2"
definition MSG_LEN :: nat where [const_defs]: "MSG_LEN = 136"
definition SIG_LEN :: nat where [const_defs]: "SIG_LEN = 64"
definition SIGNED_LEN :: nat where [const_defs]: "SIGNED_LEN = 72"
definition TS_WINDOW_SECS :: int where [const_defs]: "TS_WINDOW_SECS = 300"
definition NONCE_RING :: nat where [const_defs]: "NONCE_RING = 64"
definition PENDING_TTL_SECS :: int where [const_defs]: "PENDING_TTL_SECS = 30"
definition PENDING_MAX :: nat where [const_defs]: "PENDING_MAX = 1024"
definition STORE_MAGIC_1 :: bytes where "STORE_MAGIC_1 = map of_char ''IP8N''"
definition STORE_MAGIC_2 :: bytes where "STORE_MAGIC_2 = map of_char ''NBHR''"
definition STORE_HDR_LEN :: nat where [const_defs]: "STORE_HDR_LEN = 13"
definition RECORD_LEN :: nat where [const_defs]: "RECORD_LEN = 64"
definition STORE_VERSION :: u8 where [const_defs]: "STORE_VERSION = 1"

datatype neigh_error =
    BadLength nat nat
  | Neigh_BadMagic
  | Neigh_BadVersion u8
  | UnknownType u8
  | BadFlags u16
  | BadTimestamp
  | BadSignature
  | TimestampOutOfWindow int int
  | Neigh_Replay u64
  | UnexpectedType u8
  | AckNonceMismatch u64
  | StoreTooShort
  | StoreMagic
  | StoreVersion u8
  | StoreLength nat nat
  | Neigh_Io
  | Neigh_Transport

text \<open>The range of an \<open>i64\<close>, and \<open>saturating_sub\<close> on it.\<close>

definition i64 :: "int \<Rightarrow> bool" where
  "i64 z \<longleftrightarrow> - (2 ^ 63) \<le> z \<and> z < 2 ^ 63"

definition sat_sub64 :: "int \<Rightarrow> int \<Rightarrow> int" where
  "sat_sub64 a b = max (- (2 ^ 63)) (min (2 ^ 63 - 1) (a - b))"

section \<open>Messages\<close>

record neighbor_message =
  nm_type :: u8
  nm_flags :: u16
  nm_addr :: bytes
  nm_ts :: int
  nm_nonce :: u64
  nm_pubkey :: bytes
  nm_sig :: bytes

definition encode_parts :: "u8 \<Rightarrow> bytes \<Rightarrow> int \<Rightarrow> u64 \<Rightarrow> bytes \<Rightarrow> bytes \<Rightarrow> bytes" where
  "encode_parts msg_type addr ts nonce pubkey sig =
     N_MAGIC @ [N_VERSION, msg_type] @ to_be16 0 @ addr @ to_be64 (word_of_int ts) @ to_be64 nonce @ pubkey @ sig"

definition neigh_decode :: "bytes \<Rightarrow> neigh_error + neighbor_message" where
  "neigh_decode buf = (
     if length buf \<noteq> MSG_LEN then Inl (BadLength MSG_LEN (length buf))
     else if slice 0 4 buf \<noteq> N_MAGIC then Inl Neigh_BadMagic
     else if buf ! 4 \<noteq> N_VERSION then Inl (Neigh_BadVersion (buf ! 4))
     else if \<not> (buf ! 5 = MSG_HELLO \<or> buf ! 5 = MSG_ACK) then Inl (UnknownType (buf ! 5))
     else
       let flags = from_be [buf ! 6, buf ! 7]
       in if flags \<noteq> 0 then Inl (BadFlags flags)
          else
            let raw_ts = from_be (slice 24 32 buf) :: u64
            in if uint raw_ts \<ge> 2 ^ 63 then Inl BadTimestamp
               else Inr \<lparr> nm_type = buf ! 5, nm_flags = flags, nm_addr = slice 8 24 buf, nm_ts = uint raw_ts,
                 nm_nonce = from_be (slice 32 40 buf), nm_pubkey = slice 40 72 buf, nm_sig = slice 72 136 buf \<rparr>)"

definition signing_domain :: "bytes \<Rightarrow> bytes" where
  "signing_domain buf = take (min SIGNED_LEN (length buf)) buf"

definition neigh_encode :: "neighbor_message \<Rightarrow> bytes" where
  "neigh_encode m = encode_parts (nm_type m) (nm_addr m) (nm_ts m) (nm_nonce m) (nm_pubkey m) (nm_sig m)"

text \<open>The operations that \<open>SignatureOps\<close> injects, for the key pair of the implementor.\<close>

record signature_ops =
  sig_sign :: "bytes \<Rightarrow> bytes"
  sig_verify :: "bytes \<Rightarrow> bytes \<Rightarrow> bytes \<Rightarrow> bool"

definition build_signed :: "signature_ops \<Rightarrow> u8 \<Rightarrow> bytes \<Rightarrow> int \<Rightarrow> u64 \<Rightarrow> bytes \<Rightarrow> bytes" where
  "build_signed signer msg_type addr ts nonce pubkey = (
     let unsigned = encode_parts msg_type addr ts nonce pubkey (replicate SIG_LEN 0);
         sig = sig_sign signer (take SIGNED_LEN unsigned)
     in encode_parts msg_type addr ts nonce pubkey sig)"

section \<open>Payload classification\<close>

datatype l2_kind = Kind_Neighbor | Kind_Ipv8 | Kind_Other

definition l2_classify :: "bytes \<Rightarrow> l2_kind" where
  "l2_classify payload = (
     if length payload \<ge> 4 \<and> slice 0 4 payload = N_MAGIC
     then (if length payload = MSG_LEN then Kind_Neighbor else Kind_Other)
     else (case payload of
         b # _ \<Rightarrow> if drop_bit 4 b = 0x8 then Kind_Ipv8 else Kind_Other
       | [] \<Rightarrow> Kind_Other))"

definition is_neighbor_payload :: "bytes \<Rightarrow> bool" where
  "is_neighbor_payload payload \<longleftrightarrow> l2_classify payload = Kind_Neighbor"

section \<open>The neighbour table\<close>

record neighbor_record =
  nr_mac :: bytes
  nr_addr :: bytes
  nr_pubkey :: bytes
  nr_ts :: int

type_synonym neighbor_store = "neighbor_record list"

definition store_contains :: "neighbor_store \<Rightarrow> bytes \<Rightarrow> bool" where
  "store_contains peers pubkey = list_ex (\<lambda>p. nr_pubkey p = pubkey) peers"

fun upsert :: "neighbor_store \<Rightarrow> bytes \<Rightarrow> bytes \<Rightarrow> bytes \<Rightarrow> int \<Rightarrow> neighbor_store" where
  "upsert [] mac addr pubkey ts = [\<lparr> nr_mac = mac, nr_addr = addr, nr_pubkey = pubkey, nr_ts = ts \<rparr>]"
| "upsert (p # ps) mac addr pubkey ts =
    (if nr_pubkey p = pubkey then p\<lparr> nr_mac := mac, nr_addr := addr, nr_ts := ts \<rparr> # ps
     else p # upsert ps mac addr pubkey ts)"

definition remove_where :: "(neighbor_record \<Rightarrow> bool) \<Rightarrow> neighbor_store \<Rightarrow> neighbor_store \<times> bool" where
  "remove_where hit peers = (
     let before = length peers; peers = filter (\<lambda>p. \<not> hit p) peers in (peers, length peers \<noteq> before))"

definition remove_pubkey :: "bytes \<Rightarrow> neighbor_store \<Rightarrow> neighbor_store \<times> bool" where
  "remove_pubkey pubkey = remove_where (\<lambda>p. nr_pubkey p = pubkey)"

definition remove_pubkey_prefix :: "bytes \<Rightarrow> neighbor_store \<Rightarrow> neighbor_store \<times> bool" where
  "remove_pubkey_prefix prefix peers = (
     if prefix = [] then (peers, False)
     else remove_where (\<lambda>p. take (length prefix) (nr_pubkey p) = prefix) peers)"

definition remove_addr :: "bytes \<Rightarrow> neighbor_store \<Rightarrow> neighbor_store \<times> bool" where
  "remove_addr addr = remove_where (\<lambda>p. nr_addr p = addr)"

definition remove_mac :: "bytes \<Rightarrow> neighbor_store \<Rightarrow> neighbor_store \<times> bool" where
  "remove_mac mac = remove_where (\<lambda>p. nr_mac p = mac)"

definition encode_record :: "neighbor_record \<Rightarrow> bytes" where
  "encode_record p = nr_mac p @ [0, 0] @ nr_addr p @ nr_pubkey p @ to_le64 (word_of_int (nr_ts p))"

definition encode_vec :: "neighbor_store \<Rightarrow> bytes" where
  "encode_vec peers = (
     let count = (if length peers < 2 ^ 32 then of_nat (length peers) else 0xFFFFFFFF) :: u32
     in STORE_MAGIC_1 @ STORE_MAGIC_2 @ [STORE_VERSION] @ to_le32 count @ concat (map encode_record peers))"

definition decode_record :: "bytes \<Rightarrow> neighbor_record" where
  "decode_record rec = \<lparr> nr_mac = slice 0 6 rec, nr_addr = slice 8 24 rec, nr_pubkey = slice 24 56 rec,
     nr_ts = sint (from_le (slice 56 64 rec) :: u64) \<rparr>"

definition decode_slice :: "bytes \<Rightarrow> neigh_error + neighbor_store" where
  "decode_slice buf = (
     if length buf < STORE_HDR_LEN then Inl StoreTooShort
     else if slice 0 4 buf \<noteq> STORE_MAGIC_1 \<or> slice 4 8 buf \<noteq> STORE_MAGIC_2 then Inl StoreMagic
     else if buf ! 8 \<noteq> STORE_VERSION then Inl (StoreVersion (buf ! 8))
     else
       let count = unat (from_le [buf ! 9, buf ! 10, buf ! 11, buf ! 12] :: u32);
           expect = STORE_HDR_LEN + count * RECORD_LEN
       in if length buf \<noteq> expect then Inl (StoreLength expect (length buf))
          else Inr (fold (\<lambda>i store.
            let base = STORE_HDR_LEN + i * RECORD_LEN;
                r = decode_record (slice base (base + RECORD_LEN) buf)
            in upsert store (nr_mac r) (nr_addr r) (nr_pubkey r) (nr_ts r)) [0..<count] []))"

section \<open>MAC addresses\<close>

definition mac_to_hex :: "bytes \<Rightarrow> bytes" where
  "mac_to_hex mac = join_with (of_char (CHR '':'')) (map hex_byte mac)"

text \<open>\<open>u8::from_str_radix(s, 16)\<close>: an optional plus sign, then hex digits, without overflow.\<close>

fun parse_hex_digits :: "nat \<Rightarrow> bytes \<Rightarrow> nat option" where
  "parse_hex_digits acc [] = Some acc"
| "parse_hex_digits acc (b # bs) =
    (if is_ascii_hexdigit b
     then let n = acc * 16 + unat (hex_val b) in if n > 255 then None else parse_hex_digits n bs
     else None)"

definition parse_hex_u8 :: "bytes \<Rightarrow> u8 option" where
  "parse_hex_u8 s = (
     let ds = (case s of [] \<Rightarrow> [] | b # bs \<Rightarrow> if b = 0x2B then bs else s)
     in if ds = [] then None else map_option of_nat (parse_hex_digits 0 ds))"

fun parse_hex_parts :: "bytes list \<Rightarrow> bytes option" where
  "parse_hex_parts [] = Some []"
| "parse_hex_parts (p # ps) = (case parse_hex_u8 p of
     None \<Rightarrow> None
   | Some b \<Rightarrow> map_option (\<lambda>bs. b # bs) (parse_hex_parts ps))"

definition mac_parse :: "bytes \<Rightarrow> neigh_error + bytes" where
  "mac_parse s = (
     let parts = split_on (of_char (CHR '':'')) s
     in if length parts \<noteq> 6 then Inl Neigh_Transport
        else case parse_hex_parts parts of None \<Rightarrow> Inl Neigh_Transport | Some mac \<Rightarrow> Inr mac)"

section \<open>Messages: exactly the encodings are accepted\<close>

definition msg_ok :: "neighbor_message \<Rightarrow> bool" where
  "msg_ok m \<longleftrightarrow> (nm_type m = MSG_HELLO \<or> nm_type m = MSG_ACK) \<and> nm_flags m = 0 \<and> length (nm_addr m) = 16
     \<and> 0 \<le> nm_ts m \<and> nm_ts m < 2 ^ 63 \<and> length (nm_pubkey m) = 32 \<and> length (nm_sig m) = 64"

lemma length_magics [simp]: "length N_MAGIC = 4" "length STORE_MAGIC_1 = 4" "length STORE_MAGIC_2 = 4"
  by (simp_all add: N_MAGIC_def STORE_MAGIC_1_def STORE_MAGIC_2_def)

lemma slice_Cons: "0 < a \<Longrightarrow> slice a b (x # xs) = slice (a - 1) (b - 1) xs"
  by (cases a; cases b) (simp_all add: slice_def)

lemma to_be16_zero: "to_be16 0 = [0, 0]"
  by (simp add: to_be16_def numeral_2_eq_2)

lemma from_be_zero: "from_be [b, c] = (0 :: u16) \<Longrightarrow> b = 0 \<and> c = 0"
  using to_be_from_be(1) [of "[b, c]"] by (simp add: to_be16_zero)

lemma neigh_decode_encode_msg: "msg_ok m \<Longrightarrow> neigh_decode (neigh_encode m) = Inr m"
proof -
  assume ok: "msg_ok m"
  let ?b = "neigh_encode m"
  have b: "?b = N_MAGIC @ [1, nm_type m, 0, 0] @ nm_addr m @ to_be64 (word_of_int (nm_ts m)) @ to_be64 (nm_nonce m)
      @ nm_pubkey m @ nm_sig m"
    by (simp add: neigh_encode_def encode_parts_def to_be16_zero const_defs)
  have len: "length ?b = 136" using ok by (simp add: b msg_ok_def)
  have head: "slice 0 4 ?b = N_MAGIC" "?b ! 4 = 1" "?b ! 5 = nm_type m" "?b ! 6 = 0" "?b ! 7 = 0"
    by (simp_all add: b slice_append_left slice_full nth_append)
  have fields: "slice 8 24 ?b = nm_addr m" "slice 24 32 ?b = to_be64 (word_of_int (nm_ts m))"
    "slice 32 40 ?b = to_be64 (nm_nonce m)" "slice 40 72 ?b = nm_pubkey m" "slice 72 136 ?b = nm_sig m"
    using ok by (simp_all add: b msg_ok_def slice_append_skip slice_append_left slice_full slice_Cons)
  have "uint (word_of_int (nm_ts m) :: u64) = nm_ts m"
    using ok by (simp add: msg_ok_def unsigned_of_int take_bit_int_eq_self)
  then show ?thesis
    using ok len head fields unfolding neigh_decode_def by (simp add: msg_ok_def const_defs)
qed

lemma neigh_decode_sound:
  assumes "neigh_decode b = Inr m"
  shows "msg_ok m" "b = neigh_encode m"
proof -
  have len: "length b = 136" and head: "slice 0 4 b = N_MAGIC" "b ! 4 = 1" "b ! 5 = MSG_HELLO \<or> b ! 5 = MSG_ACK"
    "from_be [b ! 6, b ! 7] = (0 :: u16)" and ts: "uint (from_be (slice 24 32 b) :: u64) < 2 ^ 63"
    and m: "m = \<lparr> nm_type = b ! 5, nm_flags = 0, nm_addr = slice 8 24 b, nm_ts = uint (from_be (slice 24 32 b) :: u64),
        nm_nonce = from_be (slice 32 40 b), nm_pubkey = slice 40 72 b, nm_sig = slice 72 136 b \<rparr>"
    using assms by (auto simp: neigh_decode_def const_defs Let_def not_le split: if_splits)
  show "msg_ok m" using head(3) ts len by (simp add: msg_ok_def m)
  have "b = slice 0 4 b @ slice 4 8 b @ slice 8 24 b @ slice 24 32 b @ slice 32 40 b @ slice 40 72 b @ slice 72 136 b"
    by (simp add: slice_slices) (simp add: slice_def len)
  also have "slice 4 8 b = [b ! 4, b ! 5, b ! 6, b ! 7]"
    by (rule nth_equalityI) (auto simp: len slice_nth less_Suc_eq numeral_eq_Suc)
  also have "slice 24 32 b = to_be64 (word_of_int (nm_ts m))" using len by (simp add: m to_be_from_be)
  also have "slice 32 40 b = to_be64 (nm_nonce m)" using len by (simp add: m to_be_from_be)
  finally show "b = neigh_encode m"
    using head from_be_zero [OF head(4)] by (simp add: neigh_encode_def encode_parts_def m to_be16_zero const_defs)
qed

text \<open>
  The neighbour decoder accepts exactly the encodings of the well-formed messages (HELLO or ACK,
  zero flags, a timestamp in range, fields of their fixed lengths), and returns the message encoded.
\<close>

theorem neigh_decode_iff: "neigh_decode b = Inr m \<longleftrightarrow> msg_ok m \<and> b = neigh_encode m"
  using neigh_decode_sound neigh_decode_encode_msg by blast

section \<open>The neighbour table is a map\<close>

text \<open>The table as the map it stands for, keyed by public key.\<close>

definition peer_map :: "neighbor_store \<Rightarrow> bytes \<Rightarrow> neighbor_record option" where
  "peer_map peers = map_of (map (\<lambda>p. (nr_pubkey p, p)) peers)"

abbreviation peer_keys :: "neighbor_store \<Rightarrow> bytes list" where
  "peer_keys peers \<equiv> map nr_pubkey peers"

lemma store_contains_keys: "store_contains peers k \<longleftrightarrow> k \<in> set (peer_keys peers)"
  by (auto simp: store_contains_def list_ex_iff)

lemma peer_map_upsert: "peer_map (upsert peers mac addr k ts) =
    (peer_map peers)(k \<mapsto> \<lparr> nr_mac = mac, nr_addr = addr, nr_pubkey = k, nr_ts = ts \<rparr>)"
  by (induction peers mac addr k ts rule: upsert.induct) (auto simp: peer_map_def fun_eq_iff)

lemma upsert_keys: "peer_keys (upsert peers mac addr k ts) =
    (if k \<in> set (peer_keys peers) then peer_keys peers else peer_keys peers @ [k])"
  by (induction peers mac addr k ts rule: upsert.induct) auto

lemma upsert_distinct [simp]: "distinct (peer_keys (upsert peers mac addr k ts)) = distinct (peer_keys peers)"
  by (simp add: upsert_keys)

lemma upsert_fresh: "k \<notin> set (peer_keys peers) \<Longrightarrow> upsert peers mac addr k ts =
    peers @ [\<lparr> nr_mac = mac, nr_addr = addr, nr_pubkey = k, nr_ts = ts \<rparr>]"
  by (induction peers mac addr k ts rule: upsert.induct) auto

lemma remove_where_keys: "distinct (peer_keys peers) \<Longrightarrow> distinct (peer_keys (fst (remove_where hit peers)))"
  by (simp add: remove_where_def Let_def distinct_map_filter)

lemma remove_where_hit: "snd (remove_where hit peers) \<longleftrightarrow> (\<exists>p \<in> set peers. hit p)"
proof -
  have "length (filter (\<lambda>p. \<not> hit p) peers) = length peers \<longleftrightarrow> (\<forall>p \<in> set peers. \<not> hit p)"
    by (metis (no_types, lifting) filter_True filter_id_conv length_filter_less less_irrefl)
  then show ?thesis by (auto simp: remove_where_def Let_def)
qed

lemma peer_map_remove:
  assumes "distinct (peer_keys peers)"
  shows "peer_map (fst (remove_where hit peers)) =
    (\<lambda>k. case peer_map peers k of None \<Rightarrow> None | Some p \<Rightarrow> if hit p then None else Some p)"
  using assms
proof (induction peers)
  case (Cons p ps)
  have "nr_pubkey p \<notin> set (peer_keys ps)" using Cons.prems by simp
  then have "peer_map (filter (\<lambda>p. \<not> hit p) ps) (nr_pubkey p) = None" "peer_map ps (nr_pubkey p) = None"
    by (auto simp: peer_map_def map_of_eq_None_iff)
  then show ?case using Cons by (auto simp: remove_where_def Let_def peer_map_def fun_eq_iff)
qed (simp add: remove_where_def peer_map_def)

text \<open>
  The neighbour table is a map keyed by public key: inserting is map update and adds at most one key, the
  removal by key deletes that entry and nothing else and reports whether it was there, the removal by address
  deletes the entries with that address, and keys stay unique.
\<close>

theorem neighbor_store_is_map:
  assumes "distinct (peer_keys peers)"
  shows "peer_map (upsert peers mac addr k ts) =
      (peer_map peers)(k \<mapsto> \<lparr> nr_mac = mac, nr_addr = addr, nr_pubkey = k, nr_ts = ts \<rparr>)
    \<and> peer_map (fst (remove_pubkey k peers)) = (peer_map peers)(k := None)
    \<and> snd (remove_pubkey k peers) = store_contains peers k
    \<and> peer_map (fst (remove_addr addr peers)) =
        (\<lambda>j. case peer_map peers j of None \<Rightarrow> None | Some p \<Rightarrow> if nr_addr p = addr then None else Some p)
    \<and> distinct (peer_keys (upsert peers mac addr k ts)) \<and> distinct (peer_keys (fst (remove_pubkey k peers)))"
proof -
  have key: "peer_map peers j = Some p \<Longrightarrow> nr_pubkey p = j" for j p
    by (auto simp: peer_map_def dest: map_of_SomeD)
  have "peer_map (fst (remove_pubkey k peers)) = (peer_map peers)(k := None)"
    unfolding remove_pubkey_def peer_map_remove [OF assms] by (auto simp: fun_eq_iff dest: key split: option.split)
  moreover have "snd (remove_pubkey k peers) = store_contains peers k"
    by (auto simp: remove_pubkey_def remove_where_hit store_contains_def list_ex_iff)
  ultimately show ?thesis
    using assms remove_where_keys [OF assms] by (simp add: peer_map_upsert remove_addr_def peer_map_remove remove_pubkey_def)
qed

lemma neighbor_store_is_map_witness:
  "snd (remove_pubkey [1] (upsert [] [2] [3] [1] 4)) = store_contains (upsert [] [2] [3] [1] 4) [1]"
  using neighbor_store_is_map [of "upsert [] [2] [3] [1] 4" _ _ "[1]"] by simp

section \<open>The table survives its file\<close>

definition record_ok :: "neighbor_record \<Rightarrow> bool" where
  "record_ok p \<longleftrightarrow> length (nr_mac p) = 6 \<and> length (nr_addr p) = 16 \<and> length (nr_pubkey p) = 32 \<and> i64 (nr_ts p)"

lemma sint_of_i64: "i64 z \<Longrightarrow> sint (word_of_int z :: u64) = z"
  by (simp add: i64_def signed_of_int signed_take_bit_int_eq_self)

lemma decode_encode_record: "record_ok p \<Longrightarrow> decode_record (encode_record p) = p"
  by (simp add: decode_record_def encode_record_def record_ok_def slice_append_left slice_append_skip slice_full
      slice_Cons sint_of_i64)

interpretation record_codec: fixed_codec encode_record "\<lambda>b. Some (decode_record b)" record_ok 64
  by unfold_locales (simp_all add: decode_encode_record, simp add: encode_record_def record_ok_def)

definition add_record :: "neighbor_record \<Rightarrow> neighbor_store \<Rightarrow> neighbor_store" where
  "add_record r store = upsert store (nr_mac r) (nr_addr r) (nr_pubkey r) (nr_ts r)"

lemma fold_add_fresh:
  "distinct (peer_keys (acc @ peers)) \<Longrightarrow> fold add_record peers acc = acc @ peers"
  by (induction peers arbitrary: acc) (simp_all add: add_record_def upsert_fresh)

lemma fold_add_distinct: "distinct (peer_keys (fold add_record rs acc)) = distinct (peer_keys acc)"
  by (induction rs arbitrary: acc) (simp_all add: add_record_def)

lemma decode_slice_fold:
  "length buf = 13 + n * 64 \<Longrightarrow>
   fold (\<lambda>i store. let base = STORE_HDR_LEN + i * RECORD_LEN; r = decode_record (slice base (base + RECORD_LEN) buf)
      in upsert store (nr_mac r) (nr_addr r) (nr_pubkey r) (nr_ts r)) [0..<n] [] =
   fold add_record (map (\<lambda>i. decode_record (slice (64 * i) (64 * i + 64) (drop 13 buf))) [0..<n]) []"
  unfolding fold_map by (rule fold_cong) (simp_all add: add_record_def fun_eq_iff slice_drop const_defs Let_def ac_simps)

text \<open>
  The neighbour file gives the table back: decoding what was saved returns the same records in
  the same order, when they are well-formed, have distinct keys and fit the 32-bit count.
\<close>

theorem neighbor_file_roundtrip:
  assumes "\<forall>p \<in> set peers. record_ok p" "distinct (peer_keys peers)" "length peers < 2 ^ 32"
  shows "decode_slice (encode_vec peers) = Inr peers"
proof -
  let ?n = "length peers" and ?body = "concat (map encode_record peers)"
  let ?buf = "(STORE_MAGIC_1 @ STORE_MAGIC_2 @ [STORE_VERSION] @ to_le32 (of_nat ?n)) @ ?body"
  have buf: "encode_vec peers = ?buf" using assms(3) by (simp add: encode_vec_def)
  have len: "length ?buf = 13 + ?n * 64" by (simp add: record_codec.length_concat_enc [OF assms(1)])
  have body: "drop 13 ?buf = ?body" by simp
  have cnt: "[?buf ! 9, ?buf ! 10, ?buf ! 11, ?buf ! 12] = to_le32 (of_nat ?n)"
    by (rule nth_equalityI) (auto simp: nth_append less_Suc_eq numeral_eq_Suc)
  have n: "unat (of_nat ?n :: u32) = ?n" using assms(3) by (simp add: unsigned_of_nat take_bit_nat_eq_self)
  have "decode_slice ?buf = Inr (fold add_record (map (\<lambda>i. decode_record (slice (64 * i) (64 * i + 64) ?body)) [0..<?n]) [])"
    unfolding decode_slice_def cnt from_le_to_le n Let_def decode_slice_fold [OF len, unfolded body Let_def]
    using len by (simp add: slice_append_left slice_append_skip slice_full const_defs nth_append)
  also have "map (\<lambda>i. decode_record (slice (64 * i) (64 * i + 64) ?body)) [0..<?n] = peers"
    using record_codec.slice_concat_enc [OF assms(1)] assms(1)
    by (intro nth_equalityI) (simp_all add: decode_encode_record)
  finally show ?thesis using fold_add_fresh [of "[]" peers] assms(2) buf by simp
qed

lemma neighbor_file_roundtrip_witness:
  "decode_slice (encode_vec [\<lparr> nr_mac = replicate 6 1, nr_addr = replicate 16 2, nr_pubkey = replicate 32 3, nr_ts = - 4 \<rparr>]) =
     Inr [\<lparr> nr_mac = replicate 6 1, nr_addr = replicate 16 2, nr_pubkey = replicate 32 3, nr_ts = - 4 \<rparr>]"
  by (rule neighbor_file_roundtrip) (simp_all add: record_ok_def i64_def)

text \<open>Whatever a file holds, a table that is read has unique keys.\<close>

lemma decode_slice_distinct: "decode_slice buf = Inr peers \<Longrightarrow> distinct (peer_keys peers)"
proof -
  assume "decode_slice buf = Inr peers"
  moreover define n where "n = unat (from_le [buf ! 9, buf ! 10, buf ! 11, buf ! 12] :: u32)"
  ultimately have "length buf = 13 + n * 64"
    "peers = fold add_record (map (\<lambda>i. decode_record (slice (64 * i) (64 * i + 64) (drop 13 buf))) [0..<n]) []"
    using decode_slice_fold [of buf n] by (auto simp: decode_slice_def Let_def const_defs split: if_splits)
  then show ?thesis by (simp add: fold_add_distinct)
qed

section \<open>MAC addresses round trip\<close>

lemma hex_byte_ne: "hex_byte b \<noteq> []"
  by (simp add: hex_byte_def)

lemma hexdigit_not_sep: "is_ascii_hexdigit b \<Longrightarrow> b \<noteq> 0x3A \<and> b \<noteq> 0x2B"
  by (auto simp: is_ascii_hexdigit_def word_le_nat_alt)

lemma parse_hex_byte: "parse_hex_u8 (hex_byte b) = Some b"
proof -
  let ?h = "hex_digits ! unat (drop_bit 4 b)" and ?l = "hex_digits ! unat (b AND 0x0F)"
  have d: "is_ascii_hexdigit ?h" "is_ascii_hexdigit ?l" using nibble_less [of b] by (simp_all add: hex_digit_val)
  have v: "unat (hex_val ?h) = unat (drop_bit 4 b)" "unat (hex_val ?l) = unat (b AND 0x0F)"
    using nibble_less [of b] by (simp_all add: hex_digit_val)
  have "unat b = unat (drop_bit 4 b) * 16 + unat (b AND 0x0F)"
  proof -
    have "(0x0F :: u8) = mask 4" by (simp add: mask_eq_exp_minus_1)
    then have "unat (b AND 0x0F) = unat b mod 16" by (simp only: flip: take_bit_eq_mask) (simp add: unsigned_take_bit_eq take_bit_eq_mod unat_mod)
    then show ?thesis using div_mult_mod_eq [of "unat b" 16] by (simp add: unat_drop_bit)
  qed
  moreover have "unat b < 256" using unsigned_less [of b, where 'a = nat] by simp
  ultimately have "parse_hex_digits 0 [?h, ?l] = Some (unat b)"
    using d v nibble_less [of b] by simp
  then show ?thesis
    using hexdigit_not_sep [OF d(1)] by (simp only: parse_hex_u8_def hex_byte_def) simp
qed

lemma parse_hex_parts_bytes: "parse_hex_parts (map hex_byte bs) = Some bs"
  by (induction bs) (simp_all add: parse_hex_byte)

text \<open>C0. Printing a MAC address and parsing the text gives the address back.\<close>

theorem mac_print_parse:
  assumes "length mac = 6"
  shows "mac_parse (mac_to_hex mac) = Inr mac"
proof -
  have "0x3A \<notin> set (hex_byte b)" for b
    using hex_byte_digits [of b] hexdigit_not_sep by (auto simp: list_all_iff)
  then have "split_on (of_char (CHR '':'')) (mac_to_hex mac) = map hex_byte mac"
    unfolding mac_to_hex_def using assms by (intro split_on_join) auto
  then show ?thesis using assms by (simp add: mac_parse_def parse_hex_parts_bytes)
qed

lemma mac_print_parse_witness: "mac_parse (mac_to_hex [1, 2, 3, 4, 5, 255]) = Inr [1, 2, 3, 4, 5, 255]"
  by (rule mac_print_parse) simp

end
