(* ===== verification/NeighProcessor.thy ===== *)
theory NeighProcessor
  imports NeighWire
begin

text \<open>
  The protocol state machine of \<open>ipv8-neigh/src/lib.rs\<close>, \<open>NeighborProcessor\<close>: signed HELLO and
  ACK messages with a time window, a ring of 64 nonces per public key and the set of HELLOs that wait for
  their ACK. The signature operations are a parameter; the HashMap of rings is an association list.
\<close>

section \<open>The processor and its operations\<close>

datatype hello_decision = AutoAck neighbor_message | NeedsConsent neighbor_message | Reject neigh_error

record neigh_proc =
  np_addr :: bytes
  np_pubkey :: bytes
  np_store :: neighbor_store
  np_seen :: "(bytes \<times> u64 list) list"
  np_pending :: "(u64 \<times> int) list"

definition proc_new :: "bytes \<Rightarrow> bytes \<Rightarrow> neighbor_store \<Rightarrow> neigh_proc" where
  "proc_new addr pubkey store =
     \<lparr> np_addr = addr, np_pubkey = pubkey, np_store = store, np_seen = [], np_pending = [] \<rparr>"

definition prune_pending :: "int \<Rightarrow> neigh_proc \<Rightarrow> neigh_proc" where
  "prune_pending now p =
     p\<lparr> np_pending := filter (\<lambda>(_, ts). sat_sub64 now ts \<le> PENDING_TTL_SECS) (np_pending p) \<rparr>"

definition record_hello_sent :: "u64 \<Rightarrow> int \<Rightarrow> neigh_proc \<Rightarrow> neigh_proc" where
  "record_hello_sent nonce now p = (
     let p = prune_pending now p;
         pending = (if length (np_pending p) \<ge> PENDING_MAX then drop 1 (np_pending p) else np_pending p)
     in p\<lparr> np_pending := pending @ [(nonce, now)] \<rparr>)"

definition build_message :: "signature_ops \<Rightarrow> neigh_proc \<Rightarrow> u8 \<Rightarrow> u64 \<Rightarrow> int \<Rightarrow> bytes" where
  "build_message sg p msg_type nonce now = build_signed sg msg_type (np_addr p) now nonce (np_pubkey p)"

definition build_hello :: "signature_ops \<Rightarrow> neigh_proc \<Rightarrow> u64 \<Rightarrow> int \<Rightarrow> neigh_proc \<times> bytes" where
  "build_hello sg p nonce now = (
     let p = record_hello_sent nonce now p in (p, build_message sg p MSG_HELLO nonce now))"

definition build_ack :: "signature_ops \<Rightarrow> neigh_proc \<Rightarrow> neighbor_message \<Rightarrow> int \<Rightarrow> bytes" where
  "build_ack sg p hello now = build_message sg p MSG_ACK (nm_nonce hello) now"

text \<open>\<open>i64::abs\<close> of the release profile, which wraps at the minimum.\<close>

definition abs64 :: "int \<Rightarrow> int" where
  "abs64 z = (if z = - (2 ^ 63) then z else \<bar>z\<bar>)"

definition ring_of :: "neigh_proc \<Rightarrow> bytes \<Rightarrow> u64 list" where
  "ring_of p pubkey = (case map_of (np_seen p) pubkey of None \<Rightarrow> [] | Some ring \<Rightarrow> ring)"

definition ring_push :: "u64 \<Rightarrow> u64 list \<Rightarrow> u64 list" where
  "ring_push nonce ring = (if length ring \<ge> NONCE_RING then drop 1 ring else ring) @ [nonce]"

definition verify_frame ::
  "signature_ops \<Rightarrow> neigh_proc \<Rightarrow> bytes \<Rightarrow> u8 \<Rightarrow> int \<Rightarrow> neigh_proc \<times> (neigh_error + neighbor_message)" where
  "verify_frame sg p frame expect_type now = (
     case neigh_decode frame of
       Inl e \<Rightarrow> (p, Inl e)
     | Inr msg \<Rightarrow>
         if nm_type msg \<noteq> expect_type then (p, Inl (UnexpectedType (nm_type msg)))
         else if \<not> sig_verify sg (nm_pubkey msg) (take SIGNED_LEN frame) (nm_sig msg) then (p, Inl BadSignature)
         else if abs64 (sat_sub64 (nm_ts msg) now) > TS_WINDOW_SECS
           then (p, Inl (TimestampOutOfWindow (nm_ts msg) now))
         else
           let ring = ring_of p (nm_pubkey msg)
           in if nm_nonce msg \<in> set ring then (p, Inl (Neigh_Replay (nm_nonce msg)))
              else (p\<lparr> np_seen := AList.update (nm_pubkey msg) (ring_push (nm_nonce msg) ring) (np_seen p) \<rparr>, Inr msg))"

definition process_hello :: "signature_ops \<Rightarrow> neigh_proc \<Rightarrow> bytes \<Rightarrow> bytes \<Rightarrow> int \<Rightarrow> neigh_proc \<times> hello_decision" where
  "process_hello sg p frame src_mac now = (
     case verify_frame sg p frame MSG_HELLO now of
       (p, Inl e) \<Rightarrow> (p, Reject e)
     | (p, Inr msg) \<Rightarrow>
         if store_contains (np_store p) (nm_pubkey msg)
         then (p\<lparr> np_store := upsert (np_store p) src_mac (nm_addr msg) (nm_pubkey msg) now \<rparr>, AutoAck msg)
         else (p, NeedsConsent msg))"

definition approve_consent :: "neighbor_message \<Rightarrow> bytes \<Rightarrow> int \<Rightarrow> neigh_proc \<Rightarrow> neigh_proc" where
  "approve_consent hello src_mac now p =
     p\<lparr> np_store := upsert (np_store p) src_mac (nm_addr hello) (nm_pubkey hello) now \<rparr>"

text \<open>\<open>position\<close> and \<open>remove\<close>: the first entry with the nonce goes.\<close>

fun remove_pending :: "u64 \<Rightarrow> (u64 \<times> int) list \<Rightarrow> (u64 \<times> int) list option" where
  "remove_pending nonce [] = None"
| "remove_pending nonce (e # es) =
    (if fst e = nonce then Some es else map_option (\<lambda>es. e # es) (remove_pending nonce es))"

definition process_ack ::
  "signature_ops \<Rightarrow> neigh_proc \<Rightarrow> bytes \<Rightarrow> bytes \<Rightarrow> int \<Rightarrow> neigh_proc \<times> (neigh_error + neighbor_record)" where
  "process_ack sg p frame src_mac now = (
     case verify_frame sg p frame MSG_ACK now of
       (p, Inl e) \<Rightarrow> (p, Inl e)
     | (p, Inr msg) \<Rightarrow>
         let p = prune_pending now p
         in case remove_pending (nm_nonce msg) (np_pending p) of
              None \<Rightarrow> (p, Inl (AckNonceMismatch (nm_nonce msg)))
            | Some pending \<Rightarrow>
                (p\<lparr> np_pending := pending,
                    np_store := upsert (np_store p) src_mac (nm_addr msg) (nm_pubkey msg) now \<rparr>,
                 Inr \<lparr> nr_mac = src_mac, nr_addr = nm_addr msg, nr_pubkey = nm_pubkey msg, nr_ts = now \<rparr>))"

section \<open>The nonce ring\<close>

interpretation nonce_ring: recent_ring ring_push "\<lambda>ring. ring" 64
  by unfold_locales (auto simp: ring_push_def const_defs)

lemma ring_of_update: "ring_of (p\<lparr> np_seen := AList.update k r (np_seen p) \<rparr>) j = (if j = k then r else ring_of p j)"
  by (simp add: ring_of_def update_conv')

lemma ring_of_other [simp]: "ring_of (p\<lparr> np_store := s \<rparr>) k = ring_of p k" "ring_of (p\<lparr> np_pending := q \<rparr>) k = ring_of p k"
  by (simp_all add: ring_of_def)

lemma verify_frame_cases:
  assumes "verify_frame sg p frame t now = (p', r)"
  obtains (rejected) e where "p' = p" "r = Inl e"
  | (accepted) m where "r = Inr m" "neigh_decode frame = Inr m" "nm_type m = t"
      "sig_verify sg (nm_pubkey m) (take SIGNED_LEN frame) (nm_sig m)"
      "abs64 (sat_sub64 (nm_ts m) now) \<le> TS_WINDOW_SECS" "nm_nonce m \<notin> set (ring_of p (nm_pubkey m))"
      "p' = p\<lparr> np_seen := AList.update (nm_pubkey m) (ring_push (nm_nonce m) (ring_of p (nm_pubkey m))) (np_seen p) \<rparr>"
proof (cases r)
  case (Inl e)
  then have "p' = p" using assms unfolding verify_frame_def Let_def by (simp split: sum.splits if_splits)
  then show thesis using Inl by (rule rejected)
next
  case (Inr m)
  have "neigh_decode frame = Inr m \<and> nm_type m = t \<and> sig_verify sg (nm_pubkey m) (take SIGNED_LEN frame) (nm_sig m)
      \<and> abs64 (sat_sub64 (nm_ts m) now) \<le> TS_WINDOW_SECS \<and> nm_nonce m \<notin> set (ring_of p (nm_pubkey m))
      \<and> p' = p\<lparr> np_seen := AList.update (nm_pubkey m) (ring_push (nm_nonce m) (ring_of p (nm_pubkey m))) (np_seen p) \<rparr>"
    using assms unfolding verify_frame_def Let_def Inr by (simp add: not_less split: sum.splits if_splits)
  then show thesis using Inr by (elim conjE) (rule accepted)
qed

text \<open>A decoded timestamp is not negative, so the wrap-around of \<open>abs\<close> is never reached.\<close>

lemma abs64_decoded: "neigh_decode frame = Inr m \<Longrightarrow> i64 now \<Longrightarrow>
    abs64 (sat_sub64 (nm_ts m) now) = \<bar>sat_sub64 (nm_ts m) now\<bar>"
  by (auto simp: neigh_decode_iff msg_ok_def abs64_def sat_sub64_def i64_def)

section \<open>Runs\<close>

text \<open>What the upper layer may do with a processor, in any order.\<close>

datatype nevent =
    E_Hello bytes bytes int
  | E_Ack bytes bytes int
  | E_BuildHello u64 int
  | E_Approve neighbor_message bytes int

fun nstep :: "signature_ops \<Rightarrow> nevent \<Rightarrow> neigh_proc \<Rightarrow> neigh_proc" where
  "nstep sg (E_Hello frame mac now) p = fst (process_hello sg p frame mac now)"
| "nstep sg (E_Ack frame mac now) p = fst (process_ack sg p frame mac now)"
| "nstep sg (E_BuildHello nonce now) p = fst (build_hello sg p nonce now)"
| "nstep sg (E_Approve hello mac now) p = approve_consent hello mac now p"

definition nrun :: "signature_ops \<Rightarrow> nevent list \<Rightarrow> neigh_proc \<Rightarrow> neigh_proc" where
  "nrun sg evs p = fold (nstep sg) evs p"

lemma nrun_simps [simp]: "nrun sg [] p = p" "nrun sg (e # es) p = nrun sg es (nstep sg e p)"
  "nrun sg (es @ fs) p = nrun sg fs (nrun sg es p)"
  by (simp_all add: nrun_def)

section \<open>What one step changes\<close>

definition accepted_nonce :: "signature_ops \<Rightarrow> bytes \<Rightarrow> nevent \<Rightarrow> neigh_proc \<Rightarrow> u64 list" where
  "accepted_nonce sg k e p = (
     let nonce = (\<lambda>r. case r of Inr m \<Rightarrow> if nm_pubkey m = k then [nm_nonce m] else [] | Inl _ \<Rightarrow> [])
     in case e of
          E_Hello frame mac now \<Rightarrow> nonce (snd (verify_frame sg p frame MSG_HELLO now))
        | E_Ack frame mac now \<Rightarrow> nonce (snd (verify_frame sg p frame MSG_ACK now))
        | _ \<Rightarrow> [])"

fun accepted_nonces :: "signature_ops \<Rightarrow> bytes \<Rightarrow> nevent list \<Rightarrow> neigh_proc \<Rightarrow> u64 list" where
  "accepted_nonces sg k [] p = []"
| "accepted_nonces sg k (e # es) p = accepted_nonce sg k e p @ accepted_nonces sg k es (nstep sg e p)"

lemma verify_frame_frame:
  assumes "verify_frame sg p frame t now = (p', r)"
  shows "np_store p' = np_store p" "np_pending p' = np_pending p"
    "np_addr p' = np_addr p" "np_pubkey p' = np_pubkey p"
  by (rule verify_frame_cases [OF assms]; simp)+

lemma verify_frame_ring:
  assumes "verify_frame sg p frame t now = (p', r)"
  shows "ring_of p' k = fold ring_push (case r of Inr m \<Rightarrow> if nm_pubkey m = k then [nm_nonce m] else [] | Inl _ \<Rightarrow> [])
      (ring_of p k)"
    and "distinct (ring_of p k) \<Longrightarrow> distinct (ring_of p' k)"
proof -
  show "ring_of p' k = fold ring_push (case r of Inr m \<Rightarrow> if nm_pubkey m = k then [nm_nonce m] else [] | Inl _ \<Rightarrow> [])
      (ring_of p k)"
    by (rule verify_frame_cases [OF assms]) (simp_all add: ring_of_update)
  show "distinct (ring_of p' k)" if "distinct (ring_of p k)"
    by (rule verify_frame_cases [OF assms])
      (use that in \<open>auto simp: ring_of_update ring_push_def distinct_drop dest: in_set_dropD\<close>)
qed

lemma prune_pending_ring [simp]: "ring_of (prune_pending now p) k = ring_of p k"
  by (simp add: prune_pending_def)

lemma process_hello_ring:
  assumes "verify_frame sg p frame MSG_HELLO now = (q, r)"
  shows "ring_of (fst (process_hello sg p frame mac now)) k = ring_of q k"
  by (simp add: process_hello_def assms split: sum.split)

lemma process_ack_ring:
  assumes "verify_frame sg p frame MSG_ACK now = (q, r)"
  shows "ring_of (fst (process_ack sg p frame mac now)) k = ring_of q k"
  by (simp add: process_ack_def assms Let_def split: sum.split option.split)

lemma nstep_ring: "ring_of (nstep sg e p) k = fold ring_push (accepted_nonce sg k e p) (ring_of p k)"
proof (cases e)
  case (E_Hello frame mac now)
  obtain q r where v: "verify_frame sg p frame MSG_HELLO now = (q, r)" by fastforce
  show ?thesis using verify_frame_ring(1) [OF v, of k] by (simp add: E_Hello process_hello_ring [OF v] accepted_nonce_def v)
next
  case (E_Ack frame mac now)
  obtain q r where v: "verify_frame sg p frame MSG_ACK now = (q, r)" by fastforce
  show ?thesis using verify_frame_ring(1) [OF v, of k] by (simp add: E_Ack process_ack_ring [OF v] accepted_nonce_def v)
qed (simp_all add: accepted_nonce_def build_hello_def record_hello_sent_def approve_consent_def Let_def)

lemma nrun_ring: "ring_of (nrun sg es p) k = fold ring_push (accepted_nonces sg k es p) (ring_of p k)"
  by (induction es arbitrary: p) (simp_all add: nstep_ring)

lemma nstep_ring_distinct: "distinct (ring_of p k) \<Longrightarrow> distinct (ring_of (nstep sg e p) k)"
proof (cases e)
  case (E_Hello frame mac now)
  obtain q r where v: "verify_frame sg p frame MSG_HELLO now = (q, r)" by fastforce
  show "distinct (ring_of p k) \<Longrightarrow> ?thesis"
    using verify_frame_ring(2) [OF v, of k] by (simp add: E_Hello process_hello_ring [OF v])
next
  case (E_Ack frame mac now)
  obtain q r where v: "verify_frame sg p frame MSG_ACK now = (q, r)" by fastforce
  show "distinct (ring_of p k) \<Longrightarrow> ?thesis"
    using verify_frame_ring(2) [OF v, of k] by (simp add: E_Ack process_ack_ring [OF v])
qed (simp_all add: build_hello_def record_hello_sent_def approve_consent_def Let_def)

section \<open>Invariant of the processor\<close>

definition neigh_inv :: "neigh_proc \<Rightarrow> bool" where
  "neigh_inv p \<longleftrightarrow> length (np_pending p) \<le> 1024 \<and> distinct (peer_keys (np_store p))
     \<and> (\<forall>k. length (ring_of p k) \<le> 64 \<and> distinct (ring_of p k))"

lemma remove_pending_length: "remove_pending n es = Some es' \<Longrightarrow> length es = Suc (length es')"
  by (induction n es arbitrary: es' rule: remove_pending.induct) (auto split: if_splits)

lemma remove_pending_mem: "remove_pending n es = Some es' \<Longrightarrow> \<exists>t. (n, t) \<in> set es"
  by (induction n es arbitrary: es' rule: remove_pending.induct) (auto split: if_splits)

lemma remove_pending_subset: "remove_pending n es = Some es' \<Longrightarrow> set es' \<subseteq> set es"
  by (induction n es arbitrary: es' rule: remove_pending.induct) (fastforce split: if_splits)+

lemma length_prune [simp]: "length (np_pending (prune_pending now p)) \<le> length (np_pending p)"
  "np_store (prune_pending now p) = np_store p"
  by (simp_all add: prune_pending_def)

text \<open>How a step moves the table and the pending set: the four cases every bound below rests on.\<close>

lemma hello_effect:
  "peer_keys (np_store (nstep sg (E_Hello f mac now) p)) = peer_keys (np_store p)"
  "np_pending (nstep sg (E_Hello f mac now) p) = np_pending p"
proof -
  obtain q r where v: "verify_frame sg p f MSG_HELLO now = (q, r)" by fastforce
  show "peer_keys (np_store (nstep sg (E_Hello f mac now) p)) = peer_keys (np_store p)"
    "np_pending (nstep sg (E_Hello f mac now) p) = np_pending p"
    using verify_frame_frame [OF v]
    by (simp_all add: process_hello_def v store_contains_keys upsert_keys split: sum.split)
qed

lemma ack_effect:
  obtains (same) pend where "np_store (nstep sg (E_Ack f mac now) p) = np_store p"
      "np_pending (nstep sg (E_Ack f mac now) p) = pend" "set pend \<subseteq> set (np_pending p)" "length pend \<le> length (np_pending p)"
  | (added) m where "neigh_decode f = Inr m" "nm_type m = MSG_ACK" "sig_verify sg (nm_pubkey m) (take SIGNED_LEN f) (nm_sig m)"
      "abs64 (sat_sub64 (nm_ts m) now) \<le> TS_WINDOW_SECS"
      "np_store (nstep sg (E_Ack f mac now) p) = upsert (np_store p) mac (nm_addr m) (nm_pubkey m) now"
      "\<exists>t. (nm_nonce m, t) \<in> set (np_pending p) \<and> sat_sub64 now t \<le> PENDING_TTL_SECS"
      "set (np_pending (nstep sg (E_Ack f mac now) p)) \<subseteq> set (np_pending p)"
      "length (np_pending (nstep sg (E_Ack f mac now) p)) < length (np_pending p)"
proof -
  obtain q r where v: "verify_frame sg p f MSG_ACK now = (q, r)" by fastforce
  note fr = verify_frame_frame [OF v]
  have sub: "set (np_pending (prune_pending now q)) \<subseteq> set (np_pending p)" "length (np_pending (prune_pending now q)) \<le> length (np_pending p)"
    using fr length_prune(1) [of now q] by (auto simp: prune_pending_def)
  show thesis
  proof (rule verify_frame_cases [OF v])
    fix e assume "q = p" "r = Inl e"
    then show thesis by (intro same [of "np_pending p"]) (simp_all add: process_ack_def v)
  next
    fix m assume m: "r = Inr m" "neigh_decode f = Inr m" "nm_type m = MSG_ACK"
      "sig_verify sg (nm_pubkey m) (take SIGNED_LEN f) (nm_sig m)" "abs64 (sat_sub64 (nm_ts m) now) \<le> TS_WINDOW_SECS"
    show thesis
    proof (cases "remove_pending (nm_nonce m) (np_pending (prune_pending now q))")
      case None
      then show thesis using sub fr
        by (intro same [of "np_pending (prune_pending now q)"]) (simp_all add: process_ack_def v m)
    next
      case (Some pend)
      obtain t where "(nm_nonce m, t) \<in> set (np_pending (prune_pending now q))" using remove_pending_mem [OF Some] by blast
      then have "\<exists>t. (nm_nonce m, t) \<in> set (np_pending p) \<and> sat_sub64 now t \<le> PENDING_TTL_SECS"
        using fr by (auto simp: prune_pending_def)
      then show thesis
        using m Some sub fr remove_pending_length [OF Some] remove_pending_subset [OF Some]
        by (intro added [of m]) (simp_all add: process_ack_def v)
    qed
  qed
qed

lemma record_hello_effect:
  "np_store (record_hello_sent n now p) = np_store p"
  "set (np_pending (record_hello_sent n now p)) \<subseteq> insert (n, now) (set (np_pending p))"
  "length (np_pending (record_hello_sent n now p)) \<le> Suc (length (np_pending p))"
  "length (np_pending p) \<le> 1024 \<Longrightarrow> length (np_pending (record_hello_sent n now p)) \<le> 1024"
proof -
  have "set (np_pending (prune_pending now p)) \<subseteq> set (np_pending p)" by (auto simp: prune_pending_def)
  then show "np_store (record_hello_sent n now p) = np_store p"
    "set (np_pending (record_hello_sent n now p)) \<subseteq> insert (n, now) (set (np_pending p))"
    "length (np_pending (record_hello_sent n now p)) \<le> Suc (length (np_pending p))"
    "length (np_pending p) \<le> 1024 \<Longrightarrow> length (np_pending (record_hello_sent n now p)) \<le> 1024"
    using length_prune(1) [of now p]
    by (auto simp: record_hello_sent_def Let_def const_defs simp del: length_prune(1) dest: in_set_dropD)
qed

text \<open>
  The state of the neighbour processor stays bounded and consistent whatever frames arrive and
  whatever the upper layer does: at most 1024 pending HELLOs, per key a ring of at most 64 distinct
  nonces, and one table entry per public key.
\<close>

theorem neighbor_state_invariant:
  assumes "neigh_inv p"
  shows "neigh_inv (nrun sg evs p)"
  using assms
proof (induction evs arbitrary: p)
  case (Cons e es)
  have rings: "length (ring_of (nstep sg e p) k) \<le> 64 \<and> distinct (ring_of (nstep sg e p) k)" for k
    using Cons.prems nonce_ring.bounded_fold nstep_ring_distinct by (simp add: neigh_inv_def nstep_ring)
  have "length (np_pending (nstep sg e p)) \<le> 1024 \<and> distinct (peer_keys (np_store (nstep sg e p)))"
  proof (cases e)
    case (E_Hello f mac now)
    then show ?thesis using Cons.prems by (simp add: neigh_inv_def hello_effect del: nstep.simps)
  next
    case (E_Ack f mac now)
    show ?thesis unfolding E_Ack
      by (rule ack_effect [of sg f mac now p]) (use Cons.prems in \<open>auto simp: neigh_inv_def\<close>)
  qed (use Cons.prems in \<open>simp_all add: neigh_inv_def build_hello_def approve_consent_def record_hello_effect Let_def\<close>)
  with rings have "neigh_inv (nstep sg e p)" by (simp add: neigh_inv_def)
  then show ?case using Cons.IH by simp
qed simp

lemma neighbor_state_invariant_witness:
  "\<exists>sg. neigh_inv (nrun sg [E_BuildHello 1 2, E_Hello [] [] 3] (proc_new [] [] []))"
  by (rule exI, rule neighbor_state_invariant) (simp add: neigh_inv_def proc_new_def ring_of_def)

section \<open>Replays\<close>

lemma verify_frame_known_nonce:
  assumes "neigh_decode frame = Inr m" "nm_nonce m \<in> set (ring_of p (nm_pubkey m))"
  shows "\<exists>e. verify_frame sg p frame t now = (p, Inl e)"
proof -
  obtain q r where v: "verify_frame sg p frame t now = (q, r)" by fastforce
  then show ?thesis by (rule verify_frame_cases) (use assms v in auto)
qed

text \<open>
  C23. A frame that was accepted is refused when it comes again, as a HELLO or an ACK and at any time,
  as long as fewer than 64 other frames of the same public key were accepted in between; the refusal
  changes nothing.
\<close>

theorem neighbor_replay_refused:
  assumes "neigh_inv p" "verify_frame sg p frame t now = (p1, Inr m)"
    and "length (accepted_nonces sg (nm_pubkey m) evs p1) < 64"
  shows "\<exists>e. verify_frame sg (nrun sg evs p1) frame t' now' = (nrun sg evs p1, Inl e)"
proof -
  have dec: "neigh_decode frame = Inr m" by (rule verify_frame_cases [OF assms(2)]) auto
  have "ring_of p1 (nm_pubkey m) = ring_push (nm_nonce m) (ring_of p (nm_pubkey m))"
    using verify_frame_ring(1) [OF assms(2), of "nm_pubkey m"] by simp
  moreover have "length (ring_of p (nm_pubkey m)) \<le> 64" using assms(1) by (simp add: neigh_inv_def)
  ultimately have "nm_nonce m \<in> set (ring_of (nrun sg evs p1) (nm_pubkey m))"
    using nonce_ring.remembered_for_a_round [OF _ assms(3)] by (simp add: nrun_ring)
  then show ?thesis by (rule verify_frame_known_nonce [OF dec])
qed

section \<open>Who enters the table\<close>

definition admissions :: "nevent list \<Rightarrow> nat" where
  "admissions evs = length (filter (\<lambda>e. case e of E_BuildHello _ _ \<Rightarrow> True | E_Approve _ _ _ \<Rightarrow> True | _ \<Rightarrow> False) evs)"

lemma peer_keys_upsert_length: "length (upsert peers mac addr k ts) \<le> Suc (length peers)"
  using arg_cong [OF upsert_keys [of peers mac addr k ts], of length] by (simp split: if_splits)

text \<open>
  Strangers cannot fill the table: over any run it grows by at most one entry per HELLO that this node
  sent and per consent that it gave, whatever frames arrive.
\<close>

theorem neighbor_admissions_bounded:
  "length (np_store (nrun sg evs p)) \<le> length (np_store p) + length (np_pending p) + admissions evs"
proof -
  have "length (np_store (nrun sg evs p)) + length (np_pending (nrun sg evs p))
      \<le> length (np_store p) + length (np_pending p) + admissions evs"
  proof (induction evs arbitrary: p)
    case (Cons e es)
    have "length (np_store (nstep sg e p)) + length (np_pending (nstep sg e p))
        \<le> length (np_store p) + length (np_pending p) + admissions [e]"
    proof (cases e)
      case (E_Hello f mac now)
      have "length (np_store (nstep sg e p)) = length (np_store p)"
        unfolding E_Hello by (metis hello_effect(1) length_map)
      then show ?thesis by (simp add: E_Hello hello_effect admissions_def del: nstep.simps)
    next
      case (E_Ack f mac now)
      show ?thesis unfolding E_Ack
      proof (rule ack_effect [of sg f mac now p])
        fix m assume "np_store (nstep sg (E_Ack f mac now) p) = upsert (np_store p) mac (nm_addr m) (nm_pubkey m) now"
          "length (np_pending (nstep sg (E_Ack f mac now) p)) < length (np_pending p)"
        then show "length (np_store (nstep sg (E_Ack f mac now) p)) + length (np_pending (nstep sg (E_Ack f mac now) p))
            \<le> length (np_store p) + length (np_pending p) + admissions [E_Ack f mac now]"
          using peer_keys_upsert_length [of "np_store p" mac "nm_addr m" "nm_pubkey m" now] by simp
      qed simp
    next
      case (E_BuildHello n now)
      then show ?thesis using record_hello_effect(3) [of n now p]
        by (simp add: build_hello_def Let_def record_hello_effect(1) admissions_def)
    next
      case (E_Approve m mac now)
      then show ?thesis using peer_keys_upsert_length [of "np_store p" mac "nm_addr m" "nm_pubkey m" now]
        by (simp add: approve_consent_def admissions_def)
    qed
    moreover have "admissions (e # es) = admissions [e] + admissions es" by (simp add: admissions_def)
    ultimately show ?case using Cons.IH [of "nstep sg e p"] by simp
  qed (simp add: admissions_def)
  then show ?thesis by simp
qed

text \<open>An ACK that justifies a key: verified, in the time window, and echoing a HELLO of the last 30 seconds.\<close>

definition ack_justifies :: "signature_ops \<Rightarrow> nevent list \<Rightarrow> bytes \<Rightarrow> nevent \<Rightarrow> bool" where
  "ack_justifies sg sent k e = (case e of
     E_Ack f mac now \<Rightarrow> (case neigh_decode f of
         Inr m \<Rightarrow> nm_type m = MSG_ACK \<and> nm_pubkey m = k \<and> sig_verify sg k (take SIGNED_LEN f) (nm_sig m)
           \<and> abs64 (sat_sub64 (nm_ts m) now) \<le> TS_WINDOW_SECS
           \<and> (\<exists>t. E_BuildHello (nm_nonce m) t \<in> set sent \<and> sat_sub64 now t \<le> PENDING_TTL_SECS)
       | Inl _ \<Rightarrow> False)
   | _ \<Rightarrow> False)"

lemma pending_was_sent:
  "set (np_pending (nrun sg evs (proc_new a k st))) \<subseteq> {(n, t). E_BuildHello n t \<in> set evs}"
proof (induction evs rule: rev_induct)
  case (snoc e es)
  let ?p = "nrun sg es (proc_new a k st)"
  have "set (np_pending (nstep sg e ?p)) \<subseteq> set (np_pending ?p) \<union> {(n, t). e = E_BuildHello n t}"
  proof (cases e)
    case (E_Ack f mac now)
    show ?thesis unfolding E_Ack by (rule ack_effect [of sg f mac now ?p]) auto
  next
    case (E_BuildHello n now)
    then show ?thesis using record_hello_effect(2) [of n now ?p] by (auto simp: build_hello_def Let_def)
  qed (simp_all add: hello_effect approve_consent_def del: nstep.simps(1))
  with snoc show ?case by auto
qed (simp add: proc_new_def)

text \<open>
  Every key in the table is there by a decision of this node: it was in the table at the start,
  or the user consented to it, or a verified ACK of that key came within the time window and echoed the nonce of a
  HELLO that this node had sent at most 30 seconds before.
\<close>

theorem neighbor_keys_authorised:
  assumes "k \<in> set (peer_keys (np_store (nrun sg evs (proc_new addr pk st))))"
  shows "k \<in> set (peer_keys st)
    \<or> (\<exists>hello mac now. E_Approve hello mac now \<in> set evs \<and> nm_pubkey hello = k)
    \<or> (\<exists>sent e rest. evs = sent @ e # rest \<and> ack_justifies sg sent k e)"
  using assms
proof (induction evs rule: rev_induct)
  case (snoc e es)
  let ?p = "nrun sg es (proc_new addr pk st)"
  show ?case
  proof (cases "k \<in> set (peer_keys (np_store ?p))")
    case True
    then consider "k \<in> set (peer_keys st)" | hello mac now where "E_Approve hello mac now \<in> set es" "nm_pubkey hello = k"
      | sent f rest where "es = sent @ f # rest" "ack_justifies sg sent k f" using snoc.IH by blast
    then show ?thesis
    proof cases
      case 3
      then have "es @ [e] = sent @ f # (rest @ [e])" by simp
      with 3 show ?thesis by blast
    qed auto
  next
    case False
    have k: "k \<in> set (peer_keys (np_store (nstep sg e ?p)))" using snoc.prems by simp
    show ?thesis
    proof (cases e)
      case (E_Ack f mac now)
      have "ack_justifies sg es k e"
        unfolding E_Ack
      proof (rule ack_effect [of sg f mac now ?p])
        fix m assume m: "neigh_decode f = Inr m" "nm_type m = MSG_ACK" "sig_verify sg (nm_pubkey m) (take SIGNED_LEN f) (nm_sig m)"
          "abs64 (sat_sub64 (nm_ts m) now) \<le> TS_WINDOW_SECS"
          "np_store (nstep sg (E_Ack f mac now) ?p) = upsert (np_store ?p) mac (nm_addr m) (nm_pubkey m) now"
          "\<exists>t. (nm_nonce m, t) \<in> set (np_pending ?p) \<and> sat_sub64 now t \<le> PENDING_TTL_SECS"
        have "nm_pubkey m = k" using k False m(5) by (simp add: E_Ack upsert_keys del: nstep.simps split: if_splits)
        with m pending_was_sent [of sg es addr pk st] show "ack_justifies sg es k (E_Ack f mac now)"
          by (auto simp: ack_justifies_def)
      qed (use k False in \<open>simp add: E_Ack del: nstep.simps\<close>)
      then show ?thesis by blast
    next
      case (E_Approve m mac now)
      then have "nm_pubkey m = k" using k False by (simp add: approve_consent_def upsert_keys split: if_splits)
      with E_Approve show ?thesis by auto
    qed (use k False in \<open>simp_all add: hello_effect build_hello_def record_hello_effect Let_def del: nstep.simps(1)\<close>)
  qed
qed (simp add: proc_new_def)

text \<open>A signer for the concrete instances, and a HELLO that it verifies.\<close>

definition toy_signer :: signature_ops where
  "toy_signer = \<lparr> sig_sign = \<lambda>d. replicate 64 0, sig_verify = \<lambda>k d s. True \<rparr>"

definition toy_hello :: neighbor_message where
  "toy_hello = \<lparr> nm_type = 1, nm_flags = 0, nm_addr = replicate 16 1, nm_ts = 5, nm_nonce = 9,
     nm_pubkey = replicate 32 2, nm_sig = replicate 64 0 \<rparr>"

lemma toy_hello_verified:
  "\<exists>p1. verify_frame toy_signer (proc_new [] [] []) (neigh_encode toy_hello) MSG_HELLO 5 = (p1, Inr toy_hello)"
proof -
  have "neigh_decode (neigh_encode toy_hello) = Inr toy_hello"
    by (rule neigh_decode_encode_msg) (simp add: toy_hello_def msg_ok_def const_defs)
  then show ?thesis
    by (simp add: verify_frame_def toy_signer_def ring_of_def proc_new_def toy_hello_def const_defs abs64_def sat_sub64_def)
qed

lemma neighbor_replay_refused_witness:
  "let p1 = fst (verify_frame toy_signer (proc_new [] [] []) (neigh_encode toy_hello) MSG_HELLO 5)
   in \<exists>e. verify_frame toy_signer (nrun toy_signer [E_BuildHello 9 5] p1) (neigh_encode toy_hello) MSG_ACK 6 =
     (nrun toy_signer [E_BuildHello 9 5] p1, Inl e)"
proof -
  obtain p1 where v: "verify_frame toy_signer (proc_new [] [] []) (neigh_encode toy_hello) MSG_HELLO 5 = (p1, Inr toy_hello)"
    using toy_hello_verified by blast
  have "neigh_inv (proc_new [] [] [])" by (simp add: neigh_inv_def proc_new_def ring_of_def)
  from neighbor_replay_refused [OF this v, of "[E_BuildHello 9 5]" MSG_ACK 6] v show ?thesis
    by (simp add: accepted_nonce_def)
qed

lemma neighbor_keys_authorised_witness:
  "[7] \<in> set (peer_keys ([] :: neighbor_store))
   \<or> (\<exists>hello mac now. E_Approve hello mac now \<in> set [E_Approve \<lparr> nm_type = 1, nm_flags = 0, nm_addr = [], nm_ts = 5,
        nm_nonce = 9, nm_pubkey = [7], nm_sig = [] \<rparr> [] 0] \<and> nm_pubkey hello = [7])
   \<or> (\<exists>sent e rest. [E_Approve \<lparr> nm_type = 1, nm_flags = 0, nm_addr = [], nm_ts = 5,
        nm_nonce = 9, nm_pubkey = [7], nm_sig = [] \<rparr> [] 0] = sent @ e # rest
      \<and> ack_justifies \<lparr> sig_sign = \<lambda>d. [], sig_verify = \<lambda>k d s. False \<rparr> sent [7] e)"
  by (rule neighbor_keys_authorised [where addr = "[]" and pk = "[]"])
     (simp add: approve_consent_def proc_new_def)

section \<open>Two nodes that meet\<close>

text \<open>Documented behaviour of the signatures: what the holder of \<open>k\<close> signs, the peer verifies under \<open>k\<close>.\<close>

definition signs_for :: "signature_ops \<Rightarrow> signature_ops \<Rightarrow> bytes \<Rightarrow> bool" where
  "signs_for sg peer k \<longleftrightarrow> (\<forall>d. sig_verify peer k d (sig_sign sg d) \<and> length (sig_sign sg d) = 64)"

definition proc_ok :: "neigh_proc \<Rightarrow> bool" where
  "proc_ok p \<longleftrightarrow> length (np_addr p) = 16 \<and> length (np_pubkey p) = 32"

lemma build_message_verified:
  assumes "proc_ok p" "signs_for sg peer (np_pubkey p)" "t = MSG_HELLO \<or> t = MSG_ACK" "0 \<le> now" "now < 2 ^ 63"
    and "0 \<le> rnow" "\<bar>now - rnow\<bar> \<le> 300" "n \<notin> set (ring_of q (np_pubkey p))"
  shows "\<exists>sig. verify_frame peer q (build_message sg p t n now) t rnow =
    (q\<lparr> np_seen := AList.update (np_pubkey p) (ring_push n (ring_of q (np_pubkey p))) (np_seen q) \<rparr>,
     Inr \<lparr> nm_type = t, nm_flags = 0, nm_addr = np_addr p, nm_ts = now, nm_nonce = n, nm_pubkey = np_pubkey p, nm_sig = sig \<rparr>)"
proof -
  define dom where "dom = take SIGNED_LEN (encode_parts t (np_addr p) now n (np_pubkey p) (replicate SIG_LEN 0))"
  define m where "m = \<lparr> nm_type = t, nm_flags = 0, nm_addr = np_addr p, nm_ts = now, nm_nonce = n,
      nm_pubkey = np_pubkey p, nm_sig = sig_sign sg dom \<rparr>"
  have frame: "build_message sg p t n now = neigh_encode m"
    by (simp add: build_message_def build_signed_def neigh_encode_def m_def dom_def)
  have "msg_ok m" using assms by (simp add: msg_ok_def m_def proc_ok_def signs_for_def)
  then have dec: "neigh_decode (neigh_encode m) = Inr m" by (rule neigh_decode_encode_msg)
  have "take SIGNED_LEN (neigh_encode m) = dom"
    using assms(1) by (simp add: dom_def neigh_encode_def m_def encode_parts_def proc_ok_def const_defs)
  then have "sig_verify peer (nm_pubkey m) (take SIGNED_LEN (neigh_encode m)) (nm_sig m)"
    using assms(2) by (simp add: signs_for_def m_def)
  moreover have "\<not> TS_WINDOW_SECS < abs64 (sat_sub64 (nm_ts m) rnow)"
    using assms(4-7) by (auto simp: abs64_def sat_sub64_def m_def const_defs)
  ultimately show ?thesis
    using assms(8) unfolding frame verify_frame_def dec Let_def by (auto simp: m_def)
qed

lemma remove_pending_some: "(n, t) \<in> set es \<Longrightarrow> \<exists>es'. remove_pending n es = Some es'"
  by (induction n es rule: remove_pending.induct) auto

text \<open>
  Two nodes that meet know each other after one HELLO and one ACK: the receiver asks for consent and,
  when it is given, both tables hold the other side under its key with the address it announced and the MAC
  seen, provided that clocks differ by at most 300 seconds, the ACK is back within 30, and the nonce is fresh.
\<close>

theorem neighbors_meet:
  assumes "proc_ok a" "proc_ok b" "signs_for sa sb (np_pubkey a)" "signs_for sb sa (np_pubkey b)"
    and "0 \<le> t0" "0 \<le> t1" "0 \<le> t2" "0 \<le> t3" "t0 < 2 ^ 63" "t2 < 2 ^ 63"
    and "\<bar>t0 - t1\<bar> \<le> 300" "\<bar>t2 - t3\<bar> \<le> 300" "t3 - t0 \<le> 30"
    and "n \<notin> set (ring_of b (np_pubkey a))" "n \<notin> set (ring_of a (np_pubkey b))"
    and "\<not> store_contains (np_store b) (np_pubkey a)"
    and "build_hello sa a n t0 = (a1, hello)"
  shows "\<exists>b1 m a2 r. process_hello sb b hello mac_a t1 = (b1, NeedsConsent m)
    \<and> process_ack sa a1 (build_ack sb (approve_consent m mac_a t1 b1) m t2) mac_b t3 = (a2, Inr r)
    \<and> peer_map (np_store (approve_consent m mac_a t1 b1)) (np_pubkey a) =
        Some \<lparr> nr_mac = mac_a, nr_addr = np_addr a, nr_pubkey = np_pubkey a, nr_ts = t1 \<rparr>
    \<and> peer_map (np_store a2) (np_pubkey b) =
        Some \<lparr> nr_mac = mac_b, nr_addr = np_addr b, nr_pubkey = np_pubkey b, nr_ts = t3 \<rparr>"
proof -
  have a1: "a1 = record_hello_sent n t0 a" and hello: "hello = build_message sa a1 MSG_HELLO n t0"
    using assms(17) by (auto simp: build_hello_def Let_def)
  have same: "np_addr a1 = np_addr a" "np_pubkey a1 = np_pubkey a" "ring_of a1 k = ring_of a k" "proc_ok a1" for k
    using assms(1) by (simp_all add: a1 record_hello_sent_def prune_pending_def Let_def proc_ok_def)
  have sent: "(n, t0) \<in> set (np_pending a1)" by (simp add: a1 record_hello_sent_def Let_def)
  obtain sig where v1: "verify_frame sb b hello MSG_HELLO t1 =
      (b\<lparr> np_seen := AList.update (np_pubkey a) (ring_push n (ring_of b (np_pubkey a))) (np_seen b) \<rparr>,
       Inr \<lparr> nm_type = MSG_HELLO, nm_flags = 0, nm_addr = np_addr a, nm_ts = t0, nm_nonce = n, nm_pubkey = np_pubkey a, nm_sig = sig \<rparr>)"
    using build_message_verified [of a1 sa sb MSG_HELLO t0 t1 n b] assms same by (auto simp: hello)
  let ?b1 = "b\<lparr> np_seen := AList.update (np_pubkey a) (ring_push n (ring_of b (np_pubkey a))) (np_seen b) \<rparr>"
  let ?m = "\<lparr> nm_type = MSG_HELLO, nm_flags = 0, nm_addr = np_addr a, nm_ts = t0, nm_nonce = n, nm_pubkey = np_pubkey a, nm_sig = sig \<rparr>"
  let ?b2 = "approve_consent ?m mac_a t1 ?b1"
  have p1: "process_hello sb b hello mac_a t1 = (?b1, NeedsConsent ?m)"
    using assms(16) by (simp add: process_hello_def v1)
  have b2: "np_pubkey ?b2 = np_pubkey b" "np_addr ?b2 = np_addr b" "proc_ok ?b2"
    using assms(2) by (simp_all add: approve_consent_def proc_ok_def)
  obtain sig2 where v2: "verify_frame sa a1 (build_ack sb ?b2 ?m t2) MSG_ACK t3 =
      (a1\<lparr> np_seen := AList.update (np_pubkey b) (ring_push n (ring_of a (np_pubkey b))) (np_seen a1) \<rparr>,
       Inr \<lparr> nm_type = MSG_ACK, nm_flags = 0, nm_addr = np_addr b, nm_ts = t2, nm_nonce = n, nm_pubkey = np_pubkey b, nm_sig = sig2 \<rparr>)"
    using build_message_verified [of ?b2 sb sa MSG_ACK t2 t3 n a1] assms same b2 by (auto simp: build_ack_def)
  let ?a2 = "a1\<lparr> np_seen := AList.update (np_pubkey b) (ring_push n (ring_of a (np_pubkey b))) (np_seen a1) \<rparr>"
  have "(n, t0) \<in> set (np_pending (prune_pending t3 ?a2))"
    using sent assms(5,8,9,13) by (simp add: prune_pending_def sat_sub64_def const_defs)
  then obtain pend where pend: "remove_pending n (np_pending (prune_pending t3 ?a2)) = Some pend"
    using remove_pending_some by blast
  obtain a3 r where p2: "process_ack sa a1 (build_ack sb ?b2 ?m t2) mac_b t3 = (a3, Inr r)"
    "np_store a3 = upsert (np_store (prune_pending t3 ?a2)) mac_b (np_addr b) (np_pubkey b) t3"
    using pend by (simp add: process_ack_def v2)
  have e1: "peer_map (np_store ?b2) (np_pubkey a) = Some \<lparr> nr_mac = mac_a, nr_addr = np_addr a, nr_pubkey = np_pubkey a, nr_ts = t1 \<rparr>"
    by (simp add: approve_consent_def peer_map_upsert)
  have e2: "peer_map (np_store a3) (np_pubkey b) = Some \<lparr> nr_mac = mac_b, nr_addr = np_addr b, nr_pubkey = np_pubkey b, nr_ts = t3 \<rparr>"
    unfolding p2(2) peer_map_upsert by simp
  show ?thesis by (intro exI conjI) (rule p1, rule p2(1), rule e1, rule e2)
qed

lemma neighbors_meet_witness:
  "let sg = toy_signer;
       a = proc_new (replicate 16 1) (replicate 32 1) []; b = proc_new (replicate 16 2) (replicate 32 2) [];
       (a1, hello) = build_hello sg a 5 100
   in \<exists>b1 m a2 r. process_hello sg b hello [1] 90 = (b1, NeedsConsent m)
    \<and> process_ack sg a1 (build_ack sg (approve_consent m [1] 90 b1) m 95) [2] 110 = (a2, Inr r)
    \<and> peer_map (np_store (approve_consent m [1] 90 b1)) (np_pubkey a) =
        Some \<lparr> nr_mac = [1], nr_addr = np_addr a, nr_pubkey = np_pubkey a, nr_ts = 90 \<rparr>
    \<and> peer_map (np_store a2) (np_pubkey b) = Some \<lparr> nr_mac = [2], nr_addr = np_addr b, nr_pubkey = np_pubkey b, nr_ts = 110 \<rparr>"
  unfolding Let_def
  by (split prod.split, intro allI impI, rule neighbors_meet [where ?t0.0 = 100 and n = 5])
     (simp_all add: proc_ok_def proc_new_def signs_for_def ring_of_def store_contains_def toy_signer_def)

section \<open>The rings are never dropped\<close>

text \<open>
  Every public key that signs one valid HELLO takes a ring for the rest of the run, even when it is not in the
  table and is never consented to: the map of rings gains one entry per new key and no operation removes one.
\<close>

theorem neighbor_rings_grow:
  assumes "verify_frame sg p frame MSG_HELLO now = (q, Inr m)" "nm_pubkey m \<notin> fst ` set (np_seen p)"
  shows "length (np_seen (nrun sg [E_Hello frame mac now] p)) = Suc (length (np_seen p))
    \<and> fst ` set (np_seen (nrun sg evs (nrun sg [E_Hello frame mac now] p))) \<supseteq> insert (nm_pubkey m) (fst ` set (np_seen p))"
proof -
  have seen: "np_seen (fst (process_hello sg r f mc w)) = np_seen (fst (verify_frame sg r f MSG_HELLO w))"
    "np_seen (fst (process_ack sg r f mc w)) = np_seen (fst (verify_frame sg r f MSG_ACK w))" for r f mc w
    by (auto simp: process_hello_def process_ack_def prune_pending_def Let_def split: prod.split sum.split option.split)
  have vmono: "fst ` set (np_seen r) \<subseteq> fst ` set (np_seen (fst (verify_frame sg r f t w)))" for r f t w
  proof -
    obtain r' x where v: "verify_frame sg r f t w = (r', x)" by fastforce
    then show ?thesis by (rule verify_frame_cases) (auto simp: v update_conv' simp flip: dom_map_of_conv_image_fst)
  qed
  have step: "fst ` set (np_seen r) \<subseteq> fst ` set (np_seen (nstep sg e r))" for e r
    using vmono by (cases e) (simp_all add: seen build_hello_def record_hello_sent_def prune_pending_def approve_consent_def Let_def)
  have mono: "fst ` set (np_seen r) \<subseteq> fst ` set (np_seen (nrun sg es r))" for es r
  proof (induction es arbitrary: r)
    case (Cons e es)
    show ?case unfolding nrun_simps(2) by (rule order_trans [OF step Cons.IH])
  qed simp
  have new: "length (AList.update k x xs) = Suc (length xs)" if "k \<notin> fst ` set xs" for k :: bytes and x :: "u64 list" and xs
    using that by (induction xs) auto
  have q: "np_seen q = AList.update (nm_pubkey m) (ring_push (nm_nonce m) (ring_of p (nm_pubkey m))) (np_seen p)"
    by (rule verify_frame_cases [OF assms(1)]) auto
  have s: "np_seen (nrun sg [E_Hello frame mac now] p) = np_seen q" by (simp add: seen assms(1))
  have keys: "insert (nm_pubkey m) (fst ` set (np_seen p)) = fst ` set (np_seen q)"
    unfolding q dom_update by simp
  have "length (np_seen q) = Suc (length (np_seen p))" unfolding q by (rule new [OF assms(2)])
  then show ?thesis unfolding keys s by (intro conjI mono [of "nrun sg [E_Hello frame mac now] p" evs, unfolded s])
qed

lemma neighbor_rings_grow_witness:
  "length (np_seen (nrun toy_signer [E_Hello (neigh_encode toy_hello) [] 5] (proc_new [] [] []))) = 1"
proof -
  obtain p1 where v: "verify_frame toy_signer (proc_new [] [] []) (neigh_encode toy_hello) MSG_HELLO 5 = (p1, Inr toy_hello)"
    using toy_hello_verified by blast
  have "length (np_seen (nrun toy_signer [E_Hello (neigh_encode toy_hello) [] 5] (proc_new [] [] []))) =
      Suc (length (np_seen (proc_new [] [] [])))"
    by (rule conjunct1, rule neighbor_rings_grow [OF v]) (simp add: proc_new_def)
  then show ?thesis by (simp add: proc_new_def)
qed

end
