(* ===== verification/TunnelWindow.thy ===== *)
theory TunnelWindow
  imports Prelude
begin

text \<open>
  The receive replay window of a tunnel, \<open>RxWindow\<close> of \<open>ipv8-tunnel/src/crypto.rs\<close>:
  the greatest accepted counter and a 128-bit mask of the counters just below it. The abstract
  view is the set of all accepted counters; the window refines it and is a guard against replay.
\<close>

section \<open>The window\<close>

record rx_window =
  rw_top :: u64
  rw_mask :: u128

definition rx_window_default :: rx_window where
  "rx_window_default = \<lparr> rw_top = 0, rw_mask = 0 \<rparr>"

definition RX_WINDOW :: nat where [const_defs]: "RX_WINDOW = 127"

definition rw_accept :: "rx_window \<Rightarrow> u64 \<Rightarrow> rx_window \<times> bool" where
  "rw_accept w counter = (
     if counter = 0 then (w, False)
     else if rw_top w = 0 \<or> counter > rw_top w then
       (let shift = counter - rw_top w;
            mask = (if unat shift \<ge> RX_WINDOW then 1 else push_bit (unat shift) (rw_mask w) OR 1)
        in (w\<lparr> rw_mask := mask, rw_top := counter \<rparr>, True))
     else
       (let back = rw_top w - counter
        in if unat back \<ge> RX_WINDOW then (w, False)
           else
             let mask_bit = push_bit (unat back) 1
             in if rw_mask w AND mask_bit \<noteq> 0 then (w, False)
                else (w\<lparr> rw_mask := rw_mask w OR mask_bit \<rparr>, True)))"

section \<open>The abstract window\<close>

text \<open>
  The window represents the finite set \<open>A\<close> of accepted counters: its top is the greatest
  one and the mask has a bit for each of the 127 counters from the top down.
\<close>

definition represents :: "rx_window \<Rightarrow> nat set \<Rightarrow> bool" where
  "represents w A \<longleftrightarrow> finite A \<and> 0 \<notin> A \<and> (\<forall>a \<in> A. a \<le> unat (rw_top w))
     \<and> (rw_top w \<noteq> 0 \<longrightarrow> unat (rw_top w) \<in> A)
     \<and> (\<forall>k < 127. bit (rw_mask w) k \<longleftrightarrow> k < unat (rw_top w) \<and> unat (rw_top w) - k \<in> A)"

text \<open>The counters a window that has accepted \<open>A\<close> still takes.\<close>

definition acceptable :: "nat set \<Rightarrow> nat \<Rightarrow> bool" where
  "acceptable A c \<longleftrightarrow> c \<noteq> 0 \<and> c \<notin> A \<and> (\<forall>a \<in> A. a < c + 127)"

lemma represents_default: "represents rx_window_default {}"
  by (simp add: represents_def rx_window_default_def)

lemma bit_push_one: "k < 128 \<Longrightarrow> bit (push_bit b 1 :: u128) k \<longleftrightarrow> k = b"
  unfolding bit_push_bit_iff by (auto simp: bit_1_iff)

lemma mask_bit_zero: "k < 128 \<Longrightarrow> (m :: u128) AND push_bit k 1 \<noteq> 0 \<longleftrightarrow> bit m k"
  by (simp add: and_exp_eq_0_iff_not_bit push_bit_of_1)

lemma represents_ge:
  assumes "represents w A" "rw_top w = 0 \<or> c > rw_top w" "c \<noteq> 0"
    and "m = (if unat (c - rw_top w) \<ge> 127 then 1 else push_bit (unat (c - rw_top w)) (rw_mask w) OR 1)"
  shows "represents (w\<lparr> rw_mask := m, rw_top := c \<rparr>) (insert (unat c) A)"
proof -
  have less: "rw_top w < c" using assms(2,3) by (auto simp: word_gt_0)
  define t s where "t = unat (rw_top w)" and "s = unat (c - rw_top w)"
  have c: "unat c = t + s" and s: "0 < s"
    using less by (auto simp: t_def s_def unat_sub word_less_nat_alt word_le_nat_alt)
  have A: "\<And>a. a \<in> A \<Longrightarrow> a \<le> t" "0 \<notin> A" "finite A"
    and bits: "\<And>k. k < 127 \<Longrightarrow> bit (rw_mask w) k \<longleftrightarrow> k < t \<and> t - k \<in> A"
    using assms(1) by (auto simp: represents_def t_def)
  have "bit m k \<longleftrightarrow> k < t + s \<and> t + s - k \<in> insert (t + s) A" if k: "k < 127" for k
  proof (cases "k = 0")
    case True
    then show ?thesis using assms(4) s by (auto simp: bit_or_iff bit_push_bit_iff)
  next
    case False
    show ?thesis
    proof (cases "k < s")
      case True
      then have "t + s - k \<notin> A" using A(1) by force
      moreover have "\<not> bit m k"
        using True False assms(4) k by (auto simp: s_def bit_or_iff bit_push_bit_iff bit_1_iff split: if_splits)
      ultimately show ?thesis using False True by auto
    next
      case ge: False
      then have m: "m = push_bit s (rw_mask w) OR 1" using assms(4) k by (simp add: s_def)
      have pb: "possible_bit TYPE(u128) k" using k by simp
      have le: "s \<le> k" using ge by simp
      have "bit m k \<longleftrightarrow> bit (rw_mask w) (k - s)"
        unfolding m bit_or_iff bit_push_bit_iff bit_1_iff using pb le False by blast
      also have "\<dots> \<longleftrightarrow> k - s < t \<and> t - (k - s) \<in> A" using k by (intro bits) simp
      also have "t - (k - s) = t + s - k" using le by simp
      also have "k - s < t \<longleftrightarrow> k < t + s" using le by linarith
      finally show ?thesis using False by force
    qed
  qed
  then have "\<forall>k < 127. bit m k \<longleftrightarrow> k < t + s \<and> t + s - k \<in> insert (t + s) A" by blast
  moreover have "\<forall>a \<in> insert (t + s) A. a \<le> t + s" using A(1) by force
  moreover have "0 \<notin> insert (t + s) A" using A(2) s by simp
  moreover have "finite (insert (t + s) A)" using A(3) by simp
  moreover have "rw_top (w\<lparr> rw_mask := m, rw_top := c \<rparr>) = c" "rw_mask (w\<lparr> rw_mask := m, rw_top := c \<rparr>) = m"
    by simp_all
  note sel = this
  ultimately show ?thesis
    unfolding represents_def sel c by (intro conjI insertI1 impI)
qed

lemma represents_back:
  assumes "represents w A" "rw_top w \<noteq> 0" "c \<le> rw_top w" "c \<noteq> 0" "unat (rw_top w - c) < 127"
  shows "represents (w\<lparr> rw_mask := rw_mask w OR push_bit (unat (rw_top w - c)) 1 \<rparr>) (insert (unat c) A)"
proof -
  define t b where "t = unat (rw_top w)" and "b = unat (rw_top w - c)"
  have tb: "t = unat c + b" "b < 127" "0 < unat c"
    using assms(3-5) by (auto simp: t_def b_def unat_sub word_le_nat_alt unat_gt_0)
  have "bit (rw_mask w OR push_bit b 1) k \<longleftrightarrow> k < t \<and> t - k \<in> insert (unat c) A" if "k < 127" for k
  proof -
    have "bit (rw_mask w) k \<longleftrightarrow> k < t \<and> t - k \<in> A" using assms(1) that by (simp add: represents_def t_def)
    moreover have "bit (push_bit b 1 :: u128) k \<longleftrightarrow> k = b" using that by (intro bit_push_one) simp
    moreover have "k < t \<and> t - k = unat c \<longleftrightarrow> k = b" using tb by auto
    ultimately show ?thesis by (auto simp: bit_or_iff)
  qed
  then show ?thesis
    using assms(1,2) tb by (auto simp: represents_def t_def b_def)
qed

lemma accept_refines:
  assumes "represents w A"
  shows "(snd (rw_accept w c) \<longleftrightarrow> acceptable A (unat c))
    \<and> represents (fst (rw_accept w c)) (if acceptable A (unat c) then insert (unat c) A else A)"
proof (cases "c = 0")
  case True
  then show ?thesis using assms by (simp add: rw_accept_def acceptable_def)
next
  case c0: False
  have top: "a \<in> A \<Longrightarrow> a \<le> unat (rw_top w)" for a using assms by (simp add: represents_def)
  show ?thesis
  proof (cases "rw_top w = 0 \<or> c > rw_top w")
    case True
    have less: "unat (rw_top w) < unat c" using True c0 by (auto simp: word_less_nat_alt unat_gt_0)
    have "a < unat c" if "a \<in> A" for a using top [OF that] less by simp
    then have "acceptable A (unat c)" using less by (fastforce simp: acceptable_def)
    then show ?thesis
      using represents_ge [OF assms True c0 refl] True c0 by (simp add: rw_accept_def const_defs Let_def)
  next
    case False
    then have le: "c \<le> rw_top w" "rw_top w \<noteq> 0" by auto
    define b where "b = unat (rw_top w - c)"
    have tb: "unat (rw_top w) = unat c + b" using le by (simp add: b_def unat_sub word_le_nat_alt)
    have topA: "unat (rw_top w) \<in> A" using assms le(2) by (simp add: represents_def)
    have c1: "0 < unat c" using c0 by (simp add: unat_gt_0)
    have acc: "acceptable A (unat c) \<longleftrightarrow> b < 127 \<and> \<not> bit (rw_mask w) b"
    proof (cases "b < 127")
      case True
      then have "bit (rw_mask w) b \<longleftrightarrow> unat c \<in> A" using assms tb c1 by (simp add: represents_def)
      moreover have "a < unat c + 127" if "a \<in> A" for a using top [OF that] tb True by simp
      ultimately show ?thesis using True c1 by (auto simp: acceptable_def)
    next
      case False
      then have "\<not> unat c + b < unat c + 127" by simp
      then show ?thesis using topA tb False unfolding acceptable_def by metis
    qed
    have step: "rw_accept w c = (if b \<ge> 127 then (w, False)
        else if rw_mask w AND push_bit b 1 \<noteq> 0 then (w, False)
        else (w\<lparr> rw_mask := rw_mask w OR push_bit b 1 \<rparr>, True))"
      using False c0 by (simp add: rw_accept_def const_defs Let_def b_def)
    show ?thesis
    proof (cases "acceptable A (unat c)")
      case True
      then have nb: "b < 127" "rw_mask w AND push_bit b 1 = 0" using acc mask_bit_zero [of b "rw_mask w"] by auto
      then show ?thesis
        using True represents_back [OF assms le(2,1) c0] by (simp add: step b_def)
    next
      case na: False
      then have "b \<ge> 127 \<or> rw_mask w AND push_bit b 1 \<noteq> 0" using acc mask_bit_zero [of b "rw_mask w"] by auto
      then show ?thesis using na assms by (auto simp: step)
    qed
  qed
qed

text \<open>
  C18. The replay window is exact: it accepts a counter if and only if the counter is positive,
  was never accepted and is fewer than 127 below the greatest accepted one, and it then remembers it.
\<close>

theorem rx_window_refines:
  assumes "represents w A"
  shows "(snd (rw_accept w c) \<longleftrightarrow> acceptable A (unat c))
    \<and> represents (fst (rw_accept w c)) (if acceptable A (unat c) then insert (unat c) A else A)"
  using assms by (rule accept_refines)

lemma rx_window_refines_witness:
  "snd (rw_accept (fst (rw_accept rx_window_default 5)) 3) \<and> \<not> snd (rw_accept (fst (rw_accept rx_window_default 5)) 5)"
proof -
  have "represents (fst (rw_accept rx_window_default 5)) {5}"
    using rx_window_refines [OF represents_default, of 5] by (simp add: acceptable_def)
  from rx_window_refines [OF this] show ?thesis by (simp add: acceptable_def)
qed

section \<open>No replay\<close>

definition window_ok :: "rx_window \<Rightarrow> bool" where
  "window_ok w \<longleftrightarrow> (\<exists>A. represents w A)"

text \<open>A counter that the window would not accept.\<close>

definition window_spent :: "rx_window \<Rightarrow> u64 \<Rightarrow> bool" where
  "window_spent w c \<longleftrightarrow> \<not> snd (rw_accept w c)"

lemma window_ok_default [simp]: "window_ok rx_window_default"
  unfolding window_ok_def using represents_default by blast

lemma acceptable_insert: "acceptable (insert a A) c \<Longrightarrow> acceptable A c \<and> a \<noteq> c"
  by (auto simp: acceptable_def)

interpretation rx_guard: replay_guard rw_accept "\<lambda>c. c" window_ok window_spent
proof
  fix w c k
  assume "window_ok w"
  then obtain A where A: "represents w A" by (auto simp: window_ok_def)
  note st = accept_refines [OF A, of c]
  then show "window_ok (fst (rw_accept w c))" unfolding window_ok_def by blast
  show "window_spent (fst (rw_accept w c)) c" if "snd (rw_accept w c)"
    using st that accept_refines [of "fst (rw_accept w c)" "insert (unat c) A" c]
      acceptable_insert [of "unat c" A "unat c"]
    by (auto simp: window_spent_def)
  show "window_spent (fst (rw_accept w c)) k" if "window_spent w k"
    using st that accept_refines [OF A, of k] acceptable_insert
      accept_refines [of "fst (rw_accept w c)" "if acceptable A (unat c) then insert (unat c) A else A" k]
    unfolding window_spent_def by (metis (full_types))
qed (simp add: window_spent_def)

text \<open>
  Whatever sequence of counters reaches a fresh window, it accepts no counter twice.
\<close>

theorem rx_window_no_replay: "distinct (accepted_run rw_accept rx_window_default cs)"
  using rx_guard.never_twice [OF window_ok_default, of cs] by simp

text \<open>
  Reordering is tolerated: counters that arrive in any order, each once, are all accepted as
  long as no counter comes after one that is 127 or more ahead of it.
\<close>

theorem rx_window_accepts_reordered:
  assumes "distinct cs" "0 \<notin> set cs"
    and "\<forall>i j. i < j \<and> j < length cs \<longrightarrow> unat (cs ! i) < unat (cs ! j) + 127"
  shows "accepted_run rw_accept rx_window_default cs = cs"
proof -
  have run: "accepted_run rw_accept w cs = cs"
    if "represents w A" "\<forall>c \<in> set cs. acceptable A (unat c)" for w A
    using that assms
  proof (induction cs arbitrary: w A)
    case (Cons c cs)
    obtain w' ok where st: "rw_accept w c = (w', ok)" by (metis surj_pair)
    have ok: "ok" "represents w' (insert (unat c) A)"
      using accept_refines [OF Cons.prems(1), of c] Cons.prems(2) st by auto
    have "unat c < unat d + 127" if mem: "d \<in> set cs" for d
    proof -
      obtain j where "j < length cs" "cs ! j = d" using mem by (auto simp: in_set_conv_nth)
      then show ?thesis using spec [OF spec [OF Cons.prems(5), of 0], of "Suc j"] by simp
    qed
    moreover have "unat d \<noteq> unat c" if "d \<in> set cs" for d
      using that Cons.prems(3) by (metis distinct.simps(2) word_unat_eq_iff)
    ultimately have "\<forall>d \<in> set cs. acceptable (insert (unat c) A) (unat d)"
      using Cons.prems(2) by (auto simp: acceptable_def)
    moreover have "\<forall>i j. i < j \<and> j < length cs \<longrightarrow> unat (cs ! i) < unat (cs ! j) + 127"
      using Cons.prems(5) by (metis Suc_mono length_Cons nth_Cons_Suc)
    ultimately show ?case using Cons.IH [OF ok(2)] Cons.prems(3,4) ok(1) st by simp
  qed simp
  show ?thesis
    by (rule run [OF represents_default]) (use assms(2) in \<open>auto simp: acceptable_def unat_eq_zero\<close>)
qed

lemma rx_window_accepts_reordered_witness:
  "accepted_run rw_accept rx_window_default [2, 1, 4, 3] = [2, 1, 4, 3]"
proof (rule rx_window_accepts_reordered)
  have "unat (x :: u64) < unat (y :: u64) + 127" if "unat x \<le> 4" for x y using that by simp
  moreover have "\<forall>x \<in> set [2, 1, 4, 3 :: u64]. unat x \<le> 4" by simp
  ultimately show "\<forall>i j. i < j \<and> j < length [2, 1, 4, 3 :: u64] \<longrightarrow>
      unat ([2, 1, 4, 3 :: u64] ! i) < unat ([2, 1, 4, 3 :: u64] ! j) + 127"
    by (meson nth_mem order.strict_trans)
qed simp_all

end
