(* ===== verification/TunnelKeys.thy ===== *)
theory TunnelKeys
  imports CodecWire TunnelWindow
begin

text \<open>
  The key state of a tunnel, \<open>ipv8-tunnel/src/crypto.rs\<close>, with the error type of
  \<open>frame.rs\<close>. HMAC-SHA256 and the two AEADs come from other crates: they are the fields of
  a record that every operation takes. \<open>Instant::now()\<close> is an argument, in nanoseconds. A
  \<open>BTreeMap\<close> is an association list of distinct keys.
\<close>

section \<open>Suites, ciphers and errors\<close>

datatype cipher_suite = ChaCha20Poly1305 | Aes256Gcm

fun suite_byte :: "cipher_suite \<Rightarrow> u8" where
  "suite_byte ChaCha20Poly1305 = 0"
| "suite_byte Aes256Gcm = 1"

definition suite_from_byte :: "u8 \<Rightarrow> cipher_suite option" where
  "suite_from_byte b = (if b = 0 then Some ChaCha20Poly1305 else if b = 1 then Some Aes256Gcm else None)"

text \<open>The crates the code calls: HMAC of a key and data, the AEADs with key, nonce, AAD and message.\<close>

record crypto =
  hmac_sha256 :: "bytes \<Rightarrow> bytes \<Rightarrow> bytes"
  chacha_encrypt :: "bytes \<Rightarrow> bytes \<Rightarrow> bytes \<Rightarrow> bytes \<Rightarrow> bytes option"
  chacha_decrypt :: "bytes \<Rightarrow> bytes \<Rightarrow> bytes \<Rightarrow> bytes \<Rightarrow> bytes option"
  aes_encrypt :: "bytes \<Rightarrow> bytes \<Rightarrow> bytes \<Rightarrow> bytes \<Rightarrow> bytes option"
  aes_decrypt :: "bytes \<Rightarrow> bytes \<Rightarrow> bytes \<Rightarrow> bytes \<Rightarrow> bytes option"

datatype cipher = ChaCha bytes | Aes bytes

fun cipher_encrypt :: "crypto \<Rightarrow> cipher \<Rightarrow> bytes \<Rightarrow> bytes \<Rightarrow> bytes \<Rightarrow> bytes option" where
  "cipher_encrypt cr (ChaCha key) nonce aad msg = chacha_encrypt cr key nonce aad msg"
| "cipher_encrypt cr (Aes key) nonce aad msg = aes_encrypt cr key nonce aad msg"

fun cipher_decrypt :: "crypto \<Rightarrow> cipher \<Rightarrow> bytes \<Rightarrow> bytes \<Rightarrow> bytes \<Rightarrow> bytes option" where
  "cipher_decrypt cr (ChaCha key) nonce aad msg = chacha_decrypt cr key nonce aad msg"
| "cipher_decrypt cr (Aes key) nonce aad msg = aes_decrypt cr key nonce aad msg"

datatype frame_type =
    HandshakeInit | HandshakeResp | Data | Rekey | AuthInit | AuthResp | FecRecovery | Receipt

datatype frame_error =
    Frame_TooShort nat
  | Frame_BadVersion u8
  | Frame_BadType u8
  | NotData frame_type
  | Frame_BodyTooShort
  | DecryptFailed
  | PayloadLenMismatch
  | Replay
  | StaleEpoch u64 u64
  | UnknownKeyId
  | BadHandshakeLen
  | SuiteMismatch cipher_suite cipher_suite
  | ShardMismatch u64 u64 u64
  | AuthFailed
  | Frame_Header decode_error

definition ROTATE_BYTES :: u64 where [const_defs]: "ROTATE_BYTES = 1073741824"
definition ROTATE_SECS :: nat where [const_defs]: "ROTATE_SECS = 3600"
definition GRACE_EPOCHS :: u64 where [const_defs]: "GRACE_EPOCHS = 1"

section \<open>Key derivation and nonces\<close>

definition hkdf :: "crypto \<Rightarrow> bytes \<Rightarrow> bytes \<Rightarrow> bytes" where
  "hkdf cr ikm info = (
     let prk = hmac_sha256 cr (map of_char ''ipv8plus-tunnel-v1'') ikm
     in hmac_sha256 cr prk info)"

definition key_info :: "cipher_suite \<Rightarrow> u64 \<Rightarrow> bool \<Rightarrow> bool \<Rightarrow> bytes" where
  "key_info suite epoch is_initiator sending = (
     let dir_bit = (if is_initiator = sending then 0 else 1);
         info = replicate 11 0;
         info = info[0 := dir_bit];
         info = write_at 1 (to_be64 epoch) info;
         info = info[9 := 0x4B]
     in info[10 := suite_byte suite])"

definition cipher_for :: "crypto \<Rightarrow> bytes \<Rightarrow> cipher_suite \<Rightarrow> u64 \<Rightarrow> bool \<Rightarrow> bool \<Rightarrow> cipher" where
  "cipher_for cr dh suite epoch is_initiator sending = (
     let key = hkdf cr dh (key_info suite epoch is_initiator sending)
     in case suite of ChaCha20Poly1305 \<Rightarrow> ChaCha key | Aes256Gcm \<Rightarrow> Aes key)"

definition nonce_for :: "u64 \<Rightarrow> bytes" where
  "nonce_for counter = write_at 4 (to_be64 counter) (replicate 12 0)"

definition RECEIPT_NONCE_BIT :: u8 where [const_defs]: "RECEIPT_NONCE_BIT = 0x80"

definition receipt_nonce :: "u64 \<Rightarrow> bytes" where
  "receipt_nonce counter = (let n = nonce_for counter in n[4 := n ! 4 OR RECEIPT_NONCE_BIT])"

section \<open>The key state\<close>

record tunnel_keys =
  tk_dh :: bytes
  tk_is_initiator :: bool
  tk_suite :: cipher_suite
  tk_send_epoch :: u64
  tk_epoch_created :: nat
  tk_epoch_bytes :: u64
  tk_tx_counter :: u64
  tk_tx_receipt_counter :: u64
  tk_shard :: u64
  tk_stride :: u64
  tk_rx :: "(u64 \<times> rx_window) list"
  tk_rx_receipt :: "(u64 \<times> rx_window) list"
  tk_send_cipher :: "(u64 \<times> cipher) option"
  tk_rx_ciphers :: "(u64 \<times> cipher) list"

definition keys_new :: "nat \<Rightarrow> bytes \<Rightarrow> bool \<Rightarrow> tunnel_keys" where
  "keys_new now dh is_initiator = \<lparr>
     tk_dh = dh, tk_is_initiator = is_initiator, tk_suite = ChaCha20Poly1305, tk_send_epoch = 0,
     tk_epoch_created = now, tk_epoch_bytes = 0, tk_tx_counter = 0, tk_tx_receipt_counter = 0,
     tk_shard = 0, tk_stride = 1, tk_rx = [], tk_rx_receipt = [], tk_send_cipher = None, tk_rx_ciphers = [] \<rparr>"

definition keys_with_suite :: "nat \<Rightarrow> bytes \<Rightarrow> bool \<Rightarrow> cipher_suite \<Rightarrow> tunnel_keys" where
  "keys_with_suite now dh is_initiator suite = (keys_new now dh is_initiator)\<lparr> tk_suite := suite \<rparr>"

definition keys_with_shard ::
  "nat \<Rightarrow> bytes \<Rightarrow> bool \<Rightarrow> cipher_suite \<Rightarrow> u64 \<Rightarrow> u64 \<Rightarrow> (unit, tunnel_keys) outcome" where
  "keys_with_shard now dh is_initiator suite shard stride = (
     if \<not> (stride \<ge> 1 \<and> shard < stride) then Panic
     else
       let k = keys_with_suite now dh is_initiator suite
       in Ok (k\<lparr> tk_shard := shard, tk_stride := stride, tk_send_epoch := shard \<rparr>))"

definition derive_shard :: "nat \<Rightarrow> tunnel_keys \<Rightarrow> u64 \<Rightarrow> u64 \<Rightarrow> (unit, tunnel_keys) outcome" where
  "derive_shard now k shard stride = (
     if \<not> (stride \<ge> 1 \<and> shard < stride) then Panic
     else Ok (k\<lparr> tk_shard := shard, tk_stride := stride, tk_send_epoch := shard, tk_epoch_created := now,
                tk_epoch_bytes := 0, tk_tx_counter := 0, tk_tx_receipt_counter := 0, tk_rx := [],
                tk_rx_receipt := [], tk_send_cipher := None, tk_rx_ciphers := [] \<rparr>))"

definition set_suite :: "tunnel_keys \<Rightarrow> cipher_suite \<Rightarrow> tunnel_keys \<times> bool" where
  "set_suite k suite = (
     if tk_send_epoch k \<noteq> tk_shard k \<or> tk_tx_counter k \<noteq> 0 \<or> tk_rx k \<noteq> [] then (k, False)
     else (k\<lparr> tk_suite := suite, tk_send_cipher := None, tk_rx_ciphers := [] \<rparr>, True))"

definition frame_key_id :: "tunnel_keys \<Rightarrow> u64 \<Rightarrow> bytes" where
  "frame_key_id k epoch = (to_be64 epoch)[0 := suite_byte (tk_suite k)]"

definition advance_epoch :: "nat \<Rightarrow> tunnel_keys \<Rightarrow> tunnel_keys" where
  "advance_epoch now k = k\<lparr>
     tk_send_epoch := tk_send_epoch k + tk_stride k, tk_epoch_created := now, tk_epoch_bytes := 0,
     tk_tx_counter := 0, tk_tx_receipt_counter := 0, tk_send_cipher := None \<rparr>"

section \<open>Sending\<close>

definition send_epoch_ready :: "crypto \<Rightarrow> nat \<Rightarrow> tunnel_keys \<Rightarrow> tunnel_keys \<times> u64" where
  "send_epoch_ready cr now k = (
     let k = (if tk_epoch_bytes k \<ge> ROTATE_BYTES
                \<or> now - tk_epoch_created k \<ge> ROTATE_SECS * 1000000000
              then advance_epoch now k else k);
         epoch = tk_send_epoch k;
         k = (case tk_send_cipher k of
                Some (e, c) \<Rightarrow>
                  if e = epoch then k
                  else k\<lparr> tk_send_cipher := Some (epoch, cipher_for cr (tk_dh k) (tk_suite k) epoch (tk_is_initiator k) True) \<rparr>
              | None \<Rightarrow>
                  k\<lparr> tk_send_cipher := Some (epoch, cipher_for cr (tk_dh k) (tk_suite k) epoch (tk_is_initiator k) True) \<rparr>)
     in (k, epoch))"

definition seal ::
  "crypto \<Rightarrow> nat \<Rightarrow> tunnel_keys \<Rightarrow> bytes \<Rightarrow> bytes \<Rightarrow> (unit, tunnel_keys \<times> bytes \<times> bytes) outcome" where
  "seal cr now k aad plaintext = (
     let (k, epoch) = send_epoch_ready cr now k;
         k = k\<lparr> tk_tx_counter := tk_tx_counter k + 1 \<rparr>
     in case tk_send_cipher k of
          None \<Rightarrow> Panic
        | Some (_, cipher) \<Rightarrow>
            (case cipher_encrypt cr cipher (nonce_for (tk_tx_counter k)) aad plaintext of
               None \<Rightarrow> Panic
             | Some ct \<Rightarrow>
                 let body = to_be64 (tk_tx_counter k) @ ct;
                     k = k\<lparr> tk_epoch_bytes := tk_epoch_bytes k + of_nat (length body) \<rparr>
                 in Ok (k, frame_key_id k epoch, body)))"

definition seal_receipt ::
  "crypto \<Rightarrow> nat \<Rightarrow> tunnel_keys \<Rightarrow> bytes \<Rightarrow> (unit, tunnel_keys \<times> bytes \<times> bytes) outcome" where
  "seal_receipt cr now k plaintext = (
     let (k, epoch) = send_epoch_ready cr now k;
         k = k\<lparr> tk_tx_receipt_counter := tk_tx_receipt_counter k + 1 \<rparr>
     in case tk_send_cipher k of
          None \<Rightarrow> Panic
        | Some (_, cipher) \<Rightarrow>
            (case cipher_encrypt cr cipher (receipt_nonce (tk_tx_receipt_counter k)) [] plaintext of
               None \<Rightarrow> Panic
             | Some ct \<Rightarrow>
                 let body = to_be64 (tk_tx_receipt_counter k) @ ct;
                     k = k\<lparr> tk_epoch_bytes := tk_epoch_bytes k + of_nat (length body) \<rparr>
                 in Ok (k, frame_key_id k epoch, body)))"

section \<open>Receiving\<close>

definition sat_add :: "u64 \<Rightarrow> u64 \<Rightarrow> u64" where
  "sat_add a b = (if unat a + unat b < 2 ^ 64 then a + b else - 1)"

definition sat_mul :: "u64 \<Rightarrow> u64 \<Rightarrow> u64" where
  "sat_mul a b = (if unat a * unat b < 2 ^ 64 then a * b else - 1)"

definition sat_sub :: "u64 \<Rightarrow> u64 \<Rightarrow> u64" where
  "sat_sub a b = (if b \<le> a then a - b else 0)"

text \<open>The last key of a \<open>BTreeMap\<close>, and \<open>split_off(&floor)\<close>, which keeps the keys from \<open>floor\<close> on.\<close>

definition last_key :: "(u64 \<times> 'v) list \<Rightarrow> u64 option" where
  "last_key m = (case map fst m of [] \<Rightarrow> None | k # ks \<Rightarrow> Some (fold max ks k))"

definition split_off :: "u64 \<Rightarrow> (u64 \<times> 'v) list \<Rightarrow> (u64 \<times> 'v) list" where
  "split_off floor m = filter (\<lambda>(k, _). floor \<le> k) m"

definition max_opt :: "u64 option \<Rightarrow> u64 option \<Rightarrow> u64 option" where
  "max_opt a b = (case (a, b) of
     (None, _) \<Rightarrow> b | (_, None) \<Rightarrow> a | (Some x, Some y) \<Rightarrow> Some (max x y))"

definition open_cipher ::
  "crypto \<Rightarrow> tunnel_keys \<Rightarrow> bytes \<Rightarrow> tunnel_keys \<times> (frame_error + u64 \<times> cipher)" where
  "open_cipher cr k key_id = (
     case suite_from_byte (key_id ! 0) of
       None \<Rightarrow> (k, Inl UnknownKeyId)
     | Some remote_suite \<Rightarrow>
         if remote_suite \<noteq> tk_suite k then (k, Inl (SuiteMismatch (tk_suite k) remote_suite))
         else
           let epoch = from_be key_id AND 0x00FFFFFFFFFFFFFF
           in if epoch mod tk_stride k \<noteq> tk_shard k
              then (k, Inl (ShardMismatch epoch (tk_shard k) (tk_stride k)))
              else
                let newest = max (case max_opt (last_key (tk_rx k)) (last_key (tk_rx_receipt k)) of
                                    None \<Rightarrow> epoch | Some n \<Rightarrow> n) epoch
                in if newest > sat_add epoch (sat_mul GRACE_EPOCHS (tk_stride k))
                   then (k, Inl (StaleEpoch epoch newest))
                   else
                     (case map_of (tk_rx_ciphers k) epoch of
                        Some c \<Rightarrow> (k, Inr (epoch, c))
                      | None \<Rightarrow>
                          let c = cipher_for cr (tk_dh k) (tk_suite k) epoch (tk_is_initiator k) False
                          in (k\<lparr> tk_rx_ciphers := AList.update epoch c (tk_rx_ciphers k) \<rparr>, Inr (epoch, c))))"

definition prune :: "tunnel_keys \<Rightarrow> tunnel_keys" where
  "prune k = (case max_opt (last_key (tk_rx k)) (last_key (tk_rx_receipt k)) of
     None \<Rightarrow> k
   | Some newest \<Rightarrow>
       let floor = sat_sub newest (sat_mul GRACE_EPOCHS (tk_stride k))
       in k\<lparr> tk_rx := split_off floor (tk_rx k), tk_rx_receipt := split_off floor (tk_rx_receipt k),
             tk_rx_ciphers := split_off floor (tk_rx_ciphers k) \<rparr>)"

text \<open>\<open>entry(epoch).or_default()\<close>.\<close>

definition window_of :: "(u64 \<times> rx_window) list \<Rightarrow> u64 \<Rightarrow> rx_window" where
  "window_of m e = (case map_of m e of Some w \<Rightarrow> w | None \<Rightarrow> rx_window_default)"

definition open_frame ::
  "crypto \<Rightarrow> tunnel_keys \<Rightarrow> bytes \<Rightarrow> bytes \<Rightarrow> bytes \<Rightarrow> tunnel_keys \<times> (frame_error + bytes)" where
  "open_frame cr k key_id body aad = (
     if length body < 8 then (k, Inl Frame_BodyTooShort)
     else
       let counter = from_be (take 8 body); ct = drop 8 body
       in case open_cipher cr k key_id of
            (k, Inl e) \<Rightarrow> (k, Inl e)
          | (k, Inr (epoch, cipher)) \<Rightarrow>
              (case cipher_decrypt cr cipher (nonce_for counter) aad ct of
                 None \<Rightarrow> (k, Inl DecryptFailed)
               | Some pt \<Rightarrow>
                   let (w, accepted) = rw_accept (window_of (tk_rx k) epoch) counter;
                       k = prune (k\<lparr> tk_rx := AList.update epoch w (tk_rx k) \<rparr>)
                   in if \<not> accepted then (k, Inl Replay) else (k, Inr pt)))"

definition open_receipt ::
  "crypto \<Rightarrow> tunnel_keys \<Rightarrow> bytes \<Rightarrow> bytes \<Rightarrow> tunnel_keys \<times> (frame_error + bytes)" where
  "open_receipt cr k key_id body = (
     if length body < 8 then (k, Inl Frame_BodyTooShort)
     else
       let counter = from_be (take 8 body); ct = drop 8 body
       in case open_cipher cr k key_id of
            (k, Inl e) \<Rightarrow> (k, Inl e)
          | (k, Inr (epoch, cipher)) \<Rightarrow>
              (case cipher_decrypt cr cipher (receipt_nonce counter) [] ct of
                 None \<Rightarrow> (k, Inl DecryptFailed)
               | Some pt \<Rightarrow>
                   let (w, accepted) = rw_accept (window_of (tk_rx_receipt k) epoch) counter;
                       k = prune (k\<lparr> tk_rx_receipt := AList.update epoch w (tk_rx_receipt k) \<rparr>)
                   in if \<not> accepted then (k, Inl Replay) else (k, Inr pt)))"

definition rekey :: "nat \<Rightarrow> tunnel_keys \<Rightarrow> bytes \<Rightarrow> tunnel_keys" where
  "rekey now k new_dh = (
     let k = advance_epoch now (k\<lparr> tk_dh := new_dh \<rparr>)
     in k\<lparr> tk_rx := [], tk_rx_receipt := [], tk_rx_ciphers := [] \<rparr>)"

end
