(* ===== verification/TunnelReplay.thy ===== *)
theory TunnelReplay
  imports TunnelKeys
begin

text \<open>
  The receiving side of \<open>TunnelKeys\<close> is a guard against replay: over any interleaving of
  seals and received Data and Receipt frames no frame of the same kind, epoch and counter is accepted
  twice. Forged frames leave the windows alone, but they do grow the cache of receive ciphers.
\<close>

section \<open>Epoch arithmetic\<close>

lemma last_key_None [simp]: "last_key m = None \<longleftrightarrow> m = []"
  by (cases m) (auto simp: last_key_def)

lemma fold_max_word: "fold max ks (k :: u64) \<in> insert k (set ks) \<and> (\<forall>x \<in> insert k (set ks). x \<le> fold max ks k)"
proof (induction ks arbitrary: k)
  case (Cons y ks)
  show ?case using Cons [of "max y k"] by (auto simp: max_def split: if_splits)
qed simp

lemma last_key_SomeD: "last_key m = Some n \<Longrightarrow> n \<in> fst ` set m \<and> (\<forall>k \<in> fst ` set m. k \<le> n)"
proof (cases m)
  case (Cons p m')
  moreover assume "last_key m = Some n"
  ultimately have "n = fold max (map fst m') (fst p)" by (simp add: last_key_def)
  then show ?thesis using fold_max_word [of "map fst m'" "fst p"] Cons by auto
qed (simp add: last_key_def)

lemma last_key_ge: "k \<in> fst ` set m \<Longrightarrow> \<exists>n. last_key m = Some n \<and> k \<le> n"
proof -
  assume k: "k \<in> fst ` set m"
  then have "last_key m \<noteq> None" by auto
  then obtain n where "last_key m = Some n" by blast
  then show ?thesis using last_key_SomeD k by blast
qed

text \<open>The newest epoch that either receive map knows.\<close>

definition newest_of :: "tunnel_keys \<Rightarrow> u64 option" where
  "newest_of k = max_opt (last_key (tk_rx k)) (last_key (tk_rx_receipt k))"

definition rx_epochs :: "tunnel_keys \<Rightarrow> u64 set" where
  "rx_epochs k = fst ` set (tk_rx k) \<union> fst ` set (tk_rx_receipt k)"

lemma newest_of_SomeD: "newest_of k = Some n \<Longrightarrow> n \<in> rx_epochs k \<and> (\<forall>e \<in> rx_epochs k. e \<le> n)"
proof (cases "last_key (tk_rx k)"; cases "last_key (tk_rx_receipt k)")
  fix a b assume n: "newest_of k = Some n" "last_key (tk_rx k) = Some a" "last_key (tk_rx_receipt k) = Some b"
  then have "n = max a b" by (simp add: newest_of_def max_opt_def)
  then show ?thesis
    using last_key_SomeD [OF n(2)] last_key_SomeD [OF n(3)] unfolding rx_epochs_def
    by (auto simp: max_def split: if_splits)
qed (auto simp: newest_of_def max_opt_def rx_epochs_def dest: last_key_SomeD)

lemma newest_of_ge: "e \<in> rx_epochs k \<Longrightarrow> \<exists>n. newest_of k = Some n \<and> e \<le> n"
proof -
  assume e: "e \<in> rx_epochs k"
  then have "tk_rx k \<noteq> [] \<or> tk_rx_receipt k \<noteq> []" by (auto simp: rx_epochs_def)
  then have "last_key (tk_rx k) \<noteq> None \<or> last_key (tk_rx_receipt k) \<noteq> None" by simp
  then have "newest_of k \<noteq> None" unfolding newest_of_def max_opt_def
    by (auto simp del: last_key_None split: option.split)
  then obtain n where "newest_of k = Some n" by blast
  then show ?thesis using newest_of_SomeD e by blast
qed

text \<open>An epoch that the grace rule refuses.\<close>

definition stale :: "tunnel_keys \<Rightarrow> u64 \<Rightarrow> bool" where
  "stale k e \<longleftrightarrow> (\<exists>n \<in> rx_epochs k. unat e + unat (tk_stride k) < unat n)"

lemma sat_mul_grace [simp]: "sat_mul GRACE_EPOCHS s = s"
  using unsigned_less [of s, where 'a = nat] by (simp add: sat_mul_def GRACE_EPOCHS_def)

lemma unat_sat_add: "unat (sat_add a b) = min (unat a + unat b) (2 ^ 64 - 1)"
proof -
  have "unat (- 1 :: u64) = 2 ^ 64 - 1" by (simp add: unsigned_minus_1_eq_mask mask_eq_exp_minus_1)
  then show ?thesis by (auto simp: sat_add_def unat_word_ariths)
qed

lemma newest_greater:
  "max (case newest_of k of None \<Rightarrow> e | Some n \<Rightarrow> n) e > sat_add e (tk_stride k) \<longleftrightarrow> stale k e"
proof (cases "newest_of k")
  case None
  then have "rx_epochs k = {}" using newest_of_ge [of _ k] by auto
  moreover have "unat e < 2 ^ 64" using unsigned_less [of e, where 'a = nat] by simp
  ultimately show ?thesis using None by (auto simp: stale_def word_less_nat_alt unat_sat_add)
next
  case (Some n)
  note d = newest_of_SomeD [OF Some]
  have b: "unat e < 2 ^ 64" "unat n < 2 ^ 64"
    using unsigned_less [of e, where 'a = nat] unsigned_less [of n, where 'a = nat] by simp_all
  have "stale k e \<longleftrightarrow> unat e + unat (tk_stride k) < unat n"
    using d by (auto simp: stale_def word_le_nat_alt intro: less_le_trans)
  moreover have "sat_add e (tk_stride k) < max n e \<longleftrightarrow> unat e + unat (tk_stride k) < unat n"
    using b by (auto simp: max_def word_less_nat_alt word_le_nat_alt unat_sat_add)
  ultimately show ?thesis using Some by simp
qed

lemma below_floor:
  assumes "e < sat_sub n s"
  shows "unat e + unat s < unat n"
  using assms by (auto simp: sat_sub_def word_less_nat_alt word_le_nat_alt unat_sub split: if_splits)

section \<open>The stages of opening a frame\<close>

definition epoch_of :: "bytes \<Rightarrow> u64" where
  "epoch_of key_id = from_be key_id AND 0x00FFFFFFFFFFFFFF"

lemma open_cipher_frame:
  assumes "open_cipher cr k key_id = (k', r)"
  shows "\<exists>cs. k' = k\<lparr> tk_rx_ciphers := cs \<rparr>"
    and "r = Inr (e, c) \<Longrightarrow> e = epoch_of key_id \<and> \<not> stale k e \<and> e mod tk_stride k = tk_shard k"
proof -
  have id: "\<exists>cs. k = k\<lparr> tk_rx_ciphers := cs \<rparr>" by (intro exI [of _ "tk_rx_ciphers k"]) simp
  show "\<exists>cs. k' = k\<lparr> tk_rx_ciphers := cs \<rparr>"
    using assms id by (auto simp: open_cipher_def Let_def split: option.splits if_splits)
  assume "r = Inr (e, c)"
  then show "e = epoch_of key_id \<and> \<not> stale k e \<and> e mod tk_stride k = tk_shard k"
    using assms unfolding open_cipher_def Let_def newest_of_def [symmetric] sat_mul_grace newest_greater epoch_of_def
    by (auto split: option.splits if_splits)
qed

text \<open>The state after a frame of epoch \<open>e\<close> was authentic: the window is updated, old epochs are dropped.\<close>

definition note_data :: "tunnel_keys \<Rightarrow> u64 \<Rightarrow> u64 \<Rightarrow> tunnel_keys" where
  "note_data k e c = prune (k\<lparr> tk_rx := AList.update e (fst (rw_accept (window_of (tk_rx k) e) c)) (tk_rx k) \<rparr>)"

definition note_receipt :: "tunnel_keys \<Rightarrow> u64 \<Rightarrow> u64 \<Rightarrow> tunnel_keys" where
  "note_receipt k e c =
     prune (k\<lparr> tk_rx_receipt := AList.update e (fst (rw_accept (window_of (tk_rx_receipt k) e) c)) (tk_rx_receipt k) \<rparr>)"

lemma open_frame_cases:
  assumes "open_frame cr k key_id body aad = (k', r)"
  obtains (reject) err cs where "r = Inl err" "err \<noteq> Replay" "k' = k\<lparr> tk_rx_ciphers := cs \<rparr>"
    | (authentic) cs where "\<not> stale k (epoch_of key_id)"
        "k' = note_data (k\<lparr> tk_rx_ciphers := cs \<rparr>) (epoch_of key_id) (from_be (take 8 body))"
        "epoch_of key_id mod tk_stride k = tk_shard k"
        "(\<exists>pt. r = Inr pt) \<longleftrightarrow> snd (rw_accept (window_of (tk_rx k) (epoch_of key_id)) (from_be (take 8 body)))"
        "(\<exists>pt. r = Inr pt) \<or> r = Inl Replay"
proof (cases "length body < 8")
  case True
  then have "r = Inl Frame_BodyTooShort" "k' = k\<lparr> tk_rx_ciphers := tk_rx_ciphers k \<rparr>"
    using assms by (auto simp: open_frame_def)
  then show ?thesis using reject by blast
next
  case False
  obtain k1 r1 where oc: "open_cipher cr k key_id = (k1, r1)" by (metis surj_pair)
  obtain cs where k1: "k1 = k\<lparr> tk_rx_ciphers := cs \<rparr>" using open_cipher_frame(1) [OF oc] by blast
  show ?thesis
  proof (cases r1)
    case (Inl err)
    have "err \<noteq> Replay"
      using oc Inl by (auto simp: open_cipher_def Let_def split: option.splits if_splits)
    then show ?thesis using reject [of err cs] assms False oc Inl k1 by (auto simp: open_frame_def)
  next
    case (Inr ec)
    obtain e c where ec: "ec = (e, c)" by (metis surj_pair)
    note fr = open_cipher_frame(2) [OF oc, of e c]
    have e: "e = epoch_of key_id" "\<not> stale k e" "e mod tk_stride k = tk_shard k" using fr Inr ec by auto
    obtain w acc where w: "rw_accept (window_of (tk_rx k) e) (from_be (take 8 body)) = (w, acc)" by (metis surj_pair)
    show ?thesis
    proof (cases "cipher_decrypt cr c (nonce_for (from_be (take 8 body))) aad (drop 8 body)")
      case None
      then show ?thesis using reject [of DecryptFailed cs] assms False oc Inr ec k1 by (auto simp: open_frame_def)
    next
      case (Some pt)
      then show ?thesis
        using assms False oc Inr ec k1 e w
        by (intro authentic [of cs]) (auto simp: open_frame_def note_data_def Let_def split: if_splits)
    qed
  qed
qed

lemma open_receipt_cases:
  assumes "open_receipt cr k key_id body = (k', r)"
  obtains (reject) err cs where "r = Inl err" "err \<noteq> Replay" "k' = k\<lparr> tk_rx_ciphers := cs \<rparr>"
    | (authentic) cs where "\<not> stale k (epoch_of key_id)"
        "k' = note_receipt (k\<lparr> tk_rx_ciphers := cs \<rparr>) (epoch_of key_id) (from_be (take 8 body))"
        "epoch_of key_id mod tk_stride k = tk_shard k"
        "(\<exists>pt. r = Inr pt) \<longleftrightarrow> snd (rw_accept (window_of (tk_rx_receipt k) (epoch_of key_id)) (from_be (take 8 body)))"
        "(\<exists>pt. r = Inr pt) \<or> r = Inl Replay"
proof (cases "length body < 8")
  case True
  then have "r = Inl Frame_BodyTooShort" "k' = k\<lparr> tk_rx_ciphers := tk_rx_ciphers k \<rparr>"
    using assms by (auto simp: open_receipt_def)
  then show ?thesis using reject by blast
next
  case False
  obtain k1 r1 where oc: "open_cipher cr k key_id = (k1, r1)" by (metis surj_pair)
  obtain cs where k1: "k1 = k\<lparr> tk_rx_ciphers := cs \<rparr>" using open_cipher_frame(1) [OF oc] by blast
  show ?thesis
  proof (cases r1)
    case (Inl err)
    have "err \<noteq> Replay"
      using oc Inl by (auto simp: open_cipher_def Let_def split: option.splits if_splits)
    then show ?thesis using reject [of err cs] assms False oc Inl k1 by (auto simp: open_receipt_def)
  next
    case (Inr ec)
    obtain e c where ec: "ec = (e, c)" by (metis surj_pair)
    note fr = open_cipher_frame(2) [OF oc, of e c]
    have e: "e = epoch_of key_id" "\<not> stale k e" "e mod tk_stride k = tk_shard k" using fr Inr ec by auto
    obtain w acc where w: "rw_accept (window_of (tk_rx_receipt k) e) (from_be (take 8 body)) = (w, acc)"
      by (metis surj_pair)
    show ?thesis
    proof (cases "cipher_decrypt cr c (receipt_nonce (from_be (take 8 body))) [] (drop 8 body)")
      case None
      then show ?thesis using reject [of DecryptFailed cs] assms False oc Inr ec k1 by (auto simp: open_receipt_def)
    next
      case (Some pt)
      then show ?thesis
        using assms False oc Inr ec k1 e w
        by (intro authentic [of cs]) (auto simp: open_receipt_def note_receipt_def Let_def split: if_splits)
    qed
  qed
qed

section \<open>Pruning keeps what matters\<close>

lemma window_of_update [simp]:
  "window_of (AList.update e w m) e' = (if e' = e then w else window_of m e')"
  by (simp add: window_of_def update_conv')

lemma keys_split_off: "fst ` set (split_off f m) = {e \<in> fst ` set m. f \<le> e}"
  by (force simp: split_off_def)

lemma window_of_split_off: "f \<le> e \<Longrightarrow> window_of (split_off f m) e = window_of m e"
proof -
  assume "f \<le> e"
  then have "map_of (split_off f m) e = map_of m e"
    by (induction m) (auto simp: split_off_def)
  then show ?thesis by (simp add: window_of_def)
qed

lemma prune_fields:
  "tk_stride (prune k) = tk_stride k" "tk_shard (prune k) = tk_shard k"
  by (simp_all add: prune_def Let_def split: option.split)

lemma prune_eq:
  assumes "newest_of k = Some n"
  shows "tk_rx (prune k) = split_off (sat_sub n (tk_stride k)) (tk_rx k)"
    "tk_rx_receipt (prune k) = split_off (sat_sub n (tk_stride k)) (tk_rx_receipt k)"
  using assms unfolding prune_def newest_of_def [symmetric] by (simp_all add: Let_def)

lemma stale_prune [simp]: "stale (prune k) e \<longleftrightarrow> stale k e"
proof (cases "newest_of k")
  case None
  then show ?thesis unfolding prune_def newest_of_def [symmetric] by simp
next
  case (Some n)
  have sub: "rx_epochs (prune k) = {e \<in> rx_epochs k. sat_sub n (tk_stride k) \<le> e}"
    by (auto simp: rx_epochs_def prune_eq [OF Some] keys_split_off)
  have "sat_sub n (tk_stride k) \<le> n" by (simp add: sat_sub_def word_le_nat_alt unat_sub)
  then have n: "n \<in> rx_epochs (prune k)" using newest_of_SomeD [OF Some] sub by simp
  show ?thesis
  proof
    assume "stale k e"
    then obtain m where m: "m \<in> rx_epochs k" "unat e + unat (tk_stride k) < unat m" by (auto simp: stale_def)
    then have "unat m \<le> unat n" using newest_of_SomeD [OF Some] by (auto simp: word_le_nat_alt)
    then show "stale (prune k) e" using m n unfolding stale_def prune_fields by (intro bexI [of _ n]) auto
  qed (auto simp: stale_def sub prune_fields)
qed

lemma window_prune:
  assumes "\<not> stale k e"
  shows "window_of (tk_rx (prune k)) e = window_of (tk_rx k) e"
    "window_of (tk_rx_receipt (prune k)) e = window_of (tk_rx_receipt k) e"
proof -
  have "window_of (tk_rx (prune k)) e = window_of (tk_rx k) e
    \<and> window_of (tk_rx_receipt (prune k)) e = window_of (tk_rx_receipt k) e"
  proof (cases "newest_of k")
    case None
    then show ?thesis unfolding prune_def newest_of_def [symmetric] by simp
  next
    case (Some n)
    have "\<not> e < sat_sub n (tk_stride k)"
      using assms newest_of_SomeD [OF Some] below_floor [of e n "tk_stride k"] by (auto simp: stale_def)
    then show ?thesis by (simp add: prune_eq [OF Some] window_of_split_off)
  qed
  then show "window_of (tk_rx (prune k)) e = window_of (tk_rx k) e"
    "window_of (tk_rx_receipt (prune k)) e = window_of (tk_rx_receipt k) e" by blast+
qed

section \<open>The invariant of the receive state\<close>

definition windows_ok :: "(u64 \<times> rx_window) list \<Rightarrow> bool" where
  "windows_ok m \<longleftrightarrow> distinct (map fst m) \<and> (\<forall>e. window_ok (window_of m e))"

definition keys_ok :: "tunnel_keys \<Rightarrow> bool" where
  "keys_ok k \<longleftrightarrow> windows_ok (tk_rx k) \<and> windows_ok (tk_rx_receipt k)"

lemma windows_ok_update:
  assumes "windows_ok m" "window_ok w"
  shows "windows_ok (AList.update e w m)"
  using assms distinct_update [of m e w] by (auto simp: windows_ok_def)

lemma windows_ok_split_off:
  assumes "windows_ok m"
  shows "windows_ok (split_off f m)"
proof -
  have "window_of (split_off f m) e = (if f \<le> e then window_of m e else rx_window_default)" for e
    by (induction m) (auto simp: window_of_def split_off_def)
  then show ?thesis
    using assms by (auto simp: windows_ok_def split_off_def distinct_map_filter)
qed

lemma keys_ok_prune: "keys_ok k \<Longrightarrow> keys_ok (prune k)"
  by (auto simp: keys_ok_def prune_def windows_ok_split_off Let_def split: option.split)

lemma keys_ok_note:
  assumes "keys_ok k"
  shows "keys_ok (note_data k e c)" "keys_ok (note_receipt k e c)"
proof -
  have ok: "window_ok (fst (rw_accept (window_of (tk_rx k) e) c))"
    "window_ok (fst (rw_accept (window_of (tk_rx_receipt k) e) c))"
    using assms by (auto simp: keys_ok_def windows_ok_def intro: rx_guard.step_inv)
  show "keys_ok (note_data k e c)" "keys_ok (note_receipt k e c)"
    unfolding note_data_def note_receipt_def
    by (rule keys_ok_prune, use assms ok in \<open>simp add: keys_ok_def windows_ok_update\<close>)+
qed

section \<open>The tunnel as a replay guard\<close>

datatype tunnel_event =
    EvSeal nat bytes bytes
  | EvSealReceipt nat bytes
  | EvOpen bytes bytes bytes
  | EvOpenReceipt bytes bytes

text \<open>One operation on the keys, and whether a received frame was accepted by it.\<close>

fun tunnel_step :: "crypto \<Rightarrow> tunnel_keys \<Rightarrow> tunnel_event \<Rightarrow> tunnel_keys \<times> bool" where
  "tunnel_step cr k (EvSeal now aad pt) =
    (case seal cr now k aad pt of Ok (k', _, _) \<Rightarrow> (k', False) | _ \<Rightarrow> (k, False))"
| "tunnel_step cr k (EvSealReceipt now pt) =
    (case seal_receipt cr now k pt of Ok (k', _, _) \<Rightarrow> (k', False) | _ \<Rightarrow> (k, False))"
| "tunnel_step cr k (EvOpen key_id body aad) =
    (case open_frame cr k key_id body aad of (k', Inr _) \<Rightarrow> (k', True) | (k', Inl _) \<Rightarrow> (k', False))"
| "tunnel_step cr k (EvOpenReceipt key_id body) =
    (case open_receipt cr k key_id body of (k', Inr _) \<Rightarrow> (k', True) | (k', Inl _) \<Rightarrow> (k', False))"

text \<open>What identifies a received frame: its kind, epoch and counter.\<close>

fun event_key :: "tunnel_event \<Rightarrow> bool \<times> u64 \<times> u64" where
  "event_key (EvOpen key_id body aad) = (False, epoch_of key_id, from_be (take 8 body))"
| "event_key (EvOpenReceipt key_id body) = (True, epoch_of key_id, from_be (take 8 body))"
| "event_key _ = (False, 0, 0)"

fun key_spent :: "tunnel_keys \<Rightarrow> bool \<times> u64 \<times> u64 \<Rightarrow> bool" where
  "key_spent k (rc, e, c) \<longleftrightarrow>
    stale k e \<or> window_spent (window_of (if rc then tk_rx_receipt k else tk_rx k) e) c"

lemma seal_keeps_rx:
  "seal cr now k aad pt = Ok (k', x) \<Longrightarrow>
   tk_rx k' = tk_rx k \<and> tk_rx_receipt k' = tk_rx_receipt k \<and> tk_stride k' = tk_stride k
     \<and> tk_shard k' = tk_shard k"
  "seal_receipt cr now k pt = Ok (k', x) \<Longrightarrow>
   tk_rx k' = tk_rx k \<and> tk_rx_receipt k' = tk_rx_receipt k \<and> tk_stride k' = tk_stride k
     \<and> tk_shard k' = tk_shard k"
  by (auto simp: seal_def seal_receipt_def send_epoch_ready_def advance_epoch_def Let_def
      split: option.splits prod.splits if_splits)

lemma same_rx:
  assumes "tk_rx k' = tk_rx k" "tk_rx_receipt k' = tk_rx_receipt k" "tk_stride k' = tk_stride k"
  shows "keys_ok k' = keys_ok k" "stale k' e = stale k e" "key_spent k' q = key_spent k q"
  using assms by (cases q; simp add: keys_ok_def stale_def rx_epochs_def)+

lemma stale_note:
  "stale k e' \<Longrightarrow> stale (note_data k e c) e'" "stale k e' \<Longrightarrow> stale (note_receipt k e c) e'"
  unfolding note_data_def note_receipt_def stale_prune by (auto simp: stale_def rx_epochs_def AList.dom_update)

lemma note_data_spent:
  assumes "keys_ok k"
  shows "key_spent (note_data k e c) (False, e, c) \<or> \<not> snd (rw_accept (window_of (tk_rx k) e) c)"
    "key_spent k q \<Longrightarrow> key_spent (note_data k e c) q"
proof -
  let ?k = "k\<lparr> tk_rx := AList.update e (fst (rw_accept (window_of (tk_rx k) e) c)) (tk_rx k) \<rparr>"
  have ok: "window_ok (window_of (tk_rx k) e)" using assms by (simp add: keys_ok_def windows_ok_def)
  have win: "key_spent (note_data k e c) (rc, e', c') \<longleftrightarrow>
      stale ?k e' \<or> window_spent (window_of (if rc then tk_rx_receipt ?k else tk_rx ?k) e') c'" for rc e' c'
    unfolding note_data_def key_spent.simps stale_prune by (cases "stale ?k e'") (simp_all add: window_prune)
  show "key_spent (note_data k e c) (False, e, c) \<or> \<not> snd (rw_accept (window_of (tk_rx k) e) c)"
    unfolding win using rx_guard.accept_spends [OF ok] by auto
  show "key_spent (note_data k e c) q" if q: "key_spent k q"
  proof -
    obtain rc e' c' where qq: "q = (rc, e', c')" by (metis surj_pair)
    have st: "stale k e' \<Longrightarrow> stale ?k e'" by (auto simp: stale_def rx_epochs_def AList.dom_update)
    show ?thesis
      using q rx_guard.spent_stays [OF ok] st unfolding qq win by (auto simp del: update.simps)
  qed
qed

lemma note_receipt_spent:
  assumes "keys_ok k"
  shows "key_spent (note_receipt k e c) (True, e, c) \<or> \<not> snd (rw_accept (window_of (tk_rx_receipt k) e) c)"
    "key_spent k q \<Longrightarrow> key_spent (note_receipt k e c) q"
proof -
  let ?k = "k\<lparr> tk_rx_receipt := AList.update e (fst (rw_accept (window_of (tk_rx_receipt k) e) c)) (tk_rx_receipt k) \<rparr>"
  have ok: "window_ok (window_of (tk_rx_receipt k) e)" using assms by (simp add: keys_ok_def windows_ok_def)
  have win: "key_spent (note_receipt k e c) (rc, e', c') \<longleftrightarrow>
      stale ?k e' \<or> window_spent (window_of (if rc then tk_rx_receipt ?k else tk_rx ?k) e') c'" for rc e' c'
    unfolding note_receipt_def key_spent.simps stale_prune by (cases "stale ?k e'") (simp_all add: window_prune)
  show "key_spent (note_receipt k e c) (True, e, c) \<or> \<not> snd (rw_accept (window_of (tk_rx_receipt k) e) c)"
    unfolding win using rx_guard.accept_spends [OF ok] by auto
  show "key_spent (note_receipt k e c) q" if q: "key_spent k q"
  proof -
    obtain rc e' c' where qq: "q = (rc, e', c')" by (metis surj_pair)
    have st: "stale k e' \<Longrightarrow> stale ?k e'" by (auto simp: stale_def rx_epochs_def AList.dom_update)
    show ?thesis
      using q rx_guard.spent_stays [OF ok] st unfolding qq win by (auto simp del: update.simps)
  qed
qed

text \<open>Every step is one of three: nothing is received, or a Data or a Receipt frame is authentic.\<close>

lemma tunnel_step_cases:
  assumes "tunnel_step cr k ev = (k', ok)"
  obtains (quiet) "\<not> ok" "tk_rx k' = tk_rx k" "tk_rx_receipt k' = tk_rx_receipt k" "tk_stride k' = tk_stride k"
        "tk_shard k' = tk_shard k"
    | (data) cs e c where "k' = note_data (k\<lparr> tk_rx_ciphers := cs \<rparr>) e c" "event_key ev = (False, e, c)"
        "\<not> stale k e" "ok \<longleftrightarrow> snd (rw_accept (window_of (tk_rx k) e) c)"
        "e mod tk_stride k = tk_shard k"
    | (receipt) cs e c where "k' = note_receipt (k\<lparr> tk_rx_ciphers := cs \<rparr>) e c" "event_key ev = (True, e, c)"
        "\<not> stale k e" "ok \<longleftrightarrow> snd (rw_accept (window_of (tk_rx_receipt k) e) c)"
        "e mod tk_stride k = tk_shard k"
proof (cases ev)
  case (EvSeal now aad pt)
  then show ?thesis using assms seal_keeps_rx(1) by (intro quiet) (force split: outcome.splits)+
next
  case (EvSealReceipt now pt)
  then show ?thesis using assms seal_keeps_rx(2) by (intro quiet) (force split: outcome.splits)+
next
  case (EvOpen key_id body aad)
  obtain r where r: "open_frame cr k key_id body aad = (k', r)" "ok \<longleftrightarrow> (\<exists>pt. r = Inr pt)"
    using assms EvOpen by (auto split: prod.splits sum.splits)
  from r(1) show ?thesis
  proof (cases rule: open_frame_cases)
    case (reject err cs)
    then show ?thesis using r(2) by (intro quiet) simp_all
  next
    case (authentic cs)
    then show ?thesis using r(2) EvOpen by (intro data) auto
  qed
next
  case (EvOpenReceipt key_id body)
  obtain r where r: "open_receipt cr k key_id body = (k', r)" "ok \<longleftrightarrow> (\<exists>pt. r = Inr pt)"
    using assms EvOpenReceipt by (auto split: prod.splits sum.splits)
  from r(1) show ?thesis
  proof (cases rule: open_receipt_cases)
    case (reject err cs)
    then show ?thesis using r(2) by (intro quiet) simp_all
  next
    case (authentic cs)
    then show ?thesis using r(2) EvOpenReceipt by (intro receipt) auto
  qed
qed

lemma cache_irrelevant [simp]:
  "keys_ok (k\<lparr> tk_rx_ciphers := cs \<rparr>) = keys_ok k" "key_spent (k\<lparr> tk_rx_ciphers := cs \<rparr>) q = key_spent k q"
  by (rule same_rx; simp)+

interpretation tunnel_guard: replay_guard "tunnel_step cr" event_key keys_ok key_spent for cr
proof
  fix k ev q
  assume ok: "keys_ok k"
  obtain k' acc where st: "tunnel_step cr k ev = (k', acc)" by (metis surj_pair)
  have "keys_ok k' \<and> (acc \<longrightarrow> \<not> key_spent k (event_key ev) \<and> key_spent k' (event_key ev))
    \<and> (key_spent k q \<longrightarrow> key_spent k' q)"
    using st
  proof (cases rule: tunnel_step_cases)
    case quiet
    then show ?thesis using ok same_rx [of k' k] by simp
  next
    case (data cs e c)
    have ok': "keys_ok (k\<lparr> tk_rx_ciphers := cs \<rparr>)" using ok by simp
    show ?thesis
      using data note_data_spent(1) [OF ok', of e c] note_data_spent(2) [OF ok', where q = q]
        keys_ok_note(1) [OF ok', of e c]
      by (auto simp: window_spent_def)
  next
    case (receipt cs e c)
    have ok': "keys_ok (k\<lparr> tk_rx_ciphers := cs \<rparr>)" using ok by simp
    show ?thesis
      using receipt note_receipt_spent(1) [OF ok', of e c] note_receipt_spent(2) [OF ok', where q = q]
        keys_ok_note(2) [OF ok', of e c]
      by (auto simp: window_spent_def)
  qed
  then show "keys_ok (fst (tunnel_step cr k ev))"
    "snd (tunnel_step cr k ev) \<Longrightarrow> \<not> key_spent k (event_key ev)"
    "snd (tunnel_step cr k ev) \<Longrightarrow> key_spent (fst (tunnel_step cr k ev)) (event_key ev)"
    "key_spent k q \<Longrightarrow> key_spent (fst (tunnel_step cr k ev)) q"
    using st by auto
qed

lemma keys_ok_new: "keys_ok (keys_new now dh init)"
  by (simp add: keys_new_def keys_ok_def windows_ok_def window_of_def)

text \<open>
  C3. A tunnel never accepts a frame twice: over any interleaving of sealing, receiving Data
  frames and receiving Receipt frames, whatever the attacker replays or forges and across epoch changes and
  the pruning of old windows, no two accepted frames have the same kind, epoch and counter.
\<close>

theorem tunnel_never_replays:
  "distinct (map event_key (accepted_run (tunnel_step cr) (keys_new now dh init) evs))"
  by (rule tunnel_guard.never_twice [OF keys_ok_new])

section \<open>Forged frames\<close>

text \<open>
  A frame that is refused for any reason but replay leaves the windows, the epochs and the
  whole sending side as they were: an attacker without the key cannot move the replay state.
\<close>

theorem forged_frames_keep_state:
  assumes "open_frame cr k key_id body aad = (k', Inl err)" "err \<noteq> Replay"
  shows "\<exists>cs. k' = k\<lparr> tk_rx_ciphers := cs \<rparr>"
  using assms(1)
proof (cases rule: open_frame_cases)
  case (reject e cs)
  then show ?thesis by blast
next
  case (authentic cs)
  then show ?thesis using assms(2) by auto
qed

definition no_crypto :: crypto where
  "no_crypto = \<lparr> hmac_sha256 = \<lambda>_ _. replicate 32 0, chacha_encrypt = \<lambda>_ _ _ _. None,
     chacha_decrypt = \<lambda>_ _ _ _. None, aes_encrypt = \<lambda>_ _ _ _. None, aes_decrypt = \<lambda>_ _ _ _. None \<rparr>"

lemma forged_frames_keep_state_witness:
  "\<exists>k' cs. open_frame no_crypto (keys_new 0 [] True) (replicate 8 0) (replicate 8 1) [] = (k', Inl DecryptFailed)
     \<and> k' = (keys_new 0 [] True)\<lparr> tk_rx_ciphers := cs \<rparr>"
proof -
  obtain k' where o: "open_frame no_crypto (keys_new 0 [] True) (replicate 8 0) (replicate 8 1) [] = (k', Inl DecryptFailed)"
    by (simp add: open_frame_def open_cipher_def keys_new_def suite_from_byte_def max_opt_def last_key_def
        cipher_for_def no_crypto_def numeral_eq_Suc Let_def word_le_nat_alt unat_sat_add split: if_splits)
  then show ?thesis using forged_frames_keep_state [OF o] by auto
qed

lemma to_be64_high:
  assumes "n < 2 ^ 56"
  shows "to_be64 (of_nat n) ! 0 = 0" "from_be (to_be64 (of_nat n)) AND 0x00FFFFFFFFFFFFFF = (of_nat n :: u64)"
proof -
  have n: "unat (of_nat n :: u64) = n" using assms by (simp add: unat_of_nat take_bit_nat_eq_self)
  have d: "drop_bit 56 (of_nat n :: u64) = 0"
    using assms n by (simp add: word_unat_eq_iff unat_drop_bit)
  have "to_be64 (of_nat n) ! 0 = ucast (drop_bit 56 (of_nat n :: u64))" by (simp add: to_be64_def numeral_eq_Suc)
  then show "to_be64 (of_nat n) ! 0 = 0" unfolding d by simp
  have "(0x00FFFFFFFFFFFFFF :: u64) = mask 56" by (simp add: mask_eq_exp_minus_1)
  then have "(of_nat n :: u64) AND 0x00FFFFFFFFFFFFFF = take_bit 56 (of_nat n)" by (simp only: take_bit_eq_mask)
  also have "\<dots> = of_nat n"
    using assms n by (simp add: word_unat_eq_iff unsigned_take_bit_eq take_bit_nat_eq_self)
  finally show "from_be (to_be64 (of_nat n)) AND 0x00FFFFFFFFFFFFFF = (of_nat n :: u64)" by simp
qed

text \<open>The frame an attacker sends as number \<open>i\<close>: epoch \<open>i\<close>, counter 0, no ciphertext.\<close>

definition forge :: "crypto \<Rightarrow> bytes \<Rightarrow> nat \<Rightarrow> tunnel_keys \<Rightarrow> tunnel_keys" where
  "forge cr aad i k = fst (open_frame cr k (to_be64 (of_nat i)) (replicate 8 0) aad)"

text \<open>
  The cache of receive ciphers has no bound: a cipher is cached before the frame is
  authenticated and only an authentic frame prunes the cache, so \<open>n\<close> forged frames with increasing epochs
  leave \<open>n\<close> ciphers in the memory of a node that has never received an authentic frame.
\<close>

theorem forged_frames_grow_cache:
  assumes "\<forall>key nonce aad. chacha_decrypt cr key nonce aad [] = None" "n \<le> 2 ^ 56"
  shows "length (tk_rx_ciphers (fold (forge cr aad) [0..<n] (keys_new now dh init))) = n"
proof -
  have "\<exists>cs. fold (forge cr aad) [0..<n] (keys_new now dh init) = (keys_new now dh init)\<lparr> tk_rx_ciphers := cs \<rparr>
      \<and> length cs = n \<and> fst ` set cs = of_nat ` {0..<n}"
    using assms(2)
  proof (induction n)
    case 0
    show ?case by (intro exI [of _ "[]"]) (simp add: keys_new_def)
  next
    case (Suc n)
    then obtain cs where IH: "fold (forge cr aad) [0..<n] (keys_new now dh init) =
        (keys_new now dh init)\<lparr> tk_rx_ciphers := cs \<rparr>" "length cs = n" "fst ` set cs = of_nat ` {0..<n}" by auto
    have n: "n < 2 ^ 56" using Suc.prems by simp
    have "(of_nat n :: u64) \<notin> of_nat ` {0..<n}"
    proof
      assume "(of_nat n :: u64) \<in> of_nat ` {0..<n}"
      then obtain m where m: "m < n" "(of_nat n :: u64) = of_nat m" by auto
      then have "unat (of_nat n :: u64) = unat (of_nat m :: u64)" by simp
      then show False using m(1) n by (simp add: unat_of_nat take_bit_nat_eq_self)
    qed
    then have new: "of_nat n \<notin> fst ` set cs" by (simp add: IH(3))
    define c where "c = cipher_for cr dh ChaCha20Poly1305 (of_nat n) init False"
    define cs' where "cs' = AList.update (of_nat n) c cs"
    have keys: "map fst cs' = map fst cs @ [of_nat n]" using new by (simp add: cs'_def update_keys)
    have len: "length cs' = Suc n" using arg_cong [OF keys, of length] IH(2) by simp
    have set: "fst ` set cs' = of_nat ` {0..<Suc n}"
      using arg_cong [OF keys, of set] IH(3) by (simp add: atLeast0_lessThan_Suc)
    have none: "map_of cs (of_nat n) = None" using new by (simp add: map_of_eq_None_iff)
    have fresh: "\<not> sat_add (of_nat n) 1 < (of_nat n :: u64)"
      using unsigned_less [of "of_nat n :: u64", where 'a = nat]
      by (auto simp: word_less_nat_alt unat_sat_add simp del: unsigned_of_nat)
    have oc: "open_cipher cr ((keys_new now dh init)\<lparr> tk_rx_ciphers := cs \<rparr>) (to_be64 (of_nat n)) =
        ((keys_new now dh init)\<lparr> tk_rx_ciphers := cs' \<rparr>, Inr (of_nat n, c))"
      unfolding open_cipher_def to_be64_high [OF n] Let_def
      using none fresh
      by (simp add: keys_new_def suite_from_byte_def max_opt_def last_key_def c_def cs'_def del: unsigned_of_nat)
    have c: "c = ChaCha (hkdf cr dh (key_info ChaCha20Poly1305 (of_nat n) init False))"
      by (simp add: c_def cipher_for_def)
    have "forge cr aad n ((keys_new now dh init)\<lparr> tk_rx_ciphers := cs \<rparr>) = (keys_new now dh init)\<lparr> tk_rx_ciphers := cs' \<rparr>"
      using assms(1) by (simp add: forge_def open_frame_def oc c)
    then show ?case using IH(1) len set by (intro exI [of _ cs']) simp
  qed
  then show ?thesis by auto
qed

lemma forged_frames_grow_cache_witness:
  "length (tk_rx_ciphers (fold (forge no_crypto []) [0..<1000000] (keys_new 0 [] True))) = 1000000"
  by (rule forged_frames_grow_cache) (simp_all add: no_crypto_def)

end
