(* ===== verification/TunnelNonces.thy ===== *)
theory TunnelNonces
  imports TunnelReplay
begin

text \<open>
  The sending side of \<open>TunnelKeys\<close>: no nonce is ever used twice under one key, the cached
  ciphers are always the ones that would be derived, and the receive maps stay small. The states that occur
  are the reachable ones of an inductive relation over all operations that change the keys.
\<close>

section \<open>Nonces\<close>

lemma nonce_for_eq: "nonce_for c = [0, 0, 0, 0] @ to_be64 c"
  by (simp add: nonce_for_def write_at_def numeral_eq_Suc)

lemma nonce_for_inject [simp]: "nonce_for c = nonce_for d \<longleftrightarrow> c = d"
  by (simp add: nonce_for_eq)

definition top64 :: u64 where
  "top64 = push_bit 63 1"

lemma bit_top64: "bit top64 n \<longleftrightarrow> n = 63"
  unfolding top64_def bit_push_bit_iff bit_1_iff by auto

lemma top_bit: "bit (c OR top64) n \<longleftrightarrow> bit c n \<or> n = 63"
  unfolding bit_or_iff bit_top64 ..

lemma to_be64_set_top:
  "(to_be64 c)[0 := to_be64 c ! 0 OR 0x80] = to_be64 (c OR top64)"
proof -
  have low: "(ucast (drop_bit n (c OR top64)) :: u8) = ucast (drop_bit n c)" if "n \<le> 48" for n
    by (rule bit_word_eqI) (use that in \<open>auto simp: bit_ucast_iff bit_drop_bit_eq bit_or_iff bit_top64\<close>)
  have "bit (0x80 :: u8) i \<longleftrightarrow> i = 7" for i
  proof -
    have "(0x80 :: u8) = push_bit 7 1" by simp
    then show ?thesis by (simp only: bit_push_bit_iff bit_1_iff) auto
  qed
  then have high: "(ucast (drop_bit 56 (c OR top64)) :: u8) = ucast (drop_bit 56 c) OR 0x80"
    by (intro bit_word_eqI) (auto simp: bit_ucast_iff bit_drop_bit_eq bit_or_iff bit_top64)
  have "to_be64 x = ucast (drop_bit 56 x) # [ucast (drop_bit 48 x), ucast (drop_bit 40 x), ucast (drop_bit 32 x),
      ucast (drop_bit 24 x), ucast (drop_bit 16 x), ucast (drop_bit 8 x), ucast (drop_bit 0 x)]" for x
    by (simp add: to_be64_def numeral_eq_Suc)
  note b = this
  show ?thesis unfolding b [of "c OR top64"] high using low [of 0] by (simp add: b [of c] low del: drop_bit_or)
qed

lemma receipt_nonce_eq: "receipt_nonce c = nonce_for (c OR top64)"
proof -
  have "receipt_nonce c = [0, 0, 0, 0] @ (to_be64 c)[0 := to_be64 c ! 0 OR 0x80]"
    by (simp add: receipt_nonce_def nonce_for_eq RECEIPT_NONCE_BIT_def Let_def)
  then show ?thesis unfolding to_be64_set_top nonce_for_eq .
qed

lemma small_no_top_bit: "unat (c :: u64) < 2 ^ 62 \<Longrightarrow> \<not> bit c 63"
proof
  assume c: "unat c < 2 ^ 62" "bit c 63"
  then have "bit (drop_bit 62 c) 1" by (simp add: bit_drop_bit_eq)
  moreover have "drop_bit 62 c = 0" using c(1) by (simp add: word_unat_eq_iff unat_drop_bit)
  ultimately show False by simp
qed

text \<open>The two nonce spaces are disjoint, and each counter has its own nonce, below \<open>2^62\<close>.\<close>

lemma nonce_spaces:
  assumes "unat c < 2 ^ 62" "unat d < 2 ^ 62"
  shows "nonce_for c \<noteq> receipt_nonce d" "receipt_nonce c = receipt_nonce d \<longleftrightarrow> c = d"
proof -
  show "nonce_for c \<noteq> receipt_nonce d"
    using small_no_top_bit [OF assms(1)] top_bit [of d 63] by (auto simp: receipt_nonce_eq)
  have "c = d" if "c OR top64 = d OR top64"
  proof (rule bit_eqI)
    fix n
    have "bit (c OR top64) n = bit (d OR top64) n" using that by simp
    then show "bit c n = bit d n"
      using small_no_top_bit [OF assms(1)] small_no_top_bit [OF assms(2)] unfolding top_bit by (cases "n = 63") auto
  qed
  then show "receipt_nonce c = receipt_nonce d \<longleftrightarrow> c = d" by (auto simp: receipt_nonce_eq)
qed

section \<open>One step of the sender\<close>

text \<open>The epoch and counters with which the next frame is sealed: after a rotation if one is due.\<close>

definition rotated :: "nat \<Rightarrow> tunnel_keys \<Rightarrow> tunnel_keys" where
  "rotated now k = (if tk_epoch_bytes k \<ge> ROTATE_BYTES \<or> now - tk_epoch_created k \<ge> ROTATE_SECS * 1000000000
     then advance_epoch now k else k)"

lemma send_epoch_ready_eq:
  "\<exists>sc. send_epoch_ready cr now k = ((rotated now k)\<lparr> tk_send_cipher := sc \<rparr>, tk_send_epoch (rotated now k))"
proof (cases "\<exists>c. tk_send_cipher (rotated now k) = Some (tk_send_epoch (rotated now k), c)")
  case True
  then obtain c where c: "tk_send_cipher (rotated now k) = Some (tk_send_epoch (rotated now k), c)" by blast
  have "(rotated now k)\<lparr> tk_send_cipher := Some (tk_send_epoch (rotated now k), c) \<rparr> = rotated now k"
    using c by simp
  then show ?thesis
    unfolding send_epoch_ready_def Let_def rotated_def [symmetric] c
    by (intro exI [of _ "Some (tk_send_epoch (rotated now k), c)"]) simp
next
  case False
  then show ?thesis
    unfolding send_epoch_ready_def Let_def rotated_def [symmetric] by (auto split: option.split)
qed

lemma seal_fields:
  assumes "seal cr now k aad pt = Ok (k', kid, body)"
  shows "tk_send_epoch k' = tk_send_epoch (rotated now k)" "tk_tx_counter k' = tk_tx_counter (rotated now k) + 1"
    "tk_tx_receipt_counter k' = tk_tx_receipt_counter (rotated now k)"
    "tk_epoch_bytes k' = tk_epoch_bytes (rotated now k) + of_nat (length body)" "tk_stride k' = tk_stride k"
    "8 \<le> length body"
proof -
  obtain sc where "send_epoch_ready cr now k = ((rotated now k)\<lparr> tk_send_cipher := sc \<rparr>, tk_send_epoch (rotated now k))"
    using send_epoch_ready_eq by blast
  then show "tk_send_epoch k' = tk_send_epoch (rotated now k)" "tk_tx_counter k' = tk_tx_counter (rotated now k) + 1"
    "tk_tx_receipt_counter k' = tk_tx_receipt_counter (rotated now k)"
    "tk_epoch_bytes k' = tk_epoch_bytes (rotated now k) + of_nat (length body)" "tk_stride k' = tk_stride k"
    "8 \<le> length body"
    using assms
    by (auto simp: seal_def Let_def rotated_def advance_epoch_def split: option.splits)
qed

lemma seal_receipt_fields:
  assumes "seal_receipt cr now k pt = Ok (k', kid, body)"
  shows "tk_send_epoch k' = tk_send_epoch (rotated now k)" "tk_tx_counter k' = tk_tx_counter (rotated now k)"
    "tk_tx_receipt_counter k' = tk_tx_receipt_counter (rotated now k) + 1"
    "tk_epoch_bytes k' = tk_epoch_bytes (rotated now k) + of_nat (length body)" "tk_stride k' = tk_stride k"
    "8 \<le> length body"
proof -
  obtain sc where "send_epoch_ready cr now k = ((rotated now k)\<lparr> tk_send_cipher := sc \<rparr>, tk_send_epoch (rotated now k))"
    using send_epoch_ready_eq by blast
  then show "tk_send_epoch k' = tk_send_epoch (rotated now k)" "tk_tx_counter k' = tk_tx_counter (rotated now k)"
    "tk_tx_receipt_counter k' = tk_tx_receipt_counter (rotated now k) + 1"
    "tk_epoch_bytes k' = tk_epoch_bytes (rotated now k) + of_nat (length body)" "tk_stride k' = tk_stride k"
    "8 \<le> length body"
    using assms
    by (auto simp: seal_receipt_def Let_def rotated_def advance_epoch_def split: option.splits)
qed

text \<open>The counters of an epoch are bounded by the bytes sent in it, which rotation keeps small.\<close>

definition send_inv :: "tunnel_keys \<Rightarrow> bool" where
  "send_inv k \<longleftrightarrow> 8 * (unat (tk_tx_counter k) + unat (tk_tx_receipt_counter k)) \<le> unat (tk_epoch_bytes k)
     \<and> unat (tk_epoch_bytes k) < 2 ^ 62"

lemma rotated_bounds:
  assumes "send_inv k"
  shows "send_inv (rotated now k)" "unat (tk_epoch_bytes (rotated now k)) < 2 ^ 30"
proof -
  have "unat (tk_epoch_bytes k) < 2 ^ 30" if "\<not> tk_epoch_bytes k \<ge> ROTATE_BYTES"
    using that by (simp add: ROTATE_BYTES_def word_le_nat_alt)
  then show "unat (tk_epoch_bytes (rotated now k)) < 2 ^ 30"
    by (auto simp: rotated_def advance_epoch_def)
  show "send_inv (rotated now k)" using assms by (auto simp: rotated_def advance_epoch_def send_inv_def)
qed

lemma unat_plus_small:
  "unat (x :: u64) + n < 2 ^ 64 \<Longrightarrow> unat (x + of_nat n) = unat x + n"
  by (simp add: unat_word_ariths unat_of_nat take_bit_nat_eq_self)

lemma counted_step:
  assumes "send_inv k" "8 \<le> n" "n < 2 ^ 61"
    and "tk_epoch_bytes k' = tk_epoch_bytes (rotated now k) + of_nat n"
    and "unat (tk_tx_counter k') + unat (tk_tx_receipt_counter k') \<le>
      unat (tk_tx_counter (rotated now k)) + unat (tk_tx_receipt_counter (rotated now k)) + 1"
  shows "send_inv k'"
proof -
  note r = rotated_bounds [OF assms(1), of now]
  have "unat (tk_epoch_bytes k') = unat (tk_epoch_bytes (rotated now k)) + n"
    unfolding assms(4) using r(2) assms(3) by (intro unat_plus_small) simp
  then show ?thesis using r assms(2,3,5) by (simp add: send_inv_def)
qed

lemma unat_Suc_small: "unat (x :: u64) < 2 ^ 62 \<Longrightarrow> unat (x + 1) = unat x + 1"
  using unat_plus_small [of x 1] by simp

section \<open>No nonce is used twice\<close>

datatype send_event = SendData nat bytes bytes | SendReceipt nat bytes

fun send_one :: "crypto \<Rightarrow> tunnel_keys \<Rightarrow> send_event \<Rightarrow> (unit, tunnel_keys \<times> bytes \<times> bytes) outcome" where
  "send_one cr k (SendData now aad pt) = seal cr now k aad pt"
| "send_one cr k (SendReceipt now pt) = seal_receipt cr now k pt"

fun nonce_used :: "tunnel_keys \<Rightarrow> send_event \<Rightarrow> bytes" where
  "nonce_used k (SendData _ _ _) = nonce_for (tk_tx_counter k)"
| "nonce_used k (SendReceipt _ _) = receipt_nonce (tk_tx_receipt_counter k)"

text \<open>The key epochs and nonces that a sequence of seals uses, up to a panic.\<close>

fun sent_nonces :: "crypto \<Rightarrow> tunnel_keys \<Rightarrow> send_event list \<Rightarrow> (u64 \<times> bytes) list" where
  "sent_nonces cr k [] = []"
| "sent_nonces cr k (ev # evs) = (case send_one cr k ev of
     Ok (k', _, _) \<Rightarrow> (tk_send_epoch k', nonce_used k' ev) # sent_nonces cr k' evs
   | _ \<Rightarrow> [])"

text \<open>Documented behaviour of the AEADs: the ciphertext is 16 bytes longer than the message.\<close>

definition aead_length :: "crypto \<Rightarrow> bool" where
  "aead_length cr \<longleftrightarrow> (\<forall>c nonce aad msg ct. cipher_encrypt cr c nonce aad msg = Some ct \<longrightarrow> length ct = length msg + 16)"

fun event_text :: "send_event \<Rightarrow> bytes" where
  "event_text (SendData _ _ pt) = pt"
| "event_text (SendReceipt _ pt) = pt"

lemma send_one_length:
  assumes "aead_length cr" "send_one cr k ev = Ok (k', kid, body)"
  shows "length body = length (event_text ev) + 24"
  using assms unfolding aead_length_def
  by (cases ev) (auto simp: seal_def seal_receipt_def Let_def split: option.splits prod.splits)

text \<open>The nonces of the counters above \<open>t\<close> (Data) and above \<open>r\<close> (Receipt).\<close>

definition unused_nonce :: "nat \<Rightarrow> nat \<Rightarrow> bytes \<Rightarrow> bool" where
  "unused_nonce t r n \<longleftrightarrow> (\<exists>c. t < unat c \<and> unat c < 2 ^ 62 \<and> n = nonce_for c)
     \<or> (\<exists>c. r < unat c \<and> unat c < 2 ^ 62 \<and> n = receipt_nonce c)"

lemma unused_nonce_mono: "unused_nonce t' r' n \<Longrightarrow> t \<le> t' \<Longrightarrow> r \<le> r' \<Longrightarrow> unused_nonce t r n"
  unfolding unused_nonce_def by (elim disjE exE conjE; metis le_less_trans)

lemma unused_nonceI:
  "t < unat c \<Longrightarrow> unat c < 2 ^ 62 \<Longrightarrow> unused_nonce t r (nonce_for c)"
  "r < unat c \<Longrightarrow> unat c < 2 ^ 62 \<Longrightarrow> unused_nonce t r (receipt_nonce c)"
  unfolding unused_nonce_def by blast+

lemma used_nonce:
  assumes "unat c < 2 ^ 62"
  shows "\<not> unused_nonce (unat c) r (nonce_for c)" "\<not> unused_nonce t (unat c) (receipt_nonce c)"
  using nonce_spaces [OF assms] nonce_spaces(1) [OF _ assms] unfolding unused_nonce_def by fastforce+

text \<open>A nonce of the current epoch that lies ahead of the state, and any of a later epoch.\<close>

definition ahead :: "tunnel_keys \<Rightarrow> u64 \<times> bytes \<Rightarrow> bool" where
  "ahead k p \<longleftrightarrow> (case p of (e, n) \<Rightarrow> unat (tk_send_epoch k) < unat e
     \<or> e = tk_send_epoch k \<and> unused_nonce (unat (tk_tx_counter k)) (unat (tk_tx_receipt_counter k)) n)"

lemma send_one_ahead:
  assumes "send_inv k" "send_one cr k ev = Ok (k', kid, body)" "length body < 2 ^ 61"
    and "unat (tk_send_epoch k) + unat (tk_stride k) < 2 ^ 64" "tk_stride k \<noteq> 0"
  shows "send_inv k'" "ahead k (tk_send_epoch k', nonce_used k' ev)" "\<not> ahead k' (tk_send_epoch k', nonce_used k' ev)"
    "ahead k' p \<Longrightarrow> ahead k p" "tk_stride k' = tk_stride k"
    "unat (tk_send_epoch k') \<le> unat (tk_send_epoch k) + unat (tk_stride k)"
proof -
  define now where "now = (case ev of SendData now _ _ \<Rightarrow> now | SendReceipt now _ \<Rightarrow> now)"
  let ?r = "rotated now k"
  note rb = rotated_bounds [OF assms(1), of now]
  have small: "unat (tk_tx_counter ?r) < 2 ^ 60" "unat (tk_tx_receipt_counter ?r) < 2 ^ 60"
    using rb by (auto simp: send_inv_def)
  have fields: "tk_send_epoch k' = tk_send_epoch ?r" "tk_epoch_bytes k' = tk_epoch_bytes ?r + of_nat (length body)"
    "tk_stride k' = tk_stride k" "8 \<le> length body"
    and cnt: "(\<exists>a b c. ev = SendData a b c) \<and> unat (tk_tx_counter k') = unat (tk_tx_counter ?r) + 1
        \<and> tk_tx_receipt_counter k' = tk_tx_receipt_counter ?r
      \<or> (\<exists>a b. ev = SendReceipt a b) \<and> unat (tk_tx_receipt_counter k') = unat (tk_tx_receipt_counter ?r) + 1
        \<and> tk_tx_counter k' = tk_tx_counter ?r"
  proof -
    have "(tk_send_epoch k' = tk_send_epoch ?r \<and> tk_epoch_bytes k' = tk_epoch_bytes ?r + of_nat (length body)
        \<and> tk_stride k' = tk_stride k \<and> 8 \<le> length body)
      \<and> ((\<exists>a b c. ev = SendData a b c) \<and> unat (tk_tx_counter k') = unat (tk_tx_counter ?r) + 1
          \<and> tk_tx_receipt_counter k' = tk_tx_receipt_counter ?r
        \<or> (\<exists>a b. ev = SendReceipt a b) \<and> unat (tk_tx_receipt_counter k') = unat (tk_tx_receipt_counter ?r) + 1
          \<and> tk_tx_counter k' = tk_tx_counter ?r)"
    proof (cases ev)
      case (SendData t aad pt)
      then have "seal cr now k aad pt = Ok (k', kid, body)" using assms(2) by (simp add: now_def)
      note f = seal_fields [OF this]
      have "unat (tk_tx_counter k') = unat (tk_tx_counter ?r) + 1"
        unfolding f(2) using small(1) by (intro unat_Suc_small) simp
      then show ?thesis using f SendData by blast
    next
      case (SendReceipt t pt)
      then have "seal_receipt cr now k pt = Ok (k', kid, body)" using assms(2) by (simp add: now_def)
      note f = seal_receipt_fields [OF this]
      have "unat (tk_tx_receipt_counter k') = unat (tk_tx_receipt_counter ?r) + 1"
        unfolding f(3) using small(2) by (intro unat_Suc_small) simp
      then show ?thesis using f SendReceipt by blast
    qed
    then show "tk_send_epoch k' = tk_send_epoch ?r" "tk_epoch_bytes k' = tk_epoch_bytes ?r + of_nat (length body)"
      "tk_stride k' = tk_stride k" "8 \<le> length body"
      "(\<exists>a b c. ev = SendData a b c) \<and> unat (tk_tx_counter k') = unat (tk_tx_counter ?r) + 1
          \<and> tk_tx_receipt_counter k' = tk_tx_receipt_counter ?r
        \<or> (\<exists>a b. ev = SendReceipt a b) \<and> unat (tk_tx_receipt_counter k') = unat (tk_tx_receipt_counter ?r) + 1
          \<and> tk_tx_counter k' = tk_tx_counter ?r"
      by blast+
  qed
  show "tk_stride k' = tk_stride k" by (rule fields(3))
  show inv: "send_inv k'" using counted_step [OF assms(1) fields(4) assms(3) fields(2)] cnt by auto
  then have small': "unat (tk_tx_counter k') < 2 ^ 62" "unat (tk_tx_receipt_counter k') < 2 ^ 62"
    by (auto simp: send_inv_def)
  have epoch: "tk_send_epoch ?r = tk_send_epoch k \<and> ?r = k
      \<or> unat (tk_send_epoch ?r) = unat (tk_send_epoch k) + unat (tk_stride k)"
    using assms(4) by (auto simp: rotated_def advance_epoch_def unat_word_ariths)
  then show "unat (tk_send_epoch k') \<le> unat (tk_send_epoch k) + unat (tk_stride k)" using fields(1) by auto
  have s: "0 < unat (tk_stride k)" using assms(5) by (simp add: unat_gt_0)
  have grow: "unat (tk_tx_counter ?r) \<le> unat (tk_tx_counter k')"
    "unat (tk_tx_receipt_counter ?r) \<le> unat (tk_tx_receipt_counter k')"
    using cnt by auto
  have used: "unused_nonce (unat (tk_tx_counter ?r)) (unat (tk_tx_receipt_counter ?r)) (nonce_used k' ev)"
    using cnt small' by (auto intro!: unused_nonceI)
  show "ahead k (tk_send_epoch k', nonce_used k' ev)"
    using epoch fields(1) s used by (auto simp: ahead_def)
  show "\<not> ahead k' (tk_send_epoch k', nonce_used k' ev)"
    using used_nonce(1) [OF small'(1)] used_nonce(2) [OF small'(2)] by (cases ev) (auto simp: ahead_def)
  show "ahead k p" if "ahead k' p"
    using that epoch fields(1) s unused_nonce_mono [OF _ grow] by (cases p) (auto simp: ahead_def)
qed

lemma sent_nonces_ahead:
  assumes "aead_length cr" "send_inv k" "tk_stride k \<noteq> 0"
    and "unat (tk_send_epoch k) + length evs * unat (tk_stride k) < 2 ^ 64"
    and "\<forall>ev \<in> set evs. length (event_text ev) < 2 ^ 60"
  shows "distinct (sent_nonces cr k evs) \<and> (\<forall>p \<in> set (sent_nonces cr k evs). ahead k p)"
  using assms(2-)
proof (induction evs arbitrary: k)
  case (Cons ev evs)
  show ?case
  proof (cases "send_one cr k ev")
    case (Ok r)
    obtain k' kid body where r: "r = (k', kid, body)" by (metis prod_cases3)
    have len: "length body < 2 ^ 61" using send_one_length [OF assms(1), of k ev] Ok r Cons.prems(4) by auto
    have room: "unat (tk_send_epoch k) + unat (tk_stride k) < 2 ^ 64" using Cons.prems(3) by simp
    note st = send_one_ahead [OF Cons.prems(1) _ len room Cons.prems(2), of cr ev k' kid, unfolded r [symmetric], OF Ok]
    have "distinct (sent_nonces cr k' evs) \<and> (\<forall>p \<in> set (sent_nonces cr k' evs). ahead k' p)"
      using st(1,5,6) Cons.prems by (intro Cons.IH) auto
    then show ?thesis using Ok r st(2,3,4) by auto
  qed simp_all
qed simp

text \<open>
  C2. No nonce is used twice under one key: over any interleaving of Data and Receipt frames and
  through every rotation, the pairs of key epoch and nonce that a fresh sender uses are pairwise different,
  for as long as the 64-bit epoch does not wrap.
\<close>

theorem nonces_never_repeat:
  assumes "aead_length cr" "length evs < 2 ^ 63" "\<forall>ev \<in> set evs. length (event_text ev) < 2 ^ 60"
  shows "distinct (sent_nonces cr (keys_with_suite now dh init suite) evs)"
  using sent_nonces_ahead [OF assms(1) _ _ _ assms(3), of "keys_with_suite now dh init suite"] assms(2)
  by (simp add: keys_with_suite_def keys_new_def send_inv_def)

text \<open>A crypto suite to instantiate the theorems with: the tag is 16 zero bytes.\<close>

definition toy_crypto :: crypto where
  "toy_crypto = \<lparr> hmac_sha256 = \<lambda>_ d. d,
     chacha_encrypt = \<lambda>_ _ _ m. Some (m @ replicate 16 0),
     chacha_decrypt = \<lambda>_ _ _ c. (if length c < 16 then None else Some (take (length c - 16) c)),
     aes_encrypt = \<lambda>_ _ _ m. Some (m @ replicate 16 0),
     aes_decrypt = \<lambda>_ _ _ c. (if length c < 16 then None else Some (take (length c - 16) c)) \<rparr>"

lemma toy_encrypt [simp]: "cipher_encrypt toy_crypto c nonce aad m = Some (m @ replicate 16 0)"
  by (cases c) (simp_all add: toy_crypto_def)

lemma nonces_never_repeat_witness:
  "distinct (sent_nonces toy_crypto (keys_with_suite 0 [] True Aes256Gcm) [SendData 1 [1] [2], SendReceipt 2 [3]])"
  by (rule nonces_never_repeat) (simp_all add: aead_length_def)

section \<open>Reachable key states\<close>

text \<open>Every operation that changes the keys, in any order.\<close>

inductive keys_reachable :: "crypto \<Rightarrow> tunnel_keys \<Rightarrow> bool" for cr where
  reach_new: "keys_reachable cr (keys_with_suite now dh init suite)"
| reach_shard: "keys_with_shard now dh init suite shard stride = Ok k \<Longrightarrow> keys_reachable cr k"
| reach_derive: "keys_reachable cr k \<Longrightarrow> derive_shard now k shard stride = Ok k' \<Longrightarrow> keys_reachable cr k'"
| reach_step: "keys_reachable cr k \<Longrightarrow> tunnel_step cr k ev = (k', ok) \<Longrightarrow> keys_reachable cr k'"
| reach_suite: "keys_reachable cr k \<Longrightarrow> set_suite k suite = (k', ok) \<Longrightarrow> keys_reachable cr k'"
| reach_rekey: "keys_reachable cr k \<Longrightarrow> keys_reachable cr (rekey now k new_dh)"

text \<open>The cached ciphers are those of the current secret, suite and direction.\<close>

definition coherent :: "crypto \<Rightarrow> tunnel_keys \<Rightarrow> bool" where
  "coherent cr k \<longleftrightarrow>
     (\<forall>e c. tk_send_cipher k = Some (e, c) \<longrightarrow>
        c = cipher_for cr (tk_dh k) (tk_suite k) e (tk_is_initiator k) True)
     \<and> (\<forall>e c. (e, c) \<in> set (tk_rx_ciphers k) \<longrightarrow>
        c = cipher_for cr (tk_dh k) (tk_suite k) e (tk_is_initiator k) False)"

lemma coherent_none: "tk_send_cipher k = None \<Longrightarrow> tk_rx_ciphers k = [] \<Longrightarrow> coherent cr k"
  by (simp add: coherent_def)

lemma coherent_ready:
  assumes "coherent cr k" "send_epoch_ready cr now k = (k', e)"
  shows "coherent cr k'" "tk_send_cipher k' = Some (e, cipher_for cr (tk_dh k) (tk_suite k) e (tk_is_initiator k) True)"
    "tk_dh k' = tk_dh k \<and> tk_suite k' = tk_suite k \<and> tk_is_initiator k' = tk_is_initiator k \<and> tk_rx_ciphers k' = tk_rx_ciphers k
     \<and> tk_shard k' = tk_shard k \<and> e = tk_send_epoch k'"
proof -
  have r: "coherent cr (rotated now k)" "tk_dh (rotated now k) = tk_dh k" "tk_suite (rotated now k) = tk_suite k"
    "tk_is_initiator (rotated now k) = tk_is_initiator k" "tk_rx_ciphers (rotated now k) = tk_rx_ciphers k"
    "tk_shard (rotated now k) = tk_shard k"
    using assms(1) by (auto simp: rotated_def advance_epoch_def coherent_def)
  then show "coherent cr k'" "tk_send_cipher k' = Some (e, cipher_for cr (tk_dh k) (tk_suite k) e (tk_is_initiator k) True)"
    "tk_dh k' = tk_dh k \<and> tk_suite k' = tk_suite k \<and> tk_is_initiator k' = tk_is_initiator k \<and> tk_rx_ciphers k' = tk_rx_ciphers k
     \<and> tk_shard k' = tk_shard k \<and> e = tk_send_epoch k'"
    using assms(2) unfolding send_epoch_ready_def Let_def rotated_def [symmetric]
    by (auto simp: coherent_def split: option.splits if_splits)
qed

lemma coherent_open_cipher:
  assumes "coherent cr k" "open_cipher cr k key_id = (k', r)"
  shows "coherent cr k'" "r = Inr (e, c) \<Longrightarrow> c = cipher_for cr (tk_dh k) (tk_suite k) e (tk_is_initiator k) False"
proof -
  have upd: "set (AList.update e c m) \<subseteq> insert (e, c) (set m)" for e c and m :: "(u64 \<times> cipher) list"
    by (induction m) auto
  show "coherent cr k'"
    using assms upd unfolding open_cipher_def Let_def coherent_def
    by (auto split: option.splits if_splits) (use upd in fastforce)+
  show "r = Inr (e, c) \<Longrightarrow> c = cipher_for cr (tk_dh k) (tk_suite k) e (tk_is_initiator k) False"
    using assms unfolding open_cipher_def Let_def coherent_def
    by (auto split: option.splits if_splits dest: map_of_SomeD)
qed

lemma coherent_prune: "coherent cr k \<Longrightarrow> coherent cr (prune k)"
  by (auto simp: coherent_def prune_def split_off_def Let_def split: option.split)

text \<open>The epochs in the receive maps are those of this shard, at most one generation behind the newest.\<close>

definition epochs_ok :: "tunnel_keys \<Rightarrow> bool" where
  "epochs_ok k \<longleftrightarrow> tk_shard k < tk_stride k
     \<and> (\<forall>e \<in> rx_epochs k. e mod tk_stride k = tk_shard k \<and> \<not> stale k e)"

lemma stale_word: "stale k e \<longleftrightarrow> (\<exists>n \<in> rx_epochs k. unat e + unat (tk_stride k) < unat n)"
  by (rule stale_def)

lemma epochs_ok_prune:
  assumes "tk_shard k < tk_stride k" "\<forall>e \<in> rx_epochs k. e mod tk_stride k = tk_shard k"
  shows "epochs_ok (prune k)"
proof (cases "newest_of k")
  case None
  then have "rx_epochs k = {}" using newest_of_ge [of _ k] by auto
  moreover have "prune k = k" using None unfolding prune_def newest_of_def [symmetric] by simp
  ultimately show ?thesis using assms by (simp add: epochs_ok_def)
next
  case (Some n)
  have sub: "rx_epochs (prune k) = {e \<in> rx_epochs k. sat_sub n (tk_stride k) \<le> e}"
    by (auto simp: rx_epochs_def prune_eq [OF Some] keys_split_off)
  have "\<not> stale k e" if "sat_sub n (tk_stride k) \<le> e" for e
  proof
    assume "stale k e"
    then obtain m where m: "m \<in> rx_epochs k" "unat e + unat (tk_stride k) < unat m" by (auto simp: stale_def)
    then have "unat e + unat (tk_stride k) < unat n"
      using newest_of_SomeD [OF Some] by (auto simp: word_le_nat_alt)
    then show False using that by (auto simp: sat_sub_def word_le_nat_alt unat_sub split: if_splits)
  qed
  then show ?thesis using assms sub by (auto simp: epochs_ok_def prune_fields)
qed

lemma mod_close:
  assumes "(e :: nat) mod s = n mod s" "e \<le> n" "n \<le> e + s" "0 < s"
  shows "e = n \<or> n = e + s"
proof -
  have "s dvd n - e" using assms(1,2) by (metis mod_eq_dvd_iff_nat)
  then obtain q where q: "n - e = s * q" by (auto elim: dvdE)
  then have "s * q \<le> s * 1" using assms(3) by linarith
  then have "q \<le> 1" using assms(4) by (simp only: mult_le_cancel1)
  then show ?thesis using q assms(2) by (cases q) auto
qed

lemma epochs_two:
  assumes "epochs_ok k"
  shows "card (rx_epochs k) \<le> 2"
proof (cases "newest_of k")
  case None
  then have "rx_epochs k = {}" using newest_of_ge [of _ k] by auto
  then show ?thesis by simp
next
  case (Some n)
  note n = newest_of_SomeD [OF Some]
  have s: "0 < unat (tk_stride k)" using assms by (auto simp: epochs_ok_def word_less_nat_alt)
  have "e = n \<or> e = n - tk_stride k" if e: "e \<in> rx_epochs k" for e
  proof -
    have "unat e mod unat (tk_stride k) = unat n mod unat (tk_stride k)"
      using assms e n by (metis epochs_ok_def unat_mod)
    moreover have "unat e \<le> unat n" using n e by (auto simp: word_le_nat_alt)
    moreover have "unat n \<le> unat e + unat (tk_stride k)" using assms e n by (force simp: epochs_ok_def stale_def)
    ultimately consider "unat e = unat n" | "unat n = unat e + unat (tk_stride k)" using mod_close s by blast
    then show ?thesis
    proof cases
      case 2
      then have "n = e + tk_stride k"
        using unsigned_less [of n, where 'a = nat] by (simp add: word_unat_eq_iff unat_word_ariths)
      then show ?thesis by simp
    qed (simp add: word_unat_eq_iff)
  qed
  then have "rx_epochs k \<subseteq> {n, n - tk_stride k}" by blast
  then have "card (rx_epochs k) \<le> card {n, n - tk_stride k}" by (rule card_mono [rotated]) simp
  also have "\<dots> \<le> 2" by (simp add: card_insert_if)
  finally show ?thesis .
qed

lemma tunnel_step_coherent:
  assumes "coherent cr k" "tunnel_step cr k ev = (k', ok)"
  shows "coherent cr k'"
proof (cases ev)
  case (EvSeal now aad pt)
  obtain k1 e where r: "send_epoch_ready cr now k = (k1, e)" by (metis surj_pair)
  have "coherent cr k1" by (rule coherent_ready(1) [OF assms(1) r])
  then show ?thesis
    using assms EvSeal r by (auto simp: seal_def coherent_def Let_def split: option.splits outcome.splits)
next
  case (EvSealReceipt now pt)
  obtain k1 e where r: "send_epoch_ready cr now k = (k1, e)" by (metis surj_pair)
  have "coherent cr k1" by (rule coherent_ready(1) [OF assms(1) r])
  then show ?thesis
    using assms EvSealReceipt r by (auto simp: seal_receipt_def coherent_def Let_def split: option.splits outcome.splits)
next
  case (EvOpen key_id body aad)
  obtain k1 r where oc: "open_cipher cr k key_id = (k1, r)" by (metis surj_pair)
  have c1: "coherent cr k1" by (rule coherent_open_cipher(1) [OF assms(1) oc])
  then have "coherent cr (prune (k1\<lparr> tk_rx := m \<rparr>))" for m
    by (intro coherent_prune) (simp add: coherent_def)
  then show ?thesis
    using assms EvOpen oc c1
    by (auto simp: open_frame_def Let_def split: if_splits sum.splits option.splits prod.splits)
next
  case (EvOpenReceipt key_id body)
  obtain k1 r where oc: "open_cipher cr k key_id = (k1, r)" by (metis surj_pair)
  have c1: "coherent cr k1" by (rule coherent_open_cipher(1) [OF assms(1) oc])
  then have "coherent cr (prune (k1\<lparr> tk_rx_receipt := m \<rparr>))" for m
    by (intro coherent_prune) (simp add: coherent_def)
  then show ?thesis
    using assms EvOpenReceipt oc c1
    by (auto simp: open_receipt_def Let_def split: if_splits sum.splits option.splits prod.splits)
qed

lemma tunnel_step_epochs:
  assumes "epochs_ok k" "tunnel_step cr k ev = (k', ok)"
  shows "epochs_ok k'"
  using assms(2)
proof (cases rule: tunnel_step_cases)
  case quiet
  then show ?thesis using assms(1) by (simp add: epochs_ok_def stale_def rx_epochs_def)
next
  case (data cs e c)
  show ?thesis
    unfolding data(1) note_data_def
    by (rule epochs_ok_prune; use assms(1) data(5) in \<open>auto simp: epochs_ok_def rx_epochs_def AList.dom_update\<close>)
next
  case (receipt cs e c)
  show ?thesis
    unfolding receipt(1) note_receipt_def
    by (rule epochs_ok_prune; use assms(1) receipt(5) in \<open>auto simp: epochs_ok_def rx_epochs_def AList.dom_update\<close>)
qed

lemma reachable_inv:
  "keys_reachable cr k \<Longrightarrow> coherent cr k \<and> epochs_ok k \<and> keys_ok k"
proof (induction rule: keys_reachable.induct)
  case (reach_new now dh init suite)
  then show ?case
    by (simp add: keys_with_suite_def keys_new_def coherent_def epochs_ok_def keys_ok_def windows_ok_def
        rx_epochs_def window_of_def)
next
  case (reach_shard now dh init suite shard stride k)
  then show ?case
    by (auto simp: keys_with_shard_def keys_with_suite_def keys_new_def coherent_def epochs_ok_def keys_ok_def
        windows_ok_def rx_epochs_def window_of_def split: if_splits)
next
  case (reach_derive k now shard stride k')
  then show ?case
    by (auto simp: derive_shard_def coherent_def epochs_ok_def keys_ok_def
        windows_ok_def rx_epochs_def window_of_def split: if_splits)
next
  case (reach_step k ev k' ok)
  moreover have "keys_ok k'" using tunnel_guard.step_inv [of k cr ev] reach_step by simp
  ultimately show ?case using tunnel_step_coherent tunnel_step_epochs by blast
next
  case (reach_suite k suite k' ok)
  then have same: "tk_rx k' = tk_rx k" "tk_rx_receipt k' = tk_rx_receipt k" "tk_stride k' = tk_stride k"
    "tk_shard k' = tk_shard k" and "coherent cr k'"
    by (auto simp: set_suite_def coherent_def split: if_splits)
  then show ?case
    using reach_suite.IH unfolding epochs_ok_def stale_def rx_epochs_def keys_ok_def same by blast
next
  case (reach_rekey k now new_dh)
  then show ?case
    by (auto simp: rekey_def advance_epoch_def coherent_def epochs_ok_def keys_ok_def windows_ok_def rx_epochs_def
        window_of_def Let_def)
qed

text \<open>
  In every reachable key state, through seals, received frames, suite changes, rekeying and
  sharding, every cached cipher is the one that the current secret, suite, epoch and direction derive, and
  each receive map holds windows of at most two epochs.
\<close>

theorem reachable_keys_coherent:
  assumes "keys_reachable cr k"
  shows "coherent cr k \<and> length (tk_rx k) \<le> 2 \<and> length (tk_rx_receipt k) \<le> 2"
proof -
  note inv = reachable_inv [OF assms]
  have fin: "finite (rx_epochs k)" by (simp add: rx_epochs_def)
  have "length m \<le> 2" if "distinct (map fst m)" "fst ` set m \<subseteq> rx_epochs k" for m :: "(u64 \<times> rx_window) list"
  proof -
    have "length m = card (fst ` set m)" using that(1) by (metis distinct_card length_map set_map)
    also have "\<dots> \<le> card (rx_epochs k)" by (rule card_mono [OF fin that(2)])
    finally show ?thesis using epochs_two [of k] inv by simp
  qed
  then show ?thesis using inv by (auto simp: keys_ok_def windows_ok_def rx_epochs_def)
qed

lemma reachable_keys_coherent_witness:
  "coherent toy_crypto (rekey 5 (keys_with_suite 0 [1] True Aes256Gcm) [2])"
  using reachable_keys_coherent [OF reach_rekey [OF reach_new]] by blast

text \<open>
  The suite may be changed after frames were sent: the guard of \<open>set_suite\<close> does not look
  at the receipts, so after any number of sealed Receipt frames in the first epoch it still accepts a change,
  although it is meant to refuse once a frame has gone out.
\<close>

theorem suite_changes_after_receipts:
  assumes "seal_receipt cr now (keys_with_suite now dh init suite) pt = Ok (k, kid, body)"
  shows "tk_tx_receipt_counter k = 1 \<and> snd (set_suite k suite')"
proof -
  have r: "rotated now (keys_with_suite now dh init suite) = keys_with_suite now dh init suite"
    by (simp add: rotated_def keys_with_suite_def keys_new_def const_defs word_le_nat_alt)
  note f = seal_receipt_fields [OF assms, unfolded r] and g = seal_keeps_rx(2) [OF assms]
  show ?thesis
    using f(1-3) g by (simp add: set_suite_def keys_with_suite_def keys_new_def)
qed

lemma suite_changes_after_receipts_witness:
  "\<exists>k kid body. seal_receipt toy_crypto 0 (keys_with_suite 0 [] True ChaCha20Poly1305) [] = Ok (k, kid, body)
     \<and> snd (set_suite k Aes256Gcm)"
proof -
  obtain k kid body where "seal_receipt toy_crypto 0 (keys_with_suite 0 [] True ChaCha20Poly1305) [] = Ok (k, kid, body)"
    by (simp add: seal_receipt_def send_epoch_ready_def keys_with_suite_def keys_new_def const_defs word_le_nat_alt Let_def)
  then show ?thesis using suite_changes_after_receipts by blast
qed

end
