(* ===== verification/TunnelFrame.thy ===== *)
theory TunnelFrame
  imports TunnelNonces
begin

text \<open>
  Tunnel frames and their use: the frame head (\<open>frame.rs\<close>), encapsulation and decapsulation
  of IPv8+ packets (\<open>encapsulate.rs\<close>) and the key exchange (\<open>handshake.rs\<close> and the
  identity of \<open>crypto.rs\<close>). SHA-256 and X25519 are parameters; the random ephemeral secret is an
  argument.
\<close>

section \<open>The frame head\<close>

definition TUNNEL_VERSION :: u8 where [const_defs]: "TUNNEL_VERSION = 0x01"
definition FRAME_HEADER_SIZE :: nat where [const_defs]: "FRAME_HEADER_SIZE = 10"
definition TAG_SIZE :: nat where [const_defs]: "TAG_SIZE = 16"
definition MIN_DATA_BODY :: nat where [const_defs]: "MIN_DATA_BODY = BASE_HEADER_SIZE + 8 + TAG_SIZE"

fun frame_type_code :: "frame_type \<Rightarrow> u8" where
  "frame_type_code HandshakeInit = 0"
| "frame_type_code HandshakeResp = 1"
| "frame_type_code Data = 2"
| "frame_type_code Rekey = 3"
| "frame_type_code AuthInit = 4"
| "frame_type_code AuthResp = 5"
| "frame_type_code FecRecovery = 6"
| "frame_type_code Receipt = 7"

definition frame_type_from_u8 :: "u8 \<Rightarrow> frame_type option" where
  "frame_type_from_u8 v = (
     if v = 0 then Some HandshakeInit
     else if v = 1 then Some HandshakeResp
     else if v = 2 then Some Data
     else if v = 3 then Some Rekey
     else if v = 4 then Some AuthInit
     else if v = 5 then Some AuthResp
     else if v = 6 then Some FecRecovery
     else if v = 7 then Some Receipt
     else None)"

record frame_head =
  fh_type :: frame_type
  fh_key_id :: bytes

definition compute_key_id :: "(bytes \<Rightarrow> bytes) \<Rightarrow> bytes \<Rightarrow> bytes" where
  "compute_key_id sha256 peer_pub = take 8 (sha256 peer_pub)"

definition parse_head :: "bytes \<Rightarrow> frame_error + frame_head" where
  "parse_head frame = (
     if length frame < FRAME_HEADER_SIZE then Inl (Frame_TooShort (length frame))
     else if frame ! 0 \<noteq> TUNNEL_VERSION then Inl (Frame_BadVersion (frame ! 0))
     else case frame_type_from_u8 (frame ! 1) of
       None \<Rightarrow> Inl (Frame_BadType (frame ! 1))
     | Some ft \<Rightarrow> Inr \<lparr> fh_type = ft, fh_key_id = slice 2 10 frame \<rparr>)"

definition write_head :: "bytes \<Rightarrow> frame_type \<Rightarrow> bytes \<Rightarrow> bytes" where
  "write_head frame ft key_id = frame @ [TUNNEL_VERSION, frame_type_code ft] @ key_id"

section \<open>Encapsulation\<close>

definition encapsulate ::
  "crypto \<Rightarrow> nat \<Rightarrow> tunnel_keys \<Rightarrow> bytes \<Rightarrow> (frame_error, tunnel_keys \<times> bytes) outcome" where
  "encapsulate cr now keys ipv8_packet = (
     case decode ipv8_packet of
       Inl e \<Rightarrow> Err (Frame_Header e)
     | Inr d \<Rightarrow>
         let plain_len = length ipv8_packet - length (dec_payload d);
             plain = take plain_len ipv8_packet;
             secret = drop plain_len ipv8_packet
         in case seal cr now keys plain secret of
              Ok (keys, key_id, cipher_body) \<Rightarrow> Ok (keys, write_head [] Data key_id @ plain @ cipher_body)
            | Err _ \<Rightarrow> Panic
            | Panic \<Rightarrow> Panic)"

text \<open>
  The payload that \<open>decode\<close> returns is a slice of its input, and the code takes the distance of the
  two pointers: the offset of the payload, which is the base header and the chain.
\<close>

definition payload_offset :: "decoded \<Rightarrow> nat" where
  "payload_offset d = BASE_HEADER_SIZE + ext_total (hdr_ext_headers (dec_header d))"

definition decapsulate :: "crypto \<Rightarrow> tunnel_keys \<Rightarrow> bytes \<Rightarrow> tunnel_keys \<times> (frame_error + bytes)" where
  "decapsulate cr keys frame = (
     case parse_head frame of
       Inl e \<Rightarrow> (keys, Inl e)
     | Inr head \<Rightarrow>
         if fh_type head \<noteq> Data then (keys, Inl (NotData (fh_type head)))
         else
           let body = drop FRAME_HEADER_SIZE frame
           in if length body < MIN_DATA_BODY then (keys, Inl Frame_BodyTooShort)
              else (case decode body of
                 Inl e \<Rightarrow> (keys, Inl (Frame_Header e))
               | Inr d \<Rightarrow>
                   let plain_len = payload_offset d
                   in if plain_len < BASE_HEADER_SIZE \<or> length body - plain_len < 8
                      then (keys, Inl Frame_BodyTooShort)
                      else
                        let plain = take plain_len body; rest = drop plain_len body
                        in (case open_frame cr keys (fh_key_id head) rest plain of
                             (keys, Inl e) \<Rightarrow> (keys, Inl e)
                           | (keys, Inr secret) \<Rightarrow> (keys, Inr (plain @ secret)))))"

section \<open>Identities and the handshake\<close>

record x25519 =
  x_public :: "bytes \<Rightarrow> bytes"
  x_dh :: "bytes \<Rightarrow> bytes \<Rightarrow> bytes"

record identity =
  id_seed :: bytes
  id_public :: bytes

definition identity_from_seed :: "x25519 \<Rightarrow> bytes \<Rightarrow> identity" where
  "identity_from_seed x seed = \<lparr> id_seed = seed, id_public = x_public x seed \<rparr>"

definition identity_dh :: "x25519 \<Rightarrow> identity \<Rightarrow> bytes \<Rightarrow> bytes" where
  "identity_dh x ident peer_pub = x_dh x (id_seed ident) peer_pub"

definition HANDSHAKE_BODY_LEN :: nat where [const_defs]: "HANDSHAKE_BODY_LEN = 64"

record pending_handshake =
  ph_local_eph :: bytes
  ph_local_static :: bytes

definition create_init :: "x25519 \<Rightarrow> bytes \<Rightarrow> identity \<Rightarrow> bytes \<times> pending_handshake" where
  "create_init x eph ident =
     (x_public x eph @ id_public ident, \<lparr> ph_local_eph = eph, ph_local_static = id_public ident \<rparr>)"

definition split_handshake :: "bytes \<Rightarrow> frame_error + (bytes \<times> bytes)" where
  "split_handshake body = (
     if length body \<noteq> HANDSHAKE_BODY_LEN then Inl BadHandshakeLen
     else Inr (take 32 body, drop 32 body))"

definition accept_init ::
  "x25519 \<Rightarrow> bytes \<Rightarrow> nat \<Rightarrow> identity \<Rightarrow> bytes \<Rightarrow> frame_error + (bytes \<times> tunnel_keys)" where
  "accept_init x eph now ident body = (
     case split_handshake body of
       Inl e \<Rightarrow> Inl e
     | Inr (peer_eph, peer_static) \<Rightarrow>
         let shared = x_dh x eph peer_eph
         in Inr (x_public x eph @ id_public ident, keys_new now shared False))"

definition finish_init :: "x25519 \<Rightarrow> nat \<Rightarrow> pending_handshake \<Rightarrow> bytes \<Rightarrow> frame_error + tunnel_keys" where
  "finish_init x now pending body = (
     case split_handshake body of
       Inl e \<Rightarrow> Inl e
     | Inr (peer_eph, peer_static) \<Rightarrow> Inr (keys_new now (x_dh x (ph_local_eph pending) peer_eph) True))"

definition is_handshake :: "frame_type \<Rightarrow> bool" where
  "is_handshake t \<longleftrightarrow> t \<in> {HandshakeInit, HandshakeResp, AuthInit, AuthResp}"

section \<open>Frame heads round trip\<close>

lemma frame_type_roundtrip [simp]: "frame_type_from_u8 (frame_type_code ft) = Some ft"
  by (cases ft) (simp_all add: frame_type_from_u8_def)

lemma parse_write_head [simp]:
  assumes "length key_id = 8"
  shows "parse_head (write_head [] ft key_id @ body) = Inr \<lparr> fh_type = ft, fh_key_id = key_id \<rparr>"
    "drop FRAME_HEADER_SIZE (write_head [] ft key_id @ body) = body"
  using assms by (simp_all add: parse_head_def write_head_def const_defs slice_def)

section \<open>What one side seals the other opens\<close>

text \<open>Documented behaviour of the AEADs: decryption inverts encryption, and encryption does not fail.\<close>

definition aead_correct :: "crypto \<Rightarrow> bool" where
  "aead_correct cr \<longleftrightarrow> (\<forall>c nonce aad msg ct. cipher_encrypt cr c nonce aad msg = Some ct \<longrightarrow>
     cipher_decrypt cr c nonce aad ct = Some msg)"

definition aead_total :: "crypto \<Rightarrow> bool" where
  "aead_total cr \<longleftrightarrow> (\<forall>c nonce aad msg. cipher_encrypt cr c nonce aad msg \<noteq> None)"

text \<open>The two ends of a tunnel after a handshake: one secret, one suite, opposite roles.\<close>

definition peers :: "tunnel_keys \<Rightarrow> tunnel_keys \<Rightarrow> bool" where
  "peers a b \<longleftrightarrow> tk_dh a = tk_dh b \<and> tk_suite a = tk_suite b \<and> tk_is_initiator a = (\<not> tk_is_initiator b)"

lemma from_be_masked:
  assumes "length rest = 7"
  shows "(from_be (b # rest) :: u64) AND 0x00FFFFFFFFFFFFFF = from_be rest"
proof -
  have "(0x00FFFFFFFFFFFFFF :: u64) = mask 56" by (simp add: mask_eq_exp_minus_1)
  then have "(from_be (b # rest) :: u64) AND 0x00FFFFFFFFFFFFFF = take_bit 56 (from_be (b # rest))"
    by (simp only: take_bit_eq_mask)
  also have "\<dots> = from_be rest"
    by (rule bit_word_eqI) (use assms in \<open>auto simp: bit_simps dest: bit_from_be_imp\<close>)
  finally show ?thesis .
qed

lemma frame_key_id_epoch:
  assumes "unat e < 2 ^ 56"
  shows "epoch_of (frame_key_id k e) = e" "frame_key_id k e ! 0 = suite_byte (tk_suite k)" "length (frame_key_id k e) = 8"
proof -
  have "to_be64 e \<noteq> []" by (metis length_to_be(3) list.size(3) zero_neq_numeral)
  then obtain x rest where xr: "to_be64 e = x # rest" by (cases "to_be64 e") auto
  have len: "length rest = 7" using arg_cong [OF xr, of length] by simp
  have "e = of_nat (unat e)" by simp
  then have "x = 0" using to_be64_high(1) [OF assms] xr by simp
  moreover have "(from_be (x # rest) :: u64) = e" unfolding xr [symmetric] by (rule from_be_to_be)
  ultimately have "from_be rest = e" by simp
  then show "epoch_of (frame_key_id k e) = e"
    using from_be_masked [OF len] by (simp add: epoch_of_def frame_key_id_def xr del: from_be.simps)
  show "frame_key_id k e ! 0 = suite_byte (tk_suite k)" "length (frame_key_id k e) = 8"
    using len by (simp_all add: frame_key_id_def xr)
qed

lemma cipher_for_dir: "cipher_for cr dh s e i True = cipher_for cr dh s e (\<not> i) False"
  by (simp add: cipher_for_def key_info_def)

lemma suite_roundtrip [simp]: "suite_from_byte (suite_byte s) = Some s"
  by (cases s) (simp_all add: suite_from_byte_def)

lemma open_cipher_ok:
  assumes "coherent cr b" "kid ! 0 = suite_byte (tk_suite b)" "epoch_of kid = e" "e mod tk_stride b = tk_shard b" "\<not> stale b e"
  shows "\<exists>cs. open_cipher cr b kid = (b\<lparr> tk_rx_ciphers := cs \<rparr>,
      Inr (e, cipher_for cr (tk_dh b) (tk_suite b) e (tk_is_initiator b) False))
    \<and> coherent cr (b\<lparr> tk_rx_ciphers := cs \<rparr>)"
proof -
  obtain b' r where oc: "open_cipher cr b kid = (b', r)" by (metis surj_pair)
  obtain cs where cs: "b' = b\<lparr> tk_rx_ciphers := cs \<rparr>" using open_cipher_frame(1) [OF oc] by blast
  have "\<exists>c. r = Inr (e, c)"
    using oc assms(2-5) unfolding open_cipher_def Let_def newest_of_def [symmetric] sat_mul_grace newest_greater epoch_of_def
    by (auto split: option.splits)
  then obtain c where c: "r = Inr (e, c)" by blast
  note co = coherent_open_cipher [OF assms(1) oc]
  show ?thesis using oc cs c co(1) co(2) [OF c] by blast
qed

lemma seal_ok:
  assumes "coherent cr a" "seal cr now a aad pt = Ok (a', kid, body)"
  shows "\<exists>ct. cipher_encrypt cr (cipher_for cr (tk_dh a) (tk_suite a) (tk_send_epoch a') (tk_is_initiator a) True)
      (nonce_for (tk_tx_counter a')) aad pt = Some ct \<and> body = to_be64 (tk_tx_counter a') @ ct"
    "kid = frame_key_id a' (tk_send_epoch a')" "coherent cr a'"
    "tk_dh a' = tk_dh a" "tk_suite a' = tk_suite a" "tk_is_initiator a' = tk_is_initiator a" "tk_shard a' = tk_shard a"
proof -
  obtain k1 e where r: "send_epoch_ready cr now a = (k1, e)" by (metis surj_pair)
  note cr = coherent_ready [OF assms(1) r]
  then show "\<exists>ct. cipher_encrypt cr (cipher_for cr (tk_dh a) (tk_suite a) (tk_send_epoch a') (tk_is_initiator a) True)
      (nonce_for (tk_tx_counter a')) aad pt = Some ct \<and> body = to_be64 (tk_tx_counter a') @ ct"
    "kid = frame_key_id a' (tk_send_epoch a')" "coherent cr a'"
    "tk_dh a' = tk_dh a" "tk_suite a' = tk_suite a" "tk_is_initiator a' = tk_is_initiator a" "tk_shard a' = tk_shard a"
    using assms(2) r
    by (auto simp: seal_def Let_def frame_key_id_def coherent_def split: option.splits)
qed

lemma seal_open:
  assumes "aead_correct cr" "coherent cr a" "coherent cr b" "peers a b"
    and "seal cr now a aad pt = Ok (a', kid, body)" "unat (tk_send_epoch a') < 2 ^ 56"
    and "tk_send_epoch a' mod tk_stride b = tk_shard b" "\<not> stale b (tk_send_epoch a')"
    and "snd (rw_accept (window_of (tk_rx b) (tk_send_epoch a')) (tk_tx_counter a'))"
  shows "\<exists>cs. open_frame cr b kid body aad =
      (note_data (b\<lparr> tk_rx_ciphers := cs \<rparr>) (tk_send_epoch a') (tk_tx_counter a'), Inr pt)
    \<and> coherent cr (b\<lparr> tk_rx_ciphers := cs \<rparr>)"
proof -
  note s = seal_ok [OF assms(2,5)]
  obtain ct where ct: "cipher_encrypt cr (cipher_for cr (tk_dh a) (tk_suite a) (tk_send_epoch a') (tk_is_initiator a) True)
      (nonce_for (tk_tx_counter a')) aad pt = Some ct" "body = to_be64 (tk_tx_counter a') @ ct" using s(1) by blast
  note kid = frame_key_id_epoch [OF assms(6), of a', folded s(2)]
  have suite: "kid ! 0 = suite_byte (tk_suite b)" using kid(2) s(5) assms(4) by (simp add: peers_def)
  obtain cs where cs: "open_cipher cr b kid = (b\<lparr> tk_rx_ciphers := cs \<rparr>,
      Inr (tk_send_epoch a', cipher_for cr (tk_dh b) (tk_suite b) (tk_send_epoch a') (tk_is_initiator b) False))"
    "coherent cr (b\<lparr> tk_rx_ciphers := cs \<rparr>)"
    using open_cipher_ok [OF assms(3) suite kid(1) assms(7,8)] by blast
  have "cipher_decrypt cr (cipher_for cr (tk_dh b) (tk_suite b) (tk_send_epoch a') (tk_is_initiator b) False)
      (nonce_for (tk_tx_counter a')) aad ct = Some pt"
    using ct(1) assms(1,4) cipher_for_dir [of cr "tk_dh b" "tk_suite b" "tk_send_epoch a'" "tk_is_initiator a"]
    by (simp add: aead_correct_def peers_def)
  then have "open_frame cr b kid body aad =
      (note_data (b\<lparr> tk_rx_ciphers := cs \<rparr>) (tk_send_epoch a') (tk_tx_counter a'), Inr pt)"
    using cs(1) ct(2) assms(9) by (auto simp: open_frame_def note_data_def Let_def split: prod.split)
  then show ?thesis using cs(2) by blast
qed

section \<open>Packets through the tunnel\<close>

text \<open>
  A packet with a header that the decoder accepts and a well-formed chain, such as every packet that
  the encoder makes from well-formed extension headers.
\<close>

definition proper_packet :: "bytes \<Rightarrow> bool" where
  "proper_packet pkt \<longleftrightarrow> (\<exists>h p. pkt = header_bytes h @ chain_bytes (hdr_ext_headers h) @ p \<and> decodable h
     \<and> chain_ok (hdr_ext_headers h) \<and> length p = unat (hdr_payload_len h))"

lemma encode_proper: "encode h p = Inr pkt \<Longrightarrow> chain_ok (hdr_ext_headers h) \<Longrightarrow> proper_packet pkt"
  by (auto simp: proper_packet_def encode_iff encodable_decodable)

lemma proper_packetE:
  assumes "proper_packet pkt"
  obtains plain p where "pkt = plain @ p" "40 \<le> length plain" "length p \<le> 65535"
    "\<And>x. length p \<le> length x \<Longrightarrow> \<exists>d. decode (plain @ x) = Inr d \<and> dec_payload d = take (length p) x
       \<and> payload_offset d = length plain"
proof -
  obtain h p where e: "pkt = header_bytes h @ chain_bytes (hdr_ext_headers h) @ p" "decodable h"
    "chain_ok (hdr_ext_headers h)" "length p = unat (hdr_payload_len h)" using assms by (auto simp: proper_packet_def)
  define plain where "plain = header_bytes h @ chain_bytes (hdr_ext_headers h)"
  have enc: "decodable h" "length p = unat (hdr_payload_len h)" "pkt = plain @ p"
    using e by (simp_all add: plain_def)
  have "\<exists>d. decode (plain @ x) = Inr d \<and> dec_payload d = take (length p) x \<and> payload_offset d = length plain"
    if "length p \<le> length x" for x
  proof -
    have "decode (plain @ x) = Inr \<lparr>dec_header = h, dec_payload = take (length p) x\<rparr>"
      using that enc(2) by (intro decode_decodable [OF enc(1) e(3), where junk = "drop (length p) x"]) (simp_all add: plain_def)
    then show ?thesis by (simp add: payload_offset_def plain_def BASE_HEADER_SIZE_def)
  qed
  note dec = this
  have "length p \<le> 65535"
    using unsigned_less [of "hdr_payload_len h", where 'a = nat] enc(2) by simp
  moreover have "40 \<le> length plain" by (simp add: plain_def)
  ultimately show ?thesis using that [OF enc(3)] dec by blast
qed

lemma encapsulate_proper:
  assumes "proper_packet pkt" "coherent cr a" "aead_total cr" "aead_length cr"
  shows "\<exists>plain p a' kid body. pkt = plain @ p \<and> seal cr now a plain p = Ok (a', kid, body)
    \<and> encapsulate cr now a pkt = Ok (a', write_head [] Data kid @ plain @ body)
    \<and> length body = length p + 24 \<and> length p \<le> 65535
    \<and> (\<forall>cr' b b'. length kid = 8 \<and> open_frame cr' b kid body plain = (b', Inr p) \<longrightarrow>
         decapsulate cr' b (write_head [] Data kid @ plain @ body) = (b', Inr pkt))"
proof -
  obtain plain p where pkt: "pkt = plain @ p" "40 \<le> length plain" "length p \<le> 65535"
    and dec: "\<And>x. length p \<le> length x \<Longrightarrow> \<exists>d. decode (plain @ x) = Inr d \<and> dec_payload d = take (length p) x
       \<and> payload_offset d = length plain"
    using proper_packetE [OF assms(1)] by metis
  obtain k1 e where r: "send_epoch_ready cr now a = (k1, e)" by (metis surj_pair)
  note co = coherent_ready [OF assms(2) r]
  have "\<exists>a' kid body. seal cr now a plain p = Ok (a', kid, body)"
    using r co(2) assms(3) by (auto simp: seal_def Let_def aead_total_def split: option.split)
  then obtain a' kid body where s: "seal cr now a plain p = Ok (a', kid, body)" by blast
  have len: "length body = length p + 24"
    using send_one_length [OF assms(4), of a "SendData now plain p" a' kid body] s by simp
  obtain d where d: "decode pkt = Inr d" "dec_payload d = p" using dec [of p] pkt(1) by auto
  have "encapsulate cr now a pkt = Ok (a', write_head [] Data kid @ plain @ body)"
    using d s pkt(1) by (simp add: encapsulate_def)
  moreover have "decapsulate cr' b (write_head [] Data kid @ plain @ body) = (b', Inr pkt)"
    if "length kid = 8" "open_frame cr' b kid body plain = (b', Inr p)" for cr' b b'
  proof -
    obtain d' where "decode (plain @ body) = Inr d'" "payload_offset d' = length plain"
      using dec [of body] len by auto
    then show ?thesis
      unfolding decapsulate_def parse_write_head [OF that(1)]
      using that(2) pkt len by (simp add: const_defs Let_def)
  qed
  ultimately show ?thesis using pkt(1,3) s len by blast
qed

text \<open>
  A lossy channel: the sender encapsulates packet after packet, and those that the network does not
  drop are decapsulated by the receiver, in order. What the receiver makes of each delivered frame.
\<close>

fun channel :: "crypto \<Rightarrow> tunnel_keys \<Rightarrow> tunnel_keys \<Rightarrow> (nat \<times> bytes \<times> bool) list \<Rightarrow> (frame_error + bytes) list" where
  "channel cr a b [] = []"
| "channel cr a b ((now, pkt, delivered) # evs) = (case encapsulate cr now a pkt of
     Ok (a', frame) \<Rightarrow>
       if delivered then (case decapsulate cr b frame of (b', r) \<Rightarrow> r # channel cr a' b' evs)
       else channel cr a' b evs
   | _ \<Rightarrow> [])"

text \<open>The receiver has seen only what the sender sent.\<close>

definition in_sync :: "crypto \<Rightarrow> tunnel_keys \<Rightarrow> tunnel_keys \<Rightarrow> bool" where
  "in_sync cr a b \<longleftrightarrow> coherent cr a \<and> coherent cr b \<and> peers a b \<and> send_inv a \<and> tk_stride a \<noteq> 0 \<and> tk_stride b = tk_stride a
     \<and> tk_send_epoch a mod tk_stride a = tk_shard b \<and> (\<forall>e \<in> rx_epochs b. unat e \<le> unat (tk_send_epoch a))
     \<and> (\<exists>A. represents (window_of (tk_rx b) (tk_send_epoch a)) A \<and> (\<forall>c \<in> A. c \<le> unat (tk_tx_counter a)))"

lemma epoch_step:
  assumes "unat e + unat s < 2 ^ 64" "e' = (e :: u64) \<or> e' = e + s"
  shows "unat e' \<le> unat e + unat s" "e' mod s = e mod s"
proof -
  have "unat (e + s) = unat e + unat s" using assms(1) by (simp add: unat_word_ariths)
  moreover from this have "(e + s) mod s = e mod s" by (simp add: word_unat_eq_iff unat_mod)
  ultimately show "unat e' \<le> unat e + unat s" "e' mod s = e mod s" using assms(2) by auto
qed

lemma in_sync_sent:
  assumes "in_sync cr a b" "seal cr now a aad pt = Ok (a', kid, body)" "length body < 2 ^ 61"
    and "unat (tk_send_epoch a) + unat (tk_stride a) < 2 ^ 64"
  shows "in_sync cr a' b" "unat (tk_send_epoch a') \<le> unat (tk_send_epoch a) + unat (tk_stride a)"
    "\<exists>A. represents (window_of (tk_rx b) (tk_send_epoch a')) A \<and> (\<forall>c \<in> A. c < unat (tk_tx_counter a'))"
    "unat (tk_tx_counter a') \<noteq> 0" "tk_stride a' = tk_stride a" "tk_send_epoch a' mod tk_stride a = tk_shard b"
proof -
  note s = seal_ok [OF _ assms(2)] seal_fields [OF assms(2)]
  have a: "coherent cr a" "send_inv a" "tk_stride a \<noteq> 0" using assms(1) by (auto simp: in_sync_def)
  note one = send_one_ahead [of a cr "SendData now aad pt" a' kid body]
  have inv: "send_inv a'" "unat (tk_send_epoch a') \<le> unat (tk_send_epoch a) + unat (tk_stride a)" "tk_stride a' = tk_stride a"
    using one(1,5,6) a assms(2,3,4) by simp_all
  then show "tk_stride a' = tk_stride a" by blast
  show "unat (tk_send_epoch a') \<le> unat (tk_send_epoch a) + unat (tk_stride a)" by (rule inv(2))
  have "tk_send_epoch a' = tk_send_epoch a \<or> tk_send_epoch a' = tk_send_epoch a + tk_stride a"
    using s(8) by (auto simp: rotated_def advance_epoch_def)
  from epoch_step(2) [OF assms(4) this] have shard: "tk_send_epoch a' mod tk_stride a = tk_shard b"
    using assms(1) by (simp only: in_sync_def)
  then show "tk_send_epoch a' mod tk_stride a = tk_shard b" .
  have r: "unat (tk_tx_counter (rotated now a)) < 2 ^ 62"
    using rotated_bounds(1) [OF a(2), of now] by (auto simp: send_inv_def)
  have cnt: "unat (tk_tx_counter a') = unat (tk_tx_counter (rotated now a)) + 1"
    using s(9) unat_Suc_small [OF r] by simp
  then show "unat (tk_tx_counter a') \<noteq> 0" by simp
  have win: "(\<forall>e \<in> rx_epochs b. unat e \<le> unat (tk_send_epoch a'))
    \<and> (\<exists>A. represents (window_of (tk_rx b) (tk_send_epoch a')) A \<and> (\<forall>c \<in> A. c < unat (tk_tx_counter a')))"
  proof (cases "rotated now a = a")
    case True
    then show ?thesis using assms(1) s(8) cnt by (fastforce simp: in_sync_def le_imp_less_Suc)
  next
    case False
    then have "tk_send_epoch a' = tk_send_epoch a + tk_stride a"
      using s(8) by (auto simp: rotated_def advance_epoch_def split: if_splits)
    then have "unat (tk_send_epoch a') = unat (tk_send_epoch a) + unat (tk_stride a)"
      using assms(4) by (simp add: unat_word_ariths)
    moreover have "0 < unat (tk_stride a)" using a(3) by (simp add: unat_gt_0)
    ultimately have e: "unat (tk_send_epoch a) < unat (tk_send_epoch a')" by simp
    then have "tk_send_epoch a' \<notin> rx_epochs b" using assms(1) by (force simp: in_sync_def)
    then have "window_of (tk_rx b) (tk_send_epoch a') = rx_window_default"
      by (simp add: window_of_def rx_epochs_def map_of_eq_None_iff [THEN iffD2])
    then show ?thesis using represents_default assms(1) e by (force simp: in_sync_def)
  qed
  then show "\<exists>A. represents (window_of (tk_rx b) (tk_send_epoch a')) A \<and> (\<forall>c \<in> A. c < unat (tk_tx_counter a'))"
    by blast
  have "\<exists>A. represents (window_of (tk_rx b) (tk_send_epoch a')) A \<and> (\<forall>c \<in> A. c \<le> unat (tk_tx_counter a'))"
    using win by (meson less_imp_le)
  then show "in_sync cr a' b"
    using assms(1) inv win shard s(3-7) [OF a(1)] unfolding in_sync_def peers_def by simp
qed

lemma in_sync_received:
  assumes "in_sync cr a b" "represents (window_of (tk_rx b) (tk_send_epoch a)) A" "\<forall>c \<in> A. c < unat (tk_tx_counter a)"
    and "unat (tk_tx_counter a) \<noteq> 0" "coherent cr (b\<lparr> tk_rx_ciphers := cs \<rparr>)"
  shows "snd (rw_accept (window_of (tk_rx b) (tk_send_epoch a)) (tk_tx_counter a))"
    "\<not> stale b (tk_send_epoch a)"
    "in_sync cr a (note_data (b\<lparr> tk_rx_ciphers := cs \<rparr>) (tk_send_epoch a) (tk_tx_counter a))"
proof -
  have acc: "acceptable A (unat (tk_tx_counter a))" using assms(3,4) by (fastforce simp: acceptable_def)
  note ref = accept_refines [OF assms(2), of "tk_tx_counter a"]
  show "snd (rw_accept (window_of (tk_rx b) (tk_send_epoch a)) (tk_tx_counter a))" using ref acc by simp
  have le: "\<forall>e \<in> rx_epochs b. unat e \<le> unat (tk_send_epoch a)" using assms(1) by (simp add: in_sync_def)
  then show "\<not> stale b (tk_send_epoch a)" by (force simp: stale_def)
  let ?w = "fst (rw_accept (window_of (tk_rx b) (tk_send_epoch a)) (tk_tx_counter a))"
  let ?b = "b\<lparr> tk_rx_ciphers := cs, tk_rx := AList.update (tk_send_epoch a) ?w (tk_rx b) \<rparr>"
  have note_eq: "note_data (b\<lparr> tk_rx_ciphers := cs \<rparr>) (tk_send_epoch a) (tk_tx_counter a) = prune ?b"
    by (simp add: note_data_def)
  have le': "\<forall>e \<in> rx_epochs ?b. unat e \<le> unat (tk_send_epoch a)"
    using le by (auto simp: rx_epochs_def AList.dom_update)
  then have ns: "\<not> stale ?b (tk_send_epoch a)" by (force simp: stale_def)
  have sub: "rx_epochs (prune ?b) \<subseteq> rx_epochs ?b"
    by (auto simp: prune_def rx_epochs_def split_off_def Let_def split: option.split)
  have "window_of (tk_rx (prune ?b)) (tk_send_epoch a) = ?w" by (simp add: window_prune(1) [OF ns])
  then have w: "represents (window_of (tk_rx (prune ?b)) (tk_send_epoch a)) (insert (unat (tk_tx_counter a)) A)"
    using ref acc by simp
  have "coherent cr ?b" using assms(5) by (simp add: coherent_def)
  then have "coherent cr (prune ?b)" by (rule coherent_prune)
  moreover have "peers a (prune ?b)"
    using assms(1) by (auto simp: in_sync_def peers_def prune_def Let_def split: option.split)
  moreover have "\<forall>c \<in> insert (unat (tk_tx_counter a)) A. c \<le> unat (tk_tx_counter a)"
    using assms(3) by (auto intro: less_imp_le)
  ultimately show "in_sync cr a (note_data (b\<lparr> tk_rx_ciphers := cs \<rparr>) (tk_send_epoch a) (tk_tx_counter a))"
    unfolding note_eq in_sync_def using w le' sub assms(1) by (fastforce simp: in_sync_def prune_fields)
qed

text \<open>One packet through the tunnel: it comes out as it went in, and the two ends stay in step.\<close>

lemma tunnel_step:
  assumes "aead_correct cr" "aead_total cr" "aead_length cr"
    and "in_sync cr a b" "unat (tk_send_epoch a) + unat (tk_stride a) < 2 ^ 56" "proper_packet pkt"
  shows "\<exists>a' b' frame. encapsulate cr now a pkt = Ok (a', frame) \<and> in_sync cr a' b
    \<and> decapsulate cr b frame = (b', Inr pkt) \<and> in_sync cr a' b'
    \<and> unat (tk_send_epoch a') \<le> unat (tk_send_epoch a) + unat (tk_stride a) \<and> tk_stride a' = tk_stride a
    \<and> (\<exists>kid. parse_head frame = Inr \<lparr>fh_type = Data, fh_key_id = kid\<rparr>)"
proof -
  have ca: "coherent cr a" and cb: "coherent cr b" and pe: "peers a b" and sb: "tk_stride b = tk_stride a"
    using assms(4) by (auto simp: in_sync_def)
  obtain plain p a' kid body where e: "pkt = plain @ p" "seal cr now a plain p = Ok (a', kid, body)"
    "encapsulate cr now a pkt = Ok (a', write_head [] Data kid @ plain @ body)"
    "length body = length p + 24" "length p \<le> 65535"
    "\<forall>cr' b b'. length kid = 8 \<and> open_frame cr' b kid body plain = (b', Inr p) \<longrightarrow>
       decapsulate cr' b (write_head [] Data kid @ plain @ body) = (b', Inr pkt)"
    using encapsulate_proper [OF assms(6) ca assms(2,3), of now] by (elim exE conjE) (rule that; assumption)
  have len: "length body < 2 ^ 61" using e(4,5) by simp
  have ep: "unat (tk_send_epoch a) + unat (tk_stride a) < 2 ^ 64" using assms(5) by simp
  note sent = in_sync_sent [OF assms(4) e(2) len ep]
  have e56: "unat (tk_send_epoch a') < 2 ^ 56" using sent(2) assms(5) by simp
  obtain A where A: "represents (window_of (tk_rx b) (tk_send_epoch a')) A" "\<forall>c \<in> A. c < unat (tk_tx_counter a')"
    using sent(3) by blast
  have cb': "coherent cr (b\<lparr> tk_rx_ciphers := tk_rx_ciphers b \<rparr>)" using cb by simp
  note rec0 = in_sync_received [OF sent(1) A sent(4) cb']
  obtain cs where o: "open_frame cr b kid body plain =
      (note_data (b\<lparr> tk_rx_ciphers := cs \<rparr>) (tk_send_epoch a') (tk_tx_counter a'), Inr p)"
    "coherent cr (b\<lparr> tk_rx_ciphers := cs \<rparr>)"
    using seal_open [OF assms(1) ca cb pe e(2) e56 _ rec0(2,1)] sb sent(6) by auto
  have kid: "length kid = 8" using seal_ok(2) [OF ca e(2)] frame_key_id_epoch(3) [OF e56] by simp
  then have "decapsulate cr b (write_head [] Data kid @ plain @ body) =
      (note_data (b\<lparr> tk_rx_ciphers := cs \<rparr>) (tk_send_epoch a') (tk_tx_counter a'), Inr pkt)"
    using e(6) o(1) by blast
  moreover note in_sync_received(3) [OF sent(1) A sent(4) o(2)] parse_write_head(1) [OF kid, of Data "plain @ body"]
  ultimately show ?thesis using e(3) sent(1,2,5) by blast
qed

lemma channel_in_sync:
  assumes "aead_correct cr" "aead_total cr" "aead_length cr"
  shows "in_sync cr a b \<Longrightarrow> unat (tk_send_epoch a) + length evs * unat (tk_stride a) < 2 ^ 56 \<Longrightarrow>
    \<forall>(now, pkt, delivered) \<in> set evs. proper_packet pkt \<Longrightarrow>
    channel cr a b evs = map (\<lambda>(now, pkt, delivered). Inr pkt) (filter (\<lambda>(now, pkt, delivered). delivered) evs)"
proof (induction evs arbitrary: a b)
  case (Cons ev evs)
  obtain now pkt dl where ev: "ev = (now, pkt, dl)" by (metis surj_pair)
  have "unat (tk_send_epoch a) + unat (tk_stride a) < 2 ^ 56" "proper_packet pkt" using Cons.prems(2,3) ev by auto
  from tunnel_step [OF assms Cons.prems(1) this, of now] obtain a' b' frame where
    st: "encapsulate cr now a pkt = Ok (a', frame)" "in_sync cr a' b" "decapsulate cr b frame = (b', Inr pkt)"
      "in_sync cr a' b'" "unat (tk_send_epoch a') \<le> unat (tk_send_epoch a) + unat (tk_stride a)"
      "tk_stride a' = tk_stride a" by blast
  have small: "unat (tk_send_epoch a') + length evs * unat (tk_stride a') < 2 ^ 56" using st(5,6) Cons.prems(2) by simp
  have rest: "\<forall>(now, pkt, delivered) \<in> set evs. proper_packet pkt" using Cons.prems(3) by simp
  show ?case using Cons.IH [OF st(2) small rest] Cons.IH [OF st(4) small rest] ev st(1,3) by (cases dl) simp_all
qed simp

lemma in_sync_start: "in_sync cr (keys_with_suite t dh True suite) (keys_with_suite t' dh False suite)"
  using represents_default
  by (auto simp: in_sync_def peers_def send_inv_def keys_with_suite_def keys_new_def rx_epochs_def window_of_def
      intro: coherent_none)

lemma start_epoch [simp]: "tk_send_epoch (keys_with_suite t dh i suite) = 0"
  by (simp add: keys_with_suite_def keys_new_def)

lemma start_stride [simp]: "tk_stride (keys_with_suite t dh i suite) = 1"
  by (simp add: keys_with_suite_def keys_new_def)

lemma channel_from_start:
  assumes "aead_correct cr" "aead_total cr" "aead_length cr" "length evs < 2 ^ 56"
    and "\<forall>(now, pkt, delivered) \<in> set evs. proper_packet pkt"
  shows "channel cr (keys_with_suite t dh True suite) (keys_with_suite t' dh False suite) evs =
    map (\<lambda>(now, pkt, delivered). Inr pkt) (filter (\<lambda>(now, pkt, delivered). delivered) evs)"
  using assms in_sync_start by (intro channel_in_sync) simp_all

text \<open>
  C1. The tunnel delivers: two nodes that share a secret and a suite, with any AEAD that decrypts
  what it encrypts, get every packet the network delivers out of the tunnel exactly as it went in, in order,
  across key rotations by bytes or time and whatever packets are lost.
\<close>

theorem tunnel_delivers:
  assumes "aead_correct cr" "aead_total cr" "aead_length cr" "length evs < 2 ^ 56"
    and "\<forall>(now, pkt, delivered) \<in> set evs. proper_packet pkt"
  shows "channel cr (keys_with_suite t dh True suite) (keys_with_suite t' dh False suite) evs =
    map (\<lambda>(now, pkt, delivered). Inr pkt) (filter (\<lambda>(now, pkt, delivered). delivered) evs)"
  using assms by (rule channel_from_start)

lemma toy_decrypt: "cipher_decrypt toy_crypto c nonce aad ct = (if length ct < 16 then None else Some (take (length ct - 16) ct))"
  by (cases c) (simp_all add: toy_crypto_def)

lemma toy_laws: "aead_correct toy_crypto" "aead_total toy_crypto" "aead_length toy_crypto"
  by (auto simp: aead_correct_def aead_total_def aead_length_def toy_decrypt)

lemma sample_packet: "proper_packet (header_bytes sample_header @ chain_bytes (hdr_ext_headers sample_header) @ [7, 8])"
  by (rule encode_proper [of sample_header "[7, 8]"]) (simp_all add: sample_header_ok encode_iff)

lemma tunnel_delivers_witness:
  "let pkt = header_bytes sample_header @ chain_bytes (hdr_ext_headers sample_header) @ [7, 8]
   in channel toy_crypto (keys_with_suite 0 [1] True Aes256Gcm) (keys_with_suite 0 [1] False Aes256Gcm)
        [(1, pkt, True), (2, pkt, False), (4000000000000, pkt, True)] = [Inr pkt, Inr pkt]"
  unfolding Let_def by (subst tunnel_delivers [OF toy_laws]) (simp_all add: sample_packet)

section \<open>Packets with trailing bytes\<close>

text \<open>
  Encapsulation takes the plaintext part to be all but the last \<open>PayloadLen\<close> bytes, while the
  decoder tolerates bytes after the payload: with \<open>n\<close> trailing bytes, the first \<open>n\<close> bytes of
  the payload leave the node unencrypted, right behind the header in the tunnel frame.
\<close>

theorem encapsulate_leaks_payload:
  assumes "encode h p = Inr pkt" "chain_ok (hdr_ext_headers h)" "length junk \<le> length p"
    and "encapsulate cr now a (pkt @ junk) = Ok (a', frame)" "unat (tk_send_epoch a') < 2 ^ 56"
  shows "slice (10 + (length pkt - length p)) (10 + (length pkt - length p) + length junk) frame = take (length junk) p"
proof -
  define plain where "plain = header_bytes h @ chain_bytes (hdr_ext_headers h)"
  have pkt: "pkt = plain @ p" using assms(1) by (simp add: encode_iff plain_def)
  have d: "decode (pkt @ junk) = Inr \<lparr>dec_header = h, dec_payload = p\<rparr>" using decode_encode_junk [OF assms(1,2)] .
  have pl: "length (pkt @ junk) - length p = length plain + length junk" by (simp add: pkt)
  have tk: "take (length plain + length junk) (pkt @ junk) = plain @ take (length junk) p"
    using assms(3) by (simp add: pkt)
  define rest where "rest = drop (length plain + length junk) (pkt @ junk)"
  have enc: "encapsulate cr now a (pkt @ junk) =
      (case seal cr now a (plain @ take (length junk) p) rest of
         Ok (k', kid, body) \<Rightarrow> Ok (k', write_head [] Data kid @ (plain @ take (length junk) p) @ body)
       | Err _ \<Rightarrow> Panic | Panic \<Rightarrow> Panic)"
    unfolding encapsulate_def d Let_def sum.case decoded.select_convs pl tk rest_def ..
  obtain kid body where s: "seal cr now a (plain @ take (length junk) p) rest = Ok (a', kid, body)"
    "frame = write_head [] Data kid @ (plain @ take (length junk) p) @ body"
    using assms(4) unfolding enc by (auto split: outcome.splits)
  have "length kid = 8"
  proof -
    obtain e where "kid = frame_key_id a' e"
      using s(1) by (auto simp: seal_def Let_def frame_key_id_def split: prod.splits option.splits)
    then show ?thesis by (simp add: frame_key_id_def)
  qed
  then have "length (write_head [] Data kid @ plain) = 10 + (length pkt - length p)" by (simp add: write_head_def pkt)
  then have "slice (10 + (length pkt - length p)) (10 + (length pkt - length p) + length junk)
      ((write_head [] Data kid @ plain) @ take (length junk) p @ body) = take (length junk) p"
    using assms(3) by (subst slice_append_right) simp_all
  then show ?thesis unfolding s(2) by simp
qed

lemma encapsulate_leaks_payload_witness:
  "\<exists>a' frame. encapsulate toy_crypto 0 (keys_new 0 [] True)
       ((header_bytes sample_header @ chain_bytes (hdr_ext_headers sample_header) @ [7, 8]) @ [0]) = Ok (a', frame)
     \<and> slice 78 79 frame = [7]"
proof -
  let ?pkt = "header_bytes sample_header @ chain_bytes (hdr_ext_headers sample_header) @ [7, 8]"
  have e: "encode sample_header [7, 8] = Inr ?pkt" using sample_header_ok by (simp add: encode_iff)
  have len: "length ?pkt = 70"
    by (simp add: sample_header_def attach_ext_headers_def header_new_def wire_size_def)
  have epoch: "tk_send_epoch k' = 0" if "seal toy_crypto 0 (keys_new 0 [] True) x y = Ok (k', r)" for k' r x y
    using that by (auto simp: seal_def send_epoch_ready_def keys_new_def const_defs word_le_nat_alt Let_def)
  obtain a' frame where f: "encapsulate toy_crypto 0 (keys_new 0 [] True) (?pkt @ [0]) = Ok (a', frame)"
    "tk_send_epoch a' = 0"
    using decode_encode_junk [OF e sample_header_ok(2), of "[0]"]
    by (simp add: encapsulate_def seal_def send_epoch_ready_def keys_new_def const_defs word_le_nat_alt Let_def)
  have "slice (10 + (length ?pkt - length [7, 8 :: u8])) (10 + (length ?pkt - length [7, 8 :: u8]) + length [0 :: u8]) frame =
      take (length [0 :: u8]) [7, 8]"
    by (rule encapsulate_leaks_payload [OF e sample_header_ok(2) _ f(1)]) (simp_all add: f(2))
  then show ?thesis using f(1) unfolding len by auto
qed

section \<open>The handshake\<close>

text \<open>Documented behaviour of X25519: both sides compute one secret, and public keys have 32 bytes.\<close>

definition x25519_ok :: "x25519 \<Rightarrow> bool" where
  "x25519_ok x \<longleftrightarrow> (\<forall>a b. x_dh x a (x_public x b) = x_dh x b (x_public x a)) \<and> (\<forall>a. length (x_public x a) = 32)"

text \<open>
  The handshake agrees: the responder accepts the initiator's message, the initiator accepts
  the answer, and the two key states carry the same secret with opposite roles, so that every packet the
  network delivers from the initiator comes out at the responder as it went in.
\<close>

theorem handshake_establishes_tunnel:
  assumes "x25519_ok x" "ia = identity_from_seed x sa" "ib = identity_from_seed x sb"
    and "create_init x ea ia = (init_body, pending)"
    and "aead_correct cr" "aead_total cr" "aead_length cr" "length evs < 2 ^ 56"
    and "\<forall>(now, pkt, delivered) \<in> set evs. proper_packet pkt"
  shows "\<exists>resp ka kb. accept_init x eb t ib init_body = Inr (resp, kb) \<and> finish_init x t' pending resp = Inr ka
    \<and> tk_dh ka = tk_dh kb \<and> tk_is_initiator ka \<and> \<not> tk_is_initiator kb
    \<and> channel cr ka kb evs = map (\<lambda>(now, pkt, delivered). Inr pkt) (filter (\<lambda>(now, pkt, delivered). delivered) evs)"
proof -
  have len: "length (x_public x a) = 32" for a using assms(1) by (simp add: x25519_ok_def)
  have same: "x_dh x ea (x_public x eb) = x_dh x eb (x_public x ea)" using assms(1) by (simp add: x25519_ok_def)
  have init: "init_body = x_public x ea @ id_public ia" "ph_local_eph pending = ea"
    using assms(4) by (auto simp: create_init_def)
  have ids: "length (id_public ia) = 32" "length (id_public ib) = 32"
    using assms(2,3) by (simp_all add: identity_from_seed_def len)
  have acc: "accept_init x eb t ib init_body =
      Inr (x_public x eb @ id_public ib, keys_new t (x_dh x eb (x_public x ea)) False)"
    using ids len by (simp add: accept_init_def split_handshake_def init const_defs)
  have fin: "finish_init x t' pending (x_public x eb @ id_public ib) = Inr (keys_new t' (x_dh x eb (x_public x ea)) True)"
    using ids len same by (simp add: finish_init_def split_handshake_def init const_defs)
  have new: "keys_new t dh i = keys_with_suite t dh i ChaCha20Poly1305" for t dh i
    by (simp add: keys_with_suite_def keys_new_def)
  have "channel cr (keys_new t' (x_dh x eb (x_public x ea)) True) (keys_new t (x_dh x eb (x_public x ea)) False) evs =
      map (\<lambda>(now, pkt, delivered). Inr pkt) (filter (\<lambda>(now, pkt, delivered). delivered) evs)"
    unfolding new by (rule channel_from_start [OF assms(5-9)])
  then show ?thesis using acc fin by (simp add: keys_new_def)
qed

definition toy_x25519 :: x25519 where
  "toy_x25519 = \<lparr> x_public = \<lambda>s. take 32 (s @ replicate 32 0),
     x_dh = \<lambda>s p. map2 (\<lambda>u v. u XOR v) (take 32 (s @ replicate 32 0)) p \<rparr>"

lemma toy_x25519_ok: "x25519_ok toy_x25519"
proof -
  have "map2 (\<lambda>u v. u XOR v) xs ys = map2 (\<lambda>u v. u XOR v) ys (xs :: bytes)" for xs ys
    by (induction xs ys rule: list_induct2') (simp_all add: xor.commute)
  then show ?thesis by (auto simp: x25519_ok_def toy_x25519_def min_def)
qed

lemma handshake_establishes_tunnel_witness:
  "\<exists>resp ka kb. accept_init toy_x25519 [2] 0 (identity_from_seed toy_x25519 [4])
       (fst (create_init toy_x25519 [1] (identity_from_seed toy_x25519 [3]))) = Inr (resp, kb)
     \<and> finish_init toy_x25519 0 (snd (create_init toy_x25519 [1] (identity_from_seed toy_x25519 [3]))) resp = Inr ka
     \<and> tk_dh ka = tk_dh kb"
proof -
  obtain b p where c: "create_init toy_x25519 [1] (identity_from_seed toy_x25519 [3]) = (b, p)" by (metis surj_pair)
  show ?thesis
    using handshake_establishes_tunnel [OF toy_x25519_ok refl refl c toy_laws, of "[]" "[2]" 0 "[4]" 0] c by auto
qed

end
