(* ===== verification/RouteTrace.thy ===== *)
theory RouteTrace
  imports CodecLayouts
begin

text \<open>
  Path signatures and their verification, \<open>ipv8-routing/src/route_trace.rs\<close>. The Ed25519
  operations of the external crate are a parameter: key parsing, strict verification, signing with a seed
  and the public key of a seed.
\<close>

section \<open>Definitions\<close>

record ed25519 =
  ed_public :: "bytes \<Rightarrow> bytes"
  ed_sign :: "bytes \<Rightarrow> bytes \<Rightarrow> bytes"
  ed_key_ok :: "bytes \<Rightarrow> bool"
  ed_verify :: "bytes \<Rightarrow> bytes \<Rightarrow> bytes \<Rightarrow> bool"

datatype trace_error = BadTrace | BadPathSig | BadCertBinding | NotOnPath

datatype trace_policy = NoForward | Relay

datatype route_decision = Deliver | ForwardTo ipv8_address nat

definition frozen_head :: "bytes \<Rightarrow> bytes option" where
  "frozen_head base40 = (
     if length base40 < 7 \<or> base40 ! 6 \<noteq> 5 then None
     else Some [base40 ! 0, base40 ! 1, base40 ! 2, base40 ! 3, base40 ! 4, base40 ! 5, base40 ! 6])"

record path_spec =
  ps_src_addr :: ipv8_address
  ps_dst_addr :: ipv8_address
  ps_min_compat_ver :: u8
  ps_flags :: u16
  ps_payload_len :: u16
  ps_init_hop_limit :: u8
  ps_hops :: "ipv8_address list"
  ps_src_pubkey :: bytes

definition build_route_trace :: "path_spec \<Rightarrow> (bytes \<Rightarrow> bytes) \<Rightarrow> trace_error + route_trace" where
  "build_route_trace spec sign = (
     if ps_hops spec = [] \<or> length (ps_hops spec) > 64 then Inl BadTrace
     else if last (ps_hops spec) \<noteq> ps_dst_addr spec then Inl NotOnPath
     else
       let msg = route_trace_message \<lparr>ts_src_addr = ps_src_addr spec, ts_dst_addr = ps_dst_addr spec,
             ts_min_compat_ver = ps_min_compat_ver spec, ts_flags = ps_flags spec,
             ts_payload_len = ps_payload_len spec, ts_init_hop_limit = ps_init_hop_limit spec,
             ts_src_pubkey = ps_src_pubkey spec, ts_hops = ps_hops spec\<rparr>
       in Inr \<lparr>rt_src_pubkey = ps_src_pubkey spec, rt_path_sig = sign msg,
             rt_init_hop_limit = ps_init_hop_limit spec, rt_hops = ps_hops spec\<rparr>)"

definition cert_pubkey_from_wire :: "bytes \<Rightarrow> bytes option" where
  "cert_pubkey_from_wire cert_wire = (if length cert_wire \<noteq> 120 then None else Some (slice 16 48 cert_wire))"

definition cert_binding_ok :: "ed25519 \<Rightarrow> bytes \<Rightarrow> bytes \<Rightarrow> ipv8_address \<Rightarrow> bytes \<Rightarrow> u64 \<Rightarrow> bool" where
  "cert_binding_ok ed anchor_pub cert_wire addr pubkey now = (
     if length cert_wire \<noteq> 120 then False
     else
       let tbs = take 56 cert_wire; sig = drop 56 cert_wire
       in if slice 0 16 tbs \<noteq> to_bytes addr \<or> slice 16 48 tbs \<noteq> pubkey then False
          else if \<not> ed_key_ok ed anchor_pub then False
          else if \<not> ed_verify ed anchor_pub tbs sig then False
          else now \<le> from_be (slice 48 56 tbs))"

record verify_input =
  vi_local_addr :: ipv8_address
  vi_trace :: route_trace
  vi_head7 :: bytes
  vi_src_addr :: ipv8_address
  vi_dst_addr :: ipv8_address
  vi_current_hop_limit :: u8
  vi_cert_wire :: bytes
  vi_anchor_pub :: bytes
  vi_now :: u64

text \<open>The index of the first hop that is this node, \<open>position\<close>.\<close>

fun position_of :: "'a \<Rightarrow> 'a list \<Rightarrow> nat option" where
  "position_of x [] = None"
| "position_of x (y # ys) = (if y = x then Some 0 else map_option Suc (position_of x ys))"

definition verify_sig_input :: "verify_input \<Rightarrow> trace_sig_input" where
  "verify_sig_input v = \<lparr>ts_src_addr = vi_src_addr v, ts_dst_addr = vi_dst_addr v,
     ts_min_compat_ver = vi_head7 v ! 0 AND 0x0F, ts_flags = from_be [vi_head7 v ! 1, vi_head7 v ! 2],
     ts_payload_len = from_be [vi_head7 v ! 3, vi_head7 v ! 4],
     ts_init_hop_limit = rt_init_hop_limit (vi_trace v), ts_src_pubkey = rt_src_pubkey (vi_trace v),
     ts_hops = rt_hops (vi_trace v)\<rparr>"

definition verify_for_next_hop :: "ed25519 \<Rightarrow> verify_input \<Rightarrow> trace_error + route_decision" where
  "verify_for_next_hop ed v = (
     let trace = vi_trace v; msg = route_trace_message (verify_sig_input v)
     in if \<not> ed_key_ok ed (rt_src_pubkey trace) then Inl BadCertBinding
        else if \<not> ed_verify ed (rt_src_pubkey trace) msg (rt_path_sig trace) then Inl BadPathSig
        else if \<not> cert_binding_ok ed (vi_anchor_pub v) (vi_cert_wire v) (vi_src_addr v) (rt_src_pubkey trace) (vi_now v)
          then Inl BadCertBinding
        else case position_of (vi_local_addr v) (rt_hops trace) of
            None \<Rightarrow> Inl NotOnPath
          | Some k \<Rightarrow>
              if k > unat (rt_init_hop_limit trace)
                \<or> rt_init_hop_limit trace - of_nat k \<noteq> vi_current_hop_limit v then Inl NotOnPath
              else if k + 1 = length (rt_hops trace) then Inr Deliver
              else Inr (ForwardTo (rt_hops trace ! (k + 1)) (k + 1)))"

section \<open>Positions on the path\<close>

lemma position_of_Some: "position_of x xs = Some k \<Longrightarrow> k < length xs \<and> xs ! k = x"
proof (induction xs arbitrary: k)
  case (Cons y ys)
  then show ?case by (cases k) (auto split: if_splits)
qed simp

lemma position_of_distinct: "distinct xs \<Longrightarrow> k < length xs \<Longrightarrow> position_of (xs ! k) xs = Some k"
proof (induction xs arbitrary: k)
  case (Cons y ys)
  then show ?case by (cases k) auto
qed simp

lemma hop_budget: "k \<le> unat n \<Longrightarrow> n - of_nat k = (h :: u8) \<longleftrightarrow> unat n = unat h + k"
proof -
  assume k: "k \<le> unat n"
  then have "k < 256" using unsigned_less [of n, where 'a = nat] by simp
  then have "unat (of_nat k :: u8) = k" by (simp add: unat_of_nat take_bit_nat_eq_self)
  then have "unat (n - of_nat k) = unat n - k" using k by (simp add: unat_sub_if')
  then show ?thesis using k by (metis diff_add le_add_diff_inverse2 diff_add_inverse2 unsigned_word_eqI)
qed

lemma verify_for_next_hop_ok:
  assumes "verify_for_next_hop ed v = Inr d"
  obtains k where "ed_verify ed (rt_src_pubkey (vi_trace v)) (route_trace_message (verify_sig_input v)) (rt_path_sig (vi_trace v))"
    "cert_binding_ok ed (vi_anchor_pub v) (vi_cert_wire v) (vi_src_addr v) (rt_src_pubkey (vi_trace v)) (vi_now v)"
    "position_of (vi_local_addr v) (rt_hops (vi_trace v)) = Some k"
    "unat (rt_init_hop_limit (vi_trace v)) = unat (vi_current_hop_limit v) + k"
    "d = (if k + 1 = length (rt_hops (vi_trace v)) then Deliver else ForwardTo (rt_hops (vi_trace v) ! (k + 1)) (k + 1))"
  using assms by (auto simp: verify_for_next_hop_def Let_def not_less hop_budget split: if_splits option.splits)

lemma cert_binding_ok_tbs:
  assumes "cert_binding_ok ed anchor cert addr pk now" "length pk = 32"
  shows "\<exists>not_after. ed_verify ed anchor (to_bytes addr @ pk @ to_be64 not_after) (drop 56 cert) \<and> now \<le> not_after"
proof -
  let ?tbs = "take 56 cert"
  have c: "length cert = 120" "slice 0 16 ?tbs = to_bytes addr" "slice 16 48 ?tbs = pk"
    "ed_verify ed anchor ?tbs (drop 56 cert)" "now \<le> from_be (slice 48 56 ?tbs)"
    using assms(1) by (auto simp: cert_binding_ok_def Let_def split: if_splits)
  have "?tbs = slice 0 16 ?tbs @ slice 16 48 ?tbs @ slice 48 56 ?tbs"
    using c(1) by (simp add: slice_slices slice_full)
  also have "slice 48 56 ?tbs = to_be64 (from_be (slice 48 56 ?tbs))" using c(1) by (simp add: to_be_from_be)
  finally show ?thesis using c by (metis append_assoc)
qed

lemma low_nibble_or:
  assumes "a \<le> 15"
  shows "(push_bit 4 v OR a) AND 0x0F = (a :: u8)"
proof -
  have m: "(0x0F :: u8) = mask 4" by (simp add: mask_eq_exp_minus_1)
  show ?thesis unfolding m using assms by (auto intro!: bit_word_eqI simp: bit_simps dest: nibble_bits)
qed

section \<open>Properties\<close>

lemma trace_followed:
  assumes "ps_hops spec \<noteq> []" "length (ps_hops spec) \<le> 64" "last (ps_hops spec) = ps_dst_addr spec" "distinct (ps_hops spec)"
    and "k < length (ps_hops spec)" "k \<le> unat (ps_init_hop_limit spec)"
    and "ed_key_ok ed (ps_src_pubkey spec)" "\<forall>m. ed_verify ed (ps_src_pubkey spec) m (sign m)"
    and "cert_binding_ok ed anchor cert (ps_src_addr spec) (ps_src_pubkey spec) now"
    and "head7 = [push_bit 4 8 OR ps_min_compat_ver spec] @ to_be16 (ps_flags spec) @ to_be16 (ps_payload_len spec) @ [hl, 5]"
    and "ps_min_compat_ver spec \<le> 15" "hl = ps_init_hop_limit spec - of_nat k"
  shows "\<exists>t. build_route_trace spec sign = Inr t \<and> verify_for_next_hop ed
      \<lparr>vi_local_addr = ps_hops spec ! k, vi_trace = t, vi_head7 = head7, vi_src_addr = ps_src_addr spec,
       vi_dst_addr = ps_dst_addr spec, vi_current_hop_limit = hl, vi_cert_wire = cert, vi_anchor_pub = anchor, vi_now = now\<rparr>
      = Inr (if k + 1 = length (ps_hops spec) then Deliver else ForwardTo (ps_hops spec ! (k + 1)) (k + 1))"
proof -
  let ?i = "\<lparr>ts_src_addr = ps_src_addr spec, ts_dst_addr = ps_dst_addr spec,
             ts_min_compat_ver = ps_min_compat_ver spec, ts_flags = ps_flags spec,
             ts_payload_len = ps_payload_len spec, ts_init_hop_limit = ps_init_hop_limit spec,
             ts_src_pubkey = ps_src_pubkey spec, ts_hops = ps_hops spec\<rparr>"
  let ?t = "\<lparr>rt_src_pubkey = ps_src_pubkey spec, rt_path_sig = sign (route_trace_message ?i),
             rt_init_hop_limit = ps_init_hop_limit spec, rt_hops = ps_hops spec\<rparr>"
  let ?v = "\<lparr>vi_local_addr = ps_hops spec ! k, vi_trace = ?t, vi_head7 = head7, vi_src_addr = ps_src_addr spec,
       vi_dst_addr = ps_dst_addr spec, vi_current_hop_limit = hl, vi_cert_wire = cert, vi_anchor_pub = anchor, vi_now = now\<rparr>"
  have b: "build_route_trace spec sign = Inr ?t" using assms(1-3) by (simp add: build_route_trace_def)
  obtain f0 f1 where f: "to_be16 (ps_flags spec) = [f0, f1]" by (auto simp: to_be16_def numeral_2_eq_2)
  obtain p0 p1 where p: "to_be16 (ps_payload_len spec) = [p0, p1]" by (auto simp: to_be16_def numeral_2_eq_2)
  have "(push_bit 4 8 OR ps_min_compat_ver spec) AND 0x0F = ps_min_compat_ver spec"
    by (rule low_nibble_or [OF assms(11)])
  then have "verify_sig_input ?v = ?i"
    using f p from_be_to_be(1) [of "ps_flags spec"] from_be_to_be(1) [of "ps_payload_len spec"]
    by (simp add: verify_sig_input_def assms(10))
  then have "verify_for_next_hop ed ?v = Inr (if k + 1 = length (ps_hops spec) then Deliver else ForwardTo (ps_hops spec ! (k + 1)) (k + 1))"
    using assms(4-9,12) by (simp add: verify_for_next_hop_def position_of_distinct)
  with b show ?thesis by blast
qed

text \<open>
  A signed path is followed: the trace that the source builds is accepted by every node of the path
  when the hop limit has dropped by that node's position, and sends the packet to the next hop of the list, or
  delivers it at the last one.
\<close>

theorem route_trace_followed:
  assumes "ps_hops spec \<noteq> []" "length (ps_hops spec) \<le> 64" "last (ps_hops spec) = ps_dst_addr spec" "distinct (ps_hops spec)"
    and "k < length (ps_hops spec)" "k \<le> unat (ps_init_hop_limit spec)"
    and "ed_key_ok ed (ps_src_pubkey spec)" "\<forall>m. ed_verify ed (ps_src_pubkey spec) m (sign m)"
    and "cert_binding_ok ed anchor cert (ps_src_addr spec) (ps_src_pubkey spec) now"
    and "head7 = [push_bit 4 8 OR ps_min_compat_ver spec] @ to_be16 (ps_flags spec) @ to_be16 (ps_payload_len spec) @ [hl, 5]"
    and "ps_min_compat_ver spec \<le> 15" "hl = ps_init_hop_limit spec - of_nat k"
  shows "\<exists>t. build_route_trace spec sign = Inr t \<and> verify_for_next_hop ed
      \<lparr>vi_local_addr = ps_hops spec ! k, vi_trace = t, vi_head7 = head7, vi_src_addr = ps_src_addr spec,
       vi_dst_addr = ps_dst_addr spec, vi_current_hop_limit = hl, vi_cert_wire = cert, vi_anchor_pub = anchor, vi_now = now\<rparr>
      = Inr (if k + 1 = length (ps_hops spec) then Deliver else ForwardTo (ps_hops spec ! (k + 1)) (k + 1))"
  by (rule trace_followed [OF assms])

text \<open>
  A packet is routed only along a path that its source signed: when verification succeeds, the frozen
  header fields, the addresses and the whole hop list are one input that the source's key has signed, the trust
  anchor has signed the binding of the source address to that key with a date not yet passed, and the hop
  limit has dropped by exactly the position of this node.
\<close>

theorem route_trace_sound:
  assumes "verify_for_next_hop ed v = Inr d"
    and "length (rt_src_pubkey (vi_trace v)) = 32" "length (rt_hops (vi_trace v)) \<le> 64"
    and "\<forall>m s. ed_verify ed (rt_src_pubkey (vi_trace v)) m s \<longrightarrow> (\<exists>i \<in> issued. sig_input_wf i \<and> m = route_trace_message i)"
  shows "verify_sig_input v \<in> issued
    \<and> (\<exists>not_after sig. ed_verify ed (vi_anchor_pub v) (to_bytes (vi_src_addr v) @ rt_src_pubkey (vi_trace v) @ to_be64 not_after) sig
         \<and> vi_now v \<le> not_after)
    \<and> (\<exists>k < length (rt_hops (vi_trace v)). rt_hops (vi_trace v) ! k = vi_local_addr v
         \<and> unat (rt_init_hop_limit (vi_trace v)) = unat (vi_current_hop_limit v) + k)"
proof -
  obtain k where s: "ed_verify ed (rt_src_pubkey (vi_trace v)) (route_trace_message (verify_sig_input v)) (rt_path_sig (vi_trace v))"
    and c: "cert_binding_ok ed (vi_anchor_pub v) (vi_cert_wire v) (vi_src_addr v) (rt_src_pubkey (vi_trace v)) (vi_now v)"
    and k: "position_of (vi_local_addr v) (rt_hops (vi_trace v)) = Some k"
      "unat (rt_init_hop_limit (vi_trace v)) = unat (vi_current_hop_limit v) + k"
    by (rule verify_for_next_hop_ok [OF assms(1)])
  have "vi_head7 v ! 0 AND 0x0F \<le> 15" by (rule word_and_le1)
  then have wf: "sig_input_wf (verify_sig_input v)" using assms(2,3) by (simp add: sig_input_wf_def verify_sig_input_def)
  obtain i where "i \<in> issued" "sig_input_wf i" "route_trace_message (verify_sig_input v) = route_trace_message i"
    using assms(4) s by blast
  with wf have "verify_sig_input v \<in> issued" using route_trace_message_inject by blast
  then show ?thesis using cert_binding_ok_tbs [OF c assms(2)] position_of_Some [OF k(1)] k(2) by blast
qed

text \<open>
  A hop limit belongs to one node: two nodes that accept the same trace at the same hop limit are the
  same node, so a packet cannot be taken over by another node of the path out of turn.
\<close>

theorem route_trace_one_taker:
  assumes "verify_for_next_hop ed v = Inr d" "verify_for_next_hop ed (v\<lparr>vi_local_addr := a\<rparr>) = Inr d'"
  shows "a = vi_local_addr v \<and> d' = d"
proof -
  obtain k where k: "position_of (vi_local_addr v) (rt_hops (vi_trace v)) = Some k"
    "unat (rt_init_hop_limit (vi_trace v)) = unat (vi_current_hop_limit v) + k"
    by (rule verify_for_next_hop_ok [OF assms(1)])
  obtain j where j: "position_of a (rt_hops (vi_trace v)) = Some j"
    "unat (rt_init_hop_limit (vi_trace v)) = unat (vi_current_hop_limit v) + j"
    using verify_for_next_hop_ok [OF assms(2)] by auto
  have "a = vi_local_addr v" using k j position_of_Some [OF k(1)] position_of_Some [OF j(1)] by simp
  moreover then have "v\<lparr>vi_local_addr := a\<rparr> = v" by simp
  ultimately show ?thesis using assms by simp
qed

text \<open>A scheme for the concrete instances: one message verifies under each key.\<close>

definition toy_ed :: ed25519 where
  "toy_ed = \<lparr>ed_public = \<lambda>seed. replicate 32 7, ed_sign = \<lambda>seed m. replicate 64 9, ed_key_ok = \<lambda>k. True,
     ed_verify = \<lambda>k m s. True\<rparr>"

definition toy_spec :: path_spec where
  "toy_spec = \<lparr>ps_src_addr = addr_with_region 1 1 0 2 0, ps_dst_addr = addr_with_region 3 1 0 3 0, ps_min_compat_ver = 0,
     ps_flags = 0x50, ps_payload_len = 100, ps_init_hop_limit = 64,
     ps_hops = [addr_with_region 2 1 0 3 0, addr_with_region 3 1 0 3 0], ps_src_pubkey = replicate 32 7\<rparr>"

definition toy_cert :: bytes where
  "toy_cert = to_bytes (addr_with_region 1 1 0 2 0) @ replicate 32 7 @ to_be64 (- 1) @ replicate 64 1"

lemma toy_cert_ok: "cert_binding_ok toy_ed anchor toy_cert (ps_src_addr toy_spec) (ps_src_pubkey toy_spec) now"
  by (simp add: cert_binding_ok_def toy_cert_def toy_spec_def toy_ed_def slice_append_left slice_append_skip slice_full Let_def)

lemma toy_addrs: "addr_with_region 2 1 0 3 0 \<noteq> addr_with_region 3 1 0 3 0"
  by (simp add: addr_with_region_def addr_new_def)

lemma route_trace_followed_witness:
  "\<exists>t. build_route_trace toy_spec (\<lambda>m. []) = Inr t \<and> verify_for_next_hop toy_ed
      \<lparr>vi_local_addr = ps_hops toy_spec ! 0, vi_trace = t, vi_head7 = [push_bit 4 8 OR 0] @ to_be16 0x50 @ to_be16 100 @ [64, 5],
       vi_src_addr = ps_src_addr toy_spec, vi_dst_addr = ps_dst_addr toy_spec, vi_current_hop_limit = 64,
       vi_cert_wire = toy_cert, vi_anchor_pub = [], vi_now = 5\<rparr>
      = Inr (if 0 + 1 = length (ps_hops toy_spec) then Deliver else ForwardTo (ps_hops toy_spec ! (0 + 1)) (0 + 1))"
  by (rule route_trace_followed [OF _ _ _ _ _ _ _ _ toy_cert_ok])
     (use toy_addrs in \<open>simp_all add: toy_spec_def toy_ed_def\<close>)

text \<open>A scheme where the key of the source has signed one path only.\<close>

definition toy_input :: trace_sig_input where
  "toy_input = \<lparr>ts_src_addr = addr_with_region 1 1 0 2 0, ts_dst_addr = addr_with_region 3 1 0 3 0, ts_min_compat_ver = 0,
     ts_flags = 0x50, ts_payload_len = 100, ts_init_hop_limit = 64, ts_src_pubkey = replicate 32 7,
     ts_hops = [addr_with_region 2 1 0 3 0, addr_with_region 3 1 0 3 0]\<rparr>"

definition strict_ed :: ed25519 where
  "strict_ed = toy_ed\<lparr>ed_verify := \<lambda>k m s. k = [] \<or> m = route_trace_message toy_input\<rparr>"

definition toy_verify :: verify_input where
  "toy_verify = \<lparr>vi_local_addr = addr_with_region 3 1 0 3 0,
     vi_trace = \<lparr>rt_src_pubkey = replicate 32 7, rt_path_sig = [], rt_init_hop_limit = 64,
       rt_hops = [addr_with_region 2 1 0 3 0, addr_with_region 3 1 0 3 0]\<rparr>,
     vi_head7 = [0x80, 0, 0x50, 0, 100, 63, 5], vi_src_addr = addr_with_region 1 1 0 2 0, vi_dst_addr = addr_with_region 3 1 0 3 0,
     vi_current_hop_limit = 63, vi_cert_wire = toy_cert, vi_anchor_pub = [], vi_now = 5\<rparr>"

lemma toy_verify_ok: "verify_for_next_hop strict_ed toy_verify = Inr Deliver" "verify_sig_input toy_verify = toy_input"
proof -
  show i: "verify_sig_input toy_verify = toy_input" by (simp add: verify_sig_input_def toy_verify_def toy_input_def)
  have "cert_binding_ok strict_ed [] toy_cert (addr_with_region 1 1 0 2 0) (replicate 32 7) 5"
    by (simp add: cert_binding_ok_def toy_cert_def strict_ed_def toy_ed_def slice_append_left slice_append_skip slice_full Let_def)
  then show "verify_for_next_hop strict_ed toy_verify = Inr Deliver"
    unfolding verify_for_next_hop_def Let_def i
    by (simp add: toy_verify_def strict_ed_def toy_ed_def toy_addrs)
qed

lemma route_trace_sound_witness:
  "toy_input \<in> {toy_input}
    \<and> (\<exists>not_after sig. ed_verify strict_ed [] (to_bytes (addr_with_region 1 1 0 2 0) @ replicate 32 7 @ to_be64 not_after) sig
         \<and> 5 \<le> not_after)"
proof -
  have "sig_input_wf toy_input" by (simp add: sig_input_wf_def toy_input_def)
  then have "\<forall>m s. ed_verify strict_ed (rt_src_pubkey (vi_trace toy_verify)) m s \<longrightarrow>
      (\<exists>i \<in> {toy_input}. sig_input_wf i \<and> m = route_trace_message i)"
    by (simp add: strict_ed_def toy_verify_def)
  from route_trace_sound [OF toy_verify_ok(1) _ _ this] show ?thesis
    by (simp add: toy_verify_ok(2)) (simp add: toy_verify_def)
qed

lemma route_trace_one_taker_witness:
  "\<exists>v d. verify_for_next_hop strict_ed v = Inr d \<and> vi_local_addr v = addr_with_region 3 1 0 3 0"
proof -
  have "verify_for_next_hop strict_ed (toy_verify\<lparr>vi_local_addr := addr_with_region 3 1 0 3 0\<rparr>) = Inr Deliver"
    using toy_verify_ok(1) by (simp add: toy_verify_def)
  from route_trace_one_taker [OF toy_verify_ok(1) this] toy_verify_ok(1) show ?thesis by metis
qed

end
