(* ===== verification/TunnelAuth.thy ===== *)
theory TunnelAuth
  imports TunnelFrame RouteTrace
begin

text \<open>
  The certificate-authenticated handshake, \<open>ipv8-tunnel/src/auth.rs\<close>: certificates, the trust
  anchor, proof-of-possession messages, and the two signed handshake messages. Ed25519 and X25519 are
  parameters, random ephemeral secrets are arguments, the clock is the \<open>now\<close> of the code.
\<close>

section \<open>Certificates\<close>

definition AUTH_DOMAIN :: bytes where "AUTH_DOMAIN = map of_char ''ipv8plus-handshake/v2''"
definition AUTH_BUNDLE_LEN :: nat where [const_defs]: "AUTH_BUNDLE_LEN = 32 + 32 + 16 + 8 + 64 + 64"
definition NO_EXPIRY :: u64 where [const_defs]: "NO_EXPIRY = - 1"

datatype auth_error =
    BadBundleLen
  | BadCertSignature
  | Expired u64 u64
  | BadVerifyKey
  | BadHandshakeSignature
  | PeerMismatch ipv8_address ipv8_address
  | BadAddress

record cert =
  cert_addr :: ipv8_address
  cert_verify_key :: bytes
  cert_not_after :: u64
  cert_ca_sig :: bytes

definition cert_tbs :: "cert \<Rightarrow> bytes" where
  "cert_tbs c = to_bytes (cert_addr c) @ cert_verify_key c @ to_be64 (cert_not_after c)"

definition cert_to_wire :: "cert \<Rightarrow> bytes" where
  "cert_to_wire c = cert_tbs c @ cert_ca_sig c"

text \<open>\<open>CertAuthority\<close>: the seed of its signing key.\<close>

definition issue_cert :: "ed25519 \<Rightarrow> bytes \<Rightarrow> ipv8_address \<Rightarrow> bytes \<Rightarrow> u64 \<Rightarrow> cert" where
  "issue_cert ed ca_seed addr verify_key not_after = (
     let c = \<lparr>cert_addr = addr, cert_verify_key = verify_key, cert_not_after = not_after, cert_ca_sig = replicate 64 0\<rparr>
     in c\<lparr>cert_ca_sig := ed_sign ed ca_seed (cert_tbs c)\<rparr>)"

definition trust_anchor_from_bytes :: "ed25519 \<Rightarrow> bytes \<Rightarrow> auth_error + bytes" where
  "trust_anchor_from_bytes ed b = (if ed_key_ok ed b then Inr b else Inl BadVerifyKey)"

definition anchor_verify :: "ed25519 \<Rightarrow> bytes \<Rightarrow> cert \<Rightarrow> u64 \<Rightarrow> auth_error + unit" where
  "anchor_verify ed ca_pub c now = (
     if \<not> ed_verify ed ca_pub (cert_tbs c) (cert_ca_sig c) then Inl BadCertSignature
     else if now > cert_not_after c then Inl (Expired (cert_not_after c) now)
     else Inr ())"

record host_identity =
  hi_addr :: ipv8_address
  hi_seed :: bytes
  hi_cert :: cert

definition public_ed_key :: "ed25519 \<Rightarrow> host_identity \<Rightarrow> bytes" where
  "public_ed_key ed h = ed_public ed (hi_seed h)"

definition host_sign :: "ed25519 \<Rightarrow> host_identity \<Rightarrow> bytes \<Rightarrow> bytes" where
  "host_sign ed h msg = ed_sign ed (hi_seed h) msg"

definition host_with_cert :: "ipv8_address \<Rightarrow> bytes \<Rightarrow> cert \<Rightarrow> host_identity" where
  "host_with_cert addr ed_seed c = \<lparr>hi_addr = addr, hi_seed = ed_seed, hi_cert = c\<rparr>"

definition verify_key_from_seed :: "ed25519 \<Rightarrow> bytes \<Rightarrow> bytes" where
  "verify_key_from_seed ed ed_seed = ed_public ed ed_seed"

definition REGISTER_DOMAIN :: bytes where "REGISTER_DOMAIN = map of_char ''ipv8plus-register''"
definition ROTATE_DOMAIN :: bytes where "ROTATE_DOMAIN = map of_char ''ipv8plus-rotate''"

definition pop_message :: "bytes \<Rightarrow> bytes \<Rightarrow> bytes \<Rightarrow> bytes" where
  "pop_message domain_tag addr_text ed_pub = domain_tag @ addr_text @ ed_pub"

definition register_pop_message :: "bytes \<Rightarrow> bytes \<Rightarrow> bytes" where
  "register_pop_message addr_text ed_pub = pop_message REGISTER_DOMAIN addr_text ed_pub"

definition rotate_pop_message :: "bytes \<Rightarrow> bytes \<Rightarrow> bytes" where
  "rotate_pop_message addr_text new_ed_pub = pop_message ROTATE_DOMAIN addr_text new_ed_pub"

definition pop_sign :: "ed25519 \<Rightarrow> bytes \<Rightarrow> bytes \<Rightarrow> bytes" where
  "pop_sign ed ed_seed msg = ed_sign ed ed_seed msg"

definition provision :: "ed25519 \<Rightarrow> bytes \<Rightarrow> ipv8_address \<Rightarrow> bytes \<Rightarrow> u64 \<Rightarrow> host_identity" where
  "provision ed ca_seed addr ed_seed not_after =
     \<lparr>hi_addr = addr, hi_seed = ed_seed, hi_cert = issue_cert ed ca_seed addr (ed_public ed ed_seed) not_after\<rparr>"

section \<open>The signed messages\<close>

definition pack_bundle :: "bytes \<Rightarrow> bytes \<Rightarrow> ipv8_address \<Rightarrow> u64 \<Rightarrow> bytes \<Rightarrow> bytes \<Rightarrow> bytes" where
  "pack_bundle eph edk addr not_after ca_sig hs_sig =
     eph @ edk @ to_bytes addr @ to_be64 not_after @ ca_sig @ hs_sig"

record auth_bundle =
  ab_eph :: bytes
  ab_ed :: bytes
  ab_addr :: ipv8_address
  ab_not_after :: u64
  ab_ca_sig :: bytes
  ab_hs_sig :: bytes

definition unpack_bundle :: "bytes \<Rightarrow> auth_error + auth_bundle" where
  "unpack_bundle b = (
     if length b \<noteq> AUTH_BUNDLE_LEN then Inl BadBundleLen
     else case from_canonical_str (concat (map hex_byte (slice 64 80 b))) of
         Inl _ \<Rightarrow> Inl BadAddress
       | Inr addr \<Rightarrow> Inr \<lparr>ab_eph = slice 0 32 b, ab_ed = slice 32 64 b, ab_addr = addr,
           ab_not_after = from_be (slice 80 88 b), ab_ca_sig = slice 88 152 b, ab_hs_sig = slice 152 216 b\<rparr>)"

definition transcript :: "u8 \<Rightarrow> bytes \<Rightarrow> bytes \<Rightarrow> ipv8_address \<Rightarrow> u64 \<Rightarrow> bytes \<Rightarrow> bytes" where
  "transcript role eph_self ed_self addr_self not_after_self eph_peer =
     AUTH_DOMAIN @ [role] @ eph_self @ ed_self @ to_bytes addr_self @ to_be64 not_after_self @ eph_peer"

definition verify_strict :: "ed25519 \<Rightarrow> bytes \<Rightarrow> bytes \<Rightarrow> bytes \<Rightarrow> auth_error + unit" where
  "verify_strict ed edk msg sig = (
     if \<not> ed_key_ok ed edk then Inl BadVerifyKey
     else if \<not> ed_verify ed edk msg sig then Inl BadHandshakeSignature
     else Inr ())"

definition ROLE_I :: u8 where "ROLE_I = of_char (CHR ''I'')"
definition ROLE_R :: u8 where "ROLE_R = of_char (CHR ''R'')"

record auth_pending =
  ap_eph :: bytes
  ap_eph_pub :: bytes

definition auth_init :: "ed25519 \<Rightarrow> x25519 \<Rightarrow> bytes \<Rightarrow> host_identity \<Rightarrow> bytes \<times> auth_pending" where
  "auth_init ed x eph host = (
     let eph_pub = x_public x eph;
         edk = public_ed_key ed host;
         ts = transcript ROLE_I eph_pub edk (hi_addr host) (cert_not_after (hi_cert host)) (replicate 32 0);
         hs_sig = ed_sign ed (hi_seed host) ts
     in (pack_bundle eph_pub edk (hi_addr host) (cert_not_after (hi_cert host)) (cert_ca_sig (hi_cert host)) hs_sig,
         \<lparr>ap_eph = eph, ap_eph_pub = eph_pub\<rparr>))"

text \<open>The three checks that both sides make: certificate, expected peer, transcript signature.\<close>

definition check_bundle ::
  "ed25519 \<Rightarrow> bytes \<Rightarrow> u8 \<Rightarrow> bytes \<Rightarrow> ipv8_address option \<Rightarrow> bytes \<Rightarrow> u64 \<Rightarrow> auth_error + auth_bundle" where
  "check_bundle ed trust role eph_peer expected_peer bundle now = (
     case unpack_bundle bundle of
       Inl e \<Rightarrow> Inl e
     | Inr b \<Rightarrow>
         let c = \<lparr>cert_addr = ab_addr b, cert_verify_key = ab_ed b, cert_not_after = ab_not_after b, cert_ca_sig = ab_ca_sig b\<rparr>
         in case anchor_verify ed trust c now of
              Inl e \<Rightarrow> Inl e
            | Inr _ \<Rightarrow>
                if expected_peer \<noteq> None \<and> ab_addr b \<noteq> the expected_peer
                then Inl (PeerMismatch (the expected_peer) (ab_addr b))
                else case verify_strict ed (ab_ed b)
                    (transcript role (ab_eph b) (ab_ed b) (ab_addr b) (ab_not_after b) eph_peer) (ab_hs_sig b) of
                  Inl e \<Rightarrow> Inl e
                | Inr _ \<Rightarrow> Inr b)"

definition auth_accept ::
  "ed25519 \<Rightarrow> x25519 \<Rightarrow> bytes \<Rightarrow> nat \<Rightarrow> host_identity \<Rightarrow> bytes \<Rightarrow> bytes \<Rightarrow> ipv8_address option \<Rightarrow> u64 \<Rightarrow>
   auth_error + (bytes \<times> tunnel_keys)" where
  "auth_accept ed x eph_r t host trust init_bundle expected_peer now = (
     case check_bundle ed trust ROLE_I (replicate 32 0) expected_peer init_bundle now of
       Inl e \<Rightarrow> Inl e
     | Inr b \<Rightarrow>
         let eph_r_pub = x_public x eph_r;
             ed_r = public_ed_key ed host;
             ts_r = transcript ROLE_R eph_r_pub ed_r (hi_addr host) (cert_not_after (hi_cert host)) (ab_eph b);
             hs_sig_r = ed_sign ed (hi_seed host) ts_r;
             resp = pack_bundle eph_r_pub ed_r (hi_addr host) (cert_not_after (hi_cert host)) (cert_ca_sig (hi_cert host)) hs_sig_r;
             shared = x_dh x eph_r (ab_eph b)
         in Inr (resp, keys_new t shared False))"

definition auth_finish_init ::
  "ed25519 \<Rightarrow> x25519 \<Rightarrow> nat \<Rightarrow> auth_pending \<Rightarrow> bytes \<Rightarrow> ipv8_address option \<Rightarrow> bytes \<Rightarrow> u64 \<Rightarrow> auth_error + tunnel_keys" where
  "auth_finish_init ed x t pending trust expected_peer resp_bundle now = (
     case check_bundle ed trust ROLE_R (ap_eph_pub pending) expected_peer resp_bundle now of
       Inl e \<Rightarrow> Inl e
     | Inr b \<Rightarrow> Inr (keys_new t (x_dh x (ap_eph pending) (ab_eph b)) True))"

section \<open>Bundles and transcripts\<close>

lemma unpack_pack_bundle:
  assumes "length eph = 32" "length edk = 32" "length ca = 64" "length hs = 64" "addr_protocol addr = PROTOCOL_MAGIC"
  shows "unpack_bundle (pack_bundle eph edk addr na ca hs) = Inr \<lparr>ab_eph = eph, ab_ed = edk, ab_addr = addr,
     ab_not_after = na, ab_ca_sig = ca, ab_hs_sig = hs\<rparr>"
proof -
  let ?b = "pack_bundle eph edk addr na ca hs"
  have f: "slice 0 32 ?b = eph" "slice 32 64 ?b = edk" "slice 64 80 ?b = to_bytes addr" "slice 80 88 ?b = to_be64 na"
    "slice 88 152 ?b = ca" "slice 152 216 ?b = hs" "length ?b = 216"
    using assms by (simp_all add: pack_bundle_def slice_append_left slice_append_skip slice_full)
  show ?thesis
    unfolding unpack_bundle_def f from_be_to_be using assms(5) by (simp add: from_canonical_hex_bytes AUTH_BUNDLE_LEN_def)
qed

lemma unpack_bundle_lengths:
  "unpack_bundle b = Inr ab \<Longrightarrow> length (ab_eph ab) = 32 \<and> length (ab_ed ab) = 32 \<and> length b = 216"
  by (auto simp: unpack_bundle_def AUTH_BUNDLE_LEN_def split: if_splits sum.splits)

lemma cert_tbs_inject:
  "length (cert_verify_key c) = 32 \<Longrightarrow> length (cert_verify_key d) = 32 \<Longrightarrow> cert_tbs c = cert_tbs d \<longleftrightarrow>
   cert_addr c = cert_addr d \<and> cert_verify_key c = cert_verify_key d \<and> cert_not_after c = cert_not_after d"
  by (simp add: cert_tbs_def)

lemma transcript_inject:
  assumes "length e = 32" "length e' = 32" "length k = 32" "length k' = 32"
  shows "transcript r e k a n q = transcript r' e' k' a' n' q' \<longleftrightarrow>
    r = r' \<and> e = e' \<and> k = k' \<and> a = a' \<and> n = n' \<and> q = q'"
  using assms by (auto simp: transcript_def append_eq_append_conv)

lemma roles_distinct [simp]: "ROLE_I \<noteq> ROLE_R" "ROLE_R \<noteq> ROLE_I"
  by (simp_all add: ROLE_I_def ROLE_R_def)

lemma check_bundle_ok:
  assumes "check_bundle ed trust role eph_peer expected bundle now = Inr b"
  shows "unpack_bundle bundle = Inr b"
    "ed_verify ed trust (cert_tbs \<lparr>cert_addr = ab_addr b, cert_verify_key = ab_ed b, cert_not_after = ab_not_after b, cert_ca_sig = ab_ca_sig b\<rparr>) (ab_ca_sig b)"
    "now \<le> ab_not_after b" "expected = None \<or> expected = Some (ab_addr b)"
    "ed_verify ed (ab_ed b) (transcript role (ab_eph b) (ab_ed b) (ab_addr b) (ab_not_after b) eph_peer) (ab_hs_sig b)"
  using assms by (cases expected; auto simp: check_bundle_def anchor_verify_def verify_strict_def Let_def not_less split: sum.splits if_splits)+

section \<open>An honest handshake\<close>

text \<open>Documented behaviour of Ed25519: signatures verify under the key of their seed; sizes are fixed.\<close>

definition ed25519_ok :: "ed25519 \<Rightarrow> bool" where
  "ed25519_ok ed \<longleftrightarrow> (\<forall>seed m. ed_verify ed (ed_public ed seed) m (ed_sign ed seed m) \<and> ed_key_ok ed (ed_public ed seed)
     \<and> length (ed_public ed seed) = 32 \<and> length (ed_sign ed seed m) = 64)"

definition certified :: "ed25519 \<Rightarrow> bytes \<Rightarrow> host_identity \<Rightarrow> bool" where
  "certified ed ca_seed h \<longleftrightarrow> addr_protocol (hi_addr h) = PROTOCOL_MAGIC
     \<and> (\<exists>not_after. hi_cert h = issue_cert ed ca_seed (hi_addr h) (public_ed_key ed h) not_after)"

lemma honest_bundle_checks:
  assumes "ed25519_ok ed" "certified ed ca_seed h" "length eph_pub = 32" "now \<le> cert_not_after (hi_cert h)"
    and "expected = None \<or> expected = Some (hi_addr h)"
  shows "\<exists>hs. check_bundle ed (ed_public ed ca_seed) role peer expected
      (pack_bundle eph_pub (public_ed_key ed h) (hi_addr h) (cert_not_after (hi_cert h)) (cert_ca_sig (hi_cert h))
        (ed_sign ed (hi_seed h) (transcript role eph_pub (public_ed_key ed h) (hi_addr h) (cert_not_after (hi_cert h)) peer))) now
    = Inr \<lparr>ab_eph = eph_pub, ab_ed = public_ed_key ed h, ab_addr = hi_addr h, ab_not_after = cert_not_after (hi_cert h),
        ab_ca_sig = cert_ca_sig (hi_cert h), ab_hs_sig = hs\<rparr>"
proof -
  obtain na where c: "hi_cert h = issue_cert ed ca_seed (hi_addr h) (public_ed_key ed h) na" and p: "addr_protocol (hi_addr h) = PROTOCOL_MAGIC"
    using assms(2) by (auto simp: certified_def)
  note ok = assms(1) [unfolded ed25519_ok_def, rule_format]
  have len: "length (public_ed_key ed h) = 32" "length (cert_ca_sig (hi_cert h)) = 64" "cert_not_after (hi_cert h) = na"
    using ok by (simp_all add: public_ed_key_def c issue_cert_def)
  have tbs: "ed_verify ed (ed_public ed ca_seed) (cert_tbs \<lparr>cert_addr = hi_addr h, cert_verify_key = public_ed_key ed h, cert_not_after = na,
      cert_ca_sig = cert_ca_sig (hi_cert h)\<rparr>) (cert_ca_sig (hi_cert h))"
    using ok by (simp add: c issue_cert_def cert_tbs_def)
  show ?thesis
    using assms(3-5) ok tbs unfolding check_bundle_def
    by (subst unpack_pack_bundle) (auto simp: len p anchor_verify_def verify_strict_def Let_def public_ed_key_def)
qed

lemma honest_handshake:
  assumes "ed25519_ok ed" "x25519_ok x" "certified ed ca_seed ha" "certified ed ca_seed hb"
    and "now \<le> cert_not_after (hi_cert ha)" "now' \<le> cert_not_after (hi_cert hb)"
    and "auth_init ed x ea ha = (init, pending)"
  shows "\<exists>resp ka kb. auth_accept ed x eb t hb (ed_public ed ca_seed) init (Some (hi_addr ha)) now = Inr (resp, kb)
    \<and> auth_finish_init ed x t' pending (ed_public ed ca_seed) (Some (hi_addr hb)) resp now' = Inr ka
    \<and> tk_dh ka = tk_dh kb \<and> tk_is_initiator ka \<and> \<not> tk_is_initiator kb"
proof -
  have pend: "pending = \<lparr>ap_eph = ea, ap_eph_pub = x_public x ea\<rparr>" using assms(7) by (auto simp: auth_init_def Let_def)
  have len: "length (x_public x e) = 32" for e using assms(2) by (simp add: x25519_ok_def)
  obtain hs where a: "check_bundle ed (ed_public ed ca_seed) ROLE_I (replicate 32 0) (Some (hi_addr ha)) init now =
      Inr \<lparr>ab_eph = x_public x ea, ab_ed = public_ed_key ed ha, ab_addr = hi_addr ha, ab_not_after = cert_not_after (hi_cert ha),
        ab_ca_sig = cert_ca_sig (hi_cert ha), ab_hs_sig = hs\<rparr>"
    using honest_bundle_checks [OF assms(1,3) len [of ea] assms(5), of "Some (hi_addr ha)" ROLE_I "replicate 32 0"] assms(7)
    by (auto simp: auth_init_def Let_def)
  define resp where "resp = pack_bundle (x_public x eb) (public_ed_key ed hb) (hi_addr hb) (cert_not_after (hi_cert hb)) (cert_ca_sig (hi_cert hb))
        (ed_sign ed (hi_seed hb) (transcript ROLE_R (x_public x eb) (public_ed_key ed hb) (hi_addr hb) (cert_not_after (hi_cert hb)) (x_public x ea)))"
  have acc: "auth_accept ed x eb t hb (ed_public ed ca_seed) init (Some (hi_addr ha)) now = Inr (resp, keys_new t (x_dh x eb (x_public x ea)) False)"
    by (simp add: auth_accept_def a Let_def resp_def)
  obtain hs' where b: "check_bundle ed (ed_public ed ca_seed) ROLE_R (x_public x ea) (Some (hi_addr hb)) resp now' =
      Inr \<lparr>ab_eph = x_public x eb, ab_ed = public_ed_key ed hb, ab_addr = hi_addr hb, ab_not_after = cert_not_after (hi_cert hb),
        ab_ca_sig = cert_ca_sig (hi_cert hb), ab_hs_sig = hs'\<rparr>"
    using honest_bundle_checks [OF assms(1,4) len [of eb] assms(6), of "Some (hi_addr hb)" ROLE_R "x_public x ea"]
    by (auto simp: resp_def)
  have fin: "auth_finish_init ed x t' pending (ed_public ed ca_seed) (Some (hi_addr hb)) resp now' = Inr (keys_new t' (x_dh x ea (x_public x eb)) True)"
    by (simp add: auth_finish_init_def b pend)
  have "x_dh x ea (x_public x eb) = x_dh x eb (x_public x ea)" using assms(2) by (simp add: x25519_ok_def)
  then show ?thesis using acc fin by (simp add: keys_new_def)
qed

text \<open>
  C10. The authenticated handshake agrees: two hosts with unexpired certificates of one CA that expect each
  other both accept, and end with key states of the same secret and opposite roles.
\<close>

theorem auth_handshake_agrees:
  assumes "ed25519_ok ed" "x25519_ok x" "certified ed ca_seed ha" "certified ed ca_seed hb"
    and "now \<le> cert_not_after (hi_cert ha)" "now' \<le> cert_not_after (hi_cert hb)"
    and "auth_init ed x ea ha = (init, pending)"
  shows "\<exists>resp ka kb. auth_accept ed x eb t hb (ed_public ed ca_seed) init (Some (hi_addr ha)) now = Inr (resp, kb)
    \<and> auth_finish_init ed x t' pending (ed_public ed ca_seed) (Some (hi_addr hb)) resp now' = Inr ka
    \<and> tk_dh ka = tk_dh kb \<and> tk_is_initiator ka \<and> \<not> tk_is_initiator kb"
  by (rule honest_handshake [OF assms])

section \<open>Proofs of possession\<close>

text \<open>
  Proof-of-possession messages cannot be moved: a message determines the address and the key that
  it is about, and a registration is never a rotation.
\<close>

theorem pop_messages_distinct:
  assumes "length k = 32" "length k' = 32"
  shows "(register_pop_message a k = register_pop_message a' k' \<longleftrightarrow> a = a' \<and> k = k')
    \<and> (rotate_pop_message a k = rotate_pop_message a' k' \<longleftrightarrow> a = a' \<and> k = k')
    \<and> register_pop_message a k \<noteq> rotate_pop_message a' k'"
proof -
  have "register_pop_message a k ! 10 \<noteq> rotate_pop_message a' k' ! 10"
    by (simp add: register_pop_message_def rotate_pop_message_def pop_message_def REGISTER_DOMAIN_def ROTATE_DOMAIN_def)
  then show ?thesis
    using assms by (auto simp: register_pop_message_def rotate_pop_message_def pop_message_def append_eq_append_conv)
qed

lemma pop_messages_distinct_witness:
  "register_pop_message [1] (replicate 32 2) \<noteq> rotate_pop_message [1] (replicate 32 2)"
  using pop_messages_distinct [of "replicate 32 2" "replicate 32 2" "[1]" "[1]"] by simp

section \<open>Concrete instances\<close>

lemma toy_ed_ok: "ed25519_ok toy_ed"
  by (simp add: ed25519_ok_def toy_ed_def)

definition toy_host :: "nat \<Rightarrow> host_identity" where
  "toy_host n = provision toy_ed [9] (addr_with_region (of_nat n) 1 0 2 0) [of_nat n] 100"

lemma toy_host_certified: "certified toy_ed [9] (toy_host n)" "cert_not_after (hi_cert (toy_host n)) = 100"
  by (auto simp: certified_def toy_host_def provision_def public_ed_key_def issue_cert_def addr_with_region_def addr_new_def const_defs)

lemma auth_handshake_agrees_witness:
  "\<exists>init pending resp ka kb. auth_init toy_ed toy_x25519 [1] (toy_host 1) = (init, pending)
    \<and> auth_accept toy_ed toy_x25519 [2] 0 (toy_host 2) (ed_public toy_ed [9]) init (Some (hi_addr (toy_host 1))) 5 = Inr (resp, kb)
    \<and> auth_finish_init toy_ed toy_x25519 0 pending (ed_public toy_ed [9]) (Some (hi_addr (toy_host 2))) resp 6 = Inr ka
    \<and> tk_dh ka = tk_dh kb"
proof -
  obtain i p where c: "auth_init toy_ed toy_x25519 [1] (toy_host 1) = (i, p)" by (metis surj_pair)
  from auth_handshake_agrees [OF toy_ed_ok toy_x25519_ok toy_host_certified(1) toy_host_certified(1) _ _ c,
      of 5 6 2 "[2]" 0 0] c toy_host_certified(2)
  show ?thesis by fastforce
qed

end
