(* ===== verification/TunnelEngine.thy ===== *)
theory TunnelEngine
  imports TunnelAuth CodecFragment
begin

text \<open>
  The engine of one tunnel, \<open>ipv8-tunnel/src/engine.rs\<close>: the handshake state machine, the data path
  with fragmentation, and multi-hop forwarding. The external cryptography is one parameter; the random ephemeral
  secret and the monotonic time of a step are arguments. The monotone counters are \<open>nat\<close> (they
  cannot reach \<open>2^64\<close>). An operation whose \<open>assert\<close> or \<open>expect\<close> can fail returns an outcome.
\<close>

section \<open>State\<close>

record engine_env =
  ev_crypto :: crypto
  ev_ed :: ed25519
  ev_x :: x25519

datatype tunnel_state = Idle | Initiating | Responding | Established

datatype engine_error = NotEstablished | NeedsFragmentation nat | Engine_Frame frame_error

record engine =
  en_identity :: "identity option"
  en_auth :: "(host_identity \<times> bytes) option"
  en_state :: tunnel_state
  en_pending :: "pending_handshake option"
  en_auth_pending :: "auth_pending option"
  en_keys :: "tunnel_keys option"
  en_suite :: cipher_suite
  en_local :: ipv8_address
  en_peer :: ipv8_address
  en_delivered :: "bytes option"
  en_bound_init :: "bytes option"
  en_cached_resp :: "bytes option"
  en_last_auth_error :: "auth_error option"
  en_mtu :: nat
  en_frag_id :: u32
  en_reasm :: reassembler
  en_sealed_outbound :: nat
  en_delivered_inbound :: nat
  en_dropped_inbound :: nat
  en_fragments_sent :: nat
  en_fragments_reassembled :: nat
  en_fwd :: "bytes option"
  en_forward_out :: "(ipv8_address \<times> bytes) list"
  en_forwarded :: nat
  en_fwd_rejected :: nat
  en_sharded :: bool

definition engine_new :: "identity \<Rightarrow> ipv8_address \<Rightarrow> ipv8_address \<Rightarrow> engine" where
  "engine_new ident local peer = \<lparr>
     en_identity = Some ident, en_auth = None, en_state = Idle, en_pending = None, en_auth_pending = None,
     en_keys = None, en_suite = ChaCha20Poly1305, en_local = local, en_peer = peer, en_delivered = None,
     en_bound_init = None, en_cached_resp = None, en_last_auth_error = None, en_mtu = DEFAULT_MTU,
     en_frag_id = 0, en_reasm = reassembler_new, en_sealed_outbound = 0, en_delivered_inbound = 0,
     en_dropped_inbound = 0, en_fragments_sent = 0, en_fragments_reassembled = 0, en_fwd = None,
     en_forward_out = [], en_forwarded = 0, en_fwd_rejected = 0, en_sharded = False \<rparr>"

definition engine_authenticated :: "host_identity \<Rightarrow> bytes \<Rightarrow> ipv8_address \<Rightarrow> ipv8_address \<Rightarrow> engine" where
  "engine_authenticated host trust local peer = \<lparr>
     en_identity = None, en_auth = Some (host, trust), en_state = Idle, en_pending = None, en_auth_pending = None,
     en_keys = None, en_suite = ChaCha20Poly1305, en_local = local, en_peer = peer, en_delivered = None,
     en_bound_init = None, en_cached_resp = None, en_last_auth_error = None, en_mtu = DEFAULT_MTU,
     en_frag_id = 0, en_reasm = reassembler_new, en_sealed_outbound = 0, en_delivered_inbound = 0,
     en_dropped_inbound = 0, en_fragments_sent = 0, en_fragments_reassembled = 0, en_fwd = None,
     en_forward_out = [], en_forwarded = 0, en_fwd_rejected = 0, en_sharded = False \<rparr>"

section \<open>Configuration and control\<close>

definition set_peer_addr :: "ipv8_address \<Rightarrow> engine \<Rightarrow> engine" where
  "set_peer_addr addr en = en\<lparr> en_peer := addr \<rparr>"

text \<open>The \<open>debug_assert!\<close> is absent from release builds.\<close>

definition set_cipher_suite :: "cipher_suite \<Rightarrow> engine \<Rightarrow> engine" where
  "set_cipher_suite suite en = (if en_keys en \<noteq> None then en else en\<lparr> en_suite := suite \<rparr>)"

definition set_mtu :: "nat \<Rightarrow> engine \<Rightarrow> engine" where
  "set_mtu mtu en = en\<lparr> en_mtu := mtu \<rparr>"

definition enable_forwarding :: "bytes \<Rightarrow> engine \<Rightarrow> engine" where
  "enable_forwarding anchor en = en\<lparr> en_fwd := Some anchor \<rparr>"

definition forward_policy :: "engine \<Rightarrow> trace_policy" where
  "forward_policy en = (if en_fwd en \<noteq> None then Relay else NoForward)"

text \<open>\<open>collect\<close> over the shard numbers; a failed assertion of \<open>derive_shard\<close> ends it.\<close>

fun derive_all :: "nat \<Rightarrow> tunnel_keys \<Rightarrow> u64 \<Rightarrow> nat list \<Rightarrow> (unit, tunnel_keys list) outcome" where
  "derive_all t base n [] = Ok []"
| "derive_all t base n (k # ks) = (case derive_shard t base (of_nat k) n of
     Ok s \<Rightarrow> (case derive_all t base n ks of Ok ss \<Rightarrow> Ok (s # ss) | Err e \<Rightarrow> Err e | Panic \<Rightarrow> Panic)
   | Err e \<Rightarrow> Err e
   | Panic \<Rightarrow> Panic)"

definition split_shards ::
  "nat \<Rightarrow> nat \<Rightarrow> engine \<Rightarrow> engine \<times> (engine_error, tunnel_keys list \<times> ipv8_address \<times> ipv8_address \<times> nat) outcome" where
  "split_shards t n en = (case en_keys en of
     None \<Rightarrow> (en, Err NotEstablished)
   | Some base \<Rightarrow>
       if n = 0 \<or> en_state en \<noteq> Established \<or> en_sharded en then (en, Err NotEstablished)
       else case derive_all t base (of_nat n) [0..<n] of
           Ok shards \<Rightarrow>
             (en\<lparr> en_keys := None, en_sharded := True \<rparr>, Ok (shards, en_local en, en_peer en, en_mtu en))
         | _ \<Rightarrow> (en\<lparr> en_keys := None \<rparr>, Panic))"

definition start_handshake :: "engine_env \<Rightarrow> bytes \<Rightarrow> engine \<Rightarrow> (unit, engine \<times> bytes) outcome" where
  "start_handshake ev eph en = (
     if en_state en \<noteq> Idle then Panic
     else case en_identity en of
         None \<Rightarrow> Panic
       | Some ident \<Rightarrow>
           let (body, pending) = create_init (ev_x ev) eph ident;
               en = en\<lparr> en_pending := Some pending, en_state := Initiating \<rparr>
           in Ok (en, write_head [] HandshakeInit (replicate 8 0) @ body))"

definition start_auth_handshake :: "engine_env \<Rightarrow> bytes \<Rightarrow> engine \<Rightarrow> (unit, engine \<times> bytes) outcome" where
  "start_auth_handshake ev eph en = (
     if en_state en \<noteq> Idle then Panic
     else case en_auth en of
         None \<Rightarrow> Panic
       | Some (host, trust) \<Rightarrow>
           let (bundle, pending) = auth_init (ev_ed ev) (ev_x ev) eph host;
               en = en\<lparr> en_auth_pending := Some pending, en_state := Initiating \<rparr>
           in Ok (en, write_head [] AuthInit (replicate 8 0) @ bundle))"

definition abandon_handshake :: "engine \<Rightarrow> engine" where
  "abandon_handshake en = (
     if en_state en = Initiating
     then en\<lparr> en_pending := None, en_auth_pending := None, en_bound_init := None, en_cached_resp := None, en_state := Idle \<rparr>
     else en)"

definition engine_reset :: "engine \<Rightarrow> engine" where
  "engine_reset en = en\<lparr> en_state := Idle, en_pending := None, en_auth_pending := None, en_keys := None,
     en_bound_init := None, en_cached_resp := None \<rparr>"

section \<open>Receiving\<close>

definition first_of_type :: "ext_type_t \<Rightarrow> ext_header list \<Rightarrow> ext_header option" where
  "first_of_type ty es = List.find (\<lambda>e. ext_type e = ty) es"

text \<open>
  The three checks of a multi-hop packet. The slice of seven bytes and the access to the first extension
  header cannot fail on a decoded packet (a chain that starts with type 5 is not empty); the model reads
  a default there.
\<close>

definition engine_route_decision :: "engine_env \<Rightarrow> engine \<Rightarrow> decoded \<Rightarrow> bytes \<Rightarrow> u64 \<Rightarrow> route_decision option" where
  "engine_route_decision ev en d pkt now = (case en_fwd en of
     None \<Rightarrow> None
   | Some anchor \<Rightarrow>
       let head7 = slice 0 7 pkt in
       case frozen_head head7 of
         None \<Rightarrow> None
       | Some _ \<Rightarrow>
           (case route_trace_from_payload (ext_payload (hd (hdr_ext_headers (dec_header d)))) of
              Inl _ \<Rightarrow> None
            | Inr trace \<Rightarrow>
                (case first_of_type IdentityToken (hdr_ext_headers (dec_header d)) of
                   None \<Rightarrow> None
                 | Some idtok \<Rightarrow>
                     if length (ext_payload idtok) \<noteq> 120 then None
                     else ok_of (verify_for_next_hop (ev_ed ev)
                       \<lparr>vi_local_addr = en_local en, vi_trace = trace, vi_head7 = head7,
                        vi_src_addr = hdr_src_addr (dec_header d), vi_dst_addr = hdr_dst_addr (dec_header d),
                        vi_current_hop_limit = hdr_hop_limit (dec_header d), vi_cert_wire = ext_payload idtok,
                        vi_anchor_pub = anchor, vi_now = now\<rparr>))))"

definition deliver :: "bytes \<Rightarrow> engine \<Rightarrow> engine" where
  "deliver payload en = en\<lparr> en_delivered := Some payload, en_delivered_inbound := en_delivered_inbound en + 1 \<rparr>"

definition reject_forward :: "engine \<Rightarrow> engine" where
  "reject_forward en = en\<lparr> en_fwd_rejected := en_fwd_rejected en + 1 \<rparr>"

definition drop_inbound :: "engine \<Rightarrow> engine" where
  "drop_inbound en = en\<lparr> en_dropped_inbound := en_dropped_inbound en + 1 \<rparr>"

definition forward_packet :: "decoded \<Rightarrow> ipv8_address \<Rightarrow> engine \<Rightarrow> engine" where
  "forward_packet d nxt en = (
     let hl = hdr_hop_limit (dec_header d)
     in if hl = 0 \<or> \<not> hl - 1 > 0 then reject_forward en
        else case encode ((dec_header d)\<lparr>hdr_hop_limit := hl - 1\<rparr>) (dec_payload d) of
            Inr new_pkt \<Rightarrow> en\<lparr> en_forwarded := en_forwarded en + 1, en_forward_out := en_forward_out en @ [(nxt, new_pkt)] \<rparr>
          | Inl _ \<Rightarrow> reject_forward en)"

definition ingest_ipv8_packet :: "engine_env \<Rightarrow> bytes \<Rightarrow> u64 \<Rightarrow> engine \<Rightarrow> engine" where
  "ingest_ipv8_packet ev pkt now en = (case decode pkt of
     Inl _ \<Rightarrow> drop_inbound en
   | Inr d \<Rightarrow>
       if hdr_next_header (dec_header d) \<noteq> ext_wire RouteTrace then deliver (dec_payload d) en
       else case engine_route_decision ev en d pkt now of
           Some Deliver \<Rightarrow>
             if hdr_dst_addr (dec_header d) = en_local en then deliver (dec_payload d) en else reject_forward en
         | Some (ForwardTo nxt _) \<Rightarrow> forward_packet d nxt en
         | None \<Rightarrow> reject_forward en)"

definition take_delivered :: "engine \<Rightarrow> engine \<times> bytes option" where
  "take_delivered en = (en\<lparr> en_delivered := None \<rparr>, en_delivered en)"

definition take_forward_packet :: "engine \<Rightarrow> engine \<times> (ipv8_address \<times> bytes) option" where
  "take_forward_packet en = (case en_forward_out en of
     [] \<Rightarrow> (en, None)
   | x # xs \<Rightarrow> (en\<lparr> en_forward_out := xs \<rparr>, Some x))"

text \<open>The \<open>Data\<close> branch of the frame handler; \<open>t\<close> is the monotonic clock of the reassembler.\<close>

definition handle_data :: "engine_env \<Rightarrow> nat \<Rightarrow> bytes \<Rightarrow> u64 \<Rightarrow> engine \<Rightarrow> (unit, engine) outcome" where
  "handle_data ev t frame now en = (case en_keys en of
     None \<Rightarrow> Ok (drop_inbound en)
   | Some keys \<Rightarrow>
       (case decapsulate (ev_crypto ev) keys frame of
          (keys, Inl _) \<Rightarrow> Ok (drop_inbound (en\<lparr> en_keys := Some keys \<rparr>))
        | (keys, Inr ipv8_pkt) \<Rightarrow>
            let en = en\<lparr> en_keys := Some keys \<rparr>
            in case decode ipv8_pkt of
                 Inl _ \<Rightarrow> Ok (drop_inbound en)
               | Inr d \<Rightarrow>
                   if hdr_flags (dec_header d) AND FLAG_FRAGMENT \<noteq> 0
                   then (case reasm_insert t (dec_header d) (dec_payload d) (en_reasm en) of
                       (gs, Ok (Some reassembled)) \<Rightarrow>
                         let en = en\<lparr> en_reasm := gs, en_fragments_reassembled := en_fragments_reassembled en + 1 \<rparr>
                         in Ok (ingest_ipv8_packet ev reassembled now en)
                     | (gs, Ok None) \<Rightarrow> Ok (en\<lparr> en_reasm := gs \<rparr>)
                     | (gs, Err _) \<Rightarrow> Ok (drop_inbound (en\<lparr> en_reasm := gs \<rparr>))
                     | (gs, Panic) \<Rightarrow> Panic)
                   else Ok (ingest_ipv8_packet ev ipv8_pkt now en)))"

section \<open>Handshake frames\<close>

text \<open>Installing the keys of a finished handshake, with the suite of the deployment.\<close>

definition establish :: "tunnel_keys \<Rightarrow> engine \<Rightarrow> engine" where
  "establish keys en = en\<lparr> en_keys := Some (fst (set_suite keys (en_suite en))), en_sharded := False, en_state := Established \<rparr>"

definition handle_handshake_init ::
  "engine_env \<Rightarrow> nat \<Rightarrow> bytes \<Rightarrow> bytes \<Rightarrow> engine \<Rightarrow> engine \<times> bytes option" where
  "handle_handshake_init ev t eph body en = (
     if en_state en = Established \<and> en_bound_init en = Some body then (en, en_cached_resp en)
     else if en_state en = Idle \<or> en_state en = Established
     then (case en_identity en of
         None \<Rightarrow> (en, None)
       | Some ident \<Rightarrow>
           (case accept_init (ev_x ev) eph t ident body of
              Inl _ \<Rightarrow> (en, None)
            | Inr (resp_body, keys) \<Rightarrow>
                let out = write_head [] HandshakeResp (replicate 8 0) @ resp_body
                in ((establish keys en)\<lparr> en_bound_init := Some body, en_cached_resp := Some out \<rparr>, Some out)))
     else (en, None))"

definition handle_handshake_resp :: "engine_env \<Rightarrow> nat \<Rightarrow> bytes \<Rightarrow> engine \<Rightarrow> engine \<times> bytes option" where
  "handle_handshake_resp ev t body en = (
     if en_state en \<noteq> Initiating then (en, None)
     else case en_pending en of
         None \<Rightarrow> (en, None)
       | Some pending \<Rightarrow>
           let en = en\<lparr> en_pending := None \<rparr>
           in case finish_init (ev_x ev) t pending body of
                Inl _ \<Rightarrow> (en\<lparr> en_state := Idle \<rparr>, None)
              | Inr keys \<Rightarrow> (establish keys en, None))"

definition handle_auth_init ::
  "engine_env \<Rightarrow> nat \<Rightarrow> bytes \<Rightarrow> bytes \<Rightarrow> u64 \<Rightarrow> engine \<Rightarrow> engine \<times> bytes option" where
  "handle_auth_init ev t eph body now en = (
     if en_state en = Established \<and> en_bound_init en = Some body then (en, en_cached_resp en)
     else if en_state en = Idle \<or> en_state en = Established
     then (case en_auth en of
         None \<Rightarrow> (en, None)
       | Some (host, trust) \<Rightarrow>
           if length body \<noteq> AUTH_BUNDLE_LEN then (en\<lparr> en_last_auth_error := Some BadBundleLen \<rparr>, None)
           else (case auth_accept (ev_ed ev) (ev_x ev) eph t host trust body (Some (en_peer en)) now of
               Inr (resp_body, keys) \<Rightarrow>
                 let out = write_head [] AuthResp (replicate 8 0) @ resp_body
                 in ((establish keys en)\<lparr> en_bound_init := Some body, en_cached_resp := Some out,
                       en_last_auth_error := None \<rparr>, Some out)
             | Inl e \<Rightarrow> (en\<lparr> en_last_auth_error := Some e \<rparr>, None)))
     else (en, None))"

definition handle_auth_resp :: "engine_env \<Rightarrow> nat \<Rightarrow> bytes \<Rightarrow> u64 \<Rightarrow> engine \<Rightarrow> engine \<times> bytes option" where
  "handle_auth_resp ev t body now en = (
     if en_state en \<noteq> Initiating then (en, None)
     else case en_auth_pending en of
         None \<Rightarrow> (en, None)
       | Some pending \<Rightarrow>
           let en = en\<lparr> en_auth_pending := None \<rparr>
           in case en_auth en of
                None \<Rightarrow> (en, None)
              | Some (host, trust) \<Rightarrow>
                  if length body \<noteq> AUTH_BUNDLE_LEN
                  then (en\<lparr> en_last_auth_error := Some BadBundleLen, en_state := Idle \<rparr>, None)
                  else (case auth_finish_init (ev_ed ev) (ev_x ev) t pending trust (Some (en_peer en)) body now of
                      Inr keys \<Rightarrow> ((establish keys en)\<lparr> en_last_auth_error := None \<rparr>, None)
                    | Inl e \<Rightarrow> (en\<lparr> en_last_auth_error := Some e, en_state := Idle \<rparr>, None)))"

definition handle_frame_at ::
  "engine_env \<Rightarrow> nat \<Rightarrow> bytes \<Rightarrow> bytes \<Rightarrow> u64 \<Rightarrow> engine \<Rightarrow> (unit, engine \<times> bytes option) outcome" where
  "handle_frame_at ev t eph frame now en = (case parse_head frame of
     Inl _ \<Rightarrow> Ok (en, None)
   | Inr head \<Rightarrow>
       let body = drop FRAME_HEADER_SIZE frame
       in case fh_type head of
            HandshakeInit \<Rightarrow> Ok (handle_handshake_init ev t eph body en)
          | HandshakeResp \<Rightarrow> Ok (handle_handshake_resp ev t body en)
          | AuthInit \<Rightarrow> Ok (handle_auth_init ev t eph body now en)
          | AuthResp \<Rightarrow> Ok (handle_auth_resp ev t body now en)
          | Data \<Rightarrow> (case handle_data ev t frame now en of Ok en \<Rightarrow> Ok (en, None) | Err e \<Rightarrow> Err e | Panic \<Rightarrow> Panic)
          | Rekey \<Rightarrow> Ok (en, None)
          | FecRecovery \<Rightarrow> Ok (en, None)
          | Receipt \<Rightarrow> Ok (en, None))"

definition handle_frame :: "engine_env \<Rightarrow> nat \<Rightarrow> bytes \<Rightarrow> bytes \<Rightarrow> engine \<Rightarrow> (unit, engine \<times> bytes option) outcome" where
  "handle_frame ev t eph frame en = handle_frame_at ev t eph frame 0 en"

section \<open>Sending\<close>

definition build_ipv8_packet :: "engine \<Rightarrow> bytes \<Rightarrow> (unit, bytes) outcome" where
  "build_ipv8_packet en inner_ip = (
     case encode (header_new (en_local en) (en_peer en) (of_nat (length inner_ip))) inner_ip of
       Inr pkt \<Rightarrow> Ok pkt
     | Inl _ \<Rightarrow> Panic)"

text \<open>The loop that encapsulates every fragment; an error stops it with the keys as they are.\<close>

fun encapsulate_all :: "crypto \<Rightarrow> nat \<Rightarrow> tunnel_keys \<Rightarrow> bytes list \<Rightarrow> tunnel_keys \<times> (frame_error, bytes list) outcome" where
  "encapsulate_all cr t keys [] = (keys, Ok [])"
| "encapsulate_all cr t keys (p # ps) = (case encapsulate cr t keys p of
     Ok (keys, f) \<Rightarrow> (case encapsulate_all cr t keys ps of
         (keys, Ok fs) \<Rightarrow> (keys, Ok (f # fs))
       | (keys, r) \<Rightarrow> (keys, r))
   | Err e \<Rightarrow> (keys, Err e)
   | Panic \<Rightarrow> (keys, Panic))"

definition count_sealed :: "nat \<Rightarrow> engine \<Rightarrow> engine" where
  "count_sealed n en = en\<lparr> en_sealed_outbound := en_sealed_outbound en + n,
     en_fragments_sent := en_fragments_sent en + (n - 1) \<rparr>"

definition seal_prebuilt :: "engine_env \<Rightarrow> nat \<Rightarrow> bytes \<Rightarrow> engine \<Rightarrow> engine \<times> (engine_error, bytes) outcome" where
  "seal_prebuilt ev t ipv8_pkt en = (case en_keys en of
     None \<Rightarrow> (en, Err NotEstablished)
   | Some keys \<Rightarrow>
       if length ipv8_pkt > en_mtu en then (en, Err (NeedsFragmentation (length ipv8_pkt)))
       else (case encapsulate (ev_crypto ev) t keys ipv8_pkt of
           Ok (keys, frame) \<Rightarrow>
             (en\<lparr> en_keys := Some keys, en_sealed_outbound := en_sealed_outbound en + 1 \<rparr>, Ok frame)
         | Err e \<Rightarrow> (en, Err (Engine_Frame e))
         | Panic \<Rightarrow> (en, Panic)))"

definition seal_frame :: "engine_env \<Rightarrow> nat \<Rightarrow> bytes \<Rightarrow> engine \<Rightarrow> engine \<times> (engine_error, bytes) outcome" where
  "seal_frame ev t inner_ip en = (case en_keys en of
     None \<Rightarrow> (en, Err NotEstablished)
   | Some keys \<Rightarrow>
       (case build_ipv8_packet en inner_ip of
          Ok whole \<Rightarrow>
            if length whole > en_mtu en then (en, Err (NeedsFragmentation (length whole)))
            else (case encapsulate (ev_crypto ev) t keys whole of
                Ok (keys, frame) \<Rightarrow>
                  (en\<lparr> en_keys := Some keys, en_sealed_outbound := en_sealed_outbound en + 1 \<rparr>, Ok frame)
              | Err e \<Rightarrow> (en, Err (Engine_Frame e))
              | Panic \<Rightarrow> (en, Panic))
        | _ \<Rightarrow> (en, Panic)))"

fun fragment_to_frame_error :: "fragment_error \<Rightarrow> frame_error" where
  "fragment_to_frame_error (Frag_MtuTooSmall m) = Frame_TooShort m"
| "fragment_to_frame_error _ = Frame_BodyTooShort"

text \<open>What \<open>seal_frames\<close> and \<open>seal_multihop\<close> share: the fragments go out one by one.\<close>

definition seal_packets :: "engine_env \<Rightarrow> nat \<Rightarrow> tunnel_keys \<Rightarrow> bytes list \<Rightarrow> engine \<Rightarrow>
    engine \<times> (engine_error, bytes list) outcome" where
  "seal_packets ev t keys pkts en = (case encapsulate_all (ev_crypto ev) t keys pkts of
     (keys, Ok frames) \<Rightarrow> (count_sealed (length pkts) (en\<lparr> en_keys := Some keys \<rparr>), Ok frames)
   | (keys, Err e) \<Rightarrow> (en\<lparr> en_keys := Some keys \<rparr>, Err (Engine_Frame e))
   | (keys, Panic) \<Rightarrow> (en\<lparr> en_keys := Some keys \<rparr>, Panic))"

definition seal_frames :: "engine_env \<Rightarrow> nat \<Rightarrow> bytes \<Rightarrow> engine \<Rightarrow> engine \<times> (engine_error, bytes list) outcome" where
  "seal_frames ev t inner_ip en = (case en_keys en of
     None \<Rightarrow> (en, Err NotEstablished)
   | Some keys \<Rightarrow>
       (case build_ipv8_packet en inner_ip of
          Ok whole \<Rightarrow>
            let ident = en_frag_id en; en = en\<lparr> en_frag_id := en_frag_id en + 1 \<rparr>
            in case fragment_packet whole (en_mtu en) ident of
                 Inl e \<Rightarrow> (en, Err (Engine_Frame (fragment_to_frame_error e)))
               | Inr pkts \<Rightarrow> seal_packets ev t keys pkts en
        | _ \<Rightarrow> (en, Panic)))"

text \<open>The header chain of a multi-hop packet: the signed path and the certificate of the source.\<close>

definition multihop_header :: "engine_env \<Rightarrow> engine \<Rightarrow> host_identity \<Rightarrow> bytes \<Rightarrow> ipv8_address \<Rightarrow> ipv8_address list \<Rightarrow> u8 \<Rightarrow>
    engine_error + ipv8_header" where
  "multihop_header ev en host inner_ip dst hops init_hop_limit = (
     let plen = of_nat (length inner_ip);
         spec = \<lparr>ps_src_addr = en_local en, ps_dst_addr = dst, ps_min_compat_ver = 0,
           ps_flags = FLAG_ENCRYPTED OR FLAG_HAS_EXTENSION, ps_payload_len = plen,
           ps_init_hop_limit = init_hop_limit, ps_hops = hops, ps_src_pubkey = public_ed_key (ev_ed ev) host\<rparr>
     in case build_route_trace spec (host_sign (ev_ed ev) host) of
          Inl _ \<Rightarrow> Inl (Engine_Frame (Frame_BadType 5))
        | Inr trace \<Rightarrow>
            (case route_trace_to_payload trace of
               Inl _ \<Rightarrow> Inl (Engine_Frame Frame_BodyTooShort)
             | Inr tp \<Rightarrow>
                 (case (ext_new RouteTrace tp, ext_new IdentityToken (cert_to_wire (hi_cert host))) of
                    (Some e1, Some e2) \<Rightarrow>
                      Inr (attach_ext_headers ((header_new (en_local en) dst plen)
                        \<lparr>hdr_hop_limit := init_hop_limit, hdr_flags := FLAG_ENCRYPTED\<rparr>) [e1, e2])
                  | _ \<Rightarrow> Inl (Engine_Frame Frame_BodyTooShort))))"

definition seal_multihop ::
  "engine_env \<Rightarrow> nat \<Rightarrow> bytes \<Rightarrow> ipv8_address \<Rightarrow> ipv8_address list \<Rightarrow> u8 \<Rightarrow> engine \<Rightarrow>
   engine \<times> (engine_error, bytes list) outcome" where
  "seal_multihop ev t inner_ip dst hops init_hop_limit en = (case en_auth en of
     None \<Rightarrow> (en, Err NotEstablished)
   | Some (host, trust) \<Rightarrow>
       (case en_keys en of
          None \<Rightarrow> (en, Err NotEstablished)
        | Some keys \<Rightarrow>
            if hops = [] \<or> last hops \<noteq> dst then (en, Err (Engine_Frame (Frame_BadType 5)))
            else (case multihop_header ev en host inner_ip dst hops init_hop_limit of
                Inl e \<Rightarrow> (en, Err e)
              | Inr hdr \<Rightarrow>
                  (case encode hdr inner_ip of
                     Inl _ \<Rightarrow> (en, Err (Engine_Frame Frame_BodyTooShort))
                   | Inr whole \<Rightarrow>
                       let ident = en_frag_id en; en = en\<lparr> en_frag_id := en_frag_id en + 1 \<rparr>
                       in case fragment_packet whole (en_mtu en) ident of
                            Inl _ \<Rightarrow> (en, Err (NeedsFragmentation (length whole)))
                          | Inr pkts \<Rightarrow> seal_packets ev t keys pkts en))))"

definition engine_seal_receipt :: "engine_env \<Rightarrow> nat \<Rightarrow> bytes \<Rightarrow> engine \<Rightarrow> (unit, engine \<times> bytes option) outcome" where
  "engine_seal_receipt ev t report en = (case en_keys en of
     None \<Rightarrow> Ok (en, None)
   | Some keys \<Rightarrow>
       (case TunnelKeys.seal_receipt (ev_crypto ev) t keys report of
          Ok (keys, key_id, body) \<Rightarrow> Ok (en\<lparr> en_keys := Some keys \<rparr>, Some (write_head [] Receipt key_id @ body))
        | _ \<Rightarrow> Panic))"

definition engine_open_receipt :: "engine_env \<Rightarrow> bytes \<Rightarrow> engine \<Rightarrow> engine \<times> bytes option" where
  "engine_open_receipt ev frame en = (case parse_head frame of
     Inl _ \<Rightarrow> (en, None)
   | Inr head \<Rightarrow>
       if fh_type head \<noteq> Receipt then (en, None)
       else case en_keys en of
           None \<Rightarrow> (en, None)
         | Some keys \<Rightarrow>
             (case TunnelKeys.open_receipt (ev_crypto ev) keys (fh_key_id head) (drop FRAME_HEADER_SIZE frame) of
                (keys, r) \<Rightarrow> (en\<lparr> en_keys := Some keys \<rparr>, ok_of r)))"

record engine_stats =
  es_state :: tunnel_state
  es_send_epoch :: "u64 option"
  es_sealed_outbound :: nat
  es_delivered_inbound :: nat
  es_dropped_inbound :: nat
  es_fragments_sent :: nat
  es_fragments_reassembled :: nat
  es_forwarded :: nat
  es_fwd_rejected :: nat
  es_authenticated :: bool
  es_last_auth_error :: "auth_error option"

definition engine_stats_of :: "engine \<Rightarrow> engine_stats" where
  "engine_stats_of en = \<lparr> es_state = en_state en, es_send_epoch = map_option tk_send_epoch (en_keys en),
     es_sealed_outbound = en_sealed_outbound en, es_delivered_inbound = en_delivered_inbound en,
     es_dropped_inbound = en_dropped_inbound en, es_fragments_sent = en_fragments_sent en,
     es_fragments_reassembled = en_fragments_reassembled en, es_forwarded = en_forwarded en,
     es_fwd_rejected = en_fwd_rejected en, es_authenticated = (en_auth en \<noteq> None),
     es_last_auth_error = en_last_auth_error en \<rparr>"

end
