(* ===== verification/EngineSafety.thy ===== *)
theory EngineSafety
  imports TunnelEngine
begin

text \<open>
  What every run of the engine keeps: the coherence of its state machine, the certificates behind the keys
  of an authenticated engine, idempotent answers, and the paths of multi-hop packets.
\<close>

section \<open>Steps of an engine\<close>

text \<open>Every operation of the interface that returns, from any thread of the node, in any order.\<close>

inductive engine_step :: "engine_env \<Rightarrow> engine \<Rightarrow> engine \<Rightarrow> bool" for ev where
  step_frame: "handle_frame_at ev t eph frame now en = Ok (en', r) \<Longrightarrow> engine_step ev en en'"
| step_start: "start_handshake ev eph en = Ok (en', f) \<Longrightarrow> engine_step ev en en'"
| step_start_auth: "start_auth_handshake ev eph en = Ok (en', f) \<Longrightarrow> engine_step ev en en'"
| step_abandon: "engine_step ev en (abandon_handshake en)"
| step_reset: "engine_step ev en (engine_reset en)"
| step_split: "split_shards t n en = (en', Ok r) \<Longrightarrow> engine_step ev en en'"
| step_split_refused: "split_shards t n en = (en', Err e) \<Longrightarrow> engine_step ev en en'"
| step_seal_frame: "seal_frame ev t inner en = (en', r) \<Longrightarrow> engine_step ev en en'"
| step_seal_frames: "seal_frames ev t inner en = (en', r) \<Longrightarrow> engine_step ev en en'"
| step_seal_prebuilt: "seal_prebuilt ev t pkt en = (en', r) \<Longrightarrow> engine_step ev en en'"
| step_seal_multihop: "seal_multihop ev t inner dst hops hl en = (en', r) \<Longrightarrow> engine_step ev en en'"
| step_seal_receipt: "engine_seal_receipt ev t report en = Ok (en', r) \<Longrightarrow> engine_step ev en en'"
| step_open_receipt: "engine_open_receipt ev frame en = (en', r) \<Longrightarrow> engine_step ev en en'"
| step_take_delivered: "engine_step ev en (fst (take_delivered en))"
| step_take_forward: "engine_step ev en (fst (take_forward_packet en))"
| step_config: "en' \<in> {set_peer_addr a en, set_cipher_suite s en, set_mtu m en, enable_forwarding k en} \<Longrightarrow> engine_step ev en en'"

inductive engine_reachable :: "engine_env \<Rightarrow> engine \<Rightarrow> bool" for ev where
  reach_plain: "engine_reachable ev (engine_new ident local peer)"
| reach_auth: "engine_reachable ev (engine_authenticated host trust local peer)"
| reach_step: "engine_reachable ev en \<Longrightarrow> engine_step ev en en' \<Longrightarrow> engine_reachable ev en'"

section \<open>The control part of the state\<close>

text \<open>What the data path cannot change: the mode, the handshake state, and whether there are keys.\<close>

definition control :: "engine \<Rightarrow> _" where
  "control en = (en_identity en, en_auth en, en_state en, en_pending en, en_auth_pending en, en_keys en \<noteq> None, en_sharded en)"

lemma control_simps [simp]:
  "control (deliver x en) = control en" "control (reject_forward en) = control en"
  "control (drop_inbound en) = control en" "control (count_sealed n en) = control en"
  "control (en\<lparr>en_reasm := gs\<rparr>) = control en" "control (en\<lparr>en_frag_id := i\<rparr>) = control en"
  "control (en\<lparr>en_fragments_reassembled := n\<rparr>) = control en" "control (en\<lparr>en_sealed_outbound := n\<rparr>) = control en"
  "control (en\<lparr>en_delivered := x'\<rparr>) = control en" "control (en\<lparr>en_forward_out := fs\<rparr>) = control en"
  "control (en\<lparr>en_forwarded := n\<rparr>) = control en"
  by (simp_all add: control_def deliver_def reject_forward_def drop_inbound_def count_sealed_def)

lemma control_keys: "en_keys en \<noteq> None \<Longrightarrow> control (en\<lparr>en_keys := Some k\<rparr>) = control en"
  by (simp add: control_def)

lemma control_forward [simp]: "control (forward_packet d nxt en) = control en"
  by (simp add: forward_packet_def Let_def split: sum.split)

lemma control_ingest [simp]: "control (ingest_ipv8_packet ev pkt now en) = control en"
  by (simp add: ingest_ipv8_packet_def split: sum.split option.split route_decision.split)

lemma control_handle_data: "handle_data ev t frame now en = Ok en' \<Longrightarrow> control en' = control en"
  by (auto simp: handle_data_def Let_def control_keys
      split: option.splits prod.splits sum.splits if_splits outcome.splits)

lemma control_seal_packets: "en_keys en \<noteq> None \<Longrightarrow> seal_packets ev t k pkts en = (en', r) \<Longrightarrow> control en' = control en"
  by (auto simp: seal_packets_def control_keys split: prod.splits outcome.splits)

lemma control_seal_frame: "seal_frame ev t inner en = (en', r) \<Longrightarrow> control en' = control en"
  by (auto simp: seal_frame_def control_keys split: option.splits outcome.splits if_splits prod.splits)

lemma control_seal_frames: "seal_frames ev t inner en = (en', r) \<Longrightarrow> control en' = control en"
  by (auto simp: seal_frames_def Let_def dest!: control_seal_packets [rotated] split: option.splits outcome.splits sum.splits)

lemma control_seal_prebuilt: "seal_prebuilt ev t pkt en = (en', r) \<Longrightarrow> control en' = control en"
  by (auto simp: seal_prebuilt_def control_keys split: option.splits outcome.splits if_splits prod.splits)

lemma control_seal_multihop: "seal_multihop ev t inner dst hops hl en = (en', r) \<Longrightarrow> control en' = control en"
  by (auto simp: seal_multihop_def Let_def dest!: control_seal_packets [rotated]
      split: option.splits prod.splits outcome.splits sum.splits if_splits)

lemma control_receipts:
  "engine_seal_receipt ev t report en = Ok (en', r) \<Longrightarrow> control en' = control en"
  "engine_open_receipt ev frame en = (en', r') \<Longrightarrow> control en' = control en"
  by (auto simp: engine_seal_receipt_def engine_open_receipt_def control_keys
      split: option.splits outcome.splits sum.splits if_splits prod.splits)

lemma control_takes [simp]: "control (fst (take_delivered en)) = control en" "control (fst (take_forward_packet en)) = control en"
  by (simp_all add: take_delivered_def take_forward_packet_def split: list.split)

section \<open>The state machine is coherent\<close>

definition coherent_engine :: "engine \<Rightarrow> bool" where
  "coherent_engine en \<longleftrightarrow> (case control en of (ident, auth, st, pending, auth_pending, has_keys, sharded) \<Rightarrow>
     (ident = None \<longleftrightarrow> auth \<noteq> None) \<and> st \<noteq> Responding
     \<and> (has_keys \<longrightarrow> st = Established) \<and> (st = Established \<longrightarrow> has_keys \<or> sharded) \<and> (sharded \<longrightarrow> \<not> has_keys)
     \<and> (st = Initiating \<longleftrightarrow> pending \<noteq> None \<or> auth_pending \<noteq> None)
     \<and> (pending \<noteq> None \<longrightarrow> ident \<noteq> None) \<and> (auth_pending \<noteq> None \<longrightarrow> auth \<noteq> None))"

lemma coherent_control: "control en' = control en \<Longrightarrow> coherent_engine en' = coherent_engine en"
  by (simp add: coherent_engine_def)

lemmas coherent_simps = coherent_engine_def control_def prod.case

text \<open>The control part after a handler: untouched, established, or back to idle.\<close>

lemma control_establish [simp]: "control (establish k en) = (en_identity en, en_auth en, Established, en_pending en, en_auth_pending en, True, False)"
  by (simp add: control_def establish_def)

lemma control_handshake_init:
  "control (fst (handle_handshake_init ev t eph body en)) = control en
   \<or> (en_state en = Idle \<or> en_state en = Established)
     \<and> control (fst (handle_handshake_init ev t eph body en)) = control (establish undefined en)"
  by (simp add: handle_handshake_init_def establish_def control_def Let_def split: option.split sum.split prod.split)

lemma control_handshake_resp:
  "control (fst (handle_handshake_resp ev t body en)) = control en
   \<or> en_state en = Initiating \<and> en_pending en \<noteq> None
     \<and> (control (fst (handle_handshake_resp ev t body en)) = control (en\<lparr>en_pending := None, en_state := Idle\<rparr>)
        \<or> control (fst (handle_handshake_resp ev t body en)) = control (establish undefined (en\<lparr>en_pending := None\<rparr>)))"
  by (simp add: handle_handshake_resp_def establish_def control_def Let_def split: option.split sum.split)

lemma control_auth_init:
  "control (fst (handle_auth_init ev t eph body now en)) = control en
   \<or> (en_state en = Idle \<or> en_state en = Established)
     \<and> control (fst (handle_auth_init ev t eph body now en)) = control (establish undefined en)"
  by (simp add: handle_auth_init_def establish_def control_def Let_def split: option.split sum.split prod.split)

lemma control_auth_resp:
  "control (fst (handle_auth_resp ev t body now en)) = control en
   \<or> en_state en = Initiating \<and> en_auth_pending en \<noteq> None
     \<and> (en_auth en = None
        \<or> control (fst (handle_auth_resp ev t body now en)) = control (en\<lparr>en_auth_pending := None, en_state := Idle\<rparr>)
        \<or> control (fst (handle_auth_resp ev t body now en)) = control (establish undefined (en\<lparr>en_auth_pending := None\<rparr>)))"
  by (simp add: handle_auth_resp_def establish_def control_def Let_def split: option.split sum.split prod.split)

text \<open>The same moves keep the invariant.\<close>

lemma coherent_moves:
  assumes "coherent_engine en"
  shows "en_state en = Idle \<or> en_state en = Established \<Longrightarrow> coherent_engine (establish k en)"
    "en_pending en \<noteq> None \<Longrightarrow> coherent_engine (en\<lparr>en_pending := None, en_state := Idle\<rparr>)"
    "en_pending en \<noteq> None \<Longrightarrow> coherent_engine (establish k (en\<lparr>en_pending := None\<rparr>))"
    "en_auth_pending en \<noteq> None \<Longrightarrow> coherent_engine (en\<lparr>en_auth_pending := None, en_state := Idle\<rparr>)"
    "en_auth_pending en \<noteq> None \<Longrightarrow> coherent_engine (establish k (en\<lparr>en_auth_pending := None\<rparr>))"
    "en_auth_pending en \<noteq> None \<Longrightarrow> en_auth en \<noteq> None"
  using assms unfolding coherent_engine_def control_establish by (auto simp: control_def)

lemma coherent_handshake_init: "coherent_engine en \<Longrightarrow> coherent_engine (fst (handle_handshake_init ev t eph body en))"
  using control_handshake_init coherent_moves(1) coherent_control by metis

lemma coherent_handshake_resp:
  assumes "coherent_engine en"
  shows "coherent_engine (fst (handle_handshake_resp ev t body en))"
proof -
  consider "control (fst (handle_handshake_resp ev t body en)) = control en"
    | "en_pending en \<noteq> None" "control (fst (handle_handshake_resp ev t body en)) = control (en\<lparr>en_pending := None, en_state := Idle\<rparr>)"
    | "en_pending en \<noteq> None" "control (fst (handle_handshake_resp ev t body en)) = control (establish undefined (en\<lparr>en_pending := None\<rparr>))"
    using control_handshake_resp by blast
  then show ?thesis
    by cases (rule iffD2 [OF coherent_control], assumption, rule assms coherent_moves(2,3) [OF assms], assumption?)+
qed

lemma coherent_auth_init: "coherent_engine en \<Longrightarrow> coherent_engine (fst (handle_auth_init ev t eph body now en))"
  using control_auth_init coherent_moves(1) coherent_control by metis

lemma coherent_auth_resp:
  assumes "coherent_engine en"
  shows "coherent_engine (fst (handle_auth_resp ev t body now en))"
proof -
  consider "control (fst (handle_auth_resp ev t body now en)) = control en"
    | "en_auth_pending en \<noteq> None" "control (fst (handle_auth_resp ev t body now en)) = control (en\<lparr>en_auth_pending := None, en_state := Idle\<rparr>)"
    | "en_auth_pending en \<noteq> None" "control (fst (handle_auth_resp ev t body now en)) = control (establish undefined (en\<lparr>en_auth_pending := None\<rparr>))"
    using control_auth_resp [of ev t body now en] coherent_moves(6) [OF assms] by blast
  then show ?thesis
    by cases (rule iffD2 [OF coherent_control], assumption, rule assms coherent_moves(4,5) [OF assms], assumption?)+
qed

lemma handle_frame_cases:
  assumes "handle_frame_at ev t eph frame now en = Ok (en', r)"
  obtains "en' = en"
  | "en' = fst (handle_handshake_init ev t eph (drop 10 frame) en)"
  | "en' = fst (handle_handshake_resp ev t (drop 10 frame) en)"
  | "en' = fst (handle_auth_init ev t eph (drop 10 frame) now en)"
  | "en' = fst (handle_auth_resp ev t (drop 10 frame) now en)"
  | "handle_data ev t frame now en = Ok en'"
proof (cases "parse_head frame")
  case (Inr h)
  show ?thesis
    by (cases "fh_type h")
       (use assms Inr that in \<open>auto simp: handle_frame_at_def Let_def FRAME_HEADER_SIZE_def split: outcome.splits dest: arg_cong [where f = fst]\<close>)
qed (use assms that(1) in \<open>simp add: handle_frame_at_def\<close>)

lemma coherent_frame:
  assumes "handle_frame_at ev t eph frame now en = Ok (en', r)" "coherent_engine en"
  shows "coherent_engine en'"
  by (rule handle_frame_cases [OF assms(1)])
     (simp_all add: assms(2) coherent_handshake_init coherent_handshake_resp coherent_auth_init coherent_auth_resp
        coherent_control [OF control_handle_data])

lemma reachable_coherent:
  assumes "engine_reachable ev en"
  shows "coherent_engine en"
  using assms
proof (induction rule: engine_reachable.induct)
  case (reach_step en en')
  from reach_step.hyps(2) show ?case
  proof cases
    case (step_start eph f)
    then show ?thesis using reach_step.IH
      by (simp add: start_handshake_def coherent_simps Let_def split: if_splits option.splits prod.splits) auto
  next
    case (step_start_auth eph f)
    then show ?thesis using reach_step.IH
      by (simp add: start_auth_handshake_def coherent_simps Let_def split: if_splits option.splits prod.splits) auto
  next
    case (step_split t n r)
    then show ?thesis using reach_step.IH
      by (simp add: split_shards_def coherent_simps split: if_splits option.splits outcome.splits) auto
  next
    case (step_split_refused t n e)
    then show ?thesis using reach_step.IH by (simp add: split_shards_def split: if_splits option.splits outcome.splits)
  next
    case step_abandon
    then show ?thesis using reach_step.IH by (simp add: abandon_handshake_def coherent_simps) auto
  next
    case step_reset
    then show ?thesis using reach_step.IH by (simp add: engine_reset_def coherent_simps)
  next
    case (step_config a s m k)
    then have "control en' = control en"
      by (elim insertE emptyE) (simp_all add: set_peer_addr_def set_cipher_suite_def set_mtu_def enable_forwarding_def control_def)
    then show ?thesis using reach_step.IH coherent_control by blast
  next
    case (step_frame t eph frame now r)
    show ?thesis by (rule coherent_frame [OF step_frame reach_step.IH])
  next
    case (step_seal_frame t inner r)
    show ?thesis by (rule iffD2 [OF coherent_control [OF control_seal_frame [OF step_seal_frame]] reach_step.IH])
  next
    case (step_seal_frames t inner r)
    show ?thesis by (rule iffD2 [OF coherent_control [OF control_seal_frames [OF step_seal_frames]] reach_step.IH])
  next
    case (step_seal_prebuilt t pkt r)
    show ?thesis by (rule iffD2 [OF coherent_control [OF control_seal_prebuilt [OF step_seal_prebuilt]] reach_step.IH])
  next
    case (step_seal_multihop t inner dst hops hl r)
    show ?thesis by (rule iffD2 [OF coherent_control [OF control_seal_multihop [OF step_seal_multihop]] reach_step.IH])
  next
    case (step_seal_receipt t report r)
    show ?thesis by (rule iffD2 [OF coherent_control [OF control_receipts(1) [OF step_seal_receipt]] reach_step.IH])
  next
    case (step_open_receipt frame r)
    show ?thesis by (rule iffD2 [OF coherent_control [OF control_receipts(2) [OF step_open_receipt]] reach_step.IH])
  next
    case step_take_delivered
    then show ?thesis using reach_step.IH coherent_control control_takes(1) by blast
  next
    case step_take_forward
    then show ?thesis using reach_step.IH coherent_control control_takes(2) by blast
  qed
qed (simp_all add: coherent_simps engine_new_def engine_authenticated_def)

text \<open>The kind of handshake an engine was built for stays: certificates or plain identities.\<close>

lemma control_auth: "control en' = control en \<Longrightarrow> en_auth en' = en_auth en"
  by (simp add: control_def)

lemma frame_auth:
  assumes "handle_frame_at ev t eph frame now en = Ok (en', r)" "coherent_engine en"
  shows "en_auth en' = en_auth en"
proof (rule handle_frame_cases [OF assms(1)])
  assume "en' = fst (handle_handshake_init ev t eph (drop 10 frame) en)"
  then show ?thesis using control_handshake_init [of ev t eph "drop 10 frame" en] by (auto simp: control_def establish_def)
next
  assume "en' = fst (handle_handshake_resp ev t (drop 10 frame) en)"
  then show ?thesis using control_handshake_resp [of ev t "drop 10 frame" en] by (auto simp: control_def establish_def)
next
  assume "en' = fst (handle_auth_init ev t eph (drop 10 frame) now en)"
  then show ?thesis using control_auth_init [of ev t eph "drop 10 frame" now en] by (auto simp: control_def establish_def)
next
  assume "en' = fst (handle_auth_resp ev t (drop 10 frame) now en)"
  then show ?thesis using control_auth_resp [of ev t "drop 10 frame" now en] coherent_moves(6) [OF assms(2)]
    by (auto simp: control_def establish_def)
qed (use control_auth control_handle_data in blast)+

lemma step_auth:
  assumes "engine_step ev en en'" "coherent_engine en"
  shows "en_auth en' = en_auth en"
  using assms(1)
proof cases
  case (step_frame t eph frame now r)
  then show ?thesis by (rule frame_auth [OF _ assms(2)])
next
  case (step_split t n r)
  then show ?thesis by (auto simp: split_shards_def split: option.splits if_splits outcome.splits)
next
  case (step_split_refused t n e)
  then show ?thesis by (auto simp: split_shards_def split: option.splits if_splits outcome.splits)
qed (auto dest!: control_seal_frame control_seal_frames control_seal_prebuilt control_seal_multihop control_receipts
    simp: control_def start_handshake_def start_auth_handshake_def abandon_handshake_def engine_reset_def set_peer_addr_def set_cipher_suite_def
      set_mtu_def enable_forwarding_def take_delivered_def take_forward_packet_def split: if_splits option.splits prod.splits list.splits)

text \<open>
  C13. The handshake state machine is coherent in every reachable engine: an engine that holds session keys is
  Established; an Established engine holds them or has handed its data path to shards, and an engine so marked
  holds none of its own (a reset goes back to Idle, drops the keys and keeps the mark until the next handshake);
  it is Initiating exactly when an answer is pending, to a handshake of the kind it was built for; it is built
  either for certificates or for plain identities; and the state Responding never occurs.
\<close>

theorem engine_state_coherent:
  assumes "engine_reachable ev en"
  shows "coherent_engine en"
  by (rule reachable_coherent [OF assms])

lemma engine_state_coherent_witness:
  "coherent_engine (engine_new \<lparr>id_seed = [], id_public = []\<rparr> (addr_with_region 1 1 0 2 0) (addr_with_region 2 1 0 2 0))"
  by (rule engine_state_coherent [OF reach_plain])

section \<open>Keys of an authenticated engine\<close>

lemma decapsulate_dh: "decapsulate cr k frame = (k', r) \<Longrightarrow> tk_dh k' = tk_dh k"
proof -
  have open_dh: "tk_dh k' = tk_dh k" if o: "open_frame cr k kid body aad = (k', r)" for k k' kid body aad r
    by (rule open_frame_cases [OF o]) (simp_all add: note_data_def prune_def Let_def split: option.split)
  assume "decapsulate cr k frame = (k', r)"
  then show ?thesis by (auto simp: decapsulate_def Let_def split: sum.splits if_splits prod.splits dest: open_dh)
qed

definition session_secret :: "engine \<Rightarrow> bytes option" where
  "session_secret en = map_option tk_dh (en_keys en)"

lemma secret_data [simp]:
  "session_secret (deliver x en) = session_secret en" "session_secret (reject_forward en) = session_secret en"
  "session_secret (drop_inbound en) = session_secret en" "session_secret (en\<lparr>en_reasm := gs\<rparr>) = session_secret en"
  "session_secret (en\<lparr>en_reasm := gs, en_fragments_reassembled := n\<rparr>) = session_secret en"
  "session_secret (forward_packet d nxt en) = session_secret en"
  by (simp_all add: session_secret_def deliver_def reject_forward_def drop_inbound_def forward_packet_def Let_def split: sum.split)

lemma secret_ingest [simp]: "session_secret (ingest_ipv8_packet ev pkt now en) = session_secret en"
  by (simp add: ingest_ipv8_packet_def split: sum.split option.split route_decision.split)

lemma secret_data_frame: "handle_data ev t frame now en = Ok en' \<Longrightarrow> session_secret en' = session_secret en"
proof -
  have upd: "en_keys en = Some k \<Longrightarrow> decapsulate cr k frame = (k', r) \<Longrightarrow>
      session_secret (en\<lparr>en_keys := Some k'\<rparr>) = session_secret en" for cr k k' r
    by (simp add: session_secret_def decapsulate_dh)
  assume "handle_data ev t frame now en = Ok en'"
  then show ?thesis
    by (auto simp: handle_data_def Let_def upd split: option.splits prod.splits sum.splits if_splits outcome.splits)
qed

lemma secret_establish: "session_secret (establish k en) = Some (tk_dh k)"
  by (simp add: session_secret_def establish_def set_suite_def)

text \<open>
  C12. An authenticated engine never takes keys from an unauthenticated frame: whenever a frame changes the
  session secret, its bundle has passed the three checks against the trust anchor for the expected peer, as
  a first message or as the answer to this engine's own ephemeral key.
\<close>

theorem authenticated_keys_certified:
  assumes "handle_frame_at ev t eph frame now en = Ok (en', r)"
    and "en_identity en = None" "en_auth en = Some (host, trust)" "session_secret en' \<noteq> session_secret en"
    and "engine_reachable ev en"
  shows "\<exists>role peer_eph b. check_bundle (ev_ed ev) trust role peer_eph (Some (en_peer en)) (drop 10 frame) now = Inr b
    \<and> (role = ROLE_I \<and> peer_eph = replicate 32 0
       \<or> role = ROLE_R \<and> (\<exists>pd. en_auth_pending en = Some pd \<and> peer_eph = ap_eph_pub pd))"
proof (rule handle_frame_cases [OF assms(1)])
  assume "en' = fst (handle_handshake_init ev t eph (drop 10 frame) en)"
  then show ?thesis using assms(2,4) by (simp add: handle_handshake_init_def split: if_splits)
next
  assume e: "en' = fst (handle_handshake_resp ev t (drop 10 frame) en)"
  have "en_pending en = None" using reachable_coherent [OF assms(5)] assms(2) by (simp add: coherent_simps)
  then show ?thesis using assms(4) by (simp add: e handle_handshake_resp_def split: if_splits)
next
  assume e: "en' = fst (handle_auth_init ev t eph (drop 10 frame) now en)"
  have "session_secret (en\<lparr>en_last_auth_error := x\<rparr>) = session_secret en" for x by (simp add: session_secret_def)
  then obtain b where "check_bundle (ev_ed ev) trust ROLE_I (replicate 32 0) (Some (en_peer en)) (drop 10 frame) now = Inr b"
    using assms(3,4) unfolding e by (auto simp: handle_auth_init_def auth_accept_def split: if_splits sum.splits)
  then show ?thesis by blast
next
  assume e: "en' = fst (handle_auth_resp ev t (drop 10 frame) now en)"
  have "session_secret (en\<lparr>en_auth_pending := p, en_last_auth_error := x, en_state := y\<rparr>) = session_secret en" for p x y
    by (simp add: session_secret_def)
  then obtain b pd where "check_bundle (ev_ed ev) trust ROLE_R (ap_eph_pub pd) (Some (en_peer en)) (drop 10 frame) now = Inr b"
    "en_auth_pending en = Some pd"
    using assms(3,4) unfolding e
    by (auto simp: handle_auth_resp_def auth_finish_init_def Let_def split: if_splits sum.splits option.splits)
  then show ?thesis by blast
next
  assume "handle_data ev t frame now en = Ok en'"
  then show ?thesis using assms(4) secret_data_frame by blast
qed (use assms(4) in simp)

lemma handle_auth_init_frame:
  "handle_frame_at ev t eph (write_head [] AuthInit (replicate 8 0) @ body) now en = Ok (handle_auth_init ev t eph body now en)"
proof -
  have k: "length (replicate 8 (0 :: u8)) = 8" by simp
  show ?thesis unfolding handle_frame_at_def parse_write_head [OF k] by simp
qed

text \<open>Two engines of one CA; the second one receives the first one's initial message.\<close>

definition toy_env :: engine_env where
  "toy_env = \<lparr>ev_crypto = toy_crypto, ev_ed = toy_ed, ev_x = toy_x25519\<rparr>"

definition toy_engine :: "nat \<Rightarrow> nat \<Rightarrow> engine" where
  "toy_engine n m = engine_authenticated (toy_host n) (ed_public toy_ed [9]) (hi_addr (toy_host n)) (hi_addr (toy_host m))"

definition toy_init :: bytes where
  "toy_init = fst (auth_init toy_ed toy_x25519 [1] (toy_host 1))"

lemma toy_init_accepted:
  "\<exists>resp k. auth_accept toy_ed toy_x25519 eph t (toy_host 2) (ed_public toy_ed [9]) toy_init (Some (hi_addr (toy_host 1))) 5 = Inr (resp, k)"
  "length toy_init = 216"
proof -
  obtain i p where c: "auth_init toy_ed toy_x25519 [1] (toy_host 1) = (i, p)" by (metis surj_pair)
  have i: "toy_init = i" unfolding toy_init_def c by simp
  obtain resp kb where a: "auth_accept toy_ed toy_x25519 eph t (toy_host 2) (ed_public toy_ed [9]) i (Some (hi_addr (toy_host 1))) 5 = Inr (resp, kb)"
    using honest_handshake [OF toy_ed_ok toy_x25519_ok toy_host_certified(1) toy_host_certified(1) _ _ c, of 5 6 2 eph t 0]
      toy_host_certified(2) by auto
  then show "\<exists>resp k. auth_accept toy_ed toy_x25519 eph t (toy_host 2) (ed_public toy_ed [9]) toy_init (Some (hi_addr (toy_host 1))) 5 = Inr (resp, k)"
    unfolding i by blast
  show "length toy_init = 216"
    using a check_bundle_ok(1) unpack_bundle_lengths unfolding i auth_accept_def by (fastforce split: sum.splits)
qed

lemma toy_init_handled:
  "\<exists>en' resp. handle_frame_at toy_env 0 [2] (write_head [] AuthInit (replicate 8 0) @ toy_init) 5 (toy_engine 2 1) = Ok (en', Some resp)
     \<and> session_secret en' \<noteq> None"
proof -
  obtain resp k where "auth_accept toy_ed toy_x25519 [2] 0 (toy_host 2) (ed_public toy_ed [9]) toy_init (Some (hi_addr (toy_host 1))) 5 = Inr (resp, k)"
    using toy_init_accepted by blast
  then have "handle_auth_init toy_env 0 [2] toy_init 5 (toy_engine 2 1) =
      ((establish k (toy_engine 2 1))\<lparr>en_bound_init := Some toy_init, en_cached_resp := Some (write_head [] AuthResp (replicate 8 0) @ resp),
         en_last_auth_error := None\<rparr>, Some (write_head [] AuthResp (replicate 8 0) @ resp))"
    using toy_init_accepted(2) by (simp add: handle_auth_init_def toy_engine_def engine_authenticated_def toy_env_def AUTH_BUNDLE_LEN_def Let_def)
  then show ?thesis unfolding handle_auth_init_frame by (simp add: session_secret_def establish_def)
qed

lemma authenticated_keys_certified_witness:
  "\<exists>role peer_eph b. check_bundle toy_ed (ed_public toy_ed [9]) role peer_eph (Some (hi_addr (toy_host 1)))
     (drop 10 (write_head [] AuthInit (replicate 8 0) @ toy_init)) 5 = Inr b"
proof -
  obtain en' resp where h: "handle_frame_at toy_env 0 [2] (write_head [] AuthInit (replicate 8 0) @ toy_init) 5 (toy_engine 2 1) = Ok (en', Some resp)"
    "session_secret en' \<noteq> None" using toy_init_handled by blast
  have "session_secret en' \<noteq> session_secret (toy_engine 2 1)"
    using h(2) by (simp add: toy_engine_def session_secret_def engine_authenticated_def)
  moreover have "engine_reachable toy_env (toy_engine 2 1)" unfolding toy_engine_def by (rule reach_auth)
  ultimately show ?thesis
    using authenticated_keys_certified [OF h(1), of "toy_host 2" "ed_public toy_ed [9]"]
    by (auto simp: toy_engine_def engine_authenticated_def toy_env_def)
qed

section \<open>Repeated and recorded first messages\<close>

text \<open>
  A first message that arrives again is answered with the same bytes and changes nothing: the engine
  keeps its keys and counters, whatever time has passed and whatever ephemeral key it would draw.
\<close>

theorem repeated_init_idempotent:
  assumes "handle_frame_at ev t eph frame now en = Ok (en', Some resp)"
  shows "handle_frame_at ev t' eph' frame now' en' = Ok (en', Some resp)"
proof -
  have "handle_handshake_init ev t' eph' body en' = (en', Some resp)"
    if "handle_handshake_init ev t eph body en = (en', Some resp)" for body
    using that by (auto simp: handle_handshake_init_def establish_def Let_def split: if_splits option.splits sum.splits)
  moreover have "handle_auth_init ev t' eph' body now' en' = (en', Some resp)"
    if "handle_auth_init ev t eph body now en = (en', Some resp)" for body
    using that by (auto simp: handle_auth_init_def establish_def Let_def split: if_splits option.splits sum.splits)
  moreover have "snd (handle_handshake_resp ev t body en) = None" for body
    by (simp add: handle_handshake_resp_def Let_def split: option.split sum.split)
  moreover have "snd (handle_auth_resp ev t body now en) = None" for body
    by (simp add: handle_auth_resp_def Let_def split: option.split sum.split prod.split)
  ultimately show ?thesis
    using assms by (auto simp: handle_frame_at_def Let_def split: sum.splits frame_type.splits outcome.splits dest: arg_cong [where f = snd])
qed

lemma repeated_init_idempotent_witness:
  "\<exists>en' resp. handle_frame_at toy_env 7 [3] (write_head [] AuthInit (replicate 8 0) @ toy_init) 1000 en' = Ok (en', Some resp)"
  using toy_init_handled repeated_init_idempotent by blast

text \<open>
  C36. A recorded first message tears a live tunnel down: a bundle of the peer that was valid once and is not the one
  the engine is bound to is accepted again until its certificate expires, since nothing in it is fresh, and replaces
  the keys in use by a new state whose secret comes from the old ephemeral key.
\<close>

theorem recorded_init_replaces_keys:
  assumes "en_state en = Established" "en_auth en = Some (host, trust)" "en_bound_init en \<noteq> Some body"
    and "check_bundle (ev_ed ev) trust ROLE_I (replicate 32 0) (Some (en_peer en)) body earlier = Inr b"
    and "now \<le> ab_not_after b"
  shows "\<exists>en' resp. handle_frame_at ev t eph (write_head [] AuthInit (replicate 8 0) @ body) now en = Ok (en', Some resp)
    \<and> session_secret en' = Some (x_dh (ev_x ev) eph (ab_eph b)) \<and> map_option tk_rx (en_keys en') = Some []"
proof -
  have "check_bundle (ev_ed ev) trust ROLE_I (replicate 32 0) (Some (en_peer en)) body now = Inr b"
    using assms(4,5) by (auto simp: check_bundle_def anchor_verify_def Let_def not_less split: sum.splits if_splits)
  moreover from this have "length body = 216" using check_bundle_ok(1) unpack_bundle_lengths by blast
  ultimately show ?thesis
    using assms(1-3) unfolding handle_auth_init_frame
    by (simp add: handle_auth_init_def auth_accept_def Let_def AUTH_BUNDLE_LEN_def)
       (simp add: establish_def session_secret_def set_suite_def keys_new_def)
qed

lemma recorded_init_replaces_keys_witness:
  "\<exists>en' resp (b :: auth_bundle). handle_frame_at toy_env 9 [5] (write_head [] AuthInit (replicate 8 0) @ toy_init) 99
     ((toy_engine 2 1)\<lparr>en_state := Established, en_keys := Some (keys_new 0 [4] True)\<rparr>) = Ok (en', Some resp)
   \<and> session_secret en' = Some (x_dh toy_x25519 [5] (ab_eph b))"
proof -
  let ?en = "(toy_engine 2 1)\<lparr>en_state := Established, en_keys := Some (keys_new 0 [4] True)\<rparr>"
  obtain b where "check_bundle toy_ed (ed_public toy_ed [9]) ROLE_I (replicate 32 0) (Some (hi_addr (toy_host 1))) toy_init 5 = Inr b"
    using toy_init_accepted(1) unfolding auth_accept_def by (fastforce split: sum.splits)
  moreover have "ab_not_after b = 100"
  proof -
    have "unpack_bundle toy_init = Inr b" using check_bundle_ok(1) calculation by blast
    moreover have "addr_protocol (hi_addr (toy_host 1)) = PROTOCOL_MAGIC"
      using toy_host_certified(1) [of 1] by (simp add: certified_def)
    ultimately show ?thesis
      unfolding toy_init_def auth_init_def Let_def fst_conv
      by (subst (asm) unpack_pack_bundle)
         (auto simp: toy_host_certified(2) toy_x25519_def public_ed_key_def toy_ed_def toy_host_def provision_def issue_cert_def)
  qed
  ultimately have "\<exists>en' resp. handle_frame_at toy_env 9 [5] (write_head [] AuthInit (replicate 8 0) @ toy_init) 99 ?en = Ok (en', Some resp)
      \<and> session_secret en' = Some (x_dh toy_x25519 [5] (ab_eph b))"
    using recorded_init_replaces_keys [of ?en "toy_host 2" "ed_public toy_ed [9]" toy_init toy_env 5 b 99 9 "[5]"]
    by (auto simp: toy_engine_def engine_authenticated_def toy_env_def)
  then show ?thesis by blast
qed

section \<open>Multi-hop packets\<close>

text \<open>
  C14. A multi-hop packet moves only along a verified path: if ingesting one delivers or forwards anything,
  forwarding is enabled and the three checks passed for exactly these header fields; a delivery happens only at the
  destination address, and a forwarded packet is the received one with the hop limit, at least two, lowered by one.
\<close>

theorem multihop_only_verified:
  assumes "decode pkt = Inr d" "hdr_next_header (dec_header d) = 5" "en' = ingest_ipv8_packet ev pkt now en"
    and "en_delivered_inbound en' \<noteq> en_delivered_inbound en \<or> en_forward_out en' \<noteq> en_forward_out en"
  shows "\<exists>anchor v dec. en_fwd en = Some anchor \<and> verify_for_next_hop (ev_ed ev) v = Inr dec
    \<and> vi_local_addr v = en_local en \<and> vi_anchor_pub v = anchor \<and> vi_now v = now \<and> vi_head7 v = slice 0 7 pkt
    \<and> vi_src_addr v = hdr_src_addr (dec_header d) \<and> vi_dst_addr v = hdr_dst_addr (dec_header d)
    \<and> vi_current_hop_limit v = hdr_hop_limit (dec_header d)
    \<and> (dec = Deliver \<and> hdr_dst_addr (dec_header d) = en_local en \<and> en_forward_out en' = en_forward_out en
       \<or> (\<exists>nxt k p. dec = ForwardTo nxt k \<and> en_forward_out en' = en_forward_out en @ [(nxt, p)] \<and> 2 \<le> hdr_hop_limit (dec_header d)
            \<and> encode ((dec_header d)\<lparr>hdr_hop_limit := hdr_hop_limit (dec_header d) - 1\<rparr>) (dec_payload d) = Inr p
            \<and> en_delivered_inbound en' = en_delivered_inbound en))"
proof -
  obtain dec where dec: "engine_route_decision ev en d pkt now = Some dec"
    using assms by (auto simp: ingest_ipv8_packet_def reject_forward_def split: option.splits)
  then obtain anchor v where v: "en_fwd en = Some anchor" "verify_for_next_hop (ev_ed ev) v = Inr dec"
    "vi_local_addr v = en_local en" "vi_anchor_pub v = anchor" "vi_now v = now" "vi_head7 v = slice 0 7 pkt"
    "vi_src_addr v = hdr_src_addr (dec_header d)" "vi_dst_addr v = hdr_dst_addr (dec_header d)"
    "vi_current_hop_limit v = hdr_hop_limit (dec_header d)"
    by (auto simp: engine_route_decision_def Let_def ok_of_def split: option.splits sum.splits if_splits)
  have two: "2 \<le> h" if "h \<noteq> 0" "0 < h - 1" for h :: u8
    using that by (simp add: word_less_nat_alt word_le_nat_alt unat_sub_if' split: if_splits)
       (metis One_nat_def Suc_leI less_one linorder_not_less nat_less_le numeral_2_eq_2 unat_eq_zero)
  show ?thesis
  proof (cases dec)
    case Deliver
    then show ?thesis using v assms dec by (auto simp: ingest_ipv8_packet_def deliver_def reject_forward_def split: if_splits)
  next
    case (ForwardTo nxt k)
    then have "en' = forward_packet d nxt en" using assms dec by (simp add: ingest_ipv8_packet_def)
    then show ?thesis using v assms(4) ForwardTo two
      by (auto simp: forward_packet_def Let_def reject_forward_def split: if_splits sum.splits)
  qed
qed

text \<open>
  The handler without a clock checks certificates at time 0: a multi-hop packet that carries an expired
  certificate is refused by the handler with the true time and accepted by the one without, although the latter is
  documented to differ for handshakes only.
\<close>

theorem clockless_handler_skips_expiry:
  assumes "engine_route_decision ev en d pkt 0 = Some dec"
    and "first_of_type IdentityToken (hdr_ext_headers (dec_header d)) = Some idtok"
    and "from_be (slice 48 56 (ext_payload idtok)) < now"
  shows "engine_route_decision ev en d pkt now = None"
proof -
  have "\<not> cert_binding_ok ed anchor (ext_payload idtok) addr pk now" for ed anchor addr pk
    using assms(3) by (auto simp: cert_binding_ok_def Let_def slice_def not_le drop_take)
  then show ?thesis
    using assms(1,2)
    by (auto simp: engine_route_decision_def Let_def verify_for_next_hop_def ok_of_def split: option.splits sum.splits if_splits)
qed

end
