(* ===== verification/EngineMultihop.thy ===== *)
theory EngineMultihop
  imports EngineSafety
begin

text \<open>
  A multi-hop packet on its way: every relay of the signed path accepts the packet of the source and hands it
  on unchanged but for the hop limit, and the last node delivers it.
\<close>

section \<open>The packet of the source\<close>

lemma multihop_header_ok:
  assumes "multihop_header ev en host inner dst hops hl = Inr h" "ed25519_ok (ev_ed ev)"
  obtains t tp where
    "build_route_trace \<lparr>ps_src_addr = en_local en, ps_dst_addr = dst, ps_min_compat_ver = 0,
       ps_flags = FLAG_ENCRYPTED OR FLAG_HAS_EXTENSION, ps_payload_len = of_nat (length inner), ps_init_hop_limit = hl,
       ps_hops = hops, ps_src_pubkey = public_ed_key (ev_ed ev) host\<rparr> (host_sign (ev_ed ev) host) = Inr t"
    "route_trace_from_payload tp = Inr t"
    "h = \<lparr>hdr_version = IPV8_VERSION, hdr_min_compat_ver = 0, hdr_flags = FLAG_ENCRYPTED OR FLAG_HAS_EXTENSION,
       hdr_payload_len = of_nat (length inner), hdr_hop_limit = hl, hdr_next_header = 5, hdr_src_addr = en_local en,
       hdr_dst_addr = dst, hdr_ext_headers = [\<lparr>ext_type = RouteTrace, ext_payload = tp\<rparr>,
         \<lparr>ext_type = IdentityToken, ext_payload = cert_to_wire (hi_cert host)\<rparr>]\<rparr>"
    "chain_ok (hdr_ext_headers h)" "hops \<noteq> []" "length hops \<le> 64" "last hops = dst"
proof -
  let ?spec = "\<lparr>ps_src_addr = en_local en, ps_dst_addr = dst, ps_min_compat_ver = 0,
       ps_flags = FLAG_ENCRYPTED OR FLAG_HAS_EXTENSION, ps_payload_len = of_nat (length inner), ps_init_hop_limit = hl,
       ps_hops = hops, ps_src_pubkey = public_ed_key (ev_ed ev) host\<rparr>"
  obtain t tp e1 e2 where t: "build_route_trace ?spec (host_sign (ev_ed ev) host) = Inr t"
    and tp: "route_trace_to_payload t = Inr tp"
    and e: "ext_new RouteTrace tp = Some e1" "ext_new IdentityToken (cert_to_wire (hi_cert host)) = Some e2"
    and h: "h = attach_ext_headers ((header_new (en_local en) dst (of_nat (length inner)))
        \<lparr>hdr_hop_limit := hl, hdr_flags := FLAG_ENCRYPTED\<rparr>) [e1, e2]"
    using assms(1) by (auto simp: multihop_header_def Let_def split: sum.splits option.splits)
  have hops: "hops \<noteq> []" "length hops \<le> 64" "last hops = dst" "rt_hops t = hops"
    using t by (auto simp: build_route_trace_def Let_def not_less split: if_splits)
  have "route_trace_wf t"
    using t assms(2) by (auto simp: build_route_trace_def Let_def route_trace_wf_def public_ed_key_def host_sign_def ed25519_ok_def split: if_splits)
  then have rt: "route_trace_from_payload tp = Inr t"
    using route_trace_round [of t] tp hops by (simp add: route_trace_payload_eq)
  have "canonical_type RouteTrace" "canonical_type IdentityToken" by (simp_all add: canonical_type_def ext_from_u8_def)
  then have x: "ext_ok e1 \<and> ext_type e1 = RouteTrace \<and> ext_payload e1 = tp"
      "ext_ok e2 \<and> ext_type e2 = IdentityToken \<and> ext_payload e2 = cert_to_wire (hi_cert host)"
    using ext_new_ok e by blast+
  then have "e1 = \<lparr>ext_type = RouteTrace, ext_payload = tp\<rparr>" "e2 = \<lparr>ext_type = IdentityToken, ext_payload = cert_to_wire (hi_cert host)\<rparr>"
    by (simp_all add: ext_header.equality)
  then show ?thesis
    using that [OF t rt _ _ hops(1-3)] x unfolding h
    by (simp add: attach_ext_headers_def header_new_def first_type_def chain_ok_def)
qed

lemma multihop_fields:
  assumes "multihop_header ev en host inner dst hops hl = Inr h" "ed25519_ok (ev_ed ev)"
  shows "hdr_next_header h = 5" "hdr_dst_addr h = dst" "last hops = dst" "hdr_hop_limit h = hl" "hops \<noteq> []"
  by (rule multihop_header_ok [OF assms], (assumption | simp only: ipv8_header.select_convs))+

text \<open>The packet as the node at position \<open>k\<close> of the path gets it.\<close>

lemma multihop_lowered:
  assumes "multihop_header ev en host inner dst hops hl = Inr h" "ed25519_ok (ev_ed ev)" "encode h inner = Inr whole"
  shows "\<exists>pkt. encode (h\<lparr>hdr_hop_limit := l\<rparr>) inner = Inr pkt"
    "encode (h\<lparr>hdr_hop_limit := l\<rparr>) inner = Inr pkt \<Longrightarrow> decode pkt = Inr \<lparr>dec_header = h\<lparr>hdr_hop_limit := l\<rparr>, dec_payload = inner\<rparr>"
    "encode (h\<lparr>hdr_hop_limit := l\<rparr>) inner = Inr pkt \<Longrightarrow>
       slice 0 7 pkt = [push_bit 4 8 OR 0] @ to_be16 (FLAG_ENCRYPTED OR FLAG_HAS_EXTENSION) @ to_be16 (of_nat (length inner)) @ [l, 5]"
proof -
  obtain tp where h: "h = \<lparr>hdr_version = IPV8_VERSION, hdr_min_compat_ver = 0, hdr_flags = FLAG_ENCRYPTED OR FLAG_HAS_EXTENSION,
       hdr_payload_len = of_nat (length inner), hdr_hop_limit = hl, hdr_next_header = 5, hdr_src_addr = en_local en,
       hdr_dst_addr = dst, hdr_ext_headers = [\<lparr>ext_type = RouteTrace, ext_payload = tp\<rparr>,
         \<lparr>ext_type = IdentityToken, ext_payload = cert_to_wire (hi_cert host)\<rparr>]\<rparr>" "chain_ok (hdr_ext_headers h)"
    by (rule multihop_header_ok [OF assms(1,2)]) (rule that; assumption)
  show "\<exists>pkt. encode (h\<lparr>hdr_hop_limit := l\<rparr>) inner = Inr pkt"
    using assms(3) by (auto simp: encode_iff encodable_def)
  assume pkt: "encode (h\<lparr>hdr_hop_limit := l\<rparr>) inner = Inr pkt"
  then show "decode pkt = Inr \<lparr>dec_header = h\<lparr>hdr_hop_limit := l\<rparr>, dec_payload = inner\<rparr>"
    using decode_encode_junk [OF pkt, of "[]"] h(2) by simp
  show "slice 0 7 pkt = [push_bit 4 8 OR 0] @ to_be16 (FLAG_ENCRYPTED OR FLAG_HAS_EXTENSION) @ to_be16 (of_nat (length inner)) @ [l, 5]"
    using pkt by (simp add: encode_iff header_bytes_def h(1) IPV8_VERSION_def slice_def)
qed

section \<open>One hop\<close>

text \<open>What a node of the path has to have: forwarding under the anchor that certified the source.\<close>

definition relay_node :: "engine_env \<Rightarrow> bytes \<Rightarrow> engine \<Rightarrow> bool" where
  "relay_node ev ca_seed n \<longleftrightarrow> en_fwd n = Some (ed_public (ev_ed ev) ca_seed)"

lemma cert_binding_issued:
  assumes "ed25519_ok ed" "certified ed ca_seed host" "now \<le> cert_not_after (hi_cert host)"
  shows "cert_binding_ok ed (ed_public ed ca_seed) (cert_to_wire (hi_cert host)) (hi_addr host) (public_ed_key ed host) now"
    "length (cert_to_wire (hi_cert host)) = 120"
proof -
  obtain na where c: "hi_cert host = issue_cert ed ca_seed (hi_addr host) (public_ed_key ed host) na"
    using assms(2) by (auto simp: certified_def)
  have ok: "length (public_ed_key ed host) = 32" "\<And>m. length (ed_sign ed ca_seed m) = 64"
    "\<And>m. ed_verify ed (ed_public ed ca_seed) m (ed_sign ed ca_seed m)" "ed_key_ok ed (ed_public ed ca_seed)"
    using assms(1) by (simp_all add: ed25519_ok_def public_ed_key_def)
  have w: "cert_to_wire (hi_cert host) = (to_bytes (hi_addr host) @ public_ed_key ed host @ to_be64 na) @
      ed_sign ed ca_seed (to_bytes (hi_addr host) @ public_ed_key ed host @ to_be64 na)"
    by (simp add: c cert_to_wire_def cert_tbs_def issue_cert_def)
  have na: "now \<le> na" using assms(3) by (simp add: c issue_cert_def)
  show "length (cert_to_wire (hi_cert host)) = 120" using ok by (simp add: w)
  then show "cert_binding_ok ed (ed_public ed ca_seed) (cert_to_wire (hi_cert host)) (hi_addr host) (public_ed_key ed host) now"
    using ok na by (simp add: cert_binding_ok_def Let_def w slice_append_left slice_append_skip slice_full)
qed

lemma multihop_decision:
  assumes "multihop_header ev src host inner dst hops hl = Inr h" "encode h inner = Inr whole"
    and "ed25519_ok (ev_ed ev)" "certified (ev_ed ev) ca_seed host" "hi_addr host = en_local src" "now \<le> cert_not_after (hi_cert host)"
    and "distinct hops" "k < length hops" "k \<le> unat hl" "en_local n = hops ! k" "relay_node ev ca_seed n"
    and "encode (h\<lparr>hdr_hop_limit := hl - of_nat k\<rparr>) inner = Inr pkt"
  shows "engine_route_decision ev n \<lparr>dec_header = h\<lparr>hdr_hop_limit := hl - of_nat k\<rparr>, dec_payload = inner\<rparr> pkt now
    = Some (if k + 1 = length hops then Deliver else ForwardTo (hops ! (k + 1)) (k + 1))"
proof -
  let ?spec = "\<lparr>ps_src_addr = en_local src, ps_dst_addr = dst, ps_min_compat_ver = 0,
       ps_flags = FLAG_ENCRYPTED OR FLAG_HAS_EXTENSION, ps_payload_len = of_nat (length inner), ps_init_hop_limit = hl,
       ps_hops = hops, ps_src_pubkey = public_ed_key (ev_ed ev) host\<rparr>"
  obtain t tp where t: "build_route_trace ?spec (host_sign (ev_ed ev) host) = Inr t" "route_trace_from_payload tp = Inr t"
    and h: "h = \<lparr>hdr_version = IPV8_VERSION, hdr_min_compat_ver = 0, hdr_flags = FLAG_ENCRYPTED OR FLAG_HAS_EXTENSION,
       hdr_payload_len = of_nat (length inner), hdr_hop_limit = hl, hdr_next_header = 5, hdr_src_addr = en_local src,
       hdr_dst_addr = dst, hdr_ext_headers = [\<lparr>ext_type = RouteTrace, ext_payload = tp\<rparr>,
         \<lparr>ext_type = IdentityToken, ext_payload = cert_to_wire (hi_cert host)\<rparr>]\<rparr>"
    and hops: "hops \<noteq> []" "length hops \<le> 64" "last hops = dst"
    by (rule multihop_header_ok [OF assms(1,3)]) (rule that; assumption)
  note head7 = multihop_lowered(3) [OF assms(1,3,2,12)]
  have fh: "frozen_head (slice 0 7 pkt) \<noteq> None"
    unfolding head7 by (simp add: frozen_head_def to_be16_def numeral_eq_Suc)
  note cert = cert_binding_issued [OF assms(3,4,6)]
  have "\<exists>t. build_route_trace ?spec (host_sign (ev_ed ev) host) = Inr t \<and> verify_for_next_hop (ev_ed ev)
      \<lparr>vi_local_addr = ps_hops ?spec ! k, vi_trace = t, vi_head7 = slice 0 7 pkt, vi_src_addr = ps_src_addr ?spec,
       vi_dst_addr = ps_dst_addr ?spec, vi_current_hop_limit = hl - of_nat k, vi_cert_wire = cert_to_wire (hi_cert host),
       vi_anchor_pub = ed_public (ev_ed ev) ca_seed, vi_now = now\<rparr>
      = Inr (if k + 1 = length (ps_hops ?spec) then Deliver else ForwardTo (ps_hops ?spec ! (k + 1)) (k + 1))"
    by (rule trace_followed)
       (use hops assms(3,5,7-9) cert(1) head7 in \<open>simp_all add: ed25519_ok_def public_ed_key_def host_sign_def\<close>)
  then have "verify_for_next_hop (ev_ed ev)
      \<lparr>vi_local_addr = hops ! k, vi_trace = t, vi_head7 = slice 0 7 pkt, vi_src_addr = en_local src,
       vi_dst_addr = dst, vi_current_hop_limit = hl - of_nat k, vi_cert_wire = cert_to_wire (hi_cert host),
       vi_anchor_pub = ed_public (ev_ed ev) ca_seed, vi_now = now\<rparr>
      = Inr (if k + 1 = length hops then Deliver else ForwardTo (hops ! (k + 1)) (k + 1))"
    using t(1) by auto
  then show ?thesis
    using fh t(2) cert(2) assms(10,11)
    by (auto simp: engine_route_decision_def h relay_node_def first_of_type_def ok_of_def)
qed

lemma multihop_ingest:
  assumes "multihop_header ev src host inner dst hops hl = Inr h" "encode h inner = Inr whole"
    and "ed25519_ok (ev_ed ev)" "certified (ev_ed ev) ca_seed host" "hi_addr host = en_local src" "now \<le> cert_not_after (hi_cert host)"
    and "distinct hops" "k < length hops" "k \<le> unat hl" "en_local n = hops ! k" "relay_node ev ca_seed n"
    and "encode (h\<lparr>hdr_hop_limit := hl - of_nat k\<rparr>) inner = Inr pkt"
  shows "k + 1 = length hops \<Longrightarrow> ingest_ipv8_packet ev pkt now n = deliver inner n"
    "k + 1 \<noteq> length hops \<Longrightarrow> k + 1 < unat hl \<Longrightarrow> \<exists>pkt'. encode (h\<lparr>hdr_hop_limit := hl - of_nat (k + 1)\<rparr>) inner = Inr pkt'
       \<and> ingest_ipv8_packet ev pkt now n =
          n\<lparr>en_forwarded := en_forwarded n + 1, en_forward_out := en_forward_out n @ [(hops ! (k + 1), pkt')]\<rparr>"
proof -
  note d = multihop_decision [OF assms]
  note dec = multihop_lowered(2) [OF assms(1,3,2,12)]
  note nh = multihop_fields [OF assms(1,3)]
  show "ingest_ipv8_packet ev pkt now n = deliver inner n" if "k + 1 = length hops"
  proof -
    have "hops \<noteq> []" using assms(8) by auto
    then have "hops ! k = dst" using that nh(3) by (simp add: last_conv_nth flip: that)
    then show ?thesis using that d dec assms(10) nh by (simp add: ingest_ipv8_packet_def)
  qed
  assume k: "k + 1 \<noteq> length hops" "k + 1 < unat hl"
  have "unat hl < 256" using unsigned_less [of hl, where 'a = nat] by simp
  then have u: "unat (hl - of_nat k) = unat hl - k"
    using k by (simp add: unat_sub_if' unat_of_nat take_bit_nat_eq_self)
  have "x \<noteq> 0 \<and> 0 < x - 1" if "1 < unat x" for x :: u8
  proof -
    have "x \<noteq> 0" using that by auto
    then show ?thesis using that by (simp add: word_less_nat_alt unat_minus_one)
  qed
  from this [of "hl - of_nat k"] have "hl - of_nat k \<noteq> 0 \<and> 0 < hl - of_nat k - 1" using u k by linarith
  then have f: "forward_packet \<lparr>dec_header = h\<lparr>hdr_hop_limit := hl - of_nat k\<rparr>, dec_payload = inner\<rparr> (hops ! (k + 1)) n =
      n\<lparr>en_forwarded := en_forwarded n + 1, en_forward_out := en_forward_out n @ [(hops ! (k + 1), pkt')]\<rparr>"
    if "encode (h\<lparr>hdr_hop_limit := hl - of_nat k - 1\<rparr>) inner = Inr pkt'" for pkt'
    using that by (simp add: forward_packet_def Let_def)
  have i: "ingest_ipv8_packet ev pkt now n =
      forward_packet \<lparr>dec_header = h\<lparr>hdr_hop_limit := hl - of_nat k\<rparr>, dec_payload = inner\<rparr> (hops ! (k + 1)) n"
    using k(1) d dec nh(1) by (simp add: ingest_ipv8_packet_def)
  have e: "hl - of_nat (k + 1) = hl - of_nat k - 1" by simp
  show "\<exists>pkt'. encode (h\<lparr>hdr_hop_limit := hl - of_nat (k + 1)\<rparr>) inner = Inr pkt'
       \<and> ingest_ipv8_packet ev pkt now n =
          n\<lparr>en_forwarded := en_forwarded n + 1, en_forward_out := en_forward_out n @ [(hops ! (k + 1), pkt')]\<rparr>"
    unfolding i e using multihop_lowered(1) [OF assms(1,3,2)] f by blast
qed

section \<open>The whole way\<close>

text \<open>The nodes hand the packet on: each ingests what the one before took out for it.\<close>

fun travel :: "engine_env \<Rightarrow> u64 \<Rightarrow> bytes \<Rightarrow> engine list \<Rightarrow> bytes option" where
  "travel ev now pkt [] = None"
| "travel ev now pkt (n # ns) = (case take_forward_packet (ingest_ipv8_packet ev pkt now n) of
     (n', None) \<Rightarrow> (if ns = [] then snd (take_delivered n') else None)
   | (n', Some (nxt, pkt')) \<Rightarrow> (case ns of m # _ \<Rightarrow> if en_local m = nxt then travel ev now pkt' ns else None | [] \<Rightarrow> None))"

lemma travel_from:
  assumes "multihop_header ev src host inner dst hops hl = Inr h" "encode h inner = Inr whole"
    and "ed25519_ok (ev_ed ev)" "certified (ev_ed ev) ca_seed host" "hi_addr host = en_local src" "now \<le> cert_not_after (hi_cert host)"
    and "distinct hops" "length hops \<le> unat hl"
  shows "\<lbrakk>k < length hops; map en_local ns = drop k hops; \<forall>n \<in> set ns. relay_node ev ca_seed n \<and> en_forward_out n = [];
      encode (h\<lparr>hdr_hop_limit := hl - of_nat k\<rparr>) inner = Inr pkt\<rbrakk> \<Longrightarrow> travel ev now pkt ns = Some inner"
proof (induction ns arbitrary: k pkt)
  case (Cons n ns)
  have n: "en_local n = hops ! k" "map en_local ns = drop (k + 1) hops" "relay_node ev ca_seed n" "en_forward_out n = []"
    using Cons.prems by (auto simp: Cons_nth_drop_Suc [symmetric])
  note step = multihop_ingest [OF assms(1-7) Cons.prems(1) _ n(1,3) Cons.prems(4)]
  show ?case
  proof (cases "k + 1 = length hops")
    case True
    then show ?thesis using step(1) assms(8) n(2,4)
      by (simp add: take_forward_packet_def deliver_def take_delivered_def)
  next
    case False
    then obtain pkt' where p: "encode (h\<lparr>hdr_hop_limit := hl - of_nat (k + 1)\<rparr>) inner = Inr pkt'"
      "ingest_ipv8_packet ev pkt now n =
          n\<lparr>en_forwarded := en_forwarded n + 1, en_forward_out := en_forward_out n @ [(hops ! (k + 1), pkt')]\<rparr>"
      using step(2) assms(8) Cons.prems(1) by fastforce
    have lt: "k + 1 < length hops" using False Cons.prems(1) by simp
    then obtain m ms where ns: "ns = m # ms" "en_local m = hops ! (k + 1)"
      using n(2) by (cases ns) (auto simp: Cons_nth_drop_Suc [symmetric])
    have "travel ev now pkt' ns = Some inner" by (rule Cons.IH [OF lt n(2) _ p(1)]) (use Cons.prems(3) in simp)
    then show ?thesis using ns n(4) by (simp add: p(2) take_forward_packet_def)
  qed
qed simp

text \<open>
  C7. A packet reaches its destination along the signed path: whatever the source with a valid certificate seals for
  a list of distinct relays, at most as many as its hop limit, is handed on by every relay that trusts the same
  anchor and delivered, unchanged, by the last one.
\<close>

theorem multihop_reaches_destination:
  assumes "multihop_header ev src host inner dst hops hl = Inr h" "encode h inner = Inr pkt"
    and "ed25519_ok (ev_ed ev)" "certified (ev_ed ev) ca_seed host" "hi_addr host = en_local src" "now \<le> cert_not_after (hi_cert host)"
    and "distinct hops" "length hops \<le> unat hl"
    and "map en_local ns = hops" "\<forall>n \<in> set ns. relay_node ev ca_seed n \<and> en_forward_out n = []"
  shows "travel ev now pkt ns = Some inner"
proof -
  note z = multihop_fields(4,5) [OF assms(1,3)]
  then have "h\<lparr>hdr_hop_limit := hl - of_nat 0\<rparr> = h" by auto
  then show ?thesis using travel_from [OF assms(1-8), of 0 ns pkt] z(2) assms(2,9,10) by simp
qed

text \<open>Two relays and a source of one CA.\<close>

definition toy_relay :: "nat \<Rightarrow> engine" where
  "toy_relay n = enable_forwarding (ed_public toy_ed [9]) (toy_engine n 1)"

lemma toy_relay_simps:
  "en_local (toy_relay n) = addr_with_region (of_nat n) 1 0 2 0" "relay_node toy_env [9] (toy_relay n)" "en_forward_out (toy_relay n) = []"
  "en_local (toy_engine n m) = addr_with_region (of_nat n) 1 0 2 0" "en_delivered_inbound (toy_relay n) = 0"
  by (simp_all add: toy_relay_def toy_engine_def engine_authenticated_def enable_forwarding_def relay_node_def toy_env_def
      toy_host_def provision_def)

lemma toy_env_simps: "ev_ed toy_env = toy_ed" "ev_x toy_env = toy_x25519" "ev_crypto toy_env = toy_crypto"
  by (simp_all add: toy_env_def)

lemma toy_addr_distinct: "addr_with_region 2 1 0 2 0 \<noteq> addr_with_region 3 1 0 2 0"
  by (simp add: addr_with_region_def addr_new_def)

lemma toy_multihop:
  obtains h pkt where "multihop_header toy_env (toy_engine 1 2) (toy_host 1) [1, 2, 3] (addr_with_region 3 1 0 2 0)
      [addr_with_region 2 1 0 2 0, addr_with_region 3 1 0 2 0] 64 = Inr h" "encode h [1, 2, 3] = Inr pkt"
proof -
  let ?hops = "[addr_with_region 2 1 0 2 0, addr_with_region 3 1 0 2 0]"
  have l: "length (cert_to_wire (hi_cert (toy_host 1))) = 120"
    by (rule cert_binding_issued(2) [OF toy_ed_ok toy_host_certified(1), of 0]) (simp add: toy_host_certified(2))
  have t: "route_trace_to_payload \<lparr>rt_src_pubkey = replicate 32 7, rt_path_sig = replicate 64 9, rt_init_hop_limit = 64, rt_hops = ?hops\<rparr>
      = Inr ((replicate 32 7 @ replicate 64 9 @ [of_nat (length ?hops), 64] @ replicate 6 0) @ concat (map to_bytes ?hops))"
    by (subst route_trace_payload_eq) simp_all
  have "\<exists>h. multihop_header toy_env (toy_engine 1 2) (toy_host 1) [1, 2, 3] (addr_with_region 3 1 0 2 0) ?hops 64 = Inr h \<and> encodable h
      \<and> hdr_payload_len h = 3"
    using l unfolding multihop_header_def Let_def build_route_trace_def host_sign_def public_ed_key_def toy_env_def
    by (simp add: toy_ed_def t ext_new_def)
       (simp add: encodable_def attach_ext_headers_def header_new_def first_type_def const_defs wire_size_def reserved_ok_def has_extension_def)
  then show ?thesis using that by (auto simp: encode_iff)
qed

lemma multihop_reaches_destination_witness:
  "\<exists>h pkt. multihop_header toy_env (toy_engine 1 2) (toy_host 1) [1, 2, 3] (addr_with_region 3 1 0 2 0)
      [addr_with_region 2 1 0 2 0, addr_with_region 3 1 0 2 0] 64 = Inr h \<and> encode h [1, 2, 3] = Inr pkt
      \<and> travel toy_env 5 pkt [toy_relay 2, toy_relay 3] = Some [1, 2, 3]"
proof -
  obtain h pkt where p: "multihop_header toy_env (toy_engine 1 2) (toy_host 1) [1, 2, 3] (addr_with_region 3 1 0 2 0)
      [addr_with_region 2 1 0 2 0, addr_with_region 3 1 0 2 0] 64 = Inr h" "encode h [1, 2, 3] = Inr pkt"
    by (rule toy_multihop)
  have "travel toy_env 5 pkt [toy_relay 2, toy_relay 3] = Some [1, 2, 3]"
    by (rule multihop_reaches_destination [OF p, where ca_seed = "[9]"])
       (use toy_addr_distinct toy_ed_ok toy_host_certified [of 1] in
         \<open>simp_all add: toy_relay_simps toy_env_simps, simp_all add: toy_host_def provision_def\<close>)
  with p show ?thesis by blast
qed

text \<open>The first relay of the path, with the packet as the source sends it.\<close>

lemma toy_first_relay:
  assumes "multihop_header toy_env (toy_engine 1 2) (toy_host 1) [1, 2, 3] (addr_with_region 3 1 0 2 0)
      [addr_with_region 2 1 0 2 0, addr_with_region 3 1 0 2 0] 64 = Inr h" "encode h [1, 2, 3] = Inr pkt" "now \<le> 100"
  shows "decode pkt = Inr \<lparr>dec_header = h, dec_payload = [1, 2, 3]\<rparr>"
    "engine_route_decision toy_env (toy_relay 2) \<lparr>dec_header = h, dec_payload = [1, 2, 3]\<rparr> pkt now
       = Some (ForwardTo (addr_with_region 3 1 0 2 0) 1)"
    "\<exists>pkt'. ingest_ipv8_packet toy_env pkt now (toy_relay 2)
       = (toy_relay 2)\<lparr>en_forwarded := 1, en_forward_out := [(addr_with_region 3 1 0 2 0, pkt')]\<rparr>"
proof -
  have ed: "ed25519_ok (ev_ed toy_env)" using toy_ed_ok by (simp add: toy_env_simps)
  have h: "h\<lparr>hdr_hop_limit := 64 - of_nat 0\<rparr> = h" using multihop_fields(4) [OF assms(1) ed] by auto
  have e: "encode (h\<lparr>hdr_hop_limit := 64 - of_nat 0\<rparr>) [1, 2, 3] = Inr pkt" unfolding h by (rule assms(2))
  have c: "certified (ev_ed toy_env) [9] (toy_host 1)" "hi_addr (toy_host 1) = en_local (toy_engine 1 2)"
    "now \<le> cert_not_after (hi_cert (toy_host 1))" "distinct [addr_with_region 2 1 0 2 0, addr_with_region 3 1 0 2 0]"
    "0 < length [addr_with_region 2 1 0 2 0, addr_with_region 3 1 0 2 0]" "0 \<le> unat (64 :: u8)"
    "en_local (toy_relay 2) = [addr_with_region 2 1 0 2 0, addr_with_region 3 1 0 2 0] ! 0"
    using toy_host_certified [of 1] toy_addr_distinct assms(3) by (simp_all add: toy_relay_simps toy_env_simps) (simp add: toy_host_def provision_def)
  show "decode pkt = Inr \<lparr>dec_header = h, dec_payload = [1, 2, 3]\<rparr>"
    using multihop_lowered(2) [OF assms(1) ed assms(2) e] unfolding h .
  show "engine_route_decision toy_env (toy_relay 2) \<lparr>dec_header = h, dec_payload = [1, 2, 3]\<rparr> pkt now
       = Some (ForwardTo (addr_with_region 3 1 0 2 0) 1)"
    using multihop_decision [OF assms(1,2) ed c toy_relay_simps(2) e] unfolding h by simp
  show "\<exists>pkt'. ingest_ipv8_packet toy_env pkt now (toy_relay 2)
       = (toy_relay 2)\<lparr>en_forwarded := 1, en_forward_out := [(addr_with_region 3 1 0 2 0, pkt')]\<rparr>"
    using multihop_ingest(2) [OF assms(1,2) ed c toy_relay_simps(2) e]
    by (auto simp: toy_relay_simps(3)) (auto simp: toy_relay_def enable_forwarding_def toy_engine_def engine_authenticated_def)
qed

lemma multihop_only_verified_witness:
  "\<exists>pkt d v dec. decode pkt = Inr d \<and> verify_for_next_hop toy_ed v = Inr dec \<and> vi_local_addr v = addr_with_region 2 1 0 2 0
     \<and> vi_head7 v = slice 0 7 pkt \<and> vi_src_addr v = hdr_src_addr (dec_header d) \<and> vi_anchor_pub v = ed_public toy_ed [9]"
proof -
  obtain h pkt where p: "multihop_header toy_env (toy_engine 1 2) (toy_host 1) [1, 2, 3] (addr_with_region 3 1 0 2 0)
      [addr_with_region 2 1 0 2 0, addr_with_region 3 1 0 2 0] 64 = Inr h" "encode h [1, 2, 3] = Inr pkt"
    by (rule toy_multihop)
  have five: "(5 :: u64) \<le> 100" by simp
  note r = toy_first_relay [OF p five]
  have nh: "hdr_next_header (dec_header \<lparr>dec_header = h, dec_payload = [1, 2, 3]\<rparr>) = 5"
    using multihop_fields(1) [OF p(1)] toy_ed_ok by (simp add: toy_env_simps)
  have "en_forward_out (ingest_ipv8_packet toy_env pkt 5 (toy_relay 2)) \<noteq> en_forward_out (toy_relay 2)"
    using r(3) by (auto simp: toy_relay_simps)
  then have "\<exists>anchor v dec. en_fwd (toy_relay 2) = Some anchor \<and> verify_for_next_hop (ev_ed toy_env) v = Inr dec
    \<and> vi_local_addr v = en_local (toy_relay 2) \<and> vi_anchor_pub v = anchor \<and> vi_head7 v = slice 0 7 pkt \<and> vi_src_addr v = hdr_src_addr h"
    using multihop_only_verified [OF r(1) nh refl, where en = "toy_relay 2" and ev = toy_env and now = 5] by auto
  then obtain v dec where "verify_for_next_hop toy_ed v = Inr dec" "vi_local_addr v = addr_with_region 2 1 0 2 0"
    "vi_anchor_pub v = ed_public toy_ed [9]" "vi_head7 v = slice 0 7 pkt" "vi_src_addr v = hdr_src_addr h"
    using toy_relay_simps(2) [of 2] by (auto simp: toy_relay_simps toy_env_simps relay_node_def)
  then show ?thesis
    by (intro exI [of _ pkt] exI [of _ "\<lparr>dec_header = h, dec_payload = [1, 2, 3]\<rparr>"] exI [of _ v] exI [of _ dec])
       (simp add: r(1))
qed

lemma clockless_handler_skips_expiry_witness:
  "\<exists>d pkt. engine_route_decision toy_env (toy_relay 2) d pkt 0 \<noteq> None \<and> engine_route_decision toy_env (toy_relay 2) d pkt 101 = None"
proof -
  obtain h pkt where p: "multihop_header toy_env (toy_engine 1 2) (toy_host 1) [1, 2, 3] (addr_with_region 3 1 0 2 0)
      [addr_with_region 2 1 0 2 0, addr_with_region 3 1 0 2 0] 64 = Inr h" "encode h [1, 2, 3] = Inr pkt"
    by (rule toy_multihop)
  have "(0 :: u64) \<le> 100" by simp
  note r = toy_first_relay [OF p this]
  have ed: "ed25519_ok (ev_ed toy_env)" using toy_ed_ok by (simp add: toy_env_simps)
  obtain tp where "hdr_ext_headers h = [\<lparr>ext_type = RouteTrace, ext_payload = tp\<rparr>,
         \<lparr>ext_type = IdentityToken, ext_payload = cert_to_wire (hi_cert (toy_host 1))\<rparr>]"
    by (rule multihop_header_ok [OF p(1) ed], rule that, simp only: ipv8_header.select_convs)
  then have i: "first_of_type IdentityToken (hdr_ext_headers (dec_header \<lparr>dec_header = h, dec_payload = [1, 2, 3]\<rparr>))
      = Some \<lparr>ext_type = IdentityToken, ext_payload = cert_to_wire (hi_cert (toy_host 1))\<rparr>"
    by (simp add: first_of_type_def)
  have "from_be (slice 48 56 (cert_to_wire (hi_cert (toy_host 1)))) = (100 :: u64)"
    by (simp add: cert_to_wire_def toy_host_def provision_def issue_cert_def cert_tbs_def toy_ed_def
        slice_append_left slice_append_skip slice_full)
  then have "engine_route_decision toy_env (toy_relay 2) \<lparr>dec_header = h, dec_payload = [1, 2, 3]\<rparr> pkt 101 = None"
    using clockless_handler_skips_expiry [OF r(2) i] by simp
  then show ?thesis using r(2) by blast
qed

end
