(* ===== verification/EngineDelivery.thy ===== *)
theory EngineDelivery
  imports EngineMultihop
begin

text \<open>
  From the handshake of two engines to the inner IP packets that come out: what one engine seals, in one frame
  or many, the other delivers.
\<close>

section \<open>A list of packets through the tunnel\<close>

fun decap_all :: "crypto \<Rightarrow> tunnel_keys \<Rightarrow> bytes list \<Rightarrow> tunnel_keys \<times> (frame_error + bytes) list" where
  "decap_all cr b [] = (b, [])"
| "decap_all cr b (f # fs) = (case decapsulate cr b f of (b, r) \<Rightarrow>
     (case decap_all cr b fs of (b, rs) \<Rightarrow> (b, r # rs)))"

lemma encapsulate_all_in_sync:
  assumes "aead_correct cr" "aead_total cr" "aead_length cr"
  shows "in_sync cr a b \<Longrightarrow> unat (tk_send_epoch a) + length pkts * unat (tk_stride a) < 2 ^ 56 \<Longrightarrow>
    \<forall>pkt \<in> set pkts. proper_packet pkt \<Longrightarrow>
    \<exists>a' b' frames. encapsulate_all cr t a pkts = (a', Ok frames) \<and> decap_all cr b frames = (b', map Inr pkts)
      \<and> in_sync cr a' b' \<and> tk_stride a' = tk_stride a
      \<and> unat (tk_send_epoch a') \<le> unat (tk_send_epoch a) + length pkts * unat (tk_stride a)"
proof (induction pkts arbitrary: a b)
  case (Cons pkt pkts)
  have "unat (tk_send_epoch a) + unat (tk_stride a) < 2 ^ 56" "proper_packet pkt" using Cons.prems(2,3) by auto
  from tunnel_step [OF assms Cons.prems(1) this, of t] obtain a1 b1 frame where
    st: "encapsulate cr t a pkt = Ok (a1, frame)" "decapsulate cr b frame = (b1, Inr pkt)"
      "in_sync cr a1 b1" "unat (tk_send_epoch a1) \<le> unat (tk_send_epoch a) + unat (tk_stride a)"
      "tk_stride a1 = tk_stride a" by blast
  have "unat (tk_send_epoch a1) + length pkts * unat (tk_stride a1) < 2 ^ 56" using st(4,5) Cons.prems(2) by simp
  from Cons.IH [OF st(3) this] Cons.prems(3) obtain a' b' frames where
    r: "encapsulate_all cr t a1 pkts = (a', Ok frames)" "decap_all cr b1 frames = (b', map Inr pkts)"
      "in_sync cr a' b'" "tk_stride a' = tk_stride a1"
      "unat (tk_send_epoch a') \<le> unat (tk_send_epoch a1) + length pkts * unat (tk_stride a1)" by auto
  have "unat (tk_send_epoch a') \<le> unat (tk_send_epoch a) + length (pkt # pkts) * unat (tk_stride a)"
    using r(5) st(4,5) by simp
  then show ?case using st r by auto
qed simp

lemma encapsulate_all_length: "encapsulate_all cr t a pkts = (a', Ok frames) \<Longrightarrow> length frames = length pkts"
  by (induction pkts arbitrary: a frames) (auto split: outcome.splits prod.splits)

lemma decapsulated_frame:
  assumes "decapsulate cr b f = (b', Inr pkt)"
  shows "\<exists>kid. parse_head f = Inr \<lparr>fh_type = Data, fh_key_id = kid\<rparr>"
proof -
  obtain hd where "parse_head f = Inr hd" "fh_type hd = Data"
    using assms by (auto simp: decapsulate_def split: sum.splits if_splits)
  then show ?thesis by (cases hd) auto
qed

section \<open>An engine that receives them\<close>

text \<open>The frames arrive one by one; after each, the caller takes what was delivered.\<close>

fun receive_frames :: "engine_env \<Rightarrow> u64 \<Rightarrow> (nat \<times> bytes) list \<Rightarrow> engine \<Rightarrow> (unit, engine \<times> bytes list) outcome" where
  "receive_frames ev now [] en = Ok (en, [])"
| "receive_frames ev now ((t, f) # fs) en = (case handle_frame_at ev t [] f now en of
     Ok (en, _) \<Rightarrow> (case take_delivered en of (en, x) \<Rightarrow>
       (case receive_frames ev now fs en of
          Ok (en, xs) \<Rightarrow> Ok (en, (case x of None \<Rightarrow> xs | Some p \<Rightarrow> p # xs))
        | Err e \<Rightarrow> Err e | Panic \<Rightarrow> Panic))
   | Err e \<Rightarrow> Err e
   | Panic \<Rightarrow> Panic)"

text \<open>Nothing of this source is being reassembled, and there is room.\<close>

definition ready_for :: "ipv8_header \<Rightarrow> reassembler \<Rightarrow> bool" where
  "ready_for h gs \<longleftrightarrow> (\<forall>ident. map_of gs (piece_key h ident) = None) \<and> length gs < MAX_GROUPS"

text \<open>One group of this source is being reassembled.\<close>

definition busy_for :: "ipv8_header \<Rightarrow> u32 \<Rightarrow> frag_group \<Rightarrow> reassembler \<Rightarrow> bool" where
  "busy_for h ident g gs \<longleftrightarrow> (\<forall>i. i \<noteq> ident \<longrightarrow> map_of gs (piece_key h i) = None)
     \<and> map_of gs (piece_key h ident) = Some g \<and> length gs \<le> MAX_GROUPS"

lemma piece_key_inject [simp]: "piece_key h i = piece_key h j \<longleftrightarrow> i = j"
  by (simp add: piece_key_def)

lemma length_update: "length (AList.update k v al) = (if map_of al k = None then length al + 1 else length al)"
  by (induction al) auto

lemma length_delete: "map_of al k \<noteq> None \<Longrightarrow> length (AList.delete k al) < length al"
proof -
  assume "map_of al k \<noteq> None"
  then obtain v where "(k, v) \<in> set al" by (auto dest: map_of_SomeD)
  then show ?thesis unfolding AList.delete_eq by (intro length_filter_less [of "(k, v)"]) auto
qed

lemma length_delete_le: "length (AList.delete k al) \<le> length al"
  by (simp add: AList.delete_eq)

lemma ready_busy:
  assumes "ready_for h gs"
  shows "busy_for h ident g' (AList.update (piece_key h ident) g' (reap t gs))"
    "ready_for h (AList.delete (piece_key h ident) (reap t gs))"
proof -
  have none: "map_of (reap t gs) (piece_key h i) = None" for i
    using assms map_of_reap(2) by (simp add: ready_for_def)
  have len: "length (reap t gs) < MAX_GROUPS" using assms length_reap [of t gs] by (simp add: ready_for_def)
  show "busy_for h ident g' (AList.update (piece_key h ident) g' (reap t gs))"
    using none len by (auto simp: busy_for_def update_conv' length_update)
  show "ready_for h (AList.delete (piece_key h ident) (reap t gs))"
    using none len le_less_trans [OF length_delete_le len]
    by (simp add: ready_for_def AList.delete_conv')
qed

lemma busy_busy:
  assumes "busy_for h ident g gs" "t - fg_created g < REASSEMBLY_TIMEOUT"
  shows "busy_for h ident g' (AList.update (piece_key h ident) g' (reap t gs))"
    "ready_for h (AList.delete (piece_key h ident) (reap t gs))"
proof -
  have none: "map_of (reap t gs) (piece_key h i) = None" if "i \<noteq> ident" for i
    using assms(1) that map_of_reap(2) by (simp add: busy_for_def)
  have some: "map_of (reap t gs) (piece_key h ident) = Some g"
    using assms map_of_reap(1) by (simp add: busy_for_def)
  have len: "length (reap t gs) \<le> MAX_GROUPS" using assms(1) length_reap [of t gs] by (simp add: busy_for_def)
  show "busy_for h ident g' (AList.update (piece_key h ident) g' (reap t gs))"
    using none some len by (auto simp: busy_for_def update_conv' length_update)
  show "ready_for h (AList.delete (piece_key h ident) (reap t gs))"
    using none some len length_delete [of "reap t gs" "piece_key h ident"] by (auto simp: ready_for_def AList.delete_conv')
qed

text \<open>One piece at the engine.\<close>

lemma handle_piece:
  assumes "en_keys en = Some kb" "decapsulate (ev_crypto ev) kb f = (kb', Inr (piece h p c ident k))"
    and "splittable h p c n" "k < n" "reasm_insert t (piece_header h p c ident k) (piece_data p c k) (en_reasm en) = (gs, Ok r)"
    and "hdr_next_header h \<noteq> 5" "chain_ok (hdr_ext_headers h)"
    and "r = None \<or> r = Some (header_bytes h @ chain_bytes (hdr_ext_headers h) @ p)"
  shows "\<exists>en'. handle_frame_at ev t eph f now en = Ok (en', None) \<and> en_keys en' = Some kb' \<and> en_reasm en' = gs
    \<and> en_delivered en' = (if r = None then en_delivered en else Some p)"
proof -
  obtain kid where hd: "parse_head f = Inr \<lparr>fh_type = Data, fh_key_id = kid\<rparr>" using decapsulated_frame [OF assms(2)] by blast
  have dec: "decode (piece h p c ident k) = Inr \<lparr>dec_header = piece_header h p c ident k, dec_payload = piece_data p c k\<rparr>"
    by (rule decode_piece [OF assms(3,4)])
  have fl: "hdr_flags (piece_header h p c ident k) AND FLAG_FRAGMENT \<noteq> 0"
    using fragment_flag_bits(1) unfolding piece_header_def is_fragment_def by blast
  have whole: "decode (header_bytes h @ chain_bytes (hdr_ext_headers h) @ p) = Inr \<lparr>dec_header = h, dec_payload = p\<rparr>"
    by (rule decode_encoded [where junk = "[]"]) (use assms(3,7) in \<open>simp_all add: splittable_def\<close>)
  show ?thesis
  proof (cases r)
    case None
    then show ?thesis using assms(1,2,5) hd dec fl by (simp add: handle_frame_at_def handle_data_def Let_def)
  next
    case (Some w)
    then have "r = Some (header_bytes h @ chain_bytes (hdr_ext_headers h) @ p)" using assms(8) by simp
    then show ?thesis using assms(1,2,5,6) hd dec fl whole
      by (simp add: handle_frame_at_def handle_data_def Let_def ingest_ipv8_packet_def deliver_def)
  qed
qed

text \<open>The reassembler as the pieces of a packet arrive in order.\<close>

primrec reasm_states :: "ipv8_header \<Rightarrow> bytes \<Rightarrow> nat \<Rightarrow> u32 \<Rightarrow> (nat \<Rightarrow> nat) \<Rightarrow> reassembler \<Rightarrow> nat \<Rightarrow> reassembler" where
  "reasm_states h p c ident arrive gs 0 = gs"
| "reasm_states h p c ident arrive gs (Suc k) =
     fst (reasm_insert (arrive k) (piece_header h p c ident k) (piece_data p c k) (reasm_states h p c ident arrive gs k))"

lemma reasm_piece_at:
  assumes "splittable h p c n" "ready_for h gs" "\<forall>i. arrive i - arrive 0 < REASSEMBLY_TIMEOUT"
    and G_def: "G = reasm_states h p c ident arrive gs"
  shows "k < n \<Longrightarrow> (if k = 0 then ready_for h (G k)
      else \<exists>m g. group_state h p c n (arrive 0) {0..<k} m g \<and> busy_for h ident g (G k))
    \<and> snd (reasm_insert (arrive k) (piece_header h p c ident k) (piece_data p c k) (G k)) =
        Ok (if k + 1 = n then Some (header_bytes h @ chain_bytes (hdr_ext_headers h) @ p) else None)
    \<and> (if k + 1 = n then ready_for h (G (k + 1))
       else \<exists>m g. group_state h p c n (arrive 0) {0..<k + 1} m g \<and> busy_for h ident g (G (k + 1)))"
proof (induction k)
  case (0)
  have n: "0 < n" by (rule "0.prems")
  have r: "ready_for h (G 0)" using assms(2) by (simp add: G_def)
  have g0: "map_of (G 0) (piece_key h ident) = Some (group_new (arrive 0) (piece_header h p c ident 0)) \<or>
         map_of (G 0) (piece_key h ident) = None \<and> length (G 0) < MAX_GROUPS
           \<and> group_new (arrive 0) (piece_header h p c ident 0) = group_new (arrive 0) (piece_header h p c ident 0)"
    using r by (simp add: ready_for_def)
  have tt: "arrive 0 - arrive 0 < REASSEMBLY_TIMEOUT" using assms(3) by blast
  have notin: "0 \<notin> ({} :: nat set)" by simp
  note step = receive_piece [OF assms(1) n notin group_state_new [OF n] g0 tt]
  have G1: "G 1 = fst (reasm_insert (arrive 0) (piece_header h p c ident 0) (piece_data p c 0) (G 0))" by (simp add: G_def)
  show ?case
  proof (cases "n = 1")
    case True
    then have "insert 0 {} = {0..<n}" by auto
    then have st: "reasm_insert (arrive 0) (piece_header h p c ident 0) (piece_data p c 0) (G 0) =
        (AList.delete (piece_key h ident) (reap (arrive 0) (G 0)), Ok (Some (header_bytes h @ chain_bytes (hdr_ext_headers h) @ p)))"
      using step by (simp only: if_True)
    have "ready_for h (G (0 + 1))" using st G1 ready_busy(2) [OF r] by simp
    then show ?thesis using st True r by (simp only: snd_conv if_True simp_thms) simp
  next
    case False
    then have "1 \<in> {0..<n}" using n by simp
    then have "insert 0 {} \<noteq> {0..<n}" by (metis insert_iff empty_iff one_neq_zero)
    then obtain m g where st: "reasm_insert (arrive 0) (piece_header h p c ident 0) (piece_data p c 0) (G 0) =
        (AList.update (piece_key h ident) g (reap (arrive 0) (G 0)), Ok None)" "group_state h p c n (arrive 0) (insert 0 {}) m g"
      using step by (simp only: if_False) blast
    have "insert 0 {} = {0..<0 + (1 :: nat)}" by auto
    then have "\<exists>m g. group_state h p c n (arrive 0) {0..<0 + 1} m g \<and> busy_for h ident g (G 1)"
      using st ready_busy(1) [OF r, of ident g "arrive 0"] G1 by (metis fst_conv)
    then show ?thesis using st(1) False r by simp
  qed
next
  case (Suc k)
  then obtain m g where g: "group_state h p c n (arrive 0) {0..<k + 1} m g" "busy_for h ident g (G (k + 1))"
    using Suc.IH by auto
  have g0: "map_of (G (k + 1)) (piece_key h ident) = Some g \<or>
         map_of (G (k + 1)) (piece_key h ident) = None \<and> length (G (k + 1)) < MAX_GROUPS
           \<and> g = group_new (arrive (k + 1)) (piece_header h p c ident (k + 1))"
    using g(2) by (simp add: busy_for_def)
  have tt: "arrive (k + 1) - arrive 0 < REASSEMBLY_TIMEOUT" using assms(3) by blast
  have k1: "k + 1 < n" "k + 1 \<notin> {0..<k + 1}" using Suc.prems by simp_all
  note step = receive_piece [OF assms(1) k1 g(1) g0 tt]
  have ins: "insert (k + 1) {0..<k + 1} = {0..<k + 2}" by auto
  have created: "arrive (k + 1) - fg_created g < REASSEMBLY_TIMEOUT" using g(1) assms(3) by (simp add: group_state_def)
  have G2: "G (k + 2) = fst (reasm_insert (arrive (k + 1)) (piece_header h p c ident (k + 1)) (piece_data p c (k + 1)) (G (k + 1)))"
    by (simp add: G_def)
  have now: "if k + 1 = 0 then ready_for h (G (k + 1))
      else \<exists>m g. group_state h p c n (arrive 0) {0..<k + 1} m g \<and> busy_for h ident g (G (k + 1))"
    using g by auto
  have eq: "Suc k = k + 1" "k + 1 + 1 = k + 2" by simp_all
  show ?case
  proof (cases "k + 2 = n")
    case True
    then have "insert (k + 1) {0..<k + 1} = {0..<n}" using ins by simp
    then have st: "reasm_insert (arrive (k + 1)) (piece_header h p c ident (k + 1)) (piece_data p c (k + 1)) (G (k + 1)) =
        (AList.delete (piece_key h ident) (reap (arrive (k + 1)) (G (k + 1))), Ok (Some (header_bytes h @ chain_bytes (hdr_ext_headers h) @ p)))"
      using step by (simp only: if_True)
    have "ready_for h (G (k + 2))" using st G2 busy_busy(2) [OF g(2) created] by simp
    then show ?thesis unfolding eq by (intro conjI now) (simp_all only: st snd_conv True if_True refl)
  next
    case False
    then have "{0..<k + 2} \<noteq> {0..<n}" by (metis card_atLeastLessThan diff_zero)
    then obtain m' g' where st: "reasm_insert (arrive (k + 1)) (piece_header h p c ident (k + 1)) (piece_data p c (k + 1)) (G (k + 1)) =
        (AList.update (piece_key h ident) g' (reap (arrive (k + 1)) (G (k + 1))), Ok None)"
        "group_state h p c n (arrive 0) {0..<k + 2} m' g'"
      using step unfolding ins by (simp only: if_False) blast
    have "busy_for h ident g' (G (k + 2))" using st(1) G2 busy_busy(1) [OF g(2) created] by simp
    then show ?thesis unfolding eq using st(2) by (intro conjI now) (simp_all only: st(1) snd_conv False if_False, blast)
  qed
qed

lemma reasm_sequence:
  assumes "splittable h p c n" "ready_for h gs" "\<forall>i. arrive i - arrive 0 < REASSEMBLY_TIMEOUT"
  shows "k < n \<Longrightarrow> reasm_insert (arrive k) (piece_header h p c ident k) (piece_data p c k) (reasm_states h p c ident arrive gs k)
      = (reasm_states h p c ident arrive gs (k + 1), Ok (if k + 1 = n then Some (header_bytes h @ chain_bytes (hdr_ext_headers h) @ p) else None))"
    "ready_for h (reasm_states h p c ident arrive gs n)"
proof -
  note at = reasm_piece_at [OF assms refl, of _ ident]
  show "reasm_insert (arrive k) (piece_header h p c ident k) (piece_data p c k) (reasm_states h p c ident arrive gs k)
      = (reasm_states h p c ident arrive gs (k + 1), Ok (if k + 1 = n then Some (header_bytes h @ chain_bytes (hdr_ext_headers h) @ p) else None))"
    if "k < n"
    using at [OF that] by (intro prod_eqI) simp_all
  have "n - 1 < n" "n - 1 + 1 = n" using assms(1) by (simp_all add: splittable_def)
  then show "ready_for h (reasm_states h p c ident arrive gs n)" using at [of "n - 1"] by metis
qed

lemma decap_pieces:
  assumes "decap_all cr kb frames = (kb', map Inr (map (piece h p c ident) [k..<n]))" "k < n"
  obtains f fs kb1 where "frames = f # fs" "decapsulate cr kb f = (kb1, Inr (piece h p c ident k))"
    "decap_all cr kb1 fs = (kb', map Inr (map (piece h p c ident) [k + 1..<n]))"
proof -
  have upt: "[k..<n] = k # [k + 1..<n]" using assms(2) by (simp add: upt_conv_Cons)
  obtain f fs where "frames = f # fs" using assms(1) upt by (cases frames) (auto split: prod.splits)
  then show ?thesis using that assms(1) unfolding upt by (auto split: prod.splits)
qed

lemma receive_pieces_engine:
  assumes "splittable h p c n" "hdr_next_header h \<noteq> 5" "chain_ok (hdr_ext_headers h)"
    and "ready_for h gs" "\<forall>i. arrive i - arrive 0 < REASSEMBLY_TIMEOUT"
  shows "\<lbrakk>k < n; en_keys en = Some kb; en_delivered en = None; en_reasm en = reasm_states h p c ident arrive gs k;
      decap_all (ev_crypto ev) kb frames = (kb', map Inr (map (piece h p c ident) [k..<n]))\<rbrakk> \<Longrightarrow>
    \<exists>en'. receive_frames ev now (zip (map arrive [k..<n]) frames) en = Ok (en', [p])
      \<and> en_keys en' = Some kb' \<and> ready_for h (en_reasm en') \<and> en_delivered en' = None"
proof (induction "n - k" arbitrary: k en kb frames)
  case (Suc x)
  obtain f fs kb1 where d: "frames = f # fs" "decapsulate (ev_crypto ev) kb f = (kb1, Inr (piece h p c ident k))"
    "decap_all (ev_crypto ev) kb1 fs = (kb', map Inr (map (piece h p c ident) [k + 1..<n]))"
    by (rule decap_pieces [OF Suc.prems(5,1)])
  have upt: "[k..<n] = k # [k + 1..<n]" using Suc.prems(1) by (simp add: upt_conv_Cons)
  note r = reasm_sequence(1) [OF assms(1,4,5) Suc.prems(1), of ident, folded Suc.prems(4)]
  have res: "(if k + 1 = n then Some (header_bytes h @ chain_bytes (hdr_ext_headers h) @ p) else None) = None
      \<or> (if k + 1 = n then Some (header_bytes h @ chain_bytes (hdr_ext_headers h) @ p) else None)
        = Some (header_bytes h @ chain_bytes (hdr_ext_headers h) @ p)" by simp
  obtain en' where en': "handle_frame_at ev (arrive k) [] f now en = Ok (en', None)" "en_keys en' = Some kb1"
    "en_reasm en' = reasm_states h p c ident arrive gs (k + 1)" "en_delivered en' = (if k + 1 = n then Some p else None)"
    using handle_piece [OF Suc.prems(2) d(2) assms(1) Suc.prems(1) r assms(2,3) res, of "[]" now] Suc.prems(3)
    by (cases "k + 1 = n") (auto simp del: reasm_states.simps)
  show ?case
  proof (cases "k + 1 = n")
    case True
    have "fs = []" using d(3) True by (cases fs) (auto split: prod.splits)
    then show ?thesis using en' True d upt reasm_sequence(2) [OF assms(1,4,5), of ident]
      by (auto simp: take_delivered_def simp del: reasm_states.simps)
  next
    case False
    then have k1: "k + 1 < n" "x = n - (k + 1)" "en_delivered en' = None" using Suc.prems(1) Suc.hyps(2) en'(4) by simp_all
    have "en'\<lparr>en_delivered := None\<rparr> = en'" using k1(3) by simp
    then have td: "take_delivered en' = (en', None)" using k1(3) by (simp add: take_delivered_def)
    have "\<exists>en''. receive_frames ev now (zip (map arrive [k + 1..<n]) fs) en' = Ok (en'', [p])
      \<and> en_keys en'' = Some kb' \<and> ready_for h (en_reasm en'') \<and> en_delivered en'' = None"
      by (rule Suc.hyps(1) [OF k1(2,1) en'(2) k1(3) en'(3) d(3)])
    then show ?thesis using en'(1) td unfolding d(1) upt by auto
  qed
qed simp

text \<open>A packet that fits in one frame.\<close>

lemma receive_whole:
  assumes "en_keys en = Some kb" "decapsulate (ev_crypto ev) kb f = (kb', Inr pkt)" "decode pkt = Inr \<lparr>dec_header = h, dec_payload = p\<rparr>"
    and "\<not> is_fragment (hdr_flags h)" "hdr_next_header h \<noteq> 5"
  shows "\<exists>en'. receive_frames ev now [(t, f)] en = Ok (en', [p]) \<and> en_keys en' = Some kb' \<and> en_reasm en' = en_reasm en
    \<and> en_delivered en' = None"
proof -
  obtain kid where "parse_head f = Inr \<lparr>fh_type = Data, fh_key_id = kid\<rparr>" using decapsulated_frame [OF assms(2)] by blast
  then show ?thesis using assms
    by (simp add: handle_frame_at_def handle_data_def Let_def ingest_ipv8_packet_def deliver_def is_fragment_def take_delivered_def)
qed

section \<open>Two engines\<close>

definition ip_hdr :: "ipv8_address \<Rightarrow> ipv8_address \<Rightarrow> bytes \<Rightarrow> ipv8_header" where
  "ip_hdr src dst inner = header_new src dst (of_nat (length inner))"

abbreviation plain_hdr :: "engine \<Rightarrow> bytes \<Rightarrow> ipv8_header" where
  "plain_hdr en inner \<equiv> ip_hdr (en_local en) (en_peer en) inner"

lemma ip_hdr_simps [simp]:
  "hdr_ext_headers (ip_hdr src dst inner) = []" "hdr_next_header (ip_hdr src dst inner) = 0" "hdr_flags (ip_hdr src dst inner) = 0"
  "chain_ok []" "hdr_src_addr (ip_hdr src dst inner) = src" "hdr_dst_addr (ip_hdr src dst inner) = dst"
  by (simp_all add: ip_hdr_def header_new_def chain_ok_def)

lemma ip_hdr_encodes:
  assumes "length inner \<le> 65467"
  shows "encode (ip_hdr src dst inner) inner = Inr (header_bytes (ip_hdr src dst inner) @ inner)"
    "decode (header_bytes (ip_hdr src dst inner) @ inner) = Inr \<lparr>dec_header = ip_hdr src dst inner, dec_payload = inner\<rparr>"
proof -
  have "unat (of_nat (length inner) :: u16) = length inner" using assms by (simp add: unat_of_nat take_bit_nat_eq_self)
  then show e: "encode (ip_hdr src dst inner) inner = Inr (header_bytes (ip_hdr src dst inner) @ inner)"
    using assms by (simp add: encode_iff encodable_def ip_hdr_def header_new_def first_type_def const_defs reserved_ok_def
        has_extension_def word_le_nat_alt)
  show "decode (header_bytes (ip_hdr src dst inner) @ inner) = Inr \<lparr>dec_header = ip_hdr src dst inner, dec_payload = inner\<rparr>"
    using decode_encode_junk [OF e, of "[]"] by simp
qed

lemma build_packet:
  assumes "length inner \<le> 65467"
  shows "encode (plain_hdr en inner) inner = Inr (header_bytes (plain_hdr en inner) @ inner)"
    "build_ipv8_packet en inner = Ok (header_bytes (plain_hdr en inner) @ inner)"
  using ip_hdr_encodes(1) [OF assms, of "en_local en" "en_peer en"] by (simp_all add: build_ipv8_packet_def ip_hdr_def)

lemma ready_for_hdr: "ready_for (ip_hdr src dst inner) gs = ready_for (ip_hdr src dst []) gs"
  by (simp add: ready_for_def piece_key_def)

text \<open>The sender \<open>A\<close> and the receiver \<open>B\<close> of one direction.\<close>

definition linked :: "engine_env \<Rightarrow> engine \<Rightarrow> engine \<Rightarrow> nat \<Rightarrow> bool" where
  "linked ev A B room \<longleftrightarrow> (\<exists>ka kb. en_keys A = Some ka \<and> en_keys B = Some kb \<and> in_sync (ev_crypto ev) ka kb \<and> tk_stride ka = 1
     \<and> unat (tk_send_epoch ka) + room < 2 ^ 56)
   \<and> ready_for (plain_hdr A []) (en_reasm B) \<and> en_delivered B = None \<and> 58 \<le> en_mtu A"

lemma split_count:
  assumes "splittable h p c n"
  shows "n \<le> 8192"
proof -
  have "8 * c * (n - 1) < length p" "0 < c" "length p \<le> 65467" using assms splittable_len by (simp_all add: splittable_def)
  moreover have "8 * (n - 1) \<le> 8 * c * (n - 1)" using \<open>0 < c\<close> by simp
  ultimately show ?thesis by linarith
qed

lemma piece_proper:
  assumes "splittable h p c n" "k < n"
  shows "proper_packet (piece h p c ident k)"
proof -
  have "length (piece_data p c k) = unat (hdr_payload_len (piece_header h p c ident k))"
    using piece_take_small(1) [OF assms] by (simp add: length_piece_data piece_header_def)
  then have "encode (piece_header h p c ident k) (piece_data p c k) = Inr (piece h p c ident k)"
    using piece_header_encodable(1) [OF assms] by (simp add: encode_iff piece_def)
  then show ?thesis by (rule encode_proper) (rule piece_header_encodable(2) [OF assms])
qed

text \<open>The packets that an inner packet becomes.\<close>

lemma packets_of:
  assumes "length inner \<le> 65467" "58 \<le> mtu"
  shows "\<exists>pkts. fragment_packet (header_bytes (ip_hdr src dst inner) @ inner) mtu ident = Inr pkts
    \<and> length pkts \<le> 8192 \<and> (\<forall>pkt \<in> set pkts. proper_packet pkt)
    \<and> (pkts = [header_bytes (ip_hdr src dst inner) @ inner]
       \<or> (\<exists>c n. splittable (ip_hdr src dst inner) inner c n \<and> pkts = map (piece (ip_hdr src dst inner) inner c ident) [0..<n]))"
proof -
  let ?h = "ip_hdr src dst inner"
  let ?whole = "header_bytes ?h @ inner"
  note w = ip_hdr_encodes [OF assms(1), of src dst]
  show ?thesis
  proof (cases "length ?whole \<le> mtu")
    case True
    then have "fragment_packet ?whole mtu ident = Inr [?whole]" unfolding fragment_packet_def w(2) by simp
    moreover have "proper_packet ?whole" using encode_proper [OF w(1)] by simp
    ultimately show ?thesis by simp
  next
    case False
    then have "\<exists>c n. splittable ?h inner c n \<and> fragment_packet ?whole mtu ident =
        Inr (map (piece ?h inner c ident) [0..<n]) \<and> 50 + ext_total (hdr_ext_headers ?h) + 8 * c \<le> mtu"
      by (intro fragment_packet_pieces [OF w(1)]) (use assms(2) in \<open>simp_all add: is_fragment_def MAX_EXT_CHAIN_def\<close>)
    then obtain c n where cn: "splittable ?h inner c n" "fragment_packet ?whole mtu ident = Inr (map (piece ?h inner c ident) [0..<n])" by blast
    then show ?thesis using split_count [OF cn(1)] piece_proper [OF cn(1)]
      by (intro exI [of _ "map (piece ?h inner c ident) [0..<n]"]) auto
  qed
qed

lemma decap_single:
  assumes "decap_all cr kb frames = (kb', [r])"
  shows "\<exists>f. frames = [f] \<and> decapsulate cr kb f = (kb', r)"
proof -
  obtain f fs where fs: "frames = f # fs" using assms by (cases frames) auto
  then have "fs = []" using assms by (cases fs) (auto split: prod.splits)
  then show ?thesis using assms fs by (auto split: prod.splits)
qed

lemma seal_frames_delivered:
  assumes "aead_correct (ev_crypto ev)" "aead_total (ev_crypto ev)" "aead_length (ev_crypto ev)"
    and "linked ev A B (8192 + room)" "length inner \<le> 65467" "\<forall>i. arrive i - arrive 0 < REASSEMBLY_TIMEOUT"
  shows "\<exists>A' B' frames. seal_frames ev t inner A = (A', Ok frames)
    \<and> receive_frames ev now (zip (map arrive [0..<length frames]) frames) B = Ok (B', [inner]) \<and> linked ev A' B' room"
proof -
  let ?h = "plain_hdr A inner" and ?cr = "ev_crypto ev"
  let ?whole = "header_bytes ?h @ inner"
  obtain ka kb where k: "en_keys A = Some ka" "en_keys B = Some kb" "in_sync ?cr ka kb" "tk_stride ka = 1"
    "unat (tk_send_epoch ka) + (8192 + room) < 2 ^ 56"
    and b: "ready_for ?h (en_reasm B)" "en_delivered B = None" "58 \<le> en_mtu A"
    using assms(4) unfolding linked_def ready_for_hdr [of _ _ inner] by blast
  note w = build_packet [OF assms(5), of A]
  note dec = ip_hdr_encodes(2) [OF assms(5), of "en_local A" "en_peer A"]
  obtain pkts where p: "fragment_packet ?whole (en_mtu A) (en_frag_id A) = Inr pkts" "length pkts \<le> 8192"
    "\<forall>pkt \<in> set pkts. proper_packet pkt"
    "pkts = [?whole] \<or> (\<exists>c n. splittable ?h inner c n \<and> pkts = map (piece ?h inner c (en_frag_id A)) [0..<n])"
    using packets_of [OF assms(5) b(3)] by blast
  have recv: "\<exists>B'. receive_frames ev now (zip (map arrive [0..<length pkts]) frames) B = Ok (B', [inner])
          \<and> en_keys B' = Some kb' \<and> ready_for ?h (en_reasm B') \<and> en_delivered B' = None"
    if all: "decap_all ?cr kb frames = (kb', map Inr pkts)" for frames kb'
    using p(4)
  proof
    assume one: "pkts = [?whole]"
    then obtain f where f: "frames = [f]" "decapsulate ?cr kb f = (kb', Inr ?whole)" using decap_single all by fastforce
    show ?thesis using receive_whole [OF k(2) f(2) dec, of now "arrive 0"] b(1) f(1) one by (auto simp: is_fragment_def)
  next
    assume "\<exists>c n. splittable ?h inner c n \<and> pkts = map (piece ?h inner c (en_frag_id A)) [0..<n]"
    then obtain c n where cn: "splittable ?h inner c n" "pkts = map (piece ?h inner c (en_frag_id A)) [0..<n]" by blast
    then have n: "0 < n" by (simp add: splittable_def)
    show ?thesis using receive_pieces_engine [OF cn(1) _ _ b(1) assms(6) n k(2) b(2) _ all [unfolded cn(2)], of now] cn(2) by simp
  qed
  have "unat (tk_send_epoch ka) + length pkts * unat (tk_stride ka) < 2 ^ 56" using k(4,5) p(2) by simp
  from encapsulate_all_in_sync [OF assms(1-3) k(3) this p(3), of t] obtain ka' kb' frames where
    e: "encapsulate_all ?cr t ka pkts = (ka', Ok frames)" "decap_all ?cr kb frames = (kb', map Inr pkts)"
      "in_sync ?cr ka' kb'" "tk_stride ka' = 1" "unat (tk_send_epoch ka') \<le> unat (tk_send_epoch ka) + length pkts"
    using k(4) by auto
  note len = encapsulate_all_length [OF e(1)]
  obtain A' where A': "seal_frames ev t inner A = (A', Ok frames)" "en_keys A' = Some ka'" "en_mtu A' = en_mtu A"
    "plain_hdr A' [] = plain_hdr A []"
    using k(1) w(2) p(1) e(1) by (simp add: seal_frames_def seal_packets_def count_sealed_def Let_def)
  obtain B' where B': "receive_frames ev now (zip (map arrive [0..<length pkts]) frames) B = Ok (B', [inner])"
    "en_keys B' = Some kb'" "ready_for ?h (en_reasm B')" "en_delivered B' = None" using recv [OF e(2)] by blast
  have "linked ev A' B' room" unfolding linked_def A'(4)
    using A'(2,3) B'(2-4) e(3-5) k(5) p(2) b(3) ready_for_hdr [of _ _ inner] by auto
  then show ?thesis using A'(1) B'(1) len by auto
qed

text \<open>
  A sequence of inner packets, each with the time it is sealed and the times its frames arrive at the other engine.
\<close>

fun tunnel_run :: "engine_env \<Rightarrow> u64 \<Rightarrow> (nat \<times> bytes \<times> (nat \<Rightarrow> nat)) list \<Rightarrow> engine \<Rightarrow> engine \<Rightarrow> (unit, bytes list) outcome" where
  "tunnel_run ev now [] A B = Ok []"
| "tunnel_run ev now ((t, inner, arrive) # evs) A B = (case seal_frames ev t inner A of
     (A, Ok frames) \<Rightarrow> (case receive_frames ev now (zip (map arrive [0..<length frames]) frames) B of
         Ok (B, xs) \<Rightarrow> (case tunnel_run ev now evs A B of Ok ys \<Rightarrow> Ok (xs @ ys) | Err e \<Rightarrow> Err e | Panic \<Rightarrow> Panic)
       | Err e \<Rightarrow> Err e
       | Panic \<Rightarrow> Panic)
   | (A, Err e) \<Rightarrow> Err ()
   | (A, Panic) \<Rightarrow> Panic)"

lemma tunnel_run_linked:
  assumes "aead_correct (ev_crypto ev)" "aead_total (ev_crypto ev)" "aead_length (ev_crypto ev)"
  shows "linked ev A B (8192 * length evs) \<Longrightarrow>
    \<forall>(t, inner, arrive) \<in> set evs. length inner \<le> 65467 \<and> (\<forall>i. arrive i - arrive 0 < REASSEMBLY_TIMEOUT) \<Longrightarrow>
    tunnel_run ev now evs A B = Ok (map (\<lambda>(t, inner, arrive). inner) evs)"
proof (induction evs arbitrary: A B)
  case (Cons e evs)
  obtain t inner arrive where e: "e = (t, inner, arrive)" by (metis prod_cases3)
  have l: "linked ev A B (8192 + 8192 * length evs)" using Cons.prems(1) by simp
  have c: "length inner \<le> 65467" "\<forall>i. arrive i - arrive 0 < REASSEMBLY_TIMEOUT" using Cons.prems(2) e by auto
  obtain A' B' frames where s: "seal_frames ev t inner A = (A', Ok frames)"
    "receive_frames ev now (zip (map arrive [0..<length frames]) frames) B = Ok (B', [inner])"
    "linked ev A' B' (8192 * length evs)"
    using seal_frames_delivered [OF assms l c] by blast
  have "tunnel_run ev now evs A' B' = Ok (map (\<lambda>(t, inner, arrive). inner) evs)"
    by (rule Cons.IH [OF s(3)]) (use Cons.prems(2) in simp)
  then show ?case using s(1,2) e by simp
qed simp

section \<open>From the handshake on\<close>

lemma linked_start:
  assumes "en_keys A = Some (keys_with_suite t dh True s)" "en_keys B = Some (keys_with_suite t' dh False s)"
    and "en_reasm B = reassembler_new" "en_delivered B = None" "58 \<le> en_mtu A" "room < 2 ^ 56"
  shows "linked ev A B room"
  unfolding linked_def ready_for_def using assms in_sync_start
  by (auto simp: reassembler_new_def MAX_GROUPS_def)

lemma new_suite: "fst (set_suite (keys_new t dh i) s) = keys_with_suite t dh i s"
  by (simp add: set_suite_def keys_new_def keys_with_suite_def)

text \<open>
  C4. Two engines carry any traffic: after the plain handshake, with the same suite on both sides and any MTU of at least
  58, every inner packet of up to 65467 bytes that one engine seals, in one frame or in fragments, comes out
  of the other exactly as it went in, in order, through all key rotations.
\<close>

theorem engines_deliver:
  assumes "x25519_ok (ev_x ev)" "aead_correct (ev_crypto ev)" "aead_total (ev_crypto ev)" "aead_length (ev_crypto ev)"
    and "A = set_mtu mtu (set_cipher_suite s (engine_new (identity_from_seed (ev_x ev) seed_a) la lb))"
    and "B = set_cipher_suite s (engine_new (identity_from_seed (ev_x ev) seed_b) lb la)"
    and "start_handshake ev ea A = Ok (A1, init_frame)" "58 \<le> mtu" "length evs < 2 ^ 43"
    and "\<forall>(t, inner, arrive) \<in> set evs. length inner \<le> 65467 \<and> (\<forall>i. arrive i - arrive 0 < REASSEMBLY_TIMEOUT)"
  shows "\<exists>B1 resp A2. handle_frame_at ev t eb init_frame now B = Ok (B1, Some resp)
    \<and> handle_frame_at ev t' e' resp now' A1 = Ok (A2, None)
    \<and> tunnel_run ev now evs A2 B1 = Ok (map (\<lambda>(t, inner, arrive). inner) evs)"
proof -
  let ?x = "ev_x ev"
  have len: "length (x_public ?x a) = 32" for a using assms(1) by (simp add: x25519_ok_def)
  have same: "x_dh ?x ea (x_public ?x eb) = x_dh ?x eb (x_public ?x ea)" using assms(1) by (simp add: x25519_ok_def)
  have z: "length (replicate 8 (0 :: u8)) = 8" by simp
  let ?init = "x_public ?x ea @ x_public ?x seed_a" and ?resp = "x_public ?x eb @ x_public ?x seed_b"
  have A1: "init_frame = write_head [] HandshakeInit (replicate 8 0) @ ?init" "en_state A1 = Initiating" "en_suite A1 = s"
    "en_pending A1 = Some \<lparr>ph_local_eph = ea, ph_local_static = x_public ?x seed_a\<rparr>" "en_mtu A1 = mtu"
    using assms(7) unfolding assms(5)
    by (auto simp: start_handshake_def set_mtu_def set_cipher_suite_def engine_new_def create_init_def identity_from_seed_def)
  have B: "en_state B = Idle" "en_identity B = Some (identity_from_seed ?x seed_b)" "en_suite B = s" "en_reasm B = reassembler_new"
    "en_delivered B = None" "en_bound_init B = None"
    by (simp_all add: assms(6) set_cipher_suite_def engine_new_def)
  let ?out = "write_head [] HandshakeResp (replicate 8 0) @ ?resp"
  let ?B1 = "(establish (keys_new t (x_dh ?x eb (x_public ?x ea)) False) B)\<lparr>en_bound_init := Some ?init, en_cached_resp := Some ?out\<rparr>"
  have h1: "handle_frame_at ev t eb init_frame now B = Ok (?B1, Some ?out)"
    unfolding handle_frame_at_def A1(1) parse_write_head [OF z]
    using B by (simp add: handle_handshake_init_def accept_init_def split_handshake_def len HANDSHAKE_BODY_LEN_def identity_from_seed_def Let_def)
  let ?A2 = "establish (keys_new t' (x_dh ?x ea (x_public ?x eb)) True) (A1\<lparr>en_pending := None\<rparr>)"
  have h2: "handle_frame_at ev t' e' ?out now' A1 = Ok (?A2, None)"
    unfolding handle_frame_at_def parse_write_head [OF z]
    using A1 by (simp add: handle_handshake_resp_def finish_init_def split_handshake_def len HANDSHAKE_BODY_LEN_def Let_def)
  have "linked ev ?A2 ?B1 (8192 * length evs)"
    by (rule linked_start [where t = t' and t' = t and dh = "x_dh ?x ea (x_public ?x eb)" and s = s])
       (use A1 B assms(8,9) in \<open>simp_all add: establish_def new_suite same\<close>)
  from tunnel_run_linked [OF assms(2-4) this assms(10)] show ?thesis using h1 h2 by blast
qed

lemma engines_deliver_witness:
  "\<exists>A1 init_frame B1 resp A2. start_handshake toy_env [1] (set_mtu 100 (set_cipher_suite Aes256Gcm
       (engine_new (identity_from_seed toy_x25519 [3]) (addr_with_region 1 1 0 2 0) (addr_with_region 2 1 0 2 0)))) = Ok (A1, init_frame)
     \<and> handle_frame_at toy_env 0 [2] init_frame 0 (set_cipher_suite Aes256Gcm
       (engine_new (identity_from_seed toy_x25519 [4]) (addr_with_region 2 1 0 2 0) (addr_with_region 1 1 0 2 0))) = Ok (B1, Some resp)
     \<and> handle_frame_at toy_env 0 [] resp 0 A1 = Ok (A2, None)
     \<and> tunnel_run toy_env 0 [(1, replicate 1000 7, \<lambda>i. min i 50), (2, [], \<lambda>i. 5)] A2 B1 = Ok [replicate 1000 7, []]"
proof -
  let ?A = "set_mtu 100 (set_cipher_suite Aes256Gcm
       (engine_new (identity_from_seed toy_x25519 [3]) (addr_with_region 1 1 0 2 0) (addr_with_region 2 1 0 2 0)))"
  have "\<exists>A1 f. start_handshake toy_env [1] ?A = Ok (A1, f)"
    by (simp add: start_handshake_def set_mtu_def set_cipher_suite_def engine_new_def Let_def split: prod.split)
  then obtain A1 f where s: "start_handshake toy_env [1] ?A = Ok (A1, f)" by blast
  have "\<exists>B1 resp A2. handle_frame_at toy_env 0 [2] f 0 (set_cipher_suite Aes256Gcm
       (engine_new (identity_from_seed (ev_x toy_env) [4]) (addr_with_region 2 1 0 2 0) (addr_with_region 1 1 0 2 0))) = Ok (B1, Some resp)
    \<and> handle_frame_at toy_env 0 [] resp 0 A1 = Ok (A2, None)
    \<and> tunnel_run toy_env 0 [(1, replicate 1000 7, \<lambda>i. min i 50), (2, [], \<lambda>i. 5)] A2 B1
      = Ok (map (\<lambda>(t, inner, arrive). inner) [(1 :: nat, replicate 1000 7, \<lambda>i. min i 50), (2, [], \<lambda>i. 5 :: nat)])"
    by (rule engines_deliver [OF _ _ _ _ refl refl, where seed_a = "[3]" and mtu = 100])
       (use s toy_laws toy_x25519_ok in \<open>simp_all add: toy_env_simps REASSEMBLY_TIMEOUT_def min_less_iff_disj\<close>)
  then show ?thesis using s unfolding toy_env_simps list.map prod.case by blast
qed
section \<open>A packet that stops the engine\<close>

lemma peer_crash:
  assumes "aead_correct (ev_crypto ev)" "aead_total (ev_crypto ev)" "aead_length (ev_crypto ev)"
    and "en_keys B = Some kb" "in_sync (ev_crypto ev) ka kb" "unat (tk_send_epoch ka) + unat (tk_stride ka) < 2 ^ 56"
    and "pkt = header_bytes h @ chain_bytes (hdr_ext_headers h) @ p" "decodable h" "chain_ok (hdr_ext_headers h)"
      "length p = unat (hdr_payload_len h)"
    and "first_fragment h = Some frag" "fi_offset frag = 0" "\<not> fi_more frag"
    and "is_fragment (hdr_flags h)" "\<not> reserved_ok (hdr_flags h)"
    and "map_of (en_reasm B) (group_key_of h frag) = None" "active_groups (en_reasm B) < MAX_GROUPS"
  shows "\<exists>ka' frame. encapsulate (ev_crypto ev) t ka pkt = Ok (ka', frame) \<and> handle_frame_at ev t' eph frame now B = Panic"
proof -
  have "proper_packet pkt" using assms(7-10) by (auto simp: proper_packet_def)
  from tunnel_step [OF assms(1-3,5,6) this, of t] obtain ka' kb' frame kid where
    e: "encapsulate (ev_crypto ev) t ka pkt = Ok (ka', frame)" "decapsulate (ev_crypto ev) kb frame = (kb', Inr pkt)"
      "parse_head frame = Inr \<lparr>fh_type = Data, fh_key_id = kid\<rparr>" by blast
  have dec: "decode pkt = Inr \<lparr>dec_header = h, dec_payload = p\<rparr>"
    by (rule decode_decodable [OF assms(8-10), where junk = "[]"]) (simp add: assms(7))
  have "hdr_payload_len h \<le> MAX_PAYLOAD_LEN" using assms(8) by (simp add: decodable_def)
  then have "length p \<le> MAX_GROUP_BYTES"
    using assms(10) by (simp add: MAX_PAYLOAD_LEN_def MAX_GROUP_BYTES_def word_le_nat_alt)
  from reserved_fragment_panics [OF assms(11-15) this assms(16,17), of t']
  obtain gs where "reasm_insert t' h p (en_reasm B) = (gs, Panic)" by (metis prod.collapse)
  then have "handle_frame_at ev t' eph frame now B = Panic"
    using e dec assms(4,14) by (simp add: handle_frame_at_def handle_data_def Let_def is_fragment_def)
  then show ?thesis using e(1) by blast
qed

text \<open>
  C40. An authenticated peer can stop the node: one Data frame whose packet is a single complete fragment with a
  reserved flag bit set is sealed by the peer like any other, passes decryption and decoding, and panics in
  the engine that receives it.
\<close>

theorem peer_fragment_stops_engine:
  assumes "aead_correct (ev_crypto ev)" "aead_total (ev_crypto ev)" "aead_length (ev_crypto ev)"
    and "en_keys B = Some kb" "in_sync (ev_crypto ev) ka kb" "unat (tk_send_epoch ka) + unat (tk_stride ka) < 2 ^ 56"
    and "pkt = header_bytes h @ chain_bytes (hdr_ext_headers h) @ p" "decodable h" "chain_ok (hdr_ext_headers h)"
      "length p = unat (hdr_payload_len h)"
    and "first_fragment h = Some frag" "fi_offset frag = 0" "\<not> fi_more frag"
    and "is_fragment (hdr_flags h)" "\<not> reserved_ok (hdr_flags h)"
    and "map_of (en_reasm B) (group_key_of h frag) = None" "active_groups (en_reasm B) < MAX_GROUPS"
  shows "\<exists>ka' frame. encapsulate (ev_crypto ev) t ka pkt = Ok (ka', frame) \<and> handle_frame_at ev t' eph frame now B = Panic"
  by (rule peer_crash [OF assms])

lemma reserved_fragment_wire:
  "decodable reserved_fragment" "chain_ok (hdr_ext_headers reserved_fragment)" "hdr_payload_len reserved_fragment = 8"
  by (simp_all add: reserved_fragment_def decodable_def fragment_header_def plain_header_def header_new_def attach_ext_headers_def
      first_type_def const_defs wire_size_def frag_to_ext_def chain_ok_def ext_ok_def canonical_type_def ext_from_u8_def Let_def
      has_extension_def)

lemma peer_fragment_stops_engine_witness:
  "\<exists>ka' frame. encapsulate toy_crypto 0 (keys_with_suite 0 [1] True Aes256Gcm)
       (header_bytes reserved_fragment @ chain_bytes (hdr_ext_headers reserved_fragment) @ replicate 8 1) = Ok (ka', frame)
     \<and> handle_frame_at toy_env 0 [] frame 0 ((engine_new (identity_from_seed toy_x25519 [4]) (addr_with_region 2 1 0 2 0)
         (addr_with_region 1 1 0 2 0))\<lparr>en_state := Established, en_keys := Some (keys_with_suite 0 [1] False Aes256Gcm)\<rparr>) = Panic"
proof -
  have "\<exists>ka' frame. encapsulate (ev_crypto toy_env) 0 (keys_with_suite 0 [1] True Aes256Gcm)
       (header_bytes reserved_fragment @ chain_bytes (hdr_ext_headers reserved_fragment) @ replicate 8 1) = Ok (ka', frame)
     \<and> handle_frame_at toy_env 0 [] frame 0 ((engine_new (identity_from_seed toy_x25519 [4]) (addr_with_region 2 1 0 2 0)
         (addr_with_region 1 1 0 2 0))\<lparr>en_state := Established, en_keys := Some (keys_with_suite 0 [1] False Aes256Gcm)\<rparr>) = Panic"
    by (rule peer_fragment_stops_engine [OF _ _ _ _ _ _ refl reserved_fragment_wire(1,2) _ reserved_fragment_facts(1) _ _ reserved_fragment_facts(2,3)])
       (use toy_laws in_sync_start in \<open>simp_all add: toy_env_simps reserved_fragment_wire(3) engine_new_def reassembler_new_def
          active_groups_def MAX_GROUPS_def\<close>)
  then show ?thesis by (simp only: toy_env_simps)
qed

section \<open>Many packets\<close>

fun seal_each :: "engine_env \<Rightarrow> (nat \<times> bytes \<times> (nat \<Rightarrow> nat)) list \<Rightarrow> engine \<Rightarrow> (unit, bytes list list) outcome" where
  "seal_each ev [] A = Ok []"
| "seal_each ev ((t, inner, arrive) # pkts) A = (case seal_frames ev t inner A of
     (A, Ok frames) \<Rightarrow> (case seal_each ev pkts A of Ok fss \<Rightarrow> Ok (frames # fss) | Err e \<Rightarrow> Err e | Panic \<Rightarrow> Panic)
   | (A, Err e) \<Rightarrow> Err ()
   | (A, Panic) \<Rightarrow> Panic)"

text \<open>The times at which the frames of each packet arrive.\<close>

fun arrivals :: "(nat \<times> bytes \<times> (nat \<Rightarrow> nat)) list \<Rightarrow> bytes list list \<Rightarrow> nat list" where
  "arrivals ((t, inner, arrive) # pkts) (frames # fss) = map arrive [0..<length frames] @ arrivals pkts fss"
| "arrivals _ _ = []"

lemma receive_frames_append:
  "receive_frames ev now (fs @ gs) B = (case receive_frames ev now fs B of
     Ok (B', xs) \<Rightarrow> (case receive_frames ev now gs B' of Ok (B'', ys) \<Rightarrow> Ok (B'', xs @ ys) | Err e \<Rightarrow> Err e | Panic \<Rightarrow> Panic)
   | Err e \<Rightarrow> Err e | Panic \<Rightarrow> Panic)"
  by (induction fs arbitrary: B) (auto split: outcome.splits prod.splits option.splits)

lemma seal_each_delivered:
  assumes "aead_correct (ev_crypto ev)" "aead_total (ev_crypto ev)" "aead_length (ev_crypto ev)"
  shows "linked ev A B (8192 * length pkts) \<Longrightarrow>
    \<forall>(t, inner, arrive) \<in> set pkts. length inner \<le> 65467 \<and> (\<forall>i. arrive i - arrive 0 < REASSEMBLY_TIMEOUT) \<Longrightarrow>
    \<exists>fss B'. seal_each ev pkts A = Ok fss \<and>
      receive_frames ev now (zip (arrivals pkts fss) (concat fss)) B = Ok (B', map (\<lambda>(t, inner, arrive). inner) pkts)"
proof (induction pkts arbitrary: A B)
  case (Cons e pkts)
  obtain t inner arrive where e: "e = (t, inner, arrive)" by (metis prod_cases3)
  have l: "linked ev A B (8192 + 8192 * length pkts)" using Cons.prems(1) by simp
  have c: "length inner \<le> 65467" "\<forall>i. arrive i - arrive 0 < REASSEMBLY_TIMEOUT" using Cons.prems(2) e by auto
  obtain A' B' frames where s: "seal_frames ev t inner A = (A', Ok frames)"
    "receive_frames ev now (zip (map arrive [0..<length frames]) frames) B = Ok (B', [inner])"
    "linked ev A' B' (8192 * length pkts)"
    using seal_frames_delivered [OF assms l c] by blast
  obtain fss B'' where r: "seal_each ev pkts A' = Ok fss"
    "receive_frames ev now (zip (arrivals pkts fss) (concat fss)) B' = Ok (B'', map (\<lambda>(t, inner, arrive). inner) pkts)"
    using Cons.IH [OF s(3)] Cons.prems(2) by auto
  show ?case using s(1,2) r by (simp add: e zip_append receive_frames_append)
qed simp

definition toy_addr :: "nat \<Rightarrow> ipv8_address" where
  "toy_addr n = addr_with_region (of_nat n) 1 0 2 0"

text \<open>A small packet is one frame.\<close>

lemma seal_one:
  assumes "aead_correct (ev_crypto ev)" "aead_total (ev_crypto ev)" "aead_length (ev_crypto ev)"
    and "linked ev A B (8192 + room)" "length inner \<le> 18"
  shows "\<exists>f. f \<noteq> [] \<and> seal_each ev [(t, inner, \<lambda>i. 0)] A = Ok [[f]]"
proof -
  obtain A' B' frames where s: "seal_frames ev t inner A = (A', Ok frames)"
    using seal_frames_delivered [OF assms(1-4), where inner = inner and arrive = "\<lambda>i. 0" and t = t and now = 0] assms(5)
    by (auto simp: REASSEMBLY_TIMEOUT_def)
  obtain ka where k: "en_keys A = Some ka" "58 \<le> en_mtu A" using assms(4) by (auto simp: linked_def)
  let ?h = "plain_hdr A inner"
  have len: "length inner \<le> 65467" using assms(5) by simp
  have frag: "fragment_packet (header_bytes ?h @ inner) (en_mtu A) (en_frag_id A) = Inr [header_bytes ?h @ inner]"
    using assms(5) k(2) by (simp add: fragment_packet_def ip_hdr_encodes(2) [OF len])
  obtain k' where e: "encapsulate_all (ev_crypto ev) t ka [header_bytes ?h @ inner] = (k', Ok frames)"
    using s k(1) frag by (auto simp: seal_frames_def seal_packets_def build_packet [OF len] split: prod.splits outcome.splits)
  then obtain f where f: "frames = [f]" "\<exists>k. encapsulate (ev_crypto ev) t ka (header_bytes ?h @ inner) = Ok (k, f)"
    by (auto split: outcome.splits prod.splits)
  then have "f \<noteq> []" by (auto simp: encapsulate_def Let_def write_head_def split: sum.splits outcome.splits)
  then show ?thesis using s f(1) by auto
qed

definition toy_end :: "bool \<Rightarrow> engine" where
  "toy_end i = (engine_new (identity_from_seed toy_x25519 [3]) (toy_addr 1) (toy_addr 2))
     \<lparr>en_keys := Some (keys_with_suite 0 [1] i Aes256Gcm)\<rparr>"

lemma toy_ends_linked: "room < 2 ^ 56 \<Longrightarrow> linked toy_env (toy_end True) (toy_end False) room"
  by (rule linked_start [where t = 0 and t' = 0 and dh = "[1]" and s = Aes256Gcm])
     (simp_all add: toy_end_def engine_new_def DEFAULT_MTU_def)

end
