(* ===== verification/FlowShards.thy ===== *)
theory FlowShards
  imports EngineDelivery
begin

text \<open>
  The sharded data path, \<open>ipv8-tunnel/src/flow.rs\<close>: the flow hash, the workers with their task queues, dispatch
  and shutdown. A worker thread is a worker record that takes one task per step; any schedule of the steps is a run of the
  threads. The two sinks are the lists of what was given to them. The loop takes up to 64 waiting tasks at a time and
  handles them in order, so the queue in the model is the channel and the batch together. A worker that panics is dead,
  and so is its channel.
\<close>

section \<open>The flow hash\<close>

text \<open>The macro \<open>push!\<close> into the buffer of 40 bytes.\<close>

definition hash_push :: "bytes \<Rightarrow> bytes \<Rightarrow> bytes" where
  "hash_push buf b = buf @ take (40 - length buf) b"

definition flow_key :: "bytes \<Rightarrow> bytes" where
  "flow_key ip = (
     if ip = [] then []
     else if drop_bit 4 (ip ! 0) = 4 \<and> length ip \<ge> 20 then
       let buf = hash_push [] (slice 12 20 ip);
           proto = ip ! 9;
           ihl = unat (ip ! 0 AND 0x0F) * 4;
           ihl = (if 6 \<le> ihl \<and> ihl \<le> 60 \<and> length ip \<ge> ihl then ihl else 20);
           buf = (if (proto = 6 \<or> proto = 17) \<and> length ip \<ge> ihl + 4 then hash_push buf (slice ihl (ihl + 4) ip) else buf)
       in hash_push buf [proto]
     else if drop_bit 4 (ip ! 0) = 6 \<and> length ip \<ge> 40 then
       let buf = hash_push [] (slice 8 40 ip);
           nh = ip ! 6;
           buf = (if (nh = 6 \<or> nh = 17) \<and> length ip \<ge> 44 then hash_push buf (slice 40 44 ip) else buf)
       in hash_push buf [nh]
     else hash_push [] (take (min (length ip) 16) ip))"

fun fnv :: "bytes \<Rightarrow> u64 \<Rightarrow> u64" where
  "fnv [] h = h"
| "fnv (b # bs) h = fnv bs ((h XOR ucast b) * 0x100000001b3)"

definition hash_flow :: "bytes \<Rightarrow> u32" where
  "hash_flow ip = (let h = fnv (flow_key ip) 0xcbf29ce484222325 in ucast (drop_bit 32 h XOR h))"

section \<open>State\<close>

datatype task = Task_Seal bytes | Task_Data bytes | Task_Shutdown

record shard_stats =
  ss_sealed :: nat
  ss_delivered :: nat
  ss_dropped :: nat
  ss_fragments_sent :: nat
  ss_fragments_reassembled :: nat

record worker =
  wk_keys :: tunnel_keys
  wk_reasm :: reassembler
  wk_frag_id :: u32
  wk_queue :: "task list"
  wk_alive :: bool

record flow_shards =
  fl_workers :: "worker list"
  fl_local :: ipv8_address
  fl_peer :: ipv8_address
  fl_mtu :: nat
  fl_stats :: shard_stats
  fl_ok :: bool
  fl_frames :: "bytes list"
  fl_delivered :: "bytes list"

definition worker_new :: "tunnel_keys \<Rightarrow> worker" where
  "worker_new keys = \<lparr> wk_keys = keys, wk_reasm = reassembler_new, wk_frag_id = ucast (tk_shard keys), wk_queue = [], wk_alive = True \<rparr>"

definition flow_new :: "tunnel_keys list \<Rightarrow> ipv8_address \<Rightarrow> ipv8_address \<Rightarrow> nat \<Rightarrow> (unit, flow_shards) outcome" where
  "flow_new shards local_addr peer_addr mtu = (
     if shards = [] then Panic
     else Ok \<lparr> fl_workers = map worker_new shards, fl_local = local_addr, fl_peer = peer_addr, fl_mtu = mtu,
       fl_stats = \<lparr> ss_sealed = 0, ss_delivered = 0, ss_dropped = 0, ss_fragments_sent = 0, ss_fragments_reassembled = 0 \<rparr>,
       fl_ok = True, fl_frames = [], fl_delivered = [] \<rparr>)"

definition flow_len :: "flow_shards \<Rightarrow> nat" where
  "flow_len fl = length (fl_workers fl)"

section \<open>Dispatch\<close>

text \<open>\<open>Sender::send\<close>, which fails when the receiving thread is gone.\<close>

definition send_task :: "nat \<Rightarrow> task \<Rightarrow> flow_shards \<Rightarrow> flow_shards \<times> bool" where
  "send_task k task fl = (
     let w = fl_workers fl ! k
     in if wk_alive w then (fl\<lparr> fl_workers := (fl_workers fl)[k := w\<lparr> wk_queue := wk_queue w @ [task] \<rparr>] \<rparr>, True)
        else (fl, False))"

definition flow_dropped :: "flow_shards \<Rightarrow> flow_shards" where
  "flow_dropped fl = fl\<lparr> fl_stats := (fl_stats fl)\<lparr> ss_dropped := ss_dropped (fl_stats fl) + 1 \<rparr> \<rparr>"

definition seal_dispatch :: "bytes \<Rightarrow> flow_shards \<Rightarrow> flow_shards \<times> (engine_error + unit)" where
  "seal_dispatch inner_ip fl = (
     if \<not> fl_ok fl then (fl, Inl NotEstablished)
     else
       let k = unat (hash_flow inner_ip) mod flow_len fl
       in case send_task k (Task_Seal inner_ip) fl of (fl, sent) \<Rightarrow> (fl, if sent then Inr () else Inl NotEstablished))"

definition inbound_shard :: "nat \<Rightarrow> bytes \<Rightarrow> nat" where
  "inbound_shard n key_id = (
     let e = replicate 8 0; e = write_at 1 (drop 1 key_id) e
     in unat ((from_be e :: u64) mod of_nat n))"

definition handle_inbound :: "bytes \<Rightarrow> flow_shards \<Rightarrow> flow_shards \<times> bool" where
  "handle_inbound frame fl = (
     if \<not> fl_ok fl then (fl, False)
     else case parse_head frame of
         Inl _ \<Rightarrow> (fl, False)
       | Inr head \<Rightarrow>
           if fh_type head \<noteq> Data then (fl, False)
           else case send_task (inbound_shard (flow_len fl) (fh_key_id head)) (Task_Data frame) fl of
               (fl, True) \<Rightarrow> (fl, True)
             | (fl, False) \<Rightarrow> (flow_dropped fl, False))"

text \<open>\<open>shutdown\<close> up to the join, which waits until every worker is dead.\<close>

definition flow_shutdown :: "flow_shards \<Rightarrow> flow_shards" where
  "flow_shutdown fl = (
     if \<not> fl_ok fl then fl
     else foldl (\<lambda>fl k. fst (send_task k Task_Shutdown fl)) (fl\<lparr> fl_ok := False \<rparr>) [0..<flow_len fl])"

section \<open>The worker loop\<close>

text \<open>The frames that reach the sink, up to an error or a panic.\<close>

fun emit_all :: "crypto \<Rightarrow> nat \<Rightarrow> tunnel_keys \<Rightarrow> bytes list \<Rightarrow> tunnel_keys \<times> bytes list \<times> (frame_error, unit) outcome" where
  "emit_all cr t keys [] = (keys, [], Ok ())"
| "emit_all cr t keys (p # ps) = (case encapsulate cr t keys p of
     Ok (keys, f) \<Rightarrow> (case emit_all cr t keys ps of (keys, fs, r) \<Rightarrow> (keys, f # fs, r))
   | Err e \<Rightarrow> (keys, [], Err e)
   | Panic \<Rightarrow> (keys, [], Panic))"

definition flow_count_sealed :: "nat \<Rightarrow> flow_shards \<Rightarrow> flow_shards" where
  "flow_count_sealed n fl = fl\<lparr> fl_stats := (fl_stats fl)\<lparr> ss_sealed := ss_sealed (fl_stats fl) + n,
     ss_fragments_sent := ss_fragments_sent (fl_stats fl) + (n - 1) \<rparr> \<rparr>"

definition flow_deliver :: "bytes \<Rightarrow> flow_shards \<Rightarrow> flow_shards" where
  "flow_deliver payload fl = fl\<lparr> fl_stats := (fl_stats fl)\<lparr> ss_delivered := ss_delivered (fl_stats fl) + 1 \<rparr>,
     fl_delivered := fl_delivered fl @ [payload] \<rparr>"

definition flow_reassembled :: "flow_shards \<Rightarrow> flow_shards" where
  "flow_reassembled fl = fl\<lparr> fl_stats := (fl_stats fl)\<lparr> ss_fragments_reassembled := ss_fragments_reassembled (fl_stats fl) + 1 \<rparr> \<rparr>"

definition dead :: "worker \<Rightarrow> worker" where
  "dead w = w\<lparr> wk_alive := False, wk_queue := [] \<rparr>"

definition seal_task :: "crypto \<Rightarrow> nat \<Rightarrow> bytes \<Rightarrow> worker \<Rightarrow> flow_shards \<Rightarrow> worker \<times> flow_shards" where
  "seal_task cr t inner w fl = (
     if \<not> fl_ok fl then (w, fl)
     else case encode (header_new (fl_local fl) (fl_peer fl) (of_nat (length inner))) inner of
         Inl _ \<Rightarrow> (w, flow_dropped fl)
       | Inr whole \<Rightarrow>
           (case fragment_packet whole (fl_mtu fl) (wk_frag_id w) of
              Inl _ \<Rightarrow> (w, flow_dropped fl)
            | Inr pkts \<Rightarrow>
                let w = w\<lparr> wk_frag_id := wk_frag_id w + 1 \<rparr>
                in case emit_all cr t (wk_keys w) pkts of (keys, fs, r) \<Rightarrow>
                     (let w = w\<lparr> wk_keys := keys \<rparr>; fl = fl\<lparr> fl_frames := fl_frames fl @ fs \<rparr>
                      in case r of
                           Ok _ \<Rightarrow> (w, flow_count_sealed (length pkts) fl)
                         | Err _ \<Rightarrow> (w, flow_dropped fl)
                         | Panic \<Rightarrow> (dead w, fl))))"

definition data_task :: "crypto \<Rightarrow> nat \<Rightarrow> bytes \<Rightarrow> worker \<Rightarrow> flow_shards \<Rightarrow> worker \<times> flow_shards" where
  "data_task cr t frame w fl = (case decapsulate cr (wk_keys w) frame of
     (keys, Inl _) \<Rightarrow> (w\<lparr> wk_keys := keys \<rparr>, flow_dropped fl)
   | (keys, Inr pkt) \<Rightarrow>
       let w = w\<lparr> wk_keys := keys \<rparr>
       in case decode pkt of
            Inl _ \<Rightarrow> (w, flow_dropped fl)
          | Inr d \<Rightarrow>
              if hdr_next_header (dec_header d) = ext_wire RouteTrace then (w, flow_dropped fl)
              else if hdr_flags (dec_header d) AND FLAG_FRAGMENT \<noteq> 0
              then (case reasm_insert t (dec_header d) (dec_payload d) (wk_reasm w) of
                  (gs, Ok (Some reassembled)) \<Rightarrow>
                    let w = w\<lparr> wk_reasm := gs \<rparr>; fl = flow_reassembled fl
                    in (case decode reassembled of
                          Inr rd \<Rightarrow> (w, flow_deliver (dec_payload rd) fl)
                        | Inl _ \<Rightarrow> (w, flow_dropped fl))
                | (gs, Ok None) \<Rightarrow> (w\<lparr> wk_reasm := gs \<rparr>, fl)
                | (gs, Err _) \<Rightarrow> (w\<lparr> wk_reasm := gs \<rparr>, flow_dropped fl)
                | (gs, Panic) \<Rightarrow> (dead w, fl))
              else (w, flow_deliver (dec_payload d) fl))"

fun run_task :: "crypto \<Rightarrow> nat \<Rightarrow> task \<Rightarrow> worker \<Rightarrow> flow_shards \<Rightarrow> worker \<times> flow_shards" where
  "run_task cr t Task_Shutdown w fl = (dead w, fl)"
| "run_task cr t (Task_Seal inner) w fl = seal_task cr t inner w fl"
| "run_task cr t (Task_Data frame) w fl = data_task cr t frame w fl"

definition worker_step :: "crypto \<Rightarrow> nat \<Rightarrow> nat \<Rightarrow> flow_shards \<Rightarrow> flow_shards" where
  "worker_step cr t k fl = (
     let w = fl_workers fl ! k
     in if \<not> wk_alive w then fl
        else case wk_queue w of
            [] \<Rightarrow> fl
          | task # rest \<Rightarrow>
              (case run_task cr t task (w\<lparr> wk_queue := rest \<rparr>) fl of
                 (w, fl) \<Rightarrow> fl\<lparr> fl_workers := (fl_workers fl)[k := w] \<rparr>))"

end
