(* ===== verification/FlowDelivery.thy ===== *)
theory FlowDelivery
  imports FlowShards
begin

text \<open>
  What the sharded data path keeps: nonces stay unique across the shards but not across the split, frames find the shard
  that can open them, and packets come out as they went in; and what it loses of the checks of the single engine.
\<close>

section \<open>Nonces across shards\<close>

lemma send_one_epoch:
  assumes "send_one cr k ev = Ok (k', kid, body)"
  shows "tk_send_epoch k' = tk_send_epoch k \<or> tk_send_epoch k' = tk_send_epoch k + tk_stride k"
proof -
  obtain now where "tk_send_epoch k' = tk_send_epoch (rotated now k)"
    using assms seal_fields(1) seal_receipt_fields(1) by (cases ev) auto
  then show ?thesis by (simp add: rotated_def advance_epoch_def split: if_splits)
qed

text \<open>The workers seal in any interleaving; a seal that panics leaves its worker without a frame.\<close>

fun shards_nonces :: "crypto \<Rightarrow> tunnel_keys list \<Rightarrow> (nat \<times> send_event) list \<Rightarrow> (u64 \<times> bytes) list" where
  "shards_nonces cr ks [] = []"
| "shards_nonces cr ks ((k, ev) # evs) = (case send_one cr (ks ! k) ev of
     Ok (k', _, _) \<Rightarrow> (tk_send_epoch k', nonce_used k' ev) # shards_nonces cr (ks[k := k']) evs
   | _ \<Rightarrow> shards_nonces cr ks evs)"

text \<open>Shard \<open>k\<close> of \<open>n\<close>, with room for so many rotations.\<close>

definition shard_ok :: "nat \<Rightarrow> nat \<Rightarrow> nat \<Rightarrow> tunnel_keys \<Rightarrow> bool" where
  "shard_ok n room k s \<longleftrightarrow> send_inv s \<and> unat (tk_stride s) = n \<and> unat (tk_send_epoch s) mod n = k
     \<and> unat (tk_send_epoch s) + room * n < 2 ^ 64"

lemma shard_ok_mono: "shard_ok n (Suc room) k s \<Longrightarrow> shard_ok n room k s"
  by (simp add: shard_ok_def)

lemma shard_ok_step:
  assumes "shard_ok n (Suc room) k s" "0 < n" "send_one cr s ev = Ok (s', kid, body)" "length body < 2 ^ 61"
  shows "shard_ok n room k s'" "ahead s (tk_send_epoch s', nonce_used s' ev)" "\<not> ahead s' (tk_send_epoch s', nonce_used s' ev)"
    "ahead s' p \<Longrightarrow> ahead s p" "unat (tk_send_epoch s') mod n = k"
proof -
  have st: "tk_stride s \<noteq> 0" and small: "unat (tk_send_epoch s) + unat (tk_stride s) < 2 ^ 64"
    using assms(1,2) by (auto simp: shard_ok_def)
  have inv: "send_inv s" using assms(1) by (simp add: shard_ok_def)
  note one = send_one_ahead [OF inv assms(3,4) small st]
  show "ahead s (tk_send_epoch s', nonce_used s' ev)" "\<not> ahead s' (tk_send_epoch s', nonce_used s' ev)" by (rule one)+
  show "ahead s' p \<Longrightarrow> ahead s p" by (rule one(4))
  have "tk_send_epoch s' mod tk_stride s = tk_send_epoch s mod tk_stride s"
    by (rule epoch_step(2) [OF small send_one_epoch [OF assms(3)]])
  then have "unat (tk_send_epoch s') mod unat (tk_stride s) = unat (tk_send_epoch s) mod unat (tk_stride s)"
    by (simp only: unat_mod [symmetric])
  then show e: "unat (tk_send_epoch s') mod n = k" using assms(1) by (simp add: shard_ok_def)
  have "unat (tk_send_epoch s) + (n + room * n) < 2 ^ 64" "unat (tk_stride s) = n" using assms(1) by (simp_all add: shard_ok_def)
  then have "unat (tk_send_epoch s') + room * n < 2 ^ 64" using one(6) by linarith
  then show "shard_ok n room k s'" using one(1,5) e assms(1) by (simp only: shard_ok_def simp_thms)
qed

lemma shards_nonces_ahead:
  assumes "aead_length cr" "0 < n"
  shows "\<lbrakk>length ks = n; \<forall>k < n. shard_ok n (length evs) k (ks ! k);
      \<forall>(k, ev) \<in> set evs. k < n \<and> length (event_text ev) < 2 ^ 60\<rbrakk> \<Longrightarrow>
    distinct (shards_nonces cr ks evs)
      \<and> (\<forall>(e, nonce) \<in> set (shards_nonces cr ks evs). ahead (ks ! (unat e mod n)) (e, nonce))"
proof (induction evs arbitrary: ks)
  case (Cons x evs)
  obtain k ev where x: "x = (k, ev)" by (metis surj_pair)
  have k: "k < n" "length (event_text ev) < 2 ^ 60" using Cons.prems(3) x by auto
  have ok: "shard_ok n (Suc (length evs)) k (ks ! k)" using Cons.prems(2) k(1) by simp
  show ?case
  proof (cases "send_one cr (ks ! k) ev")
    case (Ok r)
    obtain s' kid body where r: "r = (s', kid, body)" by (metis prod_cases3)
    have len: "length body < 2 ^ 61" using send_one_length [OF assms(1), of "ks ! k" ev] Ok r k(2) by auto
    note st = shard_ok_step [OF ok assms(2) Ok [unfolded r] len]
    let ?ks = "ks[k := s']"
    have IH: "distinct (shards_nonces cr ?ks evs)"
      "\<forall>(e, nonce) \<in> set (shards_nonces cr ?ks evs). ahead (?ks ! (unat e mod n)) (e, nonce)"
      using Cons.IH [of ?ks] Cons.prems st(1) k(1) shard_ok_mono by (auto simp: nth_list_update)
    have "(tk_send_epoch s', nonce_used s' ev) \<notin> set (shards_nonces cr ?ks evs)"
      using IH(2) st(3,5) k(1) Cons.prems(1) by auto
    moreover have "ahead (ks ! (unat e mod n)) (e, nonce)" if "(e, nonce) \<in> set (shards_nonces cr ?ks evs)" for e nonce
      using IH(2) that st(4) k(1) Cons.prems(1) by (cases "unat e mod n = k") auto
    ultimately show ?thesis using x Ok r IH(1) st(2,5) by auto
  qed (use Cons.IH [of ks] Cons.prems x shard_ok_mono in auto)
qed simp

lemma derive_shard_fields:
  assumes "derive_shard t base k n = Ok s"
  shows "tk_send_epoch s = k" "tk_stride s = n" "tk_shard s = k" "send_inv s" "k < n" "tk_rx s = []" "tk_rx_receipt s = []"
    "tk_dh s = tk_dh base" "tk_suite s = tk_suite base" "tk_is_initiator s = tk_is_initiator base" "coherent cr s"
    "tk_tx_counter s = 0" "tk_epoch_created s = t" "tk_epoch_bytes s = 0"
  using assms by (auto simp: derive_shard_def send_inv_def coherent_def split: if_splits)

lemma derive_all_nth:
  "derive_all t base n ks = Ok shards \<Longrightarrow> length shards = length ks \<and> (\<forall>i < length ks. derive_shard t base (of_nat (ks ! i)) n = Ok (shards ! i))"
proof (induction ks arbitrary: shards)
  case (Cons k ks)
  then show ?case by (auto split: outcome.splits simp: nth_Cons split: nat.splits)
qed simp

lemma derive_all_ok: "\<forall>k \<in> set ks. of_nat k < n \<Longrightarrow> 1 \<le> n \<Longrightarrow> \<exists>shards. derive_all t base n ks = Ok shards"
  by (induction ks) (auto simp: derive_shard_def split: outcome.splits)

lemma split_derives:
  assumes "split_shards t n en = (en', Ok (shards, rest))"
  shows "\<exists>base. en_keys en = Some base \<and> derive_all t base (of_nat n) [0..<n] = Ok shards" "0 < n" "length shards = n"
proof -
  show d: "\<exists>base. en_keys en = Some base \<and> derive_all t base (of_nat n) [0..<n] = Ok shards" "0 < n"
    using assms by (auto simp: split_shards_def split: option.splits if_splits outcome.splits)
  then show "length shards = n" using derive_all_nth by fastforce
qed

lemma unat_of_nat_u64: "n < 2 ^ 64 \<Longrightarrow> unat (of_nat n :: u64) = n"
  by (simp add: unat_of_nat take_bit_nat_eq_self)

text \<open>
  C6. The shards of a tunnel never share a nonce: whatever the workers seal, Data or Receipt frames, in any
  interleaving and through every rotation, the pairs of key epoch and nonce that they use are pairwise different
  across all shards.
\<close>

theorem shards_never_share_nonces:
  assumes "split_shards t n en = (en', Ok (shards, rest))" "aead_length cr" "n < 2 ^ 32" "length evs < 2 ^ 31"
    and "\<forall>(k, ev) \<in> set evs. k < n \<and> length (event_text ev) < 2 ^ 60"
  shows "distinct (shards_nonces cr shards evs)"
proof -
  obtain base where base: "derive_all t base (of_nat n) [0..<n] = Ok shards" and n: "0 < n" "length shards = n"
    using split_derives [OF assms(1)] by blast
  have "n * length evs \<le> 2 ^ 32 * 2 ^ 31" using assms(3,4) by (intro mult_le_mono) simp_all
  then have room: "n * length evs \<le> 2 ^ 63" by simp
  have "shard_ok n (length evs) k (shards ! k)" if k: "k < n" for k
  proof -
    have "derive_shard t base (of_nat k) (of_nat n) = Ok (shards ! k)" using derive_all_nth [OF base] k by simp
    note f = derive_shard_fields [OF this]
    have "unat (tk_send_epoch (shards ! k)) = k" "unat (tk_stride (shards ! k)) = n"
      using f(1,2) k assms(3) by (simp_all add: unat_of_nat_u64)
    then show ?thesis using f(4) k room assms(3) by (simp add: shard_ok_def mult.commute)
  qed
  then show ?thesis using shards_nonces_ahead [OF assms(2) n(1,2) _ assms(5)] by blast
qed

text \<open>Two shards of a tunnel.\<close>

definition sharded_engine :: engine where
  "sharded_engine = (engine_new (identity_from_seed toy_x25519 [4]) (addr_with_region 2 1 0 2 0) (addr_with_region 1 1 0 2 0))
     \<lparr>en_state := Established, en_keys := Some (keys_with_suite 0 [1] True Aes256Gcm)\<rparr>"

lemma sharded_engine_splits: "0 < n \<Longrightarrow> n < 2 ^ 64 \<Longrightarrow> \<exists>en' shards rest. split_shards t n sharded_engine = (en', Ok (shards, rest))"
proof -
  assume n: "0 < n" "n < 2 ^ 64"
  then have "\<forall>k \<in> set [0..<n]. (of_nat k :: u64) < of_nat n" "(1 :: u64) \<le> of_nat n"
    by (auto simp: word_less_nat_alt word_le_nat_alt unat_of_nat_u64)
  from derive_all_ok [OF this, of t "keys_with_suite 0 [1] True Aes256Gcm"]
  obtain shards where "derive_all t (keys_with_suite 0 [1] True Aes256Gcm) (of_nat n) [0..<n] = Ok shards" by blast
  then show ?thesis using n by (simp add: split_shards_def sharded_engine_def engine_new_def)
qed

lemma shards_never_share_nonces_witness:
  "\<exists>en' shards rest. split_shards 0 2 sharded_engine = (en', Ok (shards, rest))
     \<and> distinct (shards_nonces toy_crypto shards [(0, SendData 1 [1] [2]), (1, SendData 1 [1] [2]), (0, SendReceipt 2 [3])])"
proof -
  obtain en' shards rest where s: "split_shards 0 2 sharded_engine = (en', Ok (shards, rest))"
    using sharded_engine_splits [of 2 0] by auto
  have "distinct (shards_nonces toy_crypto shards [(0, SendData 1 [1] [2]), (1, SendData 1 [1] [2]), (0, SendReceipt 2 [3])])"
    by (rule shards_never_share_nonces [OF s]) (simp_all add: toy_laws)
  then show ?thesis using s by blast
qed

section \<open>Nonces across the split\<close>

lemma first_frame:
  assumes "encapsulate cr now a pkt = Ok (a', f)" "coherent cr a" "tk_tx_counter a = 0" "tk_send_epoch a = 0"
    and "tk_epoch_bytes a = 0" "now - tk_epoch_created a < ROTATE_SECS * 1000000000"
  shows "\<exists>ad m ct. f = write_head [] Data ((to_be64 0)[0 := suite_byte (tk_suite a)]) @ ad @ to_be64 1 @ ct \<and> pkt = ad @ m
    \<and> cipher_encrypt cr (cipher_for cr (tk_dh a) (tk_suite a) 0 (tk_is_initiator a) True) (nonce_for 1) ad m = Some ct"
    "tk_dh a' = tk_dh a" "tk_suite a' = tk_suite a" "tk_is_initiator a' = tk_is_initiator a"
proof -
  have rot: "rotated now a = a" using assms(5,6) by (simp add: rotated_def ROTATE_BYTES_def word_le_nat_alt)
  obtain d where d: "decode pkt = Inr d" using assms(1) by (auto simp: encapsulate_def split: sum.splits)
  obtain kid body where s: "seal cr now a (take (length pkt - length (dec_payload d)) pkt) (drop (length pkt - length (dec_payload d)) pkt) = Ok (a', kid, body)"
    "f = write_head [] Data kid @ take (length pkt - length (dec_payload d)) pkt @ body"
    using assms(1) by (auto simp: encapsulate_def Let_def d split: outcome.splits)
  note k = seal_ok [OF assms(2) s(1)] seal_fields [OF s(1), unfolded rot]
  show "tk_dh a' = tk_dh a" "tk_suite a' = tk_suite a" "tk_is_initiator a' = tk_is_initiator a" by (rule k(4-6))+
  have e: "tk_send_epoch a' = 0" "tk_tx_counter a' = 1" using k(8,9) assms(3,4) by simp_all
  then show "\<exists>ad m ct. f = write_head [] Data ((to_be64 0)[0 := suite_byte (tk_suite a)]) @ ad @ to_be64 1 @ ct \<and> pkt = ad @ m
    \<and> cipher_encrypt cr (cipher_for cr (tk_dh a) (tk_suite a) 0 (tk_is_initiator a) True) (nonce_for 1) ad m = Some ct"
    using k(1) unfolding s(2) k(2) e frame_key_id_def k(5) by (metis append_take_drop_id)
qed

text \<open>
  C35. Splitting a tunnel that has carried traffic reuses nonces: the first frame of the engine and the first frame of
  its shard 0 after the split are encrypted under the same key with the same nonce, in general for different
  messages, since the split restarts the counter of epoch 0 with the same secret.
\<close>

theorem split_shards_reuses_nonces:
  assumes "en_keys en = Some (keys_with_suite t0 dh init suite)"
    and "seal_frame ev t1 inner en = (en1, Ok frame1)" "t1 - t0 < ROTATE_SECS * 1000000000"
    and "split_shards t2 n en1 = (en2, Ok (shards, rest))"
    and "encapsulate (ev_crypto ev) t3 (shards ! 0) pkt = Ok (keys, frame2)" "t3 - t2 < ROTATE_SECS * 1000000000"
  shows "\<exists>c key_id ad1 m1 ct1 ad2 m2 ct2. build_ipv8_packet en inner = Ok (ad1 @ m1) \<and> pkt = ad2 @ m2
    \<and> frame1 = write_head [] Data key_id @ ad1 @ to_be64 1 @ ct1 \<and> cipher_encrypt (ev_crypto ev) c (nonce_for 1) ad1 m1 = Some ct1
    \<and> frame2 = write_head [] Data key_id @ ad2 @ to_be64 1 @ ct2 \<and> cipher_encrypt (ev_crypto ev) c (nonce_for 1) ad2 m2 = Some ct2"
proof -
  let ?k = "keys_with_suite t0 dh init suite"
  have k: "tk_tx_counter ?k = 0" "tk_send_epoch ?k = 0" "tk_epoch_bytes ?k = 0" "tk_epoch_created ?k = t0" "coherent (ev_crypto ev) ?k"
    "tk_dh ?k = dh" "tk_suite ?k = suite" "tk_is_initiator ?k = init"
    by (simp_all add: keys_with_suite_def keys_new_def coherent_def)
  obtain whole k1 where w: "build_ipv8_packet en inner = Ok whole" "encapsulate (ev_crypto ev) t1 ?k whole = Ok (k1, frame1)"
    "en_keys en1 = Some k1"
    using assms(1,2) by (auto simp: seal_frame_def split: outcome.splits if_splits)
  have t1: "t1 - tk_epoch_created ?k < ROTATE_SECS * 1000000000" using assms(3) k(4) by simp
  note f1 = first_frame [OF w(2) k(5,1,2,3) t1]
  obtain "derive_all t2 k1 (of_nat n) [0..<n] = Ok shards" "0 < n" using split_derives [OF assms(4)] w(3) by auto
  then have "derive_shard t2 k1 0 (of_nat n) = Ok (shards ! 0)" using derive_all_nth by fastforce
  note s = derive_shard_fields [OF this]
  have t3: "t3 - tk_epoch_created (shards ! 0) < ROTATE_SECS * 1000000000" using assms(6) s(13) by simp
  note f2 = first_frame [OF assms(5) s(11,12,1,14) t3]
  obtain ad1 m1 ct1 where c1: "frame1 = write_head [] Data ((to_be64 0)[0 := suite_byte suite]) @ ad1 @ to_be64 1 @ ct1" "whole = ad1 @ m1"
    "cipher_encrypt (ev_crypto ev) (cipher_for (ev_crypto ev) dh suite 0 init True) (nonce_for 1) ad1 m1 = Some ct1"
    using f1(1) unfolding k by blast
  obtain ad2 m2 ct2 where c2: "frame2 = write_head [] Data ((to_be64 0)[0 := suite_byte suite]) @ ad2 @ to_be64 1 @ ct2" "pkt = ad2 @ m2"
    "cipher_encrypt (ev_crypto ev) (cipher_for (ev_crypto ev) dh suite 0 init True) (nonce_for 1) ad2 m2 = Some ct2"
    using f2(1) unfolding s(8-10) f1(2-4) k by blast
  show ?thesis
    by (rule exI [of _ "cipher_for (ev_crypto ev) dh suite 0 init True"], rule exI [of _ "(to_be64 0)[0 := suite_byte suite]"],
        rule exI [of _ ad1], rule exI [of _ m1], rule exI [of _ ct1], rule exI [of _ ad2], rule exI [of _ m2], rule exI [of _ ct2])
       (simp add: c1 c2 w(1))
qed

lemma packet_encapsulated:
  assumes "length inner \<le> 65467" "coherent cr k" "aead_total cr" "aead_length cr"
  shows "\<exists>k' f. encapsulate cr t k (header_bytes (plain_hdr en inner) @ inner) = Ok (k', f)"
proof -
  have "proper_packet (header_bytes (plain_hdr en inner) @ inner)"
    by (rule encode_proper [OF build_packet(1) [OF assms(1)]]) simp
  from encapsulate_proper [OF this assms(2-4), of t] show ?thesis by blast
qed

lemma split_shards_reuses_nonces_witness:
  "\<exists>en1 frame1 en2 shards rest keys frame2 c ad1 m1 ad2 m2.
     seal_frame toy_env 1 [1, 2, 3] sharded_engine = (en1, Ok frame1) \<and> split_shards 2 2 en1 = (en2, Ok (shards, rest))
     \<and> encapsulate toy_crypto 3 (shards ! 0) (header_bytes (plain_hdr sharded_engine [9]) @ [9]) = Ok (keys, frame2)
     \<and> cipher_encrypt toy_crypto c (nonce_for 1) ad1 m1 \<noteq> None \<and> cipher_encrypt toy_crypto c (nonce_for 1) ad2 m2 \<noteq> None
     \<and> ad1 @ m1 \<noteq> ad2 @ m2"
proof -
  let ?k = "keys_with_suite 0 [1] True Aes256Gcm"
  have k: "en_keys sharded_engine = Some ?k" "coherent toy_crypto ?k" "en_mtu sharded_engine = DEFAULT_MTU"
    by (simp_all add: sharded_engine_def engine_new_def coherent_def keys_with_suite_def keys_new_def)
  have small: "length [1, 2, 3 :: u8] \<le> 65467" by simp
  obtain k1 f1 where e: "encapsulate toy_crypto 1 ?k (header_bytes (plain_hdr sharded_engine [1, 2, 3]) @ [1, 2, 3]) = Ok (k1, f1)"
    using packet_encapsulated [OF small k(2) toy_laws(2,3)] by blast
  obtain en1 where s: "seal_frame toy_env 1 [1, 2, 3] sharded_engine = (en1, Ok f1)" "en_keys en1 = Some k1" "en_state en1 = Established"
    "\<not> en_sharded en1"
    using e k build_packet(2) [OF small, of sharded_engine]
    by (simp add: seal_frame_def toy_env_simps DEFAULT_MTU_def) (simp add: sharded_engine_def engine_new_def)
  obtain shards where sh: "derive_all 2 k1 2 [0..<2] = Ok shards"
    using derive_all_ok [of "[0..<2]" 2 2 k1] by (auto simp: upt_conv_Cons)
  then obtain en2 rest where sp: "split_shards 2 2 en1 = (en2, Ok (shards, rest))" using s by (simp add: split_shards_def)
  have "derive_shard 2 k1 0 2 = Ok (shards ! 0)" using derive_all_nth [OF sh] by force
  then have co: "coherent toy_crypto (shards ! 0)" by (rule derive_shard_fields(11))
  obtain keys f2 where e2: "encapsulate toy_crypto 3 (shards ! 0) (header_bytes (plain_hdr sharded_engine [9]) @ [9]) = Ok (keys, f2)"
    using packet_encapsulated [OF _ co toy_laws(2,3), of "[9]" 3 sharded_engine] by auto
  have "\<exists>c key_id ad1 m1 ct1 ad2 m2 ct2. build_ipv8_packet sharded_engine [1, 2, 3] = Ok (ad1 @ m1)
    \<and> header_bytes (plain_hdr sharded_engine [9]) @ [9] = ad2 @ m2
    \<and> f1 = write_head [] Data key_id @ ad1 @ to_be64 1 @ ct1 \<and> cipher_encrypt (ev_crypto toy_env) c (nonce_for 1) ad1 m1 = Some ct1
    \<and> f2 = write_head [] Data key_id @ ad2 @ to_be64 1 @ ct2 \<and> cipher_encrypt (ev_crypto toy_env) c (nonce_for 1) ad2 m2 = Some ct2"
    by (rule split_shards_reuses_nonces [OF k(1) s(1) _ sp _, of 3]) (simp_all add: ROTATE_SECS_def toy_env_simps e2)
  then obtain c ad1 m1 ad2 m2 where r: "header_bytes (plain_hdr sharded_engine [1, 2, 3]) @ [1, 2, 3] = ad1 @ m1"
    "header_bytes (plain_hdr sharded_engine [9]) @ [9] = ad2 @ m2"
    "cipher_encrypt toy_crypto c (nonce_for 1) ad1 m1 \<noteq> None" "cipher_encrypt toy_crypto c (nonce_for 1) ad2 m2 \<noteq> None"
    using build_packet(2) [OF small, of sharded_engine] by (auto simp: toy_env_simps)
  moreover have "length (ad1 @ m1) = 43" "length (ad2 @ m2) = 41" unfolding r(1,2) [symmetric] by simp_all
  then have "length (ad1 @ m1) \<noteq> length (ad2 @ m2)" by linarith
  then have "ad1 @ m1 \<noteq> ad2 @ m2" by metis
  ultimately show ?thesis using s(1) sp e2 by blast
qed

text \<open>
  A split forgets what was received: every frame that the engine accepted before the split is accepted once
  more by the shard of its epoch, because the replay windows restart empty under unchanged keys.
\<close>

theorem split_reopens_replay_window:
  assumes "decapsulate cr b frame = (b', Inr pkt)" "coherent cr b" "parse_head frame = Inr head"
    and "derive_shard t b' (epoch_of (fh_key_id head) mod n) n = Ok s"
  shows "\<exists>s'. decapsulate cr s frame = (s', Inr pkt)"
proof -
  let ?kid = "fh_key_id head" and ?body = "drop FRAME_HEADER_SIZE frame"
  have ty: "fh_type head = Data" "\<not> length ?body < MIN_DATA_BODY"
    using assms(1,3) by (auto simp: decapsulate_def Let_def split: if_splits)
  obtain d where d: "decode ?body = Inr d" "\<not> (payload_offset d < BASE_HEADER_SIZE \<or> length ?body - payload_offset d < 8)"
    using assms(1,3) ty by (auto simp: decapsulate_def Let_def split: sum.splits if_splits)
  define plain rest where "plain = take (payload_offset d) ?body" and "rest = drop (payload_offset d) ?body"
  obtain secret where o: "open_frame cr b ?kid rest plain = (b', Inr secret)" "pkt = plain @ secret"
    using assms(1,3) ty d by (auto simp: decapsulate_def Let_def plain_def rest_def split: prod.splits sum.splits)
  obtain b1 e c where oc: "open_cipher cr b ?kid = (b1, Inr (e, c))"
    and dec: "cipher_decrypt cr c (nonce_for (from_be (take 8 rest))) plain (drop 8 rest) = Some secret"
    and acc: "snd (rw_accept (window_of (tk_rx b1) e) (from_be (take 8 rest)))" and len: "\<not> length rest < 8"
    using o(1) by (auto simp: open_frame_def Let_def split: if_splits prod.splits sum.splits option.splits)
  note c = coherent_open_cipher(2) [OF assms(2) oc refl]
  have e: "e = epoch_of ?kid" using open_cipher_frame(2) [OF oc refl] by blast
  have suite: "suite_from_byte (?kid ! 0) = Some (tk_suite b)"
    using oc by (auto simp: open_cipher_def split: option.splits if_splits)
  have cnt: "from_be (take 8 rest) \<noteq> (0 :: u64)" using acc by (auto simp: rw_accept_def)
  have "tk_dh b' = tk_dh b \<and> tk_suite b' = tk_suite b \<and> tk_is_initiator b' = tk_is_initiator b"
    using open_frame_cases [OF o(1)] by (rule) (auto simp: note_data_def prune_def Let_def split: option.splits)
  note f = derive_shard_fields [OF assms(4)] this
  have kid0: "?kid ! 0 = suite_byte (tk_suite s)"
    using suite f by (auto simp: suite_from_byte_def split: if_splits)
  have rx: "rx_epochs s = {}" using f(6,7) by (simp add: rx_epochs_def)
  then have ns: "\<not> stale s (epoch_of ?kid)" by (simp add: stale_def)
  have ep: "epoch_of ?kid mod tk_stride s = tk_shard s" using f(2,3) by simp
  obtain cs where oc': "open_cipher cr s ?kid = (s\<lparr> tk_rx_ciphers := cs \<rparr>,
      Inr (epoch_of ?kid, cipher_for cr (tk_dh s) (tk_suite s) (epoch_of ?kid) (tk_is_initiator s) False))"
    using open_cipher_ok [OF f(11) kid0 refl ep ns] by blast
  have acc': "snd (rw_accept rx_window_default (from_be (take 8 rest)))"
    using accept_refines [OF represents_default, of "from_be (take 8 rest)"] cnt
    by (simp add: acceptable_def unat_eq_zero)
  have "\<exists>s'. open_frame cr s ?kid rest plain = (s', Inr secret)"
    using oc' dec len acc' c e f(6) f(8-10) f(15)
    by (auto simp: open_frame_def Let_def window_of_def split: prod.split)
  then show ?thesis using assms(3) ty d o(2) unfolding decapsulate_def plain_def rest_def by (auto simp: Let_def)
qed

lemma split_reopens_replay_window_witness:
  "\<exists>kb' frame s s'. decapsulate toy_crypto (keys_with_suite 0 [1] False Aes256Gcm) frame
       = (kb', Inr (header_bytes sample_header @ chain_bytes (hdr_ext_headers sample_header) @ [7, 8]))
     \<and> (\<exists>k. derive_shard 5 kb' k 2 = Ok s)
     \<and> decapsulate toy_crypto s frame = (s', Inr (header_bytes sample_header @ chain_bytes (hdr_ext_headers sample_header) @ [7, 8]))"
proof -
  let ?pkt = "header_bytes sample_header @ chain_bytes (hdr_ext_headers sample_header) @ [7, 8]"
  have co: "coherent toy_crypto (keys_with_suite 0 [1] False Aes256Gcm)"
    by (simp add: coherent_def keys_with_suite_def keys_new_def)
  obtain kb' frame kid where d: "decapsulate toy_crypto (keys_with_suite 0 [1] False Aes256Gcm) frame = (kb', Inr ?pkt)"
    "parse_head frame = Inr \<lparr>fh_type = Data, fh_key_id = kid\<rparr>"
    using tunnel_step [OF toy_laws in_sync_start [of toy_crypto 0 "[1]" Aes256Gcm 0] _ sample_packet, of 0] by auto
  have "epoch_of (fh_key_id \<lparr>fh_type = Data, fh_key_id = kid\<rparr>) mod 2 < 2" by (simp add: word_less_nat_alt unat_mod)
  then obtain s where s: "derive_shard 5 kb' (epoch_of (fh_key_id \<lparr>fh_type = Data, fh_key_id = kid\<rparr>) mod 2) 2 = Ok s"
    by (auto simp: derive_shard_def)
  show ?thesis using split_reopens_replay_window [OF d(1) co d(2) s] d(1) s by blast
qed

section \<open>One worker\<close>

text \<open>A worker that handles frame after frame, with the time of each.\<close>

fun data_tasks :: "crypto \<Rightarrow> (nat \<times> bytes) list \<Rightarrow> worker \<Rightarrow> flow_shards \<Rightarrow> worker \<times> flow_shards" where
  "data_tasks cr [] w fl = (w, fl)"
| "data_tasks cr ((t, f) # fs) w fl = (case data_task cr t f w fl of (w, fl) \<Rightarrow> data_tasks cr fs w fl)"

lemma data_task_keeps:
  "wk_keys (fst (data_task cr t f w fl)) = fst (decapsulate cr (wk_keys w) f)"
  "wk_alive (fst (data_task cr t f w fl)) \<Longrightarrow> wk_alive w"
  "wk_queue w = [] \<Longrightarrow> wk_queue (fst (data_task cr t f w fl)) = []"
  "wk_frag_id (fst (data_task cr t f w fl)) = wk_frag_id w"
  by (auto simp: data_task_def Let_def dead_def split: prod.splits sum.splits outcome.splits option.splits if_splits)

lemma data_task_workers:
  "data_task cr t f w (fl\<lparr> fl_workers := ws \<rparr>) =
     (fst (data_task cr t f w fl), (snd (data_task cr t f w fl))\<lparr> fl_workers := ws \<rparr>)"
  by (simp add: data_task_def Let_def flow_dropped_def flow_deliver_def flow_reassembled_def split: prod.split sum.split outcome.split option.split)

lemma data_task_frame:
  "fl_workers (snd (data_task cr t f w fl)) = fl_workers fl" "fl_ok (snd (data_task cr t f w fl)) = fl_ok fl"
  "fl_local (snd (data_task cr t f w fl)) = fl_local fl" "fl_peer (snd (data_task cr t f w fl)) = fl_peer fl"
  "fl_mtu (snd (data_task cr t f w fl)) = fl_mtu fl" "fl_frames (snd (data_task cr t f w fl)) = fl_frames fl"
  by (simp_all add: data_task_def Let_def flow_dropped_def flow_deliver_def flow_reassembled_def split: prod.split sum.split outcome.split option.split)

lemma data_piece:
  assumes "decapsulate cr (wk_keys w) f = (kb', Inr (piece h p c ident k))" "splittable h p c n" "k < n" "chain_ok (hdr_ext_headers h)"
    and "reasm_insert t (piece_header h p c ident k) (piece_data p c k) (wk_reasm w) =
      (gs, Ok (if k + 1 = n then Some (header_bytes h @ chain_bytes (hdr_ext_headers h) @ p) else None))"
  shows "\<exists>fl'. data_task cr t f w fl = (w\<lparr> wk_keys := kb', wk_reasm := gs \<rparr>, fl')
    \<and> fl_delivered fl' = fl_delivered fl @ (if k + 1 = n then [p] else [])"
proof -
  have dec: "decode (piece h p c ident k) = Inr \<lparr>dec_header = piece_header h p c ident k, dec_payload = piece_data p c k\<rparr>"
    by (rule decode_piece [OF assms(2,3)])
  have fl: "hdr_flags (piece_header h p c ident k) AND FLAG_FRAGMENT \<noteq> 0"
    using fragment_flag_bits(1) unfolding piece_header_def is_fragment_def by blast
  have nh: "hdr_next_header (piece_header h p c ident k) = 6"
    by (simp add: piece_header_def first_type_def frag_to_ext_def Let_def)
  have whole: "decode (header_bytes h @ chain_bytes (hdr_ext_headers h) @ p) = Inr \<lparr>dec_header = h, dec_payload = p\<rparr>"
    by (rule decode_encoded [where junk = "[]"]) (use assms(2,4) in \<open>simp_all add: splittable_def\<close>)
  show ?thesis using assms(1,5) dec fl nh whole
    by (cases "k + 1 = n") (simp_all add: data_task_def Let_def flow_deliver_def flow_reassembled_def)
qed

lemma worker_pieces:
  assumes "splittable h p c n" "chain_ok (hdr_ext_headers h)" "ready_for h gs" "\<forall>i. arrive i - arrive 0 < REASSEMBLY_TIMEOUT"
  shows "\<lbrakk>k < n; wk_reasm w = reasm_states h p c ident arrive gs k;
      decap_all cr (wk_keys w) frames = (kb', map Inr (map (piece h p c ident) [k..<n]))\<rbrakk> \<Longrightarrow>
    \<exists>w' fl'. data_tasks cr (zip (map arrive [k..<n]) frames) w fl = (w', fl') \<and> fl_delivered fl' = fl_delivered fl @ [p]
      \<and> wk_keys w' = kb' \<and> ready_for h (wk_reasm w') \<and> wk_alive w' = wk_alive w"
proof (induction "n - k" arbitrary: k w frames fl)
  case (Suc x)
  obtain f fs kb1 where d: "frames = f # fs" "decapsulate cr (wk_keys w) f = (kb1, Inr (piece h p c ident k))"
    "decap_all cr kb1 fs = (kb', map Inr (map (piece h p c ident) [k + 1..<n]))"
    by (rule decap_pieces [OF Suc.prems(3,1)])
  have upt: "[k..<n] = k # [k + 1..<n]" using Suc.prems(1) by (simp add: upt_conv_Cons)
  note r = reasm_sequence(1) [OF assms(1,3,4) Suc.prems(1), of ident, folded Suc.prems(2)]
  let ?w = "w\<lparr> wk_keys := kb1, wk_reasm := reasm_states h p c ident arrive gs (k + 1) \<rparr>"
  obtain fl1 where s: "data_task cr (arrive k) f w fl = (?w, fl1)" "fl_delivered fl1 = fl_delivered fl @ (if k + 1 = n then [p] else [])"
    using data_piece [OF d(2) assms(1) Suc.prems(1) assms(2) r, of fl] by blast
  show ?case
  proof (cases "k + 1 = n")
    case True
    have "fs = []" using d(3) True by (cases fs) (auto split: prod.splits)
    then show ?thesis using s True d upt reasm_sequence(2) [OF assms(1,3,4), of ident] by (simp del: reasm_states.simps)
  next
    case False
    then have k1: "k + 1 < n" "x = n - (k + 1)" using Suc.prems(1) Suc.hyps(2) by simp_all
    have ih: "wk_reasm ?w = reasm_states h p c ident arrive gs (k + 1)"
      "decap_all cr (wk_keys ?w) fs = (kb', map Inr (map (piece h p c ident) [k + 1..<n]))" using d(3) by simp_all
    from Suc.hyps(1) [OF k1(2,1) ih, of fl1] show ?thesis using s False unfolding d(1) upt by (auto simp del: reasm_states.simps)
  qed
qed simp

section \<open>Multi-hop packets in fragments\<close>

text \<open>
  Fragments carry a multi-hop packet past the checks of the sharded path: a worker refuses a packet whose chain
  starts with a route trace, but when the same packet arrives in fragments it is reassembled and delivered,
  whatever its signature, certificate, hop limit and destination are. An engine without forwarding refuses it.
\<close>

theorem fragmented_multihop_delivered:
  assumes "aead_correct cr" "aead_total cr" "aead_length cr" "in_sync cr ka (wk_keys w)"
    and "encode h p = Inr whole" "chain_ok (hdr_ext_headers h)" "hdr_next_header h = 5" "\<not> is_fragment (hdr_flags h)"
    and "length (hdr_ext_headers h) < MAX_EXT_CHAIN" "\<not> list_ex (\<lambda>e. ext_type e = Fragment) (hdr_ext_headers h)"
    and "mtu < length whole" "58 + ext_total (hdr_ext_headers h) \<le> mtu"
    and "unat (tk_send_epoch ka) + 8192 * unat (tk_stride ka) < 2 ^ 56"
    and "ready_for h (wk_reasm w)" "\<forall>i. arrive i - arrive 0 < REASSEMBLY_TIMEOUT"
  shows "\<exists>pkts ka' frames. fragment_packet whole mtu ident = Inr pkts \<and> encapsulate_all cr t ka pkts = (ka', Ok frames)
    \<and> fl_delivered (snd (data_tasks cr (zip (map arrive [0..<length frames]) frames) w fl)) = fl_delivered fl @ [p]
    \<and> (\<forall>ev now en. en_fwd en = None \<longrightarrow> ingest_ipv8_packet ev whole now en = reject_forward en)"
proof -
  obtain c n where cn: "splittable h p c n" "fragment_packet whole mtu ident = Inr (map (piece h p c ident) [0..<n])"
    using fragment_packet_pieces [OF assms(5,6,8,9,11,10,12)] by blast
  have n: "0 < n" using cn(1) by (simp add: splittable_def)
  let ?pkts = "map (piece h p c ident) [0..<n]"
  have "n * unat (tk_stride ka) \<le> 8192 * unat (tk_stride ka)" using split_count [OF cn(1)] by (rule mult_le_mono1)
  then have room: "unat (tk_send_epoch ka) + length ?pkts * unat (tk_stride ka) < 2 ^ 56"
    using assms(13) by (simp only: length_map length_upt diff_zero)
  have "\<forall>pkt \<in> set ?pkts. proper_packet pkt" using piece_proper [OF cn(1)] by auto
  from encapsulate_all_in_sync [OF assms(1-4) room this, of t] obtain ka' kb' frames where
    e: "encapsulate_all cr t ka ?pkts = (ka', Ok frames)" "decap_all cr (wk_keys w) frames = (kb', map Inr ?pkts)" by blast
  have len: "length frames = n" using encapsulate_all_length [OF e(1)] by simp
  have w: "wk_reasm w = reasm_states h p c ident arrive (wk_reasm w) 0" by simp
  have "fl_delivered (snd (data_tasks cr (zip (map arrive [0..<length frames]) frames) w fl)) = fl_delivered fl @ [p]"
    using worker_pieces [OF cn(1) assms(6,14,15) n w e(2), of fl] len by auto
  moreover have "ingest_ipv8_packet ev whole now en = reject_forward en" if "en_fwd en = None" for ev now en
    using decode_encode_junk [OF assms(5,6), of "[]"] assms(7) that
    by (simp add: ingest_ipv8_packet_def engine_route_decision_def)
  ultimately show ?thesis using cn(2) e(1) by blast
qed

text \<open>A packet whose route trace is eight zero bytes.\<close>

definition junk_trace :: ipv8_header where
  "junk_trace = attach_ext_headers (header_new (addr_with_region 1 1 0 2 0) (addr_with_region 9 1 0 2 0) 100)
     [\<lparr>ext_type = RouteTrace, ext_payload = replicate 8 0\<rparr>]"

lemma junk_trace_facts:
  "encode junk_trace (replicate 100 7) = Inr (header_bytes junk_trace @ chain_bytes (hdr_ext_headers junk_trace) @ replicate 100 7)"
  "chain_ok (hdr_ext_headers junk_trace)" "hdr_next_header junk_trace = 5" "\<not> is_fragment (hdr_flags junk_trace)"
  "length (hdr_ext_headers junk_trace) = 1" "\<not> list_ex (\<lambda>e. ext_type e = Fragment) (hdr_ext_headers junk_trace)"
  "ext_total (hdr_ext_headers junk_trace) = 10"
  by (simp_all add: junk_trace_def encode_iff encodable_def attach_ext_headers_def header_new_def first_type_def const_defs wire_size_def
      reserved_ok_def has_extension_def is_fragment_def chain_ok_def ext_ok_def canonical_type_def ext_from_u8_def)

lemma fragmented_multihop_delivered_witness:
  "\<forall>fl. \<exists>pkts ka' frames. fragment_packet (header_bytes junk_trace @ chain_bytes (hdr_ext_headers junk_trace) @ replicate 100 7) 100 0 = Inr pkts
     \<and> encapsulate_all toy_crypto 0 (keys_with_suite 0 [1] True Aes256Gcm) pkts = (ka', Ok frames)
     \<and> fl_delivered (snd (data_tasks toy_crypto (zip (map (\<lambda>i. 3) [0..<length frames]) frames)
         (worker_new (keys_with_suite 0 [1] False Aes256Gcm)) fl)) = fl_delivered fl @ [replicate 100 7]"
proof
  fix fl
  have w: "in_sync toy_crypto (keys_with_suite 0 [1] True Aes256Gcm) (wk_keys (worker_new (keys_with_suite 0 [1] False Aes256Gcm)))"
    "ready_for junk_trace (wk_reasm (worker_new (keys_with_suite 0 [1] False Aes256Gcm)))"
    using in_sync_start by (simp_all add: worker_new_def ready_for_def reassembler_new_def MAX_GROUPS_def)
  have "\<exists>pkts ka' frames. fragment_packet (header_bytes junk_trace @ chain_bytes (hdr_ext_headers junk_trace) @ replicate 100 7) 100 0 = Inr pkts
     \<and> encapsulate_all toy_crypto 0 (keys_with_suite 0 [1] True Aes256Gcm) pkts = (ka', Ok frames)
     \<and> fl_delivered (snd (data_tasks toy_crypto (zip (map (\<lambda>i. 3) [0..<length frames]) frames)
         (worker_new (keys_with_suite 0 [1] False Aes256Gcm)) fl)) = fl_delivered fl @ [replicate 100 7]
     \<and> (\<forall>ev now en. en_fwd en = None \<longrightarrow> ingest_ipv8_packet ev
          (header_bytes junk_trace @ chain_bytes (hdr_ext_headers junk_trace) @ replicate 100 7) now en = reject_forward en)"
    by (rule fragmented_multihop_delivered [OF toy_laws w(1) junk_trace_facts(1-4) _ junk_trace_facts(6) _ _ _ w(2)])
       (simp_all add: junk_trace_facts(5,7) MAX_EXT_CHAIN_def REASSEMBLY_TIMEOUT_def)
  then show "\<exists>pkts ka' frames. fragment_packet (header_bytes junk_trace @ chain_bytes (hdr_ext_headers junk_trace) @ replicate 100 7) 100 0 = Inr pkts
     \<and> encapsulate_all toy_crypto 0 (keys_with_suite 0 [1] True Aes256Gcm) pkts = (ka', Ok frames)
     \<and> fl_delivered (snd (data_tasks toy_crypto (zip (map (\<lambda>i. 3) [0..<length frames]) frames)
         (worker_new (keys_with_suite 0 [1] False Aes256Gcm)) fl)) = fl_delivered fl @ [replicate 100 7]" by blast
qed

section \<open>Frames find their shard\<close>

lemma inbound_shard_epoch:
  assumes "length kid = 8"
  shows "inbound_shard n kid = unat (epoch_of kid mod of_nat n)"
proof -
  obtain b rest where k: "kid = b # rest" "length rest = 7" using assms by (cases kid) auto
  have w: "write_at 1 (drop 1 kid) (replicate 8 0) = (0 :: u8) # rest" using k by (simp add: write_at_def numeral_eq_Suc)
  have "(from_be (0 # rest) :: u64) = from_be rest" by simp
  then show ?thesis using from_be_masked [OF k(2), of b]
    unfolding inbound_shard_def Let_def w unfolding epoch_of_def k(1) by (simp del: from_be.simps)
qed

text \<open>The shard that can open a frame is the one that it is routed to.\<close>

lemma opened_by_shard:
  assumes "decapsulate cr b f = (b', Inr pkt)" "unat (tk_stride b) = n"
  obtains kid where "parse_head f = Inr \<lparr>fh_type = Data, fh_key_id = kid\<rparr>" "inbound_shard n kid = unat (tk_shard b)"
    "tk_stride b' = tk_stride b" "tk_shard b' = tk_shard b"
proof -
  obtain kid where h: "parse_head f = Inr \<lparr>fh_type = Data, fh_key_id = kid\<rparr>" using decapsulated_frame [OF assms(1)] by blast
  have "length kid = 8" using h by (auto simp: parse_head_def FRAME_HEADER_SIZE_def split: if_splits option.splits)
  note shard = inbound_shard_epoch [OF this, of n]
  obtain rest plain secret where o: "open_frame cr b kid rest plain = (b', Inr secret)"
    using assms(1) h by (auto simp: decapsulate_def Let_def split: prod.splits sum.splits if_splits)
  have "epoch_of kid mod tk_stride b = tk_shard b \<and> tk_stride b' = tk_stride b \<and> tk_shard b' = tk_shard b"
    using open_frame_cases [OF o] by (rule) (auto simp: note_data_def prune_fields)
  moreover have "(of_nat n :: u64) = tk_stride b" using assms(2) by auto
  ultimately show ?thesis using that [OF h] shard by simp
qed

section \<open>Two sharded data paths\<close>

text \<open>Every worker takes its turn once; a worker without a task waits.\<close>

definition step_all :: "crypto \<Rightarrow> nat \<Rightarrow> flow_shards \<Rightarrow> flow_shards" where
  "step_all cr t fl = fold (worker_step cr t) [0..<flow_len fl] fl"

definition flow_send :: "crypto \<Rightarrow> nat \<Rightarrow> bytes \<Rightarrow> flow_shards \<Rightarrow> flow_shards" where
  "flow_send cr t inner A = step_all cr t (fst (seal_dispatch inner A))"

fun flow_receive :: "crypto \<Rightarrow> (nat \<times> bytes) list \<Rightarrow> flow_shards \<Rightarrow> flow_shards" where
  "flow_receive cr [] B = B"
| "flow_receive cr ((t, f) # fs) B = flow_receive cr fs (step_all cr t (fst (handle_inbound f B)))"

fun flow_run :: "crypto \<Rightarrow> (nat \<times> bytes \<times> (nat \<Rightarrow> nat)) list \<Rightarrow> flow_shards \<Rightarrow> flow_shards \<Rightarrow> flow_shards" where
  "flow_run cr [] A B = B"
| "flow_run cr ((t, inner, arrive) # evs) A B = (
     let A' = flow_send cr t inner A; frames = drop (length (fl_frames A)) (fl_frames A')
     in flow_run cr evs A' (flow_receive cr (zip (map arrive [0..<length frames]) frames) B))"

lemma step_idle: "wk_queue (fl_workers fl ! k) = [] \<Longrightarrow> worker_step cr t k fl = fl"
  by (simp add: worker_step_def Let_def)

lemma run_task_frame:
  "fl_workers (snd (run_task cr t task w fl)) = fl_workers fl" "wk_queue w = [] \<Longrightarrow> wk_queue (fst (run_task cr t task w fl)) = []"
  by (cases task; auto simp: seal_task_def data_task_frame data_task_keeps dead_def Let_def flow_dropped_def flow_count_sealed_def
      split: sum.splits prod.splits outcome.splits)+

lemma fold_idle: "\<forall>j \<in> set js. wk_queue (fl_workers fl ! j) = [] \<Longrightarrow> fold (worker_step cr t) js fl = fl"
  by (induction js) (simp_all add: step_idle)

text \<open>One task for one idle worker.\<close>

lemma step_all_one:
  assumes "k < flow_len fl" "\<forall>j < flow_len fl. wk_queue (fl_workers fl ! j) = []" "wk_alive (fl_workers fl ! k)"
  shows "step_all cr t (fst (send_task k task fl)) = (case run_task cr t task (fl_workers fl ! k) (fst (send_task k task fl)) of
     (w, fl') \<Rightarrow> fl'\<lparr> fl_workers := (fl_workers fl)[k := w] \<rparr>)"
proof -
  let ?w = "fl_workers fl ! k" and ?fl = "fst (send_task k task fl)"
  have q: "wk_queue ?w = []" using assms(1,2) by blast
  have ws: "fl_workers ?fl = (fl_workers fl)[k := ?w\<lparr> wk_queue := [task] \<rparr>]"
    using assms(3) q by (simp add: send_task_def Let_def)
  then have len: "flow_len ?fl = flow_len fl" by (simp add: flow_len_def)
  have restore: "?w\<lparr> wk_queue := [] \<rparr> = ?w" using q by simp
  obtain w' fl' where r: "run_task cr t task ?w ?fl = (w', fl')" by (metis surj_pair)
  have st: "worker_step cr t k ?fl = fl'\<lparr> fl_workers := (fl_workers fl)[k := w'] \<rparr>"
    using run_task_frame(1) [of cr t task ?w ?fl] r assms(3) restore ws assms(1) [unfolded flow_len_def]
    by (simp add: worker_step_def Let_def del: run_task.simps)
  have q': "wk_queue w' = []" using run_task_frame(2) [OF q, of cr t task ?fl] r by simp
  have upt: "[0..<flow_len fl] = [0..<k] @ k # [k + 1..<flow_len fl]"
    using assms(1) by (metis Suc_eq_plus1 le_add1 le_less_trans less_imp_add_positive upt_add_eq_append upt_conv_Cons zero_le add_0 not_less_eq_eq order_less_imp_le)
  have "fold (worker_step cr t) [0..<k] ?fl = ?fl"
    by (rule fold_idle) (use assms(1,2) ws in \<open>auto simp: flow_len_def\<close>)
  moreover have "fold (worker_step cr t) [k + 1..<flow_len fl] (fl'\<lparr> fl_workers := (fl_workers fl)[k := w'] \<rparr>) =
      fl'\<lparr> fl_workers := (fl_workers fl)[k := w'] \<rparr>"
    by (rule fold_idle) (use assms(1,2) q' in \<open>auto simp: flow_len_def\<close>)
  ultimately show ?thesis using st r unfolding step_all_def len upt by simp
qed

lemma data_tasks_workers:
  "data_tasks cr fs w (fl\<lparr> fl_workers := ws \<rparr>) = (fst (data_tasks cr fs w fl), (snd (data_tasks cr fs w fl))\<lparr> fl_workers := ws \<rparr>)"
proof (induction fs arbitrary: w fl)
  case (Cons x fs)
  obtain t f where x: "x = (t, f)" by (metis surj_pair)
  obtain w1 fl1 where d: "data_task cr t f w fl = (w1, fl1)" by (metis surj_pair)
  show ?case using Cons.IH [of w1 fl1] data_task_workers [where cr = cr and t = t and f = f and w = w and fl = fl and ws = ws] by (simp add: x d)
qed simp

lemma data_tasks_alive: "wk_alive (fst (data_tasks cr fs w fl)) \<Longrightarrow> wk_alive w"
proof (induction fs arbitrary: w fl)
  case (Cons x fs)
  obtain t f where x: "x = (t, f)" by (metis surj_pair)
  obtain w1 fl1 where d: "data_task cr t f w fl = (w1, fl1)" by (metis surj_pair)
  then have "wk_alive w1" using Cons by (simp add: x)
  then show ?case using data_task_keeps(2) [of cr t f w fl] d by simp
qed simp

lemma send_task_fst: "wk_alive (fl_workers fl ! k) \<Longrightarrow>
    send_task k task fl = (fl\<lparr> fl_workers := (fl_workers fl)[k := (fl_workers fl ! k)\<lparr> wk_queue := wk_queue (fl_workers fl ! k) @ [task] \<rparr>] \<rparr>, True)"
  by (simp add: send_task_def Let_def)

text \<open>The frames of one shard, fed to the whole data path, reach the worker of that shard in order.\<close>

lemma flow_receive_tasks:
  "\<lbrakk>flow_len B = n; fl_ok B; k < n; \<forall>j < n. wk_queue (fl_workers B ! j) = []; w = fl_workers B ! k;
    unat (tk_stride (wk_keys w)) = n; unat (tk_shard (wk_keys w)) = k; length ts = length frames;
    decap_all cr (wk_keys w) frames = (kb', map Inr pkts); data_tasks cr (zip ts frames) w B = (w', fl'); wk_alive w'\<rbrakk> \<Longrightarrow>
   flow_receive cr (zip ts frames) B = fl'\<lparr> fl_workers := (fl_workers B)[k := w'] \<rparr>"
proof (induction frames arbitrary: B w ts pkts fl')
  case Nil
  have "w = w'" "B = fl'" using Nil.prems(10) by simp_all
  then have w: "w' = fl_workers fl' ! k" using Nil.prems(5) by simp
  show ?case unfolding w using \<open>B = fl'\<close> by simp
next
  case (Cons f fs)
  obtain t ts' where ts: "ts = t # ts'" using Cons.prems(8) by (cases ts) auto
  obtain kb1 pkt pkts' where d: "decapsulate cr (wk_keys w) f = (kb1, Inr pkt)" "pkts = pkt # pkts'"
    "decap_all cr kb1 fs = (kb', map Inr pkts')"
    using Cons.prems(9) by (cases pkts) (auto split: prod.splits)
  obtain w1 fl1 where dt: "data_task cr t f w B = (w1, fl1)" by (metis surj_pair)
  then have rest: "data_tasks cr (zip ts' fs) w1 fl1 = (w', fl')" using Cons.prems(10) ts by simp
  have "wk_alive w1" using data_tasks_alive rest Cons.prems(11) by (metis fst_conv)
  then have alive: "wk_alive (fl_workers B ! k)" using data_task_keeps(2) dt Cons.prems(5) by (metis fst_conv)
  obtain kid where h: "parse_head f = Inr \<lparr>fh_type = Data, fh_key_id = kid\<rparr>" "inbound_shard n kid = k"
    "tk_stride kb1 = tk_stride (wk_keys w)" "tk_shard kb1 = tk_shard (wk_keys w)"
    using opened_by_shard [OF d(1) Cons.prems(6)] Cons.prems(7) by metis
  let ?ws = "(fl_workers B)[k := (fl_workers B ! k)\<lparr> wk_queue := wk_queue (fl_workers B ! k) @ [Task_Data f] \<rparr>]"
  have inb: "fst (handle_inbound f B) = fst (send_task k (Task_Data f) B)"
    using Cons.prems(1,2) h(1,2) send_task_fst [OF alive] by (simp add: handle_inbound_def)
  let ?B1 = "fl1\<lparr> fl_workers := (fl_workers B)[k := w1] \<rparr>"
  have kB: "k < flow_len B" "\<forall>j < flow_len B. wk_queue (fl_workers B ! j) = []" using Cons.prems(1,3,4) by simp_all
  have st: "step_all cr t (fst (handle_inbound f B)) = ?B1"
    unfolding inb step_all_one [OF kB alive]
    using data_task_workers [where cr = cr and t = t and f = f and w = w and fl = B and ws = ?ws] dt Cons.prems(5) send_task_fst [OF alive] by simp
  have keep: "wk_keys w1 = kb1" "wk_queue w1 = []" using data_task_keeps(1,3) dt d(1) Cons.prems(3-5) by (metis fst_conv)+
  have B1: "flow_len ?B1 = n" "fl_ok ?B1" "fl_workers ?B1 ! k = w1" "\<forall>j < n. wk_queue (fl_workers ?B1 ! j) = []"
    using data_task_frame(2) [of cr t f w B] dt Cons.prems(1-4) keep(2) by (auto simp: flow_len_def nth_list_update)
  have rest': "data_tasks cr (zip ts' fs) w1 ?B1 = (w', fl'\<lparr> fl_workers := (fl_workers B)[k := w1] \<rparr>)"
    using data_tasks_workers [where cr = cr and fs = "zip ts' fs" and w = w1 and fl = fl1 and ws = "(fl_workers B)[k := w1]"] rest by simp
  have "flow_receive cr (zip ts' fs) ?B1 = (fl'\<lparr> fl_workers := (fl_workers B)[k := w1] \<rparr>)\<lparr> fl_workers := (fl_workers ?B1)[k := w'] \<rparr>"
    by (rule Cons.IH [OF B1(1,2) Cons.prems(3) B1(4) B1(3) [symmetric] _ _ _ _ rest' Cons.prems(11)])
       (use h keep d(3) Cons.prems(6-8) ts in simp_all)
  then show ?case using st ts by simp
qed

lemma data_tasks_frame:
  "fl_workers (snd (data_tasks cr fs w fl)) = fl_workers fl" "fl_ok (snd (data_tasks cr fs w fl)) = fl_ok fl"
proof (induction fs arbitrary: w fl)
  case (Cons x fs)
  case 1 then show ?case using Cons by (cases x) (simp add: case_prod_beta data_task_frame)
  case 2 then show ?case using Cons by (cases x) (simp add: case_prod_beta data_task_frame)
qed simp_all

lemma data_tasks_queue: "wk_queue w = [] \<Longrightarrow> wk_queue (fst (data_tasks cr fs w fl)) = []"
  by (induction fs arbitrary: w fl) (auto simp: case_prod_beta data_task_keeps)

lemma decap_all_shard: "decap_all cr b fs = (b', map Inr pkts) \<Longrightarrow> tk_shard b' = tk_shard b"
proof (induction fs arbitrary: b pkts)
  case (Cons f fs)
  obtain b1 pkt pkts' where d: "decapsulate cr b f = (b1, Inr pkt)" "decap_all cr b1 fs = (b', map Inr pkts')"
    using Cons.prems by (cases pkts) (auto split: prod.splits)
  have "tk_shard b1 = tk_shard b" by (rule opened_by_shard [OF d(1) refl])
  then show ?case using Cons.IH [OF d(2)] by simp
qed simp

lemma data_whole:
  assumes "decapsulate cr (wk_keys w) f = (kb', Inr pkt)" "decode pkt = Inr \<lparr>dec_header = h, dec_payload = p\<rparr>"
    and "\<not> is_fragment (hdr_flags h)" "hdr_next_header h \<noteq> 5"
  shows "data_tasks cr [(t, f)] w fl = (w\<lparr> wk_keys := kb' \<rparr>, flow_deliver p fl)"
  using assms by (simp add: data_task_def is_fragment_def)

lemma emit_all_ok: "encapsulate_all cr t k ps = (k', Ok fs) \<Longrightarrow> emit_all cr t k ps = (k', fs, Ok ())"
  by (induction ps arbitrary: k fs) (auto split: outcome.splits prod.splits)

section \<open>End to end\<close>

definition worker_pair :: "crypto \<Rightarrow> ipv8_header \<Rightarrow> nat \<Rightarrow> nat \<Rightarrow> nat \<Rightarrow> worker \<Rightarrow> worker \<Rightarrow> bool" where
  "worker_pair cr h n room k a b \<longleftrightarrow> wk_alive a \<and> wk_alive b \<and> wk_queue a = [] \<and> wk_queue b = []
     \<and> in_sync cr (wk_keys a) (wk_keys b) \<and> unat (tk_stride (wk_keys a)) = n \<and> unat (tk_shard (wk_keys b)) = k
     \<and> unat (tk_send_epoch (wk_keys a)) + room * n < 2 ^ 56 \<and> ready_for h (wk_reasm b)"

definition flows_linked :: "crypto \<Rightarrow> nat \<Rightarrow> nat \<Rightarrow> flow_shards \<Rightarrow> flow_shards \<Rightarrow> bool" where
  "flows_linked cr n room A B \<longleftrightarrow> flow_len A = n \<and> flow_len B = n \<and> 0 < n \<and> fl_ok A \<and> fl_ok B \<and> 58 \<le> fl_mtu A
     \<and> (\<forall>k < n. worker_pair cr (ip_hdr (fl_local A) (fl_peer A) []) n room k (fl_workers A ! k) (fl_workers B ! k))"

lemma worker_pair_mono: "worker_pair cr h n (r + room) k a b \<Longrightarrow> worker_pair cr h n room k a b"
  by (auto simp: worker_pair_def algebra_simps)

text \<open>One packet through the right shard.\<close>

lemma flow_packet:
  assumes "aead_correct cr" "aead_total cr" "aead_length cr" "flows_linked cr n (8192 + room) A B"
    and "length inner \<le> 65467" "\<forall>i. arrive i - arrive 0 < REASSEMBLY_TIMEOUT"
  shows "\<exists>A' B' frames. flow_send cr t inner A = A' \<and> fl_frames A' = fl_frames A @ frames
    \<and> flow_receive cr (zip (map arrive [0..<length frames]) frames) B = B' \<and> fl_delivered B' = fl_delivered B @ [inner]
    \<and> flows_linked cr n room A' B'"
proof -
  define k where "k = unat (hash_flow inner) mod n"
  have len: "flow_len A = n" "flow_len B = n" "0 < n" and ok: "fl_ok A" "fl_ok B" and mtu: "58 \<le> fl_mtu A"
    using assms(4) by (auto simp: flows_linked_def)
  then have k: "k < n" by (simp add: k_def)
  let ?h = "ip_hdr (fl_local A) (fl_peer A) inner" and ?a = "fl_workers A ! k" and ?b = "fl_workers B ! k"
  have pair: "worker_pair cr ?h n (8192 + room) k ?a ?b"
    using assms(4) k by (simp add: flows_linked_def worker_pair_def ready_for_hdr [of _ _ inner])
  then have a: "wk_alive ?a" "wk_alive ?b" "in_sync cr (wk_keys ?a) (wk_keys ?b)" "unat (tk_stride (wk_keys ?a)) = n"
    "unat (tk_shard (wk_keys ?b)) = k" "unat (tk_send_epoch (wk_keys ?a)) + (8192 + room) * n < 2 ^ 56" "ready_for ?h (wk_reasm ?b)"
    by (simp_all add: worker_pair_def)
  have idle: "\<forall>j < flow_len A. wk_queue (fl_workers A ! j) = []" "\<forall>j < n. wk_queue (fl_workers B ! j) = []"
    using assms(4) by (simp_all add: flows_linked_def worker_pair_def)
  note w = ip_hdr_encodes [OF assms(5), of "fl_local A" "fl_peer A"]
  obtain pkts where p: "fragment_packet (header_bytes ?h @ inner) (fl_mtu A) (wk_frag_id ?a) = Inr pkts" "length pkts \<le> 8192"
    "\<forall>pkt \<in> set pkts. proper_packet pkt"
    "pkts = [header_bytes ?h @ inner] \<or> (\<exists>c m. splittable ?h inner c m \<and> pkts = map (piece ?h inner c (wk_frag_id ?a)) [0..<m])"
    using packets_of [OF assms(5) mtu] by blast
  have "length pkts * n \<le> 8192 * n" using p(2) by (rule mult_le_mono1)
  then have room: "unat (tk_send_epoch (wk_keys ?a)) + length pkts * unat (tk_stride (wk_keys ?a)) < 2 ^ 56"
    using a(6) unfolding a(4) by (simp only: add_mult_distrib)
  from encapsulate_all_in_sync [OF assms(1-3) a(3) room p(3), of t] obtain ka' kb' frames where
    e: "encapsulate_all cr t (wk_keys ?a) pkts = (ka', Ok frames)" "decap_all cr (wk_keys ?b) frames = (kb', map Inr pkts)"
      "in_sync cr ka' kb'" "tk_stride ka' = tk_stride (wk_keys ?a)"
      "unat (tk_send_epoch ka') \<le> unat (tk_send_epoch (wk_keys ?a)) + length pkts * unat (tk_stride (wk_keys ?a))" by blast
  have flen: "length frames = length pkts" by (rule encapsulate_all_length [OF e(1)])
  let ?a' = "?a\<lparr> wk_frag_id := wk_frag_id ?a + 1, wk_keys := ka' \<rparr>"
  let ?A = "fst (send_task k (Task_Seal inner) A)"
  have disp: "fst (seal_dispatch inner A) = ?A" using ok(1) len(1) by (simp add: seal_dispatch_def k_def Let_def split: prod.split)
  have st: "run_task cr t (Task_Seal inner) ?a ?A = (?a', flow_count_sealed (length pkts) (?A\<lparr> fl_frames := fl_frames A @ frames \<rparr>))"
    using w(1) p(1) emit_all_ok [OF e(1)] ok(1) send_task_fst [OF a(1)] by (simp add: seal_task_def ip_hdr_def Let_def)
  have kA: "k < flow_len A" using k len by simp
  obtain A' where A': "flow_send cr t inner A = A'" "fl_frames A' = fl_frames A @ frames" "fl_workers A' = (fl_workers A)[k := ?a']"
    "fl_ok A'" "fl_mtu A' = fl_mtu A" "fl_local A' = fl_local A" "fl_peer A' = fl_peer A"
    using step_all_one [OF kA idle(1) a(1), of cr t "Task_Seal inner"] st send_task_fst [OF a(1)] ok(1)
    by (simp add: flow_send_def disp flow_count_sealed_def del: run_task.simps)
  have "\<exists>w' fl'. data_tasks cr (zip (map arrive [0..<length frames]) frames) ?b B = (w', fl') \<and> fl_delivered fl' = fl_delivered B @ [inner]
      \<and> wk_keys w' = kb' \<and> ready_for ?h (wk_reasm w') \<and> wk_alive w' = wk_alive ?b"
    using p(4)
  proof
    assume one: "pkts = [header_bytes ?h @ inner]"
    then obtain f where f: "frames = [f]" "decapsulate cr (wk_keys ?b) f = (kb', Inr (header_bytes ?h @ inner))"
      using decap_single e(2) by fastforce
    show ?thesis using data_whole [OF f(2) w(2), of "arrive 0" B] f(1) a(7) by (simp add: is_fragment_def flow_deliver_def)
  next
    assume "\<exists>c m. splittable ?h inner c m \<and> pkts = map (piece ?h inner c (wk_frag_id ?a)) [0..<m]"
    then obtain c m where cm: "splittable ?h inner c m" "pkts = map (piece ?h inner c (wk_frag_id ?a)) [0..<m]" by blast
    then have m: "0 < m" "chain_ok (hdr_ext_headers ?h)" by (simp_all add: splittable_def)
    show ?thesis using worker_pieces [OF cm(1) m(2) a(7) assms(6) m(1) _ e(2) [unfolded cm(2)], of B] flen cm(2) by simp
  qed
  then obtain w' fl' where d: "data_tasks cr (zip (map arrive [0..<length frames]) frames) ?b B = (w', fl')"
    "fl_delivered fl' = fl_delivered B @ [inner]" "wk_keys w' = kb'" "ready_for ?h (wk_reasm w')" "wk_alive w'"
    using a(2) by auto
  let ?B = "fl'\<lparr> fl_workers := (fl_workers B)[k := w'] \<rparr>"
  have "unat (tk_stride (wk_keys ?b)) = n" using a(3,4) by (simp add: in_sync_def)
  then have recv: "flow_receive cr (zip (map arrive [0..<length frames]) frames) B = ?B"
    by (rule flow_receive_tasks [OF len(2) ok(2) k idle(2) refl _ a(5) _ e(2) d(1,5)]) simp
  have keep: "fl_ok fl' = fl_ok B" "wk_queue w' = []" "tk_shard kb' = tk_shard (wk_keys ?b)"
    using data_tasks_frame(2) data_tasks_queue d(1) idle(2) k decap_all_shard [OF e(2)] by (metis fst_conv snd_conv)+
  have "unat (tk_send_epoch ka') + room * n < 2 ^ 56"
    using e(5) a(6) \<open>length pkts * n \<le> 8192 * n\<close> unfolding a(4) add_mult_distrib by linarith
  then have pair': "worker_pair cr ?h n room k ?a' w'"
    using a keep d(3-5) e(3,4) idle(1) kA by (simp add: worker_pair_def)
  have "flows_linked cr n room A' ?B"
    unfolding flows_linked_def
  proof (intro conjI allI impI)
    fix j assume j: "j < n"
    have "worker_pair cr (ip_hdr (fl_local A) (fl_peer A) []) n (8192 + room) j (fl_workers A ! j) (fl_workers B ! j)"
      using assms(4) j by (simp add: flows_linked_def)
    then have "worker_pair cr (ip_hdr (fl_local A) (fl_peer A) []) n room j (fl_workers A ! j) (fl_workers B ! j)"
      by (rule worker_pair_mono)
    moreover have "worker_pair cr (ip_hdr (fl_local A) (fl_peer A) []) n room k ?a' w'"
      using pair' by (simp add: worker_pair_def ready_for_hdr [of _ _ inner])
    ultimately show "worker_pair cr (ip_hdr (fl_local A') (fl_peer A') []) n room j (fl_workers A' ! j) (fl_workers ?B ! j)"
      using len j unfolding A'(3,6,7) by (cases "j = k") (simp_all add: flow_len_def)
  qed (use len ok A' mtu keep(1) in \<open>simp_all add: flow_len_def\<close>)
  then show ?thesis using A'(1,2) recv d(2) by auto
qed

lemma flow_run_linked:
  assumes "aead_correct cr" "aead_total cr" "aead_length cr"
  shows "\<lbrakk>flows_linked cr n (8192 * length evs) A B;
      \<forall>(t, inner, arrive) \<in> set evs. length inner \<le> 65467 \<and> (\<forall>i. arrive i - arrive 0 < REASSEMBLY_TIMEOUT)\<rbrakk> \<Longrightarrow>
    fl_delivered (flow_run cr evs A B) = fl_delivered B @ map (\<lambda>(t, inner, arrive). inner) evs"
proof (induction evs arbitrary: A B)
  case (Cons ev evs)
  obtain t inner arrive where ev: "ev = (t, inner, arrive)" by (metis prod_cases3)
  have "flows_linked cr n (8192 + 8192 * length evs) A B" using Cons.prems(1) by simp
  from flow_packet [OF assms this, of inner arrive t] Cons.prems(2) ev obtain A' B' frames where
    s: "flow_send cr t inner A = A'" "fl_frames A' = fl_frames A @ frames"
      "flow_receive cr (zip (map arrive [0..<length frames]) frames) B = B'" "fl_delivered B' = fl_delivered B @ [inner]"
      "flows_linked cr n (8192 * length evs) A' B'" by auto
  show ?case using Cons.IH [OF s(5)] Cons.prems(2) s(1-4) ev by simp
qed simp

lemma derived_pair:
  assumes "peers ka kb" "derive_shard ta ka (of_nat k) (of_nat n) = Ok sa" "derive_shard tb kb (of_nat k) (of_nat n) = Ok sb"
    and "k < n" "n \<le> 2 ^ 16" "k + room * n < 2 ^ 56"
  shows "worker_pair cr h n room k (worker_new sa) (worker_new sb)"
proof -
  note fa = derive_shard_fields [OF assms(2)] and fb = derive_shard_fields [OF assms(3)]
  have u: "unat (of_nat k :: u64) = k" "unat (of_nat n :: u64) = n"
    using assms(4,5) by (simp_all add: unat_of_nat_u64)
  have "(of_nat k :: u64) mod of_nat n = of_nat k" "(of_nat n :: u64) \<noteq> 0"
    using u assms(4) by (auto simp: word_unat_eq_iff unat_mod)
  moreover have "represents (window_of (tk_rx sb) (tk_send_epoch sa)) {}"
    using represents_default fb(6) by (simp add: window_of_def)
  ultimately have "in_sync cr sa sb"
    unfolding in_sync_def using fa fb assms(1) by (auto simp: peers_def rx_epochs_def)
  then show ?thesis
    using fa(1,2) fb(3) u assms(6) by (simp add: worker_pair_def worker_new_def ready_for_def reassembler_new_def MAX_GROUPS_def)
qed

text \<open>
  C5. The sharded data path delivers: when both ends split one tunnel into the same number of shards, every inner packet
  of up to 65467 bytes that is dispatched on one side, in one frame or in fragments and on whichever worker its flow hash
  picks, is routed to the worker that can open it and comes out of the other side as it went in, through all rotations.
\<close>

theorem shards_deliver:
  assumes "aead_correct cr" "aead_total cr" "aead_length cr" "peers ka kb"
    and "derive_all ta ka (of_nat n) [0..<n] = Ok shards_a" "derive_all tb kb (of_nat n) [0..<n] = Ok shards_b"
    and "flow_new shards_a la lb mtu = Ok A" "flow_new shards_b lb la mtu = Ok B"
    and "n \<le> 2 ^ 16" "58 \<le> mtu" "length evs < 2 ^ 26"
    and "\<forall>(t, inner, arrive) \<in> set evs. length inner \<le> 65467 \<and> (\<forall>i. arrive i - arrive 0 < REASSEMBLY_TIMEOUT)"
  shows "fl_delivered (flow_run cr evs A B) = map (\<lambda>(t, inner, arrive). inner) evs"
proof -
  note da = derive_all_nth [OF assms(5)] and db = derive_all_nth [OF assms(6)]
  have lens: "length shards_a = n" "length shards_b = n" using da db by simp_all
  have n: "0 < n" using assms(7) lens by (auto simp: flow_new_def split: if_splits)
  have A: "fl_workers A = map worker_new shards_a" "fl_ok A" "fl_mtu A = mtu"
    and B: "fl_workers B = map worker_new shards_b" "fl_ok B" "fl_delivered B = []"
    using assms(7,8) by (auto simp: flow_new_def split: if_splits)
  have "(8192 * length evs) * n \<le> (8192 * 2 ^ 26) * 2 ^ 16" using assms(9,11) by (intro mult_le_mono) simp_all
  then have room: "8192 * length evs * n \<le> 2 ^ 55" by simp
  have "flows_linked cr n (8192 * length evs) A B"
    unfolding flows_linked_def
  proof (intro conjI allI impI)
    fix k assume k: "k < n"
    have "k + 8192 * length evs * n < 2 ^ 16 + 2 ^ 55" using k assms(9) room by (intro add_less_le_mono) simp_all
    also have "\<dots> < (2 ^ 56 :: nat)" by simp
    finally have total: "k + 8192 * length evs * n < 2 ^ 56" .
    have "worker_pair cr (ip_hdr (fl_local A) (fl_peer A) []) n (8192 * length evs) k
        (worker_new (shards_a ! k)) (worker_new (shards_b ! k))"
      using da db k by (intro derived_pair [where ta = ta and tb = tb, OF assms(4) _ _ _ assms(9) total]) simp_all
    then show "worker_pair cr (ip_hdr (fl_local A) (fl_peer A) []) n (8192 * length evs) k (fl_workers A ! k) (fl_workers B ! k)"
      using k lens A(1) B(1) by simp
  qed (use A B n lens assms(10) in \<open>simp_all add: flow_len_def\<close>)
  from flow_run_linked [OF assms(1-3) this assms(12)] B(3) show ?thesis by simp
qed

lemma shards_deliver_witness:
  "\<exists>A B. fl_delivered (flow_run toy_crypto [(0, [1, 2, 3], \<lambda>i. 5), (1, replicate 2000 9, \<lambda>i. 6)] A B) = [[1, 2, 3], replicate 2000 9]"
proof -
  let ?ka = "keys_with_suite 0 [1] True Aes256Gcm" and ?kb = "keys_with_suite 0 [1] False Aes256Gcm"
  have ok: "\<exists>s. derive_all 0 k (of_nat 2) [0..<2] = Ok s" for k
    using derive_all_ok [of "[0..<2]" 2 0 k] by (auto simp: upt_conv_Cons)
  then obtain sa sb where s: "derive_all 0 ?ka (of_nat 2) [0..<2] = Ok sa" "derive_all 0 ?kb (of_nat 2) [0..<2] = Ok sb" by metis
  then have ne: "sa \<noteq> []" "sb \<noteq> []" using derive_all_nth by fastforce+
  obtain A where A: "flow_new sa (addr_new 1 0 0 0 0 0 1 0) (addr_new 1 0 0 0 0 0 2 0) 1200 = Ok A" using ne by (simp add: flow_new_def)
  obtain B where B: "flow_new sb (addr_new 1 0 0 0 0 0 2 0) (addr_new 1 0 0 0 0 0 1 0) 1200 = Ok B" using ne by (simp add: flow_new_def)
  have p: "peers ?ka ?kb" by (simp add: peers_def keys_with_suite_def keys_new_def)
  have "fl_delivered (flow_run toy_crypto [(0, [1, 2, 3], \<lambda>i. 5), (1, replicate 2000 9, \<lambda>i. 6)] A B) =
      map (\<lambda>(t, inner, arrive). inner) [(0 :: nat, [1, 2, 3], \<lambda>i :: nat. 5 :: nat), (1, replicate 2000 9, \<lambda>i. 6)]"
    by (rule shards_deliver [OF toy_laws p s A B]) (simp_all add: REASSEMBLY_TIMEOUT_def)
  also have "\<dots> = [[1, 2, 3], replicate 2000 9]" by simp
  finally show ?thesis by - (rule exI, rule exI)
qed

end
