(* ===== verification/StaticRoute.thy ===== *)
theory StaticRoute
  imports EngineMultihop
begin

text \<open>
  Static source routing, \<open>ipv8-routing/src/static_route.rs\<close>: the table of links and the breadth-first search for
  a path. The hash maps are association lists for the links and a map for the parents; nothing iterates over them. The two
  loops are recursive functions: the search with a measure, the way back as a partial function, whose termination is
  a theorem. The trait \<open>Router\<close> is a locale with the laws that a source of multi-hop packets relies on.
\<close>

section \<open>The table of links\<close>

record static_router =
  sr_local :: ipv8_address
  sr_links :: "(ipv8_address \<times> ipv8_address list) list"
  sr_max_hops :: nat

definition router_new :: "ipv8_address \<Rightarrow> static_router" where
  "router_new local_addr = \<lparr> sr_local = local_addr, sr_links = [], sr_max_hops = 8 \<rparr>"

definition with_max_hops :: "nat \<Rightarrow> static_router \<Rightarrow> static_router" where
  "with_max_hops n r = r\<lparr> sr_max_hops := max n 1 \<rparr>"

definition neighbors :: "static_router \<Rightarrow> ipv8_address \<Rightarrow> ipv8_address list" where
  "neighbors r a = (case map_of (sr_links r) a of Some ns \<Rightarrow> ns | None \<Rightarrow> [])"

definition add_half_link :: "ipv8_address \<Rightarrow> ipv8_address \<Rightarrow> static_router \<Rightarrow> static_router" where
  "add_half_link a b r = r\<lparr> sr_links := AList.update a (neighbors r a @ [b]) (sr_links r) \<rparr>"

definition add_link :: "ipv8_address \<Rightarrow> ipv8_address \<Rightarrow> static_router \<Rightarrow> static_router" where
  "add_link a b r = add_half_link b a (add_half_link a b r)"

definition is_neighbor :: "static_router \<Rightarrow> ipv8_address \<Rightarrow> bool" where
  "is_neighbor r a \<longleftrightarrow> a \<in> set (neighbors r (sr_local r))"

section \<open>The search\<close>

type_synonym parents = "ipv8_address \<Rightarrow> ipv8_address option"

text \<open>The inner loop over the neighbours of \<open>cur\<close>.\<close>

fun visit :: "ipv8_address \<Rightarrow> ipv8_address list \<Rightarrow> parents \<times> ipv8_address list \<Rightarrow> parents \<times> ipv8_address list" where
  "visit cur [] (prev, queue) = (prev, queue)"
| "visit cur (nb # nbs) (prev, queue) = (
     if prev nb = None then visit cur nbs (prev(nb \<mapsto> cur), queue @ [nb]) else visit cur nbs (prev, queue))"

definition fresh :: "parents \<Rightarrow> ipv8_address list \<Rightarrow> ipv8_address set" where
  "fresh prev nbs = {b \<in> set nbs. prev b = None}"

lemma visit_spec:
  "\<exists>new. visit cur nbs (prev, q) = ((\<lambda>v. if v \<in> fresh prev nbs then Some cur else prev v), q @ new)
     \<and> set new = fresh prev nbs \<and> distinct new"
proof (induction nbs arbitrary: prev q)
  case (Cons nb nbs)
  show ?case
  proof (cases "prev nb = None")
    case True
    have f: "fresh prev (nb # nbs) = insert nb (fresh (prev(nb \<mapsto> cur)) nbs)" "nb \<notin> fresh (prev(nb \<mapsto> cur)) nbs"
      using True by (auto simp: fresh_def)
    obtain new where n: "visit cur nbs (prev(nb \<mapsto> cur), q @ [nb]) =
        ((\<lambda>v. if v \<in> fresh (prev(nb \<mapsto> cur)) nbs then Some cur else (prev(nb \<mapsto> cur)) v), (q @ [nb]) @ new)"
      "set new = fresh (prev(nb \<mapsto> cur)) nbs" "distinct new" using Cons.IH by blast
    have "(\<lambda>v. if v \<in> fresh (prev(nb \<mapsto> cur)) nbs then Some cur else (prev(nb \<mapsto> cur)) v) =
        (\<lambda>v. if v \<in> fresh prev (nb # nbs) then Some cur else prev v)" unfolding f(1) by auto
    then show ?thesis using True n f by (intro exI [of _ "nb # new"]) simp
  next
    case False
    then have "fresh prev (nb # nbs) = fresh prev nbs" by (auto simp: fresh_def)
    then show ?thesis using Cons.IH [of prev q] False by auto
  qed
qed (simp add: fresh_def)

lemma finite_fresh [simp]: "finite (fresh prev nbs)"
  by (simp add: fresh_def)

text \<open>Everything that a link names.\<close>

definition known :: "static_router \<Rightarrow> ipv8_address set" where
  "known r = (\<Union>ns \<in> snd ` set (sr_links r). set ns)"

lemma finite_known [simp]: "finite (known r)"
  by (auto simp: known_def)

lemma neighbors_known: "set (neighbors r a) \<subseteq> known r"
proof (cases "map_of (sr_links r) a")
  case (Some ns)
  then have "set ns \<subseteq> known r" unfolding known_def by (force dest: map_of_SomeD)
  then show ?thesis using Some by (simp add: neighbors_def)
qed (simp add: neighbors_def)

lemma fresh_known: "fresh prev (neighbors r a) \<subseteq> known r - dom prev"
  using neighbors_known by (auto simp: fresh_def)

function search :: "static_router \<Rightarrow> ipv8_address \<Rightarrow> parents \<Rightarrow> ipv8_address list \<Rightarrow> parents" where
  "search r dst prev [] = prev"
| "search r dst prev (cur # queue) = (
     if cur = dst then prev
     else case visit cur (neighbors r cur) (prev, queue) of (prev, queue) \<Rightarrow> search r dst prev queue)"
  by pat_completeness auto
termination
proof (relation "measure (\<lambda>(r, dst, prev, queue). length queue + card (known r - dom prev))")
  fix r dst prev cur queue prev' queue'
  assume "(prev', queue') = visit cur (neighbors r cur) (prev, queue)"
  then obtain new where n: "prev' = (\<lambda>v. if v \<in> fresh prev (neighbors r cur) then Some cur else prev v)" "queue' = queue @ new"
    "set new = fresh prev (neighbors r cur)" "distinct new" using visit_spec [of cur "neighbors r cur" prev queue] by auto
  have "known r - dom prev' = (known r - dom prev) - set new" using n(1,3) by (auto split: if_splits)
  moreover have "card ((known r - dom prev) - set new) = card (known r - dom prev) - length new"
    using n(3) card_Diff_subset [of "set new" "known r - dom prev"] fresh_known [of prev r cur] distinct_card [OF n(4)] by simp
  moreover have "length new \<le> card (known r - dom prev)"
    using n(3,4) fresh_known by (metis card_mono distinct_card finite_Diff finite_known)
  ultimately show "((r, dst, prev', queue'), (r, dst, prev, cur # queue))
      \<in> measure (\<lambda>(r, dst, prev, queue). length queue + card (known r - dom prev))" using n(2) by simp
qed simp

text \<open>The way back from \<open>cur\<close>; the outer option is \<open>None\<close> where the loop would not end.\<close>

partial_function (option) trace_back ::
  "ipv8_address \<Rightarrow> parents \<Rightarrow> ipv8_address \<Rightarrow> ipv8_address list \<Rightarrow> ipv8_address list option option" where
  "trace_back local_addr prev cur rev_path = (case prev cur of
     None \<Rightarrow> Some None
   | Some p \<Rightarrow> if p = local_addr then Some (Some rev_path) else trace_back local_addr prev p (rev_path @ [p]))"

definition path_to :: "static_router \<Rightarrow> ipv8_address \<Rightarrow> ipv8_address list option option" where
  "path_to r dst = (
     if dst = sr_local r then Some None
     else
       let prev = search r dst [sr_local r \<mapsto> sr_local r] [sr_local r]
       in if prev dst = None then Some None
          else case trace_back (sr_local r) prev dst [dst] of
              None \<Rightarrow> None
            | Some None \<Rightarrow> Some None
            | Some (Some rev_path) \<Rightarrow>
                let path = rev rev_path
                in if length path > sr_max_hops r then Some None else Some (Some path))"

section \<open>Walks\<close>

fun walk :: "static_router \<Rightarrow> ipv8_address \<Rightarrow> ipv8_address list \<Rightarrow> bool" where
  "walk r a [] = True"
| "walk r a (b # p) = (b \<in> set (neighbors r a) \<and> walk r b p)"

definition edges :: "static_router \<Rightarrow> (ipv8_address \<times> ipv8_address) set" where
  "edges r = {(a, b). b \<in> set (neighbors r a)}"

text \<open>The addresses whose shortest walk from \<open>s\<close> has \<open>n\<close> hops.\<close>

definition level :: "('a \<times> 'a) set \<Rightarrow> 'a \<Rightarrow> nat \<Rightarrow> 'a set" where
  "level E s n = {v. (s, v) \<in> E ^^ n \<and> (\<forall>m < n. (s, v) \<notin> E ^^ m)}"

lemma level_0 [simp]: "level E s 0 = {s}"
  by (auto simp: level_def)

lemma level_unique: "v \<in> level E s n \<Longrightarrow> v \<in> level E s m \<Longrightarrow> n = m"
  by (auto simp: level_def) (metis linorder_neqE_nat)

lemma level_exists: "(s, v) \<in> E ^^ m \<Longrightarrow> \<exists>n \<le> m. v \<in> level E s n"
  by (rule exI [of _ "LEAST n. (s, v) \<in> E ^^ n"]) (auto simp: level_def intro: LeastI Least_le dest: not_less_Least)

lemma level_reachable: "v \<in> level E s n \<Longrightarrow> (s, v) \<in> E\<^sup>*"
  by (auto simp: level_def intro: relpow_imp_rtrancl)

lemma level_succ: "u \<in> level E s n \<Longrightarrow> (u, v) \<in> E \<Longrightarrow> \<exists>m \<le> n + 1. v \<in> level E s m"
  by (rule level_exists) (auto simp: level_def)

lemma level_pred:
  assumes "v \<in> level E s (n + 1)"
  obtains u where "u \<in> level E s n" "(u, v) \<in> E"
proof -
  obtain u where u: "(s, u) \<in> E ^^ n" "(u, v) \<in> E" using assms by (auto simp: level_def)
  then obtain m where m: "m \<le> n" "u \<in> level E s m" using level_exists by metis
  then obtain m' where "m' \<le> m + 1" "v \<in> level E s m'" using level_succ u(2) by metis
  then have "m = n" using level_unique [OF assms] m(1) by fastforce
  then show ?thesis using that m(2) u(2) by blast
qed

lemma walk_edges: "walk r a p \<Longrightarrow> (a, last (a # p)) \<in> edges r ^^ length p"
proof (induction p arbitrary: a)
  case (Cons b p)
  then have "(a, b) \<in> edges r" "(b, last (b # p)) \<in> edges r ^^ length p" by (simp_all add: edges_def)
  then have "(a, last (b # p)) \<in> edges r O edges r ^^ length p" by blast
  then show ?case by (simp add: relpow_commute)
qed simp

section \<open>What the search finds\<close>

text \<open>The queue holds the rest \<open>C\<close> of level \<open>d\<close> and the part \<open>N\<close> of level \<open>d + 1\<close> found so far.\<close>

definition searching :: "static_router \<Rightarrow> parents \<Rightarrow> ipv8_address list \<Rightarrow> ipv8_address list \<Rightarrow> nat \<Rightarrow> bool" where
  "searching r prev C N d \<longleftrightarrow> (let E = edges r; L = level E (sr_local r) in
     set C \<subseteq> L d \<and> set N \<subseteq> L (d + 1) \<and> dom prev = (\<Union>i \<le> d. L i) \<union> set N
       \<and> (\<forall>u \<in> L d - set C. E `` {u} \<subseteq> dom prev)
       \<and> prev (sr_local r) = Some (sr_local r)
       \<and> (\<forall>v u. v \<noteq> sr_local r \<longrightarrow> prev v = Some u \<longrightarrow> (u, v) \<in> E \<and> (\<exists>n. u \<in> L n \<and> v \<in> L (n + 1))))"

lemma searching_start: "searching r [sr_local r \<mapsto> sr_local r] [sr_local r] [] 0"
  unfolding searching_def Let_def by auto

lemma searchingD:
  assumes "searching r prev C N d"
  shows "u \<in> set C \<Longrightarrow> u \<in> level (edges r) (sr_local r) d"
    and "u \<in> set N \<Longrightarrow> u \<in> level (edges r) (sr_local r) (d + 1)"
    and "u \<in> dom prev \<longleftrightarrow> (\<exists>i \<le> d. u \<in> level (edges r) (sr_local r) i) \<or> u \<in> set N"
    and "u \<in> level (edges r) (sr_local r) d \<Longrightarrow> u \<notin> set C \<Longrightarrow> (u, v) \<in> edges r \<Longrightarrow> v \<in> dom prev"
    and "prev (sr_local r) = Some (sr_local r)"
    and "v \<noteq> sr_local r \<Longrightarrow> prev v = Some u \<Longrightarrow> (u, v) \<in> edges r
      \<and> (\<exists>n. u \<in> level (edges r) (sr_local r) n \<and> v \<in> level (edges r) (sr_local r) (n + 1))"
  using assms unfolding searching_def Let_def by (blast, blast, blast, blast, blast, blast)

lemma searchingI:
  assumes "\<And>u. u \<in> set C \<Longrightarrow> u \<in> level (edges r) (sr_local r) d"
    and "\<And>u. u \<in> set N \<Longrightarrow> u \<in> level (edges r) (sr_local r) (d + 1)"
    and "\<And>u. u \<in> dom prev \<longleftrightarrow> (\<exists>i \<le> d. u \<in> level (edges r) (sr_local r) i) \<or> u \<in> set N"
    and "\<And>u v. u \<in> level (edges r) (sr_local r) d \<Longrightarrow> u \<notin> set C \<Longrightarrow> (u, v) \<in> edges r \<Longrightarrow> v \<in> dom prev"
    and "prev (sr_local r) = Some (sr_local r)"
    and "\<And>u v. v \<noteq> sr_local r \<Longrightarrow> prev v = Some u \<Longrightarrow> (u, v) \<in> edges r
      \<and> (\<exists>n. u \<in> level (edges r) (sr_local r) n \<and> v \<in> level (edges r) (sr_local r) (n + 1))"
  shows "searching r prev C N d"
  unfolding searching_def Let_def
proof (intro conjI allI impI subsetI ballI)
  show "dom prev = (\<Union>i \<le> d. level (edges r) (sr_local r) i) \<union> set N" using assms(3) by blast
qed (use assms in blast)+

lemma searching_next_level:
  assumes "searching r prev [] N d"
  shows "searching r prev N [] (d + 1)"
proof -
  note s = searchingD [OF assms]
  have next_level: "v \<in> set N" if v: "v \<in> level (edges r) (sr_local r) (d + 1)" for v
  proof -
    obtain u where "u \<in> level (edges r) (sr_local r) d" "(u, v) \<in> edges r" using v by (rule level_pred)
    then have "v \<in> dom prev" using s(4) by simp
    moreover have "\<not> (\<exists>i \<le> d. v \<in> level (edges r) (sr_local r) i)" using level_unique [OF v] by fastforce
    ultimately show ?thesis using s(3) by blast
  qed
  show ?thesis
  proof (rule searchingI)
    fix u
    show "u \<in> dom prev \<longleftrightarrow> (\<exists>i \<le> d + 1. u \<in> level (edges r) (sr_local r) i) \<or> u \<in> set []"
      unfolding s(3) using s(2) next_level by (metis Suc_eq_plus1 le_Suc_eq order.refl empty_iff list.set(1))
    show "u \<in> set N \<Longrightarrow> u \<in> level (edges r) (sr_local r) (d + 1)" by (rule s(2))
    show "u \<in> set [] \<Longrightarrow> u \<in> level (edges r) (sr_local r) (d + 1 + 1)" by simp
    show "u \<in> level (edges r) (sr_local r) (d + 1) \<Longrightarrow> u \<notin> set N \<Longrightarrow> v \<in> dom prev" for v using next_level by blast
    show "v \<noteq> sr_local r \<Longrightarrow> prev v = Some u \<Longrightarrow> (u, v) \<in> edges r
        \<and> (\<exists>n. u \<in> level (edges r) (sr_local r) n \<and> v \<in> level (edges r) (sr_local r) (n + 1))" for v by (rule s(6))
  qed (rule s(5))
qed

lemma searching_visit:
  assumes "searching r prev (cur # C) N d" "visit cur (neighbors r cur) (prev, C @ N) = (prev', q')"
  obtains new where "q' = C @ N @ new" "searching r prev' C (N @ new) d"
proof -
  let ?L = "level (edges r) (sr_local r)" and ?new = "fresh prev (neighbors r cur)"
  note s = searchingD [OF assms(1)]
  obtain new where n: "prev' = (\<lambda>v. if v \<in> ?new then Some cur else prev v)" "q' = C @ N @ new" "set new = ?new"
    using visit_spec [of cur "neighbors r cur" prev "C @ N"] assms(2) by auto
  have cur: "cur \<in> ?L d" using s(1) by simp
  have new: "v \<in> ?L (d + 1) \<and> (cur, v) \<in> edges r" if v: "v \<in> ?new" for v
  proof -
    have e: "(cur, v) \<in> edges r" "v \<notin> dom prev" using v by (auto simp: fresh_def edges_def)
    then obtain m where "m \<le> d + 1" "v \<in> ?L m" using level_succ [OF cur] by blast
    moreover have "\<not> m \<le> d" using e(2) s(3) \<open>v \<in> ?L m\<close> by blast
    ultimately show ?thesis using e(1) by (metis Suc_eq_plus1 le_SucE)
  qed
  have d: "dom prev' = dom prev \<union> ?new" using n(1) by (auto split: if_splits)
  have "searching r prev' C (N @ new) d"
  proof (rule searchingI)
    fix u v assume u: "u \<in> ?L d" "u \<notin> set C" "(u, v) \<in> edges r"
    show "v \<in> dom prev'"
    proof (cases "u = cur")
      case True
      then show ?thesis using u(3) d by (auto simp: fresh_def edges_def)
    next
      case False
      then show ?thesis using s(4) [OF u(1) _ u(3)] u(2) d by simp
    qed
  next
    fix u v assume v: "v \<noteq> sr_local r" "prev' v = Some u"
    show "(u, v) \<in> edges r \<and> (\<exists>n. u \<in> ?L n \<and> v \<in> ?L (n + 1))"
    proof (cases "v \<in> ?new")
      case True
      then show ?thesis using v(2) n(1) new cur by auto
    next
      case False
      then show ?thesis using s(6) v n(1) by simp
    qed
  next
    fix u
    show "u \<in> dom prev' \<longleftrightarrow> (\<exists>i \<le> d. u \<in> ?L i) \<or> u \<in> set (N @ new)" unfolding d using s(3) n(3) by auto
    show "u \<in> set C \<Longrightarrow> u \<in> ?L d" using s(1) by simp
    show "u \<in> set (N @ new) \<Longrightarrow> u \<in> ?L (d + 1)" using s(2) n(3) new by auto
  qed (use n(1) s(5) in \<open>simp add: fresh_def\<close>)
  then show ?thesis using that n(2) by blast
qed

text \<open>The parents that the search returns.\<close>

definition found :: "static_router \<Rightarrow> ipv8_address \<Rightarrow> parents \<Rightarrow> bool" where
  "found r dst prev \<longleftrightarrow> (let E = edges r; L = level E (sr_local r) in
     (dst \<in> dom prev \<longleftrightarrow> (sr_local r, dst) \<in> E\<^sup>*)
       \<and> (\<forall>v u. v \<noteq> sr_local r \<longrightarrow> prev v = Some u \<longrightarrow> u \<in> dom prev \<and> (u, v) \<in> E \<and> (\<exists>n. u \<in> L n \<and> v \<in> L (n + 1))))"

lemma searching_found:
  assumes "searching r prev C N d" "(sr_local r, dst) \<in> (edges r)\<^sup>* \<Longrightarrow> dst \<in> dom prev"
  shows "found r dst prev"
proof -
  note s = searchingD [OF assms(1)]
  have "(sr_local r, dst) \<in> (edges r)\<^sup>*" if "dst \<in> dom prev"
    using that s(2,3) level_reachable by metis
  moreover have "u \<in> dom prev" if v: "v \<noteq> sr_local r" "prev v = Some u" for u v
  proof -
    obtain n where n: "u \<in> level (edges r) (sr_local r) n" "v \<in> level (edges r) (sr_local r) (n + 1)" using s(6) v by blast
    have "v \<in> dom prev" using v(2) by blast
    then obtain m where "m \<le> d + 1" "v \<in> level (edges r) (sr_local r) m" using s(2,3) by (metis le_add1 le_trans order.refl)
    then have "n \<le> d" using level_unique [OF n(2)] by fastforce
    then show ?thesis using s(3) n(1) by blast
  qed
  ultimately show ?thesis using assms(2) s(6) unfolding found_def Let_def by blast
qed

lemma searching_done:
  assumes "searching r prev [] [] d"
  shows "found r dst prev"
proof (rule searching_found [OF assms])
  note s = searchingD [OF assms]
  assume "(sr_local r, dst) \<in> (edges r)\<^sup>*"
  then show "dst \<in> dom prev"
  proof induction
    case base
    show ?case using s(5) by blast
  next
    case (step u v)
    obtain n where n: "n \<le> d" "u \<in> level (edges r) (sr_local r) n" using s(3) step.IH by auto
    show ?case
    proof (cases "n = d")
      case True
      then show ?thesis using s(4) n(2) step.hyps(2) by simp
    next
      case False
      obtain m where m: "m \<le> n + 1" "v \<in> level (edges r) (sr_local r) m" using level_succ [OF n(2) step.hyps(2)] by blast
      have "m \<le> d" using m(1) n(1) False by simp
      then show ?thesis using s(3) m(2) by blast
    qed
  qed
qed

lemma search_found: "searching r prev C N d \<Longrightarrow> found r dst (search r dst prev (C @ N))"
proof (induction r dst prev "C @ N" arbitrary: C N d rule: search.induct)
  case (1 r dst prev)
  then show ?case using searching_done by simp
next
  case (2 r dst prev cur queue)
  have "\<exists>C' N' d'. searching r prev (cur # C') N' d' \<and> queue = C' @ N'"
  proof (cases C)
    case Nil
    then show ?thesis using 2(2,3) searching_next_level by (metis append_Nil append_Nil2)
  next
    case (Cons c C')
    then show ?thesis using 2(2,3) by auto
  qed
  then obtain C' N' d' where s: "searching r prev (cur # C') N' d'" "queue = C' @ N'" by blast
  show ?case
  proof (cases "cur = dst")
    case True
    then have "dst \<in> dom prev" using searchingD(1,3) [OF s(1)] by (metis list.set_intros(1) order.refl)
    then have "found r dst prev" using searching_found s(1) by blast
    then show ?thesis using True 2(2) by (metis search.simps(2))
  next
    case False
    obtain prev' q' where v: "visit cur (neighbors r cur) (prev, C' @ N') = (prev', q')" by (metis surj_pair)
    obtain new where n: "q' = C' @ N' @ new" "searching r prev' C' (N' @ new) d'" by (rule searching_visit [OF s(1) v])
    have "(prev', C' @ (N' @ new)) = visit cur (neighbors r cur) (prev, queue)" using v n(1) s(2) by simp
    from 2(1) [OF False this n(2)] have "found r dst (search r dst prev' (C' @ N' @ new))" .
    then show ?thesis using 2(2) False v n(1) s(2) by (metis search.simps(2) case_prod_conv)
  qed
qed

section \<open>The way back\<close>

text \<open>The hops of \<open>p\<close> lie on consecutive levels.\<close>

definition level_path :: "static_router \<Rightarrow> ipv8_address list \<Rightarrow> bool" where
  "level_path r p \<longleftrightarrow> walk r (sr_local r) p \<and> (\<forall>i < length p. p ! i \<in> level (edges r) (sr_local r) (i + 1))"

lemma walk_append [simp]: "walk r a (p @ q) \<longleftrightarrow> walk r a p \<and> walk r (last (a # p)) q"
  by (induction p arbitrary: a) auto

lemma level_path_snoc:
  assumes "level_path r (p @ [u])" "(u, v) \<in> edges r" "v \<in> level (edges r) (sr_local r) (length p + 2)"
  shows "level_path r (p @ [u] @ [v])"
  using assms by (auto simp: level_path_def edges_def nth_append less_Suc_eq)

lemma level_path_distinct: "level_path r p \<Longrightarrow> distinct (sr_local r # p)"
proof -
  assume p: "level_path r p"
  have a: "sr_local r \<noteq> p ! i" if "i < length p" for i
    using p that level_unique [of "p ! i" _ _ "i + 1" 0] by (fastforce simp: level_path_def)
  have b: "p ! i \<noteq> p ! j" if "i < length p" "j < length p" "i \<noteq> j" for i j
  proof
    assume "p ! i = p ! j"
    then have "i + 1 = j + 1" using p that(1,2) level_unique unfolding level_path_def by metis
    then show False using that(3) by simp
  qed
  have "distinct p" unfolding distinct_conv_nth using b by blast
  moreover have "sr_local r \<notin> set p" using a by (metis in_set_conv_nth)
  ultimately show ?thesis by simp
qed

lemma trace_back_found:
  assumes "found r dst prev"
  shows "\<lbrakk>v \<in> dom prev; v \<in> level (edges r) (sr_local r) (n + 1)\<rbrakk> \<Longrightarrow>
    \<exists>w. trace_back (sr_local r) prev v acc = Some (Some (acc @ w)) \<and> length w = n \<and> level_path r (rev w @ [v])"
proof (induction n arbitrary: v acc)
  case 0
  then have v: "v \<noteq> sr_local r" using level_unique [of v "edges r" "sr_local r" 1 0] by auto
  obtain u where u: "prev v = Some u" using 0(1) by blast
  then obtain n where n: "(u, v) \<in> edges r" "u \<in> level (edges r) (sr_local r) n" "v \<in> level (edges r) (sr_local r) (n + 1)"
    using assms v unfolding found_def Let_def by blast
  have "n = 0" using level_unique [OF n(3) 0(2)] by simp
  then have "u = sr_local r" using n(2) by simp
  then show ?case using u n(1) 0(2) by (subst trace_back.simps) (simp add: level_path_def edges_def)
next
  case (Suc n)
  then have v: "v \<noteq> sr_local r" using level_unique [of v "edges r" "sr_local r" "n + 2" 0] by auto
  obtain u where u: "prev v = Some u" using Suc.prems(1) by blast
  then obtain m where m: "u \<in> dom prev" "(u, v) \<in> edges r" "u \<in> level (edges r) (sr_local r) m" "v \<in> level (edges r) (sr_local r) (m + 1)"
    using assms v unfolding found_def Let_def by blast
  have m': "m = n + 1" using level_unique [OF m(4) Suc.prems(2)] by simp
  then have "u \<noteq> sr_local r" using level_unique [OF m(3), of 0] by auto
  moreover obtain w where w: "trace_back (sr_local r) prev u (acc @ [u]) = Some (Some ((acc @ [u]) @ w))" "length w = n"
    "level_path r (rev w @ [u])" using Suc.IH [OF m(1), of "acc @ [u]"] m(3) m' by blast
  moreover have "level_path r (rev w @ [u] @ [v])" by (rule level_path_snoc [OF w(3) m(2)]) (use m(4) m' w(2) in simp)
  ultimately show ?case using u by (intro exI [of _ "u # w"]) (subst trace_back.simps, simp)
qed

text \<open>What \<open>path_to\<close> returns for another address than its own.\<close>

lemma path_to_cases:
  assumes "dst \<noteq> sr_local r"
  obtains p where "level_path r p" "p \<noteq> []" "last p = dst" "\<And>q. walk r (sr_local r) q \<Longrightarrow> last (sr_local r # q) = dst \<Longrightarrow> length p \<le> length q"
      "path_to r dst = Some (if length p > sr_max_hops r then None else Some p)"
    | "path_to r dst = Some None" "\<And>q. walk r (sr_local r) q \<Longrightarrow> last (sr_local r # q) \<noteq> dst"
proof -
  let ?prev = "search r dst [sr_local r \<mapsto> sr_local r] [sr_local r]"
  have f: "found r dst ?prev" using search_found [OF searching_start] by simp
  show ?thesis
  proof (cases "dst \<in> dom ?prev")
    case True
    then have "(sr_local r, dst) \<in> (edges r)\<^sup>*" using f by (simp add: found_def Let_def)
    then obtain k where "(sr_local r, dst) \<in> edges r ^^ k" by (auto simp: rtrancl_power)
    then obtain n where n: "dst \<in> level (edges r) (sr_local r) n" using level_exists by metis
    obtain m where m: "n = m + 1" using assms n by (cases n) auto
    obtain w where w: "trace_back (sr_local r) ?prev dst [dst] = Some (Some ([dst] @ w))" "length w = m" "level_path r (rev w @ [dst])"
      using trace_back_found [OF f True] n m by blast
    have "length (rev w @ [dst]) \<le> length q" if "walk r (sr_local r) q" "last (sr_local r # q) = dst" for q
      using walk_edges [OF that(1)] that(2) n m w(2) by (auto simp: level_def intro: leI)
    then show ?thesis using that(1) [OF w(3)] w(1) True assms unfolding path_to_def Let_def by auto
  next
    case False
    then have "(sr_local r, dst) \<notin> (edges r)\<^sup>*" using f by (simp add: found_def Let_def)
    then have "last (sr_local r # q) \<noteq> dst" if "walk r (sr_local r) q" for q
      using walk_edges [OF that] by (auto dest: relpow_imp_rtrancl)
    moreover have "path_to r dst = Some None" using False assms by (simp add: path_to_def Let_def domIff)
    ultimately show ?thesis using that(2) by blast
  qed
qed

text \<open>
  C17. Path search ends: for every table of links, cyclic or not, both the search and the walk back along the parents
  come to an end and path_to returns.
\<close>

theorem path_to_returns: "\<exists>res. path_to r dst = Some res"
proof (cases "dst = sr_local r")
  case False
  then show ?thesis by (cases rule: path_to_cases) auto
qed (simp add: path_to_def)

text \<open>
  C16. Path search is exact: it returns a path exactly when some walk over the links of at most max_hops hops leads to
  another address than its own, and then a shortest one, along links only, to that address, without visiting any node twice.
\<close>

theorem path_to_shortest:
  "(path_to r dst = Some None \<longleftrightarrow> dst = sr_local r
      \<or> \<not> (\<exists>q. walk r (sr_local r) q \<and> last (sr_local r # q) = dst \<and> length q \<le> sr_max_hops r))
   \<and> (\<forall>p. path_to r dst = Some (Some p) \<longrightarrow> walk r (sr_local r) p \<and> last p = dst \<and> p \<noteq> [] \<and> distinct (sr_local r # p)
      \<and> length p \<le> sr_max_hops r
      \<and> (\<forall>q. walk r (sr_local r) q \<and> last (sr_local r # q) = dst \<longrightarrow> length p \<le> length q))"
proof (cases "dst = sr_local r")
  case True
  then show ?thesis by (simp add: path_to_def)
next
  case False
  then show ?thesis
  proof (cases rule: path_to_cases)
    case (1 p)
    then have "walk r (sr_local r) p" "distinct (sr_local r # p)" using level_path_distinct by (auto simp: level_path_def)
    moreover have "last (sr_local r # p) = dst" using 1(2,3) by simp
    moreover have "\<not> (\<exists>q. walk r (sr_local r) q \<and> last (sr_local r # q) = dst \<and> length q \<le> sr_max_hops r)" if "sr_max_hops r < length p"
    proof
      assume "\<exists>q. walk r (sr_local r) q \<and> last (sr_local r # q) = dst \<and> length q \<le> sr_max_hops r"
      then obtain q where q: "walk r (sr_local r) q" "last (sr_local r # q) = dst" "length q \<le> sr_max_hops r" by blast
      have "length p \<le> length q" by (rule 1(4) [OF q(1,2)])
      then show False using that q(3) by simp
    qed
    ultimately show ?thesis using 1(2-5) False by (cases "sr_max_hops r < length p") auto
  next
    case 2
    have "\<not> (\<exists>q. walk r (sr_local r) q \<and> last (sr_local r # q) = dst \<and> length q \<le> sr_max_hops r)" using 2(2) by blast
    then show ?thesis using 2(1) False by simp
  qed
qed

text \<open>A network with a cycle and a node beyond two hops.\<close>

definition toy_router :: static_router where
  "toy_router = add_link (addr_new 1 0 0 0 0 0 0 0) (addr_new 2 0 0 0 0 0 0 0)
     (add_link (addr_new 2 0 0 0 0 0 0 0) (addr_new 3 0 0 0 0 0 0 0)
     (add_link (addr_new 3 0 0 0 0 0 0 0) (addr_new 1 0 0 0 0 0 0 0)
     (add_link (addr_new 3 0 0 0 0 0 0 0) (addr_new 4 0 0 0 0 0 0 0)
     (with_max_hops 2 (router_new (addr_new 1 0 0 0 0 0 0 0))))))"

lemma toy_addr_inject: "addr_new a 0 0 0 0 0 0 0 = addr_new b 0 0 0 0 0 0 0 \<longleftrightarrow> a = b"
  by (simp add: addr_new_def)

lemma toy_router_path:
  "path_to toy_router (addr_new 4 0 0 0 0 0 0 0) = Some (Some [addr_new 3 0 0 0 0 0 0 0, addr_new 4 0 0 0 0 0 0 0])"
  by (simp add: toy_router_def router_new_def with_max_hops_def add_link_def add_half_link_def neighbors_def path_to_def
      toy_addr_inject trace_back.simps Let_def)

lemma path_to_shortest_witness:
  "path_to toy_router (addr_new 4 0 0 0 0 0 0 0) = Some (Some [addr_new 3 0 0 0 0 0 0 0, addr_new 4 0 0 0 0 0 0 0])
     \<and> (\<forall>q. \<not> (walk toy_router (addr_new 1 0 0 0 0 0 0 0) q \<and> length q < 2
          \<and> last (addr_new 1 0 0 0 0 0 0 0 # q) = addr_new 4 0 0 0 0 0 0 0))"
proof -
  have l: "sr_local toy_router = addr_new 1 0 0 0 0 0 0 0"
    by (simp add: toy_router_def router_new_def with_max_hops_def add_link_def add_half_link_def)
  show ?thesis using path_to_shortest [of toy_router "addr_new 4 0 0 0 0 0 0 0"] toy_router_path unfolding l by fastforce
qed

section \<open>Routing and signing together\<close>

text \<open>What the source of a multi-hop packet relies on.\<close>

locale source_router =
  fixes route :: "'r \<Rightarrow> ipv8_address \<Rightarrow> ipv8_address list option"
    and self :: "'r \<Rightarrow> ipv8_address"
    and hop_bound :: "'r \<Rightarrow> nat"
  assumes route_ends: "route r dst = Some p \<Longrightarrow> p \<noteq> [] \<and> last p = dst"
    and route_simple: "route r dst = Some p \<Longrightarrow> distinct (self r # p)"
    and route_bounded: "route r dst = Some p \<Longrightarrow> length p \<le> hop_bound r"
begin

lemma routed_packet_delivered:
  assumes "route r dst = Some hops" "hop_bound r \<le> unat hl"
    and "multihop_header ev src host inner dst hops hl = Inr h" "encode h inner = Inr pkt"
    and "ed25519_ok (ev_ed ev)" "certified (ev_ed ev) ca_seed host" "hi_addr host = en_local src" "now \<le> cert_not_after (hi_cert host)"
    and "map en_local ns = hops" "\<forall>n \<in> set ns. relay_node ev ca_seed n \<and> en_forward_out n = []"
  shows "travel ev now pkt ns = Some inner \<and> en_local (last ns) = dst \<and> self r \<notin> set (map en_local ns)"
proof -
  have p: "hops \<noteq> []" "last hops = dst" "distinct (self r # hops)" "length hops \<le> unat hl"
    using route_ends route_simple route_bounded assms(1,2) by (blast, blast, blast, meson le_trans)
  note z = multihop_fields(4,5) [OF assms(3,5)]
  then have "h\<lparr>hdr_hop_limit := hl - of_nat 0\<rparr> = h" by auto
  then have "travel ev now pkt ns = Some inner"
    using travel_from [OF assms(3-8) _ p(4), of 0 ns pkt] z(2) assms(4,9,10) p(3) by simp
  then show ?thesis using p assms(9) by (metis distinct.simps(2) last_map map_is_Nil_conv)
qed

end

definition route_of :: "static_router \<Rightarrow> ipv8_address \<Rightarrow> ipv8_address list option" where
  "route_of r dst = Option.bind (path_to r dst) (\<lambda>p. p)"

lemma route_of_facts:
  assumes "route_of r dst = Some p"
  shows "p \<noteq> []" "last p = dst" "distinct (sr_local r # p)" "length p \<le> sr_max_hops r"
proof -
  have p: "path_to r dst = Some (Some p)" using assms by (auto simp: route_of_def split: Option.bind_splits)
  then have "dst \<noteq> sr_local r" by (auto simp: path_to_def)
  then show "p \<noteq> []" "last p = dst" "distinct (sr_local r # p)" "length p \<le> sr_max_hops r"
    using p level_path_distinct by (cases rule: path_to_cases; auto split: if_splits)+
qed

interpretation static: source_router route_of sr_local sr_max_hops
  by unfold_locales (use route_of_facts in blast)+

text \<open>
  C15. Routing and forwarding agree: whatever path the static router finds, a packet that the source signs for it passes
  every relay and is delivered at the address that was asked for; the source itself is not on the path.
\<close>

theorem static_route_delivers:
  assumes "path_to r dst = Some (Some hops)" "sr_max_hops r \<le> unat hl"
    and "multihop_header ev src host inner dst hops hl = Inr h" "encode h inner = Inr pkt"
    and "ed25519_ok (ev_ed ev)" "certified (ev_ed ev) ca_seed host" "hi_addr host = en_local src" "now \<le> cert_not_after (hi_cert host)"
    and "map en_local ns = hops" "\<forall>n \<in> set ns. relay_node ev ca_seed n \<and> en_forward_out n = []"
  shows "travel ev now pkt ns = Some inner \<and> en_local (last ns) = dst \<and> sr_local r \<notin> set (map en_local ns)"
  by (rule static.routed_packet_delivered [OF _ assms(2-10)]) (simp add: route_of_def assms(1))

text \<open>The chain of two hops that the sample engines stand on.\<close>

definition toy_chain :: static_router where
  "toy_chain = add_link (addr_with_region 1 1 0 2 0) (addr_with_region 2 1 0 2 0)
     (add_link (addr_with_region 2 1 0 2 0) (addr_with_region 3 1 0 2 0) (router_new (addr_with_region 1 1 0 2 0)))"

lemma toy_chain_path:
  "path_to toy_chain (addr_with_region 3 1 0 2 0) = Some (Some [addr_with_region 2 1 0 2 0, addr_with_region 3 1 0 2 0])"
  "sr_max_hops toy_chain = 8" "sr_local toy_chain = addr_with_region 1 1 0 2 0"
  by (simp_all add: toy_chain_def router_new_def add_link_def add_half_link_def neighbors_def path_to_def
      addr_with_region_def addr_new_def trace_back.simps Let_def)

lemma static_route_delivers_witness:
  "\<exists>h pkt. multihop_header toy_env (toy_engine 1 2) (toy_host 1) [1, 2, 3] (addr_with_region 3 1 0 2 0)
      [addr_with_region 2 1 0 2 0, addr_with_region 3 1 0 2 0] 64 = Inr h \<and> encode h [1, 2, 3] = Inr pkt
      \<and> travel toy_env 5 pkt [toy_relay 2, toy_relay 3] = Some [1, 2, 3]"
proof -
  obtain h pkt where p: "multihop_header toy_env (toy_engine 1 2) (toy_host 1) [1, 2, 3] (addr_with_region 3 1 0 2 0)
      [addr_with_region 2 1 0 2 0, addr_with_region 3 1 0 2 0] 64 = Inr h" "encode h [1, 2, 3] = Inr pkt"
    by (rule toy_multihop)
  have "travel toy_env 5 pkt [toy_relay 2, toy_relay 3] = Some [1, 2, 3]
      \<and> en_local (last [toy_relay 2, toy_relay 3]) = addr_with_region 3 1 0 2 0
      \<and> sr_local toy_chain \<notin> set (map en_local [toy_relay 2, toy_relay 3])"
    by (rule static_route_delivers [OF toy_chain_path(1) _ p, where ca_seed = "[9]"])
       (use toy_ed_ok toy_host_certified [of 1] in
         \<open>simp_all add: toy_relay_simps toy_env_simps toy_chain_path, simp_all add: toy_host_def provision_def\<close>)
  with p show ?thesis by blast
qed

end
