(* ===== verification/Fallback.thy ===== *)
theory Fallback
  imports Prelude
begin

text \<open>
  The graded fallback of \<open>ipv8-tunnel/src/fallback.rs\<close>: which way the next packet to a peer takes, and how
  failures, successes, resolver answers and time move a peer between the four levels. Peers are a map, since
  nothing iterates over them; a \<open>Duration\<close> is a number of nanoseconds, a time stamp a number of seconds.
\<close>

section \<open>State\<close>

record fallback_options =
  fo_resolver_timeout :: nat
  fo_first_handshake_timeout :: nat
  fo_cached_handshake_timeout :: nat
  fo_first_packet_timeout :: nat
  fo_max_retries :: nat
  fo_degradation_cache_ttl :: nat

definition fallback_options_default :: fallback_options where
  "fallback_options_default = \<lparr> fo_resolver_timeout = 2 * 10 ^ 9, fo_first_handshake_timeout = 8 * 10 ^ 9,
     fo_cached_handshake_timeout = 5 * 10 ^ 9, fo_first_packet_timeout = 3 * 10 ^ 9, fo_max_retries = 2,
     fo_degradation_cache_ttl = 300 * 10 ^ 9 \<rparr>"

definition as_secs :: "nat \<Rightarrow> nat" where
  "as_secs d = d div 10 ^ 9"

datatype path = Path_Tunnel string | Path_PlainTcp | Path_PlainUdp

datatype level = MainTunnel | AltTunnel | PlainTcp | PlainUdp

text \<open>The derived order of the levels is the order of degradation.\<close>

fun level_rank :: "level \<Rightarrow> nat" where
  "level_rank MainTunnel = 0"
| "level_rank AltTunnel = 1"
| "level_rank PlainTcp = 2"
| "level_rank PlainUdp = 3"

lemma level_rank_inject [simp]: "level_rank l = level_rank l' \<longleftrightarrow> l = l'"
  by (cases l; cases l') simp_all

instantiation level :: linorder
begin

definition less_eq_level :: "level \<Rightarrow> level \<Rightarrow> bool" where
  "less_eq_level l l' \<longleftrightarrow> level_rank l \<le> level_rank l'"

definition less_level :: "level \<Rightarrow> level \<Rightarrow> bool" where
  "less_level l l' \<longleftrightarrow> level_rank l < level_rank l'"

instance
  by standard (auto simp: less_eq_level_def less_level_def)

end

record resolved =
  rs_tunnel_entry :: "string option"
  rs_alt_entries :: "string list"
  rs_ipv8_capable :: bool
  rs_last_good_entry :: "string option"

definition resolved_default :: resolved where
  "resolved_default = \<lparr> rs_tunnel_entry = None, rs_alt_entries = [], rs_ipv8_capable = False, rs_last_good_entry = None \<rparr>"

datatype failure = HandshakeTimeout | FirstPacketTimeout | LevelFailed

record peer_state =
  ps_resolved :: resolved
  ps_level :: level
  ps_failures_at_level :: nat
  ps_alt_idx :: nat
  ps_degraded_at :: "nat option"
  ps_ttl_secs :: nat
  ps_max_retries :: nat

record fallback_manager =
  fm_opts :: fallback_options
  fm_peers :: "string \<Rightarrow> peer_state option"

definition fallback_new :: "fallback_options \<Rightarrow> fallback_manager" where
  "fallback_new opts = \<lparr> fm_opts = opts, fm_peers = Map.empty \<rparr>"

text \<open>\<open>peer_mut\<close>: the state of the peer, or the state of a new one.\<close>

definition peer_mut :: "string \<Rightarrow> fallback_manager \<Rightarrow> peer_state" where
  "peer_mut peer m = (case fm_peers m peer of
     Some s \<Rightarrow> s
   | None \<Rightarrow> \<lparr> ps_resolved = resolved_default, ps_level = MainTunnel, ps_failures_at_level = 0, ps_alt_idx = 0,
       ps_degraded_at = None, ps_ttl_secs = as_secs (fo_degradation_cache_ttl (fm_opts m)),
       ps_max_retries = fo_max_retries (fm_opts m) \<rparr>)"

definition put_peer :: "string \<Rightarrow> peer_state \<Rightarrow> fallback_manager \<Rightarrow> fallback_manager" where
  "put_peer peer s m = m\<lparr> fm_peers := (fm_peers m)(peer \<mapsto> s) \<rparr>"

section \<open>Operations\<close>

definition note_resolved :: "string \<Rightarrow> resolved \<Rightarrow> fallback_manager \<Rightarrow> fallback_manager" where
  "note_resolved peer r m = (
     let s = (peer_mut peer m)\<lparr> ps_resolved := r \<rparr>
     in put_peer peer
          (if rs_ipv8_capable r
           then s\<lparr> ps_level := MainTunnel, ps_failures_at_level := 0, ps_alt_idx := 0, ps_degraded_at := None \<rparr>
           else s\<lparr> ps_level := PlainTcp, ps_degraded_at := None \<rparr>) m)"

definition handshake_timeout :: "fallback_manager \<Rightarrow> string \<Rightarrow> nat" where
  "handshake_timeout m peer = (case fm_peers m peer of
     Some p \<Rightarrow> if rs_last_good_entry (ps_resolved p) \<noteq> None then fo_cached_handshake_timeout (fm_opts m)
               else fo_first_handshake_timeout (fm_opts m)
   | None \<Rightarrow> fo_first_handshake_timeout (fm_opts m))"

definition plain_path :: "level \<Rightarrow> path" where
  "plain_path l = (if l = PlainUdp then Path_PlainUdp else Path_PlainTcp)"

definition path_of :: "peer_state \<Rightarrow> path" where
  "path_of s = (case ps_level s of
     MainTunnel \<Rightarrow> Path_Tunnel (case rs_tunnel_entry (ps_resolved s) of Some e \<Rightarrow> e | None \<Rightarrow> [])
   | AltTunnel \<Rightarrow>
       (let alts = rs_alt_entries (ps_resolved s); idx = min (ps_alt_idx s) (length alts - 1)
        in Path_Tunnel (if idx < length alts then alts ! idx else []))
   | PlainTcp \<Rightarrow> Path_PlainTcp
   | PlainUdp \<Rightarrow> Path_PlainUdp)"

definition peer_next :: "nat \<Rightarrow> peer_state \<Rightarrow> peer_state \<times> path" where
  "peer_next now s = (
     if ps_level s = PlainTcp \<or> ps_level s = PlainUdp then
       (case ps_degraded_at s of
          Some at \<Rightarrow>
            if now - at < ps_ttl_secs s then (s, plain_path (ps_level s))
            else let s = s\<lparr> ps_degraded_at := None, ps_level := MainTunnel, ps_failures_at_level := 0, ps_alt_idx := 0 \<rparr>
                 in (s, path_of s)
        | None \<Rightarrow> (s\<lparr> ps_degraded_at := Some now \<rparr>, plain_path (ps_level s)))
     else (s, path_of s))"

definition next_path :: "string \<Rightarrow> nat \<Rightarrow> fallback_manager \<Rightarrow> fallback_manager \<times> path" where
  "next_path peer now m = (case peer_next now (peer_mut peer m) of (s, p) \<Rightarrow> (put_peer peer s m, p))"

text \<open>The next entry, or plain TCP when all are spent.\<close>

definition next_entry :: "nat \<Rightarrow> peer_state \<Rightarrow> peer_state" where
  "next_entry now s = (
     let s = s\<lparr> ps_failures_at_level := 0 \<rparr>;
         next_alt = (if ps_level s = MainTunnel then 0 else ps_alt_idx s + 1)
     in if next_alt < length (rs_alt_entries (ps_resolved s))
        then s\<lparr> ps_alt_idx := next_alt, ps_level := AltTunnel \<rparr>
        else s\<lparr> ps_alt_idx := 0, ps_level := PlainTcp, ps_degraded_at := Some now \<rparr>)"

definition peer_failure :: "failure \<Rightarrow> nat \<Rightarrow> peer_state \<Rightarrow> peer_state" where
  "peer_failure f now s = (case ps_level s of
     PlainTcp \<Rightarrow> s\<lparr> ps_level := PlainUdp \<rparr>
   | PlainUdp \<Rightarrow> s
   | _ \<Rightarrow>
       if f = FirstPacketTimeout then next_entry now s
       else
         let s = s\<lparr> ps_failures_at_level := ps_failures_at_level s + 1 \<rparr>
         in if ps_failures_at_level s \<le> ps_max_retries s then s else next_entry now s)"

definition record_failure :: "string \<Rightarrow> failure \<Rightarrow> nat \<Rightarrow> fallback_manager \<Rightarrow> fallback_manager" where
  "record_failure peer f now m = put_peer peer (peer_failure f now (peer_mut peer m)) m"

definition peer_success :: "path \<Rightarrow> peer_state \<Rightarrow> peer_state" where
  "peer_success p s = (case p of
     Path_Tunnel entry \<Rightarrow>
       (let r = (ps_resolved s)\<lparr> rs_last_good_entry := Some entry \<rparr>;
            r = (if rs_tunnel_entry r \<noteq> Some entry \<and> entry \<in> set (rs_alt_entries r)
                 then r\<lparr> rs_tunnel_entry := Some entry, rs_alt_entries := remove1 entry (rs_alt_entries r) \<rparr>
                 else r)
        in s\<lparr> ps_level := MainTunnel, ps_failures_at_level := 0, ps_degraded_at := None, ps_resolved := r \<rparr>)
   | _ \<Rightarrow> s)"

definition record_success :: "string \<Rightarrow> path \<Rightarrow> fallback_manager \<Rightarrow> fallback_manager" where
  "record_success peer p m = put_peer peer (peer_success p (peer_mut peer m)) m"

definition level_of :: "fallback_manager \<Rightarrow> string \<Rightarrow> level option" where
  "level_of m peer = map_option ps_level (fm_peers m peer)"

lemma peer_mut_put [simp]: "peer_mut peer (put_peer peer s m) = s"
  by (simp add: peer_mut_def put_peer_def)

section \<open>The cascade\<close>

text \<open>The entries of a peer in the order in which they are tried.\<close>

definition entries :: "resolved \<Rightarrow> string list" where
  "entries r = (case rs_tunnel_entry r of Some e \<Rightarrow> e | None \<Rightarrow> []) # rs_alt_entries r"

text \<open>Attempt number \<open>j\<close> of the cascade, with \<open>r\<close> retries for each entry.\<close>

definition cascade :: "string list \<Rightarrow> nat \<Rightarrow> nat \<Rightarrow> path" where
  "cascade es r j = (
     if j div (r + 1) < length es then Path_Tunnel (es ! (j div (r + 1)))
     else if j = length es * (r + 1) then Path_PlainTcp else Path_PlainUdp)"

text \<open>A peer that fails at every attempt.\<close>

fun tries :: "string \<Rightarrow> (nat \<times> failure) list \<Rightarrow> fallback_manager \<Rightarrow> path list" where
  "tries peer [] m = []"
| "tries peer ((t, f) # evs) m = (case next_path peer t m of (m, p) \<Rightarrow> p # tries peer evs (record_failure peer f t m))"

text \<open>The state after \<open>j\<close> failed attempts; \<open>t0\<close> is the time of the first.\<close>

definition cascaded :: "resolved \<Rightarrow> nat \<Rightarrow> nat \<Rightarrow> nat \<Rightarrow> peer_state \<Rightarrow> bool" where
  "cascaded r retries t0 j s \<longleftrightarrow> ps_resolved s = r \<and> ps_max_retries s = retries
     \<and> (let n = length (entries r) * (retries + 1) in
        if j < n then ps_failures_at_level s = j mod (retries + 1)
          \<and> (if j div (retries + 1) = 0 then ps_level s = MainTunnel
             else ps_level s = AltTunnel \<and> ps_alt_idx s + 1 = j div (retries + 1))
        else ps_level s = (if j = n then PlainTcp else PlainUdp) \<and> (\<exists>at. ps_degraded_at s = Some at \<and> t0 \<le> at))"

lemma div_mod_Suc:
  fixes j n :: nat
  shows "j mod (n + 1) < n \<Longrightarrow> (j + 1) div (n + 1) = j div (n + 1) \<and> (j + 1) mod (n + 1) = j mod (n + 1) + 1"
    "j mod (n + 1) = n \<Longrightarrow> (j + 1) div (n + 1) = j div (n + 1) + 1 \<and> (j + 1) mod (n + 1) = 0"
  by (simp_all add: div_Suc mod_Suc)

lemma length_entries [simp]: "length (entries r) = length (rs_alt_entries r) + 1"
  by (simp add: entries_def)

lemma cascaded_path:
  assumes "cascaded r retries t0 j s" "t0 \<le> t" "t < t0 + ps_ttl_secs s"
  shows "peer_next t s = (s, cascade (entries r) retries j)"
proof (cases "j < length (entries r) * (retries + 1)")
  case True
  then have q: "j div (retries + 1) < length (entries r)" by (rule less_mult_imp_div_less)
  show ?thesis
  proof (cases "j div (retries + 1) = 0")
    case True
    then show ?thesis using assms(1) \<open>j < _\<close> q
      by (auto simp: cascaded_def Let_def peer_next_def path_of_def cascade_def entries_def split: option.split)
  next
    case False
    then obtain i where i: "j div (retries + 1) = Suc i" by (metis not0_implies_Suc)
    then have "ps_level s = AltTunnel" "ps_alt_idx s = i" "ps_resolved s = r"
      using assms(1) \<open>j < _\<close> by (simp_all add: cascaded_def Let_def)
    moreover have "i < length (rs_alt_entries r)" using i q by simp
    moreover from this have "min i (length (rs_alt_entries r) - 1) = i" by simp
    ultimately show ?thesis using i by (simp add: peer_next_def path_of_def cascade_def entries_def)
  qed
next
  case False
  let ?n = "length (entries r) * (retries + 1)"
  have l: "ps_level s = (if j = ?n then PlainTcp else PlainUdp)" and "\<exists>at. ps_degraded_at s = Some at \<and> t0 \<le> at"
    using assms(1) False by (simp_all add: cascaded_def Let_def)
  then obtain at where "ps_degraded_at s = Some at" "t - at < ps_ttl_secs s" using assms(2,3) by auto
  moreover note l
  moreover have "\<not> j div (retries + 1) < length (entries r)" using False by (metis div_less_iff_less_mult add_gr_0 zero_less_one)
  ultimately show ?thesis by (auto simp: peer_next_def cascade_def plain_path_def)
qed

lemma next_entry_to:
  "(if ps_level s = MainTunnel then 0 else ps_alt_idx s + 1) = q \<Longrightarrow> next_entry now (s\<lparr> ps_failures_at_level := x \<rparr>) =
     (if q < length (rs_alt_entries (ps_resolved s)) then s\<lparr> ps_failures_at_level := 0, ps_alt_idx := q, ps_level := AltTunnel \<rparr>
      else s\<lparr> ps_failures_at_level := 0, ps_alt_idx := 0, ps_level := PlainTcp, ps_degraded_at := Some now \<rparr>)"
  by (auto simp: next_entry_def Let_def)

lemma cascaded_failure:
  assumes "cascaded r retries t0 j s" "f \<noteq> FirstPacketTimeout" "t0 \<le> t"
  shows "cascaded r retries t0 (j + 1) (peer_failure f t s)" "ps_ttl_secs (peer_failure f t s) = ps_ttl_secs s"
proof -
  show "ps_ttl_secs (peer_failure f t s) = ps_ttl_secs s"
    by (simp add: peer_failure_def next_entry_def Let_def split: level.split)
  let ?n = "length (entries r) * (retries + 1)" and ?q = "j div (retries + 1)"
  show "cascaded r retries t0 (j + 1) (peer_failure f t s)"
  proof (cases "j < ?n")
    case True
    then have s: "ps_resolved s = r" "ps_max_retries s = retries" "ps_failures_at_level s = j mod (retries + 1)"
      "if ?q = 0 then ps_level s = MainTunnel else ps_level s = AltTunnel \<and> ps_alt_idx s + 1 = ?q"
      using assms(1) unfolding cascaded_def Let_def if_P [OF True] by blast+
    have tunnel: "ps_level s = MainTunnel \<or> ps_level s = AltTunnel" using s(4) by (auto split: if_splits)
    show ?thesis
    proof (cases "j mod (retries + 1) < retries")
      case True
      note d = div_mod_Suc(1) [OF True]
      have "peer_failure f t s = s\<lparr> ps_failures_at_level := ps_failures_at_level s + 1 \<rparr>"
        using tunnel assms(2) s(2,3) True by (auto simp: peer_failure_def Let_def)
      moreover have "j + 1 < ?n"
      proof -
        have "(j + 1) div (retries + 1) < length (entries r)" using d less_mult_imp_div_less [OF \<open>j < ?n\<close>] by simp
        then show ?thesis by (metis div_less_iff_less_mult add_gr_0 zero_less_one)
      qed
      ultimately show ?thesis using s d by (cases "?q = 0") (simp_all add: cascaded_def Let_def)
    next
      case False
      then have m: "j mod (retries + 1) = retries" by (metis add.commute less_Suc_eq mod_less_divisor plus_1_eq_Suc zero_less_Suc)
      note d = div_mod_Suc(2) [OF m]
      have j1: "j + 1 = (?q + 1) * (retries + 1)" using d by (metis add_0_right div_mult_mod_eq)
      have pf: "peer_failure f t s = next_entry t (s\<lparr> ps_failures_at_level := retries + 1 \<rparr>)"
        using tunnel assms(2) s(2,3) m by (auto simp: peer_failure_def Let_def)
      have na: "(if ps_level s = MainTunnel then 0 else ps_alt_idx s + 1) = ?q" using s(4) by (auto split: if_splits)
      show ?thesis
      proof (cases "?q < length (rs_alt_entries r)")
        case True
        then have "j + 1 < ?n" unfolding j1 by (intro mult_strict_right_mono) simp_all
        moreover have "peer_failure f t s = s\<lparr> ps_failures_at_level := 0, ps_alt_idx := ?q, ps_level := AltTunnel \<rparr>"
          unfolding pf next_entry_to [OF na] using True s(1) by simp
        ultimately show ?thesis using s d by (simp add: cascaded_def Let_def)
      next
        case False
        then have "?q + 1 = length (entries r)" using less_mult_imp_div_less [OF \<open>j < ?n\<close>] by simp
        then have "j + 1 = ?n" using j1 by simp
        moreover have "peer_failure f t s = s\<lparr> ps_failures_at_level := 0, ps_alt_idx := 0, ps_level := PlainTcp, ps_degraded_at := Some t \<rparr>"
          unfolding pf next_entry_to [OF na] using False s(1) by simp
        ultimately show ?thesis using s(1,2) assms(3) unfolding cascaded_def Let_def by simp
      qed
    qed
  next
    case False
    then have "ps_level s = PlainTcp \<or> ps_level s = PlainUdp" "ps_resolved s = r" "ps_max_retries s = retries"
      "\<exists>at. ps_degraded_at s = Some at \<and> t0 \<le> at"
      using assms(1) unfolding cascaded_def Let_def by auto
    then show ?thesis using False by (auto simp: peer_failure_def cascaded_def Let_def)
  qed
qed

lemma tries_cascaded:
  "\<lbrakk>cascaded r retries t0 j (peer_mut peer m); \<forall>(t, f) \<in> set evs. f \<noteq> FirstPacketTimeout \<and> t0 \<le> t \<and> t < t0 + ps_ttl_secs (peer_mut peer m)\<rbrakk> \<Longrightarrow>
    tries peer evs m = map (cascade (entries r) retries) [j..<j + length evs]"
proof (induction evs arbitrary: m j)
  case (Cons ev evs)
  obtain t f where ev: "ev = (t, f)" by (metis surj_pair)
  let ?s = "peer_mut peer m"
  have t: "f \<noteq> FirstPacketTimeout" "t0 \<le> t" "t < t0 + ps_ttl_secs ?s" using Cons.prems(2) ev by auto
  have n: "next_path peer t m = (put_peer peer ?s m, cascade (entries r) retries j)"
    using cascaded_path [OF Cons.prems(1) t(2,3)] by (simp add: next_path_def)
  let ?m = "record_failure peer f t (put_peer peer ?s m)"
  have m: "peer_mut peer ?m = peer_failure f t ?s" by (simp add: record_failure_def)
  have "tries peer evs ?m = map (cascade (entries r) retries) [j + 1..<j + 1 + length evs]"
    by (rule Cons.IH) (use cascaded_failure [OF Cons.prems(1) t(1,2)] Cons.prems(2) m in auto)
  moreover have "[j..<j + length (ev # evs)] = j # [j + 1..<j + 1 + length evs]" by (simp add: upt_conv_Cons del: upt_Suc)
  ultimately show ?case using n ev by simp
qed simp

lemma note_resolved_cascaded: "rs_ipv8_capable r \<Longrightarrow> cascaded r (ps_max_retries (peer_mut peer m)) t0 0 (peer_mut peer (note_resolved peer r m))"
  "ps_ttl_secs (peer_mut peer (note_resolved peer r m)) = ps_ttl_secs (peer_mut peer m)"
  by (simp_all add: note_resolved_def cascaded_def Let_def)

text \<open>
  The cascade of the fallback: after the resolver has answered for a capable peer, failing attempts within the
  lifetime of the degradation cache go through the main entry and every alternative entry in order, each tried once
  plus the number of retries, then one attempt of plain TCP, then plain UDP for the rest.
\<close>

theorem fallback_cascade:
  assumes "rs_ipv8_capable r" "ttl = ps_ttl_secs (peer_mut peer m)" "retries = ps_max_retries (peer_mut peer m)"
    and "\<forall>(t, f) \<in> set evs. f \<noteq> FirstPacketTimeout \<and> t0 \<le> t \<and> t < t0 + ttl"
  shows "tries peer evs (note_resolved peer r m) = map (cascade (entries r) retries) [0..<length evs]"
  using tries_cascaded [OF note_resolved_cascaded(1) [OF assms(1)], of evs t0 peer m] assms(2-4) note_resolved_cascaded(2) by simp

definition sample_resolved :: resolved where
  "sample_resolved = \<lparr> rs_tunnel_entry = Some ''main'', rs_alt_entries = [''a1'', ''a2''], rs_ipv8_capable = True, rs_last_good_entry = None \<rparr>"

lemma fallback_cascade_witness:
  "tries ''p'' (map (\<lambda>t. (t, HandshakeTimeout)) [0..<11]) (note_resolved ''p'' sample_resolved (fallback_new fallback_options_default)) =
     map Path_Tunnel [''main'', ''main'', ''main'', ''a1'', ''a1'', ''a1'', ''a2'', ''a2'', ''a2''] @ [Path_PlainTcp, Path_PlainUdp]"
proof -
  let ?m = "fallback_new fallback_options_default"
  have p: "ps_ttl_secs (peer_mut ''p'' ?m) = 300" "ps_max_retries (peer_mut ''p'' ?m) = 2"
    by (simp_all add: peer_mut_def fallback_new_def fallback_options_default_def as_secs_def)
  have "tries ''p'' (map (\<lambda>t. (t, HandshakeTimeout)) [0..<11]) (note_resolved ''p'' sample_resolved ?m) =
      map (cascade (entries sample_resolved) 2) [0..<length (map (\<lambda>t. (t, HandshakeTimeout)) [0..<11])]"
    by (rule fallback_cascade [where ttl = 300]) (auto simp: p sample_resolved_def)
  then show ?thesis by (simp add: cascade_def entries_def sample_resolved_def upt_conv_Cons)
qed

section \<open>Time and success\<close>

text \<open>
  A peer that is known not to speak the protocol is tried over the tunnel again: the resolver's answer leads to
  plain TCP, but the first packet starts the degradation cache, and when that has expired the next packet goes to a
  tunnel entry, every time the cache runs out.
\<close>

theorem incapable_peer_tunnelled:
  assumes "\<not> rs_ipv8_capable r" "ttl = ps_ttl_secs (peer_mut peer m)" "t0 + ttl \<le> t"
    and "next_path peer t0 (note_resolved peer r m) = (m1, p1)" "next_path peer t m1 = (m2, p2)"
  shows "p1 = Path_PlainTcp \<and> p2 = Path_Tunnel (hd (entries r)) \<and> level_of m2 peer = Some MainTunnel"
proof -
  let ?s = "(peer_mut peer m)\<lparr> ps_resolved := r, ps_level := PlainTcp, ps_degraded_at := None \<rparr>"
  have s: "peer_mut peer (note_resolved peer r m) = ?s" using assms(1) by (simp add: note_resolved_def Let_def)
  have m1: "p1 = Path_PlainTcp" "peer_mut peer m1 = ?s\<lparr> ps_degraded_at := Some t0 \<rparr>"
    using assms(4) s by (auto simp: next_path_def peer_next_def plain_path_def)
  have "\<not> t - t0 < ttl" using assms(3) by simp
  then show ?thesis using assms(2,5) m1
    by (auto simp: next_path_def peer_next_def Let_def path_of_def entries_def level_of_def put_peer_def)
qed

lemma incapable_peer_tunnelled_witness:
  "snd (next_path ''p'' 400 (fst (next_path ''p'' 0 (note_resolved ''p'' (sample_resolved\<lparr> rs_ipv8_capable := False \<rparr>)
     (fallback_new fallback_options_default))))) = Path_Tunnel ''main''"
proof -
  let ?r = "sample_resolved\<lparr> rs_ipv8_capable := False \<rparr>" and ?m = "fallback_new fallback_options_default"
  obtain m1 p1 where n1: "next_path ''p'' 0 (note_resolved ''p'' ?r ?m) = (m1, p1)" by (metis surj_pair)
  obtain m2 p2 where n2: "next_path ''p'' 400 m1 = (m2, p2)" by (metis surj_pair)
  have "\<not> rs_ipv8_capable ?r" "300 = ps_ttl_secs (peer_mut ''p'' ?m)" "0 + 300 \<le> (400 :: nat)"
    by (simp_all add: peer_mut_def fallback_new_def fallback_options_default_def as_secs_def)
  from incapable_peer_tunnelled [OF this n1 n2] show ?thesis using n1 n2 by (simp add: entries_def sample_resolved_def)
qed

text \<open>What a success over an alternative entry leaves of the entries.\<close>

lemma success_entries:
  assumes "rs_tunnel_entry r = Some e0" "e \<in> set (rs_alt_entries r)" "e \<noteq> e0" "ps_resolved s = r"
  shows "entries (ps_resolved (peer_success (Path_Tunnel e) s)) = e # remove1 e (rs_alt_entries r)"
    "cascaded (ps_resolved (peer_success (Path_Tunnel e) s)) (ps_max_retries s) t0 0 (peer_success (Path_Tunnel e) s)"
    "ps_ttl_secs (peer_success (Path_Tunnel e) s) = ps_ttl_secs s"
  using assms by (simp_all add: peer_success_def entries_def cascaded_def Let_def)

text \<open>
  A success over an alternative entry loses the main entry: the alternative takes its place and the main one is
  put nowhere, so whatever fails afterwards, no attempt of the cascade ever goes to it again.
\<close>

theorem promotion_loses_main_entry:
  assumes "s = peer_mut peer m" "rs_tunnel_entry (ps_resolved s) = Some e0" "e \<in> set (rs_alt_entries (ps_resolved s))"
    and "e0 \<notin> set (rs_alt_entries (ps_resolved s))"
    and "\<forall>(t, f) \<in> set evs. f \<noteq> FirstPacketTimeout \<and> t0 \<le> t \<and> t < t0 + ps_ttl_secs s"
  shows "Path_Tunnel e0 \<notin> set (tries peer evs (record_success peer (Path_Tunnel e) m))"
proof -
  let ?s = "peer_success (Path_Tunnel e) s"
  have e: "e \<noteq> e0" using assms(3,4) by blast
  note f = success_entries [OF assms(2,3) e refl]
  have m: "peer_mut peer (record_success peer (Path_Tunnel e) m) = ?s" by (simp add: record_success_def assms(1))
  have "tries peer evs (record_success peer (Path_Tunnel e) m) = map (cascade (entries (ps_resolved ?s)) (ps_max_retries s)) [0..<0 + length evs]"
    using tries_cascaded [where peer = peer and m = "record_success peer (Path_Tunnel e) m", unfolded m, OF f(2)] f(3) assms(5) by simp
  moreover have "e0 \<notin> set (entries (ps_resolved ?s))" unfolding f(1) using e assms(4) by (auto dest: notin_set_remove1)
  moreover have "cascade es n j = Path_Tunnel e0 \<Longrightarrow> e0 \<in> set es" for es n j
    by (auto simp: cascade_def split: if_splits)
  ultimately show ?thesis by fastforce
qed

lemma promotion_loses_main_entry_witness:
  "Path_Tunnel ''main'' \<notin> set (tries ''p'' (map (\<lambda>t. (t, LevelFailed)) [0..<100])
     (record_success ''p'' (Path_Tunnel ''a2'') (note_resolved ''p'' sample_resolved (fallback_new fallback_options_default))))"
proof -
  let ?m = "note_resolved ''p'' sample_resolved (fallback_new fallback_options_default)"
  have s: "ps_resolved (peer_mut ''p'' ?m) = sample_resolved" "ps_ttl_secs (peer_mut ''p'' ?m) = 300"
    by (simp_all add: note_resolved_def sample_resolved_def Let_def) (simp add: peer_mut_def fallback_new_def fallback_options_default_def as_secs_def)
  have "\<forall>(t, f) \<in> set (map (\<lambda>t. (t, LevelFailed)) [0..<100]). f \<noteq> FirstPacketTimeout \<and> 0 \<le> t \<and> t < 0 + ps_ttl_secs (peer_mut ''p'' ?m)"
    by (auto simp: s)
  then show ?thesis
    by (intro promotion_loses_main_entry [OF refl]) (simp_all only: s, simp_all add: sample_resolved_def)
qed

end
