(* ===== verification/Failover.thy ===== *)
theory Failover
  imports Prelude
begin

text \<open>
  Switching between relays, \<open>ipv8-tunnel/src/relay_failover.rs\<close>: the health of each relay from its checks, the
  active relay, and the log of events. Times and durations are numbers of nanoseconds. The texts in the events are constructors;
  the target of a switch that finds no relay is \<open>None\<close>. A count of failures is a \<open>nat\<close>, the streak of successes saturates
  as in the code.
\<close>

section \<open>State\<close>

record relay_node =
  rn_addr :: string
  rn_priority :: u8
  rn_last_latency :: "nat option"
  rn_last_check :: "nat option"
  rn_fail_count :: nat
  rn_success_streak :: nat
  rn_healthy :: bool

record failover_config =
  fc_check_interval :: nat
  fc_check_timeout :: nat
  fc_fail_threshold :: nat
  fc_recover_threshold :: nat
  fc_recover_debounce :: nat

definition failover_config_default :: failover_config where
  "failover_config_default = \<lparr> fc_check_interval = 10 * 10 ^ 9, fc_check_timeout = 3 * 10 ^ 9, fc_fail_threshold = 3,
     fc_recover_threshold = 2, fc_recover_debounce = 30 * 10 ^ 9 \<rparr>"

datatype health = Healthy | Unhealthy | Health_Unknown

datatype event_reason = Failed_Checks nat | Active_Failed | Primary_Stable | Best_Backup | All_Unhealthy

datatype failover_event =
    Relay_Down string event_reason
  | Relay_Up string nat
  | Switched string "string option" event_reason

record failover =
  fv_config :: failover_config
  fv_relays :: "relay_node list"
  fv_active_idx :: nat
  fv_primary_recovered_at :: "nat option"
  fv_events :: "failover_event list"

definition failover_new :: "failover_config \<Rightarrow> (string \<times> u8) list \<Rightarrow> failover" where
  "failover_new config relays =
     \<lparr> fv_config = config,
       fv_relays = map (\<lambda>(a, p). \<lparr> rn_addr = a, rn_priority = p, rn_last_latency = None, rn_last_check = None,
         rn_fail_count = 0, rn_success_streak = 0, rn_healthy = True \<rparr>) (sort_key snd relays),
       fv_active_idx = 0, fv_primary_recovered_at = None, fv_events = [] \<rparr>"

fun relay_index :: "string \<Rightarrow> relay_node list \<Rightarrow> nat option" where
  "relay_index a [] = None"
| "relay_index a (r # rs) = (if rn_addr r = a then Some 0 else map_option Suc (relay_index a rs))"

definition active_relay :: "failover \<Rightarrow> relay_node option" where
  "active_relay fv = (if fv_active_idx fv < length (fv_relays fv) then Some (fv_relays fv ! fv_active_idx fv) else None)"

definition health_of :: "failover \<Rightarrow> string \<Rightarrow> health" where
  "health_of fv a = (case List.find (\<lambda>r. rn_addr r = a) (fv_relays fv) of
     Some r \<Rightarrow> if rn_healthy r then Healthy else Unhealthy
   | None \<Rightarrow> Health_Unknown)"

section \<open>Checks\<close>

definition push_event :: "failover_event \<Rightarrow> failover \<Rightarrow> failover" where
  "push_event e fv = fv\<lparr> fv_events := (if length (fv_events fv) \<ge> 100 then tl (fv_events fv) else fv_events fv) @ [e] \<rparr>"

definition do_switch_to_primary :: "string \<Rightarrow> failover \<Rightarrow> failover \<times> bool" where
  "do_switch_to_primary a fv = (
     let old = rn_addr (fv_relays fv ! fv_active_idx fv)
     in (push_event (Switched old (Some a) Primary_Stable) (fv\<lparr> fv_active_idx := 0 \<rparr>), True))"

text \<open>The key of the relay with the lowest latency; an unknown latency comes last.\<close>

definition latency_key :: "relay_node \<Rightarrow> nat" where
  "latency_key r = (case rn_last_latency r of Some d \<Rightarrow> (d div 10 ^ 6) mod 2 ^ 64 | None \<Rightarrow> 2 ^ 64 - 1)"

definition best_relay :: "relay_node list \<Rightarrow> nat option" where
  "best_relay rs = (
     let cands = filter (\<lambda>i. rn_healthy (rs ! i)) [0..<length rs]
     in if cands = [] then None else Some (arg_min_list (\<lambda>i. latency_key (rs ! i)) cands))"

definition switch_to_best :: "failover \<Rightarrow> failover \<times> bool" where
  "switch_to_best fv = (
     let cur = rn_addr (fv_relays fv ! fv_active_idx fv)
     in case best_relay (fv_relays fv) of
          Some new_idx \<Rightarrow>
            if new_idx \<noteq> fv_active_idx fv
            then (push_event (Switched cur (Some (rn_addr (fv_relays fv ! new_idx))) Best_Backup) (fv\<lparr> fv_active_idx := new_idx \<rparr>), True)
            else (fv, False)
        | None \<Rightarrow> (push_event (Switched cur None All_Unhealthy) fv, False))"

datatype check_action = Act_None | Act_Up nat bool | Act_Down nat | Act_Switch | Act_Primary

text \<open>The relay after the check, and what is to be done.\<close>

definition check_relay :: "failover \<Rightarrow> nat \<Rightarrow> nat option \<Rightarrow> nat \<Rightarrow> relay_node \<times> check_action" where
  "check_relay fv idx latency now = (
     let c = fv_config fv; relay = (fv_relays fv ! idx)\<lparr> rn_last_check := Some now \<rparr>
     in case latency of
          Some lat \<Rightarrow>
            let relay = relay\<lparr> rn_last_latency := Some lat, rn_fail_count := 0,
                  rn_success_streak := min (rn_success_streak relay + 1) (2 ^ 32 - 1) \<rparr>
            in if \<not> rn_healthy relay then
                 if rn_success_streak relay \<ge> fc_recover_threshold c
                 then (relay\<lparr> rn_healthy := True \<rparr>, Act_Up lat (idx = 0))
                 else (relay, Act_None)
               else if idx = 0 \<and> fv_active_idx fv \<noteq> 0 then
                 (case fv_primary_recovered_at fv of
                    Some recovered \<Rightarrow> if now - recovered \<ge> fc_recover_debounce c then (relay, Act_Primary) else (relay, Act_None)
                  | None \<Rightarrow> (relay, Act_None))
               else (relay, Act_None)
        | None \<Rightarrow>
            let relay = relay\<lparr> rn_fail_count := rn_fail_count relay + 1, rn_success_streak := 0 \<rparr>
            in if rn_healthy relay \<and> rn_fail_count relay \<ge> fc_fail_threshold c
               then (relay\<lparr> rn_healthy := False \<rparr>, if idx = fv_active_idx fv then Act_Switch else Act_Down (rn_fail_count relay))
               else (relay, Act_None))"

definition record_check :: "string \<Rightarrow> nat option \<Rightarrow> nat \<Rightarrow> failover \<Rightarrow> failover \<times> bool" where
  "record_check a latency now fv = (case relay_index a (fv_relays fv) of
     None \<Rightarrow> (fv, False)
   | Some idx \<Rightarrow>
       (case check_relay fv idx latency now of (relay, action) \<Rightarrow>
          (let fv = fv\<lparr> fv_relays := (fv_relays fv)[idx := relay] \<rparr>
           in case action of
                Act_None \<Rightarrow> (fv, False)
              | Act_Up lat is_primary \<Rightarrow>
                  (let fv = push_event (Relay_Up a lat) fv
                   in (if is_primary then fv\<lparr> fv_primary_recovered_at := Some now \<rparr> else fv, False))
              | Act_Down fail_count \<Rightarrow> (push_event (Relay_Down a (Failed_Checks fail_count)) fv, False)
              | Act_Switch \<Rightarrow> switch_to_best (push_event (Relay_Down a Active_Failed) fv)
              | Act_Primary \<Rightarrow> do_switch_to_primary a fv)))"

definition needs_check :: "failover \<Rightarrow> string \<Rightarrow> nat \<Rightarrow> bool" where
  "needs_check fv a now = (case List.find (\<lambda>r. rn_addr r = a) (fv_relays fv) of
     Some r \<Rightarrow> (case rn_last_check r of Some t \<Rightarrow> now - t \<ge> fc_check_interval (fv_config fv) | None \<Rightarrow> True)
   | None \<Rightarrow> False)"

definition relays_needing_check :: "failover \<Rightarrow> nat \<Rightarrow> string list" where
  "relays_needing_check fv now = map rn_addr (filter (\<lambda>r. needs_check fv (rn_addr r) now) (fv_relays fv))"

section \<open>The log\<close>

interpretation event_log: recent_ring push_event fv_events 100
proof unfold_locales
  fix e and fv :: failover assume le: "length (fv_events fv) \<le> 100"
  show "fv_events (push_event e fv) = drop (Suc (length (fv_events fv)) - 100) (fv_events fv @ [e])"
  proof (cases "length (fv_events fv) = 100")
    case True
    then have "fv_events fv \<noteq> []" by auto
    then show ?thesis using True by (simp add: push_event_def drop_Suc)
  qed (use le in \<open>simp add: push_event_def\<close>)
qed simp

lemma push_event_fields [simp]:
  "fv_relays (push_event e fv) = fv_relays fv" "fv_active_idx (push_event e fv) = fv_active_idx fv"
  "fv_config (push_event e fv) = fv_config fv" "fv_primary_recovered_at (push_event e fv) = fv_primary_recovered_at fv"
  by (simp_all add: push_event_def)

lemma switch_fields [simp]:
  "fv_relays (fst (switch_to_best fv)) = fv_relays fv" "fv_config (fst (switch_to_best fv)) = fv_config fv"
  "fv_relays (fst (do_switch_to_primary a fv)) = fv_relays fv" "fv_config (fst (do_switch_to_primary a fv)) = fv_config fv"
  by (simp_all add: switch_to_best_def do_switch_to_primary_def Let_def split: option.split)

section \<open>One relay over time\<close>

text \<open>What a check does to the relays: only the first one of that address changes.\<close>

definition checked :: "failover_config \<Rightarrow> nat option \<Rightarrow> relay_node \<Rightarrow> relay_node \<Rightarrow> bool" where
  "checked c latency r r' \<longleftrightarrow> rn_addr r' = rn_addr r \<and> (case latency of
     Some _ \<Rightarrow> rn_fail_count r' = 0 \<and> rn_success_streak r' = min (rn_success_streak r + 1) (2 ^ 32 - 1)
       \<and> rn_healthy r' = (rn_healthy r \<or> fc_recover_threshold c \<le> rn_success_streak r')
   | None \<Rightarrow> rn_fail_count r' = rn_fail_count r + 1 \<and> rn_success_streak r' = 0
       \<and> rn_healthy r' = (rn_healthy r \<and> rn_fail_count r' < fc_fail_threshold c))"

lemma relay_index_SomeD: "relay_index a rs = Some i \<Longrightarrow> i < length rs \<and> rn_addr (rs ! i) = a \<and> (\<forall>j < i. rn_addr (rs ! j) \<noteq> a)"
  by (induction rs arbitrary: i) (auto split: if_splits simp: nth_Cons less_Suc_eq_0_disj split: nat.splits)

lemma find_relay: "List.find (\<lambda>r. rn_addr r = a) rs = map_option (\<lambda>i. rs ! i) (relay_index a rs)"
  by (induction rs) (auto simp: option.map_comp comp_def)

lemma check_relay_checked: "checked (fv_config fv) latency (fv_relays fv ! i) (fst (check_relay fv i latency now))"
  by (auto simp: checked_def check_relay_def Let_def split: option.split)

lemma record_check_relays:
  "fv_relays (fst (record_check a latency now fv)) = (case relay_index a (fv_relays fv) of
     Some i \<Rightarrow> (fv_relays fv)[i := fst (check_relay fv i latency now)] | None \<Rightarrow> fv_relays fv)"
  "fv_config (fst (record_check a latency now fv)) = fv_config fv"
  by (auto simp: record_check_def Let_def split: option.split prod.split check_action.split)

lemma relay_index_addrs: "map rn_addr rs = map rn_addr rs' \<Longrightarrow> relay_index x rs = relay_index x rs'"
  by (induction rs rs' rule: list_induct2') auto

lemma record_check_addrs: "map rn_addr (fv_relays (fst (record_check a latency now fv))) = map rn_addr (fv_relays fv)"
proof (cases "relay_index a (fv_relays fv)")
  case (Some i)
  then have "i < length (fv_relays fv)" using relay_index_SomeD by blast
  moreover have "rn_addr (fst (check_relay fv i latency now)) = rn_addr (fv_relays fv ! i)"
    using check_relay_checked [of fv latency i now] by (simp add: checked_def)
  ultimately show ?thesis using Some by (simp add: record_check_relays map_update list_update_same_conv)
qed (simp add: record_check_relays)

type_synonym check = "string \<times> nat option \<times> nat"

fun run_checks :: "check list \<Rightarrow> failover \<Rightarrow> failover" where
  "run_checks [] fv = fv"
| "run_checks ((a, latency, now) # cs) fv = run_checks cs (fst (record_check a latency now fv))"

text \<open>The outcomes of the checks of one address, the latest first.\<close>

definition outcomes :: "string \<Rightarrow> check list \<Rightarrow> bool list" where
  "outcomes a cs = rev (map (\<lambda>(_, latency, _). latency \<noteq> None) (filter (\<lambda>(b, _, _). b = a) cs))"

text \<open>
  The reference: unhealthy after \<open>fails\<close> failures in a row, healthy again after \<open>oks\<close> successes in a
  row, and in between as before.
\<close>

fun expected_health :: "nat \<Rightarrow> nat \<Rightarrow> bool list \<Rightarrow> bool" where
  "expected_health fails oks [] = True"
| "expected_health fails oks (b # h) = (
     if fails \<le> length (b # h) \<and> True \<notin> set (take fails (b # h)) then False
     else if oks \<le> length (b # h) \<and> False \<notin> set (take oks (b # h)) then True
     else expected_health fails oks h)"

definition tracks :: "failover_config \<Rightarrow> bool list \<Rightarrow> relay_node \<Rightarrow> bool" where
  "tracks c h r \<longleftrightarrow> rn_fail_count r = length (takeWhile Not h)
     \<and> rn_success_streak r = min (length (takeWhile (\<lambda>b. b) h)) (2 ^ 32 - 1)
     \<and> rn_healthy r = expected_health (fc_fail_threshold c) (fc_recover_threshold c) h"

lemma all_taken: "n \<le> length h \<and> x \<notin> set (take n h) \<longleftrightarrow> n \<le> length (takeWhile (\<lambda>b. b \<noteq> x) h)"
proof (induction h arbitrary: n)
  case (Cons b h)
  then show ?case by (cases n) auto
qed simp

lemma tracks_check:
  assumes "tracks c h r" "checked c latency r r'" "0 < fc_fail_threshold c" "0 < fc_recover_threshold c" "fc_recover_threshold c < 2 ^ 32"
  shows "tracks c ((latency \<noteq> None) # h) r'"
proof -
  let ?F = "fc_fail_threshold c" and ?R = "fc_recover_threshold c"
  have e: "expected_health ?F ?R (b # h) = (if ?F \<le> length (takeWhile (\<lambda>b. b \<noteq> True) (b # h)) then False
      else if ?R \<le> length (takeWhile (\<lambda>b. b \<noteq> False) (b # h)) then True else expected_health ?F ?R h)" for b
    unfolding expected_health.simps all_taken ..
  show ?thesis
  proof (cases latency)
    case None
    then show ?thesis using assms e [of False] by (auto simp: tracks_def checked_def simp del: expected_health.simps)
  next
    case (Some l)
    have "(?R \<le> min (length (takeWhile (\<lambda>b. b) h) + 1) (2 ^ 32 - 1)) = (?R \<le> length (takeWhile (\<lambda>b. b) h) + 1)"
      using assms(5) by auto
    then show ?thesis using assms Some e [of True] by (auto simp: tracks_def checked_def min_def simp del: expected_health.simps)
  qed
qed

lemma run_checks_tracks:
  "\<lbrakk>relay_index a (fv_relays fv) = Some i; tracks (fv_config fv) h (fv_relays fv ! i);
    0 < fc_fail_threshold (fv_config fv); 0 < fc_recover_threshold (fv_config fv); fc_recover_threshold (fv_config fv) < 2 ^ 32\<rbrakk> \<Longrightarrow>
   relay_index a (fv_relays (run_checks cs fv)) = Some i \<and> tracks (fv_config fv) (outcomes a cs @ h) (fv_relays (run_checks cs fv) ! i)"
proof (induction cs arbitrary: fv h)
  case Nil
  then show ?case by (simp add: outcomes_def)
next
  case (Cons ev cs)
  obtain b latency now where ev: "ev = (b, latency, now)" by (metis prod_cases3)
  let ?fv = "fst (record_check b latency now fv)" and ?h = "if b = a then (latency \<noteq> None) # h else h"
  have i: "relay_index a (fv_relays ?fv) = Some i"
    using relay_index_addrs [OF record_check_addrs [of b latency now fv]] Cons.prems(1) by simp
  note ia = relay_index_SomeD [OF Cons.prems(1)]
  have "tracks (fv_config fv) ?h (fv_relays ?fv ! i)"
  proof (cases "b = a")
    case True
    then have "fv_relays ?fv ! i = fst (check_relay fv i latency now)" using Cons.prems(1) ia by (simp add: record_check_relays(1))
    then show ?thesis using tracks_check [OF Cons.prems(2) check_relay_checked Cons.prems(3-5)] True by simp
  next
    case False
    then have "fv_relays ?fv ! i = fv_relays fv ! i"
    proof (cases "relay_index b (fv_relays fv)")
      case (Some j)
      then have "j \<noteq> i" using ia relay_index_SomeD [OF Some] False by auto
      then show ?thesis using Some by (simp add: record_check_relays(1))
    qed (simp add: record_check_relays(1))
    then show ?thesis using Cons.prems(2) False by simp
  qed
  then have "relay_index a (fv_relays (run_checks cs ?fv)) = Some i \<and> tracks (fv_config ?fv) (outcomes a cs @ ?h) (fv_relays (run_checks cs ?fv) ! i)"
    using Cons.IH [of ?fv ?h] i Cons.prems(3-5) by (simp add: record_check_relays(2))
  moreover have "outcomes a cs @ ?h = outcomes a (ev # cs) @ h" by (simp add: outcomes_def ev)
  ultimately show ?case by (simp add: ev record_check_relays(2))
qed

text \<open>
  Health follows the checks of the relay alone: after any sequence of checks of any relays, whatever the switches in
  between, a relay is unhealthy exactly when its own checks failed fail_threshold times in a row and have not since
  succeeded recover_threshold times in a row.
\<close>

theorem health_follows_checks:
  assumes "a \<in> fst ` set relays" "0 < fc_fail_threshold c" "0 < fc_recover_threshold c" "fc_recover_threshold c < 2 ^ 32"
  shows "health_of (run_checks cs (failover_new c relays)) a =
    (if expected_health (fc_fail_threshold c) (fc_recover_threshold c) (outcomes a cs) then Healthy else Unhealthy)"
proof -
  let ?fv = "failover_new c relays"
  have "a \<in> rn_addr ` set (fv_relays ?fv)" using assms(1) by (force simp: failover_new_def)
  moreover have "a \<in> rn_addr ` set rs \<Longrightarrow> \<exists>i. relay_index a rs = Some i" for rs by (induction rs) auto
  ultimately obtain i where i: "relay_index a (fv_relays ?fv) = Some i" by blast
  have "\<forall>r \<in> set (fv_relays ?fv). tracks c [] r" by (auto simp: failover_new_def tracks_def)
  moreover have "fv_relays ?fv ! i \<in> set (fv_relays ?fv)" using relay_index_SomeD [OF i] by simp
  ultimately have "tracks c [] (fv_relays ?fv ! i)" by blast
  then have "tracks (fv_config ?fv) [] (fv_relays ?fv ! i)" by (simp add: failover_new_def)
  from run_checks_tracks [OF i this, of cs] assms(2-4)
  have "relay_index a (fv_relays (run_checks cs ?fv)) = Some i" "tracks c (outcomes a cs) (fv_relays (run_checks cs ?fv) ! i)"
    by (simp_all add: failover_new_def)
  then show ?thesis by (simp add: health_of_def find_relay tracks_def)
qed

lemma health_follows_checks_witness:
  "health_of (run_checks [(''r'', None, 1), (''s'', Some 5, 2), (''r'', None, 3), (''r'', None, 4), (''r'', Some 7, 5)]
     (failover_new failover_config_default [(''s'', 1), (''r'', 0)])) ''r'' = Unhealthy"
  using health_follows_checks [of "''r''" "[(''s'', 1), (''r'', 0)]" failover_config_default
      "[(''r'', None, 1), (''s'', Some 5, 2), (''r'', None, 3), (''r'', None, 4), (''r'', Some 7, 5)]"]
  by (simp add: outcomes_def failover_config_default_def)

section \<open>Switching\<close>

lemma best_relay_cases:
  "case best_relay rs of
     Some i \<Rightarrow> i < length rs \<and> rn_healthy (rs ! i) \<and> (\<forall>j < length rs. rn_healthy (rs ! j) \<longrightarrow> latency_key (rs ! i) \<le> latency_key (rs ! j))
   | None \<Rightarrow> \<forall>r \<in> set rs. \<not> rn_healthy r"
proof -
  let ?cands = "filter (\<lambda>i. rn_healthy (rs ! i)) [0..<length rs]" and ?k = "\<lambda>i. latency_key (rs ! i)"
  show ?thesis
  proof (cases "?cands = []")
    case True
    then show ?thesis by (auto simp: best_relay_def filter_empty_conv in_set_conv_nth)
  next
    case False
    have "arg_min_list ?k ?cands \<in> set ?cands" using False by (rule arg_min_list_in)
    moreover have "?k (arg_min_list ?k ?cands) \<le> ?k j" if "j < length rs" "rn_healthy (rs ! j)" for j
      using f_arg_min_list_f [OF False, of ?k] that by simp
    ultimately show ?thesis using False by (auto simp: best_relay_def)
  qed
qed

text \<open>
  Failover picks the best backup: when the check of the active relay fails for the fail_threshold-th time in a row,
  the active relay is afterwards a healthy one of the lowest known latency, and stays the same only if no relay is healthy.
\<close>

theorem failover_picks_best:
  assumes "relay_index a (fv_relays fv) = Some (fv_active_idx fv)" "rn_healthy (fv_relays fv ! fv_active_idx fv)"
    and "fc_fail_threshold (fv_config fv) \<le> rn_fail_count (fv_relays fv ! fv_active_idx fv) + 1"
    and "record_check a None now fv = (fv', switched)"
  shows "(switched \<longrightarrow> active_relay fv' \<noteq> None \<and> rn_healthy (the (active_relay fv')) \<and> fv_active_idx fv' \<noteq> fv_active_idx fv
      \<and> (\<forall>r \<in> set (fv_relays fv'). rn_healthy r \<longrightarrow> latency_key (the (active_relay fv')) \<le> latency_key r))
    \<and> (\<not> switched \<longrightarrow> fv_active_idx fv' = fv_active_idx fv \<and> (\<forall>r \<in> set (fv_relays fv'). \<not> rn_healthy r))"
proof -
  let ?i = "fv_active_idx fv"
  define r where "r = fst (check_relay fv ?i None now)"
  let ?rs = "(fv_relays fv)[?i := r]"
  have r: "\<not> rn_healthy r" "snd (check_relay fv ?i None now) = Act_Switch"
    using assms(2,3) by (simp_all add: r_def check_relay_def Let_def)
  have i: "?i < length (fv_relays fv)" using relay_index_SomeD [OF assms(1)] by blast
  have fv': "(fv', switched) = switch_to_best (push_event (Relay_Down a Active_Failed) (fv\<lparr> fv_relays := ?rs \<rparr>))"
    using assms(1,4) r(2) by (simp add: record_check_def r_def Let_def split: prod.splits)
  note best = best_relay_cases [of ?rs]
  show ?thesis
  proof (cases "best_relay ?rs")
    case None
    then show ?thesis using fv' best by (simp add: switch_to_best_def)
  next
    case (Some n)
    then have n: "n < length ?rs" "rn_healthy (?rs ! n)" "\<forall>j < length ?rs. rn_healthy (?rs ! j) \<longrightarrow> latency_key (?rs ! n) \<le> latency_key (?rs ! j)"
      using best by simp_all
    have "n \<noteq> ?i" using n(2) r(1) i by auto
    then have "switched" "fv_relays fv' = ?rs" "fv_active_idx fv' = n" using fv' Some by (simp_all add: switch_to_best_def Let_def)
    moreover have "\<forall>q \<in> set ?rs. rn_healthy q \<longrightarrow> latency_key (?rs ! n) \<le> latency_key q" using n(3) by (metis in_set_conv_nth)
    ultimately show ?thesis using n \<open>n \<noteq> ?i\<close> by (simp add: active_relay_def)
  qed
qed

text \<open>Three relays, the first active.\<close>

definition sample_relay :: "string \<Rightarrow> nat \<Rightarrow> bool \<Rightarrow> nat \<Rightarrow> relay_node" where
  "sample_relay a latency ok fails = \<lparr> rn_addr = a, rn_priority = 0, rn_last_latency = Some latency, rn_last_check = Some 0,
     rn_fail_count = fails, rn_success_streak = 0, rn_healthy = ok \<rparr>"

definition sample_failover :: "relay_node list \<Rightarrow> failover" where
  "sample_failover rs = \<lparr> fv_config = failover_config_default, fv_relays = rs, fv_active_idx = 0, fv_primary_recovered_at = None, fv_events = [] \<rparr>"

lemma failover_picks_best_witness:
  "rn_healthy (the (active_relay (fst (record_check ''r'' None 9
     (sample_failover [sample_relay ''r'' 1000000 True 2, sample_relay ''s'' 5000000 True 0, sample_relay ''t'' 3000000 True 0])))))"
proof -
  let ?fv = "sample_failover [sample_relay ''r'' 1000000 True 2, sample_relay ''s'' 5000000 True 0, sample_relay ''t'' 3000000 True 0]"
  obtain fv' switched where r: "record_check ''r'' None 9 ?fv = (fv', switched)" by (metis surj_pair)
  have c: "relay_index ''r'' (fv_relays ?fv) = Some (fv_active_idx ?fv)" "rn_healthy (fv_relays ?fv ! fv_active_idx ?fv)"
    "fc_fail_threshold (fv_config ?fv) \<le> rn_fail_count (fv_relays ?fv ! fv_active_idx ?fv) + 1"
    by (simp_all add: sample_failover_def sample_relay_def failover_config_default_def)
  have "fv_relays fv' = fv_relays (fst (record_check ''r'' None 9 ?fv))" using r by simp
  then have "\<not> (\<forall>q \<in> set (fv_relays fv'). \<not> rn_healthy q)"
    by (simp add: record_check_relays(1) sample_failover_def sample_relay_def)
  then show ?thesis using failover_picks_best [OF c r] r by auto
qed

text \<open>An active relay that is unhealthy, and checks that do not change that.\<close>

definition dead_active :: "nat \<Rightarrow> failover \<Rightarrow> bool" where
  "dead_active i fv \<longleftrightarrow> fv_active_idx fv = i \<and> i < length (fv_relays fv) \<and> \<not> rn_healthy (fv_relays fv ! i)"

lemma dead_active_check:
  assumes "dead_active i fv" "latency \<noteq> None \<Longrightarrow> relay_index a (fv_relays fv) \<noteq> Some i \<and> relay_index a (fv_relays fv) \<noteq> Some 0"
  shows "dead_active i (fst (record_check a latency now fv))"
proof (cases "relay_index a (fv_relays fv)")
  case None
  then show ?thesis using assms(1) by (simp add: record_check_def)
next
  case (Some j)
  note j = relay_index_SomeD [OF Some]
  obtain r act where c: "check_relay fv j latency now = (r, act)" by (metis surj_pair)
  have d: "fv_active_idx fv = i" "i < length (fv_relays fv)" "\<not> rn_healthy (fv_relays fv ! i)" using assms(1) by (simp_all add: dead_active_def)
  have r: "j = i \<longrightarrow> \<not> rn_healthy r" using c d assms(2) Some by (auto simp: check_relay_def Let_def split: option.splits if_splits)
  have act: "act \<noteq> Act_Switch" "act \<noteq> Act_Primary"
    using c d assms(2) Some by (auto simp: check_relay_def Let_def split: option.splits if_splits)
  have "\<not> rn_healthy ((fv_relays fv)[j := r] ! i)" using r d by (cases "j = i") auto
  then show ?thesis using Some c act d(1,2)
    by (auto simp: record_check_def dead_active_def Let_def split: check_action.split)
qed

lemma dead_active_run:
  "\<lbrakk>dead_active i fv; \<forall>(a, latency, now) \<in> set cs. latency \<noteq> None \<longrightarrow>
      relay_index a (fv_relays fv) \<noteq> Some i \<and> relay_index a (fv_relays fv) \<noteq> Some 0\<rbrakk> \<Longrightarrow> dead_active i (run_checks cs fv)"
proof (induction cs arbitrary: fv)
  case (Cons ev cs)
  obtain a latency now where ev: "ev = (a, latency, now)" by (metis prod_cases3)
  let ?fv = "fst (record_check a latency now fv)"
  have "dead_active i ?fv" using dead_active_check [OF Cons.prems(1), of latency a now] Cons.prems(2) ev by auto
  moreover have "relay_index x (fv_relays ?fv) = relay_index x (fv_relays fv)" for x by (rule relay_index_addrs [OF record_check_addrs])
  ultimately show ?case using Cons.IH [of ?fv] Cons.prems(2) ev by simp
qed simp

text \<open>
  A dead relay stays active: once all relays are down, a backup that recovers is never switched to. As
  long as neither the active relay nor the primary answers, no number of successful checks of the other
  relays changes the active one, however healthy they are.
\<close>

theorem dead_relay_stays_active:
  assumes "active_relay fv = Some r" "\<not> rn_healthy r"
    and "\<forall>(a, latency, now) \<in> set cs. latency \<noteq> None \<longrightarrow>
      relay_index a (fv_relays fv) \<noteq> Some (fv_active_idx fv) \<and> relay_index a (fv_relays fv) \<noteq> Some 0"
  shows "fv_active_idx (run_checks cs fv) = fv_active_idx fv \<and> \<not> rn_healthy (the (active_relay (run_checks cs fv)))"
proof -
  have "dead_active (fv_active_idx fv) fv" using assms(1,2) by (auto simp: dead_active_def active_relay_def split: if_splits)
  from dead_active_run [OF this assms(3)] show ?thesis by (simp add: dead_active_def active_relay_def)
qed

lemma dead_relay_stays_active_witness:
  "let fv = run_checks [(''s'', Some 1, 10), (''s'', Some 1, 20), (''s'', Some 1, 30)]
     (sample_failover [sample_relay ''r'' 1000000 False 3, sample_relay ''s'' 5000000 False 3])
   in health_of fv ''s'' = Healthy \<and> fv_active_idx fv = 0 \<and> \<not> rn_healthy (the (active_relay fv))"
proof -
  let ?fv = "sample_failover [sample_relay ''r'' 1000000 False 3, sample_relay ''s'' 5000000 False 3]"
    and ?cs = "[(''s'', Some 1, 10), (''s'', Some 1, 20), (''s'', Some 1, 30)] :: check list"
  have "health_of (run_checks ?cs ?fv) ''s'' = Healthy"
    by (simp add: sample_failover_def sample_relay_def failover_config_default_def record_check_def check_relay_def Let_def push_event_def health_of_def)
  moreover have "fv_active_idx (run_checks ?cs ?fv) = fv_active_idx ?fv \<and> \<not> rn_healthy (the (active_relay (run_checks ?cs ?fv)))"
    by (rule dead_relay_stays_active [where r = "sample_relay ''r'' 1000000 False 3"])
       (auto simp: active_relay_def sample_failover_def sample_relay_def)
  moreover have "fv_active_idx ?fv = 0" by (simp add: sample_failover_def)
  ultimately show ?thesis unfolding Let_def by simp
qed

end
