(* ===== verification/AbuseGuard.thy ===== *)
theory AbuseGuard
  imports Complex_Main Prelude
begin

text \<open>
  Automatic bans, \<open>ipv8-tunnel/src/abuse_guard.rs\<close>. Instants and durations are integers of nanoseconds. The
  quotients that the code forms in floating point are exact here: rates are whole numbers after the cast, ratios are
  real numbers. Reasons are lists of causes instead of texts. The clock that a new record of statistics reads is an
  argument.
\<close>

section \<open>State\<close>

datatype ban_level = Ban_None | Ban_Warn | Ban_Temp | Ban_Perm

fun ban_rank :: "ban_level \<Rightarrow> nat" where
  "ban_rank Ban_None = 0"
| "ban_rank Ban_Warn = 1"
| "ban_rank Ban_Temp = 2"
| "ban_rank Ban_Perm = 3"

lemma ban_rank_inject [simp]: "ban_rank l = ban_rank l' \<longleftrightarrow> l = l'"
  by (cases l; cases l') simp_all

instantiation ban_level :: linorder
begin

definition less_eq_ban_level :: "ban_level \<Rightarrow> ban_level \<Rightarrow> bool" where
  "less_eq_ban_level l l' \<longleftrightarrow> ban_rank l \<le> ban_rank l'"

definition less_ban_level :: "ban_level \<Rightarrow> ban_level \<Rightarrow> bool" where
  "less_ban_level l l' \<longleftrightarrow> ban_rank l < ban_rank l'"

instance
  by standard (auto simp: less_eq_ban_level_def less_ban_level_def)

end

datatype cause = Rate_Ban | Rate_Warn | Bytes_Ban | Small_Packets | Conn_Failures nat nat | Manual string

record node_stats =
  ns_pkt_buckets :: "(int \<times> nat) list"
  ns_byte_buckets :: "(int \<times> nat) list"
  ns_conn_failures :: nat
  ns_conn_successes :: nat
  ns_strikes :: nat
  ns_ban_count :: nat
  ns_ban_level :: ban_level
  ns_banned_at :: "int option"
  ns_ban_duration :: "int option"
  ns_last_active :: int
  ns_last_ban_reason :: "cause list"

definition node_stats_default :: "int \<Rightarrow> node_stats" where
  "node_stats_default clock = \<lparr> ns_pkt_buckets = [], ns_byte_buckets = [], ns_conn_failures = 0, ns_conn_successes = 0,
     ns_strikes = 0, ns_ban_count = 0, ns_ban_level = Ban_None, ns_banned_at = None, ns_ban_duration = None,
     ns_last_active = clock, ns_last_ban_reason = [] \<rparr>"

record abuse_config =
  ac_window :: int
  ac_pps_warn :: nat
  ac_pps_ban :: nat
  ac_bps_ban :: nat
  ac_failure_rate_threshold :: real
  ac_min_attempts :: nat
  ac_warn_to_ban_strikes :: nat
  ac_temp_to_perm_strikes :: nat
  ac_temp_ban_duration :: int
  ac_small_pkt_size :: nat
  ac_small_pkt_ratio :: real

definition abuse_config_default :: abuse_config where
  "abuse_config_default = \<lparr> ac_window = 10 * 10 ^ 9, ac_pps_warn = 500, ac_pps_ban = 2000, ac_bps_ban = 10000000,
     ac_failure_rate_threshold = 8 / 10, ac_min_attempts = 10, ac_warn_to_ban_strikes = 3, ac_temp_to_perm_strikes = 3,
     ac_temp_ban_duration = 300 * 10 ^ 9, ac_small_pkt_size = 64, ac_small_pkt_ratio = 9 / 10 \<rparr>"

datatype detection = Normal | Det_Warn "cause list" | Det_Ban ban_level "cause list" "int option"

record abuse_guard =
  ag_config :: abuse_config
  ag_nodes :: "(string \<times> node_stats) list"
  ag_blacklist :: "string list"

definition abuse_guard_new :: "abuse_config \<Rightarrow> abuse_guard" where
  "abuse_guard_new config = \<lparr> ag_config = config, ag_nodes = [], ag_blacklist = [] \<rparr>"

definition is_banned :: "abuse_guard \<Rightarrow> string \<Rightarrow> bool" where
  "is_banned g node \<longleftrightarrow> node \<in> set (ag_blacklist g)
     \<or> (case map_of (ag_nodes g) node of Some s \<Rightarrow> ns_ban_level s = Ban_Temp \<or> ns_ban_level s = Ban_Perm | None \<Rightarrow> False)"

definition ban_info :: "abuse_guard \<Rightarrow> string \<Rightarrow> (ban_level \<times> int option \<times> cause list) option" where
  "ban_info g node = map_option (\<lambda>s. (ns_ban_level s, ns_ban_duration s, ns_last_ban_reason s)) (map_of (ag_nodes g) node)"

section \<open>Packets and connections\<close>

text \<open>\<open>duration_since\<close> of two instants, which is never negative.\<close>

definition since :: "int \<Rightarrow> int \<Rightarrow> int" where
  "since now t = max 0 (now - t)"

definition push_bucket :: "int \<Rightarrow> nat \<Rightarrow> int \<Rightarrow> (int \<times> nat) list \<Rightarrow> (int \<times> nat) list" where
  "push_bucket now val window buckets = filter (\<lambda>(t, _). t > now - window) (buckets @ [(now, val)])"

definition sum_buckets :: "int \<Rightarrow> int \<Rightarrow> (int \<times> nat) list \<Rightarrow> nat" where
  "sum_buckets now window buckets = sum_list (map snd (filter (\<lambda>(t, _). t > now - window) buckets))"

text \<open>A count in the window as a rate per second, cast to an integer.\<close>

definition rate :: "nat \<Rightarrow> int \<Rightarrow> nat" where
  "rate n window = nat (int n * 10 ^ 9 div window)"

definition stats_of :: "int \<Rightarrow> string \<Rightarrow> abuse_guard \<Rightarrow> node_stats" where
  "stats_of clock node g = (case map_of (ag_nodes g) node of Some s \<Rightarrow> s | None \<Rightarrow> node_stats_default clock)"

definition put_stats :: "string \<Rightarrow> node_stats \<Rightarrow> abuse_guard \<Rightarrow> abuse_guard" where
  "put_stats node s g = g\<lparr> ag_nodes := AList.update node s (ag_nodes g) \<rparr>"

text \<open>A temporary ban that still holds, or the statistics after it has ended.\<close>

definition check_ban :: "int \<Rightarrow> node_stats \<Rightarrow> node_stats \<times> bool" where
  "check_ban now s = (
     if ns_ban_level s = Ban_Temp then
       (case (ns_banned_at s, ns_ban_duration s) of
          (Some start, Some dur) \<Rightarrow>
            if since now start \<ge> dur
            then (s\<lparr> ns_ban_level := Ban_None, ns_banned_at := None, ns_ban_duration := None, ns_strikes := 0 \<rparr>, False)
            else (s, True)
        | _ \<Rightarrow> (s, False))
     else (s, False))"

text \<open>The share of small packets that the code computes for the current packet.\<close>

definition small_ratio :: "abuse_config \<Rightarrow> int \<Rightarrow> nat \<Rightarrow> node_stats \<Rightarrow> real" where
  "small_ratio c now pkt_size s = (
     if pkt_size < ac_small_pkt_size c then
       let small_count = length (filter (\<lambda>(t, _). since now t < ac_window c) (ns_pkt_buckets s));
           tot = length (filter (\<lambda>(t, _). since now t < ac_window c) (ns_pkt_buckets s))
       in if tot > 0 then real small_count / real tot else 0
     else 0)"

definition detect :: "abuse_config \<Rightarrow> int \<Rightarrow> nat \<Rightarrow> node_stats \<Rightarrow> cause list" where
  "detect c now pkt_size s = (
     let pps = sum_buckets now (ac_window c) (ns_pkt_buckets s); bps = sum_buckets now (ac_window c) (ns_byte_buckets s)
     in (if rate pps (ac_window c) \<ge> ac_pps_ban c then [Rate_Ban]
         else if rate pps (ac_window c) \<ge> ac_pps_warn c then [Rate_Warn] else [])
        @ (if rate bps (ac_window c) \<ge> ac_bps_ban c then [Bytes_Ban] else [])
        @ (if small_ratio c now pkt_size s > ac_small_pkt_ratio c \<and> pps > 100 then [Small_Packets] else []))"

text \<open>The ban that the strikes and the earlier bans call for.\<close>

definition escalate :: "abuse_config \<Rightarrow> int \<Rightarrow> cause list \<Rightarrow> node_stats \<Rightarrow> node_stats \<times> ban_level option" where
  "escalate c now reason s = (
     if ns_ban_count s + 1 \<ge> ac_temp_to_perm_strikes c
     then (s\<lparr> ns_ban_count := ns_ban_count s + 1, ns_ban_level := Ban_Perm, ns_banned_at := Some now, ns_ban_duration := None,
              ns_last_ban_reason := reason \<rparr>, Some Ban_Perm)
     else if ns_strikes s \<ge> ac_warn_to_ban_strikes c
     then (s\<lparr> ns_ban_count := ns_ban_count s + 1, ns_ban_level := Ban_Temp, ns_banned_at := Some now,
              ns_ban_duration := Some (ac_temp_ban_duration c), ns_last_ban_reason := reason \<rparr>, Some Ban_Temp)
     else (s, None))"

definition blacklist_if :: "bool \<Rightarrow> string \<Rightarrow> abuse_guard \<Rightarrow> abuse_guard" where
  "blacklist_if b node g = (if b then g\<lparr> ag_blacklist := ag_blacklist g @ [node] \<rparr> else g)"

definition record_packet :: "string \<Rightarrow> nat \<Rightarrow> int \<Rightarrow> abuse_guard \<Rightarrow> abuse_guard \<times> detection" where
  "record_packet node pkt_size now g = (
     let c = ag_config g; s = (stats_of now node g)\<lparr> ns_last_active := now \<rparr>
     in case check_ban now s of
          (s, True) \<Rightarrow> (put_stats node s g, Det_Ban Ban_Temp (ns_last_ban_reason s) (ns_ban_duration s))
        | (s, False) \<Rightarrow>
            if ns_ban_level s = Ban_Perm then (put_stats node s g, Det_Ban Ban_Perm (ns_last_ban_reason s) None)
            else
              let s = s\<lparr> ns_pkt_buckets := push_bucket now 1 (ac_window c) (ns_pkt_buckets s),
                    ns_byte_buckets := push_bucket now pkt_size (ac_window c) (ns_byte_buckets s) \<rparr>;
                  detected = detect c now pkt_size s
              in if detected = [] then (put_stats node s g, Normal)
                 else case escalate c now detected (s\<lparr> ns_strikes := ns_strikes s + 1 \<rparr>) of
                     (s, Some Ban_Perm) \<Rightarrow> (blacklist_if True node (put_stats node s g), Det_Ban Ban_Perm detected None)
                   | (s, Some level) \<Rightarrow> (put_stats node s g, Det_Ban level detected (Some (ac_temp_ban_duration c)))
                   | (s, None) \<Rightarrow> (put_stats node (s\<lparr> ns_last_ban_reason := detected \<rparr>) g, Det_Warn detected))"

definition record_conn_result :: "string \<Rightarrow> bool \<Rightarrow> int \<Rightarrow> abuse_guard \<Rightarrow> abuse_guard" where
  "record_conn_result node success now g = (
     let c = ag_config g; s = (stats_of now node g)\<lparr> ns_last_active := now \<rparr>;
         s = (if success then s\<lparr> ns_conn_successes := ns_conn_successes s + 1 \<rparr> else s\<lparr> ns_conn_failures := ns_conn_failures s + 1 \<rparr>);
         tot = ns_conn_failures s + ns_conn_successes s
     in if tot \<ge> ac_min_attempts c \<and> real (ns_conn_failures s) / real tot > ac_failure_rate_threshold c
        then case escalate c now [Conn_Failures (ns_conn_failures s) tot] (s\<lparr> ns_strikes := ns_strikes s + 1 \<rparr>) of
            (s, level) \<Rightarrow> blacklist_if (level = Some Ban_Perm) node (put_stats node s g)
        else put_stats node s g)"

section \<open>Administration\<close>

definition ban :: "string \<Rightarrow> ban_level \<Rightarrow> string \<Rightarrow> int \<Rightarrow> int \<Rightarrow> abuse_guard \<Rightarrow> abuse_guard" where
  "ban node level reason clock now g = (
     let s = stats_of clock node g;
         s = s\<lparr> ns_ban_level := level, ns_banned_at := Some now,
               ns_ban_duration := (if level = Ban_Temp then Some (ac_temp_ban_duration (ag_config g)) else None),
               ns_last_ban_reason := [Manual reason] \<rparr>
     in blacklist_if (level = Ban_Perm \<and> node \<notin> set (ag_blacklist g)) node (put_stats node s g))"

definition unban :: "string \<Rightarrow> abuse_guard \<Rightarrow> abuse_guard \<times> bool" where
  "unban node g = (
     let g = g\<lparr> ag_blacklist := filter (\<lambda>n. n \<noteq> node) (ag_blacklist g) \<rparr>
     in case map_of (ag_nodes g) node of
          Some s \<Rightarrow> (put_stats node (s\<lparr> ns_ban_level := Ban_None, ns_banned_at := None, ns_ban_duration := None, ns_strikes := 0 \<rparr>) g,
                     ns_ban_level s \<ge> Ban_Temp)
        | None \<Rightarrow> (g, False))"

definition monitored_nodes :: "abuse_guard \<Rightarrow> string list" where
  "monitored_nodes g = map fst (ag_nodes g)"

definition abuse_gc :: "int \<Rightarrow> int \<Rightarrow> abuse_guard \<Rightarrow> abuse_guard" where
  "abuse_gc max_idle now g = g\<lparr> ag_nodes := filter (\<lambda>(_, s). ns_ban_level s = Ban_Perm \<or> since now (ns_last_active s) < max_idle) (ag_nodes g) \<rparr>"

record abuse_stats =
  as_monitored :: nat
  as_banned :: nat
  as_permanent :: nat
  as_warned :: nat

definition abuse_stats_of :: "abuse_guard \<Rightarrow> abuse_stats" where
  "abuse_stats_of g = \<lparr> as_monitored = length (ag_nodes g),
     as_banned = length (filter (\<lambda>(_, s). ns_ban_level s \<ge> Ban_Temp) (ag_nodes g)),
     as_permanent = length (ag_blacklist g),
     as_warned = length (filter (\<lambda>(_, s). ns_ban_level s = Ban_Warn) (ag_nodes g)) \<rparr>"

section \<open>Bans that last\<close>

datatype guard_op =
    Op_Packet string nat int
  | Op_Conn string bool int
  | Op_Ban string ban_level string int int
  | Op_Unban string
  | Op_Gc int int

fun guard_step :: "guard_op \<Rightarrow> abuse_guard \<Rightarrow> abuse_guard" where
  "guard_step (Op_Packet node len now) g = fst (record_packet node len now g)"
| "guard_step (Op_Conn node success now) g = record_conn_result node success now g"
| "guard_step (Op_Ban node level reason clock now) g = ban node level reason clock now g"
| "guard_step (Op_Unban node) g = fst (unban node g)"
| "guard_step (Op_Gc idle now) g = abuse_gc idle now g"

definition guard_run :: "guard_op list \<Rightarrow> abuse_guard \<Rightarrow> abuse_guard" where
  "guard_run ops g = fold guard_step ops g"

text \<open>Every permanent ban is on the blacklist, every temporary one has its times.\<close>

definition stats_ok :: "abuse_guard \<Rightarrow> string \<Rightarrow> node_stats \<Rightarrow> bool" where
  "stats_ok g node s \<longleftrightarrow> (ns_ban_level s = Ban_Perm \<longrightarrow> node \<in> set (ag_blacklist g))
     \<and> (ns_ban_level s = Ban_Temp \<longrightarrow> ns_banned_at s \<noteq> None \<and> ns_ban_duration s \<noteq> None)"

definition guard_inv :: "abuse_guard \<Rightarrow> bool" where
  "guard_inv g \<longleftrightarrow> (\<forall>node s. map_of (ag_nodes g) node = Some s \<longrightarrow> stats_ok g node s)"

lemma put_stats_simps [simp]:
  "ag_blacklist (put_stats node s g) = ag_blacklist g" "ag_config (put_stats node s g) = ag_config g"
  "map_of (ag_nodes (put_stats node s g)) = (map_of (ag_nodes g))(node \<mapsto> s)"
  by (simp_all add: put_stats_def update_conv')

lemma blacklist_if_simps [simp]:
  "ag_nodes (blacklist_if b node g) = ag_nodes g" "ag_config (blacklist_if b node g) = ag_config g"
  "set (ag_blacklist (blacklist_if b node g)) = (if b then insert node (set (ag_blacklist g)) else set (ag_blacklist g))"
  by (simp_all add: blacklist_if_def)

lemma guard_inv_put:
  assumes "guard_inv g" "stats_ok (blacklist_if b node g) node s"
  shows "guard_inv (blacklist_if b node (put_stats node s g))"
  using assms by (auto simp: guard_inv_def stats_ok_def split: if_splits)

lemma guard_inv_put0: "guard_inv g \<Longrightarrow> stats_ok g node s \<Longrightarrow> guard_inv (put_stats node s g)"
  using guard_inv_put [of g False node s] by (simp add: blacklist_if_def)

lemma stats_of_ok: "guard_inv g \<Longrightarrow> stats_ok g node ((stats_of now node g)\<lparr> ns_last_active := t \<rparr>)"
  by (auto simp: stats_of_def guard_inv_def stats_ok_def node_stats_default_def split: option.split)

lemma check_ban_ok: "stats_ok g node s \<Longrightarrow> stats_ok g node (fst (check_ban now s))"
  by (auto simp: check_ban_def stats_ok_def split: option.splits)

lemma check_ban_level: "stats_ok g node s \<Longrightarrow> check_ban now s = (s', False) \<Longrightarrow> ns_ban_level s' \<noteq> Ban_Temp"
  by (auto simp: check_ban_def stats_ok_def split: option.splits if_splits)

lemma escalate_ok:
  assumes "stats_ok g node s" "escalate c now reason s = (s', level)"
  shows "stats_ok (blacklist_if (level = Some Ban_Perm) node g) node s'" "level = None \<or> level = Some Ban_Temp \<or> level = Some Ban_Perm"
  using assms by (auto simp: escalate_def stats_ok_def split: if_splits)

lemma record_packet_inv:
  assumes "guard_inv g"
  shows "guard_inv (fst (record_packet node len now g))"
proof -
  let ?c = "ag_config g" and ?s = "(stats_of now node g)\<lparr> ns_last_active := now \<rparr>"
  obtain s1 b where c: "check_ban now ?s = (s1, b)" by (metis surj_pair)
  have ok: "stats_ok g node s1" using check_ban_ok [OF stats_of_ok [OF assms], of node now now now] c by simp
  let ?s2 = "s1\<lparr> ns_pkt_buckets := push_bucket now 1 (ac_window ?c) (ns_pkt_buckets s1),
      ns_byte_buckets := push_bucket now len (ac_window ?c) (ns_byte_buckets s1) \<rparr>"
  let ?d = "detect ?c now len ?s2"
  obtain s3 level where e: "escalate ?c now ?d (?s2\<lparr> ns_strikes := ns_strikes ?s2 + 1 \<rparr>) = (s3, level)" by (metis surj_pair)
  have ok2: "stats_ok g node ?s2" "stats_ok g node (?s2\<lparr> ns_strikes := ns_strikes ?s2 + 1 \<rparr>)" using ok by (simp_all add: stats_ok_def)
  note e3 = escalate_ok [OF ok2(2) e]
  have ok3: "stats_ok (blacklist_if (level = Some Ban_Perm) node g) node (s3\<lparr> ns_last_ban_reason := ?d \<rparr>)"
    using e3(1) by (simp add: stats_ok_def)
  show ?thesis
    using c e guard_inv_put0 [OF assms ok] guard_inv_put0 [OF assms ok2(1)] guard_inv_put [OF assms e3(1)] guard_inv_put [OF assms ok3] e3(2)
    by (cases b) (auto simp: record_packet_def Let_def blacklist_if_def split: ban_level.splits)
qed

lemma record_conn_result_inv:
  assumes "guard_inv g"
  shows "guard_inv (record_conn_result node success now g)"
proof -
  let ?c = "ag_config g" and ?sa = "(stats_of now node g)\<lparr> ns_last_active := now \<rparr>"
  define s where "s = (if success then ?sa\<lparr> ns_conn_successes := ns_conn_successes ?sa + 1 \<rparr> else ?sa\<lparr> ns_conn_failures := ns_conn_failures ?sa + 1 \<rparr>)"
  let ?tot = "ns_conn_failures s + ns_conn_successes s"
  have ok: "stats_ok g node s" "stats_ok g node (s\<lparr> ns_strikes := ns_strikes s + 1 \<rparr>)"
    using stats_of_ok [OF assms, of node now now] by (simp_all add: s_def stats_ok_def)
  obtain s3 level where e: "escalate ?c now [Conn_Failures (ns_conn_failures s) ?tot] (s\<lparr> ns_strikes := ns_strikes s + 1 \<rparr>) = (s3, level)"
    by (metis surj_pair)
  have eq: "record_conn_result node success now g =
      (if ?tot \<ge> ac_min_attempts ?c \<and> real (ns_conn_failures s) / real ?tot > ac_failure_rate_threshold ?c
       then blacklist_if (level = Some Ban_Perm) node (put_stats node s3 g) else put_stats node s g)"
    using e unfolding record_conn_result_def Let_def s_def by simp
  show ?thesis
    unfolding eq using guard_inv_put0 [OF assms ok(1)] guard_inv_put [OF assms escalate_ok(1) [OF ok(2) e]] by simp
qed

lemma ban_inv: "guard_inv g \<Longrightarrow> guard_inv (ban node level reason clock now g)"
  unfolding ban_def Let_def by (rule guard_inv_put) (auto simp: stats_ok_def)

lemma unban_inv: "guard_inv g \<Longrightarrow> guard_inv (fst (unban node g))"
  by (cases "map_of (ag_nodes g) node") (auto simp: unban_def Let_def guard_inv_def stats_ok_def split: if_splits)

lemma gc_inv:
  assumes "guard_inv g" "distinct (map fst (ag_nodes g))"
  shows "guard_inv (abuse_gc idle now g)"
proof -
  have "map_of (ag_nodes g) node = Some s" if "map_of (ag_nodes (abuse_gc idle now g)) node = Some s" for node s
    using that assms(2) by (auto simp: abuse_gc_def dest!: map_of_SomeD)
  then show ?thesis using assms(1) by (fastforce simp: guard_inv_def stats_ok_def abuse_gc_def)
qed

lemma guard_step_keys:
  assumes "distinct (map fst (ag_nodes g))"
  shows "distinct (map fst (ag_nodes (guard_step op g)))"
proof -
  have put: "distinct (map fst (ag_nodes (put_stats node s g')))" if "ag_nodes g' = ag_nodes g" for node s g'
    using that assms by (simp add: put_stats_def distinct_update)
  then have put0: "distinct (map fst (ag_nodes (put_stats node s g)))" for node s by simp
  show ?thesis
  proof (cases op)
    case (Op_Packet node len now)
    then show ?thesis using put0 by (simp add: record_packet_def Let_def blacklist_if_def split: prod.split bool.split option.split ban_level.split)
  next
    case (Op_Gc idle now)
    then show ?thesis using assms by (simp add: abuse_gc_def distinct_map_filter)
  qed (use put put0 assms in \<open>auto simp: record_conn_result_def ban_def unban_def Let_def split: prod.split option.split\<close>)
qed

lemma guard_run_inv: "guard_inv g \<Longrightarrow> distinct (map fst (ag_nodes g)) \<Longrightarrow> guard_inv (guard_run ops g) \<and> distinct (map fst (ag_nodes (guard_run ops g)))"
proof (induction ops arbitrary: g)
  case (Cons op ops)
  have "guard_inv (guard_step op g)"
    using Cons.prems record_packet_inv record_conn_result_inv ban_inv unban_inv gc_inv by (cases op) simp_all
  then show ?case using Cons.IH [of "guard_step op g"] guard_step_keys [OF Cons.prems(2)] by (simp add: guard_run_def)
qed (simp add: guard_run_def)

lemma guard_step_blacklist: "node \<in> set (ag_blacklist g) \<Longrightarrow> op \<noteq> Op_Unban node \<Longrightarrow> node \<in> set (ag_blacklist (guard_step op g))"
  by (cases op) (auto simp: record_packet_def record_conn_result_def ban_def unban_def abuse_gc_def Let_def blacklist_if_def
      split: prod.split bool.split option.split ban_level.split)

lemma guard_run_blacklist: "node \<in> set (ag_blacklist g) \<Longrightarrow> Op_Unban node \<notin> set ops \<Longrightarrow> node \<in> set (ag_blacklist (guard_run ops g))"
  by (induction ops arbitrary: g) (auto simp: guard_run_def guard_step_blacklist)

text \<open>
  A permanent ban lasts: whatever happened to bring it about, by packets, failed connections or an
  administrator, a node whose level is permanent stays banned through every sequence of packets, connection results,
  other bans and clean-ups, until that node is unbanned.
\<close>

theorem permanent_ban_lasts:
  assumes "ban_info (guard_run ops (abuse_guard_new c)) node = Some (Ban_Perm, dur, reason)" "Op_Unban node \<notin> set later"
  shows "is_banned (guard_run later (guard_run ops (abuse_guard_new c))) node"
proof -
  let ?g = "guard_run ops (abuse_guard_new c)"
  have "guard_inv ?g" using guard_run_inv [of "abuse_guard_new c" ops] by (simp add: guard_inv_def abuse_guard_new_def)
  then have "node \<in> set (ag_blacklist ?g)" using assms(1) by (auto simp: ban_info_def guard_inv_def stats_ok_def)
  then show ?thesis using guard_run_blacklist assms(2) by (simp add: is_banned_def)
qed

lemma permanent_ban_lasts_witness:
  "is_banned (guard_run [Op_Gc 5 1000, Op_Ban ''n'' Ban_None ''x'' 7 7, Op_Conn ''n'' True 9]
     (guard_run [Op_Ban ''n'' Ban_Perm ''abuse'' 1 1] (abuse_guard_new abuse_config_default))) ''n''"
  by (rule permanent_ban_lasts [where dur = None and reason = "[Manual ''abuse'']"])
     (simp_all add: guard_run_def ban_def ban_info_def blacklist_if_def abuse_guard_new_def stats_of_def put_stats_def node_stats_default_def Let_def)

section \<open>What goes wrong\<close>

text \<open>
  The share of small packets is always one: once more than a hundred packets of a node are in the window, a single
  packet below the small size is held to be a flood of small packets and counts as a strike, however large all the
  other packets were.
\<close>

theorem one_small_packet_is_flagged:
  assumes "map_of (ag_nodes g) node = Some s" "ns_ban_level s < Ban_Temp" "0 < ac_window (ag_config g)" "ac_small_pkt_ratio (ag_config g) < 1"
    and "100 \<le> length (filter (\<lambda>(t, n). 0 < n \<and> now - ac_window (ag_config g) < t) (ns_pkt_buckets s))"
    and "size_small < ac_small_pkt_size (ag_config g)"
  shows "\<exists>causes. Small_Packets \<in> set causes \<and> (snd (record_packet node size_small now g) = Det_Warn causes
    \<or> (\<exists>level dur. snd (record_packet node size_small now g) = Det_Ban level causes dur))"
proof -
  let ?c = "ag_config g" and ?w = "ac_window (ag_config g)" and ?sa = "s\<lparr> ns_last_active := now \<rparr>"
  let ?s = "?sa\<lparr> ns_pkt_buckets := push_bucket now 1 ?w (ns_pkt_buckets ?sa), ns_byte_buckets := push_bucket now size_small ?w (ns_byte_buckets ?sa) \<rparr>"
  have level: "ns_ban_level s \<noteq> Ban_Temp" "ns_ban_level s \<noteq> Ban_Perm" using assms(2) by (auto simp: less_ban_level_def)
  have big: "length (filter (\<lambda>(t, n). 0 < n \<and> now - ?w < t) bs) \<le> sum_list (map snd (filter (\<lambda>(t, _). now - ?w < t) bs))" for bs
    by (induction bs) auto
  have buckets: "ns_pkt_buckets ?s = filter (\<lambda>(t, _). now - ?w < t) (ns_pkt_buckets s) @ [(now, 1)]"
    using assms(3) by (simp add: push_bucket_def)
  have "100 \<le> sum_list (map snd (filter (\<lambda>(t, _). now - ?w < t) (ns_pkt_buckets s)))" using big [of "ns_pkt_buckets s"] assms(5) by simp
  then have pps: "100 < sum_buckets now ?w (ns_pkt_buckets ?s)" using assms(3) unfolding sum_buckets_def buckets by (simp add: case_prod_unfold)
  have "(now, 1) \<in> set (filter (\<lambda>(t, _). since now t < ?w) (ns_pkt_buckets ?s))" unfolding buckets using assms(3) by (simp add: since_def)
  then have "filter (\<lambda>(t, _). since now t < ?w) (ns_pkt_buckets ?s) \<noteq> []" by (metis list.set(1) empty_iff)
  then have "small_ratio ?c now size_small ?s = 1" using assms(6) by (simp add: small_ratio_def Let_def)
  then have d: "Small_Packets \<in> set (detect ?c now size_small ?s)" using pps assms(4) by (simp add: detect_def Let_def)
  obtain s3 level where e: "escalate ?c now (detect ?c now size_small ?s) (?s\<lparr> ns_strikes := ns_strikes ?s + 1 \<rparr>) = (s3, level)" by (metis surj_pair)
  have "check_ban now ?sa = (?sa, False)" using level by (simp add: check_ban_def)
  then have "snd (record_packet node size_small now g) = (case level of Some Ban_Perm \<Rightarrow> Det_Ban Ban_Perm (detect ?c now size_small ?s) None
      | Some l \<Rightarrow> Det_Ban l (detect ?c now size_small ?s) (Some (ac_temp_ban_duration ?c)) | None \<Rightarrow> Det_Warn (detect ?c now size_small ?s))"
    using assms(1) level e d by (auto simp: record_packet_def stats_of_def Let_def split: option.split ban_level.split)
  then show ?thesis using d by (auto split: option.split ban_level.split)
qed

lemma one_small_packet_is_flagged_witness:
  "\<exists>causes. snd (record_packet ''n'' 40 6 (put_stats ''n'' ((node_stats_default 5)\<lparr> ns_pkt_buckets := replicate 100 (5, 1),
     ns_byte_buckets := replicate 100 (5, 1500) \<rparr>) (abuse_guard_new abuse_config_default))) = Det_Warn causes \<and> Small_Packets \<in> set causes"
proof -
  let ?s = "(node_stats_default 5)\<lparr> ns_pkt_buckets := replicate 100 (5, 1), ns_byte_buckets := replicate 100 (5, 1500) \<rparr>"
  let ?g = "put_stats ''n'' ?s (abuse_guard_new abuse_config_default)"
  have "\<exists>causes. Small_Packets \<in> set causes \<and> (snd (record_packet ''n'' 40 6 ?g) = Det_Warn causes
      \<or> (\<exists>level dur. snd (record_packet ''n'' 40 6 ?g) = Det_Ban level causes dur))"
    by (rule one_small_packet_is_flagged [where s = ?s])
       (simp_all add: abuse_guard_new_def abuse_config_default_def node_stats_default_def less_ban_level_def filter_replicate)
  moreover have "snd (record_packet ''n'' 40 6 ?g) \<noteq> Det_Ban level causes dur" for level causes dur
    by (simp add: record_packet_def stats_of_def check_ban_def escalate_def node_stats_default_def abuse_guard_new_def abuse_config_default_def Let_def)
  ultimately show ?thesis by metis
qed

lemma failed_conn_blacklists:
  assumes "map_of (ag_nodes g) node = Some s" "ns_conn_successes s = 0" "ac_min_attempts (ag_config g) \<le> ns_conn_failures s + 1"
    and "ac_failure_rate_threshold (ag_config g) < 1" "ac_temp_to_perm_strikes (ag_config g) \<le> ns_ban_count s + 1"
  shows "\<exists>s'. record_conn_result node False now g = blacklist_if True node (put_stats node s' g) \<and> ns_conn_successes s' = 0
    \<and> ns_conn_failures s' = ns_conn_failures s + 1 \<and> ns_ban_count s' = ns_ban_count s + 1"
  using assms by (simp add: record_conn_result_def stats_of_def escalate_def Let_def) (rule exI, rule conjI, rule refl, simp)

text \<open>
  The blacklist grows without bound: a node that only fails to connect is entered once more at every further failed
  attempt after it has been banned for good.
\<close>

theorem blacklist_grows:
  assumes "map_of (ag_nodes g) node = Some s" "ns_conn_successes s = 0" "ac_min_attempts (ag_config g) \<le> ns_conn_failures s + 1"
    and "ac_failure_rate_threshold (ag_config g) < 1" "ac_temp_to_perm_strikes (ag_config g) \<le> ns_ban_count s + 1"
  shows "ag_blacklist (guard_run (map (Op_Conn node False) ts) g) = ag_blacklist g @ replicate (length ts) node"
  using assms
proof (induction ts arbitrary: g s)
  case (Cons t ts)
  obtain s' where s': "record_conn_result node False t g = blacklist_if True node (put_stats node s' g)" "ns_conn_successes s' = 0"
    "ns_conn_failures s' = ns_conn_failures s + 1" "ns_ban_count s' = ns_ban_count s + 1"
    using failed_conn_blacklists [OF Cons.prems] by blast
  let ?g = "blacklist_if True node (put_stats node s' g)"
  have "ag_blacklist (guard_run (map (Op_Conn node False) ts) ?g) = ag_blacklist ?g @ replicate (length ts) node"
    by (rule Cons.IH [where s = s']) (use s'(2-4) Cons.prems in simp_all)
  then show ?case using s'(1) by (simp add: guard_run_def blacklist_if_def replicate_append_same)
qed (simp add: guard_run_def)

lemma blacklist_grows_witness:
  "ag_blacklist (guard_run (map (Op_Conn ''n'' False) [1, 2, 3]) (put_stats ''n'' ((node_stats_default 0)\<lparr> ns_conn_failures := 9, ns_ban_count := 2 \<rparr>)
     (abuse_guard_new abuse_config_default))) = [''n'', ''n'', ''n'']"
proof -
  let ?s = "(node_stats_default 0)\<lparr> ns_conn_failures := 9, ns_ban_count := 2 \<rparr>"
  let ?g = "put_stats ''n'' ?s (abuse_guard_new abuse_config_default)"
  have "ag_blacklist (guard_run (map (Op_Conn ''n'' False) [1, 2, 3]) ?g) = ag_blacklist ?g @ replicate (length [1 :: int, 2, 3]) ''n''"
    using blacklist_grows [where g = ?g and node = "''n''" and s = ?s and ts = "[1, 2, 3]"]
    by (simp add: abuse_guard_new_def abuse_config_default_def node_stats_default_def del: list.map)
  then show ?thesis by (simp add: abuse_guard_new_def)
qed

end
