(* ===== verification/ObserveWindow.thy ===== *)
theory ObserveWindow
  imports TunnelFrame
begin

text \<open>
  Metering the received Data frames, \<open>ipv8-observe/src/window.rs\<close>: what the observer reads off a
  sealed frame (\<open>frame_meta\<close>), the counter window of one key id, the windows of all key ids and the
  state of one path. Proved: the observer reads the same key id and counter that the tunnel opens the frame
  under, a window counts the span of the counters and the distinct frames exactly as long as frames are at most
  127 late and jump at most 4096 ahead, and the two ways the totals go wrong. Milliseconds are 64-bit words.
\<close>

section \<open>Reading a sealed frame\<close>

definition WINDOW_BITS :: u64 where [const_defs]: "WINDOW_BITS = 128"
definition JUMP_GUARD :: u64 where [const_defs]: "JUMP_GUARD = 4096"
definition MAX_SAS :: nat where [const_defs]: "MAX_SAS = 8"
definition OBS_MIN_FRAME :: nat where [const_defs]: "OBS_MIN_FRAME = 74"
definition OBS_HEADER_LEN :: nat where [const_defs]: "OBS_HEADER_LEN = 10"
definition OBS_DATA_TYPE :: u8 where [const_defs]: "OBS_DATA_TYPE = 2"

text \<open>The loop over the extension chain with its variables \<open>cursor\<close>, \<open>cur_type\<close> and \<open>seen\<close>.\<close>

function plain_loop :: "bytes \<Rightarrow> u8 \<Rightarrow> u8 list \<Rightarrow> nat \<Rightarrow> nat option" where
  "plain_loop body cur_type seen cursor = (
     if cursor + 2 > length body \<or> cur_type \<in> set seen then None
     else
       let ptr_next = body ! cursor; ext_len = body ! (cursor + 1)
       in if ext_len = 0 then None
          else if cursor + (2 + unat ext_len * 8) > length body then None
          else if ptr_next = 0 then Some (cursor + (2 + unat ext_len * 8))
          else plain_loop body ptr_next (cur_type # seen) (cursor + (2 + unat ext_len * 8)))"
  by pat_completeness auto
termination by (relation "measure (\<lambda>(body, _, _, cursor). length body - cursor)") auto

declare plain_loop.simps [simp del]

definition plain_segment_len :: "bytes \<Rightarrow> nat option" where
  "plain_segment_len body = (
     if length body < BASE_HEADER_SIZE then None
     else if body ! 6 = 0 then Some BASE_HEADER_SIZE
     else plain_loop body (body ! 6) [] BASE_HEADER_SIZE)"

definition frame_meta :: "bytes \<Rightarrow> (u64 \<times> u64) option" where
  "frame_meta frame = (
     if length frame < OBS_MIN_FRAME \<or> frame ! 0 \<noteq> TUNNEL_VERSION \<or> frame ! 1 \<noteq> OBS_DATA_TYPE then None
     else case plain_segment_len (drop OBS_HEADER_LEN frame) of
       None \<Rightarrow> None
     | Some plain_len \<Rightarrow>
         let off = OBS_HEADER_LEN + plain_len
         in if off + 8 > length frame then None
            else Some (from_be (slice 2 OBS_HEADER_LEN frame), from_be (slice off (off + 8) frame)))"

section \<open>One window\<close>

record path_counters =
  pc_expected :: u64
  pc_seen :: u64
  pc_dup :: u64
  pc_resets :: u32
  pc_last_recv_age_ms :: u32

definition path_counters_default :: path_counters where
  "path_counters_default = \<lparr> pc_expected = 0, pc_seen = 0, pc_dup = 0, pc_resets = 0, pc_last_recv_age_ms = - 1 \<rparr>"

definition sat_add32 :: "u32 \<Rightarrow> u32 \<Rightarrow> u32" where
  "sat_add32 a b = (if unat a + unat b < 2 ^ 32 then a + b else - 1)"

record counter_window =
  cw_top :: u64
  cw_mask :: u128
  cw_expected :: u64
  cw_seen :: u64
  cw_dup :: u64
  cw_resets :: u32

definition cw_first :: "u64 \<Rightarrow> counter_window" where
  "cw_first c = \<lparr> cw_top = c, cw_mask = 1, cw_expected = 1, cw_seen = 1, cw_dup = 0, cw_resets = 0 \<rparr>"

definition cw_observe :: "u64 \<Rightarrow> counter_window \<Rightarrow> counter_window" where
  "cw_observe c w = (
     if c > cw_top w then
       let delta = c - cw_top w
       in if delta > JUMP_GUARD
          then w\<lparr> cw_top := c, cw_mask := 1, cw_expected := sat_add (cw_expected w) 1, cw_seen := sat_add (cw_seen w) 1,
                  cw_resets := sat_add32 (cw_resets w) 1 \<rparr>
          else w\<lparr> cw_mask := (if delta \<ge> WINDOW_BITS then 0 else push_bit (unat delta) (cw_mask w)) OR 1,
                  cw_expected := sat_add (cw_expected w) delta, cw_seen := sat_add (cw_seen w) 1, cw_top := c \<rparr>
     else
       let late = cw_top w - c
       in if late \<ge> WINDOW_BITS then w\<lparr> cw_dup := sat_add (cw_dup w) 1 \<rparr>
          else
            let b = push_bit (unat late) 1
            in if cw_mask w AND b \<noteq> 0 then w\<lparr> cw_dup := sat_add (cw_dup w) 1 \<rparr>
               else w\<lparr> cw_mask := cw_mask w OR b, cw_seen := sat_add (cw_seen w) 1 \<rparr>)"

section \<open>The windows of all key ids\<close>

type_synonym sa_windows = "(u64 \<times> counter_window) list"

fun sa_bump :: "u64 \<Rightarrow> u64 \<Rightarrow> sa_windows \<Rightarrow> sa_windows" where
  "sa_bump key c [] = []"
| "sa_bump key c ((k, w) # es) = (if k = key then (k, cw_observe c w) # es else (k, w) # sa_bump key c es)"

definition sa_observe :: "u64 \<Rightarrow> u64 \<Rightarrow> sa_windows \<Rightarrow> sa_windows" where
  "sa_observe key c es = (
     if key \<in> fst ` set es then sa_bump key c es
     else let es = es @ [(key, cw_first c)] in if length es > MAX_SAS then drop 1 es else es)"

fun sa_add :: "u64 \<times> counter_window \<Rightarrow> u64 \<times> u64 \<times> u64 \<times> u32 \<Rightarrow> u64 \<times> u64 \<times> u64 \<times> u32" where
  "sa_add (k, w) (e, s, d, r) =
     (sat_add e (cw_expected w), sat_add s (cw_seen w), sat_add d (cw_dup w), sat_add32 r (cw_resets w))"

definition sa_totals :: "sa_windows \<Rightarrow> u64 \<times> u64 \<times> u64 \<times> u32" where
  "sa_totals es = fold sa_add es (0, 0, 0, 0)"

section \<open>One path\<close>

record path_state =
  pst_sas :: sa_windows
  pst_last_recv_ms :: "u64 option"
  pst_raw_frames :: u64

definition path_state_new :: path_state where
  "path_state_new = \<lparr> pst_sas = [], pst_last_recv_ms = None, pst_raw_frames = 0 \<rparr>"

definition path_observe :: "u64 \<Rightarrow> bytes \<Rightarrow> path_state \<Rightarrow> path_state \<times> bool" where
  "path_observe now_ms frame p = (case frame_meta frame of
     None \<Rightarrow> (p, False)
   | Some (key, counter) \<Rightarrow>
       (p\<lparr> pst_sas := sa_observe key counter (pst_sas p), pst_last_recv_ms := Some now_ms,
           pst_raw_frames := sat_add (pst_raw_frames p) 1 \<rparr>, True))"

definition recv_age :: "u64 \<Rightarrow> u64 option \<Rightarrow> u32" where
  "recv_age now_ms last_recv = (case last_recv of
     Some t \<Rightarrow> if now_ms \<ge> t then ucast (min (now_ms - t) 0xFFFFFFFF) else - 1
   | None \<Rightarrow> - 1)"

definition counters :: "u64 \<Rightarrow> path_state \<Rightarrow> path_counters" where
  "counters now_ms p = (case sa_totals (pst_sas p) of (e, s, d, r) \<Rightarrow>
     \<lparr> pc_expected = e, pc_seen = s, pc_dup = d, pc_resets = r,
       pc_last_recv_age_ms = recv_age now_ms (pst_last_recv_ms p) \<rparr>)"

section \<open>The observer reads what the tunnel opens\<close>

lemma plain_loop_decode_chain:
  "decode_chain body cur idx seen cursor exts = Inr (es, c) \<Longrightarrow> set seen' = set seen \<Longrightarrow> plain_loop body cur seen' cursor = Some c"
proof (induction body cur idx seen cursor exts arbitrary: seen' rule: decode_chain.induct)
  case (1 body cur idx seen cursor exts)
  from "1.prems"(1) have ok: "cur \<notin> set seen" "cursor + 2 \<le> length body" "body ! (cursor + 1) \<noteq> 0"
    "cursor + 2 + unat (body ! (cursor + 1)) * 8 \<le> length body" "\<not> idx + 1 > MAX_EXT_CHAIN"
    by (subst (asm) decode_chain.simps, auto simp: Let_def split: if_splits)+
  show ?case
  proof (cases "body ! cursor = 0")
    case True
    then show ?thesis using "1.prems" ok by (subst plain_loop.simps) (subst (asm) decode_chain.simps, auto simp: Let_def)
  next
    case False
    from "1.prems"(1) ok False have "decode_chain body (body ! cursor) (idx + 1) (seen @ [cur]) (cursor + 2 + unat (body ! (cursor + 1)) * 8)
        (exts @ [\<lparr>ext_type = ext_from_u8 cur, ext_payload = slice (cursor + 2) (cursor + 2 + unat (body ! (cursor + 1)) * 8) body\<rparr>]) = Inr (es, c)"
      by (subst (asm) decode_chain.simps) (auto simp: Let_def)
    from "1.IH" [OF _ _ _ _ refl refl refl _ False this, of "cur # seen'"] ok "1.prems"(2)
    have "plain_loop body (body ! cursor) (cur # seen') (cursor + 2 + unat (body ! (cursor + 1)) * 8) = Some c" by simp
    then show ?thesis using ok False "1.prems"(2) by (subst plain_loop.simps) (auto simp: Let_def add.assoc)
  qed
qed

lemma plain_segment_decode:
  assumes "decode body = Inr d"
  shows "plain_segment_len body = Some (payload_offset d)"
proof (cases "body ! 6 = 0")
  case True
  then show ?thesis using assms
    by (auto simp: decode_def plain_segment_len_def payload_offset_def Let_def split: if_splits)
next
  case False
  then obtain es c where ch: "decode_chain body (body ! 6) 0 [] BASE_HEADER_SIZE [] = Inr (es, c)"
      "BASE_HEADER_SIZE \<le> length body" "hdr_ext_headers (dec_header d) = es"
    using assms by (auto simp: decode_def Let_def split: if_splits sum.splits)
  have "c = BASE_HEADER_SIZE + ext_total es" using decode_chain_sound [OF ch(1)] False by simp
  then show ?thesis using plain_loop_decode_chain [OF ch(1), of "[]"] False ch(2,3)
    by (simp add: plain_segment_len_def payload_offset_def)
qed

lemma decapsulate_opens:
  assumes "decapsulate cr k frame = (k', Inr pkt)"
  obtains d where "length frame \<ge> 74" "frame ! 0 = TUNNEL_VERSION" "frame ! 1 = 2" "decode (drop 10 frame) = Inr d"
    "10 + payload_offset d + 8 \<le> length frame"
    "open_frame cr k (slice 2 10 frame) (drop (10 + payload_offset d) frame) (slice 10 (10 + payload_offset d) frame)
       = (k', Inr (drop (payload_offset d) pkt))"
    "take (payload_offset d) pkt = slice 10 (10 + payload_offset d) frame"
proof -
  have ft: "frame_type_from_u8 b = Some Data \<longleftrightarrow> b = 2" for b
    by (auto simp: frame_type_from_u8_def)
  from assms obtain d secret where h: "length frame \<ge> 10" "frame ! 0 = TUNNEL_VERSION" "frame_type_from_u8 (frame ! 1) = Some Data"
    "length (drop 10 frame) \<ge> 64" "decode (drop 10 frame) = Inr d" "40 \<le> payload_offset d" "8 \<le> length (drop 10 frame) - payload_offset d"
    "open_frame cr k (slice 2 10 frame) (drop (payload_offset d) (drop 10 frame)) (take (payload_offset d) (drop 10 frame)) = (k', Inr secret)"
    "pkt = take (payload_offset d) (drop 10 frame) @ secret"
    unfolding decapsulate_def parse_head_def const_defs Let_def
    by (auto split: if_splits sum.splits option.splits prod.splits)
  have len: "length (take (payload_offset d) (drop 10 frame)) = payload_offset d" using h(4,7) by simp
  show ?thesis
  proof (rule that)
    show "length frame \<ge> 74" "10 + payload_offset d + 8 \<le> length frame" using h(4,6,7) by auto
    show "frame ! 1 = 2" using h(3) by (simp add: ft)
    show "open_frame cr k (slice 2 10 frame) (drop (10 + payload_offset d) frame) (slice 10 (10 + payload_offset d) frame)
       = (k', Inr (drop (payload_offset d) pkt))"
      using h(8,9) len by (simp add: slice_def add.commute drop_take)
    show "take (payload_offset d) pkt = slice 10 (10 + payload_offset d) frame"
      using h(9) len by (simp add: slice_def drop_take)
  qed (use h in simp_all)
qed

text \<open>
  The observer meters what the tunnel opens: every frame that decapsulates is metered, under the key id it was
  opened with and the counter of its nonce, whatever extension chain the packet carries.
\<close>

theorem observed_as_opened:
  assumes "decapsulate cr k frame = (k', Inr pkt)"
  shows "\<exists>n key_id body. key_id = slice 2 10 frame \<and> body = drop (10 + n) frame
    \<and> open_frame cr k key_id body (take n pkt) = (k', Inr (drop n pkt))
    \<and> frame_meta frame = Some (from_be key_id, from_be (take 8 body))"
proof -
  obtain d where d: "length frame \<ge> 74" "frame ! 0 = TUNNEL_VERSION" "frame ! 1 = 2" "decode (drop 10 frame) = Inr d"
    "10 + payload_offset d + 8 \<le> length frame"
    "open_frame cr k (slice 2 10 frame) (drop (10 + payload_offset d) frame) (slice 10 (10 + payload_offset d) frame)
       = (k', Inr (drop (payload_offset d) pkt))"
    "take (payload_offset d) pkt = slice 10 (10 + payload_offset d) frame"
    using decapsulate_opens [OF assms] by blast
  have "frame_meta frame = Some (from_be (slice 2 10 frame), from_be (take 8 (drop (10 + payload_offset d) frame)))"
    using d plain_segment_decode [OF d(4)] by (simp add: frame_meta_def const_defs Let_def slice_def)
  then show ?thesis using d(6,7) by (intro exI [of _ "payload_offset d"]) simp
qed

lemma observed_as_opened_witness:
  "\<exists>a' b' frame key_id body. let pkt = header_bytes sample_header @ chain_bytes (hdr_ext_headers sample_header) @ [7, 8] in
     encapsulate toy_crypto 1 (keys_with_suite 0 [1] True Aes256Gcm) pkt = Ok (a', frame)
     \<and> decapsulate toy_crypto (keys_with_suite 0 [1] False Aes256Gcm) frame = (b', Inr pkt)
     \<and> frame_meta frame = Some (from_be key_id, from_be (take 8 body))"
proof -
  let ?pkt = "header_bytes sample_header @ chain_bytes (hdr_ext_headers sample_header) @ [7, 8]"
  let ?a = "keys_with_suite 0 [1] True Aes256Gcm" and ?b = "keys_with_suite 0 [1] False Aes256Gcm"
  obtain a' b' frame where "encapsulate toy_crypto 1 ?a ?pkt = Ok (a', frame)" "decapsulate toy_crypto ?b frame = (b', Inr ?pkt)"
    using tunnel_step [OF toy_laws in_sync_start [of toy_crypto 0 "[1]" Aes256Gcm 0], of ?pkt 1] sample_packet by auto
  with observed_as_opened [OF this(2)] show ?thesis by (auto simp: Let_def)
qed

section \<open>What a window counts\<close>

lemma unat_sat_add_min: "unat (sat_add a b) = min (2 ^ 64 - 1) (unat a + unat b)"
  by (auto simp: sat_add_def unat_word_ariths unsigned_minus_1_eq_mask mask_eq_exp_minus_1)

text \<open>Frames that come at most 127 late and at most 4096 ahead of the greatest counter so far.\<close>

fun orderly :: "u64 \<Rightarrow> u64 list \<Rightarrow> bool" where
  "orderly t [] = True"
| "orderly t (c # cs) = ((if t < c then c - t \<le> JUMP_GUARD else t - c < WINDOW_BITS) \<and> orderly (max t c) cs)"

text \<open>The window has counted the set \<open>A\<close> of counters in \<open>n\<close> frames, the first one of counter \<open>c0\<close>.\<close>

definition counted :: "counter_window \<Rightarrow> nat \<Rightarrow> nat set \<Rightarrow> nat \<Rightarrow> bool" where
  "counted w c0 A n \<longleftrightarrow> finite A \<and> unat (cw_top w) \<in> A \<and> (\<forall>a \<in> A. a \<le> unat (cw_top w)) \<and> c0 \<in> A
     \<and> (\<forall>k < 128. bit (cw_mask w) k \<longleftrightarrow> k \<le> unat (cw_top w) \<and> unat (cw_top w) - k \<in> A)
     \<and> unat (cw_expected w) = min (2 ^ 64 - 1) (unat (cw_top w) - c0 + 1)
     \<and> unat (cw_seen w) = card A \<and> unat (cw_seen w) + unat (cw_dup w) = n \<and> cw_resets w = 0"

lemma counted_first: "counted (cw_first c) (unat c) {unat c} 1"
  by (auto simp: counted_def cw_first_def bit_1_iff)

lemma counted_ahead:
  assumes w: "counted w c0 A n" and c: "cw_top w < c" "c - cw_top w \<le> JUMP_GUARD" and n: "n + 1 < 2 ^ 64"
  shows "counted (cw_observe c w) c0 (insert (unat c) A) (n + 1)"
proof -
  define t s where "t = unat (cw_top w)" and "s = unat (c - cw_top w)"
  have ct: "unat c = t + s" "0 < s" using c(1) by (auto simp: t_def s_def unat_sub word_less_nat_alt word_le_nat_alt)
  have A: "finite A" "\<And>a. a \<in> A \<Longrightarrow> a \<le> t" "c0 \<in> A" and bits: "\<And>k. k < 128 \<Longrightarrow> bit (cw_mask w) k \<longleftrightarrow> k \<le> t \<and> t - k \<in> A"
    and e: "unat (cw_expected w) = min (2 ^ 64 - 1) (t - c0 + 1)" and sn: "unat (cw_seen w) = card A" "unat (cw_seen w) + unat (cw_dup w) = n"
    and r: "cw_resets w = 0"
    using w by (auto simp: counted_def t_def)
  define m where "m = (if s \<ge> 128 then 0 else push_bit s (cw_mask w)) OR 1"
  have mask: "bit m k \<longleftrightarrow> k \<le> t + s \<and> t + s - k \<in> insert (t + s) A" if k: "k < 128" for k
  proof (cases "s \<le> k")
    case True
    have "bit m k \<longleftrightarrow> bit (cw_mask w) (k - s)" using True k ct(2) by (auto simp: m_def bit_or_iff bit_push_bit_iff bit_1_iff)
    also have "\<dots> \<longleftrightarrow> k - s \<le> t \<and> t - (k - s) \<in> A" using k by (intro bits) simp
    finally show ?thesis using True ct(2) A(2) by (auto simp: add.commute)
  next
    case False
    have "bit m k \<longleftrightarrow> k = 0" using False k by (auto simp: m_def bit_or_iff bit_push_bit_iff bit_1_iff)
    moreover have "t + s - k \<notin> A" using False A(2) by fastforce
    ultimately show ?thesis using False by auto
  qed
  have "unat c \<notin> A" using ct A(2) by fastforce
  then have card: "card (insert (unat c) A) = unat (cw_seen w) + 1" using A(1) sn(1) by simp
  have "WINDOW_BITS \<le> c - cw_top w \<longleftrightarrow> 128 \<le> s" by (simp add: s_def word_le_nat_alt const_defs)
  then have obs: "cw_observe c w = w\<lparr> cw_mask := m, cw_expected := sat_add (cw_expected w) (c - cw_top w),
      cw_seen := sat_add (cw_seen w) 1, cw_top := c \<rparr>"
    using c by (simp add: cw_observe_def Let_def m_def s_def)
  have "c0 \<le> t" using A by blast
  then have "unat (sat_add (cw_expected w) (c - cw_top w)) = min (2 ^ 64 - 1) (t + s - c0 + 1)"
    using e by (simp add: unat_sat_add_min s_def)
  moreover have "unat (sat_add (cw_seen w) 1) = unat (cw_seen w) + 1" using sn n by (simp add: unat_sat_add_min)
  moreover have "a \<le> t + s" if "a \<in> A" for a using A(2) [OF that] by simp
  ultimately show ?thesis unfolding counted_def obs using mask card A ct r sn by (simp add: ct(1))
qed

lemma counted_late:
  assumes w: "counted w c0 A n" and c: "c \<le> cw_top w" "cw_top w - c < WINDOW_BITS" and n: "n + 1 < 2 ^ 64"
  shows "counted (cw_observe c w) c0 (insert (unat c) A) (n + 1)"
proof -
  define t b where "t = unat (cw_top w)" and "b = unat (cw_top w - c)"
  have tb: "t = unat c + b" "b < 128" using c by (auto simp: t_def b_def unat_sub word_le_nat_alt word_less_nat_alt const_defs)
  have bits: "\<And>k. k < 128 \<Longrightarrow> bit (cw_mask w) k \<longleftrightarrow> k \<le> t \<and> t - k \<in> A" using w by (auto simp: counted_def t_def)
  have mem: "cw_mask w AND push_bit b 1 \<noteq> 0 \<longleftrightarrow> unat c \<in> A" using mask_bit_zero [OF tb(2)] bits [OF tb(2)] tb(1) by simp
  have sn: "unat (cw_seen w) = card A" "unat (cw_seen w) + unat (cw_dup w) = n" using w by (auto simp: counted_def)
  have sat: "unat (sat_add (cw_seen w) 1) = unat (cw_seen w) + 1" "unat (sat_add (cw_dup w) 1) = unat (cw_dup w) + 1"
    using sn n by (simp_all add: unat_sat_add_min)
  have obs: "cw_observe c w = (if unat c \<in> A then w\<lparr> cw_dup := sat_add (cw_dup w) 1 \<rparr>
      else w\<lparr> cw_mask := cw_mask w OR push_bit b 1, cw_seen := sat_add (cw_seen w) 1 \<rparr>)"
    using c mem by (simp add: cw_observe_def Let_def b_def linorder_not_less linorder_not_le)
  show ?thesis
  proof (cases "unat c \<in> A")
    case True
    then show ?thesis using w sat sn by (simp add: obs counted_def insert_absorb)
  next
    case False
    have "bit (cw_mask w OR push_bit b 1) k \<longleftrightarrow> k \<le> t \<and> t - k \<in> insert (unat c) A" if k: "k < 128" for k
    proof -
      have "bit (push_bit b 1 :: u128) k \<longleftrightarrow> k = b" using k by (rule bit_push_one)
      moreover have "k \<le> t \<and> t - k = unat c \<longleftrightarrow> k = b" using tb by auto
      ultimately show ?thesis using bits [OF k] by (auto simp: bit_or_iff)
    qed
    then show ?thesis using w sat sn False tb(1) by (auto simp: obs counted_def t_def)
  qed
qed

lemma counted_run:
  "counted w c0 A n \<Longrightarrow> orderly (cw_top w) cs \<Longrightarrow> n + length cs < 2 ^ 64 \<Longrightarrow>
     counted (fold cw_observe cs w) c0 (A \<union> unat ` set cs) (n + length cs) \<and> cw_top (fold cw_observe cs w) = fold max cs (cw_top w)"
proof (induction cs arbitrary: w A n)
  case (Cons c cs)
  have step: "counted (cw_observe c w) c0 (insert (unat c) A) (n + 1)"
    using Cons.prems counted_ahead [OF Cons.prems(1), of c] counted_late [OF Cons.prems(1), of c] by (auto split: if_splits)
  have t: "cw_top (cw_observe c w) = max (cw_top w) c"
    using Cons.prems(2) by (auto simp: cw_observe_def Let_def max_def split: if_splits)
  show ?case using Cons.IH [OF step] Cons.prems by (simp add: t max.commute)
qed simp

lemma window_counted:
  assumes "orderly c0 cs" "length cs + 1 < 2 ^ 64" "0 < c0"
  defines "w \<equiv> fold cw_observe cs (cw_first c0)" and "R \<equiv> unat ` set (c0 # cs)"
  shows "unat (cw_seen w) = card R" "unat (cw_seen w) + unat (cw_dup w) = length cs + 1"
    "unat (cw_expected w) = Max R - unat c0 + 1" "cw_resets w = 0" "unat c0 \<le> Max R"
proof -
  have c: "counted w (unat c0) R (length cs + 1)"
    using counted_run [OF counted_first, of c0 cs] assms(1,2) by (simp add: w_def R_def cw_first_def)
  then have "Max R = unat (cw_top w)" by (intro Max_eqI) (auto simp: counted_def R_def)
  moreover have "unat c0 > 0" using assms(3) by (simp add: unat_gt_0 word_gt_0)
  moreover have "unat (cw_top w) < 2 ^ 64" by (rule order_less_le_trans [OF unsigned_less]) simp
  moreover have "unat c0 \<le> unat (cw_top w)" using c by (auto simp: counted_def)
  ultimately show "unat (cw_seen w) = card R" "unat (cw_seen w) + unat (cw_dup w) = length cs + 1"
    "unat (cw_expected w) = Max R - unat c0 + 1" "cw_resets w = 0" "unat c0 \<le> Max R"
    using c by (auto simp: counted_def)
qed

lemma window_lost:
  assumes "orderly c0 cs" "length cs + 1 < 2 ^ 64" "0 < c0"
  defines "w \<equiv> fold cw_observe cs (cw_first c0)" and "R \<equiv> unat ` set (c0 # cs)"
  shows "int (unat (cw_expected w)) - int (unat (cw_seen w))
    = int (card ({unat c0..Max R} - R)) - int (card {a \<in> R. a < unat c0})"
proof -
  note c = window_counted [OF assms(1-3), folded w_def R_def]
  have fin: "finite R" by (simp add: R_def)
  have R: "R = (R \<inter> {unat c0..Max R}) \<union> {a \<in> R. a < unat c0}" using Max_ge [OF fin] by (auto simp: not_less)
  have "card R = card (R \<inter> {unat c0..Max R}) + card {a \<in> R. a < unat c0}"
    by (subst R, rule card_Un_disjoint) (use fin in auto)
  moreover have "card ({unat c0..Max R} - R) + card (R \<inter> {unat c0..Max R}) = Max R - unat c0 + 1"
  proof -
    have "{unat c0..Max R} = ({unat c0..Max R} - R) \<union> (R \<inter> {unat c0..Max R})" by auto
    then have "card {unat c0..Max R} = card ({unat c0..Max R} - R) + card (R \<inter> {unat c0..Max R})"
      using fin by (metis (no_types, lifting) Diff_disjoint Int_commute card_Un_disjoint finite_Diff finite_Int finite_atLeastAtMost inf_assoc inf_bot_right)
    then show ?thesis using c(5) by simp
  qed
  ultimately show ?thesis using c(1,3) by linarith
qed

text \<open>
  The window measures the loss: for frames that start with their smallest counter, come at most 127 late and jump at
  most 4096 ahead, the window counts each distinct frame once as seen, every other one as a duplicate, and the difference of
  the expected and the seen frames is the number of counters of the span that never arrived.
\<close>

theorem window_measures_loss:
  assumes "orderly c0 cs" "length cs + 1 < 2 ^ 64" "0 < c0" "\<forall>c \<in> set cs. c0 \<le> c"
  shows "let w = fold cw_observe cs (cw_first c0); R = unat ` set (c0 # cs) in
      unat (cw_seen w) = card R \<and> unat (cw_dup w) = length (c0 # cs) - card R
    \<and> unat (cw_expected w) = unat (cw_seen w) + card ({unat c0..Max R} - R) \<and> cw_resets w = 0"
proof -
  let ?w = "fold cw_observe cs (cw_first c0)" and ?R = "unat ` set (c0 # cs)"
  have "{a \<in> ?R. a < unat c0} = {}" using assms(4) by (auto simp: word_le_nat_alt not_less)
  then have "card {a \<in> ?R. a < unat c0} = 0" by (metis card.empty)
  then have "unat (cw_expected ?w) = unat (cw_seen ?w) + card ({unat c0..Max ?R} - ?R)"
    using window_lost [OF assms(1-3)] by linarith
  then show ?thesis using window_counted(1,2,4) [OF assms(1-3)] by (simp add: Let_def)
qed

lemma window_measures_loss_witness:
  "let w = fold cw_observe [2, 5, 3, 5, 9] (cw_first 1) in unat (cw_seen w) = 5 \<and> unat (cw_dup w) = 1
     \<and> unat (cw_expected w) = unat (cw_seen w) + card ({1..9} - {1, 2, 3, 5, 9} :: nat set)"
proof -
  have M: "Max {1, 2, 5, 3, 9 :: nat} = 9" by simp
  show ?thesis using window_measures_loss [of 1 "[2, 5, 3, 5, 9]"] by (simp add: Let_def const_defs insert_commute)
qed

text \<open>Frames that the first one overtook hide the loss of as many others.\<close>

lemma overtaken_frames_hide_loss:
  assumes "orderly c0 cs" "length cs + 1 < 2 ^ 64" "0 < c0"
    and "card ({unat c0..Max (unat ` set (c0 # cs))} - unat ` set (c0 # cs)) \<le> card {a \<in> unat ` set (c0 # cs). a < unat c0}"
  shows "sat_sub (cw_expected (fold cw_observe cs (cw_first c0))) (cw_seen (fold cw_observe cs (cw_first c0))) = 0"
proof -
  have "unat (cw_expected (fold cw_observe cs (cw_first c0))) \<le> unat (cw_seen (fold cw_observe cs (cw_first c0)))"
    using window_lost [OF assms(1-3)] assms(4) by linarith
  then show ?thesis by (simp add: sat_sub_def word_le_nat_alt flip: word_unat_eq_iff)
qed

section \<open>The totals\<close>

lemma sa_totals_expected:
  "unat (fst (fold sa_add es (e, s, d, r))) = min (2 ^ 64 - 1) (unat e + (\<Sum>(k, w) \<leftarrow> es. unat (cw_expected w)))"
proof (induction es arbitrary: e s d r)
  case Nil
  have "unat e < 2 ^ 64" by (rule order_less_le_trans [OF unsigned_less]) simp
  then show ?case by simp
next
  case (Cons kw es)
  obtain k w where kw: "kw = (k, w)" by (cases kw)
  show ?case unfolding kw by (simp add: Cons.IH unat_sat_add_min add.assoc)
qed

lemma sa_expected: "unat (fst (sa_totals es)) = min (2 ^ 64 - 1) (\<Sum>(k, w) \<leftarrow> es. unat (cw_expected w))"
  by (simp add: sa_totals_def sa_totals_expected)

text \<open>
  The totals are not monotone: a frame under a ninth key id drops the oldest window with all it has counted, so
  the total of the expected frames goes down by that amount, less one.
\<close>

theorem ninth_key_lowers_totals:
  assumes "length es = MAX_SAS" "key \<notin> fst ` set es" "es = (k, w) # es'" "(\<Sum>(k, w) \<leftarrow> es. unat (cw_expected w)) < 2 ^ 64"
    and "1 \<le> cw_expected w"
  shows "unat (fst (sa_totals (sa_observe key c es))) + unat (cw_expected w) = unat (fst (sa_totals es)) + 1"
proof -
  have "sa_observe key c es = es' @ [(key, cw_first c)]" using assms(1-3) by (simp add: sa_observe_def const_defs)
  moreover have "1 \<le> unat (cw_expected w)" using assms(5) by (simp add: word_le_nat_alt)
  ultimately show ?thesis using assms(3,4) by (simp add: sa_expected cw_first_def)
qed

lemma ninth_key_lowers_totals_witness:
  "unat (fst (sa_totals (sa_observe 9 1 (map (\<lambda>k. (k, cw_observe 5 (cw_first 1))) [1, 2, 3, 4, 5, 6, 7, 8])))) + 5
     = unat (fst (sa_totals (map (\<lambda>k. (k, cw_observe 5 (cw_first 1))) [1, 2, 3, 4, 5, 6, 7, 8]))) + 1"
proof -
  have "cw_expected (cw_observe 5 (cw_first 1)) = 5" by (simp add: cw_observe_def cw_first_def const_defs sat_add_def)
  then show ?thesis
    using ninth_key_lowers_totals [of "map (\<lambda>k. (k, cw_observe 5 (cw_first 1))) [1, 2, 3, 4, 5, 6, 7, 8]" 9 1 "cw_observe 5 (cw_first 1)"
      "map (\<lambda>k. (k, cw_observe 5 (cw_first 1))) [2, 3, 4, 5, 6, 7, 8]" 1]
    by (simp add: const_defs)
qed

end
