(* ===== verification/ObservePolicy.thy ===== *)
theory ObservePolicy
  imports ObserveWindow
begin

text \<open>
  The policies that the reports of the peer drive, \<open>ipv8-observe/src/policy.rs\<close> and
  \<open>cc.rs\<close>: the breaker of the second path, the gate of the forward error correction and the congestion
  controller. Breaker and gate are one kind of machine, a hysteresis; the locale \<open>hysteresis\<close> states its
  laws and proves that it decides as the plain specification \<open>hyst\<close> does. The unsigned arithmetic of
  the controller wraps, as in a release build; a division by zero is a panic, here \<open>None\<close>.
\<close>

section \<open>The breaker\<close>

record breaker_config =
  bc_dead_age_ms :: u32
  bc_alive_age_ms :: u32
  bc_trigger_windows :: u32
  bc_recover_windows :: u32

definition breaker_config_default :: breaker_config where
  "breaker_config_default =
     \<lparr> bc_dead_age_ms = 1000, bc_alive_age_ms = 600, bc_trigger_windows = 3, bc_recover_windows = 5 \<rparr>"

datatype alt_verdict = Alt_Dead | Alt_Good | Alt_Neutral

record breaker =
  br_cfg :: breaker_config
  br_open :: bool
  br_bad_run :: u32
  br_good_run :: u32

definition breaker_new :: "breaker_config \<Rightarrow> breaker" where
  "breaker_new cfg = \<lparr> br_cfg = cfg, br_open = False, br_bad_run = 0, br_good_run = 0 \<rparr>"

definition classify_alt :: "breaker_config \<Rightarrow> path_counters \<Rightarrow> path_counters \<Rightarrow> alt_verdict" where
  "classify_alt cfg main alt = (
     let main_alive = pc_last_recv_age_ms main \<le> bc_alive_age_ms cfg;
         alt_dead = pc_last_recv_age_ms alt > bc_dead_age_ms cfg;
         alt_alive = pc_last_recv_age_ms alt \<le> bc_alive_age_ms cfg
     in if main_alive \<and> alt_dead then Alt_Dead else if alt_alive then Alt_Good else Alt_Neutral)"

definition breaker_update :: "path_counters \<Rightarrow> path_counters \<Rightarrow> breaker \<Rightarrow> breaker" where
  "breaker_update main alt b = (case classify_alt (br_cfg b) main alt of
     Alt_Dead \<Rightarrow>
       let b = b\<lparr> br_good_run := 0 \<rparr>
       in if \<not> br_open b then
            let b = b\<lparr> br_bad_run := br_bad_run b + 1 \<rparr>
            in if br_bad_run b \<ge> bc_trigger_windows (br_cfg b) then b\<lparr> br_open := True \<rparr> else b
          else b
   | Alt_Good \<Rightarrow>
       let b = b\<lparr> br_bad_run := 0 \<rparr>
       in if br_open b then
            let b = b\<lparr> br_good_run := br_good_run b + 1 \<rparr>
            in if br_good_run b \<ge> bc_recover_windows (br_cfg b) then b\<lparr> br_open := False \<rparr> else b
          else b
   | Alt_Neutral \<Rightarrow>
       let b = b\<lparr> br_good_run := 0 \<rparr>
       in if \<not> br_open b then b\<lparr> br_bad_run := 0 \<rparr> else b)"

section \<open>The gate of the forward error correction\<close>

record gate_config =
  gc_on_loss_permille :: u32
  gc_off_loss_permille :: u32
  gc_on_windows :: u32
  gc_off_windows :: u32
  gc_min_expected :: u64

definition gate_config_default :: gate_config where
  "gate_config_default = \<lparr> gc_on_loss_permille = 30, gc_off_loss_permille = 5, gc_on_windows = 2, gc_off_windows = 5,
     gc_min_expected = 32 \<rparr>"

record fec_gate =
  gt_cfg :: gate_config
  gt_on :: bool
  gt_high_run :: u32
  gt_low_run :: u32

definition gate_new :: "gate_config \<Rightarrow> fec_gate" where
  "gate_new cfg = \<lparr> gt_cfg = cfg, gt_on = False, gt_high_run = 0, gt_low_run = 0 \<rparr>"

definition lost_frames :: "u64 \<Rightarrow> u64 \<Rightarrow> u64" where
  "lost_frames expected seen = min (sat_sub expected seen) expected"

definition loss_permille :: "u64 \<Rightarrow> u64 \<Rightarrow> u64" where
  "loss_permille expected seen = sat_mul (lost_frames expected seen) 1000 div expected"

definition gate_step :: "u32 \<Rightarrow> fec_gate \<Rightarrow> fec_gate" where
  "gate_step permille g = (
     if \<not> gt_on g then
       if permille \<ge> gc_on_loss_permille (gt_cfg g) then
         let g = g\<lparr> gt_high_run := gt_high_run g + 1, gt_low_run := 0 \<rparr>
         in if gt_high_run g \<ge> gc_on_windows (gt_cfg g) then g\<lparr> gt_on := True \<rparr> else g
       else g\<lparr> gt_high_run := 0 \<rparr>
     else if permille \<le> gc_off_loss_permille (gt_cfg g) then
       let g = g\<lparr> gt_low_run := gt_low_run g + 1, gt_high_run := 0 \<rparr>
       in if gt_low_run g \<ge> gc_off_windows (gt_cfg g) then g\<lparr> gt_on := False \<rparr> else g
     else g\<lparr> gt_low_run := 0 \<rparr>)"

definition gate_update :: "u64 \<times> u64 \<Rightarrow> fec_gate \<Rightarrow> fec_gate option" where
  "gate_update delta g = (case delta of (expected, seen) \<Rightarrow>
     if expected < gc_min_expected (gt_cfg g) then Some g
     else if expected = 0 then None
     else Some (gate_step (ucast (loss_permille expected seen)) g))"

section \<open>The congestion controller\<close>

record cc_config =
  cf_ceil_bps :: u64
  cf_floor_bps :: u64
  cf_rtt_infl_permille :: u32
  cf_loss_on_permille :: u32
  cf_decrease_num :: u64
  cf_decrease_den :: u64
  cf_increase_div :: u64
  cf_min_expected :: u64
  cf_min_rtt_expiry_ms :: u64

definition cc_config_new :: "u64 \<Rightarrow> cc_config" where
  "cc_config_new ceil_bps = \<lparr> cf_ceil_bps = ceil_bps, cf_floor_bps = max (ceil_bps div 16) 64000,
     cf_rtt_infl_permille = 250, cf_loss_on_permille = 30, cf_decrease_num = 7, cf_decrease_den = 10,
     cf_increase_div = 8, cf_min_expected = 32, cf_min_rtt_expiry_ms = 10000 \<rparr>"

record controller =
  ct_cfg :: cc_config
  ct_rate_bps :: u64
  ct_min_rtt :: "(u64 \<times> u64) option"
  ct_acc :: "u64 \<times> u64"
  ct_acc_rtt :: "u64 option"

definition controller_new :: "cc_config \<Rightarrow> controller" where
  "controller_new cfg = \<lparr> ct_cfg = cfg, ct_rate_bps = cf_ceil_bps cfg div 4, ct_min_rtt = None, ct_acc = (0, 0), ct_acc_rtt = None \<rparr>"

text \<open>The base of the round-trip time, and whether the present one is above it by the threshold.\<close>

definition rtt_base :: "controller \<Rightarrow> u64 \<Rightarrow> u64 \<Rightarrow> controller \<times> u64" where
  "rtt_base c rtt now_ms = (case ct_min_rtt c of
     Some (base, ts) \<Rightarrow>
       if rtt \<ge> base \<and> sat_sub now_ms ts \<le> cf_min_rtt_expiry_ms (ct_cfg c) then (c, base)
       else (c\<lparr> ct_min_rtt := Some (rtt, now_ms) \<rparr>, rtt)
   | None \<Rightarrow> (c\<lparr> ct_min_rtt := Some (rtt, now_ms) \<rparr>, rtt))"

definition rtt_inflated :: "controller \<Rightarrow> u64 option \<Rightarrow> u64 \<Rightarrow> controller \<times> bool" where
  "rtt_inflated c rtt_us now_ms = (case rtt_us of
     None \<Rightarrow> (c, False)
   | Some rtt \<Rightarrow> (case rtt_base c rtt now_ms of
       (c, base) \<Rightarrow> (c, (ucast rtt :: u128) * 1000 \<ge> ucast base * ucast (1000 + cf_rtt_infl_permille (ct_cfg c)))))"

definition set_rate :: "bool \<Rightarrow> controller \<Rightarrow> controller option" where
  "set_rate congested c = (let cfg = ct_cfg c in
     if congested then
       if cf_decrease_den cfg = 0 then None
       else Some (c\<lparr> ct_rate_bps := max (ct_rate_bps c * cf_decrease_num cfg div cf_decrease_den cfg) (cf_floor_bps cfg) \<rparr>)
     else if cf_increase_div cfg = 0 then None
     else Some (c\<lparr> ct_rate_bps := min (ct_rate_bps c + cf_ceil_bps cfg div cf_increase_div cfg) (cf_ceil_bps cfg) \<rparr>))"

definition cc_accumulate :: "u64 \<times> u64 \<Rightarrow> u64 option \<Rightarrow> controller \<Rightarrow> controller" where
  "cc_accumulate delta rtt_us c = c\<lparr>
     ct_acc := (sat_add (fst (ct_acc c)) (fst delta), sat_add (snd (ct_acc c)) (snd delta)),
     ct_acc_rtt := (case rtt_us of None \<Rightarrow> ct_acc_rtt c
       | Some r \<Rightarrow> Some (case ct_acc_rtt c of None \<Rightarrow> r | Some b \<Rightarrow> min b r)) \<rparr>"

definition cc_update :: "u64 \<times> u64 \<Rightarrow> u64 option \<Rightarrow> u64 \<Rightarrow> controller \<Rightarrow> controller option" where
  "cc_update delta rtt_us now_ms c = (
     let c = cc_accumulate delta rtt_us c
     in if fst (ct_acc c) < cf_min_expected (ct_cfg c) then Some c
        else case (ct_acc c, rtt_inflated (c\<lparr> ct_acc := (0, 0), ct_acc_rtt := None \<rparr>) (ct_acc_rtt c) now_ms) of
          ((expected, seen), (c, inflated)) \<Rightarrow>
            if expected = 0 then None
            else set_rate (inflated \<or> loss_permille expected seen \<ge> ucast (cf_loss_on_permille (ct_cfg c))) c)"

section \<open>Hysteresis\<close>

text \<open>
  What both machines promise: a machine that is off goes on when \<open>m\<close> inputs in a row, the newest one
  included, ask for it, and a machine that is on goes off when \<open>n\<close> inputs in a row ask for that. The inputs
  are listed newest first.
\<close>

definition lately :: "nat \<Rightarrow> ('v \<Rightarrow> bool) \<Rightarrow> 'v list \<Rightarrow> bool" where
  "lately k P vs \<longleftrightarrow> k \<le> length vs \<and> list_all P (take k vs)"

fun hyst :: "nat \<Rightarrow> nat \<Rightarrow> ('v \<Rightarrow> bool) \<Rightarrow> ('v \<Rightarrow> bool) \<Rightarrow> 'v list \<Rightarrow> bool" where
  "hyst m n P Q [] = False"
| "hyst m n P Q (v # vs) = (if hyst m n P Q vs then \<not> lately n Q (v # vs) else lately m P (v # vs))"

lemma lately_run: "lately k P vs \<longleftrightarrow> k \<le> length (takeWhile P vs)"
proof (induction vs arbitrary: k)
  case (Cons v vs)
  show ?case
  proof (cases k)
    case (Suc j)
    then show ?thesis using Cons.IH [of j] by (simp add: lately_def)
  qed (simp add: lately_def)
qed (simp add: lately_def)

lemma lately_map: "lately k P (map f vs) \<longleftrightarrow> lately k (\<lambda>x. P (f x)) vs"
  by (simp add: lately_def take_map list.pred_map comp_def)

lemma hyst_map: "hyst m n P Q (map f vs) \<longleftrightarrow> hyst m n (\<lambda>x. P (f x)) (\<lambda>x. Q (f x)) vs"
  by (induction vs) (use lately_map [of _ _ f "_ # _"] in simp_all)

locale hysteresis =
  fixes step :: "'v \<Rightarrow> 's \<Rightarrow> 's" and on :: "'s \<Rightarrow> bool" and up :: "'s \<Rightarrow> nat" and down :: "'s \<Rightarrow> nat"
    and trips :: "'v \<Rightarrow> bool" and clears :: "'v \<Rightarrow> bool" and inv :: "'s \<Rightarrow> bool" and m :: nat and n :: nat
  assumes keeps: "inv s \<Longrightarrow> inv (step v s)"
    and apart: "inv s \<Longrightarrow> trips v \<Longrightarrow> \<not> clears v"
    and positive: "0 < m" "0 < n"
    and idle: "inv s \<Longrightarrow> \<not> on s \<Longrightarrow> \<not> trips v \<Longrightarrow> \<not> on (step v s) \<and> up (step v s) = 0"
    and rise: "inv s \<Longrightarrow> \<not> on s \<Longrightarrow> trips v \<Longrightarrow> up s < m \<Longrightarrow>
      (if up s + 1 < m then \<not> on (step v s) \<and> up (step v s) = up s + 1 else on (step v s) \<and> down (step v s) = 0)"
    and busy: "inv s \<Longrightarrow> on s \<Longrightarrow> \<not> clears v \<Longrightarrow> on (step v s) \<and> down (step v s) = 0"
    and fall: "inv s \<Longrightarrow> on s \<Longrightarrow> clears v \<Longrightarrow> down s < n \<Longrightarrow>
      (if down s + 1 < n then on (step v s) \<and> down (step v s) = down s + 1 else \<not> on (step v s) \<and> up (step v s) = 0)"
begin

lemma tracks:
  assumes "inv s" "\<not> on s" "up s = 0"
  shows "inv (fold step vs s) \<and> (on (fold step vs s) \<longleftrightarrow> hyst m n trips clears (rev vs))
    \<and> (if on (fold step vs s) then down (fold step vs s) = length (takeWhile clears (rev vs)) \<and> down (fold step vs s) < n
       else up (fold step vs s) = length (takeWhile trips (rev vs)) \<and> up (fold step vs s) < m)"
proof (induction vs rule: rev_induct)
  case Nil
  then show ?case using assms positive by simp
next
  case (snoc v vs)
  define r where "r = fold step vs s"
  have r: "inv r" "on r \<longleftrightarrow> hyst m n trips clears (rev vs)"
    and run: "if on r then down r = length (takeWhile clears (rev vs)) \<and> down r < n
      else up r = length (takeWhile trips (rev vs)) \<and> up r < m"
    using snoc unfolding r_def by blast+
  have last: "fold step (vs @ [v]) s = step v r" by (simp add: r_def)
  show ?case
  proof (cases "on r")
    case True
    then have d: "down r = length (takeWhile clears (rev vs))" "down r < n" using run by simp_all
    show ?thesis
    proof (cases "clears v")
      case c: True
      then have "\<not> trips v" using apart [OF r(1)] by blast
      then show ?thesis unfolding last using fall [OF r(1) True c d(2)] keeps [OF r(1), of v] d r(2) True c positive
        by (simp add: lately_run split: if_splits)
    next
      case c: False
      then show ?thesis unfolding last using busy [OF r(1) True c] keeps [OF r(1), of v] r(2) True positive
        by (simp add: lately_run)
    qed
  next
    case False
    then have u: "up r = length (takeWhile trips (rev vs))" "up r < m" using run by simp_all
    show ?thesis
    proof (cases "trips v")
      case t: True
      then have "\<not> clears v" using apart [OF r(1)] by blast
      then show ?thesis unfolding last using rise [OF r(1) False t u(2)] keeps [OF r(1), of v] u r(2) False t positive
        by (simp add: lately_run split: if_splits)
    next
      case t: False
      then show ?thesis unfolding last using idle [OF r(1) False t] keeps [OF r(1), of v] r(2) False positive
        by (simp add: lately_run)
    qed
  qed
qed

lemma decides: "inv s \<Longrightarrow> \<not> on s \<Longrightarrow> up s = 0 \<Longrightarrow> on (fold step vs s) \<longleftrightarrow> hyst m n trips clears (rev vs)"
  using tracks [of s vs] by blast

end

text \<open>A run length of 0 in a configuration counts as 1.\<close>

definition run_len :: "u32 \<Rightarrow> nat" where
  "run_len k = max 1 (unat k)"

lemma run_len_step: "unat (r :: u32) < run_len k \<Longrightarrow> unat (r + 1) = unat r + 1 \<and> (k \<le> r + 1 \<longleftrightarrow> \<not> unat r + 1 < run_len k)"
proof -
  assume "unat r < run_len k"
  moreover have "unat k < 2 ^ 32" by (rule order_less_le_trans [OF unsigned_less]) simp
  ultimately have "unat r + 1 < 2 ^ 32" by (auto simp: run_len_def)
  then have "unat (r + 1) = unat r + 1" by (simp add: unat_word_ariths)
  then show ?thesis by (auto simp: run_len_def word_le_nat_alt)
qed

lemma run_len_pos [simp]: "0 < run_len k"
  by (simp add: run_len_def)

interpretation breaker: hysteresis "\<lambda>(main, alt). breaker_update main alt" br_open "\<lambda>b. unat (br_bad_run b)" "\<lambda>b. unat (br_good_run b)"
    "\<lambda>(main, alt). classify_alt cfg main alt = Alt_Dead" "\<lambda>(main, alt). classify_alt cfg main alt = Alt_Good"
    "\<lambda>b. br_cfg b = cfg" "run_len (bc_trigger_windows cfg)" "run_len (bc_recover_windows cfg)" for cfg
  by unfold_locales
     (auto simp: breaker_update_def Let_def run_len_step split: alt_verdict.splits prod.splits)

interpretation gate: hysteresis gate_step gt_on "\<lambda>g. unat (gt_high_run g)" "\<lambda>g. unat (gt_low_run g)"
    "\<lambda>p. gc_on_loss_permille cfg \<le> p" "\<lambda>p. p \<le> gc_off_loss_permille cfg"
    "\<lambda>g. gt_cfg g = cfg \<and> gc_off_loss_permille cfg < gc_on_loss_permille cfg" "run_len (gc_on_windows cfg)" "run_len (gc_off_windows cfg)" for cfg
  by unfold_locales (auto simp: gate_step_def Let_def run_len_step)

text \<open>
  The breaker is a hysteresis: after any reports, the second path is switched off exactly as the plain rule says, off
  once the last trigger_windows reports all show it dead while the first one lives, and on again once the last
  recover_windows reports all show it alive. A report that shows neither breaks both runs.
\<close>

theorem breaker_hysteresis:
  "br_open (fold (\<lambda>(main, alt). breaker_update main alt) reports (breaker_new cfg)) \<longleftrightarrow>
     hyst (max 1 (unat (bc_trigger_windows cfg))) (max 1 (unat (bc_recover_windows cfg)))
       (\<lambda>v. v = Alt_Dead) (\<lambda>v. v = Alt_Good) (rev (map (\<lambda>(main, alt). classify_alt cfg main alt) reports))"
proof -
  show ?thesis
    using breaker.decides [of "breaker_new cfg" cfg reports]
    by (simp add: breaker_new_def run_len_def case_prod_unfold rev_map hyst_map)
qed

fun gate_run :: "(u64 \<times> u64) list \<Rightarrow> fec_gate \<Rightarrow> fec_gate option" where
  "gate_run [] g = Some g"
| "gate_run (d # ds) g = (case gate_update d g of None \<Rightarrow> None | Some g \<Rightarrow> gate_run ds g)"

lemma gate_run_steps:
  "gt_cfg g = cfg \<Longrightarrow> 0 < gc_min_expected cfg \<Longrightarrow>
     gate_run ds g = Some (fold gate_step (map (\<lambda>(e, s). ucast (loss_permille e s)) (filter (\<lambda>(e, _). gc_min_expected cfg \<le> e) ds)) g)"
proof (induction ds arbitrary: g)
  case (Cons d ds)
  obtain e s where d: "d = (e, s)" by (cases d)
  have "gt_cfg (gate_step p g) = cfg" for p using Cons.prems by (simp add: gate_step_def Let_def)
  then show ?case using Cons unfolding d by (auto simp: gate_update_def)
qed simp

text \<open>
  The gate of the forward error correction is a hysteresis over the reports with enough samples: reports with fewer
  expected frames than the minimum change nothing, never stop it with a division by zero, and over the others it is on
  exactly as the plain rule says for the loss in per mille.
\<close>

theorem gate_hysteresis:
  assumes "0 < gc_min_expected cfg" "gc_off_loss_permille cfg < gc_on_loss_permille cfg"
  shows "map_option gt_on (gate_run deltas (gate_new cfg)) =
    Some (hyst (max 1 (unat (gc_on_windows cfg))) (max 1 (unat (gc_off_windows cfg)))
      (\<lambda>p. gc_on_loss_permille cfg \<le> p) (\<lambda>p. p \<le> gc_off_loss_permille cfg)
      (rev (map (\<lambda>(e, s). ucast (loss_permille e s)) (filter (\<lambda>(e, _). gc_min_expected cfg \<le> e) deltas))))"
  using assms gate_run_steps [of "gate_new cfg" cfg deltas]
    gate.decides [of "gate_new cfg" cfg "map (\<lambda>(e, s). ucast (loss_permille e s)) (filter (\<lambda>(e, _). gc_min_expected cfg \<le> e) deltas)"]
  by (simp add: gate_new_def run_len_def)

lemma gate_hysteresis_witness:
  "map_option gt_on (gate_run [(100, 70), (10, 1), (100, 70)] (gate_new gate_config_default)) = Some True"
  using gate_hysteresis [of gate_config_default "[(100, 70), (10, 1), (100, 70)]"]
  by (simp add: gate_config_default_def loss_permille_def lost_frames_def sat_sub_def sat_mul_def lately_def)

section \<open>The controller\<close>

lemma cc_cfg_kept:
  "ct_cfg (cc_accumulate d r c) = ct_cfg c" "ct_rate_bps (cc_accumulate d r c) = ct_rate_bps c"
  "rtt_inflated c rtt now = (c', b) \<Longrightarrow> ct_cfg c' = ct_cfg c \<and> ct_rate_bps c' = ct_rate_bps c"
  by (auto simp: cc_accumulate_def rtt_inflated_def rtt_base_def split: option.splits prod.splits if_splits)

fun cc_run :: "((u64 \<times> u64) \<times> u64 option \<times> u64) list \<Rightarrow> controller \<Rightarrow> controller option" where
  "cc_run [] c = Some c"
| "cc_run ((d, rtt, now) # us) c = (case cc_update d rtt now c of None \<Rightarrow> None | Some c \<Rightarrow> cc_run us c)"

text \<open>One step moves the rate, if at all, up by an eighth of the ceiling or down to seven tenths.\<close>

lemma cc_update_rate:
  assumes "ct_cfg c = cc_config_new cl"
  shows "\<exists>c'. cc_update d rtt now c = Some c' \<and> ct_cfg c' = cc_config_new cl
    \<and> (ct_rate_bps c' = ct_rate_bps c \<or> ct_rate_bps c' = max (ct_rate_bps c * 7 div 10) (max (cl div 16) 64000)
       \<or> ct_rate_bps c' = min (ct_rate_bps c + cl div 8) cl)"
proof -
  define c1 where "c1 = cc_accumulate d rtt c"
  obtain c2 b where i: "rtt_inflated (c1\<lparr> ct_acc := (0, 0), ct_acc_rtt := None \<rparr>) (ct_acc_rtt c1) now = (c2, b)" by (metis surj_pair)
  obtain e s where es: "ct_acc c1 = (e, s)" by (metis surj_pair)
  have k: "ct_cfg c1 = cc_config_new cl" "ct_rate_bps c1 = ct_rate_bps c" "ct_cfg c2 = cc_config_new cl" "ct_rate_bps c2 = ct_rate_bps c"
    using cc_cfg_kept(3) [OF i] assms by (simp_all add: c1_def cc_cfg_kept)
  have min: "cf_min_expected (cc_config_new cl) = 32" by (simp add: cc_config_new_def)
  show ?thesis
  proof (cases "e < 32")
    case True
    then show ?thesis using k es min by (simp add: cc_update_def Let_def flip: c1_def)
  next
    case False
    then have "e \<noteq> 0" by auto
    then have "cc_update d rtt now c = set_rate (b \<or> loss_permille e s \<ge> ucast (cf_loss_on_permille (ct_cfg c2))) c2"
      using False k es min i by (simp add: cc_update_def Let_def flip: c1_def)
    then show ?thesis using k by (auto simp: set_rate_def Let_def cc_config_new_def)
  qed
qed

lemma cc_rate_step:
  assumes "64000 \<le> cl" "cl < 0x2000000000000000" "cl div 16 \<le> r" "(r :: u64) \<le> cl"
  shows "cl div 16 \<le> max (r * 7 div 10) (max (cl div 16) 64000)" "max (r * 7 div 10) (max (cl div 16) 64000) \<le> cl"
    "cl div 16 \<le> min (r + cl div 8) cl" "min (r + cl div 8) cl \<le> cl"
proof -
  have u: "unat cl < 2305843009213693952" "64000 \<le> unat cl" "unat r \<le> unat cl" "unat cl div 16 \<le> unat r"
    using assms by (auto simp: word_less_nat_alt word_le_nat_alt unat_div)
  have "unat (r * 7) = unat r * 7" using u by (simp add: unat_word_ariths)
  then have m: "unat (r * 7 div 10) = unat r * 7 div 10" by (simp add: unat_div)
  have "unat (r + cl div 8) = unat r + unat cl div 8" using u by (simp add: unat_word_ariths unat_div)
  then have p: "cl div 16 \<le> r + cl div 8" using u by (simp add: word_le_nat_alt unat_div)
  have d: "cl div 16 \<le> cl" by (simp add: word_le_nat_alt unat_div)
  show "cl div 16 \<le> max (r * 7 div 10) (max (cl div 16) 64000)" by (simp add: le_max_iff_disj)
  have "r * 7 div 10 \<le> cl" using u m by (simp add: word_le_nat_alt)
  then show "max (r * 7 div 10) (max (cl div 16) 64000) \<le> cl" using assms(1) d by simp
  show "cl div 16 \<le> min (r + cl div 8) cl" using p d by simp
qed simp

lemma cc_run_bounded:
  assumes "64000 \<le> cl" "cl < 0x2000000000000000"
  shows "ct_cfg c = cc_config_new cl \<Longrightarrow> cl div 16 \<le> ct_rate_bps c \<Longrightarrow> ct_rate_bps c \<le> cl \<Longrightarrow>
    \<exists>c'. cc_run us c = Some c' \<and> cl div 16 \<le> ct_rate_bps c' \<and> ct_rate_bps c' \<le> cl"
proof (induction us arbitrary: c)
  case (Cons u us)
  obtain d rtt now where u: "u = (d, rtt, now)" by (cases u)
  obtain c' where c': "cc_update d rtt now c = Some c'" "ct_cfg c' = cc_config_new cl"
    and r: "ct_rate_bps c' = ct_rate_bps c \<or> ct_rate_bps c' = max (ct_rate_bps c * 7 div 10) (max (cl div 16) 64000)
       \<or> ct_rate_bps c' = min (ct_rate_bps c + cl div 8) cl"
    using cc_update_rate [OF Cons.prems(1)] by blast
  have "cl div 16 \<le> ct_rate_bps c'" "ct_rate_bps c' \<le> cl"
    using r cc_rate_step [OF assms Cons.prems(2,3)] Cons.prems(2,3) by (elim disjE; simp)+
  from Cons.IH [OF c'(2) this] show ?case using c'(1) by (simp add: u)
qed simp

text \<open>
  The congestion controller keeps to its range: for a ceiling from 64 kbit/s to 2^61 bit/s, no sequence of reports,
  round-trip times and clock readings makes it panic or leave the range from a sixteenth of the ceiling to the ceiling.
\<close>

theorem cc_rate_bounded:
  assumes "64000 \<le> ceil_bps" "ceil_bps < 0x2000000000000000"
  shows "\<exists>c. cc_run us (controller_new (cc_config_new ceil_bps)) = Some c \<and> ceil_bps div 16 \<le> ct_rate_bps c \<and> ct_rate_bps c \<le> ceil_bps"
proof (rule cc_run_bounded [OF assms])
  show "ceil_bps div 16 \<le> ct_rate_bps (controller_new (cc_config_new ceil_bps))"
    "ct_rate_bps (controller_new (cc_config_new ceil_bps)) \<le> ceil_bps"
    by (simp_all add: controller_new_def cc_config_new_def word_le_nat_alt unat_div)
qed (simp add: controller_new_def)

lemma cc_rate_bounded_witness:
  "\<exists>c. cc_run [((100, 70), Some 5000, 200), ((100, 100), None, 400)] (controller_new (cc_config_new 8000000)) = Some c
     \<and> 500000 \<le> ct_rate_bps c \<and> ct_rate_bps c \<le> 8000000"
  using cc_rate_bounded [of 8000000 "[((100, 70), Some 5000, 200), ((100, 100), None, 400)]"] by simp

text \<open>
  Below 64 kbit/s the ceiling does not hold: the floor is above it, and the first lossy report raises the rate from a
  quarter of the ceiling to 64 kbit/s, beyond the ceiling.
\<close>

theorem cc_above_ceiling:
  assumes "ceil_bps < 64000" "32 \<le> expected" "30 \<le> loss_permille expected seen"
  shows "\<exists>c. cc_update (expected, seen) None now (controller_new (cc_config_new ceil_bps)) = Some c
    \<and> ct_rate_bps c = 64000 \<and> ceil_bps < ct_rate_bps c"
proof -
  have u: "unat ceil_bps < 64000" using assms(1) by (simp add: word_less_nat_alt)
  have "unat (ceil_bps div 4 * 7) = unat ceil_bps div 4 * 7" using u by (simp add: unat_word_ariths unat_div)
  then have "ceil_bps div 4 * 7 div 10 \<le> 64000" "ceil_bps div 16 \<le> 64000" using u by (simp_all add: word_le_nat_alt unat_div)
  then have "max (ceil_bps div 4 * 7 div 10) (max (ceil_bps div 16) 64000) = 64000" by (simp add: max_def)
  moreover have "\<not> expected < 32" "expected \<noteq> 0" using assms(2) by auto
  moreover have "sat_add 0 x = x" for x by (simp add: sat_add_def unsigned_less [THEN order_less_le_trans])
  ultimately show ?thesis
    using assms(1,3) by (simp add: cc_update_def cc_accumulate_def rtt_inflated_def set_rate_def controller_new_def cc_config_new_def Let_def)
qed

lemma cc_above_ceiling_witness:
  "\<exists>c. cc_update (100, 50) None 0 (controller_new (cc_config_new 32000)) = Some c \<and> ct_rate_bps c = 64000 \<and> 32000 < ct_rate_bps c"
  using cc_above_ceiling [of 32000 100 50 0] by (simp add: loss_permille_def lost_frames_def sat_sub_def sat_mul_def)

end
