(* ===== verification/Observe.thy ===== *)
theory Observe
  imports ObservePolicy
begin

text \<open>
  The observer of a node, \<open>ipv8-observe/src/report.rs\<close>, \<open>rtt.rs\<close> and
  \<open>lib.rs\<close>: the report with its wire format, the tracker of the round-trip time, and the node that meters
  what arrives, builds reports for its peer and drives the policies by the reports of the peer. Clocks are
  arguments: milliseconds for ages and periods, microseconds for the round-trip time.
\<close>

section \<open>The report\<close>

definition REPORT_VERSION :: u8 where [const_defs]: "REPORT_VERSION = 1"
definition REPORT_LEN :: nat where [const_defs]: "REPORT_LEN = 124"

text \<open>The array of the three slots: main path, second path, union.\<close>

record slots =
  sl_main :: path_counters
  sl_alt :: path_counters
  sl_union :: path_counters

record report =
  rp_seq :: u32
  rp_send_ts_us :: u64
  rp_lsr_us :: u64
  rp_dlsr_us :: u32
  rp_slots_valid :: u8
  rp_slots :: slots

datatype report_error = Rep_BadLen nat | Rep_BadVersion u8

definition put_slot :: "bytes \<Rightarrow> nat \<Rightarrow> path_counters \<Rightarrow> bytes" where
  "put_slot b base s = (
     let b = write_at base (to_be64 (pc_expected s)) b;
         b = write_at (base + 8) (to_be64 (pc_seen s)) b;
         b = write_at (base + 16) (to_be64 (pc_dup s)) b;
         b = write_at (base + 24) (to_be32 (pc_resets s)) b
     in write_at (base + 28) (to_be32 (pc_last_recv_age_ms s)) b)"

definition get_slot :: "bytes \<Rightarrow> nat \<Rightarrow> path_counters" where
  "get_slot b base = \<lparr> pc_expected = from_be (slice base (base + 8) b), pc_seen = from_be (slice (base + 8) (base + 16) b),
     pc_dup = from_be (slice (base + 16) (base + 24) b), pc_resets = from_be (slice (base + 24) (base + 28) b),
     pc_last_recv_age_ms = from_be (slice (base + 28) (base + 32) b) \<rparr>"

definition clamp_slots :: "u8 \<Rightarrow> u8" where
  "clamp_slots v = (if v < 1 then 1 else if v > 2 then 2 else v)"

definition encode_report :: "report \<Rightarrow> bytes" where
  "encode_report r = (
     let b = write_at 0 [REPORT_VERSION] (replicate REPORT_LEN 0);
         b = write_at 1 [clamp_slots (rp_slots_valid r)] b;
         b = write_at 4 (to_be32 (rp_seq r)) b;
         b = write_at 8 (to_be64 (rp_send_ts_us r)) b;
         b = write_at 16 (to_be64 (rp_lsr_us r)) b;
         b = write_at 24 (to_be32 (rp_dlsr_us r)) b;
         b = put_slot b 28 (sl_main (rp_slots r));
         b = put_slot b 60 (sl_alt (rp_slots r))
     in put_slot b 92 (sl_union (rp_slots r)))"

definition decode_report :: "bytes \<Rightarrow> report_error + report" where
  "decode_report b = (
     if length b \<noteq> REPORT_LEN then Inl (Rep_BadLen (length b))
     else if b ! 0 \<noteq> REPORT_VERSION then Inl (Rep_BadVersion (b ! 0))
     else Inr \<lparr> rp_seq = from_be (slice 4 8 b), rp_send_ts_us = from_be (slice 8 16 b), rp_lsr_us = from_be (slice 16 24 b),
       rp_dlsr_us = from_be (slice 24 28 b), rp_slots_valid = clamp_slots (b ! 1),
       rp_slots = \<lparr> sl_main = get_slot b 28, sl_alt = get_slot b 60, sl_union = get_slot b 92 \<rparr> \<rparr>)"

section \<open>The round-trip time\<close>

record rtt_tracker =
  tr_peer_send_ts :: u64
  tr_peer_recv_us :: "u64 option"
  tr_rtt_us :: "u64 option"

definition tracker_new :: rtt_tracker where
  "tracker_new = \<lparr> tr_peer_send_ts = 0, tr_peer_recv_us = None, tr_rtt_us = None \<rparr>"

definition on_peer_report :: "u64 \<Rightarrow> report \<Rightarrow> rtt_tracker \<Rightarrow> rtt_tracker" where
  "on_peer_report now_us r t = (
     let t = t\<lparr> tr_peer_send_ts := rp_send_ts_us r, tr_peer_recv_us := Some now_us \<rparr>
     in if rp_lsr_us r \<noteq> 0 then
          let dlsr = (if rp_dlsr_us r = - 1 then 0 else ucast (rp_dlsr_us r));
              tot = sat_add (rp_lsr_us r) dlsr
          in if now_us \<ge> tot then t\<lparr> tr_rtt_us := Some (now_us - tot) \<rparr> else t
        else t)"

definition rtt_echo :: "u64 \<Rightarrow> rtt_tracker \<Rightarrow> u64 \<times> u32" where
  "rtt_echo now_us t = (tr_peer_send_ts t,
     (case tr_peer_recv_us t of
        Some r \<Rightarrow> if now_us \<ge> r then ucast (min (now_us - r) 0xFFFFFFFE) else - 1
      | None \<Rightarrow> - 1))"

section \<open>The node\<close>

datatype path_id = Path_Main | Path_Alt

record observe_config =
  oc_report_interval_ms :: u64
  oc_dual_path :: bool
  oc_breaker :: breaker_config
  oc_gate :: gate_config
  oc_cc :: "cc_config option"

definition observe_config_default :: observe_config where
  "observe_config_default = \<lparr> oc_report_interval_ms = 200, oc_dual_path = False, oc_breaker = breaker_config_default,
     oc_gate = gate_config_default, oc_cc = None \<rparr>"

record observe_node =
  on_cfg :: observe_config
  on_rx_main :: path_state
  on_rx_alt :: path_state
  on_rx_union :: sa_windows
  on_rtt :: rtt_tracker
  on_seq :: u32
  on_last_report_ms :: "u64 option"
  on_peer_prev :: "slots option"
  on_last_dunion :: "u64 \<times> u64"
  on_breaker :: breaker
  on_gate :: fec_gate
  on_cc :: "controller option"

definition observe_new :: "observe_config \<Rightarrow> observe_node" where
  "observe_new cfg = \<lparr> on_cfg = cfg, on_rx_main = path_state_new, on_rx_alt = path_state_new, on_rx_union = [],
     on_rtt = tracker_new, on_seq = 0, on_last_report_ms = None, on_peer_prev = None, on_last_dunion = (0, 0),
     on_breaker = breaker_new (oc_breaker cfg), on_gate = gate_new (oc_gate cfg),
     on_cc = map_option controller_new (oc_cc cfg) \<rparr>"

definition rx_observe :: "path_id \<Rightarrow> u64 \<Rightarrow> bytes \<Rightarrow> observe_node \<Rightarrow> observe_node \<times> bool" where
  "rx_observe path now_ms frame n = (case path of
     Path_Main \<Rightarrow> (case path_observe now_ms frame (on_rx_main n) of (p, ok) \<Rightarrow> (n\<lparr> on_rx_main := p \<rparr>, ok))
   | Path_Alt \<Rightarrow> (case path_observe now_ms frame (on_rx_alt n) of (p, ok) \<Rightarrow> (n\<lparr> on_rx_alt := p \<rparr>, ok)))"

definition observe_inbound :: "u64 \<Rightarrow> path_id \<Rightarrow> bytes \<Rightarrow> observe_node \<Rightarrow> observe_node \<times> bool" where
  "observe_inbound now_ms path frame n = (case rx_observe path now_ms frame n of (n, accepted) \<Rightarrow>
     (if accepted then (case frame_meta frame of
          Some (key, counter) \<Rightarrow> n\<lparr> on_rx_union := sa_observe key counter (on_rx_union n) \<rparr>
        | None \<Rightarrow> n) else n, accepted))"

definition node_slots :: "u64 \<Rightarrow> observe_node \<Rightarrow> slots" where
  "node_slots now_ms n = (
     let main = counters now_ms (on_rx_main n); alt = counters now_ms (on_rx_alt n)
     in case sa_totals (on_rx_union n) of (e, s, d, r) \<Rightarrow>
          \<lparr> sl_main = main, sl_alt = alt,
            sl_union = \<lparr> pc_expected = e, pc_seen = s, pc_dup = d, pc_resets = r,
              pc_last_recv_age_ms = min (pc_last_recv_age_ms main) (pc_last_recv_age_ms alt) \<rparr> \<rparr>)"

definition maybe_build_report :: "u64 \<Rightarrow> u64 \<Rightarrow> observe_node \<Rightarrow> observe_node \<times> bytes option" where
  "maybe_build_report now_ms now_us n = (
     if (case on_last_report_ms n of Some prev \<Rightarrow> sat_sub now_ms prev < oc_report_interval_ms (on_cfg n) | None \<Rightarrow> False) then (n, None)
     else case rtt_echo now_us (on_rtt n) of (lsr_us, dlsr_us) \<Rightarrow>
       (n\<lparr> on_seq := on_seq n + 1, on_last_report_ms := Some now_ms \<rparr>,
        Some (encode_report \<lparr> rp_seq = on_seq n, rp_send_ts_us = now_us, rp_lsr_us = lsr_us, rp_dlsr_us = dlsr_us,
          rp_slots_valid = (if oc_dual_path (on_cfg n) then 2 else 1), rp_slots = node_slots now_ms n \<rparr>)))"

text \<open>One report after the first: breaker, gate and controller take a step; \<open>None\<close> is a panic.\<close>

definition drive_policies :: "u64 \<Rightarrow> slots \<Rightarrow> slots \<Rightarrow> observe_node \<Rightarrow> observe_node option" where
  "drive_policies now_ms prev cur n = (
     let dunion = (pc_expected (sl_union cur) - pc_expected (sl_union prev), pc_seen (sl_union cur) - pc_seen (sl_union prev));
         n = (if oc_dual_path (on_cfg n) then n\<lparr> on_breaker := breaker_update (sl_main cur) (sl_alt cur) (on_breaker n) \<rparr> else n)
     in case gate_update dunion (on_gate n) of
          None \<Rightarrow> None
        | Some g \<Rightarrow>
            let n = n\<lparr> on_gate := g, on_last_dunion := dunion \<rparr>
            in case on_cc n of
                 None \<Rightarrow> Some n
               | Some c \<Rightarrow> map_option (\<lambda>c. n\<lparr> on_cc := Some c \<rparr>) (cc_update dunion (tr_rtt_us (on_rtt n)) now_ms c))"

definition ingest_report :: "u64 \<Rightarrow> u64 \<Rightarrow> bytes \<Rightarrow> observe_node \<Rightarrow> observe_node \<times> (report_error, unit) outcome" where
  "ingest_report now_ms now_us bs n = (case decode_report bs of
     Inl e \<Rightarrow> (n, Err e)
   | Inr r \<Rightarrow>
       let n = n\<lparr> on_rtt := on_peer_report now_us r (on_rtt n) \<rparr>
       in case (case on_peer_prev n of None \<Rightarrow> Some n | Some prev \<Rightarrow> drive_policies now_ms prev (rp_slots r) n) of
            None \<Rightarrow> (n, Panic)
          | Some n \<Rightarrow> (n\<lparr> on_peer_prev := Some (rp_slots r) \<rparr>, Ok ()))"

definition alt_disabled :: "observe_node \<Rightarrow> bool" where
  "alt_disabled n \<longleftrightarrow> oc_dual_path (on_cfg n) \<and> br_open (on_breaker n)"

definition fec_enabled :: "observe_node \<Rightarrow> bool" where
  "fec_enabled n = gt_on (on_gate n)"

definition last_union_delta :: "observe_node \<Rightarrow> (u64 \<times> u64) \<times> bool" where
  "last_union_delta n = (on_last_dunion n, gt_on (on_gate n))"

definition observe_rtt_us :: "observe_node \<Rightarrow> u64 option" where
  "observe_rtt_us n = tr_rtt_us (on_rtt n)"

definition cc_rate_bps :: "observe_node \<Rightarrow> u64 option" where
  "cc_rate_bps n = map_option ct_rate_bps (on_cc n)"

definition node_path_counters :: "u64 \<Rightarrow> path_id \<Rightarrow> observe_node \<Rightarrow> path_counters" where
  "node_path_counters now_ms path n = counters now_ms (case path of Path_Main \<Rightarrow> on_rx_main n | Path_Alt \<Rightarrow> on_rx_alt n)"

section \<open>The wire format\<close>

definition slot_bytes :: "path_counters \<Rightarrow> bytes" where
  "slot_bytes s = to_be64 (pc_expected s) @ to_be64 (pc_seen s) @ to_be64 (pc_dup s) @ to_be32 (pc_resets s) @ to_be32 (pc_last_recv_age_ms s)"

lemma length_slot_bytes [simp]: "length (slot_bytes s) = 32"
  by (simp add: slot_bytes_def)

lemma put_slot_fill:
  "length pre = n \<Longrightarrow> 32 \<le> k \<Longrightarrow> put_slot (pre @ replicate k 0) n s = (pre @ slot_bytes s) @ replicate (k - 32) 0"
  by (simp add: put_slot_def Let_def slot_bytes_def write_at_step del: append_assoc)

lemma encode_report_layout:
  "encode_report r = [REPORT_VERSION, clamp_slots (rp_slots_valid r), 0, 0] @ to_be32 (rp_seq r) @ to_be64 (rp_send_ts_us r)
     @ to_be64 (rp_lsr_us r) @ to_be32 (rp_dlsr_us r) @ slot_bytes (sl_main (rp_slots r)) @ slot_bytes (sl_alt (rp_slots r))
     @ slot_bytes (sl_union (rp_slots r))"
proof -
  have four: "replicate REPORT_LEN (0 :: u8) = [0, 0, 0, 0] @ replicate 120 0"
    by (simp add: const_defs flip: replicate_add [of 4 120]) (simp add: numeral_eq_Suc)
  have start: "write_at 1 [v] (write_at 0 [REPORT_VERSION] (replicate REPORT_LEN 0)) = [REPORT_VERSION, v, 0, 0] @ replicate 120 0" for v
    unfolding four by (simp add: write_at_def)
  show ?thesis
    unfolding encode_report_def Let_def start
    by (simp add: write_at_step put_slot_fill del: append_assoc append.simps)
qed

lemma get_slot_bytes: "length pre = base \<Longrightarrow> get_slot (pre @ slot_bytes s @ post) base = s"
  by (simp add: get_slot_def slot_bytes_def wire)

text \<open>
  Reports survive the wire: what a peer decodes is the report that was built, with the number of slots forced to 1 or 2.
\<close>

theorem report_roundtrip: "decode_report (encode_report r) = Inr (r\<lparr> rp_slots_valid := clamp_slots (rp_slots_valid r) \<rparr>)"
proof -
  let ?b = "encode_report r"
  have len: "length ?b = REPORT_LEN" by (simp add: encode_report_layout const_defs)
  have hd: "?b ! 0 = REPORT_VERSION" "?b ! 1 = clamp_slots (rp_slots_valid r)" by (simp_all add: encode_report_layout)
  have f: "from_be (slice 4 8 ?b) = rp_seq r" "from_be (slice 8 16 ?b) = rp_send_ts_us r" "from_be (slice 16 24 ?b) = rp_lsr_us r"
    "from_be (slice 24 28 ?b) = rp_dlsr_us r"
    unfolding encode_report_layout by (simp_all add: slice_def)
  let ?pre = "[REPORT_VERSION, clamp_slots (rp_slots_valid r), 0, 0] @ to_be32 (rp_seq r) @ to_be64 (rp_send_ts_us r)
     @ to_be64 (rp_lsr_us r) @ to_be32 (rp_dlsr_us r)"
  have "get_slot ?b 28 = sl_main (rp_slots r)"
    using get_slot_bytes [of ?pre 28] by (simp add: encode_report_layout)
  moreover have "get_slot ?b 60 = sl_alt (rp_slots r)"
    using get_slot_bytes [of "?pre @ slot_bytes (sl_main (rp_slots r))" 60] by (simp add: encode_report_layout)
  moreover have "get_slot ?b 92 = sl_union (rp_slots r)"
    using get_slot_bytes [of "?pre @ slot_bytes (sl_main (rp_slots r)) @ slot_bytes (sl_alt (rp_slots r))" 92 _ "[]"]
    by (simp add: encode_report_layout)
  moreover have "clamp_slots (clamp_slots v) = clamp_slots v" for v by (simp add: clamp_slots_def)
  ultimately show ?thesis using len hd f by (simp add: decode_report_def)
qed

section \<open>Well-formed nodes\<close>

definition window_wf :: "counter_window \<Rightarrow> bool" where
  "window_wf w \<longleftrightarrow> bit (cw_mask w) 0 \<and> 1 \<le> cw_seen w \<and> 1 \<le> cw_expected w"

definition sas_wf :: "sa_windows \<Rightarrow> bool" where
  "sas_wf es \<longleftrightarrow> distinct (map fst es) \<and> length es \<le> MAX_SAS \<and> list_all window_wf (map snd es)"

definition node_wf :: "observe_node \<Rightarrow> bool" where
  "node_wf n \<longleftrightarrow> 0 < gc_min_expected (gt_cfg (on_gate n)) \<and> (\<forall>c. on_cc n = Some c \<longrightarrow> (\<exists>cl. ct_cfg c = cc_config_new cl))
     \<and> sas_wf (pst_sas (on_rx_main n)) \<and> sas_wf (pst_sas (on_rx_alt n)) \<and> sas_wf (on_rx_union n)"

lemma sat_add_ge: "1 \<le> a \<Longrightarrow> 1 \<le> sat_add a b"
proof -
  assume "1 \<le> a"
  then have "1 \<le> unat a" by (simp add: word_le_nat_alt)
  then have "1 \<le> unat (sat_add a b)" by (simp add: unat_sat_add_min)
  then show ?thesis by (simp add: word_le_nat_alt)
qed

lemma cw_observe_wf: "window_wf w \<Longrightarrow> window_wf (cw_observe c w)"
  by (simp add: window_wf_def cw_observe_def Let_def sat_add_ge bit_or_iff)

lemma sa_bump_keys: "map fst (sa_bump key c es) = map fst es"
  by (induction es) (auto split: if_splits)

lemma sa_bump_wf: "list_all window_wf (map snd es) \<Longrightarrow> list_all window_wf (map snd (sa_bump key c es))"
  by (induction es) (auto simp: cw_observe_wf)

lemma sas_wf_observe:
  assumes wf: "sas_wf es"
  shows "sas_wf (sa_observe key c es)"
proof (cases "key \<in> fst ` set es")
  case True
  have "length (sa_bump key c es) = length es" by (metis length_map sa_bump_keys)
  then show ?thesis using wf True by (simp add: sas_wf_def sa_observe_def sa_bump_keys sa_bump_wf)
next
  case False
  have new: "window_wf (cw_first c)" by (simp add: window_wf_def cw_first_def)
  have dist: "distinct (map fst es @ [key])" using wf False by (simp add: sas_wf_def)
  show ?thesis
  proof (cases es)
    case Nil
    then show ?thesis using new by (simp add: sas_wf_def sa_observe_def const_defs)
  next
    case (Cons e es')
    then show ?thesis using wf new dist False by (auto simp: sas_wf_def sa_observe_def const_defs Let_def)
  qed
qed

lemma observe_inbound_keeps:
  "on_rtt (fst (observe_inbound t p f n)) = on_rtt n" "on_cc (fst (observe_inbound t p f n)) = on_cc n"
  "on_gate (fst (observe_inbound t p f n)) = on_gate n"
  "on_rx_union (fst (observe_inbound t p f n)) =
     (case frame_meta f of None \<Rightarrow> on_rx_union n | Some (key, c) \<Rightarrow> sa_observe key c (on_rx_union n))"
  by (auto simp: observe_inbound_def rx_observe_def path_observe_def split: path_id.split option.split prod.split)

lemma observe_inbound_wf: "node_wf n \<Longrightarrow> node_wf (fst (observe_inbound t p f n))"
  by (auto simp: node_wf_def observe_inbound_def rx_observe_def path_observe_def sas_wf_observe split: path_id.split option.split prod.split)

lemma drive_policies_wf:
  assumes "node_wf n"
  shows "\<exists>n'. drive_policies t prev cur n = Some n' \<and> node_wf n' \<and> on_rtt n' = on_rtt n
    \<and> on_last_dunion n' = (pc_expected (sl_union cur) - pc_expected (sl_union prev), pc_seen (sl_union cur) - pc_seen (sl_union prev))"
proof -
  have "\<exists>g'. gate_update d (on_gate n) = Some g' \<and> gt_cfg g' = gt_cfg (on_gate n)" for d
    using assms by (auto simp: node_wf_def gate_update_def gate_step_def Let_def split: prod.split)
  then obtain g' where "gate_update (pc_expected (sl_union cur) - pc_expected (sl_union prev),
      pc_seen (sl_union cur) - pc_seen (sl_union prev)) (on_gate n) = Some g'" "gt_cfg g' = gt_cfg (on_gate n)" by blast
  moreover have "\<exists>c'. cc_update d r t c = Some c' \<and> (\<exists>cl. ct_cfg c' = cc_config_new cl)" if oc: "on_cc n = Some c" for d r c
  proof -
    obtain cl where "ct_cfg c = cc_config_new cl" using assms oc by (auto simp: node_wf_def)
    then show ?thesis using cc_update_rate by blast
  qed
  ultimately show ?thesis using assms
    by (cases "on_cc n") (fastforce simp: drive_policies_def Let_def node_wf_def)+
qed

lemma build_reports:
  assumes "maybe_build_report ms us n = (n', Some f)"
  shows "\<exists>r. decode_report f = Inr r \<and> rp_send_ts_us r = us \<and> rtt_echo us (on_rtt n) = (rp_lsr_us r, rp_dlsr_us r)
    \<and> rp_slots r = node_slots ms n \<and> length f = REPORT_LEN"
proof -
  have "length (encode_report r) = REPORT_LEN" for r by (simp add: encode_report_layout const_defs)
  then show ?thesis using assms by (auto simp: maybe_build_report_def report_roundtrip split: if_splits prod.splits)
qed

lemma build_keeps:
  "on_rtt (fst (maybe_build_report ms us n)) = on_rtt n" "on_rx_union (fst (maybe_build_report ms us n)) = on_rx_union n"
  "node_wf n \<Longrightarrow> node_wf (fst (maybe_build_report ms us n))"
  by (auto simp: maybe_build_report_def node_wf_def split: prod.splits)

lemma ingest_ok:
  assumes "node_wf n" "decode_report f = Inr r"
  shows "\<exists>n'. ingest_report ms us f n = (n', Ok ()) \<and> node_wf n' \<and> on_rtt n' = on_peer_report us r (on_rtt n)
    \<and> on_peer_prev n' = Some (rp_slots r)
    \<and> (\<forall>prev. on_peer_prev n = Some prev \<longrightarrow> on_last_dunion n' =
         (pc_expected (sl_union (rp_slots r)) - pc_expected (sl_union prev), pc_seen (sl_union (rp_slots r)) - pc_seen (sl_union prev)))"
proof -
  let ?n = "n\<lparr> on_rtt := on_peer_report us r (on_rtt n) \<rparr>"
  have wf: "node_wf ?n" using assms(1) by (simp add: node_wf_def)
  show ?thesis
  proof (cases "on_peer_prev n")
    case None
    then show ?thesis using assms(2) wf by (auto simp: ingest_report_def node_wf_def)
  next
    case (Some prev)
    then show ?thesis using assms(2) drive_policies_wf [OF wf, of ms prev "rp_slots r"]
      by (auto simp: ingest_report_def node_wf_def)
  qed
qed

lemma ingest_refused: "decode_report f = Inl e \<Longrightarrow> ingest_report ms us f n = (n, Err e)"
  by (simp add: ingest_report_def)

text \<open>
  C19. Observers are well typed: every operation of a well-formed node, on any frame, any bytes and any clock readings,
  leaves it well formed, with at most eight windows of distinct key ids each of which has counted its top; the reports it
  builds have their length, and no report of the peer makes it panic.
\<close>

theorem observer_well_formed:
  assumes "node_wf n"
  shows "node_wf (fst (observe_inbound ms path frame n)) \<and> node_wf (fst (maybe_build_report ms us n))
    \<and> (\<forall>f. snd (maybe_build_report ms us n) = Some f \<longrightarrow> length f = REPORT_LEN)
    \<and> node_wf (fst (ingest_report ms us bs n)) \<and> snd (ingest_report ms us bs n) \<noteq> Panic"
proof -
  have "node_wf (fst (ingest_report ms us bs n)) \<and> snd (ingest_report ms us bs n) \<noteq> Panic"
  proof (cases "decode_report bs")
    case (Inl e)
    then show ?thesis using assms by (simp add: ingest_refused)
  next
    case (Inr r)
    from ingest_ok [OF assms this, of ms us] show ?thesis by auto
  qed
  moreover have "length f = REPORT_LEN" if "snd (maybe_build_report ms us n) = Some f" for f
    using build_reports that by (metis surj_pair snd_conv)
  ultimately show ?thesis using observe_inbound_wf [OF assms] build_keeps(3) [OF assms] by blast
qed

lemma observe_new_wf:
  "0 < gc_min_expected (oc_gate cfg) \<Longrightarrow> oc_cc cfg = None \<or> oc_cc cfg = Some (cc_config_new cl) \<Longrightarrow> node_wf (observe_new cfg)"
  by (auto simp: node_wf_def observe_new_def gate_new_def controller_new_def path_state_new_def sas_wf_def)

lemma default_wf: "node_wf (observe_new (observe_config_default\<lparr> oc_cc := Some (cc_config_new 8000000) \<rparr>))"
  by (rule observe_new_wf) (simp_all add: observe_config_default_def gate_config_default_def)

lemma observer_well_formed_witness:
  "snd (ingest_report 1 2 [1, 2, 3] (observe_new (observe_config_default\<lparr> oc_cc := Some (cc_config_new 8000000) \<rparr>))) \<noteq> Panic"
  using observer_well_formed [OF default_wf] by blast

section \<open>Two observers\<close>

definition feed :: "u64 \<times> path_id \<times> bytes \<Rightarrow> observe_node \<Rightarrow> observe_node" where
  "feed ev n = (case ev of (ms, path, frame) \<Rightarrow> fst (observe_inbound ms path frame n))"

lemma feed_rtt: "on_rtt (fold feed evs n) = on_rtt n"
  by (induction evs arbitrary: n) (auto simp: feed_def observe_inbound_keeps)

lemma ingested:
  assumes "ingest_report ms us f n = (n', Ok ())"
  obtains r where "decode_report f = Inr r" "on_rtt n' = on_peer_report us r (on_rtt n)" "on_peer_prev n' = Some (rp_slots r)"
    "\<And>prev. on_peer_prev n = Some prev \<Longrightarrow> on_last_dunion n' =
       (pc_expected (sl_union (rp_slots r)) - pc_expected (sl_union prev), pc_seen (sl_union (rp_slots r)) - pc_seen (sl_union prev))"
proof -
  have d: "drive_policies t prev cur m = Some m' \<Longrightarrow> on_rtt m' = on_rtt m \<and> on_last_dunion m' =
       (pc_expected (sl_union cur) - pc_expected (sl_union prev), pc_seen (sl_union cur) - pc_seen (sl_union prev))" for t prev cur m m'
    by (auto simp: drive_policies_def Let_def split: option.splits if_splits)
  show ?thesis using assms that
    by (cases "on_peer_prev n") (auto simp: ingest_report_def Let_def split: sum.splits option.splits dest!: d)
qed

text \<open>
  The round-trip time is exact and needs no common clock: when A sends a report, B meters what it likes and reports
  back, and A takes that report in, A knows the time since its sending, less the time B kept the report, whatever the
  clock of B shows.
\<close>

theorem rtt_exact:
  assumes "maybe_build_report ms0 a0 A = (A1, Some f1)" "ingest_report ms1 b1 f1 B = (B1, Ok ())"
    and "maybe_build_report ms2 b2 (fold feed evs B1) = (B2, Some f2)" "ingest_report ms3 a3 f2 A' = (A2, Ok ())"
    and "a0 \<noteq> 0" "b1 \<le> b2" "b2 - b1 < 0xFFFFFFFF" "unat a0 + unat (b2 - b1) \<le> unat a3"
  shows "observe_rtt_us A2 = Some (a3 - a0 - (b2 - b1))"
proof -
  obtain r1 where r1: "decode_report f1 = Inr r1" "rp_send_ts_us r1 = a0" using build_reports [OF assms(1)] by blast
  have B1: "on_rtt B1 = on_peer_report b1 r1 (on_rtt B)" using ingested [OF assms(2)] r1(1) by (metis sum.inject(2))
  obtain r2 where r2: "decode_report f2 = Inr r2" "rtt_echo b2 (on_rtt B1) = (rp_lsr_us r2, rp_dlsr_us r2)"
    using build_reports [OF assms(3)] by (auto simp: feed_rtt)
  have A2: "on_rtt A2 = on_peer_report a3 r2 (on_rtt A')" using ingested [OF assms(4)] r2(1) by (metis sum.inject(2))
  have small: "unat (b2 - b1) < 4294967295" using assms(7) by (simp add: word_less_nat_alt)
  have m: "min (b2 - b1) 0xFFFFFFFE = b2 - b1" using small by (simp add: word_le_nat_alt min_def)
  have e: "rp_lsr_us r2 = a0" "rp_dlsr_us r2 = ucast (b2 - b1)"
    using r2(2) assms(6) r1(2) m by (auto simp: B1 on_peer_report_def rtt_echo_def Let_def split: if_splits)
  have u: "unat (ucast (b2 - b1) :: u32) = unat (b2 - b1)" using small by (simp add: unsigned_ucast_eq take_bit_nat_eq_self)
  have "unat (- 1 :: u32) = 4294967295" by (simp add: unsigned_minus_1_eq_mask mask_eq_exp_minus_1)
  then have ne: "(ucast (b2 - b1) :: u32) \<noteq> - 1" using u small by (metis less_irrefl)
  have widen: "ucast (ucast (b2 - b1) :: u32) = b2 - b1" using u by (simp add: word_unat_eq_iff unat_ucast_up)
  have "unat a3 < 2 ^ 64" by (rule order_less_le_trans [OF unsigned_less]) simp
  then have tot: "sat_add a0 (b2 - b1) = a0 + (b2 - b1)" "unat (a0 + (b2 - b1)) = unat a0 + unat (b2 - b1)"
    using assms(8) by (simp_all add: sat_add_def unat_word_ariths)
  then have "a0 + (b2 - b1) \<le> a3" using assms(8) by (simp add: word_le_nat_alt)
  then show ?thesis using e ne widen tot assms(5) by (simp add: observe_rtt_us_def A2 on_peer_report_def Let_def)
qed

lemma build_due:
  "on_last_report_ms n = None \<or> (\<exists>prev. on_last_report_ms n = Some prev \<and> oc_report_interval_ms (on_cfg n) \<le> sat_sub ms prev) \<Longrightarrow>
     \<exists>f. maybe_build_report ms us n = (n\<lparr> on_seq := on_seq n + 1, on_last_report_ms := Some ms \<rparr>, Some f)"
  by (auto simp: maybe_build_report_def split: prod.split)

lemma ingest_keeps_clock: "on_last_report_ms (fst (ingest_report ms us f n)) = on_last_report_ms n"
  by (auto simp: ingest_report_def drive_policies_def Let_def split: sum.split option.splits if_splits)

definition plain_node :: observe_node where
  "plain_node = observe_new observe_config_default"

lemma plain_node_facts: "node_wf plain_node" "on_last_report_ms plain_node = None"
proof -
  show "node_wf plain_node" unfolding plain_node_def
    by (rule observe_new_wf) (simp_all add: observe_config_default_def gate_config_default_def)
  show "on_last_report_ms plain_node = None" by (simp add: plain_node_def observe_new_def)
qed

lemma rtt_exact_witness:
  "\<exists>A1 f1 B1 B2 f2 A2. maybe_build_report 0 1000 plain_node = (A1, Some f1) \<and> ingest_report 5 5000 f1 plain_node = (B1, Ok ())
     \<and> maybe_build_report 8 8000 B1 = (B2, Some f2) \<and> ingest_report 12 12000 f2 A1 = (A2, Ok ()) \<and> observe_rtt_us A2 = Some 8000"
proof -
  obtain A1 f1 where a: "maybe_build_report 0 1000 plain_node = (A1, Some f1)" using build_due [of plain_node] plain_node_facts by blast
  obtain r1 where r1: "decode_report f1 = Inr r1" using build_reports [OF a] by blast
  obtain B1 where b: "ingest_report 5 5000 f1 plain_node = (B1, Ok ())" using ingest_ok [OF plain_node_facts(1) r1] by blast
  then have "on_last_report_ms B1 = None" using ingest_keeps_clock [of 5 5000 f1 plain_node] plain_node_facts(2) by simp
  then obtain B2 f2 where b2: "maybe_build_report 8 8000 B1 = (B2, Some f2)" using build_due [of B1] by blast
  obtain r2 where r2: "decode_report f2 = Inr r2" using build_reports [OF b2] by blast
  have "node_wf A1" using build_keeps(3) [OF plain_node_facts(1), of 0 1000] a by simp
  then obtain A2 where a2: "ingest_report 12 12000 f2 A1 = (A2, Ok ())" using ingest_ok [OF _ r2] by blast
  have "maybe_build_report 8 8000 (fold feed [] B1) = (B2, Some f2)" using b2 by simp
  from rtt_exact [OF a b this a2] show ?thesis using a b b2 a2 by auto
qed

lemma fold_sa_observe: "fold (\<lambda>c. sa_observe key c) cs [(key, w)] = [(key, fold cw_observe cs w)]"
  by (induction cs arbitrary: w) (simp_all add: sa_observe_def)

lemma feed_union:
  "map (\<lambda>(_, _, f). frame_meta f) evs = map (\<lambda>c. Some (key, c)) cs \<Longrightarrow>
     on_rx_union (fold feed evs n) = fold (\<lambda>c. sa_observe key c) cs (on_rx_union n)"
proof (induction evs arbitrary: cs n)
  case (Cons ev evs)
  obtain ms p f where ev: "ev = (ms, p, f)" by (cases ev)
  obtain c cs' where cs: "cs = c # cs'" using Cons.prems by (cases cs) auto
  have "on_rx_union (feed ev n) = sa_observe key c (on_rx_union n)"
    using Cons.prems by (simp add: feed_def observe_inbound_keeps ev cs)
  then show ?case using Cons.IH [of cs' "feed ev n"] Cons.prems by (simp add: cs)
qed simp

lemma totals_single: "sa_totals [(key, w)] = (cw_expected w, cw_seen w, cw_dup w, cw_resets w)"
proof -
  have "sat_add 0 x = x" for x by (simp add: sat_add_def unsigned_less [THEN order_less_le_trans])
  moreover have "sat_add32 0 x = x" for x by (simp add: sat_add32_def unsigned_less [THEN order_less_le_trans])
  ultimately show ?thesis by (simp add: sa_totals_def)
qed

text \<open>
  The loss on the union of the paths reaches the sender: when B reports before and after frames of one key id, which
  may come on either path or on both, begin with their smallest counter and keep the order of the window, then A, having
  taken in both reports, holds as the arrived frames the distinct ones and as the lost frames those of the span that
  came on neither path.
\<close>

theorem loss_reported:
  assumes "maybe_build_report ms0 us0 (observe_new cfg) = (B0, Some f1)" "maybe_build_report ms1 us1 (fold feed evs B0) = (B1, Some f2)"
    and "ingest_report t1 u1 f1 A = (A1, Ok ())" "ingest_report t2 u2 f2 A1 = (A2, Ok ())"
    and "map (\<lambda>(_, _, f). frame_meta f) evs = map (\<lambda>c. Some (key, c)) (c0 # cs)"
    and "orderly c0 cs" "length cs + 1 < 2 ^ 64" "0 < c0" "\<forall>c \<in> set cs. c0 \<le> c"
  shows "let (expected, seen) = fst (last_union_delta A2); R = unat ` set (c0 # cs) in
      unat seen = card R \<and> unat expected = unat seen + card ({unat c0..Max R} - R)"
proof -
  obtain r1 where r1: "decode_report f1 = Inr r1" "rp_slots r1 = node_slots ms0 (observe_new cfg)" using build_reports [OF assms(1)] by blast
  obtain r2 where r2: "decode_report f2 = Inr r2" "rp_slots r2 = node_slots ms1 (fold feed evs B0)" using build_reports [OF assms(2)] by blast
  have "on_rx_union B0 = []" using build_keeps(2) [of ms0 us0 "observe_new cfg"] assms(1) by (simp add: observe_new_def)
  then have "on_rx_union (fold feed evs B0) = [(key, fold cw_observe cs (cw_first c0))]"
    using feed_union [OF assms(5)] fold_sa_observe [of key cs "cw_first c0"] by (simp add: sa_observe_def const_defs)
  then have s2: "pc_expected (sl_union (rp_slots r2)) = cw_expected (fold cw_observe cs (cw_first c0))"
    "pc_seen (sl_union (rp_slots r2)) = cw_seen (fold cw_observe cs (cw_first c0))"
    by (simp_all add: r2(2) node_slots_def totals_single Let_def)
  have s1: "pc_expected (sl_union (rp_slots r1)) = 0" "pc_seen (sl_union (rp_slots r1)) = 0"
    by (simp_all add: r1(2) node_slots_def observe_new_def sa_totals_def Let_def)
  have "on_peer_prev A1 = Some (rp_slots r1)" using ingested [OF assms(3)] r1(1) by (metis sum.inject(2))
  then have "on_last_dunion A2 = (cw_expected (fold cw_observe cs (cw_first c0)), cw_seen (fold cw_observe cs (cw_first c0)))"
    using ingested [OF assms(4)] r2(1) s1 s2 by (metis diff_zero sum.inject(2))
  moreover have "{a \<in> unat ` set (c0 # cs). a < unat c0} = {}" using assms(9) by (auto simp: word_le_nat_alt not_less)
  then have "card {a \<in> unat ` set (c0 # cs). a < unat c0} = 0" by (metis card.empty)
  then have "unat (cw_expected (fold cw_observe cs (cw_first c0))) = unat (cw_seen (fold cw_observe cs (cw_first c0)))
      + card ({unat c0..Max (unat ` set (c0 # cs))} - unat ` set (c0 # cs))"
    using window_lost [OF assms(6-8)] by linarith
  ultimately show ?thesis using window_counted(1) [OF assms(6-8)] by (simp add: last_union_delta_def Let_def)
qed

text \<open>A frame that is as short as can be, with a given counter.\<close>

definition probe_frame :: "u64 \<Rightarrow> bytes" where
  "probe_frame c = [TUNNEL_VERSION, OBS_DATA_TYPE] @ replicate 48 0 @ to_be64 c @ replicate 16 0"

lemma probe_frame_meta: "frame_meta (probe_frame c) = Some (0, c)"
proof -
  have n: "[TUNNEL_VERSION, OBS_DATA_TYPE] @ replicate 48 0 = [TUNNEL_VERSION, OBS_DATA_TYPE] @ replicate 8 0 @ replicate 40 (0 :: u8)"
    by (simp flip: replicate_add)
  have z: "from_be (replicate 8 0 :: bytes) = (0 :: u64)" by (simp add: numeral_eq_Suc)
  have "slice 2 10 (probe_frame c) = replicate 8 0"
    unfolding probe_frame_def append_assoc [symmetric] n by (simp add: slice_def)
  moreover have "drop 10 (probe_frame c) = replicate 40 0 @ to_be64 c @ replicate 16 0"
    unfolding probe_frame_def append_assoc [symmetric] n by simp
  moreover have "slice 50 58 (probe_frame c) = to_be64 c" by (simp add: probe_frame_def slice_def)
  moreover have "length (probe_frame c) = 74" by (simp add: probe_frame_def)
  moreover have "probe_frame c ! 0 = TUNNEL_VERSION" "probe_frame c ! 1 = OBS_DATA_TYPE" by (simp_all add: probe_frame_def)
  moreover have "(replicate 40 0 @ to_be64 c @ replicate 16 0) ! 6 = (0 :: u8)" by (simp add: nth_append)
  ultimately show ?thesis using z by (simp add: frame_meta_def plain_segment_len_def const_defs Let_def)
qed

lemma loss_reported_witness:
  "\<exists>B0 f1 B1 f2 A1 A2. maybe_build_report 0 1 plain_node = (B0, Some f1)
     \<and> maybe_build_report 200 9 (fold feed [(5, Path_Main, probe_frame 1), (6, Path_Alt, probe_frame 1), (7, Path_Alt, probe_frame 3)] B0) = (B1, Some f2)
     \<and> ingest_report 1 2 f1 plain_node = (A1, Ok ()) \<and> ingest_report 3 4 f2 A1 = (A2, Ok ())
     \<and> (let (expected, seen) = fst (last_union_delta A2) in unat seen = 2 \<and> unat expected = 3)"
proof -
  let ?evs = "[(5, Path_Main, probe_frame 1), (6, Path_Alt, probe_frame 1), (7, Path_Alt, probe_frame 3)]"
  obtain B0 f1 where b: "maybe_build_report 0 1 plain_node = (B0, Some f1)" "on_last_report_ms B0 = Some 0" "on_cfg B0 = on_cfg plain_node"
    using build_due [of plain_node 0 1] plain_node_facts(2) by fastforce
  have feed: "on_last_report_ms (feed ev n) = on_last_report_ms n \<and> on_cfg (feed ev n) = on_cfg n \<and> (node_wf n \<longrightarrow> node_wf (feed ev n))" for ev n
    using observe_inbound_wf
    by (auto simp: feed_def observe_inbound_def rx_observe_def path_observe_def split: path_id.splits option.splits prod.splits)
  have fold: "on_last_report_ms (fold feed es n) = on_last_report_ms n \<and> on_cfg (fold feed es n) = on_cfg n" for es n
    by (induction es arbitrary: n) (simp_all add: feed)
  have "oc_report_interval_ms (on_cfg B0) = 200" using b(3) by (simp add: plain_node_def observe_new_def observe_config_default_def)
  then have "on_last_report_ms (fold feed ?evs B0) = Some 0 \<and> oc_report_interval_ms (on_cfg (fold feed ?evs B0)) \<le> sat_sub 200 0"
    using fold [of ?evs B0] b(2) unfolding sat_sub_def by simp
  then obtain B1 f2 where b2: "maybe_build_report 200 9 (fold feed ?evs B0) = (B1, Some f2)"
    using build_due [of "fold feed ?evs B0" 200 9] by blast
  obtain r1 r2 where r: "decode_report f1 = Inr r1" "decode_report f2 = Inr r2" using build_reports [OF b(1)] build_reports [OF b2] by blast
  obtain A1 where a1: "ingest_report 1 2 f1 plain_node = (A1, Ok ())" "node_wf A1" using ingest_ok [OF plain_node_facts(1) r(1)] by blast
  obtain A2 where a2: "ingest_report 3 4 f2 A1 = (A2, Ok ())" using ingest_ok [OF a1(2) r(2)] by blast
  have card: "card ({1..Max {1, 3 :: nat}} - {1, 3}) = 1"
  proof -
    have "{1..Max {1, 3 :: nat}} - {1, 3} = {2}" by auto
    then show ?thesis by simp
  qed
  have "let (expected, seen) = fst (last_union_delta A2); R = unat ` set [1 :: u64, 1, 3] in
      unat seen = card R \<and> unat expected = unat seen + card ({unat (1 :: u64)..Max R} - R)"
    by (rule loss_reported [OF b(1) [unfolded plain_node_def] b2 a1(1) a2, of 0]) (simp_all add: probe_frame_meta const_defs)
  then show ?thesis using b(1) b2 a1(1) a2 card by (fastforce simp: Let_def)
qed

end
