(* ===== verification/ResolverStore.thy ===== *)
theory ResolverStore
  imports TunnelAuth
begin

text \<open>
  The storage of the resolver: the node record and the \<open>Store\<close> trait of \<open>cloud/resolver/src/lib.rs\<close> with the
  memory store, and the cache in front of any store of \<open>cached_store.rs\<close>. The trait is the locale
  \<open>entry_store\<close>, whose laws say that a store is a map from addresses to entries; the cache is shown to be a
  store whenever what it caches is one (\<open>sublocale\<close>). The operations of a store are a record, the dictionary of
  the trait. \<open>Instant\<close> and \<open>Duration\<close> are nanoseconds, a \<open>String\<close> is its UTF-8 bytes, and
  \<open>LruCache\<close> of the crate \<open>lru\<close> is a parameter.
\<close>

section \<open>Node records\<close>

definition secs :: "nat \<Rightarrow> nat" where
  "secs n = n * 1000000000"

definition DEFAULT_TTL :: nat where [const_defs]: "DEFAULT_TTL = secs 300"
definition MAX_TTL_SECS :: nat where [const_defs]: "MAX_TTL_SECS = 24 * 3600"
definition RESOLVER_MTU :: u32 where [const_defs]: "RESOLVER_MTU = 1432"
definition OBSERVED_MAX_AGE :: nat where [const_defs]: "OBSERVED_MAX_AGE = secs 90"
definition MAX_LOCAL_CANDIDATES :: nat where [const_defs]: "MAX_LOCAL_CANDIDATES = 8"
definition MAX_CANDIDATE_LEN :: nat where [const_defs]: "MAX_CANDIDATE_LEN = 64"

record node_record =
  nr_tunnel_entry :: bytes
  nr_alt_entries :: "bytes list"
  nr_ipv8_capable :: bool
  nr_mtu :: u32
  nr_registered_at :: nat
  nr_ttl :: nat
  nr_observed :: "(bytes \<times> nat) option"
  nr_local_candidates :: "bytes list"

record entry =
  en_ed_pub :: bytes
  en_rec :: node_record

text \<open>\<open>add_secs\<close> adds without overflow; the instants that occur are far from the end of the clock.\<close>

definition add_secs :: "nat \<Rightarrow> nat \<Rightarrow> nat" where
  "add_secs base d = base + d"

definition rec_expired :: "node_record \<Rightarrow> nat \<Rightarrow> bool" where
  "rec_expired r now \<longleftrightarrow> add_secs (nr_registered_at r) (nr_ttl r) \<le> now"

definition fresh_observed :: "node_record \<Rightarrow> nat \<Rightarrow> bytes option" where
  "fresh_observed r now = (case nr_observed r of
     Some (a, t) \<Rightarrow> if now - t \<le> OBSERVED_MAX_AGE then Some a else None
   | None \<Rightarrow> None)"

abbreviation entry_expired :: "nat \<Rightarrow> entry \<Rightarrow> bool" where
  "entry_expired now e \<equiv> rec_expired (en_rec e) now"

section \<open>The trait\<close>

text \<open>
  \<open>get\<close> may change a store (a cache does) and may look at the clock; it returns the store. \<open>sweep\<close> counts
  what it removed.
\<close>

record 's store_ops =
  so_get :: "nat \<Rightarrow> ipv8_address \<Rightarrow> 's \<Rightarrow> 's \<times> entry option"
  so_insert :: "ipv8_address \<Rightarrow> entry \<Rightarrow> 's \<Rightarrow> 's"
  so_sweep :: "nat \<Rightarrow> 's \<Rightarrow> 's \<times> nat"
  so_len :: "'s \<Rightarrow> nat"

definition store_is_empty :: "'s store_ops \<Rightarrow> 's \<Rightarrow> bool" where
  "store_is_empty ops s \<longleftrightarrow> so_len ops s = 0"

text \<open>The contents after a sweep.\<close>

definition swept :: "nat \<Rightarrow> (ipv8_address \<rightharpoonup> entry) \<Rightarrow> (ipv8_address \<rightharpoonup> entry)" where
  "swept now m = (\<lambda>a. case m a of Some e \<Rightarrow> if entry_expired now e then None else Some e | None \<Rightarrow> None)"

locale entry_store =
  fixes ops :: "'s store_ops" and view :: "'s \<Rightarrow> (ipv8_address \<rightharpoonup> entry)" and ok :: "'s \<Rightarrow> bool"
  assumes get: "ok s \<Longrightarrow> so_get ops t a s = (s', r) \<Longrightarrow> r = view s a \<and> view s' = view s \<and> ok s'"
    and insert: "ok s \<Longrightarrow> view (so_insert ops a e s) = (view s)(a \<mapsto> e) \<and> ok (so_insert ops a e s)"
    and sweep: "ok s \<Longrightarrow> so_sweep ops t s = (s', n) \<Longrightarrow> view s' = swept t (view s) \<and> ok s'"

text \<open>How many entries a sweep of the contents has to remove.\<close>

definition expired_count :: "nat \<Rightarrow> (ipv8_address \<rightharpoonup> entry) \<Rightarrow> nat" where
  "expired_count now m = card {a. \<exists>e. m a = Some e \<and> entry_expired now e}"

text \<open>
  A store that counts what a sweep removes, up to \<open>copies\<close> times each: a cache in front of a store counts an entry that it
  holds besides.
\<close>

locale counted_store = entry_store ops view ok
  for ops :: "'s store_ops" and view :: "'s \<Rightarrow> (ipv8_address \<rightharpoonup> entry)" and ok :: "'s \<Rightarrow> bool" +
  fixes copies :: nat
  assumes fin: "ok s \<Longrightarrow> finite (dom (view s))"
    and count: "ok s \<Longrightarrow> so_sweep ops t s = (s', n) \<Longrightarrow> expired_count t (view s) \<le> n \<and> n \<le> copies * expired_count t (view s)"

section \<open>The memory store\<close>

type_synonym mem_store = "(ipv8_address \<times> entry) list"

definition mem_get :: "nat \<Rightarrow> ipv8_address \<Rightarrow> mem_store \<Rightarrow> mem_store \<times> entry option" where
  "mem_get t a s = (s, map_of s a)"

definition mem_insert :: "ipv8_address \<Rightarrow> entry \<Rightarrow> mem_store \<Rightarrow> mem_store" where
  "mem_insert a e s = AList.update a e s"

definition mem_sweep :: "nat \<Rightarrow> mem_store \<Rightarrow> mem_store \<times> nat" where
  "mem_sweep now s = (let s' = filter (\<lambda>(_, e). \<not> entry_expired now e) s in (s', length s - length s'))"

definition mem_ops :: "mem_store store_ops" where
  "mem_ops = \<lparr> so_get = mem_get, so_insert = mem_insert, so_sweep = mem_sweep, so_len = length \<rparr>"

definition mem_inv :: "mem_store \<Rightarrow> bool" where
  "mem_inv s \<longleftrightarrow> distinct (map fst s)"

lemma map_of_filter_value: "distinct (map fst s) \<Longrightarrow>
  map_of (filter (\<lambda>(_, e). P e) s) a = (case map_of s a of Some e \<Rightarrow> if P e then Some e else None | None \<Rightarrow> None)"
  by (induction s) (auto simp: map_of_eq_None_iff split: option.split)

lemma distinct_filter_keys: "distinct (map fst s) \<Longrightarrow> distinct (map fst (filter P s))"
  by (induction s) auto

lemma mem_sweep_count:
  assumes "mem_inv s" "mem_sweep t s = (s', n)"
  shows "n = expired_count t (map_of s)"
proof -
  let ?gone = "filter (\<lambda>(_, e). entry_expired t e) s"
  have "length (filter (\<lambda>(_, e). \<not> entry_expired t e) s) + length ?gone = length s"
    using sum_length_filter_compl [of "\<lambda>(_, e). \<not> entry_expired t e" s] by (simp add: case_prod_unfold)
  then have "n = length ?gone" using assms(2) by (auto simp: mem_sweep_def Let_def)
  also have "\<dots> = card (set (map fst ?gone))"
    using distinct_card [of "map fst ?gone"] assms(1) by (simp add: mem_inv_def distinct_filter_keys)
  also have "set (map fst ?gone) = {a. \<exists>e. map_of s a = Some e \<and> entry_expired t e}"
    using assms(1) by (force simp: mem_inv_def)
  finally show ?thesis by (simp add: expired_count_def)
qed

interpretation mem: counted_store mem_ops map_of mem_inv 1
proof
  show "map_of s' = swept t (map_of s) \<and> mem_inv s'" if "mem_inv s" "so_sweep mem_ops t s = (s', n)" for s t s' n
    using that map_of_filter_value [of s "\<lambda>e. \<not> entry_expired t e"]
    by (auto simp: mem_ops_def mem_sweep_def mem_inv_def swept_def Let_def distinct_filter_keys fun_eq_iff split: option.split)
  show "expired_count t (map_of s) \<le> n \<and> n \<le> 1 * expired_count t (map_of s)" if "mem_inv s" "so_sweep mem_ops t s = (s', n)" for s t s' n
    using mem_sweep_count [of s t s' n] that by (simp add: mem_ops_def)
qed (auto simp: mem_ops_def mem_get_def mem_insert_def mem_inv_def update_conv' distinct_update finite_dom_map_of)

section \<open>The cache\<close>

text \<open>\<open>LruCache\<close>: what the code calls of it; \<open>get\<close> promotes the entry, \<open>put\<close> may evict others.\<close>

record 'c lru =
  lru_new :: "nat \<Rightarrow> 'c"
  lru_get :: "ipv8_address \<Rightarrow> 'c \<Rightarrow> 'c \<times> entry option"
  lru_put :: "ipv8_address \<Rightarrow> entry \<Rightarrow> 'c \<Rightarrow> 'c"
  lru_pop :: "ipv8_address \<Rightarrow> 'c \<Rightarrow> 'c"
  lru_items :: "'c \<Rightarrow> (ipv8_address \<times> entry) list"

record cache_config =
  cc_max_entries :: nat
  cc_negative_ttl :: nat

definition cache_config_default :: cache_config where
  "cache_config_default = \<lparr> cc_max_entries = 10000, cc_negative_ttl = secs 10 \<rparr>"

record cache_stats =
  cs_hits :: nat
  cs_misses :: nat
  cs_negative_hits :: nat
  cs_writes :: nat

record ('s, 'c) cached =
  ca_inner :: 's
  ca_config :: cache_config
  ca_cache :: 'c
  ca_negative :: "ipv8_address \<rightharpoonup> nat"
  ca_stats :: cache_stats

text \<open>A capacity of 0 is a panic.\<close>

definition cached_new :: "'c lru \<Rightarrow> 's \<Rightarrow> cache_config \<Rightarrow> ('s, 'c) cached option" where
  "cached_new L inner config = (if cc_max_entries config = 0 then None
     else Some \<lparr> ca_inner = inner, ca_config = config, ca_cache = lru_new L (cc_max_entries config), ca_negative = Map.empty,
       ca_stats = \<lparr> cs_hits = 0, cs_misses = 0, cs_negative_hits = 0, cs_writes = 0 \<rparr> \<rparr>)"

definition cached_miss :: "'c lru \<Rightarrow> 's store_ops \<Rightarrow> nat \<Rightarrow> ipv8_address \<Rightarrow> ('s, 'c) cached \<Rightarrow> ('s, 'c) cached \<times> entry option" where
  "cached_miss L ops now a s = (
     let s = s\<lparr> ca_stats := (ca_stats s)\<lparr> cs_misses := cs_misses (ca_stats s) + 1 \<rparr> \<rparr>
     in case so_get ops now a (ca_inner s) of
          (inner, Some e) \<Rightarrow> (s\<lparr> ca_inner := inner, ca_cache := lru_put L a e (ca_cache s) \<rparr>, Some e)
        | (inner, None) \<Rightarrow> (s\<lparr> ca_inner := inner, ca_negative := (ca_negative s)(a \<mapsto> now + cc_negative_ttl (ca_config s)) \<rparr>, None))"

definition cached_get :: "'c lru \<Rightarrow> 's store_ops \<Rightarrow> nat \<Rightarrow> ipv8_address \<Rightarrow> ('s, 'c) cached \<Rightarrow> ('s, 'c) cached \<times> entry option" where
  "cached_get L ops now a s = (case lru_get L a (ca_cache s) of
     (c, Some e) \<Rightarrow> (s\<lparr> ca_cache := c, ca_stats := (ca_stats s)\<lparr> cs_hits := cs_hits (ca_stats s) + 1 \<rparr> \<rparr>, Some e)
   | (c, None) \<Rightarrow>
       let s = s\<lparr> ca_cache := c \<rparr>
       in case ca_negative s a of
            Some expires_at \<Rightarrow>
              if expires_at > now
              then (s\<lparr> ca_stats := (ca_stats s)\<lparr> cs_negative_hits := cs_negative_hits (ca_stats s) + 1 \<rparr> \<rparr>, None)
              else cached_miss L ops now a (s\<lparr> ca_negative := (ca_negative s)(a := None) \<rparr>)
          | None \<Rightarrow> cached_miss L ops now a s)"

definition cached_insert :: "'c lru \<Rightarrow> 's store_ops \<Rightarrow> ipv8_address \<Rightarrow> entry \<Rightarrow> ('s, 'c) cached \<Rightarrow> ('s, 'c) cached" where
  "cached_insert L ops a e s = s\<lparr> ca_inner := so_insert ops a e (ca_inner s),
     ca_stats := (ca_stats s)\<lparr> cs_writes := cs_writes (ca_stats s) + 1 \<rparr>,
     ca_cache := lru_put L a e (ca_cache s), ca_negative := (ca_negative s)(a := None) \<rparr>"

definition cached_sweep :: "'c lru \<Rightarrow> 's store_ops \<Rightarrow> nat \<Rightarrow> ('s, 'c) cached \<Rightarrow> ('s, 'c) cached \<times> nat" where
  "cached_sweep L ops now s = (case so_sweep ops now (ca_inner s) of (inner, removed_inner) \<Rightarrow>
     let expired_keys = map fst (filter (\<lambda>(_, e). entry_expired now e) (lru_items L (ca_cache s)))
     in (s\<lparr> ca_inner := inner, ca_cache := fold (lru_pop L) expired_keys (ca_cache s),
            ca_negative := (\<lambda>a. case ca_negative s a of Some t \<Rightarrow> if t > now then Some t else None | None \<Rightarrow> None) \<rparr>,
         removed_inner + length expired_keys))"

definition cached_ops :: "'c lru \<Rightarrow> 's store_ops \<Rightarrow> ('s, 'c) cached store_ops" where
  "cached_ops L ops = \<lparr> so_get = cached_get L ops, so_insert = cached_insert L ops, so_sweep = cached_sweep L ops,
     so_len = (\<lambda>s. so_len ops (ca_inner s)) \<rparr>"

text \<open>
  The documented behaviour of \<open>LruCache\<close>: \<open>get\<close> finds what the cache holds and changes only the order,
  \<open>put\<close> adds its entry and at most forgets others, \<open>pop\<close> removes one, the iterator lists the contents, each once.
\<close>

definition lru_ok :: "'c lru \<Rightarrow> ('c \<Rightarrow> (ipv8_address \<rightharpoonup> entry)) \<Rightarrow> bool" where
  "lru_ok L held \<longleftrightarrow> (\<forall>n. held (lru_new L n) = Map.empty)
     \<and> (\<forall>a c c' r. lru_get L a c = (c', r) \<longrightarrow> r = held c a \<and> held c' = held c)
     \<and> (\<forall>a e c. held (lru_put L a e c) \<subseteq>\<^sub>m (held c)(a \<mapsto> e))
     \<and> (\<forall>a c. held (lru_pop L a c) = (held c)(a := None))
     \<and> (\<forall>a e c. (a, e) \<in> set (lru_items L c) \<longleftrightarrow> held c a = Some e) \<and> (\<forall>c. distinct (map fst (lru_items L c)))"

text \<open>What a cache knows is what the store holds, and what it knows to be missing is missing.\<close>

definition cached_inv :: "('s \<Rightarrow> (ipv8_address \<rightharpoonup> entry)) \<Rightarrow> ('s \<Rightarrow> bool) \<Rightarrow> ('c \<Rightarrow> (ipv8_address \<rightharpoonup> entry)) \<Rightarrow>
    ('s, 'c) cached \<Rightarrow> bool" where
  "cached_inv view ok held s \<longleftrightarrow> ok (ca_inner s) \<and> held (ca_cache s) \<subseteq>\<^sub>m view (ca_inner s)
     \<and> (\<forall>a t. ca_negative s a = Some t \<longrightarrow> view (ca_inner s) a = None)"

lemma map_le_Some: "f \<subseteq>\<^sub>m g \<longleftrightarrow> (\<forall>a e. f a = Some e \<longrightarrow> g a = Some e)"
  by (fastforce simp: map_le_def dom_def)

locale cached_store = counted_store ops view ok copies
  for ops :: "'s store_ops" and view :: "'s \<Rightarrow> (ipv8_address \<rightharpoonup> entry)" and ok :: "'s \<Rightarrow> bool" and copies :: nat +
  fixes L :: "'c lru" and held :: "'c \<Rightarrow> (ipv8_address \<rightharpoonup> entry)"
  assumes lru: "lru_ok L held"
begin

lemma get_held: "lru_get L a c = (c', r) \<Longrightarrow> r = held c a \<and> held c' = held c"
  and put_held: "held (lru_put L a e c) \<subseteq>\<^sub>m (held c)(a \<mapsto> e)"
  and pop_held: "held (lru_pop L a c) = (held c)(a := None)"
  and items_held: "(a, e) \<in> set (lru_items L c) \<longleftrightarrow> held c a = Some e"
  and items_distinct: "distinct (map fst (lru_items L c))"
  using lru unfolding lru_ok_def by blast+

lemma pops_held: "held (fold (lru_pop L) ks c) = (\<lambda>a. if a \<in> set ks then None else held c a)"
  by (induction ks arbitrary: c) (auto simp: pop_held fun_eq_iff)

lemma miss:
  assumes "cached_inv view ok held s" "cached_miss L ops t a s = (s', r)"
  shows "r = view (ca_inner s) a \<and> view (ca_inner s') = view (ca_inner s) \<and> cached_inv view ok held s'"
proof -
  obtain inner r' where g: "so_get ops t a (ca_inner s) = (inner, r')" by (metis surj_pair)
  from get [OF _ g] assms(1) have i: "r' = view (ca_inner s) a" "view inner = view (ca_inner s)" "ok inner"
    by (auto simp: cached_inv_def)
  show ?thesis
  proof (cases r')
    case None
    then show ?thesis using assms g i by (auto simp: cached_miss_def Let_def cached_inv_def split: if_splits)
  next
    case (Some e)
    have "held (lru_put L a e (ca_cache s)) \<subseteq>\<^sub>m view inner"
      using put_held [of a e "ca_cache s"] assms(1) i Some
      by (auto simp: cached_inv_def map_le_Some split: if_splits)
    moreover have "so_get ops t a (ca_inner s) = (inner, Some e)" "view (ca_inner s) a = Some e" using g i(1) Some by auto
    ultimately show ?thesis using assms i(2,3) by (auto simp: cached_miss_def Let_def cached_inv_def)
  qed
qed

text \<open>The entries that the cache drops in a sweep are among those that the store drops.\<close>

lemma cached_count:
  assumes "cached_inv view ok held s" "cached_sweep L ops t s = (s', n)"
  shows "expired_count t (view (ca_inner s)) \<le> n \<and> n \<le> Suc copies * expired_count t (view (ca_inner s))"
proof -
  obtain inner k where g: "so_sweep ops t (ca_inner s) = (inner, k)" by (metis surj_pair)
  have wf: "ok (ca_inner s)" "held (ca_cache s) \<subseteq>\<^sub>m view (ca_inner s)" using assms(1) by (simp_all add: cached_inv_def)
  let ?ks = "map fst (filter (\<lambda>(_, e). entry_expired t e) (lru_items L (ca_cache s)))"
  let ?gone = "{a. \<exists>e. view (ca_inner s) a = Some e \<and> entry_expired t e}"
  have "distinct ?ks" using items_distinct by (simp add: distinct_filter_keys)
  then have len: "card (set ?ks) = length ?ks" by (rule distinct_card)
  have sub: "set ?ks \<subseteq> ?gone"
  proof
    fix a
    assume "a \<in> set ?ks"
    then obtain e where "(a, e) \<in> set (lru_items L (ca_cache s))" "entry_expired t e" by auto
    then show "a \<in> ?gone" using wf(2) items_held unfolding map_le_Some by blast
  qed
  have "finite ?gone" by (rule finite_subset [OF _ fin [OF wf(1)]]) auto
  from card_mono [OF this sub] have "length ?ks \<le> expired_count t (view (ca_inner s))" unfolding expired_count_def len .
  moreover have "n = k + length ?ks" using assms(2) g by (auto simp: cached_sweep_def Let_def)
  ultimately show ?thesis using count [OF wf(1) g] by simp
qed

sublocale cached: counted_store "cached_ops L ops" "\<lambda>s. view (ca_inner s)" "cached_inv view ok held" "Suc copies"
proof
  show "finite (dom (view (ca_inner s)))" if "cached_inv view ok held s" for s
    using that fin by (simp add: cached_inv_def)
  show "expired_count t (view (ca_inner s)) \<le> n \<and> n \<le> Suc copies * expired_count t (view (ca_inner s))"
    if "cached_inv view ok held s" "so_sweep (cached_ops L ops) t s = (s', n)" for s t s' n
    using cached_count that by (simp add: cached_ops_def)
  show "r = view (ca_inner s) a \<and> view (ca_inner s') = view (ca_inner s) \<and> cached_inv view ok held s'"
    if "cached_inv view ok held s" "so_get (cached_ops L ops) t a s = (s', r)" for s t a s' r
  proof -
    obtain c r' where g: "lru_get L a (ca_cache s) = (c, r')" by (metis surj_pair)
    note h = get_held [OF g]
    show ?thesis
    proof (cases r')
      case (Some e)
      have "view (ca_inner s) a = Some e" using that(1) h Some unfolding cached_inv_def map_le_Some by metis
      moreover have "lru_get L a (ca_cache s) = (c, Some e)" "held c = held (ca_cache s)" using g h Some by auto
      ultimately show ?thesis using that by (auto simp: cached_ops_def cached_get_def cached_inv_def)
    next
      case None
      have c: "cached_inv view ok held (s\<lparr> ca_cache := c \<rparr>)"
        "cached_inv view ok held (s\<lparr> ca_cache := c, ca_negative := (ca_negative s)(a := None) \<rparr>)"
        using that(1) h by (auto simp: cached_inv_def)
      show ?thesis
        using that(2) g None miss [OF c(1), of t a s' r] miss [OF c(2), of t a s' r] c(1) that(1)
        by (auto simp: cached_ops_def cached_get_def Let_def cached_inv_def split: option.splits if_splits)
    qed
  qed
  show "view (ca_inner (so_insert (cached_ops L ops) a e s)) = (view (ca_inner s))(a \<mapsto> e)
      \<and> cached_inv view ok held (so_insert (cached_ops L ops) a e s)"
    if "cached_inv view ok held s" for s a e
  proof -
    have "held (lru_put L a e (ca_cache s)) \<subseteq>\<^sub>m (view (ca_inner s))(a \<mapsto> e)"
      using put_held [of a e "ca_cache s"] that by (auto simp: cached_inv_def map_le_Some split: if_splits)
    then show ?thesis using that insert [of "ca_inner s" a e]
      by (auto simp: cached_ops_def cached_insert_def cached_inv_def)
  qed
  show "view (ca_inner s') = swept t (view (ca_inner s)) \<and> cached_inv view ok held s'"
    if wf: "cached_inv view ok held s" and sw: "so_sweep (cached_ops L ops) t s = (s', n)" for s t s' n
  proof -
    obtain inner k where g: "so_sweep ops t (ca_inner s) = (inner, k)" by (metis surj_pair)
    from sweep [OF _ g] wf have i: "view inner = swept t (view (ca_inner s))" "ok inner" by (auto simp: cached_inv_def)
    let ?ks = "map fst (filter (\<lambda>(_, e). entry_expired t e) (lru_items L (ca_cache s)))"
    have "(a \<in> set ?ks) = (\<exists>e. held (ca_cache s) a = Some e \<and> entry_expired t e)" for a
      using items_held by force
    then have "held (fold (lru_pop L) ?ks (ca_cache s)) \<subseteq>\<^sub>m swept t (view (ca_inner s))"
      using wf by (auto simp: pops_held map_le_Some swept_def cached_inv_def split: if_splits)
    then show ?thesis using sw g i wf
      by (auto simp: cached_ops_def cached_sweep_def cached_inv_def Let_def swept_def split: option.splits if_splits)
  qed
qed

end

text \<open>A list, most recently used first, that drops its tail: one \<open>LruCache\<close>.\<close>

definition list_lru :: "(nat \<times> (ipv8_address \<times> entry) list) lru" where
  "list_lru = \<lparr> lru_new = (\<lambda>n. (n, [])),
     lru_get = (\<lambda>a (n, es). case map_of es a of None \<Rightarrow> ((n, es), None)
       | Some e \<Rightarrow> ((n, (a, e) # filter (\<lambda>(k, _). k \<noteq> a) es), Some e)),
     lru_put = (\<lambda>a e (n, es). (n, take n ((a, e) # filter (\<lambda>(k, _). k \<noteq> a) es))),
     lru_pop = (\<lambda>a (n, es). (n, filter (\<lambda>(k, _). k \<noteq> a) es)),
     lru_items = (\<lambda>(n, es). AList.clearjunk es) \<rparr>"

lemma map_of_without: "map_of (filter (\<lambda>(k, _). k \<noteq> a) es) = (map_of es)(a := None)"
  by (induction es) (auto simp: fun_eq_iff)

lemma map_of_take_le: "map_of (take n es) \<subseteq>\<^sub>m map_of es"
proof (induction es arbitrary: n)
  case (Cons x es)
  then show ?case by (cases n) (auto simp: map_le_Some)
qed simp

lemma list_lru_ok: "lru_ok list_lru (\<lambda>(n, es). map_of es)"
proof -
  have "map_of (take n ((a, e) # filter (\<lambda>(k, _). k \<noteq> a) es)) \<subseteq>\<^sub>m (map_of es)(a \<mapsto> e)" for n and a :: ipv8_address and e :: entry and es
    using map_of_take_le [of n "(a, e) # filter (\<lambda>(k, _). k \<noteq> a) es"] by (simp add: map_of_without)
  moreover have "(a, e) \<in> set (AList.clearjunk es) \<longleftrightarrow> map_of es a = Some e" for a :: ipv8_address and e :: entry and es
    using map_of_eq_Some_iff [OF distinct_clearjunk, of es a e] by (simp add: map_of_clearjunk)
  ultimately show ?thesis
    by (auto simp: lru_ok_def list_lru_def map_of_without distinct_clearjunk fun_eq_iff split: option.splits)
qed

interpretation mem_cached: cached_store mem_ops map_of mem_inv 1 list_lru "\<lambda>(n, es). map_of es"
  by unfold_locales (rule list_lru_ok)

text \<open>What the cache holds besides the store is counted twice.\<close>

lemma cached_sweep_counts_twice:
  assumes "cached_new list_lru [] config = Some s" "entry_expired now e"
  shows "snd (cached_sweep list_lru mem_ops now (cached_insert list_lru mem_ops a e s)) = 2"
  using assms
  by (auto simp: cached_new_def cached_insert_def cached_sweep_def mem_ops_def mem_insert_def mem_sweep_def list_lru_def take_Cons
      split: if_splits nat.splits)

end
