(* ===== verification/Resolver.thy ===== *)
theory Resolver
  imports ResolverStore
begin

text \<open>
  The resolver service, \<open>cloud/resolver/src/lib.rs\<close>: registration of tunnel entries with proof of
  possession, resolution, the rendezvous of two nodes for hole punching, and the sweep, over any store. Within the
  locale of the stores the service over a store is shown to refine the service over a plain map; the properties
  are proved for the map and carried over to the memory store behind the cache.
\<close>

section \<open>Messages and errors\<close>

datatype resolve_error = Res_BadAddress | Res_NotFound | Res_BadProof | Res_KeyConflict ipv8_address

definition RESOLVE_DOMAIN :: bytes where
  "RESOLVE_DOMAIN = map of_char ''ipv8plus-resolve''"

definition RENDEZVOUS_DOMAIN :: bytes where
  "RENDEZVOUS_DOMAIN = map of_char ''ipv8plus-rendezvous''"

definition resolve_pop_message :: "bytes \<Rightarrow> bytes \<Rightarrow> bytes" where
  "resolve_pop_message addr_text ed_pub = RESOLVE_DOMAIN @ addr_text @ ed_pub"

definition rendezvous_pop_message :: "bytes \<Rightarrow> bytes \<Rightarrow> bytes" where
  "rendezvous_pop_message addr_text peer_text = RENDEZVOUS_DOMAIN @ addr_text @ peer_text"

record resolved_node =
  rv_tunnel_entry :: bytes
  rv_alt_entries :: "bytes list"
  rv_ipv8_capable :: bool
  rv_mtu :: u32
  rv_ttl :: nat

record rendezvous_outcome =
  ro_peer_candidates :: "bytes list"
  ro_self_observed :: "bytes option"
  ro_ttl :: nat

record register_spec =
  rs_addr_text :: bytes
  rs_ed_pub :: bytes
  rs_proof :: bytes
  rs_tunnel_entry :: bytes
  rs_alt_entries :: "bytes list"
  rs_ipv8_capable :: bool
  rs_mtu :: u32
  rs_ttl_secs :: u64
  rs_observed :: "bytes option"

record register_outcome =
  rg_ttl :: nat
  rg_observed :: "bytes option"

text \<open>\<open>chars()\<close> of a UTF-8 string, each character as its bytes, and \<open>is_control\<close>.\<close>

fun utf8_chars :: "bytes \<Rightarrow> bytes list" where
  "utf8_chars [] = []"
| "utf8_chars (b # bs) = (let n = (if b < 0x80 then 0 else if b < 0xE0 then 1 else if b < 0xF0 then 2 else 3)
     in (b # take n bs) # utf8_chars (drop n bs))"

definition is_control :: "bytes \<Rightarrow> bool" where
  "is_control ch \<longleftrightarrow> (case ch of [b] \<Rightarrow> b < 0x20 \<or> b = 0x7F | [b, c] \<Rightarrow> b = 0xC2 \<and> c \<le> 0x9F | _ \<Rightarrow> False)"

definition sanitize_candidates :: "bytes list \<Rightarrow> bytes list" where
  "sanitize_candidates xs = filter (\<lambda>t. t \<noteq> [])
     (map (\<lambda>s. concat (filter (\<lambda>ch. \<not> is_control ch) (take MAX_CANDIDATE_LEN (utf8_chars s)))) (take MAX_LOCAL_CANDIDATES xs))"

definition COLON :: u8 where [const_defs]: "COLON = 0x3A"

text \<open>\<open>rsplit_once(':')\<close>.\<close>

definition rsplit_colon :: "bytes \<Rightarrow> (bytes \<times> bytes) option" where
  "rsplit_colon s = (if COLON \<notin> set s then None
     else let port = rev (takeWhile (\<lambda>b. b \<noteq> COLON) (rev s)) in Some (take (length s - length port - 1) s, port))"

section \<open>The service\<close>

definition parse_sig :: "bytes \<Rightarrow> resolve_error + bytes" where
  "parse_sig proof_bytes = (if length proof_bytes = 64 then Inr proof_bytes else Inl Res_BadProof)"

definition verify_proof :: "ed25519 \<Rightarrow> bytes \<Rightarrow> bytes \<Rightarrow> bytes \<Rightarrow> resolve_error + unit" where
  "verify_proof ed key msg proof_bytes = (case parse_sig proof_bytes of
     Inl e \<Rightarrow> Inl e
   | Inr sig \<Rightarrow> if ed_verify ed key msg sig then Inr () else Inl Res_BadProof)"

definition effective_ttl :: "u64 \<Rightarrow> nat" where
  "effective_ttl ttl_secs = (if ttl_secs = 0 then DEFAULT_TTL else secs (min (max 1 (unat ttl_secs)) MAX_TTL_SECS))"

text \<open>Who may register the address: the holder of the key that is there without a proof, anyone else with one.\<close>

definition may_register :: "ed25519 \<Rightarrow> register_spec \<Rightarrow> ipv8_address \<Rightarrow> nat \<Rightarrow> entry option \<Rightarrow> resolve_error + unit" where
  "may_register ed spec addr now existing = (
     let prove = verify_proof ed (rs_ed_pub spec) (resolve_pop_message (rs_addr_text spec) (rs_ed_pub spec)) (rs_proof spec)
     in case existing of
          Some e \<Rightarrow> if en_ed_pub e = rs_ed_pub spec then Inr ()
                    else if entry_expired now e then prove else Inl (Res_KeyConflict addr)
        | None \<Rightarrow> prove)"

definition next_observed :: "register_spec \<Rightarrow> nat \<Rightarrow> entry option \<Rightarrow> (bytes \<times> nat) option \<times> bytes list" where
  "next_observed spec now existing = (case rs_observed spec of
     Some obs \<Rightarrow> (Some (obs, now), [])
   | None \<Rightarrow> (case existing of
       Some e \<Rightarrow> if en_ed_pub e = rs_ed_pub spec then (nr_observed (en_rec e), nr_local_candidates (en_rec e)) else (None, [])
     | None \<Rightarrow> (None, [])))"

definition new_entry :: "register_spec \<Rightarrow> nat \<Rightarrow> entry option \<Rightarrow> entry" where
  "new_entry spec now existing = (case next_observed spec now existing of (observed, local_candidates) \<Rightarrow>
     \<lparr> en_ed_pub = rs_ed_pub spec, en_rec =
       \<lparr> nr_tunnel_entry = rs_tunnel_entry spec, nr_alt_entries = rs_alt_entries spec, nr_ipv8_capable = rs_ipv8_capable spec,
         nr_mtu = rs_mtu spec, nr_registered_at = now, nr_ttl = effective_ttl (rs_ttl_secs spec), nr_observed = observed,
         nr_local_candidates = local_candidates \<rparr> \<rparr>)"

definition register :: "ed25519 \<Rightarrow> 's store_ops \<Rightarrow> register_spec \<Rightarrow> nat \<Rightarrow> 's \<Rightarrow> 's \<times> (resolve_error + register_outcome)" where
  "register ed ops spec now s = (case from_canonical_str (rs_addr_text spec) of
     Inl _ \<Rightarrow> (s, Inl Res_BadAddress)
   | Inr addr \<Rightarrow>
       if length (rs_ed_pub spec) \<noteq> 32 \<or> \<not> ed_key_ok ed (rs_ed_pub spec) then (s, Inl Res_BadProof)
       else case so_get ops now addr s of (s, existing) \<Rightarrow>
         (case may_register ed spec addr now existing of
            Inl e \<Rightarrow> (s, Inl e)
          | Inr _ \<Rightarrow>
              let s = so_insert ops addr (new_entry spec now existing) s
              in case so_get ops now addr s of (s, r) \<Rightarrow>
                   (s, Inr \<lparr> rg_ttl = effective_ttl (rs_ttl_secs spec),
                     rg_observed = (case r of Some e \<Rightarrow> map_option fst (nr_observed (en_rec e)) | None \<Rightarrow> None) \<rparr>)))"

definition resolve :: "'s store_ops \<Rightarrow> bytes \<Rightarrow> nat \<Rightarrow> 's \<Rightarrow> 's \<times> (resolve_error + resolved_node)" where
  "resolve ops target_text now s = (case from_canonical_str target_text of
     Inl _ \<Rightarrow> (s, Inl Res_BadAddress)
   | Inr addr \<Rightarrow> (case so_get ops now addr s of
       (s, None) \<Rightarrow> (s, Inl Res_NotFound)
     | (s, Some e) \<Rightarrow>
         if entry_expired now e then (s, Inl Res_NotFound)
         else let r = en_rec e in
           (s, Inr \<lparr> rv_tunnel_entry = nr_tunnel_entry r, rv_alt_entries = nr_alt_entries r, rv_ipv8_capable = nr_ipv8_capable r,
              rv_mtu = (if nr_mtu r = 0 then RESOLVER_MTU else nr_mtu r), rv_ttl = nr_ttl r \<rparr>)))"

text \<open>The candidates: observed address with the registered port, observed address, then what the peer reported.\<close>

definition observed_candidates :: "node_record \<Rightarrow> nat \<Rightarrow> bytes list" where
  "observed_candidates r now = (case fresh_observed r now of
     None \<Rightarrow> []
   | Some obs \<Rightarrow>
       let candidates = (case (rsplit_colon obs, rsplit_colon (nr_tunnel_entry r)) of
             (Some (o_ip, _), Some (_, e_port)) \<Rightarrow> if e_port \<noteq> [] then [o_ip @ [COLON] @ e_port] else []
           | _ \<Rightarrow> [])
       in if obs \<in> set candidates then candidates else candidates @ [obs])"

fun add_candidates :: "bytes list \<Rightarrow> bytes list \<Rightarrow> bytes list" where
  "add_candidates candidates [] = candidates"
| "add_candidates candidates (c # cs) = (
     if length candidates > 1 + MAX_LOCAL_CANDIDATES then candidates
     else if c \<in> set candidates then add_candidates candidates cs
     else add_candidates (candidates @ [c]) cs)"

record rendezvous_request =
  rq_addr_text :: bytes
  rq_peer_text :: bytes
  rq_proof :: bytes
  rq_local_candidates :: "bytes list"
  rq_observed :: "bytes option"

definition report_in :: "rendezvous_request \<Rightarrow> nat \<Rightarrow> entry \<Rightarrow> entry" where
  "report_in q now me = (let r = en_rec me;
       r = (case rq_observed q of Some obs \<Rightarrow> r\<lparr> nr_observed := Some (obs, now) \<rparr> | None \<Rightarrow> r)
     in \<lparr> en_ed_pub = en_ed_pub me, en_rec = r\<lparr> nr_local_candidates := sanitize_candidates (rq_local_candidates q) \<rparr> \<rparr>)"

definition rendezvous :: "ed25519 \<Rightarrow> 's store_ops \<Rightarrow> rendezvous_request \<Rightarrow> nat \<Rightarrow> 's \<Rightarrow> 's \<times> (resolve_error + rendezvous_outcome)" where
  "rendezvous ed ops q now s = (case (from_canonical_str (rq_addr_text q), from_canonical_str (rq_peer_text q)) of
     (Inr addr, Inr peer) \<Rightarrow>
       (case so_get ops now addr s of
          (s, None) \<Rightarrow> (s, Inl Res_NotFound)
        | (s, Some me) \<Rightarrow>
            if entry_expired now me then (s, Inl Res_NotFound)
            else if \<not> ed_key_ok ed (en_ed_pub me) then (s, Inl Res_BadProof)
            else case verify_proof ed (en_ed_pub me) (rendezvous_pop_message (rq_addr_text q) (rq_peer_text q)) (rq_proof q) of
              Inl e \<Rightarrow> (s, Inl e)
            | Inr _ \<Rightarrow>
                (case so_get ops now peer (so_insert ops addr (report_in q now me) s) of
                   (s, None) \<Rightarrow> (s, Inl Res_NotFound)
                 | (s, Some pe) \<Rightarrow>
                     if entry_expired now pe then (s, Inl Res_NotFound)
                     else (s, Inr \<lparr> ro_peer_candidates = add_candidates (observed_candidates (en_rec pe) now) (nr_local_candidates (en_rec pe)),
                       ro_self_observed = rq_observed q, ro_ttl = OBSERVED_MAX_AGE \<rparr>)))
   | _ \<Rightarrow> (s, Inl Res_BadAddress))"

definition resolver_sweep :: "'s store_ops \<Rightarrow> nat \<Rightarrow> 's \<Rightarrow> 's \<times> nat" where
  "resolver_sweep ops now s = so_sweep ops now s"

section \<open>Every store is a map\<close>

definition map_ops :: "(ipv8_address \<rightharpoonup> entry) store_ops" where
  "map_ops = \<lparr> so_get = (\<lambda>t a m. (m, m a)), so_insert = (\<lambda>a e m. m(a \<mapsto> e)), so_sweep = (\<lambda>t m. (swept t m, expired_count t m)),
     so_len = (\<lambda>m. card (dom m)) \<rparr>"

lemma map_ops_simps [simp]:
  "so_get map_ops t a m = (m, m a)" "so_insert map_ops a e m = m(a \<mapsto> e)" "so_sweep map_ops t m = (swept t m, expired_count t m)"
  by (simp_all add: map_ops_def)

text \<open>A call of one of the four operations of the service, and its answer as the caller gets it.\<close>

datatype service_op =
    Register register_spec nat
  | Resolve bytes nat
  | Rendezvous rendezvous_request nat
  | Sweep nat

datatype service_result =
    Registered "resolve_error + register_outcome"
  | Found "resolve_error + resolved_node"
  | Met "resolve_error + rendezvous_outcome"
  | Swept nat

fun service_step :: "ed25519 \<Rightarrow> 's store_ops \<Rightarrow> service_op \<Rightarrow> 's \<Rightarrow> 's \<times> service_result" where
  "service_step ed ops (Register spec now) s = (case register ed ops spec now s of (s, r) \<Rightarrow> (s, Registered r))"
| "service_step ed ops (Resolve target now) s = (case resolve ops target now s of (s, r) \<Rightarrow> (s, Found r))"
| "service_step ed ops (Rendezvous q now) s = (case rendezvous ed ops q now s of (s, r) \<Rightarrow> (s, Met r))"
| "service_step ed ops (Sweep now) s = (case resolver_sweep ops now s of (s, n) \<Rightarrow> (s, Swept n))"

fun service_run :: "ed25519 \<Rightarrow> 's store_ops \<Rightarrow> service_op list \<Rightarrow> 's \<Rightarrow> 's \<times> service_result list" where
  "service_run ed ops [] s = (s, [])"
| "service_run ed ops (c # cs) s = (case service_step ed ops c s of (s, r) \<Rightarrow>
     (case service_run ed ops cs s of (s, rs) \<Rightarrow> (s, r # rs)))"

text \<open>Answers that agree, the count of a sweep up to \<open>copies\<close> times.\<close>

fun answers :: "nat \<Rightarrow> service_result \<Rightarrow> service_result \<Rightarrow> bool" where
  "answers copies (Swept n) (Swept k) \<longleftrightarrow> k \<le> n \<and> n \<le> copies * k"
| "answers copies r r' \<longleftrightarrow> r = r'"

lemma answers_one: "answers (Suc 0) = (=)"
proof (intro ext)
  show "answers (Suc 0) r r' = (r = r')" for r r' by (cases "(Suc 0, r, r')" rule: answers.cases) auto
qed

context counted_store
begin

lemma get_step: "ok s \<Longrightarrow> \<exists>s'. so_get ops t a s = (s', view s a) \<and> view s' = view s \<and> ok s'"
  using get by (metis surj_pair)

lemma register_refines:
  assumes "ok s"
  shows "\<exists>s' r. register ed ops spec now s = (s', r) \<and> ok s' \<and> register ed map_ops spec now (view s) = (view s', r)"
proof (cases "from_canonical_str (rs_addr_text spec)")
  case (Inr a)
  obtain s1 where g: "so_get ops now a s = (s1, view s a)" "view s1 = view s" "ok s1" using get_step [OF assms] by blast
  let ?s2 = "so_insert ops a (new_entry spec now (view s a)) s1"
  have i: "view ?s2 = (view s)(a \<mapsto> new_entry spec now (view s a))" "ok ?s2" using insert [OF g(3)] g(2) by simp_all
  obtain s3 where h: "so_get ops now a ?s2 = (s3, view ?s2 a)" "view s3 = view ?s2" "ok s3" using get_step [OF i(2)] by blast
  show ?thesis
  proof (cases "may_register ed spec a now (view s a)")
    case (Inl e)
    then show ?thesis using Inr assms g by (auto simp: register_def)
  next
    case inr: (Inr u)
    then show ?thesis using Inr assms g i h by (cases u) (auto simp: register_def Let_def)
  qed
qed (use assms in \<open>auto simp: register_def\<close>)

lemma resolve_refines:
  assumes "ok s"
  shows "\<exists>s' r. resolve ops target now s = (s', r) \<and> ok s' \<and> resolve map_ops target now (view s) = (view s', r)"
proof (cases "from_canonical_str target")
  case (Inr a)
  obtain s1 where "so_get ops now a s = (s1, view s a)" "view s1 = view s" "ok s1" using get_step [OF assms] by blast
  then show ?thesis using Inr by (cases "view s a") (auto simp: resolve_def Let_def)
qed (use assms in \<open>auto simp: resolve_def\<close>)

lemma rendezvous_refines:
  assumes "ok s"
  shows "\<exists>s' r. rendezvous ed ops q now s = (s', r) \<and> ok s' \<and> rendezvous ed map_ops q now (view s) = (view s', r)"
proof (cases "from_canonical_str (rq_addr_text q)")
  case addr: (Inr a)
  show ?thesis
  proof (cases "from_canonical_str (rq_peer_text q)")
    case peer: (Inr p)
    obtain s1 where g: "so_get ops now a s = (s1, view s a)" "view s1 = view s" "ok s1" using get_step [OF assms] by blast
    show ?thesis
    proof (cases "view s a")
      case None
      then show ?thesis using addr peer g by (auto simp: rendezvous_def)
    next
      case (Some me)
      let ?s2 = "so_insert ops a (report_in q now me) s1"
      have i: "view ?s2 = (view s)(a \<mapsto> report_in q now me)" "ok ?s2" using insert [OF g(3)] g(2) by simp_all
      obtain s3 where h: "so_get ops now p ?s2 = (s3, view ?s2 p)" "view s3 = view ?s2" "ok s3" using get_step [OF i(2)] by blast
      let ?v = "verify_proof ed (en_ed_pub me) (rendezvous_pop_message (rq_addr_text q) (rq_peer_text q)) (rq_proof q)"
      show ?thesis
      proof (cases "entry_expired now me \<or> \<not> ed_key_ok ed (en_ed_pub me) \<or> (\<exists>e. ?v = Inl e)")
        case True
        then show ?thesis using addr peer g Some by (auto simp: rendezvous_def)
      next
        case False
        then have v: "?v = Inr ()" by (cases ?v) auto
        have "rendezvous ed ops q now s = (s3, snd (rendezvous ed map_ops q now (view s)))
            \<and> fst (rendezvous ed map_ops q now (view s)) = view s3"
          using addr peer g Some False v i(1) h(1,2)
          by (cases "((view s)(a \<mapsto> report_in q now me)) p") (simp_all add: rendezvous_def)
        then show ?thesis using h(3) by (metis prod.collapse)
      qed
    qed
  qed (use assms addr in \<open>auto simp: rendezvous_def\<close>)
qed (use assms in \<open>auto simp: rendezvous_def\<close>)

lemma step_refines:
  "ok s \<Longrightarrow> \<exists>s' r r'. service_step ed ops c s = (s', r) \<and> ok s' \<and> service_step ed map_ops c (view s) = (view s', r') \<and> answers copies r r'"
proof (cases c)
  case (Register spec now)
  assume "ok s"
  from register_refines [OF this, of ed spec now] show ?thesis unfolding Register by fastforce
next
  case (Resolve target now)
  assume "ok s"
  from resolve_refines [OF this, of target now] show ?thesis unfolding Resolve by fastforce
next
  case (Rendezvous q now)
  assume "ok s"
  from rendezvous_refines [OF this, of ed q now] show ?thesis unfolding Rendezvous by fastforce
next
  case (Sweep now)
  assume s: "ok s"
  obtain s' n where g: "so_sweep ops now s = (s', n)" by (metis surj_pair)
  with sweep [OF s g] count [OF s g] show ?thesis unfolding Sweep by (simp add: resolver_sweep_def)
qed

lemma run_refines:
  "ok s \<Longrightarrow> \<exists>s' rs rs'. service_run ed ops cs s = (s', rs) \<and> ok s' \<and> service_run ed map_ops cs (view s) = (view s', rs')
     \<and> list_all2 (answers copies) rs rs'"
proof (induction cs arbitrary: s)
  case (Cons c cs)
  obtain s1 r r' where c: "service_step ed ops c s = (s1, r)" "ok s1" "service_step ed map_ops c (view s) = (view s1, r')" "answers copies r r'"
    using step_refines [OF Cons.prems] by blast
  from Cons.IH [OF c(2)] c show ?case by fastforce
qed simp

end

context cached_store
begin

lemmas cached_run_refines = cached.run_refines

end

lemma mem_ops_simps [simp]:
  "so_get mem_ops t a s = (s, map_of s a)" "map_of (so_insert mem_ops a e s) = (map_of s)(a \<mapsto> e)"
  by (simp_all add: mem_ops_def mem_get_def mem_insert_def update_conv')

lemma mem_run_map:
  assumes "service_run ed mem_ops cs [] = (s, rs)"
  shows "service_run ed map_ops cs Map.empty = (map_of s, rs)"
proof -
  have "mem_inv []" by (simp add: mem_inv_def)
  from mem.run_refines [OF this, of ed cs] assms show ?thesis by (auto simp: answers_one list.rel_eq)
qed

lemma service_run_append:
  "service_run ed ops (cs @ ds) s = (case service_run ed ops cs s of (s, rs) \<Rightarrow> case service_run ed ops ds s of (s, rs') \<Rightarrow> (s, rs @ rs'))"
  by (induction cs arbitrary: s) (simp_all add: case_prod_unfold)

lemma service_run_length: "service_run ed ops cs s = (s', rs) \<Longrightarrow> length rs = length cs"
  by (induction cs arbitrary: s s' rs) (auto split: prod.splits)

text \<open>
  C28. The cached resolver is a resolver: over a cache of any positive capacity in front of the memory store, whatever the
  cache chooses to evict, every sequence of registrations, resolutions, rendezvous and sweeps gets the answers that the
  service over a plain map gives, but for the number that a sweep returns: that is at least the number of entries the
  sweep has removed, which the plain map returns, and at most twice as many, since the cache counts its copies too.
\<close>

theorem cached_resolver_refines:
  assumes "lru_ok L held" "0 < cc_max_entries config"
  shows "\<exists>s. cached_new L [] config = Some s
    \<and> list_all2 (answers 2) (snd (service_run ed (cached_ops L mem_ops) cs s)) (snd (service_run ed map_ops cs Map.empty))"
proof -
  have loc: "cached_store mem_ops map_of mem_inv 1 L held"
    using assms(1) by (intro cached_store.intro cached_store_axioms.intro mem.counted_store_axioms)
  obtain s where s: "cached_new L ([] :: mem_store) config = Some s" "ca_inner s = []" "ca_cache s = lru_new L (cc_max_entries config)"
    "ca_negative s = Map.empty" using assms(2) by (simp add: cached_new_def)
  then have "cached_inv map_of mem_inv held s"
    using assms(1) by (simp add: cached_inv_def lru_ok_def mem_inv_def)
  from cached_store.cached_run_refines [OF loc this, of ed cs] s show ?thesis by (fastforce simp: numeral_2_eq_2)
qed

lemma cached_resolver_refines_witness:
  "\<exists>s n k. cached_new list_lru [] cache_config_default = Some s
     \<and> snd (service_run toy_ed (cached_ops list_lru mem_ops) [Sweep 5, Resolve [1, 2] 6, Sweep 7] s)
       = [Swept n, Found (Inl Res_BadAddress), Swept k] \<and> n = 0 \<and> k = 0"
proof -
  have e: "expired_count t Map.empty = 0" "swept t Map.empty = Map.empty" for t by (simp_all add: expired_count_def swept_def)
  have p: "snd (service_run toy_ed map_ops [Sweep 5, Resolve [1, 2] 6, Sweep 7] Map.empty) = [Swept 0, Found (Inl Res_BadAddress), Swept 0]"
    by (simp add: resolve_def resolver_sweep_def from_canonical_str_def e)
  obtain s where s: "cached_new list_lru [] cache_config_default = Some s"
    "list_all2 (answers 2) (snd (service_run toy_ed (cached_ops list_lru mem_ops) [Sweep 5, Resolve [1, 2] 6, Sweep 7] s))
      [Swept 0, Found (Inl Res_BadAddress), Swept 0]"
    using cached_resolver_refines [OF list_lru_ok, of cache_config_default toy_ed "[Sweep 5, Resolve [1, 2] 6, Sweep 7]", unfolded p]
    by (auto simp: cache_config_default_def)
  have a: "answers 2 r (Swept 0) \<longleftrightarrow> r = Swept 0" "answers 2 r (Found f) \<longleftrightarrow> r = Found f" for r f by (cases r; simp)+
  show ?thesis using s by (auto simp: list_all2_Cons2 a)
qed

section \<open>Who may register\<close>

lemma verify_proofD: "verify_proof ed k msg p = Inr u \<Longrightarrow> length p = 64 \<and> ed_verify ed k msg p"
  by (auto simp: verify_proof_def parse_sig_def split: if_splits)

lemma register_effect:
  "register ed map_ops spec now m = (m', r) \<Longrightarrow>
     (\<exists>e. r = Inl e) \<and> m' = m
   \<or> (\<exists>a out. r = Inr out \<and> from_canonical_str (rs_addr_text spec) = Inr a \<and> m' = m(a \<mapsto> new_entry spec now (m a))
      \<and> may_register ed spec a now (m a) = Inr () \<and> rg_ttl out = effective_ttl (rs_ttl_secs spec))"
  by (auto simp: register_def Let_def split: sum.splits if_splits)

lemma rendezvous_effect:
  "rendezvous ed map_ops q now m = (m', r) \<Longrightarrow>
     m' = m \<or> (\<exists>a me. from_canonical_str (rq_addr_text q) = Inr a \<and> m a = Some me \<and> m' = m(a \<mapsto> report_in q now me))"
  by (auto simp: rendezvous_def split: sum.splits if_splits option.splits)

lemma new_entry_key [simp]: "en_ed_pub (new_entry spec now ex) = rs_ed_pub spec"
  by (simp add: new_entry_def split: prod.split)

lemma may_registerD:
  "may_register ed spec a now ex = Inr u \<Longrightarrow> (\<exists>e. ex = Some e \<and> en_ed_pub e = rs_ed_pub spec)
     \<or> ed_verify ed (rs_ed_pub spec) (resolve_pop_message (rs_addr_text spec) (rs_ed_pub spec)) (rs_proof spec)"
  by (auto simp: may_register_def Let_def split: option.splits if_splits dest: verify_proofD)

lemma step_key:
  assumes "service_step ed map_ops c m = (m', r)" "m' a = Some e"
  shows "(\<exists>e'. m a = Some e' \<and> en_ed_pub e' = en_ed_pub e)
    \<or> (\<exists>spec now. c = Register spec now \<and> from_canonical_str (rs_addr_text spec) = Inr a \<and> rs_ed_pub spec = en_ed_pub e
       \<and> ed_verify ed (rs_ed_pub spec) (resolve_pop_message (rs_addr_text spec) (rs_ed_pub spec)) (rs_proof spec))"
proof (cases c)
  case (Register spec now)
  then obtain r' where "register ed map_ops spec now m = (m', r')" using assms(1) by (auto split: prod.splits)
  from register_effect [OF this] assms(2) show ?thesis unfolding Register
    by (auto dest!: may_registerD split: if_splits)
next
  case (Resolve target now)
  then have "m' = m" using assms(1) by (auto simp: resolve_def Let_def split: prod.splits sum.splits option.splits if_splits)
  then show ?thesis using assms(2) by blast
next
  case (Rendezvous q now)
  then obtain r' where "rendezvous ed map_ops q now m = (m', r')" using assms(1) by (auto split: prod.splits)
  from rendezvous_effect [OF this] assms(2) show ?thesis by (auto simp: report_in_def Let_def split: if_splits)
next
  case (Sweep now)
  then show ?thesis using assms by (auto simp: resolver_sweep_def swept_def split: option.splits if_splits)
qed

lemma run_key:
  "service_run ed map_ops cs m = (m', rs) \<Longrightarrow> m' a = Some e \<Longrightarrow>
     (\<exists>e'. m a = Some e' \<and> en_ed_pub e' = en_ed_pub e)
   \<or> (\<exists>spec now. Register spec now \<in> set cs \<and> from_canonical_str (rs_addr_text spec) = Inr a \<and> rs_ed_pub spec = en_ed_pub e
      \<and> ed_verify ed (rs_ed_pub spec) (resolve_pop_message (rs_addr_text spec) (rs_ed_pub spec)) (rs_proof spec))"
proof (induction cs arbitrary: m rs)
  case (Cons c cs)
  obtain m1 r rs1 where s: "service_step ed map_ops c m = (m1, r)" "service_run ed map_ops cs m1 = (m', rs1)"
    using Cons.prems(1) by (auto split: prod.splits)
  show ?case using Cons.IH [OF s(2) Cons.prems(2)] step_key [OF s(1)] by fastforce
qed auto

text \<open>
  Keys are proved: after any sequence of requests to an empty resolver, every key that an address is bound to was at
  some time registered for that address with a valid signature under the key itself, over the domain of the resolver, the
  text of the address and the key.
\<close>

theorem registered_keys_proved:
  assumes "service_run ed mem_ops cs [] = (s, rs)" "map_of s a = Some e"
  shows "\<exists>spec now. Register spec now \<in> set cs \<and> from_canonical_str (rs_addr_text spec) = Inr a \<and> rs_ed_pub spec = en_ed_pub e
    \<and> ed_verify ed (en_ed_pub e) (RESOLVE_DOMAIN @ rs_addr_text spec @ en_ed_pub e) (rs_proof spec)"
  using run_key [OF mem_run_map [OF assms(1)] assms(2)] by (fastforce simp: resolve_pop_message_def)

section \<open>Resolution\<close>

text \<open>Requests that leave the reachability of an address alone until its entry expires.\<close>

fun spares :: "ipv8_address \<Rightarrow> nat \<Rightarrow> service_op \<Rightarrow> bool" where
  "spares a expiry (Register spec now) \<longleftrightarrow> from_canonical_str (rs_addr_text spec) \<noteq> Inr a"
| "spares a expiry (Sweep now) \<longleftrightarrow> now < expiry"
| "spares a expiry _ \<longleftrightarrow> True"

definition route_of :: "node_record \<Rightarrow> bytes \<times> bytes list \<times> bool \<times> u32 \<times> nat \<times> nat" where
  "route_of r = (nr_tunnel_entry r, nr_alt_entries r, nr_ipv8_capable r, nr_mtu r, nr_registered_at r, nr_ttl r)"

lemma route_report: "route_of (en_rec (report_in q now me)) = route_of (en_rec me)"
  by (simp add: route_of_def report_in_def Let_def split: option.split)

lemma step_spares:
  assumes "service_step ed map_ops c m = (m', r)" "m a = Some e" "spares a (nr_registered_at (en_rec e) + nr_ttl (en_rec e)) c"
  shows "\<exists>e'. m' a = Some e' \<and> route_of (en_rec e') = route_of (en_rec e)"
proof (cases c)
  case (Register spec now)
  then obtain r' where "register ed map_ops spec now m = (m', r')" using assms(1) by (auto split: prod.splits)
  from register_effect [OF this] assms(2,3) show ?thesis unfolding Register by auto
next
  case (Resolve target now)
  then have "m' = m" using assms(1) by (auto simp: resolve_def Let_def split: prod.splits sum.splits option.splits if_splits)
  then show ?thesis using assms(2) by blast
next
  case (Rendezvous q now)
  then obtain r' where "rendezvous ed map_ops q now m = (m', r')" using assms(1) by (auto split: prod.splits)
  from rendezvous_effect [OF this] assms(2) show ?thesis by (auto simp: route_report)
next
  case (Sweep now)
  then show ?thesis using assms by (auto simp: resolver_sweep_def swept_def rec_expired_def add_secs_def)
qed

lemma run_spares:
  "service_run ed map_ops cs m = (m', rs) \<Longrightarrow> m a = Some e \<Longrightarrow>
     list_all (spares a (nr_registered_at (en_rec e) + nr_ttl (en_rec e))) cs \<Longrightarrow>
     \<exists>e'. m' a = Some e' \<and> route_of (en_rec e') = route_of (en_rec e)"
proof (induction cs arbitrary: m rs e)
  case (Cons c cs)
  obtain m1 r rs1 where s: "service_step ed map_ops c m = (m1, r)" "service_run ed map_ops cs m1 = (m', rs1)"
    using Cons.prems(1) by (auto split: prod.splits)
  obtain e1 where e1: "m1 a = Some e1" "route_of (en_rec e1) = route_of (en_rec e)"
    using step_spares [OF s(1) Cons.prems(2)] Cons.prems(3) by auto
  then have "list_all (spares a (nr_registered_at (en_rec e1) + nr_ttl (en_rec e1))) cs"
    using Cons.prems(3) by (simp add: route_of_def)
  from Cons.IH [OF s(2) e1(1) this] e1(2) show ?case by simp
qed simp

lemma resolve_found:
  "from_canonical_str target = Inr a \<Longrightarrow> m a = Some e \<Longrightarrow> now < nr_registered_at (en_rec e) + nr_ttl (en_rec e) \<Longrightarrow>
     resolve map_ops target now m = (m, Inr \<lparr> rv_tunnel_entry = nr_tunnel_entry (en_rec e), rv_alt_entries = nr_alt_entries (en_rec e),
       rv_ipv8_capable = nr_ipv8_capable (en_rec e), rv_mtu = (if nr_mtu (en_rec e) = 0 then RESOLVER_MTU else nr_mtu (en_rec e)),
       rv_ttl = nr_ttl (en_rec e) \<rparr>)"
  by (simp add: resolve_def Let_def rec_expired_def add_secs_def)

text \<open>
  What was registered is resolved: after an accepted registration, whatever else is asked, by whom and in whatever
  order, as long as nobody registers the address anew and no sweep comes after the lifetime, a resolution within the
  lifetime answers with the registered entry, alternatives, capability, packet size and lifetime.
\<close>

theorem register_then_resolve:
  assumes "service_run ed mem_ops (pre @ [Register spec now] @ mid @ [Resolve target t]) [] = (s, rs)"
    and "rs ! length pre = Registered (Inr out)" "from_canonical_str (rs_addr_text spec) = Inr a" "from_canonical_str target = Inr a"
    and "list_all (spares a (now + rg_ttl out)) mid" "t < now + rg_ttl out"
  shows "rg_ttl out = effective_ttl (rs_ttl_secs spec) \<and> last rs = Found (Inr \<lparr> rv_tunnel_entry = rs_tunnel_entry spec,
    rv_alt_entries = rs_alt_entries spec, rv_ipv8_capable = rs_ipv8_capable spec,
    rv_mtu = (if rs_mtu spec = 0 then RESOLVER_MTU else rs_mtu spec), rv_ttl = rg_ttl out \<rparr>)"
proof -
  note run = mem_run_map [OF assms(1)]
  obtain m0 rs0 where pre: "service_run ed map_ops pre Map.empty = (m0, rs0)" by (metis surj_pair)
  obtain m1 r where reg: "register ed map_ops spec now m0 = (m1, r)" by (metis surj_pair)
  obtain m2 rs2 where mid: "service_run ed map_ops mid m1 = (m2, rs2)" by (metis surj_pair)
  have rs: "rs = rs0 @ [Registered r] @ rs2 @ [Found (snd (resolve map_ops target t m2))]"
    using run pre reg mid by (simp add: service_run_append case_prod_unfold)
  then have "r = Inr out" using assms(2) service_run_length [OF pre] by (simp add: nth_append)
  with register_effect [OF reg] assms(3) have m1: "m1 a = Some (new_entry spec now (m0 a))"
    and ttl: "rg_ttl out = effective_ttl (rs_ttl_secs spec)" by auto
  have new: "route_of (en_rec (new_entry spec now (m0 a))) = (rs_tunnel_entry spec, rs_alt_entries spec, rs_ipv8_capable spec,
      rs_mtu spec, now, rg_ttl out)" by (simp add: new_entry_def route_of_def ttl split: prod.split)
  have "list_all (spares a (nr_registered_at (en_rec (new_entry spec now (m0 a))) + nr_ttl (en_rec (new_entry spec now (m0 a))))) mid"
    using assms(5) new by (simp add: route_of_def)
  from run_spares [OF mid m1 this] obtain e where e: "m2 a = Some e" "route_of (en_rec e) = (rs_tunnel_entry spec, rs_alt_entries spec,
      rs_ipv8_capable spec, rs_mtu spec, now, rg_ttl out)" using new by auto
  have "t < nr_registered_at (en_rec e) + nr_ttl (en_rec e)" using e(2) assms(6) by (simp add: route_of_def)
  from resolve_found [of target a m2 e t, OF assms(4) e(1) this] e(2) show ?thesis using rs ttl by (simp add: route_of_def)
qed

section \<open>Concrete nodes\<close>

definition node_addr :: "u16 \<Rightarrow> ipv8_address" where
  "node_addr n = addr_with_region 1 1 0 n 0"

definition node_text :: "u16 \<Rightarrow> bytes" where
  "node_text n = to_canonical_string (node_addr n)"

lemma node_text_parse [simp]: "from_canonical_str (node_text n) = Inr (node_addr n)"
  by (simp add: node_text_def canonical_print_parse node_addr_def addr_with_region_def addr_new_def const_defs)

definition node_spec :: "u16 \<Rightarrow> bytes \<Rightarrow> bytes \<Rightarrow> u64 \<Rightarrow> register_spec" where
  "node_spec n seed tunnel ttl_secs = \<lparr> rs_addr_text = node_text n, rs_ed_pub = ed_public toy_ed seed,
     rs_proof = ed_sign toy_ed seed (resolve_pop_message (node_text n) (ed_public toy_ed seed)), rs_tunnel_entry = tunnel,
     rs_alt_entries = [], rs_ipv8_capable = True, rs_mtu = 0, rs_ttl_secs = ttl_secs, rs_observed = None \<rparr>"

lemma verify_signed: "ed25519_ok ed \<Longrightarrow> verify_proof ed (ed_public ed seed) msg (ed_sign ed seed msg) = Inr ()"
  by (simp add: verify_proof_def parse_sig_def ed25519_ok_def)

lemma register_first:
  assumes "m (node_addr n) = None"
  shows "\<exists>out. register toy_ed map_ops (node_spec n seed tunnel ttl_secs) now m
    = (m(node_addr n \<mapsto> new_entry (node_spec n seed tunnel ttl_secs) now None), Inr out) \<and> rg_ttl out = effective_ttl ttl_secs"
  using assms toy_ed_ok verify_signed [OF toy_ed_ok]
  by (auto simp: register_def node_spec_def may_register_def Let_def ed25519_ok_def)

lemma registered_keys_proved_witness:
  "\<exists>s rs e spec now. service_run toy_ed mem_ops [Register (node_spec 1 [7] [49] 0) 3] [] = (s, rs) \<and> map_of s (node_addr 1) = Some e
     \<and> Register spec now \<in> set [Register (node_spec 1 [7] [49] 0) 3] \<and> rs_ed_pub spec = en_ed_pub e"
proof -
  obtain s rs where r: "service_run toy_ed mem_ops [Register (node_spec 1 [7] [49] 0) 3] [] = (s, rs)" by (metis surj_pair)
  obtain out where "register toy_ed map_ops (node_spec 1 [7] [49] 0) 3 Map.empty
      = ([node_addr 1 \<mapsto> new_entry (node_spec 1 [7] [49] 0) 3 None], Inr out)" using register_first [of Map.empty] by blast
  then have "map_of s = [node_addr 1 \<mapsto> new_entry (node_spec 1 [7] [49] 0) 3 None]" using mem_run_map [OF r] by auto
  then have e: "map_of s (node_addr 1) = Some (new_entry (node_spec 1 [7] [49] 0) 3 None)" by simp
  from registered_keys_proved [OF r e] show ?thesis using r e by blast
qed

lemma register_then_resolve_witness:
  "\<exists>s rs. service_run toy_ed mem_ops [Register (node_spec 1 [7] [49] 0) 3, Sweep 9, Resolve (node_text 1) 10] [] = (s, rs)
     \<and> last rs = Found (Inr \<lparr> rv_tunnel_entry = [49], rv_alt_entries = [], rv_ipv8_capable = True,
         rv_mtu = RESOLVER_MTU, rv_ttl = DEFAULT_TTL \<rparr>)"
proof -
  let ?cs = "[] @ [Register (node_spec 1 [7] [49] 0) 3] @ [Sweep 9] @ [Resolve (node_text 1) 10]"
  obtain s rs where r: "service_run toy_ed mem_ops ?cs [] = (s, rs)" by (metis surj_pair)
  obtain out where o1: "register toy_ed map_ops (node_spec 1 [7] [49] 0) 3 Map.empty
      = ([node_addr 1 \<mapsto> new_entry (node_spec 1 [7] [49] 0) 3 None], Inr out)" "rg_ttl out = effective_ttl 0"
    using register_first [of Map.empty] by blast
  have "rs ! length [] = Registered (Inr out)" using mem_run_map [OF r] o1(1) by (auto split: prod.splits)
  moreover have "from_canonical_str (rs_addr_text (node_spec 1 [7] [49] 0)) = Inr (node_addr 1)" by (simp add: node_spec_def)
  ultimately have "rg_ttl out = effective_ttl (rs_ttl_secs (node_spec 1 [7] [49] 0)) \<and> last rs = Found (Inr \<lparr> rv_tunnel_entry =
      rs_tunnel_entry (node_spec 1 [7] [49] 0), rv_alt_entries = rs_alt_entries (node_spec 1 [7] [49] 0),
      rv_ipv8_capable = rs_ipv8_capable (node_spec 1 [7] [49] 0),
      rv_mtu = (if rs_mtu (node_spec 1 [7] [49] 0) = 0 then RESOLVER_MTU else rs_mtu (node_spec 1 [7] [49] 0)), rv_ttl = rg_ttl out \<rparr>)"
    using o1(2) by (intro register_then_resolve [OF r]) (simp_all add: effective_ttl_def const_defs secs_def)
  then have "last rs = Found (Inr \<lparr> rv_tunnel_entry = [49], rv_alt_entries = [], rv_ipv8_capable = True,
      rv_mtu = RESOLVER_MTU, rv_ttl = DEFAULT_TTL \<rparr>)" by (simp add: node_spec_def effective_ttl_def)
  then show ?thesis using r unfolding append.simps by blast
qed

section \<open>Taking over an address\<close>

text \<open>A node whose entry stands is known by its key alone when it registers again.\<close>

lemma register_again:
  assumes "from_canonical_str (rs_addr_text spec) = Inr a" "map_of s a = Some e" "rs_ed_pub spec = en_ed_pub e"
    and "length (rs_ed_pub spec) = 32" "ed_key_ok ed (rs_ed_pub spec)"
  shows "register ed mem_ops spec now s = (so_insert mem_ops a (new_entry spec now (Some e)) s,
    Inr \<lparr> rg_ttl = effective_ttl (rs_ttl_secs spec), rg_observed = map_option fst (nr_observed (en_rec (new_entry spec now (Some e)))) \<rparr>)"
  using assms by (simp add: register_def may_register_def Let_def)

text \<open>
  C39. An address can be taken over: anyone who knows the public key of a registered node can register its address again
  with that key and no proof at all, with a lifetime of one second; when that is over, the address is free for a key of
  the attacker, properly proved, and the owner is refused from then on.
\<close>

theorem address_taken_over:
  assumes "map_of s a = Some e" "length (en_ed_pub e) = 32" "ed_key_ok ed (en_ed_pub e)" "ed25519_ok ed"
    and "\<not> entry_expired now e" "from_canonical_str name = Inr a" "ed_public ed seed \<noteq> en_ed_pub e"
    and "forged = \<lparr> rs_addr_text = name, rs_ed_pub = en_ed_pub e, rs_proof = [], rs_tunnel_entry = [], rs_alt_entries = [],
      rs_ipv8_capable = True, rs_mtu = 0, rs_ttl_secs = 1, rs_observed = None \<rparr>"
    and "own = forged\<lparr> rs_ed_pub := ed_public ed seed, rs_proof := ed_sign ed seed (resolve_pop_message name (ed_public ed seed)),
      rs_tunnel_entry := evil, rs_ttl_secs := 86400 \<rparr>"
    and "from_canonical_str (rs_addr_text victim) = Inr a" "rs_ed_pub victim = en_ed_pub e" "t < now + secs 86400"
  shows "\<exists>s1 s2 out1 out2. register ed mem_ops forged now s = (s1, Inr out1)
    \<and> register ed mem_ops own (now + secs 1) s1 = (s2, Inr out2)
    \<and> (\<exists>n. resolve mem_ops name t s2 = (s2, Inr n) \<and> rv_tunnel_entry n = evil)
    \<and> register ed mem_ops victim t s2 = (s2, Inl (Res_KeyConflict a))"
proof -
  obtain s1 out1 where r1: "register ed mem_ops forged now s = (s1, Inr out1)"
    and s1: "map_of s1 a = Some (new_entry forged now (Some e))"
    using register_again [of forged a s e ed now] assms(1-3,6,8) by simp
  let ?e1 = "new_entry forged now (Some e)"
  have e1: "en_ed_pub ?e1 = en_ed_pub e" "entry_expired (now + secs 1) ?e1"
    by (simp_all add: assms(8) new_entry_def rec_expired_def add_secs_def effective_ttl_def const_defs split: prod.split)
  have key: "length (ed_public ed seed) = 32" "ed_key_ok ed (ed_public ed seed)" using assms(4) by (simp_all add: ed25519_ok_def)
  have "may_register ed own a (now + secs 1) (Some ?e1) = Inr ()"
    using e1 verify_signed [OF assms(4), of seed] assms(7-9) by (simp add: may_register_def Let_def)
  then obtain s2 out2 where r2: "register ed mem_ops own (now + secs 1) s1 = (s2, Inr out2)"
    and s2: "map_of s2 a = Some (new_entry own (now + secs 1) (Some ?e1))"
    using assms(6,8,9) key s1 by (simp add: register_def Let_def)
  let ?e2 = "new_entry own (now + secs 1) (Some ?e1)"
  have e2: "en_ed_pub ?e2 \<noteq> en_ed_pub e" "\<not> entry_expired t ?e2" "nr_tunnel_entry (en_rec ?e2) = evil"
    using assms(7,12) by (simp_all add: assms(8,9) new_entry_def rec_expired_def add_secs_def effective_ttl_def const_defs secs_def split: prod.split)
  have "register ed mem_ops victim t s2 = (s2, Inl (Res_KeyConflict a))"
    using assms(2,3,10,11) s2 e2 by (simp add: register_def may_register_def Let_def)
  moreover have "\<exists>n. resolve mem_ops name t s2 = (s2, Inr n) \<and> rv_tunnel_entry n = evil"
    using assms(6) s2 e2 by (simp add: resolve_def Let_def)
  ultimately show ?thesis using r1 r2 by blast
qed

text \<open>A scheme in which every seed has a key of its own.\<close>

definition seed_ed :: ed25519 where
  "seed_ed = toy_ed\<lparr> ed_public := \<lambda>seed. take 32 (seed @ replicate 32 0) \<rparr>"

lemma seed_ed_ok: "ed25519_ok seed_ed"
  by (auto simp: ed25519_ok_def seed_ed_def toy_ed_def min_def)

definition owner_entry :: entry where
  "owner_entry = \<lparr> en_ed_pub = ed_public seed_ed [1], en_rec = \<lparr> nr_tunnel_entry = [49], nr_alt_entries = [], nr_ipv8_capable = True,
     nr_mtu = 0, nr_registered_at = 5, nr_ttl = DEFAULT_TTL, nr_observed = None, nr_local_candidates = [] \<rparr> \<rparr>"

lemma address_taken_over_witness:
  "\<exists>forged own s2 n. rs_proof forged = [] \<and> (\<exists>s1 out1 out2.
       register seed_ed mem_ops forged 9 [(node_addr 1, owner_entry)] = (s1, Inr out1)
     \<and> register seed_ed mem_ops own (9 + secs 1) s1 = (s2, Inr out2)) \<and> resolve mem_ops (node_text 1) (secs 7) s2 = (s2, Inr n)
     \<and> rv_tunnel_entry n = [66]"
proof -
  let ?e = owner_entry
  let ?forged = "\<lparr> rs_addr_text = node_text 1, rs_ed_pub = en_ed_pub ?e, rs_proof = [], rs_tunnel_entry = [], rs_alt_entries = [],
      rs_ipv8_capable = True, rs_mtu = 0, rs_ttl_secs = 1, rs_observed = None \<rparr>"
  let ?own = "?forged\<lparr> rs_ed_pub := ed_public seed_ed [2], rs_proof := ed_sign seed_ed [2] (resolve_pop_message (node_text 1) (ed_public seed_ed [2])),
      rs_tunnel_entry := [66], rs_ttl_secs := 86400 \<rparr>"
  have key: "length (en_ed_pub ?e) = 32" "ed_key_ok seed_ed (en_ed_pub ?e)" "ed_public seed_ed [2] \<noteq> en_ed_pub ?e"
    by (simp_all add: owner_entry_def seed_ed_def toy_ed_def)
  have "\<not> entry_expired 9 ?e" by (simp add: owner_entry_def rec_expired_def add_secs_def const_defs secs_def)
  moreover have "secs 7 < 9 + secs 86400" by (simp add: secs_def)
  ultimately have "\<exists>s1 s2 out1 out2. register seed_ed mem_ops ?forged 9 [(node_addr 1, ?e)] = (s1, Inr out1)
    \<and> register seed_ed mem_ops ?own (9 + secs 1) s1 = (s2, Inr out2)
    \<and> (\<exists>n. resolve mem_ops (node_text 1) (secs 7) s2 = (s2, Inr n) \<and> rv_tunnel_entry n = [66])
    \<and> register seed_ed mem_ops ?forged (secs 7) s2 = (s2, Inl (Res_KeyConflict (node_addr 1)))"
    by (intro address_taken_over [OF _ key(1,2) seed_ed_ok _ node_text_parse key(3) refl refl]) simp_all
  then show ?thesis by (intro exI [of _ ?forged] exI [of _ ?own]) auto
qed

section \<open>Rendezvous\<close>

lemma rsplit_once:
  assumes "COLON \<notin> set port"
  shows "rsplit_colon (ip @ COLON # port) = Some (ip, port)"
proof -
  have "takeWhile (\<lambda>b. b \<noteq> COLON) (rev port @ COLON # rev ip) = rev port"
    using assms by (subst takeWhile_append2) auto
  then show ?thesis by (simp add: rsplit_colon_def Let_def)
qed

lemma rendezvous_found:
  assumes "rendezvous ed mem_ops q now s = (s', Inr out)" "from_canonical_str (rq_addr_text q) = Inr b" "from_canonical_str (rq_peer_text q) = Inr a"
    and "a \<noteq> b" "map_of s a = Some e"
  shows "ro_peer_candidates out = add_candidates (observed_candidates (en_rec e) now) (nr_local_candidates (en_rec e))"
  using assms by (auto simp: rendezvous_def split: option.splits if_splits sum.splits)

lemma add_candidates_keeps: "\<exists>new. add_candidates cands cs = cands @ new"
proof (induction cs arbitrary: cands)
  case (Cons c cs)
  obtain n1 n2 where "add_candidates cands cs = cands @ n1" "add_candidates (cands @ [c]) cs = (cands @ [c]) @ n2"
    using Cons.IH by blast
  then show ?case by simp
qed simp

lemma rendezvous_candidate:
  assumes "rendezvous ed mem_ops q now s = (s', Inr out)" "from_canonical_str (rq_addr_text q) = Inr b" "from_canonical_str (rq_peer_text q) = Inr a"
    and "a \<noteq> b" "map_of s a = Some e" "nr_observed (en_rec e) = Some (ip @ COLON # p, t)" "now \<le> t + OBSERVED_MAX_AGE"
    and "nr_tunnel_entry (en_rec e) = host @ COLON # port" "COLON \<notin> set p" "COLON \<notin> set port" "port \<noteq> []"
  shows "\<exists>new. ro_peer_candidates out = (ip @ COLON # port) # new \<and> ip @ COLON # p \<in> set (ro_peer_candidates out)"
proof -
  have "fresh_observed (en_rec e) now = Some (ip @ COLON # p)" using assms(6,7) by (simp add: fresh_observed_def)
  then have "\<exists>r. observed_candidates (en_rec e) now = (ip @ COLON # port) # r \<and> ip @ COLON # p \<in> set (observed_candidates (en_rec e) now)"
    using assms(8-11) by (auto simp: observed_candidates_def rsplit_once Let_def)
  then show ?thesis
    using rendezvous_found [OF assms(1-5)] add_candidates_keeps [of "observed_candidates (en_rec e) now" "nr_local_candidates (en_rec e)"]
    by fastforce
qed

lemma rendezvous_reports:
  assumes "from_canonical_str (rq_addr_text q) = Inr a" "from_canonical_str (rq_peer_text q) = Inr b" "map_of s a = Some e" "\<not> entry_expired now e"
    and "ed_key_ok ed (en_ed_pub e)"
    and "verify_proof ed (en_ed_pub e) (rendezvous_pop_message (rq_addr_text q) (rq_peer_text q)) (rq_proof q) = Inr ()"
  shows "map_of (fst (rendezvous ed mem_ops q now s)) = (map_of s)(a \<mapsto> report_in q now e)"
  using assms by (auto simp: rendezvous_def split: option.split)

lemma rendezvous_accepted:
  assumes "rendezvous ed mem_ops q now s = (s', Inr out)"
  obtains a b e where "from_canonical_str (rq_addr_text q) = Inr a" "from_canonical_str (rq_peer_text q) = Inr b" "map_of s a = Some e"
    "\<not> entry_expired now e" "ed_key_ok ed (en_ed_pub e)"
    "verify_proof ed (en_ed_pub e) (rendezvous_pop_message (rq_addr_text q) (rq_peer_text q)) (rq_proof q) = Inr ()"
  using assms that by (auto simp: rendezvous_def split: option.splits if_splits sum.splits)

text \<open>
  Two nodes meet: when A has reported in and been seen at a source address, and B asks for A within 90 seconds, the
  first candidate that B gets is the host that A was seen at with the port that A registered, and the source address
  itself is among the candidates.
\<close>

theorem rendezvous_meets:
  assumes "rendezvous ed mem_ops qa t1 s = (s1, Inr out1)" "rendezvous ed mem_ops qb t2 s1 = (s2, Inr out2)"
    and "from_canonical_str (rq_addr_text qa) = Inr a" "from_canonical_str (rq_peer_text qb) = Inr a"
    and "from_canonical_str (rq_addr_text qb) = Inr b" "a \<noteq> b" "t2 \<le> t1 + OBSERVED_MAX_AGE"
    and "rq_observed qa = Some (ip @ COLON # p)" "map_of s a = Some e" "nr_tunnel_entry (en_rec e) = host @ COLON # port"
    and "COLON \<notin> set p" "COLON \<notin> set port" "port \<noteq> []"
  shows "hd (ro_peer_candidates out2) = ip @ COLON # port \<and> ip @ COLON # p \<in> set (ro_peer_candidates out2)"
proof -
  from rendezvous_accepted [OF assms(1)] assms(3,9) obtain b' where
    "from_canonical_str (rq_peer_text qa) = Inr b'" "\<not> entry_expired t1 e" "ed_key_ok ed (en_ed_pub e)"
    "verify_proof ed (en_ed_pub e) (rendezvous_pop_message (rq_addr_text qa) (rq_peer_text qa)) (rq_proof qa) = Inr ()"
    by (metis option.inject sum.inject(2))
  from rendezvous_reports [OF assms(3) this(1) assms(9) this(2-4)] assms(1)
  have "map_of s1 a = Some (report_in qa t1 e)" by simp
  then show ?thesis
    using rendezvous_candidate [OF assms(2,5,4,6), of "report_in qa t1 e" ip p t1 host port] assms(7,8,10-13)
    by (auto simp: report_in_def Let_def)
qed

lemma rendezvous_ok:
  assumes "from_canonical_str (rq_addr_text q) = Inr a" "from_canonical_str (rq_peer_text q) = Inr b" "map_of s a = Some e" "\<not> entry_expired now e"
    and "ed_key_ok ed (en_ed_pub e)" "ed_verify ed (en_ed_pub e) (rendezvous_pop_message (rq_addr_text q) (rq_peer_text q)) (rq_proof q)"
    and "length (rq_proof q) = 64" "a \<noteq> b" "map_of s b = Some pe" "\<not> entry_expired now pe"
  shows "\<exists>out. rendezvous ed mem_ops q now s = (so_insert mem_ops a (report_in q now e) s, Inr out)"
  using assms by (simp add: rendezvous_def verify_proof_def parse_sig_def)

definition meeting_entry :: "bytes \<Rightarrow> entry" where
  "meeting_entry tunnel = owner_entry\<lparr> en_rec := (en_rec owner_entry)\<lparr> nr_tunnel_entry := tunnel \<rparr> \<rparr>"

definition meeting_request :: "u16 \<Rightarrow> u16 \<Rightarrow> bytes \<Rightarrow> rendezvous_request" where
  "meeting_request n peer obs = \<lparr> rq_addr_text = node_text n, rq_peer_text = node_text peer, rq_proof = replicate 64 9,
     rq_local_candidates = [], rq_observed = Some obs \<rparr>"

lemma meeting_facts:
  "\<not> entry_expired 10 (meeting_entry tunnel)" "\<not> entry_expired 20 (meeting_entry tunnel)" "\<not> entry_expired 30 (meeting_entry tunnel)"
  "\<not> entry_expired t (report_in q now e) \<longleftrightarrow> \<not> entry_expired t e" "node_addr 1 \<noteq> node_addr 2"
  "from_canonical_str (rq_addr_text (meeting_request n p obs)) = Inr (node_addr n)"
  "from_canonical_str (rq_peer_text (meeting_request n p obs)) = Inr (node_addr p)"
  "length (rq_proof (meeting_request n p obs)) = 64" "ed_key_ok toy_ed k" "ed_verify toy_ed k m sg"
  by (simp_all add: meeting_entry_def owner_entry_def rec_expired_def add_secs_def const_defs secs_def report_in_def Let_def
      node_addr_def addr_with_region_def addr_new_def meeting_request_def toy_ed_def split: option.split)

lemma meeting:
  "\<exists>out1 out2. let s = [(node_addr 1, meeting_entry [49, COLON, 53]), (node_addr 2, meeting_entry [50, COLON, 54])];
       s1 = so_insert mem_ops (node_addr 1) (report_in (meeting_request 1 2 obs) 10 (meeting_entry [49, COLON, 53])) s in
     rendezvous toy_ed mem_ops (meeting_request 1 2 obs) 10 s = (s1, Inr out1)
     \<and> rendezvous toy_ed mem_ops (meeting_request 2 1 obs') 20 s1 =
        (so_insert mem_ops (node_addr 2) (report_in (meeting_request 2 1 obs') 20 (meeting_entry [50, COLON, 54])) s1, Inr out2)"
proof -
  let ?s = "[(node_addr 1, meeting_entry [49, COLON, 53]), (node_addr 2, meeting_entry [50, COLON, 54])]"
  let ?s1 = "so_insert mem_ops (node_addr 1) (report_in (meeting_request 1 2 obs) 10 (meeting_entry [49, COLON, 53])) ?s"
  have "\<exists>out. rendezvous toy_ed mem_ops (meeting_request 1 2 obs) 10 ?s = (?s1, Inr out)"
    using meeting_facts by (intro rendezvous_ok [of _ _ "node_addr 2"]) auto
  moreover have "\<exists>out. rendezvous toy_ed mem_ops (meeting_request 2 1 obs') 20 ?s1 =
      (so_insert mem_ops (node_addr 2) (report_in (meeting_request 2 1 obs') 20 (meeting_entry [50, COLON, 54])) ?s1, Inr out)"
    using meeting_facts by (intro rendezvous_ok [of _ _ "node_addr 1"]) auto
  ultimately show ?thesis unfolding Let_def by blast
qed

lemma rendezvous_meets_witness:
  "\<exists>s s1 s2 out1 out2. rendezvous toy_ed mem_ops (meeting_request 1 2 [51, COLON, 52]) 10 s = (s1, Inr out1)
     \<and> rendezvous toy_ed mem_ops (meeting_request 2 1 [55, COLON, 56]) 20 s1 = (s2, Inr out2)
     \<and> hd (ro_peer_candidates out2) = [51, COLON, 53]"
proof -
  let ?s = "[(node_addr 1, meeting_entry [49, COLON, 53]), (node_addr 2, meeting_entry [50, COLON, 54])]"
  obtain s1 s2 out1 out2 where r: "rendezvous toy_ed mem_ops (meeting_request 1 2 [51, COLON, 52]) 10 ?s = (s1, Inr out1)"
    "rendezvous toy_ed mem_ops (meeting_request 2 1 [55, COLON, 56]) 20 s1 = (s2, Inr out2)"
    using meeting [of "[51, COLON, 52]" "[55, COLON, 56]"] unfolding Let_def by blast
  have "hd (ro_peer_candidates out2) = [51] @ COLON # [53] \<and> [51] @ COLON # [52] \<in> set (ro_peer_candidates out2)"
    by (rule rendezvous_meets [OF r meeting_facts(6) meeting_facts(7) meeting_facts(6) meeting_facts(5), of "[51]" "[52]" "meeting_entry [49, COLON, 53]" "[49]" "[53]"])
       (simp_all add: const_defs secs_def meeting_request_def meeting_entry_def)
  then show ?thesis using r by fastforce
qed

text \<open>
  A request for a rendezvous can be replayed: its proof binds the two addresses but no time, so whoever has seen one
  may send it again from elsewhere as long as the entry lasts, and the peer of the victim is then sent to the host
  of the attacker first.
\<close>

theorem replayed_rendezvous_redirects:
  assumes "rendezvous ed mem_ops qa t1 s = (s1, Inr out1)" "from_canonical_str (rq_addr_text qa) = Inr a"
    and "map_of s a = Some e" "nr_tunnel_entry (en_rec e) = host @ COLON # port" "COLON \<notin> set port" "port \<noteq> []"
    and "rendezvous ed mem_ops (qa\<lparr> rq_observed := Some (evil @ COLON # p) \<rparr>) t2 s1 = (s2, r)" "\<not> entry_expired t2 e" "COLON \<notin> set p"
    and "rendezvous ed mem_ops qb t3 s2 = (s3, Inr out3)" "from_canonical_str (rq_addr_text qb) = Inr b"
    and "from_canonical_str (rq_peer_text qb) = Inr a" "a \<noteq> b" "t3 \<le> t2 + OBSERVED_MAX_AGE"
  shows "hd (ro_peer_candidates out3) = evil @ COLON # port"
proof -
  let ?q = "qa\<lparr> rq_observed := Some (evil @ COLON # p) \<rparr>"
  from rendezvous_accepted [OF assms(1)] assms(2,3) obtain b' where
    v: "from_canonical_str (rq_peer_text qa) = Inr b'" "\<not> entry_expired t1 e" "ed_key_ok ed (en_ed_pub e)"
    "verify_proof ed (en_ed_pub e) (rendezvous_pop_message (rq_addr_text qa) (rq_peer_text qa)) (rq_proof qa) = Inr ()"
    by (metis option.inject sum.inject(2))
  let ?e1 = "report_in qa t1 e"
  have s1: "map_of s1 a = Some ?e1" using rendezvous_reports [OF assms(2) v(1) assms(3) v(2-4)] assms(1) by simp
  have e1: "en_ed_pub ?e1 = en_ed_pub e" "nr_tunnel_entry (en_rec ?e1) = nr_tunnel_entry (en_rec e)" "\<not> entry_expired t2 ?e1"
    using assms(8) by (auto simp: report_in_def Let_def rec_expired_def split: option.split)
  have "map_of s2 a = Some (report_in ?q t2 ?e1)"
    using rendezvous_reports [of ?q a b' s1 ?e1 t2 ed] assms(2,7) v s1 e1 by simp
  then show ?thesis
    using rendezvous_candidate [OF assms(10-13), of "report_in ?q t2 ?e1" evil p t2 host port] assms(4-6,9,14) e1(2)
    by (auto simp: report_in_def Let_def)
qed

lemma replayed_rendezvous_redirects_witness:
  "\<exists>s s1 s2 s3 out1 r out3. rendezvous toy_ed mem_ops (meeting_request 1 2 [51, COLON, 52]) 10 s = (s1, Inr out1)
     \<and> rendezvous toy_ed mem_ops ((meeting_request 1 2 [51, COLON, 52])\<lparr> rq_observed := Some [66, COLON, 67] \<rparr>) 20 s1 = (s2, r)
     \<and> rendezvous toy_ed mem_ops (meeting_request 2 1 [55, COLON, 56]) 30 s2 = (s3, Inr out3)
     \<and> hd (ro_peer_candidates out3) = [66, COLON, 53]"
proof -
  let ?e1 = "meeting_entry [49, COLON, 53]" and ?e2 = "meeting_entry [50, COLON, 54]"
  let ?s = "[(node_addr 1, ?e1), (node_addr 2, ?e2)]" and ?q = "meeting_request 1 2 [51, COLON, 52]"
  let ?r = "?q\<lparr> rq_observed := Some [66, COLON, 67] \<rparr>"
  obtain s1 out1 where a: "rendezvous toy_ed mem_ops ?q 10 ?s = (s1, Inr out1)" "map_of s1 = (map_of ?s)(node_addr 1 \<mapsto> report_in ?q 10 ?e1)"
    using meeting [of "[51, COLON, 52]" "[]"] unfolding Let_def by (metis mem_ops_simps(2))
  have "\<exists>out. rendezvous toy_ed mem_ops ?r 20 s1 = (so_insert mem_ops (node_addr 1) (report_in ?r 20 (report_in ?q 10 ?e1)) s1, Inr out)"
    using meeting_facts a(2) by (intro rendezvous_ok [of _ _ "node_addr 2" _ _ _ _ ?e2]) auto
  then obtain s2 r where b: "rendezvous toy_ed mem_ops ?r 20 s1 = (s2, r)"
    "map_of s2 = (map_of s1)(node_addr 1 \<mapsto> report_in ?r 20 (report_in ?q 10 ?e1))" by (metis mem_ops_simps(2))
  have "\<exists>s3 out. rendezvous toy_ed mem_ops (meeting_request 2 1 [55, COLON, 56]) 30 s2 = (s3, Inr out)"
    using rendezvous_ok [of "meeting_request 2 1 [55, COLON, 56]" "node_addr 2" "node_addr 1" s2 ?e2 30 toy_ed
      "report_in ?r 20 (report_in ?q 10 ?e1)"] meeting_facts a(2) b(2) by auto
  then obtain s3 out3 where c: "rendezvous toy_ed mem_ops (meeting_request 2 1 [55, COLON, 56]) 30 s2 = (s3, Inr out3)" by blast
  have b': "rendezvous toy_ed mem_ops (?q\<lparr> rq_observed := Some ([66] @ COLON # [67]) \<rparr>) 20 s1 = (s2, r)" using b(1) by simp
  have "hd (ro_peer_candidates out3) = [66] @ COLON # [53]"
    by (rule replayed_rendezvous_redirects [OF a(1) meeting_facts(6), of ?e1 "[49]" "[53]" "[66]" "[67]" 20 s2 r,
        OF _ _ _ _ b' meeting_facts(2) _ c meeting_facts(6) meeting_facts(7) meeting_facts(5)])
       (simp_all add: const_defs secs_def meeting_entry_def)
  then show ?thesis using a(1) b(1) c by fastforce
qed

end
