(* ===== verification/Chord.thy ===== *)
theory Chord
  imports Prelude
begin

text \<open>
  The Chord ring of \<open>ipv8-routing/src/cf.rs\<close>: intervals of the ring, the node with its routing table and
  store, and the operations that ask other nodes. A node asks through an RPC handle; here it is the network itself, as in the
  in-process handle of the same file: a map of the registered nodes. An operation that locks a node, changes it and calls
  others is one step on the map. Shown are the walk of a lookup, its bound, what it returns, and how a node is linked in.
\<close>

section \<open>The ring\<close>

type_synonym node_id = u64

definition FINGER_COUNT :: nat where [const_defs]: "FINGER_COUNT = 64"

definition node_id :: "u32 \<Rightarrow> u32 \<Rightarrow> node_id" where
  "node_id asn host_id = push_bit 32 (ucast asn) OR ucast host_id"

definition ring_dist :: "node_id \<Rightarrow> node_id \<Rightarrow> node_id" where
  "ring_dist a b = b - a"

definition in_open_interval :: "node_id \<Rightarrow> node_id \<Rightarrow> node_id \<Rightarrow> bool" where
  "in_open_interval k lo hi \<longleftrightarrow> (if lo < hi then k > lo \<and> k \<le> hi else k > lo \<or> k \<le> hi)"

definition in_closed_interval :: "node_id \<Rightarrow> node_id \<Rightarrow> node_id \<Rightarrow> bool" where
  "in_closed_interval k lo hi \<longleftrightarrow> k = lo \<or> in_open_interval k lo hi"

section \<open>A node\<close>

record node_info =
  ni_id :: node_id
  ni_addr :: bytes

record chord_node =
  cn_id :: node_id
  cn_addr :: bytes
  cn_successor :: "node_info option"
  cn_predecessor :: "node_info option"
  cn_fingers :: "node_info option list"
  cn_store :: "(node_id \<times> bytes) list"
  cn_next_fix :: nat

definition chord_new :: "node_id \<Rightarrow> bytes \<Rightarrow> chord_node" where
  "chord_new ident a = (
     let info = \<lparr> ni_id = ident, ni_addr = a \<rparr>
     in \<lparr> cn_id = ident, cn_addr = a, cn_successor = Some info, cn_predecessor = Some info,
          cn_fingers = (replicate FINGER_COUNT None)[0 := Some info], cn_store = [], cn_next_fix = 0 \<rparr>)"

definition node_info_of :: "chord_node \<Rightarrow> node_info" where
  "node_info_of n = \<lparr> ni_id = cn_id n, ni_addr = cn_addr n \<rparr>"

definition i_am_responsible_for :: "chord_node \<Rightarrow> node_id \<Rightarrow> bool" where
  "i_am_responsible_for n k \<longleftrightarrow> (
     let pred = (case cn_predecessor n of Some p \<Rightarrow> ni_id p | None \<Rightarrow> cn_id n)
     in in_open_interval k pred (cn_id n) \<or> k = cn_id n)"

text \<open>The scan of the fingers from the farthest slot back.\<close>

fun scan_fingers :: "node_id \<Rightarrow> node_id \<Rightarrow> node_info option list \<Rightarrow> node_info option" where
  "scan_fingers me k [] = None"
| "scan_fingers me k (None # fs) = scan_fingers me k fs"
| "scan_fingers me k (Some f # fs) = (if in_open_interval (ni_id f) me k then Some f else scan_fingers me k fs)"

definition closest_preceding_finger :: "chord_node \<Rightarrow> node_id \<Rightarrow> node_info option" where
  "closest_preceding_finger n k = (case scan_fingers (cn_id n) k (rev (take FINGER_COUNT (cn_fingers n))) of
     Some f \<Rightarrow> Some f
   | None \<Rightarrow> cn_successor n)"

definition set_successor :: "node_info \<Rightarrow> chord_node \<Rightarrow> chord_node" where
  "set_successor s n = n\<lparr> cn_successor := Some s, cn_fingers := (cn_fingers n)[0 := Some s] \<rparr>"

definition notified :: "node_info \<Rightarrow> chord_node \<Rightarrow> chord_node" where
  "notified candidate n = (
     let need_update = (case cn_predecessor n of
           None \<Rightarrow> True
         | Some p \<Rightarrow> in_open_interval (ni_id candidate) (ni_id p) (cn_id n))
     in if need_update then n\<lparr> cn_predecessor := Some candidate \<rparr> else n)"

section \<open>The network\<close>

type_synonym net = "node_id \<Rightarrow> chord_node option"

text \<open>\<open>iterative_find_successor\<close>; the number counts the iterations that are left.\<close>

fun find_steps :: "nat \<Rightarrow> net \<Rightarrow> node_id \<Rightarrow> node_id \<Rightarrow> node_info option" where
  "find_steps 0 net current k = None"
| "find_steps (Suc hops) net current k = (case net current of
     None \<Rightarrow> None
   | Some n \<Rightarrow>
       (case cn_successor n of
          None \<Rightarrow> None
        | Some succ \<Rightarrow>
            if in_closed_interval k (cn_id n) (ni_id succ) then Some succ
            else case closest_preceding_finger n k of
                None \<Rightarrow> None
              | Some nxt \<Rightarrow>
                  if ni_id succ = current \<or> current = ni_id nxt then Some succ
                  else find_steps hops net (ni_id nxt) k))"

definition iterative_find_successor :: "net \<Rightarrow> node_id \<Rightarrow> node_id \<Rightarrow> node_info option" where
  "iterative_find_successor net start k = find_steps FINGER_COUNT net start k"

definition rpc_get_predecessor :: "net \<Rightarrow> node_id \<Rightarrow> node_info option" where
  "rpc_get_predecessor net n = Option.bind (net n) cn_predecessor"

definition rpc_notify :: "node_id \<Rightarrow> node_info \<Rightarrow> net \<Rightarrow> net" where
  "rpc_notify n caller net = (case net n of None \<Rightarrow> net | Some nd \<Rightarrow> net(n \<mapsto> notified caller nd))"

definition rpc_dht_put :: "node_id \<Rightarrow> node_id \<Rightarrow> bytes \<Rightarrow> net \<Rightarrow> net \<times> node_id option" where
  "rpc_dht_put start key val net = (case iterative_find_successor net start key of
     None \<Rightarrow> (net, None)
   | Some owner \<Rightarrow>
       (case net (ni_id owner) of
          None \<Rightarrow> (net, None)
        | Some nd \<Rightarrow> (net(ni_id owner \<mapsto> nd\<lparr> cn_store := AList.update key val (cn_store nd) \<rparr>), Some (ni_id owner))))"

definition rpc_dht_get :: "net \<Rightarrow> node_id \<Rightarrow> node_id \<Rightarrow> bytes option" where
  "rpc_dht_get net start key = (case iterative_find_successor net start key of
     None \<Rightarrow> None
   | Some owner \<Rightarrow> (case net (ni_id owner) of None \<Rightarrow> None | Some nd \<Rightarrow> map_of (cn_store nd) key))"

section \<open>Operations of a node on the network\<close>

definition find_successor :: "net \<Rightarrow> chord_node \<Rightarrow> node_id \<Rightarrow> node_info option" where
  "find_successor net n k = (case cn_successor n of
     None \<Rightarrow> None
   | Some succ \<Rightarrow>
       if in_closed_interval k (cn_id n) (ni_id succ) then Some succ
       else case closest_preceding_finger n k of
           None \<Rightarrow> None
         | Some n' \<Rightarrow> if ni_id n' = cn_id n then Some succ else iterative_find_successor net (ni_id n') k)"

definition join :: "node_id \<Rightarrow> net \<Rightarrow> chord_node \<Rightarrow> chord_node \<times> bool" where
  "join bootstrap net n = (case iterative_find_successor net bootstrap (cn_id n) of
     Some succ \<Rightarrow> ((set_successor succ n)\<lparr> cn_predecessor := None \<rparr>, True)
   | None \<Rightarrow> (n, False))"

definition stabilize :: "net \<Rightarrow> chord_node \<Rightarrow> chord_node \<times> net" where
  "stabilize net n = (case cn_successor n of
     None \<Rightarrow> (n, net)
   | Some succ \<Rightarrow>
       let pred_of_succ = (if ni_id succ = cn_id n then cn_predecessor n else rpc_get_predecessor net (ni_id succ));
           n' = (case pred_of_succ of
                   Some x \<Rightarrow> if ni_id x \<noteq> ni_id succ \<and> in_open_interval (ni_id x) (cn_id n) (ni_id succ) then set_successor x n else n
                 | None \<Rightarrow> n)
       in (n', if ni_id succ \<noteq> cn_id n then rpc_notify (ni_id succ) (node_info_of n') net else net))"

definition fix_fingers :: "net \<Rightarrow> chord_node \<Rightarrow> chord_node" where
  "fix_fingers net n = (
     let i = cn_next_fix n;
         start = cn_id n + push_bit i 1;
         n' = (case find_successor net n start of Some s \<Rightarrow> n\<lparr> cn_fingers := (cn_fingers n)[i := Some s] \<rparr> | None \<Rightarrow> n)
     in n'\<lparr> cn_next_fix := (cn_next_fix n + 1) mod FINGER_COUNT \<rparr>)"

definition dht_put :: "net \<Rightarrow> chord_node \<Rightarrow> node_id \<Rightarrow> bytes \<Rightarrow> chord_node \<times> node_id option" where
  "dht_put net n key val = (case find_successor net n key of
     None \<Rightarrow> (n, None)
   | Some owner \<Rightarrow>
       if ni_id owner = cn_id n then (n\<lparr> cn_store := AList.update key val (cn_store n) \<rparr>, Some (ni_id owner))
       else (n, None))"

definition dht_get :: "net \<Rightarrow> chord_node \<Rightarrow> node_id \<Rightarrow> bytes option" where
  "dht_get net n key = (case find_successor net n key of
     None \<Rightarrow> None
   | Some owner \<Rightarrow> if ni_id owner = cn_id n then map_of (cn_store n) key else None)"

text \<open>One locked step of a registered node, and the rounds of \<open>converge\<close> in the order of the hash map.\<close>

definition stabilize_at :: "node_id \<Rightarrow> net \<Rightarrow> net" where
  "stabilize_at ident net = (case net ident of
     None \<Rightarrow> net
   | Some n \<Rightarrow> (case stabilize net n of (n', net') \<Rightarrow> net'(ident \<mapsto> n')))"

definition fix_fingers_at :: "node_id \<Rightarrow> net \<Rightarrow> net" where
  "fix_fingers_at ident net = (case net ident of None \<Rightarrow> net | Some n \<Rightarrow> net(ident \<mapsto> fix_fingers net n))"

definition converge_round :: "node_id list \<Rightarrow> net \<Rightarrow> net" where
  "converge_round idents net =
     foldl (\<lambda>net _. foldl (\<lambda>net ident. fix_fingers_at ident net) net idents)
       (foldl (\<lambda>net ident. stabilize_at ident net) net idents) [0..<FINGER_COUNT]"

definition converge :: "nat \<Rightarrow> node_id list \<Rightarrow> net \<Rightarrow> net" where
  "converge rounds idents net = ((converge_round idents) ^^ rounds) net"

section \<open>Distances\<close>

abbreviation dist :: "node_id \<Rightarrow> node_id \<Rightarrow> nat" where
  "dist a b \<equiv> unat (b - a)"

lemma id_less: "unat (a :: node_id) < 18446744073709551616"
proof -
  have "unat a < 2 ^ LENGTH(64)" by (rule unsigned_less)
  then show ?thesis by simp
qed

lemma dist_0 [simp]: "dist a b = 0 \<longleftrightarrow> a = b"
  by (metis right_minus_eq unat_eq_zero)

lemma dist_less: "dist a b < 2 ^ 64"
  using id_less [of "b - a"] by simp

lemma dist_split: "dist a b \<le> dist a c \<Longrightarrow> dist a c = dist a b + dist b c"
proof -
  assume le: "dist a b \<le> dist a c"
  have "c - b = (c - a) - (b - a)" by simp
  then have "dist b c = dist a c - dist a b" using le unat_sub [of "b - a" "c - a"] by (simp add: word_le_nat_alt)
  then show ?thesis using le by simp
qed

lemma dist_cases: "dist a b = (if a \<le> b then unat b - unat a else unat b + 2 ^ 64 - unat a)"
  by (simp add: unat_sub_if' word_le_nat_alt)

lemma dist_around: "a \<noteq> b \<Longrightarrow> dist a b + dist b a = 2 ^ 64"
  using id_less [of a] id_less [of b] by (auto simp: dist_cases word_le_nat_alt word_unat_eq_iff)

lemma dist_add: "dist a (a + x) = unat x"
  by simp

lemma in_open_interval_dist: "in_open_interval k lo hi \<longleftrightarrow> lo = hi \<or> k \<noteq> lo \<and> dist lo k \<le> dist lo hi"
  unfolding in_open_interval_def dist_cases word_less_nat_alt word_le_nat_alt word_unat_eq_iff
  using id_less [of k] id_less [of lo] id_less [of hi] by auto

section \<open>A ring in order\<close>

text \<open>The owner of a key among the nodes \<open>S\<close>: the first node at the key or after it.\<close>

definition owns :: "node_id set \<Rightarrow> node_id \<Rightarrow> node_id \<Rightarrow> bool" where
  "owns S k n \<longleftrightarrow> n \<in> S \<and> (\<forall>m \<in> S. dist k n \<le> dist k m)"

text \<open>Every node knows the next one, and its fingers are some nodes of the ring.\<close>

definition ring_links :: "node_id set \<Rightarrow> net \<Rightarrow> bool" where
  "ring_links S net \<longleftrightarrow> finite S \<and> dom net = S \<and> (\<forall>i nd. net i = Some nd \<longrightarrow> cn_id nd = i \<and> length (cn_fingers nd) = FINGER_COUNT
     \<and> (\<exists>s. cn_successor nd = Some s \<and> owns S (i + 1) (ni_id s))
     \<and> (\<forall>f. Some f \<in> set (cn_fingers nd) \<longrightarrow> ni_id f \<in> S))"

definition exact_fingers :: "node_id set \<Rightarrow> net \<Rightarrow> bool" where
  "exact_fingers S net \<longleftrightarrow> (\<forall>i nd j. net i = Some nd \<longrightarrow> j < FINGER_COUNT \<longrightarrow>
     (\<exists>f. cn_fingers nd ! j = Some f \<and> owns S (i + push_bit j 1) (ni_id f)))"

lemma ringD:
  assumes "ring_links S net" "net n = Some nd"
  shows "n \<in> S" "cn_id nd = n" "length (cn_fingers nd) = FINGER_COUNT"
    and "\<exists>s. cn_successor nd = Some s \<and> owns S (n + 1) (ni_id s)" "Some f \<in> set (cn_fingers nd) \<Longrightarrow> ni_id f \<in> S"
  using assms by (auto simp: ring_links_def)

lemma ring_member: "ring_links S net \<Longrightarrow> n \<in> S \<Longrightarrow> \<exists>nd. net n = Some nd"
  by (auto simp: ring_links_def)

lemma owns_unique: "owns S k n \<Longrightarrow> owns S k m \<Longrightarrow> n = m"
proof -
  assume "owns S k n" "owns S k m"
  then have "dist k n = dist k m" by (simp add: owns_def order_antisym)
  then show ?thesis by (metis add_diff_cancel_left' diff_add_cancel word_unat_eq_iff)
qed

lemma owns_exists: "finite S \<Longrightarrow> S \<noteq> {} \<Longrightarrow> \<exists>n. owns S k n"
  using ex_min_if_finite [of "dist k ` S"] by (auto simp: owns_def not_less)

text \<open>Between a node and the next one there is no other.\<close>

lemma owns_next_dist:
  assumes "owns S (n + 1) s" "n \<in> S" "x \<in> S" "x \<noteq> n"
  shows "s \<noteq> n" "dist n s \<le> dist n x"
proof -
  have step: "dist n y = dist (n + 1) y + 1" if "y \<noteq> n" for y
  proof -
    have "dist n y \<noteq> 0" using that dist_0 [where a = n and b = y] by auto
    moreover have "dist n (n + 1) = 1" by simp
    ultimately have "dist n (n + 1) \<le> dist n y" by linarith
    from dist_split [OF this] show ?thesis by simp
  qed
  have self: "dist (n + 1) n = 2 ^ 64 - 1" using dist_around [of n "n + 1"] by simp
  have le: "dist (n + 1) s \<le> dist (n + 1) x" using assms(1,3) by (simp add: owns_def)
  show s: "s \<noteq> n"
  proof
    assume "s = n"
    then have "2 ^ 64 - 1 \<le> dist (n + 1) x" using le self by simp
    then show False using step [OF assms(4)] dist_less [where a = n and b = x] by simp
  qed
  show "dist n s \<le> dist n x" using le step [OF s] step [OF assms(4)] by simp
qed

lemma owns_after:
  assumes "owns S (n + 1) s" "n \<in> S" "in_open_interval k n s"
  shows "owns S k s"
proof (cases "s = n")
  case True
  then have "S = {n}" using owns_next_dist(1) [OF assms(1,2)] assms(2) by blast
  then show ?thesis using True by (simp add: owns_def)
next
  case False
  then have k: "dist n k \<le> dist n s" "k \<noteq> n" using assms(3) by (auto simp: in_open_interval_dist)
  have "dist k s \<le> dist k x" if x: "x \<in> S" for x
  proof (cases "x = n")
    case True
    show ?thesis unfolding True using dist_split [OF k(1)] dist_around [OF k(2)] dist_less [where a = n and b = s] by linarith
  next
    case False
    note le = owns_next_dist(2) [OF assms(1,2) x False]
    show ?thesis using dist_split [OF k(1)] dist_split [OF order.trans [OF k(1) le]] le by simp
  qed
  then show ?thesis using assms(1) by (simp add: owns_def)
qed

section \<open>The walk of a lookup\<close>

lemma scan_fingers_SomeD:
  "scan_fingers me k fs = Some f \<Longrightarrow> Some f \<in> set fs \<and> in_open_interval (ni_id f) me k"
  by (induction me k fs rule: scan_fingers.induct) (auto split: if_splits)

lemma scan_fingers_last:
  "\<lbrakk>i < length fs; fs ! i = Some g; in_open_interval (ni_id g) me k\<rbrakk> \<Longrightarrow>
    \<exists>j f. i \<le> j \<and> j < length fs \<and> fs ! j = Some f \<and> in_open_interval (ni_id f) me k \<and> scan_fingers me k (rev fs) = Some f"
proof (induction fs rule: rev_induct)
  case (snoc x fs)
  show ?case
  proof (cases "\<exists>f. x = Some f \<and> in_open_interval (ni_id f) me k")
    case True
    then show ?thesis using snoc.prems(1) by (intro exI [of _ "length fs"]) auto
  next
    case False
    then have i: "i < length fs" using snoc.prems by (auto simp: nth_append less_Suc_eq)
    then have "fs ! i = Some g" using snoc.prems(2) by (simp add: nth_append)
    from snoc.IH [OF i this snoc.prems(3)] obtain j f where
      j: "i \<le> j" "j < length fs" "fs ! j = Some f" "in_open_interval (ni_id f) me k" "scan_fingers me k (rev fs) = Some f" by blast
    have "scan_fingers me k (rev (fs @ [x])) = Some f" using False j(5) by (cases x) auto
    then show ?thesis using j(1-4) by (intro exI [of _ j] exI [of _ f]) (simp add: nth_append)
  qed
qed simp

text \<open>Where a lookup goes from a node that cannot answer it.\<close>

lemma hop:
  assumes "ring_links S net" "net n = Some nd" "k \<notin> S" "cn_successor nd = Some s" "\<not> in_closed_interval k n (ni_id s)"
  obtains f where "closest_preceding_finger nd k = Some f" "ni_id f \<in> S" "ni_id f \<noteq> n" "ni_id s \<noteq> n"
    "dist n (ni_id f) < dist n k"
proof -
  have n: "cn_id nd = n" "length (cn_fingers nd) = FINGER_COUNT" "owns S (n + 1) (ni_id s)" "\<forall>f. Some f \<in> set (cn_fingers nd) \<longrightarrow> ni_id f \<in> S"
    using ringD [OF assms(1,2)] assms(4) by auto
  have s: "k \<noteq> n" "ni_id s \<noteq> n" "dist n (ni_id s) < dist n k" using assms(5) by (auto simp: in_closed_interval_def in_open_interval_dist)
  have sS: "ni_id s \<in> S" using n(3) by (simp add: owns_def)
  have "\<exists>f. closest_preceding_finger nd k = Some f \<and> ni_id f \<in> S \<and> in_open_interval (ni_id f) n k"
  proof (cases "scan_fingers n k (rev (take FINGER_COUNT (cn_fingers nd)))")
    case None
    have "in_open_interval (ni_id s) n k" using s by (simp add: in_open_interval_dist)
    then show ?thesis using None sS assms(4) n(1) by (simp add: closest_preceding_finger_def)
  next
    case (Some f)
    then show ?thesis using scan_fingers_SomeD [OF Some] n(1,2,4) by (auto simp: closest_preceding_finger_def)
  qed
  then obtain f where f: "closest_preceding_finger nd k = Some f" "ni_id f \<in> S" "in_open_interval (ni_id f) n k" by blast
  then have "ni_id f \<noteq> n" "dist n (ni_id f) \<le> dist n k" using s(1) by (auto simp: in_open_interval_dist)
  moreover have "dist n (ni_id f) \<noteq> dist n k"
  proof
    assume "dist n (ni_id f) = dist n k"
    then have "ni_id f = k" by (metis diff_add_cancel word_unat_eq_iff)
    then show False using f(2) assms(3) by simp
  qed
  ultimately show ?thesis using that f(1,2) s(2) by simp
qed

text \<open>An answer is always right, whatever the fingers hold.\<close>

lemma find_steps_owner:
  assumes "ring_links S net" "k \<notin> S"
  shows "current \<in> S \<Longrightarrow> find_steps hops net current k = Some r \<Longrightarrow> owns S k (ni_id r)"
proof (induction hops arbitrary: current)
  case (Suc hops)
  obtain nd where nd: "net current = Some nd" using ring_member [OF assms(1) Suc.prems(1)] by blast
  obtain s where s: "cn_id nd = current" "cn_successor nd = Some s" "owns S (current + 1) (ni_id s)"
    using ringD [OF assms(1) nd] by blast
  show ?case
  proof (cases "in_closed_interval k current (ni_id s)")
    case True
    then have "in_open_interval k current (ni_id s)" using assms(2) Suc.prems(1) by (auto simp: in_closed_interval_def)
    then show ?thesis using owns_after [OF s(3) Suc.prems(1)] True Suc.prems(2) nd s by simp
  next
    case False
    obtain f where f: "closest_preceding_finger nd k = Some f" "ni_id f \<in> S" "ni_id f \<noteq> current" "ni_id s \<noteq> current"
      by (rule hop [OF assms(1) nd assms(2) s(2) False])
    then have "find_steps hops net (ni_id f) k = Some r" using Suc.prems(2) nd s(1,2) False by auto
    then show ?thesis by (rule Suc.IH [OF f(2)])
  qed
qed simp

section \<open>The bound on the hops\<close>

lemma dist_join: "dist a b + dist b c < 2 ^ 64 \<Longrightarrow> dist a c = dist a b + dist b c"
proof -
  assume "dist a b + dist b c < 2 ^ 64"
  moreover have "c - a = (b - a) + (c - b)" by simp
  ultimately show ?thesis by (simp only: unat_word_ariths) simp
qed

lemma finger_start_dist: "j < 64 \<Longrightarrow> dist n (n + push_bit j 1) = 2 ^ j"
proof -
  assume "j < 64"
  then have "(2 :: nat) ^ j < 2 ^ 64" by (rule power_strict_increasing) simp
  moreover have "unat (of_nat m :: node_id) = m" if "m < 2 ^ 64" for m
    using that by (simp add: unat_of_nat take_bit_nat_eq_self)
  ultimately have "unat (of_nat (2 ^ j) :: node_id) = 2 ^ j" by blast
  then show ?thesis by (simp add: push_bit_eq_mult)
qed

lemma exact_hop:
  assumes "ring_links S net" "exact_fingers S net" "net n = Some nd" "k \<notin> S"
    and "p \<in> S" "dist n p < dist n k" "2 ^ i \<le> dist n p"
  obtains f where "closest_preceding_finger nd k = Some f" "2 ^ i \<le> dist n (ni_id f)"
proof -
  note r = ringD [OF assms(1,3)]
  have kn: "k \<noteq> n" using assms(4) r(1) by blast
  have "(2 :: nat) ^ i < 2 ^ 64" using assms(7) dist_less [where a = n and b = p] by linarith
  then have i: "i < 64" by (rule power_less_imp_less_exp [rotated]) simp
  then obtain g where g: "cn_fingers nd ! i = Some g" "owns S (n + push_bit i 1) (ni_id g)"
    using assms(2,3) i unfolding exact_fingers_def FINGER_COUNT_def by blast
  let ?a = "n + push_bit i 1"
  have a: "dist n ?a = 2 ^ i" by (rule finger_start_dist [OF i])
  have "dist n p = dist n ?a + dist ?a p" by (rule dist_split) (use a assms(7) in simp)
  moreover have "dist ?a (ni_id g) \<le> dist ?a p" using g(2) assms(5) by (simp add: owns_def)
  ultimately have le: "dist n ?a + dist ?a (ni_id g) \<le> dist n p" by simp
  then have gd: "dist n (ni_id g) = dist n ?a + dist ?a (ni_id g)" using dist_less [where a = n and b = p] by (intro dist_join) linarith
  then have "dist n (ni_id g) \<noteq> 0" "dist n (ni_id g) \<le> dist n k" using a le assms(6) by simp_all
  then have "in_open_interval (ni_id g) n k" by (auto simp: in_open_interval_dist)
  from scan_fingers_last [OF _ g(1) this] r(3) i obtain j f where
    j: "i \<le> j" "j < 64" "cn_fingers nd ! j = Some f" "in_open_interval (ni_id f) n k" "scan_fingers n k (rev (cn_fingers nd)) = Some f"
    by (auto simp: FINGER_COUNT_def)
  let ?b = "n + push_bit j 1"
  have b: "dist n ?b = 2 ^ j" by (rule finger_start_dist [OF j(2)])
  have fb: "owns S ?b (ni_id f)" using assms(2,3) j(2,3) by (fastforce simp: exact_fingers_def FINGER_COUNT_def)
  have f: "ni_id f \<noteq> n" using j(4) kn by (auto simp: in_open_interval_dist)
  have "2 ^ j \<le> dist n (ni_id f)"
  proof (rule ccontr)
    assume "\<not> 2 ^ j \<le> dist n (ni_id f)"
    then have lt: "dist n (ni_id f) < dist n ?b" using b by simp
    then have d: "dist n ?b = dist n (ni_id f) + dist (ni_id f) ?b" by (intro dist_split) simp
    have "ni_id f \<noteq> ?b" using lt by auto
    note behind = dist_around [OF this]
    have "?b \<noteq> n" using b by (metis dist_0 power_not_zero zero_neq_numeral)
    note around = dist_around [OF this]
    have "dist n (ni_id f) \<noteq> 0" using f dist_0 [where a = n and b = "ni_id f"] by blast
    moreover have "dist ?b (ni_id f) \<le> dist ?b n" using fb r(1) unfolding owns_def by blast
    ultimately show False using d behind around by linarith
  qed
  moreover have "(2 :: nat) ^ i \<le> 2 ^ j" using j(1) by simp
  ultimately have "2 ^ i \<le> dist n (ni_id f)" by linarith
  then show ?thesis using that j(5) r(2,3) by (simp add: closest_preceding_finger_def)
qed

text \<open>The farthest node before the key.\<close>

lemma last_before:
  assumes "finite S" "s \<in> S" "dist n s < dist n k"
  obtains p where "p \<in> S" "dist n p < dist n k" "\<And>x. x \<in> S \<Longrightarrow> dist n x < dist n k \<Longrightarrow> dist n x \<le> dist n p"
proof -
  let ?D = "dist n ` {x \<in> S. dist n x < dist n k}"
  have "finite ?D" "?D \<noteq> {}" using assms by auto
  then have "Max ?D \<in> ?D" by (rule Max_in)
  then obtain p where "p \<in> S" "dist n p < dist n k" "Max ?D = dist n p" by blast
  then show ?thesis using that \<open>finite ?D\<close> by (metis (mono_tags, lifting) Max_ge imageI mem_Collect_eq)
qed

lemma find_steps_returns:
  assumes "ring_links S net" "exact_fingers S net" "k \<notin> S"
  shows "\<lbrakk>n \<in> S; \<forall>x \<in> S. dist n x < dist n k \<longrightarrow> dist n x + 2 \<le> 2 ^ (j + 1)\<rbrakk> \<Longrightarrow> \<exists>r. find_steps (j + 1) net n k = Some r"
proof (induction j arbitrary: n)
  case 0
  obtain nd where nd: "net n = Some nd" using ring_member [OF assms(1) 0(1)] by blast
  obtain s where s: "cn_id nd = n" "cn_successor nd = Some s" "owns S (n + 1) (ni_id s)"
    using ringD [OF assms(1) nd] by blast
  have "in_closed_interval k n (ni_id s)"
  proof (rule ccontr)
    assume "\<not> in_closed_interval k n (ni_id s)"
    then have lt: "dist n (ni_id s) < dist n k" "ni_id s \<noteq> n" by (auto simp: in_closed_interval_def in_open_interval_dist)
    then have "dist n (ni_id s) + 2 \<le> 2 ^ (0 + 1)" using 0(2) s(3) unfolding owns_def by blast
    then show False using lt(2) dist_0 [where a = n and b = "ni_id s"] by (metis add_le_same_cancel2 add_0 le_zero_eq power_one_right)
  qed
  then show ?case using nd s by simp
next
  case (Suc j)
  obtain nd where nd: "net n = Some nd" using ring_member [OF assms(1) Suc.prems(1)] by blast
  obtain s where s: "cn_id nd = n" "cn_successor nd = Some s" "owns S (n + 1) (ni_id s)"
    using ringD [OF assms(1) nd] by blast
  show ?case
  proof (cases "in_closed_interval k n (ni_id s)")
    case True
    then show ?thesis using nd s by simp
  next
    case False
    obtain f where f: "closest_preceding_finger nd k = Some f" "ni_id f \<in> S" "ni_id f \<noteq> n" "ni_id s \<noteq> n" "dist n (ni_id f) < dist n k"
      by (rule hop [OF assms(1) nd assms(3) s(2) False])
    have "finite S" using assms(1) by (simp add: ring_links_def)
    from last_before [OF this f(2,5)] obtain p where
      p: "p \<in> S" "dist n p < dist n k" "\<And>x. x \<in> S \<Longrightarrow> dist n x < dist n k \<Longrightarrow> dist n x \<le> dist n p" by blast
    have "0 < dist n (ni_id f)" using f(3) dist_0 [where a = n and b = "ni_id f"] by (meson neq0_conv)
    then have "1 \<le> dist n p" using p(3) [OF f(2,5)] by linarith
    then obtain i where i: "2 ^ i \<le> dist n p" "dist n p < 2 ^ (i + 1)" using ex_power_ivl1 [of 2 "dist n p"] by auto
    have bound: "dist n p + 2 \<le> 2 ^ (Suc j + 1)" using Suc.prems(2) p(1,2) by blast
    have "(2 :: nat) ^ i < 2 ^ (Suc j + 1)" using i(1) bound by linarith
    then have ij: "i \<le> Suc j" using power_less_imp_less_exp [of "2 :: nat" i "Suc j + 1"] by simp
    obtain f' where f': "closest_preceding_finger nd k = Some f'" "2 ^ i \<le> dist n (ni_id f')"
      by (rule exact_hop [OF assms(1,2) nd assms(3) p(1,2) i(1)])
    then have big: "2 ^ i \<le> dist n (ni_id f)" using f(1) by simp
    have k: "dist n k = dist n (ni_id f) + dist (ni_id f) k" by (rule dist_split) (use f(5) in simp)
    have next_bound: "dist (ni_id f) x + 2 \<le> 2 ^ (j + 1)" if x: "x \<in> S" "dist (ni_id f) x < dist (ni_id f) k" for x
    proof -
      have "dist n (ni_id f) + dist (ni_id f) x < 2 ^ 64" using k x(2) dist_less [where a = n and b = k] by linarith
      then have d: "dist n x = dist n (ni_id f) + dist (ni_id f) x" by (rule dist_join)
      then have "dist n x \<le> dist n p" using p(3) [OF x(1)] k x(2) by linarith
      then have le: "dist (ni_id f) x + 2 ^ i \<le> dist n p" using d big by linarith
      show ?thesis
      proof (cases "i = Suc j")
        case True
        then show ?thesis using le bound by simp
      next
        case False
        then have up: "(2 :: nat) ^ (i + 1) \<le> 2 ^ (j + 1)" using ij by (intro power_increasing) simp_all
        have "(1 :: nat) \<le> 2 ^ i" by simp
        moreover have "dist (ni_id f) x + 2 \<le> 2 ^ (i + 1)" using le i(2) \<open>1 \<le> 2 ^ i\<close> unfolding power_add power_one_right by linarith
        ultimately show ?thesis using up by linarith
      qed
    qed
    have "\<exists>r. find_steps (j + 1) net (ni_id f) k = Some r" by (rule Suc.IH [OF f(2)]) (use next_bound in blast)
    then show ?thesis using nd s(1,2) False f(1,3,4) by (auto simp del: find_steps.simps(2) simp: find_steps.simps(2) [of "Suc j"])
  qed
qed

lemma lookup_owner:
  assumes "ring_links S net" "exact_fingers S net" "start \<in> S" "k \<notin> S"
  shows "\<exists>r. iterative_find_successor net start k = Some r \<and> owns S k (ni_id r)"
proof -
  have "dist start x + 2 \<le> 2 ^ (63 + 1)" if "dist start x < dist start k" for x
    using that dist_less [where a = start and b = k] by simp
  then obtain r where "find_steps (63 + 1) net start k = Some r" using find_steps_returns [OF assms(1,2,4,3), of 63] by blast
  then have r: "iterative_find_successor net start k = Some r" by (simp add: iterative_find_successor_def FINGER_COUNT_def)
  then have "owns S k (ni_id r)" using find_steps_owner [OF assms(1,4,3)] by (simp add: iterative_find_successor_def)
  with r show ?thesis by blast
qed

text \<open>
  C21. Lookups on the ring are correct and within the bound: on a ring of any nodes whose successors and fingers are up to
  date, the iterative lookup of any key that is not itself the id of a node finds, from every node and within the 64
  iterations it allows itself, the first node after the key.
\<close>

theorem lookup_finds_owner:
  assumes "ring_links S net" "exact_fingers S net" "start \<in> S" "k \<notin> S"
  shows "\<exists>r. iterative_find_successor net start k = Some r \<and> owns S k (ni_id r)"
  using assms by (rule lookup_owner)

end
