(* ===== verification/ChordRing.thy ===== *)
theory ChordRing
  imports Chord
begin

text \<open>
  What the Chord operations do to a ring in order: the table of keys and values that a put and a get from any two nodes make
  up, the keys for which it fails, and the steps that link a new node in. Sample rings for the witnesses are built by
  looking for the nearest node of a list.
\<close>

section \<open>Rings built from a list\<close>

definition nearest :: "node_id list \<Rightarrow> node_id \<Rightarrow> node_id" where
  "nearest ids k = fold (\<lambda>m best. if dist k m < dist k best then m else best) ids (hd ids)"

definition perfect_node :: "node_id list \<Rightarrow> node_id \<Rightarrow> chord_node" where
  "perfect_node ids i = (let info = (\<lambda>n. Some \<lparr> ni_id = n, ni_addr = [] \<rparr>) in
     \<lparr> cn_id = i, cn_addr = [], cn_successor = info (nearest ids (i + 1)),
       cn_predecessor = info (hd (filter (\<lambda>p. nearest ids (p + 1) = i) ids @ [i])),
       cn_fingers = map (\<lambda>j. info (nearest ids (i + push_bit j 1))) [0..<FINGER_COUNT], cn_store = [], cn_next_fix = 0 \<rparr>)"

definition perfect_net :: "node_id list \<Rightarrow> net" where
  "perfect_net ids i = (if i \<in> set ids then Some (perfect_node ids i) else None)"

lemma nearest_fold:
  "let r = fold (\<lambda>m best. if dist k m < dist k best then m else best) ms b
   in (r = b \<or> r \<in> set ms) \<and> dist k r \<le> dist k b \<and> (\<forall>m \<in> set ms. dist k r \<le> dist k m)"
proof (induction ms arbitrary: b)
  case (Cons m ms)
  show ?case using Cons.IH [of "if dist k m < dist k b then m else b"] by (auto simp: Let_def split: if_splits)
qed simp

lemma nearest_owns: "ids \<noteq> [] \<Longrightarrow> owns (set ids) k (nearest ids k)"
  using nearest_fold [of k ids "hd ids"] by (auto simp: owns_def nearest_def Let_def)

lemma perfect_ring:
  assumes "ids \<noteq> []"
  shows "ring_links (set ids) (perfect_net ids)" "exact_fingers (set ids) (perfect_net ids)"
proof -
  have "nearest ids k \<in> set ids" for k using nearest_owns [OF assms, of k] by (simp add: owns_def)
  then show "ring_links (set ids) (perfect_net ids)"
    using nearest_owns [OF assms]
    by (auto simp: ring_links_def perfect_net_def perfect_node_def dom_def FINGER_COUNT_def split: if_splits)
  show "exact_fingers (set ids) (perfect_net ids)"
    using nearest_owns [OF assms] by (auto simp: exact_fingers_def perfect_net_def perfect_node_def split: if_splits)
qed

lemma lookup_finds_owner_witness:
  "map_option ni_id (iterative_find_successor (perfect_net [10, 2000, 300000]) 2000 5) = Some 10"
proof -
  have "ring_links {10, 2000, 300000} (perfect_net [10, 2000, 300000])" "exact_fingers {10, 2000, 300000} (perfect_net [10, 2000, 300000])"
    using perfect_ring [of "[10, 2000, 300000]"] by simp_all
  from lookup_finds_owner [OF this, of 2000 5] obtain r where
    r: "iterative_find_successor (perfect_net [10, 2000, 300000]) 2000 5 = Some r" "owns {10, 2000, 300000} 5 (ni_id r)" by auto
  have "owns {10, 2000, 300000} 5 10" by (simp add: owns_def)
  then have "ni_id r = 10" using owns_unique r(2) by blast
  then show ?thesis using r(1) by simp
qed

section \<open>Keys and values\<close>

definition same_routes :: "net \<Rightarrow> net \<Rightarrow> bool" where
  "same_routes net net' \<longleftrightarrow> (\<forall>i. map_option (cn_store_update (\<lambda>_. [])) (net i) = map_option (cn_store_update (\<lambda>_. [])) (net' i))"

lemma same_routes_find: "same_routes net net' \<Longrightarrow> find_steps hops net current k = find_steps hops net' current k"
proof (induction hops arbitrary: current)
  case (Suc hops)
  have eq: "map_option (cn_store_update (\<lambda>_. [])) (net current) = map_option (cn_store_update (\<lambda>_. [])) (net' current)"
    using Suc.prems by (simp add: same_routes_def)
  show ?case
  proof (cases "net current")
    case None
    then show ?thesis using eq by (cases "net' current") simp_all
  next
    case (Some n)
    then obtain n' where n': "net' current = Some n'" "n\<lparr> cn_store := [] \<rparr> = n'\<lparr> cn_store := [] \<rparr>"
      using eq by (cases "net' current") auto
    then have "cn_id n = cn_id n'" "cn_successor n = cn_successor n'" "cn_fingers n = cn_fingers n'"
      by (cases n; cases n'; simp)+
    moreover from this have "closest_preceding_finger n k = closest_preceding_finger n' k" by (simp add: closest_preceding_finger_def split: option.split)
    ultimately show ?thesis using Some n'(1) Suc.IH [OF Suc.prems] by (simp split: option.split)
  qed
qed simp

lemma put_same_routes:
  assumes "net i = Some nd"
  shows "same_routes net (net(i \<mapsto> nd\<lparr> cn_store := st \<rparr>))"
  using assms by (simp add: same_routes_def)

lemma put_get:
  assumes "ring_links S net" "exact_fingers S net" "a \<in> S" "k \<notin> S"
  shows "\<exists>net' owner. rpc_dht_put a k v net = (net', Some owner) \<and> owns S k owner
    \<and> (\<forall>b \<in> S. rpc_dht_get net' b k = Some v) \<and> (\<forall>b k'. k' \<noteq> k \<longrightarrow> rpc_dht_get net' b k' = rpc_dht_get net b k')"
proof -
  have found: "\<exists>r. iterative_find_successor net b k = Some r \<and> owns S k (ni_id r)" if "b \<in> S" for b
    by (rule lookup_owner [OF assms(1,2) that assms(4)])
  then obtain r where r: "iterative_find_successor net a k = Some r" "owns S k (ni_id r)" using assms(3) by blast
  have "ni_id r \<in> S" using r(2) by (simp add: owns_def)
  then obtain nd where nd: "net (ni_id r) = Some nd" using ring_member [OF assms(1)] by blast
  let ?net = "net(ni_id r \<mapsto> nd\<lparr> cn_store := AList.update k v (cn_store nd) \<rparr>)"
  have find: "iterative_find_successor ?net b k' = iterative_find_successor net b k'" for b k'
    unfolding iterative_find_successor_def by (rule same_routes_find [symmetric, OF put_same_routes [where net = net and i = "ni_id r", OF nd]])
  have "rpc_dht_get ?net b k = Some v" if b: "b \<in> S" for b
  proof -
    obtain q where q: "iterative_find_successor net b k = Some q" "owns S k (ni_id q)" using found [OF b] by blast
    then have "ni_id q = ni_id r" using owns_unique r(2) by blast
    then show ?thesis using q(1) by (simp add: rpc_dht_get_def find update_conv)
  qed
  moreover have "rpc_dht_get ?net b k' = rpc_dht_get net b k'" if "k' \<noteq> k" for b k'
    using that nd by (auto simp: rpc_dht_get_def find update_conv split: option.split)
  ultimately show ?thesis using r nd by (intro exI [of _ ?net] exI [of _ "ni_id r"]) (simp add: rpc_dht_put_def)
qed

text \<open>
  C22. The ring is a table: on a ring in order, a value put under a key that is no node id, from any node, is stored with
  the owner of the key, is what a get from any other node returns, and changes no other key.
\<close>

theorem dht_put_get:
  assumes "ring_links S net" "exact_fingers S net" "a \<in> S" "k \<notin> S"
  shows "\<exists>net' owner. rpc_dht_put a k v net = (net', Some owner) \<and> owns S k owner
    \<and> (\<forall>b \<in> S. rpc_dht_get net' b k = Some v) \<and> (\<forall>b k'. k' \<noteq> k \<longrightarrow> rpc_dht_get net' b k' = rpc_dht_get net b k')"
  using assms by (rule put_get)

lemma dht_put_get_witness:
  "rpc_dht_get (fst (rpc_dht_put 10 5 [1, 2] (perfect_net [10, 2000, 300000]))) 2000 5 = Some [1, 2]"
proof -
  have "ring_links {10, 2000, 300000} (perfect_net [10, 2000, 300000])" "exact_fingers {10, 2000, 300000} (perfect_net [10, 2000, 300000])"
    using perfect_ring [of "[10, 2000, 300000]"] by simp_all
  from dht_put_get [OF this, of 10 5 "[1, 2]"] show ?thesis by auto
qed

text \<open>
  A key that is the id of a node gets lost: put from that node itself, its value is stored with the next node on the
  ring, although the node considers itself responsible; the node before it looks at the node itself, and finds whatever
  was there before.
\<close>

theorem node_key_lost:
  assumes "ring_links S net" "net k = Some nk" "net p = Some np" "p \<noteq> k" "owns S (p + 1) k"
  shows "\<exists>net' owner. rpc_dht_put k k v net = (net', Some owner) \<and> owner \<noteq> k \<and> i_am_responsible_for nk k
    \<and> rpc_dht_get net' p k = map_of (cn_store nk) k"
proof -
  note rk = ringD [OF assms(1,2)] and rp = ringD [OF assms(1,3)]
  obtain s where s: "cn_successor nk = Some s" "owns S (k + 1) (ni_id s)" using rk(4) by blast
  obtain t where t: "cn_successor np = Some t" "owns S (p + 1) (ni_id t)" using rp(4) by blast
  have tk: "ni_id t = k" using owns_unique t(2) assms(5) by blast
  have sk: "ni_id s \<noteq> k" by (rule owns_next_dist(1) [OF s(2) rk(1) rp(1) assms(4)])
  obtain ns where ns: "net (ni_id s) = Some ns" using ring_member [OF assms(1)] s(2) by (auto simp: owns_def)
  let ?net = "net(ni_id s \<mapsto> ns\<lparr> cn_store := AList.update k v (cn_store ns) \<rparr>)"
  have "iterative_find_successor net k k = Some s"
    using assms(2) rk(2) s(1) by (simp add: iterative_find_successor_def FINGER_COUNT_def numeral_eq_Suc in_closed_interval_def)
  then have put: "rpc_dht_put k k v net = (?net, Some (ni_id s))" using ns by (simp add: rpc_dht_put_def)
  have "iterative_find_successor net p k = Some t"
    using assms(3,4) rp(2) t(1) tk
    by (simp add: iterative_find_successor_def FINGER_COUNT_def numeral_eq_Suc in_closed_interval_def in_open_interval_dist)
  then have "iterative_find_successor ?net p k = Some t"
    unfolding iterative_find_successor_def using same_routes_find [OF put_same_routes [where net = net and i = "ni_id s", OF ns]] by simp
  then have "rpc_dht_get ?net p k = map_of (cn_store nk) k" using tk sk assms(2) by (simp add: rpc_dht_get_def)
  moreover have "i_am_responsible_for nk k" using rk(2) by (simp add: i_am_responsible_for_def)
  ultimately show ?thesis using put sk by blast
qed

lemma node_key_lost_witness:
  "rpc_dht_get (fst (rpc_dht_put 2000 2000 [1, 2] (perfect_net [10, 2000, 300000]))) 10 2000 = None"
proof -
  have r: "ring_links {10, 2000, 300000} (perfect_net [10, 2000, 300000])"
    using perfect_ring [of "[10, 2000, 300000]"] by simp
  have n: "perfect_net [10, 2000, 300000] 2000 = Some (perfect_node [10, 2000, 300000] 2000)"
    "perfect_net [10, 2000, 300000] 10 = Some (perfect_node [10, 2000, 300000] 10)" by (simp_all add: perfect_net_def)
  have "owns {10, 2000, 300000} (10 + 1) 2000" by (simp add: owns_def unsigned_minus_1_eq_mask mask_eq_exp_minus_1)
  from node_key_lost [OF r n _ this, of "[1, 2]"] show ?thesis by (auto simp: perfect_node_def)
qed

section \<open>A new node\<close>

text \<open>A ring whose predecessors are up to date as well.\<close>

definition linked_ring :: "node_id set \<Rightarrow> net \<Rightarrow> bool" where
  "linked_ring S net \<longleftrightarrow> ring_links S net
     \<and> (\<forall>i nd. net i = Some nd \<longrightarrow> (\<exists>q. cn_predecessor nd = Some q \<and> ni_id q \<in> S \<and> owns S (ni_id q + 1) i))"

text \<open>The place of \<open>n\<close>, between the nodes \<open>p\<close> and \<open>s\<close>.\<close>

definition ring_gap :: "node_id set \<Rightarrow> node_id \<Rightarrow> node_id \<Rightarrow> node_id \<Rightarrow> bool" where
  "ring_gap S p n s \<longleftrightarrow> p \<in> S \<and> n \<notin> S \<and> owns S (p + 1) s \<and> owns S n s"

lemma gapD:
  assumes "ring_gap S p n s"
  shows "p \<in> S" "n \<notin> S" "owns S (p + 1) s" "owns S n s" "s \<in> S" "s \<noteq> n" "p \<noteq> n" "x \<in> S \<Longrightarrow> dist n s \<le> dist n x"
    "x \<in> S \<Longrightarrow> x \<noteq> p \<Longrightarrow> s \<noteq> p \<and> dist p s \<le> dist p x"
  using assms owns_next_dist [of S p s x] by (auto simp: ring_gap_def owns_def)

lemma owns_nextI:
  assumes "t \<in> S" "t \<noteq> i" "\<And>x. x \<in> S \<Longrightarrow> x \<noteq> i \<Longrightarrow> dist i t \<le> dist i x"
  shows "owns S (i + 1) t"
proof -
  have step: "dist i y = dist (i + 1) y + 1" if "y \<noteq> i" for y
  proof -
    have "dist i y \<noteq> 0" using that dist_0 [where a = i and b = y] by auto
    moreover have "dist i (i + 1) = 1" by simp
    ultimately have "dist i (i + 1) \<le> dist i y" by linarith
    from dist_split [OF this] show ?thesis by simp
  qed
  have "dist (i + 1) t \<le> dist (i + 1) x" if x: "x \<in> S" for x
  proof (cases "x = i")
    case True
    have "dist (i + 1) i = 2 ^ 64 - 1" using dist_around [of i "i + 1"] by simp
    then show ?thesis using dist_less [where a = "i + 1" and b = t] True by simp
  next
    case False
    then show ?thesis using assms(3) [OF x] step [OF assms(2)] step [OF False] by simp
  qed
  then show ?thesis using assms(1) by (simp add: owns_def)
qed

lemma same_dist: "dist a b = dist a c \<Longrightarrow> b = c"
  by (metis diff_add_cancel word_unat_eq_iff)

lemma pred_unique:
  assumes "owns S (p + 1) s" "owns S (q + 1) s" "p \<in> S" "q \<in> S"
  shows "p = q"
proof (rule ccontr)
  assume pq: "p \<noteq> q"
  have a: "s \<noteq> p" "dist p s \<le> dist p q" using owns_next_dist [OF assms(1,3,4)] pq by blast+
  have b: "s \<noteq> q" "dist q s \<le> dist q p" using owns_next_dist [OF assms(2,4,3) pq] by blast+
  have "dist p q + dist q p = 2 ^ 64" "dist p s + dist s p = 2 ^ 64" using dist_around pq a(1) by metis+
  then have "dist s q = 0" using dist_split [OF a(2)] dist_split [OF b(2)] by linarith
  then show False using b(1) by simp
qed

lemma gap_before: "ring_gap S p n s \<Longrightarrow> p \<noteq> s \<Longrightarrow> \<not> in_open_interval p n s"
proof
  assume g: "ring_gap S p n s" "p \<noteq> s" "in_open_interval p n s"
  then have "dist n p \<le> dist n s" using gapD(6) by (auto simp: in_open_interval_dist)
  then have "dist n p = dist n s" using gapD(1,8) [OF g(1)] by (simp add: order_antisym)
  then show False using same_dist g(2) by blast
qed

lemma gap_dist:
  assumes "ring_gap S p n s" "p \<noteq> s"
  shows "dist p n \<le> dist p s"
proof (rule ccontr)
  note g = gapD [OF assms(1)]
  assume "\<not> dist p n \<le> dist p s"
  then have "dist p n = dist p s + dist s n" by (intro dist_split) simp
  moreover have "dist p n + dist n p = 2 ^ 64" "dist s n + dist n s = 2 ^ 64" using dist_around g(6,7) by metis+
  moreover have "dist n s \<le> dist n p" by (rule g(8) [OF g(1)])
  ultimately have "dist p s = 0" by linarith
  then show False using assms(2) by simp
qed

lemma gap_between: "ring_gap S p n s \<Longrightarrow> in_open_interval n p s"
  using gap_dist gapD(7) by (fastforce simp: in_open_interval_dist)

lemma gap_owns:
  assumes "ring_gap S p n s"
  shows "owns (insert n S) (p + 1) n" "owns (insert n S) (n + 1) s"
    "owns S (i + 1) t \<Longrightarrow> i \<in> S \<Longrightarrow> i \<noteq> p \<Longrightarrow> owns (insert n S) (i + 1) t"
proof -
  note g = gapD [OF assms]
  show "owns (insert n S) (p + 1) n"
  proof (rule owns_nextI)
    fix x assume x: "x \<in> insert n S" "x \<noteq> p"
    show "dist p n \<le> dist p x"
    proof (cases "x = n")
      case False
      then have "s \<noteq> p" "dist p s \<le> dist p x" using g(9) x by blast+
      then show ?thesis using gap_dist [OF assms] by fastforce
    qed simp
  qed (use g(7) in auto)
  show "owns (insert n S) (n + 1) s"
    by (rule owns_nextI) (use g in auto)
  assume i: "owns S (i + 1) t" "i \<in> S" "i \<noteq> p"
  have t: "t \<in> S" "t \<noteq> i" using i owns_next_dist(1) [OF i(1,2) g(1)] by (auto simp: owns_def)
  have "dist i t \<le> dist i n"
  proof (rule ccontr)
    assume "\<not> dist i t \<le> dist i n"
    then have d: "dist i t = dist i n + dist n t" by (intro dist_split) simp
    have le: "dist n s \<le> dist n t" by (rule g(8) [OF t(1)])
    then have s: "dist i s = dist i n + dist n s" using d dist_less [where a = i and b = t] by (intro dist_join) linarith
    have "dist i n \<noteq> 0" using g(2) i(2) dist_0 [where a = i and b = n] by blast
    then have "dist i s \<noteq> 0" using s by linarith
    then have "s \<noteq> i" by auto
    then have "dist i t \<le> dist i s" using owns_next_dist(2) [OF i(1,2) g(5)] by blast
    then have "dist i t = dist i s" using d s le by linarith
    then have "t = s" by (rule same_dist)
    then show False using pred_unique [OF i(1) _ i(2) g(1)] g(3) i(3) by blast
  qed
  then show "owns (insert n S) (i + 1) t"
    using owns_next_dist(2) [OF i(1,2)] t by (intro owns_nextI) auto
qed

text \<open>The three steps after the join.\<close>

lemma join_state:
  assumes "ring_links S net" "ring_gap S p n s" "b \<in> S" "join b net (chord_new n a) = (new, True)"
  obtains r where "new = (set_successor r (chord_new n a))\<lparr> cn_predecessor := None \<rparr>" "ni_id r = s"
proof -
  note g = gapD [OF assms(2)]
  obtain r where r: "iterative_find_successor net b n = Some r" "new = (set_successor r (chord_new n a))\<lparr> cn_predecessor := None \<rparr>"
    using assms(4) by (auto simp: join_def chord_new_def Let_def split: option.splits)
  have "owns S n (ni_id r)" using find_steps_owner [OF assms(1) g(2) assms(3)] r(1) by (simp add: iterative_find_successor_def)
  then have "ni_id r = s" using owns_unique g(4) by blast
  then show ?thesis using that r(2) by blast
qed

lemma new_stabilizes:
  assumes "linked_ring S net" "ring_gap S p n s" "net s = Some ns" "ni_id r = s"
    and "new = (set_successor r (chord_new n a))\<lparr> cn_predecessor := None \<rparr>"
  shows "stabilize_at n (net(n \<mapsto> new)) = net(n \<mapsto> new, s \<mapsto> ns\<lparr> cn_predecessor := Some \<lparr> ni_id = n, ni_addr = a \<rparr> \<rparr>)"
proof -
  note g = gapD [OF assms(2)]
  have ids: "cn_id ns = s" using assms(1,3) ringD by (auto simp: linked_ring_def)
  obtain q where q: "cn_predecessor ns = Some q" "ni_id q \<in> S" "owns S (ni_id q + 1) s"
    using assms(1,3) by (auto simp: linked_ring_def)
  have qp: "ni_id q = p" by (rule pred_unique [OF q(3) g(3) q(2) g(1)])
  have new: "cn_id new = n" "cn_addr new = a" "cn_successor new = Some r" by (simp_all add: assms(5) set_successor_def chord_new_def Let_def)
  have "stabilize (net(n \<mapsto> new)) new = (new, rpc_notify s \<lparr> ni_id = n, ni_addr = a \<rparr> (net(n \<mapsto> new)))"
    using g(6) new assms(3,4) q(1) qp gap_before [OF assms(2)]
    by (auto simp: stabilize_def rpc_get_predecessor_def node_info_of_def Let_def)
  moreover have "rpc_notify s \<lparr> ni_id = n, ni_addr = a \<rparr> (net(n \<mapsto> new)) =
      net(n \<mapsto> new, s \<mapsto> ns\<lparr> cn_predecessor := Some \<lparr> ni_id = n, ni_addr = a \<rparr> \<rparr>)"
    using g(6) assms(3) q(1) qp gap_between [OF assms(2)] ids by (auto simp: rpc_notify_def notified_def)
  ultimately show ?thesis using g(6) by (auto simp: stabilize_at_def fun_upd_twist)
qed

lemma before_stabilizes:
  assumes "linked_ring S net" "ring_gap S p n s" "net s = Some ns" "net p = Some np" "cn_id new = n"
    and "net' = net(n \<mapsto> new, s \<mapsto> ns\<lparr> cn_predecessor := Some \<lparr> ni_id = n, ni_addr = a \<rparr> \<rparr>)" "net' p = Some np'"
  shows "stabilize_at p net' = net'(p \<mapsto> set_successor \<lparr> ni_id = n, ni_addr = a \<rparr> np')"
proof -
  note g = gapD [OF assms(2)]
  have r: "ring_links S net" using assms(1) by (simp add: linked_ring_def)
  obtain t where t: "cn_id np = p" "cn_successor np = Some t" "owns S (p + 1) (ni_id t)" using ringD [OF r assms(4)] by blast
  have ts: "ni_id t = s" using owns_unique t(3) g(3) by blast
  have ids: "cn_id ns = s" using ringD(2) [OF r assms(3)] .
  have np': "cn_id np' = p" "cn_successor np' = Some t" "cn_addr np' = cn_addr np" using assms(3,4,6,7) g(7) t by (auto split: if_splits)
  have s': "net' s = Some (ns\<lparr> cn_predecessor := Some \<lparr> ni_id = n, ni_addr = a \<rparr> \<rparr>)" using assms(6) by simp
  let ?np = "set_successor \<lparr> ni_id = n, ni_addr = a \<rparr> np'"
  have "stabilize net' np' = (?np, net')"
  proof (cases "p = s")
    case True
    then have "np' = ns\<lparr> cn_predecessor := Some \<lparr> ni_id = n, ni_addr = a \<rparr> \<rparr>" using s' assms(7) by simp
    then show ?thesis using True np'(1,2) ts g(6) by (auto simp: stabilize_def in_open_interval_dist)
  next
    case False
    have "rpc_notify s (node_info_of ?np) net' = net'"
      using s' np'(1) ids gap_before [OF assms(2) False]
      by (auto simp: rpc_notify_def notified_def node_info_of_def set_successor_def)
    then show ?thesis using False np'(1,2) ts s' g(6) gap_between [OF assms(2)] by (auto simp: stabilize_def rpc_get_predecessor_def Let_def)
  qed
  then show ?thesis using assms(7) by (simp add: stabilize_at_def)
qed

lemma before_notifies:
  assumes "net' p = Some np" "net' n = Some new" "p \<noteq> n" "cn_id np = p" "cn_successor np = Some \<lparr> ni_id = n, ni_addr = a \<rparr>"
    and "cn_predecessor new = None"
  shows "stabilize_at p net' = net'(n \<mapsto> new\<lparr> cn_predecessor := Some (node_info_of np) \<rparr>)"
proof -
  have "stabilize net' np = (np, net'(n \<mapsto> new\<lparr> cn_predecessor := Some (node_info_of np) \<rparr>))"
    using assms by (simp add: stabilize_def rpc_get_predecessor_def rpc_notify_def notified_def Let_def)
  then show ?thesis using assms(1,3) by (auto simp: stabilize_at_def)
qed

text \<open>The ring after the three steps.\<close>

definition after_join :: "net \<Rightarrow> node_id \<Rightarrow> node_id \<Rightarrow> node_id \<Rightarrow> bytes \<Rightarrow> node_info \<Rightarrow> node_info \<Rightarrow> net" where
  "after_join net p n s a r q i = (
     let info = \<lparr> ni_id = n, ni_addr = a \<rparr>;
         relink = (\<lambda>nd. if i = s then nd\<lparr> cn_predecessor := Some info \<rparr> else nd)
     in if i = n then Some ((set_successor r (chord_new n a))\<lparr> cn_predecessor := Some q \<rparr>)
        else map_option (\<lambda>nd. if i = p then set_successor info (relink nd) else relink nd) (net i))"

lemma joined_net:
  assumes "linked_ring S net" "ring_gap S p n s" "b \<in> S" "join b net (chord_new n a) = (new, True)"
  obtains r q where "ni_id r = s" "ni_id q = p"
    "stabilize_at p (stabilize_at p (stabilize_at n (net(n \<mapsto> new)))) = after_join net p n s a r q"
proof -
  note g = gapD [OF assms(2)]
  have r: "ring_links S net" using assms(1) by (simp add: linked_ring_def)
  obtain ns np where ns: "net s = Some ns" and np: "net p = Some np" using ring_member [OF r] g(1,5) by metis
  obtain r where new: "new = (set_successor r (chord_new n a))\<lparr> cn_predecessor := None \<rparr>" "ni_id r = s"
    by (rule join_state [OF r assms(2-4)])
  let ?I = "\<lparr> ni_id = n, ni_addr = a \<rparr>"
  define net1 where "net1 = net(n \<mapsto> new, s \<mapsto> ns\<lparr> cn_predecessor := Some ?I \<rparr>)"
  have st1: "stabilize_at n (net(n \<mapsto> new)) = net1"
    unfolding net1_def by (rule new_stabilizes [OF assms(1,2) ns new(2,1)])
  have newf: "cn_id new = n" "cn_predecessor new = None" by (simp_all add: new(1) set_successor_def chord_new_def Let_def)
  define np1 where "np1 = (if p = s then ns\<lparr> cn_predecessor := Some ?I \<rparr> else np)"
  have np1: "net1 p = Some np1" "cn_id np1 = p" using np ns g(7) ringD(2) [OF r np] ringD(2) [OF r ns] by (simp_all add: net1_def np1_def)
  have st2: "stabilize_at p net1 = net1(p \<mapsto> set_successor ?I np1)"
    by (rule before_stabilizes [OF assms(1,2) ns np newf(1) net1_def np1(1)])
  have np2: "cn_id (set_successor ?I np1) = p" "cn_successor (set_successor ?I np1) = Some ?I" using np1(2) by (simp_all add: set_successor_def)
  have n1: "(net1(p \<mapsto> set_successor ?I np1)) n = Some new" using g(6,7) by (simp add: net1_def)
  let ?q = "node_info_of (set_successor ?I np1)"
  have st3: "stabilize_at p (net1(p \<mapsto> set_successor ?I np1)) = net1(p \<mapsto> set_successor ?I np1, n \<mapsto> new\<lparr> cn_predecessor := Some ?q \<rparr>)"
    by (rule before_notifies [where net' = "net1(p \<mapsto> set_successor ?I np1)" and n = n and new = new, OF _ n1 g(7) np2 newf(2)]) simp
  have "net1(p \<mapsto> set_successor ?I np1, n \<mapsto> new\<lparr> cn_predecessor := Some ?q \<rparr>) = after_join net p n s a r ?q"
    using g(6,7) ns np by (auto simp: after_join_def net1_def np1_def new(1) fun_eq_iff Let_def option.map_ident)
  moreover have "ni_id ?q = p" using np2(1) by (simp add: node_info_of_def)
  ultimately show ?thesis using that new(2) st1 st2 st3 by metis
qed

lemma after_join_new:
  assumes "after_join net p n s a r q n = Some nd"
  shows "cn_id nd = n" "cn_store nd = []" "length (cn_fingers nd) = FINGER_COUNT" "cn_successor nd = Some r" "cn_predecessor nd = Some q"
    "Some f \<in> set (cn_fingers nd) \<Longrightarrow> f = r"
  using assms by (auto simp: after_join_def set_successor_def chord_new_def Let_def FINGER_COUNT_def numeral_eq_Suc)

lemma after_join_old:
  assumes "after_join net p n s a r q i = Some nd'" "i \<noteq> n"
  obtains nd where "net i = Some nd" "cn_id nd' = cn_id nd" "length (cn_fingers nd') = length (cn_fingers nd)"
    "cn_successor nd' = (if i = p then Some \<lparr> ni_id = n, ni_addr = a \<rparr> else cn_successor nd)"
    "cn_predecessor nd' = (if i = s then Some \<lparr> ni_id = n, ni_addr = a \<rparr> else cn_predecessor nd)"
    "\<And>f. Some f \<in> set (cn_fingers nd') \<Longrightarrow> Some f \<in> set (cn_fingers nd) \<or> ni_id f = n"
proof -
  obtain nd where nd: "net i = Some nd" using assms by (auto simp: after_join_def Let_def)
  have "Some f \<in> set (cn_fingers nd) \<or> ni_id f = n" if "Some f \<in> set (cn_fingers nd')" for f
    using assms nd that set_update_subset_insert [of "cn_fingers nd" 0 "Some \<lparr> ni_id = n, ni_addr = a \<rparr>"]
    by (auto simp: after_join_def set_successor_def Let_def split: if_splits)
  then show ?thesis using that [OF nd] assms nd by (auto simp: after_join_def set_successor_def Let_def split: if_splits)
qed

lemma joined_ring:
  assumes "linked_ring S net" "ring_gap S p n s" "ni_id r = s" "ni_id q = p"
  shows "linked_ring (insert n S) (after_join net p n s a r q)"
proof -
  note g = gapD [OF assms(2)] and o = gap_owns [OF assms(2)]
  have r: "ring_links S net" using assms(1) by (simp add: linked_ring_def)
  let ?net = "after_join net p n s a r q"
  have "dom ?net = insert n S" using r by (auto simp: ring_links_def after_join_def dom_def Let_def)
  moreover have "finite S" using r by (simp add: ring_links_def)
  moreover have "cn_id nd = i \<and> length (cn_fingers nd) = FINGER_COUNT \<and> (\<exists>t. cn_successor nd = Some t \<and> owns (insert n S) (i + 1) (ni_id t))
      \<and> (\<forall>f. Some f \<in> set (cn_fingers nd) \<longrightarrow> ni_id f \<in> insert n S)
      \<and> (\<exists>u. cn_predecessor nd = Some u \<and> ni_id u \<in> insert n S \<and> owns (insert n S) (ni_id u + 1) i)"
    if nd: "?net i = Some nd" for i nd
  proof (cases "i = n")
    case True
    note j = after_join_new [OF nd [unfolded True]]
    then show ?thesis using True o(1,2) assms(3,4) g(1,5) by auto
  next
    case False
    obtain nd0 where j: "net i = Some nd0" "cn_id nd = cn_id nd0" "length (cn_fingers nd) = length (cn_fingers nd0)"
      "cn_successor nd = (if i = p then Some \<lparr> ni_id = n, ni_addr = a \<rparr> else cn_successor nd0)"
      "cn_predecessor nd = (if i = s then Some \<lparr> ni_id = n, ni_addr = a \<rparr> else cn_predecessor nd0)"
      "\<And>f. Some f \<in> set (cn_fingers nd) \<Longrightarrow> Some f \<in> set (cn_fingers nd0) \<or> ni_id f = n"
      by (rule after_join_old [OF nd False]) blast
    note d = ringD [OF r j(1)]
    obtain t where t: "cn_successor nd0 = Some t" "owns S (i + 1) (ni_id t)" using d(4) by blast
    obtain u where u: "cn_predecessor nd0 = Some u" "ni_id u \<in> S" "owns S (ni_id u + 1) i"
      using assms(1) j(1) by (auto simp: linked_ring_def)
    have "\<exists>t. cn_successor nd = Some t \<and> owns (insert n S) (i + 1) (ni_id t)"
      using o(1) o(3) [OF t(2) d(1)] t(1) j(4) by (cases "i = p") simp_all
    moreover have "\<exists>u. cn_predecessor nd = Some u \<and> ni_id u \<in> insert n S \<and> owns (insert n S) (ni_id u + 1) i"
    proof (cases "i = s")
      case True
      then show ?thesis using o(2) j(5) by simp
    next
      case False
      have "ni_id u \<noteq> p" using u(3) g(3) owns_unique False by blast
      then show ?thesis using o(3) [OF u(3,2)] u(1,2) j(5) False by simp
    qed
    ultimately show ?thesis using d(2,3,5) j(2,3,6) by fastforce
  qed
  ultimately show ?thesis unfolding linked_ring_def ring_links_def by auto
qed

text \<open>
  A new node is linked in: after a join through any node of a ring in order, one stabilize step of the new node and
  two of the node before it suffice to make it a ring in order again, with the new node in its place.
\<close>

theorem node_joins:
  assumes "linked_ring S net" "ring_gap S p n s" "b \<in> S" "join b net (chord_new n a) = (new, True)"
  shows "linked_ring (insert n S) (stabilize_at p (stabilize_at p (stabilize_at n (net(n \<mapsto> new)))))"
proof -
  obtain r q where j: "ni_id r = s" "ni_id q = p"
    "stabilize_at p (stabilize_at p (stabilize_at n (net(n \<mapsto> new)))) = after_join net p n s a r q"
    by (rule joined_net [OF assms])
  show ?thesis unfolding j(3) by (rule joined_ring [OF assms(1,2) j(1,2)])
qed

lemma perfect_linked: "linked_ring {10, 2000} (perfect_net [10, 2000])"
proof -
  have n: "nearest [10, 2000] (10 + 1) = 2000" "nearest [10, 2000] (2000 + 1) = 10"
    by (simp_all add: nearest_def unsigned_minus_1_eq_mask mask_eq_exp_minus_1 dist_cases)
  then have n': "nearest [10, 2000] 11 = 2000" "nearest [10, 2000] 2001 = 10" by simp_all
  have "owns {10, 2000} 11 2000" "owns {10, 2000} 2001 10"
    using nearest_owns [of "[10, 2000]" 11] nearest_owns [of "[10, 2000]" 2001] n' by simp_all
  then show ?thesis using perfect_ring(1) [of "[10, 2000]"] n'
    by (auto simp: linked_ring_def perfect_net_def perfect_node_def split: if_splits)
qed

lemma sample_gap: "ring_gap {10, 2000} 10 50 2000"
  by (simp add: ring_gap_def owns_def dist_cases)

lemma sample_join:
  obtains new where "join 2000 (perfect_net [10, 2000]) (chord_new 50 []) = (new, True)"
proof -
  have "\<exists>r. iterative_find_successor (perfect_net [10, 2000]) 2000 50 = Some r \<and> owns {10, 2000} 50 (ni_id r)"
    using perfect_ring [of "[10, 2000]"] by (intro lookup_owner) simp_all
  then obtain r where "iterative_find_successor (perfect_net [10, 2000]) 2000 (cn_id (chord_new 50 [])) = Some r"
    by (auto simp: chord_new_def Let_def)
  then show ?thesis using that by (simp add: join_def)
qed

lemma node_joins_witness:
  "\<exists>new. join 2000 (perfect_net [10, 2000]) (chord_new 50 []) = (new, True)
     \<and> linked_ring {50, 10, 2000} (stabilize_at 10 (stabilize_at 10 (stabilize_at 50 ((perfect_net [10, 2000])(50 \<mapsto> new)))))"
proof -
  obtain new where j: "join 2000 (perfect_net [10, 2000]) (chord_new 50 []) = (new, True)" by (rule sample_join)
  have "2000 \<in> {10, 2000 :: node_id}" by simp
  from node_joins [OF perfect_linked sample_gap this j] j show ?thesis by blast
qed

lemma gap_owner:
  assumes "ring_gap S p n s" "owns (insert n S) k n"
  shows "owns S k s"
proof -
  note g = gapD [OF assms(1)]
  have "dist k s \<le> dist k x" if x: "x \<in> S" for x
  proof -
    have le: "dist k n \<le> dist k y" if "y \<in> S" for y using assms(2) that by (simp add: owns_def)
    show ?thesis using dist_split [OF le [OF x]] dist_split [OF le [OF g(5)]] g(8) [OF x] by linarith
  qed
  then show ?thesis using g(5) by (simp add: owns_def)
qed

text \<open>
  A join strands the keys it takes over: a value that the ring returned before, under a key that now belongs to the
  new node, stays in the store of its old owner, and every lookup in the new ring misses it.
\<close>

theorem join_strands_keys:
  assumes "linked_ring S net" "ring_gap S p n s" "b \<in> S" "join b net (chord_new n a) = (new, True)"
    and "rpc_dht_get net b k = Some v" "k \<notin> insert n S" "owns (insert n S) k n"
    and "net' = stabilize_at p (stabilize_at p (stabilize_at n (net(n \<mapsto> new))))"
  shows "(\<forall>c \<in> insert n S. rpc_dht_get net' c k = None) \<and> (\<exists>nd. net' s = Some nd \<and> map_of (cn_store nd) k = Some v)"
proof -
  note g = gapD [OF assms(2)]
  have r: "ring_links S net" using assms(1) by (simp add: linked_ring_def)
  obtain rr q where j: "ni_id rr = s" "ni_id q = p" "net' = after_join net p n s a rr q"
    using joined_net [OF assms(1-4)] assms(8) by metis
  have ring': "ring_links (insert n S) net'" using joined_ring [OF assms(1,2) j(1,2)] j(3) by (simp add: linked_ring_def)
  obtain nn where nn: "net' n = Some nn" using ring_member [OF ring'] by blast
  then have store: "cn_store nn = []" using after_join_new(2) j(3) by metis
  have "rpc_dht_get net' c k = None" if c: "c \<in> insert n S" for c
  proof (cases "iterative_find_successor net' c k")
    case (Some o')
    then have "owns (insert n S) k (ni_id o')"
      using find_steps_owner [OF ring' assms(6) c] by (simp add: iterative_find_successor_def)
    then have "ni_id o' = n" using owns_unique assms(7) by blast
    then show ?thesis using Some nn store by (simp add: rpc_dht_get_def)
  qed (simp add: rpc_dht_get_def)
  moreover obtain o1 nd where o1: "iterative_find_successor net b k = Some o1" "net (ni_id o1) = Some nd" "map_of (cn_store nd) k = Some v"
    using assms(5) by (auto simp: rpc_dht_get_def split: option.splits)
  have "owns S k (ni_id o1)" using find_steps_owner [OF r _ assms(3)] assms(6) o1(1) by (simp add: iterative_find_successor_def)
  then have "ni_id o1 = s" using gap_owner [OF assms(2,7)] owns_unique by blast
  then have "\<exists>nd'. net' s = Some nd' \<and> cn_store nd' = cn_store nd"
    using o1(2) g(6) j(3) by (simp add: after_join_def set_successor_def Let_def)
  ultimately show ?thesis using o1(3) by auto
qed

lemma linked_ring_store:
  assumes "linked_ring S net" "net i = Some nd"
  shows "linked_ring S (net(i \<mapsto> nd\<lparr> cn_store := st \<rparr>))"
proof -
  have "cn_store_update (\<lambda>_. st) nd = nd\<lparr> cn_store := st \<rparr>" by simp
  moreover have "i \<in> S" using assms by (auto simp: linked_ring_def ring_links_def)
  ultimately show ?thesis using assms unfolding linked_ring_def ring_links_def by (auto split: if_splits)
qed

lemma join_strands_keys_witness:
  "\<exists>net new. rpc_dht_get net 2000 40 = Some [7] \<and> join 2000 net (chord_new 50 []) = (new, True)
     \<and> rpc_dht_get (stabilize_at 10 (stabilize_at 10 (stabilize_at 50 (net(50 \<mapsto> new))))) 2000 40 = None"
proof -
  let ?P = "perfect_net [10, 2000]"
  have nd: "?P 2000 = Some (perfect_node [10, 2000] 2000)" by (simp add: perfect_net_def)
  define net where "net = ?P(2000 \<mapsto> (perfect_node [10, 2000] 2000)\<lparr> cn_store := [(40, [7])] \<rparr>)"
  have n2: "net 2000 = Some ((perfect_node [10, 2000] 2000)\<lparr> cn_store := [(40, [7])] \<rparr>)" by (simp add: net_def)
  have find: "iterative_find_successor net a k = iterative_find_successor ?P a k" for a k
    unfolding iterative_find_successor_def net_def
    by (rule same_routes_find [symmetric, OF put_same_routes [where net = ?P and i = 2000, OF nd]])
  have "\<exists>r. iterative_find_successor ?P 2000 40 = Some r \<and> owns {10, 2000} 40 (ni_id r)"
    using perfect_ring [of "[10, 2000]"] by (intro lookup_owner) simp_all
  then obtain r where r: "iterative_find_successor ?P 2000 40 = Some r" "owns {10, 2000} 40 (ni_id r)" by blast
  have "owns {10, 2000} 40 2000" by (simp add: owns_def dist_cases)
  then have "ni_id r = 2000" using owns_unique r(2) by blast
  then have get: "rpc_dht_get net 2000 40 = Some [7]" using r(1) n2 by (simp add: rpc_dht_get_def find)
  obtain new where j: "join 2000 ?P (chord_new 50 []) = (new, True)" by (rule sample_join)
  then have j': "join 2000 net (chord_new 50 []) = (new, True)" by (simp add: join_def find)
  have l: "linked_ring {10, 2000} net" unfolding net_def by (rule linked_ring_store [OF perfect_linked nd])
  have m: "2000 \<in> {10, 2000 :: node_id}" "40 \<notin> insert 50 {10, 2000 :: node_id}" by simp_all
  have o: "owns (insert 50 {10, 2000}) 40 50" by (simp add: owns_def dist_cases)
  from join_strands_keys [OF l sample_gap m(1) j' get m(2) o refl] get j' show ?thesis by blast
qed

end
