(* ===== verification/DhtStore.thy ===== *)
theory DhtStore
  imports Resolver ChordRing
begin

text \<open>
  The resolver's entries on the Chord ring, \<open>cloud/resolver/src/dht_store.rs\<close>: the byte format of an entry with
  its reader, the conversion of process clocks to wall-clock seconds, and the store. A node has an origin, the wall-clock
  time in nanoseconds at which its \<open>Instant\<close> clock began; both clocks run together. An instant before the origin,
  or a wall-clock time after the last that can be represented, is a panic.
\<close>

section \<open>Clocks\<close>

record clock =
  ck_origin :: nat
  ck_last :: nat

definition instant_to_system_secs :: "clock \<Rightarrow> nat \<Rightarrow> u64" where
  "instant_to_system_secs ck t = (
     if ck_origin ck + t > ck_last ck then 0x7FFFFFFFFFFFFFFF else of_nat ((ck_origin ck + t) div secs 1))"

definition system_secs_to_instant :: "clock \<Rightarrow> u64 \<Rightarrow> (unit, nat) outcome" where
  "system_secs_to_instant ck s = (
     let target = secs (unat s)
     in if target > ck_last ck \<or> target < ck_origin ck then Panic else Ok (target - ck_origin ck))"

section \<open>Writing\<close>

definition to_le16 :: "u16 \<Rightarrow> bytes" where
  "to_le16 x = rev (to_be16 x)"

definition put_str :: "bytes \<Rightarrow> bytes" where
  "put_str s = to_le16 (of_nat (length s)) @ s"

definition put_strs :: "bytes list \<Rightarrow> bytes" where
  "put_strs xs = to_le16 (of_nat (length xs)) @ concat (map put_str xs)"

definition encode_entry :: "clock \<Rightarrow> entry \<Rightarrow> bytes" where
  "encode_entry ck e = (let r = en_rec e in
     en_ed_pub e @ put_str (nr_tunnel_entry r) @ put_strs (nr_alt_entries r)
     @ [if nr_ipv8_capable r then 1 else 0] @ to_le32 (nr_mtu r)
     @ to_le64 (instant_to_system_secs ck (nr_registered_at r)) @ to_le64 (of_nat (nr_ttl r div secs 1))
     @ (case nr_observed r of
          None \<Rightarrow> [0]
        | Some (a, t) \<Rightarrow> [1] @ put_str a @ to_le64 (instant_to_system_secs ck t))
     @ put_strs (nr_local_candidates r))"

section \<open>Reading\<close>

definition second_ok :: "u8 \<Rightarrow> u8 \<Rightarrow> bool" where
  "second_ok b c \<longleftrightarrow> utf8_cont c \<and> (b = 0xE0 \<longrightarrow> 0xA0 \<le> c) \<and> (b = 0xED \<longrightarrow> c \<le> 0x9F)
     \<and> (b = 0xF0 \<longrightarrow> 0x90 \<le> c) \<and> (b = 0xF4 \<longrightarrow> c \<le> 0x8F)"

definition REPLACEMENT :: bytes where
  "REPLACEMENT = [0xEF, 0xBF, 0xBD]"

text \<open>\<open>String::from_utf8_lossy\<close>: every maximal piece of a malformed sequence becomes one replacement character.\<close>

fun utf8_lossy :: "bytes \<Rightarrow> bytes" where
  "utf8_lossy [] = []"
| "utf8_lossy (b # bs) = (
     if b < 0x80 then b # utf8_lossy bs
     else if 0xC2 \<le> b \<and> b \<le> 0xDF then
       (if 1 \<le> length bs \<and> utf8_cont (bs ! 0) then b # take 1 bs @ utf8_lossy (drop 1 bs) else REPLACEMENT @ utf8_lossy bs)
     else if 0xE0 \<le> b \<and> b \<le> 0xF4 then
       (if \<not> (1 \<le> length bs \<and> second_ok b (bs ! 0)) then REPLACEMENT @ utf8_lossy bs
        else if \<not> (2 \<le> length bs \<and> utf8_cont (bs ! 1)) then REPLACEMENT @ utf8_lossy (drop 1 bs)
        else if b \<le> 0xEF then b # take 2 bs @ utf8_lossy (drop 2 bs)
        else if \<not> (3 \<le> length bs \<and> utf8_cont (bs ! 2)) then REPLACEMENT @ utf8_lossy (drop 2 bs)
        else b # take 3 bs @ utf8_lossy (drop 3 bs))
     else REPLACEMENT @ utf8_lossy bs)"

text \<open>The cursor \<open>p\<close> is the rest of the data; running out of data is \<open>Err\<close>, the \<open>None\<close> of the code.\<close>

fun and_then :: "('e, 'a) outcome \<Rightarrow> ('a \<Rightarrow> ('e, 'b) outcome) \<Rightarrow> ('e, 'b) outcome" where
  "and_then (Ok x) f = f x"
| "and_then (Err e) f = Err e"
| "and_then Panic f = Panic"

definition read_bytes :: "nat \<Rightarrow> bytes \<Rightarrow> (unit, bytes \<times> bytes) outcome" where
  "read_bytes n data = (if n > length data then Err () else Ok (take n data, drop n data))"

definition read_u16 :: "bytes \<Rightarrow> (unit, u16 \<times> bytes) outcome" where
  "read_u16 data = and_then (read_bytes 2 data) (\<lambda>(b, data). Ok (from_le b, data))"

definition read_u32 :: "bytes \<Rightarrow> (unit, u32 \<times> bytes) outcome" where
  "read_u32 data = and_then (read_bytes 4 data) (\<lambda>(b, data). Ok (from_le b, data))"

definition read_u64 :: "bytes \<Rightarrow> (unit, u64 \<times> bytes) outcome" where
  "read_u64 data = and_then (read_bytes 8 data) (\<lambda>(b, data). Ok (from_le b, data))"

definition read_str :: "bytes \<Rightarrow> (unit, bytes \<times> bytes) outcome" where
  "read_str data = and_then (read_u16 data) (\<lambda>(n, data).
     and_then (read_bytes (unat n) data) (\<lambda>(b, data). Ok (utf8_lossy b, data)))"

fun read_strs :: "nat \<Rightarrow> bytes \<Rightarrow> (unit, bytes list \<times> bytes) outcome" where
  "read_strs 0 data = Ok ([], data)"
| "read_strs (Suc n) data = and_then (read_str data) (\<lambda>(s, data).
     and_then (read_strs n data) (\<lambda>(ss, data). Ok (s # ss, data)))"

definition read_list :: "bytes \<Rightarrow> (unit, bytes list \<times> bytes) outcome" where
  "read_list data = and_then (read_u16 data) (\<lambda>(n, data). read_strs (unat n) data)"

definition read_observed :: "clock \<Rightarrow> bytes \<Rightarrow> (unit, (bytes \<times> nat) option \<times> bytes) outcome" where
  "read_observed ck data = and_then (read_bytes 1 data) (\<lambda>(tag, data).
     if tag = [0] then Ok (None, data)
     else if tag = [1] then
       and_then (read_str data) (\<lambda>(a, data). and_then (read_u64 data) (\<lambda>(t_secs, data).
         and_then (system_secs_to_instant ck t_secs) (\<lambda>t. Ok (Some (a, t), data))))
     else Err ())"

definition decode_entry :: "clock \<Rightarrow> bytes \<Rightarrow> (unit, entry) outcome" where
  "decode_entry ck data =
     and_then (read_bytes 32 data) (\<lambda>(ed_pub, data).
     and_then (read_str data) (\<lambda>(tunnel_entry, data).
     and_then (read_list data) (\<lambda>(alt_entries, data).
     and_then (read_bytes 1 data) (\<lambda>(capable, data).
     and_then (read_u32 data) (\<lambda>(mtu, data).
     and_then (read_u64 data) (\<lambda>(reg_secs, data).
     and_then (read_u64 data) (\<lambda>(ttl_secs, data).
     and_then (read_observed ck data) (\<lambda>(observed, data).
     and_then (read_list data) (\<lambda>(local_candidates, data).
     and_then (system_secs_to_instant ck reg_secs) (\<lambda>registered_at.
       Ok \<lparr> en_ed_pub = ed_pub, en_rec =
         \<lparr> nr_tunnel_entry = tunnel_entry, nr_alt_entries = alt_entries, nr_ipv8_capable = (capable \<noteq> [0]), nr_mtu = mtu,
           nr_registered_at = registered_at, nr_ttl = secs (unat ttl_secs), nr_observed = observed,
           nr_local_candidates = local_candidates \<rparr> \<rparr>))))))))))"

section \<open>The store\<close>

definition addr_to_key :: "ipv8_address \<Rightarrow> node_id" where
  "addr_to_key a = (
     let asn = push_bit 16 (ucast (addr_region_hi a)) OR ucast (addr_protocol a);
         host_id = push_bit 16 (ucast (addr_region_mid a)) OR ucast (addr_region_lo a)
     in node_id asn host_id)"

definition dht_store_get :: "clock \<Rightarrow> node_id \<Rightarrow> ipv8_address \<Rightarrow> net \<Rightarrow> (unit, entry) outcome" where
  "dht_store_get ck me a net = (case rpc_dht_get net me (addr_to_key a) of
     None \<Rightarrow> Err ()
   | Some data \<Rightarrow> decode_entry ck data)"

definition dht_store_insert :: "clock \<Rightarrow> node_id \<Rightarrow> ipv8_address \<Rightarrow> entry \<Rightarrow> net \<Rightarrow> net" where
  "dht_store_insert ck me a e net = fst (rpc_dht_put me (addr_to_key a) (encode_entry ck e) net)"

definition data_expired :: "clock \<Rightarrow> nat \<Rightarrow> bytes \<Rightarrow> bool" where
  "data_expired ck now data = (case decode_entry ck data of Ok e \<Rightarrow> entry_expired now e | _ \<Rightarrow> True)"

text \<open>A sweep is of the node's own part only; \<open>None\<close> is a panic.\<close>

definition dht_store_sweep :: "clock \<Rightarrow> node_id \<Rightarrow> nat \<Rightarrow> net \<Rightarrow> (net \<times> nat) option" where
  "dht_store_sweep ck me now net = (case net me of
     None \<Rightarrow> None
   | Some n \<Rightarrow>
       if \<exists>(k, data) \<in> set (cn_store n). decode_entry ck data = Panic then None
       else let st = filter (\<lambda>(_, data). \<not> data_expired ck now data) (cn_store n)
            in Some (net(me \<mapsto> n\<lparr> cn_store := st \<rparr>), length (cn_store n) - length st))"

text \<open>The trait instance: a panic ends the process and answers nothing.\<close>

definition dht_ops :: "clock \<Rightarrow> node_id \<Rightarrow> net store_ops" where
  "dht_ops ck me = \<lparr>
     so_get = (\<lambda>t a net. (net, case dht_store_get ck me a net of Ok e \<Rightarrow> Some e | _ \<Rightarrow> None)),
     so_insert = dht_store_insert ck me,
     so_sweep = (\<lambda>t net. case dht_store_sweep ck me t net of Some r \<Rightarrow> r | None \<Rightarrow> (net, 0)),
     so_len = (\<lambda>net. case net me of Some n \<Rightarrow> length (cn_store n) | None \<Rightarrow> 0) \<rparr>"

section \<open>Reading what was written\<close>

lemma from_le16 [simp]: "from_le (to_le16 x) = x"
  by (simp add: to_le16_def from_le_def)

lemma lengths [simp]: "length (to_le16 x) = 2" "length (to_le32 y) = 4" "length (to_le64 z) = 8"
  by (simp_all add: to_le16_def to_le32_def to_le64_def)

lemma read_bytes_append: "length b = n \<Longrightarrow> read_bytes n (b @ rest) = Ok (b, rest)"
  by (simp add: read_bytes_def)

lemma read_byte [simp]: "read_bytes (Suc 0) (x # rest) = Ok ([x], rest)"
  by (simp add: read_bytes_def)

lemma read_ints [simp]:
  "read_u16 (to_le16 x @ rest) = Ok (x, rest)" "read_u32 (to_le32 y @ rest) = Ok (y, rest)" "read_u64 (to_le64 z @ rest) = Ok (z, rest)"
  by (simp_all add: read_u16_def read_u32_def read_u64_def read_bytes_append)

lemma rejoin:
  "1 \<le> length bs \<Longrightarrow> take 1 bs @ drop 1 bs = bs" "2 \<le> length bs \<Longrightarrow> take 2 bs @ drop 2 bs = bs"
  by (simp_all only: append_take_drop_id)

lemma second_okI: "utf8_cont c \<Longrightarrow> b \<noteq> 0xE0 \<or> 0xA0 \<le> c \<Longrightarrow> b \<noteq> 0xED \<or> c \<le> 0x9F \<Longrightarrow> b \<noteq> 0xF0 \<or> 0x90 \<le> c
  \<Longrightarrow> b \<noteq> 0xF4 \<or> c \<le> 0x8F \<Longrightarrow> second_ok b c"
  by (auto simp: second_ok_def)

lemma lead_classes:
  fixes b :: u8
  shows "0xC2 \<le> b \<Longrightarrow> \<not> b < 0x80" "0xE0 \<le> b \<Longrightarrow> \<not> b < 0x80" "0xE0 \<le> b \<Longrightarrow> \<not> b \<le> 0xDF"
    "0xF0 \<le> b \<Longrightarrow> \<not> b < 0x80" "0xF0 \<le> b \<Longrightarrow> \<not> b \<le> 0xDF" "0xF0 \<le> b \<Longrightarrow> \<not> b \<le> 0xEF" "0xF0 \<le> b \<Longrightarrow> 0xE0 \<le> b" "b \<le> 0xEF \<Longrightarrow> b \<le> 0xF4"
  by (simp_all add: word_le_nat_alt word_less_nat_alt)

lemma utf8_lossy_valid: "utf8_valid bs \<Longrightarrow> utf8_lossy bs = bs"
proof (induction "length bs" arbitrary: bs rule: less_induct)
  case less
  show ?case
  proof (cases bs)
    case (Cons b cs)
    have ih: "utf8_valid (drop n cs) \<Longrightarrow> utf8_lossy (drop n cs) = drop n cs" for n
      by (rule less.hyps) (simp add: Cons)
    consider (one) "b < 0x80" | (two) "0xC2 \<le> b" "b \<le> 0xDF" | (three) "0xE0 \<le> b" "b \<le> 0xEF" | (four) "0xF0 \<le> b" "b \<le> 0xF4"
      using less.prems by (auto simp: Cons split: if_splits)
    then show ?thesis
    proof cases
      case one then show ?thesis using less.prems ih [of 0] by (simp add: Cons)
    next
      case two
      then have "1 \<le> length cs" "utf8_cont (cs ! 0)" "utf8_valid (drop 1 cs)"
        using less.prems by (simp_all add: Cons lead_classes)
      then show ?thesis using two ih [of 1] rejoin(1) by (simp add: Cons lead_classes)
    next
      case three
      have v: "2 \<le> length cs" "utf8_cont (cs ! 0)" "utf8_cont (cs ! 1)" "b = 0xE0 \<longrightarrow> 0xA0 \<le> cs ! 0"
        "b = 0xED \<longrightarrow> cs ! 0 \<le> 0x9F" "utf8_valid (drop 2 cs)"
        using less.prems three by (simp_all add: Cons lead_classes)
      have "second_ok b (cs ! 0)" using v three by (intro second_okI) auto
      then show ?thesis using v(1,3) three ih [OF v(6)] by (simp add: Cons lead_classes)
    next
      case four
      have v: "3 \<le> length cs" "utf8_cont (cs ! 0)" "utf8_cont (cs ! 1)" "utf8_cont (cs ! 2)"
        "b = 0xF0 \<longrightarrow> 0x90 \<le> cs ! 0" "b = 0xF4 \<longrightarrow> cs ! 0 \<le> 0x8F" "utf8_valid (drop 3 cs)"
        using less.prems four by (simp_all add: Cons lead_classes)
      have "second_ok b (cs ! 0)" using v four by (intro second_okI) auto
      then show ?thesis using v(1,3,4) four ih [OF v(7)] by (simp add: Cons lead_classes)
    qed
  qed simp
qed

text \<open>A string that fits the format, and what a written one reads as.\<close>

definition str_ok :: "bytes \<Rightarrow> bool" where
  "str_ok s \<longleftrightarrow> length s < 65536 \<and> utf8_valid s"

definition strs_ok :: "bytes list \<Rightarrow> bool" where
  "strs_ok xs \<longleftrightarrow> length xs < 65536 \<and> list_all str_ok xs"

lemma unat_length16: "n < 65536 \<Longrightarrow> unat (of_nat n :: u16) = n"
  by (simp add: unat_of_nat take_bit_nat_eq_self)

lemma read_put_str [simp]: "str_ok s \<Longrightarrow> read_str (put_str s @ rest) = Ok (s, rest)"
  by (simp add: read_str_def put_str_def str_ok_def unat_length16 read_bytes_append utf8_lossy_valid)

lemma read_put_strs: "list_all str_ok xs \<Longrightarrow> read_strs (length xs) (concat (map put_str xs) @ rest) = Ok (xs, rest)"
  by (induction xs) simp_all

lemma read_put_list [simp]: "strs_ok xs \<Longrightarrow> read_list (put_strs xs @ rest) = Ok (xs, rest)"
  by (simp add: read_list_def put_strs_def strs_ok_def unat_length16 read_put_strs)

text \<open>An instant that survives: the whole second it falls in has begun after the process did.\<close>

definition storable_time :: "clock \<Rightarrow> nat \<Rightarrow> bool" where
  "storable_time ck t \<longleftrightarrow> ck_origin ck + t \<le> ck_last ck \<and> (ck_origin ck + t) div secs 1 < 2 ^ 64
     \<and> ck_origin ck \<le> secs ((ck_origin ck + t) div secs 1)"

definition floored :: "clock \<Rightarrow> nat \<Rightarrow> nat" where
  "floored ck t = secs ((ck_origin ck + t) div secs 1) - ck_origin ck"

lemma unat_of_nat64: "n < 2 ^ 64 \<Longrightarrow> unat (of_nat n :: u64) = n"
  by (simp add: unat_of_nat take_bit_nat_eq_self)

lemma secs_floor: "secs (x div secs 1) \<le> x"
  by (simp add: secs_def)

lemma time_roundtrip [simp]:
  assumes "storable_time ck t"
  shows "system_secs_to_instant ck (instant_to_system_secs ck t) = Ok (floored ck t)"
proof -
  have "secs ((ck_origin ck + t) div secs 1) \<le> ck_last ck"
    using assms secs_floor [of "ck_origin ck + t"] by (simp add: storable_time_def)
  then show ?thesis using assms
    by (simp add: storable_time_def system_secs_to_instant_def instant_to_system_secs_def floored_def unat_of_nat64 Let_def)
qed

lemma floored_bounds:
  assumes "storable_time ck t"
  shows "floored ck t \<le> t" "t < floored ck t + secs 1"
proof -
  have "ck_origin ck + t - (ck_origin ck + t) mod secs 1 = secs ((ck_origin ck + t) div secs 1)"
    by (simp add: secs_def minus_mod_eq_div_mult)
  moreover have "(ck_origin ck + t) mod secs 1 < secs 1" by (simp add: secs_def)
  ultimately show "floored ck t \<le> t" "t < floored ck t + secs 1"
    using assms by (auto simp: floored_def storable_time_def)
qed

definition storable :: "clock \<Rightarrow> entry \<Rightarrow> bool" where
  "storable ck e \<longleftrightarrow> length (en_ed_pub e) = 32 \<and> str_ok (nr_tunnel_entry (en_rec e)) \<and> strs_ok (nr_alt_entries (en_rec e))
     \<and> strs_ok (nr_local_candidates (en_rec e)) \<and> storable_time ck (nr_registered_at (en_rec e))
     \<and> nr_ttl (en_rec e) div secs 1 < 2 ^ 64
     \<and> (case nr_observed (en_rec e) of None \<Rightarrow> True | Some (a, t) \<Rightarrow> str_ok a \<and> storable_time ck t)"

definition stored :: "clock \<Rightarrow> entry \<Rightarrow> entry" where
  "stored ck e = e\<lparr> en_rec := (en_rec e)\<lparr>
     nr_registered_at := floored ck (nr_registered_at (en_rec e)), nr_ttl := secs (nr_ttl (en_rec e) div secs 1),
     nr_observed := map_option (apsnd (floored ck)) (nr_observed (en_rec e)) \<rparr> \<rparr>"

lemma read_observed_written:
  assumes "case x of None \<Rightarrow> True | Some (a, t) \<Rightarrow> str_ok a \<and> storable_time ck t"
  shows "read_observed ck ((case x of None \<Rightarrow> [0] | Some (a, t) \<Rightarrow> [1] @ put_str a @ to_le64 (instant_to_system_secs ck t)) @ rest)
    = Ok (map_option (apsnd (floored ck)) x, rest)"
  using assms by (cases x) (auto simp: read_observed_def)

lemma decode_encode_entry:
  assumes "storable ck e"
  shows "decode_entry ck (encode_entry ck e) = Ok (stored ck e)"
proof -
  note obs = read_observed_written [where x = "nr_observed (en_rec e)" and ck = ck]
  show ?thesis using assms read_put_list [where rest = "[]"]
    by (simp add: decode_entry_def encode_entry_def storable_def Let_def read_bytes_append obs unat_of_nat64 stored_def)
qed

section \<open>Properties\<close>

definition sample_clock :: clock where
  "sample_clock = \<lparr> ck_origin = secs 100, ck_last = secs 9000000000000000000 \<rparr>"

definition sample_entry :: entry where
  "sample_entry = \<lparr> en_ed_pub = replicate 32 7, en_rec = \<lparr> nr_tunnel_entry = [49, 58, 50], nr_alt_entries = [[51], []],
     nr_ipv8_capable = True, nr_mtu = 1432, nr_registered_at = secs 5 + 4, nr_ttl = secs 300, nr_observed = Some ([52], secs 6),
     nr_local_candidates = [[53]] \<rparr> \<rparr>"

lemma sample_storable: "storable sample_clock sample_entry"
  by (simp add: storable_def storable_time_def str_ok_def strs_ok_def sample_clock_def sample_entry_def secs_def)

abbreviation sample_ring :: net where
  "sample_ring \<equiv> perfect_net [10, 2000, 300000]"

lemma sample_ring_ok: "ring_links {10, 2000, 300000} sample_ring" "exact_fingers {10, 2000, 300000} sample_ring"
  using perfect_ring [of "[10, 2000, 300000]"] by simp_all

lemma sample_key: "addr_to_key (node_addr 1) \<notin> {10, 2000, 300000}"
  by (simp add: addr_to_key_def node_addr_def addr_with_region_def addr_new_def node_id_def const_defs)

text \<open>
  An entry survives the wire: what a node writes, every node on the same clock reads back with the same key, entry
  points, capability, MTU and candidates, the lifetime cut to whole seconds, and the times of registration and observation
  less than a second early.
\<close>

theorem dht_entry_roundtrip:
  assumes "storable ck e"
  shows "\<exists>e'. decode_entry ck (encode_entry ck e) = Ok e' \<and> en_ed_pub e' = en_ed_pub e
    \<and> nr_tunnel_entry (en_rec e') = nr_tunnel_entry (en_rec e) \<and> nr_alt_entries (en_rec e') = nr_alt_entries (en_rec e)
    \<and> nr_ipv8_capable (en_rec e') = nr_ipv8_capable (en_rec e) \<and> nr_mtu (en_rec e') = nr_mtu (en_rec e)
    \<and> nr_local_candidates (en_rec e') = nr_local_candidates (en_rec e)
    \<and> nr_ttl (en_rec e') = nr_ttl (en_rec e) - nr_ttl (en_rec e) mod secs 1
    \<and> nr_registered_at (en_rec e') \<le> nr_registered_at (en_rec e) \<and> nr_registered_at (en_rec e) < nr_registered_at (en_rec e') + secs 1
    \<and> map_option fst (nr_observed (en_rec e')) = map_option fst (nr_observed (en_rec e))"
proof -
  have "storable_time ck (nr_registered_at (en_rec e))" using assms by (simp add: storable_def)
  from floored_bounds [OF this] show ?thesis
    by (intro exI [of _ "stored ck e"])
      (simp add: decode_encode_entry [OF assms] stored_def secs_def minus_mod_eq_div_mult option.map_comp comp_def)
qed

lemma dht_entry_roundtrip_witness:
  "\<exists>e'. decode_entry sample_clock (encode_entry sample_clock sample_entry) = Ok e' \<and> nr_alt_entries (en_rec e') = [[51], []]
    \<and> map_option fst (nr_observed (en_rec e')) = Some [52] \<and> nr_ttl (en_rec e') = secs 300"
  using dht_entry_roundtrip [OF sample_storable] by (auto simp: sample_entry_def secs_def)

lemma insert_get:
  assumes "ring_links S net" "exact_fingers S net" "me \<in> S" "addr_to_key a \<notin> S" "b \<in> S"
  shows "dht_store_get ck b a' (dht_store_insert ck' me a e net)
    = (if addr_to_key a' = addr_to_key a then decode_entry ck (encode_entry ck' e) else dht_store_get ck b a' net)"
proof -
  obtain net' owner where "rpc_dht_put me (addr_to_key a) (encode_entry ck' e) net = (net', Some owner)"
    "\<forall>b \<in> S. rpc_dht_get net' b (addr_to_key a) = Some (encode_entry ck' e)"
    "\<forall>b k'. k' \<noteq> addr_to_key a \<longrightarrow> rpc_dht_get net' b k' = rpc_dht_get net b k'"
    using put_get [OF assms(1-4)] by metis
  then show ?thesis using assms(5) by (simp add: dht_store_get_def dht_store_insert_def)
qed

text \<open>
  The store on the ring serves: on a ring in order, an entry inserted at one member is what a lookup at any member
  returns, as it reads back from the wire, and what is kept for addresses of other regions is not touched.
\<close>

theorem dht_store_serves:
  assumes "ring_links S net" "exact_fingers S net" "me \<in> S" "addr_to_key a \<notin> S" "b \<in> S" "storable ck e"
  shows "dht_store_get ck b a (dht_store_insert ck me a e net) = Ok (stored ck e)
    \<and> (\<forall>a'. addr_to_key a' \<noteq> addr_to_key a \<longrightarrow> dht_store_get ck b a' (dht_store_insert ck me a e net) = dht_store_get ck b a' net)"
  using insert_get [OF assms(1-5)] decode_encode_entry [OF assms(6)] by simp

lemma dht_store_serves_witness:
  "dht_store_get sample_clock 2000 (node_addr 1) (dht_store_insert sample_clock 10 (node_addr 1) sample_entry sample_ring)
    = Ok (stored sample_clock sample_entry)"
  using dht_store_serves [OF sample_ring_ok _ sample_key _ sample_storable, of 10 2000] by simp

text \<open>
  Hosts of a region collide: the key leaves out the subnet, the node hash and the session, so after one host has
  registered, every other address of its region resolves to that host's entry, and its real owner cannot register while
  the first host's entry lives: the answer is a key conflict.
\<close>

theorem region_shares_entry:
  assumes "ring_links S net" "exact_fingers S net" "me \<in> S" "addr_to_key a \<notin> S" "b \<in> S" "storable ck e"
    and "from_canonical_str name = Inr a'" "addr_protocol a' = addr_protocol a" "addr_region_hi a' = addr_region_hi a"
      "addr_region_mid a' = addr_region_mid a" "addr_region_lo a' = addr_region_lo a"
    and "\<not> entry_expired now (stored ck e)" "net' = dht_store_insert ck me a e net"
    and "rs_addr_text spec = name" "rs_ed_pub spec \<noteq> en_ed_pub e" "length (rs_ed_pub spec) = 32" "ed_key_ok ed (rs_ed_pub spec)"
  shows "(\<exists>n. resolve (dht_ops ck b) name now net' = (net', Inr n) \<and> rv_tunnel_entry n = nr_tunnel_entry (en_rec e))
    \<and> register ed (dht_ops ck b) spec now net' = (net', Inl (Res_KeyConflict a'))"
proof -
  have "addr_to_key a' = addr_to_key a" using assms(8-11) by (simp add: addr_to_key_def)
  then have "dht_store_get ck b a' net' = Ok (stored ck e)"
    using insert_get [OF assms(1-5)] decode_encode_entry [OF assms(6)] assms(13) by simp
  then have "so_get (dht_ops ck b) now a' net' = (net', Some (stored ck e))" by (simp add: dht_ops_def)
  moreover have "en_ed_pub (stored ck e) = en_ed_pub e" "nr_tunnel_entry (en_rec (stored ck e)) = nr_tunnel_entry (en_rec e)"
    by (simp_all add: stored_def)
  ultimately show ?thesis using assms(7,12,14-17) by (simp add: resolve_def register_def may_register_def Let_def)
qed

lemma region_shares_entry_witness:
  "\<exists>n. resolve (dht_ops sample_clock 2000) (node_text 2) (secs 20)
      (dht_store_insert sample_clock 10 (node_addr 1) sample_entry sample_ring)
    = (dht_store_insert sample_clock 10 (node_addr 1) sample_entry sample_ring, Inr n) \<and> rv_tunnel_entry n = [49, 58, 50]"
proof -
  let ?spec = "\<lparr> rs_addr_text = node_text 2, rs_ed_pub = replicate 32 9, rs_proof = [], rs_tunnel_entry = [],
    rs_alt_entries = [], rs_ipv8_capable = True, rs_mtu = 0, rs_ttl_secs = 1, rs_observed = None \<rparr>"
  have "\<not> entry_expired (secs 20) (stored sample_clock sample_entry)"
    by (simp add: stored_def sample_entry_def sample_clock_def rec_expired_def add_secs_def floored_def secs_def)
  moreover have "ed_key_ok toy_ed (rs_ed_pub ?spec)" by (simp add: toy_ed_def)
  ultimately show ?thesis
    using region_shares_entry [OF sample_ring_ok _ sample_key _ sample_storable node_text_parse [of 2] _ _ _ _ _ refl,
        of 10 2000 "secs 20" ?spec toy_ed]
    by (simp add: node_addr_def addr_with_region_def sample_entry_def)
qed

definition poison :: "u64 \<Rightarrow> bytes" where
  "poison reg_secs = replicate 32 0 @ put_str [] @ put_strs [] @ [0] @ to_le32 0 @ to_le64 reg_secs @ to_le64 0 @ [0] @ put_strs []"

text \<open>
  One bad value stops the nodes that meet it: any member of the ring can put, under the key of an address, an entry
  whose registration time is not one its readers can represent (the largest number of seconds, or on Windows any time
  before they started); then every lookup of the address panics on every node, and so does the sweep of the node that
  holds it.
\<close>

theorem poisoned_entry_panics:
  assumes "ring_links S net" "exact_fingers S net" "me \<in> S" "addr_to_key a \<notin> S"
    and "secs (unat s) < ck_origin ck \<or> ck_last ck < secs (unat s)"
  shows "\<exists>net' owner. rpc_dht_put me (addr_to_key a) (poison s) net = (net', Some owner)
    \<and> (\<forall>b \<in> S. dht_store_get ck b a net' = Panic) \<and> dht_store_sweep ck owner now net' = None"
proof -
  let ?k = "addr_to_key a"
  obtain net' owner where put: "rpc_dht_put me ?k (poison s) net = (net', Some owner)" "\<forall>b \<in> S. rpc_dht_get net' b ?k = Some (poison s)"
    using put_get [OF assms(1-4)] by metis
  have "decode_entry ck (poison s) = Panic"
    using assms(5) read_put_list [of "[]" "[]"]
    by (auto simp: decode_entry_def poison_def str_ok_def strs_ok_def read_bytes_append read_observed_def system_secs_to_instant_def Let_def)
  moreover obtain n where "net' owner = Some n" "(?k, poison s) \<in> set (cn_store n)"
  proof -
    obtain nd where "net owner = Some nd" "net' = net(owner \<mapsto> nd\<lparr> cn_store := AList.update ?k (poison s) (cn_store nd) \<rparr>)"
      using put(1) by (auto simp: rpc_dht_put_def split: option.splits)
    moreover have "map_of (AList.update ?k (poison s) (cn_store nd)) ?k = Some (poison s)" by (simp add: update_conv')
    ultimately show thesis using that by (auto dest: map_of_SomeD)
  qed
  ultimately show ?thesis using put
    by (intro exI [of _ net'] exI [of _ owner]) (auto simp: dht_store_get_def dht_store_sweep_def)
qed

lemma poisoned_entry_panics_witness:
  "\<exists>net' owner. rpc_dht_put 10 (addr_to_key (node_addr 1)) (poison 18446744073709551615) sample_ring = (net', Some owner)
    \<and> (\<forall>b \<in> {10, 2000, 300000}. dht_store_get sample_clock b (node_addr 1) net' = Panic) \<and> dht_store_sweep sample_clock owner 5 net' = None"
  by (rule poisoned_entry_panics [OF sample_ring_ok _ sample_key]) (simp_all add: sample_clock_def secs_def)

end
