(* ===== verification/Ans.thy ===== *)
theory Ans
  imports EngineMultihop CodecLayouts "HOL-Library.Product_Lexorder" "HOL-Library.List_Lexorder"
begin

text \<open>
  The naming service for agents, \<open>cloud/ans/src/lib.rs\<close>: the agent card with its canonical bytes and hash, the
  registration behind certificate, card signature and proof of possession, lookup by name and by capability, the task
  planner with its leases, and the reaper. The store is the memory store of the file: an association list for
  \<open>by_addr\<close>, whose order stands for the iteration order of the hash map, and a map for \<open>by_name\<close>. SHA-256 and
  Ed25519 are parameters, and the wall clock in seconds is an argument.
\<close>

section \<open>Cards\<close>

definition ANS_REGISTER_DOMAIN :: bytes where
  "ANS_REGISTER_DOMAIN = [0x69, 0x70, 0x76, 0x38, 0x70, 0x6C, 0x75, 0x73, 0x2D, 0x61, 0x6E, 0x73, 0x2D,
     0x72, 0x65, 0x67, 0x69, 0x73, 0x74, 0x65, 0x72]"

definition CARD_VERSION :: u8 where [const_defs]: "CARD_VERSION = 1"
definition MAX_LEASE_SECS :: u64 where [const_defs]: "MAX_LEASE_SECS = 3600"

datatype ans_error =
    Ans_BadName | Ans_BadAddress | Ans_BadTags | Ans_BadCard | Ans_BadProof | Ans_BadCert
  | Ans_KeyConflict | Ans_NameConflict | Ans_NotFound | Ans_Insufficient nat nat

definition validate_tags :: "bytes list \<Rightarrow> ans_error + unit" where
  "validate_tags tags = (case tags_encode tags of Inl _ \<Rightarrow> Inl Ans_BadTags | Inr _ \<Rightarrow> Inr ())"

definition ans_pop_message :: "bytes \<Rightarrow> bytes \<Rightarrow> bytes \<Rightarrow> bytes" where
  "ans_pop_message name addr_text card_hash = ANS_REGISTER_DOMAIN @ name @ addr_text @ card_hash"

record agent_card =
  cd_version :: u8
  cd_name :: bytes
  cd_addr :: ipv8_address
  cd_capabilities :: "bytes list"
  cd_endpoints :: "bytes list"
  cd_qos_hint :: u8
  cd_not_after :: u64
  cd_tunnel_entry :: bytes

definition push_u8_str :: "bytes \<Rightarrow> bytes \<Rightarrow> ans_error + bytes" where
  "push_u8_str b s = (if length s > 255 then Inl Ans_BadCard else Inr (b @ [of_nat (length s)] @ s))"

fun push_each :: "bytes \<Rightarrow> bytes list \<Rightarrow> ans_error + bytes" where
  "push_each b [] = Inr b"
| "push_each b (s # v) = (case push_u8_str b s of Inl e \<Rightarrow> Inl e | Inr b \<Rightarrow> push_each b v)"

definition push_u8_strs :: "bytes \<Rightarrow> bytes list \<Rightarrow> ans_error + bytes" where
  "push_u8_strs b v = (if length v > 255 then Inl Ans_BadCard else push_each (b @ [of_nat (length v)]) v)"

definition canonical_bytes :: "agent_card \<Rightarrow> ans_error + bytes" where
  "canonical_bytes c = (case push_u8_str ([cd_version c] @ to_bytes (cd_addr c)) (cd_name c) of
     Inl e \<Rightarrow> Inl e
   | Inr b \<Rightarrow> (case push_u8_str b (cd_tunnel_entry c) of
       Inl e \<Rightarrow> Inl e
     | Inr b \<Rightarrow>
         if cd_qos_hint c > 15 then Inl Ans_BadCard
         else case push_u8_strs (b @ [cd_qos_hint c] @ to_be64 (cd_not_after c)) (cd_capabilities c) of
             Inl e \<Rightarrow> Inl e
           | Inr b \<Rightarrow> push_u8_strs b (cd_endpoints c)))"

definition card_hash :: "(bytes \<Rightarrow> bytes) \<Rightarrow> agent_card \<Rightarrow> ans_error + bytes" where
  "card_hash sha256 c = (case canonical_bytes c of Inl e \<Rightarrow> Inl e | Inr b \<Rightarrow> Inr (take 16 (sha256 b)))"

definition card_summary :: "(bytes \<Rightarrow> bytes) \<Rightarrow> agent_card \<Rightarrow> bytes \<Rightarrow> bytes \<Rightarrow> ans_error + agent_card_summary" where
  "card_summary sha256 c agent_pubkey card_sig = (case card_hash sha256 c of
     Inl e \<Rightarrow> Inl e
   | Inr h \<Rightarrow> Inr \<lparr> ac_version = cd_version c, ac_card_hash = h, ac_not_after = cd_not_after c,
       ac_agent_pubkey = agent_pubkey, ac_card_sig = card_sig \<rparr>)"

section \<open>The store\<close>

record stored_agent =
  ag_ed_pub :: bytes
  ag_name :: bytes
  ag_card :: agent_card
  ag_summary :: agent_card_summary
  ag_lease :: "(u64 \<times> u64) option"

definition agent_leased :: "stored_agent \<Rightarrow> u64 \<Rightarrow> bool" where
  "agent_leased a now \<longleftrightarrow> (case ag_lease a of Some (_, exp) \<Rightarrow> exp > now | None \<Rightarrow> False)"

definition agent_expired :: "stored_agent \<Rightarrow> u64 \<Rightarrow> bool" where
  "agent_expired a now \<longleftrightarrow> cd_not_after (ag_card a) \<le> now"

record agent_store =
  as_by_addr :: "(ipv8_address \<times> stored_agent) list"
  as_by_name :: "bytes \<rightharpoonup> ipv8_address"

definition agent_put :: "ipv8_address \<Rightarrow> stored_agent \<Rightarrow> agent_store \<Rightarrow> agent_store" where
  "agent_put addr a st = st\<lparr> as_by_name := (as_by_name st)(ag_name a \<mapsto> addr),
     as_by_addr := AList.update addr a (as_by_addr st) \<rparr>"

definition agent_get :: "agent_store \<Rightarrow> ipv8_address \<Rightarrow> stored_agent option" where
  "agent_get st addr = map_of (as_by_addr st) addr"

definition agent_modify :: "ipv8_address \<Rightarrow> (stored_agent \<Rightarrow> stored_agent) \<Rightarrow> agent_store \<Rightarrow> agent_store" where
  "agent_modify addr f st = (case agent_get st addr of
     None \<Rightarrow> st
   | Some a \<Rightarrow> st\<lparr> as_by_addr := AList.update addr (f a) (as_by_addr st) \<rparr>)"

definition agent_remove :: "ipv8_address \<Rightarrow> agent_store \<Rightarrow> agent_store" where
  "agent_remove addr st = (case agent_get st addr of
     None \<Rightarrow> st
   | Some a \<Rightarrow> st\<lparr> as_by_addr := AList.delete addr (as_by_addr st), as_by_name := (as_by_name st)(ag_name a := None) \<rparr>)"

definition agent_addrs :: "agent_store \<Rightarrow> ipv8_address list" where
  "agent_addrs st = map fst (as_by_addr st)"

section \<open>The service\<close>

record ans =
  an_store :: agent_store
  an_anchor_pub :: bytes
  an_namespace_root :: bytes
  an_next_plan_id :: u64

definition ans_new :: "bytes \<Rightarrow> bytes \<Rightarrow> ans" where
  "ans_new anchor_pub namespace_root = \<lparr> an_store = \<lparr> as_by_addr = [], as_by_name = Map.empty \<rparr>,
     an_anchor_pub = anchor_pub, an_namespace_root = namespace_root, an_next_plan_id = 1 \<rparr>"

definition ends_with :: "bytes \<Rightarrow> bytes \<Rightarrow> bool" where
  "ends_with s t \<longleftrightarrow> length t \<le> length s \<and> drop (length s - length t) s = t"

definition check_name :: "ans \<Rightarrow> bytes \<Rightarrow> ans_error + unit" where
  "check_name an name = (
     if name = [] \<or> length name > 255 then Inl Ans_BadName
     else if an_namespace_root an \<noteq> [] \<and> \<not> ends_with name (an_namespace_root an) then Inl Ans_BadName
     else if name = an_namespace_root an then Inl Ans_BadName
     else Inr ())"

record ans_spec =
  sp_addr_text :: bytes
  sp_cert_wire :: bytes
  sp_card :: agent_card
  sp_card_sig :: bytes
  sp_pop :: bytes

text \<open>What a card has to satisfy by itself: the hash, or the refusal.\<close>

definition check_card :: "(bytes \<Rightarrow> bytes) \<Rightarrow> ans \<Rightarrow> ans_spec \<Rightarrow> u64 \<Rightarrow> ans_error + ipv8_address \<times> bytes" where
  "check_card sha256 an spec now = (case from_canonical_str (sp_addr_text spec) of
     Inl _ \<Rightarrow> Inl Ans_BadAddress
   | Inr addr \<Rightarrow> (case check_name an (cd_name (sp_card spec)) of
       Inl e \<Rightarrow> Inl e
     | Inr _ \<Rightarrow>
         if cd_version (sp_card spec) \<noteq> CARD_VERSION \<or> cd_addr (sp_card spec) \<noteq> addr then Inl Ans_BadCard
         else if cd_not_after (sp_card spec) \<le> now then Inl Ans_BadCard
         else case validate_tags (cd_capabilities (sp_card spec)) of
             Inl e \<Rightarrow> Inl e
           | Inr _ \<Rightarrow> (case card_hash sha256 (sp_card spec) of Inl e \<Rightarrow> Inl e | Inr h \<Rightarrow> Inr (addr, h))))"

text \<open>The three proofs: certificate, card signature, possession of the key; the answer is the certified key.\<close>

definition check_proofs :: "ed25519 \<Rightarrow> ans \<Rightarrow> ans_spec \<Rightarrow> ipv8_address \<Rightarrow> bytes \<Rightarrow> u64 \<Rightarrow> ans_error + bytes" where
  "check_proofs ed an spec addr h now = (case cert_pubkey_from_wire (sp_cert_wire spec) of
     None \<Rightarrow> Inl Ans_BadCert
   | Some pubkey \<Rightarrow>
       if \<not> cert_binding_ok ed (an_anchor_pub an) (sp_cert_wire spec) addr pubkey now then Inl Ans_BadCert
       else if \<not> ed_key_ok ed pubkey then Inl Ans_BadCard
       else if \<not> ed_verify ed pubkey
           (agent_card_message (cd_version (sp_card spec)) h (cd_not_after (sp_card spec)) pubkey) (sp_card_sig spec)
       then Inl Ans_BadCard
       else if length (sp_pop spec) \<noteq> 64 then Inl Ans_BadProof
       else if \<not> ed_verify ed pubkey (ans_pop_message (cd_name (sp_card spec)) (sp_addr_text spec) h) (sp_pop spec)
       then Inl Ans_BadProof
       else Inr pubkey)"

text \<open>A name that another live address holds is a conflict; what an expired address holds is cleared.\<close>

definition claim_name :: "bytes \<Rightarrow> ipv8_address \<Rightarrow> u64 \<Rightarrow> agent_store \<Rightarrow> ans_error + agent_store" where
  "claim_name name addr now st = (case as_by_name st name of
     None \<Rightarrow> Inr st
   | Some existing_addr \<Rightarrow>
       if existing_addr = addr then Inr st
       else
         let taken = (case agent_get st existing_addr of Some a \<Rightarrow> \<not> agent_expired a now | None \<Rightarrow> False)
         in if taken then Inl Ans_NameConflict else Inr (agent_remove existing_addr st))"

definition ans_register :: "ed25519 \<Rightarrow> (bytes \<Rightarrow> bytes) \<Rightarrow> ans_spec \<Rightarrow> u64 \<Rightarrow> ans \<Rightarrow> ans \<times> (ans_error + bytes)" where
  "ans_register ed sha256 spec now an = (case check_card sha256 an spec now of
     Inl e \<Rightarrow> (an, Inl e)
   | Inr (addr, h) \<Rightarrow> (case check_proofs ed an spec addr h now of
       Inl e \<Rightarrow> (an, Inl e)
     | Inr pubkey \<Rightarrow> (case claim_name (cd_name (sp_card spec)) addr now (an_store an) of
         Inl e \<Rightarrow> (an, Inl e)
       | Inr st \<Rightarrow>
           let an = an\<lparr> an_store := st \<rparr>
           in if (case agent_get st addr of Some cur \<Rightarrow> ag_ed_pub cur \<noteq> pubkey | None \<Rightarrow> False) then (an, Inl Ans_KeyConflict)
              else case card_summary sha256 (sp_card spec) pubkey (sp_card_sig spec) of
                  Inl e \<Rightarrow> (an, Inl e)
                | Inr summary \<Rightarrow>
                    let lease = Option.bind (agent_get st addr) ag_lease
                    in (an\<lparr> an_store := agent_put addr \<lparr> ag_ed_pub = pubkey, ag_name = cd_name (sp_card spec), ag_card = sp_card spec,
                          ag_summary = summary, ag_lease = lease \<rparr> st \<rparr>, Inr h))))"

section \<open>Lookup\<close>

record resolved_agent =
  ra_name :: bytes
  ra_addr :: ipv8_address
  ra_tunnel_entry :: bytes
  ra_capabilities :: "bytes list"
  ra_endpoints :: "bytes list"
  ra_qos_hint :: u8
  ra_not_after :: u64
  ra_summary :: agent_card_summary

definition to_resolved :: "stored_agent \<Rightarrow> resolved_agent" where
  "to_resolved a = \<lparr> ra_name = ag_name a, ra_addr = cd_addr (ag_card a), ra_tunnel_entry = cd_tunnel_entry (ag_card a),
     ra_capabilities = cd_capabilities (ag_card a), ra_endpoints = cd_endpoints (ag_card a), ra_qos_hint = cd_qos_hint (ag_card a),
     ra_not_after = cd_not_after (ag_card a), ra_summary = ag_summary a \<rparr>"

definition resolve_addr :: "ans \<Rightarrow> ipv8_address \<Rightarrow> u64 \<Rightarrow> ans_error + resolved_agent" where
  "resolve_addr an addr now = (case agent_get (an_store an) addr of
     None \<Rightarrow> Inl Ans_NotFound
   | Some a \<Rightarrow> if agent_expired a now then Inl Ans_NotFound else Inr (to_resolved a))"

definition resolve_name :: "ans \<Rightarrow> bytes \<Rightarrow> u64 \<Rightarrow> ans_error + resolved_agent" where
  "resolve_name an name now = (case as_by_name (an_store an) name of None \<Rightarrow> Inl Ans_NotFound | Some addr \<Rightarrow> resolve_addr an addr now)"

definition covers :: "bytes list \<Rightarrow> bytes list \<Rightarrow> bool" where
  "covers agent_caps required \<longleftrightarrow> list_all (\<lambda>r. r \<in> set agent_caps) required"

definition eligible :: "bytes list \<Rightarrow> u8 \<Rightarrow> bool \<Rightarrow> u64 \<Rightarrow> stored_agent \<Rightarrow> bool" where
  "eligible required_caps min_qos exclude_leased now a \<longleftrightarrow> \<not> agent_expired a now \<and> (\<not> exclude_leased \<or> \<not> agent_leased a now)
     \<and> covers (cd_capabilities (ag_card a)) required_caps \<and> cd_qos_hint (ag_card a) \<ge> min_qos"

text \<open>The order of the candidates: quality down, then remaining lifetime down, then address text up.\<close>

definition candidate_key :: "resolved_agent \<Rightarrow> int \<times> int \<times> nat list" where
  "candidate_key x = (- uint (ra_qos_hint x), - uint (ra_not_after x), map unat (to_canonical_string (ra_addr x)))"

definition search_capability :: "ans \<Rightarrow> bytes list \<Rightarrow> u8 \<Rightarrow> bool \<Rightarrow> u64 \<Rightarrow> resolved_agent list" where
  "search_capability an required_caps min_qos exclude_leased now =
     sort_key candidate_key (map to_resolved (filter (eligible required_caps min_qos exclude_leased now)
       (List.map_filter (agent_get (an_store an)) (agent_addrs (an_store an)))))"

section \<open>Tasks\<close>

record task_description =
  td_required_caps :: "bytes list"
  td_min_count :: nat
  td_qos_level :: u8
  td_timeout_ms :: u64

record assignment =
  am_addr :: ipv8_address
  am_shard_id :: nat
  am_lease_expiry :: u64

record plan =
  pl_plan_id :: u64
  pl_assignments :: "assignment list"
  pl_created_at :: u64

definition sat_add64 :: "u64 \<Rightarrow> u64 \<Rightarrow> u64" where
  "sat_add64 x y = (if y > - 1 - x then - 1 else x + y)"

definition lease_secs :: "u64 \<Rightarrow> u64" where
  "lease_secs timeout_ms = min (max (sat_add64 timeout_ms 999 div 1000) 1) MAX_LEASE_SECS"

fun assign :: "u64 \<Rightarrow> u64 \<Rightarrow> nat \<Rightarrow> resolved_agent list \<Rightarrow> agent_store \<Rightarrow> agent_store \<times> assignment list" where
  "assign plan_id expiry i [] st = (st, [])"
| "assign plan_id expiry i (c # cs) st = (
     let st = agent_modify (ra_addr c) (\<lambda>a. a\<lparr> ag_lease := Some (plan_id, expiry) \<rparr>) st
     in case assign plan_id expiry (i + 1) cs st of (st, rest) \<Rightarrow>
          (st, \<lparr> am_addr = ra_addr c, am_shard_id = i, am_lease_expiry = expiry \<rparr> # rest))"

definition plan_task :: "task_description \<Rightarrow> u64 \<Rightarrow> ans \<Rightarrow> ans \<times> (ans_error + plan)" where
  "plan_task task now an = (case validate_tags (td_required_caps task) of
     Inl e \<Rightarrow> (an, Inl e)
   | Inr _ \<Rightarrow>
       if td_min_count task = 0 then (an, Inl (Ans_Insufficient 0 0))
       else
         let candidates = search_capability an (td_required_caps task) (td_qos_level task) True now
         in if length candidates < td_min_count task then (an, Inl (Ans_Insufficient (td_min_count task) (length candidates)))
            else
              let plan_id = an_next_plan_id an;
                  an = an\<lparr> an_next_plan_id := an_next_plan_id an + 1 \<rparr>
              in case assign plan_id (sat_add64 now (lease_secs (td_timeout_ms task))) 0 (take (td_min_count task) candidates) (an_store an) of
                   (st, assignments) \<Rightarrow>
                     (an\<lparr> an_store := st \<rparr>, Inr \<lparr> pl_plan_id = plan_id, pl_assignments = assignments, pl_created_at = now \<rparr>))"

definition report_done :: "u64 \<Rightarrow> ipv8_address \<Rightarrow> u64 \<Rightarrow> ans \<Rightarrow> ans \<times> (ans_error + unit)" where
  "report_done plan_id addr now an = (case agent_get (an_store an) addr of
     None \<Rightarrow> (an, Inl Ans_NotFound)
   | Some a \<Rightarrow> (case ag_lease a of
       Some (pid, _) \<Rightarrow>
         if pid = plan_id then (an\<lparr> an_store := agent_modify addr (\<lambda>a. a\<lparr> ag_lease := None \<rparr>) (an_store an) \<rparr>, Inr ())
         else (an, Inl Ans_NotFound)
     | None \<Rightarrow> (an, Inl Ans_NotFound)))"

definition reap_agent :: "u64 \<Rightarrow> ipv8_address \<Rightarrow> agent_store \<times> nat \<times> ipv8_address list \<Rightarrow> agent_store \<times> nat \<times> ipv8_address list" where
  "reap_agent now addr s = (case s of (st, released, expired_cards) \<Rightarrow> (case agent_get st addr of
     None \<Rightarrow> (st, released, expired_cards)
   | Some a \<Rightarrow>
       let lapsed = (case ag_lease a of Some (_, exp) \<Rightarrow> exp \<le> now | None \<Rightarrow> False);
           (st, released) = (if lapsed then (agent_modify addr (\<lambda>a. a\<lparr> ag_lease := None \<rparr>) st, released + 1) else (st, released))
       in (st, released, if agent_expired a now then expired_cards @ [addr] else expired_cards)))"

definition ans_reap :: "u64 \<Rightarrow> ans \<Rightarrow> ans \<times> nat \<times> nat" where
  "ans_reap now an = (case fold (reap_agent now) (agent_addrs (an_store an)) (an_store an, 0, []) of
     (st, released, expired_cards) \<Rightarrow>
       (an\<lparr> an_store := fold agent_remove expired_cards st \<rparr>, released, length expired_cards))"

section \<open>The store as a map\<close>

lemma agent_put_simps [simp]:
  "agent_get (agent_put a x st) b = (if b = a then Some x else agent_get st b)"
  "as_by_name (agent_put a x st) = (as_by_name st)(ag_name x \<mapsto> a)"
  by (simp_all add: agent_get_def agent_put_def update_conv')

lemma agent_modify_simps [simp]:
  "agent_get (agent_modify a f st) b = (if b = a then map_option f (agent_get st a) else agent_get st b)"
  "as_by_name (agent_modify a f st) = as_by_name st"
  by (simp_all add: agent_modify_def agent_get_def update_conv' split: option.split)

lemma agent_remove_simps [simp]:
  "agent_get (agent_remove a st) b = (if b = a then None else agent_get st b)"
  "as_by_name (agent_remove a st)
    = (case agent_get st a of None \<Rightarrow> as_by_name st | Some x \<Rightarrow> (as_by_name st)(ag_name x := None))"
  by (simp_all add: agent_remove_def agent_get_def delete_conv' split: option.split)

text \<open>
  What holds of every store: one entry per address, stored under the address of its card, which is a valid one; and the
  name of every entry leads to it.
\<close>

definition agents_ok :: "agent_store \<Rightarrow> bool" where
  "agents_ok st \<longleftrightarrow> distinct (map fst (as_by_addr st)) \<and> (\<forall>a x. agent_get st a = Some x \<longrightarrow>
     cd_addr (ag_card x) = a \<and> cd_name (ag_card x) = ag_name x \<and> addr_protocol a = PROTOCOL_MAGIC \<and> as_by_name st (ag_name x) = Some a)"

lemma agents_okD:
  assumes "agents_ok st" "agent_get st a = Some x"
  shows "cd_addr (ag_card x) = a" "cd_name (ag_card x) = ag_name x" "addr_protocol a = PROTOCOL_MAGIC" "as_by_name st (ag_name x) = Some a"
  using assms by (auto simp: agents_ok_def)

lemma agents_unique:
  "agents_ok st \<Longrightarrow> agent_get st a = Some x \<Longrightarrow> agent_get st b = Some y \<Longrightarrow> ag_name x = ag_name y \<Longrightarrow> a = b"
  by (metis agents_okD(4) option.inject)

lemma put_ok:
  assumes "agents_ok st" "cd_addr (ag_card x) = a" "cd_name (ag_card x) = ag_name x" "addr_protocol a = PROTOCOL_MAGIC"
    and "\<forall>b y. agent_get st b = Some y \<longrightarrow> b \<noteq> a \<longrightarrow> ag_name y \<noteq> ag_name x"
  shows "agents_ok (agent_put a x st)"
proof -
  have "distinct (map fst (as_by_addr (agent_put a x st)))" using assms(1) by (simp add: agents_ok_def agent_put_def distinct_update)
  then show ?thesis using assms by (auto simp: agents_ok_def)
qed

lemma modify_ok:
  assumes "agents_ok st" "\<And>x. ag_card (f x) = ag_card x \<and> ag_name (f x) = ag_name x"
  shows "agents_ok (agent_modify a f st)"
proof -
  have "distinct (map fst (as_by_addr (agent_modify a f st)))"
    using assms(1) by (simp add: agents_ok_def agent_modify_def distinct_update split: option.split)
  then show ?thesis using assms by (auto simp: agents_ok_def split: if_splits)
qed

lemma remove_ok:
  assumes "agents_ok st"
  shows "agents_ok (agent_remove a st)"
proof -
  have "distinct (map fst (as_by_addr (agent_remove a st)))"
    using assms by (simp add: agents_ok_def agent_remove_def distinct_delete split: option.split)
  moreover have "as_by_name (agent_remove a st) (ag_name x) = Some b" if "agent_get st b = Some x" "b \<noteq> a" for b x
  proof (cases "agent_get st a")
    case (Some y)
    then have "ag_name x \<noteq> ag_name y" using agents_unique [OF assms that(1) Some] that(2) by blast
    then show ?thesis using agents_okD(4) [OF assms that(1)] Some by simp
  qed (use agents_okD(4) [OF assms that(1)] in simp)
  ultimately show ?thesis using agents_okD(1-3) [OF assms]
    by (simp add: agents_ok_def del: agent_remove_simps(2))
qed

section \<open>Every operation\<close>

lemma claim_name_ok:
  assumes "claim_name name addr now st = Inr st'" "agents_ok st"
  shows "agents_ok st'" "\<forall>b y. agent_get st' b = Some y \<longrightarrow> b \<noteq> addr \<longrightarrow> ag_name y \<noteq> name"
    "agent_get st' a = Some x \<Longrightarrow> agent_get st a = Some x"
    "agent_get st a = Some x \<Longrightarrow> agent_get st' a = Some x \<or> a \<noteq> addr \<and> agent_expired x now"
proof -
  show old: "agent_get st' a = Some x \<Longrightarrow> agent_get st a = Some x" for a x
    using assms(1) by (auto simp: claim_name_def Let_def split: option.splits if_splits)
  show "agents_ok st'" using assms remove_ok by (auto simp: claim_name_def Let_def split: option.splits if_splits)
  show "\<forall>b y. agent_get st' b = Some y \<longrightarrow> b \<noteq> addr \<longrightarrow> ag_name y \<noteq> name"
  proof (intro allI impI notI)
    fix b y
    assume y: "agent_get st' b = Some y" "b \<noteq> addr" "ag_name y = name"
    then have "as_by_name st name = Some b" using old agents_okD(4) [OF assms(2), of b y] by blast
    then show False using assms(1) y by (auto simp: claim_name_def Let_def split: if_splits option.splits)
  qed
  show "agent_get st a = Some x \<Longrightarrow> agent_get st' a = Some x \<or> a \<noteq> addr \<and> agent_expired x now"
    using assms(1) by (auto simp: claim_name_def Let_def split: option.splits if_splits)
qed

lemma parsed_protocol: "from_canonical_str s = Inr a \<Longrightarrow> addr_protocol a = PROTOCOL_MAGIC"
  by (auto simp: from_canonical_str_def Let_def split: if_splits option.splits)

lemma check_cardD:
  assumes "check_card sha256 an spec now = Inr (addr, h)"
  shows "from_canonical_str (sp_addr_text spec) = Inr addr" "check_name an (cd_name (sp_card spec)) = Inr ()"
    "cd_version (sp_card spec) = CARD_VERSION" "cd_addr (sp_card spec) = addr" "now < cd_not_after (sp_card spec)"
    "validate_tags (cd_capabilities (sp_card spec)) = Inr ()" "card_hash sha256 (sp_card spec) = Inr h"
  using assms by (auto simp: check_card_def not_le split: sum.splits if_splits)

lemma check_proofsD:
  assumes "check_proofs ed an spec addr h now = Inr pubkey"
  shows "cert_binding_ok ed (an_anchor_pub an) (sp_cert_wire spec) addr pubkey now" "pubkey = slice 16 48 (sp_cert_wire spec)"
    "ed_verify ed pubkey (agent_card_message (cd_version (sp_card spec)) h (cd_not_after (sp_card spec)) pubkey) (sp_card_sig spec)"
    "ed_verify ed pubkey (ans_pop_message (cd_name (sp_card spec)) (sp_addr_text spec) h) (sp_pop spec)"
  using assms by (auto simp: check_proofs_def cert_pubkey_from_wire_def split: option.splits if_splits)

text \<open>What a registration does to the store.\<close>

definition enrolled :: "(bytes \<Rightarrow> bytes) \<Rightarrow> ans_spec \<Rightarrow> bytes \<Rightarrow> (u64 \<times> u64) option \<Rightarrow> stored_agent \<Rightarrow> bool" where
  "enrolled sha256 spec pubkey lease x \<longleftrightarrow> ag_ed_pub x = pubkey \<and> ag_name x = cd_name (sp_card spec) \<and> ag_card x = sp_card spec
     \<and> card_summary sha256 (sp_card spec) pubkey (sp_card_sig spec) = Inr (ag_summary x) \<and> ag_lease x = lease"

lemma enrol_effect:
  assumes "ans_register ed sha256 spec now an = (an', r)" "agents_ok (an_store an)"
  shows "(case r of Inl e \<Rightarrow> an' = an \<or> (\<exists>st addr h. check_card sha256 an spec now = Inr (addr, h)
        \<and> claim_name (cd_name (sp_card spec)) addr now (an_store an) = Inr st \<and> an' = an\<lparr> an_store := st \<rparr>)
    | Inr h \<Rightarrow> (\<exists>addr pubkey st x. check_card sha256 an spec now = Inr (addr, h) \<and> check_proofs ed an spec addr h now = Inr pubkey
        \<and> claim_name (cd_name (sp_card spec)) addr now (an_store an) = Inr st
        \<and> (\<forall>cur. agent_get (an_store an) addr = Some cur \<longrightarrow> ag_ed_pub cur = pubkey)
        \<and> enrolled sha256 spec pubkey (Option.bind (agent_get (an_store an) addr) ag_lease) x
        \<and> an' = an\<lparr> an_store := agent_put addr x st \<rparr>))"
proof (cases "check_card sha256 an spec now")
  case (Inl e)
  then show ?thesis using assms(1) by (auto simp: ans_register_def)
next
  case (Inr p)
  then obtain addr h where c: "check_card sha256 an spec now = Inr (addr, h)" by (cases p) auto
  show ?thesis
  proof (cases "\<exists>e. check_proofs ed an spec addr h now = Inl e \<or> claim_name (cd_name (sp_card spec)) addr now (an_store an) = Inl e")
    case True
    then show ?thesis using assms(1) c by (auto simp: ans_register_def split: sum.splits)
  next
    case False
    then obtain pubkey st where p: "check_proofs ed an spec addr h now = Inr pubkey"
      "claim_name (cd_name (sp_card spec)) addr now (an_store an) = Inr st" by (metis sum.exhaust)
    have same: "agent_get st addr = agent_get (an_store an) addr"
      using claim_name_ok(3,4) [OF p(2) assms(2), of addr] by (metis not_None_eq)
    have h: "card_hash sha256 (sp_card spec) = Inr h" by (rule check_cardD(7) [OF c])
    show ?thesis
    proof (cases "\<exists>cur. agent_get (an_store an) addr = Some cur \<and> ag_ed_pub cur \<noteq> pubkey")
      case True
      then have "an' = an\<lparr> an_store := st \<rparr>" "r = Inl Ans_KeyConflict"
        using assms(1) c p by (auto simp: ans_register_def Let_def same)
      then show ?thesis using c p by auto
    next
      case False
      then have k: "\<not> (case agent_get st addr of Some cur \<Rightarrow> ag_ed_pub cur \<noteq> pubkey | None \<Rightarrow> False)"
        by (auto simp: same split: option.split)
      let ?x = "\<lparr> ag_ed_pub = pubkey, ag_name = cd_name (sp_card spec), ag_card = sp_card spec,
        ag_summary = \<lparr> ac_version = cd_version (sp_card spec), ac_card_hash = h, ac_not_after = cd_not_after (sp_card spec),
          ac_agent_pubkey = pubkey, ac_card_sig = sp_card_sig spec \<rparr>, ag_lease = Option.bind (agent_get (an_store an) addr) ag_lease \<rparr>"
      have "an' = an\<lparr> an_store := agent_put addr ?x st \<rparr>" "r = Inr h"
        using assms(1) c p k h by (simp_all add: ans_register_def Let_def same card_summary_def)
      moreover have "enrolled sha256 spec pubkey (Option.bind (agent_get (an_store an) addr) ag_lease) ?x"
        using h by (simp add: enrolled_def card_summary_def)
      ultimately show ?thesis using c p False by auto
    qed
  qed
qed

lemma enrol_ok:
  assumes "ans_register ed sha256 spec now an = (an', r)" "agents_ok (an_store an)"
  shows "agents_ok (an_store an')"
proof (cases r)
  case (Inl e)
  then show ?thesis using enrol_effect [OF assms] claim_name_ok(1) assms(2) by fastforce
next
  case (Inr h)
  with enrol_effect [OF assms] obtain addr pubkey st x where r: "check_card sha256 an spec now = Inr (addr, h)"
    "claim_name (cd_name (sp_card spec)) addr now (an_store an) = Inr st" "enrolled sha256 spec pubkey (Option.bind (agent_get (an_store an) addr) ag_lease) x"
    "an' = an\<lparr> an_store := agent_put addr x st \<rparr>" by auto
  have "agents_ok (agent_put addr x st)"
    using r(3) claim_name_ok(2) [OF r(2) assms(2)] check_cardD(4) [OF r(1)] parsed_protocol [OF check_cardD(1) [OF r(1)]]
    by (intro put_ok claim_name_ok(1) [OF r(2) assms(2)]) (simp_all add: enrolled_def)
  then show ?thesis by (simp add: r(4))
qed

lemma assign_all:
  "assign plan_id expiry i cs st = (st', out) \<Longrightarrow> as_by_name st' = as_by_name st
    \<and> (\<forall>b. agent_get st' b = (if b \<in> ra_addr ` set cs then map_option (\<lambda>x. x\<lparr> ag_lease := Some (plan_id, expiry) \<rparr>) (agent_get st b)
        else agent_get st b))
    \<and> map am_addr out = map ra_addr cs \<and> map am_shard_id out = [i..<i + length cs] \<and> list_all (\<lambda>m. am_lease_expiry m = expiry) out
    \<and> (agents_ok st \<longrightarrow> agents_ok st')"
proof (induction cs arbitrary: i st out)
  case (Cons c cs)
  let ?st = "agent_modify (ra_addr c) (\<lambda>a. a\<lparr> ag_lease := Some (plan_id, expiry) \<rparr>) st"
  obtain rest where r: "assign plan_id expiry (i + 1) cs ?st = (st', rest)"
    "out = \<lparr> am_addr = ra_addr c, am_shard_id = i, am_lease_expiry = expiry \<rparr> # rest"
    using Cons.prems by (auto simp: Let_def split: prod.splits)
  have "agents_ok st \<longrightarrow> agents_ok ?st" using modify_ok [of st] by simp
  moreover have "[i..<i + length (c # cs)] = i # [i + 1..<i + 1 + length cs]" by (simp add: upt_conv_Cons del: upt_Suc)
  ultimately show ?case using Cons.IH [OF r(1)] r(2) by (auto simp: option.map_comp comp_def simp del: upt_Suc)
qed simp

lemma assign_effect:
  assumes "assign plan_id expiry i cs st = (st', out)"
  shows "as_by_name st' = as_by_name st"
    "agent_get st' b = (if b \<in> ra_addr ` set cs then map_option (\<lambda>x. x\<lparr> ag_lease := Some (plan_id, expiry) \<rparr>) (agent_get st b)
      else agent_get st b)"
    "map am_addr out = map ra_addr cs" "map am_shard_id out = [i..<i + length cs]" "list_all (\<lambda>m. am_lease_expiry m = expiry) out"
    "agents_ok st \<Longrightarrow> agents_ok st'"
  using assign_all [OF assms] by blast+

lemma plan_effect:
  assumes "plan_task task now an = (an', r)"
  shows "(\<exists>e. r = Inl e \<and> an' = an) \<or> (\<exists>cs out st. cs = take (td_min_count task)
        (search_capability an (td_required_caps task) (td_qos_level task) True now)
      \<and> length cs = td_min_count task \<and> 0 < td_min_count task
      \<and> assign (an_next_plan_id an) (sat_add64 now (lease_secs (td_timeout_ms task))) 0 cs (an_store an) = (st, out)
      \<and> r = Inr \<lparr> pl_plan_id = an_next_plan_id an, pl_assignments = out, pl_created_at = now \<rparr>
      \<and> an' = an\<lparr> an_next_plan_id := an_next_plan_id an + 1, an_store := st \<rparr>)"
  using assms by (auto simp: plan_task_def Let_def split: sum.splits if_splits prod.splits)

lemma done_effect:
  assumes "report_done plan_id addr now an = (an', r)"
  shows "an' = an \<and> r = Inl Ans_NotFound \<or> r = Inr () \<and> (\<exists>x t. agent_get (an_store an) addr = Some x \<and> ag_lease x = Some (plan_id, t))
    \<and> an' = an\<lparr> an_store := agent_modify addr (\<lambda>a. a\<lparr> ag_lease := None \<rparr>) (an_store an) \<rparr>"
  using assms by (auto simp: report_done_def split: option.splits if_splits)

definition lapsed :: "u64 \<Rightarrow> stored_agent \<Rightarrow> bool" where
  "lapsed now x \<longleftrightarrow> (case ag_lease x of Some (_, exp) \<Rightarrow> exp \<le> now | None \<Rightarrow> False)"

definition released :: "u64 \<Rightarrow> stored_agent \<Rightarrow> stored_agent" where
  "released now x = (if lapsed now x then x\<lparr> ag_lease := None \<rparr> else x)"

lemma reap_one:
  assumes "reap_agent now a (st, n, ex) = (st1, n1, ex1)"
  shows "agent_get st1 b = (if b = a then map_option (released now) (agent_get st a) else agent_get st b)"
    "ex1 = ex @ (if \<exists>x. agent_get st a = Some x \<and> agent_expired x now then [a] else [])"
    "n1 = n + (if \<exists>x. agent_get st a = Some x \<and> lapsed now x then 1 else 0)" "agents_ok st \<Longrightarrow> agents_ok st1"
proof -
  show "agent_get st1 b = (if b = a then map_option (released now) (agent_get st a) else agent_get st b)"
    "ex1 = ex @ (if \<exists>x. agent_get st a = Some x \<and> agent_expired x now then [a] else [])"
    "n1 = n + (if \<exists>x. agent_get st a = Some x \<and> lapsed now x then 1 else 0)"
    using assms by (auto simp: reap_agent_def Let_def released_def lapsed_def split: option.splits if_splits)
  show "agents_ok st \<Longrightarrow> agents_ok st1"
    using assms modify_ok [of st "\<lambda>a. a\<lparr> ag_lease := None \<rparr>" a] by (auto simp: reap_agent_def Let_def split: option.splits if_splits)
qed

lemma reap_all:
  "distinct addrs \<Longrightarrow> fold (reap_agent now) addrs (st, n, ex) = (st', n', ex') \<Longrightarrow>
    (\<forall>b. agent_get st' b = (if b \<in> set addrs then map_option (released now) (agent_get st b) else agent_get st b))
    \<and> (agents_ok st \<longrightarrow> agents_ok st')
    \<and> ex' = ex @ filter (\<lambda>a. \<exists>x. agent_get st a = Some x \<and> agent_expired x now) addrs
    \<and> n' = n + length (filter (\<lambda>a. \<exists>x. agent_get st a = Some x \<and> lapsed now x) addrs)"
proof (induction addrs arbitrary: st n ex)
  case (Cons a addrs)
  obtain st1 n1 ex1 where s: "reap_agent now a (st, n, ex) = (st1, n1, ex1)" by (metis prod_cases3)
  note o = reap_one [OF s]
  have d: "distinct addrs" "fold (reap_agent now) addrs (st1, n1, ex1) = (st', n', ex')" "a \<notin> set addrs"
    using Cons.prems s by simp_all
  have same: "filter (\<lambda>b. \<exists>x. agent_get st1 b = Some x \<and> P x) addrs = filter (\<lambda>b. \<exists>x. agent_get st b = Some x \<and> P x) addrs" for P
    using d(3) by (intro filter_cong refl) (auto simp: o(1))
  note ih = Cons.IH [OF d(1,2)]
  have "agent_get st' b = (if b \<in> set (a # addrs) then map_option (released now) (agent_get st b) else agent_get st b)" for b
    using ih d(3) by (simp add: o(1))
  moreover have "ex' = ex @ filter (\<lambda>a. \<exists>x. agent_get st a = Some x \<and> agent_expired x now) (a # addrs)" using ih o(2) by (simp add: same)
  moreover have "n' = n + length (filter (\<lambda>a. \<exists>x. agent_get st a = Some x \<and> lapsed now x) (a # addrs))" using ih o(3) by (simp add: same)
  ultimately show ?case using ih o(4) by blast
qed simp

lemma reap_fold:
  assumes "distinct addrs" "fold (reap_agent now) addrs (st, n, ex) = (st', n', ex')"
  shows "agent_get st' b = (if b \<in> set addrs then map_option (released now) (agent_get st b) else agent_get st b)"
    "agents_ok st \<Longrightarrow> agents_ok st'"
    "ex' = ex @ filter (\<lambda>a. \<exists>x. agent_get st a = Some x \<and> agent_expired x now) addrs"
    "n' = n + length (filter (\<lambda>a. \<exists>x. agent_get st a = Some x \<and> lapsed now x) addrs)"
  using reap_all [OF assms] by blast+

lemma remove_fold:
  "agent_get (fold agent_remove as st) b = (if b \<in> set as then None else agent_get st b)"
  "agents_ok st \<Longrightarrow> agents_ok (fold agent_remove as st)"
  by (induction as arbitrary: st) (auto simp: remove_ok)

lemma known_addr: "agent_get st a = Some x \<Longrightarrow> a \<in> set (agent_addrs st)"
  by (auto simp: agent_get_def agent_addrs_def intro: rev_image_eqI dest: map_of_SomeD)

lemma reap_effect:
  assumes "ans_reap now an = (an', n, m)" "agents_ok (an_store an)"
  shows "agent_get (an_store an') b = (case agent_get (an_store an) b of None \<Rightarrow> None
      | Some x \<Rightarrow> if agent_expired x now then None else Some (released now x))"
    "agents_ok (an_store an')" "an' = an\<lparr> an_store := an_store an' \<rparr>"
    "n = length (filter (\<lambda>a. \<exists>x. agent_get (an_store an) a = Some x \<and> lapsed now x) (agent_addrs (an_store an)))"
    "m = length (filter (\<lambda>a. \<exists>x. agent_get (an_store an) a = Some x \<and> agent_expired x now) (agent_addrs (an_store an)))"
proof -
  let ?as = "agent_addrs (an_store an)"
  obtain st n' ex where f: "fold (reap_agent now) ?as (an_store an, 0, []) = (st, n', ex)" by (metis prod_cases3)
  have d: "distinct ?as" using assms(2) by (simp add: agents_ok_def agent_addrs_def)
  note r = reap_fold [OF d f]
  have out: "an' = an\<lparr> an_store := fold agent_remove ex st \<rparr>" "n = n'" "m = length ex"
    using assms(1) f by (simp_all add: ans_reap_def)
  show "agent_get (an_store an') b = (case agent_get (an_store an) b of None \<Rightarrow> None
      | Some x \<Rightarrow> if agent_expired x now then None else Some (released now x))"
    using r(1) [of b] known_addr [of "an_store an" b] by (auto simp: out(1) remove_fold(1) r(3) split: option.split)
  show "agents_ok (an_store an')" using remove_fold(2) r(2) assms(2) by (simp add: out(1))
  show "an' = an\<lparr> an_store := an_store an' \<rparr>" by (simp add: out(1))
  show "n = length (filter (\<lambda>a. \<exists>x. agent_get (an_store an) a = Some x \<and> lapsed now x) ?as)" using r(4) by (simp add: out(2))
  show "m = length (filter (\<lambda>a. \<exists>x. agent_get (an_store an) a = Some x \<and> agent_expired x now) ?as)" using r(3) by (simp add: out(3))
qed

section \<open>Runs\<close>

datatype ans_op = Enroll ans_spec u64 | Plan_Task task_description u64 | Done u64 ipv8_address u64 | Reap u64

fun ans_step :: "ed25519 \<Rightarrow> (bytes \<Rightarrow> bytes) \<Rightarrow> ans_op \<Rightarrow> ans \<Rightarrow> ans" where
  "ans_step ed sha256 (Enroll spec now) an = fst (ans_register ed sha256 spec now an)"
| "ans_step ed sha256 (Plan_Task task now) an = fst (plan_task task now an)"
| "ans_step ed sha256 (Done plan_id addr now) an = fst (report_done plan_id addr now an)"
| "ans_step ed sha256 (Reap now) an = fst (ans_reap now an)"

abbreviation ans_run :: "ed25519 \<Rightarrow> (bytes \<Rightarrow> bytes) \<Rightarrow> ans_op list \<Rightarrow> ans \<Rightarrow> ans" where
  "ans_run ed sha256 ops an \<equiv> fold (ans_step ed sha256) ops an"

lemma step_ok: "agents_ok (an_store an) \<Longrightarrow> agents_ok (an_store (ans_step ed sha256 c an))"
proof (cases c)
  case (Enroll spec now)
  then show "agents_ok (an_store an) \<Longrightarrow> ?thesis" using enrol_ok by (metis ans_step.simps(1) surjective_pairing)
next
  case (Plan_Task task now)
  assume "agents_ok (an_store an)"
  then show ?thesis using plan_effect [of task now an] assign_effect(6) by (cases "plan_task task now an") (fastforce simp: Plan_Task)
next
  case (Done plan_id addr now)
  assume "agents_ok (an_store an)"
  then show ?thesis using done_effect [of plan_id addr now an] modify_ok [of "an_store an" "\<lambda>a. a\<lparr> ag_lease := None \<rparr>"]
    by (cases "report_done plan_id addr now an") (auto simp: Done)
next
  case (Reap now)
  assume "agents_ok (an_store an)"
  then show ?thesis using reap_effect(2) [of now an] by (cases "ans_reap now an") (simp add: Reap)
qed

lemma run_ok: "agents_ok (an_store (ans_run ed sha256 ops (ans_new anchor root)))"
proof -
  have "agents_ok (an_store an) \<Longrightarrow> agents_ok (an_store (ans_run ed sha256 ops an))" for an
    by (induction ops arbitrary: an) (auto intro: step_ok)
  moreover have "agents_ok (an_store (ans_new anchor root))" by (simp add: ans_new_def agents_ok_def agent_get_def)
  ultimately show ?thesis by blast
qed

end
