(* ===== verification/AnsProperties.thy ===== *)
theory AnsProperties
  imports Ans
begin

text \<open>
  What the naming service promises: which agents are in the table and what proved them, names, the search with its order,
  task plans and the exclusiveness of leases, and what the signed bytes bind.
\<close>

section \<open>The bytes of a card\<close>

lemma u8_length: "length s \<le> 255 \<Longrightarrow> unat (of_nat (length s) :: u8) = length s"
  by (simp add: unat_of_nat take_bit_nat_eq_self)

definition pstr :: "bytes \<Rightarrow> bytes" where
  "pstr s = of_nat (length s) # s"

lemma pstr_inj:
  assumes "pstr s @ r = pstr s' @ r'" "length s \<le> 255" "length s' \<le> 255"
  shows "s = s' \<and> r = r'"
proof -
  have "length s = length s'" using assms u8_length by (metis append_Cons list.sel(1) pstr_def)
  then show ?thesis using assms(1) by (simp add: pstr_def)
qed

lemma pstrs_inj:
  "concat (map pstr v) @ r = concat (map pstr v') @ r' \<Longrightarrow> length v = length v' \<Longrightarrow> list_all (\<lambda>s. length s \<le> 255) v
    \<Longrightarrow> list_all (\<lambda>s. length s \<le> 255) v' \<Longrightarrow> v = v' \<and> r = r'"
proof (induction v arbitrary: v')
  case (Cons s v)
  then obtain s' w where v': "v' = s' # w" by (cases v') auto
  then show ?case using pstr_inj [of s "concat (map pstr v) @ r" s' "concat (map pstr w) @ r'"] Cons by simp
qed simp

lemma push_str_eq: "push_u8_str b s = Inr b' \<longleftrightarrow> length s \<le> 255 \<and> b' = b @ pstr s"
  by (auto simp: push_u8_str_def pstr_def)

lemma push_each_eq: "push_each b v = Inr b' \<longleftrightarrow> list_all (\<lambda>s. length s \<le> 255) v \<and> b' = b @ concat (map pstr v)"
proof (induction v arbitrary: b)
  case (Cons s v)
  show ?case
  proof (cases "length s \<le> 255")
    case True
    then have "push_u8_str b s = Inr (b @ pstr s)" by (simp add: push_str_eq)
    then show ?thesis using True Cons.IH by simp
  qed (simp add: push_u8_str_def)
qed auto

lemma push_strs_eq: "push_u8_strs b v = Inr b' \<longleftrightarrow> length v \<le> 255 \<and> list_all (\<lambda>s. length s \<le> 255) v
    \<and> b' = b @ [of_nat (length v)] @ concat (map pstr v)"
  by (auto simp: push_u8_strs_def push_each_eq)

lemma canonical_bytes_eq:
  assumes "canonical_bytes c = Inr b"
  shows "b = cd_version c # to_bytes (cd_addr c) @ pstr (cd_name c) @ pstr (cd_tunnel_entry c) @ [cd_qos_hint c] @ to_be64 (cd_not_after c)
      @ [of_nat (length (cd_capabilities c))] @ concat (map pstr (cd_capabilities c))
      @ [of_nat (length (cd_endpoints c))] @ concat (map pstr (cd_endpoints c))"
    "length (cd_name c) \<le> 255" "length (cd_tunnel_entry c) \<le> 255" "length (cd_capabilities c) \<le> 255" "length (cd_endpoints c) \<le> 255"
    "list_all (\<lambda>s. length s \<le> 255) (cd_capabilities c)" "list_all (\<lambda>s. length s \<le> 255) (cd_endpoints c)"
proof -
  obtain b1 b2 b3 where "push_u8_str ([cd_version c] @ to_bytes (cd_addr c)) (cd_name c) = Inr b1" "push_u8_str b1 (cd_tunnel_entry c) = Inr b2"
    "push_u8_strs (b2 @ [cd_qos_hint c] @ to_be64 (cd_not_after c)) (cd_capabilities c) = Inr b3" "push_u8_strs b3 (cd_endpoints c) = Inr b"
    using assms unfolding canonical_bytes_def by (auto split: sum.splits if_splits)
  note parts = this [unfolded push_str_eq push_strs_eq]
  then show "b = cd_version c # to_bytes (cd_addr c) @ pstr (cd_name c) @ pstr (cd_tunnel_entry c) @ [cd_qos_hint c] @ to_be64 (cd_not_after c)
      @ [of_nat (length (cd_capabilities c))] @ concat (map pstr (cd_capabilities c))
      @ [of_nat (length (cd_endpoints c))] @ concat (map pstr (cd_endpoints c))"
    by (simp only: append_assoc append_Cons append_Nil)
  show "length (cd_name c) \<le> 255" "length (cd_tunnel_entry c) \<le> 255" "length (cd_capabilities c) \<le> 255" "length (cd_endpoints c) \<le> 255"
    "list_all (\<lambda>s. length s \<le> 255) (cd_capabilities c)" "list_all (\<lambda>s. length s \<le> 255) (cd_endpoints c)"
    using parts by blast+
qed

lemma canonical_bytes_inj:
  assumes "canonical_bytes c = Inr b" "canonical_bytes c' = Inr b"
  shows "c = c'"
proof -
  note e = canonical_bytes_eq [OF assms(1)] and e' = canonical_bytes_eq [OF assms(2)]
  let ?r4 = "\<lambda>c. [of_nat (length (cd_endpoints c))] @ concat (map pstr (cd_endpoints c)) :: bytes"
  let ?r3 = "\<lambda>c. [of_nat (length (cd_capabilities c))] @ concat (map pstr (cd_capabilities c)) @ ?r4 c :: bytes"
  let ?r2 = "\<lambda>c. [cd_qos_hint c] @ to_be64 (cd_not_after c) @ ?r3 c"
  have "cd_version c # to_bytes (cd_addr c) @ pstr (cd_name c) @ pstr (cd_tunnel_entry c) @ ?r2 c
      = cd_version c' # to_bytes (cd_addr c') @ pstr (cd_name c') @ pstr (cd_tunnel_entry c') @ ?r2 c'"
    using e(1) e'(1) by (simp only: append_assoc)
  then have v: "cd_version c = cd_version c'" "cd_addr c = cd_addr c'"
    "pstr (cd_name c) @ pstr (cd_tunnel_entry c) @ ?r2 c = pstr (cd_name c') @ pstr (cd_tunnel_entry c') @ ?r2 c'"
    by simp_all
  from pstr_inj [OF v(3) e(2) e'(2)] have n: "cd_name c = cd_name c'" "pstr (cd_tunnel_entry c) @ ?r2 c = pstr (cd_tunnel_entry c') @ ?r2 c'" by simp_all
  from pstr_inj [OF n(2) e(3) e'(3)] have t: "cd_tunnel_entry c = cd_tunnel_entry c'" "?r2 c = ?r2 c'" by simp_all
  then have q: "cd_qos_hint c = cd_qos_hint c'" "to_be64 (cd_not_after c) @ ?r3 c = to_be64 (cd_not_after c') @ ?r3 c'" by simp_all
  have "length (to_be64 (cd_not_after c)) = length (to_be64 (cd_not_after c'))" by (simp add: to_be64_def)
  with q(2) have na: "to_be64 (cd_not_after c) = to_be64 (cd_not_after c')" "?r3 c = ?r3 c'" by simp_all
  have na': "cd_not_after c = cd_not_after c'" using na(1) by (metis from_be_to_be(3))
  have l3: "length (cd_capabilities c) = length (cd_capabilities c')" using na(2) u8_length e(4) e'(4) by (metis append_Cons list.sel(1))
  have "concat (map pstr (cd_capabilities c)) @ ?r4 c = concat (map pstr (cd_capabilities c')) @ ?r4 c'" using na(2) by simp
  from pstrs_inj [OF this l3 e(6) e'(6)] have c3: "cd_capabilities c = cd_capabilities c'" "?r4 c = ?r4 c'" by simp_all
  have l4: "length (cd_endpoints c) = length (cd_endpoints c')" using c3(2) u8_length e(5) e'(5) by (metis append_Cons list.sel(1))
  have "concat (map pstr (cd_endpoints c)) @ [] = concat (map pstr (cd_endpoints c')) @ []" using c3(2) by simp
  from pstrs_inj [OF this l4 e(7) e'(7)] have "cd_endpoints c = cd_endpoints c'" by simp
  then show ?thesis using v(1,2) n(1) t(1) q(1) na' c3(1) by (intro agent_card.equality) simp_all
qed

section \<open>What proved an agent\<close>

text \<open>The same agent but for its lease.\<close>

definition but_lease :: "stored_agent \<Rightarrow> stored_agent" where
  "but_lease x = x\<lparr> ag_lease := None \<rparr>"

lemma but_lease_same:
  "but_lease x = but_lease y \<Longrightarrow> ag_ed_pub x = ag_ed_pub y \<and> ag_name x = ag_name y \<and> ag_card x = ag_card y \<and> ag_summary x = ag_summary y"
  unfolding but_lease_def by (cases x; cases y) simp

lemma but_lease_simps [simp]: "but_lease (x\<lparr> ag_lease := l \<rparr>) = but_lease x" "but_lease (released now x) = but_lease x"
  by (simp_all add: but_lease_def released_def)

text \<open>Where an agent of the next state comes from.\<close>

lemma step_origin:
  assumes "agent_get (an_store (ans_step ed sha256 c an)) a = Some x" "agents_ok (an_store an)"
  shows "(\<exists>y. agent_get (an_store an) a = Some y \<and> but_lease x = but_lease y)
    \<or> (\<exists>spec now h. c = Enroll spec now \<and> check_card sha256 an spec now = Inr (a, h)
        \<and> check_proofs ed an spec a h now = Inr (ag_ed_pub x) \<and> ag_card x = sp_card spec \<and> ag_name x = cd_name (sp_card spec)
        \<and> (\<forall>y. agent_get (an_store an) a = Some y \<longrightarrow> ag_ed_pub y = ag_ed_pub x \<and> ag_lease y = ag_lease x))"
proof (cases c)
  case (Enroll spec now)
  obtain an' r where e: "ans_register ed sha256 spec now an = (an', r)" by (metis surj_pair)
  show ?thesis
  proof (cases r)
    case (Inl err)
    with enrol_effect [OF e assms(2)] assms(1) show ?thesis
      using claim_name_ok(3) [OF _ assms(2)] by (fastforce simp: Enroll e)
  next
    case (Inr h)
    with enrol_effect [OF e assms(2)] obtain addr pubkey st z where r: "check_card sha256 an spec now = Inr (addr, h)"
      "check_proofs ed an spec addr h now = Inr pubkey" "claim_name (cd_name (sp_card spec)) addr now (an_store an) = Inr st"
      "\<forall>cur. agent_get (an_store an) addr = Some cur \<longrightarrow> ag_ed_pub cur = pubkey"
      "enrolled sha256 spec pubkey (Option.bind (agent_get (an_store an) addr) ag_lease) z"
      "an' = an\<lparr> an_store := agent_put addr z st \<rparr>" by auto
    show ?thesis
    proof (cases "a = addr")
      case True
      then have "x = z" using assms(1) e r(6) by (simp add: Enroll)
      then show ?thesis using Enroll r True by (auto simp: enrolled_def)
    next
      case False
      then have "agent_get st a = Some x" using assms(1) e r(6) by (simp add: Enroll)
      then show ?thesis using claim_name_ok(3) [OF r(3) assms(2)] by blast
    qed
  qed
next
  case (Plan_Task task now)
  obtain an' r where p: "plan_task task now an = (an', r)" by (metis surj_pair)
  from plan_effect [OF p] show ?thesis
  proof
    assume "\<exists>e. r = Inl e \<and> an' = an"
    then show ?thesis using assms(1) p by (auto simp: Plan_Task)
  next
    assume "\<exists>cs out st. cs = take (td_min_count task) (search_capability an (td_required_caps task) (td_qos_level task) True now)
      \<and> length cs = td_min_count task \<and> 0 < td_min_count task
      \<and> assign (an_next_plan_id an) (sat_add64 now (lease_secs (td_timeout_ms task))) 0 cs (an_store an) = (st, out)
      \<and> r = Inr \<lparr> pl_plan_id = an_next_plan_id an, pl_assignments = out, pl_created_at = now \<rparr>
      \<and> an' = an\<lparr> an_next_plan_id := an_next_plan_id an + 1, an_store := st \<rparr>"
    then obtain cs out st where a: "assign (an_next_plan_id an) (sat_add64 now (lease_secs (td_timeout_ms task))) 0 cs (an_store an) = (st, out)"
      "an_store an' = st" by auto
    have "agent_get st a = Some x" using assms(1) p a(2) by (simp add: Plan_Task)
    then show ?thesis using assign_effect(2) [OF a(1), of a] by (auto split: if_splits)
  qed
next
  case (Done plan_id addr now)
  obtain an' r where d: "report_done plan_id addr now an = (an', r)" by (metis surj_pair)
  from done_effect [OF d] show ?thesis using assms(1) d by (auto simp: Done split: if_splits)
next
  case (Reap now)
  obtain an' n m where r: "ans_reap now an = (an', n, m)" by (metis prod_cases3)
  have "agent_get (an_store an') a = Some x" using assms(1) r by (simp add: Reap)
  then show ?thesis using reap_effect(1) [OF r assms(2), of a] by (auto split: option.splits if_splits)
qed

lemma step_config: "an_anchor_pub (ans_step ed sha256 c an) = an_anchor_pub an" "an_namespace_root (ans_step ed sha256 c an) = an_namespace_root an"
  by (cases c; auto simp: ans_register_def plan_task_def report_done_def ans_reap_def Let_def split: sum.splits option.splits prod.splits)+

text \<open>The enrolment that proved an agent; \<open>b\<close> are the bytes of its card, whose hash both signatures cover.\<close>

definition proved_by :: "ed25519 \<Rightarrow> (bytes \<Rightarrow> bytes) \<Rightarrow> bytes \<Rightarrow> bytes \<Rightarrow> ans_op list \<Rightarrow> ipv8_address \<Rightarrow> stored_agent \<Rightarrow> bool" where
  "proved_by ed sha256 anchor root ops a x \<longleftrightarrow> (\<exists>spec now b. Enroll spec now \<in> set ops
     \<and> from_canonical_str (sp_addr_text spec) = Inr a \<and> ag_card x = sp_card spec \<and> now < cd_not_after (ag_card x)
     \<and> cert_binding_ok ed anchor (sp_cert_wire spec) a (ag_ed_pub x) now \<and> canonical_bytes (ag_card x) = Inr b
     \<and> ed_verify ed (ag_ed_pub x) (agent_card_message CARD_VERSION (take 16 (sha256 b)) (cd_not_after (ag_card x)) (ag_ed_pub x)) (sp_card_sig spec)
     \<and> ed_verify ed (ag_ed_pub x) (ans_pop_message (ag_name x) (sp_addr_text spec) (take 16 (sha256 b))) (sp_pop spec)
     \<and> ends_with (ag_name x) root)"

lemma check_name_ends: "check_name an name = Inr u \<Longrightarrow> ends_with name (an_namespace_root an)"
  by (auto simp: check_name_def ends_with_def split: if_splits)

lemma run_proved:
  assumes "agent_get (an_store (ans_run ed sha256 ops (ans_new anchor root))) a = Some x"
  shows "proved_by ed sha256 anchor root ops a x"
proof -
  have "agent_get (an_store (ans_run ed sha256 ops (ans_new anchor root))) a = Some x \<longrightarrow> proved_by ed sha256 anchor root ops a x" for a x
  proof (induction ops arbitrary: a x rule: rev_induct)
    case Nil
    then show ?case by (simp add: ans_new_def agent_get_def)
  next
    case (snoc c ops)
    let ?an = "ans_run ed sha256 ops (ans_new anchor root)"
    have cfg: "an_anchor_pub ?an = anchor" "an_namespace_root ?an = root"
    proof -
      have "an_anchor_pub (ans_run ed sha256 ops an) = an_anchor_pub an \<and> an_namespace_root (ans_run ed sha256 ops an) = an_namespace_root an" for an
        by (induction ops arbitrary: an) (simp_all add: step_config)
      then show "an_anchor_pub ?an = anchor" "an_namespace_root ?an = root" by (simp_all add: ans_new_def)
    qed
    show ?case
    proof
      assume "agent_get (an_store (ans_run ed sha256 (ops @ [c]) (ans_new anchor root))) a = Some x"
      then have "agent_get (an_store (ans_step ed sha256 c ?an)) a = Some x" by simp
      from step_origin [OF this run_ok] show "proved_by ed sha256 anchor root (ops @ [c]) a x"
      proof
        assume "\<exists>y. agent_get (an_store ?an) a = Some y \<and> but_lease x = but_lease y"
        then obtain y where y: "agent_get (an_store ?an) a = Some y" "but_lease x = but_lease y" by blast
        then have "proved_by ed sha256 anchor root ops a y" using snoc.IH by blast
        then show ?thesis using but_lease_same [OF y(2)] by (fastforce simp: proved_by_def)
      next
        assume "\<exists>spec now h. c = Enroll spec now \<and> check_card sha256 ?an spec now = Inr (a, h)
          \<and> check_proofs ed ?an spec a h now = Inr (ag_ed_pub x) \<and> ag_card x = sp_card spec \<and> ag_name x = cd_name (sp_card spec)
          \<and> (\<forall>y. agent_get (an_store ?an) a = Some y \<longrightarrow> ag_ed_pub y = ag_ed_pub x \<and> ag_lease y = ag_lease x)"
        then obtain spec now h where c: "c = Enroll spec now" "check_card sha256 ?an spec now = Inr (a, h)"
          "check_proofs ed ?an spec a h now = Inr (ag_ed_pub x)" "ag_card x = sp_card spec" "ag_name x = cd_name (sp_card spec)" by blast
        obtain b where b: "canonical_bytes (sp_card spec) = Inr b" "h = take 16 (sha256 b)"
          using check_cardD(7) [OF c(2)] by (auto simp: card_hash_def split: sum.splits)
        show ?thesis
          using check_cardD [OF c(2)] check_proofsD [OF c(3)] check_name_ends [OF check_cardD(2) [OF c(2)]] c(1,4,5) b
          unfolding proved_by_def cfg by (intro exI [of _ spec] exI [of _ now] exI [of _ b]) simp
      qed
    qed
  qed
  then show ?thesis using assms by blast
qed

section \<open>Search\<close>

lemma stored_list: "agents_ok st \<Longrightarrow> List.map_filter (agent_get st) (agent_addrs st) = map snd (as_by_addr st)"
proof -
  assume "agents_ok st"
  then have d: "distinct (map fst (as_by_addr st))" by (simp add: agents_ok_def)
  have "map (\<lambda>p. agent_get st (fst p)) (as_by_addr st) = map (\<lambda>p. Some (snd p)) (as_by_addr st)"
    using d by (auto simp: agent_get_def)
  then show ?thesis by (simp add: agent_addrs_def List.map_filter_def comp_def filter_map)
qed

lemma stored_addrs: "agents_ok st \<Longrightarrow> map (\<lambda>x. cd_addr (ag_card x)) (map snd (as_by_addr st)) = agent_addrs st"
proof -
  assume ok: "agents_ok st"
  then have "distinct (map fst (as_by_addr st))" by (simp add: agents_ok_def)
  then have "cd_addr (ag_card x) = a" if "(a, x) \<in> set (as_by_addr st)" for a x
    using that agents_okD(1) [OF ok, of a x] by (simp add: agent_get_def)
  then show ?thesis by (auto simp: agent_addrs_def)
qed

lemma search_set:
  assumes "agents_ok (an_store an)"
  shows "r \<in> set (search_capability an caps q ex now) \<longleftrightarrow> (\<exists>a x. agent_get (an_store an) a = Some x \<and> eligible caps q ex now x \<and> r = to_resolved x)"
proof -
  define xs where "xs = map snd (as_by_addr (an_store an))"
  have "x \<in> set xs \<longleftrightarrow> (\<exists>a. agent_get (an_store an) a = Some x)" for x
    using assms by (force simp: xs_def agent_get_def agents_ok_def dest: map_of_SomeD)
  moreover have "search_capability an caps q ex now = sort_key candidate_key (map to_resolved (filter (eligible caps q ex now) xs))"
    by (simp only: search_capability_def stored_list [OF assms] xs_def)
  ultimately show ?thesis by auto
qed

lemma distinct_filter_map: "distinct (map f xs) \<Longrightarrow> distinct (map f (filter P xs))"
  by (induction xs) auto

lemma search_distinct:
  assumes "agents_ok (an_store an)"
  shows "distinct (map ra_addr (search_capability an caps q ex now))"
proof -
  let ?xs = "filter (eligible caps q ex now) (map snd (as_by_addr (an_store an)))"
  have "mset (map ra_addr (sort_key f ys)) = mset (map ra_addr ys)" for f :: "resolved_agent \<Rightarrow> int \<times> int \<times> nat list" and ys by simp
  then have "mset (map ra_addr (search_capability an caps q ex now)) = mset (map ra_addr (map to_resolved ?xs))"
    by (simp only: search_capability_def stored_list [OF assms])
  also have "map ra_addr (map to_resolved ?xs) = map (\<lambda>x. cd_addr (ag_card x)) ?xs" by (simp add: to_resolved_def)
  finally have m: "mset (map ra_addr (search_capability an caps q ex now)) = mset (map (\<lambda>x. cd_addr (ag_card x)) ?xs)" .
  have "distinct (agent_addrs (an_store an))" using assms by (simp add: agents_ok_def agent_addrs_def)
  then have "distinct (map (\<lambda>x. cd_addr (ag_card x)) (map snd (as_by_addr (an_store an))))" by (simp only: stored_addrs [OF assms])
  then have "distinct (map (\<lambda>x. cd_addr (ag_card x)) ?xs)" by (rule distinct_filter_map)
  then show ?thesis using mset_eq_imp_distinct_iff [OF m] by blast
qed

lemma search_resolved:
  assumes "agents_ok (an_store an)" "r \<in> set (search_capability an caps q ex now)"
  shows "\<exists>x. agent_get (an_store an) (ra_addr r) = Some x \<and> eligible caps q ex now x \<and> r = to_resolved x"
proof -
  obtain a x where x: "agent_get (an_store an) a = Some x" "eligible caps q ex now x" "r = to_resolved x"
    using search_set [OF assms(1), THEN iffD1, OF assms(2)] by blast
  then have "ra_addr r = a" using agents_okD(1) [OF assms(1) x(1)] by (simp add: to_resolved_def)
  then show ?thesis using x by blast
qed

lemma canonical_inj:
  assumes "to_canonical_string a = to_canonical_string b" "addr_protocol a = PROTOCOL_MAGIC" "addr_protocol b = PROTOCOL_MAGIC"
  shows "a = b"
proof -
  have "from_canonical_str (to_canonical_string a) = Inr a" by (simp add: canonical_print_parse assms(2))
  moreover have "from_canonical_str (to_canonical_string b) = Inr b" by (simp add: canonical_print_parse assms(3))
  ultimately show ?thesis using assms(1) by (metis sum.inject(2))
qed

lemma key_inj:
  assumes "agents_ok (an_store an)"
  shows "inj_on candidate_key (set (search_capability an caps q ex now))"
proof
  fix r s assume rs: "r \<in> set (search_capability an caps q ex now)" "s \<in> set (search_capability an caps q ex now)"
    and k: "candidate_key r = candidate_key s"
  obtain x where x: "agent_get (an_store an) (ra_addr r) = Some x" "r = to_resolved x" using search_resolved [OF assms rs(1)] by auto
  obtain y where y: "agent_get (an_store an) (ra_addr s) = Some y" "s = to_resolved y" using search_resolved [OF assms rs(2)] by auto
  have "map unat (to_canonical_string (ra_addr r)) = map unat (to_canonical_string (ra_addr s))" using k by (simp add: candidate_key_def)
  then have "to_canonical_string (ra_addr r) = to_canonical_string (ra_addr s)"
    by (rule map_injective) (simp add: inj_def word_unat_eq_iff)
  then have "ra_addr r = ra_addr s" using canonical_inj agents_okD(3) [OF assms] x(1) y(1) by blast
  then show "r = s" using x y by simp
qed

lemma search_unique:
  assumes "agents_ok (an_store an)" "agents_ok (an_store an')" "agent_get (an_store an') = agent_get (an_store an)"
  shows "search_capability an' caps q ex now = search_capability an caps q ex now"
proof -
  let ?s = "search_capability an caps q ex now" and ?t = "search_capability an' caps q ex now"
  have "set ?t = set ?s" using search_set [OF assms(1)] search_set [OF assms(2)] assms(3) by auto
  moreover have "sorted (map candidate_key ?s)" "sorted (map candidate_key ?t)" by (simp_all add: search_capability_def)
  moreover have "distinct ?s" "distinct ?t"
    using search_distinct [OF assms(1)] search_distinct [OF assms(2)] by (simp_all add: distinct_map)
  ultimately show ?thesis using key_inj [OF assms(1)]
    by (intro map_sorted_distinct_set_unique [where f = candidate_key]) (simp_all add: distinct_map)
qed

section \<open>Plans\<close>

text \<open>Requests that leave the lease of an agent alone until the given time.\<close>

fun spares_lease :: "ipv8_address \<Rightarrow> u64 \<Rightarrow> u64 \<Rightarrow> ans_op \<Rightarrow> bool" where
  "spares_lease a pid limit (Enroll spec now) \<longleftrightarrow> now < limit \<and> (from_canonical_str (sp_addr_text spec) = Inr a \<longrightarrow> limit \<le> cd_not_after (sp_card spec))"
| "spares_lease a pid limit (Plan_Task task now) \<longleftrightarrow> now < limit"
| "spares_lease a pid limit (Done p b now) \<longleftrightarrow> \<not> (p = pid \<and> b = a)"
| "spares_lease a pid limit (Reap now) \<longleftrightarrow> now < limit"

definition holds_lease :: "agent_store \<Rightarrow> ipv8_address \<Rightarrow> u64 \<Rightarrow> u64 \<Rightarrow> bool" where
  "holds_lease st a pid limit \<longleftrightarrow> (\<exists>x expiry. agent_get st a = Some x \<and> ag_lease x = Some (pid, expiry) \<and> limit \<le> expiry
     \<and> limit \<le> cd_not_after (ag_card x))"

lemma leased_not_planned:
  assumes "plan_task task now an = (an', Inr p)" "agents_ok (an_store an)" "holds_lease (an_store an) a pid limit" "now < limit"
  shows "a \<notin> am_addr ` set (pl_assignments p)" "agent_get (an_store an') a = agent_get (an_store an) a"
proof -
  from plan_effect [OF assms(1)] obtain cs out st where p:
    "cs = take (td_min_count task) (search_capability an (td_required_caps task) (td_qos_level task) True now)"
    "assign (an_next_plan_id an) (sat_add64 now (lease_secs (td_timeout_ms task))) 0 cs (an_store an) = (st, out)"
    "pl_assignments p = out" "an_store an' = st" by auto
  have "a \<notin> ra_addr ` set cs"
  proof
    assume "a \<in> ra_addr ` set cs"
    then obtain r where r: "r \<in> set cs" "ra_addr r = a" by blast
    have "r \<in> set (search_capability an (td_required_caps task) (td_qos_level task) True now)" using r(1) p(1) by (blast dest: in_set_takeD)
    from search_resolved [OF assms(2) this] have "\<exists>x. agent_get (an_store an) a = Some x \<and> \<not> agent_leased x now"
      by (auto simp: eligible_def r(2))
    then show False using assms(3,4) by (auto simp: holds_lease_def agent_leased_def)
  qed
  moreover have "am_addr ` set out = ra_addr ` set cs" using assign_effect(3) [OF p(2)] by (metis set_map)
  ultimately show "a \<notin> am_addr ` set (pl_assignments p)" "agent_get (an_store an') a = agent_get (an_store an) a"
    using assign_effect(2) [OF p(2), of a] p(3,4) by auto
qed

lemma holds_step:
  assumes "holds_lease (an_store an) a pid limit" "agents_ok (an_store an)" "spares_lease a pid limit c"
  shows "holds_lease (an_store (ans_step ed sha256 c an)) a pid limit"
proof -
  obtain x expiry where x: "agent_get (an_store an) a = Some x" "ag_lease x = Some (pid, expiry)" "limit \<le> expiry"
    "limit \<le> cd_not_after (ag_card x)" using assms(1) by (auto simp: holds_lease_def)
  have alive: "\<not> agent_expired x now" "\<not> lapsed now x" if "now < limit" for now
    using that x(2-4) by (auto simp: agent_expired_def lapsed_def)
  show ?thesis
  proof (cases c)
    case (Enroll spec now)
    obtain an' r where e: "ans_register ed sha256 spec now an = (an', r)" by (metis surj_pair)
    have now: "now < limit" using assms(3) by (simp add: Enroll)
    have kept: "agent_get st a = Some x" if "claim_name name addr now (an_store an) = Inr st" for name addr st
      using claim_name_ok(4) [OF that assms(2) x(1)] alive(1) [OF now] by blast
    show ?thesis
    proof (cases r)
      case (Inl err)
      with enrol_effect [OF e assms(2)] have "agent_get (an_store an') a = Some x" using x(1) kept by fastforce
      then show ?thesis using e x(2-4) by (simp add: Enroll holds_lease_def)
    next
      case (Inr h)
      with enrol_effect [OF e assms(2)] obtain addr pubkey st z where r: "check_card sha256 an spec now = Inr (addr, h)"
        "claim_name (cd_name (sp_card spec)) addr now (an_store an) = Inr st"
        "enrolled sha256 spec pubkey (Option.bind (agent_get (an_store an) addr) ag_lease) z"
        "an' = an\<lparr> an_store := agent_put addr z st \<rparr>" by auto
      show ?thesis
      proof (cases "addr = a")
        case True
        then have "ag_lease z = Some (pid, expiry)" "ag_card z = sp_card spec" using r(3) x(1,2) by (simp_all add: enrolled_def)
        moreover have "limit \<le> cd_not_after (sp_card spec)" using assms(3) check_cardD(1) [OF r(1)] True by (simp add: Enroll)
        ultimately show ?thesis using e r(4) x(3) True by (simp add: Enroll holds_lease_def)
      next
        case False
        then show ?thesis using e r(4) kept [OF r(2)] x by (simp add: Enroll holds_lease_def)
      qed
    qed
  next
    case (Plan_Task task now)
    obtain an' r where p: "plan_task task now an = (an', r)" by (metis surj_pair)
    have "agent_get (an_store an') a = Some x"
    proof (cases r)
      case (Inl err)
      then show ?thesis using plan_effect [OF p] x(1) by auto
    next
      case (Inr q)
      then show ?thesis using leased_not_planned(2) [of task now an an' q a pid limit] p assms x(1) by (simp add: Plan_Task)
    qed
    then show ?thesis using p x(2-4) by (simp add: Plan_Task holds_lease_def)
  next
    case (Done plan_id addr now)
    obtain an' r where d: "report_done plan_id addr now an = (an', r)" by (metis surj_pair)
    have "agent_get (an_store an') a = Some x" using done_effect [OF d] x(1,2) assms(3) by (auto simp: Done)
    then show ?thesis using d x(2-4) by (simp add: Done holds_lease_def)
  next
    case (Reap now)
    obtain an' n m where r: "ans_reap now an = (an', n, m)" by (metis prod_cases3)
    have now: "now < limit" using assms(3) by (simp add: Reap)
    have "agent_get (an_store an') a = Some x" using reap_effect(1) [OF r assms(2), of a] x(1) alive [OF now] by (simp add: released_def)
    then show ?thesis using r x(2-4) by (simp add: Reap holds_lease_def)
  qed
qed

lemma holds_run:
  "holds_lease (an_store an) a pid limit \<Longrightarrow> agents_ok (an_store an) \<Longrightarrow> list_all (spares_lease a pid limit) mid
    \<Longrightarrow> holds_lease (an_store (ans_run ed sha256 mid an)) a pid limit \<and> agents_ok (an_store (ans_run ed sha256 mid an))"
proof (induction mid arbitrary: an)
  case (Cons c mid)
  then show ?case using Cons.IH [OF holds_step step_ok] by simp
qed simp

lemma plan_assigned:
  assumes "plan_task task now an = (an', Inr p)" "agents_ok (an_store an)" "m \<in> set (pl_assignments p)"
  shows "\<exists>x. agent_get (an_store an) (am_addr m) = Some x \<and> eligible (td_required_caps task) (td_qos_level task) True now x
    \<and> agent_get (an_store an') (am_addr m) = Some (x\<lparr> ag_lease := Some (pl_plan_id p, am_lease_expiry m) \<rparr>)
    \<and> am_lease_expiry m = sat_add64 now (lease_secs (td_timeout_ms task))" "agents_ok (an_store an')"
proof -
  from plan_effect [OF assms(1)] obtain cs out st where p:
    "cs = take (td_min_count task) (search_capability an (td_required_caps task) (td_qos_level task) True now)"
    "assign (an_next_plan_id an) (sat_add64 now (lease_secs (td_timeout_ms task))) 0 cs (an_store an) = (st, out)"
    "pl_assignments p = out" "an_store an' = st" "pl_plan_id p = an_next_plan_id an" by auto
  note e = assign_effect [OF p(2)]
  have "am_addr m \<in> ra_addr ` set cs" using e(3) assms(3) p(3) by (metis imageI set_map)
  then obtain r where r: "r \<in> set cs" "ra_addr r = am_addr m" by auto
  have "r \<in> set (search_capability an (td_required_caps task) (td_qos_level task) True now)" using r(1) p(1) by (blast dest: in_set_takeD)
  from search_resolved [OF assms(2) this] obtain x where x: "agent_get (an_store an) (am_addr m) = Some x"
    "eligible (td_required_caps task) (td_qos_level task) True now x" using r(2) by auto
  moreover have "am_lease_expiry m = sat_add64 now (lease_secs (td_timeout_ms task))" using e(5) assms(3) p(3) by (simp add: list_all_iff)
  moreover have "agent_get (an_store an') (am_addr m) = Some (x\<lparr> ag_lease := Some (pl_plan_id p, am_lease_expiry m) \<rparr>)"
    using e(2) [of "am_addr m"] r x(1) p(4,5) calculation(3) by (auto simp: image_iff)
  ultimately show "\<exists>x. agent_get (an_store an) (am_addr m) = Some x \<and> eligible (td_required_caps task) (td_qos_level task) True now x
    \<and> agent_get (an_store an') (am_addr m) = Some (x\<lparr> ag_lease := Some (pl_plan_id p, am_lease_expiry m) \<rparr>)
    \<and> am_lease_expiry m = sat_add64 now (lease_secs (td_timeout_ms task))" by blast
  show "agents_ok (an_store an')" using e(6) assms(2) p(4) by simp
qed

section \<open>Two agents\<close>

definition sha_const :: "bytes \<Rightarrow> bytes" where
  "sha_const b = replicate 32 0"

definition sample_addr :: "u16 \<Rightarrow> ipv8_address" where
  "sample_addr n = addr_with_region 1 1 0 n 0"

definition sample_card :: "u16 \<Rightarrow> bytes \<Rightarrow> agent_card" where
  "sample_card n name = \<lparr> cd_version = 1, cd_name = name, cd_addr = sample_addr n, cd_capabilities = [[0x6F]], cd_endpoints = [],
     cd_qos_hint = 3, cd_not_after = 9000, cd_tunnel_entry = [0x31] \<rparr>"

definition sample_enrol :: "u16 \<Rightarrow> bytes \<Rightarrow> ans_spec" where
  "sample_enrol n name = \<lparr> sp_addr_text = to_canonical_string (sample_addr n),
     sp_cert_wire = to_bytes (sample_addr n) @ replicate 32 7 @ to_be64 (- 1) @ replicate 64 1, sp_card = sample_card n name,
     sp_card_sig = replicate 64 9, sp_pop = replicate 64 9 \<rparr>"

definition sample_ans :: ans where
  "sample_ans = ans_run toy_ed sha_const [Enroll (sample_enrol 1 [97]) 5, Enroll (sample_enrol 2 [98]) 5] (ans_new [] [])"

definition sample_task :: task_description where
  "sample_task = \<lparr> td_required_caps = [[0x6F]], td_min_count = 1, td_qos_level = 0, td_timeout_ms = 2500 \<rparr>"

lemma sample_addr_parse: "from_canonical_str (to_canonical_string (sample_addr n)) = Inr (sample_addr n)"
  by (simp add: canonical_print_parse sample_addr_def addr_with_region_def const_defs)

lemma empty_get: "agent_get \<lparr> as_by_addr = [], as_by_name = f \<rparr> a = None"
  by (simp add: agent_get_def)

lemma sample_addr_inj: "sample_addr m = sample_addr n \<longleftrightarrow> m = n"
  by (auto simp: sample_addr_def addr_with_region_def)

lemma sample_checks:
  assumes "an_namespace_root an = []" "name \<noteq> []" "length name \<le> 255" "now < 9000"
  shows "\<exists>h. check_card sha_const an (sample_enrol n name) now = Inr (sample_addr n, h)
    \<and> check_proofs toy_ed an (sample_enrol n name) (sample_addr n) h now = Inr (replicate 32 7)
    \<and> card_hash sha_const (sample_card n name) = Inr h"
proof -
  have tags: "validate_tags [[0x6F]] = Inr ()"
    by (simp add: validate_tags_def tags_encode_def check_tag_def tag_char_def Let_def const_defs)
  obtain h where h: "card_hash sha_const (sample_card n name) = Inr h"
    using assms(3) by (simp add: card_hash_def canonical_bytes_def push_u8_str_def push_u8_strs_def sample_card_def)
  have cert: "cert_pubkey_from_wire (sp_cert_wire (sample_enrol n name)) = Some (replicate 32 7)"
    "cert_binding_ok toy_ed anchor (sp_cert_wire (sample_enrol n name)) (sample_addr n) (replicate 32 7) now" for anchor
    by (simp_all add: cert_pubkey_from_wire_def sample_enrol_def cert_binding_ok_def toy_ed_def slice_append_left slice_append_skip slice_full Let_def)
  have "check_card sha_const an (sample_enrol n name) now = Inr (sample_addr n, h)"
    using h tags assms by (simp add: check_card_def sample_enrol_def sample_card_def sample_addr_parse check_name_def const_defs)
  moreover have "check_proofs toy_ed an (sample_enrol n name) (sample_addr n) h now = Inr (replicate 32 7)"
    by (simp add: check_proofs_def cert) (simp add: toy_ed_def sample_enrol_def)
  ultimately show ?thesis using h by blast
qed

lemma sample_enrolled:
  assumes "an_namespace_root an = []" "name \<noteq> []" "length name \<le> 255" "now < 9000"
    and "as_by_name (an_store an) name = None" "\<forall>cur. agent_get (an_store an) (sample_addr n) = Some cur \<longrightarrow> ag_ed_pub cur = replicate 32 7"
  shows "\<exists>h x. ans_register toy_ed sha_const (sample_enrol n name) now an = (an\<lparr> an_store := agent_put (sample_addr n) x (an_store an) \<rparr>, Inr h)
    \<and> ag_card x = sample_card n name \<and> ag_name x = name \<and> ag_lease x = Option.bind (agent_get (an_store an) (sample_addr n)) ag_lease
    \<and> ag_ed_pub x = replicate 32 7"
proof -
  obtain h where "check_card sha_const an (sample_enrol n name) now = Inr (sample_addr n, h)"
    "check_proofs toy_ed an (sample_enrol n name) (sample_addr n) h now = Inr (replicate 32 7)" "card_hash sha_const (sample_card n name) = Inr h"
    using sample_checks [OF assms(1-4)] by blast
  moreover have "sp_card (sample_enrol n name) = sample_card n name" "cd_name (sample_card n name) = name"
    by (simp_all add: sample_enrol_def sample_card_def)
  moreover have "\<not> (case agent_get (an_store an) (sample_addr n) of Some cur \<Rightarrow> ag_ed_pub cur \<noteq> replicate 32 7 | None \<Rightarrow> False)"
    using assms(6) by (auto split: option.split)
  ultimately show ?thesis using assms(5)
    by (auto simp: ans_register_def claim_name_def card_summary_def Let_def)
qed

lemma sample_agents:
  "\<exists>x y. an_store sample_ans = agent_put (sample_addr 2) y (agent_put (sample_addr 1) x \<lparr> as_by_addr = [], as_by_name = Map.empty \<rparr>)
    \<and> an_namespace_root sample_ans = []
    \<and> ag_card x = sample_card 1 [97] \<and> ag_name x = [97] \<and> ag_lease x = None \<and> ag_ed_pub x = replicate 32 7
    \<and> ag_card y = sample_card 2 [98] \<and> ag_name y = [98] \<and> ag_lease y = None \<and> ag_ed_pub y = replicate 32 7"
proof -
  let ?a0 = "ans_new [] []"
  obtain h x where x: "ans_register toy_ed sha_const (sample_enrol 1 [97]) 5 ?a0 = (?a0\<lparr> an_store := agent_put (sample_addr 1) x (an_store ?a0) \<rparr>, Inr h)"
    "ag_card x = sample_card 1 [97]" "ag_name x = [97]" "ag_lease x = None" "ag_ed_pub x = replicate 32 7"
    using sample_enrolled [of ?a0 "[97]" 5 1] by (auto simp: ans_new_def agent_get_def)
  let ?a1 = "?a0\<lparr> an_store := agent_put (sample_addr 1) x (an_store ?a0) \<rparr>"
  have g: "agent_get (an_store ?a1) (sample_addr 2) = None" by (simp add: sample_addr_inj) (simp add: ans_new_def agent_get_def)
  have "as_by_name (an_store ?a1) [98] = None" using x(3) by (simp add: ans_new_def)
  then obtain h' y where y: "ans_register toy_ed sha_const (sample_enrol 2 [98]) 5 ?a1 = (?a1\<lparr> an_store := agent_put (sample_addr 2) y (an_store ?a1) \<rparr>, Inr h')"
    "ag_card y = sample_card 2 [98]" "ag_name y = [98]" "ag_lease y = None" "ag_ed_pub y = replicate 32 7"
    using sample_enrolled [of ?a1 "[98]" 5 2] g by (auto simp: ans_new_def)
  have s: "sample_ans = ?a1\<lparr> an_store := agent_put (sample_addr 2) y (an_store ?a1) \<rparr>" by (simp add: sample_ans_def x(1) y(1))
  show ?thesis using x(2-5) y(2-5) by - (rule exI [of _ x], rule exI [of _ y], simp add: s ans_new_def)
qed

lemma plan_one:
  assumes "validate_tags (td_required_caps task) = Inr ()" "td_min_count task = 1" "agents_ok (an_store an)"
    and "agent_get (an_store an) a = Some x" "eligible (td_required_caps task) (td_qos_level task) True now x"
  shows "\<exists>an' p. plan_task task now an = (an', Inr p) \<and> (\<exists>m. pl_assignments p = [m])"
proof -
  let ?s = "search_capability an (td_required_caps task) (td_qos_level task) True now"
  have "to_resolved x \<in> set ?s" using search_set [OF assms(3)] assms(4,5) by blast
  then obtain c cs where s: "?s = c # cs" by (cases ?s) auto
  then show ?thesis using assms(1,2) by (simp add: plan_task_def Let_def split: prod.split)
qed

section \<open>Properties\<close>

text \<open>
  C25. Every agent is proved: whatever requests the service has served, an agent in its table was enrolled at its address
  with an unexpired card, a certificate by which the trust anchor bound its key to that address, and two signatures under
  that key, one over the hash of the card and one over name, address and the same hash; the hash is the first 16 bytes of the
  SHA-256 of the card's bytes, which are the bytes of no other card; and its name lies in the configured namespace.
\<close>

theorem agents_proved:
  assumes "agent_get (an_store (ans_run ed sha256 ops (ans_new anchor root))) a = Some x"
  shows "\<exists>spec now b. Enroll spec now \<in> set ops \<and> from_canonical_str (sp_addr_text spec) = Inr a \<and> ag_card x = sp_card spec
    \<and> now < cd_not_after (ag_card x) \<and> cert_binding_ok ed anchor (sp_cert_wire spec) a (ag_ed_pub x) now
    \<and> canonical_bytes (ag_card x) = Inr b \<and> (\<forall>c. canonical_bytes c = Inr b \<longrightarrow> c = ag_card x)
    \<and> ed_verify ed (ag_ed_pub x) (agent_card_message CARD_VERSION (take 16 (sha256 b)) (cd_not_after (ag_card x)) (ag_ed_pub x)) (sp_card_sig spec)
    \<and> ed_verify ed (ag_ed_pub x) (ans_pop_message (ag_name x) (sp_addr_text spec) (take 16 (sha256 b))) (sp_pop spec)
    \<and> ends_with (ag_name x) root"
  using run_proved [OF assms] canonical_bytes_inj unfolding proved_by_def by metis

lemma agents_proved_witness:
  "\<exists>x spec now. agent_get (an_store sample_ans) (sample_addr 2) = Some x \<and> ag_card x = sp_card spec
    \<and> Enroll spec now \<in> set [Enroll (sample_enrol 1 [97]) 5, Enroll (sample_enrol 2 [98]) 5]"
proof -
  obtain y where y: "agent_get (an_store sample_ans) (sample_addr 2) = Some y" using sample_agents by auto
  from agents_proved [OF this [unfolded sample_ans_def]] y show ?thesis by blast
qed

text \<open>
  Names are one to one: whatever requests the service has served, no two agents share a name, and the name of an agent
  resolves to that agent until its card expires, and to nothing from then on.
\<close>

theorem names_resolve:
  assumes "an = ans_run ed sha256 ops (ans_new anchor root)" "agent_get (an_store an) a = Some x"
  shows "resolve_name an (ag_name x) now = (if cd_not_after (ag_card x) \<le> now then Inl Ans_NotFound else Inr (to_resolved x))
    \<and> ra_addr (to_resolved x) = a \<and> (\<forall>b y. agent_get (an_store an) b = Some y \<longrightarrow> ag_name y = ag_name x \<longrightarrow> b = a)"
proof -
  have ok: "agents_ok (an_store an)" unfolding assms(1) by (rule run_ok)
  note d = agents_okD [OF ok assms(2)]
  have "resolve_name an (ag_name x) now = (if cd_not_after (ag_card x) \<le> now then Inl Ans_NotFound else Inr (to_resolved x))"
    using d(4) assms(2) by (simp add: resolve_name_def resolve_addr_def agent_expired_def)
  moreover have "ra_addr (to_resolved x) = a" using d(1) by (simp add: to_resolved_def)
  ultimately show ?thesis using agents_unique [OF ok _ assms(2)] by blast
qed

lemma names_resolve_witness:
  "\<exists>r. resolve_name sample_ans [98] 60 = Inr r \<and> ra_addr r = sample_addr 2"
proof -
  obtain y where y: "agent_get (an_store sample_ans) (sample_addr 2) = Some y" "ag_name y = [98]" "ag_card y = sample_card 2 [98]"
    using sample_agents by auto
  from names_resolve [OF sample_ans_def y(1), of 60] y(2,3) show ?thesis by (simp add: sample_card_def)
qed

text \<open>
  C29. The search is exact: it returns the live agents that cover the required tags, reach the quality and, on request,
  are not leased, each once, in the order of quality, remaining lifetime and address; so the answer does not depend on the
  order in which the table is walked.
\<close>

theorem search_exact:
  assumes "an = ans_run ed sha256 ops (ans_new anchor root)" "out = search_capability an caps min_qos exclude_leased now"
  shows "set out = {to_resolved x | a x. agent_get (an_store an) a = Some x \<and> eligible caps min_qos exclude_leased now x}
    \<and> distinct (map ra_addr out) \<and> sorted (map candidate_key out)
    \<and> (\<forall>perm. mset perm = mset (as_by_addr (an_store an)) \<longrightarrow>
        search_capability (an\<lparr> an_store := (an_store an)\<lparr> as_by_addr := perm \<rparr> \<rparr>) caps min_qos exclude_leased now = out)"
proof -
  have ok: "agents_ok (an_store an)" unfolding assms(1) by (rule run_ok)
  have "set out = {to_resolved x | a x. agent_get (an_store an) a = Some x \<and> eligible caps min_qos exclude_leased now x}"
    unfolding assms(2) using search_set [OF ok] by blast
  moreover have "sorted (map candidate_key out)" by (simp add: assms(2) search_capability_def)
  moreover have "distinct (map ra_addr out)" unfolding assms(2) by (rule search_distinct [OF ok])
  moreover have "search_capability (an\<lparr> an_store := (an_store an)\<lparr> as_by_addr := perm \<rparr> \<rparr>) caps min_qos exclude_leased now = out"
    if p: "mset perm = mset (as_by_addr (an_store an))" for perm
  proof -
    have d: "distinct (map fst (as_by_addr (an_store an)))" using ok by (simp add: agents_ok_def)
    have "mset (map fst perm) = mset (map fst (as_by_addr (an_store an)))" using p by simp
    then have d': "distinct (map fst perm)" using d mset_eq_imp_distinct_iff by blast
    have "map_of perm = map_of (as_by_addr (an_store an))" using map_of_inject_set [OF d' d] mset_eq_setD [OF p] by blast
    then have g: "agent_get ((an_store an)\<lparr> as_by_addr := perm \<rparr>) = agent_get (an_store an)" by (simp add: agent_get_def fun_eq_iff)
    then have "agents_ok ((an_store an)\<lparr> as_by_addr := perm \<rparr>)" using ok d' by (simp add: agents_ok_def)
    then show ?thesis unfolding assms(2) using g by (intro search_unique [OF ok]) simp_all
  qed
  ultimately show ?thesis by blast
qed

lemma search_exact_witness:
  "\<exists>r \<in> set (search_capability sample_ans [[0x6F]] 2 True 6). ra_addr r = sample_addr 2"
proof -
  obtain y where y: "agent_get (an_store sample_ans) (sample_addr 2) = Some y" "ag_lease y = None" "ag_card y = sample_card 2 [98]"
    using sample_agents by auto
  have "eligible [[0x6F]] 2 True 6 y" by (simp add: eligible_def agent_expired_def agent_leased_def covers_def y sample_card_def)
  then have "to_resolved y \<in> set (search_capability sample_ans [[0x6F]] 2 True 6)"
    using search_exact [OF sample_ans_def refl, of "[[0x6F]]" 2 True 6] y(1) by blast
  then show ?thesis by (rule rev_bexI) (simp add: to_resolved_def y(3) sample_card_def)
qed

text \<open>
  A plan takes the best: a successful plan assigns, as shards 0, 1 and so on, as many different agents as the task
  asks for; each was live, unleased, and covers the tags; no agent left out that could have served comes before an
  assigned one; each assigned agent is leased to this plan for at least one second and at most an hour, and no other
  agent changes.
\<close>

theorem plan_takes_best:
  assumes "an = ans_run ed sha256 ops (ans_new anchor root)" "plan_task task now an = (an', Inr p)"
  shows "length (pl_assignments p) = td_min_count task \<and> map am_shard_id (pl_assignments p) = [0..<td_min_count task]
    \<and> distinct (map am_addr (pl_assignments p))
    \<and> (\<forall>m \<in> set (pl_assignments p). \<exists>x. agent_get (an_store an) (am_addr m) = Some x
        \<and> eligible (td_required_caps task) (td_qos_level task) True now x
        \<and> agent_get (an_store an') (am_addr m) = Some (x\<lparr> ag_lease := Some (pl_plan_id p, am_lease_expiry m) \<rparr>)
        \<and> am_lease_expiry m = sat_add64 now (lease_secs (td_timeout_ms task))
        \<and> (\<forall>b y. agent_get (an_store an) b = Some y \<longrightarrow> eligible (td_required_caps task) (td_qos_level task) True now y \<longrightarrow>
            b \<notin> am_addr ` set (pl_assignments p) \<longrightarrow> candidate_key (to_resolved x) \<le> candidate_key (to_resolved y)))
    \<and> (\<forall>b. b \<notin> am_addr ` set (pl_assignments p) \<longrightarrow> agent_get (an_store an') b = agent_get (an_store an) b)
    \<and> 1 \<le> lease_secs (td_timeout_ms task) \<and> lease_secs (td_timeout_ms task) \<le> 3600"
proof -
  have ok: "agents_ok (an_store an)" unfolding assms(1) by (rule run_ok)
  let ?s = "search_capability an (td_required_caps task) (td_qos_level task) True now"
  from plan_effect [OF assms(2)] obtain cs out st where p: "cs = take (td_min_count task) ?s" "length cs = td_min_count task"
    "assign (an_next_plan_id an) (sat_add64 now (lease_secs (td_timeout_ms task))) 0 cs (an_store an) = (st, out)"
    "pl_assignments p = out" "an_store an' = st" by auto
  note e = assign_effect [OF p(3)]
  have addrs: "map am_addr (pl_assignments p) = map ra_addr cs" using e(3) p(4) by simp
  then have set: "am_addr ` set (pl_assignments p) = ra_addr ` set cs" by (metis set_map)
  have best: "candidate_key (to_resolved x) \<le> candidate_key (to_resolved y)"
    if m: "m \<in> set (pl_assignments p)" "agent_get (an_store an) (am_addr m) = Some x" and y: "agent_get (an_store an) b = Some y"
      "eligible (td_required_caps task) (td_qos_level task) True now y" "b \<notin> am_addr ` set (pl_assignments p)" for m x b y
  proof -
    have "to_resolved y \<in> set ?s" using y search_set [OF ok] by blast
    moreover have "ra_addr (to_resolved y) = b" using agents_okD(1) [OF ok y(1)] by (simp add: to_resolved_def)
    ultimately have r: "to_resolved y \<in> set (drop (td_min_count task) ?s)"
      using y(3) unfolding set p(1) by (metis UnE append_take_drop_id imageI set_append)
    obtain c where c: "c \<in> set cs" "ra_addr c = am_addr m" using m(1) set by (metis imageE imageI)
    then have "c \<in> set ?s" unfolding p(1) by (blast dest: in_set_takeD)
    then have "c = to_resolved x" using search_resolved [OF ok] c(2) m(2) by fastforce
    moreover have "sorted (map candidate_key (take (td_min_count task) ?s @ drop (td_min_count task) ?s))"
      by (simp add: search_capability_def)
    ultimately show ?thesis using c(1) r unfolding p(1) map_append sorted_append by auto
  qed
  have "length (pl_assignments p) = td_min_count task" using addrs p(2) by (metis length_map)
  moreover have "map am_shard_id (pl_assignments p) = [0..<td_min_count task]" using e(4) p(2,4) by simp
  moreover have "distinct (map am_addr (pl_assignments p))"
    using search_distinct [OF ok] unfolding addrs p(1) by (metis distinct_take take_map)
  moreover have "\<forall>b. b \<notin> am_addr ` set (pl_assignments p) \<longrightarrow> agent_get (an_store an') b = agent_get (an_store an) b"
    using e(2) unfolding set p(5) by simp
  moreover have "1 \<le> lease_secs (td_timeout_ms task)" "lease_secs (td_timeout_ms task) \<le> 3600"
    by (simp_all add: lease_secs_def const_defs)
  ultimately show ?thesis using plan_assigned(1) [OF assms(2) ok] best by metis
qed

lemma sample_tags: "validate_tags (td_required_caps sample_task) = Inr ()"
  by (simp add: sample_task_def validate_tags_def tags_encode_def check_tag_def tag_char_def Let_def const_defs)

lemma sample_ok: "agents_ok (an_store sample_ans)"
  unfolding sample_ans_def by (rule run_ok)

lemma sample_plan:
  "\<exists>an' p m. plan_task sample_task 6 sample_ans = (an', Inr p) \<and> pl_assignments p = [m]"
proof -
  obtain y where y: "agent_get (an_store sample_ans) (sample_addr 2) = Some y" "ag_lease y = None" "ag_card y = sample_card 2 [98]"
    using sample_agents by auto
  have "eligible (td_required_caps sample_task) (td_qos_level sample_task) True 6 y"
    by (simp add: eligible_def agent_expired_def agent_leased_def covers_def y sample_card_def sample_task_def)
  from plan_one [OF sample_tags _ sample_ok y(1) this] show ?thesis by (auto simp: sample_task_def)
qed

lemma plan_takes_best_witness:
  "\<exists>an' p m. plan_task sample_task 6 sample_ans = (an', Inr p) \<and> pl_assignments p = [m] \<and> am_shard_id m = 0 \<and> am_lease_expiry m = 9"
proof -
  obtain an' p m where p: "plan_task sample_task 6 sample_ans = (an', Inr p)" "pl_assignments p = [m]" using sample_plan by blast
  have "sat_add64 6 (lease_secs 2500) = (9 :: u64)" by (simp add: lease_secs_def sat_add64_def const_defs)
  then show ?thesis using plan_takes_best [OF sample_ans_def p(1)] p by (auto simp: sample_task_def)
qed

text \<open>
  C24. Leases are exclusive: once a plan has assigned an agent, and until the lease or the card of the agent ends, no other
  plan gets the agent, whatever requests come in between, other enrolments and the renewal of the agent's card included,
  unless the plan itself reports the agent done.
\<close>

theorem leases_exclusive:
  assumes "an = ans_run ed sha256 ops (ans_new anchor root)" "plan_task task now an = (an1, Inr p)" "m \<in> set (pl_assignments p)"
    and "agent_get (an_store an) (am_addr m) = Some x" "limit \<le> am_lease_expiry m" "limit \<le> cd_not_after (ag_card x)"
    and "list_all (spares_lease (am_addr m) (pl_plan_id p) limit) mid" "an2 = ans_run ed sha256 mid an1"
    and "plan_task task' t an2 = (an3, Inr p')" "t < limit"
  shows "am_addr m \<notin> am_addr ` set (pl_assignments p')"
proof -
  have ok: "agents_ok (an_store an)" unfolding assms(1) by (rule run_ok)
  from plan_assigned [OF assms(2) ok assms(3)] assms(4) have
    "agent_get (an_store an1) (am_addr m) = Some (x\<lparr> ag_lease := Some (pl_plan_id p, am_lease_expiry m) \<rparr>)" "agents_ok (an_store an1)" by auto
  then have "holds_lease (an_store an1) (am_addr m) (pl_plan_id p) limit" "agents_ok (an_store an1)"
    using assms(5,6) by (simp_all add: holds_lease_def)
  from holds_run [OF this assms(7)] have "agents_ok (an_store an2)" "holds_lease (an_store an2) (am_addr m) (pl_plan_id p) limit"
    unfolding assms(8) by blast+
  then show ?thesis by (rule leased_not_planned(1) [OF assms(9) _ _ assms(10)])
qed

lemma leases_exclusive_witness:
  "\<exists>p p' m m' an1 an3. plan_task sample_task 6 sample_ans = (an1, Inr p) \<and> pl_assignments p = [m]
    \<and> plan_task sample_task 7 (ans_run toy_ed sha_const [Reap 7] an1) = (an3, Inr p') \<and> pl_assignments p' = [m'] \<and> am_addr m \<noteq> am_addr m'"
proof -
  obtain an1 p m where p: "plan_task sample_task 6 sample_ans = (an1, Inr p)" "pl_assignments p = [m]" using sample_plan by blast
  have m: "m \<in> set (pl_assignments p)" by (simp add: p(2))
  let ?an2 = "ans_run toy_ed sha_const [Reap 7] an1"
  obtain x y where xy: "an_store sample_ans = agent_put (sample_addr 2) y (agent_put (sample_addr 1) x \<lparr> as_by_addr = [], as_by_name = Map.empty \<rparr>)"
    "ag_card x = sample_card 1 [97]" "ag_lease x = None" "ag_card y = sample_card 2 [98]" "ag_lease y = None" using sample_agents by blast
  have nine: "sat_add64 6 (lease_secs 2500) = (9 :: u64)" by (simp add: lease_secs_def sat_add64_def const_defs)
  from plan_assigned [OF p(1) sample_ok m] obtain z where z: "agent_get (an_store sample_ans) (am_addr m) = Some z" "am_lease_expiry m = 9"
    and ok1: "agents_ok (an_store an1)" using nine by (auto simp: sample_task_def)
  have "agent_get (an_store sample_ans) a = Some w \<Longrightarrow> cd_not_after (ag_card w) = 9000" for a w
    using xy by (auto simp: empty_get sample_card_def split: if_splits)
  note na = this [OF z(1)]
  obtain b w where b: "b \<noteq> am_addr m" "agent_get (an_store sample_ans) b = Some w" "ag_lease w = None" "\<exists>n name. ag_card w = sample_card n name"
  proof (cases "am_addr m = sample_addr 1")
    case True
    then have "sample_addr 2 \<noteq> am_addr m" by (simp add: sample_addr_inj)
    then show ?thesis using xy by (intro that [of "sample_addr 2" y]) auto
  next
    case False
    then show ?thesis using xy by (intro that [of "sample_addr 1" x]) (auto simp: sample_addr_inj)
  qed
  have "b \<notin> am_addr ` set (pl_assignments p)" using b(1) p(2) by simp
  have "agent_get (an_store an1) b = Some w"
  proof -
    from plan_effect [OF p(1)] obtain cs out st where e: "assign (an_next_plan_id sample_ans) (sat_add64 6 (lease_secs (td_timeout_ms sample_task))) 0 cs (an_store sample_ans) = (st, out)"
      "pl_assignments p = out" "an_store an1 = st" by auto
    have "b \<notin> ra_addr ` set cs" using assign_effect(3) [OF e(1)] p(2) e(2) b(1) by auto
    then show ?thesis using assign_effect(2) [OF e(1), of b] e(3) b(2) by simp
  qed
  moreover obtain an2 n k where r: "ans_reap 7 an1 = (an2, n, k)" by (metis prod_cases3)
  ultimately have w: "agent_get (an_store ?an2) b = Some w" "agents_ok (an_store ?an2)"
    using reap_effect(1) [OF r ok1, of b] reap_effect(2) [OF r ok1] b(3,4)
    by (auto simp: agent_expired_def sample_card_def released_def lapsed_def)
  have "eligible (td_required_caps sample_task) (td_qos_level sample_task) True 7 w"
    using b(3,4) by (auto simp: eligible_def agent_expired_def agent_leased_def covers_def sample_card_def sample_task_def)
  from plan_one [OF sample_tags _ w(2,1) this] obtain an3 p' m' where p': "plan_task sample_task 7 ?an2 = (an3, Inr p')" "pl_assignments p' = [m']"
    by (auto simp: sample_task_def)
  have "am_addr m \<notin> am_addr ` set (pl_assignments p')"
    by (rule leases_exclusive [OF sample_ans_def p(1) m z(1) _ _ _ refl p'(1), of 9]) (simp_all add: z(2) na)
  then show ?thesis using p p' by auto
qed

text \<open>
  A given-up name is not free: when an agent enrols again under another name, its old name goes on resolving to it,
  now with the new name in the answer, and another host with every proof in order is refused the old name as taken.
\<close>

theorem old_name_kept:
  assumes "an = ans_run ed sha256 ops (ans_new anchor root)" "agent_get (an_store an) a = Some x"
    and "ans_register ed sha256 spec now an = (an', Inr h)" "from_canonical_str (sp_addr_text spec) = Inr a"
    and "cd_name (sp_card spec) \<noteq> ag_name x" "t < cd_not_after (sp_card spec)"
    and "check_card sha256 an' other t = Inr (b, h')" "check_proofs ed an' other b h' t = Inr k"
    and "cd_name (sp_card other) = ag_name x" "b \<noteq> a"
  shows "(\<exists>r. resolve_name an' (ag_name x) t = Inr r \<and> ra_addr r = a \<and> ra_name r = cd_name (sp_card spec))
    \<and> ans_register ed sha256 other t an' = (an', Inl Ans_NameConflict)"
proof -
  have ok: "agents_ok (an_store an)" unfolding assms(1) by (rule run_ok)
  from enrol_effect [OF assms(3) ok] obtain pubkey st z where r: "check_card sha256 an spec now = Inr (a, h)"
    "claim_name (cd_name (sp_card spec)) a now (an_store an) = Inr st"
    "enrolled sha256 spec pubkey (Option.bind (agent_get (an_store an) a) ag_lease) z" "an' = an\<lparr> an_store := agent_put a z st \<rparr>"
    using check_cardD(1) assms(4) by fastforce
  have "agent_get st a = Some x" using claim_name_ok(4) [OF r(2) ok assms(2)] by blast
  then have "as_by_name st (ag_name x) = Some a" using agents_okD(4) [OF claim_name_ok(1) [OF r(2) ok]] by blast
  then have n: "as_by_name (an_store an') (ag_name x) = Some a" "agent_get (an_store an') a = Some z"
    using assms(5) r(3,4) by (simp_all add: enrolled_def)
  have z: "ag_card z = sp_card spec" "ag_name z = cd_name (sp_card spec)" using r(3) by (simp_all add: enrolled_def)
  have live: "\<not> agent_expired z t" using assms(6) by (simp add: agent_expired_def z(1))
  have "claim_name (cd_name (sp_card other)) b t (an_store an') = Inl Ans_NameConflict"
    using n live assms(9,10) by (simp add: claim_name_def)
  then have "ans_register ed sha256 other t an' = (an', Inl Ans_NameConflict)" using assms(7,8) by (simp add: ans_register_def)
  moreover have "resolve_name an' (ag_name x) t = Inr (to_resolved z)" using n live by (simp add: resolve_name_def resolve_addr_def)
  moreover have "ra_addr (to_resolved z) = a" "ra_name (to_resolved z) = cd_name (sp_card spec)"
    using z check_cardD(4) [OF r(1)] by (simp_all add: to_resolved_def)
  ultimately show ?thesis by blast
qed

lemma old_name_kept_witness:
  "\<exists>an' r. resolve_name an' [97] 7 = Inr r \<and> ra_name r = [99] \<and> snd (ans_register toy_ed sha_const (sample_enrol 2 [97]) 7 an') = Inl Ans_NameConflict"
proof -
  obtain x y where xy: "an_store sample_ans = agent_put (sample_addr 2) y (agent_put (sample_addr 1) x \<lparr> as_by_addr = [], as_by_name = Map.empty \<rparr>)"
    "an_namespace_root sample_ans = []" "ag_name x = [97]" "ag_name y = [98]" "ag_ed_pub x = replicate 32 7" using sample_agents by blast
  have g: "agent_get (an_store sample_ans) (sample_addr 1) = Some x" by (simp add: xy(1) sample_addr_inj)
  have free: "as_by_name (an_store sample_ans) [99] = None" by (simp add: xy)
  have key: "\<forall>cur. agent_get (an_store sample_ans) (sample_addr 1) = Some cur \<longrightarrow> ag_ed_pub cur = replicate 32 7" using g xy(5) by simp
  obtain h z where r: "ans_register toy_ed sha_const (sample_enrol 1 [99]) 6 sample_ans
      = (sample_ans\<lparr> an_store := agent_put (sample_addr 1) z (an_store sample_ans) \<rparr>, Inr h)"
    using sample_enrolled [OF xy(2) _ _ _ free key, of 6] by auto
  let ?an' = "sample_ans\<lparr> an_store := agent_put (sample_addr 1) z (an_store sample_ans) \<rparr>"
  obtain h' where c: "check_card sha_const ?an' (sample_enrol 2 [97]) 7 = Inr (sample_addr 2, h')"
    "check_proofs toy_ed ?an' (sample_enrol 2 [97]) (sample_addr 2) h' 7 = Inr (replicate 32 7)"
    using sample_checks [of ?an' "[97]" 7 2] xy(2) by auto
  have sp: "sp_addr_text (sample_enrol n name) = to_canonical_string (sample_addr n)" "sp_card (sample_enrol n name) = sample_card n name"
    "cd_name (sample_card n name) = name" "cd_not_after (sample_card n name) = 9000" for n name
    by (simp_all add: sample_enrol_def sample_card_def)
  have "(\<exists>r. resolve_name ?an' (ag_name x) 7 = Inr r \<and> ra_addr r = sample_addr 1 \<and> ra_name r = cd_name (sp_card (sample_enrol 1 [99])))
    \<and> ans_register toy_ed sha_const (sample_enrol 2 [97]) 7 ?an' = (?an', Inl Ans_NameConflict)"
    by (rule old_name_kept [OF sample_ans_def g r _ _ _ c]) (simp_all add: sp sample_addr_parse xy(3) sample_addr_inj)
  then show ?thesis by (intro exI [of _ ?an']) (auto simp: xy(3) sp)
qed

section \<open>What the signatures bind\<close>

lemma pop_message_inj:
  assumes "ans_pop_message n t h = ans_pop_message n' t' h'" "length t = length t'" "length h = length h'"
  shows "n = n' \<and> t = t' \<and> h = h'"
  using assms by (auto simp: ans_pop_message_def append_eq_append_conv)

text \<open>
  What is signed determines what is enrolled: when two enrolments pass with the same message of possession, they are
  for the same name, the same address and the same card, or they exhibit two inputs of SHA-256 with the same first 16
  bytes; and a signature of possession is never a card signature, since the two messages differ for all inputs.
\<close>

theorem signed_bytes_bind:
  assumes "check_card sha256 an spec now = Inr (a, h)" "check_card sha256 an' spec' now' = Inr (a', h')"
    and "ans_pop_message (cd_name (sp_card spec)) (sp_addr_text spec) h = ans_pop_message (cd_name (sp_card spec')) (sp_addr_text spec') h'"
    and "length h = 16" "length h' = 16"
  shows "cd_name (sp_card spec) = cd_name (sp_card spec') \<and> a = a'
    \<and> (sp_card spec = sp_card spec' \<or> (\<exists>b b'. b \<noteq> b' \<and> take 16 (sha256 b) = take 16 (sha256 b')))
    \<and> ans_pop_message n t g \<noteq> agent_card_message v g' na pk"
proof -
  note c = check_cardD [OF assms(1)] and c' = check_cardD [OF assms(2)]
  have "length (sp_addr_text spec) = length (sp_addr_text spec')" using c(1) c'(1) canonical_parse_print by metis
  from pop_message_inj [OF assms(3) this] assms(4,5) have s: "cd_name (sp_card spec) = cd_name (sp_card spec')"
    "sp_addr_text spec = sp_addr_text spec'" "h = h'" by simp_all
  obtain b b' where b: "canonical_bytes (sp_card spec) = Inr b" "h = take 16 (sha256 b)" "canonical_bytes (sp_card spec') = Inr b'" "h' = take 16 (sha256 b')"
    using c(7) c'(7) by (auto simp: card_hash_def split: sum.splits)
  have "sp_card spec = sp_card spec' \<or> b \<noteq> b'" using canonical_bytes_inj b(1,3) by metis
  moreover have "ans_pop_message n t g ! 10 \<noteq> agent_card_message v g' na pk ! 10"
    by (simp add: ans_pop_message_def ANS_REGISTER_DOMAIN_def agent_card_message_def AGENT_CARD_DOMAIN_def nth_append)
  then have "ans_pop_message n t g \<noteq> agent_card_message v g' na pk" by metis
  moreover have "a = a'" using c(1) c'(1) s(2) by simp
  ultimately show ?thesis using s b by metis
qed

lemma signed_bytes_bind_witness:
  "\<exists>h. check_card sha_const sample_ans (sample_enrol 1 [97]) 6 = Inr (sample_addr 1, h) \<and> sp_card (sample_enrol 1 [97]) = sample_card 1 [97]
    \<and> ans_pop_message [97] [98] [99] \<noteq> agent_card_message 1 [1] 2 [3]"
proof -
  obtain h where h: "check_card sha_const sample_ans (sample_enrol 1 [97]) 6 = Inr (sample_addr 1, h)"
    "card_hash sha_const (sample_card 1 [97]) = Inr h"
    using sample_checks [of sample_ans "[97]" 6 1] sample_agents by auto
  have "length h = 16" using h(2) by (auto simp: card_hash_def sha_const_def split: sum.splits)
  from signed_bytes_bind [OF h(1) h(1) refl this this, of "[97]" "[98]" "[99]" 1 "[1]" 2 "[3]"] h(1) show ?thesis
    by (simp add: sample_enrol_def)
qed

end
