(* ===== verification/ZoneServer.thy ===== *)
theory ZoneServer
  imports AnsProperties Resolver
begin

text \<open>
  The registration authority, \<open>cloud/zoneserver/src/lib.rs\<close>: registration with proof of possession, certificates,
  tokens (JWT with HS256) and key rotation. The crates \<open>hmac\<close>, \<open>base64\<close> and \<open>serde_json\<close> are parameters
  in a record: the MAC, the URL-safe encoding without padding and its decoder, the claims as JSON, and what reading JSON
  gives for the members \<open>exp\<close> and \<open>sub\<close>. The clock is an argument.
\<close>

section \<open>Definitions\<close>

definition DEFAULT_VALIDITY_SECS :: u64 where [const_defs]: "DEFAULT_VALIDITY_SECS = 90 * 24 * 3600"
definition DEFAULT_TOKEN_TTL_SECS :: u64 where [const_defs]: "DEFAULT_TOKEN_TTL_SECS = 24 * 3600"

datatype zone_error =
    Zone_BadAddress | Zone_BadKeyLength | Zone_BadProof | Zone_AlreadyRegistered ipv8_address | Zone_NotRegistered ipv8_address
  | Zone_BadToken | Zone_TokenExpired u64 u64 | Zone_TokenMismatch

record issued =
  iss_cert :: cert
  iss_jwt :: bytes

record token_codec =
  tc_hmac :: "bytes \<Rightarrow> bytes \<Rightarrow> bytes"
  tc_b64 :: "bytes \<Rightarrow> bytes"
  tc_unb64 :: "bytes \<Rightarrow> bytes option"
  tc_claims :: "bytes \<Rightarrow> u64 \<Rightarrow> u64 \<Rightarrow> bytes"
  tc_read :: "bytes \<Rightarrow> (u64 option \<times> bytes option) option"

record zone_server =
  zs_ca_seed :: bytes
  zs_jwt_key :: bytes
  zs_records :: "ipv8_address \<rightharpoonup> bytes"

definition zone_from_seeds :: "bytes \<Rightarrow> bytes \<Rightarrow> zone_server" where
  "zone_from_seeds ca_seed jwt_key = \<lparr> zs_ca_seed = ca_seed, zs_jwt_key = jwt_key, zs_records = Map.empty \<rparr>"

definition zone_trust_anchor :: "ed25519 \<Rightarrow> zone_server \<Rightarrow> bytes" where
  "zone_trust_anchor ed z = ed_public ed (zs_ca_seed z)"

definition is_registered :: "zone_server \<Rightarrow> ipv8_address \<Rightarrow> bool" where
  "is_registered z addr \<longleftrightarrow> zs_records z addr \<noteq> None"

definition zone_parse_pub :: "ed25519 \<Rightarrow> bytes \<Rightarrow> zone_error + bytes" where
  "zone_parse_pub ed b = (if length b \<noteq> 32 then Inl Zone_BadKeyLength else if ed_key_ok ed b then Inr b else Inl Zone_BadKeyLength)"

definition zone_parse_sig :: "bytes \<Rightarrow> zone_error + bytes" where
  "zone_parse_sig b = (if length b = 64 then Inr b else Inl Zone_BadKeyLength)"

text \<open>The two checks on a key and its proof that registration and rotation share.\<close>

definition zone_prove :: "ed25519 \<Rightarrow> bytes \<Rightarrow> bytes \<Rightarrow> bytes \<Rightarrow> zone_error + bytes" where
  "zone_prove ed msg ed_pub proof_bytes = (case zone_parse_pub ed ed_pub of
     Inl e \<Rightarrow> Inl e
   | Inr vk \<Rightarrow> (case zone_parse_sig proof_bytes of
       Inl e \<Rightarrow> Inl e
     | Inr sig \<Rightarrow> if ed_verify ed vk msg sig then Inr vk else Inl Zone_BadProof))"

definition DOT :: u8 where [const_defs]: "DOT = 0x2E"

text \<open>The JOSE header: algorithm HS256, type JWT, as compact JSON text.\<close>

definition JWT_HEADER :: bytes where
  "JWT_HEADER = [0x7B, 0x22, 0x61, 0x6C, 0x67, 0x22, 0x3A, 0x22, 0x48, 0x53, 0x32, 0x35, 0x36, 0x22, 0x2C,
     0x22, 0x74, 0x79, 0x70, 0x22, 0x3A, 0x22, 0x4A, 0x57, 0x54, 0x22, 0x7D]"

definition issue_jwt :: "token_codec \<Rightarrow> zone_server \<Rightarrow> bytes \<Rightarrow> u64 \<Rightarrow> u64 \<Rightarrow> bytes" where
  "issue_jwt tc z addr_text now ttl_secs = (
     let payload = tc_b64 tc (tc_claims tc addr_text now (sat_add64 now ttl_secs));
         signing_input = tc_b64 tc JWT_HEADER @ [DOT] @ payload
     in signing_input @ [DOT] @ tc_b64 tc (tc_hmac tc (zs_jwt_key z) signing_input))"

definition ct_eq :: "bytes \<Rightarrow> bytes \<Rightarrow> bool" where
  "ct_eq a b = (if length a \<noteq> length b then False else fold (\<lambda>i diff. diff OR (a ! i XOR b ! i)) [0..<length a] 0 = 0)"

definition verify_token_claims :: "token_codec \<Rightarrow> zone_server \<Rightarrow> bytes \<Rightarrow> u64 \<Rightarrow> zone_error + bytes \<times> u64" where
  "verify_token_claims tc z jwt now = (case split_on DOT jwt of
     [h, p, s] \<Rightarrow>
       if \<not> ct_eq (tc_b64 tc (tc_hmac tc (zs_jwt_key z) (h @ [DOT] @ p))) s then Inl Zone_BadToken
       else (case tc_unb64 tc p of
         None \<Rightarrow> Inl Zone_BadToken
       | Some json \<Rightarrow> (case tc_read tc json of
           None \<Rightarrow> Inl Zone_BadToken
         | Some (None, _) \<Rightarrow> Inl Zone_BadToken
         | Some (Some exp, sub) \<Rightarrow>
             if now > exp then Inl (Zone_TokenExpired exp now)
             else (case sub of None \<Rightarrow> Inl Zone_BadToken | Some sub \<Rightarrow> Inr (sub, exp))))
   | _ \<Rightarrow> Inl Zone_BadToken)"

definition verify_token :: "token_codec \<Rightarrow> zone_server \<Rightarrow> bytes \<Rightarrow> u64 \<Rightarrow> zone_error + bytes" where
  "verify_token tc z jwt now = (case verify_token_claims tc z jwt now of Inl e \<Rightarrow> Inl e | Inr (sub, _) \<Rightarrow> Inr sub)"

definition zone_register ::
  "ed25519 \<Rightarrow> token_codec \<Rightarrow> bytes \<Rightarrow> bytes \<Rightarrow> bytes \<Rightarrow> u64 \<Rightarrow> u64 \<Rightarrow> zone_server \<Rightarrow> zone_server \<times> (zone_error + issued)" where
  "zone_register ed tc addr_text ed_pub proof_bytes ttl_secs now z = (case from_canonical_str addr_text of
     Inl _ \<Rightarrow> (z, Inl Zone_BadAddress)
   | Inr addr \<Rightarrow> (case zone_prove ed (register_pop_message addr_text ed_pub) ed_pub proof_bytes of
       Inl e \<Rightarrow> (z, Inl e)
     | Inr vk \<Rightarrow>
         if (case zs_records z addr of Some key \<Rightarrow> key \<noteq> vk | None \<Rightarrow> False) then (z, Inl (Zone_AlreadyRegistered addr))
         else (z\<lparr> zs_records := (zs_records z)(addr \<mapsto> vk) \<rparr>,
           Inr \<lparr> iss_cert = issue_cert ed (zs_ca_seed z) addr vk (sat_add64 now ttl_secs),
             iss_jwt = issue_jwt tc z addr_text now DEFAULT_TOKEN_TTL_SECS \<rparr>)))"

definition rotate_key ::
  "ed25519 \<Rightarrow> token_codec \<Rightarrow> bytes \<Rightarrow> bytes \<Rightarrow> bytes \<Rightarrow> bytes \<Rightarrow> u64 \<Rightarrow> u64 \<Rightarrow> zone_server \<Rightarrow> zone_server \<times> (zone_error + issued)" where
  "rotate_key ed tc jwt addr_text new_ed_pub proof_bytes ttl_secs now z = (case verify_token tc z jwt now of
     Inl e \<Rightarrow> (z, Inl e)
   | Inr sub \<Rightarrow>
       if sub \<noteq> addr_text then (z, Inl Zone_TokenMismatch)
       else case from_canonical_str addr_text of
         Inl _ \<Rightarrow> (z, Inl Zone_BadAddress)
       | Inr addr \<Rightarrow> (case zone_prove ed (rotate_pop_message addr_text new_ed_pub) new_ed_pub proof_bytes of
           Inl e \<Rightarrow> (z, Inl e)
         | Inr vk \<Rightarrow> (case zs_records z addr of
             None \<Rightarrow> (z, Inl (Zone_NotRegistered addr))
           | Some _ \<Rightarrow> (z\<lparr> zs_records := (zs_records z)(addr \<mapsto> vk) \<rparr>,
               Inr \<lparr> iss_cert = issue_cert ed (zs_ca_seed z) addr vk (sat_add64 now ttl_secs), iss_jwt = jwt \<rparr>))))"

section \<open>Tokens\<close>

text \<open>
  What the code relies on: the encoding decodes, has no dot in it and is one to one; claims read back.
\<close>

definition token_codec_ok :: "token_codec \<Rightarrow> bool" where
  "token_codec_ok tc \<longleftrightarrow> (\<forall>b. tc_unb64 tc (tc_b64 tc b) = Some b \<and> DOT \<notin> set (tc_b64 tc b))
     \<and> (\<forall>sub iat exp. tc_read tc (tc_claims tc sub iat exp) = Some (Some exp, Some sub))"

lemma or_zero: "x OR y = 0 \<longleftrightarrow> x = 0 \<and> y = (0 :: u8)"
  by (auto simp: bit_eq_iff bit_simps)

lemma xor_zero: "x XOR y = 0 \<longleftrightarrow> x = (y :: u8)"
  by (auto simp: bit_eq_iff bit_simps)

lemma ct_fold: "fold (\<lambda>i diff. diff OR (a ! i XOR b ! i)) is d = 0 \<longleftrightarrow> d = (0 :: u8) \<and> (\<forall>i \<in> set is. a ! i = b ! i)"
  by (induction "is" arbitrary: d) (auto simp: or_zero xor_zero)

lemma ct_eq_iff: "ct_eq a b \<longleftrightarrow> a = b"
  by (auto simp: ct_eq_def ct_fold intro: nth_equalityI)

lemma verify_issued:
  assumes "token_codec_ok tc"
  shows "verify_token_claims tc z (issue_jwt tc z addr_text t0 ttl) now
    = (if now > sat_add64 t0 ttl then Inl (Zone_TokenExpired (sat_add64 t0 ttl) now) else Inr (addr_text, sat_add64 t0 ttl))"
proof -
  have d: "DOT \<notin> set (tc_b64 tc b)" "tc_unb64 tc (tc_b64 tc b) = Some b" for b using assms by (simp_all add: token_codec_ok_def)
  let ?h = "tc_b64 tc JWT_HEADER" and ?p = "tc_b64 tc (tc_claims tc addr_text t0 (sat_add64 t0 ttl))"
  let ?s = "tc_b64 tc (tc_hmac tc (zs_jwt_key z) (?h @ [DOT] @ ?p))"
  have "split_on DOT (?h @ DOT # ?p @ DOT # ?s) = [?h, ?p, ?s]" by (simp only: split_on_append d not_False_eq_True)
  then show ?thesis using assms d by (simp add: verify_token_claims_def issue_jwt_def Let_def ct_eq_iff token_codec_ok_def)
qed

lemma verify_tokenD:
  assumes "verify_token_claims tc z jwt now = Inr (sub, exp)"
  shows "\<exists>h p json. jwt = h @ [DOT] @ p @ [DOT] @ tc_b64 tc (tc_hmac tc (zs_jwt_key z) (h @ [DOT] @ p)) \<and> tc_unb64 tc p = Some json
    \<and> tc_read tc json = Some (Some exp, Some sub) \<and> now \<le> exp"
proof -
  obtain h p s where p: "split_on DOT jwt = [h, p, s]"
    using assms by (auto simp: verify_token_claims_def split: list.splits)
  then have "jwt = join_with DOT [h, p, s]" using join_split_on [of DOT jwt] by simp
  then show ?thesis using assms p
    by (auto simp: verify_token_claims_def ct_eq_iff not_less split: if_splits option.splits prod.splits)
qed

lemma proveD:
  assumes "zone_prove ed msg k pr = Inr vk"
  shows "vk = k" "length k = 32" "ed_key_ok ed k" "ed_verify ed k msg pr"
  using assms by (auto simp: zone_prove_def zone_parse_pub_def zone_parse_sig_def split: sum.splits if_splits)

lemma prove_signed:
  assumes "ed25519_ok ed"
  shows "zone_prove ed msg (ed_public ed seed) (ed_sign ed seed msg) = Inr (ed_public ed seed)"
  using assms by (simp add: zone_prove_def zone_parse_pub_def zone_parse_sig_def ed25519_ok_def)

section \<open>Runs\<close>

datatype zone_op =
    Zone_Register bytes bytes bytes u64 u64
  | Zone_Rotate bytes bytes bytes bytes u64 u64

fun zone_step :: "ed25519 \<Rightarrow> token_codec \<Rightarrow> zone_op \<Rightarrow> zone_server \<Rightarrow> zone_server \<times> (zone_error + issued)" where
  "zone_step ed tc (Zone_Register addr_text ed_pub pr ttl now) z = zone_register ed tc addr_text ed_pub pr ttl now z"
| "zone_step ed tc (Zone_Rotate jwt addr_text ed_pub pr ttl now) z = rotate_key ed tc jwt addr_text ed_pub pr ttl now z"

fun zone_run :: "ed25519 \<Rightarrow> token_codec \<Rightarrow> zone_op list \<Rightarrow> zone_server \<Rightarrow> zone_server \<times> (zone_error + issued) list" where
  "zone_run ed tc [] z = (z, [])"
| "zone_run ed tc (c # cs) z = (case zone_step ed tc c z of (z, r) \<Rightarrow> (case zone_run ed tc cs z of (z, rs) \<Rightarrow> (z, r # rs)))"

lemma register_issued:
  assumes "zone_register ed tc tx k pr ttl now z = (z', r)"
  shows "(\<exists>e. r = Inl e \<and> z' = z) \<or> (\<exists>addr. from_canonical_str tx = Inr addr
    \<and> zone_prove ed (register_pop_message tx k) k pr = Inr k \<and> (zs_records z addr = None \<or> zs_records z addr = Some k)
    \<and> z' = z\<lparr> zs_records := (zs_records z)(addr \<mapsto> k) \<rparr>
    \<and> r = Inr \<lparr> iss_cert = issue_cert ed (zs_ca_seed z) addr k (sat_add64 now ttl),
        iss_jwt = issue_jwt tc z tx now DEFAULT_TOKEN_TTL_SECS \<rparr>)"
proof (cases "zone_prove ed (register_pop_message tx k) k pr")
  case (Inr vk)
  then show ?thesis using assms proveD(1) [OF Inr] by (auto simp: zone_register_def split: sum.splits option.splits if_splits)
qed (use assms in \<open>auto simp: zone_register_def split: sum.splits\<close>)

lemma rotate_issued:
  assumes "rotate_key ed tc jwt tx k pr ttl now z = (z', r)"
  shows "(\<exists>e. r = Inl e \<and> z' = z) \<or> (\<exists>addr. from_canonical_str tx = Inr addr \<and> verify_token tc z jwt now = Inr tx
    \<and> zone_prove ed (rotate_pop_message tx k) k pr = Inr k \<and> zs_records z addr \<noteq> None
    \<and> z' = z\<lparr> zs_records := (zs_records z)(addr \<mapsto> k) \<rparr>
    \<and> r = Inr \<lparr> iss_cert = issue_cert ed (zs_ca_seed z) addr k (sat_add64 now ttl), iss_jwt = jwt \<rparr>)"
proof (cases "zone_prove ed (rotate_pop_message tx k) k pr")
  case (Inr vk)
  then show ?thesis using assms proveD(1) [OF Inr] by (auto simp: rotate_key_def split: sum.splits option.splits if_splits)
qed (use assms in \<open>auto simp: rotate_key_def split: sum.splits if_splits\<close>)

lemma step_keys:
  assumes "zone_step ed tc c z = (z', r)"
  shows "zs_ca_seed z' = zs_ca_seed z" "zs_jwt_key z' = zs_jwt_key z"
  using assms by (cases c; auto dest!: register_issued rotate_issued)+

lemma cert_issued_binding:
  assumes "ed25519_ok ed" "length k = 32"
  shows "cert_binding_ok ed (ed_public ed ca) (cert_to_wire (issue_cert ed ca a k na)) a k t \<longleftrightarrow> t \<le> na"
    "length (cert_to_wire (issue_cert ed ca a k na)) = 120"
proof -
  have w: "cert_to_wire (issue_cert ed ca a k na) = (to_bytes a @ k @ to_be64 na) @ ed_sign ed ca (to_bytes a @ k @ to_be64 na)"
    by (simp add: cert_to_wire_def cert_tbs_def issue_cert_def)
  have ok: "length (ed_sign ed ca m) = 64" "ed_verify ed (ed_public ed ca) m (ed_sign ed ca m)" "ed_key_ok ed (ed_public ed ca)" for m
    using assms(1) by (simp_all add: ed25519_ok_def)
  show "length (cert_to_wire (issue_cert ed ca a k na)) = 120" using ok assms(2) by (simp add: w)
  then show "cert_binding_ok ed (ed_public ed ca) (cert_to_wire (issue_cert ed ca a k na)) a k t \<longleftrightarrow> t \<le> na"
    using ok assms(2) by (simp add: cert_binding_ok_def Let_def w slice_append_left slice_append_skip slice_full)
qed

text \<open>What an issued certificate is good for.\<close>

definition cert_good :: "ed25519 \<Rightarrow> bytes \<Rightarrow> cert \<Rightarrow> bool" where
  "cert_good ed anchor c \<longleftrightarrow> (\<exists>tx pr dom. dom \<in> {REGISTER_DOMAIN, ROTATE_DOMAIN} \<and> from_canonical_str tx = Inr (cert_addr c)
     \<and> ed_verify ed (cert_verify_key c) (pop_message dom tx (cert_verify_key c)) pr)
     \<and> (\<forall>t. cert_binding_ok ed anchor (cert_to_wire c) (cert_addr c) (cert_verify_key c) t \<longleftrightarrow> t \<le> cert_not_after c)"

lemma step_good:
  assumes "ed25519_ok ed" "zone_step ed tc c z = (z', Inr i)"
  shows "cert_good ed (zone_trust_anchor ed z) (iss_cert i)"
proof -
  have good: "cert_good ed (ed_public ed ca) (issue_cert ed ca addr k na)"
    if "from_canonical_str tx = Inr addr" "zone_prove ed (pop_message dom tx k) k pr = Inr k" "dom \<in> {REGISTER_DOMAIN, ROTATE_DOMAIN}"
    for tx addr k na ca dom pr
  proof -
    have f: "cert_addr (issue_cert ed ca addr k na) = addr" "cert_verify_key (issue_cert ed ca addr k na) = k"
      "cert_not_after (issue_cert ed ca addr k na) = na" by (simp_all add: issue_cert_def Let_def)
    show ?thesis unfolding cert_good_def f
      using that proveD(2,4) [OF that(2)] cert_issued_binding(1) [OF assms(1)] by blast
  qed
  show ?thesis
  proof (cases c)
    case (Zone_Register tx k pr ttl now)
    then obtain addr where "from_canonical_str tx = Inr addr" "zone_prove ed (register_pop_message tx k) k pr = Inr k"
      "iss_cert i = issue_cert ed (zs_ca_seed z) addr k (sat_add64 now ttl)"
      using assms(2) by (auto dest!: register_issued)
    then show ?thesis using good [of tx addr REGISTER_DOMAIN] by (simp add: zone_trust_anchor_def register_pop_message_def)
  next
    case (Zone_Rotate jwt tx k pr ttl now)
    then obtain addr where "from_canonical_str tx = Inr addr" "zone_prove ed (rotate_pop_message tx k) k pr = Inr k"
      "iss_cert i = issue_cert ed (zs_ca_seed z) addr k (sat_add64 now ttl)"
      using assms(2) by (auto dest!: rotate_issued)
    then show ?thesis using good [of tx addr ROTATE_DOMAIN] by (simp add: zone_trust_anchor_def rotate_pop_message_def)
  qed
qed

lemma run_good:
  "zone_run ed tc cs z = (z', rs) \<Longrightarrow> ed25519_ok ed \<Longrightarrow> Inr i \<in> set rs \<Longrightarrow> cert_good ed (zone_trust_anchor ed z) (iss_cert i)"
proof (induction cs arbitrary: z rs)
  case (Cons c cs)
  obtain z1 r rs' where s: "zone_step ed tc c z = (z1, r)" "zone_run ed tc cs z1 = (z', rs')" "rs = r # rs'"
    using Cons.prems(1) by (auto split: prod.splits)
  have "zone_trust_anchor ed z1 = zone_trust_anchor ed z" using step_keys(1) [OF s(1)] by (simp add: zone_trust_anchor_def)
  then show ?case using Cons.IH [OF s(2) Cons.prems(2)] Cons.prems(3) s(3) step_good [OF Cons.prems(2)] s(1) by auto
qed simp

lemma claims_key:
  assumes "zs_jwt_key z = zs_jwt_key z'"
  shows "verify_token_claims tc z = verify_token_claims tc z'"
  unfolding fun_eq_iff verify_token_claims_def assms by (rule allI)+ (rule refl)

lemma run_key_change:
  "zone_run ed tc cs z = (z', rs) \<Longrightarrow> zs_records z a = Some k \<Longrightarrow> zs_records z' a \<noteq> Some k \<Longrightarrow>
    \<exists>jwt tx k' pr ttl now exp. Zone_Rotate jwt tx k' pr ttl now \<in> set cs \<and> from_canonical_str tx = Inr a
      \<and> verify_token_claims tc (z\<lparr> zs_records := Map.empty \<rparr>) jwt now = Inr (tx, exp) \<and> ed_verify ed k' (rotate_pop_message tx k') pr"
proof (induction cs arbitrary: z rs)
  case (Cons c cs)
  obtain z1 r rs' where s: "zone_step ed tc c z = (z1, r)" "zone_run ed tc cs z1 = (z', rs')"
    using Cons.prems(1) by (auto split: prod.splits)
  have keys: "verify_token_claims tc (z1\<lparr> zs_records := Map.empty \<rparr>) = verify_token_claims tc (z\<lparr> zs_records := Map.empty \<rparr>)"
    "verify_token_claims tc (z\<lparr> zs_records := Map.empty \<rparr>) = verify_token_claims tc z"
    using step_keys(2) [OF s(1)] by (auto intro!: claims_key)
  show ?case
  proof (cases "zs_records z1 a = Some k")
    case True
    then show ?thesis using Cons.IH [OF s(2) True Cons.prems(3)] unfolding keys(1) by (meson list.set_intros(2))
  next
    case False
    show ?thesis
    proof (cases c)
      case (Zone_Register tx key pr ttl now)
      then show ?thesis using s(1) False Cons.prems(2) by (auto dest!: register_issued split: if_splits)
    next
      case (Zone_Rotate jwt tx key pr ttl now)
      then have r: "from_canonical_str tx = Inr a" "verify_token tc z jwt now = Inr tx"
        "zone_prove ed (rotate_pop_message tx key) key pr = Inr key"
        using s(1) False Cons.prems(2) by (auto dest!: rotate_issued split: if_splits)
      then obtain exp where "verify_token_claims tc z jwt now = Inr (tx, exp)" by (auto simp: verify_token_def split: sum.splits)
      then show ?thesis using r proveD(4) [OF r(3)] Zone_Rotate unfolding keys(2) by (meson list.set_intros(1))
    qed
  qed
qed simp

section \<open>A concrete codec\<close>

definition nibbles :: "bytes \<Rightarrow> bytes" where
  "nibbles b = concat (map (\<lambda>x. [drop_bit 4 x, x AND 15]) b)"

fun unnibbles :: "bytes \<Rightarrow> bytes option" where
  "unnibbles [] = Some []"
| "unnibbles [x] = None"
| "unnibbles (x # y # zs) = map_option (\<lambda>r. (push_bit 4 x OR y) # r) (unnibbles zs)"

definition toy_codec :: token_codec where
  "toy_codec = \<lparr> tc_hmac = (\<lambda>k m. k @ m), tc_b64 = nibbles, tc_unb64 = unnibbles, tc_claims = (\<lambda>sub iat exp. to_be64 exp @ sub),
     tc_read = (\<lambda>b. Some (Some (from_be (take 8 b)), Some (drop 8 b))) \<rparr>"

lemma join_nibbles: "push_bit 4 (drop_bit 4 x) OR (x AND 15) = (x :: u8)"
proof -
  have "(15 :: u8) = mask 4" by (simp add: mask_eq_exp_minus_1)
  then show ?thesis by (auto simp: bit_eq_iff bit_simps)
qed

lemma small_nibbles: "drop_bit 4 x \<noteq> (46 :: u8)" "x AND 15 \<noteq> (46 :: u8)"
proof -
  have "\<not> bit x 9" for x :: u8 by (auto dest: bit_imp_le_length)
  then have b: "\<not> bit (drop_bit 4 x) 5" "\<not> bit (x AND 15) 5" for x :: u8
    by (simp_all add: bit_simps)
  have "bit (46 :: u8) 5" by (simp add: bit_iff_odd)
  then show "drop_bit 4 x \<noteq> (46 :: u8)" "x AND 15 \<noteq> (46 :: u8)" using b by metis+
qed

lemma toy_codec_ok: "token_codec_ok toy_codec"
proof -
  have "unnibbles (nibbles b) = Some b" for b
    by (induction b) (simp_all add: nibbles_def join_nibbles)
  moreover have "DOT \<notin> set (nibbles b)" for b by (auto simp: nibbles_def DOT_def small_nibbles [symmetric])
  ultimately show ?thesis by (simp add: token_codec_ok_def toy_codec_def)
qed

section \<open>Properties\<close>

text \<open>
  Certificates are earned: every certificate that the authority issues, in any run, is for a key that proved possession
  by signing the registration or the rotation message for that very address, and under the trust anchor it binds the key
  to the address exactly until its expiry.
\<close>

theorem certificates_proved:
  assumes "ed25519_ok ed" "zone_run ed tc cs (zone_from_seeds ca jwt_key) = (z, rs)" "Inr i \<in> set rs"
  shows "(\<exists>name pr dom. dom \<in> {REGISTER_DOMAIN, ROTATE_DOMAIN} \<and> from_canonical_str name = Inr (cert_addr (iss_cert i))
      \<and> ed_verify ed (cert_verify_key (iss_cert i)) (pop_message dom name (cert_verify_key (iss_cert i))) pr)
    \<and> (\<forall>t. cert_binding_ok ed (ed_public ed ca) (cert_to_wire (iss_cert i)) (cert_addr (iss_cert i)) (cert_verify_key (iss_cert i)) t
        \<longleftrightarrow> t \<le> cert_not_after (iss_cert i))"
  using run_good [OF assms(2,1,3)] by (simp add: cert_good_def zone_trust_anchor_def zone_from_seeds_def)

definition sample_registration :: zone_op where
  "sample_registration = Zone_Register (to_canonical_string (sample_addr 1)) (ed_public toy_ed [4])
     (ed_sign toy_ed [4] (register_pop_message (to_canonical_string (sample_addr 1)) (ed_public toy_ed [4]))) 500 7"

lemma sample_registered:
  "\<exists>z i. zone_run toy_ed toy_codec [sample_registration] (zone_from_seeds [1] [2]) = (z, [Inr i]) \<and> zs_records z (sample_addr 1) = Some (ed_public toy_ed [4])"
  by (simp add: sample_registration_def zone_register_def sample_addr_parse prove_signed toy_ed_ok zone_from_seeds_def)

lemma certificates_proved_witness:
  "\<exists>z i. zone_run toy_ed toy_codec [sample_registration] (zone_from_seeds [1] [2]) = (z, [Inr i])
    \<and> (\<exists>name. from_canonical_str name = Inr (cert_addr (iss_cert i)))"
proof -
  obtain z i where z: "zone_run toy_ed toy_codec [sample_registration] (zone_from_seeds [1] [2]) = (z, [Inr i])"
    using sample_registered by blast
  from certificates_proved [OF toy_ed_ok z, of i] z show ?thesis by auto
qed

text \<open>
  Tokens are exact: the token of a registration verifies at the authority that issued it and names its address and
  expiry, up to and including the second of expiry, and is refused as expired from then on; and whatever verifies carries,
  as its third part, the MAC of its first two under the authority's key, and has not expired.
\<close>

theorem tokens_exact:
  assumes "token_codec_ok tc"
  shows "verify_token_claims tc z (issue_jwt tc z name t0 ttl) now
      = (if now > sat_add64 t0 ttl then Inl (Zone_TokenExpired (sat_add64 t0 ttl) now) else Inr (name, sat_add64 t0 ttl))
    \<and> (\<forall>jwt sub exp. verify_token_claims tc z jwt now = Inr (sub, exp) \<longrightarrow> now \<le> exp
        \<and> (\<exists>h p. jwt = h @ [DOT] @ p @ [DOT] @ tc_b64 tc (tc_hmac tc (zs_jwt_key z) (h @ [DOT] @ p))))"
proof (intro conjI allI impI)
  show "verify_token_claims tc z (issue_jwt tc z name t0 ttl) now
      = (if now > sat_add64 t0 ttl then Inl (Zone_TokenExpired (sat_add64 t0 ttl) now) else Inr (name, sat_add64 t0 ttl))"
    by (rule verify_issued [OF assms])
  fix jwt sub exp
  assume "verify_token_claims tc z jwt now = Inr (sub, exp)"
  from verify_tokenD [OF this] show "now \<le> exp"
    "\<exists>h p. jwt = h @ [DOT] @ p @ [DOT] @ tc_b64 tc (tc_hmac tc (zs_jwt_key z) (h @ [DOT] @ p))" by blast+
qed

lemma tokens_exact_witness:
  "verify_token_claims toy_codec (zone_from_seeds [1] [2]) (issue_jwt toy_codec (zone_from_seeds [1] [2]) [65] 7 3) 10 = Inr ([65], 10)"
  using tokens_exact [OF toy_codec_ok, of "zone_from_seeds [1] [2]" "[65]" 7 3 10] by (simp add: sat_add64_def)

text \<open>
  C27. A key is replaced by token only: when, in any run, the key that the authority holds for an address changes, a
  rotation in that run presented a token for the address that carries the authority's MAC and had not expired, with a
  rotation message signed by the new key; a registration never replaces a key.
\<close>

theorem keys_change_by_token:
  assumes "zone_run ed tc cs z = (z', rs)" "zs_records z a = Some k" "zs_records z' a \<noteq> Some k"
  shows "\<exists>h p name k' pr ttl now. Zone_Rotate (h @ [DOT] @ p @ [DOT] @ tc_b64 tc (tc_hmac tc (zs_jwt_key z) (h @ [DOT] @ p))) name k' pr ttl now \<in> set cs
    \<and> from_canonical_str name = Inr a \<and> ed_verify ed k' (rotate_pop_message name k') pr
    \<and> (\<exists>json exp. tc_unb64 tc p = Some json \<and> tc_read tc json = Some (Some exp, Some name) \<and> now \<le> exp)"
proof -
  obtain jwt name k' pr ttl now exp where r: "Zone_Rotate jwt name k' pr ttl now \<in> set cs" "from_canonical_str name = Inr a"
    "verify_token_claims tc (z\<lparr> zs_records := Map.empty \<rparr>) jwt now = Inr (name, exp)" "ed_verify ed k' (rotate_pop_message name k') pr"
    using run_key_change [OF assms] by blast
  from verify_tokenD [OF r(3)] obtain h p json where
    "jwt = h @ [DOT] @ p @ [DOT] @ tc_b64 tc (tc_hmac tc (zs_jwt_key z) (h @ [DOT] @ p))" "tc_unb64 tc p = Some json"
    "tc_read tc json = Some (Some exp, Some name)" "now \<le> exp" by auto
  then show ?thesis using r(1,2,4) by blast
qed

lemma sat_add64_ge: "x \<le> sat_add64 x y"
proof (cases "y > - 1 - x")
  case False
  moreover have "unat (- 1 - x) = 2 ^ 64 - 1 - unat x" by (simp add: unat_sub unsigned_minus_1_eq_mask mask_eq_exp_minus_1)
  ultimately have "unat y \<le> 2 ^ 64 - 1 - unat x" by (simp add: word_le_nat_alt not_less)
  moreover have "unat x < 2 ^ LENGTH(64)" by (rule unsigned_less)
  ultimately have "unat x + unat y < 2 ^ LENGTH(64)" by simp
  then have "unat (x + y) = unat x + unat y" by (simp only: unat_add_lem)
  then show ?thesis using False by (simp add: sat_add64_def word_le_nat_alt)
qed (simp add: sat_add64_def)

text \<open>
  A recorded registration takes an address: the registration message has nothing fresh in it, so whoever has seen one
  can send it again, gets a new token for the address in return, and with the token and a key of its own rotates the key
  of the address to that key; it then has a certificate for the address, and the owner's registration is refused.
\<close>

theorem recorded_registration_takes_address:
  assumes "token_codec_ok tc" "ed25519_ok ed" "from_canonical_str name = Inr a" "zs_records z a = Some k"
    and "zone_prove ed (register_pop_message name k) k recorded = Inr k" "ed_public ed seed \<noteq> k"
    and "own = ed_public ed seed" "pr = ed_sign ed seed (rotate_pop_message name own)"
  shows "\<exists>z1 i1 z2 i2. zone_register ed tc name k recorded ttl now z = (z1, Inr i1)
    \<and> rotate_key ed tc (iss_jwt i1) name own pr ttl now z1 = (z2, Inr i2)
    \<and> cert_addr (iss_cert i2) = a \<and> cert_verify_key (iss_cert i2) = own
    \<and> cert_binding_ok ed (zone_trust_anchor ed z) (cert_to_wire (iss_cert i2)) a own now
    \<and> zone_register ed tc name k recorded ttl later z2 = (z2, Inl (Zone_AlreadyRegistered a))"
proof -
  let ?z1 = "z\<lparr> zs_records := (zs_records z)(a \<mapsto> k) \<rparr>" and ?jwt = "issue_jwt tc z name now DEFAULT_TOKEN_TTL_SECS"
  let ?i1 = "\<lparr> iss_cert = issue_cert ed (zs_ca_seed z) a k (sat_add64 now ttl), iss_jwt = ?jwt \<rparr>"
  have r1: "zone_register ed tc name k recorded ttl now z = (?z1, Inr ?i1)"
    using assms(3-5) by (simp add: zone_register_def)
  have "verify_token_claims tc ?z1 ?jwt now = verify_token_claims tc z ?jwt now" by (simp add: claims_key [of ?z1 z])
  then have "verify_token tc ?z1 ?jwt now = Inr name"
    using verify_issued [OF assms(1), of z name now DEFAULT_TOKEN_TTL_SECS now] sat_add64_ge [of now DEFAULT_TOKEN_TTL_SECS]
    by (simp add: verify_token_def leD)
  then have r2: "rotate_key ed tc ?jwt name own pr ttl now ?z1 = (?z1\<lparr> zs_records := (zs_records ?z1)(a \<mapsto> own) \<rparr>,
      Inr \<lparr> iss_cert = issue_cert ed (zs_ca_seed z) a own (sat_add64 now ttl), iss_jwt = ?jwt \<rparr>)"
    using assms(3,7,8) prove_signed [OF assms(2)] by (simp add: rotate_key_def)
  have "length own = 32" using assms(2,7) by (simp add: ed25519_ok_def)
  then have c: "cert_binding_ok ed (zone_trust_anchor ed z) (cert_to_wire (issue_cert ed (zs_ca_seed z) a own (sat_add64 now ttl))) a own now"
    using cert_issued_binding(1) [OF assms(2)] sat_add64_ge by (simp add: zone_trust_anchor_def)
  have "zone_register ed tc name k recorded ttl later (?z1\<lparr> zs_records := (zs_records ?z1)(a \<mapsto> own) \<rparr>)
      = (?z1\<lparr> zs_records := (zs_records ?z1)(a \<mapsto> own) \<rparr>, Inl (Zone_AlreadyRegistered a))"
    using assms(3,5-7) by (simp add: zone_register_def)
  then show ?thesis using r1 r2 c
    by (intro exI conjI) (assumption | simp add: issue_cert_def Let_def)+
qed

definition sample_zone :: "ed25519 \<Rightarrow> zone_server" where
  "sample_zone ed = \<lparr> zs_ca_seed = [1], zs_jwt_key = [2], zs_records = Map.empty(sample_addr 1 \<mapsto> ed_public ed [4]) \<rparr>"

lemma recorded_registration_takes_address_witness:
  "\<exists>z1 i1 z2 i2 jwt. rotate_key seed_ed toy_codec jwt (to_canonical_string (sample_addr 1)) (ed_public seed_ed [5])
      (ed_sign seed_ed [5] (rotate_pop_message (to_canonical_string (sample_addr 1)) (ed_public seed_ed [5]))) 500 9 z1 = (z2, Inr i2)
    \<and> zone_register seed_ed toy_codec (to_canonical_string (sample_addr 1)) (ed_public seed_ed [4])
      (ed_sign seed_ed [4] (register_pop_message (to_canonical_string (sample_addr 1)) (ed_public seed_ed [4]))) 500 9 (sample_zone seed_ed) = (z1, Inr i1)
    \<and> jwt = iss_jwt i1 \<and> cert_verify_key (iss_cert i2) = ed_public seed_ed [5]"
proof -
  have k: "zs_records (sample_zone seed_ed) (sample_addr 1) = Some (ed_public seed_ed [4])" by (simp add: sample_zone_def)
  have d: "ed_public seed_ed [5] \<noteq> ed_public seed_ed [4]" by (simp add: seed_ed_def toy_ed_def)
  from recorded_registration_takes_address [OF toy_codec_ok seed_ed_ok sample_addr_parse k prove_signed [OF seed_ed_ok] d refl refl, of 500 9 10]
  show ?thesis by blast
qed

definition sample_rotation :: zone_op where
  "sample_rotation = Zone_Rotate (issue_jwt toy_codec (sample_zone seed_ed) (to_canonical_string (sample_addr 1)) 7 3)
     (to_canonical_string (sample_addr 1)) (ed_public seed_ed [5])
     (ed_sign seed_ed [5] (rotate_pop_message (to_canonical_string (sample_addr 1)) (ed_public seed_ed [5]))) 500 9"

lemma keys_change_by_token_witness:
  "\<exists>jwt name k' pr ttl now. Zone_Rotate jwt name k' pr ttl now \<in> set [sample_rotation] \<and> from_canonical_str name = Inr (sample_addr 1)
    \<and> ed_verify seed_ed k' (rotate_pop_message name k') pr"
proof -
  let ?n = "to_canonical_string (sample_addr 1)" and ?own = "ed_public seed_ed [5]" and ?z = "sample_zone seed_ed"
  have v: "verify_token toy_codec ?z (issue_jwt toy_codec ?z ?n 7 3) 9 = Inr ?n"
    using verify_issued [OF toy_codec_ok, of ?z ?n 7 3 9] by (simp add: verify_token_def sat_add64_def)
  have rec: "zs_records ?z (sample_addr 1) = Some (ed_public seed_ed [4])" by (simp add: sample_zone_def)
  obtain rs where r: "zone_run seed_ed toy_codec [sample_rotation] ?z = (?z\<lparr> zs_records := (zs_records ?z)(sample_addr 1 \<mapsto> ?own) \<rparr>, rs)"
    using v rec by (simp add: sample_rotation_def rotate_key_def prove_signed [OF seed_ed_ok] sample_addr_parse)
  have "zs_records (?z\<lparr> zs_records := (zs_records ?z)(sample_addr 1 \<mapsto> ?own) \<rparr>) (sample_addr 1) \<noteq> Some (ed_public seed_ed [4])"
    by (simp add: seed_ed_def toy_ed_def)
  from keys_change_by_token [OF r rec this] show ?thesis by blast
qed

text \<open>
  C26. The authority's certificate opens the other services: a host that registers its key and address gets a certificate
  with which it is a certified host of the authenticated handshake, and with which the naming service under the same
  trust anchor accepts, for the first time or again, the card it has signed, under a name that is free or already its own. The
  certificate and the card are unexpired, the card is of the current version, for this address, with valid tags and a name of
  the service's namespace; the name
  then resolves to the host's address until the card expires. This needs that the naming service does not know the address
  under another key: a host that has changed its key keeps getting a key conflict there while the old entry is in the table.
\<close>

theorem zone_admits_agent:
  assumes "ed25519_ok ed" "from_canonical_str name = Inr a" "own = ed_public ed seed"
    and "zone_register ed tc name own (ed_sign ed seed (register_pop_message name own)) ttl now z = (z', Inr i)"
    and "t \<le> sat_add64 now ttl" "an_anchor_pub an = zone_trust_anchor ed z" "agents_ok (an_store an)"
    and "check_name an (cd_name agent) = Inr ()" "cd_version agent = CARD_VERSION" "cd_addr agent = a" "t < cd_not_after agent"
    and "validate_tags (cd_capabilities agent) = Inr ()" "card_hash sha256 agent = Inr h"
    and "as_by_name (an_store an) (cd_name agent) = None \<or> as_by_name (an_store an) (cd_name agent) = Some a"
    and "\<forall>y. agent_get (an_store an) a = Some y \<longrightarrow> ag_ed_pub y = own"
    and "spec = \<lparr> sp_addr_text = name, sp_cert_wire = cert_to_wire (iss_cert i), sp_card = agent,
      sp_card_sig = ed_sign ed seed (agent_card_message (cd_version agent) h (cd_not_after agent) own),
      sp_pop = ed_sign ed seed (ans_pop_message (cd_name agent) name h) \<rparr>"
  shows "certified ed (zs_ca_seed z) \<lparr> hi_addr = a, hi_seed = seed, hi_cert = iss_cert i \<rparr>
    \<and> (\<exists>an'. ans_register ed sha256 spec t an = (an', Inr h) \<and> (\<forall>u. u < cd_not_after agent \<longrightarrow>
        (\<exists>r. resolve_name an' (cd_name agent) u = Inr r \<and> ra_addr r = a \<and> ra_tunnel_entry r = cd_tunnel_entry agent)))"
proof -
  have i: "iss_cert i = issue_cert ed (zs_ca_seed z) a own (sat_add64 now ttl)"
    using register_issued [OF assms(4)] assms(2) by auto
  have own: "length own = 32" "ed_key_ok ed own" "\<And>m. ed_verify ed own m (ed_sign ed seed m)" "\<And>m. length (ed_sign ed seed m) = 64"
    using assms(1,3) by (simp_all add: ed25519_ok_def)
  have "certified ed (zs_ca_seed z) \<lparr> hi_addr = a, hi_seed = seed, hi_cert = iss_cert i \<rparr>"
    using parsed_protocol [OF assms(2)] i by (auto simp: certified_def public_ed_key_def assms(3))
  moreover have "\<exists>an'. ans_register ed sha256 spec t an = (an', Inr h) \<and> (\<forall>u. u < cd_not_after agent \<longrightarrow>
        (\<exists>r. resolve_name an' (cd_name agent) u = Inr r \<and> ra_addr r = a \<and> ra_tunnel_entry r = cd_tunnel_entry agent))"
  proof -
    have sp: "sp_addr_text spec = name" "sp_cert_wire spec = cert_to_wire (iss_cert i)" "sp_card spec = agent"
      "sp_card_sig spec = ed_sign ed seed (agent_card_message (cd_version agent) h (cd_not_after agent) own)"
      "sp_pop spec = ed_sign ed seed (ans_pop_message (cd_name agent) name h)" by (simp_all add: assms(16))
    have c: "check_card sha256 an spec t = Inr (a, h)" using assms(2,8-13) by (simp add: check_card_def sp)
    have "cert_pubkey_from_wire (sp_cert_wire spec) = Some own"
    proof -
      have "cert_to_wire (iss_cert i) = to_bytes a @ own @ to_be64 (sat_add64 now ttl) @ cert_ca_sig (iss_cert i)"
        by (simp add: i cert_to_wire_def cert_tbs_def issue_cert_def Let_def)
      moreover have "length (cert_ca_sig (iss_cert i)) = 64" using assms(1) by (simp add: i issue_cert_def Let_def ed25519_ok_def)
      ultimately show ?thesis using cert_issued_binding(2) [OF assms(1) own(1)] own(1)
        by (simp add: cert_pubkey_from_wire_def sp(2) i slice_append_left slice_append_skip slice_full)
    qed
    then have p: "check_proofs ed an spec a h t = Inr own"
      using own cert_issued_binding(1) [OF assms(1) own(1)] assms(5,6) by (simp add: check_proofs_def sp i zone_trust_anchor_def)
    let ?x = "\<lparr> ag_ed_pub = own, ag_name = cd_name agent, ag_card = agent, ag_summary = \<lparr> ac_version = cd_version agent, ac_card_hash = h,
      ac_not_after = cd_not_after agent, ac_agent_pubkey = own, ac_card_sig = sp_card_sig spec \<rparr>, ag_lease = Option.bind (agent_get (an_store an) a) ag_lease \<rparr>"
    have r: "ans_register ed sha256 spec t an = (an\<lparr> an_store := agent_put a ?x (an_store an) \<rparr>, Inr h)"
    proof -
      have "claim_name (cd_name agent) a t (an_store an) = Inr (an_store an)" using assms(14) by (auto simp: claim_name_def)
      moreover have "\<not> (case agent_get (an_store an) a of Some cur \<Rightarrow> ag_ed_pub cur \<noteq> own | None \<Rightarrow> False)"
        using assms(15) by (auto split: option.split)
      ultimately show ?thesis using c p assms(13) by (simp add: ans_register_def card_summary_def Let_def sp(3))
    qed
    have "resolve_name (an\<lparr> an_store := agent_put a ?x (an_store an) \<rparr>) (cd_name agent) u = Inr (to_resolved ?x)" if "u < cd_not_after agent" for u
      using that by (simp add: resolve_name_def resolve_addr_def agent_expired_def)
    moreover have "ra_addr (to_resolved ?x) = a" "ra_tunnel_entry (to_resolved ?x) = cd_tunnel_entry agent"
      by (simp_all add: to_resolved_def assms(10))
    ultimately show ?thesis using r by blast
  qed
  ultimately show ?thesis by blast
qed

lemma zone_admits_agent_witness:
  "\<exists>i h an'. snd (zone_register toy_ed toy_codec (to_canonical_string (sample_addr 1)) (ed_public toy_ed [4])
      (ed_sign toy_ed [4] (register_pop_message (to_canonical_string (sample_addr 1)) (ed_public toy_ed [4]))) 500 7 (zone_from_seeds [1] [2])) = Inr i
    \<and> ans_register toy_ed sha_const \<lparr> sp_addr_text = to_canonical_string (sample_addr 1), sp_cert_wire = cert_to_wire (iss_cert i),
        sp_card = sample_card 1 [97], sp_card_sig = ed_sign toy_ed [4] (agent_card_message CARD_VERSION h 9000 (ed_public toy_ed [4])),
        sp_pop = ed_sign toy_ed [4] (ans_pop_message [97] (to_canonical_string (sample_addr 1)) h) \<rparr> 8 (ans_new (ed_public toy_ed [1]) []) = (an', Inr h)
    \<and> (\<exists>r. resolve_name an' [97] 60 = Inr r \<and> ra_addr r = sample_addr 1)"
proof -
  let ?n = "to_canonical_string (sample_addr 1)" and ?own = "ed_public toy_ed [4]" and ?z = "zone_from_seeds [1] [2]"
  let ?an = "ans_new (ed_public toy_ed [1]) []"
  obtain z' i where z: "zone_register toy_ed toy_codec ?n ?own (ed_sign toy_ed [4] (register_pop_message ?n ?own)) 500 7 ?z = (z', Inr i)"
    by (simp add: zone_register_def sample_addr_parse prove_signed [OF toy_ed_ok] zone_from_seeds_def)
  have c: "cd_name (sample_card 1 [97]) = [97]" "cd_version (sample_card 1 [97]) = CARD_VERSION" "cd_addr (sample_card 1 [97]) = sample_addr 1"
    "cd_not_after (sample_card 1 [97]) = 9000" "cd_capabilities (sample_card 1 [97]) = [[0x6F]]"
    by (simp_all add: sample_card_def const_defs)
  obtain h where h: "card_hash sha_const (sample_card 1 [97]) = Inr h" using sample_checks [of "ans_new [] []" "[97]" 6 1] by (auto simp: ans_new_def)
  have tags: "validate_tags [[0x6F]] = Inr ()" using sample_tags by (simp add: sample_task_def)
  have an: "an_anchor_pub ?an = zone_trust_anchor toy_ed ?z" "agents_ok (an_store ?an)" "check_name ?an [97] = Inr ()"
    "as_by_name (an_store ?an) [97] = None" "agent_get (an_store ?an) (sample_addr 1) = None" "(8 :: u64) \<le> sat_add64 7 500"
    using run_ok [of toy_ed sha_const "[]"]
    by (simp_all add: ans_new_def zone_trust_anchor_def zone_from_seeds_def check_name_def agent_get_def sat_add64_def)
  have "\<exists>an'. ans_register toy_ed sha_const \<lparr> sp_addr_text = ?n, sp_cert_wire = cert_to_wire (iss_cert i), sp_card = sample_card 1 [97],
        sp_card_sig = ed_sign toy_ed [4] (agent_card_message (cd_version (sample_card 1 [97])) h (cd_not_after (sample_card 1 [97])) ?own),
        sp_pop = ed_sign toy_ed [4] (ans_pop_message (cd_name (sample_card 1 [97])) ?n h) \<rparr> 8 ?an = (an', Inr h)
      \<and> (\<forall>u. u < cd_not_after (sample_card 1 [97]) \<longrightarrow>
        (\<exists>r. resolve_name an' (cd_name (sample_card 1 [97])) u = Inr r \<and> ra_addr r = sample_addr 1 \<and> ra_tunnel_entry r = cd_tunnel_entry (sample_card 1 [97])))"
    by (rule conjunct2, rule zone_admits_agent [OF toy_ed_ok sample_addr_parse refl z an(6,1,2) _ c(2,3) _ _ h _ _ refl])
      (simp_all add: c an tags)
  then obtain an' where "ans_register toy_ed sha_const \<lparr> sp_addr_text = ?n, sp_cert_wire = cert_to_wire (iss_cert i), sp_card = sample_card 1 [97],
        sp_card_sig = ed_sign toy_ed [4] (agent_card_message CARD_VERSION h 9000 ?own),
        sp_pop = ed_sign toy_ed [4] (ans_pop_message [97] ?n h) \<rparr> 8 ?an = (an', Inr h)"
    "\<exists>r. resolve_name an' [97] 60 = Inr r \<and> ra_addr r = sample_addr 1" unfolding c by force
  then show ?thesis using z by auto
qed

end
