(* ===== verification/HostKeys.thy ===== *)
theory HostKeys
  imports TunnelAuth NeighWire Ans Resolver
begin

text \<open>
  What a host key signs. One Ed25519 key of a host answers for everything the host says: the two handshake
  messages (\<open>ipv8-tunnel/src/auth.rs\<close>), the proofs of possession for the zone server, the resolver, the
  rendezvous and the naming service, the path signature of a traced packet (\<open>engine.rs\<close>), its agent card and
  its neighbour messages. The messages are the constructors of one datatype; the theory shows that none of the
  others is ever read as a handshake message, and what the acceptance of a handshake proves about such a key.
\<close>

section \<open>The messages of one key\<close>

datatype host_message =
    HM_Handshake u8 bytes ipv8_address u64 bytes
  | HM_Register bytes bytes
  | HM_Rotate bytes bytes
  | HM_Resolve bytes bytes
  | HM_Rendezvous bytes bytes
  | HM_Path trace_sig_input
  | HM_Card u8 bytes u64 bytes
  | HM_Ans bytes bytes bytes
  | HM_Neighbor u8 bytes int u64 bytes

text \<open>The bytes that are signed; \<open>k\<close> is the public key of the signer, which a transcript carries.\<close>

primrec host_message_bytes :: "bytes \<Rightarrow> host_message \<Rightarrow> bytes" where
  "host_message_bytes k (HM_Handshake role eph addr not_after peer) = transcript role eph k addr not_after peer"
| "host_message_bytes k (HM_Register addr_text key) = register_pop_message addr_text key"
| "host_message_bytes k (HM_Rotate addr_text key) = rotate_pop_message addr_text key"
| "host_message_bytes k (HM_Resolve addr_text key) = resolve_pop_message addr_text key"
| "host_message_bytes k (HM_Rendezvous addr_text peer_text) = rendezvous_pop_message addr_text peer_text"
| "host_message_bytes k (HM_Path i) = route_trace_message i"
| "host_message_bytes k (HM_Card version h not_after key) = agent_card_message version h not_after key"
| "host_message_bytes k (HM_Ans name addr_text h) = ans_pop_message name addr_text h"
| "host_message_bytes k (HM_Neighbor t addr ts nonce key) = take SIGNED_LEN (encode_parts t addr ts nonce key (replicate SIG_LEN 0))"

text \<open>The ephemeral keys are X25519 public keys of 32 bytes.\<close>

primrec host_message_wf :: "host_message \<Rightarrow> bool" where
  "host_message_wf (HM_Handshake role eph addr not_after peer) \<longleftrightarrow> length eph = 32"
| "host_message_wf (HM_Register addr_text key) \<longleftrightarrow> True"
| "host_message_wf (HM_Rotate addr_text key) \<longleftrightarrow> True"
| "host_message_wf (HM_Resolve addr_text key) \<longleftrightarrow> True"
| "host_message_wf (HM_Rendezvous addr_text peer_text) \<longleftrightarrow> True"
| "host_message_wf (HM_Path i) \<longleftrightarrow> True"
| "host_message_wf (HM_Card version h not_after key) \<longleftrightarrow> True"
| "host_message_wf (HM_Ans name addr_text h) \<longleftrightarrow> True"
| "host_message_wf (HM_Neighbor t addr ts nonce key) \<longleftrightarrow> True"

text \<open>Every message that verifies under \<open>k\<close> is one of \<open>said\<close>: the signatures of \<open>k\<close> are not forged.\<close>

definition signs_only :: "ed25519 \<Rightarrow> bytes \<Rightarrow> host_message set \<Rightarrow> bool" where
  "signs_only ed k said \<longleftrightarrow>
     (\<forall>m s. ed_verify ed k m s \<longrightarrow> (\<exists>x \<in> said. host_message_wf x \<and> m = host_message_bytes k x))"

text \<open>Every message that verifies under the key of the CA is the signed part of a certificate of \<open>issued\<close>.\<close>

definition issues_only :: "ed25519 \<Rightarrow> bytes \<Rightarrow> cert set \<Rightarrow> bool" where
  "issues_only ed ca issued \<longleftrightarrow>
     (\<forall>m s. ed_verify ed ca m s \<longrightarrow> (\<exists>c \<in> issued. length (cert_verify_key c) = 32 \<and> m = cert_tbs c))"

section \<open>Domain separation\<close>

lemma transcript_nth:
  "transcript r e k a n p ! 0 = of_char (CHR ''i'')" "transcript r e k a n p ! 9 = of_char (CHR ''h'')"
  by (simp_all add: transcript_def AUTH_DOMAIN_def)

text \<open>A message of another kind is never a transcript: they part at the tenth byte, a neighbour message at the first.\<close>

lemma transcript_only_handshake:
  assumes "host_message_bytes k x = transcript r e k a n p"
  obtains r' e' a' n' p' where "x = HM_Handshake r' e' a' n' p'"
proof (cases "\<exists>r' e' a' n' p'. x = HM_Handshake r' e' a' n' p'")
  case False
  have "host_message_bytes k x ! 0 = of_char (CHR ''i'')" "host_message_bytes k x ! 9 = of_char (CHR ''h'')"
    using assms transcript_nth by metis+
  with False have False
    by (cases x) (simp_all add: register_pop_message_def rotate_pop_message_def pop_message_def REGISTER_DOMAIN_def
        ROTATE_DOMAIN_def resolve_pop_message_def RESOLVE_DOMAIN_def rendezvous_pop_message_def RENDEZVOUS_DOMAIN_def
        route_trace_message_eq ROUTE_TRACE_DOMAIN_def agent_card_message_def AGENT_CARD_DOMAIN_def
        ans_pop_message_def ANS_REGISTER_DOMAIN_def encode_parts_def N_MAGIC_def SIGNED_LEN_def)
  then show ?thesis ..
qed (use that in blast)

lemma signed_transcript:
  assumes "signs_only ed k said" "ed_verify ed k (transcript r e k a n p) s" "length e = 32" "length k = 32"
  shows "HM_Handshake r e a n p \<in> said"
proof -
  obtain x where x: "x \<in> said" "host_message_wf x" "host_message_bytes k x = transcript r e k a n p"
    using assms(1,2) unfolding signs_only_def by metis
  from x(3) obtain r' e' a' n' p' where h: "x = HM_Handshake r' e' a' n' p'" by (rule transcript_only_handshake)
  show ?thesis using x assms(3,4) by (simp add: h transcript_inject)
qed

section \<open>What acceptance means\<close>

text \<open>
  C11. Acceptance authenticates: when a side accepts the other's message, the CA has certified the
  address it expects together with the key in the message, the certificate has not expired, and the holder of
  that key has signed a handshake message with this role, this ephemeral key, this address and expiry and, in
  a response, the initiator's own ephemeral key. Assumed: signatures are not forged, so what verifies under the
  CA's key is the signed part of a certificate it issued, and what verifies under the host's key is a message
  the host signed: a handshake message, or any of the other messages the same key signs (proofs of possession,
  path signatures, agent cards, neighbour messages), none of which can stand in for one.
\<close>

theorem auth_acceptance_sound:
  assumes "check_bundle ed trust role eph_peer (Some peer) bundle now = Inr b"
    and "issues_only ed trust issued" and "signs_only ed (ab_ed b) said"
  shows "(\<exists>c \<in> issued. cert_addr c = peer \<and> cert_verify_key c = ab_ed b \<and> now \<le> cert_not_after c)
    \<and> HM_Handshake role (ab_eph b) peer (ab_not_after b) eph_peer \<in> said"
proof -
  note ok = check_bundle_ok [OF assms(1)]
  have len: "length (ab_eph b) = 32" "length (ab_ed b) = 32" using unpack_bundle_lengths [OF ok(1)] by simp_all
  have peer: "ab_addr b = peer" using ok(4) by simp
  obtain c where "c \<in> issued" "length (cert_verify_key c) = 32"
    "cert_tbs \<lparr>cert_addr = ab_addr b, cert_verify_key = ab_ed b, cert_not_after = ab_not_after b, cert_ca_sig = ab_ca_sig b\<rparr> = cert_tbs c"
    using assms(2) ok(2) unfolding issues_only_def by blast
  then have "\<exists>c \<in> issued. cert_addr c = peer \<and> cert_verify_key c = ab_ed b \<and> now \<le> cert_not_after c"
    using len ok(3) peer by (auto simp: cert_tbs_inject)
  with signed_transcript [OF assms(3) ok(5) len] show ?thesis by (simp add: peer)
qed

text \<open>
  A man in the middle is detected: when the initiator accepts a response, the key it certifies has answered
  a message that carried the initiator's own ephemeral key, so a response to another initiator or a reflected
  first message is refused.
\<close>

lemma auth_response_bound:
  assumes "auth_finish_init ed x t pending trust (Some peer) resp now = Inr k" "unpack_bundle resp = Inr b"
    and "signs_only ed (ab_ed b) said"
  shows "HM_Handshake ROLE_R (ab_eph b) peer (ab_not_after b) (ap_eph_pub pending) \<in> said
    \<and> k = keys_new t (x_dh x (ap_eph pending) (ab_eph b)) True"
proof -
  have c: "check_bundle ed trust ROLE_R (ap_eph_pub pending) (Some peer) resp now = Inr b"
    and k: "k = keys_new t (x_dh x (ap_eph pending) (ab_eph b)) True"
    using assms(1,2) check_bundle_ok(1) by (auto simp: auth_finish_init_def split: sum.splits)
  have len: "length (ab_eph b) = 32" "length (ab_ed b) = 32" using unpack_bundle_lengths [OF assms(2)] by simp_all
  show ?thesis
    using signed_transcript [OF assms(3) check_bundle_ok(5) [OF c] len] check_bundle_ok(4) [OF c] k by simp
qed

section \<open>A host that has also registered\<close>

text \<open>One certificate; under the certified key one responder transcript, the registration at the zone and a path signature.\<close>

definition lone_cert :: cert where
  "lone_cert = \<lparr>cert_addr = addr_with_region 1 1 0 2 0, cert_verify_key = replicate 32 7, cert_not_after = 100, cert_ca_sig = replicate 64 1\<rparr>"

definition lone_bundle :: bytes where
  "lone_bundle = pack_bundle (replicate 32 3) (replicate 32 7) (addr_with_region 1 1 0 2 0) 100 (replicate 64 1) (replicate 64 2)"

definition lone_record :: auth_bundle where
  "lone_record = \<lparr>ab_eph = replicate 32 3, ab_ed = replicate 32 7, ab_addr = addr_with_region 1 1 0 2 0,
     ab_not_after = 100, ab_ca_sig = replicate 64 1, ab_hs_sig = replicate 64 2\<rparr>"

lemma lone_bundle_ok: "unpack_bundle lone_bundle = Inr lone_record"
  unfolding lone_bundle_def by (subst unpack_pack_bundle) (simp_all add: lone_record_def addr_with_region_def addr_new_def const_defs)

definition lone_trace :: trace_sig_input where
  "lone_trace = \<lparr>ts_src_addr = addr_with_region 1 1 0 2 0, ts_dst_addr = addr_with_region 2 1 0 2 0, ts_min_compat_ver = 8,
     ts_flags = 0, ts_payload_len = 0, ts_init_hop_limit = 16, ts_src_pubkey = replicate 32 7, ts_hops = []\<rparr>"

definition lone_signed :: "host_message set" where
  "lone_signed = {HM_Handshake ROLE_R (replicate 32 3) (addr_with_region 1 1 0 2 0) 100 (replicate 32 4),
     HM_Register [1, 2] (replicate 32 7), HM_Path lone_trace}"

definition lone_host_ed :: ed25519 where
  "lone_host_ed = toy_ed\<lparr>ed_verify := \<lambda>k m s. k = [] \<and> m = cert_tbs lone_cert
     \<or> k = replicate 32 7 \<and> m \<in> host_message_bytes (replicate 32 7) ` lone_signed\<rparr>"

lemma lone_host_accepts:
  "check_bundle lone_host_ed [] ROLE_R (replicate 32 4) (Some (addr_with_region 1 1 0 2 0)) lone_bundle 5 = Inr lone_record"
  unfolding check_bundle_def lone_bundle_ok
  by (simp add: anchor_verify_def verify_strict_def lone_host_ed_def lone_signed_def toy_ed_def lone_record_def lone_cert_def
      cert_tbs_def word_less_nat_alt)

lemma lone_host_signs:
  "issues_only lone_host_ed [] {lone_cert}" "signs_only lone_host_ed (ab_ed lone_record) lone_signed"
proof -
  show "issues_only lone_host_ed [] {lone_cert}"
    by (auto simp: issues_only_def lone_host_ed_def lone_cert_def)
  have "host_message_wf x" if "x \<in> lone_signed" for x using that by (auto simp: lone_signed_def)
  then show "signs_only lone_host_ed (ab_ed lone_record) lone_signed"
    by (auto simp: signs_only_def lone_host_ed_def lone_record_def)
qed

lemma auth_acceptance_sound_witness:
  "(\<exists>c \<in> {lone_cert}. cert_addr c = addr_with_region 1 1 0 2 0 \<and> cert_verify_key c = ab_ed lone_record \<and> 5 \<le> cert_not_after c)
    \<and> HM_Handshake ROLE_R (ab_eph lone_record) (addr_with_region 1 1 0 2 0) (ab_not_after lone_record) (replicate 32 4) \<in> lone_signed"
  by (rule auth_acceptance_sound [OF lone_host_accepts lone_host_signs])

lemma auth_response_bound_witness:
  "\<exists>k. auth_finish_init lone_host_ed toy_x25519 0 \<lparr>ap_eph = [1], ap_eph_pub = replicate 32 4\<rparr> []
      (Some (addr_with_region 1 1 0 2 0)) lone_bundle 5 = Inr k
    \<and> HM_Handshake ROLE_R (ab_eph lone_record) (addr_with_region 1 1 0 2 0) (ab_not_after lone_record) (replicate 32 4) \<in> lone_signed"
proof -
  obtain k where f: "auth_finish_init lone_host_ed toy_x25519 0 \<lparr>ap_eph = [1], ap_eph_pub = replicate 32 4\<rparr> []
      (Some (addr_with_region 1 1 0 2 0)) lone_bundle 5 = Inr k"
    by (simp add: auth_finish_init_def lone_host_accepts)
  with auth_response_bound [OF f lone_bundle_ok lone_host_signs(2)] show ?thesis by simp
qed

end
