(* ===== verification/NodeCert.thy ===== *)
theory NodeCert
  imports TunnelAuth
begin

text \<open>
  Certificates that a node keeps and shows: the readers of the certificate wire format and the certificate cache of
  \<open>adapter/wintun-node/src/main.rs\<close>, and the reader and the registration frame of \<open>tools/ws-node/src/main.rs\<close>. A file
  is its bytes.
\<close>

section \<open>The wire format\<close>

definition ADDR_WIRE :: nat where [const_defs]: "ADDR_WIRE = 16"
definition CERT_BODY_LEN :: nat where [const_defs]: "CERT_BODY_LEN = 16 + 32 + 8 + 64"

definition wire_addr :: "bytes \<Rightarrow> ipv8_address option" where
  "wire_addr b = (if length b \<noteq> ADDR_WIRE then None
     else Some (addr_new (from_be (slice 0 2 b)) (from_be (slice 2 4 b)) (from_be (slice 4 6 b)) (from_be (slice 6 8 b))
       (from_be (slice 8 10 b)) (from_be (slice 10 12 b)) (from_be (slice 12 14 b)) (from_be (slice 14 16 b))))"

definition cert_from_wire :: "bytes \<Rightarrow> cert option" where
  "cert_from_wire w = (if length w \<noteq> 120 then None
     else case wire_addr (slice 0 16 w) of
       None \<Rightarrow> None
     | Some addr \<Rightarrow> Some \<lparr>cert_addr = addr, cert_verify_key = slice 16 48 w, cert_not_after = from_be (slice 48 56 w),
         cert_ca_sig = slice 56 120 w\<rparr>)"

definition cert_to_bytes :: "cert \<Rightarrow> bytes" where
  "cert_to_bytes c = to_bytes (cert_addr c) @ cert_verify_key c @ to_be64 (cert_not_after c) @ cert_ca_sig c"

definition cert_from_bytes :: "bytes \<Rightarrow> cert option" where
  "cert_from_bytes b = (if length b \<noteq> CERT_BODY_LEN then None
     else case from_wire (slice 0 16 b) of
       None \<Rightarrow> None
     | Some addr \<Rightarrow> Some \<lparr>cert_addr = addr, cert_verify_key = slice 16 48 b, cert_not_after = from_be (slice 48 56 b),
         cert_ca_sig = slice 56 120 b\<rparr>)"

text \<open>The arrays of a certificate have their lengths.\<close>

definition cert_sized :: "cert \<Rightarrow> bool" where
  "cert_sized c \<longleftrightarrow> length (cert_verify_key c) = 32 \<and> length (cert_ca_sig c) = 64"

lemma wire_addr_eq: "wire_addr b = (if length b = 16 then from_wire b else None)"
  by (simp add: wire_addr_def from_wire_def addr_new_def ADDR_WIRE_def)

lemma wire_addr_to_bytes [simp]: "wire_addr (to_bytes a) = Some a"
  by (simp add: wire_addr_eq)

lemma wire_addr_Some: "wire_addr b = Some a \<longleftrightarrow> b = to_bytes a"
  using to_bytes_from_wire by (auto simp: wire_addr_eq split: if_splits)

lemma cert_from_bytes_eq: "cert_from_bytes b = cert_from_wire b"
  by (simp add: cert_from_bytes_def cert_from_wire_def CERT_BODY_LEN_def wire_addr_eq slice_def)

lemma cert_to_bytes_eq: "cert_to_bytes c = cert_to_wire c"
  by (simp add: cert_to_bytes_def cert_to_wire_def cert_tbs_def)

lemma length_cert_to_wire: "cert_sized c \<Longrightarrow> length (cert_to_wire c) = 120"
  by (simp add: cert_sized_def cert_to_wire_def cert_tbs_def)

lemma cert_from_to_wire: "cert_sized c \<Longrightarrow> cert_from_wire (cert_to_wire c) = Some c"
proof -
  assume s: "cert_sized c"
  have "slice 0 16 (cert_to_wire c) = to_bytes (cert_addr c)" "slice 16 48 (cert_to_wire c) = cert_verify_key c"
    "slice 48 56 (cert_to_wire c) = to_be64 (cert_not_after c)" "slice 56 120 (cert_to_wire c) = cert_ca_sig c"
    using s by (simp_all add: cert_to_wire_def cert_tbs_def cert_sized_def slice_append_left slice_append_skip slice_full)
  then show ?thesis using length_cert_to_wire [OF s] by (simp add: cert_from_wire_def)
qed

lemma cert_to_from_wire: "cert_from_wire w = Some c \<Longrightarrow> cert_to_wire c = w \<and> cert_sized c"
proof -
  assume a: "cert_from_wire w = Some c"
  then have len: "length w = 120" and b: "to_bytes (cert_addr c) = slice 0 16 w" "cert_verify_key c = slice 16 48 w"
    "cert_not_after c = from_be (slice 48 56 w)" "cert_ca_sig c = slice 56 120 w"
    by (auto simp: cert_from_wire_def wire_addr_Some split: if_splits option.splits)
  then have "to_be64 (cert_not_after c) = slice 48 56 w" by (simp add: to_be_from_be)
  then show ?thesis using b len by (simp add: cert_to_wire_def cert_tbs_def cert_sized_def slice_slices slice_full)
qed

interpretation cert_codec: fixed_codec cert_to_bytes cert_from_bytes cert_sized 120
  by unfold_locales
     (simp_all add: cert_to_bytes_eq cert_from_bytes_eq length_cert_to_wire cert_from_to_wire)

section \<open>The certificate cache\<close>

definition CACHE_MAGIC :: bytes where "CACHE_MAGIC = map of_char ''IP8C''"
definition CACHE_VERSION :: u8 where [const_defs]: "CACHE_VERSION = 1"
definition CA_PUB_LEN :: nat where [const_defs]: "CA_PUB_LEN = 32"
definition CACHE_LEN :: nat where [const_defs]: "CACHE_LEN = 4 + 1 + CA_PUB_LEN + CERT_BODY_LEN"

text \<open>What the registration writes, and what the next start accepts.\<close>

definition cert_cache_bytes :: "bytes \<Rightarrow> cert \<Rightarrow> bytes" where
  "cert_cache_bytes anchor c = CACHE_MAGIC @ [CACHE_VERSION] @ anchor @ cert_to_bytes c"

definition load_cert_cache ::
  "ed25519 \<Rightarrow> bytes option \<Rightarrow> ipv8_address \<Rightarrow> bytes \<Rightarrow> u64 \<Rightarrow> (host_identity \<times> bytes) option" where
  "load_cert_cache ed file self_addr ed_seed now = (case file of
     None \<Rightarrow> None
   | Some raw \<Rightarrow>
       if length raw \<noteq> CACHE_LEN \<or> slice 0 4 raw \<noteq> CACHE_MAGIC \<or> raw ! 4 \<noteq> CACHE_VERSION then None
       else let ca_pub = slice 5 (5 + CA_PUB_LEN) raw
         in case cert_from_bytes (drop (5 + CA_PUB_LEN) raw) of
              None \<Rightarrow> None
            | Some c \<Rightarrow> (case trust_anchor_from_bytes ed ca_pub of
                Inl _ \<Rightarrow> None
              | Inr trust \<Rightarrow>
                  if anchor_verify ed trust c now \<noteq> Inr () then None
                  else if cert_addr c \<noteq> self_addr \<or> cert_verify_key c \<noteq> verify_key_from_seed ed ed_seed then None
                  else Some (host_with_cert self_addr ed_seed c, trust)))"

lemma CACHE_MAGIC_simps [simp]: "length CACHE_MAGIC = 4"
  by (simp add: CACHE_MAGIC_def)

lemma cert_cache_fields:
  assumes "length anchor = 32" "cert_sized c"
  shows "length (cert_cache_bytes anchor c) = CACHE_LEN" "slice 0 4 (cert_cache_bytes anchor c) = CACHE_MAGIC"
    "cert_cache_bytes anchor c ! 4 = CACHE_VERSION" "slice 5 (5 + CA_PUB_LEN) (cert_cache_bytes anchor c) = anchor"
    "drop (5 + CA_PUB_LEN) (cert_cache_bytes anchor c) = cert_to_bytes c"
proof -
  show "slice 5 (5 + CA_PUB_LEN) (cert_cache_bytes anchor c) = anchor"
    using assms(1) by (simp add: cert_cache_bytes_def CA_PUB_LEN_def slice_def)
qed (use assms in \<open>simp_all add: cert_cache_bytes_def CACHE_LEN_def CERT_BODY_LEN_def CA_PUB_LEN_def cert_to_bytes_eq
    length_cert_to_wire nth_append slice_append_left slice_full\<close>)

text \<open>A cache that a node has written is accepted exactly as long as its certificate is that of the node and in force.\<close>

lemma cert_cache_roundtrip:
  assumes "length anchor = 32" "cert_sized c"
  shows "load_cert_cache ed (Some (cert_cache_bytes anchor c)) a seed now =
    (if ed_key_ok ed anchor \<and> ed_verify ed anchor (cert_tbs c) (cert_ca_sig c) \<and> now \<le> cert_not_after c
        \<and> cert_addr c = a \<and> cert_verify_key c = ed_public ed seed
     then Some (host_with_cert a seed c, anchor) else None)"
proof -
  have "cert_from_bytes (cert_to_bytes c) = Some c" using cert_codec.dec_enc [OF assms(2)] .
  then show ?thesis
    by (simp add: load_cert_cache_def cert_cache_fields [OF assms] trust_anchor_from_bytes_def anchor_verify_def verify_key_from_seed_def
        not_less del: One_nat_def) (auto simp: not_le)
qed

text \<open>Whatever bytes the file has: an identity out of it is certified by the anchor in it.\<close>

lemma cert_cache_sound:
  assumes "load_cert_cache ed file a seed now = Some (h, trust)"
  shows "hi_addr h = a" "hi_seed h = seed" "cert_addr (hi_cert h) = a" "cert_verify_key (hi_cert h) = public_ed_key ed h"
    "ed_verify ed trust (cert_tbs (hi_cert h)) (cert_ca_sig (hi_cert h))" "now \<le> cert_not_after (hi_cert h)" "ed_key_ok ed trust"
  using assms
  by (auto simp: load_cert_cache_def Let_def host_with_cert_def public_ed_key_def verify_key_from_seed_def anchor_verify_def
      trust_anchor_from_bytes_def not_less split: option.splits if_splits sum.splits)

end
