(* ===== verification/Relay.thy ===== *)
theory Relay
  imports NodeCert EngineDelivery
begin

text \<open>
  The relay of \<open>tools/ws-node/src/main.rs\<close>: the hub with its table from addresses to sessions, and the sessions of the
  nodes that it serves. A session has a reader, which takes the messages of its node, and a writer, which takes
  frames from the queue of the session and sends them to the node; the hub holds the sending end of the queue. The tasks run
  as events in any order. A message that closes the session stands for the end of the
  stream as well; the other messages that are not binary have no effect.
\<close>

section \<open>The hub\<close>

definition RPT_MAGIC :: bytes where "RPT_MAGIC = map of_char ''RPT0''"
definition REG_FRAME_LEN :: nat where [const_defs]: "REG_FRAME_LEN = 4 + 16 + 120"
definition ROUTE_HDR_LEN :: nat where [const_defs]: "ROUTE_HDR_LEN = ADDR_WIRE"

text \<open>Sessions have numbers; the sender of the queue of a session is its number.\<close>

record relay_hub =
  rh_by_addr :: "ipv8_address \<rightharpoonup> nat"
  rh_trust :: bytes
  rh_forwarded :: u64
  rh_noroute :: u64
  rh_rejected :: u64

text \<open>The queue is open as long as the writer holds its receiving end.\<close>

record relay_session =
  rs_addr :: ipv8_address
  rs_reading :: bool
  rs_open :: bool
  rs_queue :: "bytes list"
  rs_wire :: "bytes list"

record relay_server =
  rl_hub :: relay_hub
  rl_sessions :: "nat \<rightharpoonup> relay_session"

definition relay_hub_new :: "ed25519 \<Rightarrow> bytes \<Rightarrow> (unit, relay_hub) outcome" where
  "relay_hub_new ed ca_pub = (case trust_anchor_from_bytes ed ca_pub of
     Inl _ \<Rightarrow> Panic
   | Inr trust \<Rightarrow> Ok \<lparr>rh_by_addr = Map.empty, rh_trust = trust, rh_forwarded = 0, rh_noroute = 0, rh_rejected = 0\<rparr>)"

definition relay_register :: "ed25519 \<Rightarrow> bytes \<Rightarrow> nat \<Rightarrow> u64 \<Rightarrow> relay_hub \<Rightarrow> relay_hub \<times> ipv8_address option" where
  "relay_register ed frame sid now hub = (
     if length frame \<noteq> REG_FRAME_LEN \<or> slice 0 4 frame \<noteq> RPT_MAGIC
     then (hub\<lparr>rh_rejected := rh_rejected hub + 1\<rparr>, None)
     else case wire_addr (slice 4 20 frame) of
       None \<Rightarrow> (hub, None)
     | Some addr \<Rightarrow> (case cert_from_wire (drop 20 frame) of
         None \<Rightarrow> (hub, None)
       | Some c \<Rightarrow>
           if cert_addr c \<noteq> addr \<or> anchor_verify ed (rh_trust hub) c now \<noteq> Inr ()
           then (hub\<lparr>rh_rejected := rh_rejected hub + 1\<rparr>, None)
           else (hub\<lparr>rh_by_addr := (rh_by_addr hub)(addr \<mapsto> sid)\<rparr>, Some addr)))"

definition no_route :: "relay_server \<Rightarrow> relay_server" where
  "no_route r = r\<lparr>rl_hub := (rl_hub r)\<lparr>rh_noroute := rh_noroute (rl_hub r) + 1\<rparr>\<rparr>"

definition relay_route :: "bytes \<Rightarrow> relay_server \<Rightarrow> relay_server \<times> bool" where
  "relay_route msg r = (
     if length msg \<le> ROUTE_HDR_LEN then (no_route r, False)
     else case wire_addr (slice 0 ROUTE_HDR_LEN msg) of
       None \<Rightarrow> (no_route r, False)
     | Some dst \<Rightarrow> (case rh_by_addr (rl_hub r) dst of
         None \<Rightarrow> (no_route r, False)
       | Some sid \<Rightarrow> (case rl_sessions r sid of
           Some s \<Rightarrow>
             if rs_open s
             then (r\<lparr>rl_sessions := (rl_sessions r)(sid \<mapsto> s\<lparr>rs_queue := rs_queue s @ [msg]\<rparr>),
                     rl_hub := (rl_hub r)\<lparr>rh_forwarded := rh_forwarded (rl_hub r) + 1\<rparr>\<rparr>, True)
             else (no_route (r\<lparr>rl_hub := (rl_hub r)\<lparr>rh_by_addr := (rh_by_addr (rl_hub r))(dst := None)\<rparr>\<rparr>), False)
         | None \<Rightarrow> (no_route (r\<lparr>rl_hub := (rl_hub r)\<lparr>rh_by_addr := (rh_by_addr (rl_hub r))(dst := None)\<rparr>\<rparr>), False))))"

definition relay_unregister :: "ipv8_address \<Rightarrow> relay_hub \<Rightarrow> relay_hub" where
  "relay_unregister addr hub = hub\<lparr>rh_by_addr := (rh_by_addr hub)(addr := None)\<rparr>"

section \<open>Sessions\<close>

datatype ws_message = Binary bytes | Close | Other

text \<open>
  What can happen: the first message of a new connection, a further message, an error of the reader, and the steps of
  the writer, which sends the oldest frame of the queue or fails and lets the queue go.
\<close>

datatype relay_event = First nat ws_message u64 | Received nat ws_message | ReadError nat | Sent nat | SendFailed nat

definition session_first :: "ed25519 \<Rightarrow> nat \<Rightarrow> ws_message \<Rightarrow> u64 \<Rightarrow> relay_server \<Rightarrow> relay_server" where
  "session_first ed sid m now r = (case m of
     Binary reg \<Rightarrow> (case relay_register ed reg sid now (rl_hub r) of
         (hub, None) \<Rightarrow> r\<lparr>rl_hub := hub\<rparr>
       | (hub, Some addr) \<Rightarrow> r\<lparr>rl_hub := hub, rl_sessions := (rl_sessions r)(sid \<mapsto>
           \<lparr>rs_addr = addr, rs_reading = True, rs_open = True, rs_queue = [], rs_wire = []\<rparr>)\<rparr>)
   | _ \<Rightarrow> r)"

definition session_received :: "nat \<Rightarrow> relay_session \<Rightarrow> ws_message \<Rightarrow> relay_server \<Rightarrow> relay_server" where
  "session_received sid s m r = (case m of
     Binary b \<Rightarrow> if b = [] then r else fst (relay_route b r)
   | Close \<Rightarrow> r\<lparr>rl_hub := relay_unregister (rs_addr s) (rl_hub r),
       rl_sessions := (rl_sessions r)(sid \<mapsto> s\<lparr>rs_reading := False\<rparr>)\<rparr>
   | Other \<Rightarrow> r)"

definition session_sent :: "relay_session \<Rightarrow> relay_session" where
  "session_sent s = (case rs_queue s of
     [] \<Rightarrow> s
   | f # q \<Rightarrow> if rs_open s then s\<lparr>rs_queue := q, rs_wire := rs_wire s @ [f]\<rparr> else s)"

fun relay_step :: "ed25519 \<Rightarrow> relay_event \<Rightarrow> relay_server \<Rightarrow> relay_server" where
  "relay_step ed (First sid m now) r = (if rl_sessions r sid = None then session_first ed sid m now r else r)"
| "relay_step ed (Received sid m) r = (case rl_sessions r sid of
     Some s \<Rightarrow> if rs_reading s then session_received sid s m r else r
   | None \<Rightarrow> r)"
| "relay_step ed (ReadError sid) r = (case rl_sessions r sid of
     Some s \<Rightarrow> r\<lparr>rl_sessions := (rl_sessions r)(sid \<mapsto> s\<lparr>rs_reading := False\<rparr>)\<rparr>
   | None \<Rightarrow> r)"
| "relay_step ed (Sent sid) r = (case rl_sessions r sid of
     Some s \<Rightarrow> r\<lparr>rl_sessions := (rl_sessions r)(sid \<mapsto> session_sent s)\<rparr>
   | None \<Rightarrow> r)"
| "relay_step ed (SendFailed sid) r = (case rl_sessions r sid of
     Some s \<Rightarrow> r\<lparr>rl_sessions := (rl_sessions r)(sid \<mapsto> s\<lparr>rs_open := False, rs_queue := []\<rparr>)\<rparr>
   | None \<Rightarrow> r)"

definition relay_run :: "ed25519 \<Rightarrow> relay_event list \<Rightarrow> relay_server \<Rightarrow> relay_server" where
  "relay_run ed evs r = fold (relay_step ed) evs r"

lemma relay_run_simps [simp]:
  "relay_run ed [] r = r"
  "relay_run ed (e # evs) r = relay_run ed evs (relay_step ed e r)"
  "relay_run ed (evs @ evs') r = relay_run ed evs' (relay_run ed evs r)"
  by (simp_all add: relay_run_def)

definition relay_start :: "bytes \<Rightarrow> relay_server" where
  "relay_start trust = \<lparr>rl_hub = \<lparr>rh_by_addr = Map.empty, rh_trust = trust, rh_forwarded = 0, rh_noroute = 0, rh_rejected = 0\<rparr>,
     rl_sessions = Map.empty\<rparr>"

text \<open>What a node sends: its registration, and frames with the address of the receiver in front.\<close>

definition reg_frame :: "ipv8_address \<Rightarrow> cert \<Rightarrow> bytes" where
  "reg_frame addr c = RPT_MAGIC @ to_bytes addr @ cert_to_wire c"

definition wrap :: "ipv8_address \<Rightarrow> bytes \<Rightarrow> bytes" where
  "wrap dst frame = to_bytes dst @ frame"

text \<open>What a node takes out of a message of the relay.\<close>

definition unwrap :: "bytes \<Rightarrow> bytes option" where
  "unwrap b = (if length b \<le> ROUTE_HDR_LEN then None else Some (drop ROUTE_HDR_LEN b))"

section \<open>Registration\<close>

lemma RPT_MAGIC_length [simp]: "length RPT_MAGIC = 4"
  by (simp add: RPT_MAGIC_def)

lemma reg_frame_fields:
  assumes "cert_sized c"
  shows "length (reg_frame a c) = REG_FRAME_LEN" "slice 0 4 (reg_frame a c) = RPT_MAGIC" "slice 4 20 (reg_frame a c) = to_bytes a"
    "drop 20 (reg_frame a c) = cert_to_wire c"
  using assms
  by (simp_all add: reg_frame_def REG_FRAME_LEN_def length_cert_to_wire slice_append_left slice_append_skip slice_full)

lemma register_accepts:
  "snd (relay_register ed frame sid now hub) = Some a \<longleftrightarrow>
   (\<exists>c. frame = reg_frame a c \<and> cert_sized c \<and> cert_addr c = a \<and> ed_verify ed (rh_trust hub) (cert_tbs c) (cert_ca_sig c) \<and> now \<le> cert_not_after c)"
  (is "?l \<longleftrightarrow> ?r")
proof
  assume ?l
  then obtain c where c: "length frame = REG_FRAME_LEN" "slice 0 4 frame = RPT_MAGIC" "wire_addr (slice 4 20 frame) = Some a"
    "cert_from_wire (drop 20 frame) = Some c" "cert_addr c = a" "anchor_verify ed (rh_trust hub) c now = Inr ()"
    by (auto simp: relay_register_def split: if_splits option.splits)
  have "frame = slice 0 4 frame @ slice 4 20 frame @ drop 20 frame"
    using slice_slices [of 0 4 20 frame] by (simp add: slice_def flip: append_assoc)
  then show ?r
    using c cert_to_from_wire [OF c(4)]
    by (intro exI [of _ c]) (auto simp: reg_frame_def wire_addr_Some anchor_verify_def not_less split: if_splits)
next
  assume ?r
  then show ?l
    by (auto simp: relay_register_def reg_frame_fields cert_from_to_wire anchor_verify_def)
qed

lemma register_ok:
  assumes "cert_sized c" "cert_addr c = a" "ed_verify ed (rh_trust hub) (cert_tbs c) (cert_ca_sig c)" "now \<le> cert_not_after c"
  shows "relay_register ed (reg_frame a c) sid now hub = (hub\<lparr>rh_by_addr := (rh_by_addr hub)(a \<mapsto> sid)\<rparr>, Some a)"
  using assms by (simp add: relay_register_def reg_frame_fields cert_from_to_wire anchor_verify_def)

lemma register_table:
  "rh_by_addr (fst (relay_register ed frame sid now hub)) = (case snd (relay_register ed frame sid now hub) of
     Some a \<Rightarrow> (rh_by_addr hub)(a \<mapsto> sid) | None \<Rightarrow> rh_by_addr hub)"
  "rh_trust (fst (relay_register ed frame sid now hub)) = rh_trust hub"
  by (simp_all add: relay_register_def split: option.split)

section \<open>What a step does\<close>

lemma no_route_simps [simp]:
  "rl_sessions (no_route r) = rl_sessions r" "rh_by_addr (rl_hub (no_route r)) = rh_by_addr (rl_hub r)"
  "rh_trust (rl_hub (no_route r)) = rh_trust (rl_hub r)"
  by (simp_all add: no_route_def)

text \<open>The address that a registering first message claims, and the messages that a step takes for an address.\<close>

definition registers :: "ed25519 \<Rightarrow> relay_event \<Rightarrow> relay_server \<Rightarrow> (nat \<times> ipv8_address) option" where
  "registers ed e r = (case e of
     First sid (Binary b) now \<Rightarrow> if rl_sessions r sid = None
       then map_option (\<lambda>a. (sid, a)) (snd (relay_register ed b sid now (rl_hub r))) else None
   | _ \<Rightarrow> None)"

definition taken_for :: "ipv8_address \<Rightarrow> relay_event \<Rightarrow> relay_server \<Rightarrow> bytes list" where
  "taken_for a e r = (case e of
     Received sid (Binary m) \<Rightarrow> (case rl_sessions r sid of
         Some x \<Rightarrow> if rs_reading x \<and> ROUTE_HDR_LEN < length m \<and> wire_addr (slice 0 ROUTE_HDR_LEN m) = Some a then [m] else []
       | None \<Rightarrow> [])
   | _ \<Rightarrow> [])"

lemma first_table:
  shows "rh_by_addr (rl_hub (relay_step ed (First sid m now) r)) = (case registers ed (First sid m now) r of
     Some (s, a) \<Rightarrow> (rh_by_addr (rl_hub r))(a \<mapsto> s) | None \<Rightarrow> rh_by_addr (rl_hub r))" (is ?t)
    and "rl_sessions (relay_step ed (First sid m now) r) = (case registers ed (First sid m now) r of
     Some (s, a) \<Rightarrow> (rl_sessions r)(s \<mapsto> \<lparr>rs_addr = a, rs_reading = True, rs_open = True, rs_queue = [], rs_wire = []\<rparr>)
   | None \<Rightarrow> rl_sessions r)" (is ?s)
    and "rh_trust (rl_hub (relay_step ed (First sid m now) r)) = rh_trust (rl_hub r)" (is ?u)
proof -
  have *: "relay_register ed b sid now (rl_hub r) = (hub, reg) \<Longrightarrow> rh_by_addr hub = (case reg of
      Some a \<Rightarrow> (rh_by_addr (rl_hub r))(a \<mapsto> sid) | None \<Rightarrow> rh_by_addr (rl_hub r)) \<and> rh_trust hub = rh_trust (rl_hub r)" for b hub reg
    using register_table [of ed b sid now "rl_hub r"] by simp
  show ?t ?s ?u
    by (auto simp: session_first_def registers_def dest!: * split: ws_message.split prod.split option.splits)
qed

lemma registers_fresh: "registers ed e r = Some (s, a) \<Longrightarrow> rl_sessions r s = None"
  by (auto simp: registers_def split: relay_event.splits ws_message.splits if_splits)

lemma step_route:
  "rh_by_addr (rl_hub (relay_step ed e r)) a = Some s \<Longrightarrow>
   rh_by_addr (rl_hub r) a = Some s \<or> registers ed e r = Some (s, a)"
proof (cases e)
  case (Received sid m)
  then show "rh_by_addr (rl_hub (relay_step ed e r)) a = Some s \<Longrightarrow> ?thesis"
    by (auto simp: session_received_def relay_route_def relay_unregister_def Let_def
        split: option.splits ws_message.splits if_splits)
qed (auto simp: first_table simp del: relay_step.simps(1) split: option.splits if_splits)

lemma step_trust: "rh_trust (rl_hub (relay_step ed e r)) = rh_trust (rl_hub r)"
proof (cases e)
  case (Received sid m)
  then show ?thesis
    by (auto simp: session_received_def relay_route_def relay_unregister_def split: option.splits ws_message.splits)
qed (auto simp: first_table simp del: relay_step.simps(1) split: option.splits)

lemma run_trust: "rh_trust (rl_hub (relay_run ed evs r)) = rh_trust (rl_hub r)"
  by (induction evs arbitrary: r) (simp_all add: step_trust)

text \<open>A session keeps its address, its queue does not reopen, and what it wrote stays written.\<close>

lemma step_session:
  assumes "rl_sessions r s = Some x"
  shows "\<exists>y. rl_sessions (relay_step ed e r) s = Some y \<and> rs_addr y = rs_addr x \<and> (rs_open y \<longrightarrow> rs_open x)"
proof (cases e)
  case (First sid m now)
  then show ?thesis using assms registers_fresh [of ed e r]
    by (auto simp: first_table simp del: relay_step.simps(1) split: option.splits)
next
  case (Received sid m)
  then show ?thesis using assms
    by (auto simp: session_received_def relay_route_def split: option.splits ws_message.splits)
qed (use assms in \<open>auto simp: session_sent_def split: option.splits list.splits\<close>)

text \<open>The routes of the hub lead to sessions of the address.\<close>

definition routes_ok :: "relay_server \<Rightarrow> bool" where
  "routes_ok r \<longleftrightarrow> (\<forall>a s. rh_by_addr (rl_hub r) a = Some s \<longrightarrow> (\<exists>x. rl_sessions r s = Some x \<and> rs_addr x = a))"

lemma step_routes_ok: "routes_ok r \<Longrightarrow> routes_ok (relay_step ed e r)"
  unfolding routes_ok_def
proof (intro allI impI)
  fix a s
  assume ok: "\<forall>a s. rh_by_addr (rl_hub r) a = Some s \<longrightarrow> (\<exists>x. rl_sessions r s = Some x \<and> rs_addr x = a)"
    and to: "rh_by_addr (rl_hub (relay_step ed e r)) a = Some s"
  from step_route [OF to] show "\<exists>x. rl_sessions (relay_step ed e r) s = Some x \<and> rs_addr x = a"
  proof
    assume "rh_by_addr (rl_hub r) a = Some s"
    then show ?thesis using ok step_session [of r s _ ed e] by fastforce
  next
    assume reg: "registers ed e r = Some (s, a)"
    then obtain m now where "e = First s m now"
      by (auto simp: registers_def split: relay_event.splits ws_message.splits if_splits)
    then show ?thesis using reg by (simp add: first_table del: relay_step.simps(1))
  qed
qed

lemma run_routes_ok: "routes_ok r \<Longrightarrow> routes_ok (relay_run ed evs r)"
  by (induction evs arbitrary: r) (simp_all add: step_routes_ok)

lemma start_routes_ok: "routes_ok (relay_start trust)"
  by (simp add: routes_ok_def relay_start_def)

section \<open>Who is registered\<close>

lemma step_certified:
  assumes "registers ed e r = Some (s, a)"
  shows "\<exists>c now. e = First s (Binary (reg_frame a c)) now \<and> cert_sized c \<and> cert_addr c = a
    \<and> ed_verify ed (rh_trust (rl_hub r)) (cert_tbs c) (cert_ca_sig c) \<and> now \<le> cert_not_after c"
  using assms
  by (auto simp: registers_def register_accepts split: relay_event.splits ws_message.splits if_splits)

lemma run_certified:
  "rh_by_addr (rl_hub (relay_run ed evs r)) a = Some s \<Longrightarrow> rh_by_addr (rl_hub r) a = Some s \<or>
   (\<exists>c now. First s (Binary (reg_frame a c)) now \<in> set evs \<and> cert_sized c \<and> cert_addr c = a
     \<and> ed_verify ed (rh_trust (rl_hub r)) (cert_tbs c) (cert_ca_sig c) \<and> now \<le> cert_not_after c)"
proof (induction evs arbitrary: r)
  case (Cons e evs)
  have "rh_by_addr (rl_hub (relay_run ed evs (relay_step ed e r))) a = Some s" using Cons.prems by simp
  from Cons.IH [OF this] show ?case
    using step_route [of ed e r a s] step_certified [of ed e r s a] by (auto simp: step_trust)
qed simp

text \<open>
  C30. The relay routes by certificate: whatever connections, messages, errors and writes have happened, an address leads
  to a session only if the first message of that session was the registration of the address with a certificate of
  the trusted authority for it that was in force at the time.
\<close>

theorem relay_routes_certified:
  assumes "rh_by_addr (rl_hub (relay_run ed evs (relay_start trust))) a = Some s"
  shows "\<exists>c now. First s (Binary (reg_frame a c)) now \<in> set evs \<and> cert_addr c = a
    \<and> ed_verify ed trust (cert_tbs c) (cert_ca_sig c) \<and> now \<le> cert_not_after c"
  using run_certified [OF assms] by (auto simp: relay_start_def)

section \<open>Messages through the relay\<close>

lemma step_keeps:
  "rh_by_addr (rl_hub (relay_step ed e r)) a = Some s \<Longrightarrow> rl_sessions r s = Some x \<Longrightarrow> rh_by_addr (rl_hub r) a = Some s"
  using step_route [of ed e r a s] registers_fresh [of ed e r s a] by auto

lemma step_fifo:
  assumes "routes_ok r" "rl_sessions r s = Some x" "rl_sessions (relay_step ed e r) s = Some y" "rs_open y"
    and "rh_by_addr (rl_hub (relay_step ed e r)) a = Some s"
  shows "rs_wire y @ rs_queue y = rs_wire x @ rs_queue x @ taken_for a e r"
proof -
  note to = step_keeps [OF assms(5,2)]
  obtain x' where x': "rl_sessions r s = Some x'" "rs_addr x' = a" using assms(1) to by (auto simp: routes_ok_def)
  have other: "b \<noteq> a \<Longrightarrow> rh_by_addr (rl_hub r) b \<noteq> Some s" for b using assms(1) x' by (fastforce simp: routes_ok_def)
  show ?thesis
  proof (cases e)
    case (First sid m now)
    then show ?thesis using assms registers_fresh [of ed e r]
      by (auto simp: first_table taken_for_def simp del: relay_step.simps(1) split: option.splits if_splits)
  next
    case (Received sid m)
    show ?thesis
    proof (cases m)
      case (Binary b)
      then show ?thesis using assms to other Received
        by (auto simp: session_received_def relay_route_def taken_for_def split: option.splits if_splits)
    qed (use assms Received in \<open>auto simp: session_received_def taken_for_def split: option.splits if_splits\<close>)
  qed (use assms in \<open>auto simp: taken_for_def session_sent_def split: option.splits if_splits list.splits\<close>)
qed

primrec messages_for :: "ed25519 \<Rightarrow> ipv8_address \<Rightarrow> relay_event list \<Rightarrow> relay_server \<Rightarrow> bytes list" where
  "messages_for ed a [] r = []"
| "messages_for ed a (e # es) r = taken_for a e r @ messages_for ed a es (relay_step ed e r)"

lemma run_back:
  assumes "rl_sessions r s = Some x" "rl_sessions (relay_run ed evs r) s = Some y" "rs_open y"
    and "rh_by_addr (rl_hub (relay_run ed evs r)) a = Some s"
  shows "rs_open x \<and> rh_by_addr (rl_hub r) a = Some s"
  using assms
proof (induction evs arbitrary: r x)
  case (Cons e evs)
  obtain z where z: "rl_sessions (relay_step ed e r) s = Some z" "rs_open z \<longrightarrow> rs_open x"
    using step_session [OF Cons.prems(1)] by blast
  from Cons.IH [OF z(1)] Cons.prems(2-4) have "rs_open z" "rh_by_addr (rl_hub (relay_step ed e r)) a = Some s" by simp_all
  then show ?case using z(2) step_keeps [OF _ Cons.prems(1)] by blast
qed auto

lemma run_fifo:
  assumes "routes_ok r" "rl_sessions r s = Some x" "rl_sessions (relay_run ed evs r) s = Some y" "rs_open y"
    and "rh_by_addr (rl_hub (relay_run ed evs r)) a = Some s"
  shows "rs_wire y @ rs_queue y = rs_wire x @ rs_queue x @ messages_for ed a evs r"
  using assms
proof (induction evs arbitrary: r x)
  case (Cons e evs)
  let ?r = "relay_step ed e r"
  obtain z where z: "rl_sessions ?r s = Some z" using step_session [OF Cons.prems(2)] by blast
  have run: "rl_sessions (relay_run ed evs ?r) s = Some y" "rh_by_addr (rl_hub (relay_run ed evs ?r)) a = Some s"
    using Cons.prems by simp_all
  have "rs_open z" "rh_by_addr (rl_hub ?r) a = Some s" using run_back [OF z run(1) Cons.prems(4) run(2)] by simp_all
  from step_fifo [OF Cons.prems(1,2) z this] Cons.IH [OF step_routes_ok [OF Cons.prems(1)] z run(1) Cons.prems(4) run(2)]
  show ?case by simp
qed simp

text \<open>
  The relay is a queue: as long as an address leads to one open session, what the session has been sent and has still
  waiting is exactly, unchanged and in order, the messages for the address that the readers have taken, whatever else
  happens on the relay in between.
\<close>

theorem relay_in_order:
  assumes "r = relay_run ed before (relay_start trust)" "rl_sessions r s = Some x"
    and "R = relay_run ed evs r" "rl_sessions R s = Some y" "rs_open y" "rh_by_addr (rl_hub R) a = Some s"
  shows "rs_wire y @ rs_queue y = rs_wire x @ rs_queue x @ messages_for ed a evs r"
  using run_fifo [OF run_routes_ok [OF start_routes_ok]] assms by blast

lemma length_wrap [simp]: "length (wrap dst f) = 16 + length f"
  by (simp add: wrap_def)

lemma unwrap_wrap [simp]: "unwrap (wrap dst f) = (if f = [] then None else Some f)"
  by (simp add: unwrap_def wrap_def ROUTE_HDR_LEN_def ADDR_WIRE_def)

lemma taken_for_wrap:
  "rl_sessions r sid = Some x \<Longrightarrow> rs_reading x \<Longrightarrow> f \<noteq> [] \<Longrightarrow> taken_for a (Received sid (Binary (wrap a f))) r = [wrap a f]"
  by (simp add: taken_for_def ROUTE_HDR_LEN_def ADDR_WIRE_def wrap_def slice_append_left slice_full)

lemma messages_long: "m \<in> set (messages_for ed a evs r) \<Longrightarrow> 16 < length m"
  by (induction evs arbitrary: r)
     (auto simp: taken_for_def ROUTE_HDR_LEN_def ADDR_WIRE_def split: relay_event.splits ws_message.splits option.splits if_splits)

section \<open>A tunnel through the relay\<close>

lemma relay_tunnel:
  assumes "aead_correct (ev_crypto ev)" "aead_total (ev_crypto ev)" "aead_length (ev_crypto ev)"
    and "linked ev A B (8192 * length pkts)"
    and "\<forall>(t, inner, arrive) \<in> set pkts. length inner \<le> 65467 \<and> (\<forall>i. arrive i - arrive 0 < REASSEMBLY_TIMEOUT)"
    and "r = relay_run ed before (relay_start trust)" "rl_sessions r s = Some x" "rs_wire x = []" "rs_queue x = []"
    and "R = relay_run ed evs r" "rl_sessions R s = Some y" "rs_open y" "rs_queue y = []" "rh_by_addr (rl_hub R) b = Some s"
    and "seal_each ev pkts A = Ok fss" "messages_for ed b evs r = map (wrap b) (concat fss)"
  shows "\<exists>B'. receive_frames ev now (zip (arrivals pkts fss) (List.map_filter unwrap (rs_wire y))) B =
    Ok (B', map (\<lambda>(t, inner, arrive). inner) pkts)"
proof -
  have w: "rs_wire y = map (wrap b) (concat fss)"
    using relay_in_order [OF assms(6,7,10-12,14)] assms(8,9,13,16) by simp
  have "f \<noteq> []" if "f \<in> set (concat fss)" for f
    using messages_long [of "wrap b f" ed b evs r] assms(16) that by auto
  then have "List.map_filter unwrap (rs_wire y) = concat fss"
    unfolding w map_filter_def by (induction "concat fss" arbitrary: fss) (auto simp: comp_def filter_map intro: map_idI)
  then show ?thesis using seal_each_delivered [OF assms(1-5)] assms(15) by auto
qed

text \<open>
  C31. The relay carries the tunnel: let the engines of \<open>A\<close> and \<open>B\<close> share keys, let \<open>B\<close> have a session at the relay that has
  taken nothing yet, and let what the readers of the relay take for the address of \<open>B\<close> from then on be what \<open>A\<close> seals for a
  list of inner packets. If at the end that session is still open, its writer has caught up, and the address of \<open>B\<close> still routes
  to it (so nobody else has taken the route, and the end of no older session has cut it), then what \<open>B\<close> takes out of its
  messages gives exactly those packets in order, whatever messages for other addresses, joins and leaves come in between.
\<close>

theorem relay_carries_tunnel:
  assumes "aead_correct (ev_crypto ev)" "aead_total (ev_crypto ev)" "aead_length (ev_crypto ev)"
    and "linked ev A B (8192 * length pkts)"
    and "\<forall>(t, inner, arrive) \<in> set pkts. length inner \<le> 65467 \<and> (\<forall>i. arrive i - arrive 0 < REASSEMBLY_TIMEOUT)"
    and "r = relay_run ed before (relay_start trust)" "rl_sessions r s = Some x" "rs_wire x = []" "rs_queue x = []"
    and "R = relay_run ed evs r" "rl_sessions R s = Some y" "rs_open y" "rs_queue y = []" "rh_by_addr (rl_hub R) b = Some s"
    and "seal_each ev pkts A = Ok fss" "messages_for ed b evs r = map (wrap b) (concat fss)"
  shows "\<exists>B'. receive_frames ev now (zip (arrivals pkts fss) (List.map_filter unwrap (rs_wire y))) B =
    Ok (B', map (\<lambda>(t, inner, arrive). inner) pkts)"
  by (rule relay_tunnel [OF assms])

section \<open>Concrete instances\<close>

definition node_cert :: "nat \<Rightarrow> cert" where
  "node_cert n = hi_cert (toy_host n)"

lemma node_cert_ok:
  "cert_sized (node_cert n)" "cert_addr (node_cert n) = addr_with_region (of_nat n) 1 0 2 0" "cert_not_after (node_cert n) = 100"
  by (simp_all add: node_cert_def toy_host_def provision_def issue_cert_def cert_sized_def toy_ed_def)

lemma toy_register:
  "now \<le> 100 \<Longrightarrow> relay_register toy_ed (reg_frame (addr_with_region (of_nat n) 1 0 2 0) (node_cert n)) sid now hub =
   (hub\<lparr>rh_by_addr := (rh_by_addr hub)(addr_with_region (of_nat n) 1 0 2 0 \<mapsto> sid)\<rparr>, Some (addr_with_region (of_nat n) 1 0 2 0))"
  by (rule register_ok) (simp_all add: node_cert_ok toy_ed_def)

text \<open>Two nodes that have registered.\<close>

definition toy_joins :: "relay_event list" where
  "toy_joins = [First 1 (Binary (reg_frame (toy_addr 1) (node_cert 1))) 5, First 2 (Binary (reg_frame (toy_addr 2) (node_cert 2))) 6]"

definition toy_session :: "nat \<Rightarrow> relay_session" where
  "toy_session n = \<lparr>rs_addr = toy_addr n, rs_reading = True, rs_open = True, rs_queue = [], rs_wire = []\<rparr>"

lemma node_addr_inject [simp]: "toy_addr 1 \<noteq> toy_addr 2" "toy_addr 2 \<noteq> toy_addr 1"
  by (simp_all add: toy_addr_def addr_with_region_def addr_new_def)

lemma toy_joined: "relay_run toy_ed toy_joins (relay_start []) =
    \<lparr>rl_hub = \<lparr>rh_by_addr = [toy_addr 1 \<mapsto> 1, toy_addr 2 \<mapsto> 2], rh_trust = [], rh_forwarded = 0, rh_noroute = 0, rh_rejected = 0\<rparr>,
     rl_sessions = [1 \<mapsto> toy_session 1, 2 \<mapsto> toy_session 2]\<rparr>"
  using toy_register [of 5 1 1] toy_register [of 6 2 2]
  by (simp add: toy_joins_def relay_start_def session_first_def toy_session_def toy_addr_def)

lemma relay_routes_certified_witness:
  "\<exists>c now. First 2 (Binary (reg_frame (toy_addr 2) c)) now \<in> set toy_joins \<and> cert_addr c = toy_addr 2
    \<and> ed_verify toy_ed [] (cert_tbs c) (cert_ca_sig c) \<and> now \<le> cert_not_after c"
  by (rule relay_routes_certified) (simp add: toy_joined)

lemma toy_exchange:
  assumes "f \<noteq> []"
  shows "relay_run toy_ed [Received 1 (Binary (wrap (toy_addr 2) f)), Sent 2] (relay_run toy_ed toy_joins (relay_start [])) =
    \<lparr>rl_hub = \<lparr>rh_by_addr = [toy_addr 1 \<mapsto> 1, toy_addr 2 \<mapsto> 2], rh_trust = [], rh_forwarded = 1, rh_noroute = 0, rh_rejected = 0\<rparr>,
     rl_sessions = [1 \<mapsto> toy_session 1, 2 \<mapsto> (toy_session 2)\<lparr>rs_wire := [wrap (toy_addr 2) f]\<rparr>]\<rparr>"
    "messages_for toy_ed (toy_addr 2) [Received 1 (Binary (wrap (toy_addr 2) f)), Sent 2] (relay_run toy_ed toy_joins (relay_start []))
      = [wrap (toy_addr 2) f]"
proof -
  have w: "wrap (toy_addr 2) f \<noteq> []" using length_wrap [of "toy_addr 2" f] by (metis add_is_0 list.size(3) zero_neq_numeral)
  show "relay_run toy_ed [Received 1 (Binary (wrap (toy_addr 2) f)), Sent 2] (relay_run toy_ed toy_joins (relay_start [])) =
    \<lparr>rl_hub = \<lparr>rh_by_addr = [toy_addr 1 \<mapsto> 1, toy_addr 2 \<mapsto> 2], rh_trust = [], rh_forwarded = 1, rh_noroute = 0, rh_rejected = 0\<rparr>,
     rl_sessions = [1 \<mapsto> toy_session 1, 2 \<mapsto> (toy_session 2)\<lparr>rs_wire := [wrap (toy_addr 2) f]\<rparr>]\<rparr>"
    using assms w
    by (simp add: toy_joined toy_session_def session_received_def relay_route_def session_sent_def ROUTE_HDR_LEN_def ADDR_WIRE_def
        slice_append_left slice_full wrap_def)
  show "messages_for toy_ed (toy_addr 2) [Received 1 (Binary (wrap (toy_addr 2) f)), Sent 2] (relay_run toy_ed toy_joins (relay_start []))
      = [wrap (toy_addr 2) f]"
    using assms by (simp add: toy_joined toy_session_def taken_for_def ROUTE_HDR_LEN_def ADDR_WIRE_def slice_append_left slice_full wrap_def)
qed

definition toy_events :: "bytes \<Rightarrow> relay_event list" where
  "toy_events f = [Received 1 (Binary (wrap (toy_addr 2) f)), Sent 2]"

lemma relay_in_order_witness:
  "\<exists>x y. rl_sessions (relay_run toy_ed toy_joins (relay_start [])) 2 = Some x
    \<and> rl_sessions (relay_run toy_ed (toy_events [3]) (relay_run toy_ed toy_joins (relay_start []))) 2 = Some y
    \<and> rs_wire y @ rs_queue y = rs_wire x @ rs_queue x @ [wrap (toy_addr 2) [3]]"
proof -
  note run = toy_exchange [of "[3]", OF list.simps(3), folded toy_events_def]
  have "rs_wire ((toy_session 2)\<lparr>rs_wire := [wrap (toy_addr 2) [3]]\<rparr>) @ rs_queue ((toy_session 2)\<lparr>rs_wire := [wrap (toy_addr 2) [3]]\<rparr>)
    = rs_wire (toy_session 2) @ rs_queue (toy_session 2) @ messages_for toy_ed (toy_addr 2) (toy_events [3])
        (relay_run toy_ed toy_joins (relay_start []))"
    by (rule relay_in_order [OF refl _ refl, where s = 2]) (simp_all only: run(1), simp_all add: toy_joined toy_session_def)
  then show ?thesis unfolding run by (simp add: toy_joined)
qed

lemma relay_carries_tunnel_witness:
  "\<exists>f y B'. seal_each toy_env [(1, [5, 6], \<lambda>i. 0)] (toy_end True) = Ok [[f]]
    \<and> rl_sessions (relay_run toy_ed (toy_events f) (relay_run toy_ed toy_joins (relay_start []))) 2 = Some y
    \<and> receive_frames toy_env 0 (zip (arrivals [(1, [5, 6], \<lambda>i. 0)] [[f]]) (List.map_filter unwrap (rs_wire y))) (toy_end False)
      = Ok (B', [[5, 6]])"
proof -
  have l: "linked toy_env (toy_end True) (toy_end False) (8192 + 808)" "linked toy_env (toy_end True) (toy_end False) (8192 * length [(1 :: nat, [5, 6] :: bytes, \<lambda>i :: nat. 0 :: nat)])"
    by (rule toy_ends_linked, simp)+
  obtain f where f: "f \<noteq> []" "seal_each toy_env [(1, [5, 6], \<lambda>i. 0)] (toy_end True) = Ok [[f]]"
    using seal_one [OF _ _ _ l(1), of "[5, 6]" 1] toy_laws by (auto simp: toy_env_simps)
  note run = toy_exchange [OF f(1), folded toy_events_def]
  have "\<exists>B'. receive_frames toy_env 0 (zip (arrivals [(1, [5, 6], \<lambda>i. 0)] [[f]])
        (List.map_filter unwrap (rs_wire ((toy_session 2)\<lparr>rs_wire := [wrap (toy_addr 2) f]\<rparr>)))) (toy_end False)
      = Ok (B', map (\<lambda>(t, inner, arrive). inner) [(1 :: nat, [5, 6], \<lambda>i :: nat. 0 :: nat)])"
    by (rule relay_carries_tunnel [OF _ _ _ l(2) _ refl, where s = 2 and x = "toy_session 2" and b = "toy_addr 2"
          and before = toy_joins and trust = "[]" and ed = toy_ed and evs = "toy_events f",
          OF _ _ _ _ _ _ _ refl])
       (use toy_laws f in \<open>simp_all only: run, simp_all add: toy_joined toy_session_def toy_env_simps REASSEMBLY_TIMEOUT_def\<close>)
  then show ?thesis using f(2) run(1) by auto
qed

section \<open>How a node loses its route\<close>

text \<open>
  A late close cuts off the new session: when a node has reconnected and registered again, the end of its old session
  removes the route of the new one, which stays open and reads, but gets none of the messages for the node until it
  registers anew.
\<close>

theorem stale_close_cuts_route:
  assumes "rl_sessions r s = Some x" "rs_reading x" "rl_sessions r s' = None"
    and "snd (relay_register ed f s' now (rl_hub r)) = Some (rs_addr x)"
    and "R = relay_run ed [First s' (Binary f) now, Received s Close] r"
  shows "(\<exists>y. rl_sessions R s' = Some y \<and> rs_addr y = rs_addr x \<and> rs_reading y \<and> rs_open y) \<and>
    rh_by_addr (rl_hub R) (rs_addr x) = None \<and> \<not> snd (relay_route (wrap (rs_addr x) g) R)"
proof -
  let ?new = "\<lparr>rs_addr = rs_addr x, rs_reading = True, rs_open = True, rs_queue = [], rs_wire = []\<rparr>"
  have "registers ed (First s' (Binary f) now) r = Some (s', rs_addr x)" using assms(3,4) by (simp add: registers_def)
  then have step: "rl_sessions (relay_step ed (First s' (Binary f) now) r) = (rl_sessions r)(s' \<mapsto> ?new)"
    by (simp add: first_table del: relay_step.simps(1))
  have ne: "s \<noteq> s'" using assms(1,3) by auto
  have R: "rl_sessions R s' = Some ?new" "rh_by_addr (rl_hub R) (rs_addr x) = None"
    using assms(1,2) step ne by (simp_all add: assms(5) session_received_def relay_unregister_def del: relay_step.simps(1))
  have "\<not> snd (relay_route (wrap (rs_addr x) g) R)"
    using R(2) by (simp add: relay_route_def ROUTE_HDR_LEN_def ADDR_WIRE_def wrap_def slice_append_left slice_full)
  then show ?thesis using R by simp
qed

lemma stale_close_cuts_route_witness:
  "\<exists>y. rl_sessions (relay_run toy_ed [First 3 (Binary (reg_frame (toy_addr 2) (node_cert 2))) 7, Received 2 Close]
       (relay_run toy_ed toy_joins (relay_start []))) 3 = Some y \<and> rs_reading y"
  using stale_close_cuts_route [of "relay_run toy_ed toy_joins (relay_start [])" 2 "toy_session 2" 3 toy_ed
      "reg_frame (toy_addr 2) (node_cert 2)" 7 _ "[]", OF _ _ _ _ refl] toy_register [of 7 2 3]
  unfolding toy_joined by (auto simp: toy_session_def toy_addr_def)

text \<open>The certificate inside a handshake message.\<close>

lemma unpacked_cert:
  assumes "unpack_bundle bundle = Inr b"
  shows "slice 64 80 bundle = to_bytes (ab_addr b)"
    "slice 64 80 bundle @ slice 32 64 bundle @ slice 80 152 bundle = cert_to_wire
       \<lparr>cert_addr = ab_addr b, cert_verify_key = ab_ed b, cert_not_after = ab_not_after b, cert_ca_sig = ab_ca_sig b\<rparr>"
    "cert_sized \<lparr>cert_addr = ab_addr b, cert_verify_key = ab_ed b, cert_not_after = ab_not_after b, cert_ca_sig = ab_ca_sig b\<rparr>"
proof -
  have b: "length bundle = 216" "from_canonical_str (concat (map hex_byte (slice 64 80 bundle))) = Inr (ab_addr b)"
    "ab_ed b = slice 32 64 bundle" "ab_not_after b = from_be (slice 80 88 bundle)" "ab_ca_sig b = slice 88 152 bundle"
    using assms by (auto simp: unpack_bundle_def AUTH_BUNDLE_LEN_def split: if_splits sum.splits)
  have "from_wire (slice 64 80 bundle) = Some (ab_addr b)"
    using b(1,2) from_canonical_hex_bytes [of "slice 64 80 bundle"] by (auto split: if_splits option.splits)
  then show a: "slice 64 80 bundle = to_bytes (ab_addr b)" using to_bytes_from_wire [of "slice 64 80 bundle" "ab_addr b"] b(1) by simp
  have "to_be64 (ab_not_after b) = slice 80 88 bundle" using b(1) by (simp add: b(4) to_be_from_be)
  then show "slice 64 80 bundle @ slice 32 64 bundle @ slice 80 152 bundle = cert_to_wire
       \<lparr>cert_addr = ab_addr b, cert_verify_key = ab_ed b, cert_not_after = ab_not_after b, cert_ca_sig = ab_ca_sig b\<rparr>"
    using a slice_slices [of 80 88 152 "bundle"] by (simp add: cert_to_wire_def cert_tbs_def b)
  show "cert_sized \<lparr>cert_addr = ab_addr b, cert_verify_key = ab_ed b, cert_not_after = ab_not_after b, cert_ca_sig = ab_ca_sig b\<rparr>"
    using b(1) by (simp add: cert_sized_def b)
qed

text \<open>
  Registration proves no possession: whoever has seen the first handshake message of a host, which travels in the
  clear, has its certificate, and the relay takes it from any connection, which then gets the messages for the host.
\<close>

theorem recorded_bundle_takes_route:
  assumes "check_bundle ed trust role peer expected bundle t = Inr b" "now \<le> ab_not_after b"
    and "rh_trust (rl_hub r) = trust" "rl_sessions r s = None"
    and "f = RPT_MAGIC @ slice 64 80 bundle @ slice 64 80 bundle @ slice 32 64 bundle @ slice 80 152 bundle"
  shows "rh_by_addr (rl_hub (relay_step ed (First s (Binary f) now) r)) (ab_addr b) = Some s"
proof -
  let ?c = "\<lparr>cert_addr = ab_addr b, cert_verify_key = ab_ed b, cert_not_after = ab_not_after b, cert_ca_sig = ab_ca_sig b\<rparr>"
  note ok = check_bundle_ok [OF assms(1)]
  have f: "f = reg_frame (ab_addr b) ?c" and c: "cert_sized ?c"
    using unpacked_cert [OF ok(1)] by (simp_all add: assms(5) reg_frame_def)
  have "relay_register ed f s now (rl_hub r) = ((rl_hub r)\<lparr>rh_by_addr := (rh_by_addr (rl_hub r))(ab_addr b \<mapsto> s)\<rparr>, Some (ab_addr b))"
    unfolding f by (rule register_ok) (use c ok assms in simp_all)
  then show ?thesis using assms(4) by (simp add: session_first_def)
qed

text \<open>The first message of host 2, and what host 9 makes of it.\<close>

definition node2_init :: bytes where
  "node2_init = fst (auth_init toy_ed toy_x25519 [1] (toy_host 2))"

lemma node2_init_checks: "\<exists>hs. check_bundle toy_ed [] ROLE_I (replicate 32 0) None node2_init 5 =
    Inr \<lparr>ab_eph = x_public toy_x25519 [1], ab_ed = public_ed_key toy_ed (toy_host 2), ab_addr = toy_addr 2, ab_not_after = 100,
      ab_ca_sig = cert_ca_sig (node_cert 2), ab_hs_sig = hs\<rparr>"
proof -
  have h: "hi_addr (toy_host 2) = toy_addr 2" by (simp add: toy_host_def toy_addr_def provision_def)
  have "\<exists>hs. check_bundle toy_ed (ed_public toy_ed [9]) ROLE_I (replicate 32 0) None node2_init 5 =
    Inr \<lparr>ab_eph = x_public toy_x25519 [1], ab_ed = public_ed_key toy_ed (toy_host 2), ab_addr = toy_addr 2, ab_not_after = 100,
      ab_ca_sig = cert_ca_sig (node_cert 2), ab_hs_sig = hs\<rparr>"
    using honest_bundle_checks [OF toy_ed_ok toy_host_certified(1), of "x_public toy_x25519 [1]" 5 2 None ROLE_I "replicate 32 0"]
      toy_x25519_ok
    by (simp add: node2_init_def auth_init_def x25519_ok_def toy_host_certified(2) h node_cert_def Let_def)
  moreover have "anchor_verify toy_ed (ed_public toy_ed [9]) = anchor_verify toy_ed []"
    by (simp add: fun_eq_iff anchor_verify_def toy_ed_def)
  then have "check_bundle toy_ed (ed_public toy_ed [9]) = check_bundle toy_ed []"
    by (intro ext) (simp only: check_bundle_def)
  ultimately show ?thesis by (simp only:)
qed

lemma recorded_bundle_takes_route_witness:
  "rh_by_addr (rl_hub (relay_step toy_ed (First 3 (Binary (RPT_MAGIC @ slice 64 80 node2_init @ slice 64 80 node2_init @ slice 32 64 node2_init
      @ slice 80 152 node2_init)) 7) (relay_run toy_ed toy_joins (relay_start [])))) (toy_addr 2) = Some 3"
proof -
  obtain hs where c: "check_bundle toy_ed [] ROLE_I (replicate 32 0) None node2_init 5 =
      Inr \<lparr>ab_eph = x_public toy_x25519 [1], ab_ed = public_ed_key toy_ed (toy_host 2), ab_addr = toy_addr 2, ab_not_after = 100,
        ab_ca_sig = cert_ca_sig (node_cert 2), ab_hs_sig = hs\<rparr>"
    using node2_init_checks by blast
  have "rh_by_addr (rl_hub (relay_step toy_ed (First 3 (Binary (RPT_MAGIC @ slice 64 80 node2_init @ slice 64 80 node2_init @ slice 32 64 node2_init
      @ slice 80 152 node2_init)) 7) (relay_run toy_ed toy_joins (relay_start [])))) (ab_addr \<lparr>ab_eph = x_public toy_x25519 [1],
        ab_ed = public_ed_key toy_ed (toy_host 2), ab_addr = toy_addr 2, ab_not_after = 100, ab_ca_sig = cert_ca_sig (node_cert 2), ab_hs_sig = hs\<rparr>) = Some 3"
    by (rule recorded_bundle_takes_route [OF c _ _ _ refl]) (simp_all add: toy_joined)
  then show ?thesis by simp
qed

end
