(* ===== verification/NodeSched.thy ===== *)
theory NodeSched
  imports Fallback FlowShards EngineSafety
begin

text \<open>
  The schedule of a node, \<open>adapter/wintun-node/src/main.rs\<close>: where the outer packets go (\<open>Transport\<close>, \<open>Sched\<close>), how frames
  from elsewhere move that entry, the hub of the shards, and the tick of the main loop, which drives the handshake and the
  fallback. Instants are nanoseconds, the wall clock is a number of seconds, and the random secret of a handshake is an
  argument. A socket address is its bytes and its port; the parser of the standard library for them is a parameter. What is
  sent is a list.
\<close>

section \<open>Where packets go\<close>

type_synonym sock_addr = "bytes \<times> u16"

definition PEER_KEY :: string where "PEER_KEY = ''peer''"
definition ROAM_MIN_INTERVAL :: nat where [const_defs]: "ROAM_MIN_INTERVAL = 10 * 10 ^ 9"

datatype transport = To_Tunnel sock_addr | To_PlainUdp sock_addr

fun transport_dest :: "transport \<Rightarrow> sock_addr" where
  "transport_dest (To_Tunnel d) = d"
| "transport_dest (To_PlainUdp d) = d"

record sched =
  sd_fb :: fallback_manager
  sd_main :: sock_addr
  sd_alt :: "sock_addr option"
  sd_current :: path
  sd_transport :: transport
  sd_attempt :: "(bytes \<times> nat \<times> sock_addr) option"
  sd_success_recorded :: bool
  sd_plain_reported :: bool
  sd_est_started :: "nat option"
  sd_est_delivered :: nat
  sd_plain_tx :: nat
  sd_plain_rx :: nat
  sd_last_unauth_roam :: "nat option"
  sd_mp :: bool

text \<open>
  The schedule at the start: the main entry, printed as address, colon and port by \<open>show_entry\<close>, and the second one if there
  is one, printed as a socket address by \<open>show_sock\<close>.
\<close>

definition node_sched_new :: "(sock_addr \<Rightarrow> string) \<Rightarrow> (sock_addr \<Rightarrow> string) \<Rightarrow> sock_addr \<Rightarrow> sock_addr option \<Rightarrow> bool \<Rightarrow> sched" where
  "node_sched_new show_entry show_sock peer alt mp = \<lparr>
     sd_fb = note_resolved PEER_KEY \<lparr> rs_tunnel_entry = Some (show_entry peer),
         rs_alt_entries = (case alt of Some a \<Rightarrow> [show_sock a] | None \<Rightarrow> []), rs_ipv8_capable = True, rs_last_good_entry = None \<rparr>
       (fallback_new fallback_options_default),
     sd_main = peer, sd_alt = alt, sd_current = Path_Tunnel [], sd_transport = To_Tunnel peer, sd_attempt = None,
     sd_success_recorded = False, sd_plain_reported = False, sd_est_started = None, sd_est_delivered = 0, sd_plain_tx = 0,
     sd_plain_rx = 0, sd_last_unauth_roam = None, sd_mp = mp \<rparr>"

definition in_entry_set :: "sched \<Rightarrow> sock_addr \<Rightarrow> bool" where
  "in_entry_set s from_addr \<longleftrightarrow> sd_mp s \<and> (sd_main s = from_addr \<or> sd_alt s = Some from_addr)"

definition enter :: "sock_addr \<Rightarrow> sched \<Rightarrow> sched" where
  "enter from_addr s = s\<lparr> sd_main := from_addr, sd_transport := To_Tunnel from_addr,
     sd_attempt := map_option (\<lambda>(f, t0, _). (f, t0, from_addr)) (sd_attempt s) \<rparr>"

text \<open>The entry after a frame that proves its origin; the second result says whether it moved.\<close>

definition strong_refresh :: "nat \<Rightarrow> sock_addr \<Rightarrow> sched \<Rightarrow> sched \<times> bool" where
  "strong_refresh t from_addr s = (
     if (case sd_transport s of To_Tunnel dest \<Rightarrow> dest \<noteq> from_addr | To_PlainUdp _ \<Rightarrow> False) \<and> \<not> in_entry_set s from_addr
     then ((enter from_addr s)\<lparr> sd_last_unauth_roam := Some t \<rparr>, True)
     else (s, False))"

text \<open>The entry after a frame that does not: the new flag \<open>learned\<close>, and whether the entry moved.\<close>

definition unauth_refresh :: "nat \<Rightarrow> sock_addr \<Rightarrow> bool \<Rightarrow> bool \<Rightarrow> sched \<Rightarrow> sched \<times> bool \<times> bool" where
  "unauth_refresh t from_addr learned allow_first_frame s = (
     if \<not> (case sd_transport s of
             To_Tunnel dest \<Rightarrow> dest \<noteq> from_addr \<and> \<not> in_entry_set s from_addr
           | To_PlainUdp _ \<Rightarrow> True)
     then (s, True, False)
     else if allow_first_frame \<and> \<not> learned then (enter from_addr s, True, True)
     else if (case sd_last_unauth_roam s of Some prev \<Rightarrow> t - prev < ROAM_MIN_INTERVAL | None \<Rightarrow> False) then (s, learned, False)
     else (enter from_addr (s\<lparr> sd_last_unauth_roam := Some t \<rparr>), True, True))"

definition is_strong_roam_credential :: "bytes \<Rightarrow> bool \<Rightarrow> bool \<Rightarrow> bool" where
  "is_strong_roam_credential raw has_resp has_delivered \<longleftrightarrow>
     has_delivered \<or> has_resp \<and> 2 \<le> length raw \<and> raw ! 0 = 0x01 \<and> raw ! 1 = 0x04"

section \<open>Shards\<close>

record shard_hub =
  sh_shards :: "flow_shards option"
  sh_off :: shard_stats

definition shard_stats_zero :: shard_stats where
  "shard_stats_zero = \<lparr> ss_sealed = 0, ss_delivered = 0, ss_dropped = 0, ss_fragments_sent = 0, ss_fragments_reassembled = 0 \<rparr>"

definition add_stats :: "shard_stats \<Rightarrow> shard_stats \<Rightarrow> shard_stats" where
  "add_stats a b = \<lparr> ss_sealed = ss_sealed a + ss_sealed b, ss_delivered = ss_delivered a + ss_delivered b,
     ss_dropped = ss_dropped a + ss_dropped b, ss_fragments_sent = ss_fragments_sent a + ss_fragments_sent b,
     ss_fragments_reassembled = ss_fragments_reassembled a + ss_fragments_reassembled b \<rparr>"

definition shard_hub_new :: shard_hub where
  "shard_hub_new = \<lparr> sh_shards = None, sh_off = shard_stats_zero \<rparr>"

text \<open>The first packet that no worker takes ends the dispatch.\<close>

fun seal_batch :: "bytes list \<Rightarrow> flow_shards \<Rightarrow> flow_shards \<times> bool" where
  "seal_batch [] fl = (fl, True)"
| "seal_batch (b # bs) fl = (case seal_dispatch b fl of
     (fl, Inl _) \<Rightarrow> (fl, False)
   | (fl, Inr _) \<Rightarrow> seal_batch bs fl)"

definition hub_seal :: "bytes list \<Rightarrow> shard_hub \<Rightarrow> shard_hub \<times> bool" where
  "hub_seal batch hb = (case sh_shards hb of
     Some fl \<Rightarrow> (case seal_batch batch fl of (fl, ok) \<Rightarrow> (hb\<lparr> sh_shards := Some fl \<rparr>, ok))
   | None \<Rightarrow> (hb, False))"

definition hub_feed :: "bytes \<Rightarrow> shard_hub \<Rightarrow> shard_hub \<times> bool" where
  "hub_feed frame hb = (case sh_shards hb of
     Some fl \<Rightarrow> (case handle_inbound frame fl of (fl, taken) \<Rightarrow> (hb\<lparr> sh_shards := Some fl \<rparr>, taken))
   | None \<Rightarrow> (hb, False))"

definition hub_stats :: "shard_hub \<Rightarrow> shard_stats" where
  "hub_stats hb = add_stats (sh_off hb) (case sh_shards hb of Some fl \<Rightarrow> fl_stats fl | None \<Rightarrow> shard_stats_zero)"

definition hub_install :: "flow_shards \<Rightarrow> shard_hub \<Rightarrow> shard_hub" where
  "hub_install fl hb = hb\<lparr> sh_shards := Some fl \<rparr>"

definition hub_active :: "shard_hub \<Rightarrow> nat" where
  "hub_active hb = (case sh_shards hb of Some fl \<Rightarrow> flow_len fl | None \<Rightarrow> 0)"

definition hub_retire :: "shard_hub \<Rightarrow> shard_hub \<times> flow_shards option" where
  "hub_retire hb = (case sh_shards hb of
     Some fl \<Rightarrow> (hb\<lparr> sh_shards := None, sh_off := add_stats (sh_off hb) (fl_stats fl) \<rparr>, Some fl)
   | None \<Rightarrow> (hb, None))"

section \<open>The main loop\<close>

record node_env =
  ne_ev :: engine_env
  ne_parse :: "string \<Rightarrow> sock_addr option"

record node_cfg =
  nc_initiate :: bool
  nc_auth :: bool
  nc_fallback :: bool
  nc_shards :: nat
  nc_has_tun :: bool

text \<open>The state that the threads of a node share. Shards that were retired still finish the tasks in their queues.\<close>

record node =
  nd_engine :: engine
  nd_sched :: sched
  nd_hub :: shard_hub
  nd_old :: "flow_shards list"
  nd_sent :: "(sock_addr \<times> bytes) list"

definition node_send :: "sock_addr \<Rightarrow> bytes \<Rightarrow> 'a node_scheme \<Rightarrow> 'a node_scheme" where
  "node_send dest f n = n\<lparr> nd_sent := nd_sent n @ [(dest, f)] \<rparr>"

definition entry_addr :: "node_env \<Rightarrow> string \<Rightarrow> sock_addr \<Rightarrow> sock_addr" where
  "entry_addr env entry fallback_to = (case ne_parse env entry of Some a \<Rightarrow> a | None \<Rightarrow> fallback_to)"

definition start_any :: "node_env \<Rightarrow> bool \<Rightarrow> bytes \<Rightarrow> engine \<Rightarrow> (unit, engine \<times> bytes) outcome" where
  "start_any env auth eph en = (if auth then start_auth_handshake (ne_ev env) eph en else start_handshake (ne_ev env) eph en)"

text \<open>The first handshake of an initiator without fallback.\<close>

definition node_start ::
  "node_env \<Rightarrow> node_cfg \<Rightarrow> bytes \<Rightarrow> nat \<Rightarrow> sock_addr \<Rightarrow> 'a node_scheme \<Rightarrow> (unit, 'a node_scheme) outcome" where
  "node_start env cfg eph now peer n = (
     if \<not> nc_initiate cfg \<or> nc_fallback cfg then Ok n
     else case start_any env (nc_auth cfg) eph (nd_engine n) of
         Ok (en, f) \<Rightarrow> Ok ((node_send peer f n)\<lparr> nd_engine := en, nd_sched := (nd_sched n)\<lparr> sd_attempt := Some (f, now, peer) \<rparr> \<rparr>)
       | Err e \<Rightarrow> Err e
       | Panic \<Rightarrow> Panic)"

text \<open>
  The tick locks the engine, the hub and the schedule one after the other, never the engine together with another, and the
  other threads go on in between. \<open>between\<close> holds what they do at each such point: after the state has been read, before
  the shards are split off or retired, before the new ones are installed, before the schedule is locked, before the engine is
  locked again, and before the schedule is. What they do to the engine while the tick holds the schedule comes before its next
  lock of the engine.
\<close>

record 'n between =
  bw_read :: "'n \<Rightarrow> 'n"
  bw_split :: "'n \<Rightarrow> 'n"
  bw_install :: "'n \<Rightarrow> 'n"
  bw_sched :: "'n \<Rightarrow> 'n"
  bw_engine :: "'n \<Rightarrow> 'n"
  bw_resched :: "'n \<Rightarrow> 'n"

definition quiet :: "'n between" where
  "quiet = \<lparr> bw_read = \<lambda>n. n, bw_split = \<lambda>n. n, bw_install = \<lambda>n. n, bw_sched = \<lambda>n. n, bw_engine = \<lambda>n. n, bw_resched = \<lambda>n. n \<rparr>"

lemma quiet_simps [simp]: "bw_read quiet n = n" "bw_split quiet n = n" "bw_install quiet n = n" "bw_sched quiet n = n"
  "bw_engine quiet n = n" "bw_resched quiet n = n"
  by (simp_all add: quiet_def)

text \<open>Shards that are out of date go, new ones come. \<open>st\<close> and \<open>eng_sharded\<close> are as read at the start of the tick.\<close>

definition tick_shards ::
  "node_cfg \<Rightarrow> 'a node_scheme between \<Rightarrow> nat \<Rightarrow> tunnel_state \<Rightarrow> bool \<Rightarrow> 'a node_scheme \<Rightarrow> (unit, 'a node_scheme) outcome" where
  "tick_shards cfg b t st eng_sharded n = (
     if \<not> (nc_shards cfg > 1 \<and> nc_has_tun cfg) then Ok n
     else
       let hb_active = hub_active (nd_hub n) > 0
       in if hb_active \<and> \<not> eng_sharded then
            (let n = bw_split b n
             in case hub_retire (nd_hub n) of
               (hb, Some fl) \<Rightarrow> Ok (n\<lparr> nd_hub := hb, nd_old := nd_old n @ [flow_shutdown fl] \<rparr>)
             | (hb, None) \<Rightarrow> Ok (n\<lparr> nd_hub := hb \<rparr>))
          else if st = Established \<and> \<not> hb_active \<and> \<not> eng_sharded then
            (let n = bw_split b n
             in case split_shards t (nc_shards cfg) (nd_engine n) of
               (en, Ok (shards, la, pa, mtu)) \<Rightarrow>
                 (let n = bw_install b (n\<lparr> nd_engine := en \<rparr>)
                  in case flow_new shards la pa mtu of
                    Ok fl \<Rightarrow> Ok (n\<lparr> nd_hub := hub_install fl (nd_hub n) \<rparr>)
                  | _ \<Rightarrow> Panic)
             | (en, Err _) \<Rightarrow> Ok (n\<lparr> nd_engine := en \<rparr>)
             | (en, Panic) \<Rightarrow> Panic)
          else Ok n)"

text \<open>An established tunnel: the success is recorded once, and the first packet has its time limit.\<close>

definition sched_success :: "nat \<Rightarrow> nat \<Rightarrow> sched \<Rightarrow> sched" where
  "sched_success now deliv s = (
     let s = s\<lparr> sd_fb := record_success PEER_KEY (sd_current s) (sd_fb s) \<rparr>;
         s = (case sd_attempt s of
             Some (_, _, dest) \<Rightarrow> s\<lparr> sd_attempt := None, sd_transport := To_Tunnel dest \<rparr>
           | None \<Rightarrow> s)
     in s\<lparr> sd_success_recorded := True, sd_est_started := Some now, sd_est_delivered := deliv \<rparr>)"

definition sched_established :: "bool \<Rightarrow> nat \<Rightarrow> nat \<Rightarrow> nat \<Rightarrow> sched \<Rightarrow> sched \<times> bool" where
  "sched_established fb_on now sealed deliv s = (
     let s = (if fb_on \<and> \<not> sd_success_recorded s then sched_success now deliv s else s);
         timeout_secs = as_secs (fo_first_packet_timeout (fm_opts (sd_fb s)));
         timed_out = (fb_on \<and> sealed > 0 \<and> deliv = sd_est_delivered s
           \<and> (case sd_est_started s of Some t0 \<Rightarrow> now - t0 \<ge> timeout_secs | None \<Rightarrow> False))
     in (if timed_out
         then s\<lparr> sd_fb := record_failure PEER_KEY FirstPacketTimeout now (sd_fb s), sd_success_recorded := False, sd_est_started := None \<rparr>
         else s, timed_out))"

text \<open>Without fallback the first message is sent again and again.\<close>

definition tick_resend :: "tunnel_state \<Rightarrow> 'a node_scheme \<Rightarrow> 'a node_scheme" where
  "tick_resend st n = (if st \<noteq> Initiating then n
     else case sd_attempt (nd_sched n) of
         Some (f, _, dest) \<Rightarrow> node_send dest f n
       | None \<Rightarrow> n)"

text \<open>An idle initiator takes the next path: the schedule with the decision, the path, and where it leads.\<close>

definition sched_idle :: "node_env \<Rightarrow> nat \<Rightarrow> sched \<Rightarrow> sched \<times> path \<times> sock_addr" where
  "sched_idle env now s = (case next_path PEER_KEY now (sd_fb s) of (fb, p) \<Rightarrow>
     (let s = s\<lparr> sd_fb := fb, sd_current := p, sd_success_recorded := False, sd_est_started := None \<rparr>;
          dest = (case p of Path_Tunnel entry \<Rightarrow> entry_addr env entry (sd_main s) | _ \<Rightarrow> sd_main s);
          s = s\<lparr> sd_transport := (case p of Path_Tunnel _ \<Rightarrow> To_Tunnel dest | _ \<Rightarrow> To_PlainUdp dest) \<rparr>
      in (s, p, dest)))"

definition tick_idle_in ::
  "node_env \<Rightarrow> node_cfg \<Rightarrow> 'a node_scheme between \<Rightarrow> bytes \<Rightarrow> nat \<Rightarrow> 'a node_scheme \<Rightarrow> (unit, 'a node_scheme) outcome" where
  "tick_idle_in env cfg b eph now n = (
     if \<not> nc_initiate cfg then Ok n
     else case sched_idle env now (nd_sched n) of (s, p, dest) \<Rightarrow>
       (case p of
          Path_Tunnel _ \<Rightarrow>
            (let n = bw_engine b (n\<lparr> nd_sched := s \<rparr>)
             in case start_any env (nc_auth cfg) eph (abandon_handshake (nd_engine n)) of
                  Ok (en, f) \<Rightarrow>
                    (let n = bw_resched b (n\<lparr> nd_engine := en \<rparr>)
                     in Ok ((node_send dest f n)\<lparr> nd_sched := (nd_sched n)\<lparr> sd_attempt := Some (f, now, dest) \<rparr> \<rparr>))
                | Err e \<Rightarrow> Err e
                | Panic \<Rightarrow> Panic)
        | _ \<Rightarrow> Ok (n\<lparr> nd_sched := s\<lparr> sd_plain_reported := True \<rparr> \<rparr>)))"

definition tick_idle :: "node_env \<Rightarrow> node_cfg \<Rightarrow> bytes \<Rightarrow> nat \<Rightarrow> 'a node_scheme \<Rightarrow> (unit, 'a node_scheme) outcome" where
  "tick_idle env cfg eph now n = tick_idle_in env cfg quiet eph now n"

text \<open>A handshake on its way is repeated until its time is up.\<close>

definition tick_handshaking :: "'a node_scheme between \<Rightarrow> nat \<Rightarrow> 'a node_scheme \<Rightarrow> 'a node_scheme" where
  "tick_handshaking b now n = (case sd_attempt (nd_sched n) of
     None \<Rightarrow> n
   | Some (f, started, dest) \<Rightarrow>
       if now - started \<ge> as_secs (handshake_timeout (sd_fb (nd_sched n)) PEER_KEY)
       then let n = bw_engine b (n\<lparr> nd_sched := (nd_sched n)\<lparr> sd_fb := record_failure PEER_KEY HandshakeTimeout now (sd_fb (nd_sched n)) \<rparr> \<rparr>);
                n = bw_resched b (n\<lparr> nd_engine := abandon_handshake (nd_engine n) \<rparr>)
            in n\<lparr> nd_sched := (nd_sched n)\<lparr> sd_attempt := None \<rparr> \<rparr>
       else node_send dest f n)"

text \<open>The node as the tick finds it when it has locked the schedule.\<close>

definition tick_front :: "node_cfg \<Rightarrow> 'a node_scheme between \<Rightarrow> nat \<Rightarrow> 'a node_scheme \<Rightarrow> (unit, 'a node_scheme) outcome" where
  "tick_front cfg b t n = (
     case tick_shards cfg b t (en_state (nd_engine n)) (en_sharded (nd_engine n)) (bw_read b n) of
       Ok n \<Rightarrow> Ok (bw_sched b n)
     | Err e \<Rightarrow> Err e
     | Panic \<Rightarrow> Panic)"

definition tick_in ::
  "node_env \<Rightarrow> node_cfg \<Rightarrow> 'a node_scheme between \<Rightarrow> nat \<Rightarrow> bytes \<Rightarrow> nat \<Rightarrow> 'a node_scheme \<Rightarrow> (unit, 'a node_scheme) outcome" where
  "tick_in env cfg b t eph now n = (
     let en0 = nd_engine n; st = en_state en0
     in case tick_front cfg b t n of
          Ok n \<Rightarrow>
            if st = Established then
              (let (sealed, deliv) = (if hub_active (nd_hub n) = 0 then (en_sealed_outbound en0, en_delivered_inbound en0)
                     else (ss_sealed (hub_stats (nd_hub n)), ss_delivered (hub_stats (nd_hub n))));
                   (s, timed_out) = sched_established (nc_fallback cfg) now sealed deliv (nd_sched n);
                   n = n\<lparr> nd_sched := s \<rparr>
               in Ok (if timed_out then let n = bw_engine b n in n\<lparr> nd_engine := engine_reset (nd_engine n) \<rparr> else n))
            else if \<not> nc_fallback cfg then Ok (tick_resend st n)
            else if st = Idle then tick_idle_in env cfg b eph now n
            else Ok (tick_handshaking b now n)
        | Err e \<Rightarrow> Err e
        | Panic \<Rightarrow> Panic)"

text \<open>A tick between whose locks the other threads do nothing.\<close>

definition tick :: "node_env \<Rightarrow> node_cfg \<Rightarrow> nat \<Rightarrow> bytes \<Rightarrow> nat \<Rightarrow> 'a node_scheme \<Rightarrow> (unit, 'a node_scheme) outcome" where
  "tick env cfg t eph now n = tick_in env cfg quiet t eph now n"

section \<open>Moving the entry\<close>

datatype roam_event = Weak_Frame nat sock_addr bool | Strong_Frame nat sock_addr

fun roam_time :: "roam_event \<Rightarrow> nat" where
  "roam_time (Weak_Frame t _ _) = t"
| "roam_time (Strong_Frame t _) = t"

text \<open>The moves that a run of frames makes: the time of each, and whether the frame proved its origin.\<close>

fun roam_moves :: "roam_event list \<Rightarrow> bool \<Rightarrow> sched \<Rightarrow> (nat \<times> bool) list" where
  "roam_moves [] learned s = []"
| "roam_moves (Weak_Frame t a first # evs) learned s = (case unauth_refresh t a learned first s of
     (s, learned, moved) \<Rightarrow> (if moved then [(t, False)] else []) @ roam_moves evs learned s)"
| "roam_moves (Strong_Frame t a # evs) learned s = (case strong_refresh t a s of
     (s, moved) \<Rightarrow> (if moved then [(t, True)] else []) @ roam_moves evs learned s)"

lemma enter_simps [simp]:
  "sd_last_unauth_roam (enter a s) = sd_last_unauth_roam s" "sd_main (enter a s) = a" "sd_transport (enter a s) = To_Tunnel a"
  "sd_mp (enter a s) = sd_mp s" "sd_alt (enter a s) = sd_alt s" "sd_fb (enter a s) = sd_fb s"
  by (simp_all add: enter_def)

lemma strong_moves: "strong_refresh t a s = (s', True) \<Longrightarrow> sd_last_unauth_roam s' = Some t"
  by (auto simp: strong_refresh_def split: if_splits)

lemma strong_stays: "strong_refresh t a s = (s', False) \<Longrightarrow> s' = s"
  by (auto simp: strong_refresh_def split: if_splits)

lemma weak_moves:
  assumes "unauth_refresh t a learned first s = (s', learned', True)" "learned \<or> \<not> first"
  shows "sd_last_unauth_roam s' = Some t" "\<forall>prev. sd_last_unauth_roam s = Some prev \<longrightarrow> ROAM_MIN_INTERVAL \<le> t - prev" "learned'"
  using assms by (auto simp: unauth_refresh_def split: if_splits option.splits)

lemma weak_stays: "unauth_refresh t a learned first s = (s', learned', False) \<Longrightarrow> s' = s \<and> (learned \<longrightarrow> learned')"
  by (auto simp: unauth_refresh_def split: if_splits)

lemma weak_keeps: "unauth_refresh t a learned first s = (s', learned', moved) \<Longrightarrow> learned \<Longrightarrow> learned'"
  by (auto simp: unauth_refresh_def split: if_splits)

text \<open>Every move of the run comes at its time at the earliest, the weak ones also late enough after the last move.\<close>

lemma roam_moves_spaced:
  assumes "sorted (map roam_time evs)" "learned \<or> (\<forall>t a. Weak_Frame t a True \<notin> set evs)"
    and "\<forall>e \<in> set evs. t0 \<le> roam_time e" "sd_last_unauth_roam s = Some prev" "prev \<le> t0"
  shows "\<forall>(t, strong) \<in> set (roam_moves evs learned s). t0 \<le> t \<and> (\<not> strong \<longrightarrow> prev + ROAM_MIN_INTERVAL \<le> t)"
  using assms
proof (induction evs arbitrary: learned s t0 prev)
  case (Cons e evs)
  have rest: "sorted (map roam_time evs)" "\<forall>x \<in> set evs. roam_time e \<le> roam_time x" "t0 \<le> roam_time e"
    using Cons.prems(1,3) by auto
  have later: "\<forall>(t, strong) \<in> set (roam_moves evs learned' s'). roam_time e \<le> t \<and> (\<not> strong \<longrightarrow> prev' + ROAM_MIN_INTERVAL \<le> t)"
    if "sd_last_unauth_roam s' = Some prev'" "prev' \<le> roam_time e" "learned' \<or> \<not> learned" "learned' \<or> learned \<or> (\<forall>t a. Weak_Frame t a True \<notin> set evs)"
      "learned \<longrightarrow> learned'" for s' prev' learned'
    using Cons.IH [OF rest(1) _ rest(2) that(1,2)] that(3-5) by blast
  show ?case
  proof (cases e)
    case (Weak_Frame t a first)
    obtain s' learned' moved where u: "unauth_refresh t a learned first s = (s', learned', moved)" by (metis prod_cases3)
    have nf: "learned \<or> \<not> first" using Cons.prems(2) Weak_Frame by (metis list.set_intros(1))
    show ?thesis
    proof (cases moved)
      case True
      have u1: "unauth_refresh t a learned first s = (s', learned', True)" using u True by simp
      note w = weak_moves [OF u1 nf]
      have "prev + ROAM_MIN_INTERVAL \<le> t"
        using w(2) Cons.prems(4,5) rest(3) Weak_Frame by (auto simp: ROAM_MIN_INTERVAL_def)
      moreover have "\<forall>(t', strong) \<in> set (roam_moves evs learned' s'). t \<le> t' \<and> (\<not> strong \<longrightarrow> t + ROAM_MIN_INTERVAL \<le> t')"
        using later [OF w(1), of learned'] w(3) Weak_Frame by auto
      ultimately show ?thesis using u True rest(3) Weak_Frame by fastforce
    next
      case False
      have "s' = s" "learned \<longrightarrow> learned'" using weak_stays [of t a learned first s s' learned'] u False by simp_all
      then have "\<forall>(t', strong) \<in> set (roam_moves evs learned' s'). roam_time e \<le> t' \<and> (\<not> strong \<longrightarrow> prev + ROAM_MIN_INTERVAL \<le> t')"
        using later [of s' prev learned'] Cons.prems(2,4,5) rest(3) by auto
      then show ?thesis using u False rest(3) Weak_Frame by fastforce
    qed
  next
    case (Strong_Frame t a)
    obtain s' moved where u: "strong_refresh t a s = (s', moved)" by (metis surj_pair)
    show ?thesis
    proof (cases moved)
      case True
      have u1: "strong_refresh t a s = (s', True)" using u True by simp
      have "\<forall>(t', strong) \<in> set (roam_moves evs learned s'). t \<le> t' \<and> (\<not> strong \<longrightarrow> t + ROAM_MIN_INTERVAL \<le> t')"
        using later [OF strong_moves [OF u1], of learned] Cons.prems(2) Strong_Frame by auto
      moreover have "prev \<le> t" using Cons.prems(5) rest(3) Strong_Frame by simp
      ultimately show ?thesis using u True rest(3) Strong_Frame by fastforce
    next
      case False
      have "s' = s" using strong_stays [of t a s s'] u False by simp
      then have "\<forall>(t', strong) \<in> set (roam_moves evs learned s'). roam_time e \<le> t' \<and> (\<not> strong \<longrightarrow> prev + ROAM_MIN_INTERVAL \<le> t')"
        using later [of s' prev learned] Cons.prems(2,4,5) rest(3) by auto
      then show ?thesis using u False rest(3) Strong_Frame by fastforce
    qed
  qed
qed simp

lemma roam_moves_wrt:
  assumes "sorted (map roam_time evs)" "learned \<or> (\<forall>t a. Weak_Frame t a True \<notin> set evs)"
  shows "sorted_wrt (\<lambda>(t, _) (t', strong). \<not> strong \<longrightarrow> t + ROAM_MIN_INTERVAL \<le> t') (roam_moves evs learned s)"
  using assms
proof (induction evs arbitrary: learned s)
  case (Cons e evs)
  have rest: "sorted (map roam_time evs)" "\<forall>x \<in> set evs. roam_time e \<le> roam_time x" using Cons.prems(1) by auto
  show ?case
  proof (cases e)
    case (Weak_Frame t a first)
    obtain s' learned' moved where u: "unauth_refresh t a learned first s = (s', learned', moved)" by (metis prod_cases3)
    have nf: "learned \<or> \<not> first" using Cons.prems(2) Weak_Frame by (metis list.set_intros(1))
    have "learned \<longrightarrow> learned'" using weak_keeps u by blast
    then have l: "learned' \<or> (\<forall>t a. Weak_Frame t a True \<notin> set evs)" using Cons.prems(2) by auto
    show ?thesis
    proof (cases moved)
      case True
      have u1: "unauth_refresh t a learned first s = (s', learned', True)" using u True by simp
      note w = weak_moves [OF u1 nf]
      show ?thesis using roam_moves_spaced [OF rest(1) l rest(2) w(1)] Cons.IH [OF rest(1) l] u True Weak_Frame by fastforce
    qed (use Cons.IH [OF rest(1) l] u Weak_Frame in simp)
  next
    case (Strong_Frame t a)
    obtain s' moved where u: "strong_refresh t a s = (s', moved)" by (metis surj_pair)
    have l: "learned \<or> (\<forall>t a. Weak_Frame t a True \<notin> set evs)" using Cons.prems(2) by auto
    show ?thesis
    proof (cases moved)
      case True
      have u1: "strong_refresh t a s = (s', True)" using u True by simp
      show ?thesis using roam_moves_spaced [OF rest(1) l rest(2) strong_moves [OF u1]] Cons.IH [OF rest(1) l]
          u True Strong_Frame by fastforce
    qed (use Cons.IH [OF rest(1) l] u Strong_Frame in simp)
  qed
qed simp

text \<open>
  C33. Frames without proof of origin move the entry rarely: in any run of weak and strong frames in the order of time, from
  the first learned address on, a weak frame moves the entry only when ten seconds have passed since the last move,
  whether that one was weak or a correction by a strong frame.
\<close>

theorem weak_moves_limited:
  assumes "sorted (map roam_time evs)" "learned \<or> (\<forall>t a. Weak_Frame t a True \<notin> set evs)"
    and "moves = roam_moves evs learned s" "i < j" "j < length moves" "moves ! i = (ti, strong)" "moves ! j = (tj, False)"
  shows "ti + 10 * 10 ^ 9 \<le> tj"
  using sorted_wrt_nth_less [OF roam_moves_wrt [OF assms(1,2)], of i j s] assms(3-7) by (auto simp: ROAM_MIN_INTERVAL_def)

definition toy_sched :: sched where
  "toy_sched = node_sched_new (\<lambda>_. ''here'') (\<lambda>_. ''there'') ([1, 1, 1, 1], 9000) None False"

lemma weak_moves_limited_witness:
  "roam_moves [Weak_Frame 5 ([2, 2, 2, 2], 7) False, Strong_Frame 6 ([1, 1, 1, 1], 9000), Weak_Frame 7 ([2, 2, 2, 2], 7) False,
     Weak_Frame 20000000000 ([3, 3, 3, 3], 7) False] True toy_sched = [(5, False), (6, True), (20000000000, False)]
   \<and> 6 + 10 * 10 ^ 9 \<le> (20000000000 :: nat)"
proof -
  let ?evs = "[Weak_Frame 5 ([2, 2, 2, 2], 7) False, Strong_Frame 6 ([1, 1, 1, 1], 9000), Weak_Frame 7 ([2, 2, 2, 2], 7) False,
     Weak_Frame 20000000000 ([3, 3, 3, 3], 7) False]"
  have m: "roam_moves ?evs True toy_sched = [(5, False), (6, True), (20000000000, False)]"
    by (simp add: toy_sched_def node_sched_new_def unauth_refresh_def strong_refresh_def enter_def in_entry_set_def ROAM_MIN_INTERVAL_def)
  then show ?thesis
    using weak_moves_limited [of ?evs True _ toy_sched 1 2 6 True 20000000000, OF _ _ refl] by simp
qed

text \<open>With two paths the entry does not change between its two addresses.\<close>

lemma entries_kept:
  assumes "sd_mp s" "sd_transport s = To_Tunnel d" "a \<in> insert (sd_main s) (set_option (sd_alt s))"
  shows "strong_refresh t a s = (s, False)" "unauth_refresh t a learned first s = (s, True, False)"
  using assms by (auto simp: strong_refresh_def unauth_refresh_def in_entry_set_def)

section \<open>The tick of the main loop\<close>

lemma start_any_ok:
  assumes "coherent_engine en" "en_state en = Idle" "en_auth en \<noteq> None \<longleftrightarrow> auth"
  shows "\<exists>en' f. start_any env auth eph en = Ok (en', f)"
proof -
  have i: "en_identity en \<noteq> None \<longleftrightarrow> \<not> auth" using assms(1,3) by (auto simp: coherent_simps)
  show ?thesis
  proof (cases auth)
    case True
    then obtain host trust where "en_auth en = Some (host, trust)" using assms(3) by auto
    then show ?thesis using assms(2) True by (simp add: start_any_def start_auth_handshake_def split: prod.split)
  next
    case False
    then obtain ident where "en_identity en = Some ident" using i by blast
    then show ?thesis using assms(2) False by (simp add: start_any_def start_handshake_def split: prod.split)
  qed
qed

lemma derive_all_fine: "\<forall>k \<in> set ks. of_nat k < n \<Longrightarrow> 1 \<le> n \<Longrightarrow> \<exists>shards. derive_all t base n ks = Ok shards \<and> length shards = length ks"
  by (induction ks) (auto simp: derive_shard_def split: outcome.splits)

lemma split_fine:
  assumes "0 < n" "n < 2 ^ 64"
  shows "(\<exists>e. snd (split_shards t n en) = Err e) \<or> (\<exists>shards rest. snd (split_shards t n en) = Ok (shards, rest) \<and> shards \<noteq> [])"
proof -
  have u: "unat (of_nat k :: u64) = k" if "k \<le> n" for k using that assms(2) by (simp add: unat_of_nat take_bit_nat_eq_self)
  have "\<forall>k \<in> set [0..<n]. of_nat k < (of_nat n :: u64)" using u by (simp add: word_less_nat_alt)
  moreover have "(1 :: u64) \<le> of_nat n" using u [of n] assms(1) by (simp add: word_le_nat_alt)
  ultimately have d: "\<exists>shards. derive_all t base (of_nat n) [0..<n] = Ok shards \<and> length shards = n" for base
    using derive_all_fine [of "[0..<n]" "of_nat n" t base] by simp
  show ?thesis
  proof (cases "en_keys en")
    case (Some base)
    obtain shards where "derive_all t base (of_nat n) [0..<n] = Ok shards" "length shards = n" using d by blast
    then show ?thesis using Some assms(1) by (auto simp: split_shards_def)
  qed (simp add: split_shards_def)
qed

text \<open>
  What the other threads may do: any operations of the engine that return, in any order, and anything to the rest of the
  node.
\<close>

definition engine_runs :: "engine_env \<Rightarrow> ('a node_scheme \<Rightarrow> 'a node_scheme) \<Rightarrow> bool" where
  "engine_runs ev g \<longleftrightarrow> (\<forall>n. (engine_step ev)\<^sup>*\<^sup>* (nd_engine n) (nd_engine (g n)))"

definition others_run :: "engine_env \<Rightarrow> 'a node_scheme between \<Rightarrow> bool" where
  "others_run ev b \<longleftrightarrow> engine_runs ev (bw_read b) \<and> engine_runs ev (bw_split b) \<and> engine_runs ev (bw_install b)
     \<and> engine_runs ev (bw_sched b) \<and> engine_runs ev (bw_engine b) \<and> engine_runs ev (bw_resched b)"

text \<open>A node whose engine has come through any operations and was built for the configured kind of handshake.\<close>

definition node_sound :: "node_env \<Rightarrow> node_cfg \<Rightarrow> 'a node_scheme \<Rightarrow> bool" where
  "node_sound env cfg n \<longleftrightarrow> engine_reachable (ne_ev env) (nd_engine n) \<and> (en_auth (nd_engine n) \<noteq> None \<longleftrightarrow> nc_auth cfg)"

lemma run_reachable:
  assumes "(engine_step ev)\<^sup>*\<^sup>* en en'" "engine_reachable ev en"
  shows "engine_reachable ev en' \<and> en_auth en' = en_auth en"
  using assms
  by (induction rule: rtranclp_induct) (use reach_step step_auth reachable_coherent in force)+

lemma sound_run: "engine_runs (ne_ev env) g \<Longrightarrow> node_sound env cfg n \<Longrightarrow> node_sound env cfg (g n)"
  unfolding node_sound_def engine_runs_def using run_reachable by metis

lemma sound_step:
  assumes "node_sound env cfg n" "engine_step (ne_ev env) (nd_engine n) (nd_engine n')"
  shows "node_sound env cfg n'"
  using assms run_reachable [of "ne_ev env" "nd_engine n" "nd_engine n'"] by (simp add: node_sound_def r_into_rtranclp)

lemma sound_same: "nd_engine n' = nd_engine n \<Longrightarrow> node_sound env cfg n' = node_sound env cfg n"
  by (simp add: node_sound_def)

lemma sound_between:
  assumes "others_run (ne_ev env) b" "node_sound env cfg n"
  shows "node_sound env cfg (bw_read b n)" "node_sound env cfg (bw_split b n)" "node_sound env cfg (bw_install b n)"
    "node_sound env cfg (bw_sched b n)" "node_sound env cfg (bw_engine b n)" "node_sound env cfg (bw_resched b n)"
  using assms sound_run unfolding others_run_def by blast+

lemma sound_split:
  assumes "node_sound env cfg n" "split_shards t k (nd_engine n) = (en, r)" "r \<noteq> Panic"
  shows "node_sound env cfg (n\<lparr> nd_engine := en \<rparr>)"
  by (rule sound_step [OF assms(1)]) (use assms(2,3) step_split step_split_refused in \<open>cases r; fastforce\<close>)

lemma tick_shards_ok:
  assumes "nc_shards cfg < 2 ^ 64" "others_run (ne_ev env) b" "node_sound env cfg n"
  shows "\<exists>n'. tick_shards cfg b t st sharded n = Ok n' \<and> node_sound env cfg n'"
proof -
  let ?n = "bw_split b n"
  obtain en r where sp: "split_shards t (nc_shards cfg) (nd_engine ?n) = (en, r)" by (metis surj_pair)
  have r: "nc_shards cfg > 1 \<Longrightarrow> (\<exists>e. r = Err e) \<or> (\<exists>shards la pa mtu. r = Ok (shards, la, pa, mtu) \<and> shards \<noteq> [])"
    using split_fine [of "nc_shards cfg" t "nd_engine ?n"] assms(1) sp by auto
  have n: "node_sound env cfg ?n" by (rule sound_between [OF assms(2,3)])
  have sound: "node_sound env cfg (?n\<lparr> nd_engine := en \<rparr>)" if "r \<noteq> Panic" by (rule sound_split [OF n sp that])
  note after = sound_between(3) [OF assms(2) sound]
  have m: "node_sound env cfg (?n\<lparr> nd_hub := hb \<rparr>)" "node_sound env cfg (?n\<lparr> nd_hub := hb, nd_old := old \<rparr>)" for hb old
    by (simp_all add: sound_same [of _ ?n] n)
  consider "\<not> (nc_shards cfg > 1 \<and> nc_has_tun cfg)" | e where "r = Err e"
    | shards la pa mtu where "r = Ok (shards, la, pa, mtu)" "shards \<noteq> []"
    using r by blast
  then show ?thesis
  proof cases
    case 2
    then show ?thesis using sp sound m assms(3) by (simp add: tick_shards_def Let_def split: prod.split option.split)
  next
    case 3
    have "node_sound env cfg ((bw_install b (?n\<lparr> nd_engine := en \<rparr>))\<lparr> nd_hub := hb \<rparr>)" for hb
      using after 3 by (simp add: node_sound_def)
    then show ?thesis using 3 sp m assms(3) by (simp add: tick_shards_def flow_new_def Let_def split: prod.split option.split)
  qed (simp add: tick_shards_def assms(3))
qed

lemma tick_front_ok:
  assumes "nc_shards cfg < 2 ^ 64" "others_run (ne_ev env) b" "node_sound env cfg n"
  obtains m where "tick_front cfg b t n = Ok m" "node_sound env cfg m"
proof -
  obtain m where "tick_shards cfg b t (en_state (nd_engine n)) (en_sharded (nd_engine n)) (bw_read b n) = Ok m" "node_sound env cfg m"
    using tick_shards_ok [OF assms(1,2) sound_between(1) [OF assms(2,3)]] by blast
  then show ?thesis using that sound_between(4) [OF assms(2)] by (simp add: tick_front_def)
qed

text \<open>The one case that stops the loop: an idle initiator finds its engine established when it comes to start.\<close>

definition start_meets_established :: "node_env \<Rightarrow> node_cfg \<Rightarrow> 'a node_scheme between \<Rightarrow> nat \<Rightarrow> nat \<Rightarrow> 'a node_scheme \<Rightarrow> bool" where
  "start_meets_established env cfg b t now n \<longleftrightarrow> en_state (nd_engine n) = Idle \<and> nc_fallback cfg \<and> nc_initiate cfg
     \<and> (case tick_front cfg b t n of
          Ok m \<Rightarrow> (case sched_idle env now (nd_sched m) of (s, p, dest) \<Rightarrow>
            (\<exists>entry. p = Path_Tunnel entry) \<and> en_state (nd_engine (bw_engine b (m\<lparr> nd_sched := s \<rparr>))) = Established)
        | _ \<Rightarrow> False)"

lemma start_any_established:
  "en_state en = Established \<Longrightarrow> start_any env auth eph (abandon_handshake en) = Panic"
  by (simp add: start_any_def start_handshake_def start_auth_handshake_def abandon_handshake_def)

lemma start_any_sound:
  assumes "node_sound env cfg n" "en_state (nd_engine n) \<noteq> Established"
  obtains en f where "start_any env (nc_auth cfg) eph (abandon_handshake (nd_engine n)) = Ok (en, f)" "node_sound env cfg (n\<lparr> nd_engine := en \<rparr>)"
proof -
  let ?en = "abandon_handshake (nd_engine n)"
  have s: "node_sound env cfg (n\<lparr> nd_engine := ?en \<rparr>)"
    by (rule sound_step [OF assms(1)]) (simp add: step_abandon)
  have coh: "coherent_engine ?en" using s reachable_coherent by (auto simp: node_sound_def)
  have "en_state (nd_engine n) \<noteq> Responding" using assms(1) reachable_coherent by (fastforce simp: node_sound_def coherent_simps)
  then have idle: "en_state ?en = Idle" using assms(2) by (cases "en_state (nd_engine n)") (simp_all add: abandon_handshake_def)
  obtain en f where st: "start_any env (nc_auth cfg) eph ?en = Ok (en, f)"
    using start_any_ok [OF coh idle, of "nc_auth cfg" env eph] s by (auto simp: node_sound_def)
  have "engine_step (ne_ev env) ?en en"
    using st step_start step_start_auth by (auto simp: start_any_def split: if_splits)
  then have "node_sound env cfg (n\<lparr> nd_engine := en \<rparr>)" using sound_step [OF s, of "n\<lparr> nd_engine := en \<rparr>"] by simp
  with st show ?thesis by (rule that)
qed

lemma tick_idle_in_ok:
  assumes "others_run (ne_ev env) b" "node_sound env cfg m" "sched_idle env now (nd_sched m) = (s, p, dest)"
  shows "if nc_initiate cfg \<and> (\<exists>entry. p = Path_Tunnel entry) \<and> en_state (nd_engine (bw_engine b (m\<lparr> nd_sched := s \<rparr>))) = Established
    then tick_idle_in env cfg b eph now m = Panic
    else \<exists>n'. tick_idle_in env cfg b eph now m = Ok n' \<and> node_sound env cfg n'"
proof -
  let ?n = "bw_engine b (m\<lparr> nd_sched := s \<rparr>)"
  have n: "node_sound env cfg ?n" by (rule sound_between [OF assms(1)]) (simp add: sound_same [of _ m] assms(2))
  show ?thesis
  proof (cases "nc_initiate cfg \<and> (\<exists>entry. p = Path_Tunnel entry)")
    case True
    then obtain entry where p: "p = Path_Tunnel entry" and i: "nc_initiate cfg" by blast
    show ?thesis
    proof (cases "en_state (nd_engine ?n) = Established")
      case False
      obtain en f where st: "start_any env (nc_auth cfg) eph (abandon_handshake (nd_engine ?n)) = Ok (en, f)"
        and sound: "node_sound env cfg (?n\<lparr> nd_engine := en \<rparr>)" by (rule start_any_sound [OF n False])
      from sound_between(6) [OF assms(1) sound]
      show ?thesis using p i False st assms(3) by (simp add: tick_idle_in_def node_send_def node_sound_def Let_def)
    qed (use p i assms(3) in \<open>simp add: tick_idle_in_def start_any_established\<close>)
  next
    case False
    then show ?thesis using assms(2,3) by (cases p) (auto simp: tick_idle_in_def node_sound_def)
  qed
qed

lemma tick_handshaking_sound:
  assumes "others_run (ne_ev env) b" "node_sound env cfg m"
  shows "node_sound env cfg (tick_handshaking b now m)"
proof -
  have abandon: "node_sound env cfg (n\<lparr> nd_engine := abandon_handshake (nd_engine n) \<rparr>)" if "node_sound env cfg n" for n :: "'a node_scheme"
    by (rule sound_step [OF that]) (simp add: step_abandon)
  have s: "node_sound env cfg (m\<lparr> nd_sched := s \<rparr>)" for s by (simp add: sound_same [of _ m] assms(2))
  from sound_between(6) [OF assms(1) abandon [OF sound_between(5) [OF assms(1) s]]]
  show ?thesis using assms(2) by (simp add: tick_handshaking_def node_send_def node_sound_def Let_def split: option.split)
qed

text \<open>
  C32. The main loop stops in one case only. The other threads may handle frames, seal packets and do anything else between
  the locks that a tick takes one after the other, as long as their own operations return. Then, for a node whose engine was
  built for the configured kind of handshake, whatever the clocks say, a tick returns and leaves such a node, with and without
  fallback, whether shards come, go or stay; except that a tick that has read an idle engine, and is to start a handshake
  over a tunnel path, panics when the engine has been established in between.
\<close>

theorem tick_returns:
  assumes "node_sound env cfg n" "others_run (ne_ev env) b" "nc_shards cfg < 2 ^ 64"
  shows "if start_meets_established env cfg b t now n then tick_in env cfg b t eph now n = Panic
    else \<exists>n'. tick_in env cfg b t eph now n = Ok n' \<and> node_sound env cfg n'"
proof -
  obtain m where m: "tick_front cfg b t n = Ok m" and sm: "node_sound env cfg m"
    by (rule tick_front_ok [OF assms(3,2,1)])
  obtain s p dest where si: "sched_idle env now (nd_sched m) = (s, p, dest)" by (metis prod_cases3)
  have reset: "node_sound env cfg (k\<lparr> nd_engine := engine_reset (nd_engine k) \<rparr>)" if "node_sound env cfg k" for k :: "'a node_scheme"
    by (rule sound_step [OF that]) (simp add: step_reset)
  have kept: "node_sound env cfg (m\<lparr> nd_sched := s' \<rparr>)" for s' by (simp add: sound_same [of _ m] sm)
  note reset = reset [OF sound_between(5) [OF assms(2) kept]]
  consider "en_state (nd_engine n) = Established" | "en_state (nd_engine n) = Idle" "nc_fallback cfg"
    | "en_state (nd_engine n) \<noteq> Established" "en_state (nd_engine n) = Idle \<longrightarrow> \<not> nc_fallback cfg" by blast
  then show ?thesis
  proof cases
    case 1
    then show ?thesis using m kept reset
      by (simp add: tick_in_def start_meets_established_def Let_def split: prod.split)
  next
    case 2
    then show ?thesis using m tick_idle_in_ok [OF assms(2) sm si, of eph]
      by (simp add: tick_in_def start_meets_established_def si Let_def)
  next
    case 3
    moreover have "node_sound env cfg (tick_resend (en_state (nd_engine n)) m)"
      using sm by (simp add: tick_resend_def node_send_def node_sound_def split: option.split)
    ultimately show ?thesis using m tick_handshaking_sound [OF assms(2) sm]
      by (auto simp: tick_in_def start_meets_established_def Let_def)
  qed
qed

section \<open>What goes wrong\<close>

text \<open>
  C38. A handshake that comes in between stops the node: the tick reads the state of the engine and starts its own
  handshake later, under another lock. When a first message, which anybody can make, arrives at an idle initiator
  between the two, the engine is established and the start of the handshake panics.
\<close>

theorem init_between_read_and_start_panics:
  assumes "en_state (nd_engine n) = Idle" "en_identity (nd_engine n) = Some ident" "length body = HANDSHAKE_BODY_LEN"
    and "handle_frame_at (ne_ev env) t eph (write_head [] HandshakeInit (replicate 8 0) @ body) w (nd_engine n) = Ok (en, r)"
    and "nc_initiate cfg" "\<not> nc_auth cfg" "snd (next_path PEER_KEY now (sd_fb (nd_sched n))) = Path_Tunnel entry"
  shows "tick_idle env cfg eph' now (n\<lparr> nd_engine := en \<rparr>) = Panic"
proof -
  have z: "length (replicate 8 (0 :: u8)) = 8" by simp
  have "en_state en = Established"
    using assms(4) unfolding handle_frame_at_def parse_write_head [OF z]
    using assms(1-3) by (auto simp: handle_handshake_init_def accept_init_def split_handshake_def Let_def establish_def)
  moreover obtain fb where "next_path PEER_KEY now (sd_fb (nd_sched n)) = (fb, Path_Tunnel entry)"
    using assms(7) by (metis prod.collapse)
  ultimately show ?thesis
    using assms(5,6) by (simp add: tick_idle_def tick_idle_in_def sched_idle_def start_any_def start_handshake_def abandon_handshake_def Let_def)
qed

text \<open>An initiator that has one entry and no tunnel yet.\<close>

definition toy_node :: node where
  "toy_node = \<lparr> nd_engine = engine_new (identity_from_seed toy_x25519 [3]) (addr_with_region 1 1 0 2 0) (addr_with_region 2 1 0 2 0),
     nd_sched = toy_sched, nd_hub = shard_hub_new, nd_old = [], nd_sent = [] \<rparr>"

definition toy_node_cfg :: node_cfg where
  "toy_node_cfg = \<lparr> nc_initiate = True, nc_auth = False, nc_fallback = True, nc_shards = 1, nc_has_tun = True \<rparr>"

definition toy_node_env :: node_env where
  "toy_node_env = \<lparr> ne_ev = toy_env, ne_parse = \<lambda>_. None \<rparr>"

text \<open>Another thread that hands a received frame to the engine.\<close>

definition hear :: "engine_env \<Rightarrow> nat \<Rightarrow> bytes \<Rightarrow> bytes \<Rightarrow> u64 \<Rightarrow> 'a node_scheme \<Rightarrow> 'a node_scheme" where
  "hear ev t eph frame w n = (case handle_frame_at ev t eph frame w (nd_engine n) of
     Ok (en, r) \<Rightarrow> n\<lparr> nd_engine := en \<rparr>
   | _ \<Rightarrow> n)"

lemma hear_runs: "engine_runs ev (hear ev t eph frame w)"
  unfolding engine_runs_def hear_def by (auto split: outcome.split intro: step_frame r_into_rtranclp)

lemma quiet_runs: "engine_runs ev (\<lambda>n. n)"
  by (simp add: engine_runs_def)

definition toy_init :: bytes where
  "toy_init = write_head [] HandshakeInit (replicate 8 0) @ replicate 64 9"

lemma toy_front: "tick_front toy_node_cfg (quiet\<lparr> bw_engine := g \<rparr>) t toy_node = Ok toy_node"
  by (simp add: tick_front_def tick_shards_def toy_node_cfg_def quiet_def)

lemma toy_sound: "node_sound toy_node_env toy_node_cfg toy_node"
  using reach_plain by (simp add: node_sound_def toy_node_def toy_node_cfg_def toy_node_env_def engine_new_def)

text \<open>A first message that comes before the tick has read the state is one thing, one that comes right after the start another.\<close>

lemma tick_returns_witness:
  "\<exists>n'. tick_in toy_node_env toy_node_cfg (quiet\<lparr> bw_resched := hear toy_env 0 [2] toy_init 0 \<rparr>) 0 [1] 5 toy_node = Ok n'
    \<and> node_sound toy_node_env toy_node_cfg n'"
proof -
  let ?b = "quiet\<lparr> bw_resched := hear toy_env 0 [2] toy_init 0 \<rparr>"
  have "others_run (ne_ev toy_node_env) ?b"
    by (simp add: others_run_def quiet_def toy_node_env_def hear_runs quiet_runs)
  moreover have "\<not> start_meets_established toy_node_env toy_node_cfg ?b 0 5 toy_node"
    by (auto simp: start_meets_established_def tick_front_def tick_shards_def sched_idle_def toy_node_cfg_def toy_node_def quiet_def
        engine_new_def Let_def split: prod.split)
  ultimately show ?thesis
    using tick_returns [OF toy_sound, of ?b 0 5 "[1]"] by (simp add: toy_node_cfg_def)
qed

lemma toy_next_path: "next_path PEER_KEY now (sd_fb toy_sched) = (sd_fb toy_sched, Path_Tunnel ''here'')"
  by (simp add: toy_sched_def node_sched_new_def next_path_def peer_next_def note_resolved_def peer_mut_def fallback_new_def put_peer_def
      path_of_def resolved_default_def Let_def)

lemma init_between_read_and_start_panics_witness:
  "\<exists>en r. handle_frame_at toy_env 0 [2] (write_head [] HandshakeInit (replicate 8 0) @ replicate 64 9) 0 (nd_engine toy_node) = Ok (en, r)
    \<and> tick_idle toy_node_env toy_node_cfg [1] 5 (toy_node\<lparr> nd_engine := en \<rparr>) = Panic"
proof -
  have z: "length (replicate 8 (0 :: u8)) = 8" by simp
  obtain en r where h: "handle_frame_at toy_env 0 [2] (write_head [] HandshakeInit (replicate 8 0) @ replicate 64 9) 0 (nd_engine toy_node) = Ok (en, r)"
    unfolding handle_frame_at_def parse_write_head [OF z] by (simp add: Let_def) (metis surj_pair)
  have "tick_idle toy_node_env toy_node_cfg [1] 5 (toy_node\<lparr> nd_engine := en \<rparr>) = Panic"
    by (rule init_between_read_and_start_panics [of toy_node "identity_from_seed toy_x25519 [3]" "replicate 64 9" toy_node_env 0 "[2]" 0 en r _ 5 "''here''"])
       (use h in \<open>simp_all add: toy_node_def toy_node_cfg_def toy_node_env_def engine_new_def HANDSHAKE_BODY_LEN_def toy_next_path\<close>)
  then show ?thesis using h by blast
qed

text \<open>
  C37. A healthy tunnel is given up for plain text: when a node has ever sealed a frame and its new tunnel delivers nothing for
  three seconds, be it that the peer has nothing to say, the tick drops the keys, and with no second entry the next
  tick of an initiator sends the packets unencrypted to the main entry until the degradation expires.
\<close>

theorem idle_tunnel_goes_plain:
  assumes "en_state (nd_engine n) = Established" "hub_active (nd_hub n) = 0" "nc_shards cfg \<le> 1" "nc_fallback cfg" "nc_initiate cfg"
    and "sd_success_recorded (nd_sched n)" "sd_est_started (nd_sched n) = Some since" "since + 3 \<le> now"
    and "0 < en_sealed_outbound (nd_engine n)" "en_delivered_inbound (nd_engine n) = sd_est_delivered (nd_sched n)"
    and "fm_opts (sd_fb (nd_sched n)) = fallback_options_default" "fm_peers (sd_fb (nd_sched n)) PEER_KEY = Some p"
    and "ps_level p = MainTunnel" "rs_alt_entries (ps_resolved p) = []" "now' - now < ps_ttl_secs p"
  shows "\<exists>n1 n2. tick env cfg t eph now n = Ok n1 \<and> en_keys (nd_engine n1) = None \<and> tick env cfg t' eph' now' n1 = Ok n2
    \<and> sd_transport (nd_sched n2) = To_PlainUdp (sd_main (nd_sched n))"
proof -
  let ?s = "nd_sched n"
  let ?p = "next_entry now p"
  have pf: "peer_failure FirstPacketTimeout now (peer_mut PEER_KEY (sd_fb ?s)) = ?p"
    using assms(12,13) by (simp add: peer_failure_def peer_mut_def)
  let ?s1 = "?s\<lparr> sd_fb := put_peer PEER_KEY ?p (sd_fb ?s), sd_success_recorded := False, sd_est_started := None \<rparr>"
  have secs: "as_secs (fo_first_packet_timeout (fm_opts (sd_fb ?s))) = 3"
    using assms(11) by (simp add: fallback_options_default_def as_secs_def)
  have e: "sched_established True now (en_sealed_outbound (nd_engine n)) (en_delivered_inbound (nd_engine n)) ?s = (?s1, True)"
    using assms(6-10) by (simp add: sched_established_def secs record_failure_def pf Let_def)
  let ?n1 = "n\<lparr> nd_sched := ?s1, nd_engine := engine_reset (nd_engine n) \<rparr>"
  have t1: "tick env cfg t eph now n = Ok ?n1"
    using assms(1-4) e by (simp add: tick_def tick_in_def tick_front_def tick_shards_def Let_def)
  have "ps_level ?p = PlainTcp" "ps_degraded_at ?p = Some now" "ps_ttl_secs ?p = ps_ttl_secs p"
    using assms(14) by (simp_all add: next_entry_def Let_def)
  then have nx: "next_path PEER_KEY now' (put_peer PEER_KEY ?p (sd_fb ?s)) = (put_peer PEER_KEY ?p (put_peer PEER_KEY ?p (sd_fb ?s)), Path_PlainTcp)"
    using assms(15) by (auto simp: next_path_def peer_next_def plain_path_def)
  have "\<exists>n2. tick env cfg t' eph' now' ?n1 = Ok n2 \<and> sd_transport (nd_sched n2) = To_PlainUdp (sd_main ?s)"
    using assms(3-5) by (simp add: tick_def tick_in_def tick_front_def tick_shards_def tick_idle_in_def sched_idle_def Let_def engine_reset_def nx)
  then show ?thesis using t1 by (simp add: engine_reset_def)
qed

lemma idle_tunnel_goes_plain_witness:
  "\<exists>n1 n2. tick toy_node_env toy_node_cfg 0 [] 8 (toy_node\<lparr> nd_engine := (nd_engine toy_node)\<lparr> en_state := Established, en_sealed_outbound := 1 \<rparr>,
        nd_sched := toy_sched\<lparr> sd_success_recorded := True, sd_est_started := Some 5 \<rparr> \<rparr>) = Ok n1
    \<and> tick toy_node_env toy_node_cfg 0 [] 10 n1 = Ok n2 \<and> sd_transport (nd_sched n2) = To_PlainUdp ([1, 1, 1, 1], 9000)"
proof -
  let ?n = "toy_node\<lparr> nd_engine := (nd_engine toy_node)\<lparr> en_state := Established, en_sealed_outbound := 1 \<rparr>,
      nd_sched := toy_sched\<lparr> sd_success_recorded := True, sd_est_started := Some 5 \<rparr> \<rparr>"
  have p: "\<exists>p. fm_peers (sd_fb (nd_sched ?n)) PEER_KEY = Some p \<and> ps_level p = MainTunnel \<and> rs_alt_entries (ps_resolved p) = []
      \<and> ps_ttl_secs p = 300"
    by (simp add: toy_sched_def node_sched_new_def note_resolved_def put_peer_def peer_mut_def fallback_new_def fallback_options_default_def
        as_secs_def Let_def)
  then obtain p where p: "fm_peers (sd_fb (nd_sched ?n)) PEER_KEY = Some p" "ps_level p = MainTunnel" "rs_alt_entries (ps_resolved p) = []"
      "ps_ttl_secs p = 300" by blast
  have "\<exists>n1 n2. tick toy_node_env toy_node_cfg 0 [] 8 ?n = Ok n1 \<and> en_keys (nd_engine n1) = None \<and> tick toy_node_env toy_node_cfg 0 [] 10 n1 = Ok n2
    \<and> sd_transport (nd_sched n2) = To_PlainUdp (sd_main (nd_sched ?n))"
    by (rule idle_tunnel_goes_plain [where since = 5 and p = p])
       (use p in \<open>simp_all add: toy_node_def toy_node_cfg_def toy_sched_def node_sched_new_def shard_hub_new_def hub_active_def engine_new_def
          note_resolved_def put_peer_def fallback_new_def Let_def\<close>)
  then show ?thesis by (auto simp: toy_sched_def node_sched_new_def)
qed

end
