(* ===== verification/NodePlane.thy ===== *)
theory NodePlane
  imports NodeSched EngineDelivery Fec Observe CompatPipeline
begin

text \<open>
  The data plane of a node, \<open>Plane\<close> of \<open>adapter/wintun-node/src/main.rs\<close>: a datagram from the network on its way
  through error correction, observer, plain demultiplexer, shards and engine to the TUN device, and a batch of
  packets from the device on its way through hook, compatibility layer, engine and error correction to the network.
  The verdict of the hook is an argument; the sockets and the device are a part of the environment, which says whether
  a datagram could be sent and whether the ring of the device had room. The rate limiter computes with floating-point numbers
  and only delays, so it is left out, as are the counters that decide when a line is logged.
\<close>

section \<open>Constants and helpers\<close>

definition PUNCH_KNOCK :: bytes where "PUNCH_KNOCK = map of_char ''IP8PUNCH''"
definition ALT_PROBE_INTERVAL :: u64 where [const_defs]: "ALT_PROBE_INTERVAL = 8"
definition ECHO_MAGIC :: bytes where "ECHO_MAGIC = map of_char ''IP8NT''"

definition test_drop_decide :: "u64 \<Rightarrow> u32 \<Rightarrow> bool" where
  "test_drop_decide counter rate \<longleftrightarrow> rate > 0 \<and> drop_bit 32 (counter * 0x9E3779B97F4A7C15) mod 1000 < (ucast rate :: u64)"

text \<open>The address of a node: \<open>sha\<close> is SHA-256, and the result the octets of an IPv6 address.\<close>

definition derive_ula :: "(bytes \<Rightarrow> bytes) \<Rightarrow> bytes \<Rightarrow> bytes \<Rightarrow> bytes" where
  "derive_ula sha net_id node = (
     let ph = sha (map of_char ''ipv8-ula-prefix:'' @ net_id);
         ih = sha (map of_char ''ipv8-ula-iid:'' @ net_id @ node);
         iid = take 8 ih
     in [0xfd] @ take 5 ph @ [0, 0] @ iid[0 := (iid ! 0) AND NOT 0x02])"

section \<open>The state\<close>

record plane_env = node_env +
  pe_udp_ok :: "sock_addr \<Rightarrow> bytes \<Rightarrow> bool"
  pe_tun_ok :: "nat \<Rightarrow> nat \<Rightarrow> bool"

record plane_cfg =
  pc_tun :: bool
  pc_plain_demux :: bool
  pc_learn :: bool
  pc_is_initiator :: bool
  pc_compat :: bool
  pc_effective_mtu :: nat
  pc_tun_ip :: bytes
  pc_tun_ipv6 :: "bytes option"
  pc_mss_clamp :: "u16 option"
  pc_migrate :: bool
  pc_mp_alt :: "sock_addr option"
  pc_test_drop :: "u32 option"

record plane = node +
  pl_fec :: "(fec_tx \<times> fec_rx) option"
  pl_observe :: observe_node
  pl_alt_probe :: u64
  pl_tun :: "bytes list"
  pl_echo_ok :: u32
  pl_echo_bad :: u32
  pl_learned :: bool

text \<open>
  What an arriving datagram comes with: the clocks (nanoseconds, milliseconds and microseconds since the start, seconds of
  the wall clock), the secret for a handshake that it may begin, its origin, and the verdict of the hook.
\<close>

record arrival =
  ar_t :: nat
  ar_ms :: u64
  ar_us :: u64
  ar_now :: u64
  ar_eph :: bytes
  ar_from :: sock_addr
  ar_allow :: "bytes \<Rightarrow> bool"

definition udp_send :: "plane_env \<Rightarrow> sock_addr \<Rightarrow> bytes \<Rightarrow> plane \<Rightarrow> plane \<times> bool" where
  "udp_send env dest f p = (if pe_udp_ok env dest f then (node_send dest f p, True) else (p, False))"

fun udp_send_all :: "plane_env \<Rightarrow> sock_addr \<Rightarrow> bytes list \<Rightarrow> plane \<Rightarrow> plane \<times> nat" where
  "udp_send_all env dest [] p = (p, 0)"
| "udp_send_all env dest (f # fs) p = (case udp_send env dest f p of (p, ok) \<Rightarrow>
     (case udp_send_all env dest fs p of (p, n) \<Rightarrow> (p, if ok then n + 1 else n)))"

text \<open>
  \<open>allocate_send_packet(len as u16)\<close> and the copy into the allocated packet, which panics when the lengths differ;
  the second result says whether the ring had room.
\<close>

definition tun_write :: "plane_env \<Rightarrow> bytes \<Rightarrow> plane \<Rightarrow> (unit, plane \<times> bool) outcome" where
  "tun_write env pkt p = (
     let n = length pkt mod 65536
     in if \<not> pe_tun_ok env (length (pl_tun p)) n then Ok (p, False)
        else if n \<noteq> length pkt then Panic
        else Ok (p\<lparr> pl_tun := pl_tun p @ [pkt] \<rparr>, True))"

definition inject_icmp :: "plane_env \<Rightarrow> plane_cfg \<Rightarrow> bytes \<Rightarrow> plane \<Rightarrow> (unit, plane) outcome" where
  "inject_icmp env cfg icmp p = (
     if \<not> pc_tun cfg then Ok p
     else case tun_write env icmp p of Ok (p, _) \<Rightarrow> Ok p | Err e \<Rightarrow> Err e | Panic \<Rightarrow> Panic)"

section \<open>A datagram from the network\<close>

text \<open>A Data frame that the loss injection of the tests takes out.\<close>

definition test_dropped :: "u32 option \<Rightarrow> bytes \<Rightarrow> bool" where
  "test_dropped rate raw \<longleftrightarrow> (case rate of
     None \<Rightarrow> False
   | Some r \<Rightarrow> 2 \<le> length raw \<and> raw ! 0 = 0x01 \<and> raw ! 1 = 2
       \<and> (case frame_meta raw of Some (_, counter) \<Rightarrow> test_drop_decide counter r | None \<Rightarrow> False))"

text \<open>
  Error correction at the entrance: recovery frames end here, and may give a rebuilt frame; Data frames are remembered. The last
  result says whether the frame was taken. A cache whose eviction would not end is \<open>None\<close>.
\<close>

definition fec_inbound :: "bytes \<Rightarrow> fec_rx \<Rightarrow> (fec_rx \<times> bytes option \<times> bool) option" where
  "fec_inbound raw rx = (
     if 2 \<le> length raw \<and> raw ! 0 = 0x01 then
       (if raw ! 1 = 6 then (case accept_recovery rx raw of
            (rx, Inr (Some recon)) \<Rightarrow> Some (rx, Some recon, True)
          | (rx, _) \<Rightarrow> Some (rx, None, True))
        else if raw ! 1 = 2 then (case observe_data rx raw of
            None \<Rightarrow> None
          | Some (Inl _) \<Rightarrow> Some (rx, None, False)
          | Some (Inr rx) \<Rightarrow> Some (rx, None, False))
        else Some (rx, None, False))
     else Some (rx, None, False))"

definition inbound_receipt :: "plane_env \<Rightarrow> arrival \<Rightarrow> bytes \<Rightarrow> plane \<Rightarrow> (unit, plane) outcome" where
  "inbound_receipt env a raw p = (case engine_open_receipt (ne_ev env) raw (nd_engine p) of
     (en, opened) \<Rightarrow>
       (let p = p\<lparr> nd_engine := en \<rparr>
        in case opened of
             None \<Rightarrow> Ok p
           | Some report \<Rightarrow> (case ingest_report (ar_ms a) (ar_us a) report (pl_observe p) of
               (ob, Panic) \<Rightarrow> Panic
             | (ob, _) \<Rightarrow> Ok (p\<lparr> pl_observe := ob \<rparr>))))"

definition observe_frame :: "plane_cfg \<Rightarrow> arrival \<Rightarrow> bytes \<Rightarrow> plane \<Rightarrow> plane" where
  "observe_frame cfg a raw p = p\<lparr> pl_observe :=
     fst (observe_inbound (ar_ms a) (if Some (ar_from a) = pc_mp_alt cfg then Path_Alt else Path_Main) raw (pl_observe p)) \<rparr>"

text \<open>A plain packet goes to the device, or is counted where there is none.\<close>

definition is_plain :: "plane_cfg \<Rightarrow> bytes \<Rightarrow> bool" where
  "is_plain cfg raw \<longleftrightarrow> pc_plain_demux cfg \<and> (length raw < 10 \<or> raw ! 0 \<noteq> 0x01)
     \<and> raw \<noteq> [] \<and> (drop_bit 4 (raw ! 0) = 4 \<or> drop_bit 4 (raw ! 0) = 6)"

definition count_plain :: "plane \<Rightarrow> plane" where
  "count_plain p = p\<lparr> nd_sched := (nd_sched p)\<lparr> sd_plain_rx := sd_plain_rx (nd_sched p) + 1 \<rparr> \<rparr>"

definition inbound_plain :: "plane_env \<Rightarrow> plane_cfg \<Rightarrow> arrival \<Rightarrow> bytes \<Rightarrow> plane \<Rightarrow> (unit, plane) outcome" where
  "inbound_plain env cfg a raw p = (
     if \<not> ar_allow a raw then Ok p
     else if pc_tun cfg then (case tun_write env raw p of
         Ok (p, True) \<Rightarrow> Ok (count_plain p)
       | Ok (p, False) \<Rightarrow> Ok p
       | Err e \<Rightarrow> Err e
       | Panic \<Rightarrow> Panic)
     else Ok (count_plain p))"

text \<open>The entry that a frame without proof of its origin may move.\<close>

definition maybe_learn :: "arrival \<Rightarrow> bool \<Rightarrow> plane \<Rightarrow> plane" where
  "maybe_learn a allow_first p = (case unauth_refresh (ar_t a) (ar_from a) (pl_learned p) allow_first (nd_sched p) of
     (s, learned, _) \<Rightarrow> p\<lparr> nd_sched := s, pl_learned := learned \<rparr>)"

definition inbound_learn :: "plane_cfg \<Rightarrow> arrival \<Rightarrow> bytes \<Rightarrow> plane \<Rightarrow> plane" where
  "inbound_learn cfg a raw p = (
     if pc_learn cfg \<and> 1 \<le> length raw \<and> raw ! 0 = 0x01 \<and> (\<not> pl_learned p \<or> pc_migrate cfg)
     then maybe_learn a True p else p)"

definition inbound_migrate :: "plane_cfg \<Rightarrow> arrival \<Rightarrow> bytes \<Rightarrow> bool \<Rightarrow> bool \<Rightarrow> plane \<Rightarrow> plane" where
  "inbound_migrate cfg a raw has_resp has_delivered p = (
     if pc_migrate cfg \<and> (has_resp \<or> has_delivered)
     then (if is_strong_roam_credential raw has_resp has_delivered
           then p\<lparr> nd_sched := fst (strong_refresh (ar_t a) (ar_from a) (nd_sched p)) \<rparr>
           else maybe_learn a (pc_learn cfg) p)
     else p)"

text \<open>The packet that the engine has unpacked: to the device, echoed, or compared with what was sent.\<close>

definition echo_good :: "bytes \<Rightarrow> bool" where
  "echo_good pkt \<longleftrightarrow> 9 \<le> length pkt \<and> take 5 pkt = ECHO_MAGIC \<and> list_all (\<lambda>b. b = 0xA5) (drop 9 pkt)"

definition inbound_packet :: "plane_env \<Rightarrow> plane_cfg \<Rightarrow> arrival \<Rightarrow> bytes \<Rightarrow> plane \<Rightarrow> (unit, plane) outcome" where
  "inbound_packet env cfg a pkt p = (
     case (if pc_compat cfg then process_inbound pkt (pc_effective_mtu cfg) (pc_mss_clamp cfg) else Ok pkt) of
       Ok pkt \<Rightarrow>
         if \<not> ar_allow a pkt then Ok p
         else if pc_tun cfg then (case tun_write env pkt p of Ok (p, _) \<Rightarrow> Ok p | Err e \<Rightarrow> Err e | Panic \<Rightarrow> Panic)
         else if \<not> pc_is_initiator cfg then (case seal_frames (ne_ev env) (ar_t a) pkt (nd_engine p) of
             (en, Ok frames) \<Rightarrow> Ok (fst (udp_send_all env (ar_from a) frames (p\<lparr> nd_engine := en \<rparr>)))
           | (en, Err _) \<Rightarrow> Ok (p\<lparr> nd_engine := en \<rparr>)
           | (en, Panic) \<Rightarrow> Panic)
         else if echo_good pkt then Ok (p\<lparr> pl_echo_ok := pl_echo_ok p + 1 \<rparr>)
         else Ok (p\<lparr> pl_echo_bad := pl_echo_bad p + 1 \<rparr>)
     | Err e \<Rightarrow> Err e
     | Panic \<Rightarrow> Panic)"

text \<open>What the shards leave to the engine.\<close>

definition inbound_engine :: "plane_env \<Rightarrow> plane_cfg \<Rightarrow> arrival \<Rightarrow> bytes \<Rightarrow> plane \<Rightarrow> (unit, plane) outcome" where
  "inbound_engine env cfg a raw p = (
     case handle_frame_at (ne_ev env) (ar_t a) (ar_eph a) raw (ar_now a) (nd_engine p) of
       Ok (en, resp) \<Rightarrow>
         (case take_delivered en of (en, delivered) \<Rightarrow>
           let p = inbound_migrate cfg a raw (resp \<noteq> None) (delivered \<noteq> None) (p\<lparr> nd_engine := en \<rparr>);
               p = (case resp of Some f \<Rightarrow> fst (udp_send env (transport_dest (sd_transport (nd_sched p))) f p) | None \<Rightarrow> p)
           in case delivered of Some pkt \<Rightarrow> inbound_packet env cfg a pkt p | None \<Rightarrow> Ok p)
     | Err e \<Rightarrow> Err e
     | Panic \<Rightarrow> Panic)"

definition inbound_tunnel :: "plane_env \<Rightarrow> plane_cfg \<Rightarrow> arrival \<Rightarrow> bytes \<Rightarrow> plane \<Rightarrow> (unit, plane) outcome" where
  "inbound_tunnel env cfg a raw p = (
     if is_plain cfg raw then inbound_plain env cfg a raw p
     else
       let p = inbound_learn cfg a raw p
       in case hub_feed raw (nd_hub p) of (hb, taken) \<Rightarrow>
            let p = p\<lparr> nd_hub := hb \<rparr> in if taken then Ok p else inbound_engine env cfg a raw p)"

definition inbound_observe :: "plane_env \<Rightarrow> plane_cfg \<Rightarrow> arrival \<Rightarrow> bytes \<Rightarrow> plane \<Rightarrow> (unit, plane) outcome" where
  "inbound_observe env cfg a raw p = (
     if 2 \<le> length raw \<and> raw ! 0 = 0x01 \<and> raw ! 1 = 7 then inbound_receipt env a raw p
     else inbound_tunnel env cfg a raw (if 2 \<le> length raw \<and> raw ! 0 = 0x01 \<and> raw ! 1 = 2 then observe_frame cfg a raw p else p))"

text \<open>
  The whole way of a datagram. A rebuilt frame goes through it again, and the first argument bounds how often; a loop of the cache
  that does not end counts as a panic.
\<close>

primrec plane_inbound_n :: "nat \<Rightarrow> plane_env \<Rightarrow> plane_cfg \<Rightarrow> arrival \<Rightarrow> bytes \<Rightarrow> plane \<Rightarrow> (unit, plane) outcome" where
  "plane_inbound_n 0 env cfg a raw p = Panic"
| "plane_inbound_n (Suc n) env cfg a raw p = (
     if raw = PUNCH_KNOCK then Ok p
     else if test_dropped (pc_test_drop cfg) raw then Ok p
     else case pl_fec p of
         None \<Rightarrow> inbound_observe env cfg a raw p
       | Some (tx, rx) \<Rightarrow> (case fec_inbound raw rx of
           None \<Rightarrow> Panic
         | Some (rx, recon, taken) \<Rightarrow>
             let p = p\<lparr> pl_fec := Some (tx, rx) \<rparr>
             in case recon of
                  Some f \<Rightarrow> plane_inbound_n n env cfg a f p
                | None \<Rightarrow> if taken then Ok p else inbound_observe env cfg a raw p))"

definition plane_inbound :: "plane_env \<Rightarrow> plane_cfg \<Rightarrow> arrival \<Rightarrow> bytes \<Rightarrow> plane \<Rightarrow> (unit, plane) outcome" where
  "plane_inbound = plane_inbound_n 2"


section \<open>A batch from the device\<close>

text \<open>The compatibility layer over the batch: what may go on, with errors sent back to the device.\<close>

fun compat_batch :: "plane_env \<Rightarrow> plane_cfg \<Rightarrow> bytes list \<Rightarrow> plane \<Rightarrow> (unit, plane \<times> bytes list) outcome" where
  "compat_batch env cfg [] p = Ok (p, [])"
| "compat_batch env cfg (b # bs) p = (
     case process_outbound b (pc_effective_mtu cfg) (pc_mss_clamp cfg) (pc_tun_ip cfg) (pc_tun_ipv6 cfg) of
       Ok (b, Forward) \<Rightarrow> (case compat_batch env cfg bs p of
           Ok (p, rest) \<Rightarrow> Ok (p, b # rest) | Err e \<Rightarrow> Err e | Panic \<Rightarrow> Panic)
     | Ok (b, InjectIcmp icmp) \<Rightarrow> (case inject_icmp env cfg icmp p of
           Ok p \<Rightarrow> compat_batch env cfg bs p | Err e \<Rightarrow> Err e | Panic \<Rightarrow> Panic)
     | Ok (b, Drop) \<Rightarrow> compat_batch env cfg bs p
     | Err e \<Rightarrow> Err e
     | Panic \<Rightarrow> Panic)"

text \<open>The frames of one packet enter the group; a recovery frame comes out where a group is full.\<close>

fun fec_push_frames :: "fec_tx \<Rightarrow> bytes list \<Rightarrow> fec_tx \<times> bytes list" where
  "fec_push_frames tx [] = (tx, [])"
| "fec_push_frames tx (f # fs) = (case fec_push tx f (slice 2 10 f) of
     Inl _ \<Rightarrow> fec_push_frames tx fs
   | Inr (tx, r) \<Rightarrow> (case fec_push_frames tx fs of
       (tx, rs) \<Rightarrow> (tx, (case r of Some r \<Rightarrow> r # rs | None \<Rightarrow> rs))))"

text \<open>What goes onto the wire for one packet: the recovery frames of its groups, then its frames.\<close>

definition fec_packet :: "bool \<Rightarrow> bytes list \<Rightarrow> (fec_tx \<times> 'r) option \<Rightarrow> (fec_tx \<times> 'r) option \<times> bytes list" where
  "fec_packet fec_on frames fec = (case fec of
     Some (tx, rx) \<Rightarrow> if fec_on
       then (case fec_push_frames tx frames of (tx, rs) \<Rightarrow> (Some (tx, rx), rs @ frames))
       else (fec, frames)
   | None \<Rightarrow> (fec, frames))"

fun seal_marked :: "plane_env \<Rightarrow> nat \<Rightarrow> bool \<Rightarrow> bytes list \<Rightarrow> plane \<Rightarrow> (unit, plane \<times> bytes list) outcome" where
  "seal_marked env t fec_on [] p = Ok (p, [])"
| "seal_marked env t fec_on (b # bs) p = (case seal_frames (ne_ev env) t b (nd_engine p) of
     (en, Ok frames) \<Rightarrow> (case fec_packet fec_on frames (pl_fec p) of (fec, out) \<Rightarrow>
       (case seal_marked env t fec_on bs (p\<lparr> nd_engine := en, pl_fec := fec \<rparr>) of
          Ok (p, rest) \<Rightarrow> Ok (p, out @ rest) | Err e \<Rightarrow> Err e | Panic \<Rightarrow> Panic))
   | (en, Err _) \<Rightarrow> seal_marked env t fec_on bs (p\<lparr> nd_engine := en \<rparr>)
   | (en, Panic) \<Rightarrow> Panic)"

text \<open>The frames go to the entry, and to the second one as well: all of them, or one in eight when it is switched off.\<close>

fun send_paths :: "plane_env \<Rightarrow> sock_addr \<Rightarrow> sock_addr option \<Rightarrow> bool \<Rightarrow> bytes list \<Rightarrow> plane \<Rightarrow> plane" where
  "send_paths env dest alt off [] p = p"
| "send_paths env dest alt off (f # fs) p = (
     let p = fst (udp_send env dest f p);
         probe = (pl_alt_probe p mod ALT_PROBE_INTERVAL = 0);
         p = p\<lparr> pl_alt_probe := pl_alt_probe p + 1 \<rparr>;
         p = (case alt of
             Some a \<Rightarrow> if \<not> off \<or> probe then fst (udp_send env a f p) else p
           | None \<Rightarrow> p)
     in send_paths env dest alt off fs p)"

definition outbound_tunnel :: "plane_env \<Rightarrow> plane_cfg \<Rightarrow> nat \<Rightarrow> sock_addr \<Rightarrow> bytes list \<Rightarrow> plane \<Rightarrow> (unit, plane) outcome" where
  "outbound_tunnel env cfg t dest batch p = (case hub_seal batch (nd_hub p) of
     (hb, used_shards) \<Rightarrow>
       (let p = p\<lparr> nd_hub := hb \<rparr>
        in if used_shards then Ok p
           else case seal_marked env t (fec_enabled (pl_observe p)) batch p of
               Ok (p', out) \<Rightarrow> Ok (send_paths env dest (pc_mp_alt cfg) (alt_disabled (pl_observe p)) out p')
             | Err e \<Rightarrow> Err e
             | Panic \<Rightarrow> Panic))"

definition outbound_plain :: "plane_env \<Rightarrow> sock_addr \<Rightarrow> bytes list \<Rightarrow> plane \<Rightarrow> plane" where
  "outbound_plain env dest batch p = (case udp_send_all env dest batch p of
     (p, sent) \<Rightarrow> p\<lparr> nd_sched := (nd_sched p)\<lparr> sd_plain_tx := sd_plain_tx (nd_sched p) + sent \<rparr> \<rparr>)"

definition plane_outbound ::
  "plane_env \<Rightarrow> plane_cfg \<Rightarrow> nat \<Rightarrow> (nat \<Rightarrow> bytes \<Rightarrow> bool) \<Rightarrow> bytes list \<Rightarrow> plane \<Rightarrow> (unit, plane) outcome" where
  "plane_outbound env cfg t allow batch p = (
     let batch = map snd (filter (\<lambda>(i, b). allow i b) (enumerate 0 batch))
     in case (if pc_compat cfg then compat_batch env cfg batch p else Ok (p, batch)) of
          Ok (p, batch) \<Rightarrow>
            if batch = [] then Ok p
            else (case sd_transport (nd_sched p) of
                To_Tunnel dest \<Rightarrow> outbound_tunnel env cfg t dest batch p
              | To_PlainUdp dest \<Rightarrow> Ok (outbound_plain env dest batch p))
        | Err e \<Rightarrow> Err e
        | Panic \<Rightarrow> Panic)"

section \<open>The reports\<close>

definition observe_tick :: "plane_env \<Rightarrow> nat \<Rightarrow> u64 \<Rightarrow> u64 \<Rightarrow> plane \<Rightarrow> (unit, plane) outcome" where
  "observe_tick env t ms us p = (case maybe_build_report ms us (pl_observe p) of
     (ob, report) \<Rightarrow>
       (let p = p\<lparr> pl_observe := ob \<rparr>
        in case report of
             None \<Rightarrow> Ok p
           | Some report \<Rightarrow> (case engine_seal_receipt (ne_ev env) t report (nd_engine p) of
               Ok (en, Some f) \<Rightarrow> Ok (fst (udp_send env (transport_dest (sd_transport (nd_sched p))) f (p\<lparr> nd_engine := en \<rparr>)))
             | Ok (en, None) \<Rightarrow> Ok (p\<lparr> nd_engine := en \<rparr>)
             | Err e \<Rightarrow> Err e
             | Panic \<Rightarrow> Panic)))"

end
