(* ===== verification/PlaneSafety.thy ===== *)
theory PlaneSafety
  imports NodePlane
begin

text \<open>
  What the data plane keeps and what it does not: its threads run operations of the engine only, a rebuilt frame goes
  through once, a knock changes nothing, and a recorded first message moves the entry of an established tunnel.
\<close>

section \<open>The plane runs operations of the engine\<close>

abbreviation runs :: "engine_env \<Rightarrow> plane \<Rightarrow> plane \<Rightarrow> bool" where
  "runs ev p q \<equiv> (engine_step ev)\<^sup>*\<^sup>* (nd_engine p) (nd_engine q)"

lemma udp_engine [simp]: "nd_engine (fst (udp_send env dest f p)) = nd_engine p"
  by (simp add: udp_send_def node_send_def)

lemma udp_all_engine [simp]: "nd_engine (fst (udp_send_all env dest fs p)) = nd_engine p"
proof (induction fs arbitrary: p)
  case (Cons f fs)
  show ?case using Cons.IH [of "fst (udp_send env dest f p)"] by (simp split: prod.splits) (metis fst_conv udp_engine)
qed simp

lemma tun_engine: "tun_write env pkt p = Ok (q, ok) \<Longrightarrow> nd_engine q = nd_engine p"
  by (auto simp: tun_write_def Let_def split: if_splits)

lemma icmp_engine: "inject_icmp env cfg icmp p = Ok q \<Longrightarrow> nd_engine q = nd_engine p"
  by (auto simp: inject_icmp_def tun_engine split: if_splits outcome.splits)

lemma entry_engine [simp]:
  "nd_engine (maybe_learn a first p) = nd_engine p" "nd_engine (inbound_learn cfg a raw p) = nd_engine p"
  "nd_engine (inbound_migrate cfg a raw r d p) = nd_engine p" "nd_engine (count_plain p) = nd_engine p"
  "nd_engine (observe_frame cfg a raw p) = nd_engine p"
  by (simp_all add: maybe_learn_def inbound_learn_def inbound_migrate_def count_plain_def observe_frame_def split: prod.split)

lemma plain_engine: "inbound_plain env cfg a raw p = Ok q \<Longrightarrow> nd_engine q = nd_engine p"
  by (auto simp: inbound_plain_def tun_engine split: if_splits outcome.splits bool.splits)

lemma packet_runs:
  assumes "inbound_packet env cfg a pkt p = Ok q"
  shows "runs (ne_ev env) p q"
proof -
  have "(engine_step (ne_ev env))\<^sup>*\<^sup>* (nd_engine p) en" if "seal_frames (ne_ev env) (ar_t a) x (nd_engine p) = (en, r)" for x en r
    using step_seal_frames [OF that] by (rule r_into_rtranclp)
  then show ?thesis using assms
    by (auto simp: inbound_packet_def tun_engine split: if_splits outcome.splits prod.splits)
qed

lemma frame_runs:
  assumes "inbound_engine env cfg a raw p = Ok q"
  shows "runs (ne_ev env) p q"
proof -
  obtain en resp where h: "handle_frame_at (ne_ev env) (ar_t a) (ar_eph a) raw (ar_now a) (nd_engine p) = Ok (en, resp)"
    using assms by (auto simp: inbound_engine_def split: outcome.splits)
  define d where "d = en_delivered en"
  define p1 where "p1 = inbound_migrate cfg a raw (resp \<noteq> None) (d \<noteq> None) (p\<lparr> nd_engine := en\<lparr> en_delivered := None \<rparr> \<rparr>)"
  define p2 where "p2 = (case resp of Some f \<Rightarrow> fst (udp_send env (transport_dest (sd_transport (nd_sched p1))) f p1) | None \<Rightarrow> p1)"
  have e: "nd_engine p2 = en\<lparr> en_delivered := None \<rparr>" by (simp add: p2_def p1_def split: option.split)
  have q: "(case d of Some pkt \<Rightarrow> inbound_packet env cfg a pkt p2 | None \<Rightarrow> Ok p2) = Ok q"
    using assms h by (simp add: inbound_engine_def take_delivered_def Let_def p2_def p1_def d_def cong: option.case_cong)
  have "engine_step (ne_ev env) en (en\<lparr> en_delivered := None \<rparr>)"
    using step_take_delivered [of "ne_ev env" en] by (simp add: take_delivered_def)
  then have r: "runs (ne_ev env) p p2" using step_frame [OF h] unfolding e by (meson r_into_rtranclp rtranclp.rtrancl_into_rtrancl)
  show ?thesis
  proof (cases d)
    case None
    then show ?thesis using q r by simp
  next
    case (Some pkt)
    then show ?thesis using q packet_runs [of env cfg a pkt p2 q] rtranclp_trans [OF r] by simp
  qed
qed

lemma tunnel_runs:
  assumes "inbound_tunnel env cfg a raw p = Ok q"
  shows "runs (ne_ev env) p q"
proof (cases "is_plain cfg raw")
  case True
  then show ?thesis using assms plain_engine [of env cfg a raw p q] by (simp add: inbound_tunnel_def)
next
  case False
  obtain hb taken where f: "hub_feed raw (nd_hub (inbound_learn cfg a raw p)) = (hb, taken)" by (metis surj_pair)
  then show ?thesis
    using assms False frame_runs [of env cfg a raw "(inbound_learn cfg a raw p)\<lparr> nd_hub := hb \<rparr>" q]
    by (auto simp: inbound_tunnel_def Let_def split: if_splits)
qed

lemma receipt_runs:
  assumes "inbound_receipt env a raw p = Ok q"
  shows "runs (ne_ev env) p q"
proof -
  obtain en opened where o: "engine_open_receipt (ne_ev env) raw (nd_engine p) = (en, opened)" by (metis surj_pair)
  then have "nd_engine q = en" using assms by (auto simp: inbound_receipt_def Let_def split: option.splits prod.splits outcome.splits)
  then show ?thesis using step_open_receipt [OF o] by simp
qed

lemma observe_runs: "inbound_observe env cfg a raw p = Ok q \<Longrightarrow> runs (ne_ev env) p q"
  using receipt_runs [of env a raw p q] tunnel_runs [of env cfg a raw _ q]
  by (fastforce simp: inbound_observe_def split: if_splits)

lemma inbound_runs: "plane_inbound_n n env cfg a raw p = Ok q \<Longrightarrow> runs (ne_ev env) p q"
proof (induction n arbitrary: raw p)
  case (Suc n)
  show ?case
  proof (cases "raw = PUNCH_KNOCK \<or> test_dropped (pc_test_drop cfg) raw \<or> pl_fec p = None")
    case True
    then show ?thesis using Suc.prems observe_runs by (auto split: if_splits)
  next
    case False
    then obtain tx rx where f: "pl_fec p = Some (tx, rx)" by auto
    then obtain rx' recon taken where g: "fec_inbound raw rx = Some (rx', recon, taken)"
      using Suc.prems False by (auto split: option.splits)
    let ?p = "p\<lparr> pl_fec := Some (tx, rx') \<rparr>"
    have "(case recon of Some f \<Rightarrow> plane_inbound_n n env cfg a f ?p | None \<Rightarrow> if taken then Ok ?p else inbound_observe env cfg a raw ?p) = Ok q"
      using Suc.prems False f g by (simp add: Let_def)
    then show ?thesis
      using Suc.IH [of _ ?p] observe_runs [of env cfg a raw ?p q] by (auto split: option.splits if_splits)
  qed
qed simp

lemma compat_engine: "compat_batch env cfg bs p = Ok (q, rest) \<Longrightarrow> nd_engine q = nd_engine p"
proof (induction bs arbitrary: p rest)
  case (Cons b bs)
  obtain b' r where o: "process_outbound b (pc_effective_mtu cfg) (pc_mss_clamp cfg) (pc_tun_ip cfg) (pc_tun_ipv6 cfg) = Ok (b', r)"
    using Cons.prems by (auto split: outcome.splits)
  show ?case
  proof (cases r)
    case Forward
    then obtain rest' where "compat_batch env cfg bs p = Ok (q, rest')" using Cons.prems o by (auto split: outcome.splits)
    then show ?thesis by (rule Cons.IH)
  next
    case (InjectIcmp icmp)
    then obtain p1 where "inject_icmp env cfg icmp p = Ok p1" "compat_batch env cfg bs p1 = Ok (q, rest)"
      using Cons.prems o by (auto split: outcome.splits)
    then show ?thesis using Cons.IH icmp_engine by metis
  next
    case Drop
    then show ?thesis using Cons o by simp
  qed
qed simp

lemma marked_runs: "seal_marked env t on bs p = Ok (q, out) \<Longrightarrow> runs (ne_ev env) p q"
proof (induction bs arbitrary: p out)
  case (Cons b bs)
  obtain en r where s: "seal_frames (ne_ev env) t b (nd_engine p) = (en, r)" by (metis surj_pair)
  have step: "(engine_step (ne_ev env))\<^sup>*\<^sup>* (nd_engine p) en" using step_seal_frames [OF s] by (rule r_into_rtranclp)
  show ?case
  proof (cases r)
    case (Ok frames)
    obtain fec out' where "fec_packet on frames (pl_fec p) = (fec, out')" by (metis surj_pair)
    then show ?thesis using Cons s Ok rtranclp_trans [OF step] by (force split: outcome.splits prod.splits)
  next
    case (Err e)
    then show ?thesis using Cons s rtranclp_trans [OF step] by force
  qed (use Cons.prems s in simp)
qed simp

lemma paths_engine [simp]: "nd_engine (send_paths env dest alt off fs p) = nd_engine p"
  by (induction fs arbitrary: p) (simp_all add: Let_def split: option.split)

lemma outbound_runs:
  assumes "plane_outbound env cfg t allow batch p = Ok q"
  shows "runs (ne_ev env) p q"
proof -
  let ?b = "map snd (filter (\<lambda>(i, b). allow i b) (enumerate 0 batch))"
  obtain p1 bs where c: "(if pc_compat cfg then compat_batch env cfg ?b p else Ok (p, ?b)) = Ok (p1, bs)"
    using assms by (auto simp: plane_outbound_def Let_def split: outcome.splits)
  have e: "nd_engine p1 = nd_engine p" using c compat_engine by (auto split: if_splits)
  have "runs (ne_ev env) p1 q" if "outbound_tunnel env cfg t dest bs p1 = Ok q" for dest
  proof -
    obtain hb used where h: "hub_seal bs (nd_hub p1) = (hb, used)" by (metis surj_pair)
    show ?thesis using that h marked_runs [of env t _ bs "p1\<lparr> nd_hub := hb \<rparr>"]
      by (auto simp: outbound_tunnel_def Let_def split: if_splits outcome.splits prod.splits)
  qed
  moreover have "nd_engine (outbound_plain env dest bs p1) = nd_engine p1" for dest
    by (simp add: outbound_plain_def case_prod_unfold)
  moreover have "(if bs = [] then Ok p1 else case sd_transport (nd_sched p1) of To_Tunnel dest \<Rightarrow> outbound_tunnel env cfg t dest bs p1
      | To_PlainUdp dest \<Rightarrow> Ok (outbound_plain env dest bs p1)) = Ok q"
    using assms c by (simp add: plane_outbound_def Let_def)
  ultimately show ?thesis using e by (auto split: if_splits transport.splits)
qed

lemma report_runs:
  assumes "observe_tick env t ms us p = Ok q"
  shows "runs (ne_ev env) p q"
proof -
  obtain ob report where m: "maybe_build_report ms us (pl_observe p) = (ob, report)" by (metis surj_pair)
  show ?thesis
  proof (cases report)
    case None
    then show ?thesis using assms m by (auto simp: observe_tick_def)
  next
    case (Some rep)
    then obtain en r where o: "engine_seal_receipt (ne_ev env) t rep (nd_engine p) = Ok (en, r)"
      using assms m by (auto simp: observe_tick_def Let_def split: outcome.splits)
    then have "nd_engine q = en" using assms m Some by (auto simp: observe_tick_def Let_def split: option.splits)
    then show ?thesis using step_seal_receipt [OF o] by simp
  qed
qed

text \<open>What another thread does to the plane; one that panics leaves it to the others.\<close>

definition attempt :: "(plane \<Rightarrow> (unit, plane) outcome) \<Rightarrow> plane \<Rightarrow> plane" where
  "attempt f p = (case f p of Ok q \<Rightarrow> q | _ \<Rightarrow> p)"

text \<open>
  The threads of the plane only run operations of the engine: a datagram from the network, a batch from the device and the
  report of the observer are all among what \<open>tick_returns\<close> allows between the locks of a tick.
\<close>

theorem plane_threads_run:
  "engine_runs (ne_ev env) (attempt (plane_inbound env cfg a raw))"
  "engine_runs (ne_ev env) (attempt (plane_outbound env cfg t allow batch))"
  "engine_runs (ne_ev env) (attempt (observe_tick env t ms us))"
  by (auto simp: engine_runs_def attempt_def plane_inbound_def dest: inbound_runs outbound_runs report_runs split: outcome.split)

section \<open>A rebuilt frame goes through once\<close>

lemma tail_rebuilds_data:
  assumes "accept_tail rx cs lens seg = (rx', Inr (Some r))"
  shows "2 \<le> length r \<and> r ! 0 = 0x01 \<and> r ! 1 = 2"
proof -
  have "\<exists>c. data_counter r = Inr c \<and> r ! 0 = FEC_TUNNEL_VERSION \<and> r ! 1 = DATA_FRAME_TYPE"
    using assms by (auto simp: accept_tail_def Let_def split: if_splits option.splits prod.splits sum.splits)
  then show ?thesis
    by (auto simp: data_counter_def DATA_MIN_FRAME_def FEC_TUNNEL_VERSION_def DATA_FRAME_TYPE_def const_defs split: if_splits)
qed

lemma rebuilt_data: "accept_recovery rx f = (rx', Inr (Some r)) \<Longrightarrow> 2 \<le> length r \<and> r ! 0 = 0x01 \<and> r ! 1 = 2"
  by (auto simp: accept_recovery_def Let_def dest: tail_rebuilds_data split: if_splits option.splits)

lemma fec_recon:
  "fec_inbound raw rx = Some (rx', Some f, taken) \<Longrightarrow> 2 \<le> length f \<and> f ! 0 = 0x01 \<and> f ! 1 = 2"
  "fec_inbound f rx = Some (rx', recon, taken) \<Longrightarrow> f ! 1 = 2 \<Longrightarrow> recon = None"
  by (auto simp: fec_inbound_def dest: rebuilt_data split: if_splits sum.splits option.splits prod.splits)

lemma data_round:
  assumes "f ! 1 = 2"
  shows "plane_inbound_n (Suc k) env cfg a f p = plane_inbound_n (Suc 0) env cfg a f p"
proof (cases "pl_fec p")
  case (Some txrx)
  obtain tx rx where f: "pl_fec p = Some (tx, rx)" using Some by (cases txrx) auto
  show ?thesis
  proof (cases "fec_inbound f rx")
    case None
    then show ?thesis using f by simp
  next
    case (Some r)
    then obtain rx' recon taken where "fec_inbound f rx = Some (rx', recon, taken)" by (cases r) auto
    moreover from this have "recon = None" by (rule fec_recon(2) [OF _ assms])
    ultimately show ?thesis using f by (simp add: Let_def)
  qed
qed simp

text \<open>Two rounds are enough, since the second one is for a Data frame: more fuel changes nothing.\<close>

theorem plane_inbound_enough: "plane_inbound_n (Suc (Suc n)) env cfg a raw p = plane_inbound env cfg a raw p"
proof (cases "pl_fec p")
  case (Some txrx)
  obtain tx rx where f: "pl_fec p = Some (tx, rx)" using Some by (cases txrx) auto
  show ?thesis
  proof (cases "fec_inbound raw rx")
    case None
    then show ?thesis using f by (simp add: plane_inbound_def numeral_2_eq_2)
  next
    case (Some r)
    then obtain rx' recon taken where g: "fec_inbound raw rx = Some (rx', recon, taken)" by (cases r) auto
    show ?thesis
    proof (cases recon)
      case None
      then show ?thesis using f g by (simp add: plane_inbound_def numeral_2_eq_2 Let_def)
    next
      case (Some h)
      then have "h ! 1 = 2" using fec_recon(1) g by blast
      from data_round [OF this, of n] show ?thesis
        using f g Some unfolding plane_inbound_def numeral_2_eq_2 plane_inbound_n.simps(2) [of "Suc n"] plane_inbound_n.simps(2) [of "Suc 0"]
        by (simp add: Let_def del: plane_inbound_n.simps)
    qed
  qed
qed (simp add: plane_inbound_def numeral_2_eq_2)

section \<open>What moves the entry\<close>

text \<open>A knock changes nothing, whatever the node has been told about roaming.\<close>

theorem knock_ignored: "plane_inbound env cfg a PUNCH_KNOCK p = Ok p"
  by (simp add: plane_inbound_def numeral_2_eq_2)


text \<open>
  A recorded first message moves the entry: the node counts an answered authenticated handshake message as proof of its
  origin, since the engine answers one only after its checks. But it answers the message that established the tunnel
  again from its cache. So whoever has recorded that message, and sends it from elsewhere while the tunnel stands, has all
  packets of the tunnel sent to the address of the sender, with no signature checked and the tunnel left as it is.
\<close>

theorem recorded_init_moves_entry:
  assumes "en_state (nd_engine p) = Established" "en_bound_init (nd_engine p) = Some body" "en_cached_resp (nd_engine p) = Some resp"
    and "en_delivered (nd_engine p) = None" "sh_shards (nd_hub p) = None" "pc_migrate cfg" "\<not> pc_learn cfg"
    and "sd_transport (nd_sched p) = To_Tunnel dest" "dest \<noteq> ar_from a" "\<not> in_entry_set (nd_sched p) (ar_from a)"
  shows "\<exists>q. plane_inbound env cfg a (write_head [] AuthInit (replicate 8 0) @ body) p = Ok q
    \<and> sd_main (nd_sched q) = ar_from a \<and> sd_transport (nd_sched q) = To_Tunnel (ar_from a) \<and> nd_engine q = nd_engine p"
proof -
  let ?raw = "write_head [] AuthInit (replicate 8 0) @ body"
  have z: "length (replicate 8 (0 :: u8)) = 8" by simp
  have w: "?raw ! 0 = 0x01" "?raw ! 1 = 4" "10 \<le> length ?raw"
    by (simp_all add: write_head_def TUNNEL_VERSION_def)
  have k: "?raw \<noteq> PUNCH_KNOCK" using w(1) by (auto simp: PUNCH_KNOCK_def)
  let ?p = "\<lambda>f. p\<lparr> pl_fec := f \<rparr>"
  have h: "handle_frame_at (ne_ev env) (ar_t a) (ar_eph a) ?raw (ar_now a) (nd_engine p) = Ok (nd_engine p, Some resp)"
    unfolding handle_frame_at_def parse_write_head [OF z] using assms(1-3) by (simp add: handle_auth_init_def)
  have d: "(nd_engine p)\<lparr> en_delivered := None \<rparr> = nd_engine p" using assms(4) by simp
  have m: "fst (strong_refresh (ar_t a) (ar_from a) (nd_sched p)) = (enter (ar_from a) (nd_sched p))\<lparr> sd_last_unauth_roam := Some (ar_t a) \<rparr>"
    using assms(8-10) by (simp add: strong_refresh_def)
  have s: "is_strong_roam_credential ?raw True False" using w by (simp add: is_strong_roam_credential_def)
  have e: "\<exists>q. inbound_observe env cfg a ?raw (?p f) = Ok q \<and> sd_main (nd_sched q) = ar_from a
      \<and> sd_transport (nd_sched q) = To_Tunnel (ar_from a) \<and> nd_engine q = nd_engine p" for f
    using w assms(5-7) s
    by (simp add: inbound_observe_def inbound_tunnel_def is_plain_def inbound_learn_def hub_feed_def inbound_engine_def h
        take_delivered_def d assms(4) inbound_migrate_def m enter_def udp_send_def node_send_def Let_def)
  have same: "?p (pl_fec p) = p" by simp
  show ?thesis
    using k w e [of "pl_fec p", unfolded same] e
    by (auto simp: plane_inbound_def numeral_2_eq_2 test_dropped_def fec_inbound_def Let_def split: option.split)
qed

text \<open>A node that waits at one address and hears the recorded message from another.\<close>

definition toy_plane :: plane where
  "toy_plane = \<lparr> nd_engine = (nd_engine toy_node)\<lparr> en_state := Established, en_bound_init := Some [7], en_cached_resp := Some [8] \<rparr>,
     nd_sched = toy_sched, nd_hub = shard_hub_new, nd_old = [], nd_sent = [], pl_fec = None, pl_observe = observe_new observe_config_default,
     pl_alt_probe = 0, pl_tun = [], pl_echo_ok = 0, pl_echo_bad = 0, pl_learned = True \<rparr>"

definition toy_plane_env :: plane_env where
  "toy_plane_env = \<lparr> ne_ev = toy_env, ne_parse = \<lambda>_. None, pe_udp_ok = \<lambda>_ _. True, pe_tun_ok = \<lambda>_ _. True \<rparr>"

definition toy_plane_cfg :: plane_cfg where
  "toy_plane_cfg = \<lparr> pc_tun = True, pc_plain_demux = False, pc_learn = False, pc_is_initiator = False, pc_compat = False, pc_effective_mtu = 1280,
     pc_tun_ip = [10, 0, 0, 1], pc_tun_ipv6 = None, pc_mss_clamp = None, pc_migrate = True, pc_mp_alt = None, pc_test_drop = None \<rparr>"

definition toy_arrival :: "sock_addr \<Rightarrow> arrival" where
  "toy_arrival from_addr = \<lparr> ar_t = 0, ar_ms = 0, ar_us = 0, ar_now = 0, ar_eph = [], ar_from = from_addr, ar_allow = \<lambda>_. True \<rparr>"

lemma recorded_init_moves_entry_witness:
  "\<exists>q. plane_inbound toy_plane_env toy_plane_cfg (toy_arrival ([6, 6, 6, 6], 66)) (write_head [] AuthInit (replicate 8 0) @ [7]) toy_plane = Ok q
    \<and> sd_transport (nd_sched q) = To_Tunnel ([6, 6, 6, 6], 66)"
  using recorded_init_moves_entry [of toy_plane "[7]" "[8]" toy_plane_cfg "([1, 1, 1, 1], 9000)" "toy_arrival ([6, 6, 6, 6], 66)" toy_plane_env]
  by (auto simp: toy_plane_def toy_node_def engine_new_def shard_hub_new_def toy_plane_cfg_def toy_sched_def node_sched_new_def toy_arrival_def
      in_entry_set_def)

end
