(* ===== verification/PlaneRepair.thy ===== *)
theory PlaneRepair
  imports NodePlane
begin

text \<open>
  Error correction as the plane uses it: the recovery frame of a group is put on the wire before the frames of the
  packet that has filled the group, and the receiver gives a group up when more than one of its frames is missing.
\<close>

section \<open>What the plane sends\<close>

lemma push_frames_group:
  assumes "tx_group tx gs" "list_all data_frame fs" "length gs + length fs = tx_k tx" "fs \<noteq> []"
  shows "\<exists>tx1 key. fec_push_frames tx fs =
      (tx\<lparr> tx_group_seq := tx_group_seq tx + 1, tx_acc := [], tx_counters := [], tx_lens := [] \<rparr>, [encode_recovery tx1 key])
    \<and> tx_group tx1 (gs @ fs) \<and> tx_group_seq tx1 = tx_group_seq tx \<and> length key = 8"
  using assms
proof (induction fs arbitrary: tx gs)
  case (Cons f fs)
  then have f: "data_frame f" and cnt: "length (tx_counters tx) = length gs" by (auto simp: tx_group_def)
  note add = tx_group_add [OF Cons.prems(1) f]
  have key: "length (slice 2 10 f) = 8" using f by (auto simp: data_frame_def slice_def min_def)
  show ?case
  proof (cases "fs = []")
    case True
    then show ?thesis
      using Cons.prems(3) cnt add key by (intro exI [of _ "tx_add tx f"] exI [of _ "slice 2 10 f"]) (simp add: fec_push_eq [OF f], simp add: tx_add_def)
  next
    case False
    have same: "tx_k (tx_add tx f) = tx_k tx" "tx_group_seq (tx_add tx f) = tx_group_seq tx"
      "(tx_add tx f)\<lparr> tx_group_seq := tx_group_seq tx + 1, tx_acc := [], tx_counters := [], tx_lens := [] \<rparr> =
       tx\<lparr> tx_group_seq := tx_group_seq tx + 1, tx_acc := [], tx_counters := [], tx_lens := [] \<rparr>"
      by (simp_all add: tx_add_def)
    obtain tx1 k where "fec_push_frames (tx_add tx f) fs =
        (tx\<lparr> tx_group_seq := tx_group_seq tx + 1, tx_acc := [], tx_counters := [], tx_lens := [] \<rparr>, [encode_recovery tx1 k])"
      "tx_group tx1 ((gs @ [f]) @ fs)" "tx_group_seq tx1 = tx_group_seq tx" "length k = 8"
      using Cons.IH [OF add] Cons.prems(2,3) False unfolding same by auto
    moreover have "fec_push tx f (slice 2 10 f) = Inr (tx_add tx f, None)"
      using Cons.prems(3) cnt False by (simp add: fec_push_eq [OF f]) (cases fs; simp)
    ultimately show ?thesis by (intro exI [of _ tx1] exI [of _ k]) simp
  qed
qed simp

section \<open>Two missing frames\<close>

lemma find_missing_count:
  "n \<le> 1 \<Longrightarrow> snd (find_missing cache i cs m n) = min 2 (n + length (filter (\<lambda>c. map_of cache c = None) cs))"
  by (induction cs arbitrary: i m n) auto

lemma accept_recovery_two_missing:
  assumes "tx_group tx fs" "length key = 8" "length fs = k" "2 \<le> k" "k \<le> 16"
    and "2 \<le> length (filter (\<lambda>f. map_of (rx_cache rx) (frame_counter f) = None) fs)" "tx_group_seq tx \<notin> set (rx_seen_groups rx)"
  shows "accept_recovery rx (encode_recovery tx key) =
    (let rx = remember_group (tx_group_seq tx) rx in rx\<lparr> rx_abandoned := rx_abandoned rx + 1 \<rparr>, Inr None)"
proof -
  let ?r = "encode_recovery tx key"
  have ok: "\<forall>g \<in> set fs. data_frame g" "length (tx_acc tx) = fold max (map length fs) 0"
    using assms(1) by (auto simp: tx_group_def list_all_iff)
  have lens: "length (tx_counters tx) = k" "length (tx_lens tx) = k" using assms(1,3) by (auto simp: tx_group_def)
  note lay = recovery_layout [of key tx k, OF assms(2) lens assms(5)]
  note fields = recovery_fields [OF assms(1,2,3,5)]
  have no_bad: "List.find (\<lambda>l. l < 74) (map length fs) = None"
    using ok(1) by (auto simp: find_None_iff data_frame_def)
  have "snd (find_missing (rx_cache rx) 0 (map frame_counter fs) None 0) = 2"
    using assms(6) by (simp add: find_missing_count filter_map comp_def)
  then obtain m where miss: "find_missing (rx_cache rx) 0 (map frame_counter fs) None 0 = (m, 2)" by (metis prod.collapse)
  have rem: "rx_cache (remember_group g rx) = rx_cache rx" for g by (simp add: remember_group_def Let_def)
  have hdr: "FEC_FRAME_HEADER_SIZE + RECOVERY_FIXED_BODY = 22" by (simp add: const_defs)
  have g: "\<not> length ?r < 22 + k * 10" "\<not> length ?r < 22" using lay(1) by simp_all
  show ?thesis
    unfolding accept_recovery_def accept_tail_def Let_def hdr
    using lay(2-6) g assms(4,5,7) fields no_bad miss by (simp add: const_defs rem ok(2))
qed

text \<open>
  The recovery frame comes too early: the packet whose frames fill a group is sent after the recovery frame of the
  group. Where frames arrive in the order they were sent, none of that packet's frames has arrived when the recovery
  frame does. If any one earlier frame of the group was lost, the receiver then counts at least two missing, gives the
  group up, and takes the recovery frame for a duplicate whenever it comes again, although all other frames arrive.
\<close>

theorem recovery_sent_too_early:
  assumes "tx_group tx gs" "list_all data_frame fs" "length gs + length fs = tx_k tx" "fs \<noteq> []"
    and "lost \<in> set gs" "map_of (rx_cache rx) (frame_counter lost) = None"
    and "\<forall>f \<in> set fs. map_of (rx_cache rx) (frame_counter f) = None" "tx_group_seq tx \<notin> set (rx_seen_groups rx)"
  shows "\<exists>tx' rec rx'. fec_packet True fs (Some (tx, r)) = (Some (tx', r), rec # fs)
    \<and> accept_recovery rx rec = (rx', Inr None) \<and> rx_abandoned rx' = rx_abandoned rx + 1 \<and> tx_group_seq tx \<in> set (rx_seen_groups rx')
    \<and> (\<forall>rx''. tx_group_seq tx \<in> set (rx_seen_groups rx'') \<longrightarrow> snd (accept_recovery rx'' rec) = Inr None)"
proof -
  obtain tx1 key where push: "fec_push_frames tx fs =
      (tx\<lparr> tx_group_seq := tx_group_seq tx + 1, tx_acc := [], tx_counters := [], tx_lens := [] \<rparr>, [encode_recovery tx1 key])"
    and g: "tx_group tx1 (gs @ fs)" "tx_group_seq tx1 = tx_group_seq tx" and key: "length key = 8"
    using push_frames_group [OF assms(1-4)] by blast
  have k: "2 \<le> length (gs @ fs)" "length (gs @ fs) \<le> 16" using assms(1,3) by (auto simp: tx_group_def)
  let ?P = "\<lambda>f. map_of (rx_cache rx) (frame_counter f) = None"
  have "filter ?P gs \<noteq> []" using assms(5,6) by (auto simp: filter_empty_conv)
  moreover have "filter ?P fs = fs" using assms(7) by (simp add: filter_id_conv)
  ultimately have two: "2 \<le> length (filter ?P (gs @ fs))" using assms(4) by (cases "filter ?P gs"; cases fs) auto
  have acc: "accept_recovery rx (encode_recovery tx1 key) =
    (let rx = remember_group (tx_group_seq tx) rx in rx\<lparr> rx_abandoned := rx_abandoned rx + 1 \<rparr>, Inr None)"
    using accept_recovery_two_missing [OF g(1) key refl k two] assms(8) g(2) by simp
  have lens: "length (tx_counters tx1) = length (gs @ fs)" "length (tx_lens tx1) = length (gs @ fs)" using g(1) by (auto simp: tx_group_def)
  note lay = recovery_layout [OF key lens k(2)]
  have dup: "snd (accept_recovery rx'' (encode_recovery tx1 key)) = Inr None" if "tx_group_seq tx \<in> set (rx_seen_groups rx'')" for rx''
    using that lay(1-5) k g(2) by (simp add: accept_recovery_def const_defs Let_def)
  show ?thesis
    using push acc dup by (auto simp: fec_packet_def remember_group_def Let_def MAX_SEEN_GROUPS_def)
qed

lemma recovery_sent_too_early_witness:
  "\<exists>tx tx' rec rx'. fec_tx_new 2 = Inr tx \<and> fec_packet True [sample_frame 2] (Some (tx_add tx (sample_frame 1), ())) = (Some (tx', ()), [rec, sample_frame 2])
    \<and> accept_recovery (fec_rx_new 0) rec = (rx', Inr None)"
proof -
  obtain tx where tx: "fec_tx_new 2 = Inr tx" by (simp add: fec_tx_new_def const_defs)
  have g: "tx_group (tx_add tx (sample_frame 1)) [sample_frame 1]" "tx_k (tx_add tx (sample_frame 1)) = 2"
    using tx_group_add [of tx "[]" "sample_frame 1"] tx_group_new [OF tx] sample_frame_facts(1) by (auto simp: tx_add_def)
  have "rx_cache (fec_rx_new 0) = []" "rx_seen_groups (fec_rx_new 0) = []" by (simp_all add: fec_rx_new_def)
  then show ?thesis
    using recovery_sent_too_early [OF g(1), of "[sample_frame 2]" "sample_frame 1" "fec_rx_new 0" "()"] g(2) sample_frame_facts(1) tx by auto
qed

end
