(* ===== verification/HookPacket.thy ===== *)
theory HookPacket
  imports Prelude
begin

text \<open>
  What the hook sees of a packet, \<open>core/ipv8-hook/src/ip.rs\<close>: the protocol, the addresses as text and the ports, with the
  extension chain of IPv6, and the key of the flow. Every access to a byte that might lie outside of the packet is written
  with its panic; the texts are those of the \<open>Display\<close> of the addresses of the standard library.
\<close>

section \<open>Text\<close>

definition base_digits :: string where
  "base_digits = ''0123456789abcdef''"

function show_base :: "nat \<Rightarrow> nat \<Rightarrow> string" where
  "show_base b n = (if b < 2 \<or> n < b then [base_digits ! n] else show_base b (n div b) @ [base_digits ! (n mod b)])"
  by pat_completeness auto
termination by (relation "measure snd") (auto simp: div_less_dividend)

declare show_base.simps [simp del]

definition ipv4_text :: "bytes \<Rightarrow> string" where
  "ipv4_text b = join_with CHR ''.'' (map (\<lambda>x. show_base 10 (unat x)) b)"

text \<open>The first longest run of zeros: its start and its length.\<close>

fun zero_run :: "nat \<Rightarrow> nat \<times> nat \<Rightarrow> nat \<times> nat \<Rightarrow> u16 list \<Rightarrow> nat \<times> nat" where
  "zero_run i cur best [] = best"
| "zero_run i cur best (s # ss) = (
     if s = 0 then
       (let cur = (if snd cur = 0 then i else fst cur, snd cur + 1)
        in zero_run (i + 1) cur (if snd cur > snd best then cur else best) ss)
     else zero_run (i + 1) (0, 0) best ss)"

definition segments_text :: "u16 list \<Rightarrow> string" where
  "segments_text ss = (if ss = [] then [] else join_with CHR '':'' (map (\<lambda>s. show_base 16 (unat s)) ss))"

definition ipv6_segments :: "bytes \<Rightarrow> u16 list" where
  "ipv6_segments b = map (\<lambda>i. from_be (slice (2 * i) (2 * i + 2) b)) [0..<8]"

definition ipv6_text :: "bytes \<Rightarrow> string" where
  "ipv6_text b = (
     let ss = ipv6_segments b
     in if take 6 ss = [0, 0, 0, 0, 0, 0xffff] then ''::ffff:'' @ ipv4_text (slice 12 16 b)
        else case zero_run 0 (0, 0) (0, 0) ss of (start, len) \<Rightarrow>
          if len > 1 then segments_text (take start ss) @ ''::'' @ segments_text (drop (start + len) ss)
          else segments_text ss)"

text \<open>The order of strings.\<close>

fun str_le :: "string \<Rightarrow> string \<Rightarrow> bool" where
  "str_le [] _ = True"
| "str_le (x # xs) [] = False"
| "str_le (x # xs) (y # ys) \<longleftrightarrow> (of_char x :: nat) < of_char y \<or> x = y \<and> str_le xs ys"

section \<open>The packet\<close>

record packet_info =
  pi_ipver :: u8
  pi_proto_num :: u8
  pi_src :: string
  pi_dst :: string
  pi_sport :: u16
  pi_dport :: u16

definition info_default :: packet_info where
  "info_default = \<lparr> pi_ipver = 0, pi_proto_num = 0, pi_src = [], pi_dst = [], pi_sport = 0, pi_dport = 0 \<rparr>"

definition with_byte :: "bytes \<Rightarrow> nat \<Rightarrow> (u8 \<Rightarrow> (unit, 'a) outcome) \<Rightarrow> (unit, 'a) outcome" where
  "with_byte p i k = (if i < length p then k (p ! i) else Panic)"

definition with_range :: "bytes \<Rightarrow> nat \<Rightarrow> nat \<Rightarrow> (bytes \<Rightarrow> (unit, 'a) outcome) \<Rightarrow> (unit, 'a) outcome" where
  "with_range p i j k = (if j \<le> length p then k (slice i j p) else Panic)"

definition parse_ports :: "bytes \<Rightarrow> nat \<Rightarrow> u8 \<Rightarrow> (unit, u16 \<times> u16) outcome" where
  "parse_ports p off proto = (
     if \<not> (proto = 6 \<or> proto = 17) then Ok (0, 0)
     else if off + 4 > length p then Ok (0, 0)
     else with_range p off (off + 2) (\<lambda>s. with_range p (off + 2) (off + 4) (\<lambda>d. Ok (from_be s, from_be d))))"

definition inspect_v4 :: "bytes \<Rightarrow> (unit, packet_info) outcome" where
  "inspect_v4 p = (
     if length p < 20 then Ok info_default
     else with_byte p 0 (\<lambda>b.
       let ihl = unat (b AND 0x0f)
       in if ihl < 5 then Ok info_default
          else
            let l4 = ihl * 4
            in if l4 > length p then Ok info_default
               else with_byte p 9 (\<lambda>proto. with_range p 12 16 (\<lambda>src. with_range p 16 20 (\<lambda>dst.
                 case parse_ports p l4 proto of
                   Ok (sport, dport) \<Rightarrow> Ok \<lparr> pi_ipver = 4, pi_proto_num = proto, pi_src = ipv4_text src, pi_dst = ipv4_text dst,
                     pi_sport = sport, pi_dport = dport \<rparr>
                 | Err e \<Rightarrow> Err e
                 | Panic \<Rightarrow> Panic)))))"

text \<open>The walk along the extension headers: the protocol and the offset it stops at, or nothing for a malformed packet.\<close>

fun v6_walk :: "nat \<Rightarrow> bytes \<Rightarrow> u8 \<Rightarrow> nat \<Rightarrow> (unit, (u8 \<times> nat) option) outcome" where
  "v6_walk 0 p nx off = Ok (Some (nx, off))"
| "v6_walk (Suc n) p nx off = (
     if nx = 6 \<or> nx = 17 \<or> nx = 58 then Ok (Some (nx, off))
     else if nx = 0 \<or> nx = 43 \<or> nx = 60 then
       (if off + 2 > length p then Ok None
        else with_byte p (off + 1) (\<lambda>l. with_byte p off (\<lambda>nx.
          let off = off + (unat l + 1) * 8 in if off > length p then Ok None else v6_walk n p nx off)))
     else if nx = 44 then
       (if off + 8 > length p then Ok None
        else with_range p (off + 2) (off + 4) (\<lambda>b. with_byte p off (\<lambda>nx.
          let frag_info = (from_be b :: u16); off = off + 8
          in if frag_info AND 1 = 0 \<and> drop_bit 3 frag_info \<noteq> 0 then Ok (Some (nx, off)) else v6_walk n p nx off)))
     else if nx = 51 then
       (if off + 2 > length p then Ok None
        else with_byte p (off + 1) (\<lambda>l. with_byte p off (\<lambda>nx.
          let off = off + (unat l + 2) * 4 in if off > length p then Ok None else v6_walk n p nx off)))
     else Ok (Some (nx, off)))"

definition inspect_v6 :: "bytes \<Rightarrow> (unit, packet_info) outcome" where
  "inspect_v6 p = (
     if length p < 40 then Ok info_default
     else with_byte p 6 (\<lambda>nx. case v6_walk 8 p nx 40 of
         Ok None \<Rightarrow> Ok info_default
       | Ok (Some (nx, off)) \<Rightarrow> with_range p 8 24 (\<lambda>src. with_range p 24 40 (\<lambda>dst.
           case parse_ports p off nx of
             Ok (sport, dport) \<Rightarrow> Ok \<lparr> pi_ipver = 6, pi_proto_num = nx, pi_src = ipv6_text src, pi_dst = ipv6_text dst,
               pi_sport = sport, pi_dport = dport \<rparr>
           | Err e \<Rightarrow> Err e
           | Panic \<Rightarrow> Panic))
       | Err e \<Rightarrow> Err e
       | Panic \<Rightarrow> Panic))"

definition inspect :: "bytes \<Rightarrow> (unit, packet_info) outcome" where
  "inspect p = (case p of
     [] \<Rightarrow> Ok info_default
   | b # _ \<Rightarrow>
       if drop_bit 4 b = 4 then inspect_v4 p
       else if drop_bit 4 b = 6 then inspect_v6 p
       else Ok info_default)"

definition proto_name :: "u8 \<Rightarrow> string" where
  "proto_name n = (if n = 1 then ''icmp'' else if n = 6 then ''tcp'' else if n = 17 then ''udp'' else if n = 58 then ''icmpv6''
     else ''other'')"

definition endpoint_text :: "string \<Rightarrow> u16 \<Rightarrow> string" where
  "endpoint_text addr port = addr @ '':'' @ show_base 10 (unat port)"

definition hook_flow_key :: "packet_info \<Rightarrow> string" where
  "hook_flow_key info = (
     let a = endpoint_text (pi_src info) (pi_sport info); b = endpoint_text (pi_dst info) (pi_dport info)
     in if str_le a b then proto_name (pi_proto_num info) @ '':'' @ a @ ''<->'' @ b
        else proto_name (pi_proto_num info) @ '':'' @ b @ ''<->'' @ a)"

section \<open>Numbers as text\<close>

lemma digits: "length base_digits = 16" "distinct base_digits" "CHR ''.'' \<notin> set base_digits" "CHR '':'' \<notin> set base_digits"
  "CHR ''<'' \<notin> set base_digits"
  by (simp_all add: base_digits_def)

lemma show_base_ne: "show_base b n \<noteq> []"
  by (subst show_base.simps) simp

lemma mod_digit: "2 \<le> b \<Longrightarrow> b \<le> 16 \<Longrightarrow> n mod b < (16 :: nat)"
  by (rule less_le_trans [of _ b]) simp_all

lemma show_base_set: "2 \<le> b \<Longrightarrow> b \<le> 16 \<Longrightarrow> set (show_base b n) \<subseteq> set base_digits"
proof (induction b n rule: show_base.induct)
  case (1 b n)
  show ?case
  proof (cases "n < b")
    case True
    then show ?thesis using 1(3) digits(1) by (simp add: show_base.simps [of b n])
  next
    case False
    have "n mod b < 16" using 1(2,3) by (rule mod_digit)
    then show ?thesis using 1 False digits(1) by (auto simp: show_base.simps [of b n])
  qed
qed

lemma show_base_inject: "2 \<le> b \<Longrightarrow> b \<le> 16 \<Longrightarrow> show_base b n = show_base b m \<longleftrightarrow> n = m"
proof (induction b n arbitrary: m rule: show_base.induct)
  case (1 b n)
  have small: "k mod b < 16" for k using 1(2,3) by (rule mod_digit)
  have one: "[base_digits ! k] \<noteq> show_base b (l div b) @ [base_digits ! (l mod b)]" for k l
    using show_base_ne [of b "l div b"] by (cases "show_base b (l div b)") auto
  have eq: "base_digits ! k = base_digits ! l \<longleftrightarrow> k = l" if "k < 16" "l < 16" for k l
    using that digits(1,2) by (simp add: nth_eq_iff_index_eq)
  show ?case
  proof (cases "n < b \<or> m < b")
    case True
    then show ?thesis
    proof (cases "n < b \<and> m < b")
      case True
      then show ?thesis using 1(3) eq [of n m] by (simp add: show_base.simps [of b n] show_base.simps [of b m])
    next
      case False
      then have "n \<noteq> m" using True by auto
      moreover have "show_base b n \<noteq> show_base b m"
        using True False 1(2) one [of n m] one [of m n, symmetric] by (auto simp: show_base.simps [of b n] show_base.simps [of b m])
      ultimately show ?thesis by simp
    qed
  next
    case False
    then have "show_base b n = show_base b m \<longleftrightarrow> n div b = m div b \<and> n mod b = m mod b"
      using 1(1) [of "m div b"] 1(2,3) small eq by (auto simp: show_base.simps [of b n] show_base.simps [of b m])
    then show ?thesis by (metis div_mult_mod_eq)
  qed
qed

lemmas show_base_chars =
  subsetD [OF show_base_set [of 10, simplified]] subsetD [OF show_base_set [of 16, simplified]]

lemma ipv4_text_inject: "length a = length b \<Longrightarrow> ipv4_text a = ipv4_text b \<longleftrightarrow> a = b"
proof
  assume len: "length a = length b" and eq: "ipv4_text a = ipv4_text b"
  let ?f = "map (\<lambda>x. show_base 10 (unat (x :: u8)))"
  have "?f a = ?f b"
  proof (cases "a = []")
    case False
    have "split_on CHR ''.'' (join_with CHR ''.'' (?f c)) = ?f c" if "c \<noteq> []" for c
      using that show_base_chars(1) digits(3) by (intro split_on_join) auto
    then show ?thesis using eq False len by (metis ipv4_text_def length_0_conv)
  qed (use len in simp)
  moreover have "inj (\<lambda>x :: u8. show_base 10 (unat x))" by (rule injI) (simp add: show_base_inject word_unat_eq_iff)
  ultimately show "a = b" by (simp add: inj_map_eq_map)
qed simp

lemma join_with_notin: "c \<noteq> s \<Longrightarrow> \<forall>x \<in> set xs. c \<notin> set x \<Longrightarrow> c \<notin> set (join_with s xs)"
  by (induction s xs rule: join_with.induct) auto

lemma show_base_notin: "c \<notin> set base_digits \<Longrightarrow> c \<notin> set (show_base 10 n)" "c \<notin> set base_digits \<Longrightarrow> c \<notin> set (show_base 16 n)"
  using show_base_chars by blast+

lemma text_clean: "CHR ''<'' \<notin> set (ipv4_text b)" "CHR ''<'' \<notin> set (segments_text ss)" "CHR ''<'' \<notin> set (ipv6_text b)"
proof -
  show v4: "CHR ''<'' \<notin> set (ipv4_text b)" for b
    unfolding ipv4_text_def by (rule join_with_notin) (simp_all add: show_base_notin(1) digits(5))
  show seg: "CHR ''<'' \<notin> set (segments_text ss)" for ss
    unfolding segments_text_def by (simp add: join_with_notin show_base_notin(2) digits(5))
  show "CHR ''<'' \<notin> set (ipv6_text b)"
    using v4 seg by (simp add: ipv6_text_def Let_def split: prod.splits)
qed

section \<open>Nothing panics\<close>

lemma parse_ports_ok: "\<exists>r. parse_ports p off proto = Ok r"
  by (simp add: parse_ports_def with_range_def)

lemma v6_walk_ok: "off \<le> length p \<Longrightarrow> \<exists>r. v6_walk n p nx off = Ok r"
  by (induction n arbitrary: nx off) (auto simp: with_byte_def with_range_def Let_def)

lemma inspect_v4_ok: "\<exists>i. inspect_v4 p = Ok i \<and> (i = info_default \<or> pi_ipver i = 4 \<and> pi_proto_num i = p ! 9
    \<and> pi_src i = ipv4_text (slice 12 16 p) \<and> pi_dst i = ipv4_text (slice 16 20 p) \<and> 20 \<le> length p)"
proof -
  obtain ports where "parse_ports p (unat (p ! 0 AND 0x0f) * 4) (p ! 9) = Ok ports" using parse_ports_ok by blast
  then show ?thesis
    by (auto simp: inspect_v4_def with_byte_def with_range_def Let_def split: prod.splits)
qed

lemma inspect_v6_ok: "\<exists>i. inspect_v6 p = Ok i \<and> (i = info_default \<or> pi_ipver i = 6
    \<and> pi_src i = ipv6_text (slice 8 24 p) \<and> pi_dst i = ipv6_text (slice 24 40 p) \<and> 40 \<le> length p)"
proof (cases "length p < 40")
  case False
  then obtain r where r: "v6_walk 8 p (p ! 6) 40 = Ok r" using v6_walk_ok [of 40 p 8 "p ! 6"] by auto
  show ?thesis
  proof (cases r)
    case (Some x)
    obtain nx off where x: "x = (nx, off)" by (metis surj_pair)
    obtain ports where "parse_ports p off nx = Ok ports" using parse_ports_ok by blast
    then show ?thesis using False r Some x by (simp add: inspect_v6_def with_byte_def with_range_def split: prod.splits)
  qed (use False r in \<open>simp add: inspect_v6_def with_byte_def\<close>)
qed (simp add: inspect_v6_def)

lemma inspect_ok: "\<exists>i. inspect p = Ok i"
  using inspect_v4_ok [of p] inspect_v6_ok [of p] by (auto simp: inspect_def split: list.splits)

text \<open>No address has the arrow that separates the two ends of a flow.\<close>

lemma inspect_clean: "inspect p = Ok i \<Longrightarrow> CHR ''<'' \<notin> set (pi_src i) \<and> CHR ''<'' \<notin> set (pi_dst i)"
  using inspect_v4_ok [of p] inspect_v6_ok [of p] text_clean(1,3)
  by (auto simp: inspect_def info_default_def split: list.splits if_splits)

section \<open>The key of a flow\<close>

lemma split_first: "c \<notin> set a \<Longrightarrow> c \<notin> set b \<Longrightarrow> a @ c # x = b @ c # y \<longleftrightarrow> a = b \<and> x = y"
  by (auto simp: append_eq_append_conv2 Cons_eq_append_conv append_eq_Cons_conv)

lemma endpoint_inject: "endpoint_text a m = endpoint_text b n \<longleftrightarrow> a = b \<and> m = n"
proof -
  have "CHR '':'' \<notin> set (rev (show_base 10 n))" for n using show_base_notin(1) digits(4) by simp
  then have "endpoint_text a m = endpoint_text b n \<longleftrightarrow> show_base 10 (unat m) = show_base 10 (unat n) \<and> a = b"
    by (subst rev_is_rev_conv [symmetric]) (simp add: endpoint_text_def split_first)
  then show ?thesis by (auto simp: show_base_inject word_unat_eq_iff)
qed

lemma str_le_linear: "str_le a b \<or> str_le b a"
  by (induction a b rule: str_le.induct) (auto simp: less_le)

lemma str_le_antisym: "str_le a b \<Longrightarrow> str_le b a \<Longrightarrow> a = b"
  by (induction a b rule: str_le.induct) (auto elim: str_le.elims(2))

text \<open>The two ends of a flow in their order.\<close>

definition flow_ends :: "packet_info \<Rightarrow> string \<times> string" where
  "flow_ends i = (endpoint_text (pi_src i) (pi_sport i), endpoint_text (pi_dst i) (pi_dport i))"

definition clean :: "packet_info \<Rightarrow> bool" where
  "clean i \<longleftrightarrow> CHR ''<'' \<notin> set (pi_src i) \<and> CHR ''<'' \<notin> set (pi_dst i)"

lemma key_parts:
  assumes "CHR ''<'' \<notin> set a" "CHR ''<'' \<notin> set c"
  shows "proto_name m @ '':'' @ a @ ''<->'' @ b = proto_name n @ '':'' @ c @ ''<->'' @ d \<longleftrightarrow> proto_name m = proto_name n \<and> a = c \<and> b = d"
proof -
  have "CHR '':'' \<notin> set (proto_name m)" for m by (simp add: proto_name_def)
  then show ?thesis using assms by (auto simp: split_first)
qed

lemma flow_key_iff:
  assumes "clean i" "clean j"
  shows "hook_flow_key i = hook_flow_key j \<longleftrightarrow> proto_name (pi_proto_num i) = proto_name (pi_proto_num j) \<and>
    (flow_ends i = flow_ends j \<or> flow_ends i = prod.swap (flow_ends j))"
proof -
  obtain a b where i: "flow_ends i = (a, b)" by (metis surj_pair)
  obtain c d where j: "flow_ends j = (c, d)" by (metis surj_pair)
  have nolt: "CHR ''<'' \<notin> set (endpoint_text t n)" if "CHR ''<'' \<notin> set t" for t n
    using that show_base_notin(1) [OF digits(5)] by (simp add: endpoint_text_def)
  have ends: "CHR ''<'' \<notin> set a" "CHR ''<'' \<notin> set b" "CHR ''<'' \<notin> set c" "CHR ''<'' \<notin> set d"
    using i j assms nolt by (auto simp: flow_ends_def clean_def)
  have ki: "hook_flow_key i = (if str_le a b then proto_name (pi_proto_num i) @ '':'' @ a @ ''<->'' @ b
      else proto_name (pi_proto_num i) @ '':'' @ b @ ''<->'' @ a)"
    using i by (simp add: hook_flow_key_def flow_ends_def Let_def)
  have kj: "hook_flow_key j = (if str_le c d then proto_name (pi_proto_num j) @ '':'' @ c @ ''<->'' @ d
      else proto_name (pi_proto_num j) @ '':'' @ d @ ''<->'' @ c)"
    using j by (simp add: hook_flow_key_def flow_ends_def Let_def)
  have anti: "str_le a b \<Longrightarrow> str_le b a \<Longrightarrow> a = b" by (rule str_le_antisym)
  have "hook_flow_key i = hook_flow_key j \<longleftrightarrow> proto_name (pi_proto_num i) = proto_name (pi_proto_num j) \<and>
      (if str_le a b = str_le c d then a = c \<and> b = d else a = d \<and> b = c)"
    unfolding ki kj by (cases "str_le a b"; cases "str_le c d") (simp_all add: key_parts [simplified] ends conj_commute)
  then show ?thesis
    unfolding i j using anti str_le_linear [of a b] by (auto simp del: str_le.simps split: if_splits)
qed

text \<open>
  The hook knows its packets: looking at any bytes ends without a panic, and two packets have the same flow key exactly when
  their protocols have the same name and their two ends, addresses and ports, are the same in one direction or the other.
\<close>

theorem flow_key_exact:
  "\<exists>i j. inspect p = Ok i \<and> inspect q = Ok j \<and>
    (hook_flow_key i = hook_flow_key j \<longleftrightarrow> proto_name (pi_proto_num i) = proto_name (pi_proto_num j) \<and>
      ((pi_src i, pi_sport i, pi_dst i, pi_dport i) = (pi_src j, pi_sport j, pi_dst j, pi_dport j)
       \<or> (pi_src i, pi_sport i, pi_dst i, pi_dport i) = (pi_dst j, pi_dport j, pi_src j, pi_sport j)))"
proof -
  obtain i j where ij: "inspect p = Ok i" "inspect q = Ok j" using inspect_ok by metis
  then have "clean i" "clean j" using inspect_clean by (auto simp: clean_def)
  then show ?thesis using ij by (auto simp: flow_key_iff flow_ends_def endpoint_inject)
qed

section \<open>Fragments\<close>

text \<open>
  A fragment of an IPv6 packet that is not the first: what its payload begins with is taken for the ports, whether more fragments
  follow or not.
\<close>

lemma fragment_ports:
  assumes "52 \<le> length p" "drop_bit 4 (p ! 0) = 6" "p ! 6 = 44" "p ! 40 = proto" "proto = 6 \<or> proto = 17"
  shows "inspect p = Ok \<lparr> pi_ipver = 6, pi_proto_num = proto, pi_src = ipv6_text (slice 8 24 p), pi_dst = ipv6_text (slice 24 40 p),
    pi_sport = from_be (slice 48 50 p), pi_dport = from_be (slice 50 52 p) \<rparr>"
proof -
  have stop: "v6_walk (Suc n) p proto off = Ok (Some (proto, off))" for n off using assms(5) by auto
  have "v6_walk 8 p 44 40 = Ok (Some (proto, 48))"
  proof -
    have "v6_walk (Suc 7) p 44 40 = Ok (Some (proto, 48))"
      using assms(1,4) stop [of 6 48] by (subst v6_walk.simps(2)) (simp add: with_range_def with_byte_def Let_def)
    then show ?thesis by simp
  qed
  moreover have "parse_ports p 48 proto = Ok (from_be (slice 48 50 p), from_be (slice 50 52 p))"
    using assms(1,5) by (auto simp: parse_ports_def with_range_def)
  moreover obtain b rest where "p = b # rest" using assms(1) by (cases p) auto
  ultimately show ?thesis
    using assms(1-3) by (simp add: inspect_def inspect_v6_def with_range_def with_byte_def)
qed

end
