(* ===== verification/Hook.thy ===== *)
theory Hook
  imports HookPacket
begin

text \<open>
  The hook bus, \<open>core/ipv8-hook/src/lib.rs\<close> and \<open>protocol.rs\<close>: the data plane asks for a verdict on every packet, one
  outside program, the decider, gives it, and others may watch. A thread of the data plane, the dispatcher, and a reader and
  a writer for every client run side by side: the state is what they share and hold, and an event is one step of one of them. Instants are
  nanoseconds; the waits of the code are events that come in any order. JSON and Base64 are parameters. Counters and event numbers
  are natural numbers. A reply has its own channel, which is known by the number of the event.
\<close>

section \<open>Messages\<close>

datatype hook_action = Hook_Accept | Hook_Drop
datatype client_mode = Decision | Observer
datatype direction = Dir_Out | Dir_In
datatype verdict_source = Src_Decider | Src_Cached | Src_NoClient | Src_Timeout | Src_Backpressure | Src_SlowDecider | Src_DeciderGone

definition is_authoritative :: "verdict_source \<Rightarrow> bool" where
  "is_authoritative s \<longleftrightarrow> s = Src_Decider \<or> s = Src_Cached"

definition HOOK_PROTOCOL_VERSION :: nat where [const_defs]: "HOOK_PROTOCOL_VERSION = 1"

datatype client_message =
    Client_Hello "client_mode option" "string option" "nat option"
  | Client_Verdict nat hook_action nat nat "string option"
  | Client_Stats

record event_message =
  ev_id :: nat
  ev_ts_ms :: nat
  ev_direction :: string
  ev_flow :: string
  ev_info :: packet_info
  ev_proto :: string
  ev_packet_size :: nat
  ev_payload :: string

datatype hello_ack = Ack_Ok client_mode | Ack_Degrade client_mode | Ack_Version nat

record stats_json =
  sj_decided :: nat
  sj_cached :: nat
  sj_fallback :: nat
  sj_accepted :: nat
  sj_dropped :: nat
  sj_observers :: nat
  sj_decider :: "string option"

record hook_json =
  hj_event :: "event_message \<Rightarrow> string"
  hj_id :: "string \<Rightarrow> nat option"
  hj_client :: "string \<Rightarrow> client_message option"
  hj_ack :: "hello_ack \<Rightarrow> string"
  hj_stats :: "stats_json \<Rightarrow> string"
  hj_base64 :: "bytes \<Rightarrow> string"
  hj_client_name :: "nat \<Rightarrow> string"

section \<open>The state\<close>

record hook_verdict =
  hv_action :: hook_action
  hv_delay :: nat
  hv_tag :: "string option"
  hv_source :: verdict_source

definition hv_accepted :: "hook_verdict \<Rightarrow> bool" where
  "hv_accepted v \<longleftrightarrow> hv_action v = Hook_Accept"

record hook_cfg =
  hc_timeout :: nat
  hc_default_action :: hook_action
  hc_payload_prefix :: nat
  hc_flow_ttl_cap :: nat
  hc_dispatch_capacity :: nat
  hc_client_queue :: nat

definition hook_cfg_default :: hook_cfg where
  "hook_cfg_default = \<lparr> hc_timeout = 50 * 10 ^ 6, hc_default_action = Hook_Accept, hc_payload_prefix = 128,
     hc_flow_ttl_cap = 300 * 10 ^ 9, hc_dispatch_capacity = 2048, hc_client_queue = 256 \<rparr>"

record hook_stats =
  hs_seen :: nat
  hs_cached :: nat
  hs_decided :: nat
  hs_no_client :: nat
  hs_timeout :: nat
  hs_backpressure :: nat
  hs_decider_gone :: nat
  hs_accepted :: nat
  hs_dropped :: nat

record flow_entry =
  fe_action :: hook_action
  fe_delay :: nat
  fe_tag :: "string option"
  fe_expires :: nat

record verdict_result =
  vr_action :: hook_action
  vr_delay_ms :: nat
  vr_ttl_ms :: nat
  vr_tag :: "string option"

record dispatch =
  dp_line :: string
  dp_reply :: nat
  dp_deadline :: nat
  dp_flow :: string

datatype hook_msg =
    Msg_Dispatch dispatch
  | Msg_Hello nat client_mode string
  | Msg_Verdict nat nat verdict_result
  | Msg_Stats nat nat
  | Msg_Disconnect nat

record client_slot =
  cs_mode :: client_mode
  cs_name :: string

record pending =
  pd_reply :: nat
  pd_deadline :: nat
  pd_flow :: string

text \<open>
  The threads of a client: whether the reader reads, whether the client has said hello, the number of its requests for
  statistics and whether the reader waits for an answer or has one, whether the writer holds its end, and its queue.
\<close>

datatype stats_wait = Not_Waiting | Waiting | Answered string

record hook_client =
  cl_reading :: bool
  cl_greeted :: bool
  cl_asked :: nat
  cl_stats :: stats_wait
  cl_open :: bool
  cl_queue :: "string list"

record hook_bus =
  hb_stats :: hook_stats
  hb_next_id :: nat
  hb_has_decider :: bool
  hb_flows :: "(string \<times> flow_entry) list"
  hb_queue :: "hook_msg list"
  hb_clients :: "(nat \<times> client_slot) list"
  hb_decider :: "nat option"
  hb_greeting :: "(nat \<times> client_slot \<times> string) option"
  hb_pending :: "(nat \<times> pending) list"
  hb_threads :: "nat \<Rightarrow> hook_client option"
  hb_waiting :: "nat \<Rightarrow> (bytes \<times> nat) option"
  hb_replies :: "nat \<Rightarrow> verdict_result option"
  hb_done :: "(bytes \<times> nat option \<times> hook_verdict) list"

definition hook_start :: hook_bus where
  "hook_start = \<lparr> hb_stats = \<lparr> hs_seen = 0, hs_cached = 0, hs_decided = 0, hs_no_client = 0, hs_timeout = 0, hs_backpressure = 0,
       hs_decider_gone = 0, hs_accepted = 0, hs_dropped = 0 \<rparr>,
     hb_next_id = 1, hb_has_decider = False, hb_flows = [], hb_queue = [], hb_clients = [], hb_decider = None, hb_greeting = None, hb_pending = [],
     hb_threads = Map.empty, hb_waiting = Map.empty, hb_replies = Map.empty, hb_done = [] \<rparr>"

definition bump :: "(hook_stats \<Rightarrow> hook_stats) \<Rightarrow> hook_bus \<Rightarrow> hook_bus" where
  "bump f s = s\<lparr> hb_stats := f (hb_stats s) \<rparr>"

definition stats_fallback :: "hook_stats \<Rightarrow> nat" where
  "stats_fallback st = hs_no_client st + hs_timeout st + hs_backpressure st + hs_decider_gone st"

section \<open>A packet asks for a verdict\<close>

text \<open>The verdict goes to the caller, and counts. A dispatcher that greets a client is in the middle of its round.\<close>

definition count_outcome :: "hook_action \<Rightarrow> hook_stats \<Rightarrow> hook_stats" where
  "count_outcome a st = (case a of
     Hook_Accept \<Rightarrow> st\<lparr> hs_accepted := hs_accepted st + 1 \<rparr>
   | Hook_Drop \<Rightarrow> st\<lparr> hs_dropped := hs_dropped st + 1 \<rparr>)"

definition conclude :: "bytes \<Rightarrow> nat option \<Rightarrow> hook_verdict \<Rightarrow> hook_bus \<Rightarrow> hook_bus" where
  "conclude pkt i v s = (bump (count_outcome (hv_action v)) s)\<lparr> hb_done := hb_done s @ [(pkt, i, v)] \<rparr>"

definition fallback_verdict :: "hook_cfg \<Rightarrow> verdict_source \<Rightarrow> hook_verdict" where
  "fallback_verdict cfg src = \<lparr> hv_action = hc_default_action cfg, hv_delay = 0, hv_tag = None, hv_source = src \<rparr>"

definition purge_flows :: "nat \<Rightarrow> hook_bus \<Rightarrow> hook_bus" where
  "purge_flows now s = (if length (hb_flows s) > 256
     then s\<lparr> hb_flows := filter (\<lambda>(_, e). fe_expires e > now) (hb_flows s) \<rparr> else s)"

definition dir_text :: "direction \<Rightarrow> string" where
  "dir_text d = (case d of Dir_Out \<Rightarrow> ''out'' | Dir_In \<Rightarrow> ''in'')"

definition hook_event_of :: "hook_json \<Rightarrow> hook_cfg \<Rightarrow> nat \<Rightarrow> nat \<Rightarrow> direction \<Rightarrow> bytes \<Rightarrow> packet_info \<Rightarrow> event_message" where
  "hook_event_of js cfg i ms dir pkt info = \<lparr> ev_id = i, ev_ts_ms = ms, ev_direction = dir_text dir, ev_flow = hook_flow_key info,
     ev_info = info, ev_proto = proto_name (pi_proto_num info), ev_packet_size = length pkt,
     ev_payload = hj_base64 js (take (min (length pkt) (hc_payload_prefix cfg)) pkt) \<rparr>"

text \<open>The first half of \<open>evaluate\<close>, up to the wait for the reply, is one step; the wait may end at any later one.\<close>

definition ask_decider :: "hook_json \<Rightarrow> hook_cfg \<Rightarrow> nat \<Rightarrow> nat \<Rightarrow> direction \<Rightarrow> bytes \<Rightarrow> packet_info \<Rightarrow> hook_bus \<Rightarrow> hook_bus" where
  "ask_decider js cfg now ms dir pkt info s = (
     let i = hb_next_id s;
         s = s\<lparr> hb_next_id := i + 1 \<rparr>;
         d = \<lparr> dp_line = hj_event js (hook_event_of js cfg i ms dir pkt info), dp_reply = i, dp_deadline = now + hc_timeout cfg,
               dp_flow = hook_flow_key info \<rparr>
     in if length (hb_queue s) < hc_dispatch_capacity cfg
        then s\<lparr> hb_queue := hb_queue s @ [Msg_Dispatch d], hb_waiting := (hb_waiting s)(i \<mapsto> (pkt, now)) \<rparr>
        else conclude pkt (Some i) (fallback_verdict cfg Src_Backpressure)
               (bump (\<lambda>st. st\<lparr> hs_backpressure := hs_backpressure st + 1 \<rparr>) s))"

definition evaluate_miss :: "hook_json \<Rightarrow> hook_cfg \<Rightarrow> nat \<Rightarrow> nat \<Rightarrow> direction \<Rightarrow> bytes \<Rightarrow> packet_info \<Rightarrow> hook_bus \<Rightarrow> hook_bus" where
  "evaluate_miss js cfg now ms dir pkt info s = (
     let s = purge_flows now s
     in if \<not> hb_has_decider s
        then conclude pkt None (fallback_verdict cfg Src_NoClient) (bump (\<lambda>st. st\<lparr> hs_no_client := hs_no_client st + 1 \<rparr>) s)
        else ask_decider js cfg now ms dir pkt info s)"

definition evaluate :: "hook_json \<Rightarrow> hook_cfg \<Rightarrow> nat \<Rightarrow> nat \<Rightarrow> direction \<Rightarrow> bytes \<Rightarrow> hook_bus \<Rightarrow> (unit, hook_bus) outcome" where
  "evaluate js cfg now ms dir pkt s = (
     let s = bump (\<lambda>st. st\<lparr> hs_seen := hs_seen st + 1 \<rparr>) s
     in case inspect pkt of
          Ok info \<Rightarrow> Ok (case map_of (hb_flows s) (hook_flow_key info) of
              Some e \<Rightarrow>
                if fe_expires e > now
                then conclude pkt None \<lparr> hv_action = fe_action e, hv_delay = fe_delay e, hv_tag = fe_tag e, hv_source = Src_Cached \<rparr>
                  (bump (\<lambda>st. st\<lparr> hs_cached := hs_cached st + 1 \<rparr>) s)
                else evaluate_miss js cfg now ms dir pkt info s
            | None \<Rightarrow> evaluate_miss js cfg now ms dir pkt info s)
        | Err e \<Rightarrow> Err e
        | Panic \<Rightarrow> Panic)"

text \<open>The sending end of a reply is alive in the queue or in the table of the dispatcher.\<close>

definition reply_alive :: "nat \<Rightarrow> hook_bus \<Rightarrow> bool" where
  "reply_alive i s \<longleftrightarrow> (\<exists>d. Msg_Dispatch d \<in> set (hb_queue s) \<and> dp_reply d = i) \<or> (\<exists>p \<in> snd ` set (hb_pending s). pd_reply p = i)"

definition stop_waiting :: "nat \<Rightarrow> hook_bus \<Rightarrow> hook_bus" where
  "stop_waiting i s = s\<lparr> hb_waiting := (hb_waiting s)(i := None), hb_replies := (hb_replies s)(i := None) \<rparr>"

text \<open>The second half: the reply has come, the other end has gone, or the time is up.\<close>

definition take_reply :: "hook_cfg \<Rightarrow> nat \<Rightarrow> hook_bus \<Rightarrow> hook_bus" where
  "take_reply cfg i s = (case hb_waiting s i of
     None \<Rightarrow> s
   | Some (pkt, _) \<Rightarrow>
       (case hb_replies s i of
          Some r \<Rightarrow> conclude pkt (Some i) \<lparr> hv_action = vr_action r, hv_delay = vr_delay_ms r, hv_tag = vr_tag r, hv_source = Src_Decider \<rparr>
            (bump (\<lambda>st. st\<lparr> hs_decided := hs_decided st + 1 \<rparr>) (stop_waiting i s))
        | None \<Rightarrow>
            if reply_alive i s then s
            else conclude pkt (Some i) (fallback_verdict cfg Src_DeciderGone)
              (bump (\<lambda>st. st\<lparr> hs_decider_gone := hs_decider_gone st + 1 \<rparr>) (stop_waiting i s))))"

definition time_out :: "hook_cfg \<Rightarrow> nat \<Rightarrow> nat \<Rightarrow> hook_bus \<Rightarrow> hook_bus" where
  "time_out cfg now i s = (case hb_waiting s i of
     None \<Rightarrow> s
   | Some (pkt, started) \<Rightarrow>
       if hb_replies s i = None \<and> started + hc_timeout cfg \<le> now
       then conclude pkt (Some i) (fallback_verdict cfg Src_Timeout)
         (bump (\<lambda>st. st\<lparr> hs_timeout := hs_timeout st + 1 \<rparr>) (stop_waiting i s))
       else s)"

section \<open>The clients\<close>

text \<open>A line for a client goes into its queue, unless that is full or the writer has gone.\<close>

definition try_write :: "hook_cfg \<Rightarrow> nat \<Rightarrow> string \<Rightarrow> hook_bus \<Rightarrow> hook_bus \<times> bool" where
  "try_write cfg c line s = (case hb_threads s c of
     Some t \<Rightarrow> if cl_open t \<and> length (cl_queue t) < hc_client_queue cfg
       then (s\<lparr> hb_threads := (hb_threads s)(c \<mapsto> t\<lparr> cl_queue := cl_queue t @ [line] \<rparr>) \<rparr>, True) else (s, False)
   | None \<Rightarrow> (s, False))"

text \<open>The blocking send: it returns once there is room or the writer has gone; until then the result is \<open>None\<close>.\<close>

definition block_write :: "hook_cfg \<Rightarrow> nat \<Rightarrow> string \<Rightarrow> hook_bus \<Rightarrow> hook_bus option" where
  "block_write cfg c line s = (case hb_threads s c of
     Some t \<Rightarrow> if \<not> cl_open t then Some s
       else if length (cl_queue t) < hc_client_queue cfg
       then Some (s\<lparr> hb_threads := (hb_threads s)(c \<mapsto> t\<lparr> cl_queue := cl_queue t @ [line] \<rparr>) \<rparr>)
       else None
   | None \<Rightarrow> Some s)"

definition hook_connect :: "nat \<Rightarrow> hook_bus \<Rightarrow> hook_bus" where
  "hook_connect c s = (if hb_threads s c = None
     then s\<lparr> hb_threads := (hb_threads s)(c \<mapsto> \<lparr> cl_reading = True, cl_greeted = False, cl_asked = 0, cl_stats = Not_Waiting, cl_open = True, cl_queue = [] \<rparr>) \<rparr> else s)"

text \<open>A reader passes messages on with a blocking send: \<open>None\<close> while the queue of the dispatcher is full.\<close>

definition pass_on :: "hook_cfg \<Rightarrow> hook_msg \<Rightarrow> hook_bus \<Rightarrow> hook_bus option" where
  "pass_on cfg m s = (if length (hb_queue s) < hc_dispatch_capacity cfg then Some (s\<lparr> hb_queue := hb_queue s @ [m] \<rparr>) else None)"

text \<open>The end of a reader, after its loop.\<close>

definition reader_end :: "hook_cfg \<Rightarrow> nat \<Rightarrow> hook_client \<Rightarrow> hook_bus \<Rightarrow> hook_bus option" where
  "reader_end cfg c t s = map_option (\<lambda>s. s\<lparr> hb_threads := (hb_threads s)(c \<mapsto> t\<lparr> cl_reading := False \<rparr>) \<rparr>)
     (pass_on cfg (Msg_Disconnect c) s)"

definition reader_line :: "hook_json \<Rightarrow> hook_cfg \<Rightarrow> nat \<Rightarrow> string \<Rightarrow> hook_client \<Rightarrow> hook_bus \<Rightarrow> hook_bus option" where
  "reader_line js cfg c line t s = (case hj_client js line of
     None \<Rightarrow> Some s
   | Some (Client_Hello mode name version) \<Rightarrow>
       if cl_greeted t then Some s
       else
         let t = t\<lparr> cl_greeted := True \<rparr>; s = s\<lparr> hb_threads := (hb_threads s)(c \<mapsto> t) \<rparr>;
             mode = (case mode of Some m \<Rightarrow> m | None \<Rightarrow> Observer);
             name = (case name of Some n \<Rightarrow> n | None \<Rightarrow> hj_client_name js c)
         in (case version of
               Some v \<Rightarrow> if v \<noteq> HOOK_PROTOCOL_VERSION
                 then (case block_write cfg c (hj_ack js (Ack_Version v)) s of
                     Some s \<Rightarrow> reader_end cfg c (the (hb_threads s c)) s | None \<Rightarrow> None)
                 else pass_on cfg (Msg_Hello c mode name) s
             | None \<Rightarrow> pass_on cfg (Msg_Hello c mode name) s)
   | Some (Client_Verdict i action delay_ms ttl_ms tag) \<Rightarrow>
       if \<not> cl_greeted t then Some s
       else pass_on cfg (Msg_Verdict c i \<lparr> vr_action = action, vr_delay_ms = min delay_ms 10000, vr_ttl_ms = min ttl_ms 3600000,
         vr_tag = tag \<rparr>) s
   | Some Client_Stats \<Rightarrow> map_option (\<lambda>s. s\<lparr> hb_threads := (hb_threads s)(c \<mapsto>
         t\<lparr> cl_asked := cl_asked t + 1, cl_stats := Waiting \<rparr>) \<rparr>) (pass_on cfg (Msg_Stats c (cl_asked t + 1)) s))"

text \<open>A reader that has the answer writes it into the queue; one that has waited for 200 milliseconds goes on.\<close>

definition reader_answer :: "hook_cfg \<Rightarrow> nat \<Rightarrow> hook_client \<Rightarrow> hook_bus \<Rightarrow> hook_bus option" where
  "reader_answer cfg c t s = (case cl_stats t of
     Answered line \<Rightarrow> block_write cfg c line (s\<lparr> hb_threads := (hb_threads s)(c \<mapsto> t\<lparr> cl_stats := Not_Waiting \<rparr>) \<rparr>)
   | _ \<Rightarrow> Some s)"

definition reader_gives_up :: "nat \<Rightarrow> hook_client \<Rightarrow> hook_bus \<Rightarrow> hook_bus" where
  "reader_gives_up c t s = (if cl_stats t = Waiting
     then s\<lparr> hb_threads := (hb_threads s)(c \<mapsto> t\<lparr> cl_stats := Not_Waiting \<rparr>) \<rparr> else s)"

section \<open>The dispatcher\<close>

definition default_result :: "hook_cfg \<Rightarrow> verdict_result" where
  "default_result cfg = \<lparr> vr_action = hc_default_action cfg, vr_delay_ms = 0, vr_ttl_ms = 0, vr_tag = None \<rparr>"

text \<open>A reply that nobody waits for any more is lost.\<close>

definition send_reply :: "nat \<Rightarrow> verdict_result \<Rightarrow> hook_bus \<Rightarrow> hook_bus" where
  "send_reply i r s = (if hb_waiting s i = None then s else s\<lparr> hb_replies := (hb_replies s)(i \<mapsto> r) \<rparr>)"

text \<open>The first half of a greeting: the place of the decider is given away before the acknowledgement is sent.\<close>

definition on_hello :: "hook_json \<Rightarrow> nat \<Rightarrow> client_mode \<Rightarrow> string \<Rightarrow> hook_bus \<Rightarrow> hook_bus" where
  "on_hello js c mode name s = (
     let takes = (mode = Decision \<and> hb_decider s = None);
         assigned = (if takes then Decision else Observer);
         s = (if takes then s\<lparr> hb_decider := Some c, hb_has_decider := True \<rparr> else s);
         ack = (if assigned = Decision then Ack_Ok Decision else if mode = Decision then Ack_Degrade Observer else Ack_Ok Observer)
     in s\<lparr> hb_greeting := Some (c, \<lparr> cs_mode = assigned, cs_name = name \<rparr>, hj_ack js ack) \<rparr>)"

text \<open>The second half: the acknowledgement is sent, with a blocking send, and the client enters the table.\<close>

definition finish_hello :: "hook_cfg \<Rightarrow> hook_bus \<Rightarrow> hook_bus option" where
  "finish_hello cfg s = (case hb_greeting s of
     None \<Rightarrow> Some s
   | Some (c, slot, ack) \<Rightarrow>
       map_option (\<lambda>s. s\<lparr> hb_clients := AList.update c slot (hb_clients s), hb_greeting := None \<rparr>) (block_write cfg c ack s))"

fun copy_to_observers :: "hook_cfg \<Rightarrow> nat \<Rightarrow> string \<Rightarrow> (nat \<times> client_slot) list \<Rightarrow> hook_bus \<Rightarrow> hook_bus" where
  "copy_to_observers cfg d line [] s = s"
| "copy_to_observers cfg d line ((c, slot) # cs) s = copy_to_observers cfg d line cs
     (if c = d \<or> cs_mode slot \<noteq> Observer then s else fst (try_write cfg c line s))"

definition on_dispatch :: "hook_json \<Rightarrow> hook_cfg \<Rightarrow> nat \<Rightarrow> dispatch \<Rightarrow> hook_bus \<Rightarrow> hook_bus" where
  "on_dispatch js cfg now d s = (
     let s = (if length (hb_pending s) > 1024
              then s\<lparr> hb_pending := filter (\<lambda>(_, p). pd_deadline p > now) (hb_pending s) \<rparr> else s)
     in case hb_decider s of
          None \<Rightarrow> send_reply (dp_reply d) (default_result cfg) s
        | Some dc \<Rightarrow>
            let i = (case hj_id js (dp_line d) of Some i \<Rightarrow> i | None \<Rightarrow> 0)
            in if map_of (hb_clients s) dc = None then send_reply (dp_reply d) (default_result cfg) s
               else (case try_write cfg dc (dp_line d) s of
                   (s, False) \<Rightarrow> send_reply (dp_reply d) (default_result cfg)
                     (bump (\<lambda>st. st\<lparr> hs_backpressure := hs_backpressure st + 1 \<rparr>) s)
                 | (s, True) \<Rightarrow> copy_to_observers cfg dc (dp_line d) (hb_clients s)
                     (s\<lparr> hb_pending := AList.update i \<lparr> pd_reply = dp_reply d, pd_deadline = dp_deadline d, pd_flow = dp_flow d \<rparr>
                           (hb_pending s) \<rparr>)))"

definition on_verdict :: "hook_cfg \<Rightarrow> nat \<Rightarrow> nat \<Rightarrow> nat \<Rightarrow> verdict_result \<Rightarrow> hook_bus \<Rightarrow> hook_bus" where
  "on_verdict cfg now c i r s = (
     if hb_decider s \<noteq> Some c then s
     else case map_of (hb_pending s) i of
         None \<Rightarrow> s
       | Some p \<Rightarrow>
           let s = s\<lparr> hb_pending := AList.delete i (hb_pending s) \<rparr>;
               s = (if vr_ttl_ms r > 0
                 then s\<lparr> hb_flows := AList.update (pd_flow p) \<lparr> fe_action = vr_action r, fe_delay = vr_delay_ms r, fe_tag = vr_tag r,
                     fe_expires = now + min (vr_ttl_ms r * 10 ^ 6) (hc_flow_ttl_cap cfg) \<rparr> (hb_flows s) \<rparr>
                 else s)
           in send_reply (pd_reply p) r s)"

definition hook_stats_of :: "hook_bus \<Rightarrow> stats_json" where
  "hook_stats_of s = \<lparr> sj_decided = hs_decided (hb_stats s), sj_cached = hs_cached (hb_stats s), sj_fallback = stats_fallback (hb_stats s),
     sj_accepted = hs_accepted (hb_stats s), sj_dropped = hs_dropped (hb_stats s),
     sj_observers = length (filter (\<lambda>(_, c). cs_mode c = Observer) (hb_clients s)),
     sj_decider = (case hb_decider s of Some d \<Rightarrow> map_option cs_name (map_of (hb_clients s) d) | None \<Rightarrow> None) \<rparr>"

definition on_stats :: "hook_json \<Rightarrow> nat \<Rightarrow> nat \<Rightarrow> hook_bus \<Rightarrow> hook_bus" where
  "on_stats js c n s = (case hb_threads s c of
     Some t \<Rightarrow> if cl_stats t = Waiting \<and> cl_asked t = n
       then s\<lparr> hb_threads := (hb_threads s)(c \<mapsto> t\<lparr> cl_stats := Answered (hj_stats js (hook_stats_of s)) \<rparr>) \<rparr> else s
   | None \<Rightarrow> s)"

definition on_disconnect :: "hook_cfg \<Rightarrow> nat \<Rightarrow> hook_bus \<Rightarrow> hook_bus" where
  "on_disconnect cfg c s = (
     let s = s\<lparr> hb_clients := AList.delete c (hb_clients s) \<rparr>
     in if hb_decider s = Some c
        then fold (\<lambda>(_, p). send_reply (pd_reply p) (default_result cfg)) (hb_pending s)
               (s\<lparr> hb_decider := None, hb_has_decider := False, hb_pending := [] \<rparr>)
        else s)"

text \<open>One round of the dispatcher's loop, for a greeting its first half.\<close>

definition dispatch_msg :: "hook_json \<Rightarrow> hook_cfg \<Rightarrow> nat \<Rightarrow> hook_msg \<Rightarrow> hook_bus \<Rightarrow> hook_bus" where
  "dispatch_msg js cfg now m s = (case m of
     Msg_Hello c mode name \<Rightarrow> on_hello js c mode name s
   | Msg_Dispatch d \<Rightarrow> on_dispatch js cfg now d s
   | Msg_Verdict c i r \<Rightarrow> on_verdict cfg now c i r s
   | Msg_Stats c n \<Rightarrow> on_stats js c n s
   | Msg_Disconnect c \<Rightarrow> on_disconnect cfg c s)"

section \<open>The steps\<close>

datatype hook_event =
    Evaluate nat nat direction bytes
  | Take_Reply nat
  | Time_Out nat nat
  | Dispatch_Next nat
  | Greeted
  | Connected nat
  | Line nat string
  | Stats_Answer nat
  | Stats_Give_Up nat
  | Stream_End nat
  | Line_Written nat
  | Write_Failed nat

definition if_ready :: "'s \<Rightarrow> 's option \<Rightarrow> 's" where
  "if_ready s r = (case r of Some s' \<Rightarrow> s' | None \<Rightarrow> s)"

text \<open>A reader that waits for statistics reads no lines.\<close>

definition with_reader :: "(hook_client \<Rightarrow> hook_bus option) \<Rightarrow> nat \<Rightarrow> hook_bus \<Rightarrow> hook_bus" where
  "with_reader f c s = (case hb_threads s c of Some t \<Rightarrow> if cl_reading t then if_ready s (f t) else s | None \<Rightarrow> s)"

text \<open>A step that is blocked leaves the state as it is: the thread tries again.\<close>

fun hook_step :: "hook_json \<Rightarrow> hook_cfg \<Rightarrow> hook_event \<Rightarrow> hook_bus \<Rightarrow> (unit, hook_bus) outcome" where
  "hook_step js cfg (Evaluate now ms dir pkt) s = evaluate js cfg now ms dir pkt s"
| "hook_step js cfg (Take_Reply i) s = Ok (take_reply cfg i s)"
| "hook_step js cfg (Time_Out i now) s = Ok (time_out cfg now i s)"
| "hook_step js cfg (Dispatch_Next now) s = Ok (case hb_queue s of
     [] \<Rightarrow> s
   | m # ms \<Rightarrow> if hb_greeting s = None then dispatch_msg js cfg now m (s\<lparr> hb_queue := ms \<rparr>) else s)"
| "hook_step js cfg Greeted s = Ok (if_ready s (finish_hello cfg s))"
| "hook_step js cfg (Connected c) s = Ok (hook_connect c s)"
| "hook_step js cfg (Line c line) s = Ok (with_reader (\<lambda>t. if cl_stats t = Not_Waiting then reader_line js cfg c line t s else None) c s)"
| "hook_step js cfg (Stats_Answer c) s = Ok (with_reader (\<lambda>t. reader_answer cfg c t s) c s)"
| "hook_step js cfg (Stats_Give_Up c) s = Ok (with_reader (\<lambda>t. Some (reader_gives_up c t s)) c s)"
| "hook_step js cfg (Stream_End c) s = Ok (with_reader (\<lambda>t. if cl_stats t = Not_Waiting then reader_end cfg c t s else None) c s)"
| "hook_step js cfg (Line_Written c) s = Ok (case hb_threads s c of
     Some t \<Rightarrow> s\<lparr> hb_threads := (hb_threads s)(c \<mapsto> t\<lparr> cl_queue := drop 1 (cl_queue t) \<rparr>) \<rparr>
   | None \<Rightarrow> s)"
| "hook_step js cfg (Write_Failed c) s = Ok (case hb_threads s c of
     Some t \<Rightarrow> s\<lparr> hb_threads := (hb_threads s)(c \<mapsto> t\<lparr> cl_open := False, cl_queue := [] \<rparr>) \<rparr>
   | None \<Rightarrow> s)"

fun hook_run :: "hook_json \<Rightarrow> hook_cfg \<Rightarrow> hook_event list \<Rightarrow> hook_bus \<Rightarrow> (unit, hook_bus) outcome" where
  "hook_run js cfg [] s = Ok s"
| "hook_run js cfg (e # es) s = (case hook_step js cfg e s of
     Ok s \<Rightarrow> hook_run js cfg es s | Err x \<Rightarrow> Err x | Panic \<Rightarrow> Panic)"

end
