(* ===== verification/HookSafety.thy ===== *)
theory HookSafety
  imports Hook
begin

text \<open>
  What the hook bus guarantees: every verdict that is not the default was given by the decider, for this event or with a
  lifetime for its flow; and what a client can do to it that is slow on purpose, or a sender who fragments.
\<close>

section \<open>Decisions\<close>

definition pkt_flow :: "bytes \<Rightarrow> string" where
  "pkt_flow pkt = (case inspect pkt of Ok info \<Rightarrow> hook_flow_key info | _ \<Rightarrow> [])"

text \<open>The verdict that a step takes: the client, which is the decider, the event and its flow, and the result.\<close>

definition decision_of :: "hook_event \<Rightarrow> hook_bus \<Rightarrow> (nat \<times> nat \<times> string \<times> verdict_result) option" where
  "decision_of e s = (case e of
     Dispatch_Next now \<Rightarrow> (case hb_queue s of
         Msg_Verdict c i r # _ \<Rightarrow>
           if hb_greeting s = None \<and> hb_decider s = Some c
           then map_option (\<lambda>p. (c, i, pd_flow p, r)) (map_of (hb_pending s) i) else None
       | _ \<Rightarrow> None)
   | _ \<Rightarrow> None)"

fun decisions :: "hook_json \<Rightarrow> hook_cfg \<Rightarrow> hook_event list \<Rightarrow> hook_bus \<Rightarrow> (nat \<times> nat \<times> string \<times> verdict_result) list" where
  "decisions js cfg [] s = []"
| "decisions js cfg (e # es) s = (case decision_of e s of Some d \<Rightarrow> [d] | None \<Rightarrow> []) @
     (case hook_step js cfg e s of Ok s' \<Rightarrow> decisions js cfg es s' | _ \<Rightarrow> [])"

text \<open>The verdict is what the result says, or the default.\<close>

definition matches :: "hook_verdict \<Rightarrow> verdict_result \<Rightarrow> bool" where
  "matches v r \<longleftrightarrow> hv_action v = vr_action r \<and> hv_delay v = vr_delay_ms r \<and> hv_tag v = vr_tag r"

definition backed :: "hook_cfg \<Rightarrow> (nat \<times> nat \<times> string \<times> verdict_result) set \<Rightarrow> bytes \<Rightarrow> nat option \<Rightarrow> hook_verdict \<Rightarrow> bool" where
  "backed cfg D pkt i v \<longleftrightarrow> matches v (default_result cfg) \<or>
     (\<exists>c n r. (c, n, pkt_flow pkt, r) \<in> D \<and> matches v r \<and>
       (hv_source v = Src_Decider \<and> i = Some n \<or> hv_source v = Src_Cached \<and> 0 < vr_ttl_ms r))"

section \<open>The invariant\<close>

text \<open>The parts of the state that verdicts pass through.\<close>

record core =
  co_next :: nat
  co_flows :: "(string \<times> flow_entry) list"
  co_asked :: "dispatch list"
  co_pending :: "(nat \<times> pending) list"
  co_waiting :: "nat \<Rightarrow> (bytes \<times> nat) option"
  co_replies :: "nat \<Rightarrow> verdict_result option"
  co_done :: "(bytes \<times> nat option \<times> hook_verdict) list"

definition asked :: "hook_msg list \<Rightarrow> dispatch list" where
  "asked q = concat (map (\<lambda>m. case m of Msg_Dispatch d \<Rightarrow> [d] | _ \<Rightarrow> []) q)"

definition core_of :: "hook_bus \<Rightarrow> core" where
  "core_of s = \<lparr> co_next = hb_next_id s, co_flows = hb_flows s, co_asked = asked (hb_queue s), co_pending = hb_pending s,
     co_waiting = hb_waiting s, co_replies = hb_replies s, co_done = hb_done s \<rparr>"

lemma asked_simps [simp]: "asked [] = []" "asked (q @ q') = asked q @ asked q'" "asked (Msg_Dispatch d # q) = d # asked q"
  "asked (Msg_Hello c m n # q) = asked q" "asked (Msg_Verdict c i r # q) = asked q" "asked (Msg_Stats c k # q) = asked q"
  "asked (Msg_Disconnect c # q) = asked q"
  by (simp_all add: asked_def)

definition core_ok :: "hook_json \<Rightarrow> hook_cfg \<Rightarrow> (nat \<times> nat \<times> string \<times> verdict_result) set \<Rightarrow> core \<Rightarrow> bool" where
  "core_ok js cfg D k \<longleftrightarrow>
     (\<forall>i. co_next k \<le> i \<longrightarrow> co_waiting k i = None)
   \<and> (\<forall>d \<in> set (co_asked k). dp_reply d < co_next k \<and> (\<exists>e. dp_line d = hj_event js e \<and> ev_id e = dp_reply d)
        \<and> (\<forall>pkt t. co_waiting k (dp_reply d) = Some (pkt, t) \<longrightarrow> dp_flow d = pkt_flow pkt))
   \<and> (\<forall>(i, p) \<in> set (co_pending k). pd_reply p = i \<and> i < co_next k
        \<and> (\<forall>pkt t. co_waiting k i = Some (pkt, t) \<longrightarrow> pd_flow p = pkt_flow pkt))
   \<and> (\<forall>i r. co_replies k i = Some r \<longrightarrow> (\<exists>pkt t. co_waiting k i = Some (pkt, t) \<and>
        (r = default_result cfg \<or> (\<exists>c. (c, i, pkt_flow pkt, r) \<in> D))))
   \<and> (\<forall>(f, e) \<in> set (co_flows k). \<exists>c i r. (c, i, f, r) \<in> D \<and> 0 < vr_ttl_ms r \<and> fe_action e = vr_action r
        \<and> fe_delay e = vr_delay_ms r \<and> fe_tag e = vr_tag r)
   \<and> (\<forall>(pkt, i, v) \<in> set (co_done k). backed cfg D pkt i v)"

lemma backed_mono: "backed cfg D pkt i v \<Longrightarrow> D \<subseteq> D' \<Longrightarrow> backed cfg D' pkt i v"
  unfolding backed_def by blast

lemma core_ok_mono:
  assumes "core_ok js cfg D k" "D \<subseteq> D'"
  shows "core_ok js cfg D' k"
proof -
  have "backed cfg D' pkt i v" if "backed cfg D pkt i v" for pkt i v using backed_mono [OF that assms(2)] .
  moreover have "\<exists>c. (c, i, f, r) \<in> D'" if "\<exists>c. (c, i, f, r) \<in> D" for i f r using that assms(2) by blast
  ultimately show ?thesis using assms unfolding core_ok_def by (fast dest: subsetD)
qed

lemma fallback_backed: "backed cfg D pkt i (fallback_verdict cfg src)"
  by (simp add: backed_def matches_def fallback_verdict_def default_result_def)

section \<open>Every step\<close>

lemma core_simps [simp]:
  "core_of (bump f s) = core_of s"
  "core_of (conclude pkt i v s) = (core_of s)\<lparr> co_done := co_done (core_of s) @ [(pkt, i, v)] \<rparr>"
  "core_of (stop_waiting n s) = (core_of s)\<lparr> co_waiting := (co_waiting (core_of s))(n := None), co_replies := (co_replies (core_of s))(n := None) \<rparr>"
  "core_of (fst (try_write cfg c line s)) = core_of s"
  by (auto simp: core_of_def bump_def conclude_def stop_waiting_def try_write_def split: option.splits)

lemma block_write_core: "block_write cfg c line s = Some s' \<Longrightarrow> core_of s' = core_of s"
  by (auto simp: block_write_def core_of_def split: option.splits if_splits)

lemma pass_on_core: "pass_on cfg m s = Some s' \<Longrightarrow> asked [m] = [] \<Longrightarrow> core_of s' = core_of s"
  by (auto simp: pass_on_def core_of_def split: if_splits)

lemma threads_core [simp]: "core_of (s\<lparr> hb_threads := x \<rparr>) = core_of s"
  by (simp add: core_of_def)

lemma reader_core:
  "reader_end cfg c t s = Some s' \<Longrightarrow> core_of s' = core_of s"
  "reader_line js cfg c line t s = Some s' \<Longrightarrow> core_of s' = core_of s"
  "reader_answer cfg c t s = Some s' \<Longrightarrow> core_of s' = core_of s"
  "core_of (reader_gives_up c t s) = core_of s"
proof -
  show e: "reader_end cfg c t s = Some s' \<Longrightarrow> core_of s' = core_of s" for t s s'
    by (auto simp: reader_end_def dest!: pass_on_core)
  show "reader_line js cfg c line t s = Some s' \<Longrightarrow> core_of s' = core_of s"
    by (auto simp: reader_line_def Let_def dest!: pass_on_core block_write_core e
        split: option.splits client_message.splits if_splits)
  show "reader_answer cfg c t s = Some s' \<Longrightarrow> core_of s' = core_of s"
    by (auto simp: reader_answer_def dest!: block_write_core split: stats_wait.splits)
  show "core_of (reader_gives_up c t s) = core_of s" by (simp add: reader_gives_up_def)
qed

lemma with_reader_core: "(\<And>t s'. f t = Some s' \<Longrightarrow> core_of s' = core_of s) \<Longrightarrow> core_of (with_reader f c s) = core_of s"
  by (auto simp: with_reader_def if_ready_def split: option.splits)

lemma finish_hello_core: "finish_hello cfg s = Some s' \<Longrightarrow> core_of s' = core_of s"
  by (auto simp: finish_hello_def dest!: block_write_core split: option.splits) (simp_all add: core_of_def)

lemma quiet_step:
  assumes "hook_step js cfg e s = Ok s'" "\<forall>now ms dir pkt. e \<noteq> Evaluate now ms dir pkt" "\<forall>i. e \<noteq> Take_Reply i" "\<forall>i now. e \<noteq> Time_Out i now"
    "\<forall>now. e \<noteq> Dispatch_Next now"
  shows "core_of s' = core_of s"
proof (cases e)
  case Greeted
  then show ?thesis using assms(1) finish_hello_core by (auto simp: if_ready_def split: option.splits)
next
  case (Line c line)
  then show ?thesis using assms(1) reader_core(2) by (auto intro!: with_reader_core split: if_splits)
next
  case (Stats_Answer c)
  then show ?thesis using assms(1) reader_core(3) by (auto intro!: with_reader_core)
next
  case (Stats_Give_Up c)
  then show ?thesis using assms(1) reader_core(4) by (auto intro!: with_reader_core)
next
  case (Stream_End c)
  then show ?thesis using assms(1) reader_core(1) by (auto intro!: with_reader_core split: if_splits)
qed (use assms in \<open>auto simp: hook_connect_def split: option.splits\<close>)

lemma core_ok_conclude:
  "core_ok js cfg D k \<Longrightarrow> backed cfg D pkt i v \<Longrightarrow> core_ok js cfg D (k\<lparr> co_done := co_done k @ [(pkt, i, v)] \<rparr>)"
  by (simp add: core_ok_def)

lemma core_ok_stop:
  "core_ok js cfg D k \<Longrightarrow> core_ok js cfg D (k\<lparr> co_waiting := (co_waiting k)(i := None), co_replies := (co_replies k)(i := None) \<rparr>)"
  unfolding core_ok_def by (auto split: prod.splits)

lemma core_ok_subset:
  "core_ok js cfg D k \<Longrightarrow> set fl \<subseteq> set (co_flows k) \<Longrightarrow> set q \<subseteq> set (co_asked k) \<Longrightarrow> set ps \<subseteq> set (co_pending k) \<Longrightarrow>
   core_ok js cfg D (k\<lparr> co_flows := fl, co_asked := q, co_pending := ps \<rparr>)"
  unfolding core_ok_def by (auto dest: subsetD) (fastforce dest: subsetD)+

lemma core_ok_reply:
  assumes "core_ok js cfg D k" "co_waiting k i = Some (pkt, t)" "r = default_result cfg \<or> (\<exists>c. (c, i, pkt_flow pkt, r) \<in> D)"
  shows "core_ok js cfg D (k\<lparr> co_replies := (co_replies k)(i \<mapsto> r) \<rparr>)"
  using assms unfolding core_ok_def by auto

lemma core_ok_ask:
  assumes "core_ok js cfg D k" "dp_reply d = co_next k" "dp_line d = hj_event js e" "ev_id e = co_next k" "dp_flow d = pkt_flow pkt"
  shows "core_ok js cfg D (k\<lparr> co_next := co_next k + 1, co_asked := co_asked k @ [d], co_waiting := (co_waiting k)(co_next k \<mapsto> (pkt, t)) \<rparr>)"
proof -
  have "i < co_next k \<Longrightarrow> i \<noteq> co_next k" "i < co_next k \<Longrightarrow> i < Suc (co_next k)" for i by simp_all
  moreover have "co_replies k (co_next k) = None"
    using assms(1) unfolding core_ok_def by (metis not_None_eq order_refl option.distinct(1))
  ultimately show ?thesis
    using assms unfolding core_ok_def by (auto split: prod.splits)
qed

lemma core_ok_next:
  "core_ok js cfg D k \<Longrightarrow> core_ok js cfg D (k\<lparr> co_next := co_next k + 1 \<rparr>)"
  unfolding core_ok_def by (auto split: prod.splits)

lemma core_ok_start: "core_ok js cfg {} (core_of hook_start)"
  by (simp add: core_ok_def core_of_def hook_start_def)

lemma pkt_flow_inspect: "inspect pkt = Ok info \<Longrightarrow> hook_flow_key info = pkt_flow pkt"
  by (simp add: pkt_flow_def)

lemma core_ok_miss:
  assumes "core_ok js cfg D (core_of s)" "inspect pkt = Ok info"
  shows "core_ok js cfg D (core_of (evaluate_miss js cfg now ms dir pkt info s))"
proof -
  have purge: "core_ok js cfg D (core_of (purge_flows now s))"
    using assms(1) core_ok_subset [of js cfg D "core_of s" "filter (\<lambda>(_, e). fe_expires e > now) (hb_flows s)" "co_asked (core_of s)"
        "co_pending (core_of s)"]
    by (auto simp: purge_flows_def core_of_def)
  show ?thesis
  proof (cases "hb_has_decider (purge_flows now s)")
    case False
    then show ?thesis using core_ok_conclude [OF purge fallback_backed] by (simp add: evaluate_miss_def Let_def)
  next
    case True
    let ?s = "purge_flows now s"
    let ?e = "hook_event_of js cfg (hb_next_id ?s) ms dir pkt info"
    let ?d = "\<lparr> dp_line = hj_event js ?e, dp_reply = hb_next_id ?s, dp_deadline = now + hc_timeout cfg, dp_flow = hook_flow_key info \<rparr>"
    show ?thesis
    proof (cases "length (hb_queue ?s) < hc_dispatch_capacity cfg")
      case True
      then have "core_of (ask_decider js cfg now ms dir pkt info ?s) = (core_of ?s)\<lparr> co_next := co_next (core_of ?s) + 1,
          co_asked := co_asked (core_of ?s) @ [?d], co_waiting := (co_waiting (core_of ?s))(co_next (core_of ?s) \<mapsto> (pkt, now)) \<rparr>"
        by (simp add: ask_decider_def core_of_def Let_def)
      moreover have "core_ok js cfg D \<dots>"
        by (rule core_ok_ask [OF purge, where e = ?e]) (simp_all add: core_of_def hook_event_of_def pkt_flow_inspect [OF assms(2)])
      ultimately show ?thesis using \<open>hb_has_decider ?s\<close> by (simp add: evaluate_miss_def Let_def)
    next
      case False
      have "core_of (?s\<lparr> hb_next_id := hb_next_id ?s + 1 \<rparr>) = (core_of ?s)\<lparr> co_next := co_next (core_of ?s) + 1 \<rparr>"
        by (simp add: core_of_def)
      then have "core_ok js cfg D (core_of (?s\<lparr> hb_next_id := hb_next_id ?s + 1 \<rparr>))" using core_ok_next [OF purge] by simp
      then show ?thesis
        using False \<open>hb_has_decider ?s\<close> core_ok_conclude [OF _ fallback_backed]
        by (simp add: evaluate_miss_def ask_decider_def Let_def)
    qed
  qed
qed

lemma core_ok_evaluate:
  assumes "core_ok js cfg D (core_of s)" "evaluate js cfg now ms dir pkt s = Ok s'"
  shows "core_ok js cfg D (core_of s')"
proof -
  let ?s = "bump (\<lambda>st. st\<lparr> hs_seen := hs_seen st + 1 \<rparr>) s"
  obtain info where info: "inspect pkt = Ok info" using inspect_ok by blast
  have ok: "core_ok js cfg D (core_of ?s)" using assms(1) by simp
  have flows: "hb_flows ?s = co_flows (core_of s)" by (simp add: bump_def core_of_def)
  consider (hit) e where "map_of (hb_flows ?s) (hook_flow_key info) = Some e" "fe_expires e > now"
    | (miss) "s' = evaluate_miss js cfg now ms dir pkt info ?s"
    using assms(2) info by (auto simp: evaluate_def Let_def split: option.splits if_splits)
  then show ?thesis
  proof cases
    case hit
    let ?v = "\<lparr> hv_action = fe_action e, hv_delay = fe_delay e, hv_tag = fe_tag e, hv_source = Src_Cached \<rparr>"
    have "(hook_flow_key info, e) \<in> set (co_flows (core_of s))" using map_of_SomeD [OF hit(1)] flows by simp
    then obtain c i r where "(c, i, hook_flow_key info, r) \<in> D" "0 < vr_ttl_ms r" "fe_action e = vr_action r" "fe_delay e = vr_delay_ms r"
      "fe_tag e = vr_tag r"
      using assms(1) unfolding core_ok_def by blast
    then have "backed cfg D pkt None ?v" using pkt_flow_inspect [OF info] by (auto simp: backed_def matches_def)
    then have "core_ok js cfg D (core_of (conclude pkt None ?v (bump (\<lambda>st. st\<lparr> hs_cached := hs_cached st + 1 \<rparr>) ?s)))"
      using core_ok_conclude [OF ok] by simp
    moreover have "s' = conclude pkt None ?v (bump (\<lambda>st. st\<lparr> hs_cached := hs_cached st + 1 \<rparr>) ?s)"
      using assms(2) info hit by (simp add: evaluate_def Let_def)
    ultimately show ?thesis by simp
  next
    case miss
    then show ?thesis using core_ok_miss [OF ok info] by simp
  qed
qed

lemma core_ok_replyD:
  "core_ok js cfg D k \<Longrightarrow> co_replies k i = Some r \<Longrightarrow>
     \<exists>pkt t. co_waiting k i = Some (pkt, t) \<and> (r = default_result cfg \<or> (\<exists>c. (c, i, pkt_flow pkt, r) \<in> D))"
  unfolding core_ok_def by blast

lemma core_ok_take:
  assumes "core_ok js cfg D (core_of s)"
  shows "core_ok js cfg D (core_of (take_reply cfg i s))"
proof (cases "hb_waiting s i")
  case (Some w)
  obtain pkt t where w: "w = (pkt, t)" by (metis surj_pair)
  have wait: "co_waiting (core_of s) i = Some (pkt, t)" "co_replies (core_of s) = hb_replies s" using Some w by (simp_all add: core_of_def)
  note stop = core_ok_stop [OF assms, of i]
  show ?thesis
  proof (cases "hb_replies s i")
    case (Some r)
    let ?v = "\<lparr> hv_action = vr_action r, hv_delay = vr_delay_ms r, hv_tag = vr_tag r, hv_source = Src_Decider \<rparr>"
    have "r = default_result cfg \<or> (\<exists>c. (c, i, pkt_flow pkt, r) \<in> D)"
      using core_ok_replyD [OF assms, of i r] Some wait by auto
    then have "backed cfg D pkt (Some i) ?v" by (auto simp: backed_def matches_def)
    then show ?thesis
      using core_ok_conclude [OF stop] \<open>hb_waiting s i = Some w\<close> w Some by (simp add: take_reply_def)
  next
    case None
    then show ?thesis
      using assms core_ok_conclude [OF stop fallback_backed] \<open>hb_waiting s i = Some w\<close> w by (simp add: take_reply_def)
  qed
qed (use assms in \<open>simp add: take_reply_def\<close>)

lemma core_ok_time_out:
  assumes "core_ok js cfg D (core_of s)"
  shows "core_ok js cfg D (core_of (time_out cfg now i s))"
  using assms core_ok_conclude [OF core_ok_stop [OF assms] fallback_backed]
  by (auto simp: time_out_def split: option.splits prod.splits)

section \<open>The dispatcher\<close>

lemma send_reply_core:
  "core_of (send_reply i r s) = (if hb_waiting s i = None then core_of s
     else (core_of s)\<lparr> co_replies := (co_replies (core_of s))(i \<mapsto> r) \<rparr>)"
  by (simp add: send_reply_def core_of_def)

lemma core_ok_send:
  assumes "core_ok js cfg D (core_of s)"
    and "\<And>pkt t. hb_waiting s i = Some (pkt, t) \<Longrightarrow> r = default_result cfg \<or> (\<exists>c. (c, i, pkt_flow pkt, r) \<in> D)"
  shows "core_ok js cfg D (core_of (send_reply i r s))"
proof (cases "hb_waiting s i")
  case (Some w)
  obtain pkt t where w: "w = (pkt, t)" by (metis surj_pair)
  have "co_waiting (core_of s) i = Some (pkt, t)" using Some w by (simp add: core_of_def)
  from core_ok_reply [OF assms(1) this assms(2)] show ?thesis using Some w by (simp add: send_reply_core)
qed (use assms in \<open>simp add: send_reply_core\<close>)

lemma core_ok_default: "core_ok js cfg D (core_of s) \<Longrightarrow> core_ok js cfg D (core_of (send_reply i (default_result cfg) s))"
  by (rule core_ok_send) simp_all

lemma core_ok_defaults:
  "core_ok js cfg D (core_of s) \<Longrightarrow> core_ok js cfg D (core_of (fold (\<lambda>(_, p). send_reply (pd_reply p) (default_result cfg)) ps s))"
  by (induction ps arbitrary: s) (auto simp: core_ok_default)

lemma copy_core [simp]: "core_of (copy_to_observers cfg d line cs s) = core_of s"
  by (induction cs arbitrary: s) (auto split: prod.splits)

lemma update_member: "x \<in> set (AList.update k v al) \<Longrightarrow> x = (k, v) \<or> x \<in> set al"
  by (induction al) (auto split: if_splits)

lemma delete_member: "set (AList.delete k al) \<subseteq> set al"
  by (induction al) auto

lemma core_ok_pending:
  assumes "core_ok js cfg D k" "pd_reply p = i" "i < co_next k" "\<forall>pkt t. co_waiting k i = Some (pkt, t) \<longrightarrow> pd_flow p = pkt_flow pkt"
  shows "core_ok js cfg D (k\<lparr> co_pending := AList.update i p (co_pending k) \<rparr>)"
proof -
  have "case x of (i, p) \<Rightarrow> pd_reply p = i \<and> i < co_next k \<and> (\<forall>pkt t. co_waiting k i = Some (pkt, t) \<longrightarrow> pd_flow p = pkt_flow pkt)"
    if "x \<in> set (AList.update i p (co_pending k))" for x
    using update_member [OF that] assms unfolding core_ok_def by (elim disjE) auto
  then show ?thesis using assms(1) unfolding core_ok_def by simp
qed

lemma core_ok_flow:
  assumes "core_ok js cfg D k" "(c, i, f, r) \<in> D" "0 < vr_ttl_ms r" "fe_action e = vr_action r" "fe_delay e = vr_delay_ms r" "fe_tag e = vr_tag r"
  shows "core_ok js cfg D (k\<lparr> co_flows := AList.update f e (co_flows k) \<rparr>)"
proof -
  have "case x of (f, e) \<Rightarrow> \<exists>c i r. (c, i, f, r) \<in> D \<and> 0 < vr_ttl_ms r \<and> fe_action e = vr_action r \<and> fe_delay e = vr_delay_ms r \<and> fe_tag e = vr_tag r"
    if "x \<in> set (AList.update f e (co_flows k))" for x
    using update_member [OF that] assms unfolding core_ok_def by (elim disjE) auto
  then show ?thesis using assms(1) unfolding core_ok_def by simp
qed

text \<open>What the bus needs of the JSON library: a reader finds the number that the writer put into an event.\<close>

definition json_ok :: "hook_json \<Rightarrow> bool" where
  "json_ok js \<longleftrightarrow> (\<forall>e. hj_id js (hj_event js e) = Some (ev_id e))"

lemma core_ok_dispatch:
  assumes "json_ok js" "core_ok js cfg D ((core_of s)\<lparr> co_asked := d # co_asked (core_of s) \<rparr>)"
  shows "core_ok js cfg D (core_of (on_dispatch js cfg now d s))"
proof -
  let ?s = "if length (hb_pending s) > 1024 then s\<lparr> hb_pending := filter (\<lambda>(_, p). pd_deadline p > now) (hb_pending s) \<rparr> else s"
  have parts: "core_of ?s = (core_of s)\<lparr> co_pending := hb_pending ?s \<rparr>" by (simp add: core_of_def)
  have ok: "core_ok js cfg D (core_of ?s)"
  proof -
    have "core_ok js cfg D (((core_of s)\<lparr> co_asked := d # co_asked (core_of s) \<rparr>)\<lparr> co_flows := co_flows (core_of s),
        co_asked := co_asked (core_of s), co_pending := hb_pending ?s \<rparr>)"
      by (rule core_ok_subset [OF assms(2)]) (auto simp: core_of_def)
    then show ?thesis unfolding parts by (simp add: core_of_def)
  qed
  obtain e where e: "dp_line d = hj_event js e" "ev_id e = dp_reply d" "dp_reply d < co_next (core_of s)"
    "\<forall>pkt t. co_waiting (core_of s) (dp_reply d) = Some (pkt, t) \<longrightarrow> dp_flow d = pkt_flow pkt"
    using assms(2) unfolding core_ok_def by auto
  have i: "hj_id js (dp_line d) = Some (dp_reply d)" using assms(1) e(1,2) by (simp add: json_ok_def)
  show ?thesis
  proof (cases "hb_decider ?s")
    case None
    then show ?thesis using core_ok_default [OF ok] by (simp only: on_dispatch_def Let_def option.case)
  next
    case (Some dc)
    show ?thesis
    proof (cases "map_of (hb_clients ?s) dc = None")
      case True
      then show ?thesis using Some core_ok_default [OF ok] by (simp only: on_dispatch_def Let_def option.case simp_thms if_True)
    next
      case False
      obtain s1 sent where w: "try_write cfg dc (dp_line d) ?s = (s1, sent)" by (metis surj_pair)
      then have c1: "core_of s1 = core_of ?s" by (metis core_simps(4) fst_conv)
      show ?thesis
      proof (cases sent)
        case True
        let ?p = "\<lparr> pd_reply = dp_reply d, pd_deadline = dp_deadline d, pd_flow = dp_flow d \<rparr>"
        have "core_of (s1\<lparr> hb_pending := AList.update (dp_reply d) ?p (hb_pending s1) \<rparr>)
            = (core_of s1)\<lparr> co_pending := AList.update (dp_reply d) ?p (co_pending (core_of s1)) \<rparr>" by (simp add: core_of_def)
        moreover have "core_ok js cfg D \<dots>"
          unfolding c1 by (rule core_ok_pending [OF ok]) (use e in \<open>simp_all add: parts\<close>)
        ultimately show ?thesis
          using Some False w True i by (simp only: on_dispatch_def Let_def option.case if_False prod.case bool.case copy_core)
      next
        case fail: False
        have "core_ok js cfg D (core_of (bump (\<lambda>st. st\<lparr> hs_backpressure := hs_backpressure st + 1 \<rparr>) s1))" using ok c1 by simp
        from core_ok_default [OF this] show ?thesis
          using Some False w fail by (simp only: on_dispatch_def Let_def option.case if_False prod.case bool.case)
      qed
    qed
  qed
qed

lemma core_ok_verdict:
  assumes "core_ok js cfg D (core_of s)" "hb_greeting s = None"
    and "\<And>p. hb_decider s = Some c \<Longrightarrow> map_of (hb_pending s) i = Some p \<Longrightarrow> (c, i, pd_flow p, r) \<in> D"
  shows "core_ok js cfg D (core_of (on_verdict cfg now c i r s))"
proof (cases "hb_decider s = Some c \<and> (\<exists>p. map_of (hb_pending s) i = Some p)")
  case True
  then obtain p where p: "hb_decider s = Some c" "map_of (hb_pending s) i = Some p" by blast
  have "(i, p) \<in> set (co_pending (core_of s))" using map_of_SomeD [OF p(2)] by (simp add: core_of_def)
  then have pd: "pd_reply p = i" "\<forall>pkt t. hb_waiting s i = Some (pkt, t) \<longrightarrow> pd_flow p = pkt_flow pkt"
    using assms(1) unfolding core_ok_def by (auto simp: core_of_def)
  note d = assms(3) [OF p]
  let ?s1 = "s\<lparr> hb_pending := AList.delete i (hb_pending s) \<rparr>"
  let ?e = "\<lparr> fe_action = vr_action r, fe_delay = vr_delay_ms r, fe_tag = vr_tag r,
      fe_expires = now + min (vr_ttl_ms r * 10 ^ 6) (hc_flow_ttl_cap cfg) \<rparr>"
  let ?s2 = "if vr_ttl_ms r > 0 then ?s1\<lparr> hb_flows := AList.update (pd_flow p) ?e (hb_flows ?s1) \<rparr> else ?s1"
  have "core_of ?s1 = (core_of s)\<lparr> co_pending := AList.delete i (co_pending (core_of s)) \<rparr>" by (simp add: core_of_def)
  moreover have "core_ok js cfg D ((core_of s)\<lparr> co_flows := co_flows (core_of s), co_asked := co_asked (core_of s),
      co_pending := AList.delete i (co_pending (core_of s)) \<rparr>)"
    by (rule core_ok_subset [OF assms(1) order_refl order_refl delete_member])
  ultimately have ok1: "core_ok js cfg D (core_of ?s1)" by simp
  have "core_of (?s1\<lparr> hb_flows := AList.update (pd_flow p) ?e (hb_flows ?s1) \<rparr>)
      = (core_of ?s1)\<lparr> co_flows := AList.update (pd_flow p) ?e (co_flows (core_of ?s1)) \<rparr>" by (simp add: core_of_def)
  then have ok2: "core_ok js cfg D (core_of ?s2)" using ok1 core_ok_flow [OF ok1 d, of ?e] by simp
  have "core_ok js cfg D (core_of (send_reply i r ?s2))"
    by (rule core_ok_send [OF ok2]) (use pd(2) d in \<open>auto split: if_splits\<close>)
  moreover have "on_verdict cfg now c i r s = send_reply i r ?s2"
    using p pd(1) by (simp add: on_verdict_def Let_def)
  ultimately show ?thesis by simp
qed (use assms(1) in \<open>auto simp: on_verdict_def\<close>)

lemma on_hello_core [simp]: "core_of (on_hello js c mode name s) = core_of s"
  by (simp add: on_hello_def core_of_def Let_def)

lemma on_stats_core [simp]: "core_of (on_stats js c n s) = core_of s"
  by (simp add: on_stats_def core_of_def split: option.split)

lemma core_ok_disconnect:
  assumes "core_ok js cfg D (core_of s)"
  shows "core_ok js cfg D (core_of (on_disconnect cfg c s))"
proof -
  have c: "core_of (s\<lparr> hb_clients := cl \<rparr>) = core_of s" for cl by (simp add: core_of_def)
  let ?s = "s\<lparr> hb_clients := AList.delete c (hb_clients s), hb_decider := None, hb_has_decider := False, hb_pending := [] \<rparr>"
  have "core_ok js cfg D ((core_of s)\<lparr> co_flows := co_flows (core_of s), co_asked := co_asked (core_of s), co_pending := [] \<rparr>)"
    by (rule core_ok_subset [OF assms]) simp_all
  moreover have "core_of ?s = (core_of s)\<lparr> co_pending := [] \<rparr>" by (simp add: core_of_def)
  ultimately have "core_ok js cfg D (core_of ?s)" by simp
  from core_ok_defaults [OF this, of "hb_pending s"] show ?thesis using assms c by (simp add: on_disconnect_def Let_def)
qed

section \<open>Every verdict has a decision behind it\<close>

lemma core_ok_next_msg:
  assumes "json_ok js" "core_ok js cfg D (core_of s)" "hb_queue s = m # ms" "hb_greeting s = None"
    and "\<And>d. decision_of (Dispatch_Next now) s = Some d \<Longrightarrow> d \<in> D"
  shows "core_ok js cfg D (core_of (dispatch_msg js cfg now m (s\<lparr> hb_queue := ms \<rparr>)))"
proof -
  let ?s = "s\<lparr> hb_queue := ms \<rparr>"
  have q: "co_asked (core_of s) = asked [m] @ asked ms" "core_of ?s = (core_of s)\<lparr> co_asked := asked ms \<rparr>"
    using assms(3) asked_simps(2) [of "[m]" ms] by (simp_all add: core_of_def)
  have "core_ok js cfg D ((core_of s)\<lparr> co_flows := co_flows (core_of s), co_asked := asked ms, co_pending := co_pending (core_of s) \<rparr>)"
    by (rule core_ok_subset [OF assms(2)]) (simp_all add: q(1))
  then have ok: "core_ok js cfg D (core_of ?s)" unfolding q(2) by simp
  show ?thesis
  proof (cases m)
    case (Msg_Dispatch d)
    have "(core_of ?s)\<lparr> co_asked := d # co_asked (core_of ?s) \<rparr> = core_of s" using q Msg_Dispatch by (simp add: core_of_def assms(3))
    then show ?thesis using core_ok_dispatch [OF assms(1), where s = ?s and d = d and now = now and cfg = cfg and D = D] assms(2) Msg_Dispatch by (simp add: dispatch_msg_def)
  next
    case (Msg_Verdict c i r)
    have "core_ok js cfg D (core_of (on_verdict cfg now c i r ?s))"
      by (rule core_ok_verdict [OF ok]) (use assms(3-5) Msg_Verdict in \<open>simp_all add: decision_of_def\<close>)
    then show ?thesis using Msg_Verdict by (simp add: dispatch_msg_def)
  next
    case (Msg_Disconnect c)
    then show ?thesis using core_ok_disconnect [OF ok] by (simp add: dispatch_msg_def)
  qed (use ok in \<open>simp_all add: dispatch_msg_def\<close>)
qed

lemma hook_step_ok:
  assumes "json_ok js" "core_ok js cfg D (core_of s)" "hook_step js cfg e s = Ok s'" "\<And>d. decision_of e s = Some d \<Longrightarrow> d \<in> D"
  shows "core_ok js cfg D (core_of s')"
proof -
  consider (evaluate) now ms dir pkt where "e = Evaluate now ms dir pkt" | (take_reply) i where "e = Take_Reply i"
    | (time_out) i now where "e = Time_Out i now" | (next_msg) now where "e = Dispatch_Next now"
    | (other) "core_of s' = core_of s"
    using quiet_step [OF assms(3)] by metis
  then show ?thesis
  proof cases
    case evaluate
    then show ?thesis using core_ok_evaluate [OF assms(2)] assms(3) by simp
  next
    case take_reply
    then show ?thesis using core_ok_take [OF assms(2)] assms(3) by auto
  next
    case time_out
    then show ?thesis using core_ok_time_out [OF assms(2)] assms(3) by auto
  next
    case next_msg
    then show ?thesis using assms(2,3) core_ok_next_msg [OF assms(1,2)] assms(4)
      by (auto split: list.splits if_splits)
  next
    case other
    then show ?thesis using assms(2) by simp
  qed
qed

lemma hook_run_ok:
  "hook_run js cfg es s = Ok s' \<Longrightarrow> json_ok js \<Longrightarrow> core_ok js cfg D (core_of s) \<Longrightarrow>
     core_ok js cfg (D \<union> set (decisions js cfg es s)) (core_of s')"
proof (induction es arbitrary: s D)
  case (Cons e es)
  obtain s1 where s1: "hook_step js cfg e s = Ok s1" "hook_run js cfg es s1 = Ok s'" using Cons.prems(1) by (auto split: outcome.splits)
  let ?D = "D \<union> set (case decision_of e s of Some d \<Rightarrow> [d] | None \<Rightarrow> [])"
  have "core_ok js cfg ?D (core_of s1)"
    by (rule hook_step_ok [OF Cons.prems(2) core_ok_mono [OF Cons.prems(3)] s1(1)]) auto
  from Cons.IH [OF s1(2) Cons.prems(2) this] show ?case by (simp add: s1(1) Un_assoc)
qed simp

text \<open>
  Every verdict is backed: whatever clients connect, say and cut, in whatever order the threads of the bus come, and
  whatever packets are asked about, a verdict that is not the configured default is the word of the client that held the
  place of the decider when it gave it: on this very event, or, from the cache, on an earlier one of the same flow,
  to which the client gave a lifetime. A client that only watches never decides.
\<close>

theorem verdicts_backed:
  assumes "hook_run js cfg es hook_start = Ok s" "json_ok js" "(pkt, i, v) \<in> set (hb_done s)"
  shows "backed cfg (set (decisions js cfg es hook_start)) pkt i v"
proof -
  have "core_ok js cfg ({} \<union> set (decisions js cfg es hook_start)) (core_of s)" by (rule hook_run_ok [OF assms(1,2) core_ok_start])
  then show ?thesis using assms(3) unfolding core_ok_def by (auto simp: core_of_def)
qed

section \<open>A client that does not read\<close>

text \<open>The dispatcher is greeting a client whose queue is full and whose writer holds its end.\<close>

definition stuck :: "hook_cfg \<Rightarrow> nat \<Rightarrow> hook_bus \<Rightarrow> bool" where
  "stuck cfg c s \<longleftrightarrow> (\<exists>slot ack. hb_greeting s = Some (c, slot, ack))
     \<and> (\<exists>t. hb_threads s c = Some t \<and> cl_open t \<and> hc_client_queue cfg \<le> length (cl_queue t))"

lemma stuck_same: "stuck cfg c s \<Longrightarrow> hb_greeting s' = hb_greeting s \<Longrightarrow> hb_threads s' = hb_threads s \<Longrightarrow> stuck cfg c s'"
  by (simp add: stuck_def)

lemma stuck_thread:
  assumes "stuck cfg c s" "hb_threads s b = Some t" "hb_greeting s' = hb_greeting s" "hb_threads s' = (hb_threads s)(b \<mapsto> t')"
    and "cl_open t' = cl_open t" "cl_queue t' = cl_queue t"
  shows "stuck cfg c s'"
  using assms by (auto simp: stuck_def)

lemma stuck_block:
  assumes "stuck cfg c s" "block_write cfg b line s = Some s'"
  shows "stuck cfg c s' \<and> (b = c \<longrightarrow> False)"
  using assms by (auto simp: stuck_def block_write_def split: option.splits if_splits)

lemma stuck_pass: "stuck cfg c s \<Longrightarrow> pass_on cfg m s = Some s' \<Longrightarrow> stuck cfg c s' \<and> hb_threads s' = hb_threads s"
  by (auto simp: pass_on_def stuck_def split: if_splits)

lemma stuck_reader:
  assumes "stuck cfg c s" "hb_threads s b = Some t"
  shows "reader_end cfg b t s = Some s' \<Longrightarrow> stuck cfg c s'"
    "reader_answer cfg b t s = Some s' \<Longrightarrow> stuck cfg c s'"
    "stuck cfg c (reader_gives_up b t s)"
proof -
  show "stuck cfg c s'" if e: "reader_end cfg b t s = Some s'"
  proof -
    obtain s1 where p: "pass_on cfg (Msg_Disconnect b) s = Some s1" "s' = s1\<lparr> hb_threads := (hb_threads s1)(b \<mapsto> t\<lparr> cl_reading := False \<rparr>) \<rparr>"
      using e by (auto simp: reader_end_def)
    note k = stuck_pass [OF assms(1) p(1)]
    show ?thesis by (rule stuck_thread [of cfg c s1 b t _ "t\<lparr> cl_reading := False \<rparr>"]) (use k assms(2) p(2) in simp_all)
  qed
  show "stuck cfg c s'" if "reader_answer cfg b t s = Some s'"
  proof (cases "cl_stats t")
    case (Answered line)
    have k: "stuck cfg c (s\<lparr> hb_threads := (hb_threads s)(b \<mapsto> t\<lparr> cl_stats := Not_Waiting \<rparr>) \<rparr>)"
      by (rule stuck_thread [OF assms(1,2), where t' = "t\<lparr> cl_stats := Not_Waiting \<rparr>"]) simp_all
    show ?thesis using stuck_block [OF k] that Answered by (auto simp: reader_answer_def)
  qed (use that assms in \<open>simp_all add: reader_answer_def\<close>)
  show "stuck cfg c (reader_gives_up b t s)"
    by (cases "cl_stats t = Waiting") (auto simp: reader_gives_up_def assms(1) intro: stuck_thread [OF assms(1,2)])
qed

lemma stuck_line:
  assumes "stuck cfg c s" "hb_threads s b = Some t" "reader_line js cfg b line t s = Some s'"
  shows "stuck cfg c s'"
proof -
  let ?t = "t\<lparr> cl_greeted := True \<rparr>"
  let ?s = "s\<lparr> hb_threads := (hb_threads s)(b \<mapsto> ?t) \<rparr>"
  have g: "stuck cfg c ?s" by (rule stuck_thread [OF assms(1,2), where t' = ?t]) simp_all
  have pass: "stuck cfg c s'" if "pass_on cfg m s0 = Some s'" "stuck cfg c s0" for m s0 using stuck_pass that by blast
  have wait: "stuck cfg c s'" if "pass_on cfg m s = Some s1" "s' = s1\<lparr> hb_threads := (hb_threads s1)(b \<mapsto> t\<lparr> cl_asked := n, cl_stats := Waiting \<rparr>) \<rparr>" for m s1 n
    using stuck_pass [OF assms(1) that(1)] assms(2) that(2)
    by (intro stuck_thread [of cfg c s1 b t s' "t\<lparr> cl_asked := n, cl_stats := Waiting \<rparr>"]) simp_all
  have bye: "stuck cfg c s'" if "block_write cfg b ack ?s = Some s1" "reader_end cfg b (the (hb_threads s1 b)) s1 = Some s'" for ack s1
  proof -
    have k: "stuck cfg c s1" using stuck_block [OF g that(1)] by simp
    have "\<exists>t1. hb_threads s1 b = Some t1" using that(1) by (auto simp: block_write_def split: if_splits)
    then obtain t1 where "hb_threads s1 b = Some t1" by blast
    from stuck_reader(1) [OF k this] that(2) show ?thesis by (simp add: \<open>hb_threads s1 b = Some t1\<close>)
  qed
  show ?thesis
    using assms(1,3) pass g wait bye
    by (auto simp: reader_line_def Let_def split: option.splits client_message.splits if_splits)
qed

lemma stuck_core:
  "stuck cfg c s \<Longrightarrow> stuck cfg c (take_reply cfg i s)" "stuck cfg c s \<Longrightarrow> stuck cfg c (time_out cfg now i s)"
  "stuck cfg c s \<Longrightarrow> evaluate js cfg now ms dir pkt s = Ok s' \<Longrightarrow> stuck cfg c s'"
  by (erule stuck_same; auto simp: take_reply_def time_out_def evaluate_def evaluate_miss_def ask_decider_def conclude_def stop_waiting_def bump_def
      purge_flows_def Let_def split: option.splits if_splits prod.splits outcome.splits)+

lemma stuck_with:
  assumes "stuck cfg c s" "\<And>t s'. hb_threads s b = Some t \<Longrightarrow> f t = Some s' \<Longrightarrow> stuck cfg c s'"
  shows "stuck cfg c (with_reader f b s)"
  using assms by (auto simp: with_reader_def if_ready_def split: option.split)

lemma stuck_step:
  assumes "stuck cfg c s" "hook_step js cfg e s = Ok s'" "e \<noteq> Line_Written c" "e \<noteq> Write_Failed c"
  shows "stuck cfg c s' \<and> decision_of e s = None"
proof -
  have g: "hb_greeting s \<noteq> None" using assms(1) by (auto simp: stuck_def)
  have "decision_of e s = None" using g by (auto simp: decision_of_def split: hook_event.split list.split hook_msg.split)
  moreover have "stuck cfg c s'"
  proof (cases e)
    case Greeted
    have "finish_hello cfg s = None" using assms(1) by (auto simp: stuck_def finish_hello_def block_write_def)
    then show ?thesis using assms(1,2) Greeted by (auto simp: if_ready_def)
  next
    case (Line b line)
    then show ?thesis using assms(2) stuck_line [OF assms(1)] by (auto intro!: stuck_with [OF assms(1)] split: if_splits)
  next
    case (Stats_Answer b)
    then show ?thesis using assms(2) stuck_reader(2) [OF assms(1)] by (auto intro!: stuck_with [OF assms(1)])
  next
    case (Stats_Give_Up b)
    then show ?thesis using assms(2) stuck_reader(3) [OF assms(1)] by (auto intro!: stuck_with [OF assms(1)])
  next
    case (Stream_End b)
    then show ?thesis using assms(2) stuck_reader(1) [OF assms(1)] by (auto intro!: stuck_with [OF assms(1)] split: if_splits)
  next
    case (Dispatch_Next now)
    then show ?thesis using assms(1,2) g by (auto split: list.splits)
  next
    case (Evaluate now ms dir pkt)
    then show ?thesis using assms(2) stuck_core(3) [OF assms(1)] by simp
  next
    case (Take_Reply i)
    then show ?thesis using assms(2) stuck_core(1) [OF assms(1)] by auto
  next
    case (Time_Out i now)
    then show ?thesis using assms(2) stuck_core(2) [OF assms(1)] by auto
  next
    case (Connected b)
    then show ?thesis using assms(1,2) by (auto simp: hook_connect_def stuck_def)
  next
    case (Line_Written b)
    then show ?thesis using assms by (auto simp: stuck_def split: option.splits)
  next
    case (Write_Failed b)
    then show ?thesis using assms by (auto simp: stuck_def split: option.splits)
  qed
  ultimately show ?thesis by blast
qed

text \<open>
  A client that does not read disarms the hook: anyone may connect and ask for statistics before saying hello; once its
  queue is full and it says hello, the dispatcher waits for room in that queue. As long as the client keeps the
  connection and reads nothing, no decision of the decider is taken any more, whatever else happens, so every packet that the
  cache does not know gets the default verdict.
\<close>

theorem stalled_client_disarms_hook:
  assumes "stuck cfg c s" "hook_run js cfg es s = Ok s'" "Line_Written c \<notin> set es" "Write_Failed c \<notin> set es"
  shows "decisions js cfg es s = [] \<and> stuck cfg c s'"
  using assms
proof (induction es arbitrary: s)
  case (Cons e es)
  obtain s1 where s1: "hook_step js cfg e s = Ok s1" "hook_run js cfg es s1 = Ok s'" using Cons.prems(2) by (auto split: outcome.splits)
  from stuck_step [OF Cons.prems(1) s1(1)] Cons.prems(3,4) have k: "stuck cfg c s1" "decision_of e s = None" by auto
  from Cons.IH [OF k(1) s1(2)] Cons.prems(3,4) show ?case by (simp add: s1(1) k(2))
qed simp

text \<open>A client reaches that point by itself.\<close>

definition toy_json :: hook_json where
  "toy_json = \<lparr> hj_event = \<lambda>e. replicate (ev_id e) CHR ''e'', hj_id = \<lambda>line. Some (length line),
     hj_client = \<lambda>line. if line = ''s'' then Some Client_Stats
       else if line = ''h'' then Some (Client_Hello (Some Decision) None None) else None,
     hj_ack = \<lambda>_. ''a'', hj_stats = \<lambda>_. ''t'', hj_base64 = \<lambda>_. [], hj_client_name = \<lambda>_. ''c'' \<rparr>"

definition toy_hook_cfg :: hook_cfg where
  "toy_hook_cfg = hook_cfg_default\<lparr> hc_client_queue := 1 \<rparr>"

definition toy_stall :: "hook_event list" where
  "toy_stall = [Connected 7, Line 7 ''s'', Dispatch_Next 0, Stats_Answer 7, Line 7 ''h'', Dispatch_Next 0]"

lemma toy_json_ok: "json_ok toy_json"
  by (simp add: json_ok_def toy_json_def)

lemma toy_stuck: "\<exists>s. hook_run toy_json toy_hook_cfg toy_stall hook_start = Ok s \<and> stuck toy_hook_cfg 7 s"
  by (simp add: toy_stall_def toy_json_def toy_hook_cfg_def hook_cfg_default_def hook_start_def hook_connect_def with_reader_def if_ready_def
      reader_line_def pass_on_def dispatch_msg_def on_stats_def reader_answer_def block_write_def on_hello_def stuck_def Let_def)

lemma stalled_client_disarms_hook_witness:
  "\<exists>s s'. hook_run toy_json toy_hook_cfg toy_stall hook_start = Ok s \<and> hook_run toy_json toy_hook_cfg [Connected 9, Line 9 ''h'', Dispatch_Next 5] s = Ok s'
    \<and> decisions toy_json toy_hook_cfg [Connected 9, Line 9 ''h'', Dispatch_Next 5] s = [] \<and> stuck toy_hook_cfg 7 s'"
proof -
  obtain s where s: "hook_run toy_json toy_hook_cfg toy_stall hook_start = Ok s" "stuck toy_hook_cfg 7 s" using toy_stuck by blast
  let ?es = "[Connected 9, Line 9 ''h'', Dispatch_Next 5]"
  obtain s' where r: "hook_run toy_json toy_hook_cfg ?es s = Ok s'" by simp
  from stalled_client_disarms_hook [OF s(2) r] s(1) r show ?thesis by auto
qed

end
