(* ===== verification/Spec2Isabelle.thy ===== *)
theory Spec2Isabelle
  imports CodecFragment CodecLayouts QosScheduler Firewall CompatPipeline Fec NeighProcessor FlowDelivery
    StaticRoute Fallback Failover AbuseGuard Observe DhtStore ZoneServer HostKeys Relay PlaneSafety PlaneRepair HookSafety
begin

text \<open>
  IPv8+ in Isabelle/HOL: the packet formats, the encrypted tunnel, the services of a node and the cloud services of
  the Rust workspace under \<open>src/src\<close>.

  \<^bold>\<open>The program.\<close> A node reads IP packets from a TUN device, asks the firewall, lets the router
  compatibility layer (TTL, MSS, ICMP errors) change or answer them, and hands them to the tunnel engine. The engine
  runs a handshake with its peer, plain or authenticated by certificates, wraps each packet in an IPv8+ packet,
  fragments it to the MTU, and seals the fragments under keys that rotate with the time. The frames go to the
  peer directly, through relays or along a signed path of several hops; forward error correction and a second path
  cover losses, which an observer measures and reports back. Around the tunnel stand neighbour discovery on the local
  link, static routing, the graded fallback to plain IP, failover between relays and the guard against abuse. In the
  cloud, the zone server certifies addresses, the resolver tells where an address is (from memory, behind a cache
  or on a Chord ring), and the naming service finds agents by name and by capability.

  \<^bold>\<open>Conventions.\<close> A struct is a record, an enum a datatype, an unsigned integer of \<open>w\<close> bits a
  \<open>w word\<close>, whose arithmetic wraps; where the code checks, saturates or panics instead, that is written out.
  A \<open>usize\<close> that counts bytes or entries in memory is a \<open>nat\<close>. Byte strings and fixed arrays are lists of
  bytes, and the lengths of arrays are part of the well-formedness predicates. An error is the left of a sum, a
  panic the value \<open>Panic\<close> of \<open>outcome\<close>, and a loop is a recursive function; where a loop could run on, it is
  a partial function and its end is a theorem, or it has fuel and the bound is a theorem. Clocks and random secrets
  are arguments of the operation that reads them. A hash map is an association list with distinct keys where its size or
  its iteration matters (any order of the list stands for the order of the iteration), else a HOL map. Threads are
  steps in any order. The cryptography of other crates is a record of functions (\<open>crypto\<close>, \<open>ed25519\<close>,
  \<open>x25519\<close>, and SHA-256 as a function): the properties name what they need of it, that decryption inverts
  encryption, that verification accepts signatures of the key, that both sides of a Diffie-Hellman exchange agree,
  and the witnesses instantiate it with concrete functions. Nothing is claimed of the strength of the ciphers.

  \<^bold>\<open>Library.\<close> \<open>Prelude\<close> holds words, bytes, slices, \<open>outcome\<close> and three interfaces: \<open>fixed_codec\<close>
  (a decoder of fixed width that inverts an encoder; provided by addresses, fragment headers, reservations, agent
  cards, the tables of a recovery frame and the records of neighbours), \<open>recent_ring\<close> (a bounded list that
  remembers the latest entries; provided by the nonces of neighbours, the groups of the FEC receiver and the events of
  the failover) and \<open>replay_guard\<close> (a step that never accepts one key twice; provided by the replay window and
  by the whole receiving side of the tunnel keys). Further interfaces stand with their clients: \<open>hysteresis\<close> in
  \<open>ObservePolicy\<close> (breaker and FEC gate), \<open>source_router\<close> in \<open>StaticRoute\<close> (the trait \<open>Router\<close>), and
  \<open>entry_store\<close> with its extensions \<open>counted_store\<close> and \<open>cached_store\<close> in \<open>ResolverStore\<close> (the trait \<open>Store\<close>, what its
  sweep counts, the memory store, and the cache, which is again such a store by \<open>sublocale\<close>). Each is interpreted on the model of the code.

  \<^bold>\<open>Packets\<close> (\<open>core/ipv8-codec\<close>).
  \<^item> \<open>CodecHeader\<close>: \<open>header.rs\<close>, addresses with wire and text form, flags, extension types, the base header.
  \<^item> \<open>CodecWire\<close>: \<open>encode.rs\<close>, \<open>decode.rs\<close>, \<open>version.rs\<close>, \<open>compat.rs\<close>. The decoder is total, reads back what the encoder
    accepts, and what it accepts has a well-formed chain of distinct types.
  \<^item> \<open>CodecLayouts\<close>: \<open>layouts.rs\<close>, the payloads of reservation, route trace, agent card and tags with round trips.
  \<^item> \<open>CodecFragment\<close>: \<open>fragment.rs\<close>, cutting to the MTU and the reassembler; any order of arrival gives the
    packet back, the tables stay bounded, and one reserved flag bit makes it panic.

  \<^bold>\<open>Packet services.\<close>
  \<^item> \<open>QosScheduler\<close> (\<open>ipv8-qos\<close>): classes, reservations and the bounded priority queue, against one arrival list.
  \<^item> \<open>Firewall\<close> (\<open>ipv8-firewall\<close>): protocols, rules and the first match.
  \<^item> \<open>CompatChecksum\<close>, \<open>CompatRouter\<close>, \<open>CompatPipeline\<close> (\<open>ipv8-compat\<close>): RFC 1071 sums with incremental update, TTL,
    multicast, MSS clamping, ICMP errors, and the pipelines of both directions.
  \<^item> \<open>Fec\<close> (\<open>ipv8-fec\<close>): sender, recovery frames, receiver; a group that lost one frame gets it back.

  \<^bold>\<open>The tunnel\<close> (\<open>core/ipv8-tunnel\<close>).
  \<^item> \<open>TunnelWindow\<close>, \<open>TunnelKeys\<close>, \<open>TunnelReplay\<close>, \<open>TunnelNonces\<close>: \<open>crypto.rs\<close>. The window refines the set of accepted
    counters; over every interleaving of sealing, receiving and rotating, no nonce repeats and no frame is accepted twice.
  \<^item> \<open>TunnelFrame\<close>: \<open>frame.rs\<close>, \<open>encapsulate.rs\<close>, \<open>handshake.rs\<close>; two nodes in step get their packets through.
  \<^item> \<open>TunnelAuth\<close>: \<open>auth.rs\<close>, certificates, proofs of possession and the signed handshake, with agreement.
  \<^item> \<open>TunnelEngine\<close>, \<open>EngineSafety\<close>, \<open>EngineDelivery\<close>, \<open>EngineMultihop\<close>: \<open>engine.rs\<close> and its composition with all the above;
    \<open>engine_step\<close> is the relation of all operations, and its reachable states carry the invariants.
  \<^item> \<open>FlowShards\<close>, \<open>FlowDelivery\<close>: \<open>flow.rs\<close>, the shards of a tunnel with their worker threads.
  \<^item> \<open>Fallback\<close>, \<open>Failover\<close>, \<open>AbuseGuard\<close>: \<open>fallback.rs\<close>, \<open>relay_failover.rs\<close>, \<open>abuse_guard.rs\<close>, three state machines.

  \<^bold>\<open>Routing, neighbours, observation.\<close>
  \<^item> \<open>RouteTrace\<close> and \<open>StaticRoute\<close> (\<open>ipv8-routing\<close>): path signatures, breadth-first search with its exactness and end.
  \<^item> \<open>Chord\<close> and \<open>ChordRing\<close> (\<open>cf.rs\<close>): lookup, join, stabilize and the table of keys; a lookup takes at most as many
    steps as \<open>FINGER_COUNT\<close> on a ring in order, within the 64 that the code allows.
  \<^item> \<open>NeighWire\<close> and \<open>NeighProcessor\<close> (\<open>ipv8-neigh\<close>): messages, store, and the processor with its rings of nonces.
  \<^item> \<open>ObserveWindow\<close>, \<open>ObservePolicy\<close>, \<open>Observe\<close> (\<open>ipv8-observe\<close>): metering, reports, breaker, gate and congestion control.

  \<^bold>\<open>Cloud services\<close> (\<open>src/src/cloud\<close>).
  \<^item> \<open>ResolverStore\<close>, \<open>Resolver\<close>, \<open>DhtStore\<close>: \<open>resolver/src/lib.rs\<close>, \<open>cached_store.rs\<close>, \<open>dht_store.rs\<close>. The service is
    shown to refine the service over a plain map within \<open>counted_store\<close>; the cache and the ring are stores, the
    ring one only up to its coarse keys.
  \<^item> \<open>Ans\<close>, \<open>AnsProperties\<close>: \<open>ans/src/lib.rs\<close>, registration, names, search, plans with leases.
  \<^item> \<open>ZoneServer\<close>: \<open>zoneserver/src/lib.rs\<close>, certificates, tokens, rotation of keys, and the use of its certificates
    by the other services.
  \<^item> \<open>HostKeys\<close>: all that one host key signs, across \<open>auth.rs\<close>, \<open>engine.rs\<close>, the cloud services and the neighbour protocol;
    no other message reads as a handshake message, so that acceptance of a handshake proves a handshake of the host.

  \<^bold>\<open>The node\<close> (\<open>adapter/wintun-node/src/main.rs\<close>, \<open>tools/ws-node/src/main.rs\<close>).
  \<^item> \<open>NodeCert\<close>: certificates on the wire and in the cache file.
  \<^item> \<open>Relay\<close>: the relay of \<open>ws-node\<close>, its hub and its sessions as events in any order; routes are certified, and what goes
    through the relay reaches the engine at the other end.
  \<^item> \<open>NodeSched\<close>: where packets go (\<open>Transport\<close>, \<open>Sched\<close>), the hub of the shards, and the tick of the main loop. The tick takes
    its locks one after the other; \<open>between\<close> is what the other threads do at each point, \<open>tick_in\<close> the tick with it,
    and \<open>tick\<close> the tick that nothing comes between. The one way to stop the loop is proved to be the only one.
  \<^item> \<open>NodePlane\<close>, \<open>PlaneSafety\<close>, \<open>PlaneRepair\<close>: \<open>Plane\<close>, a datagram on its way in, a batch on its way out and the reports. Each
    is a run of the engine's steps, so the invariants of the engine hold for a node; a rebuilt frame goes round once at most;
    and the repair of losses is shown to come too early when packets arrive in order.
  \<^item> \<open>HookPacket\<close>, \<open>Hook\<close>, \<open>HookSafety\<close> (\<open>core/ipv8-hook\<close>): what the hook reads of a packet (it never panics, and its keys tell
    flows apart), and the bus with its dispatcher and clients as events in any order. A verdict other than the default is the
    word of the decider, on that event or on an earlier one of the flow.

  \<^bold>\<open>Bounds and fuel.\<close> The search of \<open>StaticRoute\<close> has the number of unvisited nodes as its measure, and its way back
  is a partial function shown to end. The lookup of the ring runs 64 rounds as in the code. The FEC receiver's loop that
  drops old groups is bounded by the length of its ring. The engine's counters are natural numbers, since \<open>2^64\<close> frames
  cannot be sent; those of the keys are words, and the properties about nonces state how many frames they cover where it
  matters. Times are nanoseconds as natural numbers, or words where the code wraps.

  \<^bold>\<open>What the model shows to be wrong.\<close> Several statements are about what the code does against its own
  documentation, each proved on the same definitions: a fragment that panics the node
  (\<open>peer_fragment_stops_engine\<close>), nonces used twice after a split (\<open>split_shards_reuses_nonces\<close>), a recorded first message that
  tears a tunnel down (\<open>recorded_init_replaces_keys\<close>), addresses of the resolver and the zone server that others can take
  (\<open>address_taken_over\<close>, \<open>recorded_registration_takes_address\<close>), a key of the ring store that all hosts of a
  region share (\<open>region_shares_entry\<close>), routes of the relay that are cut or taken (\<open>stale_close_cuts_route\<close>,
  \<open>recorded_bundle_takes_route\<close>), a quiet tunnel that is given up for plain text (\<open>idle_tunnel_goes_plain\<close>), a first message
  that stops the main loop (\<open>init_between_read_and_start_panics\<close>), a sweep that counts twice (\<open>cached_sweep_counts_twice\<close>), a
  recorded message that takes the entry of a running tunnel (\<open>recorded_init_moves_entry\<close>), a recovery frame that is of no use
  (\<open>recovery_sent_too_early\<close>), and a client that stops the hook by not reading (\<open>stalled_client_disarms_hook\<close>).

  \<^bold>\<open>Not modelled.\<close> Sockets, device handles, threads, command lines and files; of the adapters and tools, all but the parts
  named above (the token bucket, the second event loop and the enrolment over gRPC of \<open>wintun-node\<close>, the client, forwarder and
  benchmark tools); the worker of the device; generated gRPC code and its glue; SQL; the C interface. The texts
  inside error values and log lines are left out throughout, as are floating-point statistics that only a display reads.
\<close>

end
